(* ===== verification/CCol_Prelude.thy ===== *)
theory CCol_Prelude
  imports "HOL-Library.Word" "HOL-Library.Monad_Syntax"
begin

text \<open>
  The vocabulary that every component theory shares: the return codes of
  \<^verbatim>\<open>include/common.h\<close>, \<^verbatim>\<open>size_t\<close> arithmetic with its wrap-around written out,
  byte buffers with the copies that the C code makes into them, and the
  allocator as an environment that answers every request.

  Conventions.  An operation that the code ends with \<^verbatim>\<open>abort()\<close> (a failed
  \<^verbatim>\<open>_ccol_assert\<close>) has the value \<^term>\<open>None\<close>; a handle is an \<open>option\<close>
  whose \<^term>\<open>None\<close> is the null handle.  A \<^verbatim>\<open>size_t\<close> is a \<^typ>\<open>nat\<close>
  that is at most \<open>SIZE_MAX\<close> of an LP64 target, and the operators
  \<open>sz_add\<close>, \<open>sz_sub\<close> and \<open>sz_mul\<close> are its modular arithmetic.
\<close>

section \<open>Sizes\<close>

named_theorems size_defs
named_theorems buf_simps

type_synonym byte = "8 word"
type_synonym size_t = nat

definition SIZE_MAX :: size_t where
  [size_defs]: "SIZE_MAX = 18446744073709551615"

definition ccol_invalid_size :: size_t where
  [size_defs]: "ccol_invalid_size = SIZE_MAX"

definition ccol_max_elem_count :: size_t where
  [size_defs]: "ccol_max_elem_count = 9223372036854775808"

definition sz_add :: "size_t \<Rightarrow> size_t \<Rightarrow> size_t" where
  "sz_add a b = (a + b) mod (SIZE_MAX + 1)"

definition sz_mul :: "size_t \<Rightarrow> size_t \<Rightarrow> size_t" where
  "sz_mul a b = (a * b) mod (SIZE_MAX + 1)"

definition sz_sub :: "size_t \<Rightarrow> size_t \<Rightarrow> size_t" where
  "sz_sub a b = (a + (SIZE_MAX + 1) - b) mod (SIZE_MAX + 1)"

lemma sz_add_exact: "a + b \<le> SIZE_MAX \<Longrightarrow> sz_add a b = a + b"
  by (simp add: sz_add_def)

lemma sz_mul_exact: "a * b \<le> SIZE_MAX \<Longrightarrow> sz_mul a b = a * b"
  by (simp add: sz_mul_def)

lemma sz_sub_exact:
  assumes "b \<le> a" "a \<le> SIZE_MAX"
  shows "sz_sub a b = a - b"
proof -
  have "a + (SIZE_MAX + 1) - b = (a - b) + (SIZE_MAX + 1)" using assms by simp
  moreover have "(a - b) < SIZE_MAX + 1" using assms by simp
  ultimately show ?thesis by (metis mod_add_self2 mod_less sz_sub_def)
qed

lemma sz_add_le: "sz_add a b \<le> SIZE_MAX"
  using mod_less_divisor [of "SIZE_MAX + 1" "a + b"] by (simp add: sz_add_def)

lemma sz_mul_le: "sz_mul a b \<le> SIZE_MAX"
  using mod_less_divisor [of "SIZE_MAX + 1" "a * b"] by (simp add: sz_mul_def)

lemma sz_add_overflow:
  assumes "a \<le> SIZE_MAX" "b \<le> SIZE_MAX"
  shows "sz_add a b < a \<longleftrightarrow> SIZE_MAX < a + b"
proof (cases "SIZE_MAX < a + b")
  case True
  then have "a + b = (a + b - (SIZE_MAX + 1)) + (SIZE_MAX + 1)" by simp
  moreover have "a + b - (SIZE_MAX + 1) < SIZE_MAX + 1" using assms by simp
  ultimately have "sz_add a b = a + b - (SIZE_MAX + 1)"
    by (metis mod_add_self2 mod_less sz_add_def)
  then show ?thesis using True assms by simp
qed (simp add: sz_add_exact)

lemma le_div_mult_le: "b > 0 \<Longrightarrow> a \<le> c div b \<Longrightarrow> a * b \<le> (c::nat)"
  using less_eq_div_iff_mult_less_eq by blast

lemma not_le_div_mult_less: "b > 0 \<Longrightarrow> \<not> a \<le> c div b \<Longrightarrow> (c::nat) < a * b"
  using less_eq_div_iff_mult_less_eq by (meson not_le)

section \<open>Powers of two\<close>

definition pow2 :: "nat \<Rightarrow> bool" where
  "pow2 n \<longleftrightarrow> (\<exists>k. n = 2 ^ k)"

lemma pow2I [intro]: "pow2 (2 ^ k)"
  by (auto simp: pow2_def)

lemma pow2_double: "pow2 n \<Longrightarrow> pow2 (2 * n)"
  by (metis pow2_def power_Suc)

lemma pow2_pos: "pow2 n \<Longrightarrow> 0 < n"
  by (auto simp: pow2_def)

lemma pow2_half:
  assumes "pow2 n" "4 < n"
  shows "pow2 (n div 2)" "4 \<le> n div 2" "2 * (n div 2) = n"
proof -
  obtain k where k: "n = 2 ^ k" using assms by (auto simp: pow2_def)
  have "(2::nat) ^ 2 < 2 ^ k" using assms k by simp
  then have "2 < k" by (rule power_less_imp_less_exp [rotated]) simp
  then obtain m where m: "k = Suc (Suc (Suc m))"
    by (metis Suc_less_eq2 less_imp_Suc_add add_Suc numeral_2_eq_2)
  show "pow2 (n div 2)" "4 \<le> n div 2" "2 * (n div 2) = n"
    using k m by (auto simp: pow2_def intro: exI [of _ "Suc (Suc m)"])
qed

lemma pow2_le_less_double:
  assumes "pow2 a" "pow2 b" "a < 2 * b"
  shows "a \<le> b"
proof -
  obtain i j where ij: "a = 2 ^ i" "b = 2 ^ j" using assms by (auto simp: pow2_def)
  have "(2::nat) ^ i < 2 ^ Suc j" using assms ij by simp
  then have "i < Suc j" by (rule power_less_imp_less_exp [rotated]) simp
  then show ?thesis using ij by simp
qed

section \<open>Return codes\<close>

text \<open>\<^verbatim>\<open>ccol_retval_t\<close>, in the order of the enumeration.\<close>

datatype ccol_retval =
    ccol_unexpected_failure
  | ccol_http_connection_failed
  | ccol_http_host_resolution_failed
  | ccol_http_tls_handshake_failed
  | ccol_http_tls_cert_verification_failed
  | ccol_http_tls_cert_load_failed
  | ccol_http_too_many_redirects
  | ccol_http_invalid_url
  | ccol_http_transfer_aborted
  | ccol_msg_too_large
  | ccol_container_empty
  | ccol_container_full
  | ccol_timed_out
  | ccol_not_permitted
  | ccol_invalid_args
  | ccol_key_not_found
  | ccol_key_already_present
  | ccol_not_enough_memory
  | ccol_success

section \<open>The allocator\<close>

text \<open>
  Which requests succeed and what a fresh block holds is up to the allocator,
  so both are part of the environment: \<open>answers\<close> lists the answers to the
  coming requests, and a granted request carries the bytes the block starts
  with.  An exhausted list refuses.  \<open>live\<close> holds the identities of the
  blocks that have been handed out and not freed, and \<open>next_blk\<close> is the
  identity of the next block.  A reallocation keeps the identity of its block.
\<close>

datatype answer = Refuse | Grant "nat \<Rightarrow> byte"

record heap =
  answers :: "answer list"
  next_blk :: nat
  live :: "nat set"

definition heap_ok :: "heap \<Rightarrow> bool" where
  "heap_ok h \<longleftrightarrow> (\<forall>b \<in> live h. b < next_blk h)"

definition mem_alloc :: "heap \<Rightarrow> size_t \<Rightarrow> (nat \<times> byte list) option \<times> heap" where
  "mem_alloc h n =
     (case answers h of
        [] \<Rightarrow> (None, h)
      | Refuse # as \<Rightarrow> (None, h\<lparr>answers := as\<rparr>)
      | Grant f # as \<Rightarrow>
          (Some (next_blk h, map f [0..<n]),
           h\<lparr>answers := as, next_blk := Suc (next_blk h),
             live := insert (next_blk h) (live h)\<rparr>))"

definition mem_calloc :: "heap \<Rightarrow> size_t \<Rightarrow> (nat \<times> byte list) option \<times> heap" where
  "mem_calloc h n =
     (case mem_alloc h n of
        (None, h') \<Rightarrow> (None, h')
      | (Some (b, _), h') \<Rightarrow> (Some (b, replicate n 0), h'))"

definition mem_realloc :: "heap \<Rightarrow> byte list \<Rightarrow> size_t \<Rightarrow> byte list option \<times> heap" where
  "mem_realloc h old n =
     (case answers h of
        [] \<Rightarrow> (None, h)
      | Refuse # as \<Rightarrow> (None, h\<lparr>answers := as\<rparr>)
      | Grant f # as \<Rightarrow>
          (Some (take n old @ map f [length old..<n]), h\<lparr>answers := as\<rparr>))"

definition mem_free :: "heap \<Rightarrow> nat \<Rightarrow> heap" where
  "mem_free h b = h\<lparr>live := live h - {b}\<rparr>"

text \<open>The allocator refuses the next request, whatever its size.\<close>

definition refused :: "heap \<Rightarrow> bool" where
  "refused h = (case answers h of Grant f # as \<Rightarrow> False | _ \<Rightarrow> True)"

lemma mem_alloc_refused:
  "mem_alloc h n = (None, h') \<Longrightarrow> refused h"
  "mem_alloc h n = (Some x, h') \<Longrightarrow> \<not> refused h"
  by (auto simp: mem_alloc_def refused_def split: list.splits answer.splits)

lemma mem_alloc_None:
  "mem_alloc h n = (None, h') \<Longrightarrow> live h' = live h \<and> next_blk h' = next_blk h"
  by (auto simp: mem_alloc_def split: list.splits answer.splits)

lemma mem_alloc_Some:
  "mem_alloc h n = (Some (b, bs), h') \<Longrightarrow>
     b = next_blk h \<and> length bs = n \<and> live h' = insert b (live h) \<and> next_blk h' = Suc b"
  by (auto simp: mem_alloc_def split: list.splits answer.splits)

lemma mem_calloc_None:
  "mem_calloc h n = (None, h') \<Longrightarrow> live h' = live h \<and> next_blk h' = next_blk h"
  by (auto simp: mem_calloc_def mem_alloc_None split: prod.splits option.splits)

lemma mem_calloc_Some:
  "mem_calloc h n = (Some (b, bs), h') \<Longrightarrow>
     b = next_blk h \<and> bs = replicate n 0 \<and> live h' = insert b (live h) \<and> next_blk h' = Suc b"
  by (auto simp: mem_calloc_def dest!: mem_alloc_Some split: prod.splits option.splits)

lemma mem_realloc_live: "mem_realloc h old n = (r, h') \<Longrightarrow> live h' = live h \<and> next_blk h' = next_blk h"
  by (auto simp: mem_realloc_def split: list.splits answer.splits)

lemma mem_realloc_Some:
  "mem_realloc h old n = (Some bs, h') \<Longrightarrow>
     length bs = n \<and> take (min n (length old)) bs = take n old"
  by (auto simp: mem_realloc_def min_def split: list.splits answer.splits)

text \<open>
  What a call that leaves no block behind and takes none away does to the heap,
  and what a call does that takes over \<open>b\<close> blocks and hands out \<open>a\<close>.
\<close>

definition blocks_kept :: "heap \<Rightarrow> heap \<Rightarrow> bool" where
  "blocks_kept h h' \<longleftrightarrow> live h' = live h \<and> next_blk h \<le> next_blk h'"

definition blocks_moved :: "nat set \<Rightarrow> nat set \<Rightarrow> heap \<Rightarrow> heap \<Rightarrow> bool" where
  "blocks_moved b a h h' \<longleftrightarrow> next_blk h \<le> next_blk h' \<and> a \<subseteq> live h' \<and> live h' - a = live h - b
     \<and> (\<forall>x \<in> live h'. x \<in> live h \<or> next_blk h \<le> x \<and> x < next_blk h')"

lemma blocks_kept_refl [simp]: "blocks_kept h h"
  by (simp add: blocks_kept_def)

lemma blocks_kept_trans: "blocks_kept h h1 \<Longrightarrow> blocks_kept h1 h2 \<Longrightarrow> blocks_kept h h2"
  by (auto simp: blocks_kept_def)

lemma blocks_kept_heap_ok: "blocks_kept h h' \<Longrightarrow> heap_ok h \<Longrightarrow> heap_ok h'"
  by (fastforce simp: blocks_kept_def heap_ok_def)

lemma blocks_moved_heap_ok: "blocks_moved b a h h' \<Longrightarrow> heap_ok h \<Longrightarrow> heap_ok h'"
  by (fastforce simp: blocks_moved_def heap_ok_def)

lemma blocks_kept_moved: "blocks_kept h h' \<Longrightarrow> b \<subseteq> live h \<Longrightarrow> blocks_moved b b h h'"
  by (auto simp: blocks_kept_def blocks_moved_def)

lemma blocks_moved_trans:
  assumes "blocks_moved a b h h1" "blocks_moved b c h1 h2"
  shows "blocks_moved a c h h2"
proof -
  have "x \<in> live h \<or> next_blk h \<le> x \<and> x < next_blk h2" if x: "x \<in> live h2" for x
  proof (cases "x \<in> live h1")
    case True
    then have "x \<in> live h \<or> next_blk h \<le> x \<and> x < next_blk h1" using assms(1) by (simp add: blocks_moved_def)
    then show ?thesis using assms(2) by (auto simp: blocks_moved_def)
  next
    case False
    then have "next_blk h1 \<le> x \<and> x < next_blk h2" using assms(2) x by (auto simp: blocks_moved_def)
    then show ?thesis using assms(1) by (auto simp: blocks_moved_def)
  qed
  then show ?thesis using assms by (simp add: blocks_moved_def)
qed

lemma mem_realloc_kept: "mem_realloc h old n = (r, h') \<Longrightarrow> blocks_kept h h'"
  using mem_realloc_live by (simp add: blocks_kept_def)

lemma mem_realloc_grow:
  "mem_realloc h old n = (Some bs, h') \<Longrightarrow> length old \<le> n \<Longrightarrow>
     length bs = n \<and> take (length old) bs = old"
  by (auto simp: mem_realloc_def split: list.splits answer.splits)

lemma mem_realloc_shrink:
  "mem_realloc h old n = (Some bs, h') \<Longrightarrow> n \<le> length old \<Longrightarrow> bs = take n old"
  by (auto simp: mem_realloc_def split: list.splits answer.splits)

lemma heap_ok_fresh: "heap_ok h \<Longrightarrow> next_blk h \<notin> live h"
  by (auto simp: heap_ok_def)

lemma mem_free_simps [simp]:
  "live (mem_free h b) = live h - {b}" "next_blk (mem_free h b) = next_blk h"
  "answers (mem_free h b) = answers h"
  by (simp_all add: mem_free_def)

text \<open>
  \<^verbatim>\<open>ccol_memmgmt_procs_t\<close>: four function pointers, \<open>0\<close> for a null one, and
  the three kinds of pointer a container is created with: null (the default
  allocator), a pointer into the intern table, and a struct of the caller.
\<close>

record procs =
  p_malloc :: nat
  p_calloc :: nat
  p_realloc :: nat
  p_free :: nat

datatype mprocs = DefaultProcs | InternedProcs procs | CallerProcs procs

definition ccol_verify_memmgmt_procs :: "mprocs \<Rightarrow> bool" where
  "ccol_verify_memmgmt_procs mp =
     (case mp of
        DefaultProcs \<Rightarrow> True
      | InternedProcs p \<Rightarrow> p_malloc p \<noteq> 0 \<and> p_calloc p \<noteq> 0 \<and> p_realloc p \<noteq> 0 \<and> p_free p \<noteq> 0
      | CallerProcs p \<Rightarrow> p_malloc p \<noteq> 0 \<and> p_calloc p \<noteq> 0 \<and> p_realloc p \<noteq> 0 \<and> p_free p \<noteq> 0)"

section \<open>Byte buffers\<close>

text \<open>
  \<open>peek d off n\<close> reads \<open>n\<close> cells at \<open>off\<close>; \<open>poke d off bs\<close> is what a
  \<^verbatim>\<open>memcpy\<close> or a \<^verbatim>\<open>memmove\<close> of \<open>bs\<close> to \<open>off\<close> leaves.  A copy
  reads its whole source before it writes, which is \<^verbatim>\<open>memmove\<close>'s contract and
  \<^verbatim>\<open>memcpy\<close>'s for ranges that do not overlap.
\<close>

definition peek :: "'a list \<Rightarrow> nat \<Rightarrow> nat \<Rightarrow> 'a list" where
  "peek d off n = take n (drop off d)"

definition poke :: "'a list \<Rightarrow> nat \<Rightarrow> 'a list \<Rightarrow> 'a list" where
  "poke d off bs = take off d @ bs @ drop (off + length bs) d"

lemma length_peek [buf_simps]: "off + n \<le> length d \<Longrightarrow> length (peek d off n) = n"
  by (simp add: peek_def)

lemma length_poke [buf_simps]: "off + length bs \<le> length d \<Longrightarrow> length (poke d off bs) = length d"
  by (simp add: poke_def)

lemma peek_0 [buf_simps]: "peek d off 0 = []"
  by (simp add: peek_def)

lemma peek_at_0 [buf_simps]: "peek d 0 n = take n d"
  by (simp add: peek_def)

lemma peek_poke_same [buf_simps]:
  "off \<le> length d \<Longrightarrow> n = length bs \<Longrightarrow> peek (poke d off bs) off n = bs"
  by (simp add: peek_def poke_def)

lemma peek_poke_before [buf_simps]:
  "i + n \<le> off \<Longrightarrow> off \<le> length d \<Longrightarrow> peek (poke d off bs) i n = peek d i n"
  by (simp add: peek_def poke_def take_drop min_def)

lemma peek_poke_after:
  assumes "off + length bs \<le> i" "off \<le> length d"
  shows "peek (poke d off bs) i n = peek d i n"
proof -
  have "drop i (take off d @ bs @ drop (off + length bs) d)
      = drop (i - (off + length bs)) (drop (off + length bs) d)"
    using assms by simp
  then show ?thesis using assms by (simp add: peek_def poke_def)
qed

lemma take_poke [buf_simps]: "n \<le> off \<Longrightarrow> off \<le> length d \<Longrightarrow> take n (poke d off bs) = take n d"
  by (simp add: poke_def min_def)

lemma take_poke_end:
  "off \<le> length d \<Longrightarrow> n = off + length bs \<Longrightarrow> take n (poke d off bs) = take off d @ bs"
  by (simp add: poke_def)

lemma peek_take: "i + n \<le> m \<Longrightarrow> peek (take m d) i n = peek d i n"
  by (simp add: peek_def drop_take min_def)

lemma peek_peek: "j + m \<le> n \<Longrightarrow> peek (peek d i n) j m = peek d (i + j) m"
  by (simp add: peek_def drop_take min_def add.commute)

lemma peek_append_left: "i + n \<le> length xs \<Longrightarrow> peek (xs @ ys) i n = peek xs i n"
  by (simp add: peek_def)

lemma nth_poke:
  "off + length bs \<le> length d \<Longrightarrow> i < length d \<Longrightarrow>
     poke d off bs ! i = (if off \<le> i \<and> i < off + length bs then bs ! (i - off) else d ! i)"
  by (auto simp: poke_def nth_append min_def not_less)

lemma poke_peek: "off + n \<le> length d \<Longrightarrow> poke d off (peek d off n) = d"
proof -
  assume "off + n \<le> length d"
  then have "poke d off (peek d off n) = take off d @ take n (drop off d) @ drop n (drop off d)"
    by (simp add: poke_def peek_def add.commute)
  then show ?thesis by (simp only: append_take_drop_id)
qed

lemma poke_Nil [simp]: "poke d off [] = d"
  by (simp add: poke_def)

text \<open>
  A pointer argument of a container operation: null, a pointer to memory of
  the caller (the cells from it on), or a pointer at a cell offset into the
  container's own buffer.
\<close>

datatype 'a cptr = Null | Ext "'a list" | Self nat

definition read_ptr :: "'a list \<Rightarrow> 'a cptr \<Rightarrow> nat \<Rightarrow> 'a list" where
  "read_ptr d p n = (case p of Null \<Rightarrow> [] | Ext bs \<Rightarrow> take n bs | Self off \<Rightarrow> peek d off n)"

text \<open>The cells a pointer gives access to: what makes a read of \<open>n\<close> cells defined.\<close>

definition readable :: "'a list \<Rightarrow> 'a cptr \<Rightarrow> nat \<Rightarrow> bool" where
  "readable d p n =
     (case p of Null \<Rightarrow> False | Ext bs \<Rightarrow> n \<le> length bs | Self off \<Rightarrow> off + n \<le> length d)"

lemma length_read_ptr [buf_simps]: "readable d p n \<Longrightarrow> length (read_ptr d p n) = n"
  by (auto simp: readable_def read_ptr_def peek_def split: cptr.splits)

text \<open>
  Copies of \<open>n\<close> cells to offset \<open>dst\<close> of a buffer.  \<^term>\<open>None\<close> is a copy the C
  standard leaves undefined: one that leaves the source or the destination
  object, and for \<^verbatim>\<open>memcpy\<close> one between overlapping ranges.
\<close>

definition memmove :: "'a list \<Rightarrow> nat \<Rightarrow> 'a cptr \<Rightarrow> nat \<Rightarrow> 'a list option" where
  "memmove d dst p n =
     (if readable d p n \<and> dst + n \<le> length d then Some (poke d dst (read_ptr d p n)) else None)"

definition overlaps :: "nat \<Rightarrow> nat \<Rightarrow> nat \<Rightarrow> bool" where
  "overlaps a b n \<longleftrightarrow> a < b + n \<and> b < a + n"

definition memcpy :: "'a list \<Rightarrow> nat \<Rightarrow> 'a cptr \<Rightarrow> nat \<Rightarrow> 'a list option" where
  "memcpy d dst p n =
     (case p of Self off \<Rightarrow> if overlaps dst off n then None else memmove d dst p n | _ \<Rightarrow> memmove d dst p n)"

lemma memmove_Some:
  "readable d p n \<Longrightarrow> dst + n \<le> length d \<Longrightarrow> memmove d dst p n = Some (poke d dst (read_ptr d p n))"
  by (simp add: memmove_def)

lemma memcpy_Some:
  "readable d p n \<Longrightarrow> dst + n \<le> length d \<Longrightarrow> (\<forall>off. p = Self off \<longrightarrow> \<not> overlaps dst off n) \<Longrightarrow>
     memcpy d dst p n = Some (poke d dst (read_ptr d p n))"
  by (auto simp: memcpy_def memmove_def split: cptr.splits)

section \<open>Elements of equal size\<close>

text \<open>A buffer read as \<open>n\<close> consecutive elements of \<open>es\<close> cells each.\<close>

definition chunks :: "nat \<Rightarrow> nat \<Rightarrow> 'a list \<Rightarrow> 'a list list" where
  "chunks es n d = map (\<lambda>i. peek d (i * es) es) [0..<n]"

lemma length_chunks [simp]: "length (chunks es n d) = n"
  by (simp add: chunks_def)

lemma nth_chunks [simp]: "i < n \<Longrightarrow> chunks es n d ! i = peek d (i * es) es"
  by (simp add: chunks_def)

lemma chunks_0 [simp]: "chunks es 0 d = []"
  by (simp add: chunks_def)

lemma chunks_Suc: "chunks es (Suc n) d = chunks es n d @ [peek d (n * es) es]"
  by (simp add: chunks_def)

lemma chunks_add: "chunks es (m + n) d = chunks es m d @ chunks es n (drop (m * es) d)"
proof (rule nth_equalityI)
  fix i assume i: "i < length (chunks es (m + n) d)"
  show "chunks es (m + n) d ! i = (chunks es m d @ chunks es n (drop (m * es) d)) ! i"
  proof (cases "i < m")
    case False
    have "m * es + (i - m) * es = i * es"
      using False by (metis add_mult_distrib le_add_diff_inverse not_less)
    then show ?thesis using False i by (simp add: nth_append peek_def add.commute)
  qed (use i in \<open>simp add: nth_append\<close>)
qed simp

lemma chunk_end: "i < n \<Longrightarrow> i * es + es \<le> n * (es::nat)"
  by (metis Suc_leI mult_Suc add.commute mult_le_mono1)

lemma chunks_cong_take:
  assumes "take (n * es) d = take (n * es) d'"
  shows "chunks es n d = chunks es n d'"
proof (rule nth_equalityI)
  fix i assume "i < length (chunks es n d)"
  then have "i * es + es \<le> n * es" by (simp add: chunk_end)
  then show "chunks es n d ! i = chunks es n d' ! i"
    using assms \<open>i < length (chunks es n d)\<close> by simp (metis peek_take)
qed simp

lemma chunks_take: "n * es \<le> m \<Longrightarrow> chunks es n (take m d) = chunks es n d"
  by (rule chunks_cong_take) (simp add: min_def)

lemma chunks_poke_before:
  "n * es \<le> off \<Longrightarrow> off \<le> length d \<Longrightarrow> chunks es n (poke d off bs) = chunks es n d"
  by (rule chunks_cong_take) (simp add: take_poke)

lemma take_Suc_mult: "take (Suc n * es) d = take (n * es) d @ peek d (n * es) es"
  using take_add [of "n * es" es d] by (simp add: peek_def add.commute)

lemma concat_chunks: "n * es \<le> length d \<Longrightarrow> concat (chunks es n d) = take (n * es) d"
proof (induction n)
  case (Suc n)
  then have "concat (chunks es n d) = take (n * es) d" by simp
  then show ?case by (simp only: chunks_Suc concat_append take_Suc_mult) simp
qed simp

lemma chunks_width: "n * es \<le> length d \<Longrightarrow> c \<in> set (chunks es n d) \<Longrightarrow> length c = es"
proof -
  assume n: "n * es \<le> length d" and "c \<in> set (chunks es n d)"
  then obtain i where "i < n" "c = peek d (i * es) es" by (auto simp: chunks_def)
  then show ?thesis using chunk_end [of i n es] n by (simp add: length_peek)
qed

lemma length_concat_const: "\<forall>x \<in> set xs. length x = es \<Longrightarrow> length (concat xs) = length xs * es"
  by (induction xs) auto

lemma chunks_concat:
  "\<forall>x \<in> set xs. length x = es \<Longrightarrow> n = length xs \<Longrightarrow> chunks es n (concat xs @ ys) = xs"
proof (induction xs arbitrary: n)
  case (Cons x xs)
  have "chunks es (1 + length xs) ((x @ concat xs) @ ys) = x # xs"
    using Cons by (simp only: chunks_add append_assoc) (simp add: chunks_def peek_def)
  then show ?case using Cons by simp
qed simp

lemma chunks_map_poke:
  "k < n \<Longrightarrow> n * es \<le> length d \<Longrightarrow> length x = es \<Longrightarrow>
     chunks es n (poke d (k * es) x) = (chunks es n d)[k := x]"
proof (rule nth_equalityI)
  fix i
  assume k: "k < n" and n: "n * es \<le> length d" and x: "length x = es"
    and "i < length (chunks es n (poke d (k * es) x))"
  then have i: "i < n" by simp
  have kd: "k * es \<le> length d" using chunk_end [OF k, of es] n by simp
  consider "i < k" | "i = k" | "k < i" by linarith
  then show "chunks es n (poke d (k * es) x) ! i = (chunks es n d)[k := x] ! i"
  proof cases
    case 1
    then show ?thesis using i kd chunk_end [OF 1, of es] by (simp add: peek_poke_before)
  next
    case 2
    then show ?thesis using i x kd by (simp add: peek_poke_same)
  next
    case 3
    then show ?thesis using i x kd chunk_end [OF 3, of es] by (simp add: peek_poke_after)
  qed
qed simp

end
