(* ===== verification/CCol_Container.thy ===== *)
theory CCol_Container
  imports CCol_Prelude
begin

text \<open>
  The contract that the owning containers of the library share.  A container is
  created against an allocator that may refuse any request, its operations
  either take effect or leave its contents as they were, and destroying it gives
  back every block it owns.  A program over a container is a list of operations;
  \<open>run_ops\<close> runs it on the implementation and \<open>spec_ops\<close> on the contents.
\<close>

fun run_ops :: "('op \<Rightarrow> 'c \<Rightarrow> heap \<Rightarrow> (bool \<times> 'c \<times> heap) option) \<Rightarrow> 'op list \<Rightarrow> 'c \<Rightarrow> heap \<Rightarrow>
    (bool list \<times> 'c \<times> heap) option" where
  "run_ops step [] c h = Some ([], c, h)"
| "run_ops step (op # ops) c h = do {
     (ok, c, h) \<leftarrow> step op c h;
     (oks, c, h) \<leftarrow> run_ops step ops c h;
     Some (ok # oks, c, h)
   }"

fun spec_ops :: "('op \<Rightarrow> 'a \<Rightarrow> 'a) \<Rightarrow> 'op list \<Rightarrow> bool list \<Rightarrow> 'a \<Rightarrow> 'a" where
  "spec_ops spec (op # ops) (ok # oks) a = spec_ops spec ops oks (if ok then spec op a else a)"
| "spec_ops spec _ _ a = a"

text \<open>The preconditions of a program, whichever of its operations are refused.\<close>

fun pre_ops :: "('op \<Rightarrow> 'a \<Rightarrow> bool) \<Rightarrow> ('op \<Rightarrow> 'a \<Rightarrow> 'a) \<Rightarrow> 'op list \<Rightarrow> 'a \<Rightarrow> bool" where
  "pre_ops pre spec [] a = True"
| "pre_ops pre spec (op # ops) a \<longleftrightarrow>
     pre op a \<and> pre_ops pre spec ops (spec op a) \<and> pre_ops pre spec ops a"

locale container =
  fixes create :: "heap \<Rightarrow> 'c option \<times> heap"
    and step :: "'op \<Rightarrow> 'c \<Rightarrow> heap \<Rightarrow> (bool \<times> 'c \<times> heap) option"
    and destroy :: "'c \<Rightarrow> heap \<Rightarrow> heap option"
    and empty :: 'a and spec :: "'op \<Rightarrow> 'a \<Rightarrow> 'a" and pre :: "'op \<Rightarrow> 'a \<Rightarrow> bool"
    and view :: "'c \<Rightarrow> 'a" and inv :: "'c \<Rightarrow> bool" and owned :: "'c \<Rightarrow> nat set"
  assumes create_None: "heap_ok h \<Longrightarrow> create h = (None, h') \<Longrightarrow> blocks_kept h h'"
    and create_Some: "heap_ok h \<Longrightarrow> create h = (Some c, h') \<Longrightarrow>
      inv c \<and> view c = empty \<and> blocks_moved {} (owned c) h h'"
    and step_sim: "inv c \<Longrightarrow> heap_ok h \<Longrightarrow> owned c \<subseteq> live h \<Longrightarrow> pre op (view c) \<Longrightarrow>
      \<exists>ok c' h'. step op c h = Some (ok, c', h') \<and> inv c'
        \<and> view c' = (if ok then spec op (view c) else view c) \<and> blocks_moved (owned c) (owned c') h h'"
    and destroy_owned: "inv c \<Longrightarrow> \<exists>h'. destroy c h = Some h' \<and> live h' = live h - owned c"
begin

lemma run_sim:
  assumes "inv c" "heap_ok h" "owned c \<subseteq> live h" "pre_ops pre spec ops (view c)"
  shows "\<exists>oks c' h'. run_ops step ops c h = Some (oks, c', h') \<and> length oks = length ops \<and> inv c'
      \<and> view c' = spec_ops spec ops oks (view c) \<and> blocks_moved (owned c) (owned c') h h'"
  using assms
proof (induction ops arbitrary: c h)
  case Nil
  then show ?case by (auto simp: blocks_moved_def)
next
  case (Cons op ops)
  then obtain ok c1 h1 where s: "step op c h = Some (ok, c1, h1)" "inv c1"
      "view c1 = (if ok then spec op (view c) else view c)" "blocks_moved (owned c) (owned c1) h h1"
    using step_sim [of c h op] by auto
  have "heap_ok h1" "owned c1 \<subseteq> live h1"
    using s(4) Cons.prems(2) blocks_moved_heap_ok by (auto simp: blocks_moved_def)
  moreover have "pre_ops pre spec ops (view c1)" using Cons.prems(4) s(3) by simp
  ultimately obtain oks c2 h2 where r: "run_ops step ops c1 h1 = Some (oks, c2, h2)"
      "length oks = length ops" "inv c2" "view c2 = spec_ops spec ops oks (view c1)"
      "blocks_moved (owned c1) (owned c2) h1 h2"
    using Cons.IH [OF s(2)] by blast
  then show ?case using s(1,3) blocks_moved_trans [OF s(4) r(5)] by auto
qed

text \<open>From creation to destruction: the contents are those of the specification, and no block leaks.\<close>

lemma lifecycle:
  assumes "heap_ok h" "create h = (Some c, h1)" "pre_ops pre spec ops empty"
  shows "\<exists>oks c' h2. run_ops step ops c h1 = Some (oks, c', h2) \<and> length oks = length ops
      \<and> view c' = spec_ops spec ops oks empty \<and> inv c'
      \<and> (\<exists>h3. destroy c' h2 = Some h3 \<and> live h3 = live h)"
proof -
  note c = create_Some [OF assms(1,2)]
  have "heap_ok h1" "owned c \<subseteq> live h1"
    using c assms(1) blocks_moved_heap_ok by (auto simp: blocks_moved_def)
  then obtain oks c' h2 where r: "run_ops step ops c h1 = Some (oks, c', h2)" "length oks = length ops"
      "inv c'" "view c' = spec_ops spec ops oks empty" "blocks_moved (owned c) (owned c') h1 h2"
    using run_sim [of c h1 ops] c assms(3) by auto
  have "live h2 - owned c' = live h" using c r(5) by (auto simp: blocks_moved_def)
  then show ?thesis using r destroy_owned [OF r(3), of h2] by auto
qed

end

end
