(* ===== verification/CCol_Common.thy ===== *)
theory CCol_Common
  imports CCol_Prelude
begin

text \<open>
  The shared helpers of \<^verbatim>\<open>src/common.c\<close>: the power-of-two rounding that the
  containers size their storage with, and the growable byte buffer with its
  latching out-of-memory flag (\<^verbatim>\<open>ccol_growbuf_t\<close> of
  \<^verbatim>\<open>include/internal/cgrowbuf.h\<close>).
\<close>

section \<open>Rounding up to a power of two\<close>

fun bit_length :: "nat \<Rightarrow> nat" where
  "bit_length n = (if n = 0 then 0 else Suc (bit_length (n div 2)))"

declare bit_length.simps [simp del]

lemma bit_length_0: "bit_length 0 = 0"
  by (simp add: bit_length.simps)

lemma bit_length_pos: "0 < n \<Longrightarrow> bit_length n = Suc (bit_length (n div 2))"
  by (simp add: bit_length.simps [of n])

lemmas bit_length_eval = bit_length_0 bit_length_pos

text \<open>\<^verbatim>\<open>__builtin_clzl\<close> of a nonzero 64-bit operand.\<close>

definition builtin_clzl :: "nat \<Rightarrow> nat" where
  "builtin_clzl x = 64 - bit_length x"

definition ccol_find_nearest_gte_power_of_two :: "size_t \<Rightarrow> size_t" where
  "ccol_find_nearest_gte_power_of_two input =
     (if input \<le> 1 then 1
      else let below = input - 1;
               bits = 64 - builtin_clzl below
           in if bits \<ge> 64 then ccol_invalid_size else 2 ^ bits)"

lemma bit_length_bounds: "0 < n \<Longrightarrow> 2 ^ (bit_length n - 1) \<le> n \<and> n < 2 ^ bit_length n \<and> 0 < bit_length n"
proof (induction n rule: bit_length.induct)
  case (1 n)
  show ?case
  proof (cases "n div 2 = 0")
    case True
    then have "n = 1" using 1 by linarith
    then show ?thesis by (simp add: bit_length.simps)
  next
    case False
    with 1 have IH: "2 ^ (bit_length (n div 2) - 1) \<le> n div 2"
      "n div 2 < 2 ^ bit_length (n div 2)" "0 < bit_length (n div 2)" by auto
    have e: "bit_length n = Suc (bit_length (n div 2))" using 1 by (simp add: bit_length.simps [of n])
    obtain c where c: "bit_length (n div 2) = Suc c" using IH(3) by (cases "bit_length (n div 2)") auto
    have "2 ^ bit_length (n div 2) \<le> n" using IH(1) c by simp
    moreover have "n < 2 * 2 ^ bit_length (n div 2)" using IH(2) by linarith
    ultimately show ?thesis using e by simp
  qed
qed

lemma bit_length_le_64: "n \<le> SIZE_MAX \<Longrightarrow> bit_length n \<le> 64"
proof (cases "n = 0")
  case False
  assume "n \<le> SIZE_MAX"
  with False bit_length_bounds [of n] have "2 ^ (bit_length n - 1) < (2::nat) ^ 64"
    by (simp add: size_defs)
  then have "bit_length n - 1 < 64" by (rule power_less_imp_less_exp [rotated]) simp
  then show ?thesis by simp
qed (simp add: bit_length.simps)

lemma nearest_pow2_ok:
  assumes "n \<le> ccol_max_elem_count"
  shows "pow2 (ccol_find_nearest_gte_power_of_two n)"
    "n \<le> ccol_find_nearest_gte_power_of_two n"
    "ccol_find_nearest_gte_power_of_two n \<le> ccol_max_elem_count"
    "2 \<le> n \<Longrightarrow> ccol_find_nearest_gte_power_of_two n < 2 * n"
proof -
  let ?r = "ccol_find_nearest_gte_power_of_two n" and ?b = "bit_length (n - 1)"
  have "pow2 ?r \<and> n \<le> ?r \<and> ?r \<le> ccol_max_elem_count \<and> (2 \<le> n \<longrightarrow> ?r < 2 * n)"
  proof (cases "n \<le> 1")
    case True
    then show ?thesis
      using pow2I [of 0] by (simp add: ccol_find_nearest_gte_power_of_two_def size_defs)
  next
    case False
    then have b: "2 ^ (?b - 1) \<le> n - 1" "n - 1 < 2 ^ ?b" "0 < ?b"
      using bit_length_bounds [of "n - 1"] by auto
    have "2 ^ (?b - 1) < (2::nat) ^ 63"
      using b(1) False assms by (simp add: size_defs)
    then have "?b - 1 < 63" by (rule power_less_imp_less_exp [rotated]) simp
    then have b63: "?b < 64" by simp
    then have r: "?r = 2 ^ ?b"
      using False by (simp add: ccol_find_nearest_gte_power_of_two_def builtin_clzl_def)
    have le: "(2::nat) ^ ?b \<le> 2 ^ 63" using b63 by (intro power_increasing) auto
    have h: "(2::nat) ^ ?b = 2 * 2 ^ (?b - 1)" using b(3) by (cases ?b) auto
    have "n \<le> 2 ^ ?b" using b(2) by linarith
    moreover have "(2::nat) ^ ?b < 2 * n" using h b(1) False by linarith
    ultimately show ?thesis using r le pow2I [of ?b] by (simp add: size_defs)
  qed
  then show "pow2 ?r" "n \<le> ?r" "?r \<le> ccol_max_elem_count" "2 \<le> n \<Longrightarrow> ?r < 2 * n" by auto
qed

lemma nearest_pow2_too_large:
  assumes "ccol_max_elem_count < n" "n \<le> SIZE_MAX"
  shows "ccol_find_nearest_gte_power_of_two n = ccol_invalid_size"
proof -
  have "n - 1 < 2 ^ bit_length (n - 1)"
    using assms bit_length_bounds [of "n - 1"] by (simp add: size_defs)
  then have "(2::nat) ^ 63 < 2 ^ bit_length (n - 1)" using assms by (simp add: size_defs)
  then have "63 < bit_length (n - 1)" by (rule power_less_imp_less_exp [rotated]) simp
  moreover have "bit_length (n - 1) \<le> 64" using assms by (intro bit_length_le_64) simp
  ultimately show ?thesis
    using assms by (simp add: ccol_find_nearest_gte_power_of_two_def builtin_clzl_def size_defs)
qed

text \<open>
  Rounding up to a power of two: for every size that has such a power
  within a \<^verbatim>\<open>size_t\<close> the result is the least power of two that is not below
  the input, and for every larger size the result is \<^verbatim>\<open>ccol_invalid_size\<close>.
\<close>

theorem nearest_power_of_two_least:
  assumes "n \<le> SIZE_MAX"
  shows "if n \<le> ccol_max_elem_count
         then pow2 (ccol_find_nearest_gte_power_of_two n)
              \<and> n \<le> ccol_find_nearest_gte_power_of_two n
              \<and> (\<forall>p. pow2 p \<and> n \<le> p \<longrightarrow> ccol_find_nearest_gte_power_of_two n \<le> p)
         else ccol_find_nearest_gte_power_of_two n = ccol_invalid_size"
proof (cases "n \<le> ccol_max_elem_count")
  case True
  note r = nearest_pow2_ok [OF True]
  have "ccol_find_nearest_gte_power_of_two n \<le> p" if p: "pow2 p" "n \<le> p" for p
  proof (cases "2 \<le> n")
    case True
    then have "ccol_find_nearest_gte_power_of_two n < 2 * p" using r(4) p by simp
    then show ?thesis by (rule pow2_le_less_double [OF r(1) p(1)])
  next
    case False
    then show ?thesis
      using pow2_pos [OF p(1)] by (simp add: ccol_find_nearest_gte_power_of_two_def)
  qed
  then show ?thesis using True r by simp
qed (use assms nearest_pow2_too_large in simp)

theorem nearest_power_of_two_least_witness:
  "(100::nat) \<le> SIZE_MAX \<and> ccol_find_nearest_gte_power_of_two 100 = 128
     \<and> pow2 (ccol_find_nearest_gte_power_of_two 100)"
proof -
  have s: "(100::nat) \<le> SIZE_MAX" by (simp add: size_defs)
  have e: "ccol_find_nearest_gte_power_of_two 100 = 128"
    by (simp add: ccol_find_nearest_gte_power_of_two_def builtin_clzl_def bit_length_eval)
  show ?thesis using nearest_power_of_two_least [OF s] s e by (simp add: size_defs)
qed

section \<open>The growable byte buffer\<close>

text \<open>
  \<^verbatim>\<open>ccol_growbuf_t\<close>.  \<open>buf\<close> is \<^term>\<open>None\<close> for the null pointer and
  otherwise the block and the bytes it holds, \<open>cap\<close> of them.
\<close>

record growbuf =
  gb_buf :: "(nat \<times> byte list) option"
  gb_len :: size_t
  gb_cap :: size_t
  gb_oom :: bool
  gb_procs :: mprocs

definition ccol_growbuf_init :: "mprocs \<Rightarrow> heap \<Rightarrow> growbuf \<times> heap" where
  "ccol_growbuf_init mp h =
     (case mem_alloc h 256 of
        (None, h') \<Rightarrow>
          (\<lparr>gb_buf = None, gb_len = 0, gb_cap = 0, gb_oom = True, gb_procs = mp\<rparr>, h')
      | (Some (b, bs), h') \<Rightarrow>
          (\<lparr>gb_buf = Some (b, bs[0 := 0]), gb_len = 0, gb_cap = 256, gb_oom = False,
             gb_procs = mp\<rparr>, h'))"

definition ccol_growbuf_init_hint :: "mprocs \<Rightarrow> size_t \<Rightarrow> heap \<Rightarrow> growbuf \<times> heap" where
  "ccol_growbuf_init_hint mp hint h =
     (if hint = SIZE_MAX
      then (\<lparr>gb_buf = None, gb_len = 0, gb_cap = 0, gb_oom = True, gb_procs = mp\<rparr>, h)
      else let cap = (if sz_add hint 1 > 64 then sz_add hint 1 else 64) in
        (case mem_alloc h cap of
           (None, h') \<Rightarrow>
             (\<lparr>gb_buf = None, gb_len = 0, gb_cap = 0, gb_oom = True, gb_procs = mp\<rparr>, h')
         | (Some (b, bs), h') \<Rightarrow>
             (\<lparr>gb_buf = Some (b, bs[0 := 0]), gb_len = 0, gb_cap = cap, gb_oom = False,
                gb_procs = mp\<rparr>, h')))"

text \<open>
  The doubling loop of \<^verbatim>\<open>growbuf_grow\<close>.  \<^term>\<open>None\<close> is a loop that never ends,
  \<^term>\<open>Some None\<close> the exit that latches the flag, and \<^term>\<open>Some (Some c)\<close> the
  capacity it settles on.
\<close>

partial_function (option) growbuf_double :: "size_t \<Rightarrow> size_t \<Rightarrow> size_t option option" where
  "growbuf_double new_cap needed =
     (if new_cap < needed
      then if new_cap > SIZE_MAX div 2 then Some None
           else growbuf_double (sz_mul new_cap 2) needed
      else Some (Some new_cap))"

definition growbuf_realloc :: "growbuf \<Rightarrow> size_t \<Rightarrow> heap \<Rightarrow> growbuf \<times> heap" where
  "growbuf_realloc b new_cap h =
     (case gb_buf b of
        None \<Rightarrow>
          (case mem_alloc h new_cap of
             (None, h') \<Rightarrow> (b\<lparr>gb_oom := True\<rparr>, h')
           | (Some (k, bs), h') \<Rightarrow> (b\<lparr>gb_buf := Some (k, bs), gb_cap := new_cap\<rparr>, h'))
      | Some (k, old) \<Rightarrow>
          (case mem_realloc h old new_cap of
             (None, h') \<Rightarrow> (b\<lparr>gb_oom := True\<rparr>, h')
           | (Some bs, h') \<Rightarrow> (b\<lparr>gb_buf := Some (k, bs), gb_cap := new_cap\<rparr>, h')))"

definition growbuf_grow :: "growbuf \<Rightarrow> size_t \<Rightarrow> heap \<Rightarrow> (growbuf \<times> heap) option" where
  "growbuf_grow b needed h =
     (if gb_oom b then Some (b, h)
      else let c0 = (if gb_cap b \<noteq> 0
                     then if gb_cap b > SIZE_MAX div 2 then SIZE_MAX else sz_mul (gb_cap b) 2
                     else 256) in
        (case growbuf_double c0 needed of
           None \<Rightarrow> None
         | Some None \<Rightarrow> Some (b\<lparr>gb_oom := True\<rparr>, h)
         | Some (Some new_cap) \<Rightarrow> Some (growbuf_realloc b new_cap h)))"

text \<open>The copy at the end of an append: the bytes, the new length and the terminator.\<close>

definition growbuf_write :: "growbuf \<Rightarrow> byte list \<Rightarrow> size_t \<Rightarrow> growbuf" where
  "growbuf_write b data n =
     (case gb_buf b of
        None \<Rightarrow> b
      | Some (k, bs) \<Rightarrow>
          b\<lparr>gb_buf := Some (k, (poke bs (gb_len b) (take n data))[gb_len b + n := 0]),
            gb_len := gb_len b + n\<rparr>)"

definition ccol_growbuf_append_slow ::
  "growbuf \<Rightarrow> byte list \<Rightarrow> size_t \<Rightarrow> heap \<Rightarrow> (growbuf \<times> heap) option" where
  "ccol_growbuf_append_slow b data n h =
     (if gb_oom b then Some (b, h)
      else if n > sz_sub (sz_sub SIZE_MAX 1) (gb_len b) then Some (b\<lparr>gb_oom := True\<rparr>, h)
      else let needed = gb_len b + n + 1 in
        do {
          (b, h) \<leftarrow> (if needed > gb_cap b then growbuf_grow b needed h else Some (b, h));
          (if gb_oom b then Some (b, h)
           else if n = 0 then Some (b, h)
           else Some (growbuf_write b data n, h))
        })"

definition ccol_growbuf_append ::
  "growbuf \<Rightarrow> byte list \<Rightarrow> size_t \<Rightarrow> heap \<Rightarrow> (growbuf \<times> heap) option" where
  "ccol_growbuf_append b data n h =
     (if \<not> gb_oom b \<and> n \<noteq> 0 \<and> n \<le> SIZE_MAX div 2 \<and> n < sz_sub (gb_cap b) (gb_len b)
      then Some (growbuf_write b data n, h)
      else ccol_growbuf_append_slow b data n h)"

definition ccol_growbuf_append_c :: "growbuf \<Rightarrow> byte \<Rightarrow> heap \<Rightarrow> (growbuf \<times> heap) option" where
  "ccol_growbuf_append_c b c h = ccol_growbuf_append b [c] 1 h"

definition ccol_growbuf_append_cstr ::
  "growbuf \<Rightarrow> byte list option \<Rightarrow> heap \<Rightarrow> (growbuf \<times> heap) option" where
  "ccol_growbuf_append_cstr b s h =
     (case s of
        None \<Rightarrow> Some (b, h)
      | Some bs \<Rightarrow> ccol_growbuf_append b bs (length (takeWhile (\<lambda>c. c \<noteq> 0) bs)) h)"

definition ccol_growbuf_destroy :: "growbuf \<Rightarrow> heap \<Rightarrow> heap" where
  "ccol_growbuf_destroy b h = (case gb_buf b of None \<Rightarrow> h | Some (k, _) \<Rightarrow> mem_free h k)"

text \<open>
  What a buffer holds, and its invariant: a buffer whose flag is clear has a
  block of \<open>cap\<close> bytes with room for the terminator, which is in place.
\<close>

definition gb_content :: "growbuf \<Rightarrow> byte list" where
  "gb_content b = (case gb_buf b of None \<Rightarrow> [] | Some (_, bs) \<Rightarrow> take (gb_len b) bs)"

definition gb_inv :: "growbuf \<Rightarrow> bool" where
  "gb_inv b \<longleftrightarrow>
     (case gb_buf b of
        None \<Rightarrow> gb_oom b \<and> gb_len b = 0 \<and> gb_cap b = 0
      | Some (_, bs) \<Rightarrow>
          length bs = gb_cap b \<and> gb_len b < gb_cap b \<and> gb_cap b \<le> SIZE_MAX
            \<and> bs ! gb_len b = 0)"

lemma growbuf_double_total:
  "0 < c \<Longrightarrow> c \<le> SIZE_MAX \<Longrightarrow>
     growbuf_double c n = Some None \<or>
     (\<exists>c'. growbuf_double c n = Some (Some c') \<and> n \<le> c' \<and> c \<le> c' \<and> c' \<le> SIZE_MAX)"
proof (induction "n - c" arbitrary: c rule: less_induct)
  case less
  show ?case
  proof (cases "c < n \<and> c \<le> SIZE_MAX div 2")
    case True
    then have e: "sz_mul c 2 = c * 2" by (intro sz_mul_exact) (simp add: size_defs)
    then have r: "growbuf_double c n = growbuf_double (c * 2) n"
      using True by (subst growbuf_double.simps) simp
    have "n - c * 2 < n - c" "0 < c * 2" "c * 2 \<le> SIZE_MAX"
      using less.prems True by (auto simp: size_defs)
    from less.hyps [OF this] show ?thesis using r by (auto intro: le_trans)
  next
    case False
    then show ?thesis using less.prems by (subst (1 2) growbuf_double.simps) auto
  qed
qed

lemma growbuf_double_bounded:
  assumes "0 < c" "c \<le> SIZE_MAX" "growbuf_double c n = Some (Some c')"
  shows "n \<le> c' \<and> c \<le> c' \<and> c' \<le> SIZE_MAX"
  using growbuf_double_total [OF assms(1,2), of n] assms(3) by auto

lemma growbuf_start_cap:
  assumes "gb_inv b" "\<not> gb_oom b"
  defines "c0 \<equiv> (if gb_cap b \<noteq> 0
                 then if gb_cap b > SIZE_MAX div 2 then SIZE_MAX else sz_mul (gb_cap b) 2
                 else 256)"
  shows "0 < c0" "c0 \<le> SIZE_MAX" "gb_cap b \<le> c0"
proof -
  obtain k bs where "gb_buf b = Some (k, bs)" "0 < gb_cap b" "gb_cap b \<le> SIZE_MAX"
    using assms(1,2) by (auto simp: gb_inv_def split: option.splits)
  moreover have "gb_cap b \<le> SIZE_MAX div 2 \<Longrightarrow> sz_mul (gb_cap b) 2 = gb_cap b * 2"
    by (intro sz_mul_exact) (simp add: size_defs)
  ultimately show "0 < c0" "c0 \<le> SIZE_MAX" "gb_cap b \<le> c0"
    by (auto simp: c0_def size_defs)
qed

lemma growbuf_realloc_spec:
  assumes inv: "gb_inv b" "\<not> gb_oom b" and c: "gb_cap b \<le> c" "c \<le> SIZE_MAX"
    and r: "growbuf_realloc b c h = (b', h')"
  shows "gb_inv b' \<and> gb_len b' = gb_len b \<and> gb_content b' = gb_content b
    \<and> (\<not> gb_oom b' \<longrightarrow> gb_cap b' = c)"
proof -
  obtain k bs where bs: "gb_buf b = Some (k, bs)" "length bs = gb_cap b" "gb_len b < gb_cap b"
      "gb_cap b \<le> SIZE_MAX" "bs ! gb_len b = 0"
    using inv by (auto simp: gb_inv_def split: option.splits)
  show ?thesis
  proof (cases "mem_realloc h bs c")
    case (Pair o1 h1)
    show ?thesis
    proof (cases o1)
      case None
      then show ?thesis
        using r bs Pair by (auto simp: growbuf_realloc_def gb_inv_def gb_content_def)
    next
      case (Some bs')
      then have "length bs' = c" "take (gb_cap b) bs' = bs"
        using mem_realloc_Some [of h bs c bs' h1] Pair bs c by (auto simp: min_def)
      moreover from this have "bs' ! gb_len b = bs ! gb_len b" "take (gb_len b) bs' = take (gb_len b) bs"
        using bs(3) by (metis nth_take, metis less_imp_le min.absorb1 take_take)
      ultimately show ?thesis
        using r bs Pair Some c by (auto simp: growbuf_realloc_def gb_inv_def gb_content_def)
    qed
  qed
qed

lemma growbuf_grow_spec:
  assumes inv: "gb_inv b" "\<not> gb_oom b"
  obtains b' h' where "growbuf_grow b needed h = Some (b', h')" "gb_inv b'"
    "gb_len b' = gb_len b" "gb_content b' = gb_content b" "\<not> gb_oom b' \<Longrightarrow> needed \<le> gb_cap b'"
proof -
  let ?c0 = "if gb_cap b \<noteq> 0
             then if gb_cap b > SIZE_MAX div 2 then SIZE_MAX else sz_mul (gb_cap b) 2 else 256"
  note c0 = growbuf_start_cap [OF inv]
  consider "growbuf_double ?c0 needed = Some None"
    | c where "growbuf_double ?c0 needed = Some (Some c)" "needed \<le> c" "?c0 \<le> c" "c \<le> SIZE_MAX"
    using growbuf_double_total [OF c0(1,2), of needed] by metis
  then show ?thesis
  proof cases
    case 1
    then have "growbuf_grow b needed h = Some (b\<lparr>gb_oom := True\<rparr>, h)"
      using inv by (simp add: growbuf_grow_def Let_def)
    then show ?thesis
      using inv by (intro that [of "b\<lparr>gb_oom := True\<rparr>" h])
        (auto simp: gb_inv_def gb_content_def split: option.splits)
  next
    case (2 c)
    obtain b' h' where r: "growbuf_realloc b c h = (b', h')" by fastforce
    then have "growbuf_grow b needed h = Some (b', h')"
      using 2 inv by (simp add: growbuf_grow_def Let_def)
    moreover have "gb_cap b \<le> c" using c0(3) 2(3) by linarith
    note growbuf_realloc_spec [OF inv this 2(4) r]
    ultimately show ?thesis using 2(2) by (intro that [of b' h']) auto
  qed
qed

lemma growbuf_write_spec:
  assumes "gb_inv b" "\<not> gb_oom b" "n \<le> length data" "gb_len b + n < gb_cap b"
  shows "gb_inv (growbuf_write b data n)" "\<not> gb_oom (growbuf_write b data n)"
    "gb_content (growbuf_write b data n) = gb_content b @ take n data"
proof -
  obtain k bs where bs: "gb_buf b = Some (k, bs)" "length bs = gb_cap b" "gb_cap b \<le> SIZE_MAX"
    using assms by (auto simp: gb_inv_def split: option.splits)
  have "length (poke bs (gb_len b) (take n data)) = gb_cap b"
    using assms bs by (simp add: length_poke)
  then show "gb_inv (growbuf_write b data n)" "\<not> gb_oom (growbuf_write b data n)"
    using assms bs by (auto simp: gb_inv_def growbuf_write_def)
  have "take (gb_len b + n) (poke bs (gb_len b) (take n data)) = take (gb_len b) bs @ take n data"
    using assms bs by (simp add: take_poke_end)
  then show "gb_content (growbuf_write b data n) = gb_content b @ take n data"
    using bs by (simp add: gb_content_def growbuf_write_def)
qed

lemma growbuf_append_slow_spec:
  assumes inv: "gb_inv b" and n: "n \<le> length data"
  obtains b' h' where "ccol_growbuf_append_slow b data n h = Some (b', h')" "gb_inv b'"
    "gb_oom b \<Longrightarrow> b' = b" "\<not> gb_oom b' \<Longrightarrow> gb_content b' = gb_content b @ take n data"
proof (cases "gb_oom b \<or> n > sz_sub (sz_sub SIZE_MAX 1) (gb_len b)")
  case True
  then show ?thesis
    using inv by (intro that [of "b\<lparr>gb_oom := True\<rparr>" h])
      (auto simp: ccol_growbuf_append_slow_def gb_inv_def split: option.splits)
next
  case False
  let ?needed = "gb_len b + n + 1"
  obtain b1 h1 where g: "(if ?needed > gb_cap b then growbuf_grow b ?needed h else Some (b, h)) = Some (b1, h1)"
      "gb_inv b1" "gb_len b1 = gb_len b" "gb_content b1 = gb_content b"
      "\<not> gb_oom b1 \<Longrightarrow> ?needed \<le> gb_cap b1"
  proof (cases "?needed > gb_cap b")
    case True
    with False show ?thesis
      using growbuf_grow_spec [OF inv, of ?needed h] that by (metis (full_types))
  qed (use inv that in auto)
  have e: "ccol_growbuf_append_slow b data n h
      = Some (if gb_oom b1 \<or> n = 0 then b1 else growbuf_write b1 data n, h1)"
    using False unfolding ccol_growbuf_append_slow_def Let_def g(1) by auto
  show ?thesis
  proof (cases "gb_oom b1 \<or> n = 0")
    case True
    then show ?thesis using e g False by (intro that [of b1 h1]) auto
  next
    case 2: False
    then have "gb_len b1 + n < gb_cap b1" using g(3,5) by simp
    with growbuf_write_spec [OF g(2) _ n this] 2 e g False show ?thesis
      by (intro that [of "growbuf_write b1 data n" h1]) auto
  qed
qed

text \<open>The inline fast path is the slow path where it applies.\<close>

lemma growbuf_append_eq_slow:
  assumes "gb_inv b"
  shows "ccol_growbuf_append b data n h = ccol_growbuf_append_slow b data n h"
proof (cases "\<not> gb_oom b \<and> n \<noteq> 0 \<and> n \<le> SIZE_MAX div 2 \<and> n < sz_sub (gb_cap b) (gb_len b)")
  case True
  then have l: "gb_len b < gb_cap b" "gb_cap b \<le> SIZE_MAX"
    using assms by (auto simp: gb_inv_def split: option.splits)
  then have n: "n < gb_cap b - gb_len b" using True by (simp add: sz_sub_exact)
  have "sz_sub (sz_sub SIZE_MAX 1) (gb_len b) = SIZE_MAX - 1 - gb_len b"
    using l by (subst sz_sub_exact; subst sz_sub_exact) (auto simp: size_defs)
  then show ?thesis
    using True l n by (simp add: ccol_growbuf_append_def ccol_growbuf_append_slow_def Let_def)
qed (auto simp: ccol_growbuf_append_def)

lemma growbuf_append_spec:
  assumes "gb_inv b" "n \<le> length data"
  obtains b' h' where "ccol_growbuf_append b data n h = Some (b', h')" "gb_inv b'"
    "gb_oom b \<Longrightarrow> b' = b" "\<not> gb_oom b' \<Longrightarrow> gb_content b' = gb_content b @ take n data"
  using growbuf_append_slow_spec [OF assms] growbuf_append_eq_slow [OF assms(1)] by metis

lemma growbuf_init_inv:
  "ccol_growbuf_init mp h = (b, h') \<Longrightarrow> gb_inv b \<and> (\<not> gb_oom b \<longrightarrow> gb_content b = [])"
  by (auto simp: ccol_growbuf_init_def gb_inv_def gb_content_def size_defs
      dest!: mem_alloc_Some split: prod.splits option.splits)

lemma growbuf_init_hint_inv:
  assumes "ccol_growbuf_init_hint mp hint h = (b, h')" "hint \<le> SIZE_MAX"
  shows "gb_inv b \<and> (\<not> gb_oom b \<longrightarrow> gb_content b = [] \<and> hint < gb_cap b)"
proof (cases "hint = SIZE_MAX")
  case False
  then have "sz_add hint 1 = hint + 1" using assms by (intro sz_add_exact) simp
  then show ?thesis
    using assms False
    by (auto simp: ccol_growbuf_init_hint_def gb_inv_def gb_content_def size_defs Let_def
        dest!: mem_alloc_Some split: prod.splits option.splits if_splits)
qed (use assms in \<open>auto simp: ccol_growbuf_init_hint_def gb_inv_def gb_content_def\<close>)

text \<open>A build pass: the pieces appended one after another.\<close>

fun growbuf_build :: "growbuf \<Rightarrow> byte list list \<Rightarrow> heap \<Rightarrow> (growbuf \<times> heap) option" where
  "growbuf_build b [] h = Some (b, h)"
| "growbuf_build b (p # ps) h =
     do { (b, h) \<leftarrow> ccol_growbuf_append b p (length p) h; growbuf_build b ps h }"

lemma growbuf_build_spec:
  assumes "gb_inv b"
  shows "\<exists>b' h'. growbuf_build b ps h = Some (b', h') \<and> gb_inv b' \<and> (gb_oom b \<longrightarrow> gb_oom b')
    \<and> (\<not> gb_oom b' \<longrightarrow> gb_content b' = gb_content b @ concat ps)"
  using assms
proof (induction ps arbitrary: b h)
  case (Cons p ps)
  obtain b1 h1 where a: "ccol_growbuf_append b p (length p) h = Some (b1, h1)" "gb_inv b1"
      "gb_oom b \<Longrightarrow> b1 = b" "\<not> gb_oom b1 \<Longrightarrow> gb_content b1 = gb_content b @ p"
    using growbuf_append_spec [OF Cons.prems, of "length p" p h] by auto
  from Cons.IH [OF a(2), of h1] obtain b2 h2 where
    "growbuf_build b1 ps h1 = Some (b2, h2)" "gb_inv b2" "gb_oom b1 \<longrightarrow> gb_oom b2"
    "\<not> gb_oom b2 \<longrightarrow> gb_content b2 = gb_content b1 @ concat ps" by blast
  then show ?case using a by auto
qed simp

text \<open>
  A build pass over the growable buffer returns for every sequence
  of pieces and every behaviour of the allocator, and a single check at its end
  is enough: when the out-of-memory flag is clear then, the buffer holds exactly
  the concatenation of all the pieces, terminated by a NUL, and a flag that was
  ever set stays set.
\<close>

theorem growbuf_build_concat:
  assumes "ccol_growbuf_init mp h0 = (b0, h1)"
  shows "\<exists>b h. growbuf_build b0 ps h1 = Some (b, h) \<and> (gb_oom b0 \<longrightarrow> gb_oom b)
    \<and> (\<not> gb_oom b \<longrightarrow>
         gb_content b = concat ps
         \<and> (\<exists>k bs. gb_buf b = Some (k, bs) \<and> bs ! gb_len b = 0 \<and> gb_len b < length bs))"
proof -
  have i: "gb_inv b0" "\<not> gb_oom b0 \<Longrightarrow> gb_content b0 = []" using growbuf_init_inv [OF assms] by auto
  from growbuf_build_spec [OF i(1), of ps h1] obtain b h where
    b: "growbuf_build b0 ps h1 = Some (b, h)" "gb_inv b" "gb_oom b0 \<longrightarrow> gb_oom b"
       "\<not> gb_oom b \<longrightarrow> gb_content b = gb_content b0 @ concat ps" by blast
  have "\<not> gb_oom b \<longrightarrow> (\<exists>k bs. gb_buf b = Some (k, bs) \<and> bs ! gb_len b = 0 \<and> gb_len b < length bs)"
    using b(2) by (auto simp: gb_inv_def split: option.splits)
  then show ?thesis using b i by auto
qed

text \<open>A run with a granting allocator, whose buffer grows once.\<close>

theorem growbuf_build_concat_witness:
  "let h0 = \<lparr>answers = [Grant (\<lambda>_. 7), Grant (\<lambda>_. 9)], next_blk = 0, live = {}\<rparr>;
       (b0, h1) = ccol_growbuf_init DefaultProcs h0
   in \<not> gb_oom b0 \<and> (\<exists>b h. growbuf_build b0 [replicate 200 1, replicate 100 2] h1 = Some (b, h)
        \<and> (\<not> gb_oom b \<longrightarrow> gb_content b = replicate 200 1 @ replicate 100 2))"
proof -
  define h0 where "h0 = \<lparr>answers = [Grant (\<lambda>_. 7), Grant (\<lambda>_. 9)], next_blk = 0, live = {}\<rparr>"
  obtain b0 h1 where i: "ccol_growbuf_init DefaultProcs h0 = (b0, h1)" by fastforce
  then have "\<not> gb_oom b0" by (auto simp: h0_def ccol_growbuf_init_def mem_alloc_def)
  then show ?thesis
    using growbuf_build_concat [OF i, of "[replicate 200 1, replicate 100 2]"] i
    unfolding h0_def [symmetric] by (fastforce simp: Let_def)
qed

text \<open>
  The inline append of the header and the out-of-line append agree
  on every buffer that satisfies the buffer's invariant, and the invariant
  holds after both initialisers and after every append.
\<close>

theorem growbuf_fast_path_equiv:
  assumes "gb_inv b" "n \<le> length data"
  shows "ccol_growbuf_append b data n h = ccol_growbuf_append_slow b data n h
    \<and> (\<exists>b' h'. ccol_growbuf_append b data n h = Some (b', h') \<and> gb_inv b')"
  using growbuf_append_eq_slow [OF assms(1)] growbuf_append_spec [OF assms] by metis

theorem growbuf_fast_path_equiv_witness:
  "let b = \<lparr>gb_buf = Some (0, [65, 0, 0, 0]), gb_len = 1, gb_cap = 4, gb_oom = False,
            gb_procs = DefaultProcs\<rparr>;
       h = \<lparr>answers = [], next_blk = 1, live = {0}\<rparr>
   in gb_inv b \<and> ccol_growbuf_append b [66, 67] 2 h = ccol_growbuf_append_slow b [66, 67] 2 h"
proof -
  define b where "b = \<lparr>gb_buf = Some (0, [65, 0, 0, 0]), gb_len = 1, gb_cap = 4, gb_oom = False,
            gb_procs = DefaultProcs\<rparr>"
  have i: "gb_inv b" by (simp add: b_def gb_inv_def size_defs)
  then show ?thesis
    using growbuf_fast_path_equiv [OF i, of 2 "[66, 67]"] unfolding b_def [symmetric] by (simp add: Let_def)
qed

end
