(* ===== verification/CCol_Values.thy ===== *)
theory CCol_Values
  imports CCol_Prelude
begin

text \<open>
  Typed reads of raw bytes and the three-way comparisons built on them: what
  \<^verbatim>\<open>memcpy(&v, p, sizeof v)\<close> gives for the integer and floating-point types of
  a little-endian LP64 target, the \<^verbatim>\<open>(a > b) - (a < b)\<close> idiom, the NaN rule of
  the floating-point comparators, \<^verbatim>\<open>memcmp\<close> and \<^verbatim>\<open>strcmp\<close>.  The interface
  \<open>total_cmp\<close> is the contract a sort or a search tree needs of its comparator.
\<close>

section \<open>Reading integers and floating-point values\<close>

fun le_nat :: "byte list \<Rightarrow> nat" where
  "le_nat [] = 0"
| "le_nat (b # bs) = unat b + 256 * le_nat bs"

definition le_sint :: "byte list \<Rightarrow> int" where
  "le_sint bs =
     (let n = int (le_nat bs); w = 8 * length bs
      in if n < 2 ^ (w - 1) then n else n - 2 ^ w)"

text \<open>
  The order of the values of an IEEE 754 interchange format is the order of
  sign and magnitude: \<^term>\<open>None\<close> for a NaN, otherwise the signed magnitude, which
  maps both zeros to 0.
\<close>

definition ieee_key :: "nat \<Rightarrow> nat \<Rightarrow> byte list \<Rightarrow> int option" where
  "ieee_key eb mb bs =
     (let n = le_nat bs; mant = n mod 2 ^ mb; ex = (n div 2 ^ mb) mod 2 ^ eb;
          mag = int (n mod 2 ^ (eb + mb)); neg = (n div 2 ^ (eb + mb)) mod 2 = 1
      in if ex = 2 ^ eb - 1 \<and> mant \<noteq> 0 then None else Some (if neg then - mag else mag))"

definition float_key :: "byte list \<Rightarrow> int option" where
  "float_key bs = ieee_key 8 23 (take 4 bs)"

definition double_key :: "byte list \<Rightarrow> int option" where
  "double_key bs = ieee_key 11 52 (take 8 bs)"

text \<open>
  The 80-bit extended format of x86-64, in its canonical encodings: a 64-bit
  significand with an explicit integer bit, then 15 exponent bits and the sign.
\<close>

definition long_double_key :: "byte list \<Rightarrow> int option" where
  "long_double_key bs =
     (let n = le_nat (take 10 bs); ex = (n div 2 ^ 64) mod 2 ^ 15;
          mag = int (n mod 2 ^ 79); neg = (n div 2 ^ 79) mod 2 = 1
      in if ex = 2 ^ 15 - 1 \<and> n mod 2 ^ 63 \<noteq> 0 then None else Some (if neg then - mag else mag))"

section \<open>Three-way comparisons\<close>

definition cmp3 :: "'a::linorder \<Rightarrow> 'a \<Rightarrow> int" where
  "cmp3 a b = of_bool (a > b) - of_bool (a < b)"

text \<open>A NaN (\<^term>\<open>None\<close>) is greater than every number and equal to another NaN.\<close>

definition cmp_nan :: "int option \<Rightarrow> int option \<Rightarrow> int" where
  "cmp_nan a b =
     (if a = None \<or> b = None
      then if (a = None) = (b = None) then 0 else if a = None then 1 else -1
      else cmp3 (the a) (the b))"

text \<open>\<^verbatim>\<open>memcmp\<close> over the common length of two byte strings of equal length.\<close>

fun memcmp :: "byte list \<Rightarrow> byte list \<Rightarrow> int" where
  "memcmp (a # as) (b # bs) = (if a = b then memcmp as bs else uint a - uint b)"
| "memcmp _ _ = 0"

text \<open>\<^verbatim>\<open>strcmp\<close> of two strings given without their terminators.\<close>

fun strcmp :: "byte list \<Rightarrow> byte list \<Rightarrow> int" where
  "strcmp (a # as) (b # bs) = (if a = b then strcmp as bs else uint a - uint b)"
| "strcmp (a # as) [] = uint a"
| "strcmp [] (b # bs) = - uint b"
| "strcmp [] [] = 0"

section \<open>The contract of a comparator\<close>

locale total_cmp =
  fixes cmp :: "'a \<Rightarrow> 'a \<Rightarrow> int" and dom_ok :: "'a \<Rightarrow> bool"
  assumes cmp_sgn: "dom_ok a \<Longrightarrow> dom_ok b \<Longrightarrow> sgn (cmp a b) = - sgn (cmp b a)"
    and cmp_trans: "dom_ok a \<Longrightarrow> dom_ok b \<Longrightarrow> dom_ok c \<Longrightarrow>
      cmp a b \<le> 0 \<Longrightarrow> cmp b c \<le> 0 \<Longrightarrow> cmp a c \<le> 0"
begin

lemma cmp_refl: "dom_ok a \<Longrightarrow> cmp a a = 0"
  using cmp_sgn [of a a] by (simp add: sgn_if split: if_splits)

lemma cmp_neg_iff: "dom_ok a \<Longrightarrow> dom_ok b \<Longrightarrow> cmp a b < 0 \<longleftrightarrow> 0 < cmp b a"
  using cmp_sgn [of a b] by (simp add: sgn_if split: if_splits)

lemma cmp_zero_iff: "dom_ok a \<Longrightarrow> dom_ok b \<Longrightarrow> cmp a b = 0 \<longleftrightarrow> cmp b a = 0"
  using cmp_sgn [of a b] by (simp add: sgn_if split: if_splits)

lemma cmp_pos_iff: "dom_ok a \<Longrightarrow> dom_ok b \<Longrightarrow> 0 < cmp a b \<longleftrightarrow> cmp b a < 0"
  using cmp_neg_iff [of b a] by simp

lemma cmp_total: "dom_ok a \<Longrightarrow> dom_ok b \<Longrightarrow> cmp a b \<le> 0 \<or> cmp b a \<le> 0"
  using cmp_neg_iff [of b a] by linarith

lemma cmp_less_trans:
  assumes "dom_ok a" "dom_ok b" "dom_ok c" "cmp a b < 0" "cmp b c \<le> 0"
  shows "cmp a c < 0"
proof (rule ccontr)
  assume "\<not> cmp a c < 0"
  then have "cmp c a \<le> 0" using cmp_pos_iff [of a c] cmp_zero_iff [of a c] assms by linarith
  then have "cmp b a \<le> 0" using cmp_trans [of b c a] assms by simp
  then show False using cmp_neg_iff [of a b] assms by simp
qed

lemma cmp_le_less_trans:
  assumes "dom_ok a" "dom_ok b" "dom_ok c" "cmp a b \<le> 0" "cmp b c < 0"
  shows "cmp a c < 0"
proof (rule ccontr)
  assume "\<not> cmp a c < 0"
  then have "cmp c a \<le> 0" using cmp_pos_iff [of a c] cmp_zero_iff [of a c] assms by linarith
  then have "cmp c b \<le> 0" using cmp_trans [of c a b] assms by simp
  then show False using cmp_neg_iff [of b c] assms by simp
qed

lemma cmp_eq_less:
  assumes "dom_ok a" "dom_ok b" "dom_ok c" "cmp a b = 0"
  shows "cmp a c < 0 \<longleftrightarrow> cmp b c < 0" "cmp a c = 0 \<longleftrightarrow> cmp b c = 0" "0 < cmp a c \<longleftrightarrow> 0 < cmp b c"
proof -
  have ba: "cmp b a = 0" using cmp_zero_iff assms by blast
  show l: "cmp a c < 0 \<longleftrightarrow> cmp b c < 0"
    using cmp_le_less_trans [of b a c] cmp_le_less_trans [of a b c] assms ba by auto
  have "cmp a c \<le> 0 \<longleftrightarrow> cmp b c \<le> 0"
    using cmp_trans [of b a c] cmp_trans [of a b c] assms ba by auto
  then show "cmp a c = 0 \<longleftrightarrow> cmp b c = 0" "0 < cmp a c \<longleftrightarrow> 0 < cmp b c" using l by linarith+
qed

end

lemma cmp3_le: "cmp3 a b \<le> 0 \<longleftrightarrow> a \<le> b"
  by (auto simp: cmp3_def)

lemma cmp3_sgn: "sgn (cmp3 a b) = - sgn (cmp3 b a)"
  by (auto simp: cmp3_def)

lemma total_cmp_key: "total_cmp (\<lambda>a b. cmp3 (f a) (f b)) P"
  by unfold_locales (auto simp: cmp3_le intro: cmp3_sgn)

lemma cmp_nan_sgn: "sgn (cmp_nan a b) = - sgn (cmp_nan b a)"
  by (auto simp: cmp_nan_def cmp3_def)

lemma cmp_nan_trans: "cmp_nan a b \<le> 0 \<Longrightarrow> cmp_nan b c \<le> 0 \<Longrightarrow> cmp_nan a c \<le> 0"
  by (auto simp: cmp_nan_def cmp3_le split: if_splits)

lemma total_cmp_nan_key: "total_cmp (\<lambda>a b. cmp_nan (f a) (f b)) P"
  by unfold_locales (auto intro: cmp_nan_sgn cmp_nan_trans)

lemma total_cmp_cong:
  assumes "total_cmp g P" "\<And>a b. P a \<Longrightarrow> P b \<Longrightarrow> f a b = g a b"
  shows "total_cmp f P"
proof (rule total_cmp.intro)
  fix a b assume "P a" "P b"
  then show "sgn (f a b) = - sgn (f b a)" using total_cmp.cmp_sgn [OF assms(1), of a b] assms(2) by simp
next
  fix a b c assume "P a" "P b" "P c" "f a b \<le> 0" "f b c \<le> 0"
  then show "f a c \<le> 0" using total_cmp.cmp_trans [OF assms(1), of a b c] assms(2) by simp
qed

lemma uint_eq_iff: "uint a = uint b \<longleftrightarrow> a = (b::byte)"
  by (simp add: word_uint_eq_iff)

lemma memcmp_anti: "memcmp a b = - memcmp b a"
  by (induction a b rule: memcmp.induct) auto

lemma memcmp_sgn: "sgn (memcmp a b) = - sgn (memcmp b a)"
  using memcmp_anti [of a b] by (simp add: sgn_minus)

lemma memcmp_le_trans:
  "length a = length b \<Longrightarrow> length b = length c \<Longrightarrow> memcmp a b \<le> 0 \<Longrightarrow> memcmp b c \<le> 0 \<Longrightarrow> memcmp a c \<le> 0"
proof (induction a b arbitrary: c rule: list_induct2)
  case (Cons x xs y ys)
  then obtain z zs where c: "c = z # zs" "length ys = length zs" by (cases c) auto
  show ?case
  proof (cases "x = y \<and> y = z")
    case True
    then show ?thesis using Cons.IH [of zs] Cons.prems c by simp
  next
    case False
    then show ?thesis using Cons.prems c by (auto simp: uint_eq_iff [symmetric] split: if_splits)
  qed
qed simp

lemma memcmp_refl [simp]: "memcmp a a = 0"
  by (induction a) auto

lemma memcmp_eq_iff: "length a = length b \<Longrightarrow> memcmp a b = 0 \<longleftrightarrow> a = b"
  by (induction a b rule: list_induct2) (auto simp: uint_eq_iff)

lemma strcmp_anti: "strcmp a b = - strcmp b a"
  by (induction a b rule: strcmp.induct) auto

lemma strcmp_sgn: "sgn (strcmp a b) = - sgn (strcmp b a)"
  using strcmp_anti [of a b] by (simp add: sgn_minus)

lemma uint_pos: "b \<noteq> (0::byte) \<Longrightarrow> 0 < uint b"
  by (simp add: word_neq_0_conv word_less_alt)

lemma strcmp_le_trans:
  "0 \<notin> set a \<Longrightarrow> 0 \<notin> set b \<Longrightarrow> 0 \<notin> set c \<Longrightarrow>
     strcmp a b \<le> 0 \<Longrightarrow> strcmp b c \<le> 0 \<Longrightarrow> strcmp a c \<le> 0"
proof (induction a b arbitrary: c rule: strcmp.induct)
  case (1 x xs y ys)
  then show ?case by (cases c) (auto simp: uint_eq_iff split: if_splits)
next
  case (2 x xs)
  then show ?case using uint_pos [of x] by auto
next
  case (3 y ys)
  then show ?case by (cases c) (auto simp: uint_nonnegative)
next
  case 4
  then show ?case by (cases c) auto
qed

end
