(* ===== verification/CCol_Sort.thy ===== *)
theory CCol_Sort
  imports CCol_Values "HOL-Library.Multiset"
begin

text \<open>
  \<^verbatim>\<open>src/csort.c\<close>: the default comparators, the two merge steps (through an item
  getter and contiguous, in place), the bottom-up passes that both drivers run,
  the shape checks and the two entry points.  An element is a value of any type;
  the collection of the getter driver is a memory of cells together with the
  getter, which maps an index to the cell that holds the element.
\<close>

section \<open>Default comparators\<close>

definition csort_default_string_comparison_proc :: "byte list option \<Rightarrow> byte list option \<Rightarrow> int" where
  "csort_default_string_comparison_proc s1 s2 =
     (if s1 = None \<or> s2 = None then of_bool (s1 \<noteq> None) - of_bool (s2 \<noteq> None)
      else strcmp (the s1) (the s2))"

definition csort_default_signed_cmp :: "byte list \<Rightarrow> byte list \<Rightarrow> int" where
  "csort_default_signed_cmp p q = cmp3 (le_sint p) (le_sint q)"

definition csort_default_unsigned_cmp :: "byte list \<Rightarrow> byte list \<Rightarrow> int" where
  "csort_default_unsigned_cmp p q = cmp3 (le_nat p) (le_nat q)"

definition csort_default_bool_comparison_proc :: "bool \<Rightarrow> bool \<Rightarrow> int" where
  "csort_default_bool_comparison_proc v1 v2 = cmp3 (of_bool v1 :: int) (of_bool v2)"

definition csort_default_float_cmp :: "(byte list \<Rightarrow> int option) \<Rightarrow> byte list \<Rightarrow> byte list \<Rightarrow> int" where
  "csort_default_float_cmp key p q = cmp_nan (key p) (key q)"

definition c_string :: "byte list option \<Rightarrow> bool" where
  "c_string s = (case s of None \<Rightarrow> True | Some bs \<Rightarrow> 0 \<notin> set bs)"

interpretation string_cmp: total_cmp csort_default_string_comparison_proc c_string
proof
  fix a b c :: "byte list option"
  show "sgn (csort_default_string_comparison_proc a b) = - sgn (csort_default_string_comparison_proc b a)"
    by (cases a; cases b)
      (simp_all add: csort_default_string_comparison_proc_def, rule strcmp_sgn)
  assume "c_string a" "c_string b" "c_string c"
    "csort_default_string_comparison_proc a b \<le> 0" "csort_default_string_comparison_proc b c \<le> 0"
  then show "csort_default_string_comparison_proc a c \<le> 0"
    by (auto simp: csort_default_string_comparison_proc_def c_string_def
        intro: strcmp_le_trans split: option.splits if_splits)
qed

interpretation signed_cmp: total_cmp csort_default_signed_cmp "\<lambda>_. True"
  unfolding csort_default_signed_cmp_def [abs_def] by (rule total_cmp_key)

interpretation unsigned_cmp: total_cmp csort_default_unsigned_cmp "\<lambda>_. True"
  unfolding csort_default_unsigned_cmp_def [abs_def] by (rule total_cmp_key)

interpretation bool_cmp: total_cmp csort_default_bool_comparison_proc "\<lambda>_. True"
  unfolding csort_default_bool_comparison_proc_def [abs_def] by (rule total_cmp_key)

interpretation double_cmp: total_cmp "csort_default_float_cmp double_key" "\<lambda>_. True"
  unfolding csort_default_float_cmp_def [abs_def] by (rule total_cmp_nan_key)

section \<open>The merge step through a getter\<close>

text \<open>Copies \<open>n\<close> elements from index \<open>left\<close> on into the temporary buffer.\<close>

definition csort_copy_out :: "(nat \<Rightarrow> nat) \<Rightarrow> 'a list \<Rightarrow> nat \<Rightarrow> nat \<Rightarrow> 'a list" where
  "csort_copy_out getter col left n = map (\<lambda>i. col ! getter (left + i)) [0..<n]"

function csort_merge_while ::
  "('a \<Rightarrow> 'a \<Rightarrow> int) \<Rightarrow> (nat \<Rightarrow> nat) \<Rightarrow> 'a list \<Rightarrow> nat \<Rightarrow> nat \<Rightarrow>
     nat \<Rightarrow> nat \<Rightarrow> nat \<Rightarrow> 'a list \<Rightarrow> nat \<times> nat \<times> nat \<times> 'a list" where
  "csort_merge_while cmp getter temp n1 n2 i j k col =
     (if i < n1 \<and> j < n1 + n2
      then if cmp (temp ! i) (temp ! j) \<le> 0
           then csort_merge_while cmp getter temp n1 n2 (i + 1) j (k + 1) (col[getter k := temp ! i])
           else csort_merge_while cmp getter temp n1 n2 i (j + 1) (k + 1) (col[getter k := temp ! j])
      else (i, j, k, col))"
  by pat_completeness auto
termination
  by (relation "measure (\<lambda>(cmp, getter, temp, n1, n2, i, j, k, col). (n1 - i) + (n1 + n2 - j))") auto

text \<open>The two loops that copy what is left: \<open>temp[i..<e]\<close> to index \<open>k\<close> on.\<close>

function csort_copy_rest ::
  "(nat \<Rightarrow> nat) \<Rightarrow> 'a list \<Rightarrow> nat \<Rightarrow> nat \<Rightarrow> nat \<Rightarrow> 'a list \<Rightarrow> nat \<times> 'a list" where
  "csort_copy_rest getter temp e i k col =
     (if i < e then csort_copy_rest getter temp e (i + 1) (k + 1) (col[getter k := temp ! i])
      else (k, col))"
  by pat_completeness auto
termination
  by (relation "measure (\<lambda>(getter, temp, e, i, k, col). e - i)") auto

declare csort_merge_while.simps [simp del] csort_copy_rest.simps [simp del]

definition csort_merge ::
  "('a \<Rightarrow> 'a \<Rightarrow> int) \<Rightarrow> (nat \<Rightarrow> nat) \<Rightarrow> nat \<Rightarrow> nat \<Rightarrow> nat \<Rightarrow> 'a list \<Rightarrow> 'a list" where
  "csort_merge cmp getter left mid right col =
     (let n1 = mid - left + 1;
          n2 = right - mid;
          temp = csort_copy_out getter col left n1 @ csort_copy_out getter col (mid + 1) n2;
          (i, j, k, col) = csort_merge_while cmp getter temp n1 n2 0 n1 left col;
          (k, col) = csort_copy_rest getter temp n1 i k col;
          (k, col) = csort_copy_rest getter temp (n1 + n2) j k col
      in col)"

section \<open>The contiguous merge step\<close>

function csort_merge_contiguous_while ::
  "('a \<Rightarrow> 'a \<Rightarrow> int) \<Rightarrow> 'a list \<Rightarrow> nat \<Rightarrow> nat \<Rightarrow> nat \<Rightarrow> nat \<Rightarrow> 'a list \<Rightarrow> nat \<times> nat \<times> 'a list" where
  "csort_merge_contiguous_while cmp temp l r r_end out base =
     (if l < length temp \<and> r < r_end
      then if cmp (temp ! l) (base ! r) \<le> 0
           then csort_merge_contiguous_while cmp temp (l + 1) r r_end (out + 1) (base[out := temp ! l])
           else csort_merge_contiguous_while cmp temp l (r + 1) r_end (out + 1) (base[out := base ! r])
      else (l, out, base))"
  by pat_completeness auto
termination
  by (relation "measure (\<lambda>(cmp, temp, l, r, r_end, out, base). (length temp - l) + (r_end - r))") auto

declare csort_merge_contiguous_while.simps [simp del]

definition csort_merge_contiguous ::
  "('a \<Rightarrow> 'a \<Rightarrow> int) \<Rightarrow> nat \<Rightarrow> nat \<Rightarrow> nat \<Rightarrow> 'a list \<Rightarrow> 'a list" where
  "csort_merge_contiguous cmp left mid right base =
     (let temp = peek base left (mid - left + 1);
          (l, out, base) = csort_merge_contiguous_while cmp temp 0 (mid + 1) (right + 1) left base
      in if l < length temp then poke base out (drop l temp) else base)"

section \<open>The bottom-up passes\<close>

text \<open>
  The two nested loops, over any merge step, in \<^verbatim>\<open>size_t\<close> arithmetic: a sum or a
  product that wraps would make a loop run on, and a loop that never ends has the
  value \<^term>\<open>None\<close>.
\<close>

partial_function (option) csort_pass ::
  "(nat \<Rightarrow> nat \<Rightarrow> nat \<Rightarrow> 'c \<Rightarrow> 'c) \<Rightarrow> size_t \<Rightarrow> size_t \<Rightarrow> size_t \<Rightarrow> 'c \<Rightarrow> 'c option" where
  "csort_pass merge high curr_size left_start col =
     (if left_start \<le> high
      then let mid = sz_sub (sz_add left_start curr_size) 1 in
        if mid \<ge> high then Some col
        else let right_end = sz_sub (sz_add left_start (sz_mul 2 curr_size)) 1;
                 right_end = (if right_end > high then high else right_end)
             in csort_pass merge high curr_size (sz_add left_start (sz_mul 2 curr_size))
                  (merge left_start mid right_end col)
      else Some col)"

partial_function (option) csort_passes ::
  "(nat \<Rightarrow> nat \<Rightarrow> nat \<Rightarrow> 'c \<Rightarrow> 'c) \<Rightarrow> size_t \<Rightarrow> size_t \<Rightarrow> size_t \<Rightarrow> size_t \<Rightarrow> 'c \<Rightarrow> 'c option" where
  "csort_passes merge low high len curr_size col =
     (if curr_size < len
      then do {
        col \<leftarrow> csort_pass merge high curr_size low col;
        csort_passes merge low high len (sz_mul curr_size 2) col
      }
      else Some col)"

section \<open>The drivers and the entry points\<close>

datatype csort_buffer_outcome = csort_buffer_ready | csort_buffer_not_needed | csort_buffer_refused

definition csort_check_sort_shape :: "size_t \<Rightarrow> size_t \<Rightarrow> mprocs \<Rightarrow> csort_buffer_outcome" where
  "csort_check_sort_shape len elem_size mprocs =
     (if len > ccol_max_elem_count then csort_buffer_refused
      else if elem_size = 0 then csort_buffer_not_needed
      else if len > SIZE_MAX div elem_size then csort_buffer_refused
      else if \<not> ccol_verify_memmgmt_procs mprocs then csort_buffer_refused
      else csort_buffer_ready)"

definition csort_mergesort_iterative ::
  "('a \<Rightarrow> 'a \<Rightarrow> int) \<Rightarrow> (nat \<Rightarrow> nat) \<Rightarrow> size_t \<Rightarrow> size_t \<Rightarrow> size_t \<Rightarrow> mprocs \<Rightarrow>
     'a list \<Rightarrow> heap \<Rightarrow> (bool \<times> 'a list \<times> heap) option" where
  "csort_mergesort_iterative cmp getter low high elem_size mprocs col h =
     (if low \<ge> high then Some (True, col, h)
      else let len = sz_add (sz_sub high low) 1;
               outcome = csort_check_sort_shape len elem_size mprocs
           in if outcome \<noteq> csort_buffer_ready
              then Some (outcome = csort_buffer_not_needed, col, h)
              else (case mem_alloc h (sz_mul len elem_size) of
                (None, h) \<Rightarrow> Some (False, col, h)
              | (Some (temp_buffer, _), h) \<Rightarrow> do {
                  col \<leftarrow> csort_passes (csort_merge cmp getter) low high len 1 col;
                  Some (True, col, mem_free h temp_buffer)
                }))"

definition csort_contiguous_passes ::
  "('a \<Rightarrow> 'a \<Rightarrow> int) \<Rightarrow> size_t \<Rightarrow> 'a list \<Rightarrow> 'a list option" where
  "csort_contiguous_passes cmp len base =
     csort_passes (csort_merge_contiguous cmp) 0 (sz_sub len 1) len 1 base"

text \<open>A null \<open>base\<close> or \<open>col\<close>, and a null comparator or getter, are \<^term>\<open>None\<close>.\<close>

definition csort_merge_sort_contiguous ::
  "'a list option \<Rightarrow> size_t \<Rightarrow> size_t \<Rightarrow> ('a \<Rightarrow> 'a \<Rightarrow> int) option \<Rightarrow> mprocs \<Rightarrow> heap \<Rightarrow>
     (bool \<times> 'a list option \<times> heap) option" where
  "csort_merge_sort_contiguous base len elem_size comparison_proc mprocs h =
     (case base of
        None \<Rightarrow> Some (True, None, h)
      | Some b \<Rightarrow>
          if len < 2 then Some (True, base, h)
          else (case comparison_proc of
            None \<Rightarrow> None
          | Some cmp \<Rightarrow>
              let outcome = csort_check_sort_shape len elem_size mprocs in
              if outcome \<noteq> csort_buffer_ready
              then Some (outcome = csort_buffer_not_needed, base, h)
              else (case mem_alloc h (sz_mul len elem_size) of
                (None, h) \<Rightarrow> Some (False, base, h)
              | (Some (temp_buffer, _), h) \<Rightarrow> do {
                  b \<leftarrow> csort_contiguous_passes cmp len b;
                  Some (True, Some b, mem_free h temp_buffer)
                })))"

definition csort_merge_sort ::
  "'a list option \<Rightarrow> size_t \<Rightarrow> size_t \<Rightarrow> (nat \<Rightarrow> nat) option \<Rightarrow> ('a \<Rightarrow> 'a \<Rightarrow> int) option \<Rightarrow>
     mprocs \<Rightarrow> heap \<Rightarrow> (bool \<times> 'a list option \<times> heap) option" where
  "csort_merge_sort col len elem_size getter_proc comparison_proc mprocs h =
     (case col of
        None \<Rightarrow> Some (True, None, h)
      | Some c \<Rightarrow>
          if len = 0 \<or> len = 1 then Some (True, col, h)
          else (case (getter_proc, comparison_proc) of
            (Some getter, Some cmp) \<Rightarrow> do {
              (ok, c, h) \<leftarrow>
                csort_mergesort_iterative cmp getter 0 (sz_sub len 1) elem_size mprocs c h;
              Some (ok, Some c, h)
            }
          | _ \<Rightarrow> None))"

section \<open>A reference merge sort\<close>

fun merge_ref :: "('a \<Rightarrow> 'a \<Rightarrow> int) \<Rightarrow> 'a list \<Rightarrow> 'a list \<Rightarrow> 'a list" where
  "merge_ref cmp [] ys = ys"
| "merge_ref cmp (x # xs) [] = x # xs"
| "merge_ref cmp (x # xs) (y # ys) =
     (if cmp x y \<le> 0 then x # merge_ref cmp xs (y # ys) else y # merge_ref cmp (x # xs) ys)"

function merge_pass :: "('a \<Rightarrow> 'a \<Rightarrow> int) \<Rightarrow> nat \<Rightarrow> 'a list \<Rightarrow> 'a list" where
  "merge_pass cmp w xs =
     (if w = 0 \<or> length xs \<le> w then xs
      else merge_ref cmp (take w xs) (take w (drop w xs)) @ merge_pass cmp w (drop (2 * w) xs))"
  by pat_completeness auto
termination
  by (relation "measure (\<lambda>(cmp, w, xs). length xs)") auto

function merge_passes :: "('a \<Rightarrow> 'a \<Rightarrow> int) \<Rightarrow> nat \<Rightarrow> 'a list \<Rightarrow> 'a list" where
  "merge_passes cmp w xs =
     (if w = 0 \<or> length xs \<le> w then xs else merge_passes cmp (2 * w) (merge_pass cmp w xs))"
  by pat_completeness auto

declare merge_pass.simps [simp del]

lemma merge_induct [case_names Nil_left Nil_right Both]:
  assumes "\<And>ys. P [] ys" "\<And>x xs. P (x # xs) []"
    "\<And>x xs y ys. P xs (y # ys) \<Longrightarrow> P (x # xs) ys \<Longrightarrow> P (x # xs) (y # ys)"
  shows "P xs ys"
  using assms by induction_schema (pat_completeness, lexicographic_order)

lemma merge_ref_Nil2 [simp]: "merge_ref cmp xs [] = xs"
  by (cases xs) auto

lemma length_merge_ref [simp]: "length (merge_ref cmp xs ys) = length xs + length ys"
  by (induction cmp xs ys rule: merge_ref.induct) auto

lemma mset_merge_ref: "mset (merge_ref cmp xs ys) = mset xs + mset ys"
  by (induction cmp xs ys rule: merge_ref.induct) auto

lemma set_merge_ref: "set (merge_ref cmp xs ys) = set xs \<union> set ys"
  by (induction cmp xs ys rule: merge_ref.induct) auto

lemma mset_take_drop: "mset (take n xs) + mset (drop n xs) = mset xs"
  by (metis append_take_drop_id mset_append)

lemma mset_merge_pass: "mset (merge_pass cmp w xs) = mset xs"
proof (induction cmp w xs rule: merge_pass.induct)
  case (1 cmp w xs)
  show ?case
  proof (cases "w = 0 \<or> length xs \<le> w")
    case False
    have d: "drop (2 * w) xs = drop w (drop w xs)" by (simp add: mult_2)
    have "mset (merge_pass cmp w xs) = mset (take w xs) + (mset (take w (drop w xs)) + mset (drop w (drop w xs)))"
      using 1 False by (simp add: merge_pass.simps [of cmp w xs] mset_merge_ref d)
    then show ?thesis by (simp only: mset_take_drop)
  qed (simp add: merge_pass.simps)
qed

lemma length_merge_pass [simp]: "length (merge_pass cmp w xs) = length xs"
  by (metis mset_merge_pass size_mset)

lemma set_merge_pass: "set (merge_pass cmp w xs) = set xs"
  by (metis mset_merge_pass set_mset_mset)

termination merge_passes
  by (relation "measure (\<lambda>(cmp, w, xs). length xs - w)") auto

declare merge_passes.simps [simp del]

text \<open>The runs of width \<open>w\<close> of a list are sorted.\<close>

function runs_sorted :: "('a \<Rightarrow> 'a \<Rightarrow> int) \<Rightarrow> nat \<Rightarrow> 'a list \<Rightarrow> bool" where
  "runs_sorted cmp w xs =
     (if w = 0 \<or> xs = [] then True
      else sorted_wrt (\<lambda>a b. cmp a b \<le> 0) (take w xs) \<and> runs_sorted cmp w (drop w xs))"
  by pat_completeness auto
termination
  by (relation "measure (\<lambda>(cmp, w, xs). length xs)") auto

declare runs_sorted.simps [simp del]

lemma runs_sorted_Nil [simp]: "runs_sorted cmp w []"
  by (simp add: runs_sorted.simps)

lemma runs_sorted_append:
  assumes "0 < w" "length xs = w"
  shows "runs_sorted cmp w (xs @ ys) \<longleftrightarrow> sorted_wrt (\<lambda>a b. cmp a b \<le> 0) xs \<and> runs_sorted cmp w ys"
  using assms by (subst runs_sorted.simps) auto

lemma runs_sorted_short:
  "0 < w \<Longrightarrow> length xs \<le> w \<Longrightarrow> runs_sorted cmp w xs \<longleftrightarrow> sorted_wrt (\<lambda>a b. cmp a b \<le> 0) xs"
  by (subst runs_sorted.simps) auto

lemma runs_sortedD:
  assumes "0 < w" "runs_sorted cmp w xs"
  shows "sorted_wrt (\<lambda>a b. cmp a b \<le> 0) (take w xs)" "runs_sorted cmp w (drop w xs)"
  using assms by (simp_all add: runs_sorted.simps [of cmp w xs] split: if_splits)

lemma runs_sorted_1: "runs_sorted cmp 1 xs"
proof (induction xs)
  case (Cons x xs)
  then show ?case using runs_sorted_append [of 1 "[x]" cmp xs] by simp
qed simp

context total_cmp
begin

lemma sorted_merge_ref:
  assumes "\<forall>x \<in> set xs \<union> set ys. dom_ok x"
    "sorted_wrt (\<lambda>a b. cmp a b \<le> 0) xs" "sorted_wrt (\<lambda>a b. cmp a b \<le> 0) ys"
  shows "sorted_wrt (\<lambda>a b. cmp a b \<le> 0) (merge_ref cmp xs ys)"
  using assms
proof (induction xs ys rule: merge_induct)
  case (Both x xs y ys)
  then have ok: "dom_ok x" "dom_ok y" "\<forall>z \<in> set xs. dom_ok z" "\<forall>z \<in> set ys. dom_ok z"
    and le: "\<forall>z \<in> set xs. cmp x z \<le> 0" "\<forall>z \<in> set ys. cmp y z \<le> 0" by auto
  show ?case
  proof (cases "cmp x y \<le> 0")
    case True
    then have "\<forall>z \<in> set ys. cmp x z \<le> 0" using ok le cmp_trans by blast
    then show ?thesis using Both True by (auto simp: set_merge_ref)
  next
    case False
    then have yx: "cmp y x \<le> 0" using cmp_total ok by blast
    then have "\<forall>z \<in> set xs. cmp y z \<le> 0" using ok le cmp_trans by blast
    then show ?thesis using Both False yx by (auto simp: set_merge_ref)
  qed
qed auto

text \<open>Elements that compare equal keep their order: the left run comes first.\<close>

lemma stable_merge_ref:
  assumes "dom_ok k" "\<forall>x \<in> set xs \<union> set ys. dom_ok x"
    "sorted_wrt (\<lambda>a b. cmp a b \<le> 0) xs" "sorted_wrt (\<lambda>a b. cmp a b \<le> 0) ys"
  shows "filter (\<lambda>y. cmp k y = 0) (merge_ref cmp xs ys)
       = filter (\<lambda>y. cmp k y = 0) xs @ filter (\<lambda>y. cmp k y = 0) ys"
  using assms(2-)
proof (induction xs ys rule: merge_induct)
  case (Both x xs y ys)
  then have ok: "dom_ok x" "dom_ok y" "\<forall>z \<in> set xs. dom_ok z"
    and le: "\<forall>z \<in> set xs. cmp x z \<le> 0" by auto
  show ?case
  proof (cases "cmp x y \<le> 0")
    case True
    then show ?thesis using Both by auto
  next
    case False
    then have yx: "cmp y x < 0" using cmp_pos_iff [of x y] ok by linarith
    have "cmp k z \<noteq> 0" if "cmp k y = 0" "z \<in> set (x # xs)" for z
    proof -
      have "cmp y z < 0" using yx le ok that cmp_less_trans [of y x z] by auto
      then show ?thesis using cmp_eq_less(1) [of k y z] assms(1) ok that by auto
    qed
    then have "cmp k y = 0 \<Longrightarrow> filter (\<lambda>y. cmp k y = 0) (x # xs) = []"
      by (simp only: filter_empty_conv) blast
    then show ?thesis using Both False by auto
  qed
qed auto

lemma merge_pass_spec:
  assumes "0 < w" "\<forall>x \<in> set xs. dom_ok x" "runs_sorted cmp w xs"
  shows "runs_sorted cmp (2 * w) (merge_pass cmp w xs)"
    "dom_ok k \<Longrightarrow> filter (\<lambda>y. cmp k y = 0) (merge_pass cmp w xs) = filter (\<lambda>y. cmp k y = 0) xs"
proof -
  let ?s = "sorted_wrt (\<lambda>a b. cmp a b \<le> 0)" and ?f = "filter (\<lambda>y. cmp k y = 0)"
  have "runs_sorted cmp (2 * w) (merge_pass cmp w xs)
      \<and> (dom_ok k \<longrightarrow> ?f (merge_pass cmp w xs) = ?f xs)"
    using assms(2,3)
  proof (induction "length xs" arbitrary: xs rule: less_induct)
    case less
    show ?case
    proof (cases "length xs \<le> w")
      case True
      then have "merge_pass cmp w xs = xs" by (simp add: merge_pass.simps)
      then show ?thesis
        using True less.prems assms(1) runs_sorted_short [of "2 * w" xs cmp]
          runs_sorted_short [of w xs cmp] by simp
    next
      case False
      let ?A = "take w xs" and ?B = "take w (drop w xs)" and ?C = "drop (2 * w) xs"
      have d: "?C = drop w (drop w xs)" by (simp add: mult_2)
      have xs: "xs = ?A @ ?B @ ?C" by (simp only: d append_take_drop_id)
      have r: "?s ?A" "runs_sorted cmp w (drop w xs)"
        using runs_sortedD [OF assms(1) less.prems(2)] .
      have "?s ?B" "runs_sorted cmp w ?C"
        using runs_sortedD [OF assms(1) r(2)] unfolding d .
      moreover have ok: "\<forall>x \<in> set ?A \<union> set ?B. dom_ok x" "\<forall>x \<in> set ?C. dom_ok x"
        using less.prems(1) by (auto dest: in_set_takeD in_set_dropD)
      moreover have "length ?C < length xs" using False assms(1) by auto
      ultimately have IH: "runs_sorted cmp (2 * w) (merge_pass cmp w ?C)"
          "dom_ok k \<longrightarrow> ?f (merge_pass cmp w ?C) = ?f ?C"
        and M: "?s (merge_ref cmp ?A ?B)" "dom_ok k \<longrightarrow> ?f (merge_ref cmp ?A ?B) = ?f ?A @ ?f ?B"
        using less.hyps [of ?C] sorted_merge_ref [OF ok(1) r(1)] stable_merge_ref [OF _ ok(1) r(1)]
        by auto
      have e: "merge_pass cmp w xs = merge_ref cmp ?A ?B @ merge_pass cmp w ?C"
        using False assms(1) by (subst merge_pass.simps) simp
      have "runs_sorted cmp (2 * w) (merge_pass cmp w xs)"
      proof (cases "2 * w \<le> length xs")
        case True
        then have "length (merge_ref cmp ?A ?B) = 2 * w" by simp
        then show ?thesis using e M IH assms(1) by (simp add: runs_sorted_append)
      next
        case False
        then have "?C = []" by simp
        then show ?thesis
          using e M(1) False assms(1) runs_sorted_short [of "2 * w" "merge_ref cmp ?A ?B" cmp]
          by (simp add: merge_pass.simps [of cmp w "[]"])
      qed
      moreover have "dom_ok k \<longrightarrow> ?f (merge_pass cmp w xs) = ?f xs"
        using e M IH by (subst (2) xs) simp
      ultimately show ?thesis by blast
    qed
  qed
  then show "runs_sorted cmp (2 * w) (merge_pass cmp w xs)"
    "dom_ok k \<Longrightarrow> ?f (merge_pass cmp w xs) = ?f xs" by blast+
qed

lemma merge_passes_spec:
  assumes "0 < w" "\<forall>x \<in> set xs. dom_ok x" "runs_sorted cmp w xs"
  shows "mset (merge_passes cmp w xs) = mset xs
    \<and> sorted_wrt (\<lambda>a b. cmp a b \<le> 0) (merge_passes cmp w xs)
    \<and> (\<forall>k. dom_ok k \<longrightarrow> filter (\<lambda>y. cmp k y = 0) (merge_passes cmp w xs)
                       = filter (\<lambda>y. cmp k y = 0) xs)"
  using assms
proof (induction "length xs - w" arbitrary: w xs rule: less_induct)
  case less
  show ?case
  proof (cases "length xs \<le> w")
    case True
    then show ?thesis
      using less.prems runs_sorted_short [of w xs cmp] by (simp add: merge_passes.simps)
  next
    case False
    then have e: "merge_passes cmp w xs = merge_passes cmp (2 * w) (merge_pass cmp w xs)"
      using less.prems(1) by (subst merge_passes.simps) simp
    have "\<forall>x \<in> set (merge_pass cmp w xs). dom_ok x" using less.prems by (simp add: set_merge_pass)
    then show ?thesis
      using less.hyps [of "merge_pass cmp w xs" "2 * w"] merge_pass_spec [OF less.prems] False
        less.prems(1) by (simp add: e mset_merge_pass)
  qed
qed

end

section \<open>The passes over any correct merge step\<close>

text \<open>
  What the passes rely on: a merge step on a collection, seen as a list through
  \<open>view\<close>, replaces two adjacent ranges by their merge and keeps the
  collection well formed.
\<close>

locale merge_step =
  fixes cmp :: "'a \<Rightarrow> 'a \<Rightarrow> int" and merge :: "nat \<Rightarrow> nat \<Rightarrow> nat \<Rightarrow> 'c \<Rightarrow> 'c"
    and view :: "'c \<Rightarrow> 'a list" and ok :: "'c \<Rightarrow> bool"
  assumes merge_ok: "ok c \<Longrightarrow> l \<le> mid \<Longrightarrow> mid < r \<Longrightarrow> r < length (view c) \<Longrightarrow> ok (merge l mid r c)"
    and merge_view: "ok c \<Longrightarrow> l \<le> mid \<Longrightarrow> mid < r \<Longrightarrow> r < length (view c) \<Longrightarrow>
      view (merge l mid r c) =
        poke (view c) l (merge_ref cmp (peek (view c) l (mid - l + 1)) (peek (view c) (mid + 1) (r - mid)))"
begin

lemma merge_view_pass:
  assumes "ok c" "0 < w" "l + w < length (view c)"
  defines "xs \<equiv> view c" and "n \<equiv> length (view c)"
  defines "c1 \<equiv> merge l (l + w - 1) (min (l + 2 * w - 1) (n - 1)) c"
  shows "ok c1" "length (view c1) = n"
    "take (l + 2 * w) (view c1) = take l xs @ merge_ref cmp (take w (drop l xs)) (take w (drop (l + w) xs))"
    "drop (l + 2 * w) (view c1) = drop (l + 2 * w) xs"
proof -
  let ?r = "min (l + 2 * w - 1) (n - 1)"
  let ?M = "merge_ref cmp (take w (drop l xs)) (take w (drop (l + w) xs))"
  have b: "l \<le> l + w - 1" "l + w - 1 < ?r" "?r < length (view c)" "l + w - 1 - l + 1 = w" "l + w - 1 + 1 = l + w"
    using assms by auto
  have "peek xs (l + w) (?r - (l + w - 1)) = take w (drop (l + w) xs)"
    using assms(2,3) by (auto simp: peek_def xs_def n_def min_def)
  then have v: "view c1 = poke xs l ?M"
    using merge_view [OF assms(1) b(1-3)] unfolding c1_def b(4,5) xs_def [symmetric]
    by (simp add: peek_def)
  show "ok c1" unfolding c1_def by (rule merge_ok [OF assms(1) b(1-3)])
  have M: "length ?M = min (2 * w) (n - l)" using assms by (auto simp: xs_def n_def)
  show "length (view c1) = n"
    unfolding v using M assms(3) by (subst length_poke) (auto simp: xs_def n_def)
  show "take (l + 2 * w) (view c1) = take l xs @ ?M"
    unfolding v poke_def using M assms(3) by (auto simp: xs_def n_def min_def)
  show "drop (l + 2 * w) (view c1) = drop (l + 2 * w) xs"
    unfolding v poke_def using M assms(3) by (auto simp: xs_def n_def min_def add.commute)
qed

lemma pass_correct:
  assumes "ok c" "0 < w" "2 * w \<le> ccol_max_elem_count" "0 < length (view c)"
    "length (view c) \<le> ccol_max_elem_count"
  shows "\<exists>c'. csort_pass merge (length (view c) - 1) w l c = Some c' \<and> ok c'
    \<and> view c' = take l (view c) @ merge_pass cmp w (drop l (view c))"
  using assms
proof (induction "length (view c) - l" arbitrary: l c rule: less_induct)
  case less
  let ?n = "length (view c)"
  show ?case
  proof (cases "l \<le> ?n - 1")
    case False
    then show ?thesis
      using less.prems by (subst csort_pass.simps) (simp add: merge_pass.simps)
  next
    case True
    have s: "l + 2 * w \<le> SIZE_MAX" "l + w \<le> SIZE_MAX"
      using True less.prems by (auto simp: size_defs)
    then have a: "sz_add l w = l + w" "sz_mul 2 w = 2 * w" "sz_add l (2 * w) = l + 2 * w"
        "sz_sub (l + w) 1 = l + w - 1" "sz_sub (l + 2 * w) 1 = l + 2 * w - 1"
      using less.prems(2) by (simp_all add: sz_add_exact sz_mul_exact sz_sub_exact)
    show ?thesis
    proof (cases "l + w - 1 \<ge> ?n - 1")
      case True
      then have "merge_pass cmp w (drop l (view c)) = drop l (view c)"
        using less.prems by (subst merge_pass.simps) auto
      then show ?thesis
        using True \<open>l \<le> ?n - 1\<close> less.prems(1) by (subst csort_pass.simps) (simp add: Let_def a a [unfolded One_nat_def])
    next
      case False
      then have lw: "l + w < ?n" by simp
      let ?c1 = "merge l (l + w - 1) (min (l + 2 * w - 1) (?n - 1)) c"
      note m = merge_view_pass [OF less.prems(1,2) lw]
      have e: "csort_pass merge (?n - 1) w l c = csort_pass merge (?n - 1) w (l + 2 * w) ?c1"
        using False True by (subst csort_pass.simps) (simp add: Let_def a a [unfolded One_nat_def] min_def)
      have "length (view ?c1) - (l + 2 * w) < ?n - l" using lw less.prems(2) by (simp only: m(2))
      from less.hyps [OF this m(1) less.prems(2,3), unfolded m(2), OF less.prems(4,5)]
      obtain c' where c': "csort_pass merge (?n - 1) w (l + 2 * w) ?c1 = Some c'" "ok c'"
          "view c' = take (l + 2 * w) (view ?c1) @ merge_pass cmp w (drop (l + 2 * w) (view ?c1))"
        by blast
      have "merge_pass cmp w (drop l (view c)) =
          merge_ref cmp (take w (drop l (view c))) (take w (drop (l + w) (view c)))
            @ merge_pass cmp w (drop (l + 2 * w) (view c))"
        using lw less.prems(2) by (subst merge_pass.simps) (auto simp: add.commute)
      then show ?thesis using c' e m(3,4) by simp
    qed
  qed
qed

lemma passes_correct:
  assumes "ok c" "pow2 w" "0 < length (view c)" "length (view c) \<le> ccol_max_elem_count"
  shows "\<exists>c'. csort_passes merge 0 (length (view c) - 1) (length (view c)) w c = Some c' \<and> ok c'
    \<and> view c' = merge_passes cmp w (view c)"
  using assms
proof (induction "length (view c) - w" arbitrary: w c rule: less_induct)
  case less
  let ?n = "length (view c)"
  have w: "0 < w" using less.prems(2) by (rule pow2_pos)
  show ?case
  proof (cases "w < ?n")
    case False
    then show ?thesis
      using less.prems(1) by (subst csort_passes.simps) (simp add: merge_passes.simps)
  next
    case True
    have "w < 2 * 2 ^ 62" using True less.prems(4) by (simp add: size_defs)
    then have "w \<le> 2 ^ 62" by (rule pow2_le_less_double [OF less.prems(2) pow2I])
    then have w2: "2 * w \<le> ccol_max_elem_count" "sz_mul w 2 = 2 * w"
      by (auto simp: size_defs sz_mul_def)
    from pass_correct [OF less.prems(1) w w2(1) less.prems(3,4), of 0]
    obtain c1 where c1: "csort_pass merge (?n - 1) w 0 c = Some c1" "ok c1"
      "view c1 = merge_pass cmp w (view c)" by auto
    have l: "length (view c1) = ?n" using c1 by simp
    have "?n - 2 * w < ?n - w" using True w by linarith
    then obtain c' where c': "csort_passes merge 0 (?n - 1) ?n (2 * w) c1 = Some c'" "ok c'"
        "view c' = merge_passes cmp (2 * w) (view c1)"
      using less.hyps [of c1 "2 * w"] l c1(2) less.prems True w pow2_double [OF less.prems(2)]
      by auto
    have "csort_passes merge 0 (?n - 1) ?n w c = Some c'"
      using True c1(1) c'(1) by (subst csort_passes.simps) (simp add: w2(2))
    moreover have "merge_passes cmp w (view c) = merge_passes cmp (2 * w) (merge_pass cmp w (view c))"
      using True w by (subst merge_passes.simps) simp
    ultimately show ?thesis using c' c1 by auto
  qed
qed

end

section \<open>Both merge steps are correct\<close>

lemma poke_Cons:
  assumes "k < length d"
  shows "poke d k (x # xs) = poke (d[k := x]) (Suc k) xs"
proof -
  have "drop (k + length (x # xs)) d = drop (Suc k + length xs) (d[k := x])" by simp
  moreover have "take (Suc k) (d[k := x]) = take k d @ [x]"
    using assms by (simp add: take_Suc_conv_app_nth)
  ultimately show ?thesis by (simp add: poke_def)
qed

lemma peek_Cons: "r < e \<Longrightarrow> e \<le> length d \<Longrightarrow> peek d r (e - r) = d ! r # peek d (Suc r) (e - Suc r)"
  by (simp add: peek_def Cons_nth_drop_Suc [symmetric] Suc_diff_Suc [symmetric])

lemma peek_update_before: "k < r \<Longrightarrow> peek (d[k := x]) r n = peek d r n"
  by (simp add: peek_def)

text \<open>The in-place loop: while left elements wait, the write position trails the right run.\<close>

lemma contiguous_while_spec:
  assumes "out + (length temp - l) = r" "l \<le> length temp" "r \<le> r_end" "r_end \<le> length base"
    "csort_merge_contiguous_while cmp temp l r r_end out base = (l', out', base')"
  shows "(if l' < length temp then poke base' out' (drop l' temp) else base')
       = poke base out (merge_ref cmp (drop l temp) (peek base r (r_end - r)))"
  using assms
proof (induction cmp temp l r r_end out base rule: csort_merge_contiguous_while.induct)
  case (1 cmp temp l r r_end out base)
  show ?case
  proof (cases "l < length temp \<and> r < r_end")
    case True
    then have o: "out < r" "out < length base" and d: "drop l temp = temp ! l # drop (Suc l) temp"
      and p: "peek base r (r_end - r) = base ! r # peek base (Suc r) (r_end - Suc r)"
      using "1.prems" by (auto simp: Cons_nth_drop_Suc peek_Cons)
    show ?thesis
    proof (cases "cmp (temp ! l) (base ! r) \<le> 0")
      case c: True
      have "csort_merge_contiguous_while cmp temp (l + 1) r r_end (out + 1) (base[out := temp ! l])
          = (l', out', base')"
        using "1.prems"(5) True c by (simp add: csort_merge_contiguous_while.simps [of cmp temp l])
      then have "(if l' < length temp then poke base' out' (drop l' temp) else base')
          = poke (base[out := temp ! l]) (Suc out)
              (merge_ref cmp (drop (Suc l) temp) (peek base r (r_end - r)))"
        using "1.IH"(1) True c "1.prems" o by (simp add: peek_update_before)
      then show ?thesis using d p c o by (simp add: poke_Cons)
    next
      case c: False
      have "csort_merge_contiguous_while cmp temp l (r + 1) r_end (out + 1) (base[out := base ! r])
          = (l', out', base')"
        using "1.prems"(5) True c by (simp add: csort_merge_contiguous_while.simps [of cmp temp l])
      then have "(if l' < length temp then poke base' out' (drop l' temp) else base')
          = poke (base[out := base ! r]) (Suc out)
              (merge_ref cmp (drop l temp) (peek base (Suc r) (r_end - Suc r)))"
        using "1.IH"(2) True c "1.prems" o by (simp add: peek_update_before)
      then show ?thesis using d p c o by (simp add: poke_Cons)
    qed
  next
    case False
    then have e: "l' = l" "out' = out" "base' = base"
      using "1.prems"(5) by (auto simp: csort_merge_contiguous_while.simps [of cmp temp l])
    show ?thesis
    proof (cases "l < length temp")
      case True
      then have "r_end - r = 0" using False by simp
      then show ?thesis using e True by (simp add: peek_0)
    next
      case l: False
      then have "poke base out (peek base r (r_end - r)) = base"
        using "1.prems" by (simp add: poke_peek)
      then show ?thesis using e l by simp
    qed
  qed
qed

interpretation contiguous: merge_step cmp "csort_merge_contiguous cmp" "\<lambda>b. b" "\<lambda>_. True" for cmp
proof
  fix c :: "'a list" and l mid r
  assume b: "l \<le> mid" "mid < r" "r < length c"
  let ?t = "peek c l (mid - l + 1)"
  obtain l' out' base' where
    w: "csort_merge_contiguous_while cmp ?t 0 (mid + 1) (r + 1) l c = (l', out', base')"
    by (metis prod_cases3)
  have p: "l + (length ?t - 0) = mid + 1" "0 \<le> length ?t" "mid + 1 \<le> r + 1" "r + 1 \<le> length c"
    and d: "r + 1 - (mid + 1) = r - mid"
    using b by (auto simp: length_peek)
  show "csort_merge_contiguous cmp l mid r c
      = poke c l (merge_ref cmp ?t (peek c (mid + 1) (r - mid)))"
    using contiguous_while_spec [OF p w]
    by (simp only: csort_merge_contiguous_def Let_def w prod.case drop_0 d)
qed simp

text \<open>
  The getter step.  A collection of \<open>n\<close> elements is well formed when the getter
  sends the indices below \<open>n\<close> to different cells of the memory.
\<close>

definition getter_ok :: "(nat \<Rightarrow> nat) \<Rightarrow> nat \<Rightarrow> 'a list \<Rightarrow> bool" where
  "getter_ok getter n col \<longleftrightarrow> inj_on getter {..<n} \<and> (\<forall>i<n. getter i < length col)"

definition getter_view :: "(nat \<Rightarrow> nat) \<Rightarrow> nat \<Rightarrow> 'a list \<Rightarrow> 'a list" where
  "getter_view getter n col = csort_copy_out getter col 0 n"

lemma length_getter_view [simp]: "length (getter_view getter n col) = n"
  by (simp add: getter_view_def csort_copy_out_def)

lemma copy_out_view: "l + m \<le> n \<Longrightarrow> csort_copy_out getter col l m = peek (getter_view getter n col) l m"
  by (rule nth_equalityI) (auto simp: getter_view_def csort_copy_out_def peek_def)

lemma getter_write:
  assumes "getter_ok getter n col" "k < n"
  shows "getter_ok getter n (col[getter k := x])"
    "getter_view getter n (col[getter k := x]) = (getter_view getter n col)[k := x]"
proof -
  show "getter_ok getter n (col[getter k := x])" using assms by (simp add: getter_ok_def)
  show "getter_view getter n (col[getter k := x]) = (getter_view getter n col)[k := x]"
    using assms
    by (intro nth_equalityI)
      (auto simp: getter_view_def csort_copy_out_def getter_ok_def nth_list_update inj_on_eq_iff)
qed

lemma copy_rest_spec:
  assumes "getter_ok getter n col" "i \<le> e" "e \<le> length temp" "k + (e - i) \<le> n"
    "csort_copy_rest getter temp e i k col = (k', col')"
  shows "getter_ok getter n col' \<and> k' = k + (e - i)
    \<and> getter_view getter n col' = poke (getter_view getter n col) k (peek temp i (e - i))"
  using assms
proof (induction getter temp e i k col rule: csort_copy_rest.induct)
  case (1 getter temp e i k col)
  show ?case
  proof (cases "i < e")
    case True
    let ?c = "col[getter k := temp ! i]"
    have k: "k < n" using True "1.prems"(4) by linarith
    have r: "csort_copy_rest getter temp e (i + 1) (k + 1) ?c = (k', col')"
      using True "1.prems"(5) by (simp add: csort_copy_rest.simps [of getter temp e i])
    note w = getter_write [OF "1.prems"(1) k, of "temp ! i"]
    have "getter_ok getter n col' \<and> k' = k + 1 + (e - (i + 1))
      \<and> getter_view getter n col' = poke (getter_view getter n ?c) (k + 1) (peek temp (i + 1) (e - (i + 1)))"
      by (rule "1.IH" [OF True w(1) _ _ _ r]) (use "1.prems" True in auto)
    then show ?thesis
      using w(2) True "1.prems"(3) k by (simp add: peek_Cons poke_Cons)
  next
    case False
    then have "k' = k" "col' = col"
      using "1.prems"(5) by (auto simp: csort_copy_rest.simps [of getter temp e i k col])
    then show ?thesis using False "1.prems" by (simp add: peek_0)
  qed
qed

lemma merge_while_spec:
  assumes "getter_ok getter n col" "i \<le> n1" "n1 \<le> j" "j \<le> n1 + n2" "length temp = n1 + n2"
    "k + (n1 - i) + (n1 + n2 - j) \<le> n"
    "csort_merge_while cmp getter temp n1 n2 i j k col = (i', j', k', col')"
  shows "getter_ok getter n col' \<and> i' \<le> n1 \<and> n1 \<le> j' \<and> j' \<le> n1 + n2 \<and> (i' = n1 \<or> j' = n1 + n2)
    \<and> k' + (n1 - i') + (n1 + n2 - j') = k + (n1 - i) + (n1 + n2 - j)
    \<and> poke (getter_view getter n col') k' (peek temp i' (n1 - i') @ peek temp j' (n1 + n2 - j'))
      = poke (getter_view getter n col) k
          (merge_ref cmp (peek temp i (n1 - i)) (peek temp j (n1 + n2 - j)))"
  using assms
proof (induction cmp getter temp n1 n2 i j k col rule: csort_merge_while.induct)
  case (1 cmp getter temp n1 n2 i j k col)
  show ?case
  proof (cases "i < n1 \<and> j < n1 + n2")
    case True
    have k: "k < n" using True "1.prems"(6) by linarith
    have p: "peek temp i (n1 - i) = temp ! i # peek temp (Suc i) (n1 - Suc i)"
      "peek temp j (n1 + n2 - j) = temp ! j # peek temp (Suc j) (n1 + n2 - Suc j)"
      using True "1.prems"(5) by (simp_all add: peek_Cons)
    show ?thesis
    proof (cases "cmp (temp ! i) (temp ! j) \<le> 0")
      case c: True
      note w = getter_write [OF "1.prems"(1) k, of "temp ! i"]
      have r: "csort_merge_while cmp getter temp n1 n2 (i + 1) j (k + 1) (col[getter k := temp ! i])
          = (i', j', k', col')"
        using True c "1.prems"(7) by (simp add: csort_merge_while.simps [of cmp getter temp n1 n2 i])
      have a: "i + 1 \<le> n1" "k + 1 + (n1 - (i + 1)) + (n1 + n2 - j) = k + (n1 - i) + (n1 + n2 - j)"
        using True by linarith+
      note IH = "1.IH"(1) [OF True c w(1) a(1) "1.prems"(3,4,5) _ r, unfolded a(2), OF "1.prems"(6)]
      have E: "poke (getter_view getter n col) k
            (merge_ref cmp (peek temp i (n1 - i)) (peek temp j (n1 + n2 - j)))
          = poke (getter_view getter n (col[getter k := temp ! i])) (k + 1)
              (merge_ref cmp (peek temp (i + 1) (n1 - (i + 1))) (peek temp j (n1 + n2 - j)))"
        using k c by (simp add: w(2) p poke_Cons)
      show ?thesis unfolding E by (rule IH)
    next
      case c: False
      note w = getter_write [OF "1.prems"(1) k, of "temp ! j"]
      have r: "csort_merge_while cmp getter temp n1 n2 i (j + 1) (k + 1) (col[getter k := temp ! j])
          = (i', j', k', col')"
        using True c "1.prems"(7) by (simp add: csort_merge_while.simps [of cmp getter temp n1 n2 i])
      have a: "n1 \<le> j + 1" "j + 1 \<le> n1 + n2"
        "k + 1 + (n1 - i) + (n1 + n2 - (j + 1)) = k + (n1 - i) + (n1 + n2 - j)"
        using True "1.prems"(3) by linarith+
      note IH = "1.IH"(2) [OF True c w(1) "1.prems"(2) a(1,2) "1.prems"(5) _ r, unfolded a(3), OF "1.prems"(6)]
      have E: "poke (getter_view getter n col) k
            (merge_ref cmp (peek temp i (n1 - i)) (peek temp j (n1 + n2 - j)))
          = poke (getter_view getter n (col[getter k := temp ! j])) (k + 1)
              (merge_ref cmp (peek temp i (n1 - i)) (peek temp (j + 1) (n1 + n2 - (j + 1))))"
        using k c by (simp add: w(2) p poke_Cons)
      show ?thesis unfolding E by (rule IH)
    qed
  next
    case False
    then have e: "i' = i" "j' = j" "k' = k" "col' = col"
      using "1.prems"(7) by (auto simp: csort_merge_while.simps [of cmp getter temp n1 n2 i])
    then show ?thesis using False "1.prems" by (auto simp: peek_0)
  qed
qed

lemma poke_append:
  assumes "k + length xs \<le> length d"
  shows "poke (poke d k xs) (k + length xs) ys = poke d k (xs @ ys)"
proof -
  have "take (k + length xs) (poke d k xs) = take k d @ xs" using assms by (simp add: take_poke_end)
  moreover have "drop (k + length xs + length ys) (poke d k xs) = drop (k + length xs + length ys) d"
    using assms by (simp add: poke_def add.commute)
  ultimately show ?thesis by (simp add: poke_def add.assoc)
qed

interpretation via_getter: merge_step cmp "csort_merge cmp getter" "getter_view getter n" "getter_ok getter n"
  for cmp getter n
proof -
  have main: "getter_ok getter n (csort_merge cmp getter l mid r c) \<and>
      getter_view getter n (csort_merge cmp getter l mid r c) =
        poke (getter_view getter n c) l
          (merge_ref cmp (peek (getter_view getter n c) l (mid - l + 1))
                         (peek (getter_view getter n c) (mid + 1) (r - mid)))"
    if ok: "getter_ok getter n c" and b: "l \<le> mid" "mid < r" "r < n" for c :: "'a list" and l mid r
  proof -
    define n1 where "n1 = mid - l + 1"
    define n2 where "n2 = r - mid"
    let ?V = "getter_view getter n"
    let ?A = "peek (?V c) l n1" and ?B = "peek (?V c) (mid + 1) n2"
    have ab: "length ?A = n1" "length ?B = n2" using b by (auto simp: length_peek n1_def n2_def)
    have t: "csort_copy_out getter c l n1 @ csort_copy_out getter c (mid + 1) n2 = ?A @ ?B"
      using b by (simp add: copy_out_view [of _ _ n] n1_def n2_def)
    obtain i j k c1 where w: "csort_merge_while cmp getter (?A @ ?B) n1 n2 0 n1 l c = (i, j, k, c1)"
      by (metis prod_cases4)
    have len: "length (?A @ ?B) = n1 + n2" "l + (n1 - 0) + (n1 + n2 - n1) \<le> n"
      using ab b by (auto simp: n1_def n2_def)
    note m = merge_while_spec [OF ok _ _ _ len(1) len(2) w, simplified]
    obtain k2 c2 where r1: "csort_copy_rest getter (?A @ ?B) n1 i k c1 = (k2, c2)" by fastforce
    note s1 = copy_rest_spec [OF _ _ _ _ r1, of n]
    obtain k3 c3 where r2: "csort_copy_rest getter (?A @ ?B) (n1 + n2) j k2 c2 = (k3, c3)" by fastforce
    note s2 = copy_rest_spec [OF _ _ _ _ r2, of n]
    have r: "csort_merge cmp getter l mid r c = c3"
      unfolding csort_merge_def Let_def n1_def [symmetric] n2_def [symmetric] t w prod.case r1 r2 ..
    have bnd: "k + (n1 - i) + (n1 + n2 - j) \<le> n"
    proof -
      have "k + (n1 - i) + (n1 + n2 - j) = l + n1 + n2" using m by blast
      then show ?thesis using len(2) by linarith
    qed
    have S1: "getter_ok getter n c2" "k2 = k + (n1 - i)" "?V c2 = poke (?V c1) k (peek (?A @ ?B) i (n1 - i))"
      using s1 m ab bnd by auto
    have S2: "getter_ok getter n c3" "?V c3 = poke (?V c2) k2 (peek (?A @ ?B) j (n1 + n2 - j))"
      using s2 S1 m ab bnd by auto
    have "length (peek (?A @ ?B) i (n1 - i)) = n1 - i" using ab m by (simp add: peek_def)
    then have "?V c3 = poke (?V c1) k (peek (?A @ ?B) i (n1 - i) @ peek (?A @ ?B) j (n1 + n2 - j))"
      using poke_append [of k "peek (?A @ ?B) i (n1 - i)" "?V c1"] S1 S2 bnd by simp
    moreover have "take n1 (?A @ ?B) = ?A" "peek (?A @ ?B) n1 n2 = ?B"
      using ab by (simp_all add: peek_def)
    ultimately show ?thesis
      unfolding r n1_def [symmetric] n2_def [symmetric] using m S2(1) by (simp add: peek_at_0)
  qed
  show "merge_step cmp (csort_merge cmp getter) (getter_view getter n) (getter_ok getter n)"
    by unfold_locales (use main in auto)
qed

section \<open>The sorts\<close>

text \<open>\<open>ys\<close> is the stable arrangement of \<open>xs\<close> in the order of the comparator.\<close>

definition stable_sorted_of :: "('a \<Rightarrow> 'a \<Rightarrow> int) \<Rightarrow> ('a \<Rightarrow> bool) \<Rightarrow> 'a list \<Rightarrow> 'a list \<Rightarrow> bool" where
  "stable_sorted_of cmp P xs ys \<longleftrightarrow>
     mset ys = mset xs \<and> sorted_wrt (\<lambda>a b. cmp a b \<le> 0) ys
     \<and> (\<forall>k. P k \<longrightarrow> filter (\<lambda>y. cmp k y = 0) ys = filter (\<lambda>y. cmp k y = 0) xs)"

lemma merge_passes_stable_sorted:
  "total_cmp cmp P \<Longrightarrow> \<forall>x \<in> set xs. P x \<Longrightarrow> stable_sorted_of cmp P xs (merge_passes cmp 1 xs)"
  using total_cmp.merge_passes_spec [of cmp P 1 xs] by (simp add: stable_sorted_of_def runs_sorted_1 [unfolded One_nat_def])

lemma stable_sorted_short: "length xs < 2 \<Longrightarrow> stable_sorted_of cmp P xs xs"
  by (cases xs) (auto simp: stable_sorted_of_def)

text \<open>When the drivers sort, and what they answer.\<close>

definition sort_granted :: "nat \<Rightarrow> size_t \<Rightarrow> mprocs \<Rightarrow> heap \<Rightarrow> bool" where
  "sort_granted n es mp h \<longleftrightarrow>
     csort_check_sort_shape n es mp = csort_buffer_ready \<and> fst (mem_alloc h (n * es)) \<noteq> None"

lemma shape_ready:
  "csort_check_sort_shape n es mp = csort_buffer_ready \<longleftrightarrow>
     n \<le> ccol_max_elem_count \<and> 0 < es \<and> n * es \<le> SIZE_MAX \<and> ccol_verify_memmgmt_procs mp"
  using less_eq_div_iff_mult_less_eq [of es n SIZE_MAX]
  by (auto simp: csort_check_sort_shape_def not_less)

lemma contiguous_result:
  assumes "heap_ok h" "2 \<le> length xs" "length xs \<le> SIZE_MAX"
  shows "\<exists>h'. csort_merge_sort_contiguous (Some xs) (length xs) es (Some cmp) mp h =
      Some (sort_granted (length xs) es mp h \<or> csort_check_sort_shape (length xs) es mp = csort_buffer_not_needed,
            Some (if sort_granted (length xs) es mp h then merge_passes cmp 1 xs else xs), h')
    \<and> blocks_kept h h'"
proof (cases "csort_check_sort_shape (length xs) es mp = csort_buffer_ready")
  case False
  then show ?thesis
    using assms(2) by (simp add: csort_merge_sort_contiguous_def sort_granted_def)
next
  case True
  then have s: "length xs \<le> ccol_max_elem_count" "sz_mul (length xs) es = length xs * es"
    by (auto simp: shape_ready sz_mul_exact)
  obtain a h1 where a: "mem_alloc h (length xs * es) = (a, h1)" by fastforce
  show ?thesis
  proof (cases a)
    case None
    then show ?thesis
      using a s True assms(2) mem_alloc_None [of h "length xs * es" h1]
      by (simp add: csort_merge_sort_contiguous_def sort_granted_def blocks_kept_def)
  next
    case (Some bl)
    obtain b bs where bl: "bl = (b, bs)" by fastforce
    have l: "blocks_kept h (mem_free h1 b)"
      using mem_alloc_Some [of h "length xs * es" b bs h1] a Some bl heap_ok_fresh [OF assms(1)]
      by (simp add: blocks_kept_def)
    have "pow2 1" using pow2I [of 0] by simp
    then obtain c where "csort_passes (csort_merge_contiguous cmp) 0 (length xs - 1) (length xs) 1 xs = Some c"
        "c = merge_passes cmp 1 xs"
      using contiguous.passes_correct [of 1 xs] assms(2) s(1) by fastforce
    then have "csort_contiguous_passes cmp (length xs) xs = Some (merge_passes cmp 1 xs)"
      using assms(2,3) by (simp add: csort_contiguous_passes_def sz_sub_exact)
    then show ?thesis
      using a s True assms(2) Some bl l
      by (simp add: csort_merge_sort_contiguous_def sort_granted_def)
  qed
qed

lemma getter_result:
  assumes "heap_ok h" "2 \<le> n" "n \<le> SIZE_MAX" "getter_ok getter n col"
  shows "\<exists>col' h'. csort_merge_sort (Some col) n es (Some getter) (Some cmp) mp h =
      Some (sort_granted n es mp h \<or> csort_check_sort_shape n es mp = csort_buffer_not_needed, Some col', h')
    \<and> (if sort_granted n es mp h
       then getter_view getter n col' = merge_passes cmp 1 (getter_view getter n col) else col' = col)
    \<and> live h' = live h"
proof -
  have n: "sz_sub n 1 = n - 1" "0 < n - 1" "sz_add (sz_sub (n - 1) 0) 1 = n"
    using assms(2,3) by (auto simp: sz_sub_exact sz_add_exact)
  note d = csort_merge_sort_def csort_mergesort_iterative_def sort_granted_def n n [unfolded One_nat_def]
  show ?thesis
  proof (cases "csort_check_sort_shape n es mp = csort_buffer_ready")
    case False
    then show ?thesis using assms(2) by (simp add: d Let_def)
  next
    case True
    then have s: "n \<le> ccol_max_elem_count" "sz_mul n es = n * es" by (auto simp: shape_ready sz_mul_exact)
    obtain a h1 where a: "mem_alloc h (n * es) = (a, h1)" by fastforce
    show ?thesis
    proof (cases a)
      case None
      then show ?thesis
        using a s True assms(2) mem_alloc_None [of h "n * es" h1] by (simp add: d Let_def)
    next
      case (Some bl)
      obtain b bs where bl: "bl = (b, bs)" by fastforce
      have l: "live (mem_free h1 b) = live h"
        using mem_alloc_Some [of h "n * es" b bs h1] a Some bl heap_ok_fresh [OF assms(1)] by simp
      have "pow2 1" using pow2I [of 0] by simp
      then obtain c where "csort_passes (csort_merge cmp getter) 0 (n - 1) n 1 col = Some c"
          "getter_view getter n c = merge_passes cmp 1 (getter_view getter n col)"
        using via_getter.passes_correct [OF assms(4), of 1 cmp] assms(2) s(1) by auto
      then show ?thesis
        using a s True assms(2) Some bl l by (simp add: d Let_def)
    qed
  qed
qed

text \<open>
  Claim C12.  The contiguous sort, for every comparator that is a total preorder
  on the elements, every length, element size and allocator: the call always
  returns; it answers true exactly when the collection is the stable sorted
  arrangement of the input or the elements have no bytes; when it answers false
  the collection is unchanged; and the temporary buffer is always released.
\<close>

theorem contiguous_sort_correct:
  assumes "total_cmp cmp P" "\<forall>x \<in> set xs. P x" "length xs \<le> SIZE_MAX" "heap_ok h"
  shows "\<exists>ok ys h'. csort_merge_sort_contiguous (Some xs) (length xs) es (Some cmp) mp h = Some (ok, Some ys, h')
    \<and> (ok \<longleftrightarrow> length xs < 2 \<or> (length xs \<le> ccol_max_elem_count \<and> es = 0) \<or> sort_granted (length xs) es mp h)
    \<and> (ok \<and> 0 < es \<longrightarrow> stable_sorted_of cmp P xs ys) \<and> (\<not> ok \<longrightarrow> ys = xs) \<and> live h' = live h"
proof (cases "length xs < 2")
  case True
  then show ?thesis by (auto simp: csort_merge_sort_contiguous_def stable_sorted_short)
next
  case False
  have nn: "csort_check_sort_shape (length xs) es mp = csort_buffer_not_needed \<longleftrightarrow>
      length xs \<le> ccol_max_elem_count \<and> es = 0"
    by (auto simp: csort_check_sort_shape_def)
  have "2 \<le> length xs" using False by simp
  from contiguous_result [OF assms(4) this assms(3), of es cmp mp, unfolded nn]
  obtain h' where "csort_merge_sort_contiguous (Some xs) (length xs) es (Some cmp) mp h =
      Some (sort_granted (length xs) es mp h \<or> length xs \<le> ccol_max_elem_count \<and> es = 0,
            Some (if sort_granted (length xs) es mp h then merge_passes cmp 1 xs else xs), h')"
      "live h' = live h"
    by (auto simp: blocks_kept_def)
  then show ?thesis
    using merge_passes_stable_sorted [OF assms(1,2)] False by auto
qed

theorem contiguous_sort_correct_witness:
  "total_cmp csort_default_signed_cmp (\<lambda>_. True)
   \<and> (\<exists>ok ys h'. csort_merge_sort_contiguous (Some [[3], [1], [255::byte]]) 3 1 (Some csort_default_signed_cmp)
        DefaultProcs \<lparr>answers = [Grant (\<lambda>_. 0)], next_blk = 0, live = {}\<rparr> = Some (ok, Some ys, h')
      \<and> ok \<and> stable_sorted_of csort_default_signed_cmp (\<lambda>_. True) [[3], [1], [255]] ys)"
proof -
  let ?h = "\<lparr>answers = [Grant (\<lambda>_. 0)], next_blk = 0, live = {}\<rparr>"
  have h: "heap_ok ?h" by (simp add: heap_ok_def)
  have g: "sort_granted 3 1 DefaultProcs ?h"
    by (simp add: sort_granted_def shape_ready ccol_verify_memmgmt_procs_def mem_alloc_def size_defs)
  define xs where "xs = [[3], [1], [255::byte]]"
  have l: "length xs = 3" by (simp add: xs_def)
  have "length xs \<le> SIZE_MAX" by (simp add: l size_defs)
  from contiguous_sort_correct [OF signed_cmp.total_cmp_axioms _ this h, of 1 DefaultProcs, unfolded l] g
  show ?thesis using signed_cmp.total_cmp_axioms unfolding xs_def [symmetric] by auto
qed

text \<open>
  Claim C31.  The sort through an item getter and the contiguous sort give the
  same answer and arrange the elements the same way, for every comparator, even
  one that is no order at all: on equal inputs the two drivers make the same
  merges.  The getter may place the elements anywhere, as long as different
  indices are different cells.
\<close>

theorem getter_sort_equiv_contiguous:
  assumes "getter_ok getter n col" "n \<le> SIZE_MAX" "heap_ok h"
  shows "\<exists>ok col' ys h1 h2.
      csort_merge_sort (Some col) n es (Some getter) (Some cmp) mp h = Some (ok, Some col', h1)
    \<and> csort_merge_sort_contiguous (Some (getter_view getter n col)) n es (Some cmp) mp h = Some (ok, Some ys, h2)
    \<and> getter_view getter n col' = ys \<and> live h1 = live h \<and> live h2 = live h"
proof (cases "n < 2")
  case True
  then show ?thesis by (auto simp: csort_merge_sort_def csort_merge_sort_contiguous_def)
next
  case False
  then have "2 \<le> n" by simp
  from getter_result [OF assms(3) this assms(2,1), of es cmp mp]
    contiguous_result [OF assms(3), of "getter_view getter n col" es cmp mp] this assms(2)
  show ?thesis unfolding blocks_kept_def by (auto split: if_splits)
qed

theorem getter_sort_equiv_contiguous_witness:
  "let col = [10, 30, 20::int]; getter = (\<lambda>i. 2 - i);
       h = \<lparr>answers = [Grant (\<lambda>_. 0)], next_blk = 0, live = {}\<rparr>
   in getter_ok getter 3 col \<and> getter_view getter 3 col = [20, 30, 10]
    \<and> (\<exists>ok col' ys h1 h2.
          csort_merge_sort (Some col) 3 8 (Some getter) (Some cmp3) DefaultProcs h = Some (ok, Some col', h1)
        \<and> csort_merge_sort_contiguous (Some [20, 30, 10]) 3 8 (Some cmp3) DefaultProcs h = Some (ok, Some ys, h2)
        \<and> getter_view getter 3 col' = ys)"
proof -
  let ?h = "\<lparr>answers = [Grant (\<lambda>_. 0)], next_blk = 0, live = {}\<rparr>"
  have g: "getter_ok (\<lambda>i. 2 - i) 3 [10, 30, 20::int]"
    by (auto simp: getter_ok_def inj_on_def)
  have v: "getter_view (\<lambda>i. 2 - i) 3 [10, 30, 20::int] = [20, 30, 10]"
    by (simp add: getter_view_def csort_copy_out_def upt_rec numeral_2_eq_2)
  have "(3::nat) \<le> SIZE_MAX" "heap_ok ?h" by (simp_all add: size_defs heap_ok_def)
  from getter_sort_equiv_contiguous [OF g this, of 8 cmp3 DefaultProcs] g v show ?thesis
    unfolding Let_def by (simp only: v) blast
qed

end
