(* ===== verification/CCol_Vector.thy ===== *)
theory CCol_Vector
  imports CCol_Container CCol_Common CCol_Sort
begin

text \<open>
  \<^verbatim>\<open>src/cvector.c\<close>: the growable array of elements of one size.  The backing
  buffer is its bytes, \<open>capacity * elem_size\<close> of them; a pointer argument may
  point into that buffer.  \<^term>\<open>None\<close> is an abort of the process or a copy
  whose behaviour is undefined, so a theorem that an operation returns also
  says that all its copies stay in bounds and do not overlap.
\<close>

section \<open>The vector and its operations\<close>

record cvector =
  cv_elem_size :: size_t
  cv_elem_count :: size_t
  cv_capacity :: size_t
  cv_m_procs :: mprocs
  cv_data :: "byte list"
  cv_data_blk :: "nat option"
  cv_blk :: nat

definition cvector_minimum_capacity :: size_t where
  [size_defs]: "cvector_minimum_capacity = 4"

definition cvector_scaling_factor :: size_t where
  [size_defs]: "cvector_scaling_factor = 2"

definition shrink_threshold_divisor :: size_t where
  [size_defs]: "shrink_threshold_divisor = 4"

datatype cvec_err =
    elem_size_is_zero | elem_size_too_large | null_memory_proc
  | failed_to_allocate_container | failed_to_allocate_data

definition cvector_destroy :: "cvector option \<Rightarrow> heap \<Rightarrow> heap" where
  "cvector_destroy v h =
     (case v of
        None \<Rightarrow> h
      | Some v \<Rightarrow>
          let h = (case cv_data_blk v of None \<Rightarrow> h | Some b \<Rightarrow> mem_free h b)
          in mem_free h (cv_blk v))"

definition verify_cvector_create_inputs :: "size_t \<Rightarrow> mprocs \<Rightarrow> cvec_err option" where
  "verify_cvector_create_inputs elem_size mmgt_procs =
     (if elem_size = 0 then Some elem_size_is_zero
      else if elem_size > SIZE_MAX div cvector_minimum_capacity then Some elem_size_too_large
      else if \<not> ccol_verify_memmgmt_procs mmgt_procs then Some null_memory_proc
      else None)"

definition cvector_create_full :: "size_t \<Rightarrow> mprocs \<Rightarrow> heap \<Rightarrow> (cvec_err + cvector) \<times> heap" where
  "cvector_create_full elem_size mmgt_procs h =
     (case verify_cvector_create_inputs elem_size mmgt_procs of
        Some e \<Rightarrow> (Inl e, h)
      | None \<Rightarrow>
          let copy_procs = (case mmgt_procs of CallerProcs _ \<Rightarrow> True | _ \<Rightarrow> False) in
          (case mem_calloc h (40 + (if copy_procs then 32 else 0)) of
             (None, h) \<Rightarrow> (Inl failed_to_allocate_container, h)
           | (Some (b, _), h) \<Rightarrow>
               (let v = \<lparr>cv_elem_size = 0, cv_elem_count = 0, cv_capacity = 0,
                         cv_m_procs = mmgt_procs, cv_data = [], cv_data_blk = None, cv_blk = b\<rparr> in
                case mem_alloc h (sz_mul cvector_minimum_capacity elem_size) of
                  (None, h) \<Rightarrow> (Inl failed_to_allocate_data, cvector_destroy (Some v) h)
                | (Some (db, bs), h) \<Rightarrow>
                    (Inr (v\<lparr>cv_data := bs, cv_data_blk := Some db,
                            cv_capacity := cvector_minimum_capacity,
                            cv_elem_count := 0, cv_elem_size := elem_size\<rparr>), h))))"

definition cvector_get_mprocs :: "cvector option \<Rightarrow> mprocs option" where
  "cvector_get_mprocs v = map_option cv_m_procs v"

definition scale_the_cvector_size_up :: "cvector \<Rightarrow> heap \<Rightarrow> ccol_retval \<times> cvector \<times> heap" where
  "scale_the_cvector_size_up v h =
     (if cv_capacity v > ccol_max_elem_count div cvector_scaling_factor then (ccol_container_full, v, h)
      else let new_capacity = sz_mul cvector_scaling_factor (cv_capacity v) in
        if new_capacity > SIZE_MAX div cv_elem_size v then (ccol_container_full, v, h)
        else (case mem_realloc h (cv_data v) (sz_mul new_capacity (cv_elem_size v)) of
            (None, h) \<Rightarrow> (ccol_not_enough_memory, v, h)
          | (Some bs, h) \<Rightarrow>
              (ccol_success,
               v\<lparr>cv_data := bs, cv_capacity := sz_mul (cv_capacity v) cvector_scaling_factor\<rparr>, h)))"

definition scale_the_cvector_size_down :: "cvector \<Rightarrow> heap \<Rightarrow> cvector \<times> heap" where
  "scale_the_cvector_size_down v h =
     (if cv_capacity v = cvector_minimum_capacity then (v, h)
      else (case mem_realloc h (cv_data v)
                   (sz_mul (cv_capacity v div cvector_scaling_factor) (cv_elem_size v)) of
          (None, h) \<Rightarrow> (v, h)
        | (Some bs, h) \<Rightarrow>
            (v\<lparr>cv_data := bs, cv_capacity := cv_capacity v div cvector_scaling_factor\<rparr>, h)))"

text \<open>
  A pointer argument across a reallocation.  One that lies in
  \<open>[buf_start, buf_end)\<close> of the vector is turned into an offset before and back
  into a pointer after; one that points into the buffer and is not recognised
  so would dangle; any other is not affected.
\<close>

definition survives_move :: "cvector \<Rightarrow> byte cptr \<Rightarrow> bool" where
  "survives_move v p = (case p of Self off \<Rightarrow> off < cv_capacity v * cv_elem_size v | _ \<Rightarrow> True)"

definition cvector_push_back ::
  "cvector option \<Rightarrow> byte cptr \<Rightarrow> heap \<Rightarrow> (ccol_retval \<times> cvector \<times> heap) option" where
  "cvector_push_back v new_elem h =
     (case v of
        None \<Rightarrow> None
      | Some v \<Rightarrow>
          if new_elem = Null then Some (ccol_invalid_args, v, h)
          else if cv_elem_count v = ccol_max_elem_count then Some (ccol_container_full, v, h)
          else if cv_elem_count v < cv_capacity v then do {
            d \<leftarrow> memcpy (cv_data v) (cv_elem_count v * cv_elem_size v) new_elem (cv_elem_size v);
            Some (ccol_success, v\<lparr>cv_data := d, cv_elem_count := cv_elem_count v + 1\<rparr>, h)
          }
          else (case scale_the_cvector_size_up v h of
              (rv, v', h) \<Rightarrow>
                if rv = ccol_success then
                  (if survives_move v new_elem then do {
                     d \<leftarrow> memcpy (cv_data v') (cv_elem_count v' * cv_elem_size v') new_elem (cv_elem_size v');
                     Some (ccol_success, v'\<lparr>cv_data := d, cv_elem_count := cv_elem_count v' + 1\<rparr>, h)
                   }
                   else None)
                else Some (rv, v', h)))"

text \<open>\<open>target_elem\<close> is null or an object of the caller, returned as the call leaves it.\<close>

definition cvector_pop_back ::
  "cvector option \<Rightarrow> byte list option \<Rightarrow> heap \<Rightarrow> (ccol_retval \<times> byte list option \<times> cvector \<times> heap) option" where
  "cvector_pop_back v target_elem h =
     (case v of
        None \<Rightarrow> None
      | Some v \<Rightarrow>
          (case target_elem of
             None \<Rightarrow> Some (ccol_invalid_args, None, v, h)
           | Some t \<Rightarrow>
               if cv_elem_count v > 0 then
                 (let v1 = v\<lparr>cv_elem_count := cv_elem_count v - 1\<rparr>;
                      src = peek (cv_data v1) (cv_elem_count v1 * cv_elem_size v1) (cv_elem_size v1)
                  in do {
                    t \<leftarrow> memcpy t 0 (Ext src) (cv_elem_size v1);
                    (let (v2, h) = (if cv_elem_count v1 < cv_capacity v1 div shrink_threshold_divisor
                                    then scale_the_cvector_size_down v1 h else (v1, h))
                     in Some (ccol_success, Some t, v2, h))
                  })
               else Some (ccol_container_empty, target_elem, v, h)))"

definition cvector_reserve :: "cvector option \<Rightarrow> size_t \<Rightarrow> heap \<Rightarrow> (bool \<times> cvector \<times> heap) option" where
  "cvector_reserve v new_capacity_count h =
     (case v of
        None \<Rightarrow> None
      | Some v \<Rightarrow>
          let refined = ccol_find_nearest_gte_power_of_two new_capacity_count;
              refined = (if refined < cvector_minimum_capacity then cvector_minimum_capacity else refined)
          in if refined > ccol_max_elem_count then Some (False, v, h)
             else if refined > SIZE_MAX div cv_elem_size v then Some (False, v, h)
             else if refined \<le> cv_capacity v then Some (True, v, h)
             else (case mem_realloc h (cv_data v) (sz_mul refined (cv_elem_size v)) of
                 (None, h) \<Rightarrow> Some (False, v, h)
               | (Some bs, h) \<Rightarrow> Some (True, v\<lparr>cv_data := bs, cv_capacity := refined\<rparr>, h)))"

definition cvector_copy_into_tail :: "cvector \<Rightarrow> byte cptr \<Rightarrow> size_t \<Rightarrow> cvector option" where
  "cvector_copy_into_tail v src n =
     (let dst = cv_elem_count v * cv_elem_size v;
          may_overlap = (case src of Self s \<Rightarrow> overlaps dst s n | _ \<Rightarrow> False)
      in do {
        d \<leftarrow> (if may_overlap then memmove (cv_data v) dst src n else memcpy (cv_data v) dst src n);
        Some (v\<lparr>cv_data := d\<rparr>)
      })"

definition cvector_append_array ::
  "cvector option \<Rightarrow> byte cptr \<Rightarrow> size_t \<Rightarrow> heap \<Rightarrow> (bool \<times> cvector \<times> heap) option" where
  "cvector_append_array v arr_ptr elem_count h =
     (case v of
        None \<Rightarrow> None
      | Some v \<Rightarrow>
          if elem_count = 0 then Some (True, v, h)
          else if arr_ptr = Null then Some (False, v, h)
          else let new_elem_count = sz_add (cv_elem_count v) elem_count in
            if new_elem_count < cv_elem_count v \<or> new_elem_count > ccol_max_elem_count
            then Some (False, v, h)
            else let buf_len = cv_capacity v * cv_elem_size v in
              if (case arr_ptr of
                    Self off \<Rightarrow> off < buf_len \<and> elem_count > (buf_len - off) div cv_elem_size v
                  | _ \<Rightarrow> False)
              then Some (False, v, h)
              else if new_elem_count \<le> cv_capacity v then do {
                v' \<leftarrow> cvector_copy_into_tail v arr_ptr (sz_mul elem_count (cv_elem_size v));
                Some (True, v'\<lparr>cv_elem_count := cv_elem_count v' + elem_count\<rparr>, h)
              }
              else do {
                (ok, v', h) \<leftarrow> cvector_reserve (Some v) new_elem_count h;
                (if \<not> ok then Some (False, v', h)
                 else if survives_move v arr_ptr then do {
                   v'' \<leftarrow> cvector_copy_into_tail v' arr_ptr (sz_mul elem_count (cv_elem_size v'));
                   Some (True, v''\<lparr>cv_elem_count := cv_elem_count v'' + elem_count\<rparr>, h)
                 }
                 else None)
              })"

text \<open>The second vector of an append: the first one itself, or another handle.\<close>

datatype append_source = SameVector | OtherVector "cvector option"

definition cvector_append_cvector ::
  "cvector option \<Rightarrow> append_source \<Rightarrow> heap \<Rightarrow> (bool \<times> cvector \<times> heap) option" where
  "cvector_append_cvector v_to v_from h =
     (case v_to of
        None \<Rightarrow> None
      | Some v \<Rightarrow>
          (case v_from of
             OtherVector None \<Rightarrow> None
           | OtherVector (Some w) \<Rightarrow>
               if cv_elem_size v \<noteq> cv_elem_size w then None
               else cvector_append_array (Some v) (Ext (cv_data w)) (cv_elem_count w) h
           | SameVector \<Rightarrow>
               (let count = cv_elem_count v; new_count = sz_add (cv_elem_count v) count in
                if new_count < cv_elem_count v \<or> new_count > ccol_max_elem_count then Some (False, v, h)
                else do {
                  (ok, v', h) \<leftarrow> cvector_reserve (Some v) new_count h;
                  (if \<not> ok then Some (False, v', h)
                   else cvector_append_array (Some v') (Self 0) (cv_elem_count v') h)
                })))"

definition cvector_data_ptr :: "cvector option \<Rightarrow> byte cptr option" where
  "cvector_data_ptr v = (case v of None \<Rightarrow> None | Some v \<Rightarrow> Some (Self 0))"

definition cvector_at :: "cvector option \<Rightarrow> size_t \<Rightarrow> byte cptr option" where
  "cvector_at v index =
     (case v of
        None \<Rightarrow> None
      | Some v \<Rightarrow>
          if cv_elem_count v > 0 \<and> index < cv_elem_count v
          then Some (Self (index * cv_elem_size v)) else Some Null)"

definition cvector_elem_count :: "cvector option \<Rightarrow> size_t option" where
  "cvector_elem_count v = map_option cv_elem_count v"

definition cvector_reset :: "cvector option \<Rightarrow> heap \<Rightarrow> (cvector \<times> heap) option" where
  "cvector_reset v h =
     (case v of
        None \<Rightarrow> None
      | Some v \<Rightarrow>
          let (v', h) =
            (if cv_capacity v \<noteq> cvector_minimum_capacity
             then (case mem_realloc h (cv_data v) (sz_mul cvector_minimum_capacity (cv_elem_size v)) of
                 (None, h) \<Rightarrow> (v, h)
               | (Some bs, h) \<Rightarrow> (v\<lparr>cv_data := bs, cv_capacity := cvector_minimum_capacity\<rparr>, h))
             else (v, h))
          in Some (v'\<lparr>cv_elem_count := 0\<rparr>, h))"

definition cvector_sort ::
  "cvector option \<Rightarrow> (byte list \<Rightarrow> byte list \<Rightarrow> int) option \<Rightarrow> heap \<Rightarrow> (bool \<times> cvector \<times> heap) option" where
  "cvector_sort v comparison_proc h =
     (case v of
        None \<Rightarrow> None
      | Some v \<Rightarrow> do {
          (ok, es, h) \<leftarrow>
            csort_merge_sort_contiguous (Some (chunks (cv_elem_size v) (cv_elem_count v) (cv_data v)))
              (cv_elem_count v) (cv_elem_size v) comparison_proc (cv_m_procs v) h;
          Some (ok, v\<lparr>cv_data := poke (cv_data v) 0 (concat (the es))\<rparr>, h)
        })"

fun cvector_find_loop ::
  "byte list \<Rightarrow> size_t \<Rightarrow> (byte list \<Rightarrow> bool) \<Rightarrow> nat \<Rightarrow> nat \<Rightarrow> size_t" where
  "cvector_find_loop d es match i 0 = ccol_invalid_size"
| "cvector_find_loop d es match i (Suc n) =
     (if match (peek d (i * es) es) then i else cvector_find_loop d es match (i + 1) n)"

definition cvector_find ::
  "cvector option \<Rightarrow> byte cptr \<Rightarrow> (byte list \<Rightarrow> byte list \<Rightarrow> int) option \<Rightarrow> size_t option" where
  "cvector_find v elem cmp =
     (case v of
        None \<Rightarrow> None
      | Some v \<Rightarrow>
          if elem = Null then Some ccol_invalid_size
          else let e = read_ptr (cv_data v) elem (cv_elem_size v);
                   match = (\<lambda>current. case cmp of Some f \<Rightarrow> f current e = 0
                                                | None \<Rightarrow> CCol_Values.memcmp current e = 0)
               in Some (cvector_find_loop (cv_data v) (cv_elem_size v) match 0 (cv_elem_count v)))"

section \<open>The iterator\<close>

text \<open>The iterator's own fields; the key it shows is \<open>ci_index\<close>, the value the element at \<open>ci_val\<close>.\<close>

record cvec_iter =
  ci_index :: size_t
  ci_val :: size_t
  ci_blk :: nat

definition cvector_begin_iter :: "cvector option \<Rightarrow> heap \<Rightarrow> bool \<times> cvec_iter option \<times> heap" where
  "cvector_begin_iter v h =
     (case v of
        None \<Rightarrow> (False, None, h)
      | Some v \<Rightarrow>
          if cv_elem_count v = 0 then (False, None, h)
          else (case mem_calloc h 96 of
              (None, h) \<Rightarrow> (True, None, h)
            | (Some (b, _), h) \<Rightarrow> (False, Some \<lparr>ci_index = 0, ci_val = 0, ci_blk = b\<rparr>, h)))"

definition cvec_iter_impl_free :: "cvec_iter \<Rightarrow> heap \<Rightarrow> heap" where
  "cvec_iter_impl_free it h = mem_free h (ci_blk it)"

definition cvec_cmap_iter_next ::
  "cvector \<Rightarrow> cvec_iter option \<Rightarrow> heap \<Rightarrow> (cvec_iter option \<times> heap) option" where
  "cvec_cmap_iter_next v it h =
     (case it of
        None \<Rightarrow> None
      | Some it \<Rightarrow>
          let next_index = sz_add (ci_index it) 1 in
          if next_index \<ge> cv_elem_count v then Some (None, cvec_iter_impl_free it h)
          else Some (Some (it\<lparr>ci_index := next_index, ci_val := next_index * cv_elem_size v\<rparr>), h))"

text \<open>The loop of a caller over an iterator, with the index and the element each round shows.\<close>

partial_function (option) cvec_visit ::
  "cvector \<Rightarrow> cvec_iter option \<Rightarrow> heap \<Rightarrow> ((nat \<times> byte list) list \<times> heap) option" where
  "cvec_visit v it h =
     (case it of
        None \<Rightarrow> Some ([], h)
      | Some i \<Rightarrow> do {
          (it', h) \<leftarrow> cvec_cmap_iter_next v it h;
          (xs, h) \<leftarrow> cvec_visit v it' h;
          Some ((ci_index i, peek (cv_data v) (ci_val i) (cv_elem_size v)) # xs, h)
        })"

section \<open>Invariant and abstraction\<close>

definition cvec_inv :: "cvector \<Rightarrow> bool" where
  "cvec_inv v \<longleftrightarrow>
     0 < cv_elem_size v \<and> pow2 (cv_capacity v) \<and> cvector_minimum_capacity \<le> cv_capacity v
     \<and> cv_capacity v \<le> ccol_max_elem_count \<and> cv_capacity v * cv_elem_size v \<le> SIZE_MAX
     \<and> length (cv_data v) = cv_capacity v * cv_elem_size v
     \<and> cv_elem_count v \<le> cv_capacity v \<and> cv_data_blk v \<noteq> None"

definition cvec_elems :: "cvector \<Rightarrow> byte list list" where
  "cvec_elems v = chunks (cv_elem_size v) (cv_elem_count v) (cv_data v)"

text \<open>What no operation on a live vector changes.\<close>

definition cvec_frame :: "cvector \<Rightarrow> cvector \<Rightarrow> bool" where
  "cvec_frame v w \<longleftrightarrow>
     cv_elem_size w = cv_elem_size v \<and> cv_m_procs w = cv_m_procs v
     \<and> cv_blk w = cv_blk v \<and> cv_data_blk w = cv_data_blk v"

lemma cvec_frame_refl [simp]: "cvec_frame v v"
  by (simp add: cvec_frame_def)

lemma cvec_frame_trans: "cvec_frame u v \<Longrightarrow> cvec_frame v w \<Longrightarrow> cvec_frame u w"
  by (simp add: cvec_frame_def)

lemma cvec_invD:
  assumes "cvec_inv v"
  shows "0 < cv_elem_size v" "pow2 (cv_capacity v)" "4 \<le> cv_capacity v"
    "cv_capacity v \<le> ccol_max_elem_count" "cv_capacity v * cv_elem_size v \<le> SIZE_MAX"
    "length (cv_data v) = cv_capacity v * cv_elem_size v" "cv_elem_count v \<le> cv_capacity v"
    "cv_elem_count v * cv_elem_size v \<le> length (cv_data v)"
  using assms by (auto simp: cvec_inv_def size_defs)

lemma length_cvec_elems [simp]: "length (cvec_elems v) = cv_elem_count v"
  by (simp add: cvec_elems_def)

text \<open>At the ceiling for growth: doubling would pass a structural limit.\<close>

definition growth_ceiling :: "cvector \<Rightarrow> bool" where
  "growth_ceiling v \<longleftrightarrow>
     2 * cv_capacity v > ccol_max_elem_count \<or> 2 * cv_capacity v * cv_elem_size v > SIZE_MAX"

lemma scale_up_spec:
  assumes inv: "cvec_inv v" and r: "scale_the_cvector_size_up v h = (rv, v', h')"
  shows "blocks_kept h h'"
    and "if growth_ceiling v then rv = ccol_container_full \<and> v' = v \<and> h' = h
         else if fst (mem_realloc h (cv_data v) (2 * cv_capacity v * cv_elem_size v)) = None
         then rv = ccol_not_enough_memory \<and> v' = v
         else rv = ccol_success \<and> cvec_inv v' \<and> cvec_frame v v' \<and> cv_capacity v' = 2 * cv_capacity v
              \<and> cv_elem_count v' = cv_elem_count v \<and> take (length (cv_data v)) (cv_data v') = cv_data v"
proof -
  note i = cvec_invD [OF inv]
  have m: "sz_mul 2 (cv_capacity v) = 2 * cv_capacity v \<and> sz_mul (cv_capacity v) 2 = 2 * cv_capacity v"
    if "2 * cv_capacity v \<le> ccol_max_elem_count"
    using that by (auto simp: sz_mul_def size_defs mult.commute)
  have c1: "cv_capacity v > ccol_max_elem_count div cvector_scaling_factor \<longleftrightarrow>
      2 * cv_capacity v > ccol_max_elem_count" by (auto simp: size_defs)
  have c2: "2 * cv_capacity v > SIZE_MAX div cv_elem_size v \<longleftrightarrow> 2 * cv_capacity v * cv_elem_size v > SIZE_MAX"
    using i(1) less_eq_div_iff_mult_less_eq [of "cv_elem_size v" "2 * cv_capacity v" SIZE_MAX] by linarith
  have "blocks_kept h h' \<and> (if growth_ceiling v then rv = ccol_container_full \<and> v' = v \<and> h' = h
         else if fst (mem_realloc h (cv_data v) (2 * cv_capacity v * cv_elem_size v)) = None
         then rv = ccol_not_enough_memory \<and> v' = v
         else rv = ccol_success \<and> cvec_inv v' \<and> cvec_frame v v' \<and> cv_capacity v' = 2 * cv_capacity v
              \<and> cv_elem_count v' = cv_elem_count v \<and> take (length (cv_data v)) (cv_data v') = cv_data v)"
  proof (cases "growth_ceiling v")
    case True
    then have "scale_the_cvector_size_up v h = (ccol_container_full, v, h)"
      using m c1 c2
      by (auto simp: growth_ceiling_def scale_the_cvector_size_up_def cvector_scaling_factor_def)
    then show ?thesis using r True by simp
  next
    case False
    then have f: "2 * cv_capacity v \<le> ccol_max_elem_count" "2 * cv_capacity v * cv_elem_size v \<le> SIZE_MAX"
      by (auto simp: growth_ceiling_def)
    then have z: "sz_mul (2 * cv_capacity v) (cv_elem_size v) = 2 * cv_capacity v * cv_elem_size v"
      by (simp add: sz_mul_exact)
    obtain a h1 where a: "mem_realloc h (cv_data v) (2 * cv_capacity v * cv_elem_size v) = (a, h1)"
      by fastforce
    have e: "scale_the_cvector_size_up v h =
        (case (a, h1) of (None, h) \<Rightarrow> (ccol_not_enough_memory, v, h)
         | (Some bs, h) \<Rightarrow> (ccol_success, v\<lparr>cv_data := bs, cv_capacity := 2 * cv_capacity v\<rparr>, h))"
      unfolding scale_the_cvector_size_up_def cvector_scaling_factor_def
      using False c1 c2 m [OF f(1)] f
      by (simp add: growth_ceiling_def cvector_scaling_factor_def z a split: option.split)
    show ?thesis
    proof (cases a)
      case None
      then show ?thesis using e r a False mem_realloc_kept [OF a] by auto
    next
      case (Some bs)
      then have bs: "length bs = 2 * cv_capacity v * cv_elem_size v"
          "take (length (cv_data v)) bs = cv_data v"
        using mem_realloc_grow [of h "cv_data v" "2 * cv_capacity v * cv_elem_size v" bs h1] a i(6)
        by simp_all
      then have "cvec_inv (v\<lparr>cv_data := bs, cv_capacity := 2 * cv_capacity v\<rparr>)"
        using inv f pow2_double [OF i(2)] by (auto simp: cvec_inv_def)
      then show ?thesis
        using e r a Some False bs mem_realloc_kept [OF a] by (auto simp: cvec_frame_def)
    qed
  qed
  then show "blocks_kept h h'"
    and "if growth_ceiling v then rv = ccol_container_full \<and> v' = v \<and> h' = h
         else if fst (mem_realloc h (cv_data v) (2 * cv_capacity v * cv_elem_size v)) = None
         then rv = ccol_not_enough_memory \<and> v' = v
         else rv = ccol_success \<and> cvec_inv v' \<and> cvec_frame v v' \<and> cv_capacity v' = 2 * cv_capacity v
              \<and> cv_elem_count v' = cv_elem_count v \<and> take (length (cv_data v)) (cv_data v') = cv_data v"
    by blast+
qed

text \<open>Writing \<open>k\<close> elements behind the last one.\<close>

lemma tail_write:
  assumes inv: "cvec_inv v" and bs: "length bs = k * cv_elem_size v" and k: "cv_elem_count v + k \<le> cv_capacity v"
  defines "w \<equiv> v\<lparr>cv_data := poke (cv_data v) (cv_elem_count v * cv_elem_size v) bs,
                 cv_elem_count := cv_elem_count v + k\<rparr>"
  shows "cvec_inv w" "cvec_frame v w" "cvec_elems w = cvec_elems v @ chunks (cv_elem_size v) k bs"
proof -
  note i = cvec_invD [OF inv]
  have l: "cv_elem_count v * cv_elem_size v + length bs \<le> length (cv_data v)"
    using k i(6) bs by (metis add_mult_distrib mult_le_mono1)
  show "cvec_inv w" using inv k l by (simp add: w_def cvec_inv_def length_poke)
  show "cvec_frame v w" by (simp add: w_def cvec_frame_def)
  have "drop (cv_elem_count v * cv_elem_size v) (poke (cv_data v) (cv_elem_count v * cv_elem_size v) bs)
      = bs @ drop (cv_elem_count v * cv_elem_size v + length bs) (cv_data v)"
    using i(8) by (simp add: poke_def)
  moreover have "chunks (cv_elem_size v) k (bs @ ys) = chunks (cv_elem_size v) k bs" for ys
    by (rule chunks_cong_take) (simp add: bs)
  ultimately show "cvec_elems w = cvec_elems v @ chunks (cv_elem_size v) k bs"
    using i(8) by (simp add: w_def cvec_elems_def chunks_add chunks_poke_before)
qed

lemma elems_after_move:
  assumes "cvec_inv v" "cv_elem_size w = cv_elem_size v" "cv_elem_count w = cv_elem_count v"
    "take (length (cv_data v)) (cv_data w) = cv_data v"
  shows "cvec_elems w = cvec_elems v"
    and "readable (cv_data v) p n \<Longrightarrow> length (cv_data v) \<le> length (cv_data w) \<Longrightarrow>
           readable (cv_data w) p n \<and> read_ptr (cv_data w) p n = read_ptr (cv_data v) p n"
proof -
  note i = cvec_invD [OF assms(1)]
  have "take m (cv_data w) = take m (cv_data v)" if "m \<le> length (cv_data v)" for m
    using that assms(4) by (metis min.absorb1 take_take)
  then show "cvec_elems w = cvec_elems v"
    using i(8) assms(2,3) by (auto simp: cvec_elems_def intro!: chunks_cong_take)
  assume p: "readable (cv_data v) p n" "length (cv_data v) \<le> length (cv_data w)"
  then have "p = Self off \<Longrightarrow> peek (cv_data w) off n = peek (cv_data v) off n" for off
    using peek_take [of off n "length (cv_data v)" "cv_data w"] assms(4) by (auto simp: readable_def)
  then show "readable (cv_data w) p n \<and> read_ptr (cv_data w) p n = read_ptr (cv_data v) p n"
    using p by (auto simp: readable_def read_ptr_def split: cptr.splits)
qed

section \<open>Each operation on a list of elements\<close>

text \<open>A pointer to a live element, or to memory of the caller.\<close>

definition elem_ptr :: "cvector \<Rightarrow> byte cptr \<Rightarrow> bool" where
  "elem_ptr v p \<longleftrightarrow> readable (cv_data v) p (cv_elem_size v)
     \<and> (\<forall>off. p = Self off \<longrightarrow> off + cv_elem_size v \<le> cv_elem_count v * cv_elem_size v)"

lemma push_into_space:
  assumes inv: "cvec_inv w" and sp: "cv_elem_count w < cv_capacity w"
    and r: "readable (cv_data w) p (cv_elem_size w)"
    and off: "\<And>off. p = Self off \<Longrightarrow> off + cv_elem_size w \<le> cv_elem_count w * cv_elem_size w"
  shows "\<exists>d. memcpy (cv_data w) (cv_elem_count w * cv_elem_size w) p (cv_elem_size w) = Some d
     \<and> cvec_inv (w\<lparr>cv_data := d, cv_elem_count := cv_elem_count w + 1\<rparr>)
     \<and> cvec_frame w (w\<lparr>cv_data := d, cv_elem_count := cv_elem_count w + 1\<rparr>)
     \<and> cvec_elems (w\<lparr>cv_data := d, cv_elem_count := cv_elem_count w + 1\<rparr>)
         = cvec_elems w @ [read_ptr (cv_data w) p (cv_elem_size w)]"
proof -
  let ?b = "read_ptr (cv_data w) p (cv_elem_size w)"
  have l: "length ?b = 1 * cv_elem_size w" using r by (simp add: length_read_ptr)
  have "cv_elem_count w * cv_elem_size w + cv_elem_size w \<le> length (cv_data w)"
    using chunk_end [OF sp, of "cv_elem_size w"] cvec_invD(6) [OF inv] by simp
  moreover have "\<forall>off. p = Self off \<longrightarrow> \<not> overlaps (cv_elem_count w * cv_elem_size w) off (cv_elem_size w)"
    using off by (auto simp: overlaps_def)
  ultimately have "memcpy (cv_data w) (cv_elem_count w * cv_elem_size w) p (cv_elem_size w)
      = Some (poke (cv_data w) (cv_elem_count w * cv_elem_size w) ?b)"
    using r by (intro memcpy_Some)
  moreover have "chunks (cv_elem_size w) 1 ?b = [?b]" using l by (simp add: chunks_def peek_def)
  ultimately show ?thesis using tail_write [OF inv l] sp by simp
qed

lemma push_back_spec:
  assumes inv: "cvec_inv v" and p: "elem_ptr v p"
  shows "\<exists>rv v' h'. cvector_push_back (Some v) p h = Some (rv, v', h') \<and> blocks_kept h h'
     \<and> cvec_inv v' \<and> cvec_frame v v'
     \<and> rv = (if cv_elem_count v < cv_capacity v then ccol_success
             else if cv_elem_count v = ccol_max_elem_count \<or> growth_ceiling v then ccol_container_full
             else if fst (mem_realloc h (cv_data v) (2 * cv_capacity v * cv_elem_size v)) = None
             then ccol_not_enough_memory else ccol_success)
     \<and> (if rv = ccol_success
        then cvec_elems v' = cvec_elems v @ [read_ptr (cv_data v) p (cv_elem_size v)] else v' = v)"
proof -
  note i = cvec_invD [OF inv]
  have nn: "p \<noteq> Null" using p by (auto simp: elem_ptr_def readable_def)
  have sv: "survives_move v p"
    using p i(1,6) by (auto simp: elem_ptr_def survives_move_def readable_def split: cptr.splits)
  show ?thesis
  proof (cases "cv_elem_count v < cv_capacity v")
    case True
    then show ?thesis
      using push_into_space [OF inv True, of p] p nn i(4)
      by (auto simp: cvector_push_back_def elem_ptr_def)
  next
    case full: False
    show ?thesis
    proof (cases "cv_elem_count v = ccol_max_elem_count")
      case True
      then show ?thesis using full nn inv by (auto simp: cvector_push_back_def)
    next
      case False
      obtain rv w h' where s: "scale_the_cvector_size_up v h = (rv, w, h')" by (metis prod_cases3)
      note u = scale_up_spec [OF inv s]
      show ?thesis
      proof (cases "rv = ccol_success")
        case True
        then have w: "cvec_inv w" "cvec_frame v w" "cv_capacity w = 2 * cv_capacity v"
            "cv_elem_count w = cv_elem_count v" "take (length (cv_data v)) (cv_data w) = cv_data v"
            "\<not> growth_ceiling v" "fst (mem_realloc h (cv_data v) (2 * cv_capacity v * cv_elem_size v)) \<noteq> None"
          using u(2) by (auto split: if_splits)
        have es: "cv_elem_size w = cv_elem_size v" using w(2) by (simp add: cvec_frame_def)
        have len: "length (cv_data v) \<le> length (cv_data w)"
          using w(5) by (metis length_take min.cobounded1)
        note m = elems_after_move [OF inv es w(4,5)]
        have p': "readable (cv_data w) p (cv_elem_size w)"
            "read_ptr (cv_data w) p (cv_elem_size w) = read_ptr (cv_data v) p (cv_elem_size v)"
          using m(2) [of p "cv_elem_size v"] p len es by (auto simp: elem_ptr_def)
        have sp: "cv_elem_count w < cv_capacity w" using w i(3,7) by simp
        obtain d where d: "memcpy (cv_data w) (cv_elem_count w * cv_elem_size w) p (cv_elem_size w) = Some d"
            "cvec_inv (w\<lparr>cv_data := d, cv_elem_count := cv_elem_count w + 1\<rparr>)"
            "cvec_frame w (w\<lparr>cv_data := d, cv_elem_count := cv_elem_count w + 1\<rparr>)"
            "cvec_elems (w\<lparr>cv_data := d, cv_elem_count := cv_elem_count w + 1\<rparr>)
               = cvec_elems w @ [read_ptr (cv_data w) p (cv_elem_size w)]"
          using push_into_space [OF w(1) sp p'(1)] p w(4) es by (auto simp: elem_ptr_def)
        have "cvector_push_back (Some v) p h =
            Some (ccol_success, w\<lparr>cv_data := d, cv_elem_count := cv_elem_count w + 1\<rparr>, h')"
          using nn False full s True sv d(1) by (simp add: cvector_push_back_def)
        then show ?thesis
          using d(2-4) w full False p'(2) m(1) u(1) cvec_frame_trans [OF w(2) d(3)] by auto
      next
        case ne: False
        then have "cvector_push_back (Some v) p h = Some (rv, w, h')"
          using nn False full s by (simp add: cvector_push_back_def)
        then show ?thesis
          using u inv ne False full by (cases "growth_ceiling v") (auto split: if_splits)
      qed
    qed
  qed
qed

text \<open>
  Claim C21.  \<^verbatim>\<open>cvector_push_back\<close> on any vector that satisfies the invariant, with a
  null pointer, a pointer to memory of the caller or a pointer to a live element
  of the same vector: it returns, its copy is defined, and its code is exactly
  \<^verbatim>\<open>ccol_invalid_args\<close> for the null pointer and otherwise the one of the first limit
  that is hit (the count ceiling, the growth ceiling, the allocator).  On
  success the vector holds one more element, with the bytes \<open>new_elem\<close> had
  before any growth moved the buffer; on failure the vector is unchanged, and the
  null pointer is refused before the allocator is asked.
\<close>

theorem push_back_correct:
  assumes inv: "cvec_inv v" and p: "p = Null \<or> elem_ptr v p"
  shows "\<exists>rv v' h'. cvector_push_back (Some v) p h = Some (rv, v', h') \<and> blocks_kept h h'
     \<and> cvec_inv v' \<and> cvec_frame v v'
     \<and> rv = (if p = Null then ccol_invalid_args
             else if cv_elem_count v < cv_capacity v then ccol_success
             else if cv_elem_count v = ccol_max_elem_count \<or> growth_ceiling v then ccol_container_full
             else if fst (mem_realloc h (cv_data v) (2 * cv_capacity v * cv_elem_size v)) = None
             then ccol_not_enough_memory else ccol_success)
     \<and> (if rv = ccol_success
        then cvec_elems v' = cvec_elems v @ [read_ptr (cv_data v) p (cv_elem_size v)] else v' = v)
     \<and> (rv = ccol_invalid_args \<longrightarrow> h' = h)"
proof (cases "p = Null")
  case True
  then show ?thesis using inv by (simp add: cvector_push_back_def)
next
  case False
  then have "elem_ptr v p" using p by simp
  from push_back_spec [OF inv this, of h] False show ?thesis by (auto split: if_splits)
qed

theorem push_back_correct_witness:
  "let v = \<lparr>cv_elem_size = 1, cv_elem_count = 4, cv_capacity = 4, cv_m_procs = DefaultProcs,
            cv_data = [10, 20, 30, 40::byte], cv_data_blk = Some 1, cv_blk = 0\<rparr>;
       h = \<lparr>answers = [Grant (\<lambda>_. 0)], next_blk = 2, live = {0, 1}\<rparr>
   in cvec_inv v \<and> elem_ptr v (Self 1)
    \<and> (\<exists>v' h'. cvector_push_back (Some v) (Self 1) h = Some (ccol_success, v', h')
         \<and> cvec_elems v' = [[10], [20], [30], [40], [20]])
    \<and> cvector_push_back (Some v) Null h = Some (ccol_invalid_args, v, h)"
proof -
  define v where "v = \<lparr>cv_elem_size = 1, cv_elem_count = 4, cv_capacity = 4, cv_m_procs = DefaultProcs,
            cv_data = [10, 20, 30, 40::byte], cv_data_blk = Some 1, cv_blk = (0::nat)\<rparr>"
  define h where "h = \<lparr>answers = [Grant (\<lambda>_. 0)], next_blk = 2, live = {0, 1::nat}\<rparr>"
  have p4: "pow2 4" using pow2I [of 2] by simp
  have inv: "cvec_inv v" using p4 by (simp add: v_def cvec_inv_def size_defs)
  have p: "elem_ptr v (Self 1)" by (simp add: v_def elem_ptr_def readable_def)
  have es: "cvec_elems v = [[10], [20], [30], [40]]"
    by (simp add: v_def cvec_elems_def chunks_def peek_def upt_rec)
  have "fst (mem_realloc h (cv_data v) (2 * cv_capacity v * cv_elem_size v)) \<noteq> None"
    by (simp add: h_def v_def mem_realloc_def)
  moreover have "\<not> growth_ceiling v" "cv_elem_count v \<noteq> ccol_max_elem_count" "\<not> cv_elem_count v < cv_capacity v"
    by (simp_all add: v_def growth_ceiling_def size_defs)
  moreover have "read_ptr (cv_data v) (Self 1) (cv_elem_size v) = [20]"
    by (simp add: v_def read_ptr_def peek_def)
  ultimately have "\<exists>v' h'. cvector_push_back (Some v) (Self 1) h = Some (ccol_success, v', h')
         \<and> cvec_elems v' = [[10], [20], [30], [40], [20]]"
    using push_back_correct [OF inv disjI2 [OF p], of h] p es by (auto simp: elem_ptr_def readable_def)
  moreover have "cvector_push_back (Some v) Null h = Some (ccol_invalid_args, v, h)"
    using push_back_correct [OF inv disjI1 [OF refl], of h] by auto
  ultimately show ?thesis using inv p unfolding Let_def v_def [symmetric] h_def [symmetric] by blast
qed

lemma scale_down_spec:
  assumes inv: "cvec_inv v" and sp: "cv_elem_count v < cv_capacity v div 4"
    and r: "scale_the_cvector_size_down v h = (v', h')"
  shows "cvec_inv v' \<and> cvec_frame v v' \<and> cvec_elems v' = cvec_elems v \<and> blocks_kept h h'
     \<and> cv_capacity v' \<le> cv_capacity v"
proof (cases "cv_capacity v = cvector_minimum_capacity")
  case True
  then show ?thesis using r inv by (simp add: scale_the_cvector_size_down_def)
next
  case False
  note i = cvec_invD [OF inv]
  note p = pow2_half [OF i(2)]
  have c: "4 < cv_capacity v" using False i(3) by (simp add: size_defs)
  let ?n = "cv_capacity v div 2 * cv_elem_size v"
  have n: "?n \<le> cv_capacity v * cv_elem_size v" by (intro mult_le_mono1) simp
  then have z: "sz_mul (cv_capacity v div cvector_scaling_factor) (cv_elem_size v) = ?n"
    using sz_mul_exact [OF order_trans [OF n i(5)]] by (simp add: cvector_scaling_factor_def)
  obtain a h1 where a: "mem_realloc h (cv_data v) ?n = (a, h1)" by fastforce
  have e: "scale_the_cvector_size_down v h =
      (case a of None \<Rightarrow> (v, h1) | Some bs \<Rightarrow> (v\<lparr>cv_data := bs, cv_capacity := cv_capacity v div 2\<rparr>, h1))"
    unfolding scale_the_cvector_size_down_def z a
    using False by (simp add: cvector_scaling_factor_def split: option.split)
  show ?thesis
  proof (cases a)
    case None
    then show ?thesis using e r inv mem_realloc_kept [OF a] by auto
  next
    case (Some bs)
    then have bs: "bs = take ?n (cv_data v)" using mem_realloc_shrink [of h _ ?n bs h1] a n i(6) by simp
    have cc: "cv_elem_count v \<le> cv_capacity v div 2" using sp by linarith
    then have "cv_elem_count v * cv_elem_size v \<le> ?n" by (rule mult_le_mono1)
    then have el: "cvec_elems (v\<lparr>cv_data := bs, cv_capacity := cv_capacity v div 2\<rparr>) = cvec_elems v"
      unfolding bs by (simp add: cvec_elems_def chunks_take)
    have "cvec_inv (v\<lparr>cv_data := bs, cv_capacity := cv_capacity v div 2\<rparr>)"
      using inv p [OF c] cc order_trans [OF n i(5)] unfolding bs
      by (auto simp: cvec_inv_def min_def cvector_minimum_capacity_def)
    then show ?thesis using e r Some el mem_realloc_kept [OF a] by (auto simp: cvec_frame_def)
  qed
qed

lemma pop_back_spec:
  assumes inv: "cvec_inv v" and t: "cv_elem_size v \<le> length t"
  shows "\<exists>rv t' v' h'. cvector_pop_back (Some v) (Some t) h = Some (rv, Some t', v', h')
     \<and> blocks_kept h h' \<and> cvec_inv v' \<and> cvec_frame v v'
     \<and> (if cvec_elems v = [] then rv = ccol_container_empty \<and> t' = t \<and> v' = v
        else rv = ccol_success \<and> cvec_elems v' = butlast (cvec_elems v)
             \<and> t' = last (cvec_elems v) @ drop (cv_elem_size v) t)"
proof (cases "cv_elem_count v = 0")
  case True
  then show ?thesis using inv by (auto simp: cvector_pop_back_def cvec_elems_def)
next
  case False
  note i = cvec_invD [OF inv]
  then obtain k where k: "cv_elem_count v = Suc k" using False by (cases "cv_elem_count v") auto
  let ?w = "v\<lparr>cv_elem_count := k\<rparr>" and ?s = "peek (cv_data v) (k * cv_elem_size v) (cv_elem_size v)"
  have w: "cvec_inv ?w" "cvec_frame v ?w" using inv k by (auto simp: cvec_inv_def cvec_frame_def)
  have el: "cvec_elems v = cvec_elems ?w @ [?s]" by (simp add: cvec_elems_def k chunks_Suc)
  have s: "length ?s = cv_elem_size v" using i(8) k by (simp add: length_peek)
  have m: "memcpy t 0 (Ext ?s) (cv_elem_size v) = Some (?s @ drop (cv_elem_size v) t)"
    using s t by (simp add: memcpy_Some readable_def read_ptr_def) (simp add: poke_def)
  obtain u h' where u: "(if k < cv_capacity v div 4 then scale_the_cvector_size_down ?w h else (?w, h)) = (u, h')"
    by fastforce
  have u': "cvec_inv u \<and> cvec_frame ?w u \<and> cvec_elems u = cvec_elems ?w \<and> blocks_kept h h'"
    using u scale_down_spec [OF w(1), of h u h'] w(1) by (auto split: if_splits)
  have "cvector_pop_back (Some v) (Some t) h = Some (ccol_success, Some (?s @ drop (cv_elem_size v) t), u, h')"
    using m u k by (simp add: cvector_pop_back_def shrink_threshold_divisor_def)
  then show ?thesis using u' el cvec_frame_trans [OF w(2)] by auto
qed

text \<open>
  \<^verbatim>\<open>cvector_pop_back\<close> is the inverse of a push on the abstract list: on a
  vector that is not empty it copies the last element into \<open>target_elem\<close>, removes
  exactly that element whether or not the shrinking reallocation is granted, and
  keeps the invariant; on an empty vector it touches neither the target nor the
  vector and reports \<^verbatim>\<open>ccol_container_empty\<close>.
\<close>

theorem pop_back_correct:
  assumes inv: "cvec_inv v" and t: "cv_elem_size v \<le> length t"
  shows "\<exists>rv t' v' h'. cvector_pop_back (Some v) (Some t) h = Some (rv, Some t', v', h')
     \<and> blocks_kept h h' \<and> cvec_inv v' \<and> cvec_frame v v'
     \<and> (if cvec_elems v = [] then rv = ccol_container_empty \<and> t' = t \<and> v' = v
        else rv = ccol_success \<and> cvec_elems v' = butlast (cvec_elems v)
             \<and> t' = last (cvec_elems v) @ drop (cv_elem_size v) t)"
  by (rule pop_back_spec [OF assms])

theorem pop_back_correct_witness:
  "let v = \<lparr>cv_elem_size = 1, cv_elem_count = 2, cv_capacity = 8, cv_m_procs = DefaultProcs,
            cv_data = [10, 20, 0, 0, 0, 0, 0, 0::byte], cv_data_blk = Some 1, cv_blk = 0\<rparr>;
       h = \<lparr>answers = [Grant (\<lambda>_. 0)], next_blk = 2, live = {0, 1}\<rparr>
   in cvec_inv v \<and> (\<exists>v' h'. cvector_pop_back (Some v) (Some [0]) h = Some (ccol_success, Some [20], v', h')
         \<and> cvec_elems v' = [[10]])"
proof -
  define v where "v = \<lparr>cv_elem_size = 1, cv_elem_count = 2, cv_capacity = 8, cv_m_procs = DefaultProcs,
            cv_data = [10, 20, 0, 0, 0, 0, 0, 0::byte], cv_data_blk = Some 1, cv_blk = (0::nat)\<rparr>"
  have p8: "pow2 8" using pow2I [of 3] by simp
  have inv: "cvec_inv v" using p8 by (simp add: v_def cvec_inv_def size_defs)
  have el: "cvec_elems v = [[10], [20]]" by (simp add: v_def cvec_elems_def chunks_def peek_def upt_rec)
  have "cv_elem_size v = 1" by (simp add: v_def)
  then show ?thesis
    using pop_back_correct [OF inv, of "[0]"] inv el unfolding Let_def v_def [symmetric] by fastforce
qed

lemma nearest_within_capacity:
  assumes inv: "cvec_inv v" and le: "n \<le> cv_capacity v"
  shows "ccol_find_nearest_gte_power_of_two n \<le> cv_capacity v"
proof (cases "2 \<le> n")
  case True
  have nm: "n \<le> ccol_max_elem_count" using le cvec_invD(4) [OF inv] by simp
  have "ccol_find_nearest_gte_power_of_two n < 2 * cv_capacity v"
    using nearest_pow2_ok(4) [OF nm True] le by linarith
  then show ?thesis by (rule pow2_le_less_double [OF nearest_pow2_ok(1) [OF nm] cvec_invD(2) [OF inv]])
qed (use cvec_invD(3) [OF inv] in \<open>simp add: ccol_find_nearest_gte_power_of_two_def\<close>)

text \<open>A reservation keeps every byte of the old buffer and never shrinks it.\<close>

lemma reserve_spec:
  assumes inv: "cvec_inv v" and n: "n \<le> SIZE_MAX"
  obtains ok v' h' where "cvector_reserve (Some v) n h = Some (ok, v', h')" "blocks_kept h h'"
    "cvec_inv v'" "cvec_frame v v'" "cv_elem_count v' = cv_elem_count v"
    "take (length (cv_data v)) (cv_data v') = cv_data v" "cv_capacity v \<le> cv_capacity v'"
    "ok \<Longrightarrow> n \<le> cv_capacity v'" "\<not> ok \<Longrightarrow> v' = v"
    "n \<le> cv_capacity v \<Longrightarrow> ok \<and> v' = v \<and> h' = h"
proof -
  note i = cvec_invD [OF inv]
  let ?r = "max (ccol_find_nearest_gte_power_of_two n) 4"
  have def: "cvector_reserve (Some v) n h =
     (if ?r > ccol_max_elem_count then Some (False, v, h)
      else if ?r > SIZE_MAX div cv_elem_size v then Some (False, v, h)
      else if ?r \<le> cv_capacity v then Some (True, v, h)
      else (case mem_realloc h (cv_data v) (sz_mul ?r (cv_elem_size v)) of
          (None, h) \<Rightarrow> Some (False, v, h)
        | (Some bs, h) \<Rightarrow> Some (True, v\<lparr>cv_data := bs, cv_capacity := ?r\<rparr>, h)))"
    by (simp add: cvector_reserve_def Let_def cvector_minimum_capacity_def max_def split: prod.split option.split)
  show ?thesis
  proof (cases "?r > ccol_max_elem_count \<or> ?r > SIZE_MAX div cv_elem_size v")
    case True
    have "\<not> n \<le> cv_capacity v"
    proof
      assume le: "n \<le> cv_capacity v"
      then have "ccol_find_nearest_gte_power_of_two n \<le> cv_capacity v" by (rule nearest_within_capacity [OF inv])
      then have r: "?r \<le> cv_capacity v" using i(3) by simp
      then have "?r * cv_elem_size v \<le> SIZE_MAX" using i(5) mult_le_mono1 order_trans by blast
      then show False
        using True r i(1,4) less_eq_div_iff_mult_less_eq [of "cv_elem_size v" ?r SIZE_MAX] by linarith
    qed
    then show ?thesis using that [of False v h] def True inv by auto
  next
    case False
    then have f: "?r \<le> ccol_max_elem_count" "?r * cv_elem_size v \<le> SIZE_MAX"
      using i(1) le_div_mult_le [of "cv_elem_size v" ?r SIZE_MAX] by linarith+
    have nm: "n \<le> ccol_max_elem_count"
      using f(1) nearest_pow2_too_large [of n] n by (cases "ccol_max_elem_count < n") (auto simp: size_defs)
    have pr: "pow2 ?r" "n \<le> ?r"
      using nearest_pow2_ok [OF nm] pow2I [of 2] by (auto simp: max_def)
    show ?thesis
    proof (cases "?r \<le> cv_capacity v")
      case True
      have "cvector_reserve (Some v) n h = Some (True, v, h)" unfolding def using False True by auto
      then show ?thesis using that [of True v h] inv pr(2) True by auto
    next
      case grow: False
      have nle: "\<not> n \<le> cv_capacity v"
      proof
        assume le: "n \<le> cv_capacity v"
        have "ccol_find_nearest_gte_power_of_two n \<le> cv_capacity v" by (rule nearest_within_capacity [OF inv le])
        then show False using grow i(3) by simp
      qed
      obtain a h1 where a: "mem_realloc h (cv_data v) (?r * cv_elem_size v) = (a, h1)" by fastforce
      have e: "cvector_reserve (Some v) n h =
          (case a of None \<Rightarrow> Some (False, v, h1)
           | Some bs \<Rightarrow> Some (True, v\<lparr>cv_data := bs, cv_capacity := ?r\<rparr>, h1))"
        unfolding def sz_mul_exact [OF f(2)] a using False grow by (auto split: option.split)
      show ?thesis
      proof (cases a)
        case None
        then show ?thesis using that [of False v h1] e inv nle mem_realloc_kept [OF a] by auto
      next
        case (Some bs)
        have "length (cv_data v) \<le> ?r * cv_elem_size v" using mult_le_mono1 [of "cv_capacity v" ?r "cv_elem_size v"] grow i(6)
          by linarith
        then have bs: "length bs = ?r * cv_elem_size v" "take (length (cv_data v)) bs = cv_data v"
          using mem_realloc_grow [of h "cv_data v" "?r * cv_elem_size v" bs h1] a Some by auto
        have "cvec_inv (v\<lparr>cv_data := bs, cv_capacity := ?r\<rparr>)"
          using inv f pr bs(1) grow by (auto simp: cvec_inv_def cvector_minimum_capacity_def)
        then show ?thesis
          using that [of True "v\<lparr>cv_data := bs, cv_capacity := ?r\<rparr>" h1] e Some bs pr nle grow mem_realloc_kept [OF a]
          by (auto simp: cvec_frame_def)
      qed
    qed
  qed
qed

lemma copy_into_tail_spec:
  assumes inv: "cvec_inv w" and sp: "cv_elem_count w + n \<le> cv_capacity w"
    and r: "readable (cv_data w) p (n * cv_elem_size w)"
  obtains w1 w' where "cvector_copy_into_tail w p (sz_mul n (cv_elem_size w)) = Some w1"
    "w' = w1\<lparr>cv_elem_count := cv_elem_count w1 + n\<rparr>" "cvec_inv w'" "cvec_frame w w'"
    "cvec_elems w' = cvec_elems w @ chunks (cv_elem_size w) n (read_ptr (cv_data w) p (n * cv_elem_size w))"
proof -
  let ?es = "cv_elem_size w" and ?b = "read_ptr (cv_data w) p (n * cv_elem_size w)"
  have b: "cv_elem_count w * ?es + n * ?es \<le> length (cv_data w)"
    using sp cvec_invD(6) [OF inv] by (metis add_mult_distrib mult_le_mono1)
  then have z: "sz_mul n ?es = n * ?es" using cvec_invD(5,6) [OF inv] by (intro sz_mul_exact) linarith
  have l: "length ?b = n * ?es" using r by (simp add: length_read_ptr)
  have c: "cvector_copy_into_tail w p (n * ?es)
      = Some (w\<lparr>cv_data := poke (cv_data w) (cv_elem_count w * ?es) ?b\<rparr>)"
    using memmove_Some [OF r b] memcpy_Some [OF r b]
    by (cases p) (auto simp: cvector_copy_into_tail_def Let_def)
  show ?thesis using that [OF _ refl] c z tail_write [OF inv l sp] by simp
qed

text \<open>The source of an append: memory of the caller that is long enough, or any address in the buffer.\<close>

definition append_ptr :: "cvector \<Rightarrow> byte cptr \<Rightarrow> nat \<Rightarrow> bool" where
  "append_ptr v p n = (case p of Null \<Rightarrow> True | Ext bs \<Rightarrow> n * cv_elem_size v \<le> length bs
                               | Self off \<Rightarrow> off < length (cv_data v))"

lemma append_array_spec:
  assumes inv: "cvec_inv v" and p: "append_ptr v p n" and n: "n \<le> SIZE_MAX"
  obtains ok v' h' where "cvector_append_array (Some v) p n h = Some (ok, v', h')" "blocks_kept h h'"
    "cvec_inv v'" "cvec_frame v v'" "\<not> ok \<Longrightarrow> v' = v"
    "ok \<Longrightarrow> cvec_elems v' = cvec_elems v @ chunks (cv_elem_size v) n (read_ptr (cv_data v) p (n * cv_elem_size v))"
    "cv_elem_count v + n \<le> cv_capacity v \<Longrightarrow> readable (cv_data v) p (n * cv_elem_size v) \<Longrightarrow> ok \<and> h' = h"
proof -
  note i = cvec_invD [OF inv]
  let ?es = "cv_elem_size v"
  let ?bad = "case p of Self off \<Rightarrow> off < cv_capacity v * ?es \<and> n > (cv_capacity v * ?es - off) div ?es | _ \<Rightarrow> False"
  note d = cvector_append_array_def Let_def
  have cs: "cv_elem_count v \<le> SIZE_MAX" using i(4,7) by (simp add: size_defs)
  have ov: "sz_add (cv_elem_count v) n < cv_elem_count v \<or> sz_add (cv_elem_count v) n > ccol_max_elem_count
      \<longleftrightarrow> cv_elem_count v + n > ccol_max_elem_count"
    using sz_add_overflow [OF cs n] sz_add_exact [of "cv_elem_count v" n]
    by (cases "cv_elem_count v + n \<le> SIZE_MAX") (auto simp: size_defs)
  have bad: "?bad \<longleftrightarrow> \<not> readable (cv_data v) p (n * ?es)" if "p \<noteq> Null"
  proof (cases p)
    case (Self off)
    then have o: "off < cv_capacity v * ?es" using p i(6) by (simp add: append_ptr_def)
    have "n > (cv_capacity v * ?es - off) div ?es \<longleftrightarrow> \<not> off + n * ?es \<le> cv_capacity v * ?es"
      using less_eq_div_iff_mult_less_eq [OF i(1), of n "cv_capacity v * ?es - off"] o by linarith
    then show ?thesis using Self o i(6) by (simp add: readable_def)
  qed (use that p in \<open>auto simp: append_ptr_def readable_def\<close>)
  consider "n = 0" | "0 < n" "p = Null" | "0 < n" "p \<noteq> Null" "cv_elem_count v + n > ccol_max_elem_count"
    | "0 < n" "p \<noteq> Null" "cv_elem_count v + n \<le> ccol_max_elem_count" "\<not> readable (cv_data v) p (n * ?es)"
    | "0 < n" "p \<noteq> Null" "cv_elem_count v + n \<le> ccol_max_elem_count" "readable (cv_data v) p (n * ?es)"
        "cv_elem_count v + n \<le> cv_capacity v"
    | "0 < n" "p \<noteq> Null" "cv_elem_count v + n \<le> ccol_max_elem_count" "readable (cv_data v) p (n * ?es)"
        "cv_elem_count v + n > cv_capacity v"
    by linarith
  then show ?thesis
  proof cases
    case 1
    then show ?thesis using that [of True v h] inv by (simp add: d)
  next
    case 2
    then show ?thesis using that [of False v h] inv by (simp add: d readable_def)
  next
    case 3
    then have "cvector_append_array (Some v) p n h = Some (False, v, h)" using ov by (simp add: d)
    then show ?thesis using that [of False v h] inv 3 i(4) by simp
  next
    case 4
    then have "cvector_append_array (Some v) p n h = Some (False, v, h)" using ov bad by (simp add: d)
    then show ?thesis using that [of False v h] inv 4 by simp
  next
    case 5
    have e: "sz_add (cv_elem_count v) n = cv_elem_count v + n" using 5(3) by (simp add: sz_add_exact size_defs)
    obtain w1 w' where w: "cvector_copy_into_tail v p (sz_mul n ?es) = Some w1"
      "w' = w1\<lparr>cv_elem_count := cv_elem_count w1 + n\<rparr>" "cvec_inv w'" "cvec_frame v w'"
      "cvec_elems w' = cvec_elems v @ chunks ?es n (read_ptr (cv_data v) p (n * ?es))"
      using copy_into_tail_spec [OF inv 5(5) 5(4)] by blast
    then have "cvector_append_array (Some v) p n h = Some (True, w', h)"
      using 5 e bad by (simp add: d)
    then show ?thesis using that [of True w' h] w by simp
  next
    case 6
    have e: "sz_add (cv_elem_count v) n = cv_elem_count v + n" using 6(3) by (simp add: sz_add_exact size_defs)
    have sv: "survives_move v p"
      using p i(6) by (auto simp: append_ptr_def survives_move_def split: cptr.splits)
    have "cv_elem_count v + n \<le> SIZE_MAX" using 6(3) by (simp add: size_defs)
    then obtain ok w h' where w: "cvector_reserve (Some v) (cv_elem_count v + n) h = Some (ok, w, h')"
        "blocks_kept h h'" "cvec_inv w" "cvec_frame v w" "cv_elem_count w = cv_elem_count v"
        "take (length (cv_data v)) (cv_data w) = cv_data v" "ok \<Longrightarrow> cv_elem_count v + n \<le> cv_capacity w"
        "\<not> ok \<Longrightarrow> w = v"
      using reserve_spec [OF inv] by metis
    have es: "cv_elem_size w = ?es" using w(4) by (simp add: cvec_frame_def)
    show ?thesis
    proof (cases ok)
      case False
      then have "cvector_append_array (Some v) p n h = Some (False, v, h')"
        using 6 e bad w(1,8) by (simp add: d)
      then show ?thesis using that [of False v h'] inv w(2) 6 by simp
    next
      case True
      have len: "length (cv_data v) \<le> length (cv_data w)" using w(6) by (metis length_take min.cobounded1)
      note m = elems_after_move [OF inv es w(5,6)]
      have p': "readable (cv_data w) p (n * cv_elem_size w)"
          "read_ptr (cv_data w) p (n * cv_elem_size w) = read_ptr (cv_data v) p (n * ?es)"
        using m(2) [OF 6(4) len] es by auto
      obtain w1 w' where w': "cvector_copy_into_tail w p (sz_mul n (cv_elem_size w)) = Some w1"
        "w' = w1\<lparr>cv_elem_count := cv_elem_count w1 + n\<rparr>" "cvec_inv w'" "cvec_frame w w'"
        "cvec_elems w' = cvec_elems w @ chunks (cv_elem_size w) n (read_ptr (cv_data w) p (n * cv_elem_size w))"
        using copy_into_tail_spec [OF w(3) _ p'(1)] w(5,7) True by metis
      then have "cvector_append_array (Some v) p n h = Some (True, w', h')"
        using 6 e bad w(1) True sv by (simp add: d)
      then show ?thesis
        using that [of True w' h'] w' w(2) m(1) p'(2) es 6(5) cvec_frame_trans [OF w(4) w'(4)] by simp
    qed
  qed
qed

text \<open>
  Claim C22.  \<^verbatim>\<open>cvector_append_array\<close> with a source that may lie anywhere in the
  vector's own buffer, live elements or reserved space: the call returns, so
  no copy reads or writes outside its object and none overlaps under
  \<^verbatim>\<open>memcpy\<close>; on success the bytes the source held before the call
  are appended, on failure nothing changes, and when the capacity suffices and
  the source range lies within the buffer it succeeds without an allocation.
\<close>

theorem append_array_correct:
  assumes "cvec_inv v" "append_ptr v p n" "n \<le> SIZE_MAX"
  shows "\<exists>ok v' h'. cvector_append_array (Some v) p n h = Some (ok, v', h') \<and> blocks_kept h h'
     \<and> cvec_inv v' \<and> cvec_frame v v'
     \<and> (if ok then cvec_elems v' = cvec_elems v
                   @ chunks (cv_elem_size v) n (read_ptr (cv_data v) p (n * cv_elem_size v))
        else v' = v)
     \<and> (cv_elem_count v + n \<le> cv_capacity v \<and> readable (cv_data v) p (n * cv_elem_size v) \<longrightarrow> ok \<and> h' = h)"
  by (rule append_array_spec [OF assms, of h]) auto

theorem append_array_correct_witness:
  "let v = \<lparr>cv_elem_size = 1, cv_elem_count = 2, cv_capacity = 4, cv_m_procs = DefaultProcs,
            cv_data = [10, 20, 30, 40::byte], cv_data_blk = Some 1, cv_blk = 0\<rparr>;
       h = \<lparr>answers = [], next_blk = 2, live = {0, 1}\<rparr>
   in cvec_inv v \<and> append_ptr v (Self 1) 2
    \<and> (\<exists>v'. cvector_append_array (Some v) (Self 1) 2 h = Some (True, v', h)
         \<and> cvec_elems v' = [[10], [20], [20], [30]])"
proof -
  define v where "v = \<lparr>cv_elem_size = 1, cv_elem_count = 2, cv_capacity = 4, cv_m_procs = DefaultProcs,
            cv_data = [10, 20, 30, 40::byte], cv_data_blk = Some 1, cv_blk = (0::nat)\<rparr>"
  define h where "h = \<lparr>answers = [], next_blk = 2, live = {0, 1::nat}\<rparr>"
  have p4: "pow2 4" using pow2I [of 2] by simp
  have inv: "cvec_inv v" using p4 by (simp add: v_def cvec_inv_def size_defs)
  have p: "append_ptr v (Self 1) 2" by (simp add: v_def append_ptr_def)
  have n: "2 \<le> SIZE_MAX" by (simp add: size_defs)
  have fits: "cv_elem_count v + 2 \<le> cv_capacity v" "readable (cv_data v) (Self 1) (2 * cv_elem_size v)"
    by (simp_all add: v_def readable_def)
  have "cvec_elems v = [[10], [20]]"
      "chunks (cv_elem_size v) 2 (read_ptr (cv_data v) (Self 1) (2 * cv_elem_size v)) = [[20], [30]]"
    by (simp_all add: v_def cvec_elems_def chunks_def peek_def read_ptr_def upt_rec)
  then have "\<exists>v'. cvector_append_array (Some v) (Self 1) 2 h = Some (True, v', h)
         \<and> cvec_elems v' = [[10], [20], [20], [30]]"
    using append_array_correct [OF inv p n, of h] fits by auto
  then show ?thesis using inv p unfolding Let_def v_def [symmetric] h_def [symmetric] by blast
qed

text \<open>The elements that an append of a vector takes from its source.\<close>

definition source_elems :: "cvector \<Rightarrow> append_source \<Rightarrow> byte list list" where
  "source_elems v s = (case s of OtherVector (Some w) \<Rightarrow> cvec_elems w | _ \<Rightarrow> cvec_elems v)"

lemma append_cvector_spec:
  assumes inv: "cvec_inv v" and s: "s = SameVector \<or> (\<exists>w. s = OtherVector (Some w) \<and> cvec_inv w \<and> cv_elem_size w = cv_elem_size v)"
  shows "\<exists>ok v' h'. cvector_append_cvector (Some v) s h = Some (ok, v', h') \<and> blocks_kept h h'
     \<and> cvec_inv v' \<and> cvec_frame v v' \<and> cvec_elems v' = cvec_elems v @ (if ok then source_elems v s else [])"
proof (cases s)
  case SameVector
  note i = cvec_invD [OF inv]
  let ?c = "cv_elem_count v"
  have cs: "?c + ?c \<le> SIZE_MAX + 1" using i(4,7) by (simp add: size_defs)
  have nlt: "sz_add ?c ?c < ?c \<or> sz_add ?c ?c > ccol_max_elem_count \<longleftrightarrow> ?c + ?c > ccol_max_elem_count"
  proof (cases "?c + ?c \<le> SIZE_MAX")
    case False
    then have "?c + ?c = SIZE_MAX + 1" using cs by linarith
    then show ?thesis by (simp add: sz_add_def size_defs)
  qed (auto simp: sz_add_exact)
  show ?thesis
  proof (cases "?c + ?c > ccol_max_elem_count")
    case True
    then have "cvector_append_cvector (Some v) s h = Some (False, v, h)"
      using nlt SameVector by (simp add: cvector_append_cvector_def Let_def)
    then show ?thesis using inv by auto
  next
    case False
    then have e: "?c + ?c \<le> SIZE_MAX" by (simp add: size_defs)
    obtain ok w h1 where w: "cvector_reserve (Some v) (?c + ?c) h = Some (ok, w, h1)" "blocks_kept h h1"
        "cvec_inv w" "cvec_frame v w" "cv_elem_count w = ?c" "take (length (cv_data v)) (cv_data w) = cv_data v"
        "ok \<Longrightarrow> ?c + ?c \<le> cv_capacity w" "\<not> ok \<Longrightarrow> w = v"
      using reserve_spec [OF inv e] by metis
    have es: "cv_elem_size w = cv_elem_size v" using w(4) by (simp add: cvec_frame_def)
    have def: "cvector_append_cvector (Some v) s h =
        (if ok then cvector_append_array (Some w) (Self 0) ?c h1 else Some (False, w, h1))"
      using nlt False SameVector w(1,5) sz_add_exact [OF e] by (simp add: cvector_append_cvector_def Let_def)
    show ?thesis
    proof (cases ok)
      case False
      then show ?thesis using def inv w by auto
    next
      case True
      note iw = cvec_invD [OF w(3)]
      have p: "append_ptr w (Self 0) ?c" using iw(1,3,6) by (simp add: append_ptr_def)
      have rd: "readable (cv_data w) (Self 0) (?c * cv_elem_size w)"
        using iw(8) w(5) by (simp add: readable_def)
      have c1: "?c \<le> SIZE_MAX" using e by simp
      obtain ok2 v' h2 where a: "cvector_append_array (Some w) (Self 0) ?c h1 = Some (ok2, v', h2)"
          "blocks_kept h1 h2" "cvec_inv v'" "cvec_frame w v'" "ok2"
          "cvec_elems v' = cvec_elems w @ chunks (cv_elem_size w) ?c (read_ptr (cv_data w) (Self 0) (?c * cv_elem_size w))"
        using append_array_spec [OF w(3) p c1, of h1] w(5,7) True rd by metis
      have "chunks (cv_elem_size w) ?c (read_ptr (cv_data w) (Self 0) (?c * cv_elem_size w)) = cvec_elems w"
        by (simp add: read_ptr_def peek_at_0 chunks_take cvec_elems_def w(5))
      moreover have "cvec_elems w = cvec_elems v" by (rule elems_after_move [OF inv es w(5,6)])
      ultimately show ?thesis
        using def True a w(2) blocks_kept_trans cvec_frame_trans [OF w(4) a(4)] SameVector
        by (auto simp: source_elems_def)
    qed
  qed
next
  case (OtherVector o1)
  then obtain w where w: "s = OtherVector (Some w)" "cvec_inv w" "cv_elem_size w = cv_elem_size v" using s by blast
  note iw = cvec_invD [OF w(2)]
  have p: "append_ptr v (Ext (cv_data w)) (cv_elem_count w)" using iw(8) w(3) by (simp add: append_ptr_def)
  have n: "cv_elem_count w \<le> SIZE_MAX" using iw(4,7) by (simp add: size_defs)
  have "cvector_append_cvector (Some v) s h = cvector_append_array (Some v) (Ext (cv_data w)) (cv_elem_count w) h"
    using w by (simp add: cvector_append_cvector_def)
  moreover have "chunks (cv_elem_size v) (cv_elem_count w) (read_ptr (cv_data v) (Ext (cv_data w)) (cv_elem_count w * cv_elem_size v)) = cvec_elems w"
    using w(3) by (simp add: read_ptr_def chunks_take cvec_elems_def)
  moreover obtain ok v' h' where "cvector_append_array (Some v) (Ext (cv_data w)) (cv_elem_count w) h = Some (ok, v', h')"
      "blocks_kept h h'" "cvec_inv v'" "cvec_frame v v'" "\<not> ok \<Longrightarrow> v' = v"
      "ok \<Longrightarrow> cvec_elems v' = cvec_elems v @ chunks (cv_elem_size v) (cv_elem_count w)
         (read_ptr (cv_data v) (Ext (cv_data w)) (cv_elem_count w * cv_elem_size v))"
    using append_array_spec [OF inv p n, of h] by metis
  ultimately show ?thesis using w(1) by (auto simp: source_elems_def)
qed

lemma reset_spec:
  assumes inv: "cvec_inv v"
  shows "\<exists>v' h'. cvector_reset (Some v) h = Some (v', h') \<and> blocks_kept h h' \<and> cvec_inv v' \<and> cvec_frame v v'
     \<and> cvec_elems v' = []"
proof (cases "cv_capacity v = 4")
  case True
  then show ?thesis using inv
    by (auto simp: cvector_reset_def cvec_inv_def cvec_frame_def cvec_elems_def cvector_minimum_capacity_def)
next
  case False
  note i = cvec_invD [OF inv]
  have n: "4 * cv_elem_size v \<le> cv_capacity v * cv_elem_size v" using i(3) by (rule mult_le_mono1)
  then have z: "sz_mul 4 (cv_elem_size v) = 4 * cv_elem_size v"
    using sz_mul_exact [OF order_trans [OF n i(5)]] by simp
  have n': "4 * cv_elem_size v \<le> SIZE_MAX" by (rule order_trans [OF n i(5)])
  have p4: "pow2 4" using pow2I [of 2] by simp
  obtain a h1 where a: "mem_realloc h (cv_data v) (4 * cv_elem_size v) = (a, h1)" by fastforce
  have e: "cvector_reset (Some v) h = Some (case a of None \<Rightarrow> (v\<lparr>cv_elem_count := 0\<rparr>, h1)
     | Some bs \<Rightarrow> (v\<lparr>cv_elem_count := 0, cv_data := bs, cv_capacity := 4\<rparr>, h1))"
    using False by (simp add: cvector_reset_def cvector_minimum_capacity_def z a split: option.split)
  show ?thesis
  proof (cases a)
    case None
    then show ?thesis using e inv mem_realloc_kept [OF a]
      by (auto simp: cvec_inv_def cvec_frame_def cvec_elems_def)
  next
    case (Some bs)
    then have "length bs = 4 * cv_elem_size v" using mem_realloc_Some a by blast
    then show ?thesis using e inv mem_realloc_kept [OF a] Some p4 n'
      by (auto simp: cvec_inv_def cvec_frame_def cvec_elems_def cvector_minimum_capacity_def size_defs)
  qed
qed

lemma sort_spec:
  assumes inv: "cvec_inv v" and ho: "heap_ok h" and cmp: "total_cmp cmp P" "\<forall>x \<in> set (cvec_elems v). P x"
  shows "\<exists>ok v' h'. cvector_sort (Some v) (Some cmp) h = Some (ok, v', h') \<and> blocks_kept h h' \<and> cvec_inv v'
     \<and> cvec_frame v v' \<and> (ok \<longleftrightarrow> cv_elem_count v < 2 \<or> sort_granted (cv_elem_count v) (cv_elem_size v) (cv_m_procs v) h)
     \<and> (if ok then stable_sorted_of cmp P (cvec_elems v) (cvec_elems v') else v' = v)"
proof -
  note i = cvec_invD [OF inv]
  let ?n = "cv_elem_count v" and ?es = "cv_elem_size v" and ?xs = "cvec_elems v"
  let ?g = "sort_granted ?n ?es (cv_m_procs v) h"
  define ys where "ys = (if ?n < 2 \<or> \<not> ?g then ?xs else merge_passes cmp 1 ?xs)"
  have st: "?n < 2 \<or> ?g \<Longrightarrow> stable_sorted_of cmp P ?xs ys"
    using stable_sorted_short [of ?xs cmp P] merge_passes_stable_sorted [OF cmp] by (auto simp: ys_def)
  have ms: "mset ys = mset ?xs"
    using merge_passes_stable_sorted [OF cmp] by (auto simp: ys_def stable_sorted_of_def)
  have len: "length ys = ?n" using mset_eq_length [OF ms] by simp
  have wd: "\<forall>y \<in> set ys. length y = ?es"
    using chunks_width [OF i(8)] mset_eq_setD [OF ms] by (auto simp: cvec_elems_def)
  have nb: "csort_check_sort_shape ?n ?es (cv_m_procs v) \<noteq> csort_buffer_not_needed"
    using i(1) by (auto simp: csort_check_sort_shape_def)
  have "\<exists>h'. csort_merge_sort_contiguous (Some ?xs) ?n ?es (Some cmp) (cv_m_procs v) h
      = Some (?n < 2 \<or> ?g, Some ys, h') \<and> blocks_kept h h'"
  proof (cases "?n < 2")
    case True
    then show ?thesis by (simp add: csort_merge_sort_contiguous_def ys_def)
  next
    case False
    have "?n \<le> SIZE_MAX" using i(4,7) by (simp add: size_defs)
    then show ?thesis
      using contiguous_result [OF ho, of ?xs ?es cmp "cv_m_procs v"] False nb
      by (cases ?g) (simp_all add: ys_def)
  qed
  then obtain h' where h': "csort_merge_sort_contiguous (Some ?xs) ?n ?es (Some cmp) (cv_m_procs v) h
      = Some (?n < 2 \<or> ?g, Some ys, h')" "blocks_kept h h'" by blast
  let ?w = "v\<lparr>cv_data := poke (cv_data v) 0 (concat ys)\<rparr>"
  have cl: "length (concat ys) = ?n * ?es"
    using length_concat_const [OF wd] len by simp
  have r: "cvector_sort (Some v) (Some cmp) h = Some (?n < 2 \<or> ?g, ?w, h')"
    using h'(1) by (simp add: cvector_sort_def cvec_elems_def)
  have w: "cvec_inv ?w" "cvec_frame v ?w" using inv cl i(8) by (auto simp: cvec_inv_def cvec_frame_def length_poke)
  have we: "cvec_elems ?w = ys"
    using chunks_concat [OF wd len [symmetric], of "drop (?n * ?es) (cv_data v)"] cl
    by (simp add: cvec_elems_def poke_def)
  have "ys = ?xs \<Longrightarrow> ?w = v" using concat_chunks [OF i(8)] poke_peek [of 0 "?n * ?es" "cv_data v"] i(8)
    by (simp add: cvec_elems_def peek_at_0)
  then show ?thesis using r h'(2) w we st by (auto simp: ys_def)
qed

section \<open>Search and iteration\<close>

lemma find_loop_spec:
  "cvector_find_loop d es P i n =
     (case find (\<lambda>k. P (peek d (k * es) es)) [i..<i + n] of None \<Rightarrow> ccol_invalid_size | Some k \<Rightarrow> k)"
proof (induction n arbitrary: i)
  case (Suc n)
  have "[i..<i + Suc n] = i # [Suc i..<Suc i + n]" by (simp add: upt_conv_Cons)
  then show ?case using Suc [of "Suc i"] by simp
qed simp

lemma find_upt_Some:
  "find Q [0..<n] = Some k \<longleftrightarrow> k < n \<and> Q k \<and> (\<forall>j < k. \<not> Q j)"
  by (auto simp: find_Some_iff)

text \<open>What a search for \<open>x\<close> counts as a match.\<close>

definition elem_match :: "(byte list \<Rightarrow> byte list \<Rightarrow> int) option \<Rightarrow> byte list \<Rightarrow> byte list \<Rightarrow> bool" where
  "elem_match cmp x c = (case cmp of Some f \<Rightarrow> f c x = 0 | None \<Rightarrow> c = x)"

text \<open>
  \<^verbatim>\<open>cvector_find\<close> gives the index of the first element that matches, under
  the comparator if there is one and byte for byte otherwise, and
  \<^verbatim>\<open>ccol_invalid_size\<close>, which no index equals, exactly when no element matches.
\<close>

theorem find_first_match:
  assumes inv: "cvec_inv v" and e: "readable (cv_data v) p (cv_elem_size v)"
  shows "\<exists>r. cvector_find (Some v) p cmp = Some r
     \<and> (if r = ccol_invalid_size
        then \<forall>c \<in> set (cvec_elems v). \<not> elem_match cmp (read_ptr (cv_data v) p (cv_elem_size v)) c
        else r < cv_elem_count v
           \<and> elem_match cmp (read_ptr (cv_data v) p (cv_elem_size v)) (cvec_elems v ! r)
           \<and> (\<forall>j < r. \<not> elem_match cmp (read_ptr (cv_data v) p (cv_elem_size v)) (cvec_elems v ! j)))"
proof -
  define x where "x = read_ptr (cv_data v) p (cv_elem_size v)"
  define match where "match = elem_match cmp x"
  note i = cvec_invD [OF inv]
  let ?n = "cv_elem_count v" and ?Q = "\<lambda>k. match (peek (cv_data v) (k * cv_elem_size v) (cv_elem_size v))"
  let ?m = "\<lambda>c. case cmp of Some f \<Rightarrow> f c x = 0 | None \<Rightarrow> CCol_Values.memcmp c x = 0"
  have lx: "length x = cv_elem_size v" using e by (simp add: x_def length_read_ptr)
  have el: "cvec_elems v ! k = peek (cv_data v) (k * cv_elem_size v) (cv_elem_size v)" if "k < ?n" for k
    using that by (simp add: cvec_elems_def)
  have mm: "?m (peek (cv_data v) (k * cv_elem_size v) (cv_elem_size v)) \<longleftrightarrow> ?Q k" if "k < ?n" for k
  proof -
    have "length (peek (cv_data v) (k * cv_elem_size v) (cv_elem_size v)) = cv_elem_size v"
      using chunk_end [OF that, of "cv_elem_size v"] i(8) by (simp add: length_peek)
    then show ?thesis using memcmp_eq_iff lx by (simp add: match_def elem_match_def split: option.split)
  qed
  have "p \<noteq> Null" using e by (auto simp: readable_def)
  then have "cvector_find (Some v) p cmp = Some (cvector_find_loop (cv_data v) (cv_elem_size v) ?m 0 ?n)"
    unfolding x_def by (simp add: cvector_find_def Let_def)
  also have "\<dots> = Some (case find ?Q [0..<?n] of None \<Rightarrow> ccol_invalid_size | Some k \<Rightarrow> k)"
  proof -
    have "find (\<lambda>k. ?m (peek (cv_data v) (k * cv_elem_size v) (cv_elem_size v))) [0..<?n] = find ?Q [0..<?n]"
      by (rule find_cong [OF refl]) (simp only: mm set_upt atLeastLessThan_iff)
    then show ?thesis by (simp only: find_loop_spec add_0)
  qed
  finally have r: "cvector_find (Some v) p cmp = Some (case find ?Q [0..<?n] of None \<Rightarrow> ccol_invalid_size | Some k \<Rightarrow> k)" .
  show ?thesis
  proof (cases "find ?Q [0..<?n]")
    case None
    then have "\<forall>k < ?n. \<not> ?Q k" by (auto simp: find_None_iff)
    then show ?thesis using r None el unfolding x_def [symmetric] match_def [symmetric]
      by (auto simp: in_set_conv_nth)
  next
    case (Some k)
    then have k: "k < ?n" "?Q k" "\<forall>j < k. \<not> ?Q j" by (auto simp: find_upt_Some)
    then have "k \<noteq> ccol_invalid_size" using i(4,7) by (simp add: size_defs)
    then show ?thesis using r Some k el unfolding x_def [symmetric] match_def [symmetric] by auto
  qed
qed

theorem find_first_match_witness:
  "let v = \<lparr>cv_elem_size = 1, cv_elem_count = 3, cv_capacity = 4, cv_m_procs = DefaultProcs,
            cv_data = [3, 1, 2, 0::byte], cv_data_blk = Some 1, cv_blk = 0\<rparr>
   in cvec_inv v \<and> cvector_find (Some v) (Ext [2]) None = Some 2"
proof -
  define v where "v = \<lparr>cv_elem_size = 1, cv_elem_count = 3, cv_capacity = 4, cv_m_procs = DefaultProcs,
            cv_data = [3, 1, 2, 0::byte], cv_data_blk = Some 1, cv_blk = (0::nat)\<rparr>"
  have p4: "pow2 4" using pow2I [of 2] by simp
  have inv: "cvec_inv v" using p4 by (simp add: v_def cvec_inv_def size_defs)
  have r: "readable (cv_data v) (Ext [2]) (cv_elem_size v)" "read_ptr (cv_data v) (Ext [2]) (cv_elem_size v) = [2]"
    by (simp_all add: v_def readable_def read_ptr_def)
  have e: "cvec_elems v = [[3], [1], [2]]" by (simp add: v_def cvec_elems_def chunks_def peek_def upt_rec)
  have c: "cv_elem_count v = 3" by (simp add: v_def)
  obtain k where k: "cvector_find (Some v) (Ext [2]) None = Some k" "k < 3" "[[3], [1], [2::byte]] ! k = [2]"
    using find_first_match [OF inv r(1), of None] by (auto simp: r(2) e c elem_match_def split: if_splits)
  then have "k = 2" by (cases k; cases "k - 1") (auto simp: nth_Cons split: nat.splits)
  then show ?thesis using inv k(1) unfolding Let_def v_def [symmetric] by blast
qed

lemma visit_from:
  assumes "ci_index it < cv_elem_count v" "ci_val it = ci_index it * cv_elem_size v" "cv_elem_count v \<le> SIZE_MAX"
  shows "cvec_visit v (Some it) h =
     Some (map (\<lambda>k. (k, peek (cv_data v) (k * cv_elem_size v) (cv_elem_size v))) [ci_index it..<cv_elem_count v],
           mem_free h (ci_blk it))"
  using assms
proof (induction "cv_elem_count v - ci_index it" arbitrary: it rule: less_induct)
  case less
  have z: "sz_add (ci_index it) 1 = ci_index it + 1" using less.prems by (simp add: sz_add_exact)
  show ?case
  proof (cases "ci_index it + 1 < cv_elem_count v")
    case True
    let ?i = "it\<lparr>ci_index := ci_index it + 1, ci_val := (ci_index it + 1) * cv_elem_size v\<rparr>"
    have "cvec_cmap_iter_next v (Some it) h = Some (Some ?i, h)"
      using True z by (simp add: cvec_cmap_iter_next_def Let_def)
    moreover have "cvec_visit v (Some ?i) h = Some (map (\<lambda>k. (k, peek (cv_data v) (k * cv_elem_size v) (cv_elem_size v)))
        [ci_index ?i..<cv_elem_count v], mem_free h (ci_blk it))"
      using less.hyps [of ?i] less.prems True by simp
    ultimately show ?thesis
      using less.prems by (subst cvec_visit.simps) (simp add: upt_conv_Cons [of "ci_index it"])
  next
    case False
    then have e: "cv_elem_count v = Suc (ci_index it)" using less.prems by simp
    then have "cvec_cmap_iter_next v (Some it) h = Some (None, mem_free h (ci_blk it))"
      using z by (simp add: cvec_cmap_iter_next_def cvec_iter_impl_free_def)
    moreover have "cvec_visit v None h' = Some ([], h')" for h' by (subst cvec_visit.simps) simp
    ultimately show ?thesis
      using less.prems by (subst cvec_visit.simps) (simp add: e)
  qed
qed

text \<open>
  A loop over \<^verbatim>\<open>cvector_begin_iter\<close> ends, shows every element once, in index
  order and with its index, and frees the iterator with its last step: afterwards
  exactly the blocks from before the loop are live.  Without an iterator the
  vector is empty or the allocator refused, and only the second sets the error.
\<close>

theorem iterator_visits_all:
  assumes inv: "cvec_inv v" and ho: "heap_ok h"
  shows "case cvector_begin_iter (Some v) h of (err, it, h1) \<Rightarrow>
     (\<exists>xs h2. cvec_visit v it h1 = Some (xs, h2) \<and> live h2 = live h
        \<and> (if it = None then xs = [] \<and> (err \<longleftrightarrow> cvec_elems v \<noteq> [])
           else \<not> err \<and> cvec_elems v \<noteq> [] \<and> xs = enumerate 0 (cvec_elems v)))"
proof (cases "cv_elem_count v = 0")
  case True
  then show ?thesis
    by (simp add: cvector_begin_iter_def cvec_elems_def cvec_visit.simps [of v None])
next
  case False
  note i = cvec_invD [OF inv]
  have ne: "cvec_elems v \<noteq> []" using False by (metis length_cvec_elems list.size(3))
  obtain a h1 where a: "mem_calloc h 96 = (a, h1)" by fastforce
  show ?thesis
  proof (cases a)
    case None
    then show ?thesis using a False ne mem_calloc_None [of h 96 h1]
      by (simp add: cvector_begin_iter_def cvec_visit.simps [of v None])
  next
    case (Some bb)
    obtain b bs where bb: "bb = (b, bs)" by fastforce
    let ?it = "\<lparr>ci_index = 0, ci_val = 0, ci_blk = b\<rparr>"
    have c: "b = next_blk h" "live h1 = insert b (live h)"
      using mem_calloc_Some [of h 96 b bs h1] a Some bb by auto
    then have l: "live (mem_free h1 b) = live h" using heap_ok_fresh [OF ho] by auto
    have "cv_elem_count v \<le> SIZE_MAX" using i(4,7) by (simp add: size_defs)
    then have "cvec_visit v (Some ?it) h1 = Some (map (\<lambda>k. (k, peek (cv_data v) (k * cv_elem_size v) (cv_elem_size v)))
        [0..<cv_elem_count v], mem_free h1 b)"
      using visit_from [of ?it v h1] False by simp
    moreover have "map (\<lambda>k. (k, peek (cv_data v) (k * cv_elem_size v) (cv_elem_size v))) [0..<cv_elem_count v]
        = enumerate 0 (cvec_elems v)"
      by (rule nth_equalityI) (simp_all add: nth_enumerate_eq cvec_elems_def)
    ultimately show ?thesis
      using a Some bb False ne l by (simp add: cvector_begin_iter_def)
  qed
qed

theorem iterator_visits_all_witness:
  "let v = \<lparr>cv_elem_size = 1, cv_elem_count = 2, cv_capacity = 4, cv_m_procs = DefaultProcs,
            cv_data = [3, 1, 2, 0::byte], cv_data_blk = Some 1, cv_blk = 0\<rparr>;
       h = \<lparr>answers = [Grant (\<lambda>_. 0)], next_blk = 2, live = {0, 1}\<rparr>
   in cvec_inv v \<and> (\<exists>it h1 h2. cvector_begin_iter (Some v) h = (False, Some it, h1)
         \<and> cvec_visit v (Some it) h1 = Some ([(0, [3]), (1, [1])], h2) \<and> live h2 = {0, 1})"
proof -
  define v where "v = \<lparr>cv_elem_size = 1, cv_elem_count = 2, cv_capacity = 4, cv_m_procs = DefaultProcs,
            cv_data = [3, 1, 2, 0::byte], cv_data_blk = Some 1, cv_blk = (0::nat)\<rparr>"
  define h where "h = \<lparr>answers = [Grant (\<lambda>_. 0)], next_blk = 2, live = {0, 1::nat}\<rparr>"
  have p4: "pow2 4" using pow2I [of 2] by simp
  have inv: "cvec_inv v" using p4 by (simp add: v_def cvec_inv_def size_defs)
  have ho: "heap_ok h" by (simp add: h_def heap_ok_def)
  have l: "live h = {0, 1}" by (simp add: h_def)
  have e: "enumerate 0 (cvec_elems v) = [(0, [3]), (1, [1])]"
    by (simp add: v_def cvec_elems_def chunks_def peek_def upt_rec)
  obtain it h1 where b: "cvector_begin_iter (Some v) h = (False, Some it, h1)"
    by (simp add: v_def h_def cvector_begin_iter_def mem_calloc_def mem_alloc_def)
  have "\<exists>h2. cvec_visit v (Some it) h1 = Some ([(0, [3]), (1, [1])], h2) \<and> live h2 = {0, 1}"
    using iterator_visits_all [OF inv ho] b e l by auto
  then show ?thesis using inv b unfolding Let_def v_def [symmetric] h_def [symmetric] by blast
qed

section \<open>The vector as a container\<close>

text \<open>
  The operations of a program over one vector.  \<open>VPushAt\<close> and \<open>VAppendAt\<close> pass
  the pointer that \<^verbatim>\<open>cvector_at\<close> gives, so they exercise the aliasing paths.
\<close>

datatype vop = VPush "byte list" | VPushAt nat | VPop | VReserve nat
  | VAppend "byte list list" | VAppendAt nat nat | VAppendSelf | VReset

definition vec_step :: "vop \<Rightarrow> cvector \<Rightarrow> heap \<Rightarrow> (bool \<times> cvector \<times> heap) option" where
  "vec_step op v h =
     (case op of
        VPush bs \<Rightarrow> do { (rv, v, h) \<leftarrow> cvector_push_back (Some v) (Ext bs) h; Some (rv = ccol_success, v, h) }
      | VPushAt i \<Rightarrow> do {
          p \<leftarrow> cvector_at (Some v) i;
          (rv, v, h) \<leftarrow> cvector_push_back (Some v) p h;
          Some (rv = ccol_success, v, h) }
      | VPop \<Rightarrow> do {
          (rv, _, v, h) \<leftarrow> cvector_pop_back (Some v) (Some (replicate (cv_elem_size v) 0)) h;
          Some (rv = ccol_success, v, h) }
      | VReserve n \<Rightarrow> cvector_reserve (Some v) n h
      | VAppend xs \<Rightarrow> cvector_append_array (Some v) (Ext (concat xs)) (length xs) h
      | VAppendAt i n \<Rightarrow> do { p \<leftarrow> cvector_at (Some v) i; cvector_append_array (Some v) p n h }
      | VAppendSelf \<Rightarrow> cvector_append_cvector (Some v) SameVector h
      | VReset \<Rightarrow> do { (v, h) \<leftarrow> cvector_reset (Some v) h; Some (True, v, h) })"

definition vec_create :: "size_t \<Rightarrow> mprocs \<Rightarrow> heap \<Rightarrow> cvector option \<times> heap" where
  "vec_create es mp h = (case cvector_create_full es mp h of (Inl _, h) \<Rightarrow> (None, h) | (Inr v, h) \<Rightarrow> (Some v, h))"

fun list_spec :: "vop \<Rightarrow> byte list list \<Rightarrow> byte list list" where
  "list_spec (VPush bs) xs = xs @ [bs]"
| "list_spec (VPushAt i) xs = xs @ [xs ! i]"
| "list_spec VPop xs = butlast xs"
| "list_spec (VReserve n) xs = xs"
| "list_spec (VAppend ys) xs = xs @ ys"
| "list_spec (VAppendAt i n) xs = xs @ take n (drop i xs)"
| "list_spec VAppendSelf xs = xs @ xs"
| "list_spec VReset xs = []"

fun list_pre :: "size_t \<Rightarrow> vop \<Rightarrow> byte list list \<Rightarrow> bool" where
  "list_pre es (VPush bs) xs \<longleftrightarrow> length bs = es"
| "list_pre es (VReserve n) xs \<longleftrightarrow> n \<le> SIZE_MAX"
| "list_pre es (VAppend ys) xs \<longleftrightarrow> list_all (\<lambda>y. length y = es) ys \<and> length ys \<le> SIZE_MAX"
| "list_pre es (VAppendAt i n) xs \<longleftrightarrow> i + n \<le> length xs"
| "list_pre es _ xs \<longleftrightarrow> True"

definition vec_owned :: "cvector \<Rightarrow> nat set" where
  "vec_owned v = insert (cv_blk v) (set_option (cv_data_blk v))"

lemma cvec_frame_owned: "cvec_frame v w \<Longrightarrow> vec_owned w = vec_owned v"
  by (simp add: cvec_frame_def vec_owned_def)

lemma at_ptr: "cvector_at (Some v) i = Some (if i < cv_elem_count v then Self (i * cv_elem_size v) else Null)"
  by (auto simp: cvector_at_def)

lemma chunks_peek: "i + n \<le> c \<Longrightarrow> chunks es n (peek d (i * es) (n * es)) = take n (drop i (chunks es c d))"
proof (rule nth_equalityI)
  fix k assume ic: "i + n \<le> c" and "k < length (chunks es n (peek d (i * es) (n * es)))"
  then have k: "k < n" by simp
  have "peek (peek d (i * es) (n * es)) (k * es) es = peek d ((i + k) * es) es"
    using chunk_end [OF k, of es] by (simp add: peek_peek add_mult_distrib)
  then show "chunks es n (peek d (i * es) (n * es)) ! k = take n (drop i (chunks es c d)) ! k"
    using k ic by simp
qed simp

lemma vec_step_sim:
  assumes inv: "cvec_inv v" and pre: "list_pre (cv_elem_size v) op (cvec_elems v)"
  shows "\<exists>ok v' h'. vec_step op v h = Some (ok, v', h') \<and> cvec_inv v' \<and> cvec_frame v v' \<and> blocks_kept h h'
     \<and> cvec_elems v' = (if ok then list_spec op (cvec_elems v) else cvec_elems v)"
proof (cases op)
  case (VPush bs)
  then have "elem_ptr v (Ext bs)" "read_ptr (cv_data v) (Ext bs) (cv_elem_size v) = bs"
    using pre by (simp_all add: elem_ptr_def readable_def read_ptr_def)
  then show ?thesis using push_back_spec [OF inv, of "Ext bs" h] VPush
    by (auto simp: vec_step_def split: if_splits)
next
  case (VPushAt i)
  show ?thesis
  proof (cases "i < cv_elem_count v")
    case True
    let ?p = "Self (i * cv_elem_size v)"
    have "elem_ptr v ?p"
      using chunk_end [OF True, of "cv_elem_size v"] cvec_invD(8) [OF inv] by (simp add: elem_ptr_def readable_def)
    moreover have "read_ptr (cv_data v) ?p (cv_elem_size v) = cvec_elems v ! i"
      using True by (simp add: read_ptr_def cvec_elems_def)
    ultimately show ?thesis using push_back_spec [OF inv, of ?p h] VPushAt True
      by (auto simp: vec_step_def at_ptr split: if_splits)
  qed (use VPushAt inv in \<open>auto simp: vec_step_def at_ptr cvector_push_back_def\<close>)
next
  case VPop
  then show ?thesis using pop_back_spec [OF inv, of "replicate (cv_elem_size v) 0" h]
    by (fastforce simp: vec_step_def split: if_splits)
next
  case (VReserve n)
  then have "n \<le> SIZE_MAX" using pre by simp
  from reserve_spec [OF inv this, of h] obtain ok v' h' where
    r: "cvector_reserve (Some v) n h = Some (ok, v', h')" "blocks_kept h h'" "cvec_inv v'" "cvec_frame v v'"
      "cv_elem_count v' = cv_elem_count v" "take (length (cv_data v)) (cv_data v') = cv_data v"
    by metis
  have "cv_elem_size v' = cv_elem_size v" using r(4) by (simp add: cvec_frame_def)
  then show ?thesis using r elems_after_move(1) [OF inv _ r(5,6)] VReserve by (simp add: vec_step_def)
next
  case (VAppend xs)
  let ?p = "Ext (concat xs)"
  have w: "\<forall>x \<in> set xs. length x = cv_elem_size v" "length xs \<le> SIZE_MAX"
    using pre VAppend by (auto simp: list_all_iff)
  then have l: "length (concat xs) = length xs * cv_elem_size v" by (simp add: length_concat_const)
  then have "append_ptr v ?p (length xs)"
      "chunks (cv_elem_size v) (length xs) (read_ptr (cv_data v) ?p (length xs * cv_elem_size v)) = xs"
    using chunks_concat [OF w(1) refl, of "[]"] by (simp_all add: append_ptr_def read_ptr_def)
  then obtain ok v' h' where "cvector_append_array (Some v) ?p (length xs) h = Some (ok, v', h')"
      "blocks_kept h h'" "cvec_inv v'" "cvec_frame v v'" "\<not> ok \<Longrightarrow> v' = v" "ok \<Longrightarrow> cvec_elems v' = cvec_elems v @ xs"
    using append_array_spec [OF inv _ w(2), of ?p h] by metis
  then show ?thesis using VAppend by (auto simp: vec_step_def)
next
  case (VAppendAt i n)
  show ?thesis
  proof (cases "i < cv_elem_count v")
    case True
    let ?p = "Self (i * cv_elem_size v)"
    have "append_ptr v ?p n" using chunk_end [OF True, of "cv_elem_size v"] cvec_invD(1,8) [OF inv]
      by (simp add: append_ptr_def)
    moreover have "n \<le> SIZE_MAX" using pre VAppendAt cvec_invD(4,7) [OF inv] by (simp add: size_defs)
    moreover have "chunks (cv_elem_size v) n (read_ptr (cv_data v) ?p (n * cv_elem_size v)) = take n (drop i (cvec_elems v))"
      using chunks_peek [of i n "cv_elem_count v"] pre VAppendAt by (simp add: read_ptr_def cvec_elems_def)
    ultimately obtain ok v' h' where "cvector_append_array (Some v) ?p n h = Some (ok, v', h')" "blocks_kept h h'"
        "cvec_inv v'" "cvec_frame v v'" "\<not> ok \<Longrightarrow> v' = v" "ok \<Longrightarrow> cvec_elems v' = cvec_elems v @ take n (drop i (cvec_elems v))"
      using append_array_spec [OF inv, of ?p n h] by metis
    then show ?thesis using VAppendAt True by (auto simp: vec_step_def at_ptr)
  next
    case False
    then have "n = 0" using pre VAppendAt by simp
    then show ?thesis using VAppendAt False inv by (auto simp: vec_step_def at_ptr cvector_append_array_def)
  qed
next
  case VAppendSelf
  then show ?thesis using append_cvector_spec [OF inv, of SameVector h]
    by (auto simp: vec_step_def source_elems_def)
next
  case VReset
  then show ?thesis using reset_spec [OF inv, of h] by (auto simp: vec_step_def)
qed

lemma create_spec:
  assumes ho: "heap_ok h" and r: "cvector_create_full es mp h = (res, h')"
  shows "case res of Inl e \<Rightarrow> blocks_kept h h'
     | Inr v \<Rightarrow> cvec_inv v \<and> cvec_elems v = [] \<and> cv_elem_size v = es \<and> cv_m_procs v = mp
              \<and> blocks_moved {} (vec_owned v) h h'"
proof (cases "verify_cvector_create_inputs es mp")
  case (Some e)
  then show ?thesis using r by (auto simp: cvector_create_full_def)
next
  case None
  then have es: "0 < es" "es \<le> SIZE_MAX div 4"
    by (auto simp: verify_cvector_create_inputs_def cvector_minimum_capacity_def split: if_splits)
  then have z: "sz_mul 4 es = 4 * es" by (simp add: sz_mul_exact size_defs)
  let ?n = "40 + (if case mp of CallerProcs _ \<Rightarrow> True | _ \<Rightarrow> False then 32 else 0)"
  obtain a h1 where a: "mem_calloc h ?n = (a, h1)" by fastforce
  show ?thesis
  proof (cases a)
    case None2: None
    then show ?thesis using r a None mem_calloc_None [of h ?n h1]
      by (auto simp: cvector_create_full_def blocks_kept_def)
  next
    case (Some bb)
    obtain b bs where bb: "bb = (b, bs)" by fastforce
    have c: "b = next_blk h" "live h1 = insert b (live h)" "next_blk h1 = Suc b"
      using mem_calloc_Some [of h ?n b bs h1] a Some bb by auto
    have fr: "b \<notin> live h" using c(1) heap_ok_fresh [OF ho] by simp
    obtain a2 h2 where a2: "mem_alloc h1 (4 * es) = (a2, h2)" by fastforce
    show ?thesis
    proof (cases a2)
      case n2: None
      then have "live h2 = insert b (live h)" "next_blk h2 = Suc b"
        using mem_alloc_None [of h1 "4 * es" h2] a2 c by auto
      then show ?thesis using r a Some bb None a2 n2 z fr c(1)
        by (auto simp: cvector_create_full_def cvector_destroy_def cvector_minimum_capacity_def blocks_kept_def)
    next
      case s2: (Some dd)
      obtain db ds where dd: "dd = (db, ds)" by fastforce
      have d: "db = Suc b" "length ds = 4 * es" "live h2 = insert db (insert b (live h))" "next_blk h2 = Suc db"
        using mem_alloc_Some [of h1 "4 * es" db ds h2] a2 s2 dd c by auto
      have fd: "db \<notin> live h" using d(1) c(1) ho by (auto simp: heap_ok_def)
      have p4: "pow2 4" using pow2I [of 2] by simp
      have res: "res = Inr \<lparr>cv_elem_size = es, cv_elem_count = 0, cv_capacity = 4, cv_m_procs = mp,
            cv_data = ds, cv_data_blk = Some db, cv_blk = b\<rparr>" "h' = h2"
        using r a Some bb None a2 s2 dd z
        by (auto simp: cvector_create_full_def cvector_minimum_capacity_def)
      have "4 * es \<le> SIZE_MAX" using es(2) by (simp add: size_defs)
      then show ?thesis
        using res es p4 d c fr fd
        by (auto simp: cvec_inv_def cvec_elems_def vec_owned_def blocks_moved_def cvector_minimum_capacity_def size_defs)
    qed
  qed
qed

lemma destroy_spec: "live (cvector_destroy (Some v) h) = live h - vec_owned v"
  by (auto simp: cvector_destroy_def vec_owned_def split: option.split)

interpretation vec: container "vec_create es mp" vec_step "\<lambda>v h. Some (cvector_destroy (Some v) h)" "[]" list_spec
  "list_pre es" cvec_elems "\<lambda>v. cvec_inv v \<and> cv_elem_size v = es" vec_owned for es mp
proof
  fix h h' assume "heap_ok h" "vec_create es mp h = (None, h')"
  then show "blocks_kept h h'"
    using create_spec [of h es mp] by (auto simp: vec_create_def split: prod.splits sum.splits)
next
  fix h c h' assume "heap_ok h" "vec_create es mp h = (Some c, h')"
  then show "(cvec_inv c \<and> cv_elem_size c = es) \<and> cvec_elems c = [] \<and> blocks_moved {} (vec_owned c) h h'"
    using create_spec [of h es mp] by (auto simp: vec_create_def split: prod.splits sum.splits)
next
  fix c op and h :: heap
  assume c: "cvec_inv c \<and> cv_elem_size c = es" "vec_owned c \<subseteq> live h" "list_pre es op (cvec_elems c)"
  then obtain ok v' h' where s: "vec_step op c h = Some (ok, v', h')" "cvec_inv v'" "cvec_frame c v'" "blocks_kept h h'"
      "cvec_elems v' = (if ok then list_spec op (cvec_elems c) else cvec_elems c)"
    using vec_step_sim [of c op h] by blast
  then show "\<exists>ok c' h'. vec_step op c h = Some (ok, c', h') \<and> (cvec_inv c' \<and> cv_elem_size c' = es)
      \<and> cvec_elems c' = (if ok then list_spec op (cvec_elems c) else cvec_elems c)
      \<and> blocks_moved (vec_owned c) (vec_owned c') h h'"
    using c blocks_kept_moved [OF s(4) c(2)] cvec_frame_owned [OF s(3)] by (auto simp: cvec_frame_def)
next
  fix c and h :: heap
  show "\<exists>h'. Some (cvector_destroy (Some c) h) = Some h' \<and> live h' = live h - vec_owned c"
    by (simp add: destroy_spec)
qed

text \<open>
  Claim C2.  The vector refines a list.  For every element size, allocator and
  program of pushes (also of the vector's own elements), pops, reservations,
  appends (also of its own ranges and of the vector itself) and resets: the
  program runs to its end with no abort and no undefined copy, whatever the
  allocator refuses; every operation that reports success acts on the elements
  as the list operation, every one that reports failure leaves them; and
  destroying the vector leaves exactly the blocks that were live before it.
\<close>

theorem vector_refines_list:
  assumes "heap_ok h" "cvector_create_full es mp h = (Inr v, h1)" "pre_ops (list_pre es) list_spec ops []"
  shows "\<exists>oks v' h2. run_ops vec_step ops v h1 = Some (oks, v', h2) \<and> length oks = length ops
     \<and> cvec_elems v' = spec_ops list_spec ops oks [] \<and> cvec_inv v'
     \<and> live (cvector_destroy (Some v') h2) = live h"
  using vec.lifecycle [OF assms(1) _ assms(3), of mp v h1] assms(2) by (auto simp: vec_create_def)

theorem vector_refines_list_witness:
  "\<exists>v h1. cvector_create_full 1 DefaultProcs
       \<lparr>answers = [Grant (\<lambda>_. 0), Grant (\<lambda>_. 0), Refuse], next_blk = 0, live = {}\<rparr> = (Inr v, h1)
     \<and> (\<exists>oks v' h2. run_ops vec_step [VPush [7], VPush [9], VAppendSelf, VPushAt 0, VPop] v h1 = Some (oks, v', h2)
          \<and> cvec_elems v' = spec_ops list_spec [VPush [7], VPush [9], VAppendSelf, VPushAt 0, VPop] oks []
          \<and> live (cvector_destroy (Some v') h2) = {})"
proof -
  define h where "h = \<lparr>answers = [Grant (\<lambda>_. 0), Grant (\<lambda>_. 0), Refuse], next_blk = 0, live = {} :: nat set\<rparr>"
  have ho: "heap_ok h" by (simp add: h_def heap_ok_def)
  have "\<exists>v h1. cvector_create_full 1 DefaultProcs h = (Inr v, h1)"
    by (simp add: h_def cvector_create_full_def verify_cvector_create_inputs_def ccol_verify_memmgmt_procs_def
        mem_calloc_def mem_alloc_def size_defs)
  then obtain v h1 where c: "cvector_create_full 1 DefaultProcs h = (Inr v, h1)" by blast
  have p: "pre_ops (list_pre 1) list_spec [VPush [7], VPush [9], VAppendSelf, VPushAt 0, VPop] []" by simp
  have l: "live h = {}" by (simp add: h_def)
  show ?thesis unfolding h_def [symmetric] using c vector_refines_list [OF ho c p] l by auto
qed

text \<open>
  \<^verbatim>\<open>cvector_append_cvector\<close> of a vector to itself or to another one of
  the same element size: it returns, a success appends the elements the source
  held before the call, and a refused reservation leaves the elements as they were.
\<close>

theorem append_cvector_correct:
  assumes "cvec_inv v"
    and "s = SameVector \<or> (\<exists>w. s = OtherVector (Some w) \<and> cvec_inv w \<and> cv_elem_size w = cv_elem_size v)"
  shows "\<exists>ok v' h'. cvector_append_cvector (Some v) s h = Some (ok, v', h') \<and> blocks_kept h h'
     \<and> cvec_inv v' \<and> cvec_frame v v' \<and> cvec_elems v' = cvec_elems v @ (if ok then source_elems v s else [])"
  by (rule append_cvector_spec [OF assms])

theorem append_cvector_correct_witness:
  "let v = \<lparr>cv_elem_size = 1, cv_elem_count = 3, cv_capacity = 4, cv_m_procs = DefaultProcs,
            cv_data = [1, 2, 3, 0::byte], cv_data_blk = Some 1, cv_blk = 0\<rparr>;
       h = \<lparr>answers = [Grant (\<lambda>_. 0)], next_blk = 2, live = {0, 1}\<rparr>
   in cvec_inv v \<and> (\<exists>ok v' h'. cvector_append_cvector (Some v) SameVector h = Some (ok, v', h')
         \<and> cvec_elems v' = [[1], [2], [3]] @ (if ok then [[1], [2], [3]] else []))"
proof -
  define v where "v = \<lparr>cv_elem_size = 1, cv_elem_count = 3, cv_capacity = 4, cv_m_procs = DefaultProcs,
            cv_data = [1, 2, 3, 0::byte], cv_data_blk = Some 1, cv_blk = (0::nat)\<rparr>"
  have p4: "pow2 4" using pow2I [of 2] by simp
  have inv: "cvec_inv v" using p4 by (simp add: v_def cvec_inv_def size_defs)
  define h where "h = \<lparr>answers = [Grant (\<lambda>_. 0)], next_blk = 2, live = {0, 1::nat}\<rparr>"
  have e: "cvec_elems v = [[1], [2], [3]]" by (simp add: v_def cvec_elems_def chunks_def peek_def upt_rec)
  obtain ok v' h' where "cvector_append_cvector (Some v) SameVector h = Some (ok, v', h')"
      "cvec_elems v' = cvec_elems v @ (if ok then source_elems v SameVector else [])"
    using append_cvector_correct [OF inv, of SameVector h] by blast
  then show ?thesis
    using inv e unfolding Let_def v_def [symmetric] h_def [symmetric] by (auto simp: source_elems_def)
qed

text \<open>
  \<^verbatim>\<open>_cvector_sort\<close> with a comparator that orders the elements: it
  returns and frees its buffer; it reports success exactly when there is nothing
  to sort or the buffer is granted, and then the elements are a stable sorted
  permutation of what they were; otherwise the vector is unchanged.
\<close>

theorem vector_sort_correct:
  assumes "cvec_inv v" "heap_ok h" "total_cmp cmp P" "\<forall>x \<in> set (cvec_elems v). P x"
  shows "\<exists>ok v' h'. cvector_sort (Some v) (Some cmp) h = Some (ok, v', h') \<and> blocks_kept h h' \<and> cvec_inv v'
     \<and> cvec_frame v v' \<and> (ok \<longleftrightarrow> cv_elem_count v < 2 \<or> sort_granted (cv_elem_count v) (cv_elem_size v) (cv_m_procs v) h)
     \<and> (if ok then stable_sorted_of cmp P (cvec_elems v) (cvec_elems v') else v' = v)"
  by (rule sort_spec [OF assms])

theorem vector_sort_correct_witness:
  "let v = \<lparr>cv_elem_size = 1, cv_elem_count = 3, cv_capacity = 4, cv_m_procs = DefaultProcs,
            cv_data = [3, 1, 2, 0::byte], cv_data_blk = Some 1, cv_blk = 0\<rparr>;
       h = \<lparr>answers = [Grant (\<lambda>_. 0)], next_blk = 2, live = {0, 1}\<rparr>
   in cvec_inv v \<and> (\<exists>v' h'. cvector_sort (Some v) (Some csort_default_unsigned_cmp) h = Some (True, v', h')
         \<and> stable_sorted_of csort_default_unsigned_cmp (\<lambda>_. True) [[3], [1], [2]] (cvec_elems v'))"
proof -
  define v where "v = \<lparr>cv_elem_size = 1, cv_elem_count = 3, cv_capacity = 4, cv_m_procs = DefaultProcs,
            cv_data = [3, 1, 2, 0::byte], cv_data_blk = Some 1, cv_blk = (0::nat)\<rparr>"
  define h where "h = \<lparr>answers = [Grant (\<lambda>_. 0)], next_blk = 2, live = {0, 1::nat}\<rparr>"
  have p4: "pow2 4" using pow2I [of 2] by simp
  have inv: "cvec_inv v" using p4 by (simp add: v_def cvec_inv_def size_defs)
  have ho: "heap_ok h" by (simp add: h_def heap_ok_def)
  have "cvec_elems v = [[3], [1], [2]]" by (simp add: v_def cvec_elems_def chunks_def peek_def upt_rec)
  moreover have "sort_granted (cv_elem_count v) (cv_elem_size v) (cv_m_procs v) h"
    by (simp add: v_def h_def sort_granted_def shape_ready ccol_verify_memmgmt_procs_def mem_alloc_def size_defs)
  ultimately show ?thesis
    using vector_sort_correct [OF inv ho unsigned_cmp.total_cmp_axioms] inv
    unfolding Let_def v_def [symmetric] h_def [symmetric] by auto
qed

end
