(* ===== verification/CCol_Keys.thy ===== *)
theory CCol_Keys
  imports CCol_Values
begin

text \<open>
  The keys of the tree map of \<^verbatim>\<open>src/cbstmap.c\<close>: the data types of
  \<^verbatim>\<open>include/common.h\<close> with the widths and alignments of the x86-64 LP64
  target, the generic comparison \<^verbatim>\<open>compare_keys\<close> and the comparison kinds of
  the typed descents.  A key is its bytes; \<^term>\<open>None\<close> is a failed assertion.
\<close>

section \<open>Data types\<close>

datatype ccol_data_type =
    ccol_char | ccol_short | ccol_int | ccol_long | ccol_long_long
  | ccol_unsigned_char | ccol_unsigned_short | ccol_unsigned_int | ccol_unsigned_long | ccol_unsigned_long_long
  | ccol_float | ccol_double | ccol_long_double | ccol_pointer | ccol_string | ccol_other_types | ccol_signed_char

fun ccol_fixed_width_data_type_size :: "ccol_data_type \<Rightarrow> size_t" where
  "ccol_fixed_width_data_type_size ccol_char = 1"
| "ccol_fixed_width_data_type_size ccol_signed_char = 1"
| "ccol_fixed_width_data_type_size ccol_unsigned_char = 1"
| "ccol_fixed_width_data_type_size ccol_short = 2"
| "ccol_fixed_width_data_type_size ccol_unsigned_short = 2"
| "ccol_fixed_width_data_type_size ccol_int = 4"
| "ccol_fixed_width_data_type_size ccol_unsigned_int = 4"
| "ccol_fixed_width_data_type_size ccol_long = 8"
| "ccol_fixed_width_data_type_size ccol_unsigned_long = 8"
| "ccol_fixed_width_data_type_size ccol_long_long = 8"
| "ccol_fixed_width_data_type_size ccol_unsigned_long_long = 8"
| "ccol_fixed_width_data_type_size ccol_float = 4"
| "ccol_fixed_width_data_type_size ccol_double = 8"
| "ccol_fixed_width_data_type_size ccol_long_double = 16"
| "ccol_fixed_width_data_type_size ccol_pointer = 8"
| "ccol_fixed_width_data_type_size ccol_string = 0"
| "ccol_fixed_width_data_type_size ccol_other_types = 0"

fun cbmap_key_alignment :: "ccol_data_type \<Rightarrow> size_t" where
  "cbmap_key_alignment ccol_char = 1"
| "cbmap_key_alignment ccol_signed_char = 1"
| "cbmap_key_alignment ccol_unsigned_char = 1"
| "cbmap_key_alignment ccol_string = 1"
| "cbmap_key_alignment ccol_short = 2"
| "cbmap_key_alignment ccol_unsigned_short = 2"
| "cbmap_key_alignment ccol_int = 4"
| "cbmap_key_alignment ccol_unsigned_int = 4"
| "cbmap_key_alignment ccol_long = 8"
| "cbmap_key_alignment ccol_unsigned_long = 8"
| "cbmap_key_alignment ccol_long_long = 8"
| "cbmap_key_alignment ccol_unsigned_long_long = 8"
| "cbmap_key_alignment ccol_float = 4"
| "cbmap_key_alignment ccol_double = 8"
| "cbmap_key_alignment ccol_long_double = 16"
| "cbmap_key_alignment ccol_pointer = 8"
| "cbmap_key_alignment ccol_other_types = 16"

section \<open>The generic comparison\<close>

definition ccol_typed_cmp :: "(byte list \<Rightarrow> int) \<Rightarrow> byte list \<Rightarrow> byte list \<Rightarrow> int" where
  "ccol_typed_cmp rd a b = cmp3 (rd a) (rd b)"

definition rd_signed :: "nat \<Rightarrow> byte list \<Rightarrow> int" where
  "rd_signed w bs = le_sint (take w bs)"

definition rd_unsigned :: "nat \<Rightarrow> byte list \<Rightarrow> int" where
  "rd_unsigned w bs = int (le_nat (take w bs))"

text \<open>A plain \<^verbatim>\<open>char\<close> is signed on x86-64.\<close>

definition rd_char :: "byte list \<Rightarrow> int" where
  "rd_char = rd_signed 1"

definition cmp_signed_small :: "byte list \<Rightarrow> byte list \<Rightarrow> size_t \<Rightarrow> int option" where
  "cmp_signed_small a b sz =
     (if sz = 1 then Some (ccol_typed_cmp (rd_signed 1) a b)
      else if sz = 2 then Some (ccol_typed_cmp (rd_signed 2) a b)
      else if sz = 4 then Some (ccol_typed_cmp (rd_signed 4) a b)
      else if sz = 8 then Some (ccol_typed_cmp (rd_signed 8) a b)
      else None)"

definition cmp_unsigned_small :: "byte list \<Rightarrow> byte list \<Rightarrow> size_t \<Rightarrow> int" where
  "cmp_unsigned_small a b sz =
     (if sz = 1 then ccol_typed_cmp (rd_unsigned 1) a b
      else if sz = 2 then ccol_typed_cmp (rd_unsigned 2) a b
      else if sz = 4 then ccol_typed_cmp (rd_unsigned 4) a b
      else if sz = 8 then ccol_typed_cmp (rd_unsigned 8) a b
      else memcmp (take sz a) (take sz b))"

definition cmp_float_small :: "ccol_data_type \<Rightarrow> byte list \<Rightarrow> byte list \<Rightarrow> int option" where
  "cmp_float_small key_type a b =
     (case key_type of
        ccol_float \<Rightarrow> Some (cmp_nan (float_key a) (float_key b))
      | ccol_double \<Rightarrow> Some (cmp_nan (double_key a) (double_key b))
      | ccol_long_double \<Rightarrow> Some (cmp_nan (long_double_key a) (long_double_key b))
      | _ \<Rightarrow> None)"

type_synonym key_cmp = "byte list \<Rightarrow> byte list \<Rightarrow> int"

definition compare_keys :: "ccol_data_type \<Rightarrow> key_cmp option \<Rightarrow> byte list \<Rightarrow> byte list \<Rightarrow> int option" where
  "compare_keys key_type custom_proc k1 k2 =
     (case custom_proc of
        Some f \<Rightarrow> Some (f k1 k2)
      | None \<Rightarrow>
          if length k1 \<noteq> length k2 then
            (let min_size = min (length k1) (length k2);
                 cmp = (if min_size = 0 then 0 else memcmp (take min_size k1) (take min_size k2))
             in if cmp \<noteq> 0 then Some cmp else Some (cmp3 (length k1) (length k2)))
          else (case key_type of
              ccol_string \<Rightarrow> Some (memcmp k1 k2)
            | ccol_char \<Rightarrow> Some (ccol_typed_cmp rd_char k1 k2)
            | ccol_signed_char \<Rightarrow> cmp_signed_small k1 k2 (length k1)
            | ccol_short \<Rightarrow> cmp_signed_small k1 k2 (length k1)
            | ccol_int \<Rightarrow> cmp_signed_small k1 k2 (length k1)
            | ccol_long \<Rightarrow> cmp_signed_small k1 k2 (length k1)
            | ccol_long_long \<Rightarrow> cmp_signed_small k1 k2 (length k1)
            | ccol_unsigned_char \<Rightarrow> Some (cmp_unsigned_small k1 k2 (length k1))
            | ccol_unsigned_short \<Rightarrow> Some (cmp_unsigned_small k1 k2 (length k1))
            | ccol_unsigned_int \<Rightarrow> Some (cmp_unsigned_small k1 k2 (length k1))
            | ccol_unsigned_long \<Rightarrow> Some (cmp_unsigned_small k1 k2 (length k1))
            | ccol_unsigned_long_long \<Rightarrow> Some (cmp_unsigned_small k1 k2 (length k1))
            | ccol_pointer \<Rightarrow> Some (cmp_unsigned_small k1 k2 (length k1))
            | ccol_float \<Rightarrow> cmp_float_small key_type k1 k2
            | ccol_double \<Rightarrow> cmp_float_small key_type k1 k2
            | ccol_long_double \<Rightarrow> cmp_float_small key_type k1 k2
            | ccol_other_types \<Rightarrow> Some (if length k1 = 0 then 0 else memcmp k1 k2)))"

section \<open>The comparison kind of a map\<close>

datatype cmp_kind =
    CBMAP_CMP_GENERIC | CBMAP_CMP_CHAR
  | CBMAP_CMP_S8 | CBMAP_CMP_S16 | CBMAP_CMP_S32 | CBMAP_CMP_S64
  | CBMAP_CMP_U8 | CBMAP_CMP_U16 | CBMAP_CMP_U32 | CBMAP_CMP_U64

definition signed_kind :: "size_t \<Rightarrow> cmp_kind" where
  "signed_kind width =
     (if width = 1 then CBMAP_CMP_S8 else if width = 2 then CBMAP_CMP_S16
      else if width = 4 then CBMAP_CMP_S32 else if width = 8 then CBMAP_CMP_S64 else CBMAP_CMP_GENERIC)"

definition unsigned_kind :: "size_t \<Rightarrow> cmp_kind" where
  "unsigned_kind width =
     (if width = 1 then CBMAP_CMP_U8 else if width = 2 then CBMAP_CMP_U16
      else if width = 4 then CBMAP_CMP_U32 else if width = 8 then CBMAP_CMP_U64 else CBMAP_CMP_GENERIC)"

definition cbmap_cmp_kind :: "ccol_data_type \<Rightarrow> key_cmp option \<Rightarrow> cmp_kind" where
  "cbmap_cmp_kind key_type custom_proc =
     (if custom_proc \<noteq> None then CBMAP_CMP_GENERIC
      else let width = ccol_fixed_width_data_type_size key_type in
        (case key_type of
           ccol_char \<Rightarrow> CBMAP_CMP_CHAR
         | ccol_signed_char \<Rightarrow> signed_kind width
         | ccol_short \<Rightarrow> signed_kind width
         | ccol_int \<Rightarrow> signed_kind width
         | ccol_long \<Rightarrow> signed_kind width
         | ccol_long_long \<Rightarrow> signed_kind width
         | ccol_unsigned_char \<Rightarrow> unsigned_kind width
         | ccol_unsigned_short \<Rightarrow> unsigned_kind width
         | ccol_unsigned_int \<Rightarrow> unsigned_kind width
         | ccol_unsigned_long \<Rightarrow> unsigned_kind width
         | ccol_unsigned_long_long \<Rightarrow> unsigned_kind width
         | ccol_pointer \<Rightarrow> unsigned_kind width
         | _ \<Rightarrow> CBMAP_CMP_GENERIC))"

text \<open>The typed read that a descent of a kind other than the generic one makes.\<close>

fun kind_read :: "cmp_kind \<Rightarrow> (byte list \<Rightarrow> int) option" where
  "kind_read CBMAP_CMP_GENERIC = None"
| "kind_read CBMAP_CMP_CHAR = Some rd_char"
| "kind_read CBMAP_CMP_S8 = Some (rd_signed 1)"
| "kind_read CBMAP_CMP_S16 = Some (rd_signed 2)"
| "kind_read CBMAP_CMP_S32 = Some (rd_signed 4)"
| "kind_read CBMAP_CMP_S64 = Some (rd_signed 8)"
| "kind_read CBMAP_CMP_U8 = Some (rd_unsigned 1)"
| "kind_read CBMAP_CMP_U16 = Some (rd_unsigned 2)"
| "kind_read CBMAP_CMP_U32 = Some (rd_unsigned 4)"
| "kind_read CBMAP_CMP_U64 = Some (rd_unsigned 8)"

definition key_size_is_valid_for_type :: "ccol_data_type \<Rightarrow> byte list \<Rightarrow> bool" where
  "key_size_is_valid_for_type key_type key =
     (let fixed_width = ccol_fixed_width_data_type_size key_type in
      if fixed_width \<noteq> 0 then length key = fixed_width
      else length key \<noteq> 0 \<or> key_type \<noteq> ccol_string)"

section \<open>The comparison is a total order\<close>

text \<open>The order of keys of any length: the first byte that differs decides, then the length.\<close>

fun lexcmp :: "byte list \<Rightarrow> byte list \<Rightarrow> int" where
  "lexcmp [] [] = 0"
| "lexcmp [] (b # bs) = - 1"
| "lexcmp (a # as) [] = 1"
| "lexcmp (a # as) (b # bs) = (if a = b then lexcmp as bs else uint a - uint b)"

lemma lexcmp_anti: "lexcmp a b = - lexcmp b a"
  by (induction a b rule: lexcmp.induct) auto

lemma lexcmp_sgn: "sgn (lexcmp a b) = - sgn (lexcmp b a)"
  using lexcmp_anti [of a b] by (simp add: sgn_minus)

lemma lexcmp_Nil: "lexcmp [] c \<le> 0"
  by (cases c) auto

lemma lexcmp_trans: "lexcmp a b \<le> 0 \<Longrightarrow> lexcmp b c \<le> 0 \<Longrightarrow> lexcmp a c \<le> 0"
proof (induction a b arbitrary: c rule: lexcmp.induct)
  case (4 a as b bs)
  then show ?case by (cases c) (auto simp: uint_eq_iff split: if_splits)
qed (auto simp: lexcmp_Nil)

interpretation lex: total_cmp lexcmp "\<lambda>_. True"
  by unfold_locales (rule lexcmp_sgn, rule lexcmp_trans)

lemma prefix_then_length:
  "lexcmp a b = (if memcmp a b = 0 then cmp3 (length a) (length b) else memcmp a b)"
  by (induction a b rule: lexcmp.induct) (auto simp: cmp3_def uint_eq_iff)

lemma memcmp_min: "memcmp (take (min (length a) (length b)) a) (take (min (length a) (length b)) b) = memcmp a b"
  by (induction a b rule: memcmp.induct) auto

text \<open>The comparison of a map, on keys that its entry points let through.\<close>

definition key_order :: "ccol_data_type \<Rightarrow> key_cmp option \<Rightarrow> key_cmp" where
  "key_order key_type custom_proc a b = the (compare_keys key_type custom_proc a b)"

lemma compare_keys_custom: "compare_keys kt (Some f) a b = Some (f a b)"
  by (simp add: compare_keys_def)

lemma compare_keys_variable:
  "kt = ccol_string \<or> kt = ccol_other_types \<Longrightarrow> compare_keys kt None a b = Some (lexcmp a b)"
  using memcmp_min [of a b]
  by (auto simp: compare_keys_def prefix_then_length cmp3_def Let_def)

text \<open>On keys of a fixed width the comparison is that of one key function of the type.\<close>

lemma compare_keys_fixed:
  assumes "ccol_fixed_width_data_type_size kt \<noteq> 0" "key_size_is_valid_for_type kt a" "key_size_is_valid_for_type kt b"
  shows "compare_keys kt None a b =
     Some (case kt of ccol_float \<Rightarrow> cmp_nan (float_key a) (float_key b)
         | ccol_double \<Rightarrow> cmp_nan (double_key a) (double_key b)
         | ccol_long_double \<Rightarrow> cmp_nan (long_double_key a) (long_double_key b)
         | _ \<Rightarrow> cmp3 (the (kind_read (cbmap_cmp_kind kt None)) a) (the (kind_read (cbmap_cmp_kind kt None)) b))"
  using assms
  by (cases kt) (simp_all add: key_size_is_valid_for_type_def compare_keys_def cmp_signed_small_def
      cmp_unsigned_small_def cmp_float_small_def ccol_typed_cmp_def cbmap_cmp_kind_def signed_kind_def unsigned_kind_def)

lemma compare_keys_Some:
  assumes "custom \<noteq> None \<or> key_size_is_valid_for_type kt a \<and> key_size_is_valid_for_type kt b"
  shows "compare_keys kt custom a b = Some (key_order kt custom a b)"
proof (cases custom)
  case None
  then show ?thesis
    using assms compare_keys_fixed [of kt a b] compare_keys_variable [of kt a b]
    by (cases "ccol_fixed_width_data_type_size kt = 0"; cases kt) (simp_all add: key_order_def)
qed (simp add: key_order_def compare_keys_custom)

lemma key_order_builtin: "total_cmp (key_order kt None) (key_size_is_valid_for_type kt)"
proof (cases "ccol_fixed_width_data_type_size kt = 0")
  case True
  then have "kt = ccol_string \<or> kt = ccol_other_types" by (cases kt) auto
  then have "key_order kt None = lexcmp"
    by (auto simp: key_order_def compare_keys_variable fun_eq_iff)
  then show ?thesis by (auto intro: total_cmp.intro lexcmp_sgn lexcmp_trans)
next
  case False
  let ?v = "key_size_is_valid_for_type kt" and ?g = "the (kind_read (cbmap_cmp_kind kt None))"
  have f: "key_order kt None a b = (case kt of ccol_float \<Rightarrow> cmp_nan (float_key a) (float_key b)
         | ccol_double \<Rightarrow> cmp_nan (double_key a) (double_key b)
         | ccol_long_double \<Rightarrow> cmp_nan (long_double_key a) (long_double_key b)
         | _ \<Rightarrow> cmp3 (?g a) (?g b))" if "?v a" "?v b" for a b
    using compare_keys_fixed [OF False that] by (simp only: key_order_def option.sel)
  show ?thesis
  proof (cases "kt = ccol_float \<or> kt = ccol_double \<or> kt = ccol_long_double")
    case True
    then have "\<exists>k. \<forall>a b. ?v a \<longrightarrow> ?v b \<longrightarrow> key_order kt None a b = cmp_nan (k a) (k b)"
      using f by (elim disjE) (rule exI [of _ float_key] exI [of _ double_key] exI [of _ long_double_key], simp)+
    then show ?thesis using total_cmp_cong [OF total_cmp_nan_key] by blast
  next
    case False
    then have "key_order kt None a b = cmp3 (?g a) (?g b)" if "?v a" "?v b" for a b
      unfolding f [OF that] by (cases kt) (simp_all only: ccol_data_type.case simp_thms)
    then show ?thesis using total_cmp_cong [OF total_cmp_key] by blast
  qed
qed

text \<open>
  Claim C34.  For every declared key type the built-in comparison of the tree map is
  defined on all keys its entry points accept (no assertion can fail), and it is
  a total order on them, NaNs and keys of different lengths included: answers of
  both argument orders agree in sign, and it is transitive.
\<close>

theorem compare_keys_total_order:
  assumes "key_size_is_valid_for_type kt a" "key_size_is_valid_for_type kt b" "key_size_is_valid_for_type kt c"
  shows "\<exists>x y z w. compare_keys kt None a b = Some x \<and> compare_keys kt None b a = Some y
     \<and> compare_keys kt None b c = Some z \<and> compare_keys kt None a c = Some w
     \<and> sgn x = - sgn y \<and> (x \<le> 0 \<and> z \<le> 0 \<longrightarrow> w \<le> 0) \<and> (x < 0 \<and> z \<le> 0 \<longrightarrow> w < 0)"
proof -
  let ?f = "key_order kt None"
  have "sgn (?f a b) = - sgn (?f b a)" "?f a b \<le> 0 \<and> ?f b c \<le> 0 \<longrightarrow> ?f a c \<le> 0"
      "?f a b < 0 \<and> ?f b c \<le> 0 \<longrightarrow> ?f a c < 0"
    using total_cmp.cmp_sgn [OF key_order_builtin] total_cmp.cmp_trans [OF key_order_builtin]
      total_cmp.cmp_less_trans [OF key_order_builtin] assms by blast+
  then show ?thesis using assms by (simp add: compare_keys_Some)
qed

theorem compare_keys_total_order_witness:
  "let a = [0, 0, 192, 127]; b = [0, 0, 128, 63]; c = [0, 0, 0, 128::byte]
   in key_size_is_valid_for_type ccol_float a \<and> float_key a = None \<and> float_key c = Some 0
    \<and> (\<exists>x y. compare_keys ccol_float None a b = Some x \<and> compare_keys ccol_float None b a = Some y \<and> sgn x = - sgn y)"
proof -
  have v: "key_size_is_valid_for_type ccol_float [0, 0, 192, 127]" "key_size_is_valid_for_type ccol_float [0, 0, 128, 63]"
    by (simp_all add: key_size_is_valid_for_type_def)
  have "float_key [0, 0, 192, 127] = None" "float_key [0, 0, 0, 128] = Some 0"
    by (simp_all add: float_key_def ieee_key_def)
  then show ?thesis using compare_keys_total_order [OF v v(2)] v by auto
qed

text \<open>
  The typed descents compare as the generic path does: for every key type
  that gets a comparison kind of its own, equality and order of the two typed
  reads are exactly the zero and the sign that \<^verbatim>\<open>compare_keys\<close> gives.
\<close>

theorem typed_compare_equiv_generic:
  assumes "kind_read (cbmap_cmp_kind kt custom) = Some rd"
    "key_size_is_valid_for_type kt a" "key_size_is_valid_for_type kt b"
  shows "compare_keys kt custom a b = Some (if rd a = rd b then 0 else if rd a < rd b then - 1 else 1)"
proof -
  have c: "custom = None" using assms(1) by (cases custom) (auto simp: cbmap_cmp_kind_def)
  have w: "ccol_fixed_width_data_type_size kt \<noteq> 0"
    using assms(1) by (cases kt) (auto simp: c cbmap_cmp_kind_def)
  have "compare_keys kt None a b = Some (cmp3 (rd a) (rd b))"
    using compare_keys_fixed [OF w assms(2,3)] assms(1) unfolding c
    by (cases kt) (simp_all add: cbmap_cmp_kind_def)
  then show ?thesis by (simp add: c cmp3_def)
qed

theorem typed_compare_equiv_generic_witness:
  "kind_read (cbmap_cmp_kind ccol_short None) = Some (rd_signed 2)
   \<and> compare_keys ccol_short None [255, 255] [1, 0] = Some (- 1)"
proof -
  have k: "kind_read (cbmap_cmp_kind ccol_short None) = Some (rd_signed 2)"
    by (simp add: cbmap_cmp_kind_def signed_kind_def)
  have v: "key_size_is_valid_for_type ccol_short [255, 255]" "key_size_is_valid_for_type ccol_short [1, 0]"
    by (simp_all add: key_size_is_valid_for_type_def)
  have "rd_signed 2 [255, 255] = - 1" "rd_signed 2 [1, 0] = 1"
    by (simp_all add: rd_signed_def le_sint_def)
  then show ?thesis using typed_compare_equiv_generic [OF k v] k by simp
qed

end
