(* ===== verification/CCol_Bstmap.thy ===== *)
theory CCol_Bstmap
  imports CCol_Container CCol_Keys
begin

text \<open>
  \<^verbatim>\<open>src/cbstmap.c\<close>: the ordered map as an AVL tree.  A tree node carries its
  address, its key and value bytes, the block of a value that an update moved out
  of the node, and the stored height.  The fixed path arrays of the code, entries
  of a node with the link that points at it, are lists of frames, innermost first:
  a frame is a node of the path with the side the descent took and the subtree on
  the other side, and writing through a \<open>parent_link\<close> is plugging into the
  frame above.  \<^term>\<open>None\<close> is a failed assertion or a copy with no defined
  behaviour.
\<close>

section \<open>Nodes and maps\<close>

record bmap_node =
  bn_addr :: nat
  bn_key :: "byte list"
  bn_val :: "byte list"
  bn_val_external :: "nat option"

datatype btree = Tip | Nd btree bmap_node nat btree

record cbstmap =
  bm_elem_count :: size_t
  bm_root :: btree
  bm_m_procs :: mprocs
  bm_key_type :: ccol_data_type
  bm_key_alignment :: size_t
  bm_custom :: "key_cmp option"
  bm_key_offset :: size_t
  bm_cmp_kind :: cmp_kind
  bm_blk :: nat
  bm_procs_blk :: "nat option"

definition CBMAP_MAX_TREE_HEIGHT :: nat where
  [size_defs]: "CBMAP_MAX_TREE_HEIGHT = 128"

definition CBMAP_NODE_VAL_ALIGN :: size_t where
  [size_defs]: "CBMAP_NODE_VAL_ALIGN = 16"

definition sizeof_bmap_node :: size_t where
  [size_defs]: "sizeof_bmap_node = 56"

text \<open>Rounding up to an alignment, a power of two: clearing its low bits takes the remainder off.\<close>

definition CBMAP_ALIGN_UP_TO :: "size_t \<Rightarrow> size_t \<Rightarrow> size_t" where
  "CBMAP_ALIGN_UP_TO n a = (let m = sz_add n (a - 1) in m - m mod a)"

datatype bmap_err = null_memory_mgmt_proc | failed_to_allocate_cbstmap | failed_to_allocate_mem_procs

definition verify_cbmap_create_inputs :: "mprocs \<Rightarrow> bool" where
  "verify_cbmap_create_inputs mp = ccol_verify_memmgmt_procs mp"

definition cbstmap_create_full ::
  "ccol_data_type \<Rightarrow> mprocs \<Rightarrow> key_cmp option \<Rightarrow> heap \<Rightarrow> (bmap_err + cbstmap) \<times> heap" where
  "cbstmap_create_full key_type mp custom h =
     (if \<not> verify_cbmap_create_inputs mp then (Inl null_memory_mgmt_proc, h)
      else (case mem_alloc h 64 of
          (None, h) \<Rightarrow> (Inl failed_to_allocate_cbstmap, h)
        | (Some (b, _), h) \<Rightarrow>
            (let m = \<lparr>bm_elem_count = 0, bm_root = Tip, bm_m_procs = mp, bm_key_type = key_type,
                      bm_key_alignment = cbmap_key_alignment key_type, bm_custom = custom,
                      bm_key_offset = CBMAP_ALIGN_UP_TO sizeof_bmap_node (cbmap_key_alignment key_type),
                      bm_cmp_kind = cbmap_cmp_kind key_type custom, bm_blk = b, bm_procs_blk = None\<rparr>
             in if mp = DefaultProcs then (Inr m, h)
                else (case mem_alloc h 32 of
                    (None, h) \<Rightarrow> (Inl failed_to_allocate_mem_procs, mem_free h b)
                  | (Some (pb, _), h) \<Rightarrow> (Inr (m\<lparr>bm_procs_blk := Some pb\<rparr>), h)))))"

section \<open>Clearing and destroying\<close>

definition destroy_bmap_node :: "bmap_node \<Rightarrow> heap \<Rightarrow> heap" where
  "destroy_bmap_node n h =
     (let h = (case bn_val_external n of None \<Rightarrow> h | Some b \<Rightarrow> mem_free h b) in mem_free h (bn_addr n))"

fun root_addr :: "btree \<Rightarrow> nat option" where
  "root_addr Tip = None"
| "root_addr (Nd l n ht r) = Some (bn_addr n)"

fun right_child :: "btree \<Rightarrow> btree" where
  "right_child Tip = Tip"
| "right_child (Nd l n ht r) = r"

text \<open>The post-order walk: the stack (its top first), the current node, the last one destroyed.\<close>

partial_function (option) clear_loop ::
  "btree list \<Rightarrow> btree \<Rightarrow> nat option \<Rightarrow> heap \<Rightarrow> heap option" where
  "clear_loop stack current last_visited h =
     (case current of
        Nd l n ht r \<Rightarrow>
          if length stack < CBMAP_MAX_TREE_HEIGHT then clear_loop (current # stack) l last_visited h else None
      | Tip \<Rightarrow>
          (case stack of
             Nd l n ht r # rest \<Rightarrow>
               if r \<noteq> Tip \<and> root_addr r \<noteq> last_visited then clear_loop stack r last_visited h
               else clear_loop rest Tip (Some (bn_addr n)) (destroy_bmap_node n h)
           | _ \<Rightarrow> Some h))"

definition clear_nodes :: "cbstmap \<Rightarrow> heap \<Rightarrow> (cbstmap \<times> heap) option" where
  "clear_nodes m h =
     (if bm_root m = Tip then Some (m, h)
      else do {
        h \<leftarrow> clear_loop [] (bm_root m) None h;
        Some (m\<lparr>bm_root := Tip, bm_elem_count := 0\<rparr>, h)
      })"

definition cbstmap_destroy :: "cbstmap option \<Rightarrow> heap \<Rightarrow> heap option" where
  "cbstmap_destroy m h =
     (case m of
        None \<Rightarrow> Some h
      | Some m \<Rightarrow> do {
          (m, h) \<leftarrow> clear_nodes m h;
          (let h = (case bm_procs_blk m of None \<Rightarrow> h | Some b \<Rightarrow> mem_free h b)
           in Some (mem_free h (bm_blk m)))
        })"

definition cbstmap_elem_count :: "cbstmap option \<Rightarrow> size_t option" where
  "cbstmap_elem_count m = map_option bm_elem_count m"

definition cbstmap_reset :: "cbstmap option \<Rightarrow> heap \<Rightarrow> (ccol_retval \<times> cbstmap \<times> heap) option" where
  "cbstmap_reset m h =
     (case m of None \<Rightarrow> None | Some m \<Rightarrow> do { (m, h) \<leftarrow> clear_nodes m h; Some (ccol_success, m, h) })"

section \<open>Descents\<close>

fun find_typed :: "(byte list \<Rightarrow> int) \<Rightarrow> int \<Rightarrow> btree \<Rightarrow> bmap_node option" where
  "find_typed rd want Tip = None"
| "find_typed rd want (Nd l n ht r) =
     (if want = rd (bn_key n) then Some n
      else if want < rd (bn_key n) then find_typed rd want l else find_typed rd want r)"

fun find_generic :: "(byte list \<Rightarrow> byte list \<Rightarrow> int option) \<Rightarrow> byte list \<Rightarrow> btree \<Rightarrow> bmap_node option option" where
  "find_generic cmp key Tip = Some None"
| "find_generic cmp key (Nd l n ht r) = do {
     comparison \<leftarrow> cmp key (bn_key n);
     (if comparison = 0 then Some (Some n)
      else if comparison < 0 then find_generic cmp key l else find_generic cmp key r)
   }"

definition map_compare :: "cbstmap \<Rightarrow> byte list \<Rightarrow> byte list \<Rightarrow> int option" where
  "map_compare m = compare_keys (bm_key_type m) (bm_custom m)"

definition cbmap_find_node :: "cbstmap \<Rightarrow> byte list \<Rightarrow> bmap_node option option" where
  "cbmap_find_node m key =
     (case kind_read (bm_cmp_kind m) of
        Some rd \<Rightarrow> Some (find_typed rd (rd key) (bm_root m))
      | None \<Rightarrow> find_generic (map_compare m) key (bm_root m))"

text \<open>A node of the path whose left or right link the descent followed.\<close>

datatype frame = WentLeft bmap_node nat btree | WentRight btree bmap_node nat

fun plug :: "frame \<Rightarrow> btree \<Rightarrow> btree" where
  "plug (WentLeft n ht r) t = Nd t n ht r"
| "plug (WentRight l n ht) t = Nd l n ht t"

fun plug_all :: "frame list \<Rightarrow> btree \<Rightarrow> btree" where
  "plug_all [] t = t"
| "plug_all (f # fs) t = plug_all fs (plug f t)"

fun descend_typed :: "(byte list \<Rightarrow> int) \<Rightarrow> int \<Rightarrow> frame list \<Rightarrow> btree \<Rightarrow> (frame list \<times> btree) option" where
  "descend_typed rd want path Tip = Some (path, Tip)"
| "descend_typed rd want path (Nd l n ht r) =
     (if want = rd (bn_key n) then Some (path, Nd l n ht r)
      else if \<not> length path < CBMAP_MAX_TREE_HEIGHT then None
      else if want < rd (bn_key n) then descend_typed rd want (WentLeft n ht r # path) l
      else descend_typed rd want (WentRight l n ht # path) r)"

fun descend_generic ::
  "(byte list \<Rightarrow> byte list \<Rightarrow> int option) \<Rightarrow> byte list \<Rightarrow> frame list \<Rightarrow> btree \<Rightarrow> (frame list \<times> btree) option" where
  "descend_generic cmp key path Tip = Some (path, Tip)"
| "descend_generic cmp key path (Nd l n ht r) = do {
     comparison \<leftarrow> cmp key (bn_key n);
     (if comparison = 0 then Some (path, Nd l n ht r)
      else if \<not> length path < CBMAP_MAX_TREE_HEIGHT then None
      else if comparison > 0 then descend_generic cmp key (WentRight l n ht # path) r
      else descend_generic cmp key (WentLeft n ht r # path) l)
   }"

definition cbmap_descend_with_path :: "cbstmap \<Rightarrow> byte list \<Rightarrow> (frame list \<times> btree) option" where
  "cbmap_descend_with_path m key =
     (case kind_read (bm_cmp_kind m) of
        Some rd \<Rightarrow> descend_typed rd (rd key) [] (bm_root m)
      | None \<Rightarrow> descend_generic (map_compare m) key [] (bm_root m))"

section \<open>Node creation and update\<close>

text \<open>
  A key pair is null, or a pointer (null or to bytes) with a size.  A value pair
  may in addition point into the value of the node that holds its key: \<open>Self off\<close>.
\<close>

type_synonym key_pair = "(byte list option \<times> size_t) option"
type_synonym val_pair = "(byte cptr \<times> size_t) option"

definition key_bytes :: "byte list option \<Rightarrow> size_t \<Rightarrow> byte list" where
  "key_bytes p n = (case p of None \<Rightarrow> [] | Some bs \<Rightarrow> take n bs)"

definition create_new_node ::
  "cbstmap \<Rightarrow> byte list \<Rightarrow> byte cptr \<Rightarrow> size_t \<Rightarrow> heap \<Rightarrow> (bmap_node option \<times> heap) option" where
  "create_new_node m key val_ptr val_size h =
     (let key_offset = bm_key_offset m in
      if length key > SIZE_MAX - key_offset - CBMAP_NODE_VAL_ALIGN then Some (None, h)
      else let val_offset = CBMAP_ALIGN_UP_TO (key_offset + length key) CBMAP_NODE_VAL_ALIGN in
        if val_size > SIZE_MAX - val_offset then Some (None, h)
        else (case mem_alloc h (sz_add val_offset val_size) of
            (None, h) \<Rightarrow> Some (None, h)
          | (Some (b, bs), h) \<Rightarrow> do {
              val \<leftarrow> (if val_size > 0 then memcpy (peek bs val_offset val_size) 0 val_ptr val_size else Some []);
              Some (Some \<lparr>bn_addr = b, bn_key = key, bn_val = val, bn_val_external = None\<rparr>, h)
            }))"

definition update_bmap_node_value ::
  "bmap_node \<Rightarrow> byte cptr \<Rightarrow> size_t \<Rightarrow> heap \<Rightarrow> (ccol_retval \<times> bmap_node \<times> heap) option" where
  "update_bmap_node_value n val_ptr val_size h =
     (if length (bn_val n) \<noteq> val_size then
        (if val_size = 0 then
           (let h = (case bn_val_external n of None \<Rightarrow> h | Some b \<Rightarrow> mem_free h b)
            in Some (ccol_key_already_present, n\<lparr>bn_val := [], bn_val_external := None\<rparr>, h))
         else (case mem_alloc h val_size of
             (None, h) \<Rightarrow> Some (ccol_not_enough_memory, n, h)
           | (Some (b, bs), h) \<Rightarrow> do {
               val \<leftarrow> memcpy bs 0 (case val_ptr of Self off \<Rightarrow> Ext (drop off (bn_val n)) | p \<Rightarrow> p) val_size;
               (let h = (case bn_val_external n of None \<Rightarrow> h | Some b \<Rightarrow> mem_free h b)
                in Some (ccol_key_already_present, n\<lparr>bn_val := val, bn_val_external := Some b\<rparr>, h))
             }))
      else if val_ptr \<noteq> Self 0 \<and> val_size > 0 then do {
        val \<leftarrow> memmove (bn_val n) 0 val_ptr val_size;
        Some (ccol_key_already_present, n\<lparr>bn_val := val\<rparr>, h)
      }
      else Some (ccol_key_already_present, n, h))"

section \<open>Balance\<close>

fun node_height :: "btree \<Rightarrow> nat" where
  "node_height Tip = 0"
| "node_height (Nd l n ht r) = ht"

fun node_balance :: "btree \<Rightarrow> int" where
  "node_balance Tip = 0"
| "node_balance (Nd l n ht r) = int (node_height r) - int (node_height l)"

text \<open>A node with its height recomputed; the stored field is one byte wide.\<close>

definition recalculated :: "btree \<Rightarrow> bmap_node \<Rightarrow> btree \<Rightarrow> btree" where
  "recalculated l n r = Nd l n ((max (node_height l) (node_height r) + 1) mod 256) r"

fun recalculate_node_height :: "btree \<Rightarrow> btree" where
  "recalculate_node_height Tip = Tip"
| "recalculate_node_height (Nd l n ht r) = recalculated l n r"

fun rotate_left :: "btree \<Rightarrow> bmap_node \<Rightarrow> btree \<Rightarrow> btree option" where
  "rotate_left l p Tip = None"
| "rotate_left l p (Nd rl rn rh rr) =
     (if node_balance (Nd rl rn rh rr) \<ge> 0 \<or> rl = Tip
      then Some (recalculated (recalculated l p rl) rn rr)
      else (case rl of
          Tip \<Rightarrow> None
        | Nd rl_left c ch rl_right \<Rightarrow>
            Some (recalculated (recalculated l p rl_left) c (recalculated rl_right rn rr))))"

fun rotate_right :: "btree \<Rightarrow> bmap_node \<Rightarrow> btree \<Rightarrow> btree option" where
  "rotate_right Tip p r = None"
| "rotate_right (Nd ll ln lh lr) p r =
     (if node_balance (Nd ll ln lh lr) \<le> 0 \<or> lr = Tip
      then Some (recalculated ll ln (recalculated lr p r))
      else (case lr of
          Tip \<Rightarrow> None
        | Nd lr_left c ch lr_right \<Rightarrow>
            Some (recalculated (recalculated ll ln lr_left) c (recalculated lr_right p r))))"

definition check_node_balance :: "btree \<Rightarrow> btree option" where
  "check_node_balance parent = do {
     parent \<leftarrow>
       (case recalculate_node_height parent of
          Tip \<Rightarrow> Some Tip
        | Nd l p ht r \<Rightarrow>
            let balance = node_balance (Nd l p ht r) in
            if balance > 1 then rotate_left l p r
            else if balance < - 1 then rotate_right l p r
            else Some (Nd l p ht r));
     (let final_balance = node_balance parent in
      if final_balance > 1 \<or> final_balance < - 1 then None else Some parent)
   }"

section \<open>Insertion\<close>

definition pair_bytes_are_readable :: "bool \<Rightarrow> size_t \<Rightarrow> bool" where
  "pair_bytes_are_readable ptr_is_null n \<longleftrightarrow> \<not> ptr_is_null \<or> n = 0"

text \<open>The way up after an insertion: it stops after a rotation, and when a height did not change.\<close>

fun rebalance_after_insert :: "frame list \<Rightarrow> btree \<Rightarrow> btree option" where
  "rebalance_after_insert [] t = Some t"
| "rebalance_after_insert (f # fs) t =
     (let node = plug f t in do {
        balanced \<leftarrow> check_node_balance node;
        (if root_addr balanced \<noteq> root_addr node \<or> node_height balanced = node_height node
         then Some (plug_all fs balanced) else rebalance_after_insert fs balanced)
      })"

definition cbstmap_insert_elem ::
  "cbstmap option \<Rightarrow> key_pair \<Rightarrow> val_pair \<Rightarrow> heap \<Rightarrow> (ccol_retval \<times> cbstmap \<times> heap) option" where
  "cbstmap_insert_elem m key_pair val_pair h =
     (case m of
        None \<Rightarrow> None
      | Some m \<Rightarrow>
          (case (key_pair, val_pair) of
             (Some (kp, ks), Some (vp, vs)) \<Rightarrow>
               if \<not> pair_bytes_are_readable (kp = None) ks \<or> \<not> pair_bytes_are_readable (vp = Null) vs
               then Some (ccol_invalid_args, m, h)
               else let key = key_bytes kp ks in
                 if \<not> key_size_is_valid_for_type (bm_key_type m) key then Some (ccol_invalid_args, m, h)
                 else if bm_root m = Tip then do {
                   (node, h) \<leftarrow> create_new_node m key vp vs h;
                   (case node of
                      None \<Rightarrow> Some (ccol_not_enough_memory, m, h)
                    | Some n \<Rightarrow> Some (ccol_success, m\<lparr>bm_root := Nd Tip n 1 Tip,
                                                    bm_elem_count := bm_elem_count m + 1\<rparr>, h))
                 }
                 else do {
                   (path, existing) \<leftarrow> cbmap_descend_with_path m key;
                   (case existing of
                      Nd l n ht r \<Rightarrow> do {
                        (result, n', h) \<leftarrow> update_bmap_node_value n vp vs h;
                        Some (result, m\<lparr>bm_root := plug_all path (Nd l n' ht r)\<rparr>, h)
                      }
                    | Tip \<Rightarrow>
                        if bm_elem_count m = ccol_max_elem_count then Some (ccol_container_full, m, h)
                        else do {
                          (node, h) \<leftarrow> create_new_node m key vp vs h;
                          (case node of
                             None \<Rightarrow> Some (ccol_not_enough_memory, m, h)
                           | Some n \<Rightarrow> do {
                               root \<leftarrow> rebalance_after_insert path (Nd Tip n 1 Tip);
                               Some (ccol_success, m\<lparr>bm_root := root, bm_elem_count := bm_elem_count m + 1\<rparr>, h)
                             })
                        })
                 }
           | _ \<Rightarrow> Some (ccol_invalid_args, m, h)))"

section \<open>Lookup\<close>

definition cbstmap_get_elem_copy ::
  "cbstmap option \<Rightarrow> key_pair \<Rightarrow> byte list option \<Rightarrow> size_t \<Rightarrow> (ccol_retval \<times> byte list option) option" where
  "cbstmap_get_elem_copy m key_pair target_buf target_buf_size =
     (case m of
        None \<Rightarrow> None
      | Some m \<Rightarrow>
          (case key_pair of
             None \<Rightarrow> Some (ccol_invalid_args, target_buf)
           | Some (kp, ks) \<Rightarrow>
               if \<not> pair_bytes_are_readable (kp = None) ks then Some (ccol_invalid_args, target_buf)
               else if target_buf = None \<and> target_buf_size \<noteq> 0 then Some (ccol_invalid_args, target_buf)
               else if \<not> key_size_is_valid_for_type (bm_key_type m) (key_bytes kp ks)
               then Some (ccol_invalid_args, target_buf)
               else do {
                 tracker \<leftarrow> cbmap_find_node m (key_bytes kp ks);
                 (case tracker of
                    None \<Rightarrow> Some (ccol_key_not_found, target_buf)
                  | Some n \<Rightarrow>
                      if target_buf_size \<noteq> length (bn_val n) then Some (ccol_invalid_args, target_buf)
                      else if target_buf_size > 0 then do {
                        buf \<leftarrow> memcpy (the target_buf) 0 (Ext (bn_val n)) target_buf_size;
                        Some (ccol_success, Some buf)
                      }
                      else Some (ccol_success, target_buf))
               }))"

definition cbmap_lookup_checked :: "cbstmap \<Rightarrow> key_pair \<Rightarrow> (ccol_retval \<times> bmap_node option) option" where
  "cbmap_lookup_checked m key_pair =
     (case key_pair of
        None \<Rightarrow> Some (ccol_invalid_args, None)
      | Some (kp, ks) \<Rightarrow>
          if \<not> pair_bytes_are_readable (kp = None) ks
             \<or> \<not> key_size_is_valid_for_type (bm_key_type m) (key_bytes kp ks)
          then Some (ccol_invalid_args, None)
          else do {
            tracker \<leftarrow> cbmap_find_node m (key_bytes kp ks);
            Some (if tracker \<noteq> None then ccol_success else ccol_key_not_found, tracker)
          })"

text \<open>
  The out-parameter is null (\<open>False\<close>) or not; the pair or accessor that the two
  functions give out is that of the value of the node they return.
\<close>

definition cbstmap_get_elem_ref ::
  "cbstmap option \<Rightarrow> key_pair \<Rightarrow> bool \<Rightarrow> (ccol_retval \<times> bmap_node option) option" where
  "cbstmap_get_elem_ref m key_pair has_out =
     (case m of
        None \<Rightarrow> None
      | Some m \<Rightarrow>
          if \<not> has_out then Some (ccol_invalid_args, None)
          else do {
            (ret, tracker) \<leftarrow> cbmap_lookup_checked m key_pair;
            (case tracker of None \<Rightarrow> Some (ret, None) | Some n \<Rightarrow> Some (ccol_success, Some n))
          })"

definition cbstmap_get_val_accessor ::
  "cbstmap option \<Rightarrow> key_pair \<Rightarrow> bool \<Rightarrow> (ccol_retval \<times> bmap_node option) option" where
  "cbstmap_get_val_accessor m key_pair has_out =
     (case m of
        None \<Rightarrow> None
      | Some m \<Rightarrow> if \<not> has_out then Some (ccol_invalid_args, None) else cbmap_lookup_checked m key_pair)"

section \<open>Removal\<close>

fun extreme_path :: "bool \<Rightarrow> frame list \<Rightarrow> btree \<Rightarrow> (frame list \<times> bmap_node \<times> btree) option" where
  "extreme_path mx path Tip = None"
| "extreme_path mx path (Nd l n ht r) =
     (if mx then
        (if r = Tip then Some (path, n, l)
         else if length path < CBMAP_MAX_TREE_HEIGHT then extreme_path mx (WentRight l n ht # path) r else None)
      else
        (if l = Tip then Some (path, n, r)
         else if length path < CBMAP_MAX_TREE_HEIGHT then extreme_path mx (WentLeft n ht r # path) l else None))"

fun rebalance_all :: "frame list \<Rightarrow> btree \<Rightarrow> btree option" where
  "rebalance_all [] t = Some t"
| "rebalance_all (f # fs) t = do { balanced \<leftarrow> check_node_balance (plug f t); rebalance_all fs balanced }"

definition cbmap_detach_extreme_iter :: "btree \<Rightarrow> bool \<Rightarrow> (btree \<times> bmap_node) option" where
  "cbmap_detach_extreme_iter root mx = do {
     (path, extreme, replacement) \<leftarrow> extreme_path mx [] root;
     (if path = [] then Some (replacement, extreme)
      else do { root \<leftarrow> rebalance_all path replacement; Some (root, extreme) })
   }"

text \<open>The removal of the node \<open>n\<close> with the children \<open>l\<close> and \<open>r\<close>; the node is freed first.\<close>

definition perform_element_removal :: "btree \<Rightarrow> bmap_node \<Rightarrow> btree \<Rightarrow> heap \<Rightarrow> (btree \<times> heap) option" where
  "perform_element_removal l n r h =
     (let h = destroy_bmap_node n h in
      if l = Tip then Some (r, h)
      else if r = Tip then Some (l, h)
      else if node_height r \<ge> node_height l then do {
        (r, right_min) \<leftarrow> cbmap_detach_extreme_iter r False;
        Some (recalculated l right_min r, h)
      }
      else do {
        (l, left_max) \<leftarrow> cbmap_detach_extreme_iter l True;
        Some (recalculated l left_max r, h)
      })"

fun rebalance_after_delete :: "frame list \<Rightarrow> btree \<Rightarrow> btree option" where
  "rebalance_after_delete [] t = Some t"
| "rebalance_after_delete (f # fs) t =
     (let node = plug f t in do {
        balanced \<leftarrow> check_node_balance node;
        (if node_height balanced = node_height node
         then Some (plug_all fs balanced) else rebalance_after_delete fs balanced)
      })"

definition cbstmap_delete_elem :: "cbstmap option \<Rightarrow> key_pair \<Rightarrow> heap \<Rightarrow> (ccol_retval \<times> cbstmap \<times> heap) option" where
  "cbstmap_delete_elem m key_pair h =
     (case m of
        None \<Rightarrow> None
      | Some m \<Rightarrow>
          (case key_pair of
             None \<Rightarrow> Some (ccol_invalid_args, m, h)
           | Some (kp, ks) \<Rightarrow>
               if \<not> pair_bytes_are_readable (kp = None) ks then Some (ccol_invalid_args, m, h)
               else if \<not> key_size_is_valid_for_type (bm_key_type m) (key_bytes kp ks)
               then Some (ccol_invalid_args, m, h)
               else if bm_root m = Tip then Some (ccol_key_not_found, m, h)
               else do {
                 (path, current) \<leftarrow> cbmap_descend_with_path m (key_bytes kp ks);
                 (case current of
                    Tip \<Rightarrow> Some (ccol_key_not_found, m, h)
                  | Nd l n ht r \<Rightarrow> do {
                      (replacement, h) \<leftarrow> perform_element_removal l n r h;
                      root \<leftarrow> rebalance_after_delete path replacement;
                      Some (ccol_success, m\<lparr>bm_root := root, bm_elem_count := bm_elem_count m - 1\<rparr>, h)
                    })
               }))"

section \<open>The iterator\<close>

record cbmap_iter =
  bi_node_stack :: "btree list"
  bi_node :: bmap_node
  bi_blk :: nat

fun push_all_lefts_into_iter_stack :: "btree list \<Rightarrow> btree \<Rightarrow> btree list option" where
  "push_all_lefts_into_iter_stack stack Tip = Some stack"
| "push_all_lefts_into_iter_stack stack (Nd l n ht r) =
     (if length stack < CBMAP_MAX_TREE_HEIGHT
      then push_all_lefts_into_iter_stack (Nd l n ht r # stack) l else None)"

definition cmap_real_iter_next :: "btree list \<Rightarrow> nat \<Rightarrow> heap \<Rightarrow> (cbmap_iter option \<times> heap) option" where
  "cmap_real_iter_next stack blk h =
     (case stack of
        Nd l n ht r # rest \<Rightarrow> do {
          stack \<leftarrow> (if r \<noteq> Tip then push_all_lefts_into_iter_stack rest r else Some rest);
          Some (Some \<lparr>bi_node_stack = stack, bi_node = n, bi_blk = blk\<rparr>, h)
        }
      | _ \<Rightarrow> Some (None, mem_free h blk))"

definition cbstmap_begin_iter :: "cbstmap option \<Rightarrow> heap \<Rightarrow> (bool \<times> cbmap_iter option \<times> heap) option" where
  "cbstmap_begin_iter m h =
     (case m of
        None \<Rightarrow> Some (False, None, h)
      | Some m \<Rightarrow>
          if bm_root m = Tip then Some (False, None, h)
          else (case mem_alloc h 1088 of
              (None, h) \<Rightarrow> Some (True, None, h)
            | (Some (b, _), h) \<Rightarrow> do {
                stack \<leftarrow> push_all_lefts_into_iter_stack [] (bm_root m);
                (it, h) \<leftarrow> cmap_real_iter_next stack b h;
                Some (False, it, h)
              }))"

definition cbmap_iter_next :: "cbmap_iter option \<Rightarrow> heap \<Rightarrow> (cbmap_iter option \<times> heap) option" where
  "cbmap_iter_next it h =
     (case it of None \<Rightarrow> None | Some it \<Rightarrow> cmap_real_iter_next (bi_node_stack it) (bi_blk it) h)"

definition cbstmap_iterator_destroy :: "cbmap_iter option \<Rightarrow> heap \<Rightarrow> heap" where
  "cbstmap_iterator_destroy it h = (case it of None \<Rightarrow> h | Some it \<Rightarrow> mem_free h (bi_blk it))"

text \<open>The loop of a caller over an iterator, with the node each round shows.\<close>

partial_function (option) bst_visit :: "cbmap_iter option \<Rightarrow> heap \<Rightarrow> (bmap_node list \<times> heap) option" where
  "bst_visit it h =
     (case it of
        None \<Rightarrow> Some ([], h)
      | Some i \<Rightarrow> do {
          (it', h) \<leftarrow> cbmap_iter_next it h;
          (ns, h) \<leftarrow> bst_visit it' h;
          Some (bi_node i # ns, h)
        })"

end
