(* ===== verification/CCol_Bstmap_Avl.thy ===== *)
theory CCol_Bstmap_Avl
  imports CCol_Bstmap
begin

text \<open>
  The balance of the tree map: what a node's rebalancing gives, the early stops
  on the way up, the removal of an extreme node, and the bound on the height that
  keeps every path within the fixed arrays.  The in-order list of the nodes is
  the abstraction; none of the lemmas here needs to know the key order.
\<close>

section \<open>The AVL invariant\<close>

fun nodes :: "btree \<Rightarrow> bmap_node list" where
  "nodes Tip = []"
| "nodes (Nd l n ht r) = nodes l @ n # nodes r"

definition close :: "nat \<Rightarrow> nat \<Rightarrow> bool" where
  "close a b \<longleftrightarrow> a \<le> b + 1 \<and> b \<le> a + 1"

fun avl :: "btree \<Rightarrow> bool" where
  "avl Tip = True"
| "avl (Nd l n ht r) \<longleftrightarrow> avl l \<and> avl r \<and> close (node_height l) (node_height r)
     \<and> ht = max (node_height l) (node_height r) + 1"

lemma nodes_Nil [simp]: "nodes t = [] \<longleftrightarrow> t = Tip"
  by (cases t) auto

lemma avl_height_0 [simp]: "avl t \<Longrightarrow> node_height t = 0 \<longleftrightarrow> t = Tip"
  by (cases t) auto

lemma avl_size: "avl t \<Longrightarrow> 2 ^ (node_height t div 2) \<le> length (nodes t) + 1"
proof (induction t)
  case (Nd l n ht r)
  let ?a = "node_height l" and ?b = "node_height r"
  have ih: "2 ^ (?a div 2) \<le> length (nodes l) + 1" "2 ^ (?b div 2) \<le> length (nodes r) + 1"
    and ht: "ht = max ?a ?b + 1" "close ?a ?b"
    using Nd by auto
  show ?case
  proof (cases "ht < 2")
    case True
    then have "ht div 2 = 0" by simp
    then show ?thesis by simp
  next
    case False
    then obtain k where k: "ht = Suc (Suc k)" by (metis Suc_diff_Suc add_2_eq_Suc less_2_cases_iff not_less_eq numeral_2_eq_2 old.nat.exhaust)
    then have "k div 2 \<le> ?a div 2" "k div 2 \<le> ?b div 2" using ht by (auto simp: close_def max_def split: if_splits)
    then have "(2::nat) ^ (k div 2) \<le> 2 ^ (?a div 2)" "(2::nat) ^ (k div 2) \<le> 2 ^ (?b div 2)"
      by (auto intro: power_increasing)
    moreover have "(2::nat) ^ (ht div 2) = 2 * 2 ^ (k div 2)" using k by simp
    moreover have "length (nodes (Nd l n ht r)) = length (nodes l) + length (nodes r) + 1" by simp
    ultimately show ?thesis using ih unfolding node_height.simps by linarith
  qed
qed simp

text \<open>No tree of the map is high enough to fill one of the fixed arrays.\<close>

lemma avl_height_bound:
  assumes "avl t" "length (nodes t) \<le> ccol_max_elem_count"
  shows "node_height t < CBMAP_MAX_TREE_HEIGHT"
proof -
  have "(2::nat) ^ (node_height t div 2) < 2 ^ 64"
    using avl_size [OF assms(1)] assms(2) by (simp add: size_defs)
  then have "node_height t div 2 < 64" by (rule power_less_imp_less_exp [rotated]) simp
  then show ?thesis by (simp add: size_defs)
qed

section \<open>Rebalancing one node\<close>

lemma recalculated_avl:
  assumes "avl l" "avl r" "close (node_height l) (node_height r)" "node_height l < 255" "node_height r < 255"
  shows "avl (recalculated l n r)" "node_height (recalculated l n r) = max (node_height l) (node_height r) + 1"
  using assms by (auto simp: recalculated_def max_def)

lemma nodes_recalculated [simp]: "nodes (recalculated l n r) = nodes l @ n # nodes r"
  by (simp add: recalculated_def)

lemma root_addr_recalculated [simp]: "root_addr (recalculated l n r) = Some (bn_addr n)"
  by (simp add: recalculated_def)

lemma balance_recalculated [simp]:
  "node_balance (recalculated l n r) = int (node_height r) - int (node_height l)"
  by (simp add: recalculated_def)

lemma rotate_left_avl:
  assumes "avl l" "avl r" "node_height r = node_height l + 2" "node_height r < 250"
  shows "\<exists>t. rotate_left l p r = Some t \<and> avl t \<and> nodes t = nodes l @ p # nodes r
     \<and> node_height t \<in> {node_height r, node_height r + 1} \<and> (node_balance r \<noteq> 0 \<longrightarrow> node_height t = node_height r)"
proof -
  obtain rl rn rh rr where r: "r = Nd rl rn rh rr" using assms(3) by (cases r) auto
  show ?thesis
  proof (cases "node_balance r \<ge> 0")
    case True
    then have c: "node_height rl \<le> node_height rr" using r by simp
    note a = recalculated_avl [of l rl p]
    have "avl (recalculated l p rl)" "node_height (recalculated l p rl) = max (node_height l) (node_height rl) + 1"
      using a assms r c by (auto simp: close_def max_def split: if_splits)
    then have "avl (recalculated (recalculated l p rl) rn rr)"
        "node_height (recalculated (recalculated l p rl) rn rr) = max (max (node_height l) (node_height rl) + 1) (node_height rr) + 1"
      using assms r c recalculated_avl [of "recalculated l p rl" rr rn] by (auto simp: close_def max_def)
    then show ?thesis using r c assms True by (auto simp: close_def max_def)
  next
    case False
    then have c: "node_height rr < node_height rl" using r by simp
    obtain b1 c1 ch b2 where rl: "rl = Nd b1 c1 ch b2" using c by (cases rl) auto
    have h: "node_height rl = node_height l + 1" "node_height rr = node_height l"
      using assms r c by (auto simp: close_def max_def split: if_splits)
    then have hb: "max (node_height b1) (node_height b2) = node_height l" "close (node_height b1) (node_height b2)"
        "avl b1" "avl b2" "avl rr"
      using assms(2) r rl by auto
    have hr: "node_height l < 248" using assms by simp
    have x: "avl (recalculated l p b1)" "node_height (recalculated l p b1) = node_height l + 1"
        "avl (recalculated b2 rn rr)" "node_height (recalculated b2 rn rr) = node_height l + 1"
      using recalculated_avl [of l b1 p] recalculated_avl [of b2 rr rn] assms(1) hb h hr
      by (auto simp: close_def max_def split: if_splits)
    then have "avl (recalculated (recalculated l p b1) c1 (recalculated b2 rn rr))"
        "node_height (recalculated (recalculated l p b1) c1 (recalculated b2 rn rr)) = node_height l + 2"
      using recalculated_avl [of "recalculated l p b1" "recalculated b2 rn rr" c1] hr by (auto simp: close_def)
    then show ?thesis using r rl False assms(3) by auto
  qed
qed

lemma rotate_right_avl:
  assumes "avl l" "avl r" "node_height l = node_height r + 2" "node_height l < 250"
  shows "\<exists>t. rotate_right l p r = Some t \<and> avl t \<and> nodes t = nodes l @ p # nodes r
     \<and> node_height t \<in> {node_height l, node_height l + 1} \<and> (node_balance l \<noteq> 0 \<longrightarrow> node_height t = node_height l)"
proof -
  obtain ll ln lh lr where l: "l = Nd ll ln lh lr" using assms(3) by (cases l) auto
  show ?thesis
  proof (cases "node_balance l \<le> 0")
    case True
    then have c: "node_height lr \<le> node_height ll" using l by simp
    note a = recalculated_avl [of lr r p]
    have "avl (recalculated lr p r)" "node_height (recalculated lr p r) = max (node_height lr) (node_height r) + 1"
      using a assms l c by (auto simp: close_def max_def split: if_splits)
    then have "avl (recalculated ll ln (recalculated lr p r))"
        "node_height (recalculated ll ln (recalculated lr p r)) = max (node_height ll) (max (node_height lr) (node_height r) + 1) + 1"
      using assms l c recalculated_avl [of ll "recalculated lr p r" ln] by (auto simp: close_def max_def)
    then show ?thesis using l c assms True by (auto simp: close_def max_def)
  next
    case False
    then have c: "node_height ll < node_height lr" using l by simp
    obtain b1 c1 ch b2 where lr: "lr = Nd b1 c1 ch b2" using c by (cases lr) auto
    have h: "node_height lr = node_height r + 1" "node_height ll = node_height r"
      using assms l c by (auto simp: close_def max_def split: if_splits)
    then have hb: "max (node_height b1) (node_height b2) = node_height r" "close (node_height b1) (node_height b2)"
        "avl b1" "avl b2" "avl ll"
      using assms(1) l lr by auto
    have hr: "node_height r < 248" using assms by simp
    have x: "avl (recalculated ll ln b1)" "node_height (recalculated ll ln b1) = node_height r + 1"
        "avl (recalculated b2 p r)" "node_height (recalculated b2 p r) = node_height r + 1"
      using recalculated_avl [of ll b1 ln] recalculated_avl [of b2 r p] assms(2) hb h hr
      by (auto simp: close_def max_def split: if_splits)
    then have "avl (recalculated (recalculated ll ln b1) c1 (recalculated b2 p r))"
        "node_height (recalculated (recalculated ll ln b1) c1 (recalculated b2 p r)) = node_height r + 2"
      using recalculated_avl [of "recalculated ll ln b1" "recalculated b2 p r" c1] hr by (auto simp: close_def)
    then show ?thesis using l lr False assms(3) by auto
  qed
qed

text \<open>One node whose subtrees are AVL trees and differ by at most two in height.\<close>

lemma check_balance_avl:
  assumes "avl l" "avl r" "node_height l \<le> node_height r + 2" "node_height r \<le> node_height l + 2"
    "node_height l < 250" "node_height r < 250"
  obtains t where "check_node_balance (Nd l p ht r) = Some t" "avl t" "nodes t = nodes l @ p # nodes r"
    "close (node_height l) (node_height r) \<Longrightarrow> t = Nd l p (max (node_height l) (node_height r) + 1) r"
    "\<not> close (node_height l) (node_height r) \<Longrightarrow>
       node_height t \<in> {max (node_height l) (node_height r), max (node_height l) (node_height r) + 1}"
    "node_height l + 2 = node_height r \<Longrightarrow> node_balance r \<noteq> 0 \<Longrightarrow> node_height t = node_height r"
    "node_height r + 2 = node_height l \<Longrightarrow> node_balance l \<noteq> 0 \<Longrightarrow> node_height t = node_height l"
proof -
  have fin: "(let b = node_balance t in if b > 1 \<or> b < - 1 then None else Some t) = Some t" if "avl t" for t
    using that by (cases t) (auto simp: close_def)
  have rc: "recalculate_node_height (Nd l p ht r) = Nd l p (max (node_height l) (node_height r) + 1) r"
    using assms(5,6) by (simp add: recalculated_def max_def)
  consider "close (node_height l) (node_height r)" | "node_height r = node_height l + 2" | "node_height l = node_height r + 2"
    using assms(3,4) unfolding close_def by linarith
  then show ?thesis
  proof cases
    case 1
    let ?t = "Nd l p (max (node_height l) (node_height r) + 1) r"
    have "avl ?t" using assms 1 by simp
    moreover have "\<not> node_balance ?t > 1" "\<not> node_balance ?t < - 1" using 1 by (auto simp: close_def)
    ultimately have "check_node_balance (Nd l p ht r) = Some ?t"
      unfolding check_node_balance_def rc using fin [of ?t] by (simp del: node_balance.simps)
    then show ?thesis using that [of ?t] 1 \<open>avl ?t\<close> by (simp add: close_def)
  next
    case 2
    obtain t where t: "rotate_left l p r = Some t" "avl t" "nodes t = nodes l @ p # nodes r"
        "node_height t \<in> {node_height r, node_height r + 1}" "node_balance r \<noteq> 0 \<longrightarrow> node_height t = node_height r"
      using rotate_left_avl [OF assms(1,2) 2 assms(6), of p] by auto
    have "check_node_balance (Nd l p ht r) = Some t"
      unfolding check_node_balance_def rc using 2 t(1) fin [OF t(2)] by simp
    moreover have "\<not> close (node_height l) (node_height r)" using 2 by (simp add: close_def)
    ultimately show ?thesis using that [of t] t 2 by (simp add: max_def)
  next
    case 3
    obtain t where t: "rotate_right l p r = Some t" "avl t" "nodes t = nodes l @ p # nodes r"
        "node_height t \<in> {node_height l, node_height l + 1}" "node_balance l \<noteq> 0 \<longrightarrow> node_height t = node_height l"
      using rotate_right_avl [OF assms(1,2) 3 assms(5), of p] by auto
    have "check_node_balance (Nd l p ht r) = Some t"
      unfolding check_node_balance_def rc using 3 t(1) fin [OF t(2)] by simp
    moreover have "\<not> close (node_height l) (node_height r)" using 3 by (simp add: close_def)
    ultimately show ?thesis using that [of t] t 3 by (simp add: max_def)
  qed
qed

section \<open>Paths\<close>

fun ctx_left :: "frame list \<Rightarrow> bmap_node list" where
  "ctx_left [] = []"
| "ctx_left (WentLeft n ht r # fs) = ctx_left fs"
| "ctx_left (WentRight l n ht # fs) = ctx_left fs @ nodes l @ [n]"

fun ctx_right :: "frame list \<Rightarrow> bmap_node list" where
  "ctx_right [] = []"
| "ctx_right (WentLeft n ht r # fs) = n # nodes r @ ctx_right fs"
| "ctx_right (WentRight l n ht # fs) = ctx_right fs"

lemma nodes_plug_all: "nodes (plug_all fs t) = ctx_left fs @ nodes t @ ctx_right fs"
proof (induction fs arbitrary: t)
  case (Cons f fs)
  then show ?case by (cases f) simp_all
qed simp

text \<open>A path around a hole that a subtree of height \<open>k\<close> fills.\<close>

fun ctx_ok :: "frame list \<Rightarrow> nat \<Rightarrow> bool" where
  "ctx_ok [] k = True"
| "ctx_ok (WentLeft n ht r # fs) k \<longleftrightarrow> avl r \<and> close k (node_height r) \<and> ht = max k (node_height r) + 1 \<and> ctx_ok fs ht"
| "ctx_ok (WentRight l n ht # fs) k \<longleftrightarrow> avl l \<and> close (node_height l) k \<and> ht = max (node_height l) k + 1 \<and> ctx_ok fs ht"

lemma avl_plug_all: "avl (plug_all fs t) \<longleftrightarrow> avl t \<and> ctx_ok fs (node_height t)"
proof (induction fs arbitrary: t)
  case (Cons f fs)
  then show ?case by (cases f) auto
qed simp

fun frame_height :: "frame \<Rightarrow> nat" where
  "frame_height (WentLeft n ht r) = ht"
| "frame_height (WentRight l n ht) = ht"

fun ctx_height :: "frame list \<Rightarrow> nat \<Rightarrow> nat" where
  "ctx_height [] k = k"
| "ctx_height (f # fs) k = ctx_height fs (frame_height f)"

lemma plug_all_height: "node_height (plug_all fs t) = ctx_height fs (node_height t)"
proof (induction fs arbitrary: t)
  case (Cons f fs)
  then show ?case by (cases f) auto
qed simp

lemma ctx_ok_step: "ctx_ok (f # fs) k \<Longrightarrow> k < frame_height f \<and> ctx_ok fs (frame_height f)"
  by (cases f) auto

lemma ctx_height_ge: "ctx_ok fs k \<Longrightarrow> k + length fs \<le> ctx_height fs k"
proof (induction fs arbitrary: k)
  case (Cons f fs)
  have u: "k < frame_height f" "ctx_ok fs (frame_height f)" using ctx_ok_step [OF Cons.prems] by auto
  then show ?case using Cons.IH [OF u(2)] by simp
qed simp

lemma other_height: "ctx_ok (WentLeft n ht r # fs) k \<Longrightarrow> node_height r < ht"
    "ctx_ok (WentRight l n ht # fs) k \<Longrightarrow> node_height l < ht"
  by auto

section \<open>The way up\<close>

lemma rebalance_insert_avl:
  assumes "ctx_ok fs k" "avl t" "node_height t = k \<or> node_height t = k + 1 \<and> (k = 0 \<or> node_balance t \<noteq> 0)"
    "ctx_height fs k < 200"
  shows "\<exists>u. rebalance_after_insert fs t = Some u \<and> avl u \<and> nodes u = nodes (plug_all fs t)"
  using assms
proof (induction fs arbitrary: k t)
  case (Cons f fs)
  note up = ctx_ok_step [OF Cons.prems(1)]
  have fh: "frame_height f < 200" using ctx_height_ge [of fs "frame_height f"] up Cons.prems(4) by simp
  obtain l p r where lpr: "plug f t = Nd l p (frame_height f) r" by (cases f) auto
  have s: "avl l" "avl r" "node_height l \<le> node_height r + 2" "node_height r \<le> node_height l + 2"
      "node_height l < 250" "node_height r < 250"
    using Cons.prems(1-3) lpr fh by (cases f; auto simp: close_def)+
  obtain b where b0: "check_node_balance (Nd l p (frame_height f) r) = Some b" "avl b" "nodes b = nodes l @ p # nodes r"
    and b4: "close (node_height l) (node_height r) \<Longrightarrow> b = Nd l p (max (node_height l) (node_height r) + 1) r"
    and b5: "\<not> close (node_height l) (node_height r) \<Longrightarrow>
       node_height b \<in> {max (node_height l) (node_height r), max (node_height l) (node_height r) + 1}"
    and bl: "node_height l + 2 = node_height r \<Longrightarrow> node_balance r \<noteq> 0 \<Longrightarrow> node_height b = node_height r"
    and br: "node_height r + 2 = node_height l \<Longrightarrow> node_balance l \<noteq> 0 \<Longrightarrow> node_height b = node_height l"
    by (rule check_balance_avl [OF s, of p "frame_height f"], rule that)
  have b: "check_node_balance (plug f t) = Some b" "avl b" "nodes b = nodes (plug f t)" using b0 lpr by auto
  have pn: "nodes (plug_all fs b) = nodes (plug_all (f # fs) t)" using b(3) by (simp add: nodes_plug_all)
  have stop: ?case if "root_addr b \<noteq> root_addr (plug f t) \<or> node_height b = frame_height f" "node_height b = frame_height f"
    using that b up pn lpr by (auto simp: avl_plug_all)
  show ?case
  proof (cases "close (node_height l) (node_height r)")
    case True
    then have bb: "b = Nd l p (max (node_height l) (node_height r) + 1) r" by (rule b4)
    show ?thesis
    proof (cases "node_height b = frame_height f")
      case False
      then have g: "node_height b = frame_height f + 1" "node_balance b \<noteq> 0"
        using bb Cons.prems(1,3) lpr by (cases f; auto simp: max_def close_def split: if_splits)+
      obtain u where "rebalance_after_insert fs b = Some u" "avl u" "nodes u = nodes (plug_all fs b)"
        using Cons.IH [of "frame_height f" b] up b(2) g Cons.prems(4) by auto
      then show ?thesis using b(1) False bb lpr pn by simp
    qed (rule stop; simp)
  next
    case False
    then have k: "k \<noteq> 0" "node_height t = k + 1" "node_balance t \<noteq> 0" "frame_height f = k + 1"
      using Cons.prems(1,3) lpr by (cases f; auto simp: max_def close_def split: if_splits)+
    have "node_height l + 2 = node_height r \<and> r = t \<or> node_height r + 2 = node_height l \<and> l = t"
      using False Cons.prems(1) k lpr by (cases f) (auto simp: close_def max_def)
    then have "node_height b = frame_height f" using bl br k by auto
    then show ?thesis by (intro stop) simp_all
  qed
qed simp

text \<open>One step up from a subtree that lost at most one level.\<close>

lemma shrink_step:
  assumes "ctx_ok (f # fs) k" "avl t" "node_height t = k \<or> node_height t + 1 = k" "frame_height f < 200"
  shows "\<exists>b. check_node_balance (plug f t) = Some b \<and> avl b \<and> nodes b = nodes (plug f t)
     \<and> (node_height b = frame_height f \<or> node_height b + 1 = frame_height f)"
proof -
  obtain l p r where lpr: "plug f t = Nd l p (frame_height f) r" by (cases f) auto
  have s: "avl l" "avl r" "node_height l \<le> node_height r + 2" "node_height r \<le> node_height l + 2"
      "node_height l < 250" "node_height r < 250"
    using assms lpr by (cases f; auto simp: close_def)+
  obtain b where b0: "check_node_balance (Nd l p (frame_height f) r) = Some b" "avl b" "nodes b = nodes l @ p # nodes r"
    and b4: "close (node_height l) (node_height r) \<Longrightarrow> b = Nd l p (max (node_height l) (node_height r) + 1) r"
    and b5: "\<not> close (node_height l) (node_height r) \<Longrightarrow>
       node_height b \<in> {max (node_height l) (node_height r), max (node_height l) (node_height r) + 1}"
    and bl: "node_height l + 2 = node_height r \<Longrightarrow> node_balance r \<noteq> 0 \<Longrightarrow> node_height b = node_height r"
    and br: "node_height r + 2 = node_height l \<Longrightarrow> node_balance l \<noteq> 0 \<Longrightarrow> node_height b = node_height l"
    by (rule check_balance_avl [OF s, of p "frame_height f"], rule that)
  have b: "check_node_balance (plug f t) = Some b" "avl b" "nodes b = nodes (plug f t)" using b0 lpr by auto
  have "node_height b \<in> {max (node_height l) (node_height r), max (node_height l) (node_height r) + 1}
      \<and> (close (node_height l) (node_height r) \<longrightarrow> node_height b = max (node_height l) (node_height r) + 1)"
    using b4 b5 by (cases "close (node_height l) (node_height r)") auto
  then have "node_height b = frame_height f \<or> node_height b + 1 = frame_height f"
    using assms(1,3) lpr by (cases f; auto simp: max_def close_def split: if_splits)
  then show ?thesis using b by blast
qed

lemma rebalance_delete_avl:
  assumes "ctx_ok fs k" "avl t" "node_height t = k \<or> node_height t + 1 = k" "ctx_height fs k < 200"
  shows "\<exists>u. rebalance_after_delete fs t = Some u \<and> avl u \<and> nodes u = nodes (plug_all fs t)"
  using assms
proof (induction fs arbitrary: k t)
  case (Cons f fs)
  note up = ctx_ok_step [OF Cons.prems(1)]
  have "frame_height f < 200" using ctx_height_ge [of fs "frame_height f"] up Cons.prems(4) by simp
  then obtain b where b: "check_node_balance (plug f t) = Some b" "avl b" "nodes b = nodes (plug f t)"
      "node_height b = frame_height f \<or> node_height b + 1 = frame_height f"
    using shrink_step Cons.prems by blast
  have pn: "nodes (plug_all fs b) = nodes (plug_all (f # fs) t)" using b(3) by (simp add: nodes_plug_all)
  have ph: "node_height (plug f t) = frame_height f" by (cases f) auto
  show ?case
  proof (cases "node_height b = frame_height f")
    case True
    then show ?thesis using b up pn ph by (auto simp: avl_plug_all)
  next
    case False
    then show ?thesis using Cons.IH [of "frame_height f" b] b up pn ph Cons.prems(4) by auto
  qed
qed simp

lemma rebalance_all_avl:
  assumes "ctx_ok fs k" "avl t" "node_height t = k \<or> node_height t + 1 = k" "ctx_height fs k < 200"
  shows "\<exists>u. rebalance_all fs t = Some u \<and> avl u \<and> nodes u = nodes (plug_all fs t)
     \<and> (node_height u = ctx_height fs k \<or> node_height u + 1 = ctx_height fs k)"
  using assms
proof (induction fs arbitrary: k t)
  case (Cons f fs)
  note up = ctx_ok_step [OF Cons.prems(1)]
  have "frame_height f < 200" using ctx_height_ge [of fs "frame_height f"] up Cons.prems(4) by simp
  then obtain b where b: "check_node_balance (plug f t) = Some b" "avl b" "nodes b = nodes (plug f t)"
      "node_height b = frame_height f \<or> node_height b + 1 = frame_height f"
    using shrink_step Cons.prems by blast
  have pn: "nodes (plug_all fs b) = nodes (plug_all (f # fs) t)" using b(3) by (simp add: nodes_plug_all)
  show ?case using Cons.IH [of "frame_height f" b] b up pn Cons.prems(4) by auto
qed simp

section \<open>Removal\<close>

lemma extreme_path_min:
  assumes "avl t" "t \<noteq> Tip" "length path + node_height t \<le> CBMAP_MAX_TREE_HEIGHT"
  shows "\<exists>path' n ht rep. extreme_path False path t = Some (path', n, rep)
     \<and> plug_all path' (Nd Tip n ht rep) = plug_all path t \<and> ctx_left path' = ctx_left path"
  using assms
proof (induction t arbitrary: path)
  case (Nd l n ht r)
  show ?case
  proof (cases "l = Tip")
    case False
    have le: "length (WentLeft n ht r # path) + node_height l \<le> CBMAP_MAX_TREE_HEIGHT"
      using Nd.prems by simp
    then have "length path < CBMAP_MAX_TREE_HEIGHT" by simp
    then show ?thesis using Nd.IH(1) [OF _ False le] Nd.prems False by simp
  qed auto
qed simp

lemma extreme_path_max:
  assumes "avl t" "t \<noteq> Tip" "length path + node_height t \<le> CBMAP_MAX_TREE_HEIGHT"
  shows "\<exists>path' n ht rep. extreme_path True path t = Some (path', n, rep)
     \<and> plug_all path' (Nd rep n ht Tip) = plug_all path t \<and> ctx_right path' = ctx_right path"
  using assms
proof (induction t arbitrary: path)
  case (Nd l n ht r)
  show ?case
  proof (cases "r = Tip")
    case False
    have le: "length (WentRight l n ht # path) + node_height r \<le> CBMAP_MAX_TREE_HEIGHT"
      using Nd.prems by simp
    then have "length path < CBMAP_MAX_TREE_HEIGHT" by simp
    then show ?thesis using Nd.IH(2) [OF _ False le] Nd.prems False by simp
  qed auto
qed simp

lemma detach_path:
  assumes "avl (plug_all path s)" "avl rep" "node_height s = node_height rep + 1" "node_height (plug_all path s) < 200"
  shows "\<exists>u. (if path = [] then Some (rep, n) else do { u \<leftarrow> rebalance_all path rep; Some (u, n) }) = Some (u, n)
     \<and> avl u \<and> nodes u = nodes (plug_all path rep)
     \<and> (node_height u = node_height (plug_all path s) \<or> node_height u + 1 = node_height (plug_all path s))"
proof (cases "path = []")
  case True
  then show ?thesis using assms by simp
next
  case False
  have "ctx_ok path (node_height s)" using assms(1) by (simp add: avl_plug_all)
  then show ?thesis
    using rebalance_all_avl [of path "node_height s" rep] assms False by (auto simp: plug_all_height)
qed

lemma detach_min:
  assumes "avl t" "t \<noteq> Tip" "node_height t < CBMAP_MAX_TREE_HEIGHT"
  shows "\<exists>u n. cbmap_detach_extreme_iter t False = Some (u, n) \<and> avl u \<and> nodes t = n # nodes u
     \<and> (node_height u = node_height t \<or> node_height u + 1 = node_height t)"
proof -
  obtain path n ht rep where p: "extreme_path False [] t = Some (path, n, rep)"
      "plug_all path (Nd Tip n ht rep) = t" "ctx_left path = []"
    using extreme_path_min [OF assms(1,2), of "[]"] assms(3) by auto
  have a: "avl rep" "node_height (Nd Tip n ht rep) = node_height rep + 1"
    using assms(1) avl_plug_all [of path "Nd Tip n ht rep"] p(2) by auto
  have "node_height (plug_all path (Nd Tip n ht rep)) < 200" using assms(3) p(2) by (simp add: size_defs)
  then obtain u where u: "(if path = [] then Some (rep, n) else do { u \<leftarrow> rebalance_all path rep; Some (u, n) }) = Some (u, n)"
      "avl u" "nodes u = nodes (plug_all path rep)" "node_height u = node_height t \<or> node_height u + 1 = node_height t"
    using detach_path [of path "Nd Tip n ht rep" rep n] a assms(1) p(2) by auto
  have "cbmap_detach_extreme_iter t False = Some (u, n)" using p(1) u(1) by (simp add: cbmap_detach_extreme_iter_def)
  moreover have "nodes t = n # nodes u"
    using u(3) p(3) nodes_plug_all [of path "Nd Tip n ht rep"] p(2) by (simp add: nodes_plug_all)
  ultimately show ?thesis using u by blast
qed

lemma detach_max:
  assumes "avl t" "t \<noteq> Tip" "node_height t < CBMAP_MAX_TREE_HEIGHT"
  shows "\<exists>u n. cbmap_detach_extreme_iter t True = Some (u, n) \<and> avl u \<and> nodes t = nodes u @ [n]
     \<and> (node_height u = node_height t \<or> node_height u + 1 = node_height t)"
proof -
  obtain path n ht rep where p: "extreme_path True [] t = Some (path, n, rep)"
      "plug_all path (Nd rep n ht Tip) = t" "ctx_right path = []"
    using extreme_path_max [OF assms(1,2), of "[]"] assms(3) by auto
  have a: "avl rep" "node_height (Nd rep n ht Tip) = node_height rep + 1"
    using assms(1) avl_plug_all [of path "Nd rep n ht Tip"] p(2) by auto
  have "node_height (plug_all path (Nd rep n ht Tip)) < 200" using assms(3) p(2) by (simp add: size_defs)
  then obtain u where u: "(if path = [] then Some (rep, n) else do { u \<leftarrow> rebalance_all path rep; Some (u, n) }) = Some (u, n)"
      "avl u" "nodes u = nodes (plug_all path rep)" "node_height u = node_height t \<or> node_height u + 1 = node_height t"
    using detach_path [of path "Nd rep n ht Tip" rep n] a assms(1) p(2) by auto
  have "cbmap_detach_extreme_iter t True = Some (u, n)" using p(1) u(1) by (simp add: cbmap_detach_extreme_iter_def)
  moreover have "nodes t = nodes u @ [n]"
    using u(3) p(3) nodes_plug_all [of path "Nd rep n ht Tip"] p(2) by (simp add: nodes_plug_all)
  ultimately show ?thesis using u by blast
qed

lemma removal_avl:
  assumes "avl (Nd l n ht r)" "ht < CBMAP_MAX_TREE_HEIGHT"
  shows "\<exists>u. perform_element_removal l n r h = Some (u, destroy_bmap_node n h) \<and> avl u \<and> nodes u = nodes l @ nodes r
     \<and> (node_height u = ht \<or> node_height u + 1 = ht)"
proof -
  note d = perform_element_removal_def Let_def
  have a: "avl l" "avl r" "close (node_height l) (node_height r)" "ht = max (node_height l) (node_height r) + 1"
    using assms(1) by auto
  have hb: "node_height l < CBMAP_MAX_TREE_HEIGHT" "node_height r < CBMAP_MAX_TREE_HEIGHT"
    using a(4) assms(2) by linarith+
  consider "l = Tip" | "l \<noteq> Tip" "r = Tip" | "l \<noteq> Tip" "r \<noteq> Tip" "node_height l \<le> node_height r"
    | "l \<noteq> Tip" "r \<noteq> Tip" "node_height r < node_height l" by linarith
  then show ?thesis
  proof cases
    case 1
    then show ?thesis using a by (simp add: d)
  next
    case 2
    then show ?thesis using a by (simp add: d)
  next
    case 3
    obtain u m where u: "cbmap_detach_extreme_iter r False = Some (u, m)" "avl u" "nodes r = m # nodes u"
        "node_height u = node_height r \<or> node_height u + 1 = node_height r"
      using detach_min [OF a(2) 3(2) hb(2)] by blast
    have "close (node_height l) (node_height u)" "node_height l < 255" "node_height u < 255"
      using a(3,4) u(4) 3(3) assms(2) by (auto simp: close_def size_defs)
    from recalculated_avl [OF a(1) u(2) this, of m] show ?thesis
      using u 3 a(3,4) by (auto simp: d close_def max_def)
  next
    case 4
    obtain u m where u: "cbmap_detach_extreme_iter l True = Some (u, m)" "avl u" "nodes l = nodes u @ [m]"
        "node_height u = node_height l \<or> node_height u + 1 = node_height l"
      using detach_max [OF a(1) 4(1) hb(1)] by blast
    have "close (node_height u) (node_height r)" "node_height u < 255" "node_height r < 255"
      using a(3,4) u(4) 4(3) assms(2) by (auto simp: close_def size_defs)
    from recalculated_avl [OF u(2) a(2) this, of m] show ?thesis
      using u 4 a(3,4) by (auto simp: d close_def max_def)
  qed
qed

end
