(* ===== verification/CCol_Bstmap_Map.thy ===== *)
theory CCol_Bstmap_Map
  imports CCol_Bstmap_Avl
begin

text \<open>
  The tree map as an ordered association list: its invariant, what the descents
  find, what each operation does to the entries and to the blocks of the
  allocator, the walk that clears a map and the iterator.
\<close>

section \<open>Entries in key order\<close>

fun upd_entries :: "('k \<Rightarrow> 'k \<Rightarrow> int) \<Rightarrow> 'k \<Rightarrow> 'v \<Rightarrow> ('k \<times> 'v) list \<Rightarrow> ('k \<times> 'v) list" where
  "upd_entries f k v [] = [(k, v)]"
| "upd_entries f k v ((k', v') # xs) =
     (if f k k' < 0 then (k, v) # (k', v') # xs
      else if f k k' = 0 then (k', v) # xs else (k', v') # upd_entries f k v xs)"

definition del_entries :: "('k \<Rightarrow> 'k \<Rightarrow> int) \<Rightarrow> 'k \<Rightarrow> ('k \<times> 'v) list \<Rightarrow> ('k \<times> 'v) list" where
  "del_entries f k xs = filter (\<lambda>(k', v). f k k' \<noteq> 0) xs"

definition lookup_entries :: "('k \<Rightarrow> 'k \<Rightarrow> int) \<Rightarrow> 'k \<Rightarrow> ('k \<times> 'v) list \<Rightarrow> 'v option" where
  "lookup_entries f k xs = map_option snd (find (\<lambda>(k', v). f k k' = 0) xs)"

definition entry :: "bmap_node \<Rightarrow> byte list \<times> byte list" where
  "entry n = (bn_key n, bn_val n)"

definition entries :: "cbstmap \<Rightarrow> (byte list \<times> byte list) list" where
  "entries m = map entry (nodes (bm_root m))"

definition map_order :: "cbstmap \<Rightarrow> key_cmp" where
  "map_order m = key_order (bm_key_type m) (bm_custom m)"

definition valid_key :: "cbstmap \<Rightarrow> byte list \<Rightarrow> bool" where
  "valid_key m = key_size_is_valid_for_type (bm_key_type m)"

lemma upd_entries_split:
  assumes "\<forall>x \<in> set xs. f k (fst x) > 0"
  shows "upd_entries f k v (xs @ ys) = xs @ upd_entries f k v ys"
  using assms by (induction xs) auto

lemma upd_entries_front: "\<forall>x \<in> set ys. f k (fst x) < 0 \<Longrightarrow> upd_entries f k v ys = (k, v) # ys"
  by (cases ys) auto

lemma find_append:
  "find P (xs @ ys) = (case find P xs of None \<Rightarrow> find P ys | Some x \<Rightarrow> Some x)"
  by (induction xs) auto

lemma find_none: "\<forall>x \<in> set xs. \<not> P x \<Longrightarrow> find P xs = None"
  by (simp add: find_None_iff)

section \<open>The invariant\<close>

definition node_blks :: "bmap_node \<Rightarrow> nat list" where
  "node_blks n = bn_addr n # (case bn_val_external n of None \<Rightarrow> [] | Some b \<Rightarrow> [b])"

definition blks :: "bmap_node list \<Rightarrow> nat list" where
  "blks ns = concat (map node_blks ns)"

definition own_blks :: "cbstmap \<Rightarrow> nat list" where
  "own_blks m = bm_blk m # (case bm_procs_blk m of None \<Rightarrow> [] | Some b \<Rightarrow> [b])"

definition bst_owned :: "cbstmap \<Rightarrow> nat set" where
  "bst_owned m = set (own_blks m @ blks (nodes (bm_root m)))"

definition sorted_nodes :: "key_cmp \<Rightarrow> bmap_node list \<Rightarrow> bool" where
  "sorted_nodes f ns = sorted_wrt (\<lambda>a b. f (bn_key a) (bn_key b) < 0) ns"

definition bst_inv :: "cbstmap \<Rightarrow> bool" where
  "bst_inv m \<longleftrightarrow>
     avl (bm_root m) \<and> length (nodes (bm_root m)) = bm_elem_count m \<and> bm_elem_count m \<le> ccol_max_elem_count
     \<and> (\<forall>n \<in> set (nodes (bm_root m)). valid_key m (bn_key n)) \<and> sorted_nodes (map_order m) (nodes (bm_root m))
     \<and> distinct (own_blks m @ blks (nodes (bm_root m)))
     \<and> bm_cmp_kind m = cbmap_cmp_kind (bm_key_type m) (bm_custom m)
     \<and> bm_key_offset m = CBMAP_ALIGN_UP_TO sizeof_bmap_node (cbmap_key_alignment (bm_key_type m))"

definition order_ok :: "cbstmap \<Rightarrow> bool" where
  "order_ok m \<longleftrightarrow> total_cmp (map_order m) (valid_key m)"

lemma order_ok_builtin: "bm_custom m = None \<Longrightarrow> order_ok m"
  using key_order_builtin by (simp add: order_ok_def map_order_def valid_key_def)

definition bst_frame :: "cbstmap \<Rightarrow> cbstmap \<Rightarrow> bool" where
  "bst_frame m m' \<longleftrightarrow> (\<exists>r c. m' = m\<lparr>bm_root := r, bm_elem_count := c\<rparr>)"

lemma bst_frame_refl [simp]: "bst_frame m m"
  unfolding bst_frame_def by (rule exI [of _ "bm_root m"], rule exI [of _ "bm_elem_count m"]) simp

lemma bst_frame_order:
  assumes "bst_frame m m'"
  shows "map_order m' = map_order m" "valid_key m' = valid_key m" "order_ok m' = order_ok m" "own_blks m' = own_blks m"
    "bm_key_type m' = bm_key_type m" "bm_custom m' = bm_custom m"
  using assms by (auto simp: bst_frame_def map_order_def valid_key_def order_ok_def own_blks_def)

lemma blks_append [simp]: "blks (xs @ ys) = blks xs @ blks ys"
  by (simp add: blks_def)

lemma blks_Cons [simp]: "blks (n # ns) = node_blks n @ blks ns"
  by (simp add: blks_def)

lemma blks_Nil [simp]: "blks [] = []"
  by (simp add: blks_def)

lemma bst_height:
  "bst_inv m \<Longrightarrow> node_height (bm_root m) < CBMAP_MAX_TREE_HEIGHT"
  using avl_height_bound [of "bm_root m"] by (simp add: bst_inv_def)

lemma map_compare_Some:
  "valid_key m a \<Longrightarrow> valid_key m b \<Longrightarrow> map_compare m a b = Some (map_order m a b)"
  by (simp add: map_compare_def map_order_def valid_key_def compare_keys_Some)

section \<open>Descents\<close>

text \<open>The typed descents walk as the generic ones.\<close>

lemma find_typed_generic:
  "\<forall>n \<in> set (nodes t). cmp key (bn_key n) = Some (cmp3 (rd key) (rd (bn_key n))) \<Longrightarrow>
     find_generic cmp key t = Some (find_typed rd (rd key) t)"
  by (induction t) (auto simp: cmp3_def)

lemma descend_typed_generic:
  "\<forall>n \<in> set (nodes t). cmp key (bn_key n) = Some (cmp3 (rd key) (rd (bn_key n))) \<Longrightarrow>
     descend_generic cmp key path t = descend_typed rd (rd key) path t"
  by (induction t arbitrary: path) (auto simp: cmp3_def)

lemma kind_compare:
  assumes "bst_inv m" "kind_read (bm_cmp_kind m) = Some rd" "valid_key m key"
  shows "\<forall>n \<in> set (nodes (bm_root m)). map_compare m key (bn_key n) = Some (cmp3 (rd key) (rd (bn_key n)))"
proof
  fix n assume "n \<in> set (nodes (bm_root m))"
  then have n: "key_size_is_valid_for_type (bm_key_type m) (bn_key n)" using assms(1) by (auto simp: bst_inv_def valid_key_def)
  have k: "kind_read (cbmap_cmp_kind (bm_key_type m) (bm_custom m)) = Some rd" using assms by (simp add: bst_inv_def)
  have c: "bm_custom m = None" using k by (cases "bm_custom m") (auto simp: cbmap_cmp_kind_def)
  have w: "ccol_fixed_width_data_type_size (bm_key_type m) \<noteq> 0"
    using k by (cases "bm_key_type m") (auto simp: c cbmap_cmp_kind_def)
  show "map_compare m key (bn_key n) = Some (cmp3 (rd key) (rd (bn_key n)))"
    using compare_keys_fixed [OF w] assms(3) n k unfolding c map_compare_def valid_key_def
    by (cases "bm_key_type m") (simp_all add: cbmap_cmp_kind_def)
qed

lemma find_node_eq_generic:
  assumes "bst_inv m" "valid_key m key"
  shows "cbmap_find_node m key = find_generic (map_compare m) key (bm_root m)"
proof (cases "kind_read (bm_cmp_kind m)")
  case (Some rd)
  then show ?thesis
    using find_typed_generic [of "bm_root m" "map_compare m" key rd, OF kind_compare [OF assms(1) Some assms(2)]] by (simp add: cbmap_find_node_def)
qed (simp add: cbmap_find_node_def)

lemma descend_eq_generic:
  assumes "bst_inv m" "valid_key m key"
  shows "cbmap_descend_with_path m key = descend_generic (map_compare m) key [] (bm_root m)"
proof (cases "kind_read (bm_cmp_kind m)")
  case (Some rd)
  then show ?thesis
    using descend_typed_generic [of "bm_root m" "map_compare m" key rd, OF kind_compare [OF assms(1) Some assms(2)]] by (simp add: cbmap_descend_with_path_def)
qed (simp add: cbmap_descend_with_path_def)

text \<open>In a sorted tree a descent separates the keys below the wanted one from those above.\<close>

lemma sorted_nodes_append:
  "sorted_nodes f (xs @ ys) \<longleftrightarrow> sorted_nodes f xs \<and> sorted_nodes f ys
     \<and> (\<forall>x \<in> set xs. \<forall>y \<in> set ys. f (bn_key x) (bn_key y) < 0)"
  by (simp add: sorted_nodes_def sorted_wrt_append)

lemma sorted_nodes_Cons:
  "sorted_nodes f (x # ys) \<longleftrightarrow> sorted_nodes f ys \<and> (\<forall>y \<in> set ys. f (bn_key x) (bn_key y) < 0)"
  by (auto simp: sorted_nodes_def)

lemma sides_of_node:
  assumes "total_cmp f P" "P key" "\<forall>x \<in> set (xs @ n # ys). P (bn_key x)" "sorted_nodes f (xs @ n # ys)"
  shows "f key (bn_key n) \<le> 0 \<Longrightarrow> y \<in> set ys \<Longrightarrow> f key (bn_key y) < 0"
    "f key (bn_key n) \<ge> 0 \<Longrightarrow> x \<in> set xs \<Longrightarrow> f key (bn_key x) > 0"
proof -
  assume "f key (bn_key n) \<le> 0" "y \<in> set ys"
  then show "f key (bn_key y) < 0"
    using total_cmp.cmp_le_less_trans [OF assms(1), of key "bn_key n" "bn_key y"] assms(2-4)
    by (auto simp: sorted_nodes_append sorted_nodes_Cons)
next
  assume a: "f key (bn_key n) \<ge> 0" "x \<in> set xs"
  then have "f (bn_key n) key \<le> 0"
    using total_cmp.cmp_neg_iff [OF assms(1), of key "bn_key n"] total_cmp.cmp_pos_iff [OF assms(1), of key "bn_key n"]
      total_cmp.cmp_zero_iff [OF assms(1), of key "bn_key n"] assms(2,3) by force
  then have "f (bn_key x) key < 0"
    using total_cmp.cmp_less_trans [OF assms(1), of "bn_key x" "bn_key n" key] assms(2-4) a
    by (auto simp: sorted_nodes_append sorted_nodes_Cons)
  then show "f key (bn_key x) > 0"
    using total_cmp.cmp_neg_iff [OF assms(1), of "bn_key x" key] assms(2,3) a by simp
qed

lemma find_generic_spec:
  assumes "total_cmp f P" "P key" "\<forall>x \<in> set (nodes t). P (bn_key x)" "sorted_nodes f (nodes t)"
    "\<forall>x \<in> set (nodes t). cmp key (bn_key x) = Some (f key (bn_key x))"
  shows "find_generic cmp key t = Some (find (\<lambda>n. f key (bn_key n) = 0) (nodes t))"
  using assms(3-5)
proof (induction t)
  case (Nd l n ht r)
  note s = sides_of_node [OF assms(1,2), of "nodes l" n "nodes r"]
  have p: "\<forall>x \<in> set (nodes l @ n # nodes r). P (bn_key x)" "sorted_nodes f (nodes l @ n # nodes r)" using Nd.prems by auto
  have ih: "find_generic cmp key l = Some (find (\<lambda>n. f key (bn_key n) = 0) (nodes l))"
      "find_generic cmp key r = Some (find (\<lambda>n. f key (bn_key n) = 0) (nodes r))"
    using Nd by (auto simp: sorted_nodes_append sorted_nodes_Cons)
  have c: "cmp key (bn_key n) = Some (f key (bn_key n))" using Nd.prems(3) by simp
  have L: "find (\<lambda>n. f key (bn_key n) = 0) (nodes l) = None" if "f key (bn_key n) \<ge> 0"
    using s(2) [OF p that] by (intro find_none) force
  have R: "find (\<lambda>n. f key (bn_key n) = 0) (nodes r) = None" if "f key (bn_key n) \<le> 0"
    using s(1) [OF p that] by (intro find_none) force
  show ?case using ih c L R by (cases "f key (bn_key n)" "0::int" rule: linorder_cases)
      (auto simp: find_append split: option.split)
qed simp

lemma descend_generic_spec:
  assumes "total_cmp f P" "P key" "\<forall>x \<in> set (nodes (plug_all path t)). P (bn_key x)"
    "sorted_nodes f (nodes (plug_all path t))"
    "\<forall>x \<in> set (nodes t). cmp key (bn_key x) = Some (f key (bn_key x))"
    "avl t" "length path + node_height t \<le> CBMAP_MAX_TREE_HEIGHT"
    "\<forall>x \<in> set (ctx_left path). f key (bn_key x) > 0" "\<forall>x \<in> set (ctx_right path). f key (bn_key x) < 0"
  shows "\<exists>path' s. descend_generic cmp key path t = Some (path', s) \<and> plug_all path' s = plug_all path t
     \<and> (\<forall>x \<in> set (ctx_left path'). f key (bn_key x) > 0) \<and> (\<forall>x \<in> set (ctx_right path'). f key (bn_key x) < 0)
     \<and> (\<forall>l n ht r. s = Nd l n ht r \<longrightarrow> f key (bn_key n) = 0)"
  using assms(3-9)
proof (induction t arbitrary: path)
  case (Nd l n ht r)
  note s = sides_of_node [OF assms(1,2), of "nodes l" n "nodes r"]
  have p: "\<forall>x \<in> set (nodes l @ n # nodes r). P (bn_key x)" "sorted_nodes f (nodes l @ n # nodes r)"
    using Nd.prems(1,2) by (auto simp: nodes_plug_all sorted_nodes_append sorted_nodes_Cons)
  have c: "cmp key (bn_key n) = Some (f key (bn_key n))" using Nd.prems(3) by simp
  have len: "length path < CBMAP_MAX_TREE_HEIGHT" using Nd.prems(4,5) by simp
  consider "f key (bn_key n) = 0" | "f key (bn_key n) > 0" | "f key (bn_key n) < 0" by linarith
  then show ?case
  proof cases
    case 1
    then show ?thesis using c Nd.prems by auto
  next
    case 2
    have "\<forall>x \<in> set (ctx_left (WentRight l n ht # path)). f key (bn_key x) > 0"
      using s(2) [OF p] 2 Nd.prems(6) by auto
    then show ?thesis
      using Nd.IH(2) [of "WentRight l n ht # path"] Nd.prems c len 2 by simp
  next
    case 3
    have "\<forall>x \<in> set (ctx_right (WentLeft n ht r # path)). f key (bn_key x) < 0"
      using s(1) [OF p] 3 Nd.prems(7) by auto
    then show ?thesis
      using Nd.IH(1) [of "WentLeft n ht r # path"] Nd.prems c len 3 by simp
  qed
qed simp

text \<open>What a descent of a map gives: the entries on its two sides, and the node if the key is there.\<close>

lemma descend_spec:
  assumes "bst_inv m" "order_ok m" "valid_key m key"
  obtains path s where "cbmap_descend_with_path m key = Some (path, s)" "plug_all path s = bm_root m"
    "\<forall>x \<in> set (ctx_left path). map_order m key (bn_key x) > 0"
    "\<forall>x \<in> set (ctx_right path). map_order m key (bn_key x) < 0"
    "\<And>l n ht r. s = Nd l n ht r \<Longrightarrow> map_order m key (bn_key n) = 0
        \<and> (\<forall>x \<in> set (nodes l). map_order m key (bn_key x) > 0) \<and> (\<forall>x \<in> set (nodes r). map_order m key (bn_key x) < 0)"
proof -
  have a: "total_cmp (map_order m) (valid_key m)" using assms(2) by (simp add: order_ok_def)
  have i: "avl (bm_root m)" "\<forall>n \<in> set (nodes (bm_root m)). valid_key m (bn_key n)"
      "sorted_nodes (map_order m) (nodes (bm_root m))"
    using assms(1) by (auto simp: bst_inv_def)
  have c: "\<forall>x \<in> set (nodes (bm_root m)). map_compare m key (bn_key x) = Some (map_order m key (bn_key x))"
    using i(2) assms(3) by (simp add: map_compare_Some)
  from descend_generic_spec [OF a assms(3), of "[]" "bm_root m" "map_compare m"] i c bst_height [OF assms(1)]
  obtain path s where s: "descend_generic (map_compare m) key [] (bm_root m) = Some (path, s)"
      "plug_all path s = bm_root m" "\<forall>x \<in> set (ctx_left path). map_order m key (bn_key x) > 0"
      "\<forall>x \<in> set (ctx_right path). map_order m key (bn_key x) < 0"
      "\<forall>l n ht r. s = Nd l n ht r \<longrightarrow> map_order m key (bn_key n) = 0"
    by auto
  have sides: "map_order m key (bn_key n) = 0 \<and> (\<forall>x \<in> set (nodes l). map_order m key (bn_key x) > 0)
      \<and> (\<forall>x \<in> set (nodes r). map_order m key (bn_key x) < 0)" if e: "s = Nd l n ht r" for l n ht r
  proof -
    have n: "nodes (bm_root m) = ctx_left path @ (nodes l @ n # nodes r) @ ctx_right path"
      using s(2) nodes_plug_all [of path s] e by simp
    have "\<forall>x \<in> set (nodes l @ n # nodes r). valid_key m (bn_key x)" "sorted_nodes (map_order m) (nodes l @ n # nodes r)"
      using i(2,3) unfolding n by (auto simp: sorted_nodes_append sorted_nodes_Cons)
    from sides_of_node [OF a assms(3) this] show ?thesis using s(5) e by auto
  qed
  show ?thesis
    by (rule that [OF _ s(2,3,4) sides]) (simp_all add: s(1) descend_eq_generic [OF assms(1,3)])
qed

lemma find_node_spec:
  assumes "bst_inv m" "order_ok m" "valid_key m key"
  shows "cbmap_find_node m key = Some (find (\<lambda>n. map_order m key (bn_key n) = 0) (nodes (bm_root m)))"
  using assms find_node_eq_generic [OF assms(1,3)]
    find_generic_spec [of "map_order m" "valid_key m" key "bm_root m" "map_compare m"]
  by (simp add: order_ok_def bst_inv_def map_compare_Some)

lemma lookup_nodes:
  "lookup_entries f key (map entry ns) = map_option bn_val (find (\<lambda>n. f key (bn_key n) = 0) ns)"
  by (induction ns) (auto simp: lookup_entries_def entry_def)

section \<open>Blocks\<close>

lemma alloc_moved:
  assumes "heap_ok h" "A \<subseteq> live h" "mem_alloc h n = (Some (b, bs), h')"
  shows "blocks_moved A (insert b A) h h'" "b \<notin> A"
  using mem_alloc_Some [OF assms(3)] assms(1,2) by (auto simp: blocks_moved_def heap_ok_def)

lemma alloc_None_moved:
  assumes "A \<subseteq> live h" "mem_alloc h n = (None, h')"
  shows "blocks_moved A A h h'"
  using mem_alloc_None [OF assms(2)] assms(1) by (simp add: blocks_moved_def)

lemma free_moved: "A \<subseteq> live h \<Longrightarrow> b \<in> A \<Longrightarrow> blocks_moved A (A - {b}) h (mem_free h b)"
  by (auto simp: blocks_moved_def)

lemma moved_refl: "A \<subseteq> live h \<Longrightarrow> blocks_moved A A h h"
  by (simp add: blocks_moved_def)

lemma blocks_moved_owned: "blocks_moved a b h h' \<Longrightarrow> b \<subseteq> live h'"
  by (simp add: blocks_moved_def)

lemma destroy_node_heap:
  "live (destroy_bmap_node n h) = live h - set (node_blks n)" "next_blk (destroy_bmap_node n h) = next_blk h"
  by (auto simp: destroy_bmap_node_def node_blks_def Let_def split: option.split)

lemma destroy_node_moved:
  assumes "set (xs @ node_blks n @ ys) \<subseteq> live h" "distinct (xs @ node_blks n @ ys)"
  shows "blocks_moved (set (xs @ node_blks n @ ys)) (set (xs @ ys)) h (destroy_bmap_node n h)"
  using assms by (auto simp: blocks_moved_def destroy_node_heap)

section \<open>Creating and updating nodes\<close>

lemma align_bounds: "56 \<le> CBMAP_ALIGN_UP_TO sizeof_bmap_node (cbmap_key_alignment kt)
    \<and> CBMAP_ALIGN_UP_TO sizeof_bmap_node (cbmap_key_alignment kt) \<le> 64"
  by (cases kt) (simp_all add: CBMAP_ALIGN_UP_TO_def sz_add_def size_defs)

lemma align_up_ge: "n + 16 \<le> SIZE_MAX \<Longrightarrow> n \<le> CBMAP_ALIGN_UP_TO n 16 \<and> CBMAP_ALIGN_UP_TO n 16 \<le> n + 15"
proof -
  assume "n + 16 \<le> SIZE_MAX"
  then have "sz_add n 15 = n + 15" by (simp add: sz_add_exact)
  moreover have "(n + 15) mod 16 < 16" by simp
  ultimately show ?thesis unfolding CBMAP_ALIGN_UP_TO_def Let_def by simp
qed

text \<open>A value source outside the map: null with size 0, or enough bytes of the caller.\<close>

definition ext_value :: "byte cptr \<Rightarrow> size_t \<Rightarrow> bool" where
  "ext_value p n = (case p of Null \<Rightarrow> n = 0 | Ext bs \<Rightarrow> n \<le> length bs | Self off \<Rightarrow> False)"

text \<open>A node whose header, key, padding and value do not fit into \<^verbatim>\<open>size_t\<close>.\<close>

definition node_too_large :: "cbstmap \<Rightarrow> size_t \<Rightarrow> size_t \<Rightarrow> bool" where
  "node_too_large m ks vs \<longleftrightarrow> bm_key_offset m + ks + CBMAP_NODE_VAL_ALIGN > SIZE_MAX
     \<or> CBMAP_ALIGN_UP_TO (bm_key_offset m + ks) CBMAP_NODE_VAL_ALIGN + vs > SIZE_MAX"

lemma create_node_spec:
  assumes "bst_inv m" "ext_value p vs" "heap_ok h" "A \<subseteq> live h"
  obtains node h' where "create_new_node m key p vs h = Some (node, h')"
    "\<And>n. node = Some n \<Longrightarrow> bn_key n = key \<and> bn_val n = read_ptr [] p vs \<and> bn_val_external n = None
        \<and> bn_addr n \<notin> A \<and> blocks_moved A (insert (bn_addr n) A) h h'"
    "node = None \<Longrightarrow> blocks_moved A A h h'" "node = None \<longleftrightarrow> node_too_large m (length key) vs \<or> refused h"
proof -
  let ?ko = "bm_key_offset m"
  have ko: "56 \<le> ?ko" "?ko \<le> 64" using align_bounds assms(1) by (auto simp: bst_inv_def)
  show ?thesis
  proof (cases "length key > SIZE_MAX - ?ko - CBMAP_NODE_VAL_ALIGN")
    case True
    then have "node_too_large m (length key) vs" by (auto simp: node_too_large_def)
    then show ?thesis using True that [of None h] moved_refl [OF assms(4)] by (simp add: create_new_node_def)
  next
    case False
    then have le: "?ko + length key + 16 \<le> SIZE_MAX" using ko by (simp add: size_defs)
    let ?vo = "CBMAP_ALIGN_UP_TO (?ko + length key) CBMAP_NODE_VAL_ALIGN"
    have vo: "?vo \<le> SIZE_MAX" using align_up_ge [OF le] le by (simp add: CBMAP_NODE_VAL_ALIGN_def)
    show ?thesis
    proof (cases "vs > SIZE_MAX - ?vo")
      case True
      then have "node_too_large m (length key) vs" by (auto simp: node_too_large_def)
      then show ?thesis using True that [of None h] moved_refl [OF assms(4)] False by (simp add: create_new_node_def Let_def)
    next
      case fits: False
      then have "?vo + vs \<le> SIZE_MAX" using vo by linarith
      then have z: "sz_add ?vo vs = ?vo + vs" and fit: "\<not> node_too_large m (length key) vs"
        using le by (auto simp: node_too_large_def CBMAP_NODE_VAL_ALIGN_def intro: sz_add_exact)
      obtain a h1 where a: "mem_alloc h (?vo + vs) = (a, h1)" by fastforce
      show ?thesis
      proof (cases a)
        case None
        then show ?thesis using that [of None h1] a z False fits alloc_None_moved [OF assms(4)] mem_alloc_refused(1) [of h "?vo + vs" h1]
          by (simp add: create_new_node_def Let_def)
      next
        case (Some bb)
        obtain b bs where bb: "bb = (b, bs)" by fastforce
        have l: "length bs = ?vo + vs" using mem_alloc_Some a Some bb by blast
        then have lp: "length (peek bs ?vo vs) = vs" by (simp add: length_peek)
        have mv: "(if vs > 0 then memcpy (peek bs ?vo vs) 0 p vs else Some []) = Some (read_ptr [] p vs)"
        proof (cases "vs > 0")
          case True
          then obtain xs where xs: "p = Ext xs" "vs \<le> length xs" using assms(2) by (cases p) (auto simp: ext_value_def)
          then have "memcpy (peek bs ?vo vs) 0 p vs = Some (poke (peek bs ?vo vs) 0 (take vs xs))"
            using lp by (simp add: memcpy_Some readable_def read_ptr_def)
          then show ?thesis using True xs lp by (simp add: poke_def read_ptr_def)
        qed (use assms(2) in \<open>auto simp: read_ptr_def ext_value_def split: cptr.splits\<close>)
        let ?n = "\<lparr>bn_addr = b, bn_key = key, bn_val = read_ptr [] p vs, bn_val_external = None\<rparr>"
        have "create_new_node m key p vs h = Some (Some ?n, h1)"
          using a Some bb False fits z mv by (simp add: create_new_node_def Let_def del: bind_eq_Some_conv)
        then show ?thesis
          using that [of "Some ?n" h1] alloc_moved [OF assms(3,4), of "?vo + vs" b bs h1] a Some bb
            mem_alloc_refused(2) [of h "?vo + vs" "(b, bs)" h1] fit by simp
      qed
    qed
  qed
qed

text \<open>The value that an update stores: read before the old storage is written or freed.\<close>

definition new_value :: "byte list \<Rightarrow> byte cptr \<Rightarrow> size_t \<Rightarrow> byte list" where
  "new_value old p n = (if n = 0 then [] else read_ptr old p n)"

lemma update_value_spec:
  assumes "vs = 0 \<or> readable (bn_val n) p vs" "heap_ok h"
    "set (xs @ node_blks n @ ys) \<subseteq> live h" "distinct (xs @ node_blks n @ ys)"
  obtains rv n' h' where "update_bmap_node_value n p vs h = Some (rv, n', h')"
    "bn_key n' = bn_key n" "distinct (xs @ node_blks n' @ ys)"
    "blocks_moved (set (xs @ node_blks n @ ys)) (set (xs @ node_blks n' @ ys)) h h'"
    "rv = (if vs > 0 \<and> vs \<noteq> length (bn_val n) \<and> refused h then ccol_not_enough_memory else ccol_key_already_present)"
    "if rv = ccol_key_already_present then bn_val n' = new_value (bn_val n) p vs else n' = n"
proof -
  let ?A = "set (xs @ node_blks n @ ys)"
  let ?free = "\<lambda>h. case bn_val_external n of None \<Rightarrow> h | Some b \<Rightarrow> mem_free h b"
  have fr: "blocks_moved (insert c ?A) (insert c ?A - set_option (bn_val_external n)) h1 (?free h1)"
    if "insert c ?A \<subseteq> live h1" for c h1
  proof (cases "bn_val_external n")
    case None
    then show ?thesis using moved_refl [OF that] by simp
  next
    case (Some b)
    then have "b \<in> insert c ?A" by (simp add: node_blks_def)
    from free_moved [OF that this] show ?thesis by (simp only: Some option.case option.set)
  qed
  consider "length (bn_val n) \<noteq> vs" "vs = 0" | "length (bn_val n) \<noteq> vs" "vs > 0"
    | "length (bn_val n) = vs" "p \<noteq> Self 0" "vs > 0" | "length (bn_val n) = vs" "p = Self 0 \<or> vs = 0" by blast
  then show ?thesis
  proof cases
    case 1
    let ?n = "n\<lparr>bn_val := [], bn_val_external := None\<rparr>"
    have "bn_addr n \<in> ?A" by (simp add: node_blks_def)
    then have "blocks_moved ?A (?A - set_option (bn_val_external n)) h (?free h)"
      using fr [of "bn_addr n" h] assms(3) by (simp add: insert_absorb)
    moreover have "?A - set_option (bn_val_external n) = set (xs @ node_blks ?n @ ys)" "distinct (xs @ node_blks ?n @ ys)"
      using assms(4) by (auto simp: node_blks_def split: option.splits)
    ultimately show ?thesis
      using 1 that [of ccol_key_already_present ?n "?free h"] by (simp add: update_bmap_node_value_def new_value_def)
  next
    case 2
    obtain a h1 where a: "mem_alloc h vs = (a, h1)" by fastforce
    show ?thesis
    proof (cases a)
      case None
      then show ?thesis using 2 a assms(4) alloc_None_moved [OF assms(3), of vs h1] mem_alloc_refused(1) [of h vs h1]
          that [of ccol_not_enough_memory n h1] by (simp add: update_bmap_node_value_def)
    next
      case (Some bb)
      obtain b bs where bb: "bb = (b, bs)" by fastforce
      have l: "length bs = vs" using mem_alloc_Some a Some bb by blast
      have al: "blocks_moved ?A (insert b ?A) h h1" "b \<notin> ?A"
        using alloc_moved [OF assms(2,3), of vs b bs h1] a Some bb by auto
      have rd: "readable (bn_val n) p vs" using assms(1) 2 by simp
      let ?p = "case p of Self off \<Rightarrow> Ext (drop off (bn_val n)) | p \<Rightarrow> p"
      have "memcpy bs 0 ?p vs = Some (poke bs 0 (read_ptr (bn_val n) p vs))"
        using rd l by (cases p) (simp_all add: memcpy_Some readable_def read_ptr_def peek_def)
      moreover have "poke bs 0 (read_ptr (bn_val n) p vs) = read_ptr (bn_val n) p vs"
        using l length_read_ptr [OF rd] by (simp add: poke_def)
      ultimately have u: "update_bmap_node_value n p vs h =
          Some (ccol_key_already_present, n\<lparr>bn_val := read_ptr (bn_val n) p vs, bn_val_external := Some b\<rparr>, ?free h1)"
        using 2 a Some bb by (simp add: update_bmap_node_value_def)
      let ?n = "n\<lparr>bn_val := read_ptr (bn_val n) p vs, bn_val_external := Some b\<rparr>"
      have "blocks_moved (insert b ?A) (insert b ?A - set_option (bn_val_external n)) h1 (?free h1)"
        by (rule fr) (rule blocks_moved_owned [OF al(1)])
      from blocks_moved_trans [OF al(1) this]
      have "blocks_moved ?A (insert b ?A - set_option (bn_val_external n)) h (?free h1)" .
      moreover have "insert b ?A - set_option (bn_val_external n) = set (xs @ node_blks ?n @ ys)"
          "distinct (xs @ node_blks ?n @ ys)"
        using assms(4) al(2) by (auto simp: node_blks_def split: option.splits)
      ultimately show ?thesis
        using u 2 that [of ccol_key_already_present ?n "?free h1"] mem_alloc_refused(2) [of h vs bb h1] a Some by (simp add: new_value_def)
    qed
  next
    case 3
    have rd: "readable (bn_val n) p vs" using assms(1) 3 by simp
    have "memmove (bn_val n) 0 p vs = Some (read_ptr (bn_val n) p vs)"
      using memmove_Some [OF rd, of 0] 3 length_read_ptr [OF rd] by (simp add: poke_def)
    then show ?thesis
      using 3 assms(4) moved_refl [OF assms(3)] that [of ccol_key_already_present "n\<lparr>bn_val := read_ptr (bn_val n) p vs\<rparr>" h]
      by (simp add: update_bmap_node_value_def new_value_def node_blks_def)
  next
    case 4
    then have "new_value (bn_val n) p vs = bn_val n" by (auto simp: new_value_def read_ptr_def peek_def)
    moreover have "update_bmap_node_value n p vs h = Some (ccol_key_already_present, n, h)"
      using 4 by (auto simp: update_bmap_node_value_def)
    ultimately show ?thesis using 4 assms(4) moved_refl [OF assms(3)] that [of ccol_key_already_present n h] by simp
  qed
qed

section \<open>Insertion\<close>

lemma bst_inv_with:
  assumes "bst_inv m" "avl r" "length (nodes r) \<le> ccol_max_elem_count"
    "\<forall>n \<in> set (nodes r). valid_key m (bn_key n)" "sorted_nodes (map_order m) (nodes r)"
    "distinct (own_blks m @ blks (nodes r))"
  shows "bst_inv (m\<lparr>bm_root := r, bm_elem_count := length (nodes r)\<rparr>)"
  using assms by (simp add: bst_inv_def map_order_def valid_key_def own_blks_def)

lemma sorted_nodes_keys: "map bn_key ns = map bn_key ms \<Longrightarrow> sorted_nodes f ns = sorted_nodes f ms"
proof -
  have "sorted_nodes f ns = sorted_wrt (\<lambda>a b. f a b < 0) (map bn_key ns)" for ns
    by (simp add: sorted_nodes_def sorted_wrt_map)
  then show "map bn_key ns = map bn_key ms \<Longrightarrow> sorted_nodes f ns = sorted_nodes f ms" by simp
qed

lemma sorted_nodes_insert:
  assumes "total_cmp f P" "P (bn_key n)" "\<forall>x \<in> set (xs @ ys). P (bn_key x)" "sorted_nodes f (xs @ ys)"
    "\<forall>x \<in> set xs. f (bn_key n) (bn_key x) > 0" "\<forall>x \<in> set ys. f (bn_key n) (bn_key x) < 0"
  shows "sorted_nodes f (xs @ n # ys)"
  using assms total_cmp.cmp_pos_iff [OF assms(1), of "bn_key n"]
  by (auto simp: sorted_nodes_append sorted_nodes_Cons)

lemma update_root_count: "length (nodes r) = bm_elem_count m \<Longrightarrow> m\<lparr>bm_root := r, bm_elem_count := length (nodes r)\<rparr> = m\<lparr>bm_root := r\<rparr>"
  by simp

lemma bst_frame_root: "bst_frame m (m\<lparr>bm_root := r, bm_elem_count := c\<rparr>)" "bst_frame m (m\<lparr>bm_root := r\<rparr>)"
proof -
  have "m\<lparr>bm_root := r\<rparr> = m\<lparr>bm_root := r, bm_elem_count := bm_elem_count m\<rparr>" by simp
  then show "bst_frame m (m\<lparr>bm_root := r\<rparr>)" unfolding bst_frame_def by blast
qed (auto simp: bst_frame_def)

text \<open>The node of a descent that found its key, between the entries before and after it.\<close>

lemma found_lookup:
  assumes "\<forall>x \<in> set xs. f key (bn_key x) > 0" "f key (bn_key n) = 0" "\<forall>x \<in> set ys. f key (bn_key x) < 0"
  shows "lookup_entries f key (map entry (xs @ n # ys)) = Some (bn_val n)"
    "upd_entries f key v (map entry (xs @ n # ys)) = map entry xs @ (bn_key n, v) # map entry ys"
    "del_entries f key (map entry (xs @ n # ys)) = map entry (xs @ ys)"
proof -
  have "find (\<lambda>n. f key (bn_key n) = 0) xs = None" using assms(1) by (intro find_none) force
  then show "lookup_entries f key (map entry (xs @ n # ys)) = Some (bn_val n)"
    unfolding lookup_nodes find_append using assms(2) by simp
  have "\<forall>x \<in> set (map entry xs). f key (fst x) > 0" using assms(1) by (auto simp: entry_def)
  then show "upd_entries f key v (map entry (xs @ n # ys)) = map entry xs @ (bn_key n, v) # map entry ys"
    using upd_entries_split [of "map entry xs" f key v "map entry (n # ys)"] assms(2) by (simp add: entry_def)
  have "filter (\<lambda>(k', v). f key k' \<noteq> 0) (map entry xs) = map entry xs"
      "filter (\<lambda>(k', v). f key k' \<noteq> 0) (map entry ys) = map entry ys"
    using assms(1,3) by (auto simp: entry_def filter_id_conv)
  then show "del_entries f key (map entry (xs @ n # ys)) = map entry (xs @ ys)"
    using assms(2) by (simp add: del_entries_def entry_def)
qed

lemma absent_lookup:
  assumes "\<forall>x \<in> set xs. f key (bn_key x) > 0" "\<forall>x \<in> set ys. f key (bn_key x) < 0"
  shows "lookup_entries f key (map entry (xs @ ys)) = None"
    "upd_entries f key v (map entry (xs @ ys)) = map entry xs @ (key, v) # map entry ys"
    "del_entries f key (map entry (xs @ ys)) = map entry (xs @ ys)"
proof -
  have "find (\<lambda>n. f key (bn_key n) = 0) (xs @ ys) = None" using assms by (intro find_none) force
  then show "lookup_entries f key (map entry (xs @ ys)) = None" unfolding lookup_nodes by simp
  have "\<forall>x \<in> set (map entry xs). f key (fst x) > 0" "\<forall>x \<in> set (map entry ys). f key (fst x) < 0"
    using assms by (auto simp: entry_def)
  then show "upd_entries f key v (map entry (xs @ ys)) = map entry xs @ (key, v) # map entry ys"
    using upd_entries_split [of "map entry xs" f key v "map entry ys"] upd_entries_front [of "map entry ys"] by simp
  show "del_entries f key (map entry (xs @ ys)) = map entry (xs @ ys)"
    unfolding del_entries_def filter_id_conv using assms by (force simp: entry_def)
qed

text \<open>A key pair that describes bytes, and a value pair whose source can be read where it is used.\<close>

definition key_arg :: "byte list option \<Rightarrow> size_t \<Rightarrow> bool" where
  "key_arg kp ks = (case kp of None \<Rightarrow> ks = 0 | Some bs \<Rightarrow> ks \<le> length bs)"

definition val_arg :: "byte list option \<Rightarrow> byte cptr \<Rightarrow> size_t \<Rightarrow> bool" where
  "val_arg old p n = (case old of Some v \<Rightarrow> p = Null \<and> n = 0 \<or> readable v p n | None \<Rightarrow> ext_value p n)"

lemma key_arg_readable: "key_arg kp ks \<Longrightarrow> pair_bytes_are_readable (kp = None) ks"
  by (auto simp: key_arg_def pair_bytes_are_readable_def split: option.splits)

lemma val_arg_readable: "val_arg old p n \<Longrightarrow> pair_bytes_are_readable (p = Null) n"
  by (auto simp: val_arg_def ext_value_def readable_def pair_bytes_are_readable_def split: option.splits cptr.splits)

lemma ext_new_value: "ext_value p n \<Longrightarrow> read_ptr [] p n = new_value old p n"
  by (auto simp: ext_value_def new_value_def read_ptr_def split: cptr.splits)

lemma insert_existing:
  assumes inv: "bst_inv m" and ho: "heap_ok h" and ow: "bst_owned m \<subseteq> live h"
    and p: "plug_all path (Nd l n ht r) = bm_root m" and v: "vs = 0 \<or> readable (bn_val n) vp vs"
  obtains rv n' h' where "update_bmap_node_value n vp vs h = Some (rv, n', h')" "bn_key n' = bn_key n"
    "bst_inv (m\<lparr>bm_root := plug_all path (Nd l n' ht r)\<rparr>)"
    "blocks_moved (bst_owned m) (bst_owned (m\<lparr>bm_root := plug_all path (Nd l n' ht r)\<rparr>)) h h'"
    "rv = (if vs > 0 \<and> vs \<noteq> length (bn_val n) \<and> refused h then ccol_not_enough_memory else ccol_key_already_present)"
    "if rv = ccol_key_already_present then bn_val n' = new_value (bn_val n) vp vs else n' = n"
proof -
  let ?L = "ctx_left path @ nodes l" and ?R = "nodes r @ ctx_right path"
  have nd: "nodes (plug_all path (Nd l n' ht r)) = ?L @ n' # ?R" for n' by (simp add: nodes_plug_all)
  have root: "nodes (bm_root m) = ?L @ n # ?R" using nd [of n] p by simp
  have dist: "distinct ((own_blks m @ blks ?L) @ node_blks n @ blks ?R)"
    using inv unfolding bst_inv_def root by simp
  have own: "set ((own_blks m @ blks ?L) @ node_blks n @ blks ?R) \<subseteq> live h"
    using ow unfolding bst_owned_def root by auto
  obtain rv n' h' where u: "update_bmap_node_value n vp vs h = Some (rv, n', h')"
    "bn_key n' = bn_key n" "distinct ((own_blks m @ blks ?L) @ node_blks n' @ blks ?R)"
    "blocks_moved (set ((own_blks m @ blks ?L) @ node_blks n @ blks ?R))
       (set ((own_blks m @ blks ?L) @ node_blks n' @ blks ?R)) h h'"
    "rv = (if vs > 0 \<and> vs \<noteq> length (bn_val n) \<and> refused h then ccol_not_enough_memory else ccol_key_already_present)"
    "if rv = ccol_key_already_present then bn_val n' = new_value (bn_val n) vp vs else n' = n"
    using update_value_spec [OF v ho own dist] by blast
  let ?t = "plug_all path (Nd l n' ht r)"
  have "avl (plug_all path (Nd l n ht r))" using inv p by (simp add: bst_inv_def)
  then have a: "avl ?t" unfolding avl_plug_all by auto
  have len: "length (nodes ?t) = bm_elem_count m" using inv root nd [of n'] by (simp add: bst_inv_def)
  have so: "sorted_nodes (map_order m) (nodes ?t)"
    using inv sorted_nodes_keys [of "nodes ?t" "nodes (bm_root m)"] root nd [of n'] u(2) by (simp add: bst_inv_def)
  have vk: "\<forall>n \<in> set (nodes ?t). valid_key m (bn_key n)"
    using inv root u(2) unfolding nd by (auto simp: bst_inv_def)
  have di: "distinct (own_blks m @ blks (nodes ?t))" using u(3) unfolding nd by simp
  have "length (nodes ?t) \<le> ccol_max_elem_count" using inv len by (simp add: bst_inv_def)
  from bst_inv_with [OF inv a this vk so di] have i: "bst_inv (m\<lparr>bm_root := ?t\<rparr>)" by (simp add: len)
  have "bst_owned m = set ((own_blks m @ blks ?L) @ node_blks n @ blks ?R)"
      "bst_owned (m\<lparr>bm_root := ?t\<rparr>) = set ((own_blks m @ blks ?L) @ node_blks n' @ blks ?R)"
    using nd [of n'] by (auto simp: bst_owned_def own_blks_def root)
  then show ?thesis using that [OF u(1,2) i _ u(5,6)] u(4) by simp
qed

lemma insert_new:
  assumes inv: "bst_inv m" and ok: "order_ok m"
    and p: "plug_all path Tip = bm_root m" and key: "valid_key m (bn_key n)" and ext: "bn_val_external n = None"
    and sides: "\<forall>x \<in> set (ctx_left path). map_order m (bn_key n) (bn_key x) > 0"
      "\<forall>x \<in> set (ctx_right path). map_order m (bn_key n) (bn_key x) < 0"
    and fresh: "bn_addr n \<notin> bst_owned m" and cnt: "bm_elem_count m < ccol_max_elem_count"
  obtains root where "rebalance_after_insert path (Nd Tip n 1 Tip) = Some root"
    "bst_inv (m\<lparr>bm_root := root, bm_elem_count := bm_elem_count m + 1\<rparr>)"
    "nodes root = ctx_left path @ n # ctx_right path"
    "bst_owned (m\<lparr>bm_root := root, bm_elem_count := bm_elem_count m + 1\<rparr>) = insert (bn_addr n) (bst_owned m)"
proof -
  have root: "nodes (bm_root m) = ctx_left path @ ctx_right path" using nodes_plug_all [of path Tip] p by simp
  have cx: "ctx_ok path 0" using inv p avl_plug_all [of path Tip] by (simp add: bst_inv_def)
  have h: "ctx_height path 0 < 200" using bst_height [OF inv] plug_all_height [of path Tip] p by (simp add: size_defs)
  have "avl (Nd Tip n 1 Tip)" "node_height (Nd Tip n 1 Tip) = 0 + 1 \<and> ((0::nat) = 0 \<or> node_balance (Nd Tip n 1 Tip) \<noteq> 0)"
    by (simp_all add: close_def)
  from rebalance_insert_avl [OF cx this(1) disjI2 [OF this(2)] h]
  obtain u where u: "rebalance_after_insert path (Nd Tip n 1 Tip) = Some u" "avl u"
      "nodes u = ctx_left path @ n # ctx_right path"
    by (auto simp: nodes_plug_all)
  have tc: "total_cmp (map_order m) (valid_key m)" using ok by (simp add: order_ok_def)
  have len: "length (nodes u) = bm_elem_count m + 1" using inv root u(3) by (simp add: bst_inv_def)
  have vk: "\<forall>x \<in> set (nodes u). valid_key m (bn_key x)" using inv root u(3) key by (auto simp: bst_inv_def)
  have "sorted_nodes (map_order m) (ctx_left path @ ctx_right path)"
      "\<forall>x \<in> set (ctx_left path @ ctx_right path). valid_key m (bn_key x)"
    using inv root by (auto simp: bst_inv_def)
  from sorted_nodes_insert [OF tc key this(2,1) sides] have so: "sorted_nodes (map_order m) (nodes u)" using u(3) by simp
  have nb: "node_blks n = [bn_addr n]" using ext by (simp add: node_blks_def)
  have di: "distinct (own_blks m @ blks (nodes u))"
    using inv fresh unfolding bst_inv_def bst_owned_def root u(3) by (auto simp: nb)
  have le: "length (nodes u) \<le> ccol_max_elem_count" using len cnt by simp
  have i: "bst_inv (m\<lparr>bm_root := u, bm_elem_count := bm_elem_count m + 1\<rparr>)"
    using bst_inv_with [OF inv u(2) le vk so di] len by simp
  have "bst_owned (m\<lparr>bm_root := u, bm_elem_count := bm_elem_count m + 1\<rparr>) = insert (bn_addr n) (bst_owned m)"
    by (auto simp: bst_owned_def own_blks_def root u(3) nb)
  then show ?thesis using that [OF u(1) i u(3)] by simp
qed

text \<open>
  What an insertion answers and what it leaves as entries, as functions of its
  arguments, of the entries and of the next answer of the allocator.
\<close>

fun insert_code :: "cbstmap \<Rightarrow> key_pair \<Rightarrow> val_pair \<Rightarrow> heap \<Rightarrow> ccol_retval" where
  "insert_code m (Some (kp, ks)) (Some (vp, vs)) h =
     (if kp = None \<and> ks > 0 \<or> vp = Null \<and> vs > 0 \<or> \<not> valid_key m (key_bytes kp ks) then ccol_invalid_args
      else case lookup_entries (map_order m) (key_bytes kp ks) (entries m) of
             Some old \<Rightarrow> if vs > 0 \<and> vs \<noteq> length old \<and> refused h then ccol_not_enough_memory else ccol_key_already_present
           | None \<Rightarrow> if bm_elem_count m = ccol_max_elem_count then ccol_container_full
               else if node_too_large m (length (key_bytes kp ks)) vs \<or> refused h then ccol_not_enough_memory else ccol_success)"
| "insert_code m _ _ h = ccol_invalid_args"

fun insert_entries :: "cbstmap \<Rightarrow> key_pair \<Rightarrow> val_pair \<Rightarrow> (byte list \<times> byte list) list" where
  "insert_entries m (Some (kp, ks)) (Some (vp, vs)) =
     (let old = lookup_entries (map_order m) (key_bytes kp ks) (entries m)
      in upd_entries (map_order m) (key_bytes kp ks) (new_value (case old of Some v \<Rightarrow> v | None \<Rightarrow> []) vp vs) (entries m))"
| "insert_entries m _ _ = entries m"

lemma insert_spec:
  assumes inv: "bst_inv m" and ok: "order_ok m" and ho: "heap_ok h" and ow: "bst_owned m \<subseteq> live h"
    and ka: "key_arg kp ks" and vk: "valid_key m (key_bytes kp ks)"
    and va: "val_arg (lookup_entries (map_order m) (key_bytes kp ks) (entries m)) vp vs"
  obtains rv m' h' where "cbstmap_insert_elem (Some m) (Some (kp, ks)) (Some (vp, vs)) h = Some (rv, m', h')"
    "bst_inv m'" "bst_frame m m'" "blocks_moved (bst_owned m) (bst_owned m') h h'"
    "rv = insert_code m (Some (kp, ks)) (Some (vp, vs)) h"
    "entries m' = (if rv = ccol_success \<or> rv = ccol_key_already_present
       then insert_entries m (Some (kp, ks)) (Some (vp, vs)) else entries m)"
proof -
  let ?k = "key_bytes kp ks" and ?f = "map_order m"
  have pre: "pair_bytes_are_readable (kp = None) ks" "pair_bytes_are_readable (vp = Null) vs"
      "key_size_is_valid_for_type (bm_key_type m) ?k"
    using key_arg_readable [OF ka] val_arg_readable [OF va] vk by (auto simp: valid_key_def)
  have code: "insert_code m (Some (kp, ks)) (Some (vp, vs)) h = (case lookup_entries ?f ?k (entries m) of
      Some old \<Rightarrow> if vs > 0 \<and> vs \<noteq> length old \<and> refused h then ccol_not_enough_memory else ccol_key_already_present
    | None \<Rightarrow> if bm_elem_count m = ccol_max_elem_count then ccol_container_full
        else if node_too_large m (length ?k) vs \<or> refused h then ccol_not_enough_memory else ccol_success)"
    using pre by (auto simp: pair_bytes_are_readable_def valid_key_def)
  obtain path s where d: "cbmap_descend_with_path m ?k = Some (path, s)" "plug_all path s = bm_root m"
    "\<forall>x \<in> set (ctx_left path). ?f ?k (bn_key x) > 0" "\<forall>x \<in> set (ctx_right path). ?f ?k (bn_key x) < 0"
    "\<And>l n ht r. s = Nd l n ht r \<Longrightarrow> ?f ?k (bn_key n) = 0
        \<and> (\<forall>x \<in> set (nodes l). ?f ?k (bn_key x) > 0) \<and> (\<forall>x \<in> set (nodes r). ?f ?k (bn_key x) < 0)"
    using descend_spec [OF inv ok vk] by blast
  show ?thesis
  proof (cases s)
    case (Nd l n ht r)
    let ?L = "ctx_left path @ nodes l" and ?R = "nodes r @ ctx_right path"
    have p: "plug_all path (Nd l n ht r) = bm_root m" using d(2) Nd by simp
    have nr: "bm_root m \<noteq> Tip" using p nodes_plug_all [of path "Nd l n ht r"] by (metis append_is_Nil_conv nodes_Nil not_Cons_self2 btree.distinct(1))
    have side: "\<forall>x \<in> set ?L. ?f ?k (bn_key x) > 0" "?f ?k (bn_key n) = 0" "\<forall>x \<in> set ?R. ?f ?k (bn_key x) < 0"
      using d(3,4) d(5) [OF Nd] by auto
    have en: "entries m = map entry (?L @ n # ?R)" using nodes_plug_all [of path "Nd l n ht r"] p by (simp add: entries_def)
    note lk = found_lookup [where f = ?f and key = ?k and xs = ?L and n = n and ys = ?R, OF side, folded en]
    have v: "vs = 0 \<or> readable (bn_val n) vp vs" using va lk(1) by (auto simp: val_arg_def)
    obtain rv n' h' where u: "update_bmap_node_value n vp vs h = Some (rv, n', h')" "bn_key n' = bn_key n"
      "bst_inv (m\<lparr>bm_root := plug_all path (Nd l n' ht r)\<rparr>)"
      "blocks_moved (bst_owned m) (bst_owned (m\<lparr>bm_root := plug_all path (Nd l n' ht r)\<rparr>)) h h'"
      "rv = (if vs > 0 \<and> vs \<noteq> length (bn_val n) \<and> refused h then ccol_not_enough_memory else ccol_key_already_present)"
    "if rv = ccol_key_already_present then bn_val n' = new_value (bn_val n) vp vs else n' = n"
      using insert_existing [OF inv ho ow p v] by blast
    let ?m = "m\<lparr>bm_root := plug_all path (Nd l n' ht r)\<rparr>"
    have r: "cbstmap_insert_elem (Some m) (Some (kp, ks)) (Some (vp, vs)) h = Some (rv, ?m, h')"
      using pre nr d(1) Nd u(1) by (simp add: cbstmap_insert_elem_def Let_def)
    have fr: "bst_frame m ?m" by (rule bst_frame_root)
    have "entries ?m = map entry ?L @ entry n' # map entry ?R" by (simp add: entries_def nodes_plug_all)
    then show ?thesis
      using that [OF r u(3) fr u(4)] u(2,5,6) lk(1,2) en unfolding code by (auto simp: entry_def split: if_splits)
  next
    case Tip
    have p: "plug_all path Tip = bm_root m" using d(2) Tip by simp
    have nds: "nodes (bm_root m) = ctx_left path @ ctx_right path" using nodes_plug_all [of path Tip] p by simp
    have en: "entries m = map entry (ctx_left path @ ctx_right path)" by (simp add: entries_def nds)
    note lk = absent_lookup [where f = ?f and key = ?k and xs = "ctx_left path" and ys = "ctx_right path", OF d(3,4), folded en]
    have ext: "ext_value vp vs" using va lk(1) by (simp add: val_arg_def)
    show ?thesis
    proof (cases "bm_root m \<noteq> Tip \<and> bm_elem_count m = ccol_max_elem_count")
      case True
      then have "cbstmap_insert_elem (Some m) (Some (kp, ks)) (Some (vp, vs)) h = Some (ccol_container_full, m, h)"
        using pre d(1) Tip by (simp add: cbstmap_insert_elem_def Let_def)
      from that [OF this inv bst_frame_refl moved_refl [OF ow]] show ?thesis unfolding code using lk(1) True by simp
    next
      case False
      obtain node h' where c: "create_new_node m ?k vp vs h = Some (node, h')"
        "\<And>n. node = Some n \<Longrightarrow> bn_key n = ?k \<and> bn_val n = read_ptr [] vp vs \<and> bn_val_external n = None
            \<and> bn_addr n \<notin> bst_owned m \<and> blocks_moved (bst_owned m) (insert (bn_addr n) (bst_owned m)) h h'"
        "node = None \<Longrightarrow> blocks_moved (bst_owned m) (bst_owned m) h h'"
        "node = None \<longleftrightarrow> node_too_large m (length ?k) vs \<or> refused h"
        using create_node_spec [OF inv ext ho ow] by blast
      have cnt: "bm_elem_count m \<noteq> ccol_max_elem_count" using False inv by (auto simp: bst_inv_def size_defs)
      show ?thesis
      proof (cases node)
        case None
        have "cbstmap_insert_elem (Some m) (Some (kp, ks)) (Some (vp, vs)) h = Some (ccol_not_enough_memory, m, h')"
          using pre d(1) Tip c(1) None False by (auto simp: cbstmap_insert_elem_def Let_def)
        from that [OF this inv bst_frame_refl c(3) [OF None]] show ?thesis unfolding code using lk(1) c(4) None cnt by simp
      next
        case (Some n)
        note n = c(2) [OF Some]
        have lt: "bm_elem_count m < ccol_max_elem_count" using cnt inv by (simp add: bst_inv_def)
        have sides: "\<forall>x \<in> set (ctx_left path). ?f (bn_key n) (bn_key x) > 0" "\<forall>x \<in> set (ctx_right path). ?f (bn_key n) (bn_key x) < 0"
            "valid_key m (bn_key n)" "bn_val_external n = None" "bn_addr n \<notin> bst_owned m"
          using d(3,4) n vk by auto
        obtain root where r: "rebalance_after_insert path (Nd Tip n 1 Tip) = Some root"
          "bst_inv (m\<lparr>bm_root := root, bm_elem_count := bm_elem_count m + 1\<rparr>)"
          "nodes root = ctx_left path @ n # ctx_right path"
          "bst_owned (m\<lparr>bm_root := root, bm_elem_count := bm_elem_count m + 1\<rparr>) = insert (bn_addr n) (bst_owned m)"
          using insert_new [OF inv ok p sides(3,4,1,2,5) lt] by blast
        let ?m = "m\<lparr>bm_root := root, bm_elem_count := bm_elem_count m + 1\<rparr>"
        have "root = Nd Tip n 1 Tip" if "bm_root m = Tip"
        proof -
          have "path = []" using d(1) that descend_eq_generic [OF inv vk] by simp
          then show ?thesis using r(1) by simp
        qed
        then have "cbstmap_insert_elem (Some m) (Some (kp, ks)) (Some (vp, vs)) h = Some (ccol_success, ?m, h')"
          using pre d(1) Tip c(1) Some r(1) False by (auto simp: cbstmap_insert_elem_def Let_def)
        moreover have "entries ?m = upd_entries ?f ?k (new_value [] vp vs) (entries m)"
          unfolding lk(2) using n ext_new_value [OF ext, of "[]"] by (simp add: entries_def r(3) entry_def)
        ultimately show ?thesis
          using that [OF _ r(2) bst_frame_root(1)] n r(4) lk(1) c(4) Some cnt unfolding code by simp
      qed
    qed
  qed
qed

section \<open>Removal\<close>

lemma delete_spec:
  assumes inv: "bst_inv m" and ok: "order_ok m" and ow: "bst_owned m \<subseteq> live h"
    and ka: "key_arg kp ks" and vk: "valid_key m (key_bytes kp ks)"
  obtains rv m' h' where "cbstmap_delete_elem (Some m) (Some (kp, ks)) h = Some (rv, m', h')"
    "bst_inv m'" "bst_frame m m'" "blocks_moved (bst_owned m) (bst_owned m') h h'"
    "entries m' = del_entries (map_order m) (key_bytes kp ks) (entries m)"
    "rv = (if lookup_entries (map_order m) (key_bytes kp ks) (entries m) = None then ccol_key_not_found else ccol_success)"
proof -
  let ?k = "key_bytes kp ks" and ?f = "map_order m"
  have pre: "pair_bytes_are_readable (kp = None) ks" "key_size_is_valid_for_type (bm_key_type m) ?k"
    using key_arg_readable [OF ka] vk by (auto simp: valid_key_def)
  obtain path s where d: "cbmap_descend_with_path m ?k = Some (path, s)" "plug_all path s = bm_root m"
    "\<forall>x \<in> set (ctx_left path). ?f ?k (bn_key x) > 0" "\<forall>x \<in> set (ctx_right path). ?f ?k (bn_key x) < 0"
    "\<And>l n ht r. s = Nd l n ht r \<Longrightarrow> ?f ?k (bn_key n) = 0
        \<and> (\<forall>x \<in> set (nodes l). ?f ?k (bn_key x) > 0) \<and> (\<forall>x \<in> set (nodes r). ?f ?k (bn_key x) < 0)"
    using descend_spec [OF inv ok vk] by blast
  show ?thesis
  proof (cases s)
    case Tip
    have en: "entries m = map entry (ctx_left path @ ctx_right path)"
      using nodes_plug_all [of path Tip] d(2) Tip by (simp add: entries_def)
    note lk = absent_lookup [where f = ?f and key = ?k and xs = "ctx_left path" and ys = "ctx_right path", OF d(3,4), folded en]
    have "cbstmap_delete_elem (Some m) (Some (kp, ks)) h = Some (ccol_key_not_found, m, h)"
      using pre d(1) Tip by (simp add: cbstmap_delete_elem_def)
    from that [OF this inv bst_frame_refl moved_refl [OF ow]] show ?thesis using lk by simp
  next
    case (Nd l n ht r)
    let ?L = "ctx_left path @ nodes l" and ?R = "nodes r @ ctx_right path"
    have p: "plug_all path (Nd l n ht r) = bm_root m" using d(2) Nd by simp
    have root: "nodes (bm_root m) = ?L @ n # ?R" using nodes_plug_all [of path "Nd l n ht r"] p by simp
    then have nr: "bm_root m \<noteq> Tip" by (metis append_is_Nil_conv nodes_Nil not_Cons_self2 list.distinct(1))
    have side: "\<forall>x \<in> set ?L. ?f ?k (bn_key x) > 0" "?f ?k (bn_key n) = 0" "\<forall>x \<in> set ?R. ?f ?k (bn_key x) < 0"
      using d(3,4) d(5) [OF Nd] by auto
    have en: "entries m = map entry (?L @ n # ?R)" by (simp add: entries_def root)
    note lk = found_lookup [where f = ?f and key = ?k and xs = ?L and n = n and ys = ?R, OF side, folded en]
    have av: "avl (plug_all path (Nd l n ht r))" using inv p by (simp add: bst_inv_def)
    then have cx: "avl (Nd l n ht r)" "ctx_ok path ht" unfolding avl_plug_all by auto
    have th: "ctx_height path ht < CBMAP_MAX_TREE_HEIGHT"
      using bst_height [OF inv] plug_all_height [of path "Nd l n ht r"] p by simp
    then have hb: "ht < CBMAP_MAX_TREE_HEIGHT" using ctx_height_ge [OF cx(2)] by simp
    obtain u where u: "perform_element_removal l n r h = Some (u, destroy_bmap_node n h)" "avl u"
        "nodes u = nodes l @ nodes r" "node_height u = ht \<or> node_height u + 1 = ht"
      using removal_avl [OF cx(1) hb] by blast
    obtain w where w: "rebalance_after_delete path u = Some w" "avl w" "nodes w = ?L @ ?R"
      using rebalance_delete_avl [OF cx(2) u(2,4)] th u(3) by (auto simp: nodes_plug_all size_defs)
    let ?m = "m\<lparr>bm_root := w, bm_elem_count := bm_elem_count m - 1\<rparr>"
    have del: "cbstmap_delete_elem (Some m) (Some (kp, ks)) h = Some (ccol_success, ?m, destroy_bmap_node n h)"
      using pre nr d(1) Nd u(1) w(1) by (simp add: cbstmap_delete_elem_def)
    have "length (nodes (bm_root m)) = bm_elem_count m" using inv by (simp add: bst_inv_def)
    then have len: "length (nodes w) = bm_elem_count m - 1" unfolding root w(3) by simp
    have i': "\<forall>n \<in> set (?L @ n # ?R). valid_key m (bn_key n)" "sorted_nodes ?f (?L @ n # ?R)"
        "distinct (own_blks m @ blks (?L @ n # ?R))" "bm_elem_count m \<le> ccol_max_elem_count"
      using inv unfolding bst_inv_def root by blast+
    have vk': "\<forall>n \<in> set (nodes w). valid_key m (bn_key n)" using i'(1) w(3) by auto
    have so: "sorted_nodes ?f (nodes w)" using i'(2) w(3) by (simp add: sorted_nodes_append sorted_nodes_Cons)
    have di: "distinct (own_blks m @ blks (nodes w))" using i'(3) w(3) by auto
    have le: "length (nodes w) \<le> ccol_max_elem_count" using len i'(4) by simp
    have inv': "bst_inv ?m" using bst_inv_with [OF inv w(2) le vk' so di] len by simp
    have own: "set ((own_blks m @ blks ?L) @ node_blks n @ blks ?R) \<subseteq> live h"
        "distinct ((own_blks m @ blks ?L) @ node_blks n @ blks ?R)"
      using ow i'(3) unfolding bst_owned_def root by auto
    have "bst_owned m = set ((own_blks m @ blks ?L) @ node_blks n @ blks ?R)"
        "bst_owned ?m = set ((own_blks m @ blks ?L) @ blks ?R)"
      by (auto simp: bst_owned_def own_blks_def root w(3))
    then have mv: "blocks_moved (bst_owned m) (bst_owned ?m) h (destroy_bmap_node n h)"
      using destroy_node_moved [OF own] by simp
    have "entries ?m = map entry (?L @ ?R)" by (simp add: entries_def w(3))
    then show ?thesis using that [OF del inv' bst_frame_root(1) mv] lk by simp
  qed
qed

end
