(* ===== verification/CCol_Bstmap_Spec.thy ===== *)
theory CCol_Bstmap_Spec
  imports CCol_Bstmap_Map
begin

text \<open>
  What the tree map of \<^verbatim>\<open>src/cbstmap.c\<close> promises, over the lemmas of the theory
  before: each operation on the ordered entries with its return code, the walk
  that destroys a map, the iterator, and programs over a whole map's life.
\<close>

section \<open>Clearing\<close>

lemma clear_subtree:
  assumes "avl t" "length st + node_height t \<le> CBMAP_MAX_TREE_HEIGHT" "distinct (map bn_addr (nodes t))"
    "lv \<notin> (\<lambda>n. Some (bn_addr n)) ` set (nodes t)"
  shows "\<exists>h'. clear_loop st t lv h = clear_loop st Tip (if t = Tip then lv else root_addr t) h'
     \<and> live h' = live h - set (blks (nodes t)) \<and> next_blk h' = next_blk h"
  using assms
proof (induction t arbitrary: st lv h)
  case (Nd l n ht r)
  let ?t = "Nd l n ht r"
  have len: "length st < CBMAP_MAX_TREE_HEIGHT" and lh: "length (?t # st) + node_height l \<le> CBMAP_MAX_TREE_HEIGHT"
    and rh: "length (?t # st) + node_height r \<le> CBMAP_MAX_TREE_HEIGHT"
    using Nd.prems(1,2) by auto
  obtain h1 where h1: "clear_loop (?t # st) l lv h = clear_loop (?t # st) Tip (if l = Tip then lv else root_addr l) h1"
      "live h1 = live h - set (blks (nodes l))" "next_blk h1 = next_blk h"
    using Nd.IH(1) [OF _ lh, of lv h] Nd.prems by auto
  let ?lv = "if l = Tip then lv else root_addr l"
  have start: "clear_loop st ?t lv h = clear_loop (?t # st) Tip ?lv h1"
    using len h1(1) by (subst clear_loop.simps) simp
  have nl: "?lv \<notin> (\<lambda>n. Some (bn_addr n)) ` set (nodes r)"
    using Nd.prems(3,4) by (cases l) (auto simp: image_iff)
  have pop: "clear_loop (?t # st) Tip lst h2 = clear_loop st Tip (Some (bn_addr n)) (destroy_bmap_node n h2)"
    if "r = Tip \<or> root_addr r = lst" for lst h2
    using that by (subst clear_loop.simps) auto
  show ?case
  proof (cases "r = Tip")
    case True
    then show ?thesis using start pop h1(2,3) by (auto simp: destroy_node_heap)
  next
    case False
    then have ne: "root_addr r \<noteq> ?lv" using nl by (cases r) auto
    obtain h2 where h2: "clear_loop (?t # st) r ?lv h1 = clear_loop (?t # st) Tip (root_addr r) h2"
        "live h2 = live h1 - set (blks (nodes r))" "next_blk h2 = next_blk h1"
      using Nd.IH(2) [OF _ rh _ nl, of h1] Nd.prems False by auto
    have "clear_loop (?t # st) Tip ?lv h1 = clear_loop (?t # st) r ?lv h1"
      using False ne by (subst clear_loop.simps) simp
    then show ?thesis using start h2 pop [of "root_addr r" h2] h1(2,3) by (auto simp: destroy_node_heap)
  qed
qed auto

lemma distinct_addrs: "distinct (blks ns) \<Longrightarrow> distinct (map bn_addr ns)"
  by (induction ns) (auto simp: node_blks_def blks_def)

lemma clear_spec:
  assumes "bst_inv m"
  shows "\<exists>h'. clear_nodes m h = Some (m\<lparr>bm_root := Tip, bm_elem_count := 0\<rparr>, h')
     \<and> live h' = live h - set (blks (nodes (bm_root m))) \<and> next_blk h' = next_blk h"
proof (cases "bm_root m = Tip")
  case True
  then have "m\<lparr>bm_root := Tip, bm_elem_count := 0\<rparr> = m" using assms by (cases m) (auto simp: bst_inv_def)
  then show ?thesis using True by (simp add: clear_nodes_def)
next
  case False
  have i: "avl (bm_root m)" "distinct (map bn_addr (nodes (bm_root m)))"
    using assms distinct_addrs [of "nodes (bm_root m)"] by (auto simp: bst_inv_def)
  have "length ([] :: btree list) + node_height (bm_root m) \<le> CBMAP_MAX_TREE_HEIGHT" using bst_height [OF assms] by simp
  from clear_subtree [OF i(1) this i(2), of None h] obtain h' where
    "clear_loop [] (bm_root m) None h = clear_loop [] Tip (root_addr (bm_root m)) h'"
    "live h' = live h - set (blks (nodes (bm_root m)))" "next_blk h' = next_blk h"
    using False by auto
  then show ?thesis using False by (simp add: clear_nodes_def clear_loop.simps [of "[]" Tip])
qed

lemma destroy_map_spec:
  assumes "bst_inv m"
  shows "\<exists>h'. cbstmap_destroy (Some m) h = Some h' \<and> live h' = live h - bst_owned m"
  using clear_spec [OF assms, of h]
  by (auto simp: cbstmap_destroy_def bst_owned_def own_blks_def Let_def split: option.splits)

lemma reset_map_spec:
  assumes "bst_inv m" "bst_owned m \<subseteq> live h"
  shows "\<exists>m' h'. cbstmap_reset (Some m) h = Some (ccol_success, m', h') \<and> bst_inv m' \<and> bst_frame m m' \<and> entries m' = []
     \<and> blocks_moved (bst_owned m) (bst_owned m') h h'"
proof -
  let ?m = "m\<lparr>bm_root := Tip, bm_elem_count := 0\<rparr>"
  obtain h' where c: "clear_nodes m h = Some (?m, h')"
      "live h' = live h - set (blks (nodes (bm_root m)))" "next_blk h' = next_blk h"
    using clear_spec [OF assms(1)] by blast
  have d: "distinct (own_blks m @ blks (nodes (bm_root m)))" using assms(1) by (simp add: bst_inv_def)
  have "bst_inv ?m" using bst_inv_with [OF assms(1), of Tip] d by (simp add: sorted_nodes_def)
  moreover have "blocks_moved (bst_owned m) (bst_owned ?m) h h'"
    using c(2,3) d assms(2) by (auto simp: blocks_moved_def bst_owned_def own_blks_def)
  moreover have "bst_frame m ?m" by (rule bst_frame_root)
  ultimately show ?thesis using c(1) by (auto simp: cbstmap_reset_def entries_def)
qed

section \<open>Programs over a map\<close>

lemma create_map_spec:
  assumes "heap_ok h" "cbstmap_create_full kt mp custom h = (res, h')"
  shows "case res of Inl e \<Rightarrow> blocks_kept h h'
     | Inr m \<Rightarrow> bst_inv m \<and> entries m = [] \<and> bm_key_type m = kt \<and> bm_custom m = custom
         \<and> blocks_moved {} (bst_owned m) h h'"
proof (cases "verify_cbmap_create_inputs mp")
  case False
  then show ?thesis using assms(2) by (auto simp: cbstmap_create_full_def)
next
  case True
  obtain a h1 where a: "mem_alloc h 64 = (a, h1)" by fastforce
  show ?thesis
  proof (cases a)
    case None
    then show ?thesis using assms(2) True a mem_alloc_None [of h 64 h1] by (auto simp: cbstmap_create_full_def blocks_kept_def)
  next
    case (Some bb)
    obtain b bs where bb: "bb = (b, bs)" by fastforce
    have c: "b = next_blk h" "live h1 = insert b (live h)" "next_blk h1 = Suc b"
      using mem_alloc_Some [of h 64 b bs h1] a Some bb by auto
    have fr: "b \<notin> live h" using c(1) heap_ok_fresh [OF assms(1)] by simp
    note inv_defs = bst_inv_def entries_def sorted_nodes_def own_blks_def bst_owned_def blocks_moved_def
    show ?thesis
    proof (cases "mp = DefaultProcs")
      case dp: True
      then show ?thesis using assms(2) True a Some bb c fr
        by (auto simp: cbstmap_create_full_def inv_defs)
    next
      case dp: False
      obtain a2 h2 where a2: "mem_alloc h1 32 = (a2, h2)" by fastforce
      show ?thesis
      proof (cases a2)
        case None
        then show ?thesis using assms(2) True a Some bb c fr dp a2 mem_alloc_None [of h1 32 h2]
          by (auto simp: cbstmap_create_full_def blocks_kept_def)
      next
        case s2: (Some pp)
        obtain pb ps where pp: "pp = (pb, ps)" by fastforce
        have d: "pb = Suc b" "live h2 = insert pb (insert b (live h))" "next_blk h2 = Suc pb"
          using mem_alloc_Some [of h1 32 pb ps h2] a2 s2 pp c by auto
        have "pb \<notin> live h" using d(1) c(1) assms(1) by (auto simp: heap_ok_def)
        then show ?thesis using assms(2) True a Some bb c fr dp a2 s2 pp d
          by (auto simp: cbstmap_create_full_def inv_defs)
      qed
    qed
  qed
qed

datatype mop = MPut "byte list" "byte list" | MPutSelf "byte list" nat nat | MDelete "byte list" | MReset

definition bst_step :: "mop \<Rightarrow> cbstmap \<Rightarrow> heap \<Rightarrow> (bool \<times> cbstmap \<times> heap) option" where
  "bst_step op m h =
     (case op of
        MPut k v \<Rightarrow> do {
          (rv, m, h) \<leftarrow> cbstmap_insert_elem (Some m) (Some (Some k, length k)) (Some (Ext v, length v)) h;
          Some (rv = ccol_success \<or> rv = ccol_key_already_present, m, h) }
      | MPutSelf k off n \<Rightarrow> do {
          (rv, m, h) \<leftarrow> cbstmap_insert_elem (Some m) (Some (Some k, length k)) (Some (Self off, n)) h;
          Some (rv = ccol_key_already_present, m, h) }
      | MDelete k \<Rightarrow> do {
          (rv, m, h) \<leftarrow> cbstmap_delete_elem (Some m) (Some (Some k, length k)) h;
          Some (rv = ccol_success, m, h) }
      | MReset \<Rightarrow> do { (rv, m, h) \<leftarrow> cbstmap_reset (Some m) h; Some (rv = ccol_success, m, h) })"

definition bst_create :: "ccol_data_type \<Rightarrow> mprocs \<Rightarrow> key_cmp option \<Rightarrow> heap \<Rightarrow> cbstmap option \<times> heap" where
  "bst_create kt mp custom h =
     (case cbstmap_create_full kt mp custom h of (Inl _, h) \<Rightarrow> (None, h) | (Inr m, h) \<Rightarrow> (Some m, h))"

text \<open>The order that a program asks for: the comparator it passes, called as it is, or the one of the key type.\<close>

definition caller_order :: "ccol_data_type \<Rightarrow> key_cmp option \<Rightarrow> key_cmp" where
  "caller_order kt custom = (case custom of Some f \<Rightarrow> f | None \<Rightarrow> key_order kt None)"

lemma key_order_caller: "key_order kt custom = caller_order kt custom"
  by (cases custom) (auto simp: caller_order_def key_order_def compare_keys_custom fun_eq_iff)

fun map_spec :: "key_cmp \<Rightarrow> mop \<Rightarrow> (byte list \<times> byte list) list \<Rightarrow> (byte list \<times> byte list) list" where
  "map_spec f (MPut k v) xs = upd_entries f k v xs"
| "map_spec f (MPutSelf k off n) xs =
     (case lookup_entries f k xs of Some old \<Rightarrow> upd_entries f k (peek old off n) xs | None \<Rightarrow> xs)"
| "map_spec f (MDelete k) xs = del_entries f k xs"
| "map_spec f MReset xs = []"

fun map_pre :: "ccol_data_type \<Rightarrow> key_cmp \<Rightarrow> mop \<Rightarrow> (byte list \<times> byte list) list \<Rightarrow> bool" where
  "map_pre kt f (MPut k v) xs \<longleftrightarrow> key_size_is_valid_for_type kt k"
| "map_pre kt f (MPutSelf k off n) xs \<longleftrightarrow> key_size_is_valid_for_type kt k
     \<and> (case lookup_entries f k xs of Some old \<Rightarrow> off + n \<le> length old | None \<Rightarrow> False)"
| "map_pre kt f (MDelete k) xs \<longleftrightarrow> key_size_is_valid_for_type kt k"
| "map_pre kt f MReset xs \<longleftrightarrow> True"

lemma key_bytes_self [simp]: "key_bytes (Some k) (length k) = k" "key_arg (Some k) (length k)"
  by (simp_all add: key_bytes_def key_arg_def)

lemma put_step:
  assumes inv: "bst_inv m" "order_ok m" "heap_ok h" "bst_owned m \<subseteq> live h" "valid_key m k"
    and va: "val_arg (lookup_entries (map_order m) k (entries m)) p n"
  obtains rv m' h' where "cbstmap_insert_elem (Some m) (Some (Some k, length k)) (Some (p, n)) h = Some (rv, m', h')"
    "bst_inv m'" "bst_frame m m'" "blocks_moved (bst_owned m) (bst_owned m') h h'"
    "entries m' = (if rv = ccol_success \<or> rv = ccol_key_already_present
       then upd_entries (map_order m) k
              (new_value (case lookup_entries (map_order m) k (entries m) of Some old \<Rightarrow> old | None \<Rightarrow> []) p n) (entries m)
       else entries m)"
    "rv = ccol_success \<Longrightarrow> lookup_entries (map_order m) k (entries m) = None"
proof -
  have va': "val_arg (lookup_entries (map_order m) (key_bytes (Some k) (length k)) (entries m)) p n" using va by simp
  have vk: "valid_key m (key_bytes (Some k) (length k))" using inv(5) by simp
  obtain rv m' h' where s: "cbstmap_insert_elem (Some m) (Some (Some k, length k)) (Some (p, n)) h = Some (rv, m', h')"
    "bst_inv m'" "bst_frame m m'" "blocks_moved (bst_owned m) (bst_owned m') h h'"
    "rv = insert_code m (Some (Some k, length k)) (Some (p, n)) h"
    "entries m' = (if rv = ccol_success \<or> rv = ccol_key_already_present
       then insert_entries m (Some (Some k, length k)) (Some (p, n)) else entries m)"
    by (rule insert_spec [OF inv(1-4) key_bytes_self(2) vk va'], rule that)
  have "rv = ccol_success \<Longrightarrow> lookup_entries (map_order m) k (entries m) = None"
    using s(5) by (auto split: if_splits option.splits)
  with that [OF s(1-4)] s(6) show ?thesis by (simp add: Let_def)
qed

lemma bst_step_sim:
  assumes inv: "bst_inv m" "order_ok m" "heap_ok h" "bst_owned m \<subseteq> live h"
    and pre: "map_pre (bm_key_type m) (map_order m) op (entries m)"
  shows "\<exists>ok m' h'. bst_step op m h = Some (ok, m', h') \<and> bst_inv m' \<and> bst_frame m m'
     \<and> entries m' = (if ok then map_spec (map_order m) op (entries m) else entries m)
     \<and> blocks_moved (bst_owned m) (bst_owned m') h h'"
proof -
  note oo = inv(2)
  show ?thesis
  proof (cases op)
    case (MPut k v)
    then have vk: "valid_key m k" using pre by (simp add: valid_key_def)
    have "val_arg (lookup_entries (map_order m) k (entries m)) (Ext v) (length v)"
      by (simp add: val_arg_def ext_value_def readable_def split: option.split)
    from put_step [OF inv(1) oo inv(3,4) vk this]
    obtain rv m' h' where s: "cbstmap_insert_elem (Some m) (Some (Some k, length k)) (Some (Ext v, length v)) h = Some (rv, m', h')"
      "bst_inv m'" "bst_frame m m'" "blocks_moved (bst_owned m) (bst_owned m') h h'"
      "entries m' = (if rv = ccol_success \<or> rv = ccol_key_already_present
         then upd_entries (map_order m) k
           (new_value (case lookup_entries (map_order m) k (entries m) of Some old \<Rightarrow> old | None \<Rightarrow> []) (Ext v) (length v)) (entries m)
         else entries m)" by blast
    have "new_value old (Ext v) (length v) = v" for old by (simp add: new_value_def read_ptr_def)
    then show ?thesis using s MPut by (simp add: bst_step_def)
  next
    case (MPutSelf k off n)
    then have vk: "valid_key m k" using pre by (simp add: valid_key_def)
    obtain old where old: "lookup_entries (map_order m) k (entries m) = Some old" "off + n \<le> length old"
      using pre MPutSelf by (auto split: option.splits)
    then have "val_arg (lookup_entries (map_order m) k (entries m)) (Self off) n"
      by (simp add: val_arg_def readable_def)
    from put_step [OF inv(1) oo inv(3,4) vk this]
    obtain rv m' h' where s: "cbstmap_insert_elem (Some m) (Some (Some k, length k)) (Some (Self off, n)) h = Some (rv, m', h')"
      "bst_inv m'" "bst_frame m m'" "blocks_moved (bst_owned m) (bst_owned m') h h'"
      "entries m' = (if rv = ccol_success \<or> rv = ccol_key_already_present
         then upd_entries (map_order m) k (new_value old (Self off) n) (entries m) else entries m)"
      "rv = ccol_success \<Longrightarrow> lookup_entries (map_order m) k (entries m) = None"
      unfolding old(1) option.case by blast
    have "new_value old (Self off) n = peek old off n" by (simp add: new_value_def read_ptr_def peek_0)
    moreover have "rv \<noteq> ccol_success" using s(6) old(1) by auto
    ultimately show ?thesis using s MPutSelf old(1) by (simp add: bst_step_def)
  next
    case (MDelete k)
    then have "valid_key m (key_bytes (Some k) (length k))" using pre by (simp add: valid_key_def)
    from delete_spec [OF inv(1) oo inv(4) key_bytes_self(2) this]
    obtain rv m' h' where s: "cbstmap_delete_elem (Some m) (Some (Some k, length k)) h = Some (rv, m', h')"
      "bst_inv m'" "bst_frame m m'" "blocks_moved (bst_owned m) (bst_owned m') h h'"
      "entries m' = del_entries (map_order m) k (entries m)"
      "rv = (if lookup_entries (map_order m) k (entries m) = None then ccol_key_not_found else ccol_success)"
      unfolding key_bytes_self(1) by blast
    have "del_entries (map_order m) k (entries m) = entries m" if "lookup_entries (map_order m) k (entries m) = None"
      using that by (auto simp: lookup_entries_def del_entries_def find_None_iff filter_id_conv)
    then show ?thesis using s MDelete by (auto simp: bst_step_def)
  next
    case MReset
    then show ?thesis using reset_map_spec [OF inv(1,4)] by (auto simp: bst_step_def)
  qed
qed

text \<open>
  What a map demands of its comparator: a total order on the keys of the key
  type.  The built-in comparators give it; a map under any comparator that
  gives it is a container whose contents are the sorted entries.
\<close>

locale key_comparator =
  fixes kt :: ccol_data_type and custom :: "key_cmp option"
  assumes total: "total_cmp (caller_order kt custom) (key_size_is_valid_for_type kt)"
begin

lemma comparator_order:
  assumes "bm_key_type m = kt" "bm_custom m = custom"
  shows "map_order m = caller_order kt custom" "order_ok m"
  using total assms by (simp_all add: map_order_def key_order_caller order_ok_def valid_key_def)

end

interpretation builtin_comparator: key_comparator kt None for kt
  by (rule key_comparator.intro) (simp add: caller_order_def key_order_builtin)

sublocale key_comparator \<subseteq> bst: container "bst_create kt mp custom" bst_step "\<lambda>m. cbstmap_destroy (Some m)" "[]"
  "map_spec (caller_order kt custom)" "map_pre kt (caller_order kt custom)"
  entries "\<lambda>m. bst_inv m \<and> bm_key_type m = kt \<and> bm_custom m = custom" bst_owned for mp
proof
  fix h h' assume "heap_ok h" "bst_create kt mp custom h = (None, h')"
  then show "blocks_kept h h'"
    using create_map_spec [of h kt mp custom] by (auto simp: bst_create_def split: prod.splits sum.splits)
next
  fix h c h' assume "heap_ok h" "bst_create kt mp custom h = (Some c, h')"
  then show "(bst_inv c \<and> bm_key_type c = kt \<and> bm_custom c = custom) \<and> entries c = [] \<and> blocks_moved {} (bst_owned c) h h'"
    using create_map_spec [of h kt mp custom] by (auto simp: bst_create_def split: prod.splits sum.splits)
next
  fix c op and h :: heap
  assume c: "bst_inv c \<and> bm_key_type c = kt \<and> bm_custom c = custom" "heap_ok h" "bst_owned c \<subseteq> live h"
    "map_pre kt (caller_order kt custom) op (entries c)"
  note o = comparator_order [of c]
  obtain ok m' h' where s: "bst_step op c h = Some (ok, m', h')" "bst_inv m'" "bst_frame c m'"
      "entries m' = (if ok then map_spec (caller_order kt custom) op (entries c) else entries c)" "blocks_moved (bst_owned c) (bst_owned m') h h'"
    using bst_step_sim [of c h op] c o by auto
  have "bm_key_type m' = kt" "bm_custom m' = custom" using bst_frame_order(5,6) [OF s(3)] c(1) by auto
  then show "\<exists>ok c' h'. bst_step op c h = Some (ok, c', h') \<and> (bst_inv c' \<and> bm_key_type c' = kt \<and> bm_custom c' = custom)
      \<and> entries c' = (if ok then map_spec (caller_order kt custom) op (entries c) else entries c) \<and> blocks_moved (bst_owned c) (bst_owned c') h h'"
    using s by blast
next
  fix c and h :: heap
  assume "bst_inv c \<and> bm_key_type c = kt \<and> bm_custom c = custom"
  then show "\<exists>h'. cbstmap_destroy (Some c) h = Some h' \<and> live h' = live h - bst_owned c"
    using destroy_map_spec by blast
qed

context key_comparator
begin

lemma map_lifecycle:
  assumes "heap_ok h" "cbstmap_create_full kt mp custom h = (Inr m, h1)"
    "pre_ops (map_pre kt (caller_order kt custom)) (map_spec (caller_order kt custom)) ops []"
  shows "\<exists>oks m' h2 h3. run_ops bst_step ops m h1 = Some (oks, m', h2) \<and> length oks = length ops
     \<and> entries m' = spec_ops (map_spec (caller_order kt custom)) ops oks [] \<and> bst_inv m'
     \<and> sorted_wrt (\<lambda>a b. caller_order kt custom (fst a) (fst b) < 0) (entries m')
     \<and> cbstmap_destroy (Some m') h2 = Some h3 \<and> live h3 = live h"
proof -
  have "bst_create kt mp custom h = (Some m, h1)" using assms(2) by (simp add: bst_create_def)
  from bst.lifecycle [OF assms(1) this assms(3)]
  obtain oks m' h2 h3 where r: "run_ops bst_step ops m h1 = Some (oks, m', h2)" "length oks = length ops"
    "entries m' = spec_ops (map_spec (caller_order kt custom)) ops oks []" "bst_inv m'" "bm_key_type m' = kt" "bm_custom m' = custom"
    "cbstmap_destroy (Some m') h2 = Some h3" "live h3 = live h" by blast
  have "sorted_nodes (caller_order kt custom) (nodes (bm_root m'))"
    using r(4) comparator_order(1) [OF r(5,6)] by (simp add: bst_inv_def)
  then have "sorted_wrt (\<lambda>a b. caller_order kt custom (fst a) (fst b) < 0) (entries m')"
    by (simp add: sorted_nodes_def entries_def entry_def sorted_wrt_map)
  then show ?thesis using r by blast
qed

end

text \<open>A map of \<^verbatim>\<open>int\<close> keys with the entry 5, as one node of the default allocator.\<close>

definition one_entry_map :: cbstmap where
  "one_entry_map = \<lparr>bm_elem_count = 1,
     bm_root = Nd Tip \<lparr>bn_addr = 1, bn_key = [5, 0, 0, 0], bn_val = [77, 78], bn_val_external = None\<rparr> 1 Tip,
     bm_m_procs = DefaultProcs, bm_key_type = ccol_int, bm_key_alignment = 4, bm_custom = None, bm_key_offset = 56,
     bm_cmp_kind = CBMAP_CMP_S32, bm_blk = 0, bm_procs_blk = None\<rparr>"

lemma one_entry_map_ok:
  "bst_inv one_entry_map" "order_ok one_entry_map" "bst_owned one_entry_map = {0, 1}"
  "valid_key one_entry_map [a, b, c, d]" "entries one_entry_map = [([5, 0, 0, 0], [77, 78])]"
  "map_order one_entry_map = key_order ccol_int None"
  by (auto simp: one_entry_map_def bst_inv_def close_def size_defs valid_key_def key_size_is_valid_for_type_def
      sorted_nodes_def own_blks_def node_blks_def cbmap_cmp_kind_def signed_kind_def CBMAP_ALIGN_UP_TO_def sz_add_def
      bst_owned_def entries_def entry_def map_order_def intro: order_ok_builtin)

lemma key_order_int: "key_order ccol_int None [a, b, c, d] [a', b', c', d'] =
    cmp3 (rd_signed 4 [a, b, c, d]) (rd_signed 4 [a', b', c', d'])"
  by (simp add: key_order_def compare_keys_def cmp_signed_small_def ccol_typed_cmp_def)

text \<open>
  Claim C3.  The tree map refines an ordered association list.  For every key type,
  allocator, comparator of the caller that is a total order on the keys (or none, for the
  order of the key type) and program of insertions, updates (also with a value that
  points into the stored value), deletions and resets: the program runs to its end, so no
  assertion on balance or path length fails and no copy is undefined; every
  operation that reports success acts on the entries, sorted by the order the
  caller asked for, as the list operation, every other one leaves them; the result
  satisfies the AVL invariant with sorted keys; and destroying the map leaves exactly the
  blocks that were live before it was created.
\<close>

theorem bst_refines_ordered_map:
  assumes "heap_ok h" "cbstmap_create_full kt mp custom h = (Inr m, h1)"
    "total_cmp (caller_order kt custom) (key_size_is_valid_for_type kt)"
    "pre_ops (map_pre kt (caller_order kt custom)) (map_spec (caller_order kt custom)) ops []"
  shows "\<exists>oks m' h2 h3. run_ops bst_step ops m h1 = Some (oks, m', h2) \<and> length oks = length ops
     \<and> entries m' = spec_ops (map_spec (caller_order kt custom)) ops oks [] \<and> bst_inv m'
     \<and> sorted_wrt (\<lambda>a b. caller_order kt custom (fst a) (fst b) < 0) (entries m')
     \<and> cbstmap_destroy (Some m') h2 = Some h3 \<and> live h3 = live h"
  using key_comparator.map_lifecycle [OF key_comparator.intro [OF assms(3)] assms(1,2,4)] .

text \<open>Keys in descending order: the caller's comparator is the reverse of \<^verbatim>\<open>memcmp\<close>.\<close>

definition descending :: key_cmp where
  "descending a b = lexcmp b a"

lemma descending_total: "total_cmp descending P"
  by (auto intro!: total_cmp.intro lexcmp_sgn simp: descending_def intro: lexcmp_trans)

theorem bst_refines_ordered_map_witness:
  "\<exists>m h1. cbstmap_create_full ccol_short DefaultProcs (Some descending)
       \<lparr>answers = [Grant (\<lambda>_. 0), Grant (\<lambda>_. 0), Grant (\<lambda>_. 0)], next_blk = 0, live = {}\<rparr> = (Inr m, h1)
     \<and> (\<exists>oks m' h2 h3. run_ops bst_step [MPut [1, 0] [7], MPut [9, 0] [8, 8]] m h1 = Some (oks, m', h2)
          \<and> entries m' = spec_ops (map_spec descending) [MPut [1, 0] [7], MPut [9, 0] [8, 8]] oks []
          \<and> cbstmap_destroy (Some m') h2 = Some h3 \<and> live h3 = {})
     \<and> spec_ops (map_spec descending) [MPut [1, 0] [7], MPut [9, 0] [8, 8]] [True, True] [] = [([9, 0], [8, 8]), ([1, 0], [7])]"
proof -
  define h where "h = \<lparr>answers = [Grant (\<lambda>_. 0), Grant (\<lambda>_. 0), Grant (\<lambda>_. 0)], next_blk = 0, live = {} :: nat set\<rparr>"
  have ho: "heap_ok h" "live h = {}" by (simp_all add: h_def heap_ok_def)
  have "\<exists>m h1. cbstmap_create_full ccol_short DefaultProcs (Some descending) h = (Inr m, h1)"
    by (simp add: h_def cbstmap_create_full_def verify_cbmap_create_inputs_def ccol_verify_memmgmt_procs_def mem_alloc_def)
  then obtain m h1 where c: "cbstmap_create_full ccol_short DefaultProcs (Some descending) h = (Inr m, h1)" by blast
  have o: "caller_order ccol_short (Some descending) = descending" by (simp add: caller_order_def)
  have p: "pre_ops (map_pre ccol_short descending) (map_spec descending) [MPut [1, 0] [7], MPut [9, 0] [8, 8]] []"
    by (simp add: key_size_is_valid_for_type_def)
  have e: "spec_ops (map_spec descending) [MPut [1, 0] [7], MPut [9, 0] [8, 8]] [True, True] [] = [([9, 0], [8, 8]), ([1, 0], [7])]"
    by (simp add: descending_def)
  show ?thesis unfolding h_def [symmetric]
    using c e bst_refines_ordered_map [OF ho(1) c, unfolded o, OF descending_total p] ho(2) by auto
qed

text \<open>The caller's side of an insertion: what its pairs point to can be read.  A null pointer may come with any size.\<close>

fun pairs_in_memory :: "cbstmap \<Rightarrow> key_pair \<Rightarrow> val_pair \<Rightarrow> bool" where
  "pairs_in_memory m (Some (kp, ks)) (Some (vp, vs)) \<longleftrightarrow>
     (case kp of None \<Rightarrow> True | Some bs \<Rightarrow> ks \<le> length bs)
     \<and> (vp = Null \<or> val_arg (lookup_entries (map_order m) (key_bytes kp ks) (entries m)) vp vs)"
| "pairs_in_memory m _ _ \<longleftrightarrow> True"

text \<open>
  Claim C13.  \<^verbatim>\<open>cbstmap_insert_elem\<close> on any map that satisfies the invariant, with any
  comparator that is a total order on its keys, any pairs (null ones and pairs with a null
  pointer too) and any allocator.  Its code is determined on every branch: \<^verbatim>\<open>ccol_invalid_args\<close>
  for a null pair, a null pointer with a size or a key of the wrong size, and then neither
  the map nor the allocator is touched; for a present key
  \<^verbatim>\<open>ccol_key_already_present\<close>, or \<^verbatim>\<open>ccol_not_enough_memory\<close> exactly when the size changes to another
  positive one and the allocator refuses; for an absent key \<^verbatim>\<open>ccol_container_full\<close> exactly at
  the count limit, \<^verbatim>\<open>ccol_not_enough_memory\<close> exactly when the node does not fit into \<^verbatim>\<open>size_t\<close>
  or the allocator refuses, and \<^verbatim>\<open>ccol_success\<close> otherwise.  A present key gets the new value,
  read before the old storage is written or freed, also when it points into it; an
  absent key gets an entry at its place in the order; every error leaves the entries.
\<close>

theorem insert_correct:
  assumes "bst_inv m" "order_ok m" "heap_ok h" "bst_owned m \<subseteq> live h" "pairs_in_memory m kpair vpair"
  shows "\<exists>rv m' h'. cbstmap_insert_elem (Some m) kpair vpair h = Some (rv, m', h')
     \<and> bst_inv m' \<and> bst_frame m m' \<and> blocks_moved (bst_owned m) (bst_owned m') h h'
     \<and> rv = insert_code m kpair vpair h
     \<and> entries m' = (if rv = ccol_success \<or> rv = ccol_key_already_present then insert_entries m kpair vpair else entries m)
     \<and> (rv = ccol_invalid_args \<longrightarrow> m' = m \<and> h' = h)"
proof (cases "insert_code m kpair vpair h = ccol_invalid_args")
  case True
  then have "cbstmap_insert_elem (Some m) kpair vpair h = Some (ccol_invalid_args, m, h)"
    by (cases "(m, kpair, vpair, h)" rule: insert_code.cases)
      (auto simp: cbstmap_insert_elem_def pair_bytes_are_readable_def valid_key_def split: if_splits option.splits)
  then show ?thesis using assms(1) True moved_refl [OF assms(4)] by auto
next
  case False
  then obtain kp ks vp vs where p: "kpair = Some (kp, ks)" "vpair = Some (vp, vs)"
    by (cases "(m, kpair, vpair, h)" rule: insert_code.cases) auto
  have a: "\<not> (kp = None \<and> ks > 0)" "\<not> (vp = Null \<and> vs > 0)" "valid_key m (key_bytes kp ks)" using False p by (auto split: if_splits)
  have ka: "key_arg kp ks" using a(1) assms(5) p by (auto simp: key_arg_def split: option.splits)
  have va: "val_arg (lookup_entries (map_order m) (key_bytes kp ks) (entries m)) vp vs"
    using a(2) assms(5) p by (auto simp: val_arg_def ext_value_def split: option.splits)
  show ?thesis unfolding p by (rule insert_spec [OF assms(1-4) ka a(3) va]) (use False p in blast)
qed

theorem insert_correct_witness:
  "let h = \<lparr>answers = [Grant (\<lambda>_. 0)], next_blk = 2, live = {0, 1}\<rparr>; r = h\<lparr>answers := [Refuse]\<rparr>
   in (\<exists>m' h'. cbstmap_insert_elem (Some one_entry_map) (Some (Some [5, 0, 0, 0], 4)) (Some (Self 1, 1)) h
           = Some (ccol_key_already_present, m', h') \<and> entries m' = [([5, 0, 0, 0], [78])])
      \<and> (\<exists>m' h'. cbstmap_insert_elem (Some one_entry_map) (Some (Some [5, 0, 0, 0], 4)) (Some (Self 1, 1)) r
           = Some (ccol_not_enough_memory, m', h') \<and> entries m' = [([5, 0, 0, 0], [77, 78])])
      \<and> cbstmap_insert_elem (Some one_entry_map) (Some (None, 4)) (Some (Null, 0)) h = Some (ccol_invalid_args, one_entry_map, h)"
proof -
  define h where "h = \<lparr>answers = [Grant (\<lambda>_. 0)], next_blk = 2, live = {0, 1::nat}\<rparr>"
  define r where "r = h\<lparr>answers := [Refuse]\<rparr>"
  have h: "heap_ok h" "bst_owned one_entry_map \<subseteq> live h" "\<not> refused h" by (simp_all add: h_def heap_ok_def one_entry_map_ok refused_def)
  have r: "heap_ok r" "bst_owned one_entry_map \<subseteq> live r" "refused r" by (simp_all add: r_def h_def heap_ok_def one_entry_map_ok refused_def)
  have k: "key_bytes (Some [5, 0, 0, 0]) 4 = [5, 0, 0, 0::byte]" by (simp add: key_bytes_def)
  have f: "key_order ccol_int None [5, 0, 0, 0] [5, 0, 0, 0] = 0" by (simp add: key_order_int cmp3_def)
  have l: "lookup_entries (map_order one_entry_map) [5, 0, 0, 0] (entries one_entry_map) = Some [77, 78]"
    by (simp add: one_entry_map_ok lookup_entries_def f)
  have p: "pairs_in_memory one_entry_map (Some (Some [5, 0, 0, 0], 4)) (Some (Self 1, 1))"
    unfolding pairs_in_memory.simps k l by (simp add: val_arg_def readable_def)
  have c: "insert_code one_entry_map (Some (Some [5, 0, 0, 0], 4)) (Some (Self 1, 1)) h = ccol_key_already_present"
    "insert_code one_entry_map (Some (Some [5, 0, 0, 0], 4)) (Some (Self 1, 1)) r = ccol_not_enough_memory"
    unfolding insert_code.simps k l using one_entry_map_ok(4) [of 5 0 0 0] h(3) r(3) by simp_all
  have nv: "new_value [77, 78] (Self 1) 1 = [78::byte]" by (simp add: new_value_def read_ptr_def peek_def)
  have e: "insert_entries one_entry_map (Some (Some [5, 0, 0, 0], 4)) (Some (Self 1, 1)) = [([5, 0, 0, 0], [78])]"
    unfolding insert_entries.simps k l Let_def option.case nv by (simp add: one_entry_map_ok f)
  note t = insert_correct [OF one_entry_map_ok(1,2)]
  have "\<exists>m' h'. cbstmap_insert_elem (Some one_entry_map) (Some (Some [5, 0, 0, 0], 4)) (Some (Self 1, 1)) h
      = Some (ccol_key_already_present, m', h') \<and> entries m' = [([5, 0, 0, 0], [78])]"
    using t [OF h(1,2) p] unfolding c e by auto
  moreover have "\<exists>m' h'. cbstmap_insert_elem (Some one_entry_map) (Some (Some [5, 0, 0, 0], 4)) (Some (Self 1, 1)) r
      = Some (ccol_not_enough_memory, m', h') \<and> entries m' = [([5, 0, 0, 0], [77, 78])]"
    using t [OF r(1,2) p] unfolding c e one_entry_map_ok(5) by auto
  moreover have "cbstmap_insert_elem (Some one_entry_map) (Some (None, 4)) (Some (Null, 0)) h = Some (ccol_invalid_args, one_entry_map, h)"
    using t [OF h(1,2), of "Some (None, 4)" "Some (Null, 0)"] by auto
  ultimately show ?thesis unfolding Let_def h_def [symmetric] r_def [symmetric] by blast
qed

text \<open>
  Claim C14.  \<^verbatim>\<open>cbstmap_delete_elem\<close> removes exactly the entry of the key, frees the
  node's blocks and no other, keeps the AVL invariant, and reports whether the
  key was there.
\<close>

theorem delete_correct:
  assumes "bst_inv m" "order_ok m" "bst_owned m \<subseteq> live h" "key_arg kp ks" "valid_key m (key_bytes kp ks)"
  shows "\<exists>rv m' h'. cbstmap_delete_elem (Some m) (Some (kp, ks)) h = Some (rv, m', h')
     \<and> bst_inv m' \<and> bst_frame m m' \<and> blocks_moved (bst_owned m) (bst_owned m') h h'
     \<and> entries m' = del_entries (map_order m) (key_bytes kp ks) (entries m)
     \<and> rv = (if lookup_entries (map_order m) (key_bytes kp ks) (entries m) = None then ccol_key_not_found else ccol_success)"
  by (rule delete_spec [OF assms]) blast

theorem delete_correct_witness:
  "let h = \<lparr>answers = [], next_blk = 2, live = {0, 1}\<rparr>
   in \<exists>m' h'. cbstmap_delete_elem (Some one_entry_map) (Some (Some [5, 0, 0, 0], 4)) h = Some (ccol_success, m', h')
      \<and> entries m' = []"
proof -
  define h where "h = \<lparr>answers = [], next_blk = 2, live = {0, 1::nat}\<rparr>"
  have h: "bst_owned one_entry_map \<subseteq> live h" by (simp add: h_def one_entry_map_ok)
  have k: "key_arg (Some [5, 0, 0, 0]) 4" "key_bytes (Some [5, 0, 0, 0]) 4 = [5, 0, 0, 0::byte]"
    by (simp_all add: key_arg_def key_bytes_def)
  have f: "key_order ccol_int None [5, 0, 0, 0] [5, 0, 0, 0] = 0" by (simp add: key_order_int cmp3_def)
  from delete_correct [OF one_entry_map_ok(1,2) h k(1), unfolded k(2), OF one_entry_map_ok(4)]
  show ?thesis unfolding h_def [symmetric] Let_def
    by (auto simp: one_entry_map_ok f lookup_entries_def del_entries_def)
qed

section \<open>Lookup\<close>

lemma find_lookup:
  assumes "bst_inv m" "order_ok m" "valid_key m key"
  obtains n where "cbmap_find_node m key = Some (Some n)" "lookup_entries (map_order m) key (entries m) = Some (bn_val n)"
    "n \<in> set (nodes (bm_root m))"
  | "cbmap_find_node m key = Some None" "lookup_entries (map_order m) key (entries m) = None"
proof (cases "find (\<lambda>n. map_order m key (bn_key n) = 0) (nodes (bm_root m))")
  case None
  then show ?thesis using that(2) find_node_spec [OF assms] by (simp add: entries_def lookup_nodes)
next
  case (Some n)
  then have "n \<in> set (nodes (bm_root m))" by (auto simp: find_Some_iff)
  then show ?thesis using that(1) [of n] Some find_node_spec [OF assms] by (simp add: entries_def lookup_nodes)
qed

text \<open>
  \<^verbatim>\<open>cbstmap_get_elem_copy\<close> and \<^verbatim>\<open>cbstmap_get_elem_ref\<close> look up the
  ordered entries: both report an absent key as \<^verbatim>\<open>ccol_key_not_found\<close>; the copy
  fills the buffer with the stored value exactly when the sizes agree and leaves
  the buffer alone otherwise, and the reference gives the node that holds the value.
\<close>

theorem get_correct:
  assumes "bst_inv m" "order_ok m" "key_arg kp ks" "valid_key m (key_bytes kp ks)"
  shows "case lookup_entries (map_order m) (key_bytes kp ks) (entries m) of
       None \<Rightarrow> cbstmap_get_elem_copy (Some m) (Some (kp, ks)) (Some buf) (length buf) = Some (ccol_key_not_found, Some buf)
             \<and> cbstmap_get_elem_ref (Some m) (Some (kp, ks)) True = Some (ccol_key_not_found, None)
     | Some v \<Rightarrow> cbstmap_get_elem_copy (Some m) (Some (kp, ks)) (Some buf) (length buf)
                 = Some (if length buf = length v then (ccol_success, Some v) else (ccol_invalid_args, Some buf))
             \<and> (\<exists>n \<in> set (nodes (bm_root m)). bn_val n = v
                  \<and> cbstmap_get_elem_ref (Some m) (Some (kp, ks)) True = Some (ccol_success, Some n))"
proof -
  have pre: "pair_bytes_are_readable (kp = None) ks" "key_size_is_valid_for_type (bm_key_type m) (key_bytes kp ks)"
    using key_arg_readable [OF assms(3)] assms(4) by (auto simp: valid_key_def)
  note d = cbstmap_get_elem_copy_def cbstmap_get_elem_ref_def cbmap_lookup_checked_def
  from find_lookup [OF assms(1,2,4)] show ?thesis
  proof cases
    case (1 n)
    have "memcpy buf 0 (Ext (bn_val n)) (length buf) = Some (bn_val n)" if "length buf = length (bn_val n)"
      using that by (simp add: memcpy_Some readable_def read_ptr_def) (simp add: poke_def)
    then show ?thesis using 1 pre by (cases "buf = []") (auto simp: d)
  next
    case 2
    then show ?thesis using pre by (simp add: d)
  qed
qed

theorem get_correct_witness:
  "cbstmap_get_elem_copy (Some one_entry_map) (Some (Some [5, 0, 0, 0], 4)) (Some [0, 0]) (length [0, 0::byte])
     = Some (ccol_success, Some [77, 78])"
proof -
  have k: "key_arg (Some [5, 0, 0, 0]) 4" "key_bytes (Some [5, 0, 0, 0]) 4 = [5, 0, 0, 0::byte]"
    by (simp_all add: key_arg_def key_bytes_def)
  have f: "key_order ccol_int None [5, 0, 0, 0] [5, 0, 0, 0] = 0" by (simp add: key_order_int cmp3_def)
  have l: "lookup_entries (map_order one_entry_map) [5, 0, 0, 0] (entries one_entry_map) = Some [77, 78]"
    by (simp add: one_entry_map_ok lookup_entries_def f)
  show ?thesis
    using get_correct [OF one_entry_map_ok(1,2) k(1), unfolded k(2) l, OF one_entry_map_ok(4), of "[0, 0]"] by simp
qed

lemma lookup_upd:
  assumes "total_cmp f P" "P k" "P k'" "\<forall>x \<in> set xs. P (fst x)"
  shows "lookup_entries f k' (upd_entries f k v xs) = (if f k' k = 0 then Some v else lookup_entries f k' xs)"
  using assms(4)
proof (induction xs)
  case Nil
  then show ?case by (simp add: lookup_entries_def)
next
  case (Cons x xs)
  obtain kx vx where x: "x = (kx, vx)" by fastforce
  have p: "P kx" using Cons.prems x by simp
  note e = total_cmp.cmp_eq_less(2) [OF assms(1)]
  have a: "f k' k = 0 \<Longrightarrow> f k' kx = 0 \<longleftrightarrow> f k kx = 0" using e [of k' k kx] assms(2,3) p by simp
  have b: "f k kx = 0 \<Longrightarrow> f k' kx = 0 \<longleftrightarrow> f k' k = 0"
    using e [of k kx k'] total_cmp.cmp_zero_iff [OF assms(1)] assms(2,3) p by metis
  have ih: "lookup_entries f k' (upd_entries f k v xs) = (if f k' k = 0 then Some v else lookup_entries f k' xs)"
    using Cons by simp
  have c: "lookup_entries f k' ((k1, v1) # ys) = (if f k' k1 = 0 then Some v1 else lookup_entries f k' ys)" for k1 v1 ys
    by (simp add: lookup_entries_def)
  show ?case using a b ih by (auto simp: x c)
qed

text \<open>
  What was inserted is what is found: after an insertion or update that
  reports success, a lookup of any key that compares equal to the inserted one
  gives the new value, and a lookup of any other key gives what it gave before.
\<close>

theorem insert_then_get:
  assumes "bst_inv m" "order_ok m" "heap_ok h" "bst_owned m \<subseteq> live h" "valid_key m k" "valid_key m k'"
    "cbstmap_insert_elem (Some m) (Some (Some k, length k)) (Some (Ext v, length v)) h = Some (rv, m', h')"
    "rv = ccol_success \<or> rv = ccol_key_already_present"
  shows "\<exists>rv' n. cbstmap_get_elem_ref (Some m') (Some (Some k', length k')) True = Some (rv', n)
     \<and> map_option bn_val n = (if map_order m k' k = 0 then Some v else lookup_entries (map_order m) k' (entries m))
     \<and> rv' = (if n = None then ccol_key_not_found else ccol_success)"
proof -
  have "val_arg (lookup_entries (map_order m) k (entries m)) (Ext v) (length v)"
    by (simp add: val_arg_def ext_value_def readable_def split: option.split)
  from put_step [OF assms(1-5) this]
  obtain rv1 m1 h1 where s: "cbstmap_insert_elem (Some m) (Some (Some k, length k)) (Some (Ext v, length v)) h = Some (rv1, m1, h1)"
    "bst_inv m1" "bst_frame m m1"
    "entries m1 = (if rv1 = ccol_success \<or> rv1 = ccol_key_already_present
       then upd_entries (map_order m) k
         (new_value (case lookup_entries (map_order m) k (entries m) of Some old \<Rightarrow> old | None \<Rightarrow> []) (Ext v) (length v)) (entries m)
       else entries m)" by blast
  have eq: "rv1 = rv" "m1 = m'" using s(1) assms(7) by auto
  have nv: "new_value old (Ext v) (length v) = v" for old by (simp add: new_value_def read_ptr_def)
  note fr = bst_frame_order [OF s(3), unfolded eq]
  have tc: "total_cmp (map_order m) (valid_key m)" using assms(2) by (simp add: order_ok_def)
  have ks: "\<forall>x \<in> set (entries m). valid_key m (fst x)" using assms(1) by (auto simp: bst_inv_def entries_def entry_def)
  have lk: "lookup_entries (map_order m') k' (entries m')
      = (if map_order m k' k = 0 then Some v else lookup_entries (map_order m) k' (entries m))"
    using s(4) assms(8) lookup_upd [OF tc assms(5,6) ks, of v] unfolding eq nv fr(1) by simp
  have vk': "valid_key m' k'" "order_ok m'" "bst_inv m'" using assms(2,6) fr(2,3) s(2) eq by auto
  have pre: "key_size_is_valid_for_type (bm_key_type m') k'" using vk'(1) by (simp add: valid_key_def)
  note d = cbstmap_get_elem_ref_def cbmap_lookup_checked_def pair_bytes_are_readable_def
  from find_lookup [OF vk'(3,2,1)] show ?thesis
  proof cases
    case (1 n)
    then show ?thesis using lk pre by (simp add: d)
  next
    case 2
    then show ?thesis using lk pre by (simp add: d)
  qed
qed

theorem insert_then_get_witness:
  "\<exists>m' h' n. cbstmap_insert_elem (Some one_entry_map) (Some (Some [5, 0, 0, 0], length [5, 0, 0, 0::byte]))
        (Some (Ext [9, 9], length [9, 9::byte])) \<lparr>answers = [], next_blk = 2, live = {0, 1}\<rparr>
        = Some (ccol_key_already_present, m', h')
     \<and> cbstmap_get_elem_ref (Some m') (Some (Some [5, 0, 0, 0], length [5, 0, 0, 0::byte])) True = Some (ccol_success, Some n)
     \<and> bn_val n = [9, 9]"
proof -
  define h where "h = \<lparr>answers = [], next_blk = 2, live = {0, 1::nat}\<rparr>"
  have h: "heap_ok h" "bst_owned one_entry_map \<subseteq> live h" by (simp_all add: h_def heap_ok_def one_entry_map_ok)
  have f: "map_order one_entry_map [5, 0, 0, 0] [5, 0, 0, 0] = 0" by (simp add: one_entry_map_ok key_order_int cmp3_def)
  obtain m' h' where i: "cbstmap_insert_elem (Some one_entry_map) (Some (Some [5, 0, 0, 0], length [5, 0, 0, 0::byte]))
        (Some (Ext [9, 9], length [9, 9::byte])) h = Some (ccol_key_already_present, m', h')"
    by (simp add: one_entry_map_def cbstmap_insert_elem_def pair_bytes_are_readable_def key_bytes_def
        key_size_is_valid_for_type_def cbmap_descend_with_path_def update_bmap_node_value_def memmove_def readable_def)
  from insert_then_get [OF one_entry_map_ok(1,2) h one_entry_map_ok(4)
      one_entry_map_ok(4) [of 5 0 0 0] i] f
  have "\<exists>n. cbstmap_get_elem_ref (Some m') (Some (Some [5, 0, 0, 0], length [5, 0, 0, 0::byte])) True = Some (ccol_success, Some n)
     \<and> bn_val n = [9, 9]" by auto
  then show ?thesis using i unfolding h_def by blast
qed

section \<open>The bound on the height\<close>

text \<open>
  Claim C33.  The balance of a map keeps its fixed arrays safe: a map that satisfies
  the invariant is at most about twice as high as the logarithm of its number of
  entries, its height fits the path arrays of 128 entries for every count up to
  the limit of 2^63, and no stored height is truncated to its one byte.
\<close>

theorem height_fits_arrays:
  assumes "bst_inv m"
  shows "2 ^ (node_height (bm_root m) div 2) \<le> bm_elem_count m + 1 \<and> node_height (bm_root m) < CBMAP_MAX_TREE_HEIGHT
     \<and> recalculate_node_height (bm_root m) = bm_root m"
proof -
  have a: "avl (bm_root m)" "length (nodes (bm_root m)) = bm_elem_count m" using assms by (auto simp: bst_inv_def)
  have "recalculate_node_height (bm_root m) = bm_root m"
    using a(1) bst_height [OF assms] by (cases "bm_root m") (auto simp: recalculated_def size_defs)
  then show ?thesis using avl_size [OF a(1)] a(2) bst_height [OF assms] by simp
qed

theorem height_fits_arrays_witness:
  "bst_inv one_entry_map \<and> 2 ^ (node_height (bm_root one_entry_map) div 2) \<le> bm_elem_count one_entry_map + 1
     \<and> recalculate_node_height (bm_root one_entry_map) = bm_root one_entry_map"
  using height_fits_arrays [OF one_entry_map_ok(1)] one_entry_map_ok(1) by simp

text \<open>
  The typed lookup that a map of integer keys makes, with one read of the
  wanted key and comparisons of two integers, finds the node that the generic
  lookup through \<^verbatim>\<open>compare_keys\<close> finds.
\<close>

theorem find_fast_path_equiv:
  assumes "bst_inv m" "valid_key m key" "kind_read (bm_cmp_kind m) = Some rd"
  shows "find_generic (map_compare m) key (bm_root m) = Some (find_typed rd (rd key) (bm_root m))
     \<and> descend_generic (map_compare m) key path (bm_root m) = descend_typed rd (rd key) path (bm_root m)"
  using find_typed_generic [of "bm_root m" "map_compare m" key rd, OF kind_compare [OF assms(1,3,2)]]
    descend_typed_generic [of "bm_root m" "map_compare m" key rd, OF kind_compare [OF assms(1,3,2)]] by simp

theorem find_fast_path_equiv_witness:
  "find_generic (map_compare one_entry_map) [5, 0, 0, 0] (bm_root one_entry_map)
     = Some (find_typed (rd_signed 4) (rd_signed 4 [5, 0, 0, 0]) (bm_root one_entry_map))"
proof -
  have "kind_read (bm_cmp_kind one_entry_map) = Some (rd_signed 4)" by (simp add: one_entry_map_def)
  then show ?thesis using find_fast_path_equiv [OF one_entry_map_ok(1,4)] by blast
qed

section \<open>Iteration\<close>

fun stack_nodes :: "btree list \<Rightarrow> bmap_node list" where
  "stack_nodes [] = []"
| "stack_nodes (Tip # st) = stack_nodes st"
| "stack_nodes (Nd l n ht r # st) = n # nodes r @ stack_nodes st"

fun stack_ok :: "btree list \<Rightarrow> bool" where
  "stack_ok [] = True"
| "stack_ok (t # st) \<longleftrightarrow> t \<noteq> Tip \<and> avl t \<and> length st + node_height t \<le> CBMAP_MAX_TREE_HEIGHT \<and> stack_ok st"

lemma push_lefts_spec:
  "avl t \<Longrightarrow> length st + node_height t \<le> CBMAP_MAX_TREE_HEIGHT \<Longrightarrow> stack_ok st \<Longrightarrow>
     \<exists>st'. push_all_lefts_into_iter_stack st t = Some st' \<and> stack_ok st' \<and> stack_nodes st' = nodes t @ stack_nodes st"
proof (induction t arbitrary: st)
  case (Nd l n ht r)
  have "length st < CBMAP_MAX_TREE_HEIGHT" "length (Nd l n ht r # st) + node_height l \<le> CBMAP_MAX_TREE_HEIGHT"
    using Nd.prems(1,2) by auto
  then show ?case using Nd.IH(1) [of "Nd l n ht r # st"] Nd.prems by auto
qed simp

lemma next_spec:
  assumes "stack_ok (Nd l n ht r # st)"
  shows "\<exists>st'. cmap_real_iter_next (Nd l n ht r # st) b h
       = Some (Some \<lparr>bi_node_stack = st', bi_node = n, bi_blk = b\<rparr>, h) \<and> stack_ok st' \<and> stack_nodes st' = nodes r @ stack_nodes st"
proof (cases "r = Tip")
  case False
  have "avl r" "length st + node_height r \<le> CBMAP_MAX_TREE_HEIGHT" "stack_ok st" using assms by auto
  from push_lefts_spec [OF this] show ?thesis using False by (auto simp: cmap_real_iter_next_def)
qed (use assms in \<open>auto simp: cmap_real_iter_next_def\<close>)

lemma visit_stack:
  "stack_ok (bi_node_stack it) \<Longrightarrow>
     bst_visit (Some it) h = Some (bi_node it # stack_nodes (bi_node_stack it), mem_free h (bi_blk it))"
proof (induction "length (stack_nodes (bi_node_stack it))" arbitrary: it rule: less_induct)
  case less
  have stop: "bst_visit None h' = Some ([], h')" for h' by (subst bst_visit.simps) simp
  show ?case
  proof (cases "bi_node_stack it")
    case Nil
    then show ?thesis by (subst bst_visit.simps) (simp add: cbmap_iter_next_def cmap_real_iter_next_def stop)
  next
    case (Cons t st)
    obtain l n ht r where t: "t = Nd l n ht r" using less.prems Cons by (cases t) auto
    obtain st' where s: "cmap_real_iter_next (t # st) (bi_blk it) h
        = Some (Some \<lparr>bi_node_stack = st', bi_node = n, bi_blk = bi_blk it\<rparr>, h)"
        "stack_ok st'" "stack_nodes st' = nodes r @ stack_nodes st"
      using next_spec [of l n ht r st "bi_blk it" h] less.prems Cons t by auto
    let ?it = "\<lparr>bi_node_stack = st', bi_node = n, bi_blk = bi_blk it\<rparr>"
    have "bst_visit (Some ?it) h = Some (n # stack_nodes st', mem_free h (bi_blk it))"
      using less.hyps [of ?it] s(2,3) Cons t by simp
    then show ?thesis
      using s(1,3) Cons t by (subst bst_visit.simps) (simp add: cbmap_iter_next_def)
  qed
qed

text \<open>
  Claim C32.  A loop over \<^verbatim>\<open>cbstmap_begin_iter\<close> ends, shows every node once and in key
  order, never overruns the iterator's fixed stack, and frees the iterator with
  its last step, so that the blocks from before the loop are live again.
\<close>

theorem bst_iterator_in_order:
  assumes "bst_inv m" "heap_ok h"
  shows "\<exists>err it h1 ns h2. cbstmap_begin_iter (Some m) h = Some (err, it, h1) \<and> bst_visit it h1 = Some (ns, h2)
     \<and> live h2 = live h \<and> sorted_nodes (map_order m) ns
     \<and> (if it = None then ns = [] \<and> (err \<longleftrightarrow> entries m \<noteq> []) else \<not> err \<and> ns = nodes (bm_root m))"
proof (cases "bm_root m = Tip")
  case True
  then show ?thesis
    by (auto simp: cbstmap_begin_iter_def entries_def sorted_nodes_def bst_visit.simps [of None])
next
  case False
  have i: "avl (bm_root m)" "sorted_nodes (map_order m) (nodes (bm_root m))" using assms(1) by (auto simp: bst_inv_def)
  obtain a h1 where a: "mem_alloc h 1088 = (a, h1)" by fastforce
  show ?thesis
  proof (cases a)
    case None
    then show ?thesis using a False mem_alloc_None [of h 1088 h1]
      by (auto simp: cbstmap_begin_iter_def entries_def sorted_nodes_def bst_visit.simps [of None])
  next
    case (Some bb)
    obtain b bs where bb: "bb = (b, bs)" by fastforce
    have l: "live (mem_free h1 b) = live h"
      using mem_alloc_Some [of h 1088 b bs h1] a Some bb heap_ok_fresh [OF assms(2)] by auto
    obtain st where st: "push_all_lefts_into_iter_stack [] (bm_root m) = Some st" "stack_ok st" "stack_nodes st = nodes (bm_root m)"
      using push_lefts_spec [OF i(1), of "[]"] bst_height [OF assms(1)] by auto
    then obtain l' n ht r rest where rest: "st = Nd l' n ht r # rest"
      using False nodes_Nil [of "bm_root m"] by (cases st rule: stack_nodes.cases) auto
    obtain st' where n: "cmap_real_iter_next st b h1 = Some (Some \<lparr>bi_node_stack = st', bi_node = n, bi_blk = b\<rparr>, h1)"
        "stack_ok st'" "stack_nodes st' = nodes r @ stack_nodes rest"
      using next_spec [of l' n ht r rest b h1] st(2) rest by auto
    let ?it = "\<lparr>bi_node_stack = st', bi_node = n, bi_blk = b\<rparr>"
    have "bst_visit (Some ?it) h1 = Some (nodes (bm_root m), mem_free h1 b)"
      using visit_stack [of ?it h1] n(2,3) st(3) rest by simp
    moreover have "cbstmap_begin_iter (Some m) h = Some (False, Some ?it, h1)"
      using a Some bb False st(1) n(1) by (simp add: cbstmap_begin_iter_def)
    ultimately show ?thesis using l i(2) by auto
  qed
qed

theorem bst_iterator_in_order_witness:
  "\<exists>it h1 ns h2. cbstmap_begin_iter (Some one_entry_map) \<lparr>answers = [Grant (\<lambda>_. 0)], next_blk = 2, live = {0, 1}\<rparr>
       = Some (False, Some it, h1) \<and> bst_visit (Some it) h1 = Some (ns, h2) \<and> ns = nodes (bm_root one_entry_map) \<and> live h2 = {0, 1}"
proof -
  define h where "h = \<lparr>answers = [Grant (\<lambda>_. 0)], next_blk = 2, live = {0, 1::nat}\<rparr>"
  have h: "heap_ok h" "live h = {0, 1}" by (simp_all add: h_def heap_ok_def)
  obtain it h1 where b: "cbstmap_begin_iter (Some one_entry_map) h = Some (False, Some it, h1)"
    by (simp add: h_def one_entry_map_def cbstmap_begin_iter_def mem_alloc_def cmap_real_iter_next_def size_defs)
  have "\<exists>ns h2. bst_visit (Some it) h1 = Some (ns, h2) \<and> ns = nodes (bm_root one_entry_map) \<and> live h2 = {0, 1}"
    using bst_iterator_in_order [OF one_entry_map_ok(1) h(1)] b h(2) by auto
  then show ?thesis using b unfolding h_def by blast
qed

end
