(* ===== verification/CCol_Cstr.thy ===== *)
theory CCol_Cstr
  imports CCol_Values
begin

text \<open>
  C strings: the functions of \<^verbatim>\<open>string.h\<close> that the library calls, over the
  bytes a pointer gives access to, and the locale-independent character
  functions of \<^verbatim>\<open>include/internal/cascii.h\<close>.  A function that would run past
  the end of its object has the value \<^term>\<open>None\<close>.
\<close>

section \<open>Strings in buffers\<close>

named_theorems cstr_simps

text \<open>The bytes before the first null byte.\<close>

definition c_str :: "byte list \<Rightarrow> byte list" where
  "c_str bs = takeWhile (\<lambda>c. c \<noteq> 0) bs"

definition strlen :: "byte list \<Rightarrow> size_t option" where
  "strlen bs = (if 0 \<in> set bs then Some (length (c_str bs)) else None)"

text \<open>The bytes from a pointer to the end of the object it points into.\<close>

definition ptr_bytes :: "byte list \<Rightarrow> byte cptr \<Rightarrow> byte list" where
  "ptr_bytes d p = (case p of Null \<Rightarrow> [] | Ext bs \<Rightarrow> bs | Self off \<Rightarrow> drop off d)"

text \<open>The write \<^verbatim>\<open>d[i] = b\<close>.\<close>

definition store :: "'a list \<Rightarrow> nat \<Rightarrow> 'a \<Rightarrow> 'a list option" where
  "store d i b = (if i < length d then Some (d[i := b]) else None)"

text \<open>\<^verbatim>\<open>strstr\<close>, \<^verbatim>\<open>strncmp\<close> and \<^verbatim>\<open>memrchr\<close> over strings given without their terminators.\<close>

fun strstr :: "byte list \<Rightarrow> byte list \<Rightarrow> nat option" where
  "strstr [] needle = (if needle = [] then Some 0 else None)"
| "strstr (c # cs) needle =
     (if take (length needle) (c # cs) = needle then Some 0 else map_option Suc (strstr cs needle))"

text \<open>\<^verbatim>\<open>strstr\<close> from an offset of a buffer, as an offset of that buffer.\<close>

definition strstr_at :: "byte list \<Rightarrow> nat \<Rightarrow> byte list \<Rightarrow> nat option" where
  "strstr_at d off needle = map_option (\<lambda>i. off + i) (strstr (c_str (drop off d)) needle)"

definition strncmp :: "byte list \<Rightarrow> byte list \<Rightarrow> nat \<Rightarrow> int" where
  "strncmp a b n = strcmp (take n a) (take n b)"

fun memrchr :: "byte list \<Rightarrow> byte \<Rightarrow> nat \<Rightarrow> nat option" where
  "memrchr s c 0 = None"
| "memrchr s c (Suc n) = (if s ! n = c then Some n else memrchr s c n)"

lemma c_str_no_null: "0 \<notin> set (c_str bs)"
  by (auto simp: c_str_def dest: set_takeWhileD)

lemma no_null: "0 \<notin> set xs \<longleftrightarrow> (\<forall>x \<in> set xs. x \<noteq> (0::byte))"
  by blast

lemma length_c_str_less: "0 \<in> set bs \<Longrightarrow> length (c_str bs) < length bs"
  by (induction bs) (auto simp: c_str_def)

lemma strlen_Some: "strlen bs = Some n \<Longrightarrow> n = length (c_str bs) \<and> n < length bs \<and> take n bs = c_str bs \<and> bs ! n = 0"
proof -
  assume "strlen bs = Some n"
  then have n: "n = length (c_str bs)" "0 \<in> set bs" by (auto simp: strlen_def split: if_splits)
  have "length (c_str bs) < length bs"
    using n(2) by (rule length_c_str_less)
  moreover from this have "bs ! n = 0" using n nth_length_takeWhile [of "\<lambda>c. c \<noteq> 0" bs] by (simp add: c_str_def)
  moreover have "take n bs = c_str bs" unfolding n(1) c_str_def by (rule takeWhile_eq_take [symmetric])
  ultimately show ?thesis using n(1) by blast
qed

lemma strlen_total: "0 \<in> set bs \<Longrightarrow> strlen bs = Some (length (c_str bs))"
  by (simp add: strlen_def)

lemma c_str_append_null: "0 \<notin> set xs \<Longrightarrow> c_str (xs @ 0 # ys) = xs"
  using takeWhile_append2 [of xs "\<lambda>c. c \<noteq> 0" "0 # ys"] by (simp add: c_str_def no_null)

lemma c_str_id: "0 \<notin> set xs \<Longrightarrow> c_str xs = xs"
  by (simp add: c_str_def takeWhile_eq_all_conv no_null)

lemma c_str_at:
  assumes "n < length bs" "bs ! n = 0" "0 \<notin> set (take n bs)"
  shows "c_str bs = take n bs"
proof -
  have "bs = take n bs @ 0 # drop (Suc n) bs" using id_take_nth_drop [OF assms(1)] assms(2) by simp
  then show ?thesis using c_str_append_null [OF assms(3)] by metis
qed

section \<open>Occurrences\<close>

text \<open>The places at which a string occurs in another, in increasing order.\<close>

definition occurs_at :: "byte list \<Rightarrow> byte list \<Rightarrow> nat \<Rightarrow> bool" where
  "occurs_at hay needle i \<longleftrightarrow> i + length needle \<le> length hay \<and> peek hay i (length needle) = needle"

definition first_occurrence :: "byte list \<Rightarrow> byte list \<Rightarrow> nat option" where
  "first_occurrence hay needle = find (occurs_at hay needle) [0..<Suc (length hay)]"

definition last_occurrence :: "byte list \<Rightarrow> byte list \<Rightarrow> nat option" where
  "last_occurrence hay needle = find (occurs_at hay needle) (rev [0..<Suc (length hay)])"

lemma occurs_at_bound: "occurs_at hay needle i \<Longrightarrow> i \<le> length hay"
  by (simp add: occurs_at_def)

lemma occurs_at_0: "occurs_at hay needle 0 \<longleftrightarrow> take (length needle) hay = needle"
proof -
  have "length needle \<le> length hay" if "take (length needle) hay = needle"
    using that by (metis length_take min.cobounded1)
  then show ?thesis by (auto simp: occurs_at_def peek_def)
qed

lemma occurs_at_Cons: "occurs_at (c # cs) needle (Suc i) \<longleftrightarrow> occurs_at cs needle i"
  by (simp add: occurs_at_def peek_def)

lemma occurs_at_drop: "j \<le> length hay \<Longrightarrow> occurs_at (drop j hay) needle i \<longleftrightarrow> occurs_at hay needle (j + i)"
  by (auto simp: occurs_at_def peek_def add.commute)

lemma strstr_Some:
  "strstr hay needle = Some i \<Longrightarrow> occurs_at hay needle i \<and> (\<forall>j < i. \<not> occurs_at hay needle j)"
proof (induction hay arbitrary: i)
  case Nil
  then show ?case by (auto simp: occurs_at_def peek_def split: if_splits)
next
  case (Cons c cs)
  show ?case
  proof (cases "take (length needle) (c # cs) = needle")
    case True
    then show ?thesis using Cons.prems by (simp add: occurs_at_0)
  next
    case False
    then obtain k where k: "strstr cs needle = Some k" "i = Suc k" using Cons.prems by auto
    have "\<not> occurs_at (c # cs) needle j" if "j < i" for j
      using that False Cons.IH [OF k(1)] k(2) by (cases j) (auto simp: occurs_at_0 occurs_at_Cons)
    then show ?thesis using Cons.IH [OF k(1)] k(2) by (simp add: occurs_at_Cons)
  qed
qed

lemma strstr_None: "strstr hay needle = None \<Longrightarrow> \<not> occurs_at hay needle j"
proof (induction hay arbitrary: j)
  case Nil
  then show ?case by (auto simp: occurs_at_def split: if_splits)
next
  case (Cons c cs)
  then have "take (length needle) (c # cs) \<noteq> needle" "strstr cs needle = None" by (auto split: if_splits)
  then show ?case using Cons.IH by (cases j) (auto simp: occurs_at_0 occurs_at_Cons)
qed

lemma first_occurrence_None: "first_occurrence hay needle = None \<longleftrightarrow> (\<forall>i. \<not> occurs_at hay needle i)"
  unfolding first_occurrence_def find_None_iff set_upt
  using occurs_at_bound [of hay needle] by (metis atLeastLessThan_iff le0 less_Suc_eq_le)

lemma find_upt_least: "P i \<Longrightarrow> \<forall>j < i. \<not> P j \<Longrightarrow> i < n \<Longrightarrow> find P [0..<n] = Some i"
  by (subst find_Some_iff) (rule exI [of _ i], simp)

lemma first_occurrence_Some:
  "occurs_at hay needle i \<Longrightarrow> \<forall>j < i. \<not> occurs_at hay needle j \<Longrightarrow> first_occurrence hay needle = Some i"
  unfolding first_occurrence_def using occurs_at_bound by (intro find_upt_least) (auto simp: less_Suc_eq_le)

lemma strstr_first: "strstr hay needle = first_occurrence hay needle"
proof (cases "strstr hay needle")
  case None
  then have "\<forall>i. \<not> occurs_at hay needle i" using strstr_None by blast
  then show ?thesis using None first_occurrence_None [of hay needle] by simp
next
  case (Some i)
  then show ?thesis using strstr_Some [OF Some] first_occurrence_Some [of hay needle i] by simp
qed

lemma last_occurrence_None: "last_occurrence hay needle = None \<longleftrightarrow> (\<forall>i. \<not> occurs_at hay needle i)"
  unfolding last_occurrence_def find_None_iff set_rev set_upt
  using occurs_at_bound [of hay needle] by (metis atLeastLessThan_iff le0 less_Suc_eq_le)

lemma find_rev_upt_greatest: "P i \<Longrightarrow> \<forall>j. i < j \<and> j < n \<longrightarrow> \<not> P j \<Longrightarrow> i < n \<Longrightarrow> find P (rev [0..<n]) = Some i"
proof (induction n)
  case (Suc n)
  then show ?case by (cases "i = n") auto
qed simp

lemma last_occurrence_Some:
  "occurs_at hay needle i \<Longrightarrow> \<forall>j > i. \<not> occurs_at hay needle j \<Longrightarrow> last_occurrence hay needle = Some i"
  unfolding last_occurrence_def using occurs_at_bound by (intro find_rev_upt_greatest) (auto simp: less_Suc_eq_le)

lemma occurs_at_split:
  assumes "occurs_at hay needle i"
  shows "hay = take i hay @ needle @ drop (i + length needle) hay"
proof -
  have "drop i hay = needle @ drop (length needle) (drop i hay)"
    using assms append_take_drop_id [of "length needle" "drop i hay"] by (simp add: occurs_at_def peek_def)
  then show ?thesis using append_take_drop_id [of i hay] by (simp add: add.commute)
qed

section \<open>ASCII\<close>

text \<open>\<^verbatim>\<open>ccol_ascii_tolower\<close>, \<^verbatim>\<open>ccol_ascii_toupper\<close> and \<^verbatim>\<open>ccol_ascii_isspace\<close>, on an \<^verbatim>\<open>int\<close>.\<close>

definition ccol_ascii_tolower :: "int \<Rightarrow> int" where
  "ccol_ascii_tolower c = (if c \<ge> 65 \<and> c \<le> 90 then c + (97 - 65) else c)"

definition ccol_ascii_toupper :: "int \<Rightarrow> int" where
  "ccol_ascii_toupper c = (if c \<ge> 97 \<and> c \<le> 122 then c - (97 - 65) else c)"

definition ccol_ascii_isspace :: "int \<Rightarrow> bool" where
  "ccol_ascii_isspace c \<longleftrightarrow> c = 32 \<or> (c \<ge> 9 \<and> c \<le> 13)"

text \<open>
  \<^verbatim>\<open>ccol_ascii_casecmp\<close> and \<^verbatim>\<open>ccol_ascii_ncasecmp\<close> walk both strings up to a
  difference or a terminator; a walk that leaves an object is \<^term>\<open>None\<close>.
\<close>

fun ccol_ascii_casecmp :: "byte list \<Rightarrow> byte list \<Rightarrow> int option" where
  "ccol_ascii_casecmp (p # ps) (q # qs) =
     (let x = ccol_ascii_tolower (uint p); y = ccol_ascii_tolower (uint q)
      in if x \<noteq> y \<or> x = 0 then Some (x - y) else ccol_ascii_casecmp ps qs)"
| "ccol_ascii_casecmp _ _ = None"

fun ccol_ascii_ncasecmp :: "byte list \<Rightarrow> byte list \<Rightarrow> nat \<Rightarrow> int option" where
  "ccol_ascii_ncasecmp _ _ 0 = Some 0"
| "ccol_ascii_ncasecmp (p # ps) (q # qs) (Suc n) =
     (let x = ccol_ascii_tolower (uint p); y = ccol_ascii_tolower (uint q)
      in if x \<noteq> y \<or> x = 0 then Some (x - y) else ccol_ascii_ncasecmp ps qs n)"
| "ccol_ascii_ncasecmp _ _ (Suc n) = None"

definition upper_byte :: "byte \<Rightarrow> byte" where
  "upper_byte b = word_of_int (ccol_ascii_toupper (uint b))"

definition lower_byte :: "byte \<Rightarrow> byte" where
  "lower_byte b = word_of_int (ccol_ascii_tolower (uint b))"

definition space_byte :: "byte \<Rightarrow> bool" where
  "space_byte b = ccol_ascii_isspace (uint b)"

end
