(* ===== verification/CCol_String.thy ===== *)
theory CCol_String
  imports CCol_Container CCol_Common CCol_Cstr
begin

text \<open>
  \<^verbatim>\<open>src/cstring.c\<close>: the growable null-terminated string.  This theory holds the
  string, its creation, its queries and the operations that edit it; the buffer
  is its bytes, \<open>capacity\<close> of them.  A C-string argument is a pointer that may
  be null and may point into the string's own buffer.  \<^term>\<open>None\<close> is an abort of
  the process, a read for a terminator that is not there, or a copy whose
  behaviour is undefined.
\<close>

section \<open>The string\<close>

record cstring =
  cs_data :: "byte list"
  cs_length :: size_t
  cs_capacity :: size_t
  cs_m_procs :: mprocs
  cs_data_blk :: "nat option"
  cs_blk :: nat

definition cstring_minimum_capacity :: size_t where
  [size_defs]: "cstring_minimum_capacity = 16"

datatype cstr_err =
    cstr_null_memory_proc | failed_to_allocate_cstring_container
  | initial_string_too_large | failed_to_allocate_cstring_data_buffer

definition cstring_destroy :: "cstring option \<Rightarrow> heap \<Rightarrow> heap" where
  "cstring_destroy s h =
     (case s of
        None \<Rightarrow> h
      | Some s \<Rightarrow>
          let h = (case cs_data_blk s of None \<Rightarrow> h | Some b \<Rightarrow> mem_free h b)
          in mem_free h (cs_blk s))"

definition cstring_length_fits_with_terminator :: "size_t \<Rightarrow> bool" where
  "cstring_length_fits_with_terminator n \<longleftrightarrow> n \<noteq> ccol_invalid_size"

definition cstring_grow_to :: "cstring \<Rightarrow> size_t \<Rightarrow> heap \<Rightarrow> bool \<times> cstring \<times> heap" where
  "cstring_grow_to s needed_capacity h =
     (if needed_capacity \<le> cs_capacity s then (True, s, h)
      else let new_cap = ccol_find_nearest_gte_power_of_two needed_capacity in
        if new_cap = ccol_invalid_size then (False, s, h)
        else let new_cap = (if new_cap < cstring_minimum_capacity then cstring_minimum_capacity else new_cap) in
          (case mem_realloc h (cs_data s) new_cap of
             (None, h) \<Rightarrow> (False, s, h)
           | (Some bs, h) \<Rightarrow> (True, s\<lparr>cs_data := bs, cs_capacity := new_cap\<rparr>, h)))"

text \<open>
  \<open>initial\<close> is the bytes the pointer gives access to, \<^term>\<open>None\<close> for the null
  pointer; the result is \<^term>\<open>None\<close> when the copy would leave them.
\<close>

definition cstring_create_from_span ::
  "byte list option \<Rightarrow> size_t \<Rightarrow> mprocs \<Rightarrow> heap \<Rightarrow> ((cstr_err + cstring) \<times> heap) option" where
  "cstring_create_from_span initial init_len m_procs h =
     (if \<not> ccol_verify_memmgmt_procs m_procs then Some (Inl cstr_null_memory_proc, h)
      else let copy_procs = (case m_procs of CallerProcs _ \<Rightarrow> True | _ \<Rightarrow> False) in
        (case mem_calloc h (32 + (if copy_procs then 32 else 0)) of
           (None, h) \<Rightarrow> Some (Inl failed_to_allocate_cstring_container, h)
         | (Some (b, _), h) \<Rightarrow>
             (let s = \<lparr>cs_data = [], cs_length = 0, cs_capacity = 0, cs_m_procs = m_procs,
                       cs_data_blk = None, cs_blk = b\<rparr> in
              if \<not> cstring_length_fits_with_terminator init_len
              then Some (Inl initial_string_too_large, cstring_destroy (Some s) h)
              else let init_cap = ccol_find_nearest_gte_power_of_two (sz_add init_len 1) in
                if init_cap = ccol_invalid_size
                then Some (Inl initial_string_too_large, cstring_destroy (Some s) h)
                else let init_cap = (if init_cap < cstring_minimum_capacity then cstring_minimum_capacity
                                     else init_cap) in
                  (case mem_alloc h init_cap of
                     (None, h) \<Rightarrow> Some (Inl failed_to_allocate_cstring_data_buffer, cstring_destroy (Some s) h)
                   | (Some (db, bs), h) \<Rightarrow> do {
                       d \<leftarrow> (if init_len > 0
                            then memcpy bs 0 (case initial of None \<Rightarrow> Null | Some i \<Rightarrow> Ext i) init_len
                            else Some bs);
                       d \<leftarrow> store d init_len 0;
                       Some (Inr (s\<lparr>cs_data := d, cs_data_blk := Some db, cs_length := init_len,
                                    cs_capacity := init_cap\<rparr>), h)
                     }))))"

definition cstring_create_full ::
  "byte list option \<Rightarrow> mprocs \<Rightarrow> heap \<Rightarrow> ((cstr_err + cstring) \<times> heap) option" where
  "cstring_create_full initial m_procs h = do {
     n \<leftarrow> (case initial of None \<Rightarrow> Some 0 | Some i \<Rightarrow> strlen i);
     cstring_create_from_span initial n m_procs h
   }"

section \<open>Queries\<close>

definition cstring_get_mprocs :: "cstring option \<Rightarrow> mprocs option" where
  "cstring_get_mprocs s = map_option cs_m_procs s"

definition cstring_length :: "cstring option \<Rightarrow> size_t option" where
  "cstring_length s = map_option cs_length s"

definition cstring_c_str :: "cstring option \<Rightarrow> byte cptr option" where
  "cstring_c_str s = (case s of None \<Rightarrow> None | Some s \<Rightarrow> Some (Self 0))"

definition cstring_at :: "cstring option \<Rightarrow> size_t \<Rightarrow> byte option" where
  "cstring_at s idx =
     (case s of
        None \<Rightarrow> None
      | Some s \<Rightarrow> if idx \<ge> cs_length s then Some 0 else Some (cs_data s ! idx))"

definition cstring_is_empty :: "cstring option \<Rightarrow> bool option" where
  "cstring_is_empty s = map_option (\<lambda>s. cs_length s = 0) s"

section \<open>Editing\<close>

text \<open>
  \<open>alias_off\<close>: the offset of an argument that lies in \<open>[data, data + capacity)\<close>.
  After a reallocation such an argument is computed again from the new base; an
  argument that points into the buffer and was not recognised would dangle.
\<close>

definition cstr_alias_off :: "cstring \<Rightarrow> byte cptr \<Rightarrow> nat option" where
  "cstr_alias_off s p = (case p of Self off \<Rightarrow> if off < cs_capacity s then Some off else None | _ \<Rightarrow> None)"

definition cstr_rebase :: "nat option \<Rightarrow> byte cptr \<Rightarrow> byte cptr option" where
  "cstr_rebase alias_off p =
     (case alias_off of
        Some off \<Rightarrow> Some (Self off)
      | None \<Rightarrow> (case p of Self _ \<Rightarrow> None | _ \<Rightarrow> Some p))"

definition cstring_append ::
  "cstring option \<Rightarrow> byte cptr \<Rightarrow> heap \<Rightarrow> (ccol_retval \<times> cstring \<times> heap) option" where
  "cstring_append s str h =
     (case s of
        None \<Rightarrow> None
      | Some s \<Rightarrow>
          if str = Null then Some (ccol_invalid_args, s, h)
          else do {
            str_len \<leftarrow> strlen (ptr_bytes (cs_data s) str);
            (if str_len = 0 then Some (ccol_success, s, h)
             else let new_len = sz_add (cs_length s) str_len in
               if new_len < cs_length s \<or> \<not> cstring_length_fits_with_terminator new_len
               then Some (ccol_container_full, s, h)
               else let alias_off = cstr_alias_off s str in
                 (case cstring_grow_to s (sz_add new_len 1) h of
                    (ok, s, h) \<Rightarrow>
                      if \<not> ok then Some (ccol_not_enough_memory, s, h)
                      else do {
                        str \<leftarrow> cstr_rebase alias_off str;
                        d \<leftarrow> memcpy (cs_data s) (cs_length s) str str_len;
                        d \<leftarrow> store d new_len 0;
                        Some (ccol_success, s\<lparr>cs_data := d, cs_length := new_len\<rparr>, h)
                      }))
          })"

definition cstring_prepend ::
  "cstring option \<Rightarrow> byte cptr \<Rightarrow> heap \<Rightarrow> (ccol_retval \<times> cstring \<times> heap) option" where
  "cstring_prepend s str h =
     (case s of
        None \<Rightarrow> None
      | Some s \<Rightarrow>
          if str = Null then Some (ccol_invalid_args, s, h)
          else do {
            str_len \<leftarrow> strlen (ptr_bytes (cs_data s) str);
            (if str_len = 0 then Some (ccol_success, s, h)
             else let new_len = sz_add (cs_length s) str_len in
               if new_len < cs_length s \<or> \<not> cstring_length_fits_with_terminator new_len
               then Some (ccol_container_full, s, h)
               else let alias_off = cstr_alias_off s str in
                 (case cstring_grow_to s (sz_add new_len 1) h of
                    (ok, s, h) \<Rightarrow>
                      if \<not> ok then Some (ccol_not_enough_memory, s, h)
                      else do {
                        str \<leftarrow> cstr_rebase alias_off str;
                        d \<leftarrow> memmove (cs_data s) str_len (Self 0) (cs_length s + 1);
                        str \<leftarrow> Some (case alias_off of
                                    Some off \<Rightarrow> if off > 0 then Self (off + str_len) else str
                                  | None \<Rightarrow> str);
                        d \<leftarrow> memmove d 0 str str_len;
                        Some (ccol_success, s\<lparr>cs_data := d, cs_length := new_len\<rparr>, h)
                      }))
          })"

definition cstring_insert ::
  "cstring option \<Rightarrow> size_t \<Rightarrow> byte cptr \<Rightarrow> heap \<Rightarrow> (ccol_retval \<times> cstring \<times> heap) option" where
  "cstring_insert s pos str h =
     (case s of
        None \<Rightarrow> None
      | Some s \<Rightarrow>
          if str = Null \<or> pos > cs_length s then Some (ccol_invalid_args, s, h)
          else do {
            str_len \<leftarrow> strlen (ptr_bytes (cs_data s) str);
            (if str_len = 0 then Some (ccol_success, s, h)
             else let new_len = sz_add (cs_length s) str_len in
               if new_len < cs_length s \<or> \<not> cstring_length_fits_with_terminator new_len
               then Some (ccol_container_full, s, h)
               else let alias_off = cstr_alias_off s str in
                 (case cstring_grow_to s (sz_add new_len 1) h of
                    (ok, s, h) \<Rightarrow>
                      if \<not> ok then Some (ccol_not_enough_memory, s, h)
                      else do {
                        str \<leftarrow> cstr_rebase alias_off str;
                        d \<leftarrow> memmove (cs_data s) (pos + str_len) (Self pos) (cs_length s - pos + 1);
                        str \<leftarrow> Some (case alias_off of
                                    Some off \<Rightarrow> if off > pos then Self (off + str_len) else str
                                  | None \<Rightarrow> str);
                        d \<leftarrow> memmove d pos str str_len;
                        Some (ccol_success, s\<lparr>cs_data := d, cs_length := new_len\<rparr>, h)
                      }))
          })"

definition cstring_set ::
  "cstring option \<Rightarrow> byte cptr \<Rightarrow> heap \<Rightarrow> (ccol_retval \<times> cstring \<times> heap) option" where
  "cstring_set s str h =
     (case s of
        None \<Rightarrow> None
      | Some s \<Rightarrow>
          if str = Null then Some (ccol_invalid_args, s, h)
          else do {
            str_len \<leftarrow> strlen (ptr_bytes (cs_data s) str);
            (if \<not> cstring_length_fits_with_terminator str_len then Some (ccol_container_full, s, h)
             else let alias_off = cstr_alias_off s str in
               (case cstring_grow_to s (sz_add str_len 1) h of
                  (ok, s, h) \<Rightarrow>
                    if \<not> ok then Some (ccol_not_enough_memory, s, h)
                    else do {
                      str \<leftarrow> cstr_rebase alias_off str;
                      d \<leftarrow> memmove (cs_data s) 0 str (str_len + 1);
                      Some (ccol_success, s\<lparr>cs_data := d, cs_length := str_len\<rparr>, h)
                    }))
          })"

definition cstring_reset :: "cstring option \<Rightarrow> heap \<Rightarrow> (cstring \<times> heap) option" where
  "cstring_reset s h =
     (case s of
        None \<Rightarrow> None
      | Some s \<Rightarrow>
          let (s, h) =
            (if cs_capacity s \<noteq> cstring_minimum_capacity
             then (case mem_realloc h (cs_data s) cstring_minimum_capacity of
                 (None, h) \<Rightarrow> (s, h)
               | (Some bs, h) \<Rightarrow> (s\<lparr>cs_data := bs, cs_capacity := cstring_minimum_capacity\<rparr>, h))
             else (s, h))
          in do {
            d \<leftarrow> store (cs_data s) 0 0;
            Some (s\<lparr>cs_length := 0, cs_data := d\<rparr>, h)
          })"

definition cstring_reserve :: "cstring option \<Rightarrow> size_t \<Rightarrow> heap \<Rightarrow> (bool \<times> cstring \<times> heap) option" where
  "cstring_reserve s min_capacity h =
     (case s of
        None \<Rightarrow> None
      | Some s \<Rightarrow>
          let needed = (if min_capacity < cstring_minimum_capacity then cstring_minimum_capacity else min_capacity)
          in Some (cstring_grow_to s needed h))"

text \<open>The loop \<^verbatim>\<open>for (i = 0; i < length; i++) data[i] = f(data[i])\<close>, with \<open>n\<close> rounds left.\<close>

fun cstring_fold_case :: "(byte \<Rightarrow> byte) \<Rightarrow> byte list \<Rightarrow> nat \<Rightarrow> nat \<Rightarrow> byte list option" where
  "cstring_fold_case f d i 0 = Some d"
| "cstring_fold_case f d i (Suc n) = do { d \<leftarrow> store d i (f (d ! i)); cstring_fold_case f d (i + 1) n }"

definition cstring_to_upper :: "cstring option \<Rightarrow> cstring option" where
  "cstring_to_upper s =
     (case s of
        None \<Rightarrow> None
      | Some s \<Rightarrow> do {
          d \<leftarrow> cstring_fold_case (\<lambda>b. word_of_int (ccol_ascii_toupper (uint b))) (cs_data s) 0 (cs_length s);
          Some (s\<lparr>cs_data := d\<rparr>)
        })"

definition cstring_to_lower :: "cstring option \<Rightarrow> cstring option" where
  "cstring_to_lower s =
     (case s of
        None \<Rightarrow> None
      | Some s \<Rightarrow> do {
          d \<leftarrow> cstring_fold_case (\<lambda>b. word_of_int (ccol_ascii_tolower (uint b))) (cs_data s) 0 (cs_length s);
          Some (s\<lparr>cs_data := d\<rparr>)
        })"

fun trim_end_loop :: "byte list \<Rightarrow> size_t \<Rightarrow> size_t" where
  "trim_end_loop d 0 = 0"
| "trim_end_loop d (Suc n) = (if ccol_ascii_isspace (uint (d ! n)) then trim_end_loop d n else Suc n)"

function trim_start_loop :: "byte list \<Rightarrow> size_t \<Rightarrow> size_t \<Rightarrow> size_t" where
  "trim_start_loop d start len =
     (if start < len \<and> ccol_ascii_isspace (uint (d ! start)) then trim_start_loop d (start + 1) len else start)"
  by auto
termination by (relation "measure (\<lambda>(d, start, len). len - start)") auto

declare trim_start_loop.simps [simp del]

definition cstring_trim :: "cstring option \<Rightarrow> cstring option" where
  "cstring_trim s =
     (case s of
        None \<Rightarrow> None
      | Some s \<Rightarrow>
          if cs_length s = 0 then Some s
          else do {
            len \<leftarrow> Some (trim_end_loop (cs_data s) (cs_length s));
            d \<leftarrow> store (cs_data s) len 0;
            (let start = trim_start_loop d 0 len in
             if start > 0 then do {
               d \<leftarrow> memmove d 0 (Self start) (len - start + 1);
               Some (s\<lparr>cs_data := d, cs_length := len - start\<rparr>)
             }
             else Some (s\<lparr>cs_data := d, cs_length := len\<rparr>))
          })"

section \<open>Comparisons and the forward search\<close>

definition cstring_compare :: "cstring option \<Rightarrow> byte cptr \<Rightarrow> int option" where
  "cstring_compare s str =
     (case s of
        None \<Rightarrow> None
      | Some s \<Rightarrow>
          if str = Null then Some 1
          else Some (strcmp (c_str (cs_data s)) (c_str (ptr_bytes (cs_data s) str))))"

definition cstring_equals :: "cstring option \<Rightarrow> byte cptr \<Rightarrow> bool option" where
  "cstring_equals s str =
     (case s of
        None \<Rightarrow> None
      | Some s \<Rightarrow>
          if str = Null then Some False
          else Some (strcmp (c_str (cs_data s)) (c_str (ptr_bytes (cs_data s) str)) = 0))"

definition cstring_starts_with :: "cstring option \<Rightarrow> byte cptr \<Rightarrow> bool option" where
  "cstring_starts_with s prefix =
     (case s of
        None \<Rightarrow> None
      | Some s \<Rightarrow>
          if prefix = Null then Some False
          else do {
            plen \<leftarrow> strlen (ptr_bytes (cs_data s) prefix);
            (if plen > cs_length s then Some False
             else Some (strncmp (c_str (cs_data s)) (c_str (ptr_bytes (cs_data s) prefix)) plen = 0))
          })"

definition cstring_ends_with :: "cstring option \<Rightarrow> byte cptr \<Rightarrow> bool option" where
  "cstring_ends_with s suffix =
     (case s of
        None \<Rightarrow> None
      | Some s \<Rightarrow>
          if suffix = Null then Some False
          else do {
            slen \<leftarrow> strlen (ptr_bytes (cs_data s) suffix);
            (if slen > cs_length s then Some False
             else Some (strncmp (c_str (drop (cs_length s - slen) (cs_data s)))
                                (c_str (ptr_bytes (cs_data s) suffix)) slen = 0))
          })"

definition cstring_find :: "cstring option \<Rightarrow> byte cptr \<Rightarrow> size_t option" where
  "cstring_find s needle =
     (case s of
        None \<Rightarrow> None
      | Some s \<Rightarrow>
          if needle = Null then Some ccol_invalid_size
          else (case strstr (c_str (cs_data s)) (c_str (ptr_bytes (cs_data s) needle)) of
              None \<Rightarrow> Some ccol_invalid_size
            | Some i \<Rightarrow> Some i))"

section \<open>Substrings and copies\<close>

definition cstring_substring ::
  "cstring option \<Rightarrow> size_t \<Rightarrow> size_t \<Rightarrow> heap \<Rightarrow> ((cstr_err + cstring) \<times> heap) option" where
  "cstring_substring s start len h =
     (case s of
        None \<Rightarrow> None
      | Some s \<Rightarrow>
          if start \<ge> cs_length s then cstring_create_from_span None 0 (cs_m_procs s) h
          else let actual_len = min len (cs_length s - start) in
            cstring_create_from_span (Some (drop start (cs_data s))) actual_len (cs_m_procs s) h)"

definition cstring_copy :: "cstring option \<Rightarrow> heap \<Rightarrow> ((cstr_err + cstring) \<times> heap) option" where
  "cstring_copy s h =
     (case s of None \<Rightarrow> None | Some s \<Rightarrow> cstring_create_full (Some (cs_data s)) (cs_m_procs s) h)"

section \<open>Invariant and abstraction\<close>

text \<open>
  The string a buffer holds, and the invariant: a power-of-two capacity of at
  least sixteen bytes, no null byte inside the string and one right after it,
  and a buffer in a block of its own.
\<close>

definition cs_str :: "cstring \<Rightarrow> byte list" where
  "cs_str s = take (cs_length s) (cs_data s)"

definition cs_inv :: "cstring \<Rightarrow> bool" where
  "cs_inv s \<longleftrightarrow>
     pow2 (cs_capacity s) \<and> cstring_minimum_capacity \<le> cs_capacity s \<and> cs_capacity s \<le> ccol_max_elem_count
       \<and> length (cs_data s) = cs_capacity s \<and> cs_length s < cs_capacity s
       \<and> cs_data s ! cs_length s = 0 \<and> 0 \<notin> set (cs_str s) \<and> cs_data_blk s \<notin> {None, Some (cs_blk s)}"

text \<open>What an editing operation never changes.\<close>

definition cs_frame :: "cstring \<Rightarrow> cstring \<Rightarrow> bool" where
  "cs_frame s t \<longleftrightarrow> cs_m_procs t = cs_m_procs s \<and> cs_data_blk t = cs_data_blk s \<and> cs_blk t = cs_blk s"

text \<open>
  A valid C-string argument: a terminated string of the caller, or a pointer
  into the string itself up to its terminator.  \<open>arg_str\<close> is the string it denotes.
\<close>

definition cstr_arg :: "cstring \<Rightarrow> byte cptr \<Rightarrow> bool" where
  "cstr_arg s p =
     (case p of
        Null \<Rightarrow> False
      | Ext bs \<Rightarrow> 0 \<in> set bs \<and> length bs \<le> SIZE_MAX
      | Self off \<Rightarrow> off \<le> cs_length s)"

definition arg_str :: "cstring \<Rightarrow> byte cptr \<Rightarrow> byte list" where
  "arg_str s p = c_str (ptr_bytes (cs_data s) p)"

lemma cs_invD:
  assumes "cs_inv s"
  shows "pow2 (cs_capacity s)" "16 \<le> cs_capacity s" "cs_capacity s \<le> ccol_max_elem_count"
    "length (cs_data s) = cs_capacity s" "cs_length s < cs_capacity s" "cs_data s ! cs_length s = 0"
    "0 \<notin> set (cs_str s)" "cs_data_blk s \<noteq> None" "cs_data_blk s \<noteq> Some (cs_blk s)"
  using assms by (simp_all add: cs_inv_def cstring_minimum_capacity_def)

lemma length_cs_str: "cs_inv s \<Longrightarrow> length (cs_str s) = cs_length s"
  using cs_invD(4,5) [of s] by (simp add: cs_str_def)

lemma cs_length_bound: "cs_inv s \<Longrightarrow> cs_length s < ccol_max_elem_count"
  using cs_invD(3,5) [of s] by simp

lemma cs_frame_refl [simp]: "cs_frame s s"
  by (simp add: cs_frame_def)

lemma cs_frame_trans: "cs_frame s t \<Longrightarrow> cs_frame t u \<Longrightarrow> cs_frame s u"
  by (simp add: cs_frame_def)

lemma c_str_data: "cs_inv s \<Longrightarrow> c_str (cs_data s) = cs_str s"
  using cs_invD(4-7) [of s] by (simp add: c_str_at cs_str_def)

lemma c_str_suffix:
  assumes "cs_inv s" "off \<le> cs_length s"
  shows "c_str (drop off (cs_data s)) = drop off (cs_str s)"
proof -
  note i = cs_invD [OF assms(1)]
  have "take (cs_length s - off) (drop off (cs_data s)) = drop off (cs_str s)"
    by (simp add: cs_str_def take_drop assms(2))
  moreover have "0 \<notin> set (drop off (cs_str s))" using i(7) by (meson in_set_dropD)
  ultimately show ?thesis
    using c_str_at [of "cs_length s - off" "drop off (cs_data s)"] i(4-6) assms(2) by simp
qed

lemma null_in_suffix:
  assumes "cs_inv s" "off \<le> cs_length s"
  shows "0 \<in> set (drop off (cs_data s))"
proof -
  have "drop off (cs_data s) ! (cs_length s - off) = 0" "cs_length s - off < length (drop off (cs_data s))"
    using cs_invD(4-6) [OF assms(1)] assms(2) by simp_all
  then show ?thesis by (metis nth_mem)
qed

lemma arg_strlen:
  assumes "cs_inv s" "cstr_arg s p"
  shows "strlen (ptr_bytes (cs_data s) p) = Some (length (arg_str s p))"
    "0 \<notin> set (arg_str s p)" "length (arg_str s p) < SIZE_MAX"
proof -
  have z: "0 \<in> set (ptr_bytes (cs_data s) p)"
    using assms null_in_suffix by (auto simp: cstr_arg_def ptr_bytes_def split: cptr.splits)
  then show "strlen (ptr_bytes (cs_data s) p) = Some (length (arg_str s p))"
    by (simp add: strlen_total arg_str_def)
  show "0 \<notin> set (arg_str s p)" by (simp add: arg_str_def c_str_no_null)
  have "length (ptr_bytes (cs_data s) p) \<le> SIZE_MAX"
    using assms cs_invD(3,4) [OF assms(1)]
    by (auto simp: cstr_arg_def ptr_bytes_def size_defs split: cptr.splits)
  then show "length (arg_str s p) < SIZE_MAX" using length_c_str_less [OF z] by (simp add: arg_str_def)
qed

lemma arg_str_Self: "cs_inv s \<Longrightarrow> off \<le> cs_length s \<Longrightarrow> arg_str s (Self off) = drop off (cs_str s)"
  by (simp add: arg_str_def ptr_bytes_def c_str_suffix)

lemma strstr_at_spec:
  assumes "cs_inv s" "off \<le> cs_length s"
  shows "strstr_at (cs_data s) off needle = map_option (\<lambda>i. off + i) (first_occurrence (drop off (cs_str s)) needle)"
  using assms by (simp add: strstr_at_def c_str_suffix strstr_first)

end
