(* ===== verification/CCol_String_Edit.thy ===== *)
theory CCol_String_Edit
  imports CCol_String
begin

text \<open>
  What the editing operations of \<^verbatim>\<open>src/cstring.c\<close> do to the string a
  \<open>cstring\<close> holds, and the string as a container.
\<close>

section \<open>Growth\<close>

text \<open>When \<^verbatim>\<open>cstring_grow_to\<close> succeeds: there is room, or the size is one the allocator is asked for and grants.\<close>

definition cs_grows :: "cstring \<Rightarrow> size_t \<Rightarrow> heap \<Rightarrow> bool" where
  "cs_grows s needed h \<longleftrightarrow>
     needed \<le> cs_capacity s \<or> needed \<le> ccol_max_elem_count \<and> (case answers h of Grant _ # _ \<Rightarrow> True | _ \<Rightarrow> False)"

definition cs_same_buffer :: "cstring \<Rightarrow> cstring \<Rightarrow> bool" where
  "cs_same_buffer s t \<longleftrightarrow> cs_length t = cs_length s \<and> take (cs_capacity s) (cs_data t) = cs_data s
     \<and> cs_capacity s \<le> cs_capacity t"

lemma mem_realloc_granted:
  "(\<exists>bs h'. mem_realloc h old n = (Some bs, h')) \<longleftrightarrow> (case answers h of Grant _ # _ \<Rightarrow> True | _ \<Rightarrow> False)"
  by (auto simp: mem_realloc_def split: list.splits answer.splits)

lemma take_length_append: "take (length xs) (xs @ ys) = xs"
  by simp

lemma take_eq_nth: "take n xs = ys \<Longrightarrow> i < length ys \<Longrightarrow> xs ! i = ys ! i"
  by (metis length_take min_less_iff_conj nth_take)

lemma same_buffer_str:
  assumes "cs_inv s" "cs_same_buffer s t"
  shows "cs_str t = cs_str s" "cs_data t ! cs_length t = 0" "off + n \<le> cs_capacity s \<Longrightarrow> peek (cs_data t) off n = peek (cs_data s) off n"
proof -
  note i = cs_invD [OF assms(1)] and b = assms(2) [unfolded cs_same_buffer_def]
  have "take (cs_length s) (take (cs_capacity s) (cs_data t)) = take (cs_length s) (cs_data t)"
    using i(5) by (simp add: min_def)
  then show "cs_str t = cs_str s" using b by (simp add: cs_str_def)
  show "cs_data t ! cs_length t = 0" using b i(4-6) take_eq_nth [of "cs_capacity s" "cs_data t"] by metis
  show "peek (cs_data t) off n = peek (cs_data s) off n" if "off + n \<le> cs_capacity s"
    using that b by (metis peek_take)
qed

lemma grow_to_spec:
  assumes inv: "cs_inv s" and n: "needed \<le> SIZE_MAX"
  obtains s' h' where "cstring_grow_to s needed h = (cs_grows s needed h, s', h')" "blocks_kept h h'" "cs_inv s'"
    "cs_frame s s'" "cs_same_buffer s s'" "cs_grows s needed h \<Longrightarrow> needed \<le> cs_capacity s'"
    "\<not> cs_grows s needed h \<Longrightarrow> s' = s"
proof -
  note i = cs_invD [OF inv]
  have sb: "cs_same_buffer s s" using i(4) by (simp add: cs_same_buffer_def)
  let ?p = "ccol_find_nearest_gte_power_of_two needed"
  show thesis
  proof (cases "needed \<le> cs_capacity s")
    case True
    then show thesis using that [of s h] inv sb by (simp add: cstring_grow_to_def cs_grows_def)
  next
    case gt: False
    show thesis
    proof (cases "needed \<le> ccol_max_elem_count")
      case False
      then have "cstring_grow_to s needed h = (False, s, h)" "\<not> cs_grows s needed h"
        using gt nearest_pow2_too_large [of needed] n by (simp_all add: cstring_grow_to_def cs_grows_def)
      then show thesis using that [of s h] inv sb by simp
    next
      case le: True
      note p = nearest_pow2_ok [OF le]
      have np: "?p \<noteq> ccol_invalid_size" "\<not> ?p < cstring_minimum_capacity"
        using p(2,3) gt i(2) by (simp_all add: size_defs)
      obtain r h' where r: "mem_realloc h (cs_data s) ?p = (r, h')" by fastforce
      note k = mem_realloc_kept [OF r]
      show thesis
      proof (cases r)
        case None
        then have "\<not> cs_grows s needed h" "cstring_grow_to s needed h = (False, s, h')"
          using r gt np mem_realloc_granted [of h "cs_data s" ?p] by (auto simp: cs_grows_def cstring_grow_to_def Let_def)
        then show thesis using that [of s h'] k inv sb by simp
      next
        case (Some bs)
        let ?t = "s\<lparr>cs_data := bs, cs_capacity := ?p\<rparr>"
        have lp: "length (cs_data s) \<le> ?p" using i(4) gt p(2) by simp
        have b: "length bs = ?p" "take (length (cs_data s)) bs = cs_data s"
          using mem_realloc_grow [of h "cs_data s" ?p bs h'] r Some lp by auto
        have "cs_same_buffer s ?t" using b(2) i(4) lp by (simp add: cs_same_buffer_def)
        note st = same_buffer_str [OF inv this]
        have "cs_inv ?t" using st i p lp b(1) inv np(2) by (simp add: cs_inv_def not_less)
        moreover have "cs_grows s needed h" "cstring_grow_to s needed h = (True, ?t, h')"
          using r Some gt le np mem_realloc_granted [of h "cs_data s" ?p]
          by (auto simp: cs_grows_def cstring_grow_to_def Let_def)
        ultimately show thesis
          using that [of ?t h'] k p(2) \<open>cs_same_buffer s ?t\<close> by (simp add: cs_frame_def)
      qed
    qed
  qed
qed

section \<open>Writing a new string into the buffer\<close>

lemma edit_result:
  assumes inv: "cs_inv s" and d: "length d = cs_capacity s" "n < cs_capacity s" "take n d = xs" "d ! n = 0" "0 \<notin> set xs"
  shows "cs_inv (s\<lparr>cs_data := d, cs_length := n\<rparr>)" "cs_str (s\<lparr>cs_data := d, cs_length := n\<rparr>) = xs"
    "cs_frame s (s\<lparr>cs_data := d, cs_length := n\<rparr>)"
  using inv d by (simp_all add: cs_inv_def cs_str_def cs_frame_def)

lemma peek_poke_inside:
  "off \<le> i \<Longrightarrow> i + m \<le> off + length bs \<Longrightarrow> off \<le> length d \<Longrightarrow> peek (poke d off bs) i m = peek bs (i - off) m"
  by (simp add: peek_def poke_def)

lemma rebase_arg:
  assumes "cs_inv s" "cstr_arg s p"
  shows "cstr_rebase (cstr_alias_off s p) p = Some p"
    "cstr_alias_off s p = (case p of Self off \<Rightarrow> Some off | _ \<Rightarrow> None)"
  using assms cs_invD(5) [OF assms(1)]
  by (auto simp: cstr_rebase_def cstr_alias_off_def cstr_arg_def split: cptr.splits)

lemma peek_arg:
  assumes inv: "cs_inv s" and off: "off \<le> cs_length s"
  shows "peek (cs_data s) off (cs_length s - off) = drop off (cs_str s)"
    "peek (cs_data s) off (cs_length s - off + 1) = drop off (cs_str s) @ [0]"
proof -
  note i = cs_invD [OF inv]
  show a: "peek (cs_data s) off (cs_length s - off) = drop off (cs_str s)"
    using off by (simp add: peek_def cs_str_def take_drop)
  have "drop off (cs_data s) ! (cs_length s - off) = 0" "cs_length s - off < length (drop off (cs_data s))"
    using i(4-6) off by simp_all
  then have "take (Suc (cs_length s - off)) (drop off (cs_data s))
      = take (cs_length s - off) (drop off (cs_data s)) @ [0]"
    using take_Suc_conv_app_nth [of "cs_length s - off" "drop off (cs_data s)"] by simp
  then show "peek (cs_data s) off (cs_length s - off + 1) = drop off (cs_str s) @ [0]"
    using a by (simp add: peek_def)
qed

text \<open>The two moves of an insertion: the tail to the right, then the argument, from where the first move left it.\<close>

definition shifted_ptr :: "byte cptr \<Rightarrow> nat \<Rightarrow> nat \<Rightarrow> byte cptr" where
  "shifted_ptr p pos n = (case p of Self off \<Rightarrow> if off > pos then Self (off + n) else p | _ \<Rightarrow> p)"

lemma insert_moves:
  assumes inv: "cs_inv s" and grown: "cs_inv t" "cs_same_buffer s t" and arg: "cstr_arg s p" and pos: "pos \<le> cs_length s"
    and room: "cs_length s + length (arg_str s p) + 1 \<le> cs_capacity t"
  defines "n \<equiv> length (arg_str s p)"
  defines "d1 \<equiv> poke (cs_data t) (pos + n) (peek (cs_data t) pos (cs_length s - pos + 1))"
  defines "d2 \<equiv> poke d1 pos (arg_str s p)"
  shows "memmove (cs_data t) (pos + n) (Self pos) (cs_length s - pos + 1) = Some d1"
    "memmove d1 pos (shifted_ptr p pos n) n = Some d2" "length d2 = cs_capacity t"
    "take (cs_length s + n) d2 = take pos (cs_str s) @ arg_str s p @ drop pos (cs_str s)" "d2 ! (cs_length s + n) = 0"
proof -
  note i = cs_invD [OF inv] and g = cs_invD [OF grown(1)] and st = same_buffer_str [OF inv grown(2)]
  have sb: "cs_length t = cs_length s" using grown(2) by (simp add: cs_same_buffer_def)
  let ?tl = "peek (cs_data t) pos (cs_length s - pos + 1)"
  have tl: "?tl = drop pos (cs_str s) @ [0]" using peek_arg(2) [OF grown(1), of pos] pos sb st(1) by simp
  have ltl: "length ?tl = cs_length s - pos + 1" using tl length_cs_str [OF inv] pos by simp
  have b1: "pos + n + (cs_length s - pos + 1) \<le> length (cs_data t)" using room g(4) pos n_def by simp
  show "memmove (cs_data t) (pos + n) (Self pos) (cs_length s - pos + 1) = Some d1"
    using b1 by (simp add: memmove_def readable_def read_ptr_def d1_def)
  have l1: "length d1 = cs_capacity t" using b1 ltl g(4) by (simp add: d1_def length_poke)
  have src: "readable d1 (shifted_ptr p pos n) n \<and> read_ptr d1 (shifted_ptr p pos n) n = arg_str s p"
  proof (cases p)
    case Null
    then show ?thesis using arg by (simp add: cstr_arg_def)
  next
    case (Ext bs)
    then have "strlen bs = Some n" using arg_strlen(1) [OF inv arg] by (simp add: n_def ptr_bytes_def)
    then show ?thesis using Ext strlen_Some [of bs n]
      by (auto simp: shifted_ptr_def readable_def read_ptr_def arg_str_def ptr_bytes_def)
  next
    case (Self off)
    then have off: "off \<le> cs_length s" using arg by (simp add: cstr_arg_def)
    then have a: "arg_str s p = drop off (cs_str s)" using Self arg_str_Self [OF inv] by simp
    then have n: "n = cs_length s - off" using length_cs_str [OF inv] by (simp add: n_def)
    show ?thesis
    proof (cases "off > pos")
      case True
      have e: "peek ?tl (off - pos) n = drop off (cs_str s)"
        unfolding tl using True n off length_cs_str [OF inv] by (simp add: peek_def)
      have "peek d1 (off + n) n = peek ?tl (off + n - (pos + n)) n"
        unfolding d1_def
      proof (rule peek_poke_inside)
        show "pos + n \<le> off + n" "pos + n \<le> length (cs_data t)" using True b1 by simp_all
        show "off + n + n \<le> pos + n + length ?tl" unfolding ltl using True n off by simp
      qed
      then show ?thesis using True Self a e n off room g(4) l1 by (simp add: shifted_ptr_def readable_def read_ptr_def n_def)
    next
      case False
      have "peek d1 off n = peek (cs_data t) off n"
        unfolding d1_def using False n off b1 by (intro peek_poke_before) simp_all
      also have "\<dots> = arg_str s p" using peek_arg(1) [OF grown(1), of off] sb st(1) off n a by simp
      finally show ?thesis using False Self n off room l1 by (simp add: shifted_ptr_def readable_def read_ptr_def n_def)
    qed
  qed
  moreover have b2: "pos + n \<le> length d1" using b1 l1 g(4) by simp
  ultimately show "memmove d1 pos (shifted_ptr p pos n) n = Some d2"
    using b2 by (simp add: memmove_def d2_def)
  show "length d2 = cs_capacity t" using b2 l1 by (simp add: d2_def length_poke n_def)
  have tp: "take pos (cs_data t) = take pos (cs_str s)"
    using st(1) pos sb by (simp add: cs_str_def min_def) (metis min_def take_take)
  have "d2 = take pos d1 @ arg_str s p @ drop (pos + n) d1" by (simp add: d2_def poke_def n_def)
  also have "take pos d1 = take pos (cs_str s)" using b1 tp by (simp add: d1_def take_poke)
  also have "drop (pos + n) d1 = ?tl @ drop (pos + n + length ?tl) (cs_data t)"
    using b1 by (simp add: d1_def poke_def)
  finally have d2: "d2 = (take pos (cs_str s) @ arg_str s p @ drop pos (cs_str s)) @ 0 # drop (pos + n + length ?tl) (cs_data t)"
    using tl by simp
  have l: "length (take pos (cs_str s) @ arg_str s p @ drop pos (cs_str s)) = cs_length s + n"
    using pos length_cs_str [OF inv] by (simp add: n_def)
  show "take (cs_length s + n) d2 = take pos (cs_str s) @ arg_str s p @ drop pos (cs_str s)"
    unfolding d2 l [symmetric] by (rule take_length_append)
  show "d2 ! (cs_length s + n) = 0" unfolding d2 using l by (metis nth_append_length)
qed

text \<open>The argument of an append and of an overwrite, read after the buffer has grown.\<close>

lemma grown_source:
  assumes inv: "cs_inv s" and grown: "cs_inv t" "cs_same_buffer s t" and arg: "cstr_arg s p"
  shows "readable (cs_data t) p (length (arg_str s p) + 1)"
    "read_ptr (cs_data t) p (length (arg_str s p) + 1) = arg_str s p @ [0]"
proof -
  have "readable (cs_data t) p (length (arg_str s p) + 1)
     \<and> read_ptr (cs_data t) p (length (arg_str s p) + 1) = arg_str s p @ [0]"
  proof (cases p)
    case Null
    then show ?thesis using arg by (simp add: cstr_arg_def)
  next
    case (Ext bs)
    then have "strlen bs = Some (length (arg_str s p))" using arg_strlen(1) [OF inv arg] by (simp add: ptr_bytes_def)
    note n = strlen_Some [OF this]
    then have "take (Suc (length (arg_str s p))) bs = arg_str s p @ [0]"
      using Ext take_Suc_conv_app_nth [of "length (arg_str s p)" bs] by (simp add: arg_str_def ptr_bytes_def)
    then show ?thesis using n Ext by (simp add: readable_def read_ptr_def)
  next
    case (Self off)
    then have off: "off \<le> cs_length s" using arg by (simp add: cstr_arg_def)
    have lt: "cs_length t = cs_length s" using grown(2) by (simp add: cs_same_buffer_def)
    have a: "arg_str s p = drop off (cs_str s)" using Self off arg_str_Self [OF inv] by simp
    then have n: "length (arg_str s p) = cs_length s - off" using length_cs_str [OF inv] by simp
    show ?thesis
      using Self off n a lt peek_arg(2) [OF grown(1), of off] same_buffer_str(1) [OF inv grown(2)] cs_invD(4,5) [OF grown(1)]
      by (simp add: readable_def read_ptr_def)
  qed
  then show "readable (cs_data t) p (length (arg_str s p) + 1)"
    "read_ptr (cs_data t) p (length (arg_str s p) + 1) = arg_str s p @ [0]" by auto
qed

lemma readable_less: "readable d p n \<Longrightarrow> m \<le> n \<Longrightarrow> readable d p m \<and> read_ptr d p m = take m (read_ptr d p n)"
  by (auto simp: readable_def read_ptr_def peek_def min_def split: cptr.splits)

lemma append_arg_source:
  assumes inv: "cs_inv s" and grown: "cs_inv t" "cs_same_buffer s t" and arg: "cstr_arg s p"
  shows "readable (cs_data t) p (length (arg_str s p))" "read_ptr (cs_data t) p (length (arg_str s p)) = arg_str s p"
    "p = Self off \<Longrightarrow> \<not> overlaps (cs_length s) off (length (arg_str s p))"
proof -
  note g = grown_source [OF assms]
  show "readable (cs_data t) p (length (arg_str s p))" "read_ptr (cs_data t) p (length (arg_str s p)) = arg_str s p"
    using readable_less [OF g(1), of "length (arg_str s p)"] g(2) by simp_all
  show "\<not> overlaps (cs_length s) off (length (arg_str s p))" if "p = Self off"
    using that arg arg_str_Self [OF inv, of off] length_cs_str [OF inv] by (simp add: cstr_arg_def overlaps_def)
qed

section \<open>The editing operations\<close>

definition edit_retval :: "cstring \<Rightarrow> byte cptr \<Rightarrow> heap \<Rightarrow> ccol_retval" where
  "edit_retval s p h =
     (let n = length (arg_str s p)
      in if n = 0 then ccol_success
         else if cs_length s + n \<ge> SIZE_MAX then ccol_container_full
         else if cs_grows s (cs_length s + n + 1) h then ccol_success else ccol_not_enough_memory)"

lemma edit_guard:
  assumes "cs_inv s" "cstr_arg s p"
  defines "n \<equiv> length (arg_str s p)"
  shows "sz_add (cs_length s) n < cs_length s \<or> \<not> cstring_length_fits_with_terminator (sz_add (cs_length s) n)
     \<longleftrightarrow> cs_length s + n \<ge> SIZE_MAX"
    "cs_length s + n < SIZE_MAX \<Longrightarrow> sz_add (cs_length s) n = cs_length s + n"
    "cs_length s + n < SIZE_MAX \<Longrightarrow> sz_add (cs_length s + n) 1 = cs_length s + n + 1"
proof -
  have b: "cs_length s \<le> SIZE_MAX" "n \<le> SIZE_MAX"
    using cs_length_bound [OF assms(1)] arg_strlen(3) [OF assms(1,2)] by (simp_all add: size_defs n_def)
  show e: "sz_add (cs_length s) n = cs_length s + n" if "cs_length s + n < SIZE_MAX"
    using that by (simp add: sz_add_exact)
  show "sz_add (cs_length s + n) 1 = cs_length s + n + 1" if "cs_length s + n < SIZE_MAX"
    using that by (simp add: sz_add_exact)
  have "sz_add (cs_length s) n = SIZE_MAX" if "cs_length s + n = SIZE_MAX" using that by (simp add: sz_add_exact)
  then show "sz_add (cs_length s) n < cs_length s \<or> \<not> cstring_length_fits_with_terminator (sz_add (cs_length s) n)
     \<longleftrightarrow> cs_length s + n \<ge> SIZE_MAX"
    using sz_add_overflow [OF b] e
    by (cases "cs_length s + n" SIZE_MAX rule: linorder_cases)
      (auto simp: cstring_length_fits_with_terminator_def ccol_invalid_size_def)
qed

text \<open>An insertion: the common specification of insert, prepend and append.\<close>

definition inserts_at :: "cstring \<Rightarrow> nat \<Rightarrow> byte cptr \<Rightarrow> heap \<Rightarrow> ccol_retval \<times> cstring \<times> heap \<Rightarrow> bool" where
  "inserts_at s pos p h r \<longleftrightarrow>
     (case r of (rv, s', h') \<Rightarrow>
        rv = edit_retval s p h \<and> blocks_kept h h' \<and> cs_inv s' \<and> cs_frame s s'
          \<and> cs_str s' = (if rv = ccol_success then take pos (cs_str s) @ arg_str s p @ drop pos (cs_str s) else cs_str s))"

lemma no_null_insert:
  "cs_inv s \<Longrightarrow> cstr_arg s p \<Longrightarrow> 0 \<notin> set (take pos (cs_str s) @ arg_str s p @ drop pos (cs_str s))"
  using cs_invD(7) [of s] arg_strlen(2) [of s p] by (auto dest: in_set_takeD in_set_dropD)

lemma inserts_nothing:
  "cs_inv s \<Longrightarrow> length (arg_str s p) = 0 \<Longrightarrow> inserts_at s pos p h (ccol_success, s, h)"
  by (simp add: inserts_at_def edit_retval_def)

lemma inserts_refused:
  "cs_inv s \<Longrightarrow> length (arg_str s p) \<noteq> 0 \<Longrightarrow> cs_length s + length (arg_str s p) \<ge> SIZE_MAX \<Longrightarrow>
     inserts_at s pos p h (ccol_container_full, s, h)"
  by (simp add: inserts_at_def edit_retval_def)

lemma cs_insert_spec:
  assumes inv: "cs_inv s" and arg: "cstr_arg s p" and pos: "pos \<le> cs_length s"
  shows "\<exists>r. cstring_insert (Some s) pos p h = Some r \<and> inserts_at s pos p h r"
proof -
  let ?n = "length (arg_str s p)"
  have nn: "p \<noteq> Null" using arg by (auto simp: cstr_arg_def)
  note sl = arg_strlen [OF inv arg] and eg = edit_guard [OF inv arg]
  consider "?n = 0" | "?n \<noteq> 0" "cs_length s + ?n \<ge> SIZE_MAX" | "?n \<noteq> 0" "cs_length s + ?n < SIZE_MAX" by linarith
  then show ?thesis
  proof cases
    case 1
    then show ?thesis using inserts_nothing [OF inv 1] nn pos sl(1) by (auto simp: cstring_insert_def)
  next
    case 2
    then show ?thesis using inserts_refused [OF inv 2] nn pos sl(1) eg(1) by (auto simp: cstring_insert_def)
  next
    case 3
    have n1: "cs_length s + ?n + 1 \<le> SIZE_MAX" using 3 by simp
    obtain t h' where g: "cstring_grow_to s (cs_length s + ?n + 1) h = (cs_grows s (cs_length s + ?n + 1) h, t, h')"
        "blocks_kept h h'" "cs_inv t" "cs_frame s t" "cs_same_buffer s t"
        "cs_grows s (cs_length s + ?n + 1) h \<Longrightarrow> cs_length s + ?n + 1 \<le> cs_capacity t"
        "\<not> cs_grows s (cs_length s + ?n + 1) h \<Longrightarrow> t = s"
      by (rule grow_to_spec [OF inv n1, where h = h], rule that)
    show ?thesis
    proof (cases "cs_grows s (cs_length s + ?n + 1) h")
      case False
      then have "cstring_insert (Some s) pos p h = Some (ccol_not_enough_memory, s, h')"
        using nn pos sl(1) eg 3 g(1,7) by (simp add: cstring_insert_def)
      then show ?thesis using False 3 g(2) inv by (auto simp: inserts_at_def edit_retval_def)
    next
      case True
      note m = insert_moves [OF inv g(3,5) arg pos g(6) [OF True]]
      let ?d = "poke (poke (cs_data t) (pos + ?n) (peek (cs_data t) pos (cs_length s - pos + 1))) pos (arg_str s p)"
      have al: "(case cstr_alias_off s p of Some off \<Rightarrow> if off > pos then Self (off + ?n) else p | None \<Rightarrow> p)
          = shifted_ptr p pos ?n"
        using rebase_arg(2) [OF inv arg] by (auto simp: shifted_ptr_def split: cptr.splits)
      have lt: "cs_length t = cs_length s" using g(5) by (simp add: cs_same_buffer_def)
      have "cstring_insert (Some s) pos p h = Some (ccol_success, t\<lparr>cs_data := ?d, cs_length := cs_length s + ?n\<rparr>, h')"
        using nn pos sl(1) eg 3 g(1) True rebase_arg(1) [OF inv arg] m(1,2) lt al
        by (simp add: cstring_insert_def)
      moreover have "cs_length s + ?n < cs_capacity t" using g(6) [OF True] by simp
      note e = edit_result [OF g(3) m(3) this m(4,5) no_null_insert [OF inv arg]]
      ultimately show ?thesis
        using e True 3 g(2) cs_frame_trans [OF g(4) e(3)] by (auto simp: inserts_at_def edit_retval_def)
    qed
  qed
qed

lemma prepend_is_insert: "cstring_prepend s p h = cstring_insert s 0 p h"
  unfolding cstring_prepend_def cstring_insert_def by (simp only: add_0_left diff_zero not_less0 simp_thms)

lemma append_spec:
  assumes inv: "cs_inv s" and arg: "cstr_arg s p"
  shows "\<exists>r. cstring_append (Some s) p h = Some r \<and> inserts_at s (cs_length s) p h r"
proof -
  let ?n = "length (arg_str s p)"
  have nn: "p \<noteq> Null" using arg by (auto simp: cstr_arg_def)
  note sl = arg_strlen [OF inv arg] and eg = edit_guard [OF inv arg]
  have ts: "take (cs_length s) (cs_str s) @ arg_str s p @ drop (cs_length s) (cs_str s) = cs_str s @ arg_str s p"
    using length_cs_str [OF inv] by simp
  consider "?n = 0" | "?n \<noteq> 0" "cs_length s + ?n \<ge> SIZE_MAX" | "?n \<noteq> 0" "cs_length s + ?n < SIZE_MAX" by linarith
  then show ?thesis
  proof cases
    case 1
    then show ?thesis using inserts_nothing [OF inv 1] nn sl(1) by (auto simp: cstring_append_def)
  next
    case 2
    then show ?thesis using inserts_refused [OF inv 2] nn sl(1) eg(1) by (auto simp: cstring_append_def)
  next
    case 3
    have n1: "cs_length s + ?n + 1 \<le> SIZE_MAX" using 3 by simp
    obtain t h' where g: "cstring_grow_to s (cs_length s + ?n + 1) h = (cs_grows s (cs_length s + ?n + 1) h, t, h')"
        "blocks_kept h h'" "cs_inv t" "cs_frame s t" "cs_same_buffer s t"
        "cs_grows s (cs_length s + ?n + 1) h \<Longrightarrow> cs_length s + ?n + 1 \<le> cs_capacity t"
        "\<not> cs_grows s (cs_length s + ?n + 1) h \<Longrightarrow> t = s"
      by (rule grow_to_spec [OF inv n1, where h = h], rule that)
    show ?thesis
    proof (cases "cs_grows s (cs_length s + ?n + 1) h")
      case False
      then have "cstring_append (Some s) p h = Some (ccol_not_enough_memory, s, h')"
        using nn sl(1) eg 3 g(1,7) by (simp add: cstring_append_def)
      then show ?thesis using False 3 g(2) inv by (auto simp: inserts_at_def edit_retval_def)
    next
      case True
      have lt: "cs_length t = cs_length s" using g(5) by (simp add: cs_same_buffer_def)
      have room: "cs_length s + ?n < cs_capacity t" using g(6) [OF True] by simp
      have lc: "length (cs_data t) = cs_capacity t" using cs_invD(4) [OF g(3)] .
      have src: "readable (cs_data t) p ?n" "read_ptr (cs_data t) p ?n = arg_str s p"
          "\<forall>off. p = Self off \<longrightarrow> \<not> overlaps (cs_length s) off ?n"
        using append_arg_source [OF inv g(3,5) arg] by auto
      let ?w = "poke (cs_data t) (cs_length s) (arg_str s p)"
      let ?d = "?w[cs_length s + ?n := 0]"
      have mc: "memcpy (cs_data t) (cs_length s) p ?n = Some ?w"
        using memcpy_Some [OF src(1) _ src(3)] room lc src(2) by simp
      have l0: "length ?w = cs_capacity t" using room lc by (simp add: length_poke)
      have "take (cs_length s + ?n) ?w = cs_str s @ arg_str s p"
        using take_poke_end [of "cs_length s" "cs_data t" "cs_length s + ?n" "arg_str s p"] room lc
          same_buffer_str(1) [OF inv g(5)] lt by (simp add: cs_str_def)
      then have d: "length ?d = cs_capacity t" "take (cs_length s + ?n) ?d = cs_str s @ arg_str s p" "?d ! (cs_length s + ?n) = 0"
        using l0 room by simp_all
      have "cstring_append (Some s) p h = Some (ccol_success, t\<lparr>cs_data := ?d, cs_length := cs_length s + ?n\<rparr>, h')"
        using nn sl(1) eg 3 g(1) True rebase_arg(1) [OF inv arg] mc lt l0 room
        by (simp add: cstring_append_def store_def Let_def)
      moreover have "0 \<notin> set (cs_str s @ arg_str s p)" using no_null_insert [OF inv arg, of "cs_length s"] ts by simp
      note e = edit_result [OF g(3) d(1) room d(2,3) this]
      ultimately show ?thesis
        using e True 3 g(2) cs_frame_trans [OF g(4) e(3)] ts by (auto simp: inserts_at_def edit_retval_def)
    qed
  qed
qed

lemma set_spec:
  assumes inv: "cs_inv s" and arg: "cstr_arg s p"
  shows "\<exists>rv s' h'. cstring_set (Some s) p h = Some (rv, s', h') \<and> blocks_kept h h' \<and> cs_inv s' \<and> cs_frame s s'
     \<and> rv = (if cs_grows s (length (arg_str s p) + 1) h then ccol_success else ccol_not_enough_memory)
     \<and> cs_str s' = (if rv = ccol_success then arg_str s p else cs_str s)"
proof -
  let ?n = "length (arg_str s p)"
  have nn: "p \<noteq> Null" using arg by (auto simp: cstr_arg_def)
  note sl = arg_strlen [OF inv arg]
  have n1: "?n + 1 \<le> SIZE_MAX" "sz_add ?n 1 = ?n + 1" "cstring_length_fits_with_terminator ?n"
    using sl(3) by (simp_all add: sz_add_exact cstring_length_fits_with_terminator_def ccol_invalid_size_def)
  obtain t h' where g: "cstring_grow_to s (?n + 1) h = (cs_grows s (?n + 1) h, t, h')"
      "blocks_kept h h'" "cs_inv t" "cs_frame s t" "cs_same_buffer s t"
      "cs_grows s (?n + 1) h \<Longrightarrow> ?n + 1 \<le> cs_capacity t" "\<not> cs_grows s (?n + 1) h \<Longrightarrow> t = s"
    by (rule grow_to_spec [OF inv n1(1), where h = h], rule that)
  show ?thesis
  proof (cases "cs_grows s (?n + 1) h")
    case False
    then have "cstring_set (Some s) p h = Some (ccol_not_enough_memory, s, h')"
      using nn sl(1) n1 g(1,7) by (simp add: cstring_set_def)
    then show ?thesis using False g(2) inv by auto
  next
    case True
    note src = grown_source [OF inv g(3,5) arg]
    have room: "?n < cs_capacity t" using g(6) [OF True] by simp
    have lc: "length (cs_data t) = cs_capacity t" using cs_invD(4) [OF g(3)] .
    let ?d = "poke (cs_data t) 0 (arg_str s p @ [0])"
    have mm: "memmove (cs_data t) 0 p (?n + 1) = Some ?d" using src room lc by (simp add: memmove_def)
    have d: "length ?d = cs_capacity t" "take ?n ?d = arg_str s p" "?d ! ?n = 0"
      using room lc by (simp_all add: poke_def nth_append)
    note e = edit_result [OF g(3) d(1) room d(2,3) sl(2)]
    have "cstring_set (Some s) p h = Some (ccol_success, t\<lparr>cs_data := ?d, cs_length := ?n\<rparr>, h')"
      using nn sl(1) n1 g(1) True rebase_arg(1) [OF inv arg] mm by (simp add: cstring_set_def)
    then show ?thesis using e True g(2) cs_frame_trans [OF g(4) e(3)] by auto
  qed
qed

lemma cs_reset_spec:
  assumes inv: "cs_inv s"
  obtains s' h' where "cstring_reset (Some s) h = Some (s', h')" "blocks_kept h h'" "cs_inv s'" "cs_frame s s'" "cs_str s' = []"
proof -
  note i = cs_invD [OF inv]
  have fin: "\<exists>s'. (do { d \<leftarrow> store (cs_data t) 0 0; Some (t\<lparr>cs_length := 0, cs_data := d\<rparr>, h1) }) = Some (s', h1)
      \<and> cs_inv s' \<and> cs_frame s s' \<and> cs_str s' = []"
    if t: "pow2 (cs_capacity t)" "16 \<le> cs_capacity t" "cs_capacity t \<le> ccol_max_elem_count"
      "length (cs_data t) = cs_capacity t" "cs_frame s t" for t h1
    using t i(8,9) by (auto simp: store_def cs_inv_def cs_str_def cs_frame_def cstring_minimum_capacity_def)
  have p16: "pow2 16" using pow2I [of 4] by simp
  show thesis
  proof (cases "cs_capacity s = 16")
    case True
    then show thesis using fin [of s h] i that [of _ h] by (auto simp: cstring_reset_def cstring_minimum_capacity_def)
  next
    case False
    obtain r h1 where r: "mem_realloc h (cs_data s) 16 = (r, h1)" by fastforce
    note k = mem_realloc_kept [OF r]
    show thesis
    proof (cases r)
      case None
      then show thesis using fin [of s h1] i k r False that [of _ h1]
        by (auto simp: cstring_reset_def cstring_minimum_capacity_def)
    next
      case (Some bs)
      let ?t = "s\<lparr>cs_data := bs, cs_capacity := 16\<rparr>"
      have "length bs = 16" using mem_realloc_shrink [of h "cs_data s" 16 bs h1] r Some i(2,4) by simp
      then have "\<exists>s'. (do { d \<leftarrow> store (cs_data ?t) 0 0; Some (?t\<lparr>cs_length := 0, cs_data := d\<rparr>, h1) }) = Some (s', h1)
          \<and> cs_inv s' \<and> cs_frame s s' \<and> cs_str s' = []"
        using p16 i(8) by (intro fin) (simp_all add: size_defs cs_frame_def)
      then show thesis using k r Some False that [of _ h1]
        by (auto simp: cstring_reset_def cstring_minimum_capacity_def)
    qed
  qed
qed

lemma cs_reserve_spec:
  assumes inv: "cs_inv s" and n: "n \<le> SIZE_MAX"
  shows "\<exists>ok s' h'. cstring_reserve (Some s) n h = Some (ok, s', h') \<and> blocks_kept h h' \<and> cs_inv s' \<and> cs_frame s s'
     \<and> cs_str s' = cs_str s \<and> (ok \<longleftrightarrow> cs_grows s n h) \<and> (if ok then n \<le> cs_capacity s' else s' = s)"
proof -
  let ?n = "if n < cstring_minimum_capacity then cstring_minimum_capacity else n"
  have n1: "?n \<le> SIZE_MAX" using n by (simp add: size_defs)
  have e: "cs_grows s ?n h = cs_grows s n h" using cs_invD(2) [OF inv] by (auto simp: cs_grows_def cstring_minimum_capacity_def)
  obtain t h' where g: "cstring_grow_to s ?n h = (cs_grows s ?n h, t, h')"
      "blocks_kept h h'" "cs_inv t" "cs_frame s t" "cs_same_buffer s t"
      "cs_grows s ?n h \<Longrightarrow> ?n \<le> cs_capacity t" "\<not> cs_grows s ?n h \<Longrightarrow> t = s"
    by (rule grow_to_spec [OF inv n1, where h = h], rule that)
  have c: "n \<le> cs_capacity t" if "cs_grows s n h" using that e g(6) by (auto split: if_splits)
  have "cstring_reserve (Some s) n h = Some (cs_grows s n h, t, h')"
    unfolding cstring_reserve_def option.case Let_def g(1) e ..
  then show ?thesis using g(2-4,7) c e same_buffer_str(1) [OF inv g(5)] by simp
qed

section \<open>Case and white space\<close>

lemma fold_case_spec:
  assumes "i + n \<le> length d"
  shows "cstring_fold_case f d i n = Some (take i d @ map f (peek d i n) @ drop (i + n) d)"
  using assms
proof (induction n arbitrary: d i)
  case 0
  then show ?case by (simp add: peek_0)
next
  case (Suc n)
  let ?d = "d[i := f (d ! i)]"
  have "cstring_fold_case f d i (Suc n) = cstring_fold_case f ?d (i + 1) n" using Suc.prems by (simp add: store_def)
  also have "\<dots> = Some (take (i + 1) ?d @ map f (peek ?d (i + 1) n) @ drop (i + 1 + n) ?d)"
    using Suc.prems by (intro Suc.IH) simp
  also have "take (i + 1) ?d = take i d @ [f (d ! i)]" using Suc.prems by (simp add: take_Suc_conv_app_nth)
  also have "peek ?d (i + 1) n = peek d (i + 1) n" by (simp add: peek_def)
  also have "drop (i + 1 + n) ?d = drop (i + Suc n) d" by simp
  also have "peek d i (Suc n) = d ! i # peek d (i + 1) n"
    using Suc.prems Cons_nth_drop_Suc [of i d] by (metis Suc_eq_plus1 add_lessD1 less_eq_Suc_le add_Suc_right peek_def take_Suc_Cons)
  ultimately show ?case by simp
qed

lemma byte_bounds: "0 \<le> uint (b::byte)" "uint b < 256"
  using uint_nonnegative [of b] uint_bounded [of b] by simp_all

lemma uint_case_bytes:
  "uint (upper_byte b) = ccol_ascii_toupper (uint b)" "uint (lower_byte b) = ccol_ascii_tolower (uint b)"
  using byte_bounds [of b]
  by (simp_all add: upper_byte_def lower_byte_def ccol_ascii_toupper_def ccol_ascii_tolower_def
      uint_word_of_int take_bit_eq_mod)

lemma case_bytes_null: "b \<noteq> 0 \<Longrightarrow> upper_byte b \<noteq> 0" "b \<noteq> 0 \<Longrightarrow> lower_byte b \<noteq> 0"
  using uint_pos [of b] uint_case_bytes [of b]
  by (auto simp: ccol_ascii_toupper_def ccol_ascii_tolower_def split: if_splits)

lemma map_case_spec:
  assumes inv: "cs_inv s" and f: "\<And>b. b \<noteq> 0 \<Longrightarrow> f b \<noteq> 0"
  obtains d where "cstring_fold_case f (cs_data s) 0 (cs_length s) = Some d" "cs_inv (s\<lparr>cs_data := d\<rparr>)"
    "cs_str (s\<lparr>cs_data := d\<rparr>) = map f (cs_str s)" "cs_frame s (s\<lparr>cs_data := d\<rparr>)"
proof -
  note i = cs_invD [OF inv]
  let ?d = "map f (cs_str s) @ drop (cs_length s) (cs_data s)"
  have e: "cstring_fold_case f (cs_data s) 0 (cs_length s) = Some ?d"
    using fold_case_spec [of 0 "cs_length s" "cs_data s" f] i(4,5) by (simp add: peek_at_0 cs_str_def)
  have l: "length (map f (cs_str s)) = cs_length s" using length_cs_str [OF inv] by simp
  have "take (cs_length s) ?d = map f (cs_str s)" using l by simp
  moreover have "?d ! cs_length s = 0" using l i(4-6) by (simp add: nth_append)
  moreover have "0 \<notin> set (map f (cs_str s))" using i(7) f by (metis (no_types) imageE list.set_map)
  moreover have "length ?d = cs_capacity s" using l i(4,5) by simp
  ultimately have "cs_inv (s\<lparr>cs_data := ?d, cs_length := cs_length s\<rparr>)"
      "cs_str (s\<lparr>cs_data := ?d, cs_length := cs_length s\<rparr>) = map f (cs_str s)"
    using edit_result [OF inv _ i(5)] by blast+
  then show thesis using that [OF e] by (simp add: cs_frame_def)
qed

text \<open>What trimming means: no white space at either end is kept.\<close>

definition trim_ends :: "byte list \<Rightarrow> byte list" where
  "trim_ends xs = dropWhile space_byte (rev (dropWhile space_byte (rev xs)))"

lemma trim_end_loop_spec:
  "n \<le> length d \<Longrightarrow> take (trim_end_loop d n) d = rev (dropWhile space_byte (rev (take n d))) \<and> trim_end_loop d n \<le> n"
  by (induction n) (auto simp: take_Suc_conv_app_nth space_byte_def)

lemma trim_start_loop_spec:
  "start \<le> len \<Longrightarrow> len \<le> length d \<Longrightarrow>
     trim_start_loop d start len = start + length (takeWhile space_byte (peek d start (len - start)))"
proof (induction d start len rule: trim_start_loop.induct)
  case (1 d start len)
  show ?case
  proof (cases "start < len")
    case True
    then have p: "peek d start (len - start) = d ! start # peek d (start + 1) (len - (start + 1))"
      using 1 Cons_nth_drop_Suc [of start d]
      by (metis Suc_diff_Suc Suc_eq_plus1 order_less_le_trans peek_def take_Suc_Cons)
    show ?thesis
    proof (cases "space_byte (d ! start)")
      case sp: True
      then have "trim_start_loop d start len = trim_start_loop d (start + 1) len"
        using True by (subst trim_start_loop.simps) (simp add: space_byte_def)
      then show ?thesis using sp True 1 p by (simp add: space_byte_def)
    qed (use True p in \<open>subst trim_start_loop.simps, simp add: space_byte_def\<close>)
  next
    case False
    then show ?thesis using 1 by (subst trim_start_loop.simps) (simp add: peek_0)
  qed
qed

lemma trim_spec:
  assumes inv: "cs_inv s"
  obtains s' where "cstring_trim (Some s) = Some s'" "cs_inv s'" "cs_frame s s'" "cs_str s' = trim_ends (cs_str s)"
proof (cases "cs_length s = 0")
  case True
  then show thesis using that [of s] inv by (simp add: cstring_trim_def trim_ends_def cs_str_def)
next
  case False
  note i = cs_invD [OF inv]
  let ?e = "trim_end_loop (cs_data s) (cs_length s)"
  let ?d = "(cs_data s)[?e := 0]"
  let ?xs = "rev (dropWhile space_byte (rev (cs_str s)))"
  let ?k = "trim_start_loop ?d 0 ?e"
  have e: "take ?e (cs_data s) = ?xs" "?e \<le> cs_length s"
    using trim_end_loop_spec [of "cs_length s" "cs_data s"] i(4,5) by (auto simp: cs_str_def)
  then have le: "?e < cs_capacity s" "length ?xs = ?e" using i(4,5) by (simp_all, metis length_take min.absorb2 nat_less_le order.strict_trans2 length_rev)
  have d: "length ?d = cs_capacity s" "take ?e ?d = ?xs" "?d ! ?e = 0" using e le i(4) by simp_all
  have z: "0 \<notin> set ?xs" using i(7) by (auto dest: set_dropWhileD)
  have k: "?k = length (takeWhile space_byte ?xs)"
    using trim_start_loop_spec [of 0 ?e ?d] d le by (simp add: peek_at_0)
  have kl: "?k \<le> ?e" using k le(2) length_takeWhile_le [of space_byte ?xs] by simp
  have st: "store (cs_data s) ?e 0 = Some ?d" using le i(4) by (simp add: store_def)
  show thesis
  proof (cases "?k = 0")
    case True
    then have "dropWhile space_byte ?xs = ?xs" using k by (metis dropWhile_eq_drop drop0)
    moreover note edit_result [OF inv d(1) le(1) d(2,3) z]
    moreover have "cstring_trim (Some s) = Some (s\<lparr>cs_data := ?d, cs_length := ?e\<rparr>)"
      using False st True by (simp add: cstring_trim_def)
    ultimately show thesis using that by (simp add: trim_ends_def)
  next
    case nz: False
    let ?g = "poke ?d 0 (drop ?k ?xs @ [0])"
    have pk: "peek ?d ?k (?e - ?k + 1) = drop ?k ?xs @ [0]"
    proof -
      have "take (Suc ?e) ?d = ?xs @ [0]" using take_Suc_conv_app_nth [of ?e ?d] d le by simp
      then have "drop ?k (take (Suc ?e) ?d) = drop ?k ?xs @ [0]" using kl le(2) by simp
      then show ?thesis using kl by (simp add: peek_def drop_take Suc_diff_le)
    qed
    have "memmove ?d 0 (Self ?k) (?e - ?k + 1) = Some ?g"
      using kl le d(1) pk by (simp add: memmove_def readable_def read_ptr_def)
    then have t: "cstring_trim (Some s) = Some (s\<lparr>cs_data := ?g, cs_length := ?e - ?k\<rparr>)"
      using False st nz by (simp add: cstring_trim_def Let_def)
    have lx: "length (drop ?k ?xs) = ?e - ?k" using le(2) by simp
    have g: "length ?g = cs_capacity s" "take (?e - ?k) ?g = drop ?k ?xs" "?g ! (?e - ?k) = 0" "?e - ?k < cs_capacity s"
      using kl le d(1) lx by (simp_all add: poke_def nth_append)
    have "0 \<notin> set (drop ?k ?xs)" using z by (meson in_set_dropD)
    note r = edit_result [OF inv g(1,4,2,3) this]
    have "drop ?k ?xs = trim_ends (cs_str s)" using k by (simp add: trim_ends_def dropWhile_eq_drop)
    then show thesis using that [OF t] r by simp
  qed
qed

end
