(* ===== verification/CCol_String_Replace.thy ===== *)
theory CCol_String_Replace
  imports CCol_String_Edit
begin

text \<open>
  \<^verbatim>\<open>cstring_replace\<close> of \<^verbatim>\<open>src/cstring.c\<close>: a first pass counts the occurrences,
  the new length is computed with its overflow guards, and a second pass builds
  the result in a buffer of its own.
\<close>

section \<open>The operation\<close>

definition compute_replace_new_length ::
  "size_t \<Rightarrow> size_t \<Rightarrow> size_t \<Rightarrow> size_t \<Rightarrow> (ccol_retval + size_t) option" where
  "compute_replace_new_length orig_length nlen rlen count =
     (if count = 0 then None
      else if rlen \<ge> nlen then
        (let added = sz_mul (rlen - nlen) count in
         if added div count \<noteq> rlen - nlen then Some (Inl ccol_container_full)
         else let new_len = sz_add orig_length added in
           if new_len < orig_length \<or> \<not> cstring_length_fits_with_terminator new_len
           then Some (Inl ccol_container_full)
           else Some (Inr new_len))
      else Some (Inr (sz_sub orig_length (sz_mul (nlen - rlen) count))))"

text \<open>The two loops over the occurrences; \<^term>\<open>None\<close> is a loop that never ends or an undefined copy.\<close>

partial_function (option) replace_count_loop :: "byte list \<Rightarrow> byte list \<Rightarrow> nat \<Rightarrow> size_t \<Rightarrow> size_t option" where
  "replace_count_loop d needle ptr count =
     (case strstr_at d ptr needle of
        None \<Rightarrow> Some count
      | Some found \<Rightarrow> replace_count_loop d needle (found + length needle) (sz_add count 1))"

partial_function (option) replace_build_loop ::
  "byte list \<Rightarrow> byte list \<Rightarrow> byte list \<Rightarrow> nat \<Rightarrow> byte list \<Rightarrow> nat \<Rightarrow> byte list option" where
  "replace_build_loop d needle replacement src new_buf dst =
     (case strstr_at d src needle of
        None \<Rightarrow> do {
          tail \<leftarrow> strlen (drop src d);
          memcpy new_buf dst (Ext (drop src d)) (tail + 1)
        }
      | Some found \<Rightarrow> do {
          let before = found - src;
          new_buf \<leftarrow> memcpy new_buf dst (Ext (drop src d)) before;
          new_buf \<leftarrow> memcpy new_buf (dst + before) (Ext replacement) (length replacement);
          replace_build_loop d needle replacement (found + length needle) new_buf
            (dst + before + length replacement)
        })"

definition cstring_replace ::
  "cstring option \<Rightarrow> byte cptr \<Rightarrow> byte cptr \<Rightarrow> heap \<Rightarrow> (ccol_retval \<times> cstring \<times> heap) option" where
  "cstring_replace s needle replacement h =
     (case s of
        None \<Rightarrow> None
      | Some s \<Rightarrow>
          if needle = Null then Some (ccol_invalid_args, s, h)
          else do {
            nlen \<leftarrow> strlen (ptr_bytes (cs_data s) needle);
            (if nlen = 0 \<or> replacement = Null then Some (ccol_invalid_args, s, h)
             else do {
               rlen \<leftarrow> strlen (ptr_bytes (cs_data s) replacement);
               let nd = take nlen (ptr_bytes (cs_data s) needle);
               let rp = take rlen (ptr_bytes (cs_data s) replacement);
               count \<leftarrow> replace_count_loop (cs_data s) nd 0 0;
               (if count = 0 then Some (ccol_success, s, h)
                else do {
                  len_rv \<leftarrow> compute_replace_new_length (cs_length s) nlen rlen count;
                  (case len_rv of
                     Inl rv \<Rightarrow> Some (rv, s, h)
                   | Inr new_len \<Rightarrow>
                       (let new_cap = ccol_find_nearest_gte_power_of_two (sz_add new_len 1) in
                        if new_cap = ccol_invalid_size then Some (ccol_container_full, s, h)
                        else let new_cap = (if new_cap < cstring_minimum_capacity then cstring_minimum_capacity
                                            else new_cap) in
                          (case mem_alloc h new_cap of
                             (None, h) \<Rightarrow> Some (ccol_not_enough_memory, s, h)
                           | (Some (nb, new_buf), h) \<Rightarrow> do {
                               d \<leftarrow> replace_build_loop (cs_data s) nd rp 0 new_buf 0;
                               let h = (case cs_data_blk s of None \<Rightarrow> h | Some b \<Rightarrow> mem_free h b);
                               Some (ccol_success,
                                     s\<lparr>cs_data := d, cs_data_blk := Some nb, cs_length := new_len,
                                       cs_capacity := new_cap\<rparr>, h)
                             })))
                })
             })
          })"

section \<open>Replacement of all occurrences, as a specification\<close>

lemma first_occurrence_SomeD: "first_occurrence hay needle = Some i \<Longrightarrow> occurs_at hay needle i"
  using strstr_Some [of hay needle i] by (simp add: strstr_first)

lemma drop_occurrence_shorter:
  "first_occurrence xs needle = Some i \<Longrightarrow> needle \<noteq> [] \<Longrightarrow> length (drop (i + length needle) xs) < length xs"
  using first_occurrence_SomeD [of xs needle i] by (cases xs) (auto simp: occurs_at_def)

text \<open>Left to right and without overlaps; a string has no occurrence of the empty string to replace.\<close>

function replace_all :: "byte list \<Rightarrow> byte list \<Rightarrow> byte list \<Rightarrow> byte list" where
  "replace_all needle rep xs =
     (case first_occurrence xs needle of
        None \<Rightarrow> xs
      | Some i \<Rightarrow> if needle = [] then xs
                  else take i xs @ rep @ replace_all needle rep (drop (i + length needle) xs))"
  by auto
termination by (relation "measure (\<lambda>(needle, rep, xs). length xs)") (auto dest: drop_occurrence_shorter)

function count_occurrences :: "byte list \<Rightarrow> byte list \<Rightarrow> nat" where
  "count_occurrences needle xs =
     (case first_occurrence xs needle of
        None \<Rightarrow> 0
      | Some i \<Rightarrow> if needle = [] then 0 else Suc (count_occurrences needle (drop (i + length needle) xs)))"
  by auto
termination by (relation "measure (\<lambda>(needle, xs). length xs)") (auto dest: drop_occurrence_shorter)

declare replace_all.simps [simp del] count_occurrences.simps [simp del]

lemma length_replace_all:
  "length (replace_all needle rep xs) + count_occurrences needle xs * length needle
     = length xs + count_occurrences needle xs * length rep"
proof (induction needle rep xs rule: replace_all.induct)
  case (1 needle rep xs)
  show ?case
  proof (cases "first_occurrence xs needle")
    case None
    then show ?thesis by (simp add: replace_all.simps [of needle rep xs] count_occurrences.simps [of needle xs])
  next
    case (Some i)
    show ?thesis
    proof (cases "needle = []")
      case True
      then show ?thesis using Some
        by (simp add: replace_all.simps [of "[]" rep xs] count_occurrences.simps [of "[]" xs])
    next
      case False
      let ?r = "drop (i + length needle) xs"
      have "length (replace_all needle rep ?r) + count_occurrences needle ?r * length needle
          = length ?r + count_occurrences needle ?r * length rep" by (rule 1 [OF Some False])
      moreover have "i + length needle \<le> length xs" using first_occurrence_SomeD [OF Some] by (simp add: occurs_at_def)
      ultimately show ?thesis using Some False
        by (simp add: replace_all.simps [of needle rep xs] count_occurrences.simps [of needle xs])
    qed
  qed
qed

lemma replace_all_no_null: "0 \<notin> set xs \<Longrightarrow> 0 \<notin> set rep \<Longrightarrow> 0 \<notin> set (replace_all needle rep xs)"
proof (induction needle rep xs rule: replace_all.induct)
  case (1 needle rep xs)
  then show ?case
    by (subst replace_all.simps) (auto split: option.split dest: in_set_takeD in_set_dropD)
qed

section \<open>Correctness\<close>

lemma count_loop_spec:
  assumes inv: "cs_inv s" and ne: "needle \<noteq> []"
  shows "off \<le> cs_length s \<Longrightarrow> c + (cs_length s - off) \<le> SIZE_MAX \<Longrightarrow>
     replace_count_loop (cs_data s) needle off c = Some (c + count_occurrences needle (drop off (cs_str s)))"
proof (induction "cs_length s - off" arbitrary: off c rule: less_induct)
  case less
  let ?r = "drop off (cs_str s)"
  show ?case
  proof (cases "first_occurrence ?r needle")
    case None
    then show ?thesis using strstr_at_spec [OF inv less.prems(1), of needle]
      by (subst replace_count_loop.simps) (simp add: count_occurrences.simps [of needle ?r])
  next
    case (Some i)
    let ?o = "off + i + length needle"
    have o: "?o \<le> cs_length s"
      using first_occurrence_SomeD [OF Some] length_cs_str [OF inv] less.prems(1) by (auto simp: occurs_at_def)
    have nl: "0 < length needle" using ne by simp
    have "sz_add c 1 = c + 1" using less.prems o nl by (intro sz_add_exact) linarith
    then have "replace_count_loop (cs_data s) needle off c = replace_count_loop (cs_data s) needle ?o (c + 1)"
      using strstr_at_spec [OF inv less.prems(1), of needle] Some
      by (subst replace_count_loop.simps) simp
    also have "\<dots> = Some (c + 1 + count_occurrences needle (drop ?o (cs_str s)))"
      using o nl less.prems by (intro less.hyps) linarith+
    finally show ?thesis using Some ne
      by (simp add: count_occurrences.simps [of needle ?r] add.commute add.left_commute)
  qed
qed

lemma build_loop_spec:
  assumes inv: "cs_inv s" and ne: "needle \<noteq> []"
  shows "src \<le> cs_length s \<Longrightarrow> dst + length (replace_all needle rep (drop src (cs_str s))) + 1 \<le> length nb \<Longrightarrow>
     \<exists>nb'. replace_build_loop (cs_data s) needle rep src nb dst = Some nb' \<and> length nb' = length nb
       \<and> take (dst + length (replace_all needle rep (drop src (cs_str s))) + 1) nb'
         = take dst nb @ replace_all needle rep (drop src (cs_str s)) @ [0]"
proof (induction "cs_length s - src" arbitrary: src nb dst rule: less_induct)
  case less
  let ?r = "drop src (cs_str s)" and ?b = "drop src (cs_data s)"
  note i = cs_invD [OF inv]
  have lr: "length ?r = cs_length s - src" using length_cs_str [OF inv] by simp
  have pk: "take (length ?r) ?b = ?r" "take (length ?r + 1) ?b = ?r @ [0]"
    using peek_arg [OF inv less.prems(1)] lr by (simp_all add: peek_def)
  show ?case
  proof (cases "first_occurrence ?r needle")
    case None
    then have R: "replace_all needle rep ?r = ?r" by (simp add: replace_all.simps [of needle rep ?r])
    have sl: "strlen ?b = Some (length ?r)"
      using strlen_total [OF null_in_suffix [OF inv less.prems(1)]] c_str_suffix [OF inv less.prems(1)] by simp
    have "length ?r + 1 \<le> length ?b" using lr i(4,5) less.prems(1) by simp
    then have mc: "memcpy nb dst (Ext ?b) (length ?r + 1) = Some (poke nb dst (?r @ [0]))"
      using less.prems(2) R pk(2) by (simp add: memcpy_def memmove_def readable_def read_ptr_def)
    have "replace_build_loop (cs_data s) needle rep src nb dst = Some (poke nb dst (?r @ [0]))"
      using strstr_at_spec [OF inv less.prems(1), of needle] None sl mc by (subst replace_build_loop.simps) simp
    moreover have "length (poke nb dst (?r @ [0])) = length nb" using less.prems(2) R by (simp add: length_poke)
    moreover have "take (dst + length ?r + 1) (poke nb dst (?r @ [0])) = take dst nb @ ?r @ [0]"
      using less.prems(2) R by (intro take_poke_end) simp_all
    ultimately show ?thesis using R by simp
  next
    case (Some k)
    let ?o = "src + k + length needle"
    have occ: "k + length needle \<le> length ?r" using first_occurrence_SomeD [OF Some] by (simp add: occurs_at_def)
    then have o: "?o \<le> cs_length s" "k \<le> length ?b" using lr less.prems(1) i(4,5) by simp_all
    let ?R = "replace_all needle rep (drop ?o (cs_str s))"
    have R: "replace_all needle rep ?r = take k ?r @ rep @ ?R"
      using Some ne by (simp add: replace_all.simps [of needle rep ?r] add.commute add.left_commute)
    have tk: "take k ?b = take k ?r" using pk(1) occ by (metis add_leD1 min.absorb1 take_take)
    have lk: "length (take k ?r) = k" using occ by simp
    have l: "dst + k + length rep + length ?R + 1 \<le> length nb" using less.prems(2) R lk by simp
    let ?n1 = "poke nb dst (take k ?r)"
    have m1: "memcpy nb dst (Ext ?b) k = Some ?n1" "length ?n1 = length nb"
      using l o(2) tk lk by (simp_all add: memcpy_def memmove_def readable_def read_ptr_def length_poke)
    let ?n2 = "poke ?n1 (dst + k) rep"
    have m2: "memcpy ?n1 (dst + k) (Ext rep) (length rep) = Some ?n2" "length ?n2 = length nb"
      using l m1(2) by (simp_all add: memcpy_def memmove_def readable_def read_ptr_def length_poke)
    have st: "replace_build_loop (cs_data s) needle rep src nb dst
        = replace_build_loop (cs_data s) needle rep ?o ?n2 (dst + k + length rep)"
      using strstr_at_spec [OF inv less.prems(1), of needle] Some m1(1) m2(1)
      by (subst replace_build_loop.simps) simp
    have t2: "take (dst + k + length rep) ?n2 = take dst nb @ take k ?r @ rep"
      using l m1(2) lk take_poke_end [of "dst + k" ?n1 _ rep] take_poke_end [of dst nb "dst + k" "take k ?r"] by simp
    have "0 < length needle" using ne by simp
    then have dec: "cs_length s - ?o < cs_length s - src" using o(1) by linarith
    obtain nb' where "replace_build_loop (cs_data s) needle rep ?o ?n2 (dst + k + length rep) = Some nb'"
        "length nb' = length nb"
        "take (dst + k + length rep + length ?R + 1) nb' = take (dst + k + length rep) ?n2 @ ?R @ [0]"
      using less.hyps [OF dec o(1), of "dst + k + length rep" ?n2] l m2(2) by auto
    then show ?thesis using st t2 R lk by (simp add: add.assoc)
  qed
qed

text \<open>The length computation: its guards refuse exactly the lengths that leave no room for the terminator.\<close>

lemma mul_check: "c \<noteq> 0 \<Longrightarrow> sz_mul x c div c = x \<longleftrightarrow> x * c \<le> SIZE_MAX"
proof
  assume c: "c \<noteq> 0" and d: "sz_mul x c div c = x"
  have "x * c \<le> sz_mul x c" using div_times_less_eq_dividend [of "sz_mul x c" c] d by simp
  then show "x * c \<le> SIZE_MAX" using sz_mul_le [of x c] by linarith
next
  assume "c \<noteq> 0" "x * c \<le> SIZE_MAX"
  then show "sz_mul x c div c = x" by (simp add: sz_mul_exact)
qed

lemma new_length_spec:
  assumes c: "0 < c" and bounds: "c * nlen \<le> len" "len < SIZE_MAX" and new: "new_len + c * nlen = len + c * rlen"
  shows "compute_replace_new_length len nlen rlen c
     = Some (if new_len < SIZE_MAX then Inr new_len else Inl ccol_container_full)"
proof (cases "nlen \<le> rlen")
  case True
  let ?x = "(rlen - nlen) * c"
  have e: "new_len = len + ?x" using new True
    by (metis (no_types, lifting) add.assoc add_right_cancel diff_mult_distrib le_add_diff_inverse2 mult.commute mult_le_mono2)
  show ?thesis
  proof (cases "?x \<le> SIZE_MAX")
    case x: True
    have s: "sz_mul (rlen - nlen) c = ?x" "?x div c = rlen - nlen" using x c by (simp_all add: sz_mul_exact)
    have "new_len < SIZE_MAX \<longleftrightarrow> \<not> (sz_add len ?x < len \<or> \<not> cstring_length_fits_with_terminator (sz_add len ?x))"
      using sz_add_overflow [of len ?x] x bounds(2) e sz_add_exact [of len ?x]
      by (cases new_len SIZE_MAX rule: linorder_cases)
        (auto simp: cstring_length_fits_with_terminator_def ccol_invalid_size_def)
    moreover have "sz_add len ?x = new_len" if "new_len < SIZE_MAX" using that e by (simp add: sz_add_exact)
    ultimately show ?thesis using True c s by (simp add: compute_replace_new_length_def Let_def)
  next
    case False
    then have "sz_mul (rlen - nlen) c div c \<noteq> rlen - nlen" using mul_check [of c "rlen - nlen"] c by simp
    then show ?thesis using True c False e by (simp add: compute_replace_new_length_def Let_def)
  qed
next
  case False
  let ?x = "(nlen - rlen) * c"
  have lx: "?x \<le> c * nlen" by (simp add: mult.commute)
  then have m: "sz_mul (nlen - rlen) c = ?x" using bounds by (intro sz_mul_exact) linarith
  have e: "c * nlen = ?x + c * rlen" using False by (metis add_mult_distrib2 le_add_diff_inverse2 mult.commute nat_le_linear)
  then have nl: "new_len = len - ?x" "?x \<le> len" using new lx bounds(1) by linarith+
  moreover have "len - ?x < SIZE_MAX" using nl bounds(2) by linarith
  moreover from nl have "sz_sub len ?x = len - ?x" using bounds(2) by (intro sz_sub_exact) linarith+
  ultimately show ?thesis using False c m by (simp add: compute_replace_new_length_def)
qed

lemma count_occurrences_bound: "count_occurrences needle xs * length needle \<le> length xs"
proof (induction needle xs rule: count_occurrences.induct)
  case (1 needle xs)
  show ?case
  proof (cases "first_occurrence xs needle")
    case (Some i)
    have b: "i + length needle \<le> length xs" using first_occurrence_SomeD [OF Some] by (simp add: occurs_at_def)
    show ?thesis
    proof (cases "needle = []")
      case False
      from 1 [OF Some False] b show ?thesis using Some False
        by (simp add: count_occurrences.simps [of needle xs])
    qed simp
  qed (simp add: count_occurrences.simps [of needle xs])
qed

definition alloc_granted :: "heap \<Rightarrow> bool" where
  "alloc_granted h = (case answers h of Grant _ # _ \<Rightarrow> True | _ \<Rightarrow> False)"

lemma mem_alloc_cases:
  obtains (refused) h' where "mem_alloc h n = (None, h')" "\<not> alloc_granted h" "blocks_kept h h'"
  | (granted) b bs h' where "mem_alloc h n = (Some (b, bs), h')" "alloc_granted h" "b = next_blk h" "length bs = n"
      "live h' = insert b (live h)" "next_blk h' = Suc b"
  by (cases "answers h"; cases "hd (answers h)") (auto simp: mem_alloc_def alloc_granted_def blocks_kept_def)

definition replace_retval :: "cstring \<Rightarrow> byte list \<Rightarrow> byte list \<Rightarrow> heap \<Rightarrow> ccol_retval" where
  "replace_retval s needle rep h =
     (if needle = [] then ccol_invalid_args
      else if count_occurrences needle (cs_str s) = 0 then ccol_success
      else if length (replace_all needle rep (cs_str s)) \<ge> ccol_max_elem_count then ccol_container_full
      else if alloc_granted h then ccol_success else ccol_not_enough_memory)"

definition cs_owned :: "cstring \<Rightarrow> nat set" where
  "cs_owned s = insert (cs_blk s) (set_option (cs_data_blk s))"

lemma cs_frame_owned: "cs_frame s t \<Longrightarrow> cs_owned t = cs_owned s"
  by (simp add: cs_frame_def cs_owned_def)

lemma replace_no_match: "count_occurrences needle xs = 0 \<Longrightarrow> needle \<noteq> [] \<Longrightarrow> replace_all needle rep xs = xs"
  by (simp add: count_occurrences.simps [of needle xs] replace_all.simps [of needle rep xs] split: option.splits)

text \<open>What a successful pass leaves, when the buffer of the new capacity has been granted.\<close>

lemma replace_result:
  assumes inv: "cs_inv s" and ne: "needle \<noteq> []" and rep: "0 \<notin> set rep"
    and new: "length (replace_all needle rep (cs_str s)) < ccol_max_elem_count"
  defines "n \<equiv> length (replace_all needle rep (cs_str s))"
  defines "cap \<equiv> (if ccol_find_nearest_gte_power_of_two (n + 1) < 16 then 16 else ccol_find_nearest_gte_power_of_two (n + 1))"
  assumes bs: "length bs = cap" and nb: "nb \<noteq> cs_blk s"
  obtains d where "replace_build_loop (cs_data s) needle rep 0 bs 0 = Some d"
    "cs_inv (s\<lparr>cs_data := d, cs_data_blk := Some nb, cs_length := n, cs_capacity := cap\<rparr>)"
    "cs_str (s\<lparr>cs_data := d, cs_data_blk := Some nb, cs_length := n, cs_capacity := cap\<rparr>) = replace_all needle rep (cs_str s)"
proof -
  let ?R = "replace_all needle rep (cs_str s)"
  have "n + 1 \<le> ccol_max_elem_count" using new by (simp add: n_def)
  note p = nearest_pow2_ok [OF this]
  have p16: "pow2 16" using pow2I [of 4] by simp
  have cap: "pow2 cap" "16 \<le> cap" "cap \<le> ccol_max_elem_count" "n < cap"
    using p p16 by (auto simp: cap_def size_defs)
  obtain d where d: "replace_build_loop (cs_data s) needle rep 0 bs 0 = Some d" "length d = length bs"
      "take (n + 1) d = ?R @ [0]"
    using build_loop_spec [OF inv ne, of 0 0 rep bs] cap(4) bs n_def by auto
  have "take n (take (n + 1) d) = ?R" unfolding d(3) by (simp add: n_def)
  then have t: "take n d = ?R" by simp
  have "d ! n = 0" using take_eq_nth [OF d(3), of n] by (simp add: n_def)
  then show thesis
    using that [OF d(1)] t d(2) bs nb cap replace_all_no_null [OF cs_invD(7) [OF inv] rep]
    by (simp add: cs_inv_def cs_str_def cstring_minimum_capacity_def)
qed

lemma replace_spec:
  assumes inv: "cs_inv s" and ho: "heap_ok h" "cs_owned s \<subseteq> live h" and args: "cstr_arg s np" "cstr_arg s rp"
  shows "\<exists>rv s' h'. cstring_replace (Some s) np rp h = Some (rv, s', h') \<and> cs_inv s'
     \<and> rv = replace_retval s (arg_str s np) (arg_str s rp) h \<and> blocks_moved (cs_owned s) (cs_owned s') h h'
     \<and> cs_str s' = (if rv = ccol_success then replace_all (arg_str s np) (arg_str s rp) (cs_str s) else cs_str s)"
proof -
  let ?n = "arg_str s np" and ?r = "arg_str s rp"
  let ?c = "count_occurrences ?n (cs_str s)" and ?new = "replace_all ?n ?r (cs_str s)"
  have nn: "np \<noteq> Null" "rp \<noteq> Null" using args by (auto simp: cstr_arg_def)
  note sn = arg_strlen [OF inv args(1)] and sr = arg_strlen [OF inv args(2)]
  have tk: "take (length ?n) (ptr_bytes (cs_data s) np) = ?n" "take (length ?r) (ptr_bytes (cs_data s) rp) = ?r"
    using strlen_Some [OF sn(1)] strlen_Some [OF sr(1)] by (simp_all add: arg_str_def)
  have kept: "blocks_moved (cs_owned s) (cs_owned s) h h'" if "blocks_kept h h'" for h'
    using blocks_kept_moved [OF that ho(2)] .
  show ?thesis
  proof (cases "?n = []")
    case True
    then show ?thesis using nn sn(1) inv kept [of h] by (auto simp: cstring_replace_def replace_retval_def)
  next
    case ne: False
    have cl: "replace_count_loop (cs_data s) ?n 0 0 = Some ?c"
      using count_loop_spec [OF inv ne, of 0 0] cs_length_bound [OF inv] by (simp add: size_defs)
    show ?thesis
    proof (cases "?c = 0")
      case True
      then show ?thesis using nn sn(1) sr(1) tk ne cl inv kept [of h] replace_no_match [OF True ne]
        by (auto simp: cstring_replace_def replace_retval_def)
    next
      case c: False
      have lenb: "cs_length s < SIZE_MAX" using cs_length_bound [OF inv] by (simp add: size_defs)
      have "?c * length ?n \<le> cs_length s" "length ?new + ?c * length ?n = cs_length s + ?c * length ?r"
        using count_occurrences_bound [of ?n "cs_str s"] length_replace_all [of ?n ?r "cs_str s"] length_cs_str [OF inv] by auto
      then have nl: "compute_replace_new_length (cs_length s) (length ?n) (length ?r) ?c
          = Some (if length ?new < SIZE_MAX then Inr (length ?new) else Inl ccol_container_full)"
        using new_length_spec [OF _ _ lenb] c by blast
      note eqs = nn sn(1) sr(1) tk ne cl c nl
      show ?thesis
      proof (cases "length ?new < ccol_max_elem_count")
        case False
        have "cstring_replace (Some s) np rp h = Some (ccol_container_full, s, h)"
        proof (cases "length ?new < SIZE_MAX")
          case True
          then have "sz_add (length ?new) 1 = length ?new + 1" by (simp add: sz_add_exact)
          moreover have "ccol_find_nearest_gte_power_of_two (length ?new + 1) = ccol_invalid_size"
            using True False by (intro nearest_pow2_too_large) auto
          ultimately show ?thesis using eqs True by (simp add: cstring_replace_def)
        qed (use eqs in \<open>simp add: cstring_replace_def\<close>)
        then show ?thesis using inv kept [of h] ne c False by (auto simp: replace_retval_def)
      next
        case new: True
        let ?p = "ccol_find_nearest_gte_power_of_two (length ?new + 1)"
        let ?cap = "if ?p < 16 then 16 else ?p"
        have "length ?new + 1 \<le> ccol_max_elem_count" using new by simp
        then have p: "?p \<noteq> ccol_invalid_size" using nearest_pow2_ok(3) by (fastforce simp: size_defs)
        have z: "sz_add (length ?new) 1 = length ?new + 1" "length ?new < SIZE_MAX"
          using new by (simp_all add: sz_add_exact size_defs)
        note eqs2 = eqs p z
        show ?thesis
        proof (cases rule: mem_alloc_cases [of h ?cap])
          case (refused h')
          then have "cstring_replace (Some s) np rp h = Some (ccol_not_enough_memory, s, h')"
            using eqs2 by (cases "?p < 16") (simp_all add: cstring_replace_def cstring_minimum_capacity_def Let_def)
          then show ?thesis using inv kept [of h'] refused ne c new by (auto simp: replace_retval_def)
        next
          case (granted nb bs h1)
          obtain db where db: "cs_data_blk s = Some db" "db \<noteq> cs_blk s" using cs_invD(8,9) [OF inv] by auto
          have nb: "nb \<noteq> cs_blk s" using granted(3) ho heap_ok_fresh [OF ho(1)] by (auto simp: cs_owned_def)
          obtain d where d: "replace_build_loop (cs_data s) ?n ?r 0 bs 0 = Some d"
              "cs_inv (s\<lparr>cs_data := d, cs_data_blk := Some nb, cs_length := length ?new, cs_capacity := ?cap\<rparr>)"
              "cs_str (s\<lparr>cs_data := d, cs_data_blk := Some nb, cs_length := length ?new, cs_capacity := ?cap\<rparr>) = ?new"
            by (rule replace_result [OF inv ne sr(2) new granted(4) nb], rule that)
          have "cstring_replace (Some s) np rp h = Some (ccol_success,
              s\<lparr>cs_data := d, cs_data_blk := Some nb, cs_length := length ?new, cs_capacity := ?cap\<rparr>, mem_free h1 db)"
            using eqs2 granted(1) d(1) db(1)
            by (cases "?p < 16") (simp_all add: cstring_replace_def cstring_minimum_capacity_def Let_def)
          moreover have "blocks_moved (cs_owned s)
              (cs_owned (s\<lparr>cs_data := d, cs_data_blk := Some nb, cs_length := length ?new, cs_capacity := ?cap\<rparr>)) h (mem_free h1 db)"
            using granted(3,5,6) db ho heap_ok_fresh [OF ho(1)] by (auto simp: blocks_moved_def cs_owned_def)
          ultimately show ?thesis using d granted(2) ne c new by (auto simp: replace_retval_def)
        qed
      qed
    qed
  qed
qed

end
