(* ===== verification/CCol_String_Search.thy ===== *)
theory CCol_String_Search
  imports CCol_String "HOL-Library.Sublist"
begin

text \<open>
  \<^verbatim>\<open>cstring_rfind\<close> of \<^verbatim>\<open>src/cstring.c\<close>: the forward search of a short string, the
  backward scan with its vector filter, and the right-to-left
  Knuth-Morris-Pratt search that takes over when the scan has used up its
  budget.  A read outside a list is unspecified here, so a theorem about a
  result also says that the result does not depend on such a read.
\<close>

section \<open>The linear search\<close>

definition CSTRING_RFIND_STACK_TABLE_LEN :: size_t where
  "CSTRING_RFIND_STACK_TABLE_LEN = 128"

definition CSTRING_RFIND_SHORT :: size_t where
  "CSTRING_RFIND_SHORT = 256"

text \<open>\<^verbatim>\<open>while (k > 0 && c != needle[tail - k]) k = fail[k - 1]\<close>, the inner loop of both passes.\<close>

partial_function (option) rfind_fall :: "byte list \<Rightarrow> size_t list \<Rightarrow> byte \<Rightarrow> size_t \<Rightarrow> size_t option" where
  "rfind_fall needle fail c k =
     (if k > 0 \<and> c \<noteq> needle ! (length needle - 1 - k) then rfind_fall needle fail c (fail ! (k - 1)) else Some k)"

text \<open>The table pass, with \<open>n\<close> rounds left; \<open>fail\<close> holds the entries written so far.\<close>

fun rfind_table_loop :: "byte list \<Rightarrow> size_t \<Rightarrow> nat \<Rightarrow> size_t list \<Rightarrow> size_t \<Rightarrow> size_t list option" where
  "rfind_table_loop needle q 0 fail k = Some fail"
| "rfind_table_loop needle q (Suc n) fail k =
     (let tail = length needle - 1; c = needle ! (tail - q) in do {
        k \<leftarrow> rfind_fall needle fail c k;
        let k = (if c = needle ! (tail - k) then k + 1 else k);
        rfind_table_loop needle (q + 1) n (fail @ [k]) k
      })"

text \<open>The search pass, from \<open>i\<close> down; \<open>j\<close> pattern bytes are matched.\<close>

fun rfind_linear_loop :: "byte list \<Rightarrow> byte list \<Rightarrow> size_t list \<Rightarrow> size_t \<Rightarrow> size_t \<Rightarrow> size_t option" where
  "rfind_linear_loop hay needle fail 0 j = Some ccol_invalid_size"
| "rfind_linear_loop hay needle fail (Suc i) j =
     (let tail = length needle - 1; c = hay ! i in do {
        j \<leftarrow> rfind_fall needle fail c j;
        (if c = needle ! (tail - j)
         then if j + 1 = length needle then Some i else rfind_linear_loop hay needle fail i (j + 1)
         else rfind_linear_loop hay needle fail i j)
      })"

text \<open>The result is \<open>*table_ok\<close> and the position; a table that does not fit on the stack is a block of its own.\<close>

definition cstring_rfind_linear ::
  "byte list \<Rightarrow> size_t \<Rightarrow> byte list \<Rightarrow> size_t \<Rightarrow> heap \<Rightarrow> (bool \<times> size_t \<times> heap) option" where
  "cstring_rfind_linear hay limit needle nlen h =
     (let search = do {
            fail \<leftarrow> rfind_table_loop needle 1 (nlen - 1) [0] 0;
            rfind_linear_loop hay needle fail limit 0
          }
      in if nlen > CSTRING_RFIND_STACK_TABLE_LEN then
           (case (if nlen \<le> SIZE_MAX div 8 then mem_alloc h (sz_mul nlen 8) else (None, h)) of
              (None, h) \<Rightarrow> Some (False, ccol_invalid_size, h)
            | (Some (b, _), h) \<Rightarrow> do { found \<leftarrow> search; Some (True, found, mem_free h b) })
         else do { found \<leftarrow> search; Some (True, found, h) })"

section \<open>The backward scan\<close>

record cstring_rfind_scan =
  sc_hay :: "byte list"
  sc_length :: size_t
  sc_needle :: "byte list"
  sc_nlen :: size_t
  sc_charged :: size_t
  sc_budget :: bool

definition cstring_rfind_candidate ::
  "cstring_rfind_scan \<Rightarrow> size_t \<Rightarrow> heap \<Rightarrow> (size_t option \<times> cstring_rfind_scan \<times> heap) option" where
  "cstring_rfind_candidate sc st h =
     (if CCol_Values.memcmp (peek (sc_hay sc) (st + 1) (sc_nlen sc - 2)) (peek (sc_needle sc) 1 (sc_nlen sc - 2)) = 0
      then Some (Some st, sc, h)
      else let sc = sc\<lparr>sc_charged := sz_add (sc_charged sc) (sc_nlen sc)\<rparr> in
        if sc_budget sc \<and> sc_charged sc > sz_mul 4 (sz_sub (sc_length sc) st) then do {
          (table_ok, r, h) \<leftarrow>
            cstring_rfind_linear (sc_hay sc) (st + sc_nlen sc - 1) (sc_needle sc) (sc_nlen sc) h;
          (if table_ok then Some (Some r, sc, h) else Some (None, sc\<lparr>sc_budget := False\<rparr>, h))
        }
        else Some (None, sc, h))"

text \<open>The sixteen lanes of one filter step, and the test for a set lane.\<close>

definition rfind_lanes :: "byte list \<Rightarrow> size_t \<Rightarrow> size_t \<Rightarrow> byte \<Rightarrow> byte \<Rightarrow> bool list" where
  "rfind_lanes hay b tail first_byte last_byte =
     map (\<lambda>k. hay ! (b + k) = first_byte \<and> hay ! (b + tail + k) = last_byte) [0..<16]"

definition cstring_bytes16_any :: "bool list \<Rightarrow> bool" where
  "cstring_bytes16_any v = list_ex (\<lambda>x. x) v"

fun cstring_rfind_block ::
  "cstring_rfind_scan \<Rightarrow> size_t \<Rightarrow> bool list \<Rightarrow> nat \<Rightarrow> heap \<Rightarrow> (size_t option \<times> cstring_rfind_scan \<times> heap) option" where
  "cstring_rfind_block sc b hit 0 h = Some (None, sc, h)"
| "cstring_rfind_block sc b hit (Suc k) h =
     (if hit ! k then do {
        (r, sc, h) \<leftarrow> cstring_rfind_candidate sc (b + k) h;
        (case r of Some v \<Rightarrow> Some (Some v, sc, h) | None \<Rightarrow> cstring_rfind_block sc b hit k h)
      }
      else cstring_rfind_block sc b hit k h)"

partial_function (option) rfind_wide_loop ::
  "byte \<Rightarrow> byte \<Rightarrow> cstring_rfind_scan \<Rightarrow> size_t \<Rightarrow> heap \<Rightarrow>
     (size_t option \<times> size_t \<times> cstring_rfind_scan \<times> heap) option" where
  "rfind_wide_loop first_byte last_byte sc pos h =
     (let tail = sc_nlen sc - 1; lanes = (\<lambda>b. rfind_lanes (sc_hay sc) b tail first_byte last_byte) in
      if pos \<ge> 16 then
        (if pos \<ge> 64 \<and>
            \<not> cstring_bytes16_any (map (\<lambda>k. lanes (pos - 64) ! k \<or> lanes (pos - 64 + 16) ! k
                                         \<or> lanes (pos - 64 + 32) ! k \<or> lanes (pos - 64 + 48) ! k) [0..<16])
         then rfind_wide_loop first_byte last_byte sc (pos - 64) h
         else let b = pos - 16; hit = lanes b in
           if cstring_bytes16_any hit then do {
             (r, sc, h) \<leftarrow> cstring_rfind_block sc b hit 16 h;
             (case r of
                Some v \<Rightarrow> Some (Some v, b, sc, h)
              | None \<Rightarrow> rfind_wide_loop first_byte last_byte sc b h)
           }
           else rfind_wide_loop first_byte last_byte sc b h)
      else Some (None, pos, sc, h))"

fun rfind_tail_loop ::
  "byte \<Rightarrow> byte \<Rightarrow> cstring_rfind_scan \<Rightarrow> size_t \<Rightarrow> heap \<Rightarrow> (size_t \<times> heap) option" where
  "rfind_tail_loop first_byte last_byte sc 0 h = Some (ccol_invalid_size, h)"
| "rfind_tail_loop first_byte last_byte sc (Suc pos) h =
     (if sc_hay sc ! pos = first_byte \<and> sc_hay sc ! (pos + (sc_nlen sc - 1)) = last_byte then do {
        (r, sc, h) \<leftarrow> cstring_rfind_candidate sc pos h;
        (case r of Some v \<Rightarrow> Some (v, h) | None \<Rightarrow> rfind_tail_loop first_byte last_byte sc pos h)
      }
      else rfind_tail_loop first_byte last_byte sc pos h)"

definition cstring_rfind_backward :: "cstring \<Rightarrow> byte cptr \<Rightarrow> heap \<Rightarrow> (size_t \<times> heap) option" where
  "cstring_rfind_backward s needle h = do {
     nlen \<leftarrow> strlen (ptr_bytes (cs_data s) needle);
     let nd = take nlen (ptr_bytes (cs_data s) needle);
     (if nlen = 0 then Some (cs_length s, h)
      else if nlen > cs_length s then Some (ccol_invalid_size, h)
      else if nlen = 1 then
        Some (case memrchr (cs_data s) (nd ! 0) (cs_length s) of None \<Rightarrow> ccol_invalid_size | Some p \<Rightarrow> p, h)
      else do {
        let sc = \<lparr>sc_hay = cs_data s, sc_length = cs_length s, sc_needle = nd, sc_nlen = nlen,
                  sc_charged = 0, sc_budget = True\<rparr>;
        let tail = nlen - 1;
        (r, pos, sc, h) \<leftarrow> rfind_wide_loop (nd ! 0) (nd ! tail) sc (cs_length s - tail) h;
        (case r of
           Some v \<Rightarrow> Some (v, h)
         | None \<Rightarrow> rfind_tail_loop (nd ! 0) (nd ! tail) sc pos h)
      })
   }"

section \<open>The search\<close>

partial_function (option) rfind_forward_loop ::
  "byte list \<Rightarrow> byte list \<Rightarrow> size_t \<Rightarrow> size_t \<Rightarrow> size_t option" where
  "rfind_forward_loop d needle ptr last_found =
     (case strstr_at d ptr needle of
        None \<Rightarrow> Some last_found
      | Some found \<Rightarrow> rfind_forward_loop d needle (found + 1) found)"

definition cstring_rfind :: "cstring option \<Rightarrow> byte cptr \<Rightarrow> heap \<Rightarrow> (size_t \<times> heap) option" where
  "cstring_rfind s needle h =
     (case s of
        None \<Rightarrow> None
      | Some s \<Rightarrow>
          if needle = Null then Some (ccol_invalid_size, h)
          else if cs_length s \<ge> CSTRING_RFIND_SHORT then cstring_rfind_backward s needle h
          else let nb = ptr_bytes (cs_data s) needle in
            if nb ! 0 = 0 then Some (cs_length s, h)
            else if nb ! 1 = 0 then
              Some (case memrchr (cs_data s) (nb ! 0) (cs_length s) of None \<Rightarrow> ccol_invalid_size | Some p \<Rightarrow> p, h)
            else do {
              r \<leftarrow> rfind_forward_loop (cs_data s) (c_str nb) 0 ccol_invalid_size;
              Some (r, h)
            })"

section \<open>Correctness of the linear search\<close>

text \<open>
  The pattern is the needle read backward.  \<open>longest\<close>: \<open>j\<close> is the length of the
  longest prefix of the pattern that the text read so far ends with.
  \<open>border_table\<close>: the first \<open>K\<close> entries of the table are the longest proper
  borders of the prefixes of the pattern.
\<close>

definition longest :: "byte list \<Rightarrow> byte list \<Rightarrow> nat \<Rightarrow> bool" where
  "longest P xs j \<longleftrightarrow> suffix (take j P) xs \<and> (\<forall>l \<le> length P. suffix (take l P) xs \<longrightarrow> l \<le> j)"

definition border_table :: "byte list \<Rightarrow> nat list \<Rightarrow> nat \<Rightarrow> bool" where
  "border_table P fail K \<longleftrightarrow>
     (\<forall>k. 1 \<le> k \<and> k \<le> K \<longrightarrow> fail ! (k - 1) < k \<and> suffix (take (fail ! (k - 1)) P) (take k P)
        \<and> (\<forall>l < k. suffix (take l P) (take k P) \<longrightarrow> l \<le> fail ! (k - 1)))"

lemma border_tableD:
  assumes "border_table P fail K" "0 < k" "k \<le> K"
  shows "fail ! (k - 1) < k" "suffix (take (fail ! (k - 1)) P) (take k P)"
    "l < k \<Longrightarrow> suffix (take l P) (take k P) \<Longrightarrow> l \<le> fail ! (k - 1)"
  using assms by (auto simp: border_table_def)

lemma fall_spec:
  assumes tab: "border_table P fail K"
  shows "j \<le> K \<Longrightarrow> j < length P \<Longrightarrow> suffix (take j P) xs \<Longrightarrow>
     \<exists>k. rfind_fall (rev P) fail c j = Some k \<and> k \<le> j \<and> suffix (take k P) xs \<and> (k = 0 \<or> P ! k = c)
       \<and> (\<forall>l \<le> j. suffix (take l P) xs \<and> P ! l = c \<longrightarrow> l \<le> k)"
proof (induction j rule: less_induct)
  case (less j)
  have at: "rev P ! (length (rev P) - 1 - j) = P ! j" using less.prems(2) by (simp add: rev_nth)
  show ?case
  proof (cases "0 < j \<and> c \<noteq> P ! j")
    case True
    let ?f = "fail ! (j - 1)"
    note b = border_tableD [OF tab conjunct1 [OF True] less.prems(1)]
    have st: "rfind_fall (rev P) fail c j = rfind_fall (rev P) fail c ?f"
      using True at by (subst rfind_fall.simps) simp
    obtain k where k: "rfind_fall (rev P) fail c ?f = Some k" "k \<le> ?f" "suffix (take k P) xs" "k = 0 \<or> P ! k = c"
        "\<forall>l \<le> ?f. suffix (take l P) xs \<and> P ! l = c \<longrightarrow> l \<le> k"
      using less.IH [of ?f] b(1,2) less.prems suffix_order.trans by fastforce
    have "l \<le> k" if l: "l \<le> j" "suffix (take l P) xs" "P ! l = c" for l
    proof -
      have "l < j" using l True by (metis le_neq_implies_less)
      moreover have "suffix (take l P) (take j P)"
        using suffix_length_suffix [OF l(2) less.prems(3)] l(1) less.prems(2) by simp
      ultimately have "l \<le> ?f" by (rule b(3))
      then show ?thesis using k(5) l by blast
    qed
    then show ?thesis using st k(1-4) b(1) by auto
  next
    case False
    then have "rfind_fall (rev P) fail c j = Some j" using at by (subst rfind_fall.simps) auto
    then show ?thesis using False less.prems by auto
  qed
qed

lemma fall_step:
  assumes tab: "border_table P fail K" and j: "j \<le> K" "j < length P" and lg: "longest P xs j"
  obtains k where "rfind_fall (rev P) fail c j = Some k" "k \<le> j"
    "longest P (xs @ [c]) (if c = P ! k then k + 1 else k)"
proof -
  obtain k where k: "rfind_fall (rev P) fail c j = Some k" "k \<le> j" "suffix (take k P) xs" "k = 0 \<or> P ! k = c"
      "\<forall>l \<le> j. suffix (take l P) xs \<and> P ! l = c \<longrightarrow> l \<le> k"
    using fall_spec [OF tab j, of xs c] lg by (auto simp: longest_def)
  let ?j = "if c = P ! k then k + 1 else k"
  have "suffix (take ?j P) (xs @ [c])"
    using k(2-4) j(2) by (cases "c = P ! k") (auto simp: take_Suc_conv_app_nth)
  moreover have "l \<le> ?j" if l: "l \<le> length P" "suffix (take l P) (xs @ [c])" for l
  proof (cases l)
    case (Suc m)
    then have "P ! m = c" "suffix (take m P) xs" using l by (auto simp: take_Suc_conv_app_nth)
    moreover from this have "m \<le> j" using lg Suc l(1) by (auto simp: longest_def)
    ultimately have "m \<le> k" using k(5) by blast
    then show ?thesis using Suc k(4) \<open>P ! m = c\<close> by (cases "k = 0") auto
  qed simp
  ultimately show thesis using that [OF k(1,2)] by (auto simp: longest_def)
qed

lemma table_loop_spec:
  assumes "length P = q + n" "0 < q" "border_table P fail q" "length fail = q" "longest P (drop 1 (take q P)) k"
  shows "\<exists>fail'. rfind_table_loop (rev P) q n fail k = Some fail' \<and> border_table P fail' (length P)"
  using assms
proof (induction n arbitrary: q fail k)
  case 0
  then show ?case by simp
next
  case (Suc n)
  have ql: "q < length P" using Suc.prems(1) by simp
  have "length (take k P) \<le> length (drop 1 (take q P))"
    using Suc.prems(5) suffix_length_le unfolding longest_def by blast
  then have kq: "k \<le> q" "k < length P" using ql Suc.prems(2) by auto
  have xs: "drop 1 (take q P) @ [P ! q] = drop 1 (take (Suc q) P)"
    using ql Suc.prems(2) by (simp add: take_Suc_conv_app_nth)
  have at: "rev P ! (length (rev P) - 1 - i) = P ! i" if "i < length P" for i using that by (simp add: rev_nth)
  obtain f where f: "rfind_fall (rev P) fail (P ! q) k = Some f" "f \<le> k"
      "longest P (drop 1 (take (Suc q) P)) (if P ! q = P ! f then f + 1 else f)"
    using fall_step [OF Suc.prems(3) kq Suc.prems(5), of "P ! q"] xs by metis
  let ?k = "if P ! q = P ! f then f + 1 else f"
  have "rfind_table_loop (rev P) q (Suc n) fail k = rfind_table_loop (rev P) (q + 1) n (fail @ [?k]) ?k"
    using f(1) at [OF ql] at [of f] f(2) kq(2) by (simp add: Let_def)
  moreover have "border_table P (fail @ [?k]) (q + 1)"
  proof (unfold border_table_def, intro allI impI)
    fix m assume m: "1 \<le> m \<and> m \<le> q + 1"
    show "(fail @ [?k]) ! (m - 1) < m \<and> suffix (take ((fail @ [?k]) ! (m - 1)) P) (take m P)
        \<and> (\<forall>l < m. suffix (take l P) (take m P) \<longrightarrow> l \<le> (fail @ [?k]) ! (m - 1))"
    proof (cases "m \<le> q")
      case True
      then have "m - 1 < length fail" using m Suc.prems(4) by linarith
      then have "(fail @ [?k]) ! (m - 1) = fail ! (m - 1)" by (rule nth_append_left)
      then show ?thesis using True m Suc.prems(3) by (auto simp: border_table_def)
    next
      case False
      then have m: "m = Suc q" using m by simp
      have e: "(fail @ [?k]) ! (m - 1) = ?k" 
        unfolding m diff_Suc_1 Suc.prems(4) [symmetric] by (rule nth_append_length)
      have sd: "suffix (drop 1 (take (Suc q) P)) (take (Suc q) P)" by (rule suffix_drop)
      have "suffix (take ?k P) (drop 1 (take (Suc q) P))" using f(3) by (simp add: longest_def)
      moreover from this have "suffix (take ?k P) (take m P)" using sd m suffix_order.trans by blast
      moreover have "?k < m" using m f(2) kq(1) suffix_length_le [OF calculation(1)] ql by auto
      moreover have "l \<le> ?k" if l: "l < m" "suffix (take l P) (take m P)" for l
      proof -
        have "suffix (take l P) (drop 1 (take (Suc q) P))"
          using suffix_length_suffix [OF l(2) [unfolded m] sd] l(1) m ql by simp
        then show ?thesis using f(3) l(1) m ql by (auto simp: longest_def)
      qed
      ultimately show ?thesis unfolding e by blast
    qed
  qed
  ultimately show ?case using Suc.IH [of "q + 1" "fail @ [?k]" ?k] Suc.prems f(3) by simp
qed

definition rfind_answer :: "byte list \<Rightarrow> byte list \<Rightarrow> size_t" where
  "rfind_answer xs needle = (case last_occurrence xs needle of None \<Rightarrow> ccol_invalid_size | Some i \<Rightarrow> i)"

lemma answer_none: "\<forall>i. \<not> occurs_at xs needle i \<Longrightarrow> rfind_answer xs needle = ccol_invalid_size"
  using last_occurrence_None [of xs needle] by (simp add: rfind_answer_def)

lemma answer_found:
  "occurs_at xs needle i \<Longrightarrow> \<forall>j > i. \<not> occurs_at xs needle j \<Longrightarrow> rfind_answer xs needle = i"
  using last_occurrence_Some [of xs needle i] by (simp add: rfind_answer_def)

lemma occurs_suffix:
  assumes "i \<le> length X"
  shows "occurs_at X needle i \<longleftrightarrow> suffix (rev needle) (rev (drop i X))"
proof -
  have "suffix (rev needle) (rev (drop i X)) \<longleftrightarrow> prefix needle (drop i X)" by (simp add: suffix_to_prefix)
  also have "\<dots> \<longleftrightarrow> take (length needle) (drop i X) = needle" by (metis append_eq_conv_conj prefix_def)
  also have "\<dots> \<longleftrightarrow> occurs_at (drop i X) needle 0" by (simp add: occurs_at_0)
  finally show ?thesis using occurs_at_drop [OF assms, of needle 0] by simp
qed

lemma linear_loop_spec:
  assumes ne: "needle \<noteq> []" and tab: "border_table (rev needle) fail (length needle)" and lim: "limit \<le> length hay"
  defines "X \<equiv> take limit hay"
  shows "i \<le> limit \<Longrightarrow> j < length needle \<Longrightarrow> longest (rev needle) (rev (drop i X)) j \<Longrightarrow>
     \<forall>st \<ge> i. \<not> occurs_at X needle st \<Longrightarrow> rfind_linear_loop hay needle fail i j = Some (rfind_answer X needle)"
proof (induction i arbitrary: j)
  case 0
  then show ?case using answer_none [of X needle] by simp
next
  case (Suc i)
  let ?P = "rev needle"
  have iX: "i < length X" "hay ! i = X ! i" "i \<le> limit" using Suc.prems(1) lim by (simp_all add: X_def)
  have xs: "rev (drop (Suc i) X) @ [hay ! i] = rev (drop i X)" using iX Cons_nth_drop_Suc [of i X] by (metis rev.simps(2))
  obtain k where k: "rfind_fall needle fail (hay ! i) j = Some k" "k \<le> j"
      "longest ?P (rev (drop i X)) (if hay ! i = ?P ! k then k + 1 else k)"
    using fall_step [of ?P fail "length needle" j "rev (drop (Suc i) X)" "hay ! i"] tab Suc.prems(2,3) xs by auto
  have at: "needle ! (length needle - 1 - k) = ?P ! k" using k(2) Suc.prems(2) by (simp add: rev_nth)
  let ?k = "if hay ! i = ?P ! k then k + 1 else k"
  have nk: "\<not> occurs_at X needle i" if "?k < length needle"
  proof
    assume "occurs_at X needle i"
    then have "suffix ?P (rev (drop i X))" using occurs_suffix [of i X needle] iX by simp
    then have "length needle \<le> ?k" using k(3) by (auto simp: longest_def)
    then show False using that by simp
  qed
  have all: "\<forall>st \<ge> i. \<not> occurs_at X needle st" if "?k < length needle"
    using nk [OF that] Suc.prems(4) by (metis le_neq_implies_less less_eq_Suc_le)
  show ?case
  proof (cases "?k = length needle")
    case True
    then have h: "hay ! i = ?P ! k" "k + 1 = length needle" using k(2) Suc.prems(2) by (auto split: if_splits)
    have "suffix ?P (rev (drop i X))" using k(3) h by (simp add: longest_def)
    then have "occurs_at X needle i" using occurs_suffix [of i X needle] iX by simp
    then have "rfind_answer X needle = i" using Suc.prems(4) by (intro answer_found) (auto simp: less_eq_Suc_le)
    then show ?thesis using k(1) at h by (simp add: Let_def)
  next
    case False
    then have kl: "?k < length needle" using k(2) Suc.prems(2) by (auto split: if_splits)
    have "rfind_linear_loop hay needle fail (Suc i) j = rfind_linear_loop hay needle fail i ?k"
      using k(1) at False by (auto simp: Let_def)
    then show ?thesis using Suc.IH [OF iX(3) kl k(3) all [OF kl]] by simp
  qed
qed

lemma linear_spec:
  assumes ne: "needle \<noteq> []" and lim: "limit \<le> length hay" and ho: "heap_ok h"
  obtains ok r h' where "cstring_rfind_linear hay limit needle (length needle) h = Some (ok, r, h')" "blocks_kept h h'"
    "ok \<Longrightarrow> r = rfind_answer (take limit hay) needle"
proof -
  let ?P = "rev needle" and ?X = "take limit hay"
  have pos: "0 < length needle" using ne by simp
  have b1: "border_table ?P [0] 1" using pos by (auto simp: border_table_def)
  have lg: "longest ?P [] 0" by (auto simp: longest_def)
  have "\<exists>fail. rfind_table_loop (rev ?P) 1 (length needle - 1) [0] 0 = Some fail \<and> border_table ?P fail (length ?P)"
    using pos b1 lg by (intro table_loop_spec) (auto simp: take_Suc_conv_app_nth)
  then obtain fail where f: "rfind_table_loop needle 1 (length needle - 1) [0] 0 = Some fail"
      "border_table ?P fail (length needle)" by auto
  have no: "\<forall>st \<ge> limit. \<not> occurs_at ?X needle st" using pos lim by (auto simp: occurs_at_def simp del: length_greater_0_conv)
  have lp: "rfind_linear_loop hay needle fail limit 0 = Some (rfind_answer ?X needle)"
    using pos no lg by (intro linear_loop_spec [OF ne f(2) lim]) simp_all
  show thesis
  proof (cases "length needle > CSTRING_RFIND_STACK_TABLE_LEN")
    case False
    then show thesis using that [of True _ h] f lp by (simp add: cstring_rfind_linear_def)
  next
    case big: True
    show thesis
    proof (cases "length needle \<le> SIZE_MAX div 8")
      case False
      then show thesis using that [of False _ h] big by (simp add: cstring_rfind_linear_def)
    next
      case True
      obtain a h1 where a: "mem_alloc h (sz_mul (length needle) 8) = (a, h1)" by fastforce
      show thesis
      proof (cases a)
        case None
        then show thesis using that [of False _ h1] big True a mem_alloc_None [of h _ h1]
          by (simp add: cstring_rfind_linear_def blocks_kept_def)
      next
        case (Some bb)
        obtain b bs where bb: "bb = (b, bs)" by fastforce
        have "b = next_blk h" "live h1 = insert b (live h)" "next_blk h1 = Suc b"
          using mem_alloc_Some [of h _ b bs h1] a Some bb by auto
        then have "blocks_kept h (mem_free h1 b)" using heap_ok_fresh [OF ho] by (auto simp: blocks_kept_def)
        then show thesis using that [of True _ "mem_free h1 b"] big True a Some bb f lp
          by (simp add: cstring_rfind_linear_def)
      qed
    qed
  qed
qed

section \<open>Correctness of the backward scan\<close>

text \<open>A scan over the text \<open>X\<close> for a needle of at least two bytes.\<close>

definition scans :: "cstring_rfind_scan \<Rightarrow> byte list \<Rightarrow> byte list \<Rightarrow> bool" where
  "scans sc X needle \<longleftrightarrow> sc_needle sc = needle \<and> sc_nlen sc = length needle \<and> 2 \<le> length needle
     \<and> sc_length sc \<le> length (sc_hay sc) \<and> take (sc_length sc) (sc_hay sc) = X"

lemma scans_simps: "scans (sc\<lparr>sc_charged := c\<rparr>) X needle = scans sc X needle"
    "scans (sc\<lparr>sc_budget := b\<rparr>) X needle = scans sc X needle"
  by (simp_all add: scans_def)

lemma occurs_by_ends:
  assumes "scans sc X needle" "st + length needle \<le> length X"
  shows "occurs_at X needle st \<longleftrightarrow> sc_hay sc ! st = needle ! 0 \<and> sc_hay sc ! (st + (length needle - 1)) = needle ! (length needle - 1)
     \<and> peek (sc_hay sc) (st + 1) (length needle - 2) = peek needle 1 (length needle - 2)"
proof -
  let ?n = "length needle" and ?h = "sc_hay sc"
  have a: "2 \<le> ?n" "length X \<le> length ?h" "X = take (length X) ?h" using assms(1) by (auto simp: scans_def)
  let ?p = "peek ?h st ?n"
  have pX: "peek X st ?n = ?p" using a(3) assms(2) peek_take [of st ?n "length X" ?h] by metis
  have lp: "length ?p = ?n" using a(2) assms(2) by (simp add: length_peek)
  have split: "xs = xs ! 0 # peek xs 1 (?n - 2) @ [xs ! (?n - 1)]" if xs: "length xs = ?n" for xs :: "byte list"
  proof -
    obtain m where m: "?n = Suc (Suc m)" using a(1) by (metis Suc_le_D numeral_2_eq_2 Suc_le_mono)
    obtain y ys where y: "xs = y # ys" using xs m by (cases xs) auto
    have "ys = take m ys @ [ys ! m]" using y xs m take_Suc_conv_app_nth [of m ys] by simp
    then show ?thesis using y m by (simp add: peek_def)
  qed
  have e: "peek ?p 1 (?n - 2) = peek ?h (st + 1) (?n - 2)" using a(1) by (intro peek_peek) simp
  have at: "?p ! i = ?h ! (st + i)" if "i < ?n" for i using that a(2) assms(2) by (simp add: peek_def)
  have n: "0 < ?n" "?n - 1 < ?n" using a(1) by linarith+
  have "?p = ?p ! 0 # peek ?p 1 (?n - 2) @ [?p ! (?n - 1)]" by (rule split [OF lp])
  also have "\<dots> = ?h ! st # peek ?h (st + 1) (?n - 2) @ [?h ! (st + (?n - 1))]"
    by (simp only: e at [OF n(1)] at [OF n(2)] add_0_right)
  finally have "?p = ?h ! st # peek ?h (st + 1) (?n - 2) @ [?h ! (st + (?n - 1))]" .
  moreover have "needle = needle ! 0 # peek needle 1 (?n - 2) @ [needle ! (?n - 1)]" using split [of needle] by simp
  ultimately have "?p = needle \<longleftrightarrow> ?h ! st # peek ?h (st + 1) (?n - 2) @ [?h ! (st + (?n - 1))]
      = needle ! 0 # peek needle 1 (?n - 2) @ [needle ! (?n - 1)]" by metis
  then show ?thesis using pX assms(2) by (auto simp: occurs_at_def)
qed

lemma answer_below:
  assumes no: "\<forall>j \<ge> st. \<not> occurs_at X needle j" and ne: "needle \<noteq> []" and b: "st + length needle \<le> length X"
  shows "rfind_answer (take (st + length needle - 1) X) needle = rfind_answer X needle"
proof -
  let ?n = "length needle" and ?Y = "take (st + length needle - 1) X"
  have eq: "occurs_at ?Y needle j = occurs_at X needle j" for j
  proof (cases "j + ?n \<le> st + ?n - 1")
    case True
    moreover from this have "j + ?n \<le> length X" using b by linarith
    ultimately show ?thesis using b by (simp add: occurs_at_def peek_take)
  next
    case False
    then have "st \<le> j" using ne by (cases ?n) auto
    then show ?thesis using no False b by (auto simp: occurs_at_def)
  qed
  then show ?thesis
  proof (cases "last_occurrence X needle")
    case None
    then have "\<forall>i. \<not> occurs_at X needle i" using last_occurrence_None [of X needle] by simp
    then show ?thesis using answer_none [of X needle] answer_none [of ?Y needle] eq by simp
  next
    case (Some i)
    then have "\<exists>i. occurs_at X needle i" using last_occurrence_None [of X needle] by auto
    then obtain m where m: "occurs_at X needle m" "\<forall>j > m. \<not> occurs_at X needle j"
      using no by (metis (no_types) GreatestI_nat Greatest_le_nat linorder_not_le nat_le_linear)
    then show ?thesis using answer_found [of X needle m] answer_found [of ?Y needle m] eq by simp
  qed
qed

lemma candidate_spec:
  assumes sc: "scans sc X needle" and st: "st + length needle \<le> length X" and ho: "heap_ok h"
    and ends: "sc_hay sc ! st = needle ! 0" "sc_hay sc ! (st + (length needle - 1)) = needle ! (length needle - 1)"
    and no: "\<forall>j > st. \<not> occurs_at X needle j"
  shows "\<exists>r sc' h'. cstring_rfind_candidate sc st h = Some (r, sc', h') \<and> scans sc' X needle \<and> sc_hay sc' = sc_hay sc
     \<and> blocks_kept h h' \<and> (case r of Some v \<Rightarrow> v = rfind_answer X needle | None \<Rightarrow> \<not> occurs_at X needle st)"
proof -
  let ?n = "length needle" and ?h = "sc_hay sc"
  have a: "sc_needle sc = needle" "sc_nlen sc = ?n" "2 \<le> ?n" "sc_length sc \<le> length ?h" "take (sc_length sc) ?h = X"
    using sc by (auto simp: scans_def)
  have ne: "needle \<noteq> []" using a(3) by auto
  have lX: "length X = sc_length sc" using a(4,5) by auto
  let ?cmp = "CCol_Values.memcmp (peek ?h (st + 1) (?n - 2)) (peek needle 1 (?n - 2)) = 0"
  have "length (peek ?h (st + 1) (?n - 2)) = length (peek needle 1 (?n - 2))"
    using st lX a(3,4) by (simp add: length_peek)
  then have cmp: "?cmp \<longleftrightarrow> occurs_at X needle st" using occurs_by_ends [OF sc st] ends memcmp_eq_iff by metis
  show ?thesis
  proof (cases ?cmp)
    case True
    then have "rfind_answer X needle = st" using cmp no by (intro answer_found) auto
    then show ?thesis using True a sc by (simp add: cstring_rfind_candidate_def)
  next
    case False
    let ?sc = "sc\<lparr>sc_charged := sz_add (sc_charged sc) ?n\<rparr>"
    have no2: "\<forall>j \<ge> st. \<not> occurs_at X needle j" using no cmp False by (metis le_neq_implies_less)
    show ?thesis
    proof (cases "sc_budget ?sc \<and> sc_charged ?sc > sz_mul 4 (sz_sub (sc_length ?sc) st)")
      case nobudget: False
      then show ?thesis using False a sc cmp
        by (auto simp: cstring_rfind_candidate_def Let_def scans_simps)
    next
      case True
      have lim: "st + ?n - 1 \<le> length ?h" using st lX a(4) by simp
      obtain ok r h' where l: "cstring_rfind_linear ?h (st + ?n - 1) needle ?n h = Some (ok, r, h')" "blocks_kept h h'"
          "ok \<Longrightarrow> r = rfind_answer (take (st + ?n - 1) ?h) needle"
        by (rule linear_spec [OF ne lim ho], rule that)
      have "take (st + ?n - 1) ?h = take (st + ?n - 1) X"
        using a(5) st lX by (metis diff_le_self le_trans min.absorb1 take_take)
      then have ans: "ok \<Longrightarrow> r = rfind_answer X needle" using l(3) answer_below [OF no2 ne st] by simp
      have "cstring_rfind_candidate sc st h = Some (if ok then Some r else None,
          if ok then ?sc else ?sc\<lparr>sc_budget := False\<rparr>, h')"
        using False True a l(1) by (simp add: cstring_rfind_candidate_def Let_def)
      then show ?thesis using ans l(2) sc cmp False by (auto simp: scans_simps)
    qed
  qed
qed

text \<open>The filter: a lane that is not set rules its position out.\<close>

lemma lane_at:
  "c \<le> j \<Longrightarrow> j < c + 16 \<Longrightarrow> rfind_lanes hay c tail f l ! (j - c) \<longleftrightarrow> hay ! j = f \<and> hay ! (j + tail) = l"
proof -
  assume j: "c \<le> j" "j < c + 16"
  then have k: "j - c < 16" "c + (j - c) = j" "c + tail + (j - c) = j + tail" by linarith+
  then have "[0..<16] ! (j - c) = j - c" by (simp add: nth_upt)
  then show ?thesis using k unfolding rfind_lanes_def by (simp add: add.commute)
qed

lemma no_lane_no_match:
  assumes sc: "scans sc X needle" and j: "c \<le> j" "j < c + 16"
    and lane: "\<not> rfind_lanes (sc_hay sc) c (length needle - 1) (needle ! 0) (needle ! (length needle - 1)) ! (j - c)"
  shows "\<not> occurs_at X needle j"
proof
  assume o: "occurs_at X needle j"
  then have "j + length needle \<le> length X" by (simp add: occurs_at_def)
  then show False using occurs_by_ends [OF sc, of j] o lane lane_at [OF j] by metis
qed

lemma any_lane: "cstring_bytes16_any (map f [0..<16]) \<longleftrightarrow> (\<exists>k < 16. f k)"
  by (auto simp: cstring_bytes16_any_def list_ex_iff)

lemma block_spec:
  assumes sc: "scans sc X needle" and ho: "heap_ok h" and k: "k \<le> 16" and b: "b + 16 + length needle - 1 \<le> length X"
    and no: "\<forall>j \<ge> b + k. \<not> occurs_at X needle j"
    and hit: "hit = rfind_lanes (sc_hay sc) b (length needle - 1) (needle ! 0) (needle ! (length needle - 1))"
  shows "\<exists>r sc' h'. cstring_rfind_block sc b hit k h = Some (r, sc', h') \<and> scans sc' X needle \<and> sc_hay sc' = sc_hay sc
     \<and> blocks_kept h h' \<and> (case r of Some v \<Rightarrow> v = rfind_answer X needle | None \<Rightarrow> \<forall>j \<ge> b. \<not> occurs_at X needle j)"
  using sc ho k no hit
proof (induction k arbitrary: sc h)
  case 0
  then show ?case by auto
next
  case (Suc k)
  have lane: "hit ! k \<longleftrightarrow> sc_hay sc ! (b + k) = needle ! 0 \<and> sc_hay sc ! (b + k + (length needle - 1)) = needle ! (length needle - 1)"
    using lane_at [of b "b + k"] Suc.prems(3,5) by simp
  show ?case
  proof (cases "hit ! k")
    case True
    have n: "\<forall>j > b + k. \<not> occurs_at X needle j" using Suc.prems(4) by (simp add: less_eq_Suc_le)
    have bd: "b + k + length needle \<le> length X" using b Suc.prems(3) by linarith
    obtain r sc' h' where c: "cstring_rfind_candidate sc (b + k) h = Some (r, sc', h')" "scans sc' X needle"
        "sc_hay sc' = sc_hay sc" "blocks_kept h h'"
        "case r of Some v \<Rightarrow> v = rfind_answer X needle | None \<Rightarrow> \<not> occurs_at X needle (b + k)"
      using candidate_spec [OF Suc.prems(1) bd Suc.prems(2) _ _ n] True lane by blast
    show ?thesis
    proof (cases r)
      case (Some v)
      then show ?thesis using True c by auto
    next
      case None
      then have n2: "\<forall>j \<ge> b + k. \<not> occurs_at X needle j" using c(5) n by (metis le_neq_implies_less option.simps(4))
      have k: "k \<le> 16" "hit = rfind_lanes (sc_hay sc') b (length needle - 1) (needle ! 0) (needle ! (length needle - 1))"
        using Suc.prems(3,5) c(3) by simp_all
      obtain r2 sc2 h2 where i: "cstring_rfind_block sc' b hit k h' = Some (r2, sc2, h2)" "scans sc2 X needle" "sc_hay sc2 = sc_hay sc'"
          "blocks_kept h' h2" "case r2 of Some v \<Rightarrow> v = rfind_answer X needle | None \<Rightarrow> \<forall>j \<ge> b. \<not> occurs_at X needle j"
        using Suc.IH [OF c(2) blocks_kept_heap_ok [OF c(4) Suc.prems(2)] k(1) n2 k(2)] by blast
      have "cstring_rfind_block sc b hit (Suc k) h = Some (r2, sc2, h2)" using True c(1) None i(1) by simp
      then show ?thesis using i c(3) blocks_kept_trans [OF c(4) i(4)] by auto
    qed
  next
    case False
    then have "\<not> occurs_at X needle (b + k)"
      using no_lane_no_match [OF Suc.prems(1), of b "b + k"] Suc.prems(3,5) by simp
    then have "\<forall>j \<ge> b + k. \<not> occurs_at X needle j"
      using Suc.prems(4) by (metis add_Suc_right le_neq_implies_less less_eq_Suc_le)
    then show ?thesis using Suc.IH [OF Suc.prems(1,2)] Suc.prems(3,5) False by simp
  qed
qed

lemma skip_64:
  assumes sc: "scans sc X needle" and pos: "64 \<le> pos"
    and lanes: "\<not> cstring_bytes16_any (map (\<lambda>k.
        rfind_lanes (sc_hay sc) (pos - 64) (length needle - 1) (needle ! 0) (needle ! (length needle - 1)) ! k
        \<or> rfind_lanes (sc_hay sc) (pos - 64 + 16) (length needle - 1) (needle ! 0) (needle ! (length needle - 1)) ! k
        \<or> rfind_lanes (sc_hay sc) (pos - 64 + 32) (length needle - 1) (needle ! 0) (needle ! (length needle - 1)) ! k
        \<or> rfind_lanes (sc_hay sc) (pos - 64 + 48) (length needle - 1) (needle ! 0) (needle ! (length needle - 1)) ! k) [0..<16])"
    and j: "pos - 64 \<le> j" "j < pos"
  shows "\<not> occurs_at X needle j"
proof -
  have off: "\<not> rfind_lanes (sc_hay sc) (pos - 64 + g) (length needle - 1) (needle ! 0) (needle ! (length needle - 1)) ! (j - (pos - 64 + g))"
    if g: "g \<in> {0, 16, 32, 48}" "pos - 64 + g \<le> j" "j < pos - 64 + g + 16" for g
  proof -
    have "j - (pos - 64 + g) < 16" using g(2,3) by linarith
    then show ?thesis using lanes g(1) unfolding any_lane by auto
  qed
  consider "j < pos - 64 + 0 + 16" | "pos - 64 + 16 \<le> j" "j < pos - 64 + 16 + 16"
    | "pos - 64 + 32 \<le> j" "j < pos - 64 + 32 + 16" | "pos - 64 + 48 \<le> j" "j < pos - 64 + 48 + 16"
    using j pos by linarith
  then show ?thesis
    using no_lane_no_match [OF sc _ _ off] j(1) by cases auto
qed

lemma wide_loop_spec:
  assumes "scans sc X needle" "heap_ok h" "pos + length needle - 1 \<le> length X" "\<forall>j \<ge> pos. \<not> occurs_at X needle j"
  shows "\<exists>r p sc' h'. rfind_wide_loop (needle ! 0) (needle ! (length needle - 1)) sc pos h = Some (r, p, sc', h')
     \<and> scans sc' X needle \<and> blocks_kept h h'
     \<and> (case r of Some v \<Rightarrow> v = rfind_answer X needle
                 | None \<Rightarrow> p + length needle - 1 \<le> length X \<and> (\<forall>j \<ge> p. \<not> occurs_at X needle j))"
  using assms
proof (induction pos arbitrary: sc h rule: less_induct)
  case (less pos)
  let ?f = "needle ! 0" and ?t = "length needle - 1"
  let ?l = "needle ! ?t"
  let ?lanes = "\<lambda>b. rfind_lanes (sc_hay sc) b ?t ?f ?l"
  let ?any = "cstring_bytes16_any (map (\<lambda>k. ?lanes (pos - 64) ! k \<or> ?lanes (pos - 64 + 16) ! k
      \<or> ?lanes (pos - 64 + 32) ! k \<or> ?lanes (pos - 64 + 48) ! k) [0..<16])"
  have nl: "sc_nlen sc = length needle" using less.prems(1) by (simp add: scans_def)
  note unf = rfind_wide_loop.simps [of ?f ?l sc pos h, unfolded nl Let_def]
  consider "pos < 16" | "64 \<le> pos" "\<not> ?any" | "16 \<le> pos" "\<not> (64 \<le> pos \<and> \<not> ?any)" by linarith
  then show ?case
  proof cases
    case 1
    then show ?thesis using less.prems by (subst unf) auto
  next
    case 2
    have "\<forall>j \<ge> pos - 64. \<not> occurs_at X needle j"
      using skip_64 [OF less.prems(1) 2] less.prems(4) by (metis linorder_not_le)
    moreover have "rfind_wide_loop ?f ?l sc pos h = rfind_wide_loop ?f ?l sc (pos - 64) h" using 2 by (subst unf) auto
    ultimately show ?thesis using less.IH [of "pos - 64" sc h] less.prems 2(1) by simp
  next
    case 3
    let ?b = "pos - 16"
    have b: "?b + 16 + length needle - 1 \<le> length X" "?b < pos" "?b + length needle - 1 \<le> length X"
      using less.prems(3) 3(1) by auto
    have n16: "\<forall>j \<ge> ?b + 16. \<not> occurs_at X needle j" using less.prems(4) 3(1) by simp
    show ?thesis
    proof (cases "cstring_bytes16_any (?lanes ?b)")
      case True
      obtain r sc' h' where k: "cstring_rfind_block sc ?b (?lanes ?b) 16 h = Some (r, sc', h')" "scans sc' X needle"
          "blocks_kept h h'" "case r of Some v \<Rightarrow> v = rfind_answer X needle | None \<Rightarrow> \<forall>j \<ge> ?b. \<not> occurs_at X needle j"
        using block_spec [OF less.prems(1,2) le_refl b(1) n16 refl] by blast
      show ?thesis
      proof (cases r)
        case (Some v)
        then have "rfind_wide_loop ?f ?l sc pos h = Some (Some v, ?b, sc', h')" using 3 True k(1) by (subst unf) auto
        then show ?thesis using k Some by auto
      next
        case None
        then have "rfind_wide_loop ?f ?l sc pos h = rfind_wide_loop ?f ?l sc' ?b h'" using 3 True k(1) by (subst unf) auto
        moreover have "\<forall>j \<ge> ?b. \<not> occurs_at X needle j" using k(4) None by simp
        then obtain r2 p2 sc2 h2 where i: "rfind_wide_loop ?f ?l sc' ?b h' = Some (r2, p2, sc2, h2)" "scans sc2 X needle"
            "blocks_kept h' h2" "case r2 of Some v \<Rightarrow> v = rfind_answer X needle
             | None \<Rightarrow> p2 + length needle - 1 \<le> length X \<and> (\<forall>j \<ge> p2. \<not> occurs_at X needle j)"
          using less.IH [OF b(2) k(2) blocks_kept_heap_ok [OF k(3) less.prems(2)] b(3)] by blast
        ultimately show ?thesis using blocks_kept_trans [OF k(3) i(3)] by simp
      qed
    next
      case False
      then have "rfind_wide_loop ?f ?l sc pos h = rfind_wide_loop ?f ?l sc ?b h" using 3 by (subst unf) auto
      moreover have "\<not> occurs_at X needle j" if "?b \<le> j" for j
      proof (cases "j < pos")
        case True
        then have j: "j < ?b + 16" "j - ?b < 16" using 3(1) that by linarith+
        then have "\<not> ?lanes ?b ! (j - ?b)"
          using False unfolding cstring_bytes16_any_def list_ex_length by (simp add: rfind_lanes_def)
        then show ?thesis by (rule no_lane_no_match [OF less.prems(1) that j(1)])
      qed (use less.prems(4) in simp)
      ultimately show ?thesis using less.IH [OF b(2) less.prems(1,2) b(3)] by auto
    qed
  qed
qed

lemma tail_loop_spec:
  assumes "scans sc X needle" "heap_ok h" "pos + length needle - 1 \<le> length X" "\<forall>j \<ge> pos. \<not> occurs_at X needle j"
  shows "\<exists>h'. rfind_tail_loop (needle ! 0) (needle ! (length needle - 1)) sc pos h = Some (rfind_answer X needle, h')
     \<and> blocks_kept h h'"
  using assms
proof (induction pos arbitrary: sc h)
  case 0
  then show ?case using answer_none [of X needle] by simp
next
  case (Suc pos)
  have nl: "sc_nlen sc = length needle" using Suc.prems(1) by (simp add: scans_def)
  have bd: "pos + length needle \<le> length X" using Suc.prems(3) by simp
  have n: "\<forall>j > pos. \<not> occurs_at X needle j" using Suc.prems(4) by (simp add: less_eq_Suc_le)
  have all: "\<forall>j \<ge> pos. \<not> occurs_at X needle j" if "\<not> occurs_at X needle pos"
    using that n by (metis le_neq_implies_less)
  have b2: "pos + length needle - 1 \<le> length X" using bd by simp
  let ?ends = "sc_hay sc ! pos = needle ! 0 \<and> sc_hay sc ! (pos + (length needle - 1)) = needle ! (length needle - 1)"
  show ?case
  proof (cases ?ends)
    case True
    obtain r sc' h' where c: "cstring_rfind_candidate sc pos h = Some (r, sc', h')" "scans sc' X needle"
        "blocks_kept h h'" "case r of Some v \<Rightarrow> v = rfind_answer X needle | None \<Rightarrow> \<not> occurs_at X needle pos"
      using candidate_spec [OF Suc.prems(1) bd Suc.prems(2) _ _ n] True by blast
    show ?thesis
    proof (cases r)
      case (Some v)
      then show ?thesis using True c nl by simp
    next
      case None
      then show ?thesis
        using Suc.IH [OF c(2) blocks_kept_heap_ok [OF c(3) Suc.prems(2)] b2 all] c True nl blocks_kept_trans [OF c(3)] by auto
    qed
  next
    case False
    then have "\<not> occurs_at X needle pos" using occurs_by_ends [OF Suc.prems(1) bd] by blast
    then show ?thesis using Suc.IH [OF Suc.prems(1,2) b2 all] False nl by auto
  qed
qed

lemma memrchr_spec:
  "n \<le> length d \<Longrightarrow> (case memrchr d c n of None \<Rightarrow> ccol_invalid_size | Some p \<Rightarrow> p) = rfind_answer (take n d) [c]"
proof (induction n)
  case 0
  then show ?case using answer_none [of "[]" "[c]"] by (simp add: occurs_at_def)
next
  case (Suc n)
  have o: "occurs_at xs [c] i \<longleftrightarrow> i < length xs \<and> xs ! i = c" for xs i
    by (auto simp: occurs_at_def peek_def take_Suc hd_drop_conv_nth)
  show ?case
  proof (cases "d ! n = c")
    case True
    then have "rfind_answer (take (Suc n) d) [c] = n" using Suc.prems by (intro answer_found) (auto simp: o)
    then show ?thesis using True by simp
  next
    case False
    then have "\<forall>j \<ge> n. \<not> occurs_at (take (Suc n) d) [c] j" using Suc.prems by (auto simp: o less_Suc_eq)
    moreover have "n + length [c] \<le> length (take (Suc n) d)" using Suc.prems by simp
    ultimately have "rfind_answer (take (n + length [c] - 1) (take (Suc n) d)) [c] = rfind_answer (take (Suc n) d) [c]"
      by (intro answer_below) simp_all
    then show ?thesis using False Suc by (simp add: min_def)
  qed
qed

lemma answer_empty: "rfind_answer xs [] = length xs"
  by (intro answer_found) (auto simp: occurs_at_def peek_0)

lemma backward_spec:
  assumes inv: "cs_inv s" and arg: "cstr_arg s p" and ho: "heap_ok h"
  shows "\<exists>h'. cstring_rfind_backward s p h = Some (rfind_answer (cs_str s) (arg_str s p), h') \<and> blocks_kept h h'"
proof -
  let ?n = "arg_str s p" and ?X = "cs_str s"
  note i = cs_invD [OF inv] and sl = arg_strlen [OF inv arg] and lX = length_cs_str [OF inv]
  have nd: "take (length ?n) (ptr_bytes (cs_data s) p) = ?n" using strlen_Some [OF sl(1)] by (simp add: arg_str_def)
  consider "length ?n = 0" | "cs_length s < length ?n" | "length ?n = 1" "length ?n \<le> cs_length s"
    | "2 \<le> length ?n" "length ?n \<le> cs_length s"
    by linarith
  then show ?thesis
  proof cases
    case 1
    then show ?thesis using sl(1) lX by (simp add: cstring_rfind_backward_def answer_empty)
  next
    case 2
    then have "rfind_answer ?X ?n = ccol_invalid_size" using lX by (intro answer_none) (auto simp: occurs_at_def)
    moreover have "?n \<noteq> []" using 2 by auto
    ultimately show ?thesis using 2 sl(1) by (simp add: cstring_rfind_backward_def Let_def)
  next
    case 3
    then obtain c where c: "?n = [c]" by (metis length_0_conv length_Suc_conv One_nat_def)
    then show ?thesis using 3 sl(1) nd memrchr_spec [of "cs_length s" "cs_data s" c] i(4,5)
      by (simp add: cstring_rfind_backward_def cs_str_def)
  next
    case 4
    let ?sc = "\<lparr>sc_hay = cs_data s, sc_length = cs_length s, sc_needle = ?n, sc_nlen = length ?n,
        sc_charged = 0, sc_budget = True\<rparr>"
    let ?t = "length ?n - 1"
    have sc: "scans ?sc ?X ?n" using 4 i(4,5) by (simp add: scans_def cs_str_def)
    have b: "cs_length s - ?t + length ?n - 1 \<le> length ?X" using 4 lX by simp
    have no: "\<forall>j \<ge> cs_length s - ?t. \<not> occurs_at ?X ?n j" using 4 lX by (auto simp: occurs_at_def)
    obtain r q sc' h1 where w: "rfind_wide_loop (?n ! 0) (?n ! ?t) ?sc (cs_length s - ?t) h = Some (r, q, sc', h1)"
        "scans sc' ?X ?n" "blocks_kept h h1"
        "case r of Some v \<Rightarrow> v = rfind_answer ?X ?n
         | None \<Rightarrow> q + length ?n - 1 \<le> length ?X \<and> (\<forall>j \<ge> q. \<not> occurs_at ?X ?n j)"
      using wide_loop_spec [OF sc ho b no] by blast
    have gt: "length ?n \<noteq> 0" "length ?n \<noteq> 1" "\<not> length ?n > cs_length s" using 4 by auto
    have e: "cstring_rfind_backward s p h = (case r of Some v \<Rightarrow> Some (v, h1)
        | None \<Rightarrow> rfind_tail_loop (?n ! 0) (?n ! ?t) sc' q h1)"
      using sl(1) nd gt w(1) by (cases r) (simp_all add: cstring_rfind_backward_def Let_def)
    show ?thesis
    proof (cases r)
      case (Some v)
      then show ?thesis using e w by simp
    next
      case None
      then have q: "q + length ?n - 1 \<le> length ?X" "\<forall>j \<ge> q. \<not> occurs_at ?X ?n j" using w(4) by auto
      obtain h2 where "rfind_tail_loop (?n ! 0) (?n ! ?t) sc' q h1 = Some (rfind_answer ?X ?n, h2)" "blocks_kept h1 h2"
        using tail_loop_spec [OF w(2) blocks_kept_heap_ok [OF w(3) ho] q] by blast
      then show ?thesis using e None blocks_kept_trans [OF w(3)] by auto
    qed
  qed
qed

lemma forward_loop_spec:
  assumes inv: "cs_inv s" and ne: "needle \<noteq> []"
  shows "off \<le> cs_length s \<Longrightarrow>
     acc = ccol_invalid_size \<and> (\<forall>i < off. \<not> occurs_at (cs_str s) needle i)
       \<or> off = acc + 1 \<and> occurs_at (cs_str s) needle acc \<Longrightarrow>
     rfind_forward_loop (cs_data s) needle off acc = Some (rfind_answer (cs_str s) needle)"
proof (induction "cs_length s - off" arbitrary: off acc rule: less_induct)
  case less
  let ?X = "cs_str s"
  note at = strstr_at_spec [OF inv less.prems(1), of needle]
  have dr: "occurs_at (drop off ?X) needle i = occurs_at ?X needle (off + i)" for i
    using occurs_at_drop [of off ?X needle i] less.prems(1) length_cs_str [OF inv] by simp
  show ?case
  proof (cases "first_occurrence (drop off ?X) needle")
    case None
    then have "\<not> occurs_at ?X needle j" if "off \<le> j" for j
      using dr [of "j - off"] that first_occurrence_None [of "drop off ?X" needle] by simp
    then have "acc = rfind_answer ?X needle"
      using less.prems(2) answer_none [of ?X needle] answer_found [of ?X needle acc]
      by (metis Suc_eq_plus1 Suc_leI linorder_not_le)
    then show ?thesis using at None by (subst rfind_forward_loop.simps) simp
  next
    case (Some k)
    then have o: "occurs_at ?X needle (off + k)" using strstr_Some [of "drop off ?X" needle k] dr by (simp add: strstr_first)
    have "0 < length needle" using ne by simp
    then have b: "off + k + 1 \<le> cs_length s"
      using o length_cs_str [OF inv] unfolding occurs_at_def by linarith
    have "rfind_forward_loop (cs_data s) needle off acc = rfind_forward_loop (cs_data s) needle (off + k + 1) (off + k)"
      using at Some by (subst rfind_forward_loop.simps) simp
    then show ?thesis using less.hyps [of "off + k + 1" "off + k"] b o by simp
  qed
qed

lemma arg_head:
  assumes "cs_inv s" "cstr_arg s p"
  defines "nb \<equiv> ptr_bytes (cs_data s) p"
  shows "nb ! 0 = 0 \<longleftrightarrow> arg_str s p = []" "nb ! 0 \<noteq> 0 \<Longrightarrow> nb ! 1 = 0 \<Longrightarrow> arg_str s p = [nb ! 0]"
    "nb ! 0 \<noteq> 0 \<Longrightarrow> nb ! 1 \<noteq> 0 \<Longrightarrow> arg_str s p \<noteq> []"
proof -
  have sl: "strlen nb = Some (length (arg_str s p))" using arg_strlen(1) [OF assms(1,2)] by (simp add: nb_def)
  then have "0 < length nb" using strlen_Some [OF sl] by linarith
  then obtain c cs where c: "nb = c # cs" by (cases nb) auto
  have a: "arg_str s p = (if c = 0 then [] else c # c_str cs)" using c by (simp add: arg_str_def nb_def [symmetric] c_str_def)
  show "nb ! 0 = 0 \<longleftrightarrow> arg_str s p = []" "nb ! 0 \<noteq> 0 \<Longrightarrow> nb ! 1 \<noteq> 0 \<Longrightarrow> arg_str s p \<noteq> []" using a c by simp_all
  assume z: "nb ! 0 \<noteq> 0" "nb ! 1 = 0"
  then have "1 < length nb" using strlen_Some [OF sl] a c by auto
  then show "arg_str s p = [nb ! 0]" using z a c by (cases cs) (auto simp: c_str_def)
qed

lemma rfind_spec:
  assumes inv: "cs_inv s" and arg: "cstr_arg s p" and ho: "heap_ok h"
  shows "\<exists>h'. cstring_rfind (Some s) p h = Some (rfind_answer (cs_str s) (arg_str s p), h') \<and> blocks_kept h h'"
proof -
  let ?nb = "ptr_bytes (cs_data s) p"
  note hd = arg_head [OF inv arg] and i = cs_invD [OF inv]
  have nn: "p \<noteq> Null" using arg by (auto simp: cstr_arg_def)
  consider "cs_length s \<ge> CSTRING_RFIND_SHORT" | "cs_length s < CSTRING_RFIND_SHORT" "?nb ! 0 = 0"
    | "cs_length s < CSTRING_RFIND_SHORT" "?nb ! 0 \<noteq> 0" "?nb ! 1 = 0"
    | "cs_length s < CSTRING_RFIND_SHORT" "?nb ! 0 \<noteq> 0" "?nb ! 1 \<noteq> 0" by linarith
  then show ?thesis
  proof cases
    case 1
    then show ?thesis using backward_spec [OF inv arg ho] nn by (simp add: cstring_rfind_def)
  next
    case 2
    then show ?thesis using hd(1) nn length_cs_str [OF inv] by (simp add: cstring_rfind_def answer_empty)
  next
    case 3
    then show ?thesis using hd(2) nn memrchr_spec [of "cs_length s" "cs_data s" "?nb ! 0"] i(4,5)
      by (simp add: cstring_rfind_def cs_str_def)
  next
    case 4
    have "rfind_forward_loop (cs_data s) (c_str ?nb) 0 ccol_invalid_size = Some (rfind_answer (cs_str s) (arg_str s p))"
      using forward_loop_spec [OF inv hd(3), of 0 ccol_invalid_size] 4 by (simp add: arg_str_def)
    then show ?thesis using 4 nn by (simp add: cstring_rfind_def)
  qed
qed

end
