(* ===== verification/CCol_String_Spec.thy ===== *)
theory CCol_String_Spec
  imports CCol_String_Replace CCol_String_Search
begin

text \<open>
  The string of \<^verbatim>\<open>src/cstring.c\<close> against its specification, a sequence of
  bytes without a null byte: creation, programs of editing operations up to
  destruction, the search functions and the comparisons.
\<close>

section \<open>Creation\<close>

definition span_ok :: "byte list option \<Rightarrow> size_t \<Rightarrow> bool" where
  "span_ok initial n \<longleftrightarrow> n \<le> SIZE_MAX \<and>
     (case initial of None \<Rightarrow> n = 0 | Some i \<Rightarrow> n \<le> length i \<and> 0 \<notin> set (take n i))"

definition span_text :: "byte list option \<Rightarrow> size_t \<Rightarrow> byte list" where
  "span_text initial n = (case initial of None \<Rightarrow> [] | Some i \<Rightarrow> take n i)"

lemma span_copy:
  assumes ok: "span_ok initial n" and bs: "n < length bs"
  obtains d where "(if n > 0 then memcpy bs 0 (case initial of None \<Rightarrow> Null | Some i \<Rightarrow> Ext i) n else Some bs) = Some d"
    "length d = length bs" "take n d = span_text initial n"
proof (cases "n = 0")
  case True
  then show thesis using that [of bs] by (simp add: span_text_def split: option.split)
next
  case False
  then obtain i where i: "initial = Some i" "n \<le> length i" using ok by (auto simp: span_ok_def split: option.splits)
  have "memcpy bs 0 (Ext i) n = Some (poke bs 0 (take n i))"
    using i bs by (simp add: memcpy_def memmove_def readable_def read_ptr_def)
  then show thesis using that [of "poke bs 0 (take n i)"] False i bs
    by (simp add: length_poke span_text_def poke_def)
qed

lemma cs_create_spec:
  assumes ho: "heap_ok h" and ok: "span_ok initial n"
  shows "\<exists>res h'. cstring_create_from_span initial n mp h = Some (res, h')
     \<and> (case res of Inl e \<Rightarrow> blocks_kept h h'
          | Inr s \<Rightarrow> cs_inv s \<and> cs_str s = span_text initial n \<and> cs_m_procs s = mp \<and> blocks_moved {} (cs_owned s) h h')"
proof (cases "ccol_verify_memmgmt_procs mp")
  case False
  then show ?thesis by (simp add: cstring_create_from_span_def)
next
  case mp: True
  let ?n = "32 + (if case mp of CallerProcs _ \<Rightarrow> True | _ \<Rightarrow> False then 32 else 0)"
  obtain a h1 where a: "mem_calloc h ?n = (a, h1)" by fastforce
  show ?thesis
  proof (cases a)
    case None
    then show ?thesis using mp a mem_calloc_None [of h ?n h1]
      by (simp add: cstring_create_from_span_def blocks_kept_def)
  next
    case (Some bb)
    obtain b z where bb: "bb = (b, z)" by fastforce
    have c: "b = next_blk h" "live h1 = insert b (live h)" "next_blk h1 = Suc b"
      using mem_calloc_Some [of h ?n b z h1] a Some bb by auto
    have fr: "b \<notin> live h" using c(1) heap_ok_fresh [OF ho] by simp
    have undo: "blocks_kept h (mem_free h2 b)" if "blocks_kept h1 h2" for h2
      using that c fr by (auto simp: blocks_kept_def)
    note eqs = mp a Some bb
    show ?thesis
    proof (cases "n < ccol_max_elem_count")
      case False
      have "n = SIZE_MAX \<or> sz_add n 1 = n + 1 \<and> ccol_find_nearest_gte_power_of_two (n + 1) = ccol_invalid_size"
        using False ok nearest_pow2_too_large [of "n + 1"] by (auto simp: span_ok_def sz_add_exact)
      then have "cstring_create_from_span initial n mp h = Some (Inl initial_string_too_large, mem_free h1 b)"
        using eqs by (auto simp: cstring_create_from_span_def cstring_length_fits_with_terminator_def
            ccol_invalid_size_def cstring_destroy_def Let_def)
      then show ?thesis using undo [of h1] by simp
    next
      case n: True
      let ?p = "ccol_find_nearest_gte_power_of_two (n + 1)"
      let ?cap = "if ?p < cstring_minimum_capacity then cstring_minimum_capacity else ?p"
      have "n + 1 \<le> ccol_max_elem_count" using n by simp
      note p = nearest_pow2_ok [OF this]
      have p16: "pow2 16" using pow2I [of 4] by simp
      have cap: "pow2 ?cap" "16 \<le> ?cap" "?cap \<le> ccol_max_elem_count" "n < ?cap"
        using p p16 by (auto simp: size_defs)
      have g: "?p \<noteq> ccol_invalid_size" "cstring_length_fits_with_terminator n" "sz_add n 1 = n + 1"
        using p(3) n sz_add_exact [of n 1] by (auto simp: size_defs cstring_length_fits_with_terminator_def)
      show ?thesis
      proof (cases rule: mem_alloc_cases [of h1 ?cap])
        case (refused h2)
        then have "cstring_create_from_span initial n mp h
            = Some (Inl failed_to_allocate_cstring_data_buffer, mem_free h2 b)"
          using eqs g
          by (cases "?p < cstring_minimum_capacity") (simp_all add: cstring_create_from_span_def cstring_destroy_def Let_def)
        then show ?thesis using undo [OF refused(3)] by simp
      next
        case (granted db bs h2)
        have nb: "n < length bs" using granted(4) cap(4) by simp
        obtain d where d: "(if n > 0 then memcpy bs 0 (case initial of None \<Rightarrow> Null | Some i \<Rightarrow> Ext i) n else Some bs) = Some d"
            "length d = length bs" "take n d = span_text initial n" by (rule span_copy [OF ok nb], rule that)
        let ?s = "\<lparr>cs_data = d[n := 0], cs_length = n, cs_capacity = ?cap, cs_m_procs = mp,
                   cs_data_blk = Some db, cs_blk = b\<rparr>"
        have e: "cstring_create_from_span initial n mp h = Some (Inr ?s, h2)"
          using eqs g granted(1) d(1,2) nb
          by (cases "?p < cstring_minimum_capacity") (simp_all add: cstring_create_from_span_def store_def Let_def)
        have "0 \<notin> set (span_text initial n)" using ok by (auto simp: span_ok_def span_text_def split: option.splits)
        then have "cs_inv ?s" "cs_str ?s = span_text initial n"
          using d(2,3) cap granted(3,4) nb c by (simp_all add: cs_inv_def cs_str_def size_defs)
        moreover have "blocks_moved {} (cs_owned ?s) h h2"
          using granted(3,5,6) c fr ho by (auto simp: blocks_moved_def cs_owned_def heap_ok_def)
        ultimately show ?thesis using e by auto
      qed
    qed
  qed
qed

section \<open>Programs over a string\<close>

text \<open>A pointer argument is text of the caller or a place in the string itself.\<close>

datatype sop = SAppend "byte cptr" | SPrepend "byte cptr" | SInsert nat "byte cptr" | SSet "byte cptr"
  | SReset | SReserve nat | SUpper | SLower | STrim | SReplace "byte cptr" "byte cptr"

definition str_step :: "sop \<Rightarrow> cstring \<Rightarrow> heap \<Rightarrow> (bool \<times> cstring \<times> heap) option" where
  "str_step op s h =
     (let done = (\<lambda>(rv, s, h). Some (rv = ccol_success, s, h)) in
      case op of
        SAppend p \<Rightarrow> cstring_append (Some s) p h \<bind> done
      | SPrepend p \<Rightarrow> cstring_prepend (Some s) p h \<bind> done
      | SInsert i p \<Rightarrow> cstring_insert (Some s) i p h \<bind> done
      | SSet p \<Rightarrow> cstring_set (Some s) p h \<bind> done
      | SReset \<Rightarrow> do { (s, h) \<leftarrow> cstring_reset (Some s) h; Some (True, s, h) }
      | SReserve n \<Rightarrow> cstring_reserve (Some s) n h
      | SUpper \<Rightarrow> do { s \<leftarrow> cstring_to_upper (Some s); Some (True, s, h) }
      | SLower \<Rightarrow> do { s \<leftarrow> cstring_to_lower (Some s); Some (True, s, h) }
      | STrim \<Rightarrow> do { s \<leftarrow> cstring_trim (Some s); Some (True, s, h) }
      | SReplace p q \<Rightarrow> cstring_replace (Some s) p q h \<bind> done)"

definition text_arg :: "byte list \<Rightarrow> byte cptr \<Rightarrow> byte list" where
  "text_arg xs p = (case p of Null \<Rightarrow> [] | Ext bs \<Rightarrow> c_str bs | Self off \<Rightarrow> drop off xs)"

fun text_spec :: "sop \<Rightarrow> byte list \<Rightarrow> byte list" where
  "text_spec (SAppend p) xs = xs @ text_arg xs p"
| "text_spec (SPrepend p) xs = text_arg xs p @ xs"
| "text_spec (SInsert i p) xs = take i xs @ text_arg xs p @ drop i xs"
| "text_spec (SSet p) xs = text_arg xs p"
| "text_spec SReset xs = []"
| "text_spec (SReserve n) xs = xs"
| "text_spec SUpper xs = map upper_byte xs"
| "text_spec SLower xs = map lower_byte xs"
| "text_spec STrim xs = trim_ends xs"
| "text_spec (SReplace p q) xs = replace_all (text_arg xs p) (text_arg xs q) xs"

definition text_arg_ok :: "byte list \<Rightarrow> byte cptr \<Rightarrow> bool" where
  "text_arg_ok xs p = (case p of Null \<Rightarrow> False | Ext bs \<Rightarrow> 0 \<in> set bs \<and> length bs \<le> SIZE_MAX | Self off \<Rightarrow> off \<le> length xs)"

fun text_pre :: "sop \<Rightarrow> byte list \<Rightarrow> bool" where
  "text_pre (SAppend p) xs = text_arg_ok xs p"
| "text_pre (SPrepend p) xs = text_arg_ok xs p"
| "text_pre (SInsert i p) xs = text_arg_ok xs p"
| "text_pre (SSet p) xs = text_arg_ok xs p"
| "text_pre (SReserve n) xs = (n \<le> SIZE_MAX)"
| "text_pre (SReplace p q) xs = (text_arg_ok xs p \<and> text_arg_ok xs q)"
| "text_pre _ xs = True"

lemma text_arg_eq:
  assumes "cs_inv s" "text_arg_ok (cs_str s) p"
  shows "cstr_arg s p" "arg_str s p = text_arg (cs_str s) p"
proof -
  show a: "cstr_arg s p" using assms length_cs_str [OF assms(1)]
    by (auto simp: text_arg_ok_def cstr_arg_def split: cptr.splits)
  show "arg_str s p = text_arg (cs_str s) p"
    using assms a arg_str_Self [OF assms(1)]
    by (auto simp: text_arg_def arg_str_def ptr_bytes_def text_arg_ok_def cstr_arg_def split: cptr.splits)
qed

definition str_sim :: "cstring \<Rightarrow> heap \<Rightarrow> (byte list \<Rightarrow> byte list) \<Rightarrow> (bool \<times> cstring \<times> heap) option \<Rightarrow> bool" where
  "str_sim s h f r \<longleftrightarrow> (\<exists>ok s' h'. r = Some (ok, s', h') \<and> cs_inv s'
     \<and> cs_str s' = (if ok then f (cs_str s) else cs_str s) \<and> blocks_moved (cs_owned s) (cs_owned s') h h')"

lemma str_simI:
  assumes "cs_owned s \<subseteq> live h" "r = Some (ok, s', h')" "cs_inv s'" "cs_frame s s'" "blocks_kept h h'"
    "cs_str s' = (if ok then f (cs_str s) else cs_str s)"
  shows "str_sim s h f r"
  using assms blocks_kept_moved [OF assms(5,1)] cs_frame_owned [OF assms(4)] by (simp add: str_sim_def)

lemma str_sim_insert:
  assumes own: "cs_owned s \<subseteq> live h" and r: "inserts_at s pos p h r" and o: "op = Some r"
    and f: "f (cs_str s) = take pos (cs_str s) @ arg_str s p @ drop pos (cs_str s)"
  shows "str_sim s h f (op \<bind> (\<lambda>(rv, s, h). Some (rv = ccol_success, s, h)))"
proof -
  obtain rv s' h' where rr: "r = (rv, s', h')" by (cases r)
  have i: "blocks_kept h h'" "cs_inv s'" "cs_frame s s'"
      "cs_str s' = (if rv = ccol_success then f (cs_str s) else cs_str s)"
    using r f by (simp_all add: inserts_at_def rr)
  show ?thesis using str_simI [OF own _ i(2,3,1), of _ "rv = ccol_success" f] i(4) o rr by simp
qed

lemma str_step_sim:
  assumes inv: "cs_inv s" and ho: "heap_ok h" and own: "cs_owned s \<subseteq> live h" and pre: "text_pre op (cs_str s)"
  shows "str_sim s h (text_spec op) (str_step op s h)"
proof (cases op)
  case (SAppend p)
  note a = text_arg_eq [OF inv, of p]
  show ?thesis using append_spec [OF inv a(1), of h] str_sim_insert [OF own] pre SAppend a length_cs_str [OF inv]
    by (fastforce simp: str_step_def)
next
  case (SPrepend p)
  note a = text_arg_eq [OF inv, of p]
  show ?thesis using cs_insert_spec [OF inv a(1), of 0 h] str_sim_insert [OF own] pre SPrepend a
    by (fastforce simp: str_step_def prepend_is_insert)
next
  case (SInsert i p)
  note a = text_arg_eq [OF inv, of p]
  show ?thesis
  proof (cases "i \<le> cs_length s")
    case True
    then show ?thesis using cs_insert_spec [OF inv a(1), of i h] str_sim_insert [OF own] pre SInsert a
      by (fastforce simp: str_step_def)
  next
    case False
    then have "str_step op s h = Some (False, s, h)" using SInsert by (simp add: str_step_def cstring_insert_def)
    then show ?thesis using str_simI [OF own _ inv cs_frame_refl blocks_kept_refl] by simp
  qed
next
  case (SSet p)
  note a = text_arg_eq [OF inv, of p]
  obtain rv s' h' where r: "cstring_set (Some s) p h = Some (rv, s', h')" "blocks_kept h h'" "cs_inv s'" "cs_frame s s'"
      "cs_str s' = (if rv = ccol_success then arg_str s p else cs_str s)"
    using set_spec [OF inv a(1), of h] pre SSet by auto
  show ?thesis using str_simI [OF own _ r(3,4,2), of _ "rv = ccol_success" "text_spec op"] r SSet pre a
    by (simp add: str_step_def)
next
  case SReset
  obtain s' h' where r: "cstring_reset (Some s) h = Some (s', h')" "blocks_kept h h'" "cs_inv s'" "cs_frame s s'" "cs_str s' = []"
    by (rule cs_reset_spec [OF inv, where h = h], rule that)
  then show ?thesis using str_simI [OF own _ r(3,4,2), of _ True "text_spec op"] SReset by (simp add: str_step_def)
next
  case (SReserve n)
  obtain ok s' h' where r: "cstring_reserve (Some s) n h = Some (ok, s', h')" "blocks_kept h h'" "cs_inv s'" "cs_frame s s'"
      "cs_str s' = cs_str s"
    using cs_reserve_spec [OF inv, of n h] pre SReserve by auto
  then show ?thesis using str_simI [OF own _ r(3,4,2), of _ ok "text_spec op"] SReserve by (simp add: str_step_def)
next
  case SUpper
  obtain d where d: "cstring_fold_case upper_byte (cs_data s) 0 (cs_length s) = Some d" "cs_inv (s\<lparr>cs_data := d\<rparr>)"
    "cs_str (s\<lparr>cs_data := d\<rparr>) = map upper_byte (cs_str s)" "cs_frame s (s\<lparr>cs_data := d\<rparr>)"
    by (rule map_case_spec [OF inv case_bytes_null(1)], assumption, rule that)
  then have "cstring_to_upper (Some s) = Some (s\<lparr>cs_data := d\<rparr>)"
    by (simp add: cstring_to_upper_def upper_byte_def [abs_def])
  then show ?thesis using str_simI [OF own _ d(2,4) blocks_kept_refl, of _ True "text_spec op"] SUpper d(3)
    by (simp add: str_step_def)
next
  case SLower
  obtain d where d: "cstring_fold_case lower_byte (cs_data s) 0 (cs_length s) = Some d" "cs_inv (s\<lparr>cs_data := d\<rparr>)"
    "cs_str (s\<lparr>cs_data := d\<rparr>) = map lower_byte (cs_str s)" "cs_frame s (s\<lparr>cs_data := d\<rparr>)"
    by (rule map_case_spec [OF inv case_bytes_null(2)], assumption, rule that)
  then have "cstring_to_lower (Some s) = Some (s\<lparr>cs_data := d\<rparr>)"
    by (simp add: cstring_to_lower_def lower_byte_def [abs_def])
  then show ?thesis using str_simI [OF own _ d(2,4) blocks_kept_refl, of _ True "text_spec op"] SLower d(3)
    by (simp add: str_step_def)
next
  case STrim
  obtain s' where r: "cstring_trim (Some s) = Some s'" "cs_inv s'" "cs_frame s s'" "cs_str s' = trim_ends (cs_str s)"
    by (rule trim_spec [OF inv], rule that)
  then show ?thesis using str_simI [OF own _ r(2,3) blocks_kept_refl, of _ True "text_spec op"] STrim
    by (simp add: str_step_def)
next
  case (SReplace p q)
  note a = text_arg_eq [OF inv, of p] and b = text_arg_eq [OF inv, of q]
  obtain rv s' h' where r: "cstring_replace (Some s) p q h = Some (rv, s', h')" "cs_inv s'"
      "blocks_moved (cs_owned s) (cs_owned s') h h'"
      "cs_str s' = (if rv = ccol_success then replace_all (arg_str s p) (arg_str s q) (cs_str s) else cs_str s)"
    using replace_spec [OF inv ho own a(1) b(1)] pre SReplace by auto
  then show ?thesis using SReplace pre a b by (auto simp: str_sim_def str_step_def)
qed

lemma cs_destroy_spec: "live (cstring_destroy (Some s) h) = live h - cs_owned s"
  by (auto simp: cstring_destroy_def cs_owned_def split: option.split)

text \<open>Creation from a null pointer or from a terminated string; an object is never larger than the address space.\<close>

definition init_ok :: "byte list option \<Rightarrow> bool" where
  "init_ok initial = (case initial of None \<Rightarrow> True | Some t \<Rightarrow> 0 \<in> set t \<and> length t \<le> SIZE_MAX)"

definition init_text :: "byte list option \<Rightarrow> byte list" where
  "init_text initial = (case initial of None \<Rightarrow> [] | Some t \<Rightarrow> c_str t)"

definition str_create :: "byte list option \<Rightarrow> mprocs \<Rightarrow> heap \<Rightarrow> cstring option \<times> heap" where
  "str_create initial mp h =
     (if init_ok initial
      then case cstring_create_full initial mp h of
             Some (Inr s, h') \<Rightarrow> (Some s, h') | Some (Inl _, h') \<Rightarrow> (None, h') | None \<Rightarrow> (None, h)
      else (None, h))"

lemma create_full_spec:
  assumes ho: "heap_ok h" and ok: "init_ok initial"
  shows "\<exists>res h'. cstring_create_full initial mp h = Some (res, h')
     \<and> (case res of Inl e \<Rightarrow> blocks_kept h h'
          | Inr s \<Rightarrow> cs_inv s \<and> cs_str s = init_text initial \<and> cs_m_procs s = mp \<and> blocks_moved {} (cs_owned s) h h')"
proof -
  obtain n where n: "(case initial of None \<Rightarrow> Some 0 | Some i \<Rightarrow> strlen i) = Some n" "span_ok initial n" "span_text initial n = init_text initial"
  proof (cases initial)
    case None
    then show thesis using that [of 0] by (simp add: span_ok_def span_text_def init_text_def)
  next
    case (Some t)
    then have t: "strlen t = Some (length (c_str t))" "length t \<le> SIZE_MAX" using ok by (auto simp: init_ok_def strlen_total)
    note l = strlen_Some [OF t(1)]
    show thesis using that [of "length (c_str t)"] Some t l c_str_no_null [of t]
      by (simp add: span_ok_def span_text_def init_text_def)
  qed
  show ?thesis using cs_create_spec [OF ho n(2), of mp] n(1) unfolding n(3) by (simp add: cstring_create_full_def)
qed

interpretation str: container "str_create initial mp" str_step "\<lambda>s h. Some (cstring_destroy (Some s) h)"
  "init_text initial" text_spec text_pre cs_str cs_inv cs_owned for initial mp
proof
  fix h h' assume "heap_ok h" "str_create initial mp h = (None, h')"
  then show "blocks_kept h h'"
    using create_full_spec [of h initial mp]
    by (auto simp: str_create_def split: if_splits option.splits prod.splits sum.splits)
next
  fix h c h' assume "heap_ok h" "str_create initial mp h = (Some c, h')"
  then show "cs_inv c \<and> cs_str c = init_text initial \<and> blocks_moved {} (cs_owned c) h h'"
    using create_full_spec [of h initial mp]
    by (auto simp: str_create_def split: if_splits option.splits prod.splits sum.splits)
next
  fix c op and h :: heap
  assume "cs_inv c" "heap_ok h" "cs_owned c \<subseteq> live h" "text_pre op (cs_str c)"
  from str_step_sim [OF this]
  show "\<exists>ok c' h'. str_step op c h = Some (ok, c', h') \<and> cs_inv c'
      \<and> cs_str c' = (if ok then text_spec op (cs_str c) else cs_str c) \<and> blocks_moved (cs_owned c) (cs_owned c') h h'"
    by (simp add: str_sim_def)
next
  fix c and h :: heap
  show "\<exists>h'. Some (cstring_destroy (Some c) h) = Some h' \<and> live h' = live h - cs_owned c"
    by (simp add: cs_destroy_spec)
qed

section \<open>The properties\<close>

text \<open>
  Claim C4.  The string refines a byte sequence.  For every initial C string,
  allocator and program of appends, prepends, insertions, overwrites and
  replacements (whose arguments may point into the string itself), resets,
  reservations, case conversions and trims: the program runs to its end with no
  abort, no unterminated read and no undefined copy, whatever the allocator
  refuses; an operation that reports success acts as specified on the text, one
  that reports failure leaves it; and destroying the string leaves exactly the
  blocks that were live before it was created.
\<close>

theorem string_refines_text:
  assumes "heap_ok h" "init_ok initial" "cstring_create_full initial mp h = Some (Inr s, h1)"
    "pre_ops text_pre text_spec ops (init_text initial)"
  shows "\<exists>oks s' h2. run_ops str_step ops s h1 = Some (oks, s', h2) \<and> length oks = length ops
     \<and> cs_str s' = spec_ops text_spec ops oks (init_text initial) \<and> cs_inv s'
     \<and> live (cstring_destroy (Some s') h2) = live h"
  using str.lifecycle [OF assms(1) _ assms(4), of mp s h1] assms(2,3) by (auto simp: str_create_def)

theorem string_refines_text_witness:
  "\<exists>s h1. cstring_create_full (Some [104, 105, 0]) DefaultProcs
       \<lparr>answers = [Grant (\<lambda>_. 0), Grant (\<lambda>_. 0), Grant (\<lambda>_. 7), Refuse], next_blk = 0, live = {}\<rparr> = Some (Inr s, h1)
     \<and> (\<exists>oks s' h2. run_ops str_step [SInsert 1 (Self 0), SUpper, SAppend (Ext [33, 0]), STrim] s h1 = Some (oks, s', h2)
          \<and> cs_str s' = spec_ops text_spec [SInsert 1 (Self 0), SUpper, SAppend (Ext [33, 0]), STrim] oks [104, 105]
          \<and> live (cstring_destroy (Some s') h2) = {})"
proof -
  define h where "h = \<lparr>answers = [Grant (\<lambda>_. 0), Grant (\<lambda>_. 0), Grant (\<lambda>_. 7), Refuse], next_blk = 0, live = {} :: nat set\<rparr>"
  let ?i = "Some [104, 105, 0] :: byte list option" and ?ops = "[SInsert 1 (Self 0), SUpper, SAppend (Ext [33, 0]), STrim]"
  have ho: "heap_ok h" by (simp add: h_def heap_ok_def)
  have io: "init_ok ?i" by (simp add: init_ok_def size_defs)
  have it: "init_text ?i = [104, 105]" by (simp add: init_text_def c_str_def)
  have "\<exists>s h1. cstring_create_full ?i DefaultProcs h = Some (Inr s, h1)"
    by (simp add: h_def cstring_create_full_def cstring_create_from_span_def ccol_verify_memmgmt_procs_def mem_calloc_def
        mem_alloc_def strlen_def c_str_def sz_add_def cstring_length_fits_with_terminator_def size_defs
        ccol_find_nearest_gte_power_of_two_def builtin_clzl_def bit_length_eval memcpy_def memmove_def readable_def store_def
        length_poke read_ptr_def)
  then obtain s h1 where c: "cstring_create_full ?i DefaultProcs h = Some (Inr s, h1)" by blast
  have p: "pre_ops text_pre text_spec ?ops (init_text ?i)" by (simp add: it text_arg_ok_def size_defs)
  have l: "live h = {}" by (simp add: h_def)
  show ?thesis unfolding h_def [symmetric] using c string_refines_text [OF ho io c p] l it by auto
qed

text \<open>
  \<^verbatim>\<open>cstring_insert\<close> of a C string that may point anywhere into the
  string it is inserted into, up to its terminator, so that either move may shift
  it: the code it returns is determined by the lengths and the allocator's answer,
  and with success the text is the old one with the argument's old text at the position.
\<close>

theorem string_insert_correct:
  assumes "cs_inv s" "cstr_arg s p" "pos \<le> cs_length s"
  shows "\<exists>rv s' h'. cstring_insert (Some s) pos p h = Some (rv, s', h') \<and> rv = edit_retval s p h \<and> blocks_kept h h'
     \<and> cs_inv s' \<and> cs_frame s s'
     \<and> cs_str s' = (if rv = ccol_success then take pos (cs_str s) @ arg_str s p @ drop pos (cs_str s) else cs_str s)"
  using cs_insert_spec [OF assms, of h] by (auto simp: inserts_at_def)

definition sample_string :: "byte list \<Rightarrow> cstring" where
  "sample_string xs = \<lparr>cs_data = take 16 (xs @ replicate 16 0), cs_length = length xs, cs_capacity = 16,
     cs_m_procs = DefaultProcs, cs_data_blk = Some 1, cs_blk = 0\<rparr>"

lemma sample_string_ok:
  assumes "length xs < 16" "0 \<notin> set xs"
  shows "cs_inv (sample_string xs)" "cs_str (sample_string xs) = xs" "cs_length (sample_string xs) = length xs"
proof -
  have "pow2 16" using pow2I [of 4] by simp
  moreover show s: "cs_str (sample_string xs) = xs" using assms(1) by (simp add: cs_str_def sample_string_def)
  ultimately show "cs_inv (sample_string xs)" using assms
    by (simp add: cs_inv_def) (simp add: sample_string_def size_defs nth_append)
  show "cs_length (sample_string xs) = length xs" by (simp add: sample_string_def)
qed

theorem string_insert_correct_witness:
  "let s = sample_string [1, 2, 3]; h = \<lparr>answers = [], next_blk = 2, live = {0, 1}\<rparr>
   in cs_inv s \<and> (\<exists>s' h'. cstring_insert (Some s) 2 (Self 1) h = Some (ccol_success, s', h')
        \<and> cs_str s' = [1, 2, 2, 3, 3])"
proof -
  define s where "s = sample_string [1, 2, 3]"
  define h where "h = \<lparr>answers = [] :: answer list, next_blk = 2, live = {0, 1::nat}\<rparr>"
  have s: "cs_inv s" "cs_str s = [1, 2, 3]" "cs_length s = 3"
    using sample_string_ok [of "[1, 2, 3]"] by (simp_all add: s_def)
  have a: "cstr_arg s (Self 1)" using s(3) by (simp add: cstr_arg_def)
  have as: "arg_str s (Self 1) = [2, 3]" using arg_str_Self [OF s(1), of 1] s by simp
  have "edit_retval s (Self 1) h = ccol_success"
    using as s(3) by (simp add: edit_retval_def cs_grows_def size_defs) (simp add: s_def sample_string_def)
  then show ?thesis
    using string_insert_correct [OF s(1) a, of 2 h] s as unfolding Let_def s_def [symmetric] h_def [symmetric] by auto
qed

text \<open>
  Claim C15.  \<^verbatim>\<open>cstring_rfind\<close> returns the last place at which the needle occurs,
  overlaps included, or \<^verbatim>\<open>ccol_invalid_size\<close> when there is none: for a short
  string, for one byte, for the vector filter over a long string and for the
  linear search that takes over from it, with its table on the stack, on the heap
  or refused; it always returns, and it keeps no block.
\<close>

theorem rfind_last_occurrence:
  assumes "cs_inv s" "cstr_arg s p" "heap_ok h"
  shows "\<exists>h'. cstring_rfind (Some s) p h
       = Some (case last_occurrence (cs_str s) (arg_str s p) of None \<Rightarrow> ccol_invalid_size | Some i \<Rightarrow> i, h')
     \<and> blocks_kept h h'"
  using rfind_spec [OF assms] by (simp add: rfind_answer_def)

theorem rfind_last_occurrence_witness:
  "let s = sample_string [1, 2, 1, 2, 1]; h = \<lparr>answers = [], next_blk = 2, live = {0, 1}\<rparr>
   in cs_inv s \<and> (\<exists>h'. cstring_rfind (Some s) (Ext [1, 2, 1, 0]) h = Some (2, h'))"
proof -
  define s where "s = sample_string [1, 2, 1, 2, 1]"
  define h where "h = \<lparr>answers = [] :: answer list, next_blk = 2, live = {0, 1::nat}\<rparr>"
  have s: "cs_inv s" "cs_str s = [1, 2, 1, 2, 1]" using sample_string_ok [of "[1, 2, 1, 2, 1]"] by (simp_all add: s_def)
  have a: "cstr_arg s (Ext [1, 2, 1, 0])" by (simp add: cstr_arg_def size_defs)
  have ho: "heap_ok h" by (simp add: h_def heap_ok_def)
  have "last_occurrence (cs_str s) (arg_str s (Ext [1, 2, 1, 0])) = Some 2"
    using s(2) by (simp add: last_occurrence_def arg_str_def ptr_bytes_def c_str_def occurs_at_def peek_def upt_rec)
  then show ?thesis
    using rfind_last_occurrence [OF s(1) a ho] s(1) unfolding Let_def s_def [symmetric] h_def [symmetric] by auto
qed

text \<open>
  Claim C35.  The right-to-left Knuth-Morris-Pratt search: both of its passes end
  for every text and needle, its table never sends it outside the table or the
  needle, and unless the allocator refuses the table it gives the rightmost
  occurrence that lies inside the first \<open>limit\<close> bytes.
\<close>

theorem rfind_linear_correct:
  assumes "needle \<noteq> []" "limit \<le> length hay" "heap_ok h"
  shows "\<exists>ok r h'. cstring_rfind_linear hay limit needle (length needle) h = Some (ok, r, h') \<and> blocks_kept h h'
     \<and> (length needle \<le> CSTRING_RFIND_STACK_TABLE_LEN \<longrightarrow> ok)
     \<and> (ok \<longrightarrow> r = (case last_occurrence (take limit hay) needle of None \<Rightarrow> ccol_invalid_size | Some i \<Rightarrow> i))"
proof -
  obtain ok r h' where "cstring_rfind_linear hay limit needle (length needle) h = Some (ok, r, h')" "blocks_kept h h'"
      "ok \<Longrightarrow> r = rfind_answer (take limit hay) needle"
    by (rule linear_spec [OF assms], rule that)
  moreover from this have "ok" if "length needle \<le> CSTRING_RFIND_STACK_TABLE_LEN"
    using that by (auto simp: cstring_rfind_linear_def bind_eq_Some_conv)
  ultimately show ?thesis by (auto simp: rfind_answer_def)
qed

theorem rfind_linear_correct_witness:
  "let h = \<lparr>answers = [], next_blk = 0, live = {}\<rparr>
   in \<exists>h'. cstring_rfind_linear [1, 1, 2, 1, 1, 2, 1] 6 [1, 1, 2] 3 h = Some (True, 3, h')"
proof -
  define h where "h = \<lparr>answers = [] :: answer list, next_blk = 0, live = {} :: nat set\<rparr>"
  have ho: "heap_ok h" by (simp add: h_def heap_ok_def)
  have "last_occurrence (take 6 [1, 1, 2, 1, 1, 2, 1]) [1, 1, 2 :: byte] = Some 3"
    by (simp add: last_occurrence_def occurs_at_def peek_def upt_rec)
  then show ?thesis
    using rfind_linear_correct [of "[1, 1, 2]" 6 "[1, 1, 2, 1, 1, 2, 1]" h] ho
    unfolding Let_def h_def [symmetric] by (auto simp: CSTRING_RFIND_STACK_TABLE_LEN_def numeral_3_eq_3)
qed

text \<open>
  Claim C23.  \<^verbatim>\<open>cstring_replace\<close> replaces the occurrences of the needle from left to
  right and without overlaps.  Both loops end; the length computed ahead of the
  second is the length of the result, so that all its copies stay inside the new
  buffer; the code returned is determined by that length and the allocator; and
  the old buffer is freed exactly when the new one takes its place.
\<close>

theorem replace_correct:
  assumes "cs_inv s" "heap_ok h" "cs_owned s \<subseteq> live h" "cstr_arg s np" "cstr_arg s rp"
  shows "\<exists>rv s' h'. cstring_replace (Some s) np rp h = Some (rv, s', h') \<and> cs_inv s'
     \<and> rv = replace_retval s (arg_str s np) (arg_str s rp) h \<and> blocks_moved (cs_owned s) (cs_owned s') h h'
     \<and> cs_str s' = (if rv = ccol_success then replace_all (arg_str s np) (arg_str s rp) (cs_str s) else cs_str s)"
  by (rule replace_spec [OF assms])

theorem replace_correct_witness:
  "let s = sample_string [1, 2, 1, 2, 1]; h = \<lparr>answers = [Grant (\<lambda>_. 9)], next_blk = 2, live = {0, 1}\<rparr>
   in cs_inv s \<and> (\<exists>s' h'. cstring_replace (Some s) (Ext [1, 2, 0]) (Self 3) h = Some (ccol_success, s', h')
        \<and> cs_str s' = [2, 1, 2, 1, 1] \<and> cs_inv s')"
proof -
  define s where "s = sample_string [1, 2, 1, 2, 1]"
  define h where "h = \<lparr>answers = [Grant (\<lambda>_. 9)], next_blk = 2, live = {0, 1::nat}\<rparr>"
  have s: "cs_inv s" "cs_str s = [1, 2, 1, 2, 1]" "cs_length s = 5"
    using sample_string_ok [of "[1, 2, 1, 2, 1]"] by (simp_all add: s_def)
  have ow: "cs_owned s \<subseteq> live h" by (simp add: s_def h_def sample_string_def cs_owned_def)
  have a: "cstr_arg s (Ext [1, 2, 0])" "cstr_arg s (Self 3)" using s(3) by (simp_all add: cstr_arg_def size_defs)
  have ho: "heap_ok h" by (simp add: h_def heap_ok_def)
  have as: "arg_str s (Ext [1, 2, 0]) = [1, 2]" "arg_str s (Self 3) = [2, 1]"
    using arg_str_Self [OF s(1), of 3] s by (simp_all add: arg_str_def ptr_bytes_def c_str_def)
  have f: "first_occurrence [1, 2, 1, 2, 1] [1, 2 :: byte] = Some 0" "first_occurrence [1, 2, 1] [1, 2 :: byte] = Some 0"
      "first_occurrence [1] [1, 2 :: byte] = None"
    by (simp_all add: first_occurrence_def occurs_at_def peek_def upt_rec)
  have R: "replace_all [1, 2] [2, 1] [1, 2, 1, 2, 1] = [2, 1, 2, 1, 1 :: byte]"
    by (simp add: replace_all.simps f)
  have "replace_retval s [1, 2] [2, 1] h = ccol_success"
    using s(2) R by (simp add: replace_retval_def count_occurrences.simps f h_def alloc_granted_def size_defs)
  then show ?thesis
    using replace_correct [OF s(1) ho ow a] s as R unfolding Let_def s_def [symmetric] h_def [symmetric] by auto
qed

lemma strcmp_zero: "0 \<notin> set a \<Longrightarrow> 0 \<notin> set b \<Longrightarrow> strcmp a b = 0 \<longleftrightarrow> a = b"
  by (induction a b rule: strcmp.induct) (auto dest: uint_pos simp: uint_eq_iff)

lemma strncmp_zero:
  assumes "0 \<notin> set a" "0 \<notin> set b"
  shows "strncmp a b n = 0 \<longleftrightarrow> take n a = take n b"
  using strcmp_zero [of "take n a" "take n b"] assms by (auto simp: strncmp_def dest: in_set_takeD)

lemma prefix_take: "prefix xs ys \<longleftrightarrow> length xs \<le> length ys \<and> take (length xs) ys = xs"
  by (metis append_eq_conv_conj prefix_def prefix_length_le)

lemma suffix_drop_eq: "suffix xs ys \<longleftrightarrow> length xs \<le> length ys \<and> drop (length ys - length xs) ys = xs"
  by (metis append_eq_conv_conj length_append diff_add_inverse2 suffix_def suffix_length_le suffix_drop)

text \<open>
  The read-only functions on a string and a C string: comparison and
  equality agree with the byte sequences, \<^verbatim>\<open>cstring_starts_with\<close> and
  \<^verbatim>\<open>cstring_ends_with\<close> decide prefix and suffix, also for arguments longer than
  the string, and \<^verbatim>\<open>cstring_find\<close> gives the first occurrence.
\<close>

theorem string_queries_correct:
  assumes "cs_inv s" "cstr_arg s p"
  shows "cstring_compare (Some s) p = Some (strcmp (cs_str s) (arg_str s p))
     \<and> cstring_equals (Some s) p = Some (cs_str s = arg_str s p)
     \<and> cstring_starts_with (Some s) p = Some (prefix (arg_str s p) (cs_str s))
     \<and> cstring_ends_with (Some s) p = Some (suffix (arg_str s p) (cs_str s))
     \<and> cstring_find (Some s) p
       = Some (case first_occurrence (cs_str s) (arg_str s p) of None \<Rightarrow> ccol_invalid_size | Some i \<Rightarrow> i)"
proof -
  let ?n = "length (arg_str s p)"
  have nn: "p \<noteq> Null" using assms(2) by (auto simp: cstr_arg_def)
  note sl = arg_strlen [OF assms] and d = c_str_data [OF assms(1)] and l = length_cs_str [OF assms(1)]
    and z = cs_invD(7) [OF assms(1)]
  have ar: "c_str (ptr_bytes (cs_data s) p) = arg_str s p" by (simp add: arg_str_def)
  have "cstring_starts_with (Some s) p = Some (prefix (arg_str s p) (cs_str s))"
    using nn sl(1) d ar l strncmp_zero [OF z sl(2), of ?n] by (auto simp: cstring_starts_with_def prefix_take)
  moreover have "cstring_ends_with (Some s) p = Some (suffix (arg_str s p) (cs_str s))"
  proof (cases "?n \<le> cs_length s")
    case True
    let ?t = "drop (cs_length s - ?n) (cs_str s)"
    have "c_str (drop (cs_length s - ?n) (cs_data s)) = ?t" using c_str_suffix [OF assms(1)] by simp
    moreover have "0 \<notin> set ?t" using z by (meson in_set_dropD)
    then have "strncmp ?t (arg_str s p) ?n = 0 \<longleftrightarrow> ?t = arg_str s p"
      using strncmp_zero [OF _ sl(2), of ?t ?n] True l by simp
    ultimately show ?thesis using nn sl(1) ar l True by (auto simp: cstring_ends_with_def suffix_drop_eq)
  qed (use nn sl(1) l in \<open>auto simp: cstring_ends_with_def suffix_drop_eq\<close>)
  ultimately show ?thesis
    using nn d ar strcmp_zero [OF z sl(2)]
    by (auto simp: cstring_compare_def cstring_equals_def cstring_find_def strstr_first split: option.split)
qed

theorem string_queries_correct_witness:
  "let s = sample_string [1, 2, 1, 2, 1] in cs_inv s \<and> cstring_starts_with (Some s) (Ext [1, 2, 0]) = Some True
     \<and> cstring_ends_with (Some s) (Self 1) = Some True \<and> cstring_find (Some s) (Ext [2, 0]) = Some 1"
proof -
  define s where "s = sample_string [1, 2, 1, 2, 1]"
  have s: "cs_inv s" "cs_str s = [1, 2, 1, 2, 1]" "cs_length s = 5"
    using sample_string_ok [of "[1, 2, 1, 2, 1]"] by (simp_all add: s_def)
  have a: "cstr_arg s (Ext [1, 2, 0])" "cstr_arg s (Self 1)" "cstr_arg s (Ext [2, 0])"
    using s(3) by (simp_all add: cstr_arg_def size_defs)
  have as: "arg_str s (Ext [1, 2, 0]) = [1, 2]" "arg_str s (Self 1) = [2, 1, 2, 1]" "arg_str s (Ext [2, 0]) = [2]"
    using arg_str_Self [OF s(1), of 1] s by (simp_all add: arg_str_def ptr_bytes_def c_str_def)
  have f: "first_occurrence [1, 2, 1, 2, 1] [2 :: byte] = Some 1"
    by (simp add: first_occurrence_def occurs_at_def peek_def upt_rec)
  show ?thesis
    using string_queries_correct [OF s(1) a(1)] string_queries_correct [OF s(1) a(2)] string_queries_correct [OF s(1) a(3)]
      s(1,2) as f unfolding Let_def s_def [symmetric] by (simp add: prefix_take suffix_drop_eq)
qed

end
