(* ===== verification/CCol_String_Split.thy ===== *)
theory CCol_String_Split
  imports CCol_String_Spec CCol_Vector
begin

text \<open>
  \<^verbatim>\<open>cstring_split\<close> of \<^verbatim>\<open>src/cstring.c\<close>: the tokens of a string as a vector of
  pointers to new strings, built on \<^verbatim>\<open>src/cvector.c\<close>, with the roll-back of a
  split that fails halfway.

  The address of a block is the allocator's choice: \<open>addr\<close> gives the eight bytes
  of the pointer to it.  The strings made so far are a list beside the vector,
  and a pointer read from the vector denotes the one at that address.
\<close>

section \<open>The operation\<close>

datatype split_err =
    delimiter_must_be_non_empty | split_vector_error cvec_err | split_token_error cstr_err
  | failed_to_push_split_token | failed_to_push_last_split_token

definition deref_cstr :: "(nat \<Rightarrow> byte list) \<Rightarrow> cstring list \<Rightarrow> byte list \<Rightarrow> cstring option" where
  "deref_cstr addr objs p = find (\<lambda>s. addr (cs_blk s) = p) objs"

text \<open>The loop of \<^verbatim>\<open>destroy_cstr_vector\<close> from index \<open>i\<close> on, with \<open>n\<close> rounds left.\<close>

fun destroy_cstr_loop ::
  "(nat \<Rightarrow> byte list) \<Rightarrow> cstring list \<Rightarrow> cvector \<Rightarrow> nat \<Rightarrow> nat \<Rightarrow> heap \<Rightarrow> heap option" where
  "destroy_cstr_loop addr objs v i 0 h = Some h"
| "destroy_cstr_loop addr objs v i (Suc n) h = do {
     part \<leftarrow> cvector_at (Some v) i;
     let p = read_ptr (cv_data v) part 8;
     h \<leftarrow> (if part = Null \<or> p = replicate 8 0 then Some h
          else do { s \<leftarrow> deref_cstr addr objs p; Some (cstring_destroy (Some s) h) });
     destroy_cstr_loop addr objs v (i + 1) n h
   }"

definition destroy_cstr_vector ::
  "(nat \<Rightarrow> byte list) \<Rightarrow> cstring list \<Rightarrow> cvector option \<Rightarrow> heap \<Rightarrow> heap option" where
  "destroy_cstr_vector addr objs v h =
     (case v of
        None \<Rightarrow> Some h
      | Some w \<Rightarrow> do {
          count \<leftarrow> cvector_elem_count v;
          h \<leftarrow> destroy_cstr_loop addr objs w 0 count h;
          Some (cvector_destroy v h)
        })"

text \<open>One token: its string, and the pointer to it at the end of the vector.\<close>

definition split_token ::
  "(nat \<Rightarrow> byte list) \<Rightarrow> cstring \<Rightarrow> size_t \<Rightarrow> size_t \<Rightarrow> split_err \<Rightarrow> cvector \<Rightarrow> cstring list \<Rightarrow> heap \<Rightarrow>
     ((split_err + (cvector \<times> cstring list)) \<times> heap) option" where
  "split_token addr s current part_len err v objs h = do {
     (res, h) \<leftarrow> cstring_create_from_span (Some (drop current (cs_data s))) part_len (cs_m_procs s) h;
     (case res of
        Inl e \<Rightarrow> do { h \<leftarrow> destroy_cstr_vector addr objs (Some v) h; Some (Inl (split_token_error e), h) }
      | Inr part \<Rightarrow> do {
          (rv, v, h) \<leftarrow> cvector_push_back (Some v) (Ext (addr (cs_blk part))) h;
          (if rv \<noteq> ccol_success then do {
             let h = cstring_destroy (Some part) h;
             h \<leftarrow> destroy_cstr_vector addr objs (Some v) h;
             Some (Inl err, h)
           }
           else Some (Inr (v, objs @ [part]), h))
        })
   }"

text \<open>The loop over the delimiters; it leaves the start of the last token.\<close>

partial_function (option) split_loop ::
  "(nat \<Rightarrow> byte list) \<Rightarrow> cstring \<Rightarrow> byte list \<Rightarrow> size_t \<Rightarrow> cvector \<Rightarrow> cstring list \<Rightarrow> heap \<Rightarrow>
     ((split_err + (size_t \<times> cvector \<times> cstring list)) \<times> heap) option" where
  "split_loop addr s delim current v objs h =
     (case strstr_at (cs_data s) current delim of
        None \<Rightarrow> Some (Inr (current, v, objs), h)
      | Some found \<Rightarrow> do {
          (r, h) \<leftarrow> split_token addr s current (found - current) failed_to_push_split_token v objs h;
          (case r of
             Inl e \<Rightarrow> Some (Inl e, h)
           | Inr (v, objs) \<Rightarrow> split_loop addr s delim (found + length delim) v objs h)
        })"

definition cstring_split ::
  "(nat \<Rightarrow> byte list) \<Rightarrow> cstring option \<Rightarrow> byte cptr \<Rightarrow> heap \<Rightarrow>
     ((split_err + (cvector \<times> cstring list)) \<times> heap) option" where
  "cstring_split addr s delimiter h =
     (case s of
        None \<Rightarrow> None
      | Some s \<Rightarrow>
          if delimiter = Null \<or> ptr_bytes (cs_data s) delimiter ! 0 = 0
          then Some (Inl delimiter_must_be_non_empty, h)
          else (case cvector_create_full 8 (cs_m_procs s) h of
              (Inl e, h) \<Rightarrow> Some (Inl (split_vector_error e), h)
            | (Inr v, h) \<Rightarrow> do {
                dlen \<leftarrow> strlen (ptr_bytes (cs_data s) delimiter);
                let delim = take dlen (ptr_bytes (cs_data s) delimiter);
                (r, h) \<leftarrow> split_loop addr s delim 0 v [] h;
                (case r of
                   Inl e \<Rightarrow> Some (Inl e, h)
                 | Inr (current, v, objs) \<Rightarrow>
                     split_token addr s current (cs_length s - current) failed_to_push_last_split_token v objs h)
              }))"

section \<open>Splitting, as a specification\<close>

function split_text :: "byte list \<Rightarrow> byte list \<Rightarrow> byte list list" where
  "split_text delim xs =
     (case first_occurrence xs delim of
        None \<Rightarrow> [xs]
      | Some i \<Rightarrow> if delim = [] then [xs] else take i xs # split_text delim (drop (i + length delim) xs))"
  by auto
termination by (relation "measure (\<lambda>(delim, xs). length xs)") (auto dest: drop_occurrence_shorter)

declare split_text.simps [simp del]

fun join_text :: "byte list \<Rightarrow> byte list list \<Rightarrow> byte list" where
  "join_text delim [] = []"
| "join_text delim [x] = x"
| "join_text delim (x # y # ys) = x @ delim @ join_text delim (y # ys)"

lemma split_text_ne: "split_text delim xs \<noteq> []"
  by (simp add: split_text.simps [of delim xs] split: option.split)

lemma join_split: "join_text delim (split_text delim xs) = xs"
proof (induction delim xs rule: split_text.induct)
  case (1 delim xs)
  show ?case
  proof (cases "first_occurrence xs delim")
    case (Some i)
    show ?thesis
    proof (cases "delim = []")
      case False
      let ?r = "drop (i + length delim) xs"
      obtain y ys where y: "split_text delim ?r = y # ys" using split_text_ne by (metis list.exhaust)
      have "join_text delim (y # ys) = ?r" using 1 [OF Some False] y by simp
      moreover have "split_text delim xs = take i xs # y # ys" using Some False y by (simp add: split_text.simps [of delim xs])
      ultimately show ?thesis using occurs_at_split [OF first_occurrence_SomeD [OF Some]] by simp
    qed (use Some in \<open>simp add: split_text.simps [of "[]" xs]\<close>)
  qed (simp add: split_text.simps [of delim xs])
qed

lemma split_no_delim:
  assumes "delim \<noteq> []" "t \<in> set (split_text delim xs)"
  shows "\<not> occurs_at t delim i"
  using assms
proof (induction delim xs rule: split_text.induct)
  case (1 delim xs)
  show ?case
  proof (cases "first_occurrence xs delim")
    case None
    then show ?thesis using 1 first_occurrence_None [of xs delim] by (simp add: split_text.simps [of delim xs])
  next
    case (Some k)
    then have t: "t = take k xs \<or> t \<in> set (split_text delim (drop (k + length delim) xs))"
      using 1 by (simp add: split_text.simps [of delim xs])
    have f: "\<forall>j < k. \<not> occurs_at xs delim j" using strstr_Some [of xs delim k] Some by (simp add: strstr_first)
    have "\<not> occurs_at (take k xs) delim i"
    proof
      assume o: "occurs_at (take k xs) delim i"
      then have "i + length delim \<le> k" by (simp add: occurs_at_def)
      moreover from this have "i < k" using 1(2) by (cases delim) auto
      moreover have "occurs_at xs delim i" using o calculation by (auto simp: occurs_at_def peek_take)
      ultimately show False using f by blast
    qed
    then show ?thesis using t 1(1) [OF Some 1(2)] 1(2) by blast
  qed
qed

section \<open>Correctness\<close>

text \<open>What the address space provides for the blocks below \<open>N\<close>: distinct pointers of eight bytes, none of them null.\<close>

definition addr_ok :: "(nat \<Rightarrow> byte list) \<Rightarrow> nat \<Rightarrow> bool" where
  "addr_ok addr N \<longleftrightarrow> (\<forall>b < N. length (addr b) = 8 \<and> addr b \<noteq> replicate 8 0) \<and> inj_on addr {..<N}"

text \<open>
  The state of a split that began in heap \<open>h0\<close>: the vector holds the pointers to
  the strings, and what is live beyond \<open>h0\<close> is what the vector and the strings own.
\<close>

definition split_owned :: "cvector \<Rightarrow> cstring list \<Rightarrow> nat set" where
  "split_owned v objs = vec_owned v \<union> (\<Union>s \<in> set objs. cs_owned s)"

definition split_state :: "(nat \<Rightarrow> byte list) \<Rightarrow> heap \<Rightarrow> cvector \<Rightarrow> cstring list \<Rightarrow> heap \<Rightarrow> bool" where
  "split_state addr h0 v objs h \<longleftrightarrow>
     cvec_inv v \<and> cv_elem_size v = 8 \<and> cvec_elems v = map (\<lambda>s. addr (cs_blk s)) objs \<and> list_all cs_inv objs
       \<and> distinct (map cs_blk objs) \<and> heap_ok h \<and> next_blk h0 \<le> next_blk h
       \<and> live h = live h0 \<union> split_owned v objs \<and> split_owned v objs \<inter> live h0 = {}"

lemma deref_nth:
  assumes "distinct (map cs_blk objs)" "\<forall>s \<in> set objs. cs_blk s < N" "addr_ok addr N" "i < length objs"
  shows "deref_cstr addr objs (addr (cs_blk (objs ! i))) = Some (objs ! i)"
proof -
  have ne: "addr (cs_blk (objs ! j)) \<noteq> addr (cs_blk (objs ! i))" if "j < i" for j
  proof
    assume "addr (cs_blk (objs ! j)) = addr (cs_blk (objs ! i))"
    moreover have "cs_blk (objs ! j) < N" "cs_blk (objs ! i) < N" using assms(2,4) that by simp_all
    ultimately have "cs_blk (objs ! j) = cs_blk (objs ! i)"
      using assms(3) by (auto simp: addr_ok_def dest: inj_onD)
    then show False using assms(1,4) that nth_eq_iff_index_eq [of "map cs_blk objs" j i] by simp
  qed
  show ?thesis unfolding deref_cstr_def find_Some_iff using assms(4) ne by blast
qed

lemma destroy_loop_spec:
  assumes v: "cvec_inv v" "cv_elem_size v = 8" "cvec_elems v = map (\<lambda>s. addr (cs_blk s)) objs"
    and o: "distinct (map cs_blk objs)" "\<forall>s \<in> set objs. cs_blk s < N" "addr_ok addr N"
  shows "i + n = length objs \<Longrightarrow> \<exists>h'. destroy_cstr_loop addr objs v i n h = Some h'
     \<and> live h' = live h - (\<Union>s \<in> set (drop i objs). cs_owned s) \<and> next_blk h' = next_blk h"
proof (induction n arbitrary: i h)
  case 0
  then show ?case by simp
next
  case (Suc n)
  then have i: "i < length objs" by simp
  have c: "cv_elem_count v = length objs" using v(3) length_cvec_elems [of v] by simp
  have "cvec_elems v ! i = addr (cs_blk (objs ! i))" using v(3) i by simp
  then have p: "read_ptr (cv_data v) (Self (i * 8)) 8 = addr (cs_blk (objs ! i))"
    using v(2) i c by (simp add: read_ptr_def cvec_elems_def)
  have nz: "addr (cs_blk (objs ! i)) \<noteq> replicate 8 0" using o(2,3) i by (simp add: addr_ok_def)
  let ?h = "cstring_destroy (Some (objs ! i)) h"
  have st: "destroy_cstr_loop addr objs v i (Suc n) h = destroy_cstr_loop addr objs v (i + 1) n ?h"
    using at_ptr [of v i] c i v(2) p nz deref_nth [OF o i] by simp
  have nb: "next_blk ?h = next_blk h" by (simp add: cstring_destroy_def split: option.split)
  have d: "drop i objs = objs ! i # drop (i + 1) objs" using i by (simp add: Cons_nth_drop_Suc)
  obtain h' where "destroy_cstr_loop addr objs v (i + 1) n ?h = Some h'"
      "live h' = live ?h - (\<Union>s \<in> set (drop (i + 1) objs). cs_owned s)" "next_blk h' = next_blk ?h"
    using Suc.IH [of "i + 1" ?h] Suc.prems by auto
  then show ?case using st nb d cs_destroy_spec [of "objs ! i" h] by auto
qed

lemma split_blks:
  assumes "split_state addr h0 v objs h" "next_blk h \<le> N"
  shows "\<forall>s \<in> set objs. cs_blk s < N"
proof
  fix s assume "s \<in> set objs"
  then have "cs_blk s \<in> live h" using assms(1) by (auto simp: split_state_def split_owned_def cs_owned_def)
  moreover have "heap_ok h" using assms(1) by (simp add: split_state_def)
  ultimately have "cs_blk s < next_blk h" by (simp add: heap_ok_def)
  then show "cs_blk s < N" using assms(2) by simp
qed

lemma rollback_spec:
  assumes st: "split_state addr h0 v objs h" and N: "next_blk h \<le> N" "addr_ok addr N"
    and w: "cvec_inv w" "cv_elem_size w = 8" "cvec_elems w = cvec_elems v" "vec_owned w = vec_owned v"
    and h1: "live h1 = live h" "next_blk h \<le> next_blk h1"
  shows "\<exists>h'. destroy_cstr_vector addr objs (Some w) h1 = Some h' \<and> blocks_kept h0 h'"
proof -
  have e: "cvec_elems w = map (\<lambda>s. addr (cs_blk s)) objs" "distinct (map cs_blk objs)"
    using st w(3) by (simp_all add: split_state_def)
  have c: "cv_elem_count w = length objs" using e(1) length_cvec_elems [of w] by simp
  obtain h2 where d: "destroy_cstr_loop addr objs w 0 (length objs) h1 = Some h2"
      "live h2 = live h1 - (\<Union>s \<in> set objs. cs_owned s)" "next_blk h2 = next_blk h1"
    using destroy_loop_spec [OF w(1,2) e split_blks [OF st N(1)] N(2), of 0 "length objs" h1] by auto
  have nb: "next_blk (cvector_destroy (Some w) h2) = next_blk h2"
    by (simp add: cvector_destroy_def split: option.split)
  have "live (cvector_destroy (Some w) h2) = live h0"
    using st d(2) w(4) h1(1) destroy_spec [of w h2] by (auto simp: split_state_def split_owned_def)
  moreover have "next_blk h0 \<le> next_blk h1" using st h1(2) by (simp add: split_state_def)
  ultimately show ?thesis
    using d(1,3) c nb by (simp add: destroy_cstr_vector_def cvector_elem_count_def blocks_kept_def)
qed

text \<open>A new string takes at most two blocks, a push none.\<close>

lemma mem_alloc_next: "mem_alloc h n = (r, h') \<Longrightarrow> next_blk h' \<le> next_blk h + 1"
  by (auto simp: mem_alloc_def split: list.splits answer.splits)

lemma mem_calloc_next: "mem_calloc h n = (r, h') \<Longrightarrow> next_blk h' \<le> next_blk h + 1"
  using mem_alloc_next by (fastforce simp: mem_calloc_def split: prod.splits option.splits)

lemma create_next:
  assumes "cstring_create_from_span i n mp h = Some (r, h')"
  shows "next_blk h' \<le> next_blk h + 2"
proof -
  obtain c h1 where c: "mem_calloc h (32 + (if case mp of CallerProcs _ \<Rightarrow> True | _ \<Rightarrow> False then 32 else 0)) = (c, h1)"
    by fastforce
  note n1 = mem_calloc_next [OF c]
  have n2: "next_blk h2 \<le> next_blk h + 2" if "mem_alloc h1 k = (x, h2)" for k x h2
    using mem_alloc_next [OF that] n1 by simp
  have d: "next_blk (cstring_destroy s h2) = next_blk h2" for s h2
    by (simp add: cstring_destroy_def Let_def split: option.split)
  show ?thesis
    using assms n1 c
    by (auto simp: cstring_create_from_span_def Let_def d bind_eq_Some_conv
        split: if_splits option.splits prod.splits dest!: n2)
qed

lemma vector_create_next: "cvector_create_full es mp h = (r, h') \<Longrightarrow> next_blk h' \<le> next_blk h + 2"
  by (auto simp: cvector_create_full_def cvector_destroy_def Let_def
      split: option.splits prod.splits dest!: mem_calloc_next mem_alloc_next)

lemma push_next: "cvector_push_back (Some v) p h = Some (rv, v', h') \<Longrightarrow> next_blk h' = next_blk h"
  by (auto simp: cvector_push_back_def scale_the_cvector_size_up_def Let_def bind_eq_Some_conv
      split: if_splits prod.splits option.splits dest: mem_realloc_live)

lemma token_spec:
  assumes st: "split_state addr h0 v objs h" and N: "next_blk h + 2 \<le> N" "addr_ok addr N"
    and s: "cs_inv s" "current + len \<le> cs_length s"
  shows "\<exists>r h'. split_token addr s current len err v objs h = Some (r, h')
     \<and> (case r of Inl e \<Rightarrow> blocks_kept h0 h'
          | Inr (v', objs') \<Rightarrow> split_state addr h0 v' objs' h' \<and> next_blk h' \<le> next_blk h + 2
              \<and> map cs_str objs' = map cs_str objs @ [peek (cs_str s) current len])"
proof -
  note S = st [unfolded split_state_def]
  note i = cs_invD [OF s(1)]
  let ?b = "drop current (cs_data s)"
  have tk: "take len ?b = peek (cs_str s) current len"
    using peek_take [of current len "cs_length s" "cs_data s"] s(2) by (simp add: cs_str_def peek_def)
  have "0 \<notin> set (peek (cs_str s) current len)"
    using i(7) unfolding peek_def by (meson in_set_dropD in_set_takeD)
  then have ok: "span_ok (Some ?b) len" using s(2) i(3-5) tk by (simp add: span_ok_def size_defs)
  have ho: "heap_ok h" using S by simp
  obtain res h1 where c: "cstring_create_from_span (Some ?b) len (cs_m_procs s) h = Some (res, h1)"
      "case res of Inl e \<Rightarrow> blocks_kept h h1
        | Inr p \<Rightarrow> cs_inv p \<and> cs_str p = span_text (Some ?b) len \<and> cs_m_procs p = cs_m_procs s \<and> blocks_moved {} (cs_owned p) h h1"
    using cs_create_spec [OF ho ok] by blast
  have vv: "cvec_inv v" "cv_elem_size v = 8" "next_blk h \<le> N" using S N(1) by simp_all
  show ?thesis
  proof (cases res)
    case (Inl e)
    then have k: "live h1 = live h" "next_blk h \<le> next_blk h1" using c(2) by (simp_all add: blocks_kept_def)
    obtain h' where "destroy_cstr_vector addr objs (Some v) h1 = Some h'" "blocks_kept h0 h'"
      using rollback_spec [OF st vv(3) N(2) vv(1,2) refl refl k] by blast
    then show ?thesis using c(1) Inl by (simp add: split_token_def)
  next
    case (Inr p)
    then have p: "cs_inv p" "cs_str p = peek (cs_str s) current len" "blocks_moved {} (cs_owned p) h h1"
      using c(2) tk by (simp_all add: span_text_def)
    have P: "cs_owned p \<subseteq> live h1" "live h1 - cs_owned p = live h" "next_blk h \<le> next_blk h1"
      using p(3) by (auto simp: blocks_moved_def)
    have ho1: "heap_ok h1" using blocks_moved_heap_ok [OF p(3) ho] .
    have n1: "next_blk h1 \<le> next_blk h + 2" using create_next [OF c(1)] .
    have pb: "cs_blk p < next_blk h1" using P(1) ho1 by (auto simp: cs_owned_def heap_ok_def)
    then have pa: "length (addr (cs_blk p)) = 8" using N n1 by (simp add: addr_ok_def)
    have ep: "elem_ptr v (Ext (addr (cs_blk p)))" using pa vv(2) by (simp add: elem_ptr_def readable_def)
    obtain rv v' h2 where b: "cvector_push_back (Some v) (Ext (addr (cs_blk p))) h1 = Some (rv, v', h2)" "blocks_kept h1 h2"
        "cvec_inv v'" "cvec_frame v v'"
        "if rv = ccol_success then cvec_elems v' = cvec_elems v @ [read_ptr (cv_data v) (Ext (addr (cs_blk p))) (cv_elem_size v)]
         else v' = v"
      using push_back_spec [OF vv(1) ep, of h1] by blast
    have es: "cv_elem_size v' = 8" "vec_owned v' = vec_owned v"
      using b(4) vv(2) cvec_frame_owned [OF b(4)] by (simp_all add: cvec_frame_def)
    show ?thesis
    proof (cases "rv = ccol_success")
      case False
      let ?h = "cstring_destroy (Some p) h2"
      have l: "live ?h = live h" using cs_destroy_spec [of p h2] b(2) P(2) by (auto simp: blocks_kept_def)
      have "next_blk ?h = next_blk h2" by (simp add: cstring_destroy_def split: option.split)
      then have "next_blk h \<le> next_blk ?h" using b(2) P(3) by (simp add: blocks_kept_def)
      then obtain h' where "destroy_cstr_vector addr objs (Some v') ?h = Some h'" "blocks_kept h0 h'"
        using rollback_spec [OF st vv(3) N(2) b(3) es(1) _ es(2) l] b(5) False by auto
      then show ?thesis using c(1) Inr b(1) False by (simp add: split_token_def)
    next
      case True
      have elems: "cvec_elems v' = map (\<lambda>s. addr (cs_blk s)) (objs @ [p])"
        using b(5) True S vv(2) pa by (simp add: read_ptr_def)
      have fresh: "cs_owned p \<inter> live h = {}" using P(2) by auto
      then have "cs_blk p \<notin> live h" by (auto simp: cs_owned_def)
      then have dist: "distinct (map cs_blk (objs @ [p]))"
        using S by (auto simp: split_owned_def cs_owned_def)
      have so: "split_owned v' (objs @ [p]) = split_owned v objs \<union> cs_owned p"
        using es(2) by (auto simp: split_owned_def)
      have live2: "live h2 = live h0 \<union> split_owned v' (objs @ [p])"
        using b(2) P S so by (auto simp: blocks_kept_def)
      have "split_state addr h0 v' (objs @ [p]) h2"
        unfolding split_state_def
      proof (intro conjI)
        show "heap_ok h2" using blocks_kept_heap_ok [OF b(2) ho1] .
        show "next_blk h0 \<le> next_blk h2" using S P(3) b(2) by (simp add: blocks_kept_def)
        show "split_owned v' (objs @ [p]) \<inter> live h0 = {}" using S so fresh by auto
        show "list_all cs_inv (objs @ [p])" using S p(1) by simp
      qed (use b(3) es elems dist live2 in simp_all)
      moreover have "next_blk h2 \<le> next_blk h + 2" using push_next [OF b(1)] n1 by simp
      ultimately show ?thesis using c(1) Inr b(1) True p(2) by (simp add: split_token_def)
    qed
  qed
qed

lemma split_loop_spec:
  assumes s: "cs_inv s" and ne: "delim \<noteq> []" and N: "addr_ok addr N"
  shows "split_state addr h0 v objs h \<Longrightarrow> current \<le> cs_length s \<Longrightarrow>
     next_blk h + 2 * (cs_length s - current) + 2 \<le> N \<Longrightarrow>
     \<exists>r h'. split_loop addr s delim current v objs h = Some (r, h')
       \<and> (case r of Inl e \<Rightarrow> blocks_kept h0 h'
            | Inr (c, v', objs') \<Rightarrow> split_state addr h0 v' objs' h' \<and> c \<le> cs_length s \<and> next_blk h' + 2 \<le> N
                \<and> map cs_str objs' @ [drop c (cs_str s)] = map cs_str objs @ split_text delim (drop current (cs_str s)))"
proof (induction "cs_length s - current" arbitrary: current v objs h rule: less_induct)
  case less
  let ?r = "drop current (cs_str s)"
  note at = strstr_at_spec [OF s less.prems(2), of delim]
  show ?case
  proof (cases "first_occurrence ?r delim")
    case None
    then have "split_loop addr s delim current v objs h = Some (Inr (current, v, objs), h)"
      using at by (subst split_loop.simps) simp
    then show ?thesis using less.prems None by (simp add: split_text.simps [of delim ?r])
  next
    case (Some k)
    let ?o = "current + k + length delim"
    have occ: "k + length delim \<le> length ?r" using first_occurrence_SomeD [OF Some] by (simp add: occurs_at_def)
    have dl: "0 < length delim" using ne by simp
    have o: "?o \<le> cs_length s" "current + k \<le> cs_length s" "cs_length s - ?o < cs_length s - current"
      using occ dl less.prems(2) unfolding length_drop length_cs_str [OF s] by linarith+
    have n2: "next_blk h + 2 \<le> N" using less.prems(3) by simp
    have st: "split_text delim ?r = take k ?r # split_text delim (drop ?o (cs_str s))"
      using Some ne by (simp add: split_text.simps [of delim ?r] add.commute add.left_commute)
    obtain r h1 where t: "split_token addr s current k failed_to_push_split_token v objs h = Some (r, h1)"
        "case r of Inl e \<Rightarrow> blocks_kept h0 h1
          | Inr (v', objs') \<Rightarrow> split_state addr h0 v' objs' h1 \<and> next_blk h1 \<le> next_blk h + 2
              \<and> map cs_str objs' = map cs_str objs @ [peek (cs_str s) current k]"
      using token_spec [OF less.prems(1) n2 N s o(2)] by blast
    have unf: "split_loop addr s delim current v objs h =
        (case r of Inl e \<Rightarrow> Some (Inl e, h1) | Inr (v, objs) \<Rightarrow> split_loop addr s delim ?o v objs h1)"
      using at Some t(1) by (subst split_loop.simps) simp
    show ?thesis
    proof (cases r)
      case (Inl e)
      then show ?thesis using unf t(2) by simp
    next
      case (Inr w)
      obtain v' objs' where w: "w = (v', objs')" by fastforce
      have T: "split_state addr h0 v' objs' h1" "next_blk h1 \<le> next_blk h + 2"
          "map cs_str objs' = map cs_str objs @ [take k ?r]"
        using t(2) Inr w by (simp_all add: peek_def)
      have b: "next_blk h1 + 2 * (cs_length s - ?o) + 2 \<le> N" using T(2) o(3) less.prems(3) by linarith
      obtain r2 h2 where "split_loop addr s delim ?o v' objs' h1 = Some (r2, h2)"
          "case r2 of Inl e \<Rightarrow> blocks_kept h0 h2
            | Inr (c, v', objs2) \<Rightarrow> split_state addr h0 v' objs2 h2 \<and> c \<le> cs_length s \<and> next_blk h2 + 2 \<le> N
                \<and> map cs_str objs2 @ [drop c (cs_str s)] = map cs_str objs' @ split_text delim (drop ?o (cs_str s))"
        using less.hyps [OF o(3) T(1) o(1) b] by blast
      then show ?thesis using unf Inr w T(3) st by (auto split: sum.splits)
    qed
  qed
qed

lemma split_spec:
  assumes s: "cs_inv s" and ho: "heap_ok h" and d: "cstr_arg s p" and N: "addr_ok addr (next_blk h + 2 * cs_length s + 4)"
  shows "\<exists>r h'. cstring_split addr (Some s) p h = Some (r, h')
     \<and> (case r of Inl e \<Rightarrow> blocks_kept h h'
          | Inr (v, objs) \<Rightarrow> arg_str s p \<noteq> [] \<and> split_state addr h v objs h'
              \<and> map cs_str objs = split_text (arg_str s p) (cs_str s))"
proof -
  let ?nb = "ptr_bytes (cs_data s) p"
  have nn: "p \<noteq> Null" using d by (auto simp: cstr_arg_def)
  note hd = arg_head(1) [OF s d] and sl = arg_strlen [OF s d]
  have tk: "take (length (arg_str s p)) ?nb = arg_str s p" using strlen_Some [OF sl(1)] by (simp add: arg_str_def)
  show ?thesis
  proof (cases "arg_str s p = []")
    case True
    then show ?thesis using nn hd by (simp add: cstring_split_def)
  next
    case ne: False
    obtain res h1 where c: "cvector_create_full 8 (cs_m_procs s) h = (res, h1)" by fastforce
    note cs = create_spec [OF ho c]
    show ?thesis
    proof (cases res)
      case (Inl e)
      then show ?thesis using nn hd ne c cs by (simp add: cstring_split_def)
    next
      case (Inr v)
      have v: "cvec_inv v" "cvec_elems v = []" "cv_elem_size v = 8" "blocks_moved {} (vec_owned v) h h1"
        using cs Inr by simp_all
      have nb: "next_blk h1 \<le> next_blk h + 2" using vector_create_next [OF c] .
      have st: "split_state addr h v [] h1"
        using v blocks_moved_heap_ok [OF v(4) ho] by (auto simp: split_state_def split_owned_def blocks_moved_def)
      have b: "next_blk h1 + 2 * (cs_length s - 0) + 2 \<le> next_blk h + 2 * cs_length s + 4" using nb by simp
      obtain r h2 where l: "split_loop addr s (arg_str s p) 0 v [] h1 = Some (r, h2)"
          "case r of Inl e \<Rightarrow> blocks_kept h h2
            | Inr (c, v', objs) \<Rightarrow> split_state addr h v' objs h2 \<and> c \<le> cs_length s
                \<and> next_blk h2 + 2 \<le> next_blk h + 2 * cs_length s + 4
                \<and> map cs_str objs @ [drop c (cs_str s)] = map cs_str [] @ split_text (arg_str s p) (drop 0 (cs_str s))"
        using split_loop_spec [OF s ne N st _ b] by blast
      have unf: "cstring_split addr (Some s) p h = (case r of Inl e \<Rightarrow> Some (Inl e, h2)
          | Inr (current, v, objs) \<Rightarrow>
              split_token addr s current (cs_length s - current) failed_to_push_last_split_token v objs h2)"
        using nn hd ne c Inr sl(1) tk l(1) by (simp add: cstring_split_def)
      show ?thesis
      proof (cases r)
        case (Inl e)
        then show ?thesis using unf l(2) by simp
      next
        case r: (Inr w)
        obtain cur w' objs where w: "w = (cur, w', objs)" by (cases w)
        have L: "split_state addr h w' objs h2" "next_blk h2 + 2 \<le> next_blk h + 2 * cs_length s + 4"
            "cur + (cs_length s - cur) \<le> cs_length s"
            "map cs_str objs @ [drop cur (cs_str s)] = split_text (arg_str s p) (cs_str s)"
          using l(2) r w by simp_all
        have pk: "peek (cs_str s) cur (cs_length s - cur) = drop cur (cs_str s)"
          using length_cs_str [OF s] by (simp add: peek_def)
        show ?thesis using token_spec [OF L(1,2) N s L(3)] unf r w ne L(4) pk by (fastforce split: sum.splits)
      qed
    qed
  qed
qed

text \<open>
  Claim C16.  \<^verbatim>\<open>cstring_split\<close> with any delimiter and any allocator gives all or
  nothing.  It always returns; a failure, wherever it strikes, frees every token
  and the vector, so that exactly the blocks from before are live; and a success
  is a vector of pointers to the tokens in order, which joined with the delimiter
  are the string again, none of them containing the delimiter.
\<close>

theorem split_correct:
  assumes "cs_inv s" "heap_ok h" "cstr_arg s p" "addr_ok addr (next_blk h + 2 * cs_length s + 4)"
  shows "\<exists>r h'. cstring_split addr (Some s) p h = Some (r, h')
     \<and> (case r of Inl e \<Rightarrow> live h' = live h
          | Inr (v, objs) \<Rightarrow> cvec_inv v \<and> cvec_elems v = map (\<lambda>t. addr (cs_blk t)) objs
              \<and> list_all cs_inv objs \<and> live h' = live h \<union> split_owned v objs
              \<and> join_text (arg_str s p) (map cs_str objs) = cs_str s
              \<and> list_all (\<lambda>t. first_occurrence (cs_str t) (arg_str s p) = None) objs)"
proof -
  obtain r h' where r: "cstring_split addr (Some s) p h = Some (r, h')"
      "case r of Inl e \<Rightarrow> blocks_kept h h'
        | Inr (v, objs) \<Rightarrow> arg_str s p \<noteq> [] \<and> split_state addr h v objs h'
            \<and> map cs_str objs = split_text (arg_str s p) (cs_str s)"
    using split_spec [OF assms] by blast
  show ?thesis
  proof (cases r)
    case (Inl e)
    then show ?thesis using r by (simp add: blocks_kept_def)
  next
    case (Inr w)
    obtain v objs where w: "w = (v, objs)" by fastforce
    have R: "arg_str s p \<noteq> []" "split_state addr h v objs h'" "map cs_str objs = split_text (arg_str s p) (cs_str s)"
      using r(2) Inr w by simp_all
    have "first_occurrence (cs_str t) (arg_str s p) = None" if "t \<in> set objs" for t
    proof -
      have "cs_str t \<in> set (split_text (arg_str s p) (cs_str s))" using that R(3) by (metis image_eqI list.set_map)
      then show ?thesis using split_no_delim [OF R(1)] by (simp add: first_occurrence_None)
    qed
    then show ?thesis using r(1) Inr w R(2) join_split [of "arg_str s p" "cs_str s"] R(3)
      by (simp add: split_state_def list_all_iff)
  qed
qed

theorem split_correct_witness:
  "let s = sample_string [1, 9, 2]; addr = (\<lambda>b. of_nat (Suc b) # replicate 7 0);
       h = \<lparr>answers = [Grant (\<lambda>_. 0), Grant (\<lambda>_. 0), Grant (\<lambda>_. 0), Refuse], next_blk = 2, live = {0, 1}\<rparr>
   in cs_inv s \<and> (\<exists>r h'. cstring_split addr (Some s) (Ext [9, 0]) h = Some (r, h')
        \<and> (case r of Inl e \<Rightarrow> live h' = {0, 1}
             | Inr (v, objs) \<Rightarrow> cvec_elems v = map (\<lambda>t. addr (cs_blk t)) objs \<and> join_text [9] (map cs_str objs) = [1, 9, 2]))"
proof -
  define s where "s = sample_string [1, 9, 2]"
  define addr :: "nat \<Rightarrow> byte list" where "addr = (\<lambda>b. of_nat (Suc b) # replicate 7 0)"
  define h where "h = \<lparr>answers = [Grant (\<lambda>_. 0), Grant (\<lambda>_. 0), Grant (\<lambda>_. 0), Refuse], next_blk = 2, live = {0, 1::nat}\<rparr>"
  have s: "cs_inv s" "cs_length s = 3" "cs_str s = [1, 9, 2]" using sample_string_ok [of "[1, 9, 2]"] by (simp_all add: s_def)
  have d: "cstr_arg s (Ext [9, 0])" "arg_str s (Ext [9, 0]) = [9]"
    by (simp_all add: cstr_arg_def size_defs arg_str_def ptr_bytes_def c_str_def)
  have ho: "heap_ok h" and l: "live h = {0, 1}" by (simp_all add: h_def heap_ok_def)
  have u: "unat (of_nat (Suc b) :: byte) = Suc b" if "b < 12" for b
    using that by (simp add: unat_of_nat del: of_nat_Suc)
  have "addr b \<noteq> replicate 8 0" if "b < 12" for b
    using u [OF that] by (auto simp: addr_def numeral_eq_Suc simp del: of_nat_Suc)
  moreover have "inj_on addr {..<12}"
    by (rule inj_onI) (use u in \<open>metis addr_def lessThan_iff list.inject nat.inject\<close>)
  ultimately have ad: "addr_ok addr (next_blk h + 2 * cs_length s + 4)"
    using s(2) by (simp add: addr_ok_def h_def) (simp add: addr_def)
  obtain r h' where r: "cstring_split addr (Some s) (Ext [9, 0]) h = Some (r, h')"
      "case r of Inl e \<Rightarrow> live h' = live h
        | Inr (v, objs) \<Rightarrow> cvec_inv v \<and> cvec_elems v = map (\<lambda>t. addr (cs_blk t)) objs
            \<and> list_all cs_inv objs \<and> live h' = live h \<union> split_owned v objs
            \<and> join_text [9] (map cs_str objs) = [1, 9, 2]
            \<and> list_all (\<lambda>t. first_occurrence (cs_str t) [9] = None) objs"
    using split_correct [OF s(1) ho d(1) ad] unfolding d(2) s(3) by blast
  have "case r of Inl e \<Rightarrow> live h' = {0, 1}
      | Inr (v, objs) \<Rightarrow> cvec_elems v = map (\<lambda>t. addr (cs_blk t)) objs \<and> join_text [9] (map cs_str objs) = [1, 9, 2]"
    using r(2) l by (cases r) (auto simp del: Un_insert_right)
  then show ?thesis
    unfolding Let_def s_def [symmetric] h_def [symmetric] addr_def [symmetric] using s(1) r(1) by blast
qed

end
