(* ===== verification/CCol_Procs.thy ===== *)
theory CCol_Procs
  imports CCol_Prelude
begin

text \<open>
  The lock-free intern table of allocator procs in \<^verbatim>\<open>src/common.c\<close>
  (\<^verbatim>\<open>ccol_procs_intern\<close>).  Each thread that runs the function takes atomic steps
  over the shared table: a load of a slot's state, the compare-and-swap that
  claims a slot, the copy into it, the store that publishes it, and the comparison
  with a published copy.  The steps of all threads interleave freely.  An acquire
  load that sees a release store also sees the writes before it, so the
  interleaving of these steps is what the C11 orderings of the source give.
\<close>

section \<open>The table and the steps of a call\<close>

definition CCOL_PROCS_INTERN_CAPACITY :: nat where
  "CCOL_PROCS_INTERN_CAPACITY = 64"

datatype slot_state = SLOT_EMPTY | SLOT_WRITING | SLOT_READY

record intern_table =
  it_slots :: "procs list"
  it_state :: "slot_state list"

definition ccol_procs_same :: "procs \<Rightarrow> procs \<Rightarrow> bool" where
  "ccol_procs_same a b \<longleftrightarrow> p_malloc a = p_malloc b \<and> p_free a = p_free b \<and> p_calloc a = p_calloc b
     \<and> p_realloc a = p_realloc b"

text \<open>
  The argument of a call: null, or an address with the struct that lies there.
  The table starts at the address \<open>base\<close> and a struct has 32 bytes.
\<close>

type_synonym procs_arg = "(nat \<times> procs) option"

definition sizeof_procs :: nat where
  "sizeof_procs = 32"

definition ccol_procs_is_interned :: "nat \<Rightarrow> nat \<Rightarrow> bool" where
  "ccol_procs_is_interned base addr \<longleftrightarrow> base \<le> addr \<and> addr < base + sizeof_procs * CCOL_PROCS_INTERN_CAPACITY
     \<and> (addr - base) mod sizeof_procs = 0"

text \<open>The slot an address in the table points to.\<close>

definition slot_of :: "nat \<Rightarrow> nat \<Rightarrow> nat" where
  "slot_of base addr = (addr - base) div sizeof_procs"

text \<open>
  Where a call stands.  \<open>Returned rv out\<close> carries the return code and the slot
  that \<^verbatim>\<open>*out\<close> points to.
\<close>

datatype intern_pc =
    Enter procs_arg
  | Load procs nat
  | Claim procs nat
  | Copy procs nat
  | Publish procs nat
  | Wait procs nat
  | Compare procs nat
  | Returned ccol_retval "nat option"

text \<open>The next atomic step of a call; \<^term>\<open>None\<close> once it has returned.\<close>

definition ccol_procs_intern_step :: "nat \<Rightarrow> intern_table \<Rightarrow> intern_pc \<Rightarrow> (intern_table \<times> intern_pc) option" where
  "ccol_procs_intern_step base T pc =
     (case pc of
        Enter a \<Rightarrow>
          Some (T, case a of
                     None \<Rightarrow> Returned ccol_success None
                   | Some (addr, p) \<Rightarrow>
                       if ccol_procs_is_interned base addr then Returned ccol_success (Some (slot_of base addr))
                       else Load p 0)
      | Load want i \<Rightarrow>
          if i < CCOL_PROCS_INTERN_CAPACITY then
            Some (T, case it_state T ! i of
                       SLOT_EMPTY \<Rightarrow> Claim want i
                     | SLOT_WRITING \<Rightarrow> Wait want i
                     | SLOT_READY \<Rightarrow> Compare want i)
          else Some (T, Returned ccol_container_full None)
      | Claim want i \<Rightarrow>
          (case it_state T ! i of
             SLOT_EMPTY \<Rightarrow> Some (T\<lparr>it_state := (it_state T)[i := SLOT_WRITING]\<rparr>, Copy want i)
           | SLOT_WRITING \<Rightarrow> Some (T, Wait want i)
           | SLOT_READY \<Rightarrow> Some (T, Compare want i))
      | Copy want i \<Rightarrow> Some (T\<lparr>it_slots := (it_slots T)[i := want]\<rparr>, Publish want i)
      | Publish want i \<Rightarrow>
          Some (T\<lparr>it_state := (it_state T)[i := SLOT_READY]\<rparr>, Returned ccol_success (Some i))
      | Wait want i \<Rightarrow>
          if it_state T ! i = SLOT_READY then Some (T, Compare want i) else Some (T, Wait want i)
      | Compare want i \<Rightarrow>
          if ccol_procs_same (it_slots T ! i) want then Some (T, Returned ccol_success (Some i))
          else Some (T, Load want (i + 1))
      | Returned _ _ \<Rightarrow> None)"

definition intern_init :: intern_table where
  "intern_init = \<lparr>it_slots = replicate CCOL_PROCS_INTERN_CAPACITY \<lparr>p_malloc = 0, p_calloc = 0, p_realloc = 0, p_free = 0\<rparr>,
                  it_state = replicate CCOL_PROCS_INTERN_CAPACITY SLOT_EMPTY\<rparr>"

text \<open>
  A system: the table and its address, where the call of each thread stands, and
  the struct each thread is interning.  A thread starts its next call at any time
  after the last has returned; an argument in the table is a pointer that an
  earlier call gave out, so it lies on a published slot.
\<close>

record intern_sys =
  is_base :: nat
  is_table :: intern_table
  is_pc :: "nat \<Rightarrow> intern_pc"
  is_want :: "nat \<Rightarrow> procs option"

definition arg_want :: "nat \<Rightarrow> procs_arg \<Rightarrow> procs option" where
  "arg_want base a =
     (case a of None \<Rightarrow> None | Some (addr, p) \<Rightarrow> if ccol_procs_is_interned base addr then None else Some p)"

definition arg_given_out :: "nat \<Rightarrow> intern_table \<Rightarrow> procs_arg \<Rightarrow> bool" where
  "arg_given_out base T a =
     (case a of None \<Rightarrow> True
      | Some (addr, p) \<Rightarrow> ccol_procs_is_interned base addr \<longrightarrow> it_state T ! slot_of base addr = SLOT_READY)"

inductive intern_sys_step :: "intern_sys \<Rightarrow> intern_sys \<Rightarrow> bool" where
  work: "ccol_procs_intern_step (is_base s) (is_table s) (is_pc s t) = Some (T, pc) \<Longrightarrow>
     intern_sys_step s (s\<lparr>is_table := T, is_pc := (is_pc s)(t := pc)\<rparr>)"
| again: "is_pc s t = Returned rv out \<Longrightarrow> arg_given_out (is_base s) (is_table s) a \<Longrightarrow>
     intern_sys_step s (s\<lparr>is_pc := (is_pc s)(t := Enter a), is_want := (is_want s)(t := arg_want (is_base s) a)\<rparr>)"

definition intern_start :: "nat \<Rightarrow> intern_sys" where
  "intern_start base =
     \<lparr>is_base = base, is_table = intern_init, is_pc = (\<lambda>t. Returned ccol_success None), is_want = (\<lambda>t. None)\<rparr>"

inductive intern_reachable :: "intern_sys \<Rightarrow> bool" where
  start: "intern_reachable (intern_start base)"
| step: "intern_reachable s \<Longrightarrow> intern_sys_step s s' \<Longrightarrow> intern_reachable s'"

inductive_cases intern_stepE: "intern_sys_step s s'"

section \<open>The invariant\<close>

lemma procs_same_eq: "ccol_procs_same a b \<longleftrightarrow> a = b"
  by (cases a; cases b) (auto simp: ccol_procs_same_def)

text \<open>The struct a call is after and the slot it has come to, while it runs.\<close>

fun pc_at :: "intern_pc \<Rightarrow> (procs \<times> nat) option" where
  "pc_at (Load p i) = Some (p, i)"
| "pc_at (Claim p i) = Some (p, i)"
| "pc_at (Copy p i) = Some (p, i)"
| "pc_at (Publish p i) = Some (p, i)"
| "pc_at (Wait p i) = Some (p, i)"
| "pc_at (Compare p i) = Some (p, i)"
| "pc_at _ = None"

definition writes_slot :: "intern_pc \<Rightarrow> nat \<Rightarrow> bool" where
  "writes_slot pc i = (case pc of Copy _ j \<Rightarrow> j = i | Publish _ j \<Rightarrow> j = i | _ \<Rightarrow> False)"

definition table_ok :: "intern_table \<Rightarrow> bool" where
  "table_ok T \<longleftrightarrow> length (it_slots T) = CCOL_PROCS_INTERN_CAPACITY \<and> length (it_state T) = CCOL_PROCS_INTERN_CAPACITY
     \<and> (\<forall>i j. i < j \<and> j < CCOL_PROCS_INTERN_CAPACITY \<and> it_state T ! j \<noteq> SLOT_EMPTY \<longrightarrow> it_state T ! i = SLOT_READY)
     \<and> (\<forall>i j. i < j \<and> j < CCOL_PROCS_INTERN_CAPACITY \<and> it_state T ! j = SLOT_READY \<longrightarrow> it_slots T ! i \<noteq> it_slots T ! j)"

text \<open>What is known where a call of a thread stands.\<close>

definition passed :: "intern_table \<Rightarrow> procs \<Rightarrow> nat \<Rightarrow> bool" where
  "passed T want n \<longleftrightarrow> (\<forall>k < n. it_state T ! k = SLOT_READY \<and> it_slots T ! k \<noteq> want)"

definition pc_ok :: "nat \<Rightarrow> intern_table \<Rightarrow> procs option \<Rightarrow> intern_pc \<Rightarrow> bool" where
  "pc_ok base T w pc =
     (case pc of
        Enter a \<Rightarrow> w = arg_want base a \<and> arg_given_out base T a
      | Load p i \<Rightarrow> w = Some p \<and> i \<le> CCOL_PROCS_INTERN_CAPACITY \<and> passed T p i
      | Claim p i \<Rightarrow> w = Some p \<and> i < CCOL_PROCS_INTERN_CAPACITY \<and> passed T p i
      | Copy p i \<Rightarrow> w = Some p \<and> i < CCOL_PROCS_INTERN_CAPACITY \<and> passed T p i \<and> it_state T ! i = SLOT_WRITING
      | Publish p i \<Rightarrow> w = Some p \<and> i < CCOL_PROCS_INTERN_CAPACITY \<and> passed T p i \<and> it_state T ! i = SLOT_WRITING
          \<and> it_slots T ! i = p
      | Wait p i \<Rightarrow> w = Some p \<and> i < CCOL_PROCS_INTERN_CAPACITY \<and> passed T p i \<and> it_state T ! i \<noteq> SLOT_EMPTY
      | Compare p i \<Rightarrow> w = Some p \<and> i < CCOL_PROCS_INTERN_CAPACITY \<and> passed T p i \<and> it_state T ! i = SLOT_READY
      | Returned rv out \<Rightarrow>
          (case out of
             Some i \<Rightarrow> rv = ccol_success \<and> i < CCOL_PROCS_INTERN_CAPACITY \<and> it_state T ! i = SLOT_READY
               \<and> (\<forall>p. w = Some p \<longrightarrow> it_slots T ! i = p)
           | None \<Rightarrow> (case w of
               None \<Rightarrow> rv = ccol_success
             | Some p \<Rightarrow> rv = ccol_container_full \<and> passed T p CCOL_PROCS_INTERN_CAPACITY)))"

definition intern_inv :: "intern_sys \<Rightarrow> bool" where
  "intern_inv s \<longleftrightarrow> table_ok (is_table s) \<and> (\<forall>t. pc_ok (is_base s) (is_table s) (is_want s t) (is_pc s t))
     \<and> (\<forall>t u i. t \<noteq> u \<longrightarrow> writes_slot (is_pc s t) i \<longrightarrow> \<not> writes_slot (is_pc s u) i)
     \<and> (\<forall>i < CCOL_PROCS_INTERN_CAPACITY. it_state (is_table s) ! i = SLOT_WRITING \<longrightarrow> (\<exists>t. writes_slot (is_pc s t) i))"

text \<open>
  A published slot keeps its state and its copy, and a claimed slot stays claimed,
  so what a call knows survives the steps of the others.
\<close>

definition grows :: "intern_table \<Rightarrow> intern_table \<Rightarrow> bool" where
  "grows T T' \<longleftrightarrow> (\<forall>i. it_state T ! i = SLOT_READY \<longrightarrow> it_state T' ! i = SLOT_READY \<and> it_slots T' ! i = it_slots T ! i)
     \<and> (\<forall>i. it_state T ! i \<noteq> SLOT_EMPTY \<longrightarrow> it_state T' ! i \<noteq> SLOT_EMPTY)"

lemma grows_refl [simp]: "grows T T"
  by (simp add: grows_def)

lemma passed_grows: "grows T T' \<Longrightarrow> passed T p n \<Longrightarrow> passed T' p n"
  by (auto simp: grows_def passed_def)

lemma pc_ok_grows:
  assumes "grows T T'" "pc_ok base T w pc"
    and "\<And>i. writes_slot pc i \<Longrightarrow> it_state T' ! i = it_state T ! i \<and> it_slots T' ! i = it_slots T ! i"
  shows "pc_ok base T' w pc"
proof (cases pc)
  case (Returned rv out)
  then show ?thesis using assms(1,2) passed_grows [OF assms(1)]
    by (cases out; cases w) (auto simp: pc_ok_def grows_def)
next
  case (Enter a)
  then show ?thesis using assms(1,2) by (auto simp: pc_ok_def grows_def arg_given_out_def split: option.splits)
qed (use assms passed_grows [OF assms(1)] in \<open>auto simp: pc_ok_def grows_def writes_slot_def\<close>)

lemma claim_step_table:
  assumes T: "table_ok T" and i: "i < CCOL_PROCS_INTERN_CAPACITY" "it_state T ! i = SLOT_EMPTY" and p: "passed T want i"
  shows "table_ok (T\<lparr>it_state := (it_state T)[i := SLOT_WRITING]\<rparr>)"
    "grows T (T\<lparr>it_state := (it_state T)[i := SLOT_WRITING]\<rparr>)"
proof -
  have l: "i < length (it_state T)" using T i by (simp add: table_ok_def)
  show "grows T (T\<lparr>it_state := (it_state T)[i := SLOT_WRITING]\<rparr>)" using l i(2) by (auto simp: grows_def nth_list_update)
  have above: "it_state T ! j = SLOT_EMPTY" if "i < j" "j < CCOL_PROCS_INTERN_CAPACITY" for j
    using T that i(2) unfolding table_ok_def by (metis slot_state.distinct(3))
  show "table_ok (T\<lparr>it_state := (it_state T)[i := SLOT_WRITING]\<rparr>)"
    using T l p above by (auto simp: table_ok_def nth_list_update passed_def)
qed

lemma copy_step_table:
  assumes T: "table_ok T" and i: "i < CCOL_PROCS_INTERN_CAPACITY" "it_state T ! i = SLOT_WRITING" and p: "passed T want i"
  shows "table_ok (T\<lparr>it_slots := (it_slots T)[i := want]\<rparr>)" "grows T (T\<lparr>it_slots := (it_slots T)[i := want]\<rparr>)"
proof -
  have l: "i < length (it_slots T)" using T i by (simp add: table_ok_def)
  show "grows T (T\<lparr>it_slots := (it_slots T)[i := want]\<rparr>)" using l i(2) by (auto simp: grows_def nth_list_update)
  have above: "it_state T ! j = SLOT_EMPTY" if "i < j" "j < CCOL_PROCS_INTERN_CAPACITY" for j
    using T that i(2) unfolding table_ok_def by (metis slot_state.distinct(5))
  show "table_ok (T\<lparr>it_slots := (it_slots T)[i := want]\<rparr>)"
    using T l i(2) above by (auto simp: table_ok_def nth_list_update)
qed

lemma publish_step_table:
  assumes T: "table_ok T" and i: "i < CCOL_PROCS_INTERN_CAPACITY" "it_state T ! i = SLOT_WRITING" and p: "passed T (it_slots T ! i) i"
  shows "table_ok (T\<lparr>it_state := (it_state T)[i := SLOT_READY]\<rparr>)" "grows T (T\<lparr>it_state := (it_state T)[i := SLOT_READY]\<rparr>)"
proof -
  have l: "i < length (it_state T)" using T i by (simp add: table_ok_def)
  show "grows T (T\<lparr>it_state := (it_state T)[i := SLOT_READY]\<rparr>)" using l i(2) by (auto simp: grows_def nth_list_update)
  have above: "it_state T ! j = SLOT_EMPTY" if "i < j" "j < CCOL_PROCS_INTERN_CAPACITY" for j
    using T that i(2) unfolding table_ok_def by (metis slot_state.distinct(5))
  show "table_ok (T\<lparr>it_state := (it_state T)[i := SLOT_READY]\<rparr>)"
    using T l p above by (auto simp: table_ok_def nth_list_update passed_def)
qed


text \<open>One step of a call: what it leaves in the table and what it touches.\<close>

definition step_ok :: "nat \<Rightarrow> procs option \<Rightarrow> intern_table \<Rightarrow> intern_pc \<Rightarrow> intern_table \<Rightarrow> intern_pc \<Rightarrow> bool" where
  "step_ok base w T pc T' pc' \<longleftrightarrow>
     table_ok T' \<and> grows T T' \<and> pc_ok base T' w pc'
     \<and> (\<forall>i. writes_slot pc' i \<longrightarrow> writes_slot pc i \<or> it_state T ! i = SLOT_EMPTY)
     \<and> (\<forall>i. it_state T ! i = SLOT_WRITING \<and> \<not> writes_slot pc i \<longrightarrow>
           it_state T' ! i = it_state T ! i \<and> it_slots T' ! i = it_slots T ! i)
     \<and> (\<forall>i. it_state T' ! i = SLOT_WRITING \<longrightarrow> writes_slot pc' i \<or> it_state T ! i = SLOT_WRITING \<and> \<not> writes_slot pc i)"

lemma slot_of_less: "ccol_procs_is_interned base addr \<Longrightarrow> slot_of base addr < CCOL_PROCS_INTERN_CAPACITY"
  by (auto simp: ccol_procs_is_interned_def slot_of_def sizeof_procs_def CCOL_PROCS_INTERN_CAPACITY_def)

lemma enter_step_ok:
  assumes "table_ok T" "pc_ok base T w (Enter a)" "ccol_procs_intern_step base T (Enter a) = Some (T', pc')"
  shows "step_ok base w T (Enter a) T' pc'"
  using assms slot_of_less
  by (auto simp: ccol_procs_intern_step_def pc_ok_def arg_want_def arg_given_out_def step_ok_def writes_slot_def passed_def
      split: option.splits if_splits)

lemma load_step_ok:
  assumes "table_ok T" "pc_ok base T w (Load p i)" "ccol_procs_intern_step base T (Load p i) = Some (T', pc')"
  shows "step_ok base w T (Load p i) T' pc'"
  using assms
  by (cases "it_state T ! i")
     (auto simp: ccol_procs_intern_step_def pc_ok_def step_ok_def writes_slot_def split: if_splits)

lemma claim_step_ok:
  assumes T: "table_ok T" and ok: "pc_ok base T w (Claim p i)"
    and st: "ccol_procs_intern_step base T (Claim p i) = Some (T', pc')"
  shows "step_ok base w T (Claim p i) T' pc'"
proof (cases "it_state T ! i")
  case SLOT_EMPTY
  have i: "i < CCOL_PROCS_INTERN_CAPACITY" "passed T p i" "w = Some p" using ok by (auto simp: pc_ok_def)
  have l: "i < length (it_state T)" using T i by (simp add: table_ok_def)
  show ?thesis
    using claim_step_table [OF T i(1) SLOT_EMPTY i(2)] st SLOT_EMPTY i l passed_grows [OF claim_step_table(2) [OF T i(1) SLOT_EMPTY i(2)] i(2)]
    by (auto simp: ccol_procs_intern_step_def step_ok_def pc_ok_def writes_slot_def nth_list_update split: if_splits)
qed (use assms in \<open>auto simp: ccol_procs_intern_step_def pc_ok_def step_ok_def writes_slot_def\<close>)

lemma copy_step_ok:
  assumes T: "table_ok T" and ok: "pc_ok base T w (Copy p i)"
    and st: "ccol_procs_intern_step base T (Copy p i) = Some (T', pc')"
  shows "step_ok base w T (Copy p i) T' pc'"
proof -
  have i: "i < CCOL_PROCS_INTERN_CAPACITY" "passed T p i" "w = Some p" "it_state T ! i = SLOT_WRITING" using ok by (auto simp: pc_ok_def)
  have l: "i < length (it_slots T)" using T i by (simp add: table_ok_def)
  show ?thesis
    using copy_step_table [OF T i(1,4,2)] st i l passed_grows [OF copy_step_table(2) [OF T i(1,4,2)] i(2)]
    by (auto simp: ccol_procs_intern_step_def step_ok_def pc_ok_def writes_slot_def nth_list_update split: if_splits)
qed

lemma publish_step_ok:
  assumes T: "table_ok T" and ok: "pc_ok base T w (Publish p i)"
    and st: "ccol_procs_intern_step base T (Publish p i) = Some (T', pc')"
  shows "step_ok base w T (Publish p i) T' pc'"
proof -
  have i: "i < CCOL_PROCS_INTERN_CAPACITY" "passed T (it_slots T ! i) i" "w = Some p" "it_state T ! i = SLOT_WRITING" "it_slots T ! i = p"
    using ok by (auto simp: pc_ok_def)
  have l: "i < length (it_state T)" using T i by (simp add: table_ok_def)
  show ?thesis
    using publish_step_table [OF T i(1,4,2)] st i l
    by (auto simp: ccol_procs_intern_step_def step_ok_def pc_ok_def writes_slot_def nth_list_update split: if_splits)
qed

lemma compare_step_ok:
  assumes "table_ok T" "pc_ok base T w (Compare p i)" "ccol_procs_intern_step base T (Compare p i) = Some (T', pc')"
  shows "step_ok base w T (Compare p i) T' pc'"
  using assms
  by (auto simp: ccol_procs_intern_step_def pc_ok_def step_ok_def writes_slot_def procs_same_eq passed_def less_Suc_eq
      split: if_splits)

lemma wait_step_ok:
  assumes "table_ok T" "pc_ok base T w (Wait p i)" "ccol_procs_intern_step base T (Wait p i) = Some (T', pc')"
  shows "step_ok base w T (Wait p i) T' pc'"
  using assms by (auto simp: ccol_procs_intern_step_def pc_ok_def step_ok_def writes_slot_def split: if_splits)

lemma own_step_ok:
  assumes "table_ok T" "pc_ok base T w pc" "ccol_procs_intern_step base T pc = Some (T', pc')"
  shows "step_ok base w T pc T' pc'"
  using assms enter_step_ok load_step_ok claim_step_ok copy_step_ok publish_step_ok compare_step_ok wait_step_ok
  by (cases pc) (auto simp: ccol_procs_intern_step_def [of _ _ "Returned _ _"])

lemma intern_inv_work:
  assumes inv: "intern_inv s" and st: "ccol_procs_intern_step (is_base s) (is_table s) (is_pc s t) = Some (T', pc')"
  shows "intern_inv (s\<lparr>is_table := T', is_pc := (is_pc s)(t := pc')\<rparr>)" "grows (is_table s) T'"
proof -
  let ?T = "is_table s"
  have T: "table_ok ?T" and pcs: "\<And>u. pc_ok (is_base s) ?T (is_want s u) (is_pc s u)"
    and one: "\<And>u v i. u \<noteq> v \<Longrightarrow> writes_slot (is_pc s u) i \<Longrightarrow> \<not> writes_slot (is_pc s v) i"
    and wr: "\<And>i. i < CCOL_PROCS_INTERN_CAPACITY \<Longrightarrow> it_state ?T ! i = SLOT_WRITING \<Longrightarrow> \<exists>u. writes_slot (is_pc s u) i"
    using inv by (auto simp: intern_inv_def)
  have ok: "step_ok (is_base s) (is_want s t) ?T (is_pc s t) T' pc'" by (rule own_step_ok [OF T pcs st])
  show g: "grows ?T T'" using ok by (simp add: step_ok_def)
  have writing: "it_state ?T ! i = SLOT_WRITING" if "writes_slot (is_pc s u) i" for u i
    using pcs [of u] that by (auto simp: writes_slot_def pc_ok_def split: intern_pc.splits)
  have other: "pc_ok (is_base s) T' (is_want s u) (is_pc s u)" if "u \<noteq> t" for u
  proof (rule pc_ok_grows [OF g pcs])
    fix i assume w: "writes_slot (is_pc s u) i"
    then show "it_state T' ! i = it_state ?T ! i \<and> it_slots T' ! i = it_slots ?T ! i"
      using ok writing [OF w] one [OF that w] by (simp add: step_ok_def)
  qed
  have excl: "\<not> writes_slot pc' i" if "t \<noteq> u" "writes_slot (is_pc s u) i" for u i
    using ok writing [OF that(2)] one [OF that(1) [symmetric] that(2)] by (auto simp: step_ok_def)
  have writer: "\<exists>u. writes_slot (((is_pc s)(t := pc')) u) i"
    if i: "i < CCOL_PROCS_INTERN_CAPACITY" "it_state T' ! i = SLOT_WRITING" for i
  proof (cases "writes_slot pc' i")
    case False
    then have "it_state ?T ! i = SLOT_WRITING" "\<not> writes_slot (is_pc s t) i" using ok i(2) by (auto simp: step_ok_def)
    then show ?thesis using wr [OF i(1)] by (metis fun_upd_other)
  qed (auto intro: exI [of _ t])
  show "intern_inv (s\<lparr>is_table := T', is_pc := (is_pc s)(t := pc')\<rparr>)"
    unfolding intern_inv_def using ok other excl excl [OF not_sym] writer one by (auto simp: step_ok_def)
qed

lemma intern_inv_again:
  assumes inv: "intern_inv s" and ret: "is_pc s t = Returned rv out" and a: "arg_given_out (is_base s) (is_table s) a"
  shows "intern_inv (s\<lparr>is_pc := (is_pc s)(t := Enter a), is_want := (is_want s)(t := arg_want (is_base s) a)\<rparr>)"
proof -
  have no: "\<not> writes_slot (is_pc s t) i" "\<not> writes_slot (Enter a) i" for i using ret by (auto simp: writes_slot_def)
  have "\<exists>u. writes_slot (((is_pc s)(t := Enter a)) u) i"
    if "i < CCOL_PROCS_INTERN_CAPACITY" "it_state (is_table s) ! i = SLOT_WRITING" for i
    using inv that no by (metis fun_upd_other intern_inv_def)
  then show ?thesis using inv a no by (auto simp: intern_inv_def pc_ok_def [of _ _ _ "Enter a"])
qed

lemma intern_step_inv:
  assumes "intern_sys_step s s'" "intern_inv s"
  shows "intern_inv s'" "grows (is_table s) (is_table s')"
proof -
  have "intern_inv s' \<and> grows (is_table s) (is_table s')" using assms
    by (cases rule: intern_sys_step.cases) (auto intro: intern_inv_work intern_inv_again)
  then show "intern_inv s'" "grows (is_table s) (is_table s')" by auto
qed

lemma intern_start_inv: "intern_inv (intern_start base)"
  by (auto simp: intern_inv_def intern_start_def intern_init_def table_ok_def pc_ok_def writes_slot_def)

lemma intern_reachable_inv: "intern_reachable s \<Longrightarrow> intern_inv s"
  by (induction rule: intern_reachable.induct) (auto intro: intern_start_inv intern_step_inv)

lemma grows_trans: "grows T T' \<Longrightarrow> grows T' T'' \<Longrightarrow> grows T T''"
  by (auto simp: grows_def)

lemma intern_steps_inv:
  "intern_sys_step\<^sup>*\<^sup>* s s' \<Longrightarrow> intern_inv s \<Longrightarrow> intern_inv s' \<and> grows (is_table s) (is_table s')"
  by (induction rule: rtranclp_induct) (auto intro: grows_trans intern_step_inv)

section \<open>Progress\<close>

text \<open>The steps a call has left when it never waits.\<close>

fun pc_left :: "intern_pc \<Rightarrow> nat" where
  "pc_left (Enter a) = 4 * (CCOL_PROCS_INTERN_CAPACITY + 2)"
| "pc_left (Load p i) = 4 * (CCOL_PROCS_INTERN_CAPACITY + 1 - i) + 1"
| "pc_left (Claim p i) = 4 * (CCOL_PROCS_INTERN_CAPACITY + 1 - i)"
| "pc_left (Wait p i) = 4 * (CCOL_PROCS_INTERN_CAPACITY + 1 - i) - 1"
| "pc_left (Compare p i) = 4 * (CCOL_PROCS_INTERN_CAPACITY + 1 - i) - 2"
| "pc_left (Copy p i) = 2"
| "pc_left (Publish p i) = 1"
| "pc_left (Returned rv out) = 0"

definition stuck_waiting :: "intern_table \<Rightarrow> intern_pc \<Rightarrow> bool" where
  "stuck_waiting T pc = (case pc of Wait p i \<Rightarrow> it_state T ! i \<noteq> SLOT_READY | _ \<Rightarrow> False)"

lemma own_step_left:
  assumes "pc_ok base T w pc" "ccol_procs_intern_step base T pc = Some (T', pc')" "\<not> stuck_waiting T pc"
  shows "pc_left pc' < pc_left pc"
  using assms
  by (cases pc)
     (auto simp: ccol_procs_intern_step_def pc_ok_def stuck_waiting_def CCOL_PROCS_INTERN_CAPACITY_def
       split: option.splits if_splits slot_state.splits)

lemma own_step_exists: "(\<nexists>rv out. pc = Returned rv out) \<Longrightarrow> \<exists>T' pc'. ccol_procs_intern_step base T pc = Some (T', pc')"
  by (cases pc) (auto simp: ccol_procs_intern_step_def split: slot_state.splits)

lemma writer_finishes:
  assumes inv: "intern_inv s" and i: "i < CCOL_PROCS_INTERN_CAPACITY" "it_state (is_table s) ! i = SLOT_WRITING"
    and t: "\<not> writes_slot (is_pc s t) i"
  shows "\<exists>s'. intern_sys_step\<^sup>*\<^sup>* s s' \<and> it_state (is_table s') ! i = SLOT_READY
     \<and> is_pc s' t = is_pc s t \<and> is_want s' t = is_want s t"
proof -
  have l: "i < length (it_state (is_table s))" using inv i by (simp add: intern_inv_def table_ok_def)
  obtain u where u: "writes_slot (is_pc s u) i" using inv i by (auto simp: intern_inv_def)
  then have ut: "u \<noteq> t" using t by auto
  have pub: "\<exists>s'. intern_sys_step\<^sup>*\<^sup>* r s' \<and> it_state (is_table s') ! i = SLOT_READY
      \<and> is_pc s' t = is_pc r t \<and> is_want s' t = is_want r t"
    if "is_pc r u = Publish p i" "i < length (it_state (is_table r))" for r p
  proof (intro exI conjI)
    let ?T = "(is_table r)\<lparr>it_state := (it_state (is_table r))[i := SLOT_READY]\<rparr>"
    let ?s = "r\<lparr>is_table := ?T, is_pc := (is_pc r)(u := Returned ccol_success (Some i))\<rparr>"
    have "intern_sys_step r ?s" using that(1) by (intro intern_sys_step.work) (simp add: ccol_procs_intern_step_def)
    then show "intern_sys_step\<^sup>*\<^sup>* r ?s" by simp
    show "it_state (is_table ?s) ! i = SLOT_READY" "is_pc ?s t = is_pc r t" "is_want ?s t = is_want r t"
      using that(2) ut by auto
  qed
  consider p where "is_pc s u = Copy p i" | p where "is_pc s u = Publish p i"
    using u by (auto simp: writes_slot_def split: intern_pc.splits)
  then show ?thesis
  proof cases
    case 1
    let ?r = "s\<lparr>is_table := (is_table s)\<lparr>it_slots := (it_slots (is_table s))[i := p]\<rparr>, is_pc := (is_pc s)(u := Publish p i)\<rparr>"
    have "intern_sys_step s ?r" using 1 by (intro intern_sys_step.work) (simp add: ccol_procs_intern_step_def)
    then show ?thesis using pub [of ?r p] l ut by (auto intro: converse_rtranclp_into_rtranclp)
  next
    case 2
    then show ?thesis using pub l by blast
  qed
qed

lemma call_can_return:
  "intern_inv s \<Longrightarrow> \<exists>s' rv out. intern_sys_step\<^sup>*\<^sup>* s s' \<and> is_pc s' t = Returned rv out \<and> is_want s' t = is_want s t"
proof (induction "pc_left (is_pc s t)" arbitrary: s rule: less_induct)
  case less
  have go: ?case if r: "intern_sys_step\<^sup>*\<^sup>* s r" "is_pc r t = is_pc s t" "is_want r t = is_want s t" and free: "\<not> stuck_waiting (is_table r) (is_pc r t)"
    and run: "\<nexists>rv out. is_pc s t = Returned rv out" for r
  proof -
    have inv: "intern_inv r" using intern_steps_inv [OF r(1) less.prems] by simp
    obtain T' pc' where st: "ccol_procs_intern_step (is_base r) (is_table r) (is_pc r t) = Some (T', pc')"
      using own_step_exists run r(2) by metis
    let ?q = "r\<lparr>is_table := T', is_pc := (is_pc r)(t := pc')\<rparr>"
    have q: "intern_sys_step r ?q" by (rule intern_sys_step.work [OF st])
    have "pc_ok (is_base r) (is_table r) (is_want r t) (is_pc r t)" using inv by (simp add: intern_inv_def)
    from own_step_left [OF this st free] have "pc_left (is_pc ?q t) < pc_left (is_pc s t)" using r(2) by simp
    from less.hyps [OF this intern_inv_work(1) [OF inv st]] show ?case
      using r(1,3) q by simp (meson rtranclp.rtrancl_into_rtrancl rtranclp_trans)
  qed
  consider "\<exists>rv out. is_pc s t = Returned rv out" | "\<nexists>rv out. is_pc s t = Returned rv out" "\<not> stuck_waiting (is_table s) (is_pc s t)"
    | p i where "is_pc s t = Wait p i" "it_state (is_table s) ! i \<noteq> SLOT_READY"
    by (cases "is_pc s t") (auto simp: stuck_waiting_def)
  then show ?case
  proof cases
    case 3
    have ok: "pc_ok (is_base s) (is_table s) (is_want s t) (is_pc s t)" using less.prems by (simp add: intern_inv_def)
    then have i: "i < CCOL_PROCS_INTERN_CAPACITY" "it_state (is_table s) ! i = SLOT_WRITING"
      using 3 by (auto simp: pc_ok_def intro: slot_state.exhaust)
    have "\<not> writes_slot (is_pc s t) i" using 3 by (simp add: writes_slot_def)
    from writer_finishes [OF less.prems i this] obtain r where
      "intern_sys_step\<^sup>*\<^sup>* s r" "it_state (is_table r) ! i = SLOT_READY" "is_pc r t = is_pc s t"
      "is_want r t = is_want s t" by blast
    then show ?thesis using go 3 by (simp add: stuck_waiting_def)
  qed (use go in blast)+
qed

section \<open>The contract\<close>

lemma returned_slot:
  assumes "intern_inv s" "is_pc s t = Returned rv (Some i)" "is_want s t = Some p"
  shows "i < CCOL_PROCS_INTERN_CAPACITY" "it_state (is_table s) ! i = SLOT_READY" "it_slots (is_table s) ! i = p"
proof -
  have "pc_ok (is_base s) (is_table s) (is_want s t) (is_pc s t)" using assms(1) by (simp add: intern_inv_def)
  then show "i < CCOL_PROCS_INTERN_CAPACITY" "it_state (is_table s) ! i = SLOT_READY" "it_slots (is_table s) ! i = p"
    using assms(2,3) by (auto simp: pc_ok_def)
qed

lemma ready_slots_distinct:
  assumes "table_ok T" "i < CCOL_PROCS_INTERN_CAPACITY" "j < CCOL_PROCS_INTERN_CAPACITY"
    "it_state T ! i = SLOT_READY" "it_state T ! j = SLOT_READY" "it_slots T ! i = it_slots T ! j"
  shows "i = j"
  using assms by (metis linorder_neqE_nat table_ok_def)

text \<open>
  Claim C17.  Any number of threads intern structs at the same time, in every
  interleaving.  A call that returned a slot for a struct and any call that returns
  one later, in the same or another thread, got the same slot exactly when their
  structs have the same four functions; and the slot of the first still holds that
  struct, published.
\<close>

theorem intern_one_slot_per_content:
  assumes "intern_reachable s" "intern_sys_step\<^sup>*\<^sup>* s s'"
    and "is_pc s t = Returned rv (Some i)" "is_want s t = Some p"
    and "is_pc s' u = Returned rv' (Some j)" "is_want s' u = Some q"
  shows "(i = j \<longleftrightarrow> p = q) \<and> it_state (is_table s') ! i = SLOT_READY \<and> it_slots (is_table s') ! i = p"
proof -
  have inv: "intern_inv s" "intern_inv s'" "grows (is_table s) (is_table s')"
    using intern_reachable_inv [OF assms(1)] intern_steps_inv [OF assms(2)] by auto
  note i = returned_slot [OF inv(1) assms(3,4)] and j = returned_slot [OF inv(2) assms(5,6)]
  have st: "it_state (is_table s') ! i = SLOT_READY" and sl: "it_slots (is_table s') ! i = p"
    using inv(3) i by (auto simp: grows_def)
  have "table_ok (is_table s')" using inv(2) by (simp add: intern_inv_def)
  then show ?thesis using ready_slots_distinct i(1) j st sl by blast
qed

text \<open>
  A concrete run: two threads enter with structs of different content, the first
  claims slot 0 and the second waits for it; the first publishes and returns, the
  second goes on to slot 1.
\<close>

definition wit_procs :: "nat \<Rightarrow> procs" where
  "wit_procs n = \<lparr>p_malloc = n, p_calloc = n, p_realloc = n, p_free = n\<rparr>"

definition run_step :: "intern_sys \<Rightarrow> nat \<Rightarrow> intern_sys" where
  "run_step s t = (case ccol_procs_intern_step (is_base s) (is_table s) (is_pc s t) of
     Some (T, pc) \<Rightarrow> s\<lparr>is_table := T, is_pc := (is_pc s)(t := pc)\<rparr> | None \<Rightarrow> s)"

definition call_step :: "nat \<times> nat \<Rightarrow> intern_sys \<Rightarrow> intern_sys" where
  "call_step c s = s\<lparr>is_pc := (is_pc s)(fst c := Enter (Some (0, wit_procs (snd c)))),
     is_want := (is_want s)(fst c := arg_want (is_base s) (Some (0, wit_procs (snd c))))\<rparr>"

lemma run_steps: "intern_sys_step\<^sup>*\<^sup>* s (foldl run_step s ts)"
proof (induction ts rule: rev_induct)
  case (snoc t ts)
  let ?s = "foldl run_step s ts"
  have "?s = run_step ?s t \<or> intern_sys_step ?s (run_step ?s t)"
    by (auto simp: run_step_def intro: intern_sys_step.work split: option.splits)
  then show ?case using snoc by (auto intro: rtranclp.rtrancl_into_rtrancl)
qed simp

lemma call_steps:
  "0 < is_base s \<Longrightarrow> is_pc s (fst c) = Returned rv out \<Longrightarrow> intern_sys_step s (call_step c s)"
  unfolding call_step_def by (intro intern_sys_step.again) (auto simp: arg_given_out_def ccol_procs_is_interned_def)

lemma reachable_steps: "intern_sys_step\<^sup>*\<^sup>* s s' \<Longrightarrow> intern_reachable s \<Longrightarrow> intern_reachable s'"
  by (induction rule: rtranclp_induct) (auto intro: intern_reachable.step)

definition wit_called :: intern_sys where
  "wit_called = call_step (1, 9) (call_step (0, 7) (intern_start 4096))"

definition wit_claimed :: intern_sys where
  "wit_claimed = foldl run_step wit_called [0, 1, 0, 0, 1]"

definition wit_first :: intern_sys where
  "wit_first = foldl run_step wit_claimed [0, 0]"

definition wit_second :: intern_sys where
  "wit_second = foldl run_step wit_first [1, 1, 1, 1, 1, 1]"

lemma wit_reachable:
  "intern_reachable wit_claimed" "intern_reachable wit_first" "intern_sys_step\<^sup>*\<^sup>* wit_first wit_second"
proof -
  have "intern_sys_step (intern_start 4096) (call_step (0, 7) (intern_start 4096))"
    by (rule call_steps) (auto simp: intern_start_def)
  moreover have "intern_sys_step (call_step (0, 7) (intern_start 4096)) wit_called"
    unfolding wit_called_def by (rule call_steps) (auto simp: intern_start_def call_step_def)
  ultimately have "intern_reachable wit_called" by (meson intern_reachable.intros)
  then show c: "intern_reachable wit_claimed" unfolding wit_claimed_def by (rule reachable_steps [OF run_steps])
  show "intern_reachable wit_first" unfolding wit_first_def by (rule reachable_steps [OF run_steps c])
  show "intern_sys_step\<^sup>*\<^sup>* wit_first wit_second" unfolding wit_second_def by (rule run_steps)
qed

lemmas wit_run_simps = run_step_def call_step_def intern_start_def ccol_procs_intern_step_def
  intern_init_def ccol_procs_is_interned_def sizeof_procs_def CCOL_PROCS_INTERN_CAPACITY_def arg_want_def wit_procs_def ccol_procs_same_def

lemma wit_claimed_state:
  "is_base wit_claimed = 4096" "is_pc wit_claimed 0 = Copy (wit_procs 7) 0" "is_pc wit_claimed (Suc 0) = Wait (wit_procs 9) 0"
  "is_want wit_claimed 0 = Some (wit_procs 7)" "is_want wit_claimed (Suc 0) = Some (wit_procs 9)"
  "is_table wit_claimed = intern_init\<lparr>it_state := (it_state intern_init)[0 := SLOT_WRITING]\<rparr>"
  by (simp_all add: wit_claimed_def wit_called_def wit_run_simps)

lemma wit_second_state:
  "is_pc wit_first 0 = Returned ccol_success (Some 0)" "is_want wit_first 0 = Some (wit_procs 7)"
  "is_pc wit_second (Suc 0) = Returned ccol_success (Some (Suc 0))" "is_want wit_second (Suc 0) = Some (wit_procs 9)"
  by (simp_all add: wit_second_def wit_first_def wit_claimed_state run_step_def ccol_procs_intern_step_def
    intern_init_def CCOL_PROCS_INTERN_CAPACITY_def wit_procs_def ccol_procs_same_def)

theorem intern_one_slot_per_content_witness:
  "((0::nat) = Suc 0 \<longleftrightarrow> wit_procs 7 = wit_procs 9) \<and> it_slots (is_table wit_second) ! 0 = wit_procs 7"
  using intern_one_slot_per_content [OF wit_reachable(2,3) wit_second_state] by blast

text \<open>
  Claim C38.  The claimed slots are a prefix of the table, at most one of them is
  being written, and the plain accesses to a slot never race: while a thread is
  about to copy into a slot no other thread writes it or is about to compare it.
\<close>

theorem intern_race_free:
  assumes "intern_reachable s" "is_pc s t = Copy p i"
  shows "(\<forall>u q. u \<noteq> t \<longrightarrow> \<not> writes_slot (is_pc s u) i \<and> is_pc s u \<noteq> Compare q i)
     \<and> (\<forall>k < i. it_state (is_table s) ! k = SLOT_READY)
     \<and> (\<forall>k. i < k \<and> k < CCOL_PROCS_INTERN_CAPACITY \<longrightarrow> it_state (is_table s) ! k = SLOT_EMPTY)"
proof -
  have inv: "intern_inv s" by (rule intern_reachable_inv [OF assms(1)])
  have pcs: "pc_ok (is_base s) (is_table s) (is_want s u) (is_pc s u)" for u using inv by (simp add: intern_inv_def)
  have i: "i < CCOL_PROCS_INTERN_CAPACITY" "it_state (is_table s) ! i = SLOT_WRITING" "passed (is_table s) p i"
    using pcs [of t] assms(2) by (auto simp: pc_ok_def)
  have "writes_slot (is_pc s t) i" using assms(2) by (simp add: writes_slot_def)
  then have "\<not> writes_slot (is_pc s u) i" if "u \<noteq> t" for u
    using inv that unfolding intern_inv_def by blast
  moreover have "is_pc s u \<noteq> Compare q i" for u q
    using pcs [of u] i(2) by (auto simp: pc_ok_def)
  moreover have "it_state (is_table s) ! k = SLOT_EMPTY" if "i < k" "k < CCOL_PROCS_INTERN_CAPACITY" for k
    using inv i(2) that unfolding intern_inv_def table_ok_def by (metis slot_state.distinct(5))
  ultimately show ?thesis using i(3) by (simp add: passed_def)
qed

theorem intern_race_free_witness:
  "\<not> writes_slot (is_pc wit_claimed (Suc 0)) 0 \<and> it_state (is_table wit_claimed) ! 5 = SLOT_EMPTY"
  using intern_race_free [OF wit_reachable(1) wit_claimed_state(2)] by (simp add: CCOL_PROCS_INTERN_CAPACITY_def)

text \<open>
  A call reports a full table only when all 64 slots hold published,
  pairwise different structs, none of which is the one it was given; a call with a
  struct that succeeds always gives a slot.
\<close>

theorem intern_full_only_when_full:
  assumes "intern_reachable s" "is_pc s t = Returned rv None" "is_want s t = Some p"
  shows "rv = ccol_container_full \<and> card (set (it_slots (is_table s))) = CCOL_PROCS_INTERN_CAPACITY
     \<and> p \<notin> set (it_slots (is_table s))"
proof -
  have inv: "table_ok (is_table s)" "pc_ok (is_base s) (is_table s) (is_want s t) (is_pc s t)"
    using intern_reachable_inv [OF assms(1)] by (auto simp: intern_inv_def)
  then have full: "rv = ccol_container_full" "passed (is_table s) p CCOL_PROCS_INTERN_CAPACITY"
    using assms(2,3) by (auto simp: pc_ok_def)
  have len: "length (it_slots (is_table s)) = CCOL_PROCS_INTERN_CAPACITY" using inv by (simp add: table_ok_def)
  then have "distinct (it_slots (is_table s))"
    using ready_slots_distinct [OF inv(1)] full(2) by (auto simp: distinct_conv_nth passed_def)
  then have "card (set (it_slots (is_table s))) = CCOL_PROCS_INTERN_CAPACITY" using len distinct_card by metis
  moreover have "p \<notin> set (it_slots (is_table s))" using full(2) len by (auto simp: passed_def in_set_conv_nth)
  ultimately show ?thesis using full(1) by simp
qed

text \<open>A run of calls that fills the table.\<close>

definition some_call_full :: "intern_sys \<Rightarrow> bool" where
  "some_call_full s \<longleftrightarrow> intern_reachable s \<and> (\<exists>rv p. is_pc s 0 = Returned rv None \<and> is_want s 0 = Some p)"

definition holds_contents :: "intern_sys \<Rightarrow> nat \<Rightarrow> bool" where
  "holds_contents s n \<longleftrightarrow> intern_reachable s \<and> 0 < is_base s \<and> (\<exists>rv out. is_pc s 0 = Returned rv out)
     \<and> (\<forall>k < n. \<exists>i < CCOL_PROCS_INTERN_CAPACITY. it_state (is_table s) ! i = SLOT_READY \<and> it_slots (is_table s) ! i = wit_procs k)"

lemma steps_keep_base: "intern_sys_step\<^sup>*\<^sup>* s s' \<Longrightarrow> is_base s' = is_base s"
  by (induction rule: rtranclp_induct) (auto elim: intern_stepE)

lemma next_content:
  assumes "holds_contents s n"
  shows "\<exists>s'. some_call_full s' \<or> holds_contents s' (Suc n)"
proof -
  obtain rv out where r: "is_pc s 0 = Returned rv out" "intern_reachable s" "0 < is_base s" using assms by (auto simp: holds_contents_def)
  let ?c = "call_step (0, n) s"
  have c: "intern_sys_step s ?c" using r call_steps by simp
  then have "intern_reachable ?c" using r(2) by (rule intern_reachable.step [rotated])
  then obtain s' rv out where s': "intern_sys_step\<^sup>*\<^sup>* ?c s'" "is_pc s' 0 = Returned rv out" "is_want s' 0 = is_want ?c 0"
    using call_can_return intern_reachable_inv by blast
  have w: "is_want s' 0 = Some (wit_procs n)" using s'(3) r(3) by (simp add: call_step_def arg_want_def ccol_procs_is_interned_def)
  have reach: "intern_reachable s'" using s'(1) \<open>intern_reachable ?c\<close> by (rule reachable_steps)
  have steps: "intern_sys_step\<^sup>*\<^sup>* s s'" using c s'(1) by (rule converse_rtranclp_into_rtranclp)
  show ?thesis
  proof (cases out)
    case None
    then show ?thesis using reach s'(2) w by (auto simp: some_call_full_def)
  next
    case (Some i)
    have "grows (is_table s) (is_table s')" using intern_steps_inv [OF steps] intern_reachable_inv [OF r(2)] by simp
    then have "holds_contents s' (Suc n)"
      using assms reach s'(2) steps_keep_base [OF steps] Some returned_slot [OF intern_reachable_inv [OF reach] _ w]
      unfolding holds_contents_def grows_def less_Suc_eq by metis
    then show ?thesis by blast
  qed
qed

lemma fill_table: "\<exists>s. some_call_full s \<or> holds_contents s n"
proof (induction n)
  case 0
  have "holds_contents (intern_start 4096) 0" using intern_reachable.start by (auto simp: holds_contents_def intern_start_def)
  then show ?case by blast
qed (use next_content in blast)

lemma some_call_finds_full: "\<exists>s. some_call_full s"
proof (rule ccontr)
  assume none: "\<not> ?thesis"
  then obtain s where s: "holds_contents s 65" using fill_table by blast
  let ?T = "is_table s"
  have len: "length (it_slots ?T) = 64" using intern_reachable_inv s
    by (auto simp: holds_contents_def intern_inv_def table_ok_def CCOL_PROCS_INTERN_CAPACITY_def)
  have "wit_procs ` {..<65} \<subseteq> set (it_slots ?T)"
    using s len by (auto simp: holds_contents_def CCOL_PROCS_INTERN_CAPACITY_def set_conv_nth) metis
  then have "card (wit_procs ` {..<65}) \<le> 64" using card_mono [OF finite_set] card_length [of "it_slots ?T"] len le_trans by metis
  moreover have "card (wit_procs ` {..<65}) = 65" by (subst card_image) (auto simp: inj_on_def wit_procs_def)
  ultimately show False by simp
qed

theorem intern_full_only_when_full_witness:
  "\<exists>s t p. intern_reachable s \<and> is_pc s t = Returned ccol_container_full None \<and> is_want s t = Some p
     \<and> card (set (it_slots (is_table s))) = 64 \<and> p \<notin> set (it_slots (is_table s))"
proof -
  obtain s rv p where s: "intern_reachable s" "is_pc s 0 = Returned rv None" "is_want s 0 = Some p"
    using some_call_finds_full by (auto simp: some_call_full_def)
  show ?thesis using intern_full_only_when_full [OF s] s by (auto simp: CCOL_PROCS_INTERN_CAPACITY_def)
qed

text \<open>
  Claim C39.  No state of the system is stuck: whatever the threads have done so far,
  the call of any thread can be run to its return, a wait for a slot that another
  thread is writing included.
\<close>

theorem intern_can_finish:
  assumes "intern_reachable s"
  shows "\<exists>s' rv out. intern_sys_step\<^sup>*\<^sup>* s s' \<and> is_pc s' t = Returned rv out \<and> is_want s' t = is_want s t"
  by (rule call_can_return [OF intern_reachable_inv [OF assms]])

theorem intern_can_finish_witness:
  "\<exists>s' rv out. intern_sys_step\<^sup>*\<^sup>* wit_claimed s' \<and> is_pc s' (Suc 0) = Returned rv out
     \<and> is_want s' (Suc 0) = is_want wit_claimed (Suc 0)"
  by (rule intern_can_finish [OF wit_reachable(1)])

end
