(* ===== verification/CCol_Hash.thy ===== *)
theory CCol_Hash
  imports CCol_Common CCol_Keys
begin

unbundle bit_operations_syntax

text \<open>
  The hash functions of \<^verbatim>\<open>src/chashmap.c\<close> on a little-endian LP64 target: the
  mixers of the fixed-width keys, SipHash-1-3 and XXH64 for byte keys, the hash of a
  \<^verbatim>\<open>long double\<close> by value, the choice among them by key type and mode, and the
  reduction of a hash to an index.  A hash is a 64-bit word; the bytes that a
  pointer addresses are a byte list that is at least as long as what is read.
  A custom hashing proc is a function of the key bytes.
\<close>

section \<open>Words and bytes\<close>

type_synonym u64 = "64 word"

fun le_word :: "byte list \<Rightarrow> u64" where
  "le_word [] = 0"
| "le_word (b # bs) = ucast b OR push_bit 8 (le_word bs)"

text \<open>The first \<open>n\<close> bytes of a word in memory.\<close>

fun word_bytes :: "nat \<Rightarrow> u64 \<Rightarrow> byte list" where
  "word_bytes 0 w = []"
| "word_bytes (Suc n) w = ucast w # word_bytes n (drop_bit 8 w)"

section \<open>The mixers of the fixed-width keys\<close>

record chmap_hash_secret =
  sip_v :: "u64 \<times> u64 \<times> u64 \<times> u64"
  int_seed :: u64
  byte_seed :: u64

definition hash_word_seeded :: "u64 \<Rightarrow> u64 \<Rightarrow> u64" where
  "hash_word_seeded x seed =
     (let r = (x XOR seed) * 0xBF58476D1CE4E5B9;
          r = r XOR drop_bit 32 r
      in r * 0x94D049BB133111EB)"

definition hash_u64_seeded :: "u64 \<Rightarrow> u64 \<Rightarrow> u64" where
  "hash_u64_seeded x seed = hash_word_seeded x seed"

definition hash_word_fast :: "u64 \<Rightarrow> u64" where
  "hash_word_fast x = x * 0x9E3779B97F4A7C15"

definition hash_u64_fast :: "u64 \<Rightarrow> u64" where
  "hash_u64_fast x = hash_word_fast x"

definition hash_custom_fast :: "u64 \<Rightarrow> u64" where
  "hash_custom_fast h =
     (let x = h;
          x = x XOR drop_bit 33 x;
          x = x * 0xFF51AFD7ED558CCD;
          x = x XOR drop_bit 33 x;
          x = x * 0xC4CEB9FE1A85EC53;
          x = x XOR drop_bit 33 x
      in x)"

section \<open>SipHash-1-3\<close>

definition sip_rotl :: "u64 \<Rightarrow> nat \<Rightarrow> u64" where
  "sip_rotl x b = push_bit b x OR drop_bit (64 - b) x"

type_synonym sip_state = "u64 \<times> u64 \<times> u64 \<times> u64"

definition CHMAP_SIPROUND :: "sip_state \<Rightarrow> sip_state" where
  "CHMAP_SIPROUND v =
     (case v of (v0, v1, v2, v3) \<Rightarrow>
        let v0 = v0 + v1;
            v1 = sip_rotl v1 13;
            v1 = v1 XOR v0;
            v0 = sip_rotl v0 32;
            v2 = v2 + v3;
            v3 = sip_rotl v3 16;
            v3 = v3 XOR v2;
            v0 = v0 + v3;
            v3 = sip_rotl v3 21;
            v3 = v3 XOR v0;
            v2 = v2 + v1;
            v1 = sip_rotl v1 17;
            v1 = v1 XOR v2;
            v2 = sip_rotl v2 32
        in (v0, v1, v2, v3))"

definition sip_load64 :: "byte list \<Rightarrow> u64" where
  "sip_load64 p = le_word (take 8 p)"

definition sip_load32 :: "byte list \<Rightarrow> u64" where
  "sip_load32 p = le_word (take 4 p)"

definition sip_load_tail :: "byte list \<Rightarrow> size_t \<Rightarrow> u64" where
  "sip_load_tail p left =
     (if left \<ge> 4 then sip_load32 p OR push_bit (8 * (left - 4)) (sip_load32 (drop (left - 4) p))
      else if left = 0 then 0
      else ucast (p ! 0) OR push_bit (8 * (left div 2)) (ucast (p ! (left div 2)))
        OR push_bit (8 * (left - 1)) (ucast (p ! (left - 1))))"

fun siphash13_blocks :: "nat \<Rightarrow> byte list \<Rightarrow> sip_state \<Rightarrow> sip_state \<times> byte list" where
  "siphash13_blocks 0 p v = (v, p)"
| "siphash13_blocks (Suc blocks) p v =
     (case v of (v0, v1, v2, v3) \<Rightarrow>
        let m = sip_load64 p;
            v3 = v3 XOR m
        in case CHMAP_SIPROUND (v0, v1, v2, v3) of (v0, v1, v2, v3) \<Rightarrow>
             siphash13_blocks blocks (drop 8 p) (v0 XOR m, v1, v2, v3))"

definition siphash13 :: "sip_state \<Rightarrow> byte list \<Rightarrow> size_t \<Rightarrow> u64" where
  "siphash13 sv input len =
     (case siphash13_blocks (len div 8) input sv of ((v0, v1, v2, v3), p) \<Rightarrow>
        let b = push_bit 56 (of_nat len) OR sip_load_tail p (len mod 8);
            v3 = v3 XOR b
        in case CHMAP_SIPROUND (v0, v1, v2, v3) of (v0, v1, v2, v3) \<Rightarrow>
             (let v0 = v0 XOR b;
                  v2 = v2 XOR 0xff
              in case CHMAP_SIPROUND (CHMAP_SIPROUND (CHMAP_SIPROUND (v0, v1, v2, v3))) of (v0, v1, v2, v3) \<Rightarrow>
                   v0 XOR v1 XOR v2 XOR v3))"

definition hash_bytes_keyed :: "sip_state \<Rightarrow> byte list \<Rightarrow> size_t \<Rightarrow> u64" where
  "hash_bytes_keyed sv input len = siphash13 sv input len"

definition chmap_sip_state_from_key :: "u64 \<Rightarrow> u64 \<Rightarrow> sip_state" where
  "chmap_sip_state_from_key k0 k1 =
     (k0 XOR 0x736F6D6570736575, k1 XOR 0x646F72616E646F6D, k0 XOR 0x6C7967656E657261, k1 XOR 0x7465646279746573)"

section \<open>XXH64\<close>

definition XXH_P1 :: u64 where "XXH_P1 = 0x9E3779B185EBCA87"
definition XXH_P2 :: u64 where "XXH_P2 = 0xC2B2AE3D27D4EB4F"
definition XXH_P3 :: u64 where "XXH_P3 = 0x165667B19E3779F9"
definition XXH_P4 :: u64 where "XXH_P4 = 0x85EBCA77C2B2AE63"
definition XXH_P5 :: u64 where "XXH_P5 = 0x27D4EB2F165667C5"

definition xxh_round :: "u64 \<Rightarrow> u64 \<Rightarrow> u64" where
  "xxh_round acc input = sip_rotl (acc + input * XXH_P2) 31 * XXH_P1"

definition xxh_merge_round :: "u64 \<Rightarrow> u64 \<Rightarrow> u64" where
  "xxh_merge_round h v = (h XOR xxh_round 0 v) * XXH_P1 + XXH_P4"

text \<open>The loop over stripes of 32 bytes; \<open>p\<close> is what lies between the cursor and the end.\<close>

function xxh_stripes :: "byte list \<Rightarrow> sip_state \<Rightarrow> sip_state \<times> byte list" where
  "xxh_stripes p (v1, v2, v3, v4) =
     (let v1 = xxh_round v1 (sip_load64 p);
          v2 = xxh_round v2 (sip_load64 (drop 8 p));
          v3 = xxh_round v3 (sip_load64 (drop 16 p));
          v4 = xxh_round v4 (sip_load64 (drop 24 p));
          p' = drop 32 p
      in if length p' \<ge> 32 then xxh_stripes p' (v1, v2, v3, v4) else ((v1, v2, v3, v4), p'))"
  by pat_completeness auto
termination by (relation "measure (\<lambda>(p, _). length p)") auto

function xxh_words :: "byte list \<Rightarrow> u64 \<Rightarrow> u64 \<times> byte list" where
  "xxh_words p h =
     (if length p \<ge> 8 then xxh_words (drop 8 p) (sip_rotl (h XOR xxh_round 0 (sip_load64 p)) 27 * XXH_P1 + XXH_P4)
      else (h, p))"
  by pat_completeness auto
termination by (relation "measure (\<lambda>(p, _). length p)") auto

fun xxh_bytes :: "byte list \<Rightarrow> u64 \<Rightarrow> u64" where
  "xxh_bytes [] h = h"
| "xxh_bytes (b # p) h = xxh_bytes p (sip_rotl (h XOR (ucast b * XXH_P5)) 11 * XXH_P1)"

declare xxh_stripes.simps [simp del] xxh_words.simps [simp del]

definition xxh64 :: "byte list \<Rightarrow> size_t \<Rightarrow> u64 \<Rightarrow> u64" where
  "xxh64 input len seed =
     (let p = take len input;
          (h, p) = (if len \<ge> 32 then
              (case xxh_stripes p (seed + XXH_P1 + XXH_P2, seed + XXH_P2, seed, seed - XXH_P1) of ((v1, v2, v3, v4), p) \<Rightarrow>
                 let h = sip_rotl v1 1 + sip_rotl v2 7 + sip_rotl v3 12 + sip_rotl v4 18
                 in (xxh_merge_round (xxh_merge_round (xxh_merge_round (xxh_merge_round h v1) v2) v3) v4, p))
            else (seed + XXH_P5, p));
          h = h + of_nat len;
          (h, p) = xxh_words p h;
          (h, p) = (if length p \<ge> 4
            then (sip_rotl (h XOR (sip_load32 p * XXH_P1)) 23 * XXH_P2 + XXH_P3, drop 4 p) else (h, p));
          h = xxh_bytes p h;
          h = h XOR drop_bit 33 h;
          h = h * XXH_P2;
          h = h XOR drop_bit 29 h;
          h = h * XXH_P3
      in h XOR drop_bit 32 h)"

definition hash_bytes_fast :: "chmap_hash_secret \<Rightarrow> byte list \<Rightarrow> size_t \<Rightarrow> u64" where
  "hash_bytes_fast sec input len = xxh64 input len (byte_seed sec)"

definition hash_bytes_keyed_ool :: "chmap_hash_secret \<Rightarrow> byte list \<Rightarrow> size_t \<Rightarrow> u64" where
  "hash_bytes_keyed_ool sec input len = hash_bytes_keyed (sip_v sec) input len"

section \<open>The hash of a long double\<close>

text \<open>
  \<^verbatim>\<open>frexpl\<close> of a finite nonzero value in the 80-bit format, with the mantissa
  scaled by \<open>2 ^ 62\<close> and cut to an integer: a significand \<open>s\<close> with exponent field
  \<open>e\<close> is \<open>s * 2 ^ (e - 16446)\<close>, and a significand of \<open>n\<close> bits is
  \<open>2 ^ n\<close> times a mantissa in \<open>[1/2, 1)\<close>.
\<close>

definition frexpl_scaled :: "nat \<Rightarrow> u64 \<times> u64" where
  "frexpl_scaled mag =
     (let s = mag mod 2 ^ 64; e = max 1 (mag div 2 ^ 64); n = bit_length s
      in (of_nat (s * 2 ^ 62 div 2 ^ n), of_int (int n + int e - 16446)))"

definition hash_long_double_value :: "byte list \<Rightarrow> sip_state \<Rightarrow> u64" where
  "hash_long_double_value v sv =
     (let parts = (case long_double_key v of
            None \<Rightarrow> (0, 3)
          | Some k \<Rightarrow>
              if k = 0 then (0, 0)
              else if \<bar>k\<bar> div 2 ^ 64 = 32767 then (0, if k > 0 then 1 else 2)
              else (case frexpl_scaled (nat \<bar>k\<bar>) of (m, e) \<Rightarrow> (if k > 0 then m else - m, e)))
      in hash_bytes_keyed sv (word_bytes 8 (fst parts) @ word_bytes 8 (snd parts)) 16)"

section \<open>The hash of a key\<close>

type_synonym hashing_proc = "byte list \<Rightarrow> u64"

definition hash_word_mode :: "u64 \<Rightarrow> bool \<Rightarrow> u64 \<Rightarrow> u64" where
  "hash_word_mode x keyed seed = (if keyed then hash_word_seeded x seed else hash_word_fast x)"

definition hash_u64_mode :: "u64 \<Rightarrow> bool \<Rightarrow> u64 \<Rightarrow> u64" where
  "hash_u64_mode x keyed seed = (if keyed then hash_u64_seeded x seed else hash_u64_fast x)"

definition hash_key_data ::
  "chmap_hash_secret \<Rightarrow> byte list \<Rightarrow> size_t \<Rightarrow> ccol_data_type \<Rightarrow> hashing_proc option \<Rightarrow> bool \<Rightarrow> u64 \<Rightarrow> u64" where
  "hash_key_data sec key_ptr key_size key_type custom_proc keyed seed =
     (case custom_proc of
        Some f \<Rightarrow> (let h = f (take key_size key_ptr) in if keyed then hash_word_seeded h seed else hash_custom_fast h)
      | None \<Rightarrow>
          (case key_type of
             ccol_char \<Rightarrow> hash_word_mode (le_word (take 1 key_ptr)) keyed seed
           | ccol_signed_char \<Rightarrow> hash_word_mode (le_word (take 1 key_ptr)) keyed seed
           | ccol_unsigned_char \<Rightarrow> hash_word_mode (le_word (take 1 key_ptr)) keyed seed
           | ccol_short \<Rightarrow> hash_word_mode (le_word (take 2 key_ptr)) keyed seed
           | ccol_unsigned_short \<Rightarrow> hash_word_mode (le_word (take 2 key_ptr)) keyed seed
           | ccol_int \<Rightarrow> hash_word_mode (le_word (take 4 key_ptr)) keyed seed
           | ccol_unsigned_int \<Rightarrow> hash_word_mode (le_word (take 4 key_ptr)) keyed seed
           | ccol_long \<Rightarrow> hash_word_mode (le_word (take 8 key_ptr)) keyed seed
           | ccol_unsigned_long \<Rightarrow> hash_word_mode (le_word (take 8 key_ptr)) keyed seed
           | ccol_long_long \<Rightarrow> hash_u64_mode (le_word (take 8 key_ptr)) keyed seed
           | ccol_unsigned_long_long \<Rightarrow> hash_u64_mode (le_word (take 8 key_ptr)) keyed seed
           | ccol_float \<Rightarrow> hash_word_mode (le_word (take 4 key_ptr)) keyed seed
           | ccol_double \<Rightarrow> hash_u64_mode (le_word (take 8 key_ptr)) keyed seed
           | ccol_pointer \<Rightarrow> hash_word_mode (le_word (take 8 key_ptr)) keyed seed
           | ccol_long_double \<Rightarrow> hash_long_double_value (take 16 key_ptr) (sip_v sec)
           | ccol_string \<Rightarrow>
               if keyed then hash_bytes_keyed_ool sec key_ptr key_size else hash_bytes_fast sec key_ptr key_size
           | ccol_other_types \<Rightarrow>
               if keyed then hash_bytes_keyed_ool sec key_ptr key_size else hash_bytes_fast sec key_ptr key_size))"

definition hash_index_for :: "u64 \<Rightarrow> size_t \<Rightarrow> size_t" where
  "hash_index_for hash_val capacity = unat (drop_bit (builtin_clzl capacity + 1) hash_val)"

section \<open>Words and their bytes\<close>

lemma bit_le_word: "bit (le_word bs) n \<longleftrightarrow> n < 64 \<and> n div 8 < length bs \<and> bit (bs ! (n div 8)) (n mod 8)"
proof (induction bs arbitrary: n)
  case (Cons b bs)
  show ?case
  proof (cases "n < 8")
    case True
    then show ?thesis by (simp add: bit_or_iff bit_push_bit_iff bit_ucast_iff)
  next
    case False
    then have "n div 8 = Suc ((n - 8) div 8)" "n mod 8 = (n - 8) mod 8" by (simp_all add: le_div_geq le_mod_geq)
    moreover have "\<not> bit b n" using False bit_imp_le_length [of b n] by auto
    ultimately show ?thesis using False Cons.IH [of "n - 8"]
      by (auto simp: bit_or_iff bit_push_bit_iff bit_ucast_iff)
  qed
qed simp

lemma length_word_bytes [simp]: "length (word_bytes n w) = n"
  by (induction n arbitrary: w) auto

lemma nth_word_bytes: "i < n \<Longrightarrow> word_bytes n w ! i = ucast (drop_bit (8 * i) w)"
proof (induction n arbitrary: w i)
  case (Suc n)
  then show ?case by (cases i) (auto simp: algebra_simps)
qed simp

lemma bit_word_bytes: "i < n \<Longrightarrow> bit (word_bytes n w ! i) k \<longleftrightarrow> k < 8 \<and> bit w (8 * i + k)"
  by (simp add: nth_word_bytes bit_ucast_iff bit_drop_bit_eq)

lemma le_word_word_bytes: "le_word (word_bytes 8 w) = w"
proof (rule bit_eqI)
  fix n
  assume "possible_bit TYPE(u64) n"
  then have n: "n < 64" by simp
  then have "n div 8 < 8" by linarith
  then show "bit (le_word (word_bytes 8 w)) n = bit w n" using n by (simp add: bit_le_word bit_word_bytes)
qed

lemma word_bytes_le_word:
  assumes "length bs = n" "n \<le> 8"
  shows "word_bytes n (le_word bs) = bs"
proof (rule nth_equalityI)
  fix i
  assume i: "i < length (word_bytes n (le_word bs))"
  show "word_bytes n (le_word bs) ! i = bs ! i"
  proof (rule bit_eqI)
    fix k
    assume "possible_bit TYPE(byte) k"
    then have k: "k < 8" by simp
    have "8 * i + k < 64" using i k assms by simp
    then show "bit (word_bytes n (le_word bs) ! i) k = bit (bs ! i) k"
      using i k assms by (simp add: bit_word_bytes bit_le_word)
  qed
qed (simp add: assms)

lemma le_word_inj:
  assumes "length a = length b" "length a \<le> 8" "le_word a = le_word b"
  shows "a = b"
  using word_bytes_le_word [of a "length a"] word_bytes_le_word [of b "length a"] assms by simp

lemma take_word_bytes: "m \<le> n \<Longrightarrow> take m (word_bytes n w) = word_bytes m w"
  by (rule nth_equalityI) (auto simp: nth_word_bytes)

section \<open>Facts about the hashes\<close>

text \<open>
   The overlapping reads of \<^verbatim>\<open>sip_load_tail\<close> give the last bytes of a
  key as one little-endian word: each of the up to seven bytes lands in its place and
  the bytes that two reads share do not disturb each other.
\<close>

theorem sip_load_tail_is_le_word:
  assumes "left < 8" "left \<le> length p"
  shows "sip_load_tail p left = le_word (take left p)"
proof (rule bit_eqI)
  fix n
  assume "possible_bit TYPE(u64) n"
  then have n: "n < 64" by simp
  have q: "n = 8 * (n div 8) + n mod 8" "n mod 8 < 8" by simp_all
  have right: "bit (le_word (take left p)) n \<longleftrightarrow> n div 8 < left \<and> bit (p ! (n div 8)) (n mod 8)"
    using n assms by (auto simp: bit_le_word)
  have byte_at: "bit (push_bit (8 * k) (ucast (b::byte) :: u64)) n \<longleftrightarrow> n div 8 = k \<and> bit b (n mod 8)" for k b
  proof (cases "n div 8 = k")
    case True
    then show ?thesis using n q(2) by (auto simp: bit_push_bit_iff bit_ucast_iff minus_mult_div_eq_mod)
  next
    case False
    then have "n < 8 * k \<or> 8 * k + 8 \<le> n" by linarith
    then show ?thesis using False bit_imp_le_length [of b "n - 8 * k"] by (auto simp: bit_push_bit_iff bit_ucast_iff)
  qed
  show "bit (sip_load_tail p left) n = bit (le_word (take left p)) n"
  proof (cases "left \<ge> 4")
    case True
    have hi: "bit (push_bit (8 * (left - 4)) (sip_load32 (drop (left - 4) p))) n \<longleftrightarrow>
        left - 4 \<le> n div 8 \<and> n div 8 < left \<and> bit (p ! (n div 8)) (n mod 8)"
    proof (cases "left - 4 \<le> n div 8")
      case le: True
      then have "8 * (left - 4) \<le> n" by linarith
      then obtain m where m: "n = 8 * (left - 4) + m" using le_Suc_ex by blast
      then have "n div 8 = (left - 4) + m div 8" "n mod 8 = m mod 8" by simp_all
      then show ?thesis using n m True assms by (auto simp: bit_push_bit_iff sip_load32_def bit_le_word)
    next
      case False
      then have "n < 8 * (left - 4)" by linarith
      then show ?thesis using False by (auto simp: bit_push_bit_iff)
    qed
    have "bit (sip_load32 p) n \<longleftrightarrow> n div 8 < 4 \<and> bit (p ! (n div 8)) (n mod 8)"
      using n True assms by (auto simp: sip_load32_def bit_le_word)
    then show ?thesis using right hi True assms(1) by (auto simp: sip_load_tail_def bit_or_iff)
  next
    case False
    have byte0: "bit (ucast b :: u64) n \<longleftrightarrow> n div 8 = 0 \<and> bit b (n mod 8)" for b :: byte
      using byte_at [of 0 b] by simp
    have small: "bit (sip_load_tail p left) n \<longleftrightarrow>
        (n div 8 = 0 \<or> n div 8 = left div 2 \<or> n div 8 = left - 1) \<and> bit (p ! (n div 8)) (n mod 8)" if "left \<noteq> 0"
      unfolding sip_load_tail_def using False that by (simp only: if_False bit_or_iff byte0 byte_at) auto
    have "q = 0 \<or> q = left div 2 \<or> q = left - 1 \<longleftrightarrow> q < left" if "left \<noteq> 0" for q :: nat
    proof -
      consider "left = 1" | "left = 2" | "left = 3" using False \<open>left \<noteq> 0\<close> by linarith
      then show ?thesis by cases auto
    qed
    then show ?thesis using right small by (cases "left = 0") (auto simp: sip_load_tail_def)
  qed
qed

theorem sip_load_tail_is_le_word_witness:
  "sip_load_tail [1, 2, 3, 4, 5, 6] 6 = le_word (take 6 [1, 2, 3, 4, 5, 6])"
  by (rule sip_load_tail_is_le_word) simp_all

lemma odd_factor_inj:
  assumes "c * d = (1::u64)"
  shows "x * c = y * c \<longleftrightarrow> x = y"
proof
  assume "x * c = y * c"
  then have "x * c * d = y * c * d" by simp
  then show "x = y" by (simp only: mult.assoc assms mult_1_right)
qed simp

lemma xorshift_inj:
  fixes x y :: u64
  assumes "32 \<le> k" "x XOR drop_bit k x = y XOR drop_bit k y"
  shows "x = y"
proof -
  have inv: "drop_bit k (z XOR drop_bit k z) = drop_bit k z" for z :: u64
  proof (rule bit_eqI)
    fix n
    show "bit (drop_bit k (z XOR drop_bit k z)) n = bit (drop_bit k z) n"
      using assms(1) bit_imp_le_length [of z "k + (k + n)"] by (auto simp: bit_drop_bit_eq bit_xor_iff)
  qed
  have d: "drop_bit k x = drop_bit k y" using inv [of x] inv [of y] assms(2) by simp
  have "x = (x XOR drop_bit k x) XOR drop_bit k x" by (simp add: xor.assoc)
  also have "\<dots> = (y XOR drop_bit k y) XOR drop_bit k y" using assms(2) d by simp
  also have "\<dots> = y" by (simp add: xor.assoc)
  finally show ?thesis .
qed

text \<open>
   Every mixer is a bijection of the 64-bit words, for every seed: two
  fixed-width keys never share the whole hash, in either mode, and neither do two
  different results of a custom hashing proc.
\<close>

theorem mixers_injective:
  "(hash_word_seeded x seed = hash_word_seeded y seed \<longleftrightarrow> x = y) \<and> (hash_word_fast x = hash_word_fast y \<longleftrightarrow> x = y)
     \<and> (hash_custom_fast x = hash_custom_fast y \<longleftrightarrow> x = y)"
proof (intro conjI)
  have m1: "a * 0xBF58476D1CE4E5B9 = b * 0xBF58476D1CE4E5B9 \<longleftrightarrow> a = (b::u64)" for a b
    by (rule odd_factor_inj [where d = "0x96de1b173f119089"]) simp
  have m2: "a * 0x94D049BB133111EB = b * 0x94D049BB133111EB \<longleftrightarrow> a = (b::u64)" for a b
    by (rule odd_factor_inj [where d = "0x319642b2d24d8ec3"]) simp
  have m3: "a * 0x9E3779B97F4A7C15 = b * 0x9E3779B97F4A7C15 \<longleftrightarrow> a = (b::u64)" for a b
    by (rule odd_factor_inj [where d = "0xf1de83e19937733d"]) simp
  have m4: "a * 0xFF51AFD7ED558CCD = b * 0xFF51AFD7ED558CCD \<longleftrightarrow> a = (b::u64)" for a b
    by (rule odd_factor_inj [where d = "0x4f74430c22a54005"]) simp
  have m5: "a * 0xC4CEB9FE1A85EC53 = b * 0xC4CEB9FE1A85EC53 \<longleftrightarrow> a = (b::u64)" for a b
    by (rule odd_factor_inj [where d = "0x9cb4b2f8129337db"]) simp
  have xs: "a XOR drop_bit k a = b XOR drop_bit k b \<longleftrightarrow> a = (b::u64)" if "32 \<le> k" for a b k
    using xorshift_inj [OF that] by blast
  have seed: "a XOR seed = b XOR seed \<longleftrightarrow> a = (b::u64)" for a b
  proof
    assume "a XOR seed = b XOR seed"
    then have "(a XOR seed) XOR seed = (b XOR seed) XOR seed" by simp
    then show "a = b" by (simp only: xor.assoc xor_self_eq xor.right_neutral)
  qed (rule arg_cong)
  show "hash_word_seeded x seed = hash_word_seeded y seed \<longleftrightarrow> x = y"
    by (simp only: hash_word_seeded_def Let_def m1 m2 seed xs [of 32] order.refl)
  show "hash_word_fast x = hash_word_fast y \<longleftrightarrow> x = y" by (simp only: hash_word_fast_def m3)
  have "(32::nat) \<le> 33" by simp
  then show "hash_custom_fast x = hash_custom_fast y \<longleftrightarrow> x = y"
    by (simp only: hash_custom_fast_def Let_def m4 m5 xs)
qed

section \<open>The reduction to an index\<close>

lemma bit_length_power: "bit_length (2 ^ k) = Suc k"
  by (induction k) (auto simp: bit_length_eval)

lemma hash_index_for_less:
  assumes "pow2 c" "2 \<le> c" "c \<le> 2 ^ 63"
  shows "hash_index_for h c < c"
proof -
  obtain k where k: "c = 2 ^ k" using assms by (auto simp: pow2_def)
  have "k \<le> 63" using assms(3) k by (simp add: power_increasing_iff [of 2 k 63, simplified])
  then have "builtin_clzl c + 1 = 64 - k" using k by (simp add: builtin_clzl_def bit_length_power)
  then have "hash_index_for h c = unat h div 2 ^ (64 - k)"
    unfolding hash_index_for_def by (simp only: unat_drop_bit_eq) (simp only: drop_bit_eq_div)
  moreover have "unat h < 2 ^ (64 - k) * 2 ^ k"
    using unsigned_less [of h, where ?'a = nat] \<open>k \<le> 63\<close> by (simp flip: power_add)
  ultimately show ?thesis using k by (simp add: less_mult_imp_div_less mult.commute)
qed

end
