(* ===== verification/CCol_Hashmap_Oa.thy ===== *)
theory CCol_Hashmap_Oa
  imports CCol_Hash
begin

unbundle bit_operations_syntax

text \<open>
  The open-addressing backend of \<^verbatim>\<open>src/chashmap.c\<close>: linear probing over a
  power-of-two table of 16-byte slots with a parallel array of metadata bytes, a
  bound \<open>probe_span\<close> on every displacement, backward-shift deletion and the
  adaptive hash mode with its insert window.  The header fields that the code reaches
  through \<^verbatim>\<open>chmap_of_oa\<close> are the parent record of the map.  \<^term>\<open>None\<close> is a
  failed assertion, an undefined copy or a loop that does not end.
\<close>

section \<open>Structures\<close>

definition minimum_allowed_bucket_array_size :: size_t where
  [size_defs]: "minimum_allowed_bucket_array_size = 16"

definition ccol_max_power_of_two_size_t :: size_t where
  [size_defs]: "ccol_max_power_of_two_size_t = 9223372036854775808"

record oa_slot =
  key_data :: u64
  val_data :: u64

definition SLOT_OCCUPIED :: byte where
  "SLOT_OCCUPIED = 1"

definition occupied :: "byte list \<Rightarrow> size_t \<Rightarrow> bool" where
  "occupied md i \<longleftrightarrow> md ! i AND SLOT_OCCUPIED \<noteq> 0"

datatype hash_mode = CHMAP_HASH_FAST | CHMAP_HASH_KEYED

record chmap_header =
  hm_blk :: nat
  hash_mode :: hash_mode
  window_bound :: nat
  insert_window :: "32 word"

record open_addr_map = chmap_header +
  oa_slots :: "oa_slot list"
  oa_metadata :: "byte list"
  oa_table :: nat
  oa_capacity :: size_t
  oa_probe_span :: size_t
  oa_count :: size_t
  oa_custom :: "hashing_proc option"
  oa_key_type :: ccol_data_type
  oa_val_type :: ccol_data_type
  oa_key_size :: size_t
  oa_val_size :: size_t
  oa_m_procs :: mprocs

definition oa_keyed :: "open_addr_map \<Rightarrow> bool" where
  "oa_keyed m \<longleftrightarrow> hash_mode m = CHMAP_HASH_KEYED"

text \<open>
  A pointer argument: null, to bytes outside the map, or to the value bytes of a
  stored entry, which \<^verbatim>\<open>chashmap_get_elem_ref\<close> hands out.
\<close>

datatype chm_ptr = NullPtr | Outside "byte list" | InMap nat

definition oa_read :: "oa_slot list \<Rightarrow> chm_ptr \<Rightarrow> size_t \<Rightarrow> byte list" where
  "oa_read slots p n =
     (case p of NullPtr \<Rightarrow> [] | Outside bs \<Rightarrow> take n bs | InMap i \<Rightarrow> take n (word_bytes 8 (val_data (slots ! i))))"

section \<open>Types\<close>

definition is_type_integral :: "ccol_data_type \<Rightarrow> bool" where
  "is_type_integral type \<longleftrightarrow>
     type \<in> {ccol_char, ccol_signed_char, ccol_short, ccol_int, ccol_long, ccol_long_long, ccol_unsigned_char,
             ccol_unsigned_short, ccol_unsigned_int, ccol_unsigned_long, ccol_unsigned_long_long, ccol_float,
             ccol_double, ccol_pointer}"

fun get_type_size :: "ccol_data_type \<Rightarrow> size_t" where
  "get_type_size ccol_char = 1"
| "get_type_size ccol_signed_char = 1"
| "get_type_size ccol_unsigned_char = 1"
| "get_type_size ccol_short = 2"
| "get_type_size ccol_unsigned_short = 2"
| "get_type_size ccol_int = 4"
| "get_type_size ccol_unsigned_int = 4"
| "get_type_size ccol_long = 8"
| "get_type_size ccol_unsigned_long = 8"
| "get_type_size ccol_long_long = 8"
| "get_type_size ccol_unsigned_long_long = 8"
| "get_type_size ccol_pointer = 8"
| "get_type_size ccol_float = 4"
| "get_type_size ccol_double = 8"
| "get_type_size ccol_long_double = 16"
| "get_type_size _ = 8"

definition should_use_open_addressing :: "ccol_data_type \<Rightarrow> ccol_data_type \<Rightarrow> bool" where
  "should_use_open_addressing key_type val_type \<longleftrightarrow>
     is_type_integral key_type \<and> is_type_integral val_type \<and> get_type_size key_type \<le> 8 \<and> get_type_size val_type \<le> 8"

section \<open>The insert window\<close>

definition CHMAP_WINDOW_START :: "32 word" where
  "CHMAP_WINDOW_START = 0x80000000"

definition CHMAP_WINDOW_STEP :: "32 word" where
  "CHMAP_WINDOW_STEP = 0x00800000"

definition CHMAP_WINDOW_INSERTS :: nat where
  "CHMAP_WINDOW_INSERTS = 256"

definition OA_DEEP_INSERT :: size_t where
  [size_defs]: "OA_DEEP_INSERT = 32"

definition chmap_window_add :: "32 word \<Rightarrow> size_t \<Rightarrow> bool \<times> 32 word" where
  "chmap_window_add window walk =
     (let step = CHMAP_WINDOW_STEP + of_nat walk
      in (2 ^ 32 \<le> unat window + unat step, window + step))"

fun chmap_log2_pow2 :: "size_t \<Rightarrow> nat" where
  "chmap_log2_pow2 n = (if n = 0 \<or> odd n then 0 else Suc (chmap_log2_pow2 (n div 2)))"

declare chmap_log2_pow2.simps [simp del]

definition chmap_load_q16 :: "size_t \<Rightarrow> size_t \<Rightarrow> nat" where
  "chmap_load_q16 count capacity =
     (let k = chmap_log2_pow2 capacity in if k \<ge> 16 then count div 2 ^ (k - 16) else count * 2 ^ (16 - k))"

definition oa_insert_cap :: "size_t \<Rightarrow> size_t" where
  "oa_insert_cap capacity = (let k = chmap_log2_pow2 capacity in 24 * (if k < 12 then k else 12))"

definition oa_max_count :: "size_t \<Rightarrow> size_t" where
  "oa_max_count capacity = (capacity div 10) * 7 + ((capacity mod 10) * 7) div 10 + 1"

definition oa_window_bound :: "size_t \<Rightarrow> size_t \<Rightarrow> nat" where
  "oa_window_bound start_count capacity =
     (let limit = oa_max_count capacity;
          judged = (if start_count < limit \<and> limit - start_count > CHMAP_WINDOW_INSERTS
                    then start_count + CHMAP_WINDOW_INSERTS else limit);
          a = chmap_load_q16 judged capacity;
          a = (if a > 65535 then 65535 else a);
          d = 65536 - a;
          d2 = d * d;
          mul = (if capacity \<ge> 4096 then 640 else 768);
          bound = mul * (2 ^ 32 - d2) div d2 + 128
      in if bound > 65535 then 65535 else bound)"

definition oa_window_restart :: "open_addr_map \<Rightarrow> open_addr_map" where
  "oa_window_restart m =
     m\<lparr>insert_window := CHMAP_WINDOW_START,
         window_bound := (if oa_keyed m then 65535 else oa_window_bound (oa_count m) (oa_capacity m))\<rparr>"

section \<open>Creation\<close>

definition oa_widen_key :: "byte list \<Rightarrow> size_t \<Rightarrow> u64" where
  "oa_widen_key key key_size = le_word (take (if key_size > 8 then 8 else key_size) key)"

definition oa_keys_equal :: "oa_slot \<Rightarrow> u64 \<Rightarrow> bool" where
  "oa_keys_equal slot probe_key \<longleftrightarrow> key_data slot = probe_key"

definition OA_BLOCK_BYTES_PER_SLOT :: size_t where
  [size_defs]: "OA_BLOCK_BYTES_PER_SLOT = 17"

definition empty_slots :: "size_t \<Rightarrow> oa_slot list" where
  "empty_slots n = replicate n \<lparr>key_data = 0, val_data = 0\<rparr>"

definition oa_alloc_block :: "size_t \<Rightarrow> heap \<Rightarrow> (nat \<times> oa_slot list \<times> byte list) option \<times> heap" where
  "oa_alloc_block capacity h =
     (if capacity = 0 \<or> capacity > SIZE_MAX div OA_BLOCK_BYTES_PER_SLOT then (None, h)
      else (case mem_alloc h (sz_mul capacity OA_BLOCK_BYTES_PER_SLOT) of
          (None, h) \<Rightarrow> (None, h)
        | (Some (b, _), h) \<Rightarrow> (Some (b, empty_slots capacity, replicate capacity 0), h)))"

definition oa_min_probe_span :: "size_t \<Rightarrow> size_t" where
  "oa_min_probe_span capacity = (if capacity < OA_DEEP_INSERT then capacity else OA_DEEP_INSERT)"

definition oa_init ::
  "chmap_header \<Rightarrow> size_t \<Rightarrow> ccol_data_type \<Rightarrow> ccol_data_type \<Rightarrow> size_t \<Rightarrow> size_t \<Rightarrow> mprocs \<Rightarrow> hashing_proc option \<Rightarrow>
   heap \<Rightarrow> open_addr_map option \<times> heap" where
  "oa_init hdr capacity key_type val_type key_size val_size mp custom h =
     (case oa_alloc_block capacity h of
        (None, h) \<Rightarrow> (None, h)
      | (Some (b, slots, metadata), h) \<Rightarrow>
          (Some \<lparr>hm_blk = hm_blk hdr, hash_mode = hash_mode hdr, window_bound = window_bound hdr,
                 insert_window = insert_window hdr, oa_slots = slots, oa_metadata = metadata, oa_table = b,
                 oa_capacity = capacity, oa_probe_span = oa_min_probe_span capacity, oa_count = 0, oa_custom = custom,
                 oa_key_type = key_type, oa_val_type = val_type, oa_key_size = key_size, oa_val_size = val_size,
                 oa_m_procs = mp\<rparr>, h))"

section \<open>Rebuilding the table\<close>

text \<open>The hash of the key whose bytes are \<open>key\<close>, in the mode \<open>keyed\<close> names.\<close>

definition oa_hash :: "chmap_hash_secret \<Rightarrow> open_addr_map \<Rightarrow> byte list \<Rightarrow> size_t \<Rightarrow> bool \<Rightarrow> u64" where
  "oa_hash sec m key key_size keyed =
     hash_key_data sec key key_size (oa_key_type m) (oa_custom m) keyed (int_seed sec)"

partial_function (option) oa_free_slot :: "byte list \<Rightarrow> size_t \<Rightarrow> size_t \<Rightarrow> size_t option" where
  "oa_free_slot md msk index =
     (if occupied md index then oa_free_slot md msk ((index + 1) AND msk) else Some index)"

fun oa_place_loop ::
  "chmap_hash_secret \<Rightarrow> open_addr_map \<Rightarrow> size_t \<Rightarrow> bool \<Rightarrow> size_t list \<Rightarrow> oa_slot list \<Rightarrow> byte list \<Rightarrow> size_t \<Rightarrow>
   (oa_slot list \<times> byte list \<times> size_t) option" where
  "oa_place_loop sec m new_capacity keyed [] slots md largest = Some (slots, md, largest)"
| "oa_place_loop sec m new_capacity keyed (i # is) slots md largest =
     (if \<not> occupied (oa_metadata m) i then oa_place_loop sec m new_capacity keyed is slots md largest
      else do {
        let msk = new_capacity - 1;
        let home = hash_index_for
          (oa_hash sec m (word_bytes 8 (key_data (oa_slots m ! i))) (oa_key_size m) keyed) new_capacity;
        index \<leftarrow> oa_free_slot md msk home;
        let displacement = sz_sub index home AND msk;
        oa_place_loop sec m new_capacity keyed is (slots[index := oa_slots m ! i]) (md[index := SLOT_OCCUPIED])
          (if displacement > largest then displacement else largest)
      })"

definition oa_place_all ::
  "chmap_hash_secret \<Rightarrow> open_addr_map \<Rightarrow> oa_slot list \<Rightarrow> byte list \<Rightarrow> size_t \<Rightarrow> bool \<Rightarrow>
   (oa_slot list \<times> byte list \<times> size_t) option" where
  "oa_place_all sec m new_slots new_md new_capacity keyed =
     oa_place_loop sec m new_capacity keyed [0..<oa_capacity m] new_slots new_md 0"

definition OA_ATTEMPT_SLACK :: size_t where
  [size_defs]: "OA_ATTEMPT_SLACK = 64"

text \<open>The walk of one entry in a fast attempt; \<^term>\<open>Some None\<close> when it meets the cap.\<close>

partial_function (option) oa_attempt_walk ::
  "byte list \<Rightarrow> size_t \<Rightarrow> size_t \<Rightarrow> size_t \<Rightarrow> size_t \<Rightarrow> (size_t \<times> size_t) option option" where
  "oa_attempt_walk md msk cap index displacement =
     (if occupied md index then
        if displacement = cap then Some None
        else oa_attempt_walk md msk cap ((index + 1) AND msk) (displacement + 1)
      else Some (Some (index, displacement)))"

fun oa_attempt_loop ::
  "chmap_hash_secret \<Rightarrow> open_addr_map \<Rightarrow> size_t \<Rightarrow> size_t list \<Rightarrow> oa_slot list \<Rightarrow> byte list \<Rightarrow> size_t \<Rightarrow> size_t \<Rightarrow>
   (oa_slot list \<times> byte list \<times> size_t) option" where
  "oa_attempt_loop sec m new_capacity [] slots md largest walks = Some (slots, md, largest)"
| "oa_attempt_loop sec m new_capacity (i # is) slots md largest walks =
     (if \<not> occupied (oa_metadata m) i then oa_attempt_loop sec m new_capacity is slots md largest walks
      else do {
        let home = hash_index_for
          (hash_key_data sec (word_bytes 8 (key_data (oa_slots m ! i))) (oa_key_size m) (oa_key_type m)
             (oa_custom m) False 0) new_capacity;
        r \<leftarrow> oa_attempt_walk md (new_capacity - 1) (oa_insert_cap new_capacity) home 0;
        (case r of
           None \<Rightarrow> Some (slots, md, SIZE_MAX)
         | Some (index, displacement) \<Rightarrow>
             let slots = slots[index := oa_slots m ! i];
                 md = md[index := SLOT_OCCUPIED];
                 largest = (if displacement > largest then displacement else largest);
                 walks = walks + displacement
             in if walks > oa_count m + OA_ATTEMPT_SLACK then Some (slots, md, SIZE_MAX)
                else oa_attempt_loop sec m new_capacity is slots md largest walks)
      })"

definition oa_place_all_fast_attempt ::
  "chmap_hash_secret \<Rightarrow> open_addr_map \<Rightarrow> oa_slot list \<Rightarrow> byte list \<Rightarrow> size_t \<Rightarrow> (oa_slot list \<times> byte list \<times> size_t) option" where
  "oa_place_all_fast_attempt sec m new_slots new_md new_capacity =
     oa_attempt_loop sec m new_capacity [0..<oa_capacity m] new_slots new_md 0 0"

definition oa_rebuild ::
  "chmap_hash_secret \<Rightarrow> open_addr_map \<Rightarrow> size_t \<Rightarrow> bool \<Rightarrow> heap \<Rightarrow> (ccol_retval \<times> open_addr_map \<times> heap) option" where
  "oa_rebuild sec m new_capacity keyed h =
     (case oa_alloc_block new_capacity h of
        (None, h) \<Rightarrow> Some (ccol_not_enough_memory, m, h)
      | (Some (b, new_slots, new_md), h) \<Rightarrow> do {
          (slots, md, largest) \<leftarrow>
            (if \<not> keyed \<and> oa_keyed m then oa_place_all_fast_attempt sec m new_slots new_md new_capacity
             else oa_place_all sec m new_slots new_md new_capacity keyed);
          (slots, md, largest, keyed) \<leftarrow>
            (if \<not> keyed \<and> largest > oa_insert_cap new_capacity then do {
               (slots, md, largest) \<leftarrow>
                 oa_place_all sec m (empty_slots new_capacity) (replicate new_capacity 0) new_capacity True;
               Some (slots, md, largest, True)
             }
             else Some (slots, md, largest, keyed));
          let h = mem_free h (oa_table m);
          let span = oa_min_probe_span new_capacity;
          let m = m\<lparr>oa_slots := slots, oa_metadata := md, oa_table := b, oa_capacity := new_capacity,
                        oa_probe_span := (if largest + 1 > span then largest + 1 else span),
                        hash_mode := (if keyed then CHMAP_HASH_KEYED else CHMAP_HASH_FAST)\<rparr>;
          Some (ccol_success, oa_window_restart m, h)
        })"

definition oa_rehash_capacity_for :: "size_t \<Rightarrow> size_t" where
  "oa_rehash_capacity_for live_after_insert =
     (if live_after_insert > ccol_max_power_of_two_size_t div 2 then ccol_max_power_of_two_size_t
      else let wanted = ccol_find_nearest_gte_power_of_two (2 * live_after_insert)
           in if wanted < minimum_allowed_bucket_array_size then minimum_allowed_bucket_array_size else wanted)"

definition oa_above_grow_load :: "size_t \<Rightarrow> size_t \<Rightarrow> bool" where
  "oa_above_grow_load count capacity =
     (if capacity \<le> SIZE_MAX div 10 then sz_mul count 10 > sz_mul capacity 7
      else count > (capacity div 10) * 7 + ((capacity mod 10) * 7) div 10)"

section \<open>Insertion\<close>

partial_function (option) oa_insertion_loop :: "byte list \<Rightarrow> size_t \<Rightarrow> size_t \<Rightarrow> size_t \<Rightarrow> size_t option" where
  "oa_insertion_loop md capacity start index =
     (if \<not> occupied md index then Some index
      else let index = (index + 1) AND (capacity - 1)
           in if index \<noteq> start then oa_insertion_loop md capacity start index else Some capacity)"

definition oa_find_insertion_slot :: "open_addr_map \<Rightarrow> u64 \<Rightarrow> size_t option" where
  "oa_find_insertion_slot m hash_val =
     (let index = hash_index_for hash_val (oa_capacity m)
      in oa_insertion_loop (oa_metadata m) (oa_capacity m) index index)"

fun oa_stored_loop :: "open_addr_map \<Rightarrow> u64 \<Rightarrow> size_t \<Rightarrow> size_t \<Rightarrow> size_t option" where
  "oa_stored_loop m key index 0 = None"
| "oa_stored_loop m key index (Suc left) =
     (if occupied (oa_metadata m) index \<and> oa_keys_equal (oa_slots m ! index) key then Some index
      else oa_stored_loop m key ((index + 1) AND (oa_capacity m - 1)) left)"

definition oa_find_stored_key :: "chmap_hash_secret \<Rightarrow> open_addr_map \<Rightarrow> u64 \<Rightarrow> size_t option" where
  "oa_find_stored_key sec m key =
     (let hash_val = oa_hash sec m (word_bytes 8 key @ replicate 8 0) (oa_key_size m) (oa_keyed m)
      in oa_stored_loop m key (hash_index_for hash_val (oa_capacity m)) (oa_probe_span m))"

definition oa_switch_keeping ::
  "chmap_hash_secret \<Rightarrow> open_addr_map \<Rightarrow> size_t \<Rightarrow> heap \<Rightarrow> (size_t \<times> open_addr_map \<times> heap) option" where
  "oa_switch_keeping sec m index h = do {
     let key = key_data (oa_slots m ! index);
     (rv, m, h) \<leftarrow> oa_rebuild sec m (oa_capacity m) True h;
     (if rv \<noteq> ccol_success then Some (index, m, h)
      else do {
        index \<leftarrow> oa_find_stored_key sec m key;
        Some (index, m, h)
      })
   }"

definition oa_note_deep_insert ::
  "chmap_hash_secret \<Rightarrow> open_addr_map \<Rightarrow> size_t \<Rightarrow> size_t \<Rightarrow> heap \<Rightarrow> (size_t \<times> open_addr_map \<times> heap) option" where
  "oa_note_deep_insert sec m index displacement h =
     (let m = (if displacement \<ge> oa_probe_span m then m\<lparr>oa_probe_span := displacement + 1\<rparr> else m)
      in if \<not> oa_keyed m \<and> displacement > oa_insert_cap (oa_capacity m)
         then oa_switch_keeping sec m index h else Some (index, m, h))"

definition oa_window_end ::
  "chmap_hash_secret \<Rightarrow> open_addr_map \<Rightarrow> size_t \<Rightarrow> heap \<Rightarrow> (size_t \<times> open_addr_map \<times> heap) option" where
  "oa_window_end sec m index h =
     (let switch_now = (hash_mode m = CHMAP_HASH_FAST \<and> unat (insert_window m) > window_bound m);
          m = oa_window_restart m
      in if switch_now then oa_switch_keeping sec m index h else Some (index, m, h))"

text \<open>
  What both insertion paths do once the entry is written at \<open>index\<close>, whose
  displacement from \<open>home\<close> they report to the detection.
\<close>

definition oa_after_write ::
  "chmap_hash_secret \<Rightarrow> open_addr_map \<Rightarrow> size_t \<Rightarrow> size_t \<Rightarrow> heap \<Rightarrow> (size_t \<times> open_addr_map \<times> heap) option" where
  "oa_after_write sec m index home h = do {
     let displacement = sz_sub index home AND (oa_capacity m - 1);
     (index, m, h) \<leftarrow>
       (if displacement \<ge> OA_DEEP_INSERT then oa_note_deep_insert sec m index displacement h else Some (index, m, h));
     let (ended, window) = chmap_window_add (insert_window m) displacement;
     let m = m\<lparr>insert_window := window\<rparr>;
     (if ended then oa_window_end sec m index h else Some (index, m, h))
   }"

definition oa_write_entry :: "open_addr_map \<Rightarrow> size_t \<Rightarrow> u64 \<Rightarrow> u64 \<Rightarrow> open_addr_map" where
  "oa_write_entry m index key val =
     m\<lparr>oa_slots := (oa_slots m)[index := \<lparr>key_data = key, val_data = val\<rparr>],
         oa_metadata := (oa_metadata m)[index := SLOT_OCCUPIED], oa_count := oa_count m + 1\<rparr>"

type_synonym oa_result = "ccol_retval \<times> open_addr_map \<times> heap \<times> size_t option"

definition oa_insert_with_growth ::
  "chmap_hash_secret \<Rightarrow> open_addr_map \<Rightarrow> chm_ptr \<times> size_t \<Rightarrow> chm_ptr \<times> size_t \<Rightarrow> size_t \<Rightarrow> size_t \<Rightarrow> bool \<Rightarrow> heap \<Rightarrow>
   oa_result option" where
  "oa_insert_with_growth sec m key_pair val_pair index home found_empty h = do {
     let key_copy = le_word (oa_read (oa_slots m) (fst key_pair) (snd key_pair));
     let val_copy = le_word (oa_read (oa_slots m) (fst val_pair) (snd val_pair));
     (rv, m, h) \<leftarrow> oa_rebuild sec m (oa_rehash_capacity_for (oa_count m + 1)) False h;
     (if rv = ccol_success then do {
        let hash_val = oa_hash sec m (word_bytes 8 key_copy @ replicate 8 0) (snd key_pair) (oa_keyed m);
        let home = hash_index_for hash_val (oa_capacity m);
        index \<leftarrow> oa_find_insertion_slot m hash_val;
        (if index \<ge> oa_capacity m then Some (ccol_container_full, m, h, None)
         else do {
           (index, m, h) \<leftarrow> oa_after_write sec (oa_write_entry m index key_copy val_copy) index home h;
           Some (ccol_success, m, h, Some index)
         })
      }
      else if \<not> found_empty then Some (ccol_not_enough_memory, m, h, None)
      else do {
        (index, m, h) \<leftarrow> oa_after_write sec (oa_write_entry m index key_copy val_copy) index home h;
        Some (ccol_success, m, h, Some index)
      })
   }"

datatype probe_result = FoundEmpty size_t | FoundKey size_t | WholeTable

partial_function (option) oa_insert_probe ::
  "oa_slot list \<Rightarrow> byte list \<Rightarrow> size_t \<Rightarrow> u64 \<Rightarrow> size_t \<Rightarrow> size_t \<Rightarrow> probe_result option" where
  "oa_insert_probe slots md capacity key start index =
     (if \<not> occupied md index then Some (FoundEmpty index)
      else if oa_keys_equal (slots ! index) key then Some (FoundKey index)
      else let index = (index + 1) AND (capacity - 1)
           in if index \<noteq> start then oa_insert_probe slots md capacity key start index else Some WholeTable)"

definition ranges_overlap :: "nat \<Rightarrow> size_t \<Rightarrow> nat \<Rightarrow> size_t \<Rightarrow> bool" where
  "ranges_overlap a a_size b b_size =
     (if a_size = 0 \<or> b_size = 0 then False else a < b + b_size \<and> b < a + a_size)"

text \<open>The offset of the value bytes of a slot in the table's block.\<close>

definition val_offset_of :: "size_t \<Rightarrow> nat" where
  "val_offset_of i = 16 * i + 8"

definition src_overlaps :: "chm_ptr \<Rightarrow> size_t \<Rightarrow> size_t \<Rightarrow> size_t \<Rightarrow> bool" where
  "src_overlaps p n i dest_size =
     (case p of InMap j \<Rightarrow> ranges_overlap (val_offset_of j) n (val_offset_of i) dest_size | _ \<Rightarrow> False)"

text \<open>
  The update of a present key.  A \<^verbatim>\<open>memcpy\<close> from a range that overlaps its
  destination is undefined; a source in the slot is read into a snapshot first.
\<close>

definition oa_update_value :: "open_addr_map \<Rightarrow> size_t \<Rightarrow> chm_ptr \<times> size_t \<Rightarrow> open_addr_map option" where
  "oa_update_value m index val_pair = do {
     let (src, n) = val_pair;
     let src = (if src_overlaps src n index (oa_val_size m) then Outside (oa_read (oa_slots m) src n) else src);
     (if src_overlaps src n index n then None
      else let old = oa_slots m ! index;
               bytes = oa_read (oa_slots m) src n;
               val = le_word (bytes @ drop n (word_bytes 8 (val_data old)))
           in Some (m\<lparr>oa_slots := (oa_slots m)[index := old\<lparr>val_data := val\<rparr>]\<rparr>))
   }"

definition oa_insert_impl ::
  "chmap_hash_secret \<Rightarrow> open_addr_map \<Rightarrow> chm_ptr \<times> size_t \<Rightarrow> chm_ptr \<times> size_t \<Rightarrow> bool \<Rightarrow> heap \<Rightarrow> oa_result option" where
  "oa_insert_impl sec m key_pair val_pair slot_out h = do {
     let key = oa_read (oa_slots m) (fst key_pair) (snd key_pair);
     let hash_val = oa_hash sec m key (snd key_pair) (oa_keyed m);
     let start_index = hash_index_for hash_val (oa_capacity m);
     let probe_key = oa_widen_key key (snd key_pair);
     r \<leftarrow> oa_insert_probe (oa_slots m) (oa_metadata m) (oa_capacity m) probe_key start_index start_index;
     (case r of
        FoundKey index \<Rightarrow>
          if slot_out then Some (ccol_key_already_present, m, h, Some index)
          else do {
            m \<leftarrow> oa_update_value m index val_pair;
            Some (ccol_key_already_present, m, h, None)
          }
      | _ \<Rightarrow>
          (let found_empty = (r \<noteq> WholeTable);
               index = (case r of FoundEmpty i \<Rightarrow> i | _ \<Rightarrow> start_index)
           in if oa_count m = ccol_max_elem_count then Some (ccol_container_full, m, h, None)
              else if oa_above_grow_load (oa_count m) (oa_capacity m)
                \<and> oa_capacity m < ccol_max_power_of_two_size_t
              then oa_insert_with_growth sec m key_pair val_pair index start_index found_empty h
              else if found_empty then do {
                let val = le_word (oa_read (oa_slots m) (fst val_pair) (snd val_pair));
                (index, m, h) \<leftarrow> oa_after_write sec (oa_write_entry m index (le_word key) val) index start_index h;
                Some (ccol_success, m, h, Some index)
              }
              else Some (ccol_container_full, m, h, None)))
   }"

definition oa_insert ::
  "chmap_hash_secret \<Rightarrow> open_addr_map \<Rightarrow> chm_ptr \<times> size_t \<Rightarrow> chm_ptr \<times> size_t \<Rightarrow> heap \<Rightarrow> oa_result option" where
  "oa_insert sec m key_pair val_pair h = oa_insert_impl sec m key_pair val_pair False h"

definition oa_insert_or_get ::
  "chmap_hash_secret \<Rightarrow> open_addr_map \<Rightarrow> chm_ptr \<times> size_t \<Rightarrow> chm_ptr \<times> size_t \<Rightarrow> heap \<Rightarrow> oa_result option" where
  "oa_insert_or_get sec m key_pair val_pair h = oa_insert_impl sec m key_pair val_pair True h"

section \<open>Lookup\<close>

text \<open>
  The probe of a lookup and of a deletion: the slot of the key, or \<^term>\<open>None\<close> at
  the first empty slot or after \<open>left\<close> slots.  The span is never 0.
\<close>

fun oa_probe_loop :: "open_addr_map \<Rightarrow> u64 \<Rightarrow> size_t \<Rightarrow> size_t \<Rightarrow> size_t option" where
  "oa_probe_loop m key index left =
     (if \<not> occupied (oa_metadata m) index then None
      else if oa_keys_equal (oa_slots m ! index) key then Some index
      else if left \<le> 1 then None
      else oa_probe_loop m key ((index + 1) AND (oa_capacity m - 1)) (left - 1))"

declare oa_probe_loop.simps [simp del]

definition oa_get :: "chmap_hash_secret \<Rightarrow> open_addr_map \<Rightarrow> chm_ptr \<times> size_t \<Rightarrow> ccol_retval \<times> size_t option" where
  "oa_get sec m key_pair =
     (let key = oa_read (oa_slots m) (fst key_pair) (snd key_pair);
          hash_val = oa_hash sec m key (snd key_pair) (oa_keyed m);
          index = hash_index_for hash_val (oa_capacity m)
      in case oa_probe_loop m (oa_widen_key key (snd key_pair)) index (oa_probe_span m) of
           Some i \<Rightarrow> (ccol_success, Some i)
         | None \<Rightarrow> (ccol_key_not_found, None))"

section \<open>Deletion\<close>

partial_function (option) oa_backward_shift_walk ::
  "(oa_slot \<Rightarrow> size_t) \<Rightarrow> size_t \<Rightarrow> size_t \<Rightarrow> oa_slot list \<Rightarrow> byte list \<Rightarrow> size_t \<Rightarrow> size_t \<Rightarrow>
   (oa_slot list \<times> byte list) option" where
  "oa_backward_shift_walk home_of capacity span slots md hole j =
     (let msk = capacity - 1;
          j = (j + 1) AND msk
      in if \<not> occupied md j then Some (slots, md)
         else let gap = sz_sub j hole AND msk
              in if gap \<ge> span then Some (slots, md)
                 else if sz_sub j (home_of (slots ! j)) AND msk \<ge> gap
                 then oa_backward_shift_walk home_of capacity span (slots[hole := slots ! j])
                        (md[hole := SLOT_OCCUPIED, j := 0]) j j
                 else oa_backward_shift_walk home_of capacity span slots md hole j)"

text \<open>The home slot that a walk computes for a stored entry.\<close>

definition oa_walk_home ::
  "chmap_hash_secret \<Rightarrow> size_t \<Rightarrow> size_t \<Rightarrow> ccol_data_type \<Rightarrow> hashing_proc option \<Rightarrow> bool \<Rightarrow> u64 \<Rightarrow> oa_slot \<Rightarrow> size_t" where
  "oa_walk_home sec capacity key_size key_type custom keyed seed slot =
     hash_index_for (hash_key_data sec (word_bytes 8 (key_data slot)) key_size key_type custom keyed seed) capacity"

definition oa_shift_walk_generic :: "chmap_hash_secret \<Rightarrow> open_addr_map \<Rightarrow> size_t \<Rightarrow> (oa_slot list \<times> byte list) option" where
  "oa_shift_walk_generic sec m hole =
     oa_backward_shift_walk
       (oa_walk_home sec (oa_capacity m) (oa_key_size m) (oa_key_type m) (oa_custom m) (oa_keyed m) (int_seed sec))
       (oa_capacity m) (oa_probe_span m) (oa_slots m) (oa_metadata m) hole hole"

text \<open>The walk of one key type with the built-in hash: the size argument is 8 and the fast walk has seed 0.\<close>

definition oa_shift_walk_typed ::
  "chmap_hash_secret \<Rightarrow> open_addr_map \<Rightarrow> ccol_data_type \<Rightarrow> size_t \<Rightarrow> (oa_slot list \<times> byte list) option" where
  "oa_shift_walk_typed sec m type_enum hole =
     oa_backward_shift_walk
       (oa_walk_home sec (oa_capacity m) 8 type_enum None (oa_keyed m) (if oa_keyed m then int_seed sec else 0))
       (oa_capacity m) (oa_probe_span m) (oa_slots m) (oa_metadata m) hole hole"

definition oa_backward_shift_close_gap ::
  "chmap_hash_secret \<Rightarrow> open_addr_map \<Rightarrow> size_t \<Rightarrow> (oa_slot list \<times> byte list) option" where
  "oa_backward_shift_close_gap sec m hole =
     (if oa_custom m \<noteq> None then oa_shift_walk_generic sec m hole
      else (case oa_key_type m of
          ccol_char \<Rightarrow> oa_shift_walk_typed sec m ccol_char hole
        | ccol_signed_char \<Rightarrow> oa_shift_walk_typed sec m ccol_char hole
        | ccol_unsigned_char \<Rightarrow> oa_shift_walk_typed sec m ccol_char hole
        | ccol_short \<Rightarrow> oa_shift_walk_typed sec m ccol_short hole
        | ccol_unsigned_short \<Rightarrow> oa_shift_walk_typed sec m ccol_short hole
        | ccol_int \<Rightarrow> oa_shift_walk_typed sec m ccol_int hole
        | ccol_unsigned_int \<Rightarrow> oa_shift_walk_typed sec m ccol_int hole
        | ccol_long \<Rightarrow> oa_shift_walk_typed sec m ccol_long hole
        | ccol_unsigned_long \<Rightarrow> oa_shift_walk_typed sec m ccol_long hole
        | ccol_long_long \<Rightarrow> oa_shift_walk_typed sec m ccol_long_long hole
        | ccol_unsigned_long_long \<Rightarrow> oa_shift_walk_typed sec m ccol_long_long hole
        | ccol_float \<Rightarrow> oa_shift_walk_typed sec m ccol_float hole
        | ccol_double \<Rightarrow> oa_shift_walk_typed sec m ccol_double hole
        | ccol_pointer \<Rightarrow> oa_shift_walk_typed sec m ccol_pointer hole
        | _ \<Rightarrow> oa_shift_walk_generic sec m hole))"

definition oa_delete ::
  "chmap_hash_secret \<Rightarrow> open_addr_map \<Rightarrow> chm_ptr \<times> size_t \<Rightarrow> heap \<Rightarrow> (ccol_retval \<times> open_addr_map \<times> heap) option" where
  "oa_delete sec m key_pair h =
     (let key = oa_read (oa_slots m) (fst key_pair) (snd key_pair);
          hash_val = oa_hash sec m key (snd key_pair) (oa_keyed m);
          index = hash_index_for hash_val (oa_capacity m)
      in case oa_probe_loop m (oa_widen_key key (snd key_pair)) index (oa_probe_span m) of
           None \<Rightarrow> Some (ccol_key_not_found, m, h)
         | Some index \<Rightarrow> do {
             let m = m\<lparr>oa_metadata := (oa_metadata m)[index := 0]\<rparr>;
             (slots, md) \<leftarrow>
               (if occupied (oa_metadata m) ((index + 1) AND (oa_capacity m - 1))
                then oa_backward_shift_close_gap sec m index else Some (oa_slots m, oa_metadata m));
             let m = m\<lparr>oa_slots := slots, oa_metadata := md, oa_count := sz_sub (oa_count m) 1\<rparr>;
             (if oa_count m < oa_capacity m div 4 \<and> oa_capacity m > minimum_allowed_bucket_array_size
              then do {
                (rv, m, h) \<leftarrow> oa_rebuild sec m (oa_capacity m div 2) (oa_keyed m) h;
                Some (ccol_success, m, h)
              }
              else Some (ccol_success, m, h))
           })"

section \<open>Clearing and destroying\<close>

definition oa_destroy :: "open_addr_map \<Rightarrow> heap \<Rightarrow> heap" where
  "oa_destroy m h = mem_free h (oa_table m)"

definition oa_clear_in_place :: "open_addr_map \<Rightarrow> open_addr_map" where
  "oa_clear_in_place m =
     oa_window_restart (m\<lparr>oa_slots := empty_slots (oa_capacity m), oa_metadata := replicate (oa_capacity m) 0,
       oa_count := 0, oa_probe_span := oa_min_probe_span (oa_capacity m)\<rparr>)"

definition oa_reset :: "open_addr_map \<Rightarrow> size_t \<Rightarrow> heap \<Rightarrow> ccol_retval \<times> open_addr_map \<times> heap" where
  "oa_reset m new_capacity h =
     (if new_capacity = 0 \<or> new_capacity = oa_capacity m then (ccol_success, oa_clear_in_place m, h)
      else (case oa_alloc_block new_capacity h of
          (None, h) \<Rightarrow> (ccol_not_enough_memory, oa_clear_in_place m, h)
        | (Some (b, slots, md), h) \<Rightarrow>
            (ccol_success,
             oa_window_restart (m\<lparr>oa_slots := slots, oa_metadata := md, oa_table := b, oa_capacity := new_capacity,
               oa_count := 0, oa_probe_span := oa_min_probe_span new_capacity\<rparr>),
             mem_free h (oa_table m))))"

end
