(* ===== verification/CCol_Probing.thy ===== *)
theory CCol_Probing
  imports CCol_Prelude
begin

text \<open>
  Linear probing without tombstones, apart from any representation: a table of
  \<open>c\<close> cells is a function from positions to entries, and every key has a home
  position.  The interface \<open>linear_probing\<close> states what a probe relies on, and
  the lemmas show what an insertion at the first free cell and the steps of a
  backward-shift deletion keep.
\<close>

section \<open>Cyclic positions\<close>

definition cyc_dist :: "nat \<Rightarrow> nat \<Rightarrow> nat \<Rightarrow> nat" where
  "cyc_dist c a b = (if a \<le> b then b - a else b + c - a)"

definition cyc_next :: "nat \<Rightarrow> nat \<Rightarrow> nat" where
  "cyc_next c i = (if Suc i < c then Suc i else 0)"

lemma cyc_next_less [simp]: "0 < c \<Longrightarrow> cyc_next c i < c"
  by (simp add: cyc_next_def)

lemma cyc_dist_less [simp]: "a < c \<Longrightarrow> b < c \<Longrightarrow> cyc_dist c a b < c"
  by (auto simp: cyc_dist_def)

lemma cyc_dist_self [simp]: "cyc_dist c a a = 0"
  by (simp add: cyc_dist_def)

lemma cyc_dist_0: "a < c \<Longrightarrow> b < c \<Longrightarrow> cyc_dist c a b = 0 \<longleftrightarrow> a = b"
  by (auto simp: cyc_dist_def)

lemma cyc_dist_inj: "a < c \<Longrightarrow> i < c \<Longrightarrow> j < c \<Longrightarrow> cyc_dist c a i = cyc_dist c a j \<longleftrightarrow> i = j"
  by (auto simp: cyc_dist_def split: if_splits)

lemma cyc_dist_next:
  "a < c \<Longrightarrow> i < c \<Longrightarrow> cyc_dist c a (cyc_next c i) = (if cyc_next c i = a then 0 else Suc (cyc_dist c a i))"
  by (auto simp: cyc_dist_def cyc_next_def split: if_splits)

lemma cyc_dist_next_wrap: "a < c \<Longrightarrow> i < c \<Longrightarrow> cyc_next c i = a \<longleftrightarrow> Suc (cyc_dist c a i) = c"
  by (auto simp: cyc_dist_def cyc_next_def split: if_splits)

lemma cyc_dist_split:
  "a < c \<Longrightarrow> i < c \<Longrightarrow> j < c \<Longrightarrow> cyc_dist c a j \<le> cyc_dist c a i \<Longrightarrow> cyc_dist c a i = cyc_dist c a j + cyc_dist c j i"
  by (auto simp: cyc_dist_def split: if_splits)

lemma cyc_dist_back:
  "a < c \<Longrightarrow> i < c \<Longrightarrow> j < c \<Longrightarrow> cyc_dist c j i \<le> cyc_dist c a i \<Longrightarrow> cyc_dist c a i = cyc_dist c a j + cyc_dist c j i"
  by (auto simp: cyc_dist_def split: if_splits)

lemma cyc_dist_ex:
  assumes "a < c" "d < c"
  shows "\<exists>i < c. cyc_dist c a i = d"
  using assms by (intro exI [of _ "if a + d < c then a + d else a + d - c"]) (auto simp: cyc_dist_def)

section \<open>Tables\<close>

type_synonym ('k, 'v) cells = "nat \<Rightarrow> ('k \<times> 'v) option"

definition cell_list :: "nat \<Rightarrow> ('k, 'v) cells \<Rightarrow> ('k \<times> 'v) list" where
  "cell_list c t = List.map_filter t [0..<c]"

definition contents :: "nat \<Rightarrow> ('k, 'v) cells \<Rightarrow> 'k \<Rightarrow> 'v option" where
  "contents c t = map_of (cell_list c t)"

text \<open>No free cell lies between the home of a key and the cell that holds it.\<close>

definition reachable_cells :: "nat \<Rightarrow> ('k \<Rightarrow> nat) \<Rightarrow> ('k, 'v) cells \<Rightarrow> bool" where
  "reachable_cells c home t \<longleftrightarrow>
     (\<forall>i < c. \<forall>k v. t i = Some (k, v) \<longrightarrow> (\<forall>j < c. cyc_dist c (home k) j < cyc_dist c (home k) i \<longrightarrow> t j \<noteq> None))"

definition keys_once :: "nat \<Rightarrow> ('k, 'v) cells \<Rightarrow> bool" where
  "keys_once c t \<longleftrightarrow> (\<forall>i < c. \<forall>j < c. \<forall>k v w. t i = Some (k, v) \<and> t j = Some (k, w) \<longrightarrow> i = j)"

definition within_span :: "nat \<Rightarrow> ('k \<Rightarrow> nat) \<Rightarrow> nat \<Rightarrow> ('k, 'v) cells \<Rightarrow> bool" where
  "within_span c home s t \<longleftrightarrow> (\<forall>i < c. \<forall>k v. t i = Some (k, v) \<longrightarrow> cyc_dist c (home k) i < s)"

lemma cell_list_iff: "(k, v) \<in> set (cell_list c t) \<longleftrightarrow> (\<exists>i < c. t i = Some (k, v))"
  by (auto simp: cell_list_def List.map_filter_def intro: rev_image_eqI)

lemma cell_list_length: "length (cell_list c t) = card {i. i < c \<and> t i \<noteq> None}"
proof -
  have "length (cell_list c t) = length (filter (\<lambda>i. t i \<noteq> None) [0..<c])"
    by (simp add: cell_list_def List.map_filter_def)
  also have "\<dots> = card (set (filter (\<lambda>i. t i \<noteq> None) [0..<c]))" by (rule distinct_card [symmetric]) simp
  also have "set (filter (\<lambda>i. t i \<noteq> None) [0..<c]) = {i. i < c \<and> t i \<noteq> None}" by auto
  finally show ?thesis .
qed

lemma keys_once_distinct:
  assumes "keys_once c t"
  shows "distinct (map fst (cell_list c t))"
proof -
  have "distinct (map (\<lambda>i. fst (the (t i))) (filter (\<lambda>i. t i \<noteq> None) [0..<c]))"
    using assms by (auto simp: distinct_map inj_on_def keys_once_def)
  then show ?thesis by (simp add: cell_list_def List.map_filter_def comp_def)
qed

lemma contents_iff: "keys_once c t \<Longrightarrow> contents c t k = Some v \<longleftrightarrow> (\<exists>i < c. t i = Some (k, v))"
  by (simp add: contents_def keys_once_distinct cell_list_iff flip: cell_list_iff)

lemma contents_None: "contents c t k = None \<longleftrightarrow> (\<forall>i < c. \<forall>v. t i \<noteq> Some (k, v))"
proof -
  have "contents c t k = None \<longleftrightarrow> k \<notin> fst ` set (cell_list c t)" by (simp add: contents_def map_of_eq_None_iff)
  also have "\<dots> \<longleftrightarrow> (\<forall>v. (k, v) \<notin> set (cell_list c t))" by force
  also have "\<dots> \<longleftrightarrow> (\<forall>i < c. \<forall>v. t i \<noteq> Some (k, v))" unfolding cell_list_iff by blast
  finally show ?thesis .
qed

lemma contents_ext:
  assumes "keys_once c t" "keys_once c' t'" "\<And>k v. (\<exists>i < c. t i = Some (k, v)) \<longleftrightarrow> (\<exists>i < c'. t' i = Some (k, v))"
  shows "contents c t = contents c' t'"
proof
  fix k
  show "contents c t k = contents c' t' k"
  proof (cases "contents c' t' k")
    case None
    then have "contents c t k = None" using assms(3) unfolding contents_None by blast
    then show ?thesis using None by simp
  next
    case (Some v)
    then have "contents c t k = Some v" using contents_iff [OF assms(1)] contents_iff [OF assms(2)] assms(3) by blast
    then show ?thesis using Some by simp
  qed
qed

lemma full_or_free: "length (cell_list c t) < c \<longleftrightarrow> (\<exists>i < c. t i = None)"
proof -
  have sub: "{i. i < c \<and> t i \<noteq> None} \<subseteq> {..<c}" by auto
  show ?thesis
  proof
    assume less: "length (cell_list c t) < c"
    show "\<exists>i < c. t i = None"
    proof (rule ccontr)
      assume "\<not> (\<exists>i < c. t i = None)"
      then have "{i. i < c \<and> t i \<noteq> None} = {..<c}" by (intro set_eqI iffI) auto
      then show False using less unfolding cell_list_length by simp
    qed
  next
    assume "\<exists>i < c. t i = None"
    then obtain i where "i \<in> {..<c}" "i \<notin> {i. i < c \<and> t i \<noteq> None}" by auto
    then have "{i. i < c \<and> t i \<noteq> None} \<subset> {..<c}" using sub by blast
    then have "card {i. i < c \<and> t i \<noteq> None} < card {..<c}" by (rule psubset_card_mono [rotated]) simp
    then show "length (cell_list c t) < c" by (simp add: cell_list_length)
  qed
qed

lemma cell_list_update_length:
  assumes "i < c" "t i = None"
  shows "length (cell_list c (t(i := Some e))) = Suc (length (cell_list c t))"
proof -
  have "{j. j < c \<and> (t(i := Some e)) j \<noteq> None} = insert i {j. j < c \<and> t j \<noteq> None}" using assms by auto
  then show ?thesis using assms by (simp add: cell_list_length)
qed

lemma cell_list_remove_length:
  assumes "i < c" "t i \<noteq> None"
  shows "Suc (length (cell_list c (t(i := None)))) = length (cell_list c t)"
  using cell_list_update_length [of i c "t(i := None)" "the (t i)"] assms by (simp add: fun_upd_idem)

lemma cyc_dist_add:
  "a < c \<Longrightarrow> b < c \<Longrightarrow> x < c \<Longrightarrow> cyc_dist c a b + cyc_dist c b x < c \<Longrightarrow> cyc_dist c a x = cyc_dist c a b + cyc_dist c b x"
  by (auto simp: cyc_dist_def split: if_splits)

text \<open>A scan from \<open>h\<close> that meets \<open>i\<close> after the cells that lie between them.\<close>

lemma scan_induct:
  assumes "h < c" "i < c" "P i"
    and step: "\<And>j. j < c \<Longrightarrow> cyc_dist c h j < cyc_dist c h i \<Longrightarrow> P (cyc_next c j) \<Longrightarrow> P j"
  shows "P h"
proof -
  have "\<forall>j < c. cyc_dist c h j + m = cyc_dist c h i \<longrightarrow> P j" for m
  proof (induction m)
    case 0
    then show ?case using assms(1-3) by (auto simp: cyc_dist_inj)
  next
    case (Suc m)
    show ?case
    proof (intro allI impI)
      fix j
      assume j: "j < c" "cyc_dist c h j + Suc m = cyc_dist c h i"
      have "Suc (cyc_dist c h j) < c" using j(2) cyc_dist_less [OF assms(1,2)] by linarith
      then have "cyc_next c j \<noteq> h" using cyc_dist_next_wrap [OF assms(1) j(1)] by simp
      then have "cyc_dist c h (cyc_next c j) = Suc (cyc_dist c h j)" using cyc_dist_next [OF assms(1) j(1)] by simp
      then have "P (cyc_next c j)" using Suc j assms(1) by simp
      then show "P j" using step [OF j(1)] j(2) by simp
    qed
  qed
  from this [of "cyc_dist c h i"] show ?thesis using assms(1) by simp
qed

lemma remove_keys_once: "keys_once c t \<Longrightarrow> keys_once c (t(i := None))"
  by (auto simp: keys_once_def)

lemma remove_contents:
  assumes "keys_once c t" "i < c" "t i = Some (k, v)"
  shows "contents c (t(i := None)) = (contents c t)(k := None)"
proof
  fix k'
  have once: "keys_once c (t(i := None))" by (rule remove_keys_once [OF assms(1)])
  show "contents c (t(i := None)) k' = ((contents c t)(k := None)) k'"
  proof (cases "k' = k")
    case True
    have "contents c (t(i := None)) k = None" using assms by (auto simp: contents_None keys_once_def)
    then show ?thesis using True by simp
  next
    case False
    have "(t(i := None)) j = Some (k', u) \<longleftrightarrow> t j = Some (k', u)" for u j using False assms(3) by auto
    then have "contents c (t(i := None)) k' = Some u \<longleftrightarrow> contents c t k' = Some u" for u
      unfolding contents_iff [OF once] contents_iff [OF assms(1)] by simp
    then have "contents c (t(i := None)) k' = contents c t k'"
      by (cases "contents c t k'"; cases "contents c (t(i := None)) k'") auto
    then show ?thesis using False by simp
  qed
qed

text \<open>The first free cell from a home position.\<close>

definition first_free :: "nat \<Rightarrow> ('k, 'v) cells \<Rightarrow> nat \<Rightarrow> nat \<Rightarrow> bool" where
  "first_free c t h i \<longleftrightarrow> i < c \<and> t i = None \<and> (\<forall>j < c. cyc_dist c h j < cyc_dist c h i \<longrightarrow> t j \<noteq> None)"

text \<open>
  A table with a hole: a free cell on the way to an entry is the hole, and then the
  entry lies more than \<open>g\<close> cells after it.
\<close>

definition gapped :: "nat \<Rightarrow> ('k \<Rightarrow> nat) \<Rightarrow> ('k, 'v) cells \<Rightarrow> nat \<Rightarrow> nat \<Rightarrow> bool" where
  "gapped c home t hole g \<longleftrightarrow> hole < c \<and> t hole = None
     \<and> (\<forall>i < c. \<forall>k v. t i = Some (k, v) \<longrightarrow> (\<forall>j < c. cyc_dist c (home k) j < cyc_dist c (home k) i \<longrightarrow>
           t j \<noteq> None \<or> j = hole \<and> g < cyc_dist c hole i))"

text \<open>Moving an entry into the hole: the cell it leaves is the new hole.\<close>

definition moved :: "('k, 'v) cells \<Rightarrow> nat \<Rightarrow> nat \<Rightarrow> ('k, 'v) cells" where
  "moved t hole j = t(hole := t j, j := None)"

text \<open>Every move brings the entries closer to their homes, so a walk ends.\<close>

definition total_dist :: "nat \<Rightarrow> ('k \<Rightarrow> nat) \<Rightarrow> ('k, 'v) cells \<Rightarrow> nat" where
  "total_dist c home t = (\<Sum>i < c. case t i of None \<Rightarrow> 0 | Some (k, _) \<Rightarrow> cyc_dist c (home k) i)"

section \<open>The interface\<close>

locale linear_probing =
  fixes c :: nat and home :: "'k \<Rightarrow> nat"
  assumes c_pos: "0 < c" and home_less: "home k < c"
begin

lemma insert_reachable:
  assumes "reachable_cells c home t" "first_free c t (home k) i"
  shows "reachable_cells c home (t(i := Some (k, v)))"
  using assms unfolding reachable_cells_def first_free_def by (metis fun_upd_apply option.distinct(1) option.inject prod.inject)

lemma insert_keys_once:
  assumes "keys_once c t" "contents c t k = None"
  shows "keys_once c (t(i := Some (k, v)))"
  using assms by (auto simp: keys_once_def contents_None)

lemma insert_contents:
  assumes "keys_once c t" "contents c t k = None" "i < c" "t i = None"
  shows "contents c (t(i := Some (k, v))) = (contents c t)(k \<mapsto> v)"
proof
  fix k'
  have once: "keys_once c (t(i := Some (k, v)))" by (rule insert_keys_once [OF assms(1,2)])
  show "contents c (t(i := Some (k, v))) k' = ((contents c t)(k \<mapsto> v)) k'"
  proof (cases "k' = k")
    case True
    then show ?thesis using contents_iff [OF once, of k v] assms(3) by auto
  next
    case False
    show ?thesis
    proof (cases "contents c t k'")
      case None
      then have "contents c (t(i := Some (k, v))) k' = None" using False by (auto simp: contents_None)
      then show ?thesis using None False by simp
    next
      case (Some w)
      then obtain j where "j < c" "t j = Some (k', w)" using contents_iff [OF assms(1)] by blast
      then have "j < c \<and> (t(i := Some (k, v))) j = Some (k', w)" using assms(4) by auto
      then have "contents c (t(i := Some (k, v))) k' = Some w" using contents_iff [OF once] by blast
      then show ?thesis using Some False by simp
    qed
  qed
qed

lemma insert_within_span:
  assumes "within_span c home s t" "cyc_dist c (home k) i < s'" "s \<le> s'"
  shows "within_span c home s' (t(i := Some (k, v)))"
  using assms unfolding within_span_def by (auto intro: less_le_trans)

lemma update_value:
  assumes "keys_once c t" "i < c" "t i = Some (k, w)"
  shows "keys_once c (t(i := Some (k, v)))" "contents c (t(i := Some (k, v))) = (contents c t)(k \<mapsto> v)"
    "reachable_cells c home t \<Longrightarrow> reachable_cells c home (t(i := Some (k, v)))"
    "within_span c home s t \<Longrightarrow> within_span c home s (t(i := Some (k, v)))"
    "length (cell_list c (t(i := Some (k, v)))) = length (cell_list c t)"
proof -
  show once: "keys_once c (t(i := Some (k, v)))" using assms by (auto simp: keys_once_def)
  show "reachable_cells c home t \<Longrightarrow> reachable_cells c home (t(i := Some (k, v)))"
    using assms(2,3) by (auto simp: reachable_cells_def)
  show "within_span c home s t \<Longrightarrow> within_span c home s (t(i := Some (k, v)))"
    using assms(2,3) by (auto simp: within_span_def)
  have "{j. j < c \<and> (t(i := Some (k, v))) j \<noteq> None} = {j. j < c \<and> t j \<noteq> None}" using assms(3) by auto
  then show "length (cell_list c (t(i := Some (k, v)))) = length (cell_list c t)" by (simp add: cell_list_length)
  show "contents c (t(i := Some (k, v))) = (contents c t)(k \<mapsto> v)"
  proof
    fix k'
    show "contents c (t(i := Some (k, v))) k' = ((contents c t)(k \<mapsto> v)) k'"
    proof (cases "k' = k")
      case True
      then show ?thesis using contents_iff [OF once, of k v] assms(2) by auto
    next
      case False
      have "(t(i := Some (k, v))) j = Some (k', u) \<longleftrightarrow> t j = Some (k', u)" for u j
        using False assms(3) by (cases "j = i") auto
      then have "contents c (t(i := Some (k, v))) k' = Some u \<longleftrightarrow> contents c t k' = Some u" for u
        unfolding contents_iff [OF once] contents_iff [OF assms(1)] by simp
      then have "contents c (t(i := Some (k, v))) k' = contents c t k'"
        by (cases "contents c t k'"; cases "contents c (t(i := Some (k, v))) k'") auto
      then show ?thesis using False by simp
    qed
  qed
qed

lemma first_free_ex:
  assumes "h < c" "i < c" "t i = None"
  shows "\<exists>j. first_free c t h j"
proof -
  let ?P = "\<lambda>j. j < c \<and> t j = None"
  have "?P (arg_min (cyc_dist c h) ?P) \<and> (\<forall>j. ?P j \<longrightarrow> cyc_dist c h (arg_min (cyc_dist c h) ?P) \<le> cyc_dist c h j)"
    by (rule arg_min_nat_lemma [where k = i]) (use assms in auto)
  then show ?thesis unfolding first_free_def by (metis not_le)
qed

lemma before_entry:
  assumes "reachable_cells c home t" "keys_once c t" "i < c" "t i = Some (k, v)"
    "j < c" "cyc_dist c (home k) j < cyc_dist c (home k) i"
  shows "\<exists>k' w. t j = Some (k', w) \<and> k' \<noteq> k"
proof -
  have "t j \<noteq> None" using assms unfolding reachable_cells_def by blast
  then obtain k' w where "t j = Some (k', w)" by auto
  moreover have "k' \<noteq> k" using assms calculation unfolding keys_once_def by blast
  ultimately show ?thesis by blast
qed

lemma gapped_start:
  assumes "reachable_cells c home t" "i < c"
  shows "gapped c home (t(i := None)) i 0"
proof -
  have "0 < cyc_dist c i i'" if "i' < c" "i' \<noteq> i" for i' using cyc_dist_0 [OF assms(2) that(1)] that(2) by simp
  then show ?thesis using assms unfolding gapped_def reachable_cells_def by auto
qed

lemma gapped_reachable:
  assumes "gapped c home t hole g"
    and "\<And>i k v. i < c \<Longrightarrow> t i = Some (k, v) \<Longrightarrow> cyc_dist c (home k) hole < cyc_dist c (home k) i \<Longrightarrow> g < cyc_dist c hole i \<Longrightarrow> False"
  shows "reachable_cells c home t"
  using assms unfolding gapped_def reachable_cells_def by blast

lemma through_hole:
  assumes "hole < c" "i < c" "cyc_dist c (home k) hole < cyc_dist c (home k) i"
  shows "cyc_dist c (home k) i = cyc_dist c (home k) hole + cyc_dist c hole i"
  using cyc_dist_split [OF home_less assms(2,1)] assms(3) by simp

lemma gapped_stop_free:
  assumes g: "gapped c home t hole g" and j: "j < c" "t j = None" "cyc_dist c hole j = Suc g \<or> j = hole \<and> Suc g = c"
  shows "reachable_cells c home t"
proof (rule gapped_reachable [OF g])
  fix i k v
  assume i: "i < c" "t i = Some (k, v)" "cyc_dist c (home k) hole < cyc_dist c (home k) i" "g < cyc_dist c hole i"
  have hole: "hole < c" using g by (simp add: gapped_def)
  have lt: "cyc_dist c hole i < c" "cyc_dist c (home k) i < c" using hole i(1) home_less by simp_all
  show False
  proof (cases "cyc_dist c hole j = Suc g")
    case True
    have "i \<noteq> j" using i(2) j(2) by auto
    then have "cyc_dist c hole j < cyc_dist c hole i"
      using True i(4) cyc_dist_inj [OF hole i(1) j(1)] by (simp add: Suc_lessI)
    moreover have "cyc_dist c (home k) i = cyc_dist c (home k) hole + cyc_dist c hole i"
      by (rule through_hole [OF hole i(1,3)])
    ultimately have "cyc_dist c (home k) j < cyc_dist c (home k) i"
      using cyc_dist_add [OF home_less hole j(1), of k] lt(2) by simp
    then have "j = hole" using g i(1,2) j(1,2) unfolding gapped_def by blast
    then show False using True by simp
  qed (use j(3) lt(1) i(4) in simp)
qed

lemma gapped_stop_span:
  assumes g: "gapped c home t hole g" and "within_span c home s t" "s \<le> Suc g"
  shows "reachable_cells c home t"
proof (rule gapped_reachable [OF g])
  fix i k v
  assume i: "i < c" "t i = Some (k, v)" "cyc_dist c (home k) hole < cyc_dist c (home k) i" "g < cyc_dist c hole i"
  have "hole < c" using g by (simp add: gapped_def)
  then have "cyc_dist c hole i \<le> cyc_dist c (home k) i" using through_hole [OF _ i(1,3)] by simp
  moreover have "cyc_dist c (home k) i < s" using assms(2) i(1,2) by (simp add: within_span_def)
  ultimately show False using i(4) assms(3) by simp
qed

lemma gapped_stay:
  assumes g: "gapped c home t hole g" and j: "j < c" "t j = Some (k, v)" "cyc_dist c hole j = Suc g" "cyc_dist c (home k) j < cyc_dist c hole j"
  shows "gapped c home t hole (Suc g)"
proof -
  have hole: "hole < c" using g by (simp add: gapped_def)
  have "Suc g < cyc_dist c hole i"
    if i: "i < c" "t i = Some (k', w)" "cyc_dist c (home k') hole < cyc_dist c (home k') i" "g < cyc_dist c hole i" for i k' w
  proof -
    have "i \<noteq> j" using i(2,3) j(2,4) through_hole [OF hole i(1,3)] by auto
    then show ?thesis using i(4) j(3) cyc_dist_inj [OF hole i(1) j(1)] by (simp add: Suc_lessI)
  qed
  then show ?thesis using g unfolding gapped_def by blast
qed

lemma moved_entries:
  assumes "hole < c" "t hole = None" "j < c" "j \<noteq> hole"
  shows "(\<exists>i < c. moved t hole j i = Some (k, v)) \<longleftrightarrow> (\<exists>i < c. t i = Some (k, v))"
proof
  assume "\<exists>i < c. moved t hole j i = Some (k, v)"
  then show "\<exists>i < c. t i = Some (k, v)" using assms by (auto simp: moved_def split: if_splits)
next
  assume "\<exists>i < c. t i = Some (k, v)"
  then obtain i where i: "i < c" "t i = Some (k, v)" by blast
  then have "moved t hole j (if i = j then hole else i) = Some (k, v)" using assms by (auto simp: moved_def)
  then show "\<exists>i < c. moved t hole j i = Some (k, v)" using assms i by (intro exI [of _ "if i = j then hole else i"]) auto
qed

lemma moved_keys_once:
  assumes "keys_once c t" "hole < c" "t hole = None" "j < c" "j \<noteq> hole"
  shows "keys_once c (moved t hole j)" "contents c (moved t hole j) = contents c t"
    "length (cell_list c (moved t hole j)) = length (cell_list c t)"
proof -
  have cells: "moved t hole j i = Some e \<Longrightarrow> t (if i = hole then j else i) = Some e \<and> i \<noteq> j" for i e
    using assms(5) by (auto simp: moved_def split: if_splits)
  show once: "keys_once c (moved t hole j)"
    unfolding keys_once_def
  proof (intro allI impI, elim conjE)
    fix i i' k v w
    assume i: "i < c" "i' < c" "moved t hole j i = Some (k, v)" "moved t hole j i' = Some (k, w)"
    let ?a = "if i = hole then j else i" and ?b = "if i' = hole then j else i'"
    have "?a < c" "?b < c" using i(1,2) assms(4) by auto
    then have "?a = ?b" using assms(1) cells [OF i(3)] cells [OF i(4)] unfolding keys_once_def by blast
    then show "i = i'" using cells [OF i(3)] cells [OF i(4)] by (auto split: if_splits)
  qed
  show "contents c (moved t hole j) = contents c t"
    by (rule contents_ext [OF once assms(1)]) (rule moved_entries, rule assms(2), rule assms(3), rule assms(4), rule assms(5))
  show "length (cell_list c (moved t hole j)) = length (cell_list c t)"
  proof (cases "t j")
    case None
    then have "moved t hole j = t" using assms(3) by (auto simp: moved_def fun_eq_iff)
    then show ?thesis by simp
  next
    case (Some e)
    have "Suc (length (cell_list c (moved t hole j))) = length (cell_list c (t(hole := t j)))"
      using cell_list_remove_length [OF assms(4), of "t(hole := t j)"] Some assms(5) by (simp add: moved_def)
    then show ?thesis using cell_list_update_length [of hole c t e] assms(2,3) Some by simp
  qed
qed

lemma gapped_move:
  assumes g: "gapped c home t hole g" and j: "j < c" "t j = Some (k, v)" "j \<noteq> hole" "cyc_dist c hole j \<le> cyc_dist c (home k) j"
  shows "gapped c home (moved t hole j) j 0" "cyc_dist c (home k) hole < cyc_dist c (home k) j"
proof -
  have hole: "hole < c" "t hole = None" using g by (simp_all add: gapped_def)
  have split: "cyc_dist c (home k) j = cyc_dist c (home k) hole + cyc_dist c hole j"
    by (rule cyc_dist_back [OF home_less j(1) hole(1) j(4)])
  show less: "cyc_dist c (home k) hole < cyc_dist c (home k) j" using split cyc_dist_0 [OF hole(1) j(1)] j(3) by simp
  have after: "0 < cyc_dist c j i" if "i < c" "i \<noteq> j" for i using cyc_dist_0 [OF j(1) that(1)] that(2) by simp
  have "moved t hole j x \<noteq> None \<or> x = j \<and> 0 < cyc_dist c j i"
    if i: "i < c" "moved t hole j i = Some (k', w)" and x: "x < c" "cyc_dist c (home k') x < cyc_dist c (home k') i" for i k' w x
  proof (cases "i = hole")
    case True
    then have "k' = k" using i(2) j(2,3) by (simp add: moved_def)
    then have "cyc_dist c (home k) x < cyc_dist c (home k) j" "x \<noteq> hole" "x \<noteq> j" using x(2) True less by auto
    then have "t x \<noteq> None" using g j(1,2) x(1) unfolding gapped_def by blast
    then show ?thesis using \<open>x \<noteq> j\<close> \<open>x \<noteq> hole\<close> by (simp add: moved_def)
  next
    case False
    then have "t i = Some (k', w)" "i \<noteq> j" using i(2) by (auto simp: moved_def split: if_splits)
    then have "t x \<noteq> None \<or> x = hole" using g i(1) x unfolding gapped_def by blast
    then show ?thesis using after [OF i(1) \<open>i \<noteq> j\<close>] j(2,3) by (auto simp: moved_def)
  qed
  then show "gapped c home (moved t hole j) j 0" using j(1) unfolding gapped_def by (simp add: moved_def)
qed

lemma moved_within_span:
  assumes "within_span c home s t" "j < c" "t j = Some (k, v)" "cyc_dist c (home k) hole < cyc_dist c (home k) j"
  shows "within_span c home s (moved t hole j)"
proof -
  have "cyc_dist c (home k) j < s" using assms(1-3) by (simp add: within_span_def)
  then show ?thesis using assms by (auto simp: within_span_def moved_def)
qed

lemma moved_total_dist:
  assumes "hole < c" "t hole = None" "j < c" "t j = Some (k, v)" "cyc_dist c (home k) hole < cyc_dist c (home k) j"
  shows "total_dist c home (moved t hole j) < total_dist c home t"
proof -
  have ne: "j \<noteq> hole" using assms(2,4) by auto
  let ?f = "\<lambda>t i. case t i of None \<Rightarrow> 0 | Some (k, _) \<Rightarrow> cyc_dist c (home k) i"
  let ?A = "{..<c} - {hole} - {j}"
  have split: "sum f {..<c} = f hole + (f j + sum f ?A)" for f :: "nat \<Rightarrow> nat"
    using assms(1,3) ne by (subst sum.remove [of _ hole]; (subst sum.remove [of _ j])?) auto
  have "sum (?f (moved t hole j)) ?A = sum (?f t) ?A" by (rule sum.cong) (auto simp: moved_def)
  then show ?thesis unfolding total_dist_def split using assms ne by (simp add: moved_def)
qed

end

end
