(* ===== verification/CCol_Hashmap_Oa_Inv.thy ===== *)
theory CCol_Hashmap_Oa_Inv
  imports CCol_Hashmap_Oa CCol_Probing
begin

unbundle bit_operations_syntax

text \<open>
  The invariant of the open-addressing table and the loops over it.  The slots and
  the metadata bytes are read as the cells of a table with linear probing, whose
  interface is interpreted for the home slots of a map; every loop of the code is
  shown to end and to find what the interface promises.
\<close>

section \<open>Masks and cells\<close>

lemma and_mask_pow2:
  assumes "pow2 c"
  shows "n AND (c - 1) = n mod (c::nat)"
proof -
  obtain k where "c = 2 ^ k" using assms by (auto simp: pow2_def)
  then show ?thesis by (simp only: take_bit_eq_mod flip: take_bit_eq_mask mask_eq_exp_minus_1)
qed

lemma next_slot: "pow2 c \<Longrightarrow> i < c \<Longrightarrow> (i + 1) AND (c - 1) = cyc_next c i"
  unfolding and_mask_pow2 by (auto simp: cyc_next_def mod_Suc)

lemma dist_slot:
  assumes "pow2 c" "c \<le> 2 ^ 63" "a < c" "b < c"
  shows "sz_sub b a AND (c - 1) = cyc_dist c a b"
proof (cases "a \<le> b")
  case True
  have "b \<le> SIZE_MAX" using assms by (simp add: SIZE_MAX_def)
  then show ?thesis unfolding and_mask_pow2 [OF assms(1)] using True assms by (simp add: sz_sub_exact cyc_dist_def)
next
  case False
  obtain k where k: "c = 2 ^ k" using assms(1) by (auto simp: pow2_def)
  then have k63: "k \<le> 63" using assms(2) power_increasing_iff [of "2::nat" k 63] by simp
  have M: "SIZE_MAX + 1 = c * 2 ^ (64 - k)" using k k63 by (simp add: SIZE_MAX_def flip: power_add)
  have "b + (SIZE_MAX + 1) - a < SIZE_MAX + 1" using False by simp
  then have "sz_sub b a = b + (SIZE_MAX + 1) - a" by (simp add: sz_sub_def)
  also have "\<dots> = (b + c - a) + c * (2 ^ (64 - k) - 1)"
  proof -
    have "c \<le> c * 2 ^ (64 - k)" by simp
    then show ?thesis using M False assms(3) by (simp add: diff_mult_distrib2)
  qed
  finally have "sz_sub b a mod c = (b + c - a) mod c" by simp
  then show ?thesis unfolding and_mask_pow2 [OF assms(1)] using False assms by (simp add: cyc_dist_def)
qed

definition oa_cell :: "oa_slot list \<Rightarrow> byte list \<Rightarrow> (u64, u64) cells" where
  "oa_cell slots md i = (if occupied md i then Some (key_data (slots ! i), val_data (slots ! i)) else None)"

lemma oa_cell_None [simp]: "oa_cell slots md i = None \<longleftrightarrow> \<not> occupied md i"
  by (simp add: oa_cell_def)

lemma occupied_update [simp]:
  "i < length md \<Longrightarrow> occupied (md[i := SLOT_OCCUPIED]) j \<longleftrightarrow> j = i \<or> occupied md j"
  "i < length md \<Longrightarrow> occupied (md[i := 0]) j \<longleftrightarrow> j \<noteq> i \<and> occupied md j"
  by (auto simp: occupied_def SLOT_OCCUPIED_def nth_list_update)

lemma oa_cell_write:
  assumes "i < length md" "i < length slots"
  shows "oa_cell (slots[i := s]) (md[i := SLOT_OCCUPIED]) = (oa_cell slots md)(i := Some (key_data s, val_data s))"
  using assms by (auto simp: oa_cell_def fun_eq_iff nth_list_update)

lemma oa_cell_clear: "i < length md \<Longrightarrow> oa_cell slots (md[i := 0]) = (oa_cell slots md)(i := None)"
  by (auto simp: oa_cell_def fun_eq_iff)

lemma oa_cell_empty: "i < n \<Longrightarrow> oa_cell slots (replicate n 0) i = None"
  by (simp add: occupied_def)

section \<open>Keys and their home slots\<close>

lemma hash_prefix:
  assumes "is_type_integral kt" "n = get_type_size kt" "take n a = take n b"
  shows "hash_key_data sec a n kt cu keyed seed = hash_key_data sec b n kt cu keyed seed"
  using assms by (cases cu; cases kt) (auto simp: hash_key_data_def is_type_integral_def)

lemma integral_size: "is_type_integral kt \<Longrightarrow> 0 < get_type_size kt \<and> get_type_size kt \<le> 8"
  by (cases kt) (auto simp: is_type_integral_def)

definition oa_home :: "chmap_hash_secret \<Rightarrow> open_addr_map \<Rightarrow> size_t \<Rightarrow> bool \<Rightarrow> u64 \<Rightarrow> size_t" where
  "oa_home sec m c keyed k = hash_index_for (oa_hash sec m (word_bytes 8 k) (oa_key_size m) keyed) c"

definition oa_types :: "open_addr_map \<Rightarrow> bool" where
  "oa_types m \<longleftrightarrow> is_type_integral (oa_key_type m) \<and> is_type_integral (oa_val_type m)
     \<and> oa_key_size m = get_type_size (oa_key_type m) \<and> oa_val_size m = get_type_size (oa_val_type m)"

definition cap_ok :: "size_t \<Rightarrow> bool" where
  "cap_ok c \<longleftrightarrow> pow2 c \<and> 16 \<le> c \<and> c \<le> SIZE_MAX div 17"

lemma cap_okD: "cap_ok c \<Longrightarrow> pow2 c \<and> 0 < c \<and> 2 \<le> c \<and> c \<le> 2 ^ 63 \<and> c < 2 ^ 63"
  by (auto simp: cap_ok_def SIZE_MAX_def)

interpretation oa: linear_probing "if cap_ok c then c else 1" "\<lambda>k. if cap_ok c then oa_home sec m c keyed k else 0" for c sec m keyed
  by unfold_locales (auto simp: cap_ok_def oa_home_def SIZE_MAX_def pow2_pos intro!: hash_index_for_less)

lemma oa_home_less: "cap_ok c \<Longrightarrow> oa_home sec m c keyed k < c"
  using oa.home_less [of c sec m keyed k] by simp

section \<open>Loops over the table\<close>

lemma oa_free_slot_eq:
  assumes "cap_ok c" "h < c" "first_free c (oa_cell slots md) h i"
  shows "oa_free_slot md (c - 1) h = Some i"
proof (rule scan_induct [OF assms(2), of i])
  show i: "i < c" using assms(3) by (simp add: first_free_def)
  show "oa_free_slot md (c - 1) i = Some i"
    using assms(3) by (subst oa_free_slot.simps) (simp add: first_free_def)
  fix j
  assume "j < c" "cyc_dist c h j < cyc_dist c h i" "oa_free_slot md (c - 1) (cyc_next c j) = Some i"
  moreover then have "occupied md j" using assms(3) by (simp add: first_free_def)
  ultimately show "oa_free_slot md (c - 1) j = Some i"
    using next_slot [of c j] cap_okD [OF assms(1)] by (subst oa_free_slot.simps) simp
qed

lemma next_not_start:
  assumes "h < c" "j < c" "i < c" "cyc_dist c h j < cyc_dist c h i"
  shows "cyc_next c j \<noteq> h"
  using cyc_dist_next_wrap [OF assms(1,2)] cyc_dist_less [OF assms(1,3)] assms(4) by simp

lemma oa_insertion_loop_eq:
  assumes "cap_ok c" "h < c" "first_free c (oa_cell slots md) h i"
  shows "oa_insertion_loop md c h h = Some i"
proof (rule scan_induct [OF assms(2), of i "\<lambda>j. oa_insertion_loop md c h j = Some i"])
  show i: "i < c" using assms(3) by (simp add: first_free_def)
  show "oa_insertion_loop md c h i = Some i"
    using assms(3) by (subst oa_insertion_loop.simps) (simp add: first_free_def)
  fix j
  assume j: "j < c" "cyc_dist c h j < cyc_dist c h i" "oa_insertion_loop md c h (cyc_next c j) = Some i"
  have "occupied md j" using assms(3) j by (simp add: first_free_def)
  then show "oa_insertion_loop md c h j = Some i"
    using next_slot [of c j] cap_okD [OF assms(1)] next_not_start [OF assms(2) j(1) i j(2)] j
    by (subst oa_insertion_loop.simps) simp
qed

lemma oa_insert_probe_key:
  assumes "cap_ok c" "h < c" "i < c" "oa_cell slots md i = Some (k, v)"
    and before: "\<And>j. j < c \<Longrightarrow> cyc_dist c h j < cyc_dist c h i \<Longrightarrow> \<exists>k' w. oa_cell slots md j = Some (k', w) \<and> k' \<noteq> k"
  shows "oa_insert_probe slots md c k h h = Some (FoundKey i)"
proof (rule scan_induct [OF assms(2,3), of "\<lambda>j. oa_insert_probe slots md c k h j = Some (FoundKey i)"])
  show "oa_insert_probe slots md c k h i = Some (FoundKey i)"
    using assms(4) by (subst oa_insert_probe.simps) (auto simp: oa_cell_def oa_keys_equal_def split: if_splits)
  fix j
  assume j: "j < c" "cyc_dist c h j < cyc_dist c h i" "oa_insert_probe slots md c k h (cyc_next c j) = Some (FoundKey i)"
  have "occupied md j" "key_data (slots ! j) \<noteq> k" using before [OF j(1,2)] by (auto simp: oa_cell_def split: if_splits)
  then show "oa_insert_probe slots md c k h j = Some (FoundKey i)"
    using next_slot [of c j] cap_okD [OF assms(1)] next_not_start [OF assms(2) j(1) assms(3) j(2)] j
    by (subst oa_insert_probe.simps) (simp add: oa_keys_equal_def)
qed

lemma oa_insert_probe_free:
  assumes "cap_ok c" "h < c" "first_free c (oa_cell slots md) h i" "contents c (oa_cell slots md) k = None"
  shows "oa_insert_probe slots md c k h h = Some (FoundEmpty i)"
proof (rule scan_induct [OF assms(2), of i "\<lambda>j. oa_insert_probe slots md c k h j = Some (FoundEmpty i)"])
  show i: "i < c" using assms(3) by (simp add: first_free_def)
  show "oa_insert_probe slots md c k h i = Some (FoundEmpty i)"
    using assms(3) by (subst oa_insert_probe.simps) (simp add: first_free_def)
  fix j
  assume j: "j < c" "cyc_dist c h j < cyc_dist c h i" "oa_insert_probe slots md c k h (cyc_next c j) = Some (FoundEmpty i)"
  have o: "occupied md j" using assms(3) j by (simp add: first_free_def)
  then have "key_data (slots ! j) \<noteq> k" using assms(4) j(1) by (auto simp: contents_None oa_cell_def)
  then show "oa_insert_probe slots md c k h j = Some (FoundEmpty i)"
    using next_slot [of c j] cap_okD [OF assms(1)] next_not_start [OF assms(2) j(1) i j(2)] j o
    by (subst oa_insert_probe.simps) (simp add: oa_keys_equal_def)
qed

lemma oa_insert_probe_full:
  assumes "cap_ok c" "h < c" "\<And>i. i < c \<Longrightarrow> occupied md i" "contents c (oa_cell slots md) k = None"
  shows "oa_insert_probe slots md c k h h = Some WholeTable"
proof -
  have other: "key_data (slots ! j) \<noteq> k" if "j < c" for j
    using assms(3) [OF that] assms(4) that by (auto simp: contents_None oa_cell_def)
  have c: "0 < c" "c - 1 < c" "pow2 c" using cap_okD [OF assms(1)] by auto
  obtain i where i: "i < c" "cyc_dist c h i = c - 1" using cyc_dist_ex [OF assms(2) c(2)] by blast
  then have wrap: "cyc_next c i = h" using cyc_dist_next_wrap [OF assms(2) i(1)] c by simp
  show ?thesis
  proof (rule scan_induct [OF assms(2) i(1), of "\<lambda>j. oa_insert_probe slots md c k h j = Some WholeTable"])
    show "oa_insert_probe slots md c k h i = Some WholeTable"
      using assms(3) [OF i(1)] other [OF i(1)] wrap next_slot [OF c(3) i(1)]
      by (subst oa_insert_probe.simps) (simp add: oa_keys_equal_def)
    fix j
    assume j: "j < c" "cyc_dist c h j < cyc_dist c h i" "oa_insert_probe slots md c k h (cyc_next c j) = Some WholeTable"
    then show "oa_insert_probe slots md c k h j = Some WholeTable"
      using assms(3) [OF j(1)] other [OF j(1)] next_slot [OF c(3) j(1)] next_not_start [OF assms(2) j(1) i(1) j(2)]
      by (subst oa_insert_probe.simps) (simp add: oa_keys_equal_def)
  qed
qed

text \<open>The cells of a map and the probes that its span bounds.\<close>

abbreviation cells_of :: "open_addr_map \<Rightarrow> (u64, u64) cells" where
  "cells_of m \<equiv> oa_cell (oa_slots m) (oa_metadata m)"

lemma oa_stored_loop_key:
  assumes "cap_ok c" "oa_capacity m = c" "h < c" "i < c" "cells_of m i = Some (k, v)" "cyc_dist c h i < s"
    and before: "\<And>j. j < c \<Longrightarrow> cyc_dist c h j < cyc_dist c h i \<Longrightarrow> \<exists>k' w. cells_of m j = Some (k', w) \<and> k' \<noteq> k"
  shows "oa_stored_loop m k h s = Some i"
proof -
  have "oa_stored_loop m k h (s - cyc_dist c h h) = Some i"
  proof (rule scan_induct [OF assms(3,4), of "\<lambda>j. oa_stored_loop m k j (s - cyc_dist c h j) = Some i"])
    obtain l where "s - cyc_dist c h i = Suc l" using assms(6) by (cases "s - cyc_dist c h i") auto
    then show "oa_stored_loop m k i (s - cyc_dist c h i) = Some i"
      using assms(5) by (auto simp: oa_cell_def oa_keys_equal_def split: if_splits)
    fix j
    assume j: "j < c" "cyc_dist c h j < cyc_dist c h i" "oa_stored_loop m k (cyc_next c j) (s - cyc_dist c h (cyc_next c j)) = Some i"
    have nx: "cyc_next c j \<noteq> h" by (rule next_not_start [OF assms(3) j(1) assms(4) j(2)])
    have "s - cyc_dist c h j = Suc (s - cyc_dist c h (cyc_next c j))"
      using cyc_dist_next [OF assms(3) j(1)] nx j(2) assms(6) by simp
    moreover have "key_data (oa_slots m ! j) \<noteq> k" using before [OF j(1,2)] by (auto simp: oa_cell_def split: if_splits)
    ultimately show "oa_stored_loop m k j (s - cyc_dist c h j) = Some i"
      using next_slot [of c j] cap_okD [OF assms(1)] j assms(2) by (simp add: oa_keys_equal_def)
  qed
  then show ?thesis by simp
qed

lemma oa_probe_loop_key:
  assumes "cap_ok c" "oa_capacity m = c" "h < c" "i < c" "cells_of m i = Some (k, v)" "cyc_dist c h i < s"
    and before: "\<And>j. j < c \<Longrightarrow> cyc_dist c h j < cyc_dist c h i \<Longrightarrow> \<exists>k' w. cells_of m j = Some (k', w) \<and> k' \<noteq> k"
  shows "oa_probe_loop m k h s = Some i"
proof -
  have "oa_probe_loop m k h (s - cyc_dist c h h) = Some i"
  proof (rule scan_induct [OF assms(3,4), of "\<lambda>j. oa_probe_loop m k j (s - cyc_dist c h j) = Some i"])
    show "oa_probe_loop m k i (s - cyc_dist c h i) = Some i"
      using assms(5) by (subst oa_probe_loop.simps) (auto simp: oa_cell_def oa_keys_equal_def split: if_splits)
    fix j
    assume j: "j < c" "cyc_dist c h j < cyc_dist c h i" "oa_probe_loop m k (cyc_next c j) (s - cyc_dist c h (cyc_next c j)) = Some i"
    have nx: "cyc_next c j \<noteq> h" by (rule next_not_start [OF assms(3) j(1) assms(4) j(2)])
    have "s - cyc_dist c h j = Suc (s - cyc_dist c h (cyc_next c j))" "1 < s - cyc_dist c h j"
      using cyc_dist_next [OF assms(3) j(1)] nx j(2) assms(6) by simp_all
    moreover have "occupied (oa_metadata m) j" "key_data (oa_slots m ! j) \<noteq> k"
      using before [OF j(1,2)] by (auto simp: oa_cell_def split: if_splits)
    ultimately show "oa_probe_loop m k j (s - cyc_dist c h j) = Some i"
      using next_slot [of c j] cap_okD [OF assms(1)] j assms(2) by (subst oa_probe_loop.simps) (simp add: oa_keys_equal_def)
  qed
  then show ?thesis by simp
qed

lemma oa_probe_loop_absent: "oa_capacity m = c \<Longrightarrow> cap_ok c \<Longrightarrow> contents c (cells_of m) k = None \<Longrightarrow> h < c \<Longrightarrow> oa_probe_loop m k h s = None"
proof (induction m k h s rule: oa_probe_loop.induct)
  case (1 m k h s)
  have other: "key_data (oa_slots m ! h) \<noteq> k" if "occupied (oa_metadata m) h"
    using 1(4,5) that by (auto simp: contents_None oa_cell_def)
  have nx: "(h + 1) AND (oa_capacity m - 1) = cyc_next c h" "cyc_next c h < c"
    using next_slot [of c h] cap_okD [OF 1(3)] 1(2,5) by auto
  have "oa_probe_loop m k (cyc_next c h) (s - 1) = None"
    if "occupied (oa_metadata m) h" "\<not> s \<le> 1"
    using 1(1) [OF _ _ that(2)] that other 1(2-4) nx by (simp add: oa_keys_equal_def)
  then show ?case using other nx by (subst oa_probe_loop.simps) (auto simp: oa_keys_equal_def)
qed

section \<open>The backward-shift walk\<close>

lemma oa_cell_move:
  assumes "hole < length md" "hole < length slots" "j < length md" "occupied md j" "j \<noteq> hole"
  shows "oa_cell (slots[hole := slots ! j]) (md[hole := SLOT_OCCUPIED, j := 0]) = moved (oa_cell slots md) hole j"
  using assms by (auto simp: oa_cell_def moved_def fun_eq_iff)

definition table_kept :: "size_t \<Rightarrow> (u64 \<Rightarrow> size_t) \<Rightarrow> size_t \<Rightarrow> oa_slot list \<Rightarrow> byte list \<Rightarrow> oa_slot list \<Rightarrow> byte list \<Rightarrow> bool" where
  "table_kept c H s slots md slots' md' \<longleftrightarrow> length slots' = c \<and> length md' = c
     \<and> reachable_cells c H (oa_cell slots' md') \<and> keys_once c (oa_cell slots' md') \<and> within_span c H s (oa_cell slots' md')
     \<and> contents c (oa_cell slots' md') = contents c (oa_cell slots md)
     \<and> length (cell_list c (oa_cell slots' md')) = length (cell_list c (oa_cell slots md))"

lemma lex_encoding:
  assumes "a < (b::nat)"
  shows "a * (c + 1) + (c - 0) < b * (c + 1) + (c - g)"
proof -
  have "Suc a * (c + 1) \<le> b * (c + 1)" using assms by (intro mult_le_mono1) simp
  then show ?thesis by simp
qed

lemma oa_backward_shift_walk_ends:
  assumes cap: "cap_ok c" and lp: "linear_probing c H" and home: "\<And>x. home_of x = H (key_data x)"
  shows "length slots = c \<Longrightarrow> length md = c \<Longrightarrow> keys_once c (oa_cell slots md) \<Longrightarrow> gapped c H (oa_cell slots md) hole g \<Longrightarrow>
     within_span c H s (oa_cell slots md) \<Longrightarrow> j < c \<Longrightarrow> cyc_dist c hole j = g \<Longrightarrow>
     \<exists>slots' md'. oa_backward_shift_walk home_of c s slots md hole j = Some (slots', md') \<and> table_kept c H s slots md slots' md'"
proof (induction "total_dist c H (oa_cell slots md) * (c + 1) + (c - g)" arbitrary: slots md hole g j rule: less_induct)
  case less
  let ?t = "oa_cell slots md" and ?j = "cyc_next c j"
  have c: "pow2 c" "0 < c" "c \<le> 2 ^ 63" using cap_okD [OF cap] by auto
  have hole: "hole < c" "?t hole = None" using less.prems(4) by (auto simp: gapped_def)
  have g: "g < c" using less.prems(6,7) hole(1) cyc_dist_less by blast
  have j': "(j + 1) AND (c - 1) = ?j" "?j < c" using next_slot [OF c(1) less.prems(6)] c(2) by auto
  have dist: "cyc_dist c hole ?j = (if ?j = hole then 0 else Suc g)" "?j = hole \<longleftrightarrow> Suc g = c"
    using cyc_dist_next [OF hole(1) less.prems(6)] cyc_dist_next_wrap [OF hole(1) less.prems(6)] less.prems(7) by auto
  note unf = oa_backward_shift_walk.simps [of home_of c s slots md hole j]
  show ?case
  proof (cases "occupied md ?j")
    case False
    have "reachable_cells c H ?t"
      by (rule linear_probing.gapped_stop_free [OF lp less.prems(4) j'(2)]) (use False dist in auto)
    then show ?thesis using False j' less.prems(1-5) unf by (simp add: Let_def table_kept_def)
  next
    case occ: True
    obtain k v where t: "?t ?j = Some (k, v)" "k = key_data (slots ! ?j)" using occ by (auto simp: oa_cell_def)
    have ne: "?j \<noteq> hole" using occ hole(2) by auto
    have gap: "sz_sub ?j hole AND (c - 1) = Suc g" "cyc_dist c hole ?j = Suc g"
      using dist_slot [OF c(1,3) hole(1) j'(2)] dist(1) ne by auto
    have hm: "sz_sub ?j (home_of (slots ! ?j)) AND (c - 1) = cyc_dist c (H k) ?j"
      unfolding home t(2) [symmetric] by (rule dist_slot [OF c(1,3) linear_probing.home_less [OF lp] j'(2)])
    show ?thesis
    proof (cases "s \<le> Suc g")
      case True
      have "reachable_cells c H ?t" by (rule linear_probing.gapped_stop_span [OF lp less.prems(4,5) True])
      then show ?thesis using occ True gap j' less.prems(1-5) unf by (simp add: Let_def table_kept_def)
    next
      case span: False
      show ?thesis
      proof (cases "Suc g \<le> cyc_dist c (H k) ?j")
        case True
        let ?slots = "slots[hole := slots ! ?j]" and ?md = "md[hole := SLOT_OCCUPIED, ?j := 0]"
        have cell: "oa_cell ?slots ?md = moved ?t hole ?j"
          by (rule oa_cell_move) (use hole j' occ ne less.prems(1,2) in auto)
        note mv = linear_probing.gapped_move [OF lp less.prems(4) j'(2) t(1) ne]
        have closer: "cyc_dist c (H k) hole < cyc_dist c (H k) ?j" and gp: "gapped c H (moved ?t hole ?j) ?j 0"
          using mv True gap(2) by auto
        note once = linear_probing.moved_keys_once [OF lp less.prems(3) hole j'(2) ne]
        have "total_dist c H (moved ?t hole ?j) < total_dist c H ?t"
          by (rule linear_probing.moved_total_dist [OF lp hole j'(2) t(1) closer])
        then have "total_dist c H (oa_cell ?slots ?md) * (c + 1) + (c - 0) < total_dist c H ?t * (c + 1) + (c - g)"
          unfolding cell by (rule lex_encoding)
        then have "\<exists>slots' md'. oa_backward_shift_walk home_of c s ?slots ?md ?j ?j = Some (slots', md') \<and> table_kept c H s ?slots ?md slots' md'"
          by (rule less.hyps)
             (use less.prems(1,2) j' cell once gp linear_probing.moved_within_span [OF lp less.prems(5) j'(2) t(1) closer] in auto)
        then show ?thesis using occ span True gap hm j' unf cell once by (simp add: Let_def table_kept_def)
      next
        case False
        have "gapped c H ?t hole (Suc g)"
          by (rule linear_probing.gapped_stay [OF lp less.prems(4) j'(2) t(1) gap(2)]) (use False gap in simp)
        then have "\<exists>slots' md'. oa_backward_shift_walk home_of c s slots md hole ?j = Some (slots', md') \<and> table_kept c H s slots md slots' md'"
          using less.hyps [of slots md "Suc g" hole ?j] g less.prems(1-5) j'(2) gap(2) by simp
        then show ?thesis using occ span False gap hm j' unf by (simp add: Let_def)
      qed
    qed
  qed
qed

end
