(* ===== verification/CCol_Hashmap_Oa_Spec.thy ===== *)
theory CCol_Hashmap_Oa_Spec
  imports CCol_Hashmap_Oa_Inv
begin

unbundle bit_operations_syntax

text \<open>
  The operations of the open-addressing backend keep its invariant and act on the
  stored entries as on a finite map: rebuilding at any capacity and in either hash
  mode, inserting with every cold path, looking up, deleting and resetting, whatever
  the allocator refuses.
\<close>

section \<open>Filling a new table\<close>

definition good_table :: "size_t \<Rightarrow> (u64 \<Rightarrow> size_t) \<Rightarrow> size_t \<Rightarrow> oa_slot list \<Rightarrow> byte list \<Rightarrow> bool" where
  "good_table c H s slots md \<longleftrightarrow> length slots = c \<and> length md = c \<and> reachable_cells c H (oa_cell slots md)
     \<and> keys_once c (oa_cell slots md) \<and> within_span c H s (oa_cell slots md)"

lemma good_table_empty: "good_table c H s (empty_slots c) (replicate c 0)"
  by (auto simp: good_table_def empty_slots_def reachable_cells_def keys_once_def within_span_def oa_cell_def occupied_def)

lemma contents_empty: "contents c (oa_cell slots (replicate c 0)) = Map.empty" "cell_list c (oa_cell slots (replicate c 0)) = []"
proof -
  show e: "cell_list c (oa_cell slots (replicate c 0)) = []"
  proof -
    have "{i. i < c \<and> oa_cell slots (replicate c 0) i \<noteq> None} = {}" by (auto simp: occupied_def)
    then have "length (cell_list c (oa_cell slots (replicate c 0))) = 0" unfolding cell_list_length by (simp only: card.empty)
    then show ?thesis by simp
  qed
  show "contents c (oa_cell slots (replicate c 0)) = Map.empty" by (simp add: contents_def e)
qed

lemma free_cell_ex:
  assumes "linear_probing c H" "length (cell_list c t) < c"
  shows "\<exists>i. first_free c t (H k) i"
  using linear_probing.first_free_ex [OF assms(1) linear_probing.home_less [OF assms(1)]] full_or_free assms(2) by blast

lemma place_entry:
  assumes lp: "linear_probing c H" and g: "good_table c H s slots md" and k: "contents c (oa_cell slots md) (key_data x) = None"
    and i: "first_free c (oa_cell slots md) (H (key_data x)) i" and s: "cyc_dist c (H (key_data x)) i < s'" "s \<le> s'"
  shows "good_table c H s' (slots[i := x]) (md[i := SLOT_OCCUPIED])"
    "contents c (oa_cell (slots[i := x]) (md[i := SLOT_OCCUPIED])) = (contents c (oa_cell slots md))(key_data x \<mapsto> val_data x)"
    "length (cell_list c (oa_cell (slots[i := x]) (md[i := SLOT_OCCUPIED]))) = Suc (length (cell_list c (oa_cell slots md)))"
proof -
  let ?t = "oa_cell slots md"
  have ic: "i < c" "?t i = None" using i by (auto simp: first_free_def)
  have cell: "oa_cell (slots[i := x]) (md[i := SLOT_OCCUPIED]) = ?t(i := Some (key_data x, val_data x))"
    by (rule oa_cell_write) (use g ic in \<open>auto simp: good_table_def\<close>)
  have gt: "reachable_cells c H ?t" "keys_once c ?t" "within_span c H s ?t" using g by (auto simp: good_table_def)
  show "good_table c H s' (slots[i := x]) (md[i := SLOT_OCCUPIED])"
    using g linear_probing.insert_reachable [OF lp gt(1) i] linear_probing.insert_keys_once [OF lp gt(2) k]
      linear_probing.insert_within_span [OF lp gt(3) s] unfolding good_table_def cell by simp
  show "contents c (oa_cell (slots[i := x]) (md[i := SLOT_OCCUPIED])) = (contents c ?t)(key_data x \<mapsto> val_data x)"
    unfolding cell by (rule linear_probing.insert_contents [OF lp gt(2) k ic])
  show "length (cell_list c (oa_cell (slots[i := x]) (md[i := SLOT_OCCUPIED]))) = Suc (length (cell_list c ?t))"
    unfolding cell using cell_list_update_length [of i c ?t] ic by simp
qed

text \<open>The entries that a loop over the old table has still to place.\<close>

definition rest_entries :: "open_addr_map \<Rightarrow> size_t list \<Rightarrow> (u64 \<times> u64) list" where
  "rest_entries m is = List.map_filter (cells_of m) is"

lemma rest_entries_simps:
  "rest_entries m [] = []"
  "\<not> occupied (oa_metadata m) i \<Longrightarrow> rest_entries m (i # is) = rest_entries m is"
  "occupied (oa_metadata m) i \<Longrightarrow>
     rest_entries m (i # is) = (key_data (oa_slots m ! i), val_data (oa_slots m ! i)) # rest_entries m is"
  by (simp_all add: rest_entries_def List.map_filter_def oa_cell_def)

definition can_place :: "open_addr_map \<Rightarrow> size_t \<Rightarrow> oa_slot list \<Rightarrow> byte list \<Rightarrow> size_t list \<Rightarrow> bool" where
  "can_place m c slots md is \<longleftrightarrow> distinct (map fst (rest_entries m is))
     \<and> (\<forall>k \<in> fst ` set (rest_entries m is). contents c (oa_cell slots md) k = None)
     \<and> length (cell_list c (oa_cell slots md)) + length (rest_entries m is) \<le> c"

definition placed :: "open_addr_map \<Rightarrow> size_t \<Rightarrow> oa_slot list \<Rightarrow> byte list \<Rightarrow> size_t list \<Rightarrow> oa_slot list \<Rightarrow> byte list \<Rightarrow> bool" where
  "placed m c slots md is slots' md' \<longleftrightarrow>
     contents c (oa_cell slots' md') = contents c (oa_cell slots md) ++ map_of (rest_entries m is)
     \<and> length (cell_list c (oa_cell slots' md')) = length (cell_list c (oa_cell slots md)) + length (rest_entries m is)"

lemma placed_skip: "\<not> occupied (oa_metadata m) i \<Longrightarrow>
    can_place m c slots md (i # is) = can_place m c slots md is \<and> placed m c slots md (i # is) = placed m c slots md is"
  by (simp add: can_place_def placed_def rest_entries_simps fun_eq_iff)

lemma placed_step:
  assumes o: "occupied (oa_metadata m) i" and can: "can_place m c slots md (i # is)"
    and new: "contents c (oa_cell slots1 md1) = (contents c (oa_cell slots md))(key_data (oa_slots m ! i) \<mapsto> val_data (oa_slots m ! i))"
      "length (cell_list c (oa_cell slots1 md1)) = Suc (length (cell_list c (oa_cell slots md)))"
  shows "can_place m c slots1 md1 is" "placed m c slots1 md1 is slots' md' \<Longrightarrow> placed m c slots md (i # is) slots' md'"
proof -
  have notin: "key_data (oa_slots m ! i) \<notin> fst ` set (rest_entries m is)"
    and others: "\<forall>k \<in> fst ` set (rest_entries m is). contents c (oa_cell slots md) k = None"
    using can by (auto simp: can_place_def rest_entries_simps(3) [OF o])
  have "contents c (oa_cell slots1 md1) k = None" if "k \<in> fst ` set (rest_entries m is)" for k
  proof -
    have "k \<noteq> key_data (oa_slots m ! i)" using notin that by blast
    then show ?thesis using bspec [OF others that] new(1) by simp
  qed
  then show "can_place m c slots1 md1 is" using can new(2) by (simp add: can_place_def rest_entries_simps(3) [OF o])
  assume p: "placed m c slots1 md1 is slots' md'"
  have "key_data (oa_slots m ! i) \<notin> dom (map_of (rest_entries m is))"
    using notin by (simp add: dom_map_of_conv_image_fst)
  then show "placed m c slots md (i # is) slots' md'"
    using p new by (auto simp: placed_def rest_entries_simps(3) [OF o] map_add_upd_left)
qed

lemma can_place_first:
  assumes "occupied (oa_metadata m) i" "can_place m c slots md (i # is)"
  shows "contents c (oa_cell slots md) (key_data (oa_slots m ! i)) = None" "length (cell_list c (oa_cell slots md)) < c"
  using assms(2) by (auto simp: can_place_def rest_entries_simps(3) [OF assms(1)])

lemma oa_place_loop_ends:
  assumes cap: "cap_ok c"
  shows "good_table c (oa_home sec m c keyed) (Suc largest) slots md \<Longrightarrow> can_place m c slots md is \<Longrightarrow> largest < c \<Longrightarrow>
     \<exists>slots' md' largest'. oa_place_loop sec m c keyed is slots md largest = Some (slots', md', largest') \<and> largest' < c
       \<and> good_table c (oa_home sec m c keyed) (Suc largest') slots' md' \<and> placed m c slots md is slots' md'"
proof (induction "is" arbitrary: slots md largest)
  case Nil
  then show ?case by (simp add: placed_def rest_entries_simps)
next
  case (Cons i "is")
  let ?H = "oa_home sec m c keyed"
  have lp: "linear_probing c ?H" using oa_home_less [OF cap] cap_okD [OF cap] by (intro linear_probing.intro) auto
  show ?case
  proof (cases "occupied (oa_metadata m) i")
    case False
    then show ?thesis using Cons.IH [OF Cons.prems(1) _ Cons.prems(3)] Cons.prems(2) placed_skip [OF False] by simp
  next
    case o: True
    let ?x = "oa_slots m ! i"
    note first = can_place_first [OF o Cons.prems(2)]
    obtain j where j: "first_free c (oa_cell slots md) (?H (key_data ?x)) j" using free_cell_ex [OF lp first(2)] by blast
    have jc: "j < c" using j by (simp add: first_free_def)
    have free: "oa_free_slot md (c - 1) (?H (key_data ?x)) = Some j"
      by (rule oa_free_slot_eq [OF cap oa_home_less [OF cap] j])
    have d: "sz_sub j (?H (key_data ?x)) AND (c - 1) = cyc_dist c (?H (key_data ?x)) j"
      by (rule dist_slot) (use cap_okD [OF cap] oa_home_less [OF cap] jc in auto)
    let ?d = "cyc_dist c (?H (key_data ?x)) j"
    let ?l = "if ?d > largest then ?d else largest"
    note new = place_entry [OF lp Cons.prems(1) first(1) j, of "Suc ?l"]
    have l: "?l < c" using Cons.prems(3) oa_home_less [OF cap] jc by simp
    have "\<exists>slots' md' largest'. oa_place_loop sec m c keyed is (slots[j := ?x]) (md[j := SLOT_OCCUPIED]) ?l = Some (slots', md', largest')
        \<and> largest' < c \<and> good_table c ?H (Suc largest') slots' md' \<and> placed m c (slots[j := ?x]) (md[j := SLOT_OCCUPIED]) is slots' md'"
      by (rule Cons.IH [OF new(1) placed_step(1) [OF o Cons.prems(2) new(2,3)] l]) auto
    then show ?thesis
      using o free d placed_step(2) [OF o Cons.prems(2) new(2,3)] by (auto simp: Let_def simp flip: oa_home_def)
  qed
qed

lemma oa_attempt_walk_ends:
  assumes "cap_ok c" "h < c" "first_free c (oa_cell slots md) h i"
  shows "oa_attempt_walk md (c - 1) l h 0 = Some (if cyc_dist c h i \<le> l then Some (i, cyc_dist c h i) else None)"
proof -
  have i: "i < c" "\<not> occupied md i" using assms(3) by (auto simp: first_free_def)
  have occ: "occupied md j" if "j < c" "cyc_dist c h j < cyc_dist c h i" for j
    using assms(3) that by (simp add: first_free_def)
  have step: "oa_attempt_walk md (c - 1) l j (cyc_dist c h j) = r"
    if j: "j < c" "cyc_dist c h j < cyc_dist c h x" "oa_attempt_walk md (c - 1) l (cyc_next c j) (cyc_dist c h (cyc_next c j)) = r"
      and x: "x < c" "cyc_dist c h x \<le> l" "cyc_dist c h x \<le> cyc_dist c h i" for j r x
  proof -
    have "cyc_next c j \<noteq> h" by (rule next_not_start [OF assms(2) j(1) x(1) j(2)])
    then have "cyc_dist c h (cyc_next c j) = Suc (cyc_dist c h j)" using cyc_dist_next [OF assms(2) j(1)] by simp
    then show ?thesis using j x occ [of j] next_slot [of c j] cap_okD [OF assms(1)]
      by (subst oa_attempt_walk.simps) simp
  qed
  have reach: "oa_attempt_walk md (c - 1) l h (cyc_dist c h h) = r"
    if "x < c" "cyc_dist c h x \<le> l" "cyc_dist c h x \<le> cyc_dist c h i" "oa_attempt_walk md (c - 1) l x (cyc_dist c h x) = r" for x r
    by (rule scan_induct [OF assms(2) that(1), of "\<lambda>j. oa_attempt_walk md (c - 1) l j (cyc_dist c h j) = r"])
       (use that step in auto)
  show ?thesis
  proof (cases "cyc_dist c h i \<le> l")
    case True
    have "oa_attempt_walk md (c - 1) l i (cyc_dist c h i) = Some (Some (i, cyc_dist c h i))"
      using i by (subst oa_attempt_walk.simps) simp
    then show ?thesis using reach [OF i(1) True] True by simp
  next
    case False
    have "cyc_dist c h i < c" using assms(2) i(1) by simp
    then obtain x where x: "x < c" "cyc_dist c h x = l" using cyc_dist_ex [OF assms(2), of l] False by auto
    have "oa_attempt_walk md (c - 1) l x (cyc_dist c h x) = Some None"
      using occ [OF x(1)] x(2) False by (subst oa_attempt_walk.simps) simp
    then show ?thesis using reach [OF x(1)] x(2) False by simp
  qed
qed

lemma oa_attempt_home:
  "hash_index_for (hash_key_data sec (word_bytes 8 k) (oa_key_size m) (oa_key_type m) (oa_custom m) False 0) c = oa_home sec m c False k"
proof -
  have "hash_key_data sec b n kt cu False 0 = hash_key_data sec b n kt cu False seed" for b n kt cu seed
    by (cases cu; cases kt) (simp_all add: hash_key_data_def hash_word_mode_def hash_u64_mode_def)
  from this [of _ _ _ _ "int_seed sec"] show ?thesis unfolding oa_home_def oa_hash_def by (simp only:)
qed

lemma oa_attempt_loop_ends:
  assumes cap: "cap_ok c"
  shows "good_table c (oa_home sec m c False) (Suc largest) slots md \<Longrightarrow> can_place m c slots md is \<Longrightarrow> largest < c \<Longrightarrow>
     \<exists>slots' md' largest'. oa_attempt_loop sec m c is slots md largest walks = Some (slots', md', largest')
       \<and> (largest' = SIZE_MAX \<or> largest' < c \<and> good_table c (oa_home sec m c False) (Suc largest') slots' md'
            \<and> placed m c slots md is slots' md')"
proof (induction "is" arbitrary: slots md largest walks)
  case Nil
  then show ?case by (simp add: placed_def rest_entries_simps)
next
  case (Cons i "is")
  let ?H = "oa_home sec m c False"
  have lp: "linear_probing c ?H" using oa_home_less [OF cap] cap_okD [OF cap] by (intro linear_probing.intro) auto
  show ?case
  proof (cases "occupied (oa_metadata m) i")
    case False
    then show ?thesis using Cons.IH [OF Cons.prems(1) _ Cons.prems(3), of walks] Cons.prems(2) placed_skip [OF False] by simp
  next
    case o: True
    let ?x = "oa_slots m ! i"
    note first = can_place_first [OF o Cons.prems(2)]
    obtain j where j: "first_free c (oa_cell slots md) (?H (key_data ?x)) j" using free_cell_ex [OF lp first(2)] by blast
    have jc: "j < c" using j by (simp add: first_free_def)
    let ?d = "cyc_dist c (?H (key_data ?x)) j"
    have walk: "oa_attempt_walk md (c - 1) (oa_insert_cap c) (?H (key_data ?x)) 0 = Some (if ?d \<le> oa_insert_cap c then Some (j, ?d) else None)"
      by (rule oa_attempt_walk_ends [OF cap oa_home_less [OF cap] j])
    let ?l = "if ?d > largest then ?d else largest"
    note new = place_entry [OF lp Cons.prems(1) first(1) j, of "Suc ?l"]
    have l: "?l < c" using Cons.prems(3) oa_home_less [OF cap] jc by simp
    have "\<exists>slots' md' largest'. oa_attempt_loop sec m c is (slots[j := ?x]) (md[j := SLOT_OCCUPIED]) ?l (walks + ?d) = Some (slots', md', largest')
        \<and> (largest' = SIZE_MAX \<or> largest' < c \<and> good_table c ?H (Suc largest') slots' md'
           \<and> placed m c (slots[j := ?x]) (md[j := SLOT_OCCUPIED]) is slots' md')"
      by (rule Cons.IH [OF new(1) placed_step(1) [OF o Cons.prems(2) new(2,3)] l]) auto
    moreover note placed_step(2) [OF o Cons.prems(2) new(2,3)]
    moreover have "oa_attempt_loop sec m c (i # is) slots md largest walks =
        (if ?d \<le> oa_insert_cap c \<and> \<not> walks + ?d > oa_count m + OA_ATTEMPT_SLACK
         then oa_attempt_loop sec m c is (slots[j := ?x]) (md[j := SLOT_OCCUPIED]) ?l (walks + ?d)
         else if ?d \<le> oa_insert_cap c then Some (slots[j := ?x], md[j := SLOT_OCCUPIED], SIZE_MAX)
         else Some (slots, md, SIZE_MAX))"
      using o walk by (simp only: oa_attempt_loop.simps oa_attempt_home) (simp add: Let_def)
    ultimately show ?thesis by fastforce
  qed
qed

section \<open>The invariant of a map\<close>

definition oa_inv :: "chmap_hash_secret \<Rightarrow> open_addr_map \<Rightarrow> bool" where
  "oa_inv sec m \<longleftrightarrow> oa_types m \<and> cap_ok (oa_capacity m)
     \<and> good_table (oa_capacity m) (oa_home sec m (oa_capacity m) (oa_keyed m)) (oa_probe_span m) (oa_slots m) (oa_metadata m)
     \<and> oa_min_probe_span (oa_capacity m) \<le> oa_probe_span m \<and> oa_probe_span m \<le> oa_capacity m
     \<and> oa_count m = length (cell_list (oa_capacity m) (cells_of m))"

text \<open>The entries of a map: key words, and the value bytes that a lookup reports.\<close>

definition oa_words :: "open_addr_map \<Rightarrow> u64 \<Rightarrow> u64 option" where
  "oa_words m = contents (oa_capacity m) (cells_of m)"

definition oa_view :: "open_addr_map \<Rightarrow> u64 \<Rightarrow> byte list option" where
  "oa_view m k = map_option (word_bytes (oa_val_size m)) (oa_words m k)"

text \<open>What no operation changes: the types, the procedures and the block of the map.\<close>

definition oa_same_kind :: "open_addr_map \<Rightarrow> open_addr_map \<Rightarrow> bool" where
  "oa_same_kind m m' \<longleftrightarrow> hm_blk m' = hm_blk m \<and> oa_custom m' = oa_custom m \<and> oa_key_type m' = oa_key_type m
     \<and> oa_val_type m' = oa_val_type m \<and> oa_key_size m' = oa_key_size m \<and> oa_val_size m' = oa_val_size m
     \<and> oa_m_procs m' = oa_m_procs m"

lemma oa_same_kind_refl [simp]: "oa_same_kind m m"
  by (simp add: oa_same_kind_def)

lemma oa_same_kind_trans: "oa_same_kind m m1 \<Longrightarrow> oa_same_kind m1 m2 \<Longrightarrow> oa_same_kind m m2"
  by (simp add: oa_same_kind_def)

lemma oa_home_cong: "oa_same_kind m m' \<Longrightarrow> oa_home sec m' = oa_home sec m"
  by (simp add: oa_same_kind_def oa_home_def oa_hash_def fun_eq_iff)

lemma oa_inv_lp:
  assumes "oa_inv sec m"
  shows "linear_probing (oa_capacity m) (oa_home sec m (oa_capacity m) (oa_keyed m))"
proof -
  have "cap_ok (oa_capacity m)" using assms by (simp add: oa_inv_def)
  then show ?thesis using oa_home_less cap_okD by (intro linear_probing.intro) auto
qed

text \<open>The fields of the insert window are outside the invariant and the entries.\<close>

lemma oa_window_fields:
  "oa_inv sec (m\<lparr>insert_window := w\<rparr>) = oa_inv sec m" "oa_inv sec (m\<lparr>window_bound := b\<rparr>) = oa_inv sec m"
  "oa_words (m\<lparr>insert_window := w\<rparr>) = oa_words m" "oa_words (m\<lparr>window_bound := b\<rparr>) = oa_words m"
  "oa_same_kind m (m\<lparr>insert_window := w\<rparr>)" "oa_same_kind m (m\<lparr>window_bound := b\<rparr>)"
  by (simp_all add: oa_inv_def oa_types_def oa_keyed_def oa_words_def oa_same_kind_def oa_home_def [abs_def] oa_hash_def)

lemma oa_window_restart_fields:
  "oa_inv sec (oa_window_restart m) = oa_inv sec m" "oa_words (oa_window_restart m) = oa_words m"
  "oa_same_kind m (oa_window_restart m)" "oa_count (oa_window_restart m) = oa_count m"
  "oa_capacity (oa_window_restart m) = oa_capacity m" "oa_table (oa_window_restart m) = oa_table m"
  "oa_slots (oa_window_restart m) = oa_slots m" "oa_metadata (oa_window_restart m) = oa_metadata m"
  by (simp_all add: oa_window_restart_def oa_inv_def oa_types_def oa_keyed_def oa_words_def oa_same_kind_def
      oa_home_def [abs_def] oa_hash_def)

section \<open>Rebuilding\<close>

lemma oa_alloc_block_None: "oa_alloc_block c h = (None, h') \<Longrightarrow> blocks_kept h h'"
  by (auto simp: oa_alloc_block_def blocks_kept_def dest: mem_alloc_None split: if_splits prod.splits option.splits)

lemma oa_alloc_block_Some:
  "oa_alloc_block c h = (Some (b, slots, md), h') \<Longrightarrow>
     c \<le> SIZE_MAX div 17 \<and> slots = empty_slots c \<and> md = replicate c 0 \<and> b = next_blk h \<and> live h' = insert b (live h) \<and> next_blk h' = Suc b"
  by (auto simp: oa_alloc_block_def OA_BLOCK_BYTES_PER_SLOT_def dest!: mem_alloc_Some split: if_splits prod.splits option.splits)

lemma replaced_block:
  assumes "heap_ok h" "t \<in> live h" "b = next_blk h" "live h1 = insert b (live h)" "next_blk h1 = Suc b"
  shows "blocks_moved {t} {b} h (mem_free h1 t)"
  using assms heap_ok_fresh [OF assms(1)] by (auto simp: blocks_moved_def)

lemma rest_entries_all: "rest_entries m [0..<oa_capacity m] = cell_list (oa_capacity m) (cells_of m)"
  by (simp add: rest_entries_def cell_list_def)

lemma can_place_all:
  assumes "oa_inv sec m" "oa_count m \<le> c"
  shows "can_place m c (empty_slots c) (replicate c 0) [0..<oa_capacity m]"
  using assms keys_once_distinct [of "oa_capacity m" "cells_of m"]
  by (simp add: can_place_def rest_entries_all contents_empty oa_inv_def good_table_def)

lemma placed_all:
  assumes "placed m c (empty_slots c) (replicate c 0) [0..<oa_capacity m] slots md"
  shows "contents c (oa_cell slots md) = oa_words m" "length (cell_list c (oa_cell slots md)) = length (cell_list (oa_capacity m) (cells_of m))"
  using assms unfolding placed_def rest_entries_all contents_empty by (simp_all add: oa_words_def contents_def)

lemma oa_insert_cap_le: "oa_insert_cap c \<le> 288"
  by (simp add: oa_insert_cap_def Let_def)

text \<open>The table that a rebuild ends with: in the mode it was asked for, or in the keyed mode.\<close>

definition refilled :: "chmap_hash_secret \<Rightarrow> open_addr_map \<Rightarrow> size_t \<Rightarrow> bool \<Rightarrow> oa_slot list \<times> byte list \<times> size_t \<Rightarrow> bool" where
  "refilled sec m c keyed r = (case r of (slots, md, largest) \<Rightarrow>
     largest < c \<and> good_table c (oa_home sec m c keyed) (Suc largest) slots md
     \<and> contents c (oa_cell slots md) = oa_words m \<and> length (cell_list c (oa_cell slots md)) = oa_count m)"

lemma oa_place_all_ends:
  assumes "oa_inv sec m" "oa_count m \<le> c" "cap_ok c"
  shows "\<exists>r. oa_place_all sec m (empty_slots c) (replicate c 0) c keyed = Some r \<and> refilled sec m c keyed r"
proof -
  have "0 < c" using cap_okD [OF assms(3)] by simp
  from oa_place_loop_ends [OF assms(3) good_table_empty can_place_all [OF assms(1,2)] this]
  obtain slots' md' l where "oa_place_loop sec m c keyed [0..<oa_capacity m] (empty_slots c) (replicate c 0) 0 = Some (slots', md', l)"
    "l < c" "good_table c (oa_home sec m c keyed) (Suc l) slots' md'" "placed m c (empty_slots c) (replicate c 0) [0..<oa_capacity m] slots' md'"
    by blast
  then show ?thesis using placed_all [of m c slots' md'] assms(1) by (auto simp: oa_place_all_def refilled_def oa_inv_def)
qed

lemma oa_attempt_ends:
  assumes "oa_inv sec m" "oa_count m \<le> c" "cap_ok c"
  shows "\<exists>slots md l. oa_place_all_fast_attempt sec m (empty_slots c) (replicate c 0) c = Some (slots, md, l)
     \<and> (l = SIZE_MAX \<or> refilled sec m c False (slots, md, l))"
proof -
  have "0 < c" using cap_okD [OF assms(3)] by simp
  from oa_attempt_loop_ends [OF assms(3) good_table_empty can_place_all [OF assms(1,2)] this, where walks = 0]
  obtain slots' md' l where "oa_attempt_loop sec m c [0..<oa_capacity m] (empty_slots c) (replicate c 0) 0 0 = Some (slots', md', l)"
    "l = SIZE_MAX \<or> l < c \<and> good_table c (oa_home sec m c False) (Suc l) slots' md' \<and> placed m c (empty_slots c) (replicate c 0) [0..<oa_capacity m] slots' md'"
    by blast
  then show ?thesis using placed_all [of m c slots' md'] assms(1) by (auto simp: oa_place_all_fast_attempt_def refilled_def oa_inv_def)
qed

definition rebuilt :: "chmap_hash_secret \<Rightarrow> open_addr_map \<Rightarrow> heap \<Rightarrow> size_t \<Rightarrow> open_addr_map \<Rightarrow> heap \<Rightarrow> bool" where
  "rebuilt sec m h c m' h' \<longleftrightarrow> oa_inv sec m' \<and> oa_words m' = oa_words m \<and> oa_same_kind m m' \<and> oa_capacity m' = c
     \<and> oa_count m' = oa_count m \<and> blocks_moved {oa_table m} {oa_table m'} h h'"

lemma refilled_inv:
  assumes "oa_inv sec m" "cap_ok c" "refilled sec m c keyed (slots, md, l)"
  shows "oa_inv sec (m\<lparr>oa_slots := slots, oa_metadata := md, oa_table := b, oa_capacity := c,
      oa_probe_span := (if l + 1 > oa_min_probe_span c then l + 1 else oa_min_probe_span c),
      hash_mode := (if keyed then CHMAP_HASH_KEYED else CHMAP_HASH_FAST)\<rparr>)" (is "oa_inv sec ?m")
proof -
  have k: "oa_keyed ?m = keyed" by (simp add: oa_keyed_def)
  have h: "oa_home sec ?m = oa_home sec m" by (rule oa_home_cong) (simp add: oa_same_kind_def)
  have "within_span c (oa_home sec m c keyed) (oa_probe_span ?m) (oa_cell slots md)"
    using assms(3) by (auto simp: refilled_def good_table_def within_span_def)
  moreover have "oa_min_probe_span c \<le> c" by (simp add: oa_min_probe_span_def OA_DEEP_INSERT_def)
  ultimately show ?thesis using assms unfolding oa_inv_def h k by (auto simp: refilled_def good_table_def oa_types_def)
qed

lemma oa_rebuild_ends:
  assumes inv: "oa_inv sec m" and h: "heap_ok h" "oa_table m \<in> live h"
    and c: "pow2 c" "16 \<le> c" "oa_count m \<le> c"
  shows "\<exists>rv m' h'. oa_rebuild sec m c keyed h = Some (rv, m', h')
     \<and> (rv = ccol_not_enough_memory \<and> m' = m \<and> blocks_kept h h' \<or> rv = ccol_success \<and> rebuilt sec m h c m' h')"
proof (cases "oa_alloc_block c h")
  case (Pair r h1)
  show ?thesis
  proof (cases r)
    case None
    then show ?thesis using Pair oa_alloc_block_None [of c h h1] by (simp add: oa_rebuild_def)
  next
    case (Some x)
    then obtain b ns nm where x: "r = Some (b, ns, nm)" by (cases x) auto
    note al = oa_alloc_block_Some [OF Pair [unfolded x]]
    have cap: "cap_ok c" using al c by (simp add: cap_ok_def)
    have new: "ns = empty_slots c" "nm = replicate c 0" using al by auto
    obtain slots md l where first: "(if \<not> keyed \<and> oa_keyed m then oa_place_all_fast_attempt sec m ns nm c
         else oa_place_all sec m ns nm c keyed) = Some (slots, md, l)" "l = SIZE_MAX \<and> \<not> keyed \<or> refilled sec m c keyed (slots, md, l)"
      using oa_attempt_ends [OF inv c(3) cap] oa_place_all_ends [OF inv c(3) cap, of keyed] new by (cases "\<not> keyed \<and> oa_keyed m") auto
    obtain slots' md' l' keyed' where final: "(if \<not> keyed \<and> l > oa_insert_cap c then do {
             (slots, md, largest) \<leftarrow> oa_place_all sec m (empty_slots c) (replicate c 0) c True;
             Some (slots, md, largest, True)
           } else Some (slots, md, l, keyed)) = Some (slots', md', l', keyed')" "refilled sec m c keyed' (slots', md', l')"
    proof (cases "\<not> keyed \<and> l > oa_insert_cap c")
      case True
      then show ?thesis using oa_place_all_ends [OF inv c(3) cap, of True] that by auto
    next
      case False
      then have "refilled sec m c keyed (slots, md, l)" using first(2) oa_insert_cap_le [of c] by (auto simp: SIZE_MAX_def)
      then show ?thesis using False by (intro that [of slots md l keyed]) auto
    qed
    let ?m = "m\<lparr>oa_slots := slots', oa_metadata := md', oa_table := b, oa_capacity := c,
      oa_probe_span := (if l' + 1 > oa_min_probe_span c then l' + 1 else oa_min_probe_span c),
      hash_mode := (if keyed' then CHMAP_HASH_KEYED else CHMAP_HASH_FAST)\<rparr>"
    have run: "oa_rebuild sec m c keyed h = Some (ccol_success, oa_window_restart ?m, mem_free h1 (oa_table m))"
      unfolding oa_rebuild_def Pair x by (simp add: first(1) final(1) Let_def)
    have "oa_same_kind m ?m" by (simp add: oa_same_kind_def)
    then have kind: "oa_same_kind m (oa_window_restart ?m)" by (rule oa_same_kind_trans [OF _ oa_window_restart_fields(3)])
    have "oa_words ?m = oa_words m" "oa_count ?m = oa_count m" "blocks_moved {oa_table m} {b} h (mem_free h1 (oa_table m))"
      using final(2) replaced_block [OF h, of b h1] al by (simp_all add: refilled_def oa_words_def)
    then have "rebuilt sec m h c (oa_window_restart ?m) (mem_free h1 (oa_table m))"
      using refilled_inv [OF inv cap final(2), of b] kind unfolding rebuilt_def oa_window_restart_fields by simp
    then show ?thesis using run by blast
  qed
qed

section \<open>After an entry is written\<close>

lemma entry_found:
  assumes inv: "oa_inv sec m" and k: "oa_words m k = Some v"
  shows "\<exists>i < oa_capacity m. cells_of m i = Some (k, v) \<and> cyc_dist (oa_capacity m) (oa_home sec m (oa_capacity m) (oa_keyed m) k) i < oa_probe_span m
     \<and> (\<forall>j < oa_capacity m. cyc_dist (oa_capacity m) (oa_home sec m (oa_capacity m) (oa_keyed m) k) j < cyc_dist (oa_capacity m) (oa_home sec m (oa_capacity m) (oa_keyed m) k) i
          \<longrightarrow> (\<exists>k' w. cells_of m j = Some (k', w) \<and> k' \<noteq> k))"
proof -
  have t: "reachable_cells (oa_capacity m) (oa_home sec m (oa_capacity m) (oa_keyed m)) (cells_of m)" "keys_once (oa_capacity m) (cells_of m)"
    "within_span (oa_capacity m) (oa_home sec m (oa_capacity m) (oa_keyed m)) (oa_probe_span m) (cells_of m)"
    using inv by (auto simp: oa_inv_def good_table_def)
  obtain i where i: "i < oa_capacity m" "cells_of m i = Some (k, v)" using k contents_iff [OF t(2)] by (auto simp: oa_words_def)
  then show ?thesis using t(3) linear_probing.before_entry [OF oa_inv_lp [OF inv] t(1,2) i] by (auto simp: within_span_def)
qed

lemma oa_widened_hash:
  assumes "oa_types m"
  shows "oa_hash sec m (word_bytes 8 k @ replicate 8 0) (oa_key_size m) keyed = oa_hash sec m (word_bytes 8 k) (oa_key_size m) keyed"
  unfolding oa_hash_def by (rule hash_prefix) (use assms integral_size in \<open>auto simp: oa_types_def\<close>)

lemma oa_key_hash:
  assumes "oa_types m" "length key = oa_key_size m"
  shows "hash_index_for (oa_hash sec m key (oa_key_size m) keyed) c = oa_home sec m c keyed (le_word key)"
proof -
  have n: "oa_key_size m \<le> 8" using assms(1) integral_size by (auto simp: oa_types_def)
  have "take (oa_key_size m) key = take (oa_key_size m) (word_bytes 8 (le_word key))"
    using word_bytes_le_word [OF assms(2) n] n assms(2) by (simp add: take_word_bytes)
  then have "oa_hash sec m key (oa_key_size m) keyed = oa_hash sec m (word_bytes 8 (le_word key)) (oa_key_size m) keyed"
    unfolding oa_hash_def by (intro hash_prefix) (use assms in \<open>auto simp: oa_types_def\<close>)
  then show ?thesis by (simp add: oa_home_def)
qed

lemma oa_find_stored_key_ends:
  assumes inv: "oa_inv sec m" and k: "oa_words m k = Some v"
  shows "\<exists>i. oa_find_stored_key sec m k = Some i \<and> i < oa_capacity m \<and> cells_of m i = Some (k, v)"
proof -
  obtain i where i: "i < oa_capacity m" "cells_of m i = Some (k, v)"
      "cyc_dist (oa_capacity m) (oa_home sec m (oa_capacity m) (oa_keyed m) k) i < oa_probe_span m"
      "\<And>j. j < oa_capacity m \<Longrightarrow> cyc_dist (oa_capacity m) (oa_home sec m (oa_capacity m) (oa_keyed m) k) j < cyc_dist (oa_capacity m) (oa_home sec m (oa_capacity m) (oa_keyed m) k) i
        \<Longrightarrow> \<exists>k' w. cells_of m j = Some (k', w) \<and> k' \<noteq> k"
    using entry_found [OF inv k] by blast
  have cap: "cap_ok (oa_capacity m)" and ty: "oa_types m" using inv by (auto simp: oa_inv_def)
  have "oa_stored_loop m k (oa_home sec m (oa_capacity m) (oa_keyed m) k) (oa_probe_span m) = Some i"
    by (rule oa_stored_loop_key [OF cap refl oa_home_less [OF cap] i])
  then show ?thesis using i(1,2) by (auto simp: oa_find_stored_key_def oa_widened_hash [OF ty] oa_home_def Let_def)
qed

text \<open>The cold paths keep the entries, and give the slot where the new entry ends up.\<close>

definition kept_entry :: "chmap_hash_secret \<Rightarrow> open_addr_map \<Rightarrow> heap \<Rightarrow> u64 \<times> u64 \<Rightarrow> size_t \<Rightarrow> open_addr_map \<Rightarrow> heap \<Rightarrow> bool" where
  "kept_entry sec m h e index m' h' \<longleftrightarrow> oa_inv sec m' \<and> oa_words m' = oa_words m \<and> oa_same_kind m m'
     \<and> oa_count m' = oa_count m \<and> blocks_moved {oa_table m} {oa_table m'} h h'
     \<and> index < oa_capacity m' \<and> cells_of m' index = Some e"

lemma oa_switch_keeping_ends:
  assumes inv: "oa_inv sec m" and h: "heap_ok h" "oa_table m \<in> live h" and i: "i < oa_capacity m" "cells_of m i = Some e"
  shows "\<exists>i' m' h'. oa_switch_keeping sec m i h = Some (i', m', h') \<and> kept_entry sec m h e i' m' h'"
proof -
  obtain k v where e: "e = (k, v)" by fastforce
  have key: "key_data (oa_slots m ! i) = k" using i(2) e by (auto simp: oa_cell_def split: if_splits)
  have cap: "pow2 (oa_capacity m)" "16 \<le> oa_capacity m" using inv by (auto simp: oa_inv_def cap_ok_def)
  have t: "keys_once (oa_capacity m) (cells_of m)" using inv by (simp add: oa_inv_def good_table_def)
  have w: "oa_words m k = Some v" using contents_iff [OF t] i e by (auto simp: oa_words_def)
  have "card {i. i < oa_capacity m \<and> cells_of m i \<noteq> None} \<le> card {..<oa_capacity m}" by (rule card_mono) auto
  then have "oa_count m \<le> oa_capacity m" using inv unfolding oa_inv_def cell_list_length by simp
  from oa_rebuild_ends [OF inv h cap this, of True] obtain rv m1 h1 where r: "oa_rebuild sec m (oa_capacity m) True h = Some (rv, m1, h1)"
    "rv = ccol_not_enough_memory \<and> m1 = m \<and> blocks_kept h h1 \<or> rv = ccol_success \<and> rebuilt sec m h (oa_capacity m) m1 h1" by blast
  from r(2) show ?thesis
  proof
    assume "rv = ccol_not_enough_memory \<and> m1 = m \<and> blocks_kept h h1"
    then show ?thesis using r(1) inv i h(2) blocks_kept_moved [of h h1 "{oa_table m}"]
      by (auto simp: oa_switch_keeping_def kept_entry_def)
  next
    assume a: "rv = ccol_success \<and> rebuilt sec m h (oa_capacity m) m1 h1"
    then have "oa_inv sec m1" "oa_words m1 k = Some v" using w by (auto simp: rebuilt_def)
    from oa_find_stored_key_ends [OF this] obtain i' where "oa_find_stored_key sec m1 k = Some i'" "i' < oa_capacity m1"
      "cells_of m1 i' = Some (k, v)" by blast
    then show ?thesis using a r(1) e key by (auto simp: oa_switch_keeping_def kept_entry_def rebuilt_def)
  qed
qed

lemma kept_entry_refl:
  assumes "oa_inv sec m" "i < oa_capacity m" "cells_of m i = Some e" "oa_table m \<in> live h"
  shows "kept_entry sec m h e i m h"
  using assms blocks_kept_moved [of h h "{oa_table m}"] by (simp add: kept_entry_def)

lemma kept_entry_from:
  assumes "kept_entry sec m1 h e i m' h'" "oa_words m1 = oa_words m" "oa_same_kind m m1" "oa_count m1 = oa_count m" "oa_table m1 = oa_table m"
  shows "kept_entry sec m h e i m' h'"
  using assms oa_same_kind_trans [OF assms(3)] by (simp add: kept_entry_def)

lemma kept_entry_trans:
  assumes "kept_entry sec m h e i m1 h1" "kept_entry sec m1 h1 e i' m' h'"
  shows "kept_entry sec m h e i' m' h'"
  using assms oa_same_kind_trans [of m m1 m'] blocks_moved_trans [of "{oa_table m}" "{oa_table m1}" h h1 "{oa_table m'}" h']
  by (simp add: kept_entry_def)

lemma kept_entry_heap:
  assumes "kept_entry sec m h e i m' h'" "heap_ok h"
  shows "heap_ok h'" "oa_table m' \<in> live h'"
  using assms blocks_moved_heap_ok by (auto simp: kept_entry_def blocks_moved_def)

lemma oa_window_end_ends:
  assumes inv: "oa_inv sec m" and h: "heap_ok h" "oa_table m \<in> live h" and i: "i < oa_capacity m" "cells_of m i = Some e"
  shows "\<exists>i' m' h'. oa_window_end sec m i h = Some (i', m', h') \<and> kept_entry sec m h e i' m' h'"
proof -
  let ?m = "oa_window_restart m"
  have w: "oa_inv sec ?m" "oa_table ?m \<in> live h" "i < oa_capacity ?m" "cells_of ?m i = Some e"
    using inv h i by (simp_all add: oa_window_restart_fields)
  have "\<exists>i' m' h'. oa_window_end sec m i h = Some (i', m', h') \<and> kept_entry sec ?m h e i' m' h'"
    using oa_switch_keeping_ends [OF w(1) h(1) w(2-4)] kept_entry_refl [OF w(1,3,4,2)] by (auto simp: oa_window_end_def Let_def)
  then show ?thesis using kept_entry_from [of sec ?m h e _ _ _ m] oa_window_restart_fields by blast
qed

definition widened :: "open_addr_map \<Rightarrow> size_t \<Rightarrow> open_addr_map" where
  "widened m d = (if d \<ge> oa_probe_span m then m\<lparr>oa_probe_span := d + 1\<rparr> else m)"

lemma widened_fields:
  "oa_words (widened m d) = oa_words m" "oa_same_kind m (widened m d)" "oa_count (widened m d) = oa_count m"
  "oa_table (widened m d) = oa_table m" "oa_capacity (widened m d) = oa_capacity m" "oa_slots (widened m d) = oa_slots m"
  "oa_metadata (widened m d) = oa_metadata m" "insert_window (widened m d) = insert_window m" "oa_keyed (widened m d) = oa_keyed m"
  by (simp_all add: widened_def oa_words_def oa_same_kind_def oa_keyed_def)

lemma oa_note_deep_insert_ends:
  assumes inv: "oa_inv sec (widened m d)" and h: "heap_ok h" "oa_table m \<in> live h" and i: "i < oa_capacity m" "cells_of m i = Some e"
  shows "\<exists>i' m' h'. oa_note_deep_insert sec m i d h = Some (i', m', h') \<and> kept_entry sec m h e i' m' h'"
proof -
  let ?m = "widened m d"
  have w: "oa_table ?m \<in> live h" "i < oa_capacity ?m" "cells_of ?m i = Some e" using h i by (simp_all add: widened_fields)
  have "\<exists>i' m' h'. oa_note_deep_insert sec m i d h = Some (i', m', h') \<and> kept_entry sec ?m h e i' m' h'"
    using oa_switch_keeping_ends [OF inv h(1) w] kept_entry_refl [OF inv w(2,3,1)]
    by (auto simp: oa_note_deep_insert_def Let_def simp flip: widened_def)
  then show ?thesis using kept_entry_from [of sec ?m h e _ _ _ m] widened_fields by blast
qed

lemma oa_after_write_ends:
  assumes inv: "oa_inv sec (widened m (cyc_dist (oa_capacity m) home i))" and h: "heap_ok h" "oa_table m \<in> live h"
    and i: "i < oa_capacity m" "cells_of m i = Some e" "home < oa_capacity m"
    and span: "oa_min_probe_span (oa_capacity m) \<le> oa_probe_span m"
  shows "\<exists>i' m' h'. oa_after_write sec m i home h = Some (i', m', h') \<and> kept_entry sec m h e i' m' h'"
proof -
  let ?d = "cyc_dist (oa_capacity m) home i"
  have cap: "cap_ok (oa_capacity m)" using inv by (simp add: oa_inv_def widened_fields)
  have d: "sz_sub i home AND (oa_capacity m - 1) = ?d" by (rule dist_slot) (use cap_okD [OF cap] i in auto)
  have "\<exists>i1 m1 h1. (if ?d \<ge> OA_DEEP_INSERT then oa_note_deep_insert sec m i ?d h else Some (i, m, h)) = Some (i1, m1, h1)
      \<and> kept_entry sec m h e i1 m1 h1"
  proof (cases "?d \<ge> OA_DEEP_INSERT")
    case True
    then show ?thesis using oa_note_deep_insert_ends [OF inv h i(1,2)] by simp
  next
    case False
    have "?d < oa_capacity m" using i by simp
    then have "?d < oa_probe_span m" using span False by (simp add: oa_min_probe_span_def split: if_splits)
    then have "oa_inv sec m" using inv by (simp add: widened_def)
    then show ?thesis using False kept_entry_refl [OF _ i(1,2) h(2)] by simp
  qed
  then obtain i1 m1 h1 where s1: "(if ?d \<ge> OA_DEEP_INSERT then oa_note_deep_insert sec m i ?d h else Some (i, m, h)) = Some (i1, m1, h1)"
    "kept_entry sec m h e i1 m1 h1" by blast
  obtain ended window where w: "chmap_window_add (insert_window m1) ?d = (ended, window)" by fastforce
  let ?m = "m1\<lparr>insert_window := window\<rparr>"
  have k: "oa_inv sec ?m" "i1 < oa_capacity ?m" "cells_of ?m i1 = Some e" "heap_ok h1" "oa_table ?m \<in> live h1"
    using s1(2) kept_entry_heap [OF s1(2) h(1)] by (auto simp: kept_entry_def oa_window_fields)
  have "\<exists>i' m' h'. (if ended then oa_window_end sec ?m i1 h1 else Some (i1, ?m, h1)) = Some (i', m', h') \<and> kept_entry sec ?m h1 e i' m' h'"
    using oa_window_end_ends [OF k(1,4,5,2,3)] kept_entry_refl [OF k(1-3,5)] by auto
  then obtain i' m' h' where s2: "(if ended then oa_window_end sec ?m i1 h1 else Some (i1, ?m, h1)) = Some (i', m', h')"
    "kept_entry sec ?m h1 e i' m' h'" by blast
  have "kept_entry sec m1 h1 e i' m' h'" by (rule kept_entry_from [OF s2(2)]) (simp_all add: oa_window_fields)
  then have "kept_entry sec m h e i' m' h'" by (rule kept_entry_trans [OF s1(2)])
  moreover have "oa_after_write sec m i home h = Some (i', m', h')"
    unfolding oa_after_write_def d Let_def s1(1) using w s2(1) by simp
  ultimately show ?thesis by blast
qed

lemma oa_write_entry_inv:
  fixes v :: u64
  assumes inv: "oa_inv sec m" and k: "oa_words m k = None"
    and i: "first_free (oa_capacity m) (cells_of m) (oa_home sec m (oa_capacity m) (oa_keyed m) k) i"
  defines "m1 \<equiv> oa_write_entry m i k v"
  shows "oa_inv sec (widened m1 (cyc_dist (oa_capacity m) (oa_home sec m (oa_capacity m) (oa_keyed m) k) i))"
    "oa_words m1 = (oa_words m)(k \<mapsto> v)" "cells_of m1 i = Some (k, v)" "oa_same_kind m m1" "oa_capacity m1 = oa_capacity m"
    "oa_table m1 = oa_table m" "oa_count m1 = Suc (oa_count m)" "oa_probe_span m1 = oa_probe_span m"
proof -
  let ?H = "oa_home sec m (oa_capacity m) (oa_keyed m)" and ?x = "\<lparr>key_data = k, val_data = v\<rparr>"
  let ?d = "cyc_dist (oa_capacity m) (?H k) i" and ?c = "oa_capacity m"
  note lp = oa_inv_lp [OF inv]
  have ic: "i < ?c" "i < length (oa_slots m)" "i < length (oa_metadata m)"
    using i inv by (auto simp: first_free_def oa_inv_def good_table_def)
  have gt: "good_table ?c ?H (oa_probe_span m) (oa_slots m) (oa_metadata m)" using inv by (simp add: oa_inv_def)
  let ?s = "oa_probe_span (widened m1 ?d)"
  have s: "?d < ?s" "oa_probe_span m \<le> ?s" "?s \<le> ?c"
  proof -
    have "?d < ?c" using ic(1) linear_probing.home_less [OF lp] by simp
    then show "?d < ?s" "oa_probe_span m \<le> ?s" "?s \<le> ?c" using inv by (simp_all add: m1_def widened_def oa_write_entry_def oa_inv_def)
  qed
  have k': "contents ?c (cells_of m) (key_data ?x) = None" using k by (simp add: oa_words_def)
  have i': "first_free ?c (cells_of m) (?H (key_data ?x)) i" using i by simp
  note new = place_entry [OF lp gt k' i', of ?s]
  show kind: "oa_same_kind m m1" and c: "oa_capacity m1 = ?c" and t: "oa_table m1 = oa_table m" and n: "oa_count m1 = Suc (oa_count m)"
    and "oa_probe_span m1 = oa_probe_span m" by (simp_all add: m1_def oa_write_entry_def oa_same_kind_def)
  have keyed: "oa_keyed m1 = oa_keyed m" by (simp add: m1_def oa_write_entry_def oa_keyed_def)
  have tab: "oa_slots m1 = (oa_slots m)[i := ?x]" "oa_metadata m1 = (oa_metadata m)[i := SLOT_OCCUPIED]"
    by (simp_all add: m1_def oa_write_entry_def)
  show "oa_words m1 = (oa_words m)(k \<mapsto> v)" using new(2) s by (simp add: oa_words_def c tab)
  show "cells_of m1 i = Some (k, v)" using ic by (simp add: tab oa_cell_def)
  have home: "oa_home sec (widened m1 ?d) = oa_home sec m"
    by (rule oa_home_cong) (rule oa_same_kind_trans [OF kind widened_fields(2)])
  have types: "oa_types (widened m1 ?d)" using inv oa_same_kind_trans [OF kind widened_fields(2)]
    by (auto simp: oa_inv_def oa_types_def oa_same_kind_def)
  show "oa_inv sec (widened m1 ?d)"
    using inv new s types unfolding oa_inv_def home widened_fields keyed c tab n by simp
qed

section \<open>Insertion\<close>

definition oa_arg_ok :: "open_addr_map \<Rightarrow> chm_ptr \<Rightarrow> size_t \<Rightarrow> bool" where
  "oa_arg_ok m p n = (case p of NullPtr \<Rightarrow> False | Outside bs \<Rightarrow> n \<le> length bs
     | InMap i \<Rightarrow> i < oa_capacity m \<and> occupied (oa_metadata m) i \<and> n \<le> 8)"

lemma oa_read_length: "oa_arg_ok m p n \<Longrightarrow> length (oa_read slots p n) = n"
  by (cases p) (auto simp: oa_arg_ok_def oa_read_def)

lemma word_bytes_prefix:
  assumes "length bs = n" "n \<le> 8" "length rest = 8 - n"
  shows "word_bytes n (le_word (bs @ rest)) = bs"
  using take_word_bytes [OF assms(2), of "le_word (bs @ rest)"] word_bytes_le_word [of "bs @ rest" 8] assms by simp

lemma oa_count_le:
  assumes "oa_inv sec m"
  shows "oa_count m \<le> oa_capacity m" "oa_count m < oa_capacity m \<longleftrightarrow> (\<exists>i < oa_capacity m. \<not> occupied (oa_metadata m) i)"
proof -
  have "card {i. i < oa_capacity m \<and> cells_of m i \<noteq> None} \<le> card {..<oa_capacity m}" by (rule card_mono) auto
  then show "oa_count m \<le> oa_capacity m" using assms unfolding oa_inv_def cell_list_length by simp
  show "oa_count m < oa_capacity m \<longleftrightarrow> (\<exists>i < oa_capacity m. \<not> occupied (oa_metadata m) i)"
    using full_or_free [of "oa_capacity m" "cells_of m"] assms by (simp add: oa_inv_def)
qed

lemma oa_sizes_le: "oa_inv sec m \<Longrightarrow> oa_val_size m \<le> 8 \<and> oa_key_size m \<le> 8"
  using integral_size [of "oa_val_type m"] integral_size [of "oa_key_type m"] by (auto simp: oa_inv_def oa_types_def)

lemma oa_update_value_ends:
  assumes inv: "oa_inv sec m" and i: "i < oa_capacity m" "cells_of m i = Some (k, w)" and v: "oa_arg_ok m src (oa_val_size m)"
  shows "\<exists>m'. oa_update_value m i (src, oa_val_size m) = Some m' \<and> oa_inv sec m' \<and> oa_same_kind m m' \<and> oa_table m' = oa_table m
     \<and> oa_view m' = (oa_view m)(k \<mapsto> oa_read (oa_slots m) src (oa_val_size m))"
proof -
  let ?n = "oa_val_size m" and ?c = "oa_capacity m"
  let ?bytes = "oa_read (oa_slots m) src ?n"
  have n: "?n \<le> 8" using oa_sizes_le [OF inv] by simp
  have len: "length ?bytes = ?n" by (rule oa_read_length [OF v])
  let ?val = "le_word (?bytes @ drop ?n (word_bytes 8 (val_data (oa_slots m ! i))))"
  let ?m = "m\<lparr>oa_slots := (oa_slots m)[i := (oa_slots m ! i)\<lparr>val_data := ?val\<rparr>]\<rparr>"
  have run: "oa_update_value m i (src, ?n) = Some ?m"
    by (simp add: oa_update_value_def Let_def src_overlaps_def oa_read_def len split: chm_ptr.splits)
  have occ: "occupied (oa_metadata m) i" "key_data (oa_slots m ! i) = k" using i(2) by (auto simp: oa_cell_def split: if_splits)
  have gt: "good_table ?c (oa_home sec m ?c (oa_keyed m)) (oa_probe_span m) (oa_slots m) (oa_metadata m)" using inv by (simp add: oa_inv_def)
  have cell: "cells_of ?m = (cells_of m)(i := Some (k, ?val))"
    using occ i(1) gt by (auto simp: oa_cell_def fun_eq_iff good_table_def nth_list_update)
  have once: "keys_once ?c (cells_of m)" using gt by (simp add: good_table_def)
  note up = linear_probing.update_value [OF oa_inv_lp [OF inv] once i, where v = ?val]
  have home: "oa_home sec ?m = oa_home sec m" by (rule oa_home_cong) (simp add: oa_same_kind_def)
  have keyed: "oa_keyed ?m = oa_keyed m" by (simp add: oa_keyed_def)
  have "oa_inv sec ?m"
    using inv up(1,3-5) gt unfolding oa_inv_def good_table_def home keyed cell by (simp add: oa_types_def)
  moreover have "oa_words ?m = (oa_words m)(k \<mapsto> ?val)" using up(2) unfolding oa_words_def cell by simp
  then have "oa_view ?m = (oa_view m)(k \<mapsto> ?bytes)"
    using word_bytes_prefix [OF len n, of "drop ?n (word_bytes 8 (val_data (oa_slots m ! i)))"] by (auto simp: oa_view_def fun_eq_iff)
  ultimately show ?thesis using run by (auto simp: oa_same_kind_def)
qed

text \<open>The contract of an insertion of the key \<open>k\<close> with the value bytes \<open>vb\<close>.\<close>

definition oa_inserted ::
  "chmap_hash_secret \<Rightarrow> open_addr_map \<Rightarrow> heap \<Rightarrow> u64 \<Rightarrow> byte list \<Rightarrow> bool \<Rightarrow> oa_result \<Rightarrow> bool" where
  "oa_inserted sec m h k vb slot_out r = (case r of (rv, m', h', slot) \<Rightarrow>
     oa_inv sec m' \<and> oa_same_kind m m' \<and> blocks_moved {oa_table m} {oa_table m'} h h'
     \<and> (if oa_view m k \<noteq> None
        then rv = ccol_key_already_present \<and> oa_view m' = (if slot_out then oa_view m else (oa_view m)(k \<mapsto> vb))
        else rv = ccol_success \<and> oa_view m' = (oa_view m)(k \<mapsto> vb)
          \<or> rv = ccol_not_enough_memory \<and> oa_view m' = oa_view m \<and> oa_count m = oa_capacity m)
     \<and> (slot_out \<and> rv \<noteq> ccol_not_enough_memory \<longrightarrow>
          (\<exists>i v. slot = Some i \<and> i < oa_capacity m' \<and> cells_of m' i = Some (k, v) \<and> oa_view m' k = Some (word_bytes (oa_val_size m') v))))"

lemma oa_view_words: "oa_view m k = None \<longleftrightarrow> oa_words m k = None"
  by (simp add: oa_view_def)

lemma oa_write_new:
  assumes inv: "oa_inv sec m1" and h: "heap_ok h1" "oa_table m1 \<in> live h1"
    and m1: "oa_same_kind m m1" "oa_words m1 = oa_words m" "oa_words m k = None" "blocks_moved {oa_table m} {oa_table m1} h h1"
    and i: "first_free (oa_capacity m1) (cells_of m1) (oa_home sec m1 (oa_capacity m1) (oa_keyed m1) k) i"
    and vb: "length vb = oa_val_size m"
  shows "\<exists>i' m' h'. oa_after_write sec (oa_write_entry m1 i k (le_word vb)) i (oa_home sec m1 (oa_capacity m1) (oa_keyed m1) k) h1 = Some (i', m', h')
     \<and> oa_inserted sec m h k vb slot_out (ccol_success, m', h', Some i')"
proof -
  let ?w = "oa_write_entry m1 i k (le_word vb)" and ?home = "oa_home sec m1 (oa_capacity m1) (oa_keyed m1) k"
  have k1: "oa_words m1 k = None" using m1 by simp
  note w = oa_write_entry_inv [OF inv k1 i, of "le_word vb"]
  have n: "oa_val_size m \<le> 8" using oa_sizes_le [OF inv] m1(1) by (simp add: oa_same_kind_def)
  have "oa_inv sec (widened ?w (cyc_dist (oa_capacity ?w) ?home i))" using w(1,5) by simp
  moreover have "oa_table ?w \<in> live h1" "i < oa_capacity ?w" "?home < oa_capacity ?w"
    using h(2) w(5,6) i linear_probing.home_less [OF oa_inv_lp [OF inv]] by (simp_all add: first_free_def)
  moreover have "oa_min_probe_span (oa_capacity ?w) \<le> oa_probe_span ?w" using w(5,8) inv by (simp add: oa_inv_def)
  ultimately obtain i' m' h' where r: "oa_after_write sec ?w i ?home h1 = Some (i', m', h')" "kept_entry sec ?w h1 (k, le_word vb) i' m' h'"
    using oa_after_write_ends [of sec ?w ?home i h1 "(k, le_word vb)"] h(1) w(3) by blast
  have kind: "oa_same_kind m m'" using oa_same_kind_trans [OF m1(1) w(4)] oa_same_kind_trans r(2) by (auto simp: kept_entry_def)
  have words: "oa_words m' = (oa_words m)(k \<mapsto> le_word vb)" using r(2) w(2) m1(2) by (simp add: kept_entry_def)
  have view: "oa_view m' = (oa_view m)(k \<mapsto> vb)"
    using words kind word_bytes_le_word [OF vb n] by (auto simp: oa_view_def fun_eq_iff oa_same_kind_def)
  have "blocks_moved {oa_table m1} {oa_table m'} h1 h'" using r(2) w(6) by (simp add: kept_entry_def)
  then have "blocks_moved {oa_table m} {oa_table m'} h h'" by (rule blocks_moved_trans [OF m1(4)])
  then have "oa_inserted sec m h k vb slot_out (ccol_success, m', h', Some i')"
    using kind view r(2) m1(3) kind word_bytes_le_word [OF vb n]
    by (simp add: oa_inserted_def kept_entry_def oa_view_words oa_same_kind_def)
  then show ?thesis using r(1) by blast
qed

lemma oa_rehash_capacity_ok:
  assumes "n \<le> ccol_max_power_of_two_size_t"
  shows "pow2 (oa_rehash_capacity_for n)" "16 \<le> oa_rehash_capacity_for n" "n \<le> oa_rehash_capacity_for n"
proof -
  have "pow2 (oa_rehash_capacity_for n) \<and> 16 \<le> oa_rehash_capacity_for n \<and> n \<le> oa_rehash_capacity_for n"
  proof (cases "n > ccol_max_power_of_two_size_t div 2")
    case True
    have "pow2 (2 ^ 63)" by blast
    then show ?thesis using True assms by (simp add: oa_rehash_capacity_for_def size_defs)
  next
    case False
    then have "2 * n \<le> ccol_max_elem_count" by (simp add: size_defs)
    note p = nearest_pow2_ok [OF this]
    have "pow2 (2 ^ 4)" by blast
    then show ?thesis using False p(1,2) by (simp add: oa_rehash_capacity_for_def Let_def minimum_allowed_bucket_array_size_def)
  qed
  then show "pow2 (oa_rehash_capacity_for n)" "16 \<le> oa_rehash_capacity_for n" "n \<le> oa_rehash_capacity_for n" by auto
qed

lemma oa_insert_with_growth_ends:
  assumes inv: "oa_inv sec m" and h: "heap_ok h" "oa_table m \<in> live h"
    and k: "oa_arg_ok m kp (oa_key_size m)" "k = le_word (oa_read (oa_slots m) kp (oa_key_size m))" "oa_words m k = None"
    and v: "oa_arg_ok m vp (oa_val_size m)" "vb = oa_read (oa_slots m) vp (oa_val_size m)"
    and i: "home = oa_home sec m (oa_capacity m) (oa_keyed m) k"
      "if found_empty then first_free (oa_capacity m) (cells_of m) home index else oa_count m = oa_capacity m"
  shows "\<exists>r. oa_insert_with_growth sec m (kp, oa_key_size m) (vp, oa_val_size m) index home found_empty h = Some r
     \<and> oa_inserted sec m h k vb slot_out r"
proof -
  have cnt: "oa_count m + 1 \<le> ccol_max_power_of_two_size_t"
    using oa_count_le(1) [OF inv] cap_okD [of "oa_capacity m"] inv by (simp add: oa_inv_def ccol_max_power_of_two_size_t_def)
  note nc = oa_rehash_capacity_ok [OF cnt]
  have "oa_count m \<le> oa_rehash_capacity_for (oa_count m + 1)" using nc(3) by simp
  from oa_rebuild_ends [OF inv h nc(1,2) this, of False] obtain rv m1 h1 where
    r: "oa_rebuild sec m (oa_rehash_capacity_for (oa_count m + 1)) False h = Some (rv, m1, h1)"
      "rv = ccol_not_enough_memory \<and> m1 = m \<and> blocks_kept h h1 \<or> rv = ccol_success \<and> rebuilt sec m h (oa_rehash_capacity_for (oa_count m + 1)) m1 h1"
    by blast
  have vl: "length vb = oa_val_size m" using oa_read_length [OF v(1)] v(2) by simp
  from r(2) show ?thesis
  proof
    assume a: "rv = ccol_not_enough_memory \<and> m1 = m \<and> blocks_kept h h1"
    have h1: "heap_ok h1" "oa_table m \<in> live h1" "blocks_moved {oa_table m} {oa_table m} h h1"
      using a h blocks_kept_heap_ok blocks_kept_moved [of h h1 "{oa_table m}"] by (auto simp: blocks_kept_def)
    show ?thesis
    proof (cases found_empty)
      case True
      then have ff: "first_free (oa_capacity m) (cells_of m) (oa_home sec m (oa_capacity m) (oa_keyed m) k) index" using i by simp
      obtain i' m' h' where "oa_after_write sec (oa_write_entry m index k (le_word vb)) index (oa_home sec m (oa_capacity m) (oa_keyed m) k) h1 = Some (i', m', h')"
          "oa_inserted sec m h k vb slot_out (ccol_success, m', h', Some i')"
        using oa_write_new [OF inv h1(1,2) oa_same_kind_refl refl k(3) h1(3) ff vl] by blast
      then show ?thesis using a r(1) True k(2) v(2) i(1) by (simp add: oa_insert_with_growth_def)
    next
      case False
      then show ?thesis using a r(1) i(2) inv h1(3) k(3)
        by (simp add: oa_insert_with_growth_def oa_inserted_def oa_view_words)
    qed
  next
    assume a: "rv = ccol_success \<and> rebuilt sec m h (oa_rehash_capacity_for (oa_count m + 1)) m1 h1"
    then have m1: "oa_inv sec m1" "oa_words m1 = oa_words m" "oa_same_kind m m1" "blocks_moved {oa_table m} {oa_table m1} h h1"
      "oa_count m1 < oa_capacity m1" using nc(3) by (auto simp: rebuilt_def)
    have h1: "heap_ok h1" "oa_table m1 \<in> live h1" using m1(4) h blocks_moved_heap_ok by (auto simp: blocks_moved_def)
    let ?home = "oa_home sec m1 (oa_capacity m1) (oa_keyed m1) k"
    have ty: "oa_types m1" and cap: "cap_ok (oa_capacity m1)" using m1(1) by (auto simp: oa_inv_def)
    have hash: "hash_index_for (oa_hash sec m1 (word_bytes 8 k @ replicate 8 0) (oa_key_size m) (oa_keyed m1)) (oa_capacity m1) = ?home"
      using oa_widened_hash [OF ty, of sec k "oa_keyed m1"] m1(3) by (simp add: oa_home_def oa_same_kind_def)
    obtain j where j: "first_free (oa_capacity m1) (cells_of m1) ?home j"
      using free_cell_ex [OF oa_inv_lp [OF m1(1)], of "cells_of m1" k] m1(1,5) by (auto simp: oa_inv_def)
    have find: "oa_find_insertion_slot m1 (oa_hash sec m1 (word_bytes 8 k @ replicate 8 0) (oa_key_size m) (oa_keyed m1)) = Some j"
      unfolding oa_find_insertion_slot_def Let_def hash by (rule oa_insertion_loop_eq [OF cap oa_home_less [OF cap] j])
    have jc: "\<not> j \<ge> oa_capacity m1" using j by (simp add: first_free_def)
    obtain i' m' h' where "oa_after_write sec (oa_write_entry m1 j k (le_word vb)) j ?home h1 = Some (i', m', h')"
        "oa_inserted sec m h k vb slot_out (ccol_success, m', h', Some i')"
      using oa_write_new [OF m1(1) h1 m1(3,2) k(3) m1(4) j vl] by blast
    then show ?thesis using a r(1) k(2) v(2) jc find hash by (simp add: oa_insert_with_growth_def Let_def)
  qed
qed

lemma oa_widen_key_eq: "length key = n \<Longrightarrow> n \<le> 8 \<Longrightarrow> oa_widen_key key n = le_word key"
  by (simp add: oa_widen_key_def)

lemma oa_full_above_load:
  assumes "oa_inv sec m" "oa_count m = oa_capacity m"
  shows "oa_above_grow_load (oa_count m) (oa_capacity m)"
proof -
  have "oa_capacity m \<le> SIZE_MAX div 17" "0 < oa_capacity m" using assms(1) cap_okD by (auto simp: oa_inv_def cap_ok_def)
  then show ?thesis using assms(2) by (simp add: oa_above_grow_load_def sz_mul_def SIZE_MAX_def)
qed

lemma oa_insert_impl_ends:
  assumes inv: "oa_inv sec m" and h: "heap_ok h" "oa_table m \<in> live h"
    and kp: "oa_arg_ok m kp (oa_key_size m)" and vp: "oa_arg_ok m vp (oa_val_size m)"
  shows "\<exists>r. oa_insert_impl sec m (kp, oa_key_size m) (vp, oa_val_size m) slot_out h = Some r
     \<and> oa_inserted sec m h (le_word (oa_read (oa_slots m) kp (oa_key_size m))) (oa_read (oa_slots m) vp (oa_val_size m)) slot_out r"
proof -
  let ?key = "oa_read (oa_slots m) kp (oa_key_size m)" and ?vb = "oa_read (oa_slots m) vp (oa_val_size m)" and ?c = "oa_capacity m"
  define k where "k = le_word ?key"
  let ?home = "oa_home sec m ?c (oa_keyed m) k"
  have kl: "length ?key = oa_key_size m" by (rule oa_read_length [OF kp])
  have vl: "length ?vb = oa_val_size m" by (rule oa_read_length [OF vp])
  have cap: "cap_ok ?c" and ty: "oa_types m" using inv by (auto simp: oa_inv_def)
  have start: "hash_index_for (oa_hash sec m ?key (oa_key_size m) (oa_keyed m)) ?c = ?home"
    unfolding k_def by (rule oa_key_hash [OF ty kl])
  have wid: "oa_widen_key ?key (oa_key_size m) = k" unfolding k_def by (rule oa_widen_key_eq [OF kl]) (use oa_sizes_le [OF inv] in simp)
  have self: "blocks_moved {oa_table m} {oa_table m} h h" using blocks_kept_moved [of h h "{oa_table m}"] h(2) by simp
  note unf = oa_insert_impl_def [of sec m "(kp, oa_key_size m)" "(vp, oa_val_size m)" slot_out h, unfolded fst_conv snd_conv Let_def start wid, folded k_def]
  show ?thesis unfolding k_def [symmetric]
  proof (cases "oa_words m k")
    case (Some w)
    from entry_found [OF inv Some] obtain i where i: "i < ?c" "cells_of m i = Some (k, w)"
      "\<And>j. j < ?c \<Longrightarrow> cyc_dist ?c ?home j < cyc_dist ?c ?home i \<Longrightarrow> \<exists>k' w. cells_of m j = Some (k', w) \<and> k' \<noteq> k" by blast
    have probe: "oa_insert_probe (oa_slots m) (oa_metadata m) ?c k ?home ?home = Some (FoundKey i)"
      by (rule oa_insert_probe_key [OF cap oa_home_less [OF cap] i])
    show "\<exists>r. oa_insert_impl sec m (kp, oa_key_size m) (vp, oa_val_size m) slot_out h = Some r \<and> oa_inserted sec m h k ?vb slot_out r"
    proof (cases slot_out)
      case True
      then show ?thesis using unf probe inv self i Some by (simp add: oa_inserted_def oa_view_def)
    next
      case False
      then show ?thesis using unf probe self Some oa_update_value_ends [OF inv i(1,2) vp] by (auto simp: oa_inserted_def oa_view_def)
    qed
  next
    case None
    have big: "oa_count m \<noteq> ccol_max_elem_count" using oa_count_le(1) [OF inv] cap_okD [OF cap] by (simp add: ccol_max_elem_count_def)
    have cm: "?c < ccol_max_power_of_two_size_t" using cap_okD [OF cap] by (simp add: ccol_max_power_of_two_size_t_def)
    have none: "contents ?c (cells_of m) k = None" using None by (simp add: oa_words_def)
    show "\<exists>r. oa_insert_impl sec m (kp, oa_key_size m) (vp, oa_val_size m) slot_out h = Some r \<and> oa_inserted sec m h k ?vb slot_out r"
    proof (cases "oa_count m < ?c")
      case True
      then obtain i where i: "first_free ?c (cells_of m) ?home i"
        using free_cell_ex [OF oa_inv_lp [OF inv], of "cells_of m" k] inv by (auto simp: oa_inv_def)
      have probe: "oa_insert_probe (oa_slots m) (oa_metadata m) ?c k ?home ?home = Some (FoundEmpty i)"
        by (rule oa_insert_probe_free [OF cap oa_home_less [OF cap] i none])
      show ?thesis
      proof (cases "oa_above_grow_load (oa_count m) ?c")
        case load: True
        show ?thesis using oa_insert_with_growth_ends [OF inv h kp k_def None vp refl refl, of True i] i unf probe big cm load by simp
      next
        case False
        obtain i' m' h' where "oa_after_write sec (oa_write_entry m i k (le_word ?vb)) i ?home h = Some (i', m', h')"
            "oa_inserted sec m h k ?vb slot_out (ccol_success, m', h', Some i')"
          using oa_write_new [OF inv h oa_same_kind_refl refl None self i vl] by blast
        then show ?thesis using False unf probe big by simp
      qed
    next
      case False
      then have full: "oa_count m = ?c" using oa_count_le(1) [OF inv] by simp
      have "occupied (oa_metadata m) i" if "i < ?c" for i using oa_count_le(2) [OF inv] full that by auto
      then have probe: "oa_insert_probe (oa_slots m) (oa_metadata m) ?c k ?home ?home = Some WholeTable"
        by (rule oa_insert_probe_full [OF cap oa_home_less [OF cap] _ none])
      show ?thesis
        using oa_insert_with_growth_ends [OF inv h kp k_def None vp refl refl, of False ?home] full unf probe big cm oa_full_above_load [OF inv full]
        by simp
    qed
  qed
qed

section \<open>Lookup and deletion\<close>

lemma oa_probe_ends:
  assumes inv: "oa_inv sec m"
  shows "oa_words m k = None \<Longrightarrow> oa_probe_loop m k (oa_home sec m (oa_capacity m) (oa_keyed m) k) (oa_probe_span m) = None"
    "oa_words m k = Some v \<Longrightarrow> \<exists>i < oa_capacity m. oa_probe_loop m k (oa_home sec m (oa_capacity m) (oa_keyed m) k) (oa_probe_span m) = Some i
       \<and> cells_of m i = Some (k, v)"
proof -
  have cap: "cap_ok (oa_capacity m)" using inv by (simp add: oa_inv_def)
  show "oa_words m k = None \<Longrightarrow> oa_probe_loop m k (oa_home sec m (oa_capacity m) (oa_keyed m) k) (oa_probe_span m) = None"
    by (rule oa_probe_loop_absent [OF refl cap _ oa_home_less [OF cap]]) (simp add: oa_words_def)
  assume "oa_words m k = Some v"
  from entry_found [OF inv this] obtain i where i: "i < oa_capacity m" "cells_of m i = Some (k, v)"
      "cyc_dist (oa_capacity m) (oa_home sec m (oa_capacity m) (oa_keyed m) k) i < oa_probe_span m"
      "\<And>j. j < oa_capacity m \<Longrightarrow> cyc_dist (oa_capacity m) (oa_home sec m (oa_capacity m) (oa_keyed m) k) j < cyc_dist (oa_capacity m) (oa_home sec m (oa_capacity m) (oa_keyed m) k) i
        \<Longrightarrow> \<exists>k' w. cells_of m j = Some (k', w) \<and> k' \<noteq> k" by blast
  then show "\<exists>i < oa_capacity m. oa_probe_loop m k (oa_home sec m (oa_capacity m) (oa_keyed m) k) (oa_probe_span m) = Some i
       \<and> cells_of m i = Some (k, v)"
    using oa_probe_loop_key [OF cap refl oa_home_less [OF cap] i] by blast
qed

lemma oa_get_ends:
  assumes inv: "oa_inv sec m" and kp: "oa_arg_ok m kp (oa_key_size m)"
  defines "k \<equiv> le_word (oa_read (oa_slots m) kp (oa_key_size m))"
  shows "if oa_view m k = None then oa_get sec m (kp, oa_key_size m) = (ccol_key_not_found, None)
     else \<exists>i < oa_capacity m. oa_get sec m (kp, oa_key_size m) = (ccol_success, Some i)
       \<and> oa_view m k = Some (take (oa_val_size m) (word_bytes 8 (val_data (oa_slots m ! i)))) \<and> occupied (oa_metadata m) i"
proof -
  have kl: "length (oa_read (oa_slots m) kp (oa_key_size m)) = oa_key_size m" by (rule oa_read_length [OF kp])
  have ty: "oa_types m" using inv by (simp add: oa_inv_def)
  have n: "oa_key_size m \<le> 8" "oa_val_size m \<le> 8" using oa_sizes_le [OF inv] by auto
  have get: "oa_get sec m (kp, oa_key_size m) =
      (case oa_probe_loop m k (oa_home sec m (oa_capacity m) (oa_keyed m) k) (oa_probe_span m) of
         Some i \<Rightarrow> (ccol_success, Some i) | None \<Rightarrow> (ccol_key_not_found, None))"
    unfolding oa_get_def Let_def fst_conv snd_conv oa_key_hash [OF ty kl] oa_widen_key_eq [OF kl n(1)] k_def [symmetric] ..
  show ?thesis
  proof (cases "oa_words m k")
    case None
    then show ?thesis using get oa_probe_ends(1) [OF inv None] by (simp add: oa_view_def)
  next
    case (Some v)
    then obtain i where i: "i < oa_capacity m" "cells_of m i = Some (k, v)"
      "oa_probe_loop m k (oa_home sec m (oa_capacity m) (oa_keyed m) k) (oa_probe_span m) = Some i" using oa_probe_ends(2) [OF inv Some] by blast
    then have "occupied (oa_metadata m) i" "val_data (oa_slots m ! i) = v" by (auto simp: oa_cell_def split: if_splits)
    then show ?thesis using get i Some n(2) by (auto simp: oa_view_def take_word_bytes)
  qed
qed

lemma typed_walk_home:
  assumes "oa_types m" "oa_custom m = None"
    and rep: "\<And>b keyed seed. hash_key_data sec b 8 rep None keyed seed = hash_key_data sec b (oa_key_size m) (oa_key_type m) None keyed seed"
  shows "oa_walk_home sec c 8 rep None keyed (if keyed then int_seed sec else 0) x = oa_home sec m c keyed (key_data x)"
proof (cases keyed)
  case True
  then show ?thesis using assms(2) by (simp add: oa_walk_home_def rep oa_home_def oa_hash_def)
next
  case False
  then show ?thesis using oa_attempt_home [of sec "key_data x" m c] assms(2) by (simp add: oa_walk_home_def rep)
qed

lemma close_gap_eq:
  assumes "oa_types m"
  shows "oa_backward_shift_close_gap sec m hole =
     oa_backward_shift_walk (\<lambda>x. oa_home sec m (oa_capacity m) (oa_keyed m) (key_data x)) (oa_capacity m) (oa_probe_span m)
       (oa_slots m) (oa_metadata m) hole hole"
proof (cases "oa_custom m")
  case (Some f)
  have "oa_walk_home sec (oa_capacity m) (oa_key_size m) (oa_key_type m) (oa_custom m) (oa_keyed m) (int_seed sec)
      = (\<lambda>x. oa_home sec m (oa_capacity m) (oa_keyed m) (key_data x))"
    by (rule ext) (simp add: oa_walk_home_def oa_home_def oa_hash_def)
  then show ?thesis using Some by (simp add: oa_backward_shift_close_gap_def oa_shift_walk_generic_def)
next
  case None
  have typed: "oa_shift_walk_typed sec m rep hole =
     oa_backward_shift_walk (\<lambda>x. oa_home sec m (oa_capacity m) (oa_keyed m) (key_data x)) (oa_capacity m) (oa_probe_span m)
       (oa_slots m) (oa_metadata m) hole hole"
    if "\<And>b keyed seed. hash_key_data sec b 8 rep None keyed seed = hash_key_data sec b (oa_key_size m) (oa_key_type m) None keyed seed" for rep
  proof -
    have "oa_walk_home sec (oa_capacity m) 8 rep None (oa_keyed m) (if oa_keyed m then int_seed sec else 0)
        = (\<lambda>x. oa_home sec m (oa_capacity m) (oa_keyed m) (key_data x))"
      by (rule ext) (rule typed_walk_home [OF assms None that])
    then show ?thesis by (simp add: oa_shift_walk_typed_def)
  qed
  have "is_type_integral (oa_key_type m)" using assms by (simp add: oa_types_def)
  then show ?thesis
    by (cases "oa_key_type m") (simp_all add: oa_backward_shift_close_gap_def None is_type_integral_def typed hash_key_data_def)
qed

lemma oa_close_gap_ends:
  assumes inv: "oa_inv sec m" and i: "i < oa_capacity m" "cells_of m i = Some (k, v)"
  defines "m0 \<equiv> m\<lparr>oa_metadata := (oa_metadata m)[i := 0]\<rparr>" and "c \<equiv> oa_capacity m"
  shows "\<exists>slots md. (if occupied (oa_metadata m0) ((i + 1) AND (c - 1)) then oa_backward_shift_close_gap sec m0 i
        else Some (oa_slots m0, oa_metadata m0)) = Some (slots, md)
     \<and> good_table c (oa_home sec m c (oa_keyed m)) (oa_probe_span m) slots md
     \<and> contents c (oa_cell slots md) = (oa_words m)(k := None) \<and> Suc (length (cell_list c (oa_cell slots md))) = oa_count m"
proof -
  let ?H = "oa_home sec m c (oa_keyed m)" and ?t = "(cells_of m)(i := None)"
  have cap: "cap_ok c" and ty: "oa_types m0" and gt: "good_table c ?H (oa_probe_span m) (oa_slots m) (oa_metadata m)"
    using inv by (auto simp: oa_inv_def c_def m0_def oa_types_def)
  note lp = oa_inv_lp [OF inv, folded c_def]
  have ic: "i < c" using i(1) by (simp add: c_def)
  have cell: "cells_of m0 = ?t" using oa_cell_clear [of i "oa_metadata m" "oa_slots m"] ic gt by (simp add: m0_def good_table_def)
  have once: "keys_once c (cells_of m)" and reach: "reachable_cells c ?H (cells_of m)" and span: "within_span c ?H (oa_probe_span m) (cells_of m)"
    using gt by (auto simp: good_table_def)
  have words: "contents c ?t = (oa_words m)(k := None)" unfolding oa_words_def c_def [symmetric] by (rule remove_contents [OF once ic i(2)])
  have len: "Suc (length (cell_list c ?t)) = oa_count m" using cell_list_remove_length [OF ic, of "cells_of m"] i(2) inv by (simp add: oa_inv_def c_def)
  have gap: "gapped c ?H ?t i 0" by (rule linear_probing.gapped_start [OF lp reach ic])
  have once0: "keys_once c ?t" by (rule remove_keys_once [OF once])
  have span0: "within_span c ?H (oa_probe_span m) ?t" using span by (auto simp: within_span_def)
  have sizes: "length (oa_slots m0) = c" "length (oa_metadata m0) = c" using gt by (simp_all add: m0_def good_table_def)
  have nx: "(i + 1) AND (c - 1) = cyc_next c i" "cyc_next c i < c" using next_slot [of c i] cap_okD [OF cap] ic by auto
  show ?thesis
  proof (cases "occupied (oa_metadata m0) (cyc_next c i)")
    case True
    have h0: "oa_home sec m0 = oa_home sec m" by (rule oa_home_cong) (simp add: m0_def oa_same_kind_def)
    have f0: "oa_capacity m0 = c" "oa_keyed m0 = oa_keyed m" "oa_probe_span m0 = oa_probe_span m" by (simp_all add: m0_def c_def oa_keyed_def)
    have "\<exists>slots' md'. oa_backward_shift_walk (\<lambda>x. ?H (key_data x)) c (oa_probe_span m) (oa_slots m0) (oa_metadata m0) i i = Some (slots', md')
        \<and> table_kept c ?H (oa_probe_span m) (oa_slots m0) (oa_metadata m0) slots' md'"
      by (rule oa_backward_shift_walk_ends [OF cap lp refl sizes, where g = 0])
         (use once0 gap span0 ic cell in auto)
    then show ?thesis using True nx words len
      unfolding close_gap_eq [OF ty] h0 f0 by (auto simp: table_kept_def good_table_def cell)
  next
    case False
    have "cyc_dist c i (cyc_next c i) = 1 \<or> cyc_next c i = i \<and> 1 = c"
      using cyc_dist_next [OF ic ic] cyc_dist_next_wrap [OF ic ic] by auto
    then have "reachable_cells c ?H ?t"
      using linear_probing.gapped_stop_free [OF lp gap nx(2)] False cell oa_cell_None by (metis One_nat_def)
    then show ?thesis using False nx words len once0 span0 sizes by (simp add: good_table_def cell)
  qed
qed

lemma oa_half_capacity:
  assumes "cap_ok c" "minimum_allowed_bucket_array_size < c"
  shows "pow2 (c div 2)" "16 \<le> c div 2" "2 * (c div 2) = c"
proof -
  have p: "pow2 c" "16 < c" using assms by (auto simp: cap_ok_def minimum_allowed_bucket_array_size_def)
  then show "pow2 (c div 2)" "2 * (c div 2) = c" using pow2_half [of c] by auto
  then have "c div 2 > 8" using p(2) by linarith
  moreover have "pow2 (2 ^ 3)" by blast
  then have "\<not> c div 2 < 2 * 8" if "8 < c div 2"
    using pow2_le_less_double [of "c div 2" "2 ^ 3"] \<open>pow2 (c div 2)\<close> that by auto
  ultimately show "16 \<le> c div 2" by simp
qed

lemma oa_delete_ends:
  assumes inv: "oa_inv sec m" and h: "heap_ok h" "oa_table m \<in> live h" and kp: "oa_arg_ok m kp (oa_key_size m)"
  defines "k \<equiv> le_word (oa_read (oa_slots m) kp (oa_key_size m))"
  shows "\<exists>rv m' h'. oa_delete sec m (kp, oa_key_size m) h = Some (rv, m', h') \<and> oa_inv sec m' \<and> oa_same_kind m m'
     \<and> blocks_moved {oa_table m} {oa_table m'} h h'
     \<and> (if oa_view m k = None then rv = ccol_key_not_found \<and> m' = m else rv = ccol_success \<and> oa_view m' = (oa_view m)(k := None))"
proof -
  let ?c = "oa_capacity m"
  have kl: "length (oa_read (oa_slots m) kp (oa_key_size m)) = oa_key_size m" by (rule oa_read_length [OF kp])
  have ty: "oa_types m" and cap: "cap_ok ?c" using inv by (auto simp: oa_inv_def)
  have n: "oa_key_size m \<le> 8" using oa_sizes_le [OF inv] by auto
  note unf = oa_delete_def [of sec m "(kp, oa_key_size m)" h, unfolded fst_conv snd_conv Let_def oa_key_hash [OF ty kl] oa_widen_key_eq [OF kl n], folded k_def]
  have self: "blocks_moved {oa_table m} {oa_table m} h h" using blocks_kept_moved [of h h "{oa_table m}"] h(2) by simp
  show ?thesis
  proof (cases "oa_words m k")
    case None
    then show ?thesis using unf oa_probe_ends(1) [OF inv None] inv self by (simp add: oa_view_def)
  next
    case (Some v)
    then obtain i where i: "i < ?c" "cells_of m i = Some (k, v)"
      "oa_probe_loop m k (oa_home sec m ?c (oa_keyed m) k) (oa_probe_span m) = Some i" using oa_probe_ends(2) [OF inv Some] by blast
    let ?m0 = "m\<lparr>oa_metadata := (oa_metadata m)[i := 0]\<rparr>"
    obtain slots md where w: "(if occupied (oa_metadata ?m0) ((i + 1) AND (?c - 1)) then oa_backward_shift_close_gap sec ?m0 i
        else Some (oa_slots ?m0, oa_metadata ?m0)) = Some (slots, md)"
      "good_table ?c (oa_home sec m ?c (oa_keyed m)) (oa_probe_span m) slots md"
      "contents ?c (oa_cell slots md) = (oa_words m)(k := None)" "Suc (length (cell_list ?c (oa_cell slots md))) = oa_count m"
      using oa_close_gap_ends [OF inv i(1,2)] by blast
    let ?m1 = "?m0\<lparr>oa_slots := slots, oa_metadata := md, oa_count := sz_sub (oa_count m) 1\<rparr>"
    have cnt: "sz_sub (oa_count m) 1 = length (cell_list ?c (oa_cell slots md))"
      using w(4) oa_count_le(1) [OF inv] cap_okD [OF cap] by (subst sz_sub_exact) (auto simp: SIZE_MAX_def)
    have home: "oa_home sec ?m1 = oa_home sec m" by (rule oa_home_cong) (simp add: oa_same_kind_def)
    have keyed: "oa_keyed ?m1 = oa_keyed m" by (simp add: oa_keyed_def)
    have sp: "oa_min_probe_span ?c \<le> oa_probe_span m" "oa_probe_span m \<le> ?c" using inv by (auto simp: oa_inv_def)
    have inv1: "oa_inv sec ?m1" using ty cap sp w(2) cnt unfolding oa_inv_def home keyed by (simp add: oa_types_def)
    have words: "oa_words ?m1 = (oa_words m)(k := None)" using w(3) by (simp add: oa_words_def)
    have kind: "oa_same_kind m ?m1" by (simp add: oa_same_kind_def)
    have view: "oa_view m' = (oa_view m)(k := None)" if "oa_words m' = (oa_words m)(k := None)" "oa_same_kind m m'" for m'
      using that by (auto simp: oa_view_def fun_eq_iff oa_same_kind_def)
    have run: "oa_delete sec m (kp, oa_key_size m) h =
        (if oa_count ?m1 < ?c div 4 \<and> ?c > minimum_allowed_bucket_array_size
         then do { (rv, m, h) \<leftarrow> oa_rebuild sec ?m1 (?c div 2) (oa_keyed ?m1) h; Some (ccol_success, m, h) }
         else Some (ccol_success, ?m1, h))"
      unfolding unf using i(3) w(1) by simp
    show ?thesis
    proof (cases "oa_count ?m1 < ?c div 4 \<and> ?c > minimum_allowed_bucket_array_size")
      case True
      note half = oa_half_capacity [OF cap conjunct2 [OF True]]
      have t: "oa_table ?m1 \<in> live h" "oa_count ?m1 \<le> ?c div 2" using h(2) True by auto
      from oa_rebuild_ends [OF inv1 h(1) t(1) half(1,2) t(2), of "oa_keyed ?m1"] obtain rv m' h' where
        r: "oa_rebuild sec ?m1 (?c div 2) (oa_keyed ?m1) h = Some (rv, m', h')"
          "rv = ccol_not_enough_memory \<and> m' = ?m1 \<and> blocks_kept h h' \<or> rv = ccol_success \<and> rebuilt sec ?m1 h (?c div 2) m' h'" by blast
      have "oa_inv sec m' \<and> oa_words m' = (oa_words m)(k := None) \<and> oa_same_kind m m' \<and> blocks_moved {oa_table m} {oa_table m'} h h'"
        using r(2) inv1 words kind blocks_kept_moved [of h h' "{oa_table m}"] h(2) oa_same_kind_trans [OF kind]
        by (auto simp: rebuilt_def)
      then show ?thesis using run True r(1) view Some by (simp add: oa_view_def)
    next
      case False
      then have "oa_delete sec m (kp, oa_key_size m) h = Some (ccol_success, ?m1, h)" unfolding run by (rule if_not_P)
      then show ?thesis using inv1 words kind self view [OF words kind] Some by (simp add: oa_view_def)
    qed
  qed
qed

section \<open>Creating and resetting\<close>

lemma oa_empty_inv:
  assumes "oa_types m" "cap_ok c"
  shows "oa_inv sec (m\<lparr>oa_slots := empty_slots c, oa_metadata := replicate c 0, oa_table := b, oa_capacity := c,
      oa_count := 0, oa_probe_span := oa_min_probe_span c\<rparr>)" (is "oa_inv sec ?m")
    "oa_words (m\<lparr>oa_slots := empty_slots c, oa_metadata := replicate c 0, oa_table := b, oa_capacity := c,
      oa_count := 0, oa_probe_span := oa_min_probe_span c\<rparr>) = Map.empty"
  using assms good_table_empty contents_empty
  by (simp_all add: oa_inv_def oa_types_def oa_words_def oa_min_probe_span_def OA_DEEP_INSERT_def)

lemma oa_clear_in_place_ends:
  assumes "oa_inv sec m"
  shows "oa_inv sec (oa_clear_in_place m)" "oa_view (oa_clear_in_place m) = Map.empty" "oa_same_kind m (oa_clear_in_place m)"
    "oa_table (oa_clear_in_place m) = oa_table m"
proof -
  let ?m = "m\<lparr>oa_slots := empty_slots (oa_capacity m), oa_metadata := replicate (oa_capacity m) 0,
    oa_count := 0, oa_probe_span := oa_min_probe_span (oa_capacity m)\<rparr>"
  have e: "oa_inv sec ?m" "oa_words ?m = Map.empty"
    using oa_empty_inv(1) [of m "oa_capacity m", where sec = sec and b = "oa_table m"] oa_empty_inv(2) [of m "oa_capacity m", where b = "oa_table m"] assms by (auto simp: oa_inv_def)
  show "oa_inv sec (oa_clear_in_place m)" "oa_view (oa_clear_in_place m) = Map.empty" "oa_table (oa_clear_in_place m) = oa_table m"
    using e by (simp_all add: oa_clear_in_place_def oa_window_restart_fields oa_view_def fun_eq_iff)
  have "oa_same_kind m ?m" by (simp add: oa_same_kind_def)
  then show "oa_same_kind m (oa_clear_in_place m)"
    unfolding oa_clear_in_place_def by (rule oa_same_kind_trans [OF _ oa_window_restart_fields(3)])
qed

lemma oa_reset_ends:
  assumes inv: "oa_inv sec m" and h: "heap_ok h" "oa_table m \<in> live h" and c: "c = 0 \<or> pow2 c \<and> 16 \<le> c"
  shows "\<exists>rv m' h'. oa_reset m c h = (rv, m', h') \<and> oa_inv sec m' \<and> oa_same_kind m m' \<and> blocks_moved {oa_table m} {oa_table m'} h h'
     \<and> oa_view m' = Map.empty \<and> (rv = ccol_success \<or> rv = ccol_not_enough_memory)"
proof -
  note cl = oa_clear_in_place_ends [OF inv]
  have self: "blocks_moved {oa_table m} {oa_table m} h h'" if "blocks_kept h h'" for h'
    using blocks_kept_moved [OF that, of "{oa_table m}"] h(2) by simp
  show ?thesis
  proof (cases "c = 0 \<or> c = oa_capacity m")
    case True
    then show ?thesis using cl self by (simp add: oa_reset_def)
  next
    case False
    show ?thesis
    proof (cases "oa_alloc_block c h")
      case (Pair r h1)
      show ?thesis
      proof (cases r)
        case None
        then show ?thesis using False Pair cl self oa_alloc_block_None [of c h h1] by (simp add: oa_reset_def)
      next
        case (Some x)
        then obtain b ns nm where x: "r = Some (b, ns, nm)" by (cases x) auto
        note al = oa_alloc_block_Some [OF Pair [unfolded x]]
        have cap: "cap_ok c" using al c False by (simp add: cap_ok_def)
        let ?m = "m\<lparr>oa_slots := empty_slots c, oa_metadata := replicate c 0, oa_table := b, oa_capacity := c,
          oa_count := 0, oa_probe_span := oa_min_probe_span c\<rparr>"
        have e: "oa_inv sec ?m" "oa_words ?m = Map.empty" using oa_empty_inv(1) [of m c, where sec = sec and b = b] oa_empty_inv(2) [of m c, where b = b] inv cap by (auto simp: oa_inv_def)
        have "oa_same_kind m ?m" by (simp add: oa_same_kind_def)
        then have kind: "oa_same_kind m (oa_window_restart ?m)" by (rule oa_same_kind_trans [OF _ oa_window_restart_fields(3)])
        have run: "oa_reset m c h = (ccol_success, oa_window_restart ?m, mem_free h1 (oa_table m))"
          using False Pair x al by (simp add: oa_reset_def)
        have "blocks_moved {oa_table m} {b} h (mem_free h1 (oa_table m))" using replaced_block [OF h, of b h1] al by simp
        then show ?thesis unfolding run using e kind by (simp add: oa_window_restart_fields oa_view_def fun_eq_iff)
      qed
    qed
  qed
qed

lemma oa_init_ends:
  assumes "pow2 c" "16 \<le> c" "is_type_integral kt" "is_type_integral vt"
  shows "case oa_init hdr c kt vt (get_type_size kt) (get_type_size vt) mp custom h of
      (None, h') \<Rightarrow> blocks_kept h h'
    | (Some m, h') \<Rightarrow> oa_inv sec m \<and> oa_view m = Map.empty \<and> oa_table m = next_blk h \<and> live h' = insert (oa_table m) (live h)
        \<and> next_blk h' = Suc (next_blk h) \<and> hm_blk m = hm_blk hdr \<and> oa_m_procs m = mp"
proof (cases "oa_alloc_block c h")
  case (Pair r h1)
  show ?thesis
  proof (cases r)
    case None
    then show ?thesis using Pair oa_alloc_block_None [of c h h1] by (simp add: oa_init_def)
  next
    case (Some x)
    then obtain b ns nm where x: "r = Some (b, ns, nm)" by (cases x) auto
    note al = oa_alloc_block_Some [OF Pair [unfolded x]]
    have cap: "cap_ok c" using al assms by (simp add: cap_ok_def)
    define m where "m = \<lparr>hm_blk = hm_blk hdr, hash_mode = hash_mode hdr, window_bound = window_bound hdr,
       insert_window = insert_window hdr, oa_slots = ns, oa_metadata = nm, oa_table = b, oa_capacity = c,
       oa_probe_span = oa_min_probe_span c, oa_count = 0, oa_custom = custom, oa_key_type = kt, oa_val_type = vt,
       oa_key_size = get_type_size kt, oa_val_size = get_type_size vt, oa_m_procs = mp\<rparr>"
    have "oa_types m" using assms by (simp add: m_def oa_types_def)
    from oa_empty_inv(1) [OF this cap, where sec = sec and b = b] oa_empty_inv(2) [OF this cap, where b = b] have "oa_inv sec m" "oa_words m = Map.empty" using al by (simp_all add: m_def)
    then show ?thesis using Pair x al by (auto simp: oa_init_def oa_view_def fun_eq_iff m_def)
  qed
qed

end
