(* ===== verification/CCol_Dllist.thy ===== *)
theory CCol_Dllist
  imports CCol_Prelude
begin

text \<open>
  The insertion-order list of a separate-chaining map of \<^verbatim>\<open>src/chashmap.c\<close>: a
  doubly linked list threaded through the nodes, with the newest entry at its head
  and the oldest at its tail.  An address is the block number of a node, the links
  of all nodes are a store from addresses to links, and \<^term>\<open>None\<close> as the result
  of an operation is a null or dangling pointer that the code would follow.
\<close>

section \<open>Links and operations\<close>

record dllist_ref_node =
  prev :: "nat option"
  dl_next :: "nat option"

record dllist_root =
  head :: "nat option"
  tail :: "nat option"

type_synonym refs = "nat \<rightharpoonup> dllist_ref_node"

definition attach_node_to_dllist :: "dllist_root \<Rightarrow> refs \<Rightarrow> nat \<Rightarrow> (dllist_root \<times> refs) option" where
  "attach_node_to_dllist root refs node =
     (case head root of
        None \<Rightarrow> Some (\<lparr>head = Some node, tail = Some node\<rparr>, refs(node \<mapsto> \<lparr>prev = None, dl_next = None\<rparr>))
      | Some a \<Rightarrow> do {
          r \<leftarrow> refs a;
          Some (root\<lparr>head := Some node\<rparr>,
                refs(node \<mapsto> \<lparr>prev = None, dl_next = Some a\<rparr>, a \<mapsto> r\<lparr>prev := Some node\<rparr>))
        })"

definition detach_node_from_dllist :: "dllist_root \<Rightarrow> refs \<Rightarrow> nat \<Rightarrow> (dllist_root \<times> refs) option" where
  "detach_node_from_dllist root refs node = do {
     n \<leftarrow> refs node;
     (root, refs) \<leftarrow>
       (case dl_next n of
          Some b \<Rightarrow> do { r \<leftarrow> refs b; Some (root, refs(b \<mapsto> r\<lparr>prev := prev n\<rparr>)) }
        | None \<Rightarrow> Some (root\<lparr>tail := prev n\<rparr>, refs));
     (case prev n of
        Some a \<Rightarrow> do { r \<leftarrow> refs a; Some (root, refs(a \<mapsto> r\<lparr>dl_next := dl_next n\<rparr>)) }
      | None \<Rightarrow> Some (root\<lparr>head := dl_next n\<rparr>, refs))
   }"

text \<open>The nodes that a loop from the head along \<^verbatim>\<open>next\<close> or from the tail along \<^verbatim>\<open>prev\<close> visits.\<close>

partial_function (option) dll_walk_next :: "refs \<Rightarrow> nat option \<Rightarrow> nat list option" where
  "dll_walk_next refs t =
     (case t of None \<Rightarrow> Some []
      | Some a \<Rightarrow> do { r \<leftarrow> refs a; as \<leftarrow> dll_walk_next refs (dl_next r); Some (a # as) })"

partial_function (option) dll_walk_prev :: "refs \<Rightarrow> nat option \<Rightarrow> nat list option" where
  "dll_walk_prev refs t =
     (case t of None \<Rightarrow> Some []
      | Some a \<Rightarrow> do { r \<leftarrow> refs a; as \<leftarrow> dll_walk_prev refs (prev r); Some (a # as) })"

section \<open>The list that the links spell\<close>

definition first_or :: "nat list \<Rightarrow> nat option \<Rightarrow> nat option" where
  "first_or xs q = (case xs of [] \<Rightarrow> q | x # _ \<Rightarrow> Some x)"

definition last_or :: "nat option \<Rightarrow> nat list \<Rightarrow> nat option" where
  "last_or p xs = (if xs = [] then p else Some (last xs))"

lemma first_or_simps [simp]: "first_or [] q = q" "first_or (x # xs) q = Some x"
  by (simp_all add: first_or_def)

lemma last_or_simps [simp]:
  "last_or p [] = p" "last_or p (x # xs) = last_or (Some x) xs" "last_or p (xs @ ys) = last_or (last_or p xs) ys"
  by (simp_all add: last_or_def)

lemma first_or_append [simp]: "first_or (xs @ ys) q = first_or xs (first_or ys q)"
  by (cases xs) simp_all

fun links :: "refs \<Rightarrow> nat option \<Rightarrow> nat list \<Rightarrow> nat option \<Rightarrow> bool" where
  "links refs p [] q \<longleftrightarrow> True"
| "links refs p (x # xs) q \<longleftrightarrow> refs x = Some \<lparr>prev = p, dl_next = first_or xs q\<rparr> \<and> links refs (Some x) xs q"

definition dll :: "refs \<Rightarrow> dllist_root \<Rightarrow> nat list \<Rightarrow> bool" where
  "dll refs root xs \<longleftrightarrow> distinct xs \<and> head root = first_or xs None \<and> tail root = last_or None xs \<and> links refs None xs None"

lemma links_append: "links refs p (xs @ ys) q \<longleftrightarrow> links refs p xs (first_or ys q) \<and> links refs (last_or p xs) ys q"
  by (induction xs arbitrary: p) auto

lemma links_cong: "(\<And>x. x \<in> set xs \<Longrightarrow> refs' x = refs x) \<Longrightarrow> links refs' p xs q = links refs p xs q"
  by (induction xs arbitrary: p) auto

lemma links_upd [simp]: "a \<notin> set xs \<Longrightarrow> links (refs(a := v)) p xs q = links refs p xs q"
  by (rule links_cong) auto

lemma dll_mem: "dll refs root xs \<Longrightarrow> a \<in> set xs \<Longrightarrow> \<exists>r. refs a = Some r"
  using links_append [of refs None] by (fastforce simp: dll_def dest!: split_list)

lemma dll_empty: "dll refs \<lparr>head = None, tail = None\<rparr> []"
  by (simp add: dll_def)

section \<open>The operations on that list\<close>

lemma attach_dll:
  assumes "dll refs root xs" "a \<notin> set xs"
  shows "\<exists>root' refs'. attach_node_to_dllist root refs a = Some (root', refs') \<and> dll refs' root' (a # xs)
     \<and> dom refs' = insert a (dom refs)"
proof (cases xs)
  case Nil
  then show ?thesis using assms by (auto simp: dll_def attach_node_to_dllist_def)
next
  case (Cons x ys)
  have x: "refs x = Some \<lparr>prev = None, dl_next = first_or ys None\<rparr>" using assms Cons by (simp add: dll_def)
  then show ?thesis using assms Cons by (auto simp: dll_def attach_node_to_dllist_def)
qed

lemma relink_next:
  assumes "links refs p ys (Some a)" "distinct ys" "ys \<noteq> []"
  shows "\<exists>r. refs (last ys) = Some r \<and> links (refs(last ys \<mapsto> r\<lparr>dl_next := q\<rparr>)) p ys q"
proof -
  obtain ys' y where ys: "ys = ys' @ [y]" using assms(3) by (cases ys rule: rev_cases) auto
  then show ?thesis using assms by (auto simp: links_append)
qed

lemma detach_dll:
  assumes d: "dll refs root (ys @ a # zs)"
  shows "\<exists>root' refs'. detach_node_from_dllist root refs a = Some (root', refs') \<and> dll refs' root' (ys @ zs)
     \<and> dom refs' = dom refs"
proof -
  let ?n = "\<lparr>prev = last_or None ys, dl_next = first_or zs None\<rparr>"
  have l: "links refs None ys (Some a)" "refs a = Some ?n" "links refs (Some a) zs None"
    and dist: "distinct ys" "distinct zs" "a \<notin> set ys" "a \<notin> set zs" "set ys \<inter> set zs = {}"
    and root: "head root = first_or ys (Some a)" "tail root = last_or (Some a) zs"
    using d by (auto simp: dll_def links_append)
  have next_step: "\<exists>root1 refs1. (case dl_next ?n of
        Some b \<Rightarrow> do { r \<leftarrow> refs b; Some (root, refs(b \<mapsto> r\<lparr>prev := prev ?n\<rparr>)) }
      | None \<Rightarrow> Some (root\<lparr>tail := prev ?n\<rparr>, refs)) = Some (root1, refs1)
      \<and> links refs1 None ys (Some a) \<and> links refs1 (last_or None ys) zs None \<and> dom refs1 = dom refs
      \<and> head root1 = head root \<and> tail root1 = last_or (last_or None ys) zs"
  proof (cases zs)
    case Nil
    then show ?thesis using l root by simp
  next
    case (Cons z zs')
    then have "z \<notin> set ys" "z \<notin> set zs'" using dist by auto
    then show ?thesis using l root Cons by auto
  qed
  then obtain root1 refs1 where s1: "(case dl_next ?n of
        Some b \<Rightarrow> do { r \<leftarrow> refs b; Some (root, refs(b \<mapsto> r\<lparr>prev := prev ?n\<rparr>)) }
      | None \<Rightarrow> Some (root\<lparr>tail := prev ?n\<rparr>, refs)) = Some (root1, refs1)"
    and n1: "links refs1 None ys (Some a)" "links refs1 (last_or None ys) zs None" "dom refs1 = dom refs"
      "head root1 = head root" "tail root1 = last_or (last_or None ys) zs" by blast
  have "\<exists>root2 refs2. (case prev ?n of
        Some b \<Rightarrow> do { r \<leftarrow> refs1 b; Some (root1, refs1(b \<mapsto> r\<lparr>dl_next := dl_next ?n\<rparr>)) }
      | None \<Rightarrow> Some (root1\<lparr>head := dl_next ?n\<rparr>, refs1)) = Some (root2, refs2)
      \<and> dll refs2 root2 (ys @ zs) \<and> dom refs2 = dom refs"
  proof (cases "ys = []")
    case True
    then show ?thesis using n1 dist by (simp add: dll_def)
  next
    case False
    then obtain r where r: "refs1 (last ys) = Some r" "links (refs1(last ys \<mapsto> r\<lparr>dl_next := first_or zs None\<rparr>)) None ys (first_or zs None)"
      using relink_next [OF n1(1) dist(1)] by blast
    have "last ys \<notin> set zs" using dist(5) last_in_set [OF False] by blast
    moreover have "first_or ys (Some a) = first_or ys (first_or zs None)" using False by (cases ys) auto
    moreover have "last ys \<in> dom refs" using r(1) n1(3) by auto
    ultimately show ?thesis using r n1 dist root False by (auto simp: dll_def links_append last_or_def split: if_splits)
  qed
  then show ?thesis using l(2) s1 by (simp add: detach_node_from_dllist_def)
qed

lemma dll_forget: "dll refs root xs \<Longrightarrow> a \<notin> set xs \<Longrightarrow> dll (refs(a := v)) root xs"
  by (simp add: dll_def)

lemma links_walk_next: "links refs p xs None \<Longrightarrow> dll_walk_next refs (first_or xs None) = Some xs"
  by (induction xs arbitrary: p) (subst dll_walk_next.simps; auto)+

lemma links_walk_prev: "links refs None xs q \<Longrightarrow> dll_walk_prev refs (last_or None xs) = Some (rev xs)"
proof (induction xs arbitrary: q rule: rev_induct)
  case Nil
  then show ?case by (subst dll_walk_prev.simps) simp
next
  case (snoc x xs)
  have "dll_walk_prev refs (last_or None xs) = Some (rev xs)" using snoc.IH [of "Some x"] snoc.prems by (simp add: links_append)
  then show ?case using snoc.prems by (subst dll_walk_prev.simps) (simp add: links_append)
qed

lemma dll_walks:
  assumes "dll refs root xs"
  shows "dll_walk_next refs (head root) = Some xs" "dll_walk_prev refs (tail root) = Some (rev xs)"
  using assms links_walk_next links_walk_prev by (auto simp: dll_def)

lemma dll_walk_from:
  assumes "dll refs root (xs @ a # ys)"
  shows "dll_walk_next refs (Some a) = Some (a # ys)" "dll_walk_prev refs (Some a) = Some (a # rev xs)"
  using assms links_walk_next [of refs "last_or None xs" "a # ys"] links_walk_prev [of refs "xs @ [a]" "first_or ys None"]
  by (auto simp: dll_def links_append)

end
