(* ===== verification/CCol_Hashmap_Sc.thy ===== *)
theory CCol_Hashmap_Sc
  imports CCol_Hashmap_Oa CCol_Dllist
begin

unbundle bit_operations_syntax

text \<open>
  The separate-chaining backend of \<^verbatim>\<open>src/chashmap.c\<close>.  A node is an allocation
  of its own and its address is its block number; the nodes are a store from addresses
  to nodes, their links in the insertion-order list a second store, and the chain of a
  bucket is the list of the addresses that its \<^verbatim>\<open>next\<close> pointers run through.  A
  freed node leaves both stores.  \<^term>\<open>None\<close> is a read of a freed node, a copy the
  C standard leaves undefined, or a loop that does not end.
\<close>

section \<open>Structures\<close>

definition scale_factor :: size_t where
  [size_defs]: "scale_factor = 4"

definition INLINE_STORAGE_THRESHOLD :: size_t where
  [size_defs]: "INLINE_STORAGE_THRESHOLD = 23"

definition SC_CHAIN_CAP :: size_t where
  [size_defs]: "SC_CHAIN_CAP = 20"

definition SC_ATTEMPT_SLACK :: size_t where
  [size_defs]: "SC_ATTEMPT_SLACK = 64"

definition sizeof_llist_node :: size_t where
  [size_defs]: "sizeof_llist_node = 112"

text \<open>
  A node: its stored hash, and for the key and the value the bytes its accessor
  describes and the heap buffer that holds them, if it is not the inline storage.
\<close>

record llist_node =
  ln_hash_val :: u64
  ln_key :: "byte list"
  ln_key_buf :: "nat option"
  ln_val :: "byte list"
  ln_val_buf :: "nat option"

type_synonym nodes = "nat \<rightharpoonup> llist_node"
type_synonym key_equality_proc = "byte list \<Rightarrow> byte list \<Rightarrow> bool"

text \<open>\<open>sc_arr\<close> is the block of the bucket array, \<^term>\<open>None\<close> for the array inside the map's block.\<close>

record sep_chain_map = chmap_header +
  sc_elem_count :: size_t
  sc_bucket_arr_size :: size_t
  sc_elem_count_to_scale_up :: size_t
  sc_elem_count_to_scale_down :: size_t
  sc_buckets :: "nat list list"
  sc_arr :: "nat option"
  sc_all_elems :: dllist_root
  sc_refs :: refs
  sc_nodes :: nodes
  sc_m_procs :: mprocs
  sc_custom :: "hashing_proc option"
  sc_custom_eq :: "key_equality_proc option"
  sc_key_type :: ccol_data_type
  sc_val_type :: ccol_data_type
  sc_inline_buckets :: size_t

definition sc_keyed :: "sep_chain_map \<Rightarrow> bool" where
  "sc_keyed m \<longleftrightarrow> hash_mode m = CHMAP_HASH_KEYED"

text \<open>A pointer \<^term>\<open>InMap a\<close> points at the value bytes of the node at \<open>a\<close>.\<close>

definition sc_read :: "nodes \<Rightarrow> chm_ptr \<Rightarrow> size_t \<Rightarrow> byte list" where
  "sc_read nodes p n =
     (case p of NullPtr \<Rightarrow> [] | Outside bs \<Rightarrow> take n bs
      | InMap a \<Rightarrow> (case nodes a of None \<Rightarrow> [] | Some e \<Rightarrow> take n (ln_val e)))"

section \<open>Nodes\<close>

text \<open>Frees the buffers of a node that are on the heap, then the node.\<close>

definition sc_free_storage :: "llist_node \<Rightarrow> heap \<Rightarrow> heap" where
  "sc_free_storage e h =
     (let h = (case ln_key_buf e of Some b \<Rightarrow> if length (ln_key e) > INLINE_STORAGE_THRESHOLD then mem_free h b else h
               | None \<Rightarrow> h)
      in case ln_val_buf e of Some b \<Rightarrow> if length (ln_val e) > INLINE_STORAGE_THRESHOLD then mem_free h b else h
         | None \<Rightarrow> h)"

definition sc_destroy_llist_node :: "sep_chain_map \<Rightarrow> nat \<Rightarrow> heap \<Rightarrow> (sep_chain_map \<times> heap) option" where
  "sc_destroy_llist_node m a h = do {
     e \<leftarrow> sc_nodes m a;
     let h = sc_free_storage e h;
     (root, refs) \<leftarrow> detach_node_from_dllist (sc_all_elems m) (sc_refs m) a;
     Some (m\<lparr>sc_all_elems := root, sc_refs := refs(a := None), sc_nodes := (sc_nodes m)(a := None)\<rparr>, mem_free h a)
   }"

text \<open>The storage of a key or a value: \<^term>\<open>Some None\<close> is inline.\<close>

definition sc_store :: "heap \<Rightarrow> byte list \<Rightarrow> nat option option \<times> heap" where
  "sc_store h bs =
     (if length bs \<le> INLINE_STORAGE_THRESHOLD then (Some None, h)
      else case mem_alloc h (length bs) of (None, h) \<Rightarrow> (None, h) | (Some (b, _), h) \<Rightarrow> (Some (Some b), h))"

definition sc_create_llist_node ::
  "sep_chain_map \<Rightarrow> u64 \<Rightarrow> byte list \<Rightarrow> byte list \<Rightarrow> heap \<Rightarrow> (nat option \<times> sep_chain_map \<times> heap) option" where
  "sc_create_llist_node m hash_val key val h =
     (case mem_calloc h sizeof_llist_node of
        (None, h) \<Rightarrow> Some (None, m, h)
      | (Some (a, _), h) \<Rightarrow>
          (let e = \<lparr>ln_hash_val = hash_val, ln_key = [], ln_key_buf = None, ln_val = [], ln_val_buf = None\<rparr>
           in case sc_store h key of
                (None, h) \<Rightarrow> Some (None, m, mem_free (sc_free_storage e h) a)
              | (Some kb, h) \<Rightarrow>
                  (let e = e\<lparr>ln_key := key, ln_key_buf := kb\<rparr>
                   in case sc_store h val of
                        (None, h) \<Rightarrow> Some (None, m, mem_free (sc_free_storage e h) a)
                      | (Some vb, h) \<Rightarrow> do {
                          let e = e\<lparr>ln_val := val, ln_val_buf := vb\<rparr>;
                          (root, refs) \<leftarrow> attach_node_to_dllist (sc_all_elems m) (sc_refs m) a;
                          Some (Some a, m\<lparr>sc_all_elems := root, sc_refs := refs, sc_nodes := (sc_nodes m)(a \<mapsto> e)\<rparr>, h)
                        })))"

section \<open>Comparing keys and searching a chain\<close>

definition long_double_keys_equal :: "byte list \<Rightarrow> byte list \<Rightarrow> bool" where
  "long_double_keys_equal a b =
     (let a = long_double_key (take 16 a); b = long_double_key (take 16 b); a_nan = (a = None); b_nan = (b = None)
      in if a_nan \<or> b_nan then a_nan \<and> b_nan else the a = the b)"

definition sc_compare_keys :: "llist_node \<Rightarrow> byte list \<Rightarrow> ccol_data_type \<Rightarrow> bool" where
  "sc_compare_keys node key key_type =
     (if length (ln_key node) \<noteq> length key then False
      else if key_type = ccol_long_double then long_double_keys_equal (ln_key node) key
      else if length key = 4 then le_word (take 4 (ln_key node)) = le_word (take 4 key)
      else if length key = 8 then le_word (take 8 (ln_key node)) = le_word (take 8 key)
      else ln_key node = key)"

fun sc_find_in_llist_custom_eq ::
  "nodes \<Rightarrow> nat list \<Rightarrow> u64 \<Rightarrow> byte list \<Rightarrow> key_equality_proc \<Rightarrow> nat option option" where
  "sc_find_in_llist_custom_eq nodes [] hash_val key custom_eq = Some None"
| "sc_find_in_llist_custom_eq nodes (a # chain) hash_val key custom_eq = do {
     e \<leftarrow> nodes a;
     (if ln_hash_val e = hash_val \<and> custom_eq (ln_key e) key then Some (Some a)
      else sc_find_in_llist_custom_eq nodes chain hash_val key custom_eq)
   }"

fun sc_find_loop :: "nodes \<Rightarrow> nat list \<Rightarrow> u64 \<Rightarrow> byte list \<Rightarrow> ccol_data_type \<Rightarrow> size_t \<Rightarrow> (nat option \<times> size_t) option" where
  "sc_find_loop nodes [] hash_val key key_type met = Some (None, met)"
| "sc_find_loop nodes (a # chain) hash_val key key_type met = do {
     e \<leftarrow> nodes a;
     (if ln_hash_val e = hash_val \<and> sc_compare_keys e key key_type then Some (Some a, 0)
      else sc_find_loop nodes chain hash_val key key_type (met + 1))
   }"

text \<open>The node with the key, and for an absent key the length of the chain (\<open>walk\<close>).\<close>

definition sc_find_in_llist ::
  "nodes \<Rightarrow> nat list \<Rightarrow> u64 \<Rightarrow> byte list \<Rightarrow> ccol_data_type \<Rightarrow> key_equality_proc option \<Rightarrow> (nat option \<times> size_t) option" where
  "sc_find_in_llist nodes chain hash_val key key_type custom_eq =
     (case custom_eq of
        Some eq \<Rightarrow> do {
          found \<leftarrow> sc_find_in_llist_custom_eq nodes chain hash_val key eq;
          Some (found, if found = None then length chain else 0)
        }
      | None \<Rightarrow> sc_find_loop nodes chain hash_val key key_type 0)"

section \<open>Updating a value\<close>

text \<open>
  What a copy reads that the code makes after it has written, freed or moved the
  value storage of the node at \<open>a\<close>: a source in that storage is gone by then.
\<close>

definition sc_copy_after :: "nodes \<Rightarrow> nat \<Rightarrow> chm_ptr \<Rightarrow> size_t \<Rightarrow> byte list option" where
  "sc_copy_after nodes a src n = (if src = InMap a \<and> n \<noteq> 0 then None else Some (sc_read nodes src n))"

definition sc_val_overlaps :: "nat \<Rightarrow> llist_node \<Rightarrow> chm_ptr \<Rightarrow> size_t \<Rightarrow> bool" where
  "sc_val_overlaps a e src n \<longleftrightarrow> src = InMap a \<and> ranges_overlap 0 n 0 (length (ln_val e))"

definition sc_reset_val_of_llist_node ::
  "nodes \<Rightarrow> nat \<Rightarrow> chm_ptr \<Rightarrow> size_t \<Rightarrow> heap \<Rightarrow> (bool \<times> nodes \<times> heap) option" where
  "sc_reset_val_of_llist_node nodes a val_ptr val_size h = do {
     e \<leftarrow> nodes a;
     let old_size = length (ln_val e);
     let old_inline = (old_size \<le> INLINE_STORAGE_THRESHOLD);
     let (snap, h) =
       (if sc_val_overlaps a e val_ptr val_size then
          let bytes = sc_read nodes val_ptr val_size
          in if val_size \<le> INLINE_STORAGE_THRESHOLD + 1 then (Some (Outside bytes, None), h)
             else case mem_alloc h val_size of (None, h) \<Rightarrow> (None, h) | (Some (b, _), h) \<Rightarrow> (Some (Outside bytes, Some b), h)
        else (Some (val_ptr, None), h));
     (case snap of
        None \<Rightarrow> Some (False, nodes, h)
      | Some (val_ptr, heap_snapshot) \<Rightarrow> do {
          (ok, nodes, h) \<leftarrow>
            (if val_size = old_size then do {
               bytes \<leftarrow> sc_copy_after nodes a val_ptr val_size;
               Some (True, nodes(a \<mapsto> e\<lparr>ln_val := bytes\<rparr>), h)
             }
             else if val_size \<le> INLINE_STORAGE_THRESHOLD then do {
               let h = (if old_inline then h else case ln_val_buf e of Some b \<Rightarrow> mem_free h b | None \<Rightarrow> h);
               bytes \<leftarrow> sc_copy_after nodes a val_ptr val_size;
               Some (True, nodes(a \<mapsto> e\<lparr>ln_val := bytes, ln_val_buf := None\<rparr>), h)
             }
             else do {
               let (r, h) =
                 (if old_inline then case mem_alloc h val_size of (None, h) \<Rightarrow> (None, h) | (Some (b, _), h) \<Rightarrow> (Some (Some b), h)
                  else case mem_realloc h (ln_val e) val_size of (None, h) \<Rightarrow> (None, h) | (Some _, h) \<Rightarrow> (Some (ln_val_buf e), h));
               (case r of
                  None \<Rightarrow> Some (False, nodes, h)
                | Some buf \<Rightarrow> do {
                    bytes \<leftarrow> sc_copy_after nodes a val_ptr val_size;
                    Some (True, nodes(a \<mapsto> e\<lparr>ln_val := bytes, ln_val_buf := buf\<rparr>), h)
                  })
             });
          Some (ok, nodes, case heap_snapshot of None \<Rightarrow> h | Some b \<Rightarrow> mem_free h b)
        })
   }"

section \<open>Deleting from a chain\<close>

text \<open>The chain without the node that the search finds, and that node.\<close>

fun sc_unlink_loop :: "nodes \<Rightarrow> (llist_node \<Rightarrow> bool) \<Rightarrow> nat list \<Rightarrow> (nat option \<times> nat list) option" where
  "sc_unlink_loop nodes matches [] = Some (None, [])"
| "sc_unlink_loop nodes matches (a # chain) = do {
     e \<leftarrow> nodes a;
     (if matches e then Some (Some a, chain)
      else do { (found, chain) \<leftarrow> sc_unlink_loop nodes matches chain; Some (found, a # chain) })
   }"

definition sc_delete_from_llist ::
  "sep_chain_map \<Rightarrow> nat list \<Rightarrow> u64 \<Rightarrow> byte list \<Rightarrow> heap \<Rightarrow> (bool \<times> nat list \<times> sep_chain_map \<times> heap) option" where
  "sc_delete_from_llist m chain hash_val key h = do {
     (found, chain) \<leftarrow>
       sc_unlink_loop (sc_nodes m)
         (\<lambda>e. ln_hash_val e = hash_val
            \<and> (case sc_custom_eq m of Some eq \<Rightarrow> eq (ln_key e) key | None \<Rightarrow> sc_compare_keys e key (sc_key_type m)))
         chain;
     (case found of
        None \<Rightarrow> Some (False, chain, m, h)
      | Some a \<Rightarrow> do { (m, h) \<leftarrow> sc_destroy_llist_node m a h; Some (True, chain, m, h) })
   }"

fun sc_destroy_the_whole_llist :: "nat list \<Rightarrow> sep_chain_map \<Rightarrow> heap \<Rightarrow> (sep_chain_map \<times> heap) option" where
  "sc_destroy_the_whole_llist [] m h = Some (m, h)"
| "sc_destroy_the_whole_llist (a # chain) m h = do {
     (m, h) \<leftarrow> sc_destroy_llist_node m a h;
     sc_destroy_the_whole_llist chain m h
   }"

section \<open>Limits, window and hash mode\<close>

definition sc_set_scaling_limits :: "sep_chain_map \<Rightarrow> sep_chain_map" where
  "sc_set_scaling_limits m =
     (let n = sc_bucket_arr_size m; base_up = sz_add n (n div 2)
      in m\<lparr>sc_elem_count_to_scale_up := sz_add base_up (if n mod 2 = 0 then 1 else 2),
             sc_elem_count_to_scale_down := sz_add n 1 div 8\<rparr>)"

definition sc_window_bound :: "size_t \<Rightarrow> size_t \<Rightarrow> size_t \<Rightarrow> nat" where
  "sc_window_bound start_count scale_up bucket_count =
     (let judged = (if start_count < scale_up \<and> scale_up - start_count > CHMAP_WINDOW_INSERTS
                    then start_count + CHMAP_WINDOW_INSERTS else scale_up);
          lambda = chmap_load_q16 judged bucket_count;
          bound = 1152 * lambda div 65536 + 128
      in if bound > 65535 then 65535 else bound)"

definition sc_window_restart :: "sep_chain_map \<Rightarrow> sep_chain_map" where
  "sc_window_restart m =
     m\<lparr>insert_window := CHMAP_WINDOW_START,
         window_bound := (if sc_keyed m then 65535
                          else sc_window_bound (sc_elem_count m) (sc_elem_count_to_scale_up m) (sc_bucket_arr_size m))\<rparr>"

definition sc_hash_of_node :: "chmap_hash_secret \<Rightarrow> sep_chain_map \<Rightarrow> llist_node \<Rightarrow> bool \<Rightarrow> u64" where
  "sc_hash_of_node sec m node keyed =
     hash_key_data sec (ln_key node) (length (ln_key node)) (sc_key_type m) (sc_custom m) keyed (int_seed sec)"

text \<open>Links a node at the front of the chain of its bucket.\<close>

definition sc_link :: "size_t \<Rightarrow> nat list list \<Rightarrow> u64 \<Rightarrow> nat \<Rightarrow> nat list list" where
  "sc_link bucket_count buckets hash_val a =
     (let index = hash_index_for hash_val bucket_count in buckets[index := a # buckets ! index])"

fun sc_rehash_loop ::
  "chmap_hash_secret \<Rightarrow> sep_chain_map \<Rightarrow> size_t \<Rightarrow> nat list \<Rightarrow> nodes \<Rightarrow> nat list list \<Rightarrow> (nodes \<times> nat list list) option" where
  "sc_rehash_loop sec m bucket_count [] nodes buckets = Some (nodes, buckets)"
| "sc_rehash_loop sec m bucket_count (a # as) nodes buckets = do {
     e \<leftarrow> nodes a;
     let e = e\<lparr>ln_hash_val := sc_hash_of_node sec m e True\<rparr>;
     sc_rehash_loop sec m bucket_count as (nodes(a \<mapsto> e)) (sc_link bucket_count buckets (ln_hash_val e) a)
   }"

definition sc_switch_to_keyed :: "chmap_hash_secret \<Rightarrow> sep_chain_map \<Rightarrow> sep_chain_map option" where
  "sc_switch_to_keyed sec m = do {
     let m = m\<lparr>hash_mode := CHMAP_HASH_KEYED\<rparr>;
     as \<leftarrow> dll_walk_prev (sc_refs m) (tail (sc_all_elems m));
     (nodes, buckets) \<leftarrow>
       sc_rehash_loop sec m (sc_bucket_arr_size m) as (sc_nodes m) (replicate (sc_bucket_arr_size m) []);
     Some (sc_window_restart (m\<lparr>sc_nodes := nodes, sc_buckets := buckets\<rparr>))
   }"

definition sc_note_long_chain :: "chmap_hash_secret \<Rightarrow> sep_chain_map \<Rightarrow> sep_chain_map option" where
  "sc_note_long_chain sec m = (if sc_keyed m then Some m else sc_switch_to_keyed sec m)"

definition sc_window_end :: "chmap_hash_secret \<Rightarrow> sep_chain_map \<Rightarrow> sep_chain_map option" where
  "sc_window_end sec m =
     (let switch_now = (hash_mode m = CHMAP_HASH_FAST \<and> unat (insert_window m) > window_bound m);
          m = sc_window_restart m
      in if switch_now then sc_switch_to_keyed sec m else Some m)"

section \<open>Resizing the bucket array\<close>

text \<open>
  The first loop of a fast attempt: the nodes it reached with the fast hash, the new
  array, and the node it stopped at.  A walk of a chain counts up to the cap less one.
\<close>

primrec sc_attempt_loop ::
  "chmap_hash_secret \<Rightarrow> sep_chain_map \<Rightarrow> size_t \<Rightarrow> nat list \<Rightarrow> nodes \<Rightarrow> nat list list \<Rightarrow> size_t \<Rightarrow>
   (nodes \<times> nat list list \<times> nat option) option" where
  "sc_attempt_loop sec m new_size [] nodes new_arr walked = Some (nodes, new_arr, None)"
| "sc_attempt_loop sec m new_size (a # as) nodes new_arr walked = do {
     e \<leftarrow> nodes a;
     let e = e\<lparr>ln_hash_val := sc_hash_of_node sec m e False\<rparr>;
     let nodes = nodes(a \<mapsto> e);
     let chain = min (length (new_arr ! hash_index_for (ln_hash_val e) new_size)) (SC_CHAIN_CAP - 1);
     let walked = walked + chain;
     (if chain = SC_CHAIN_CAP - 1 \<or> walked > sc_elem_count m + SC_ATTEMPT_SLACK then Some (nodes, new_arr, Some a)
      else sc_attempt_loop sec m new_size as nodes (sc_link new_size new_arr (ln_hash_val e) a) walked)
   }"

text \<open>The second loop, after a failed attempt: the keyed hash comes back up to the node \<open>stop\<close>.\<close>

fun sc_restore_loop ::
  "chmap_hash_secret \<Rightarrow> sep_chain_map \<Rightarrow> size_t \<Rightarrow> nat \<Rightarrow> bool \<Rightarrow> nat list \<Rightarrow> nodes \<Rightarrow> nat list list \<Rightarrow>
   (nodes \<times> nat list list) option" where
  "sc_restore_loop sec m new_size stop holds_fast [] nodes new_arr = Some (nodes, new_arr)"
| "sc_restore_loop sec m new_size stop holds_fast (a # as) nodes new_arr = do {
     e \<leftarrow> nodes a;
     let e = (if holds_fast then e\<lparr>ln_hash_val := sc_hash_of_node sec m e True\<rparr> else e);
     sc_restore_loop sec m new_size stop (holds_fast \<and> a \<noteq> stop) as (nodes(a \<mapsto> e)) (sc_link new_size new_arr (ln_hash_val e) a)
   }"

definition sc_relink_fast_attempt ::
  "chmap_hash_secret \<Rightarrow> sep_chain_map \<Rightarrow> size_t \<Rightarrow> (bool \<times> nodes \<times> nat list list) option" where
  "sc_relink_fast_attempt sec m new_size = do {
     as \<leftarrow> dll_walk_prev (sc_refs m) (tail (sc_all_elems m));
     (nodes, new_arr, stop) \<leftarrow> sc_attempt_loop sec m new_size as (sc_nodes m) (replicate new_size []) 0;
     (case stop of
        None \<Rightarrow> Some (True, nodes, new_arr)
      | Some s \<Rightarrow> do {
          (nodes, new_arr) \<leftarrow> sc_restore_loop sec m new_size s True as nodes (replicate new_size []);
          Some (False, nodes, new_arr)
        })
   }"

fun sc_relink_chain :: "nodes \<Rightarrow> size_t \<Rightarrow> nat list \<Rightarrow> nat list list \<Rightarrow> nat list list option" where
  "sc_relink_chain nodes new_size [] new_arr = Some new_arr"
| "sc_relink_chain nodes new_size (a # chain) new_arr = do {
     e \<leftarrow> nodes a;
     sc_relink_chain nodes new_size chain (sc_link new_size new_arr (ln_hash_val e) a)
   }"

text \<open>The relink of every bucket, with the length of the longest group of merged chains.\<close>

fun sc_relink_loop ::
  "nodes \<Rightarrow> size_t \<Rightarrow> size_t \<Rightarrow> nat list list \<Rightarrow> size_t \<Rightarrow> size_t \<Rightarrow> size_t \<Rightarrow> nat list list \<Rightarrow> (nat list list \<times> size_t) option" where
  "sc_relink_loop nodes new_size ratio_mask [] i merged longest new_arr = Some (new_arr, longest)"
| "sc_relink_loop nodes new_size ratio_mask (chain # rest) i merged longest new_arr = do {
     let merged = (if i AND ratio_mask = 0 then 0 else merged);
     new_arr \<leftarrow> sc_relink_chain nodes new_size chain new_arr;
     let merged = merged + length chain;
     sc_relink_loop nodes new_size ratio_mask rest (i + 1) merged (if merged > longest then merged else longest) new_arr
   }"

text \<open>\<^verbatim>\<open>calloc\<close> of a bucket array, which refuses a product above \<^verbatim>\<open>SIZE_MAX\<close>.\<close>

definition sc_alloc_arr :: "size_t \<Rightarrow> heap \<Rightarrow> nat option \<times> heap" where
  "sc_alloc_arr n h =
     (if n > SIZE_MAX div 8 then (None, h)
      else case mem_calloc h (n * 8) of (None, h) \<Rightarrow> (None, h) | (Some (b, _), h) \<Rightarrow> (Some b, h))"

definition sc_free_arr :: "sep_chain_map \<Rightarrow> heap \<Rightarrow> heap" where
  "sc_free_arr m h = (case sc_arr m of None \<Rightarrow> h | Some b \<Rightarrow> mem_free h b)"

text \<open>A new array of \<open>n\<close> buckets: the one in the block when it has that length.\<close>

definition sc_new_arr :: "sep_chain_map \<Rightarrow> size_t \<Rightarrow> heap \<Rightarrow> nat option option \<times> heap" where
  "sc_new_arr m n h =
     (if n = sc_inline_buckets m then (Some None, h)
      else case sc_alloc_arr n h of (None, h) \<Rightarrow> (None, h) | (Some b, h) \<Rightarrow> (Some (Some b), h))"

definition sc_scale :: "chmap_hash_secret \<Rightarrow> sep_chain_map \<Rightarrow> bool \<Rightarrow> heap \<Rightarrow> (sep_chain_map \<times> heap) option" where
  "sc_scale sec m up h =
     (if up \<and> sc_bucket_arr_size m > ccol_max_power_of_two_size_t div scale_factor then Some (m, h)
      else
        let new_size = (if up then sz_mul (sc_bucket_arr_size m) scale_factor else sc_bucket_arr_size m div scale_factor);
            new_size = (if \<not> up \<and> new_size < minimum_allowed_bucket_array_size then minimum_allowed_bucket_array_size
                        else new_size)
        in case sc_new_arr m new_size h of
             (None, h) \<Rightarrow> Some (m, h)
           | (Some arr, h) \<Rightarrow> do {
               let ratio_mask = (if up then 0 else sc_bucket_arr_size m div new_size - 1);
               (m, new_arr, longest_merged) \<leftarrow>
                 (if up \<and> sc_keyed m then do {
                    (fast, nodes, new_arr) \<leftarrow> sc_relink_fast_attempt sec m new_size;
                    Some (m\<lparr>sc_nodes := nodes, hash_mode := (if fast then CHMAP_HASH_FAST else hash_mode m)\<rparr>, new_arr, 0)
                  }
                  else do {
                    (new_arr, longest) \<leftarrow>
                      sc_relink_loop (sc_nodes m) new_size ratio_mask (sc_buckets m) 0 0 0 (replicate new_size []);
                    Some (m, new_arr, longest)
                  });
               let h = sc_free_arr m h;
               let m = sc_window_restart (sc_set_scaling_limits
                 (m\<lparr>sc_buckets := new_arr, sc_arr := arr, sc_bucket_arr_size := new_size\<rparr>));
               (if \<not> up \<and> longest_merged \<ge> SC_CHAIN_CAP \<and> \<not> sc_keyed m then do {
                  m \<leftarrow> sc_switch_to_keyed sec m;
                  Some (m, h)
                }
                else Some (m, h))
             })"

section \<open>Operations\<close>

definition sc_init ::
  "chmap_header \<Rightarrow> size_t \<Rightarrow> size_t \<Rightarrow> ccol_data_type \<Rightarrow> ccol_data_type \<Rightarrow> mprocs \<Rightarrow> hashing_proc option \<Rightarrow>
   key_equality_proc option \<Rightarrow> heap \<Rightarrow> sep_chain_map option \<times> heap" where
  "sc_init hdr inline_buckets bucket_arr_size key_type val_type mp custom custom_eq h =
     (case (if bucket_arr_size = inline_buckets then (Some None, h)
            else case sc_alloc_arr bucket_arr_size h of (None, h) \<Rightarrow> (None, h) | (Some b, h) \<Rightarrow> (Some (Some b), h)) of
        (None, h) \<Rightarrow> (None, h)
      | (Some arr, h) \<Rightarrow>
          (Some (sc_window_restart (sc_set_scaling_limits
             \<lparr>hm_blk = hm_blk hdr, hash_mode = hash_mode hdr, window_bound = window_bound hdr,
              insert_window = insert_window hdr, sc_elem_count = 0, sc_bucket_arr_size = bucket_arr_size,
              sc_elem_count_to_scale_up = 0, sc_elem_count_to_scale_down = 0,
              sc_buckets = replicate bucket_arr_size [], sc_arr = arr,
              sc_all_elems = \<lparr>head = None, tail = None\<rparr>, sc_refs = Map.empty, sc_nodes = Map.empty,
              sc_m_procs = mp, sc_custom = custom, sc_custom_eq = custom_eq, sc_key_type = key_type,
              sc_val_type = val_type, sc_inline_buckets = inline_buckets\<rparr>)), h))"

definition sc_hash :: "chmap_hash_secret \<Rightarrow> sep_chain_map \<Rightarrow> byte list \<Rightarrow> u64" where
  "sc_hash sec m key = hash_key_data sec key (length key) (sc_key_type m) (sc_custom m) (sc_keyed m) (int_seed sec)"

type_synonym sc_result = "ccol_retval \<times> sep_chain_map \<times> heap \<times> nat option"

text \<open>The last component is the node whose accessors \<^verbatim>\<open>slot_out\<close> and \<^verbatim>\<open>key_slot_out\<close> get.\<close>

definition sc_insert_impl ::
  "chmap_hash_secret \<Rightarrow> sep_chain_map \<Rightarrow> chm_ptr \<times> size_t \<Rightarrow> chm_ptr \<times> size_t \<Rightarrow> bool \<Rightarrow> heap \<Rightarrow> sc_result option" where
  "sc_insert_impl sec m key_pair val_pair slot_out h = do {
     let key = sc_read (sc_nodes m) (fst key_pair) (snd key_pair);
     let hash_val = sc_hash sec m key;
     let index = hash_index_for hash_val (sc_bucket_arr_size m);
     (existing, walk) \<leftarrow>
       sc_find_in_llist (sc_nodes m) (sc_buckets m ! index) hash_val key (sc_key_type m) (sc_custom_eq m);
     (case existing of
        Some a \<Rightarrow>
          if slot_out then Some (ccol_key_already_present, m, h, Some a)
          else do {
            (ok, nodes, h) \<leftarrow> sc_reset_val_of_llist_node (sc_nodes m) a (fst val_pair) (snd val_pair) h;
            Some (if ok then ccol_key_already_present else ccol_not_enough_memory, m\<lparr>sc_nodes := nodes\<rparr>, h, None)
          }
      | None \<Rightarrow>
          if sc_elem_count m = ccol_max_elem_count then Some (ccol_container_full, m, h, None)
          else do {
            (new_node, m, h) \<leftarrow>
              sc_create_llist_node m hash_val key (sc_read (sc_nodes m) (fst val_pair) (snd val_pair)) h;
            (case new_node of
               None \<Rightarrow> Some (ccol_not_enough_memory, m, h, None)
             | Some a \<Rightarrow> do {
                 let m = m\<lparr>sc_buckets := (sc_buckets m)[index := a # sc_buckets m ! index],
                               sc_elem_count := sc_elem_count m + 1\<rparr>;
                 m \<leftarrow> (if walk \<ge> SC_CHAIN_CAP then sc_note_long_chain sec m else Some m);
                 let (ended, window) = chmap_window_add (insert_window m) walk;
                 let m = m\<lparr>insert_window := window\<rparr>;
                 m \<leftarrow> (if ended then sc_window_end sec m else Some m);
                 (m, h) \<leftarrow> (if sc_elem_count m \<ge> sc_elem_count_to_scale_up m then sc_scale sec m True h else Some (m, h));
                 Some (ccol_success, m, h, if slot_out then Some a else None)
               })
          })
   }"

definition sc_insert ::
  "chmap_hash_secret \<Rightarrow> sep_chain_map \<Rightarrow> chm_ptr \<times> size_t \<Rightarrow> chm_ptr \<times> size_t \<Rightarrow> heap \<Rightarrow> sc_result option" where
  "sc_insert sec m key_pair val_pair h = sc_insert_impl sec m key_pair val_pair False h"

definition sc_insert_or_get ::
  "chmap_hash_secret \<Rightarrow> sep_chain_map \<Rightarrow> chm_ptr \<times> size_t \<Rightarrow> chm_ptr \<times> size_t \<Rightarrow> heap \<Rightarrow> sc_result option" where
  "sc_insert_or_get sec m key_pair val_pair h = sc_insert_impl sec m key_pair val_pair True h"

definition sc_insert_or_get_entry ::
  "chmap_hash_secret \<Rightarrow> sep_chain_map \<Rightarrow> chm_ptr \<times> size_t \<Rightarrow> chm_ptr \<times> size_t \<Rightarrow> heap \<Rightarrow> sc_result option" where
  "sc_insert_or_get_entry sec m key_pair val_pair h = sc_insert_impl sec m key_pair val_pair True h"

definition sc_find_accessor :: "chmap_hash_secret \<Rightarrow> sep_chain_map \<Rightarrow> chm_ptr \<times> size_t \<Rightarrow> (ccol_retval \<times> nat option) option" where
  "sc_find_accessor sec m key_pair = do {
     let key = sc_read (sc_nodes m) (fst key_pair) (snd key_pair);
     let hash_val = sc_hash sec m key;
     let index = hash_index_for hash_val (sc_bucket_arr_size m);
     (found, _) \<leftarrow> sc_find_in_llist (sc_nodes m) (sc_buckets m ! index) hash_val key (sc_key_type m) (sc_custom_eq m);
     (case found of Some a \<Rightarrow> Some (ccol_success, Some a) | None \<Rightarrow> Some (ccol_key_not_found, None))
   }"

definition sc_get :: "chmap_hash_secret \<Rightarrow> sep_chain_map \<Rightarrow> chm_ptr \<times> size_t \<Rightarrow> (ccol_retval \<times> nat option) option" where
  "sc_get sec m key_pair = do {
     (rv, accessor) \<leftarrow> sc_find_accessor sec m key_pair;
     Some (if rv = ccol_success then (ccol_success, accessor) else (ccol_key_not_found, None))
   }"

definition sc_delete ::
  "chmap_hash_secret \<Rightarrow> sep_chain_map \<Rightarrow> chm_ptr \<times> size_t \<Rightarrow> heap \<Rightarrow> (ccol_retval \<times> sep_chain_map \<times> heap) option" where
  "sc_delete sec m key_pair h = do {
     let key = sc_read (sc_nodes m) (fst key_pair) (snd key_pair);
     let hash_val = sc_hash sec m key;
     let index = hash_index_for hash_val (sc_bucket_arr_size m);
     (found, chain, m, h) \<leftarrow> sc_delete_from_llist m (sc_buckets m ! index) hash_val key h;
     let m = m\<lparr>sc_buckets := (sc_buckets m)[index := chain]\<rparr>;
     (if found then do {
        let m = m\<lparr>sc_elem_count := sz_sub (sc_elem_count m) 1\<rparr>;
        (m, h) \<leftarrow>
          (if sc_elem_count m < sc_elem_count_to_scale_down m
             \<and> sc_bucket_arr_size m > minimum_allowed_bucket_array_size
           then sc_scale sec m False h else Some (m, h));
        Some (ccol_success, m, h)
      }
      else Some (ccol_key_not_found, m, h))
   }"

text \<open>The destruction of every chain, bucket after bucket.\<close>

fun sc_destroy_chains :: "nat list list \<Rightarrow> sep_chain_map \<Rightarrow> heap \<Rightarrow> (sep_chain_map \<times> heap) option" where
  "sc_destroy_chains [] m h = Some (m, h)"
| "sc_destroy_chains (chain # rest) m h = do {
     (m, h) \<leftarrow> sc_destroy_the_whole_llist chain m h;
     sc_destroy_chains rest m h
   }"

definition sc_destroy :: "sep_chain_map \<Rightarrow> heap \<Rightarrow> heap option" where
  "sc_destroy m h = do {
     (m, h) \<leftarrow> sc_destroy_chains (sc_buckets m) m h;
     Some (sc_free_arr m h)
   }"

text \<open>What every return of a reset leaves: empty buckets, no entries, new limits and a new window.\<close>

definition sc_cleared :: "sep_chain_map \<Rightarrow> sep_chain_map" where
  "sc_cleared m = sc_window_restart (sc_set_scaling_limits
     (m\<lparr>sc_buckets := replicate (sc_bucket_arr_size m) [], sc_elem_count := 0\<rparr>))"

definition sc_reset :: "sep_chain_map \<Rightarrow> size_t \<Rightarrow> heap \<Rightarrow> (ccol_retval \<times> sep_chain_map \<times> heap) option" where
  "sc_reset m new_size h = do {
     (m, h) \<leftarrow> sc_destroy_chains (sc_buckets m) m h;
     Some (if new_size > 0 \<and> new_size \<noteq> sc_bucket_arr_size m then
        if new_size > SIZE_MAX div 8 then (ccol_not_enough_memory, sc_cleared m, h)
        else
          let (r, h) =
            (if new_size = sc_inline_buckets m then (Some None, sc_free_arr m h)
             else case sc_arr m of
                 None \<Rightarrow> (case mem_alloc h (new_size * 8) of (None, h) \<Rightarrow> (None, h) | (Some (b, _), h) \<Rightarrow> (Some (Some b), h))
               | Some b \<Rightarrow>
                   (case mem_realloc h (replicate (sc_bucket_arr_size m * 8) 0) (new_size * 8) of
                      (None, h) \<Rightarrow> (None, h) | (Some _, h) \<Rightarrow> (Some (Some b), h)))
          in case r of
               None \<Rightarrow> (ccol_not_enough_memory, sc_cleared m, h)
             | Some arr \<Rightarrow> (ccol_success, sc_cleared (m\<lparr>sc_arr := arr, sc_bucket_arr_size := new_size\<rparr>), h)
      else (ccol_success, sc_cleared m, h))
   }"

end
