(* ===== verification/CCol_Hashmap_Sc_Inv.thy ===== *)
theory CCol_Hashmap_Sc_Inv
  imports CCol_Hashmap_Sc
begin

text \<open>
  The invariant of the separate-chaining backend.  Its body says what holds of the
  entries whatever their hashes are: the insertion-order list runs through exactly the
  live nodes, no two keys are equal, a key or a value has a heap buffer exactly when it
  is too long to be stored inline, and all blocks of the map are different.  Its index
  says that every node is in the bucket that the hash of its key picks in the map's
  hash mode, and that the stored hash is that hash.
\<close>

section \<open>Equality of keys\<close>

definition same_key :: "key_equality_proc option \<Rightarrow> ccol_data_type \<Rightarrow> byte list \<Rightarrow> byte list \<Rightarrow> bool" where
  "same_key custom_eq key_type j k =
     (case custom_eq of
        Some eq \<Rightarrow> eq j k
      | None \<Rightarrow> length j = length k \<and> (if key_type = ccol_long_double then long_double_keys_equal j k else j = k))"

lemma le_word_eq_iff:
  assumes "length xs = n" "length ys = n" "n \<le> 8"
  shows "le_word xs = le_word ys \<longleftrightarrow> xs = ys"
proof
  assume "le_word xs = le_word ys"
  then have "word_bytes n (le_word xs) = word_bytes n (le_word ys)" by (rule arg_cong)
  then show "xs = ys" unfolding word_bytes_le_word [OF assms(1,3)] word_bytes_le_word [OF assms(2,3)] .
qed simp

lemma sc_compare_keys_same: "sc_compare_keys e key kt = same_key None kt (ln_key e) key"
  using le_word_eq_iff [of "ln_key e" 4 key] le_word_eq_iff [of "ln_key e" 8 key]
  by (simp add: sc_compare_keys_def same_key_def)

lemma long_double_keys_equal_eq:
  "long_double_keys_equal a b \<longleftrightarrow> long_double_key (take 16 a) = long_double_key (take 16 b)"
  by (cases "long_double_key (take 16 a)"; cases "long_double_key (take 16 b)")
     (simp_all only: long_double_keys_equal_def Let_def, simp_all)

text \<open>
  What the map relies on of the procedures it is given: the key equality is an
  equivalence, it comes with a hash, and equal keys have equal hashes.
\<close>

definition key_procs_ok :: "ccol_data_type \<Rightarrow> hashing_proc option \<Rightarrow> key_equality_proc option \<Rightarrow> bool" where
  "key_procs_ok key_type custom custom_eq \<longleftrightarrow>
     (custom_eq = None \<or> custom \<noteq> None)
     \<and> (\<forall>eq. custom_eq = Some eq \<longrightarrow> (\<forall>k. eq k k) \<and> (\<forall>j k. eq j k \<longrightarrow> eq k j) \<and> (\<forall>i j k. eq i j \<longrightarrow> eq j k \<longrightarrow> eq i k))
     \<and> (\<forall>f. custom = Some f \<longrightarrow> (\<forall>j k. same_key custom_eq key_type j k \<longrightarrow> f j = f k))"

lemma same_key_equiv:
  assumes ok: "key_procs_ok kt custom ceq"
  shows "same_key ceq kt k k" "same_key ceq kt j k \<Longrightarrow> same_key ceq kt k j"
    "same_key ceq kt i j \<Longrightarrow> same_key ceq kt j k \<Longrightarrow> same_key ceq kt i k"
proof -
  have "same_key ceq kt k k \<and> (same_key ceq kt j k \<longrightarrow> same_key ceq kt k j)
      \<and> (same_key ceq kt i j \<longrightarrow> same_key ceq kt j k \<longrightarrow> same_key ceq kt i k)" for i j k
  proof (cases ceq)
    case None
    then show ?thesis by (simp add: same_key_def long_double_keys_equal_eq)
  next
    case (Some eq)
    have "\<forall>eq. ceq = Some eq \<longrightarrow> (\<forall>k. eq k k) \<and> (\<forall>j k. eq j k \<longrightarrow> eq k j) \<and> (\<forall>i j k. eq i j \<longrightarrow> eq j k \<longrightarrow> eq i k)"
      using ok unfolding key_procs_ok_def by (elim conjE)
    from mp [OF spec [OF this, of eq] Some] show ?thesis unfolding same_key_def Some option.case by (elim conjE) (intro conjI; blast)
  qed
  then show "same_key ceq kt k k" "same_key ceq kt j k \<Longrightarrow> same_key ceq kt k j"
    "same_key ceq kt i j \<Longrightarrow> same_key ceq kt j k \<Longrightarrow> same_key ceq kt i k" by blast+
qed

lemma same_key_hash:
  assumes ok: "key_procs_ok kt custom ceq" and same: "same_key ceq kt j k"
  shows "hash_key_data sec j (length j) kt custom keyed seed = hash_key_data sec k (length k) kt custom keyed seed"
proof (cases custom)
  case (Some f)
  have "\<forall>f. custom = Some f \<longrightarrow> (\<forall>j k. same_key ceq kt j k \<longrightarrow> f j = f k)" using ok unfolding key_procs_ok_def by (elim conjE)
  from mp [OF spec [OF this, of f] Some] have "f j = f k" using same by (elim allE impE)
  then show ?thesis using Some by (simp add: hash_key_data_def)
next
  case None
  then have "ceq = None" using ok by (simp add: key_procs_ok_def)
  then have "length j = length k" "if kt = ccol_long_double then long_double_keys_equal j k else j = k"
    using same by (auto simp: same_key_def)
  then show ?thesis using None
    by (auto simp: hash_key_data_def long_double_keys_equal_eq hash_long_double_value_def split: if_splits)
qed

section \<open>Buckets\<close>

definition filed :: "size_t \<Rightarrow> (nat \<Rightarrow> size_t) \<Rightarrow> nat set \<Rightarrow> nat list list \<Rightarrow> bool" where
  "filed c f A bs \<longleftrightarrow> length bs = c \<and> (\<forall>i < c. distinct (bs ! i) \<and> set (bs ! i) = {a \<in> A. f a = i})"

lemma filed_empty: "filed c f {} (replicate c [])"
  by (simp add: filed_def)

lemma filed_link:
  assumes "filed c f A bs" "a \<notin> A" "f a < c"
  shows "filed c f (insert a A) (bs[f a := a # bs ! f a])"
  unfolding filed_def
proof (intro conjI allI impI)
  show "length (bs[f a := a # bs ! f a]) = c" using assms(1) by (simp add: filed_def)
  fix i assume "i < c"
  then show "distinct (bs[f a := a # bs ! f a] ! i)" "set (bs[f a := a # bs ! f a] ! i) = {x \<in> insert a A. f x = i}"
    using assms by (cases "i = f a"; auto simp: filed_def)+
qed

lemma filed_unlink:
  assumes "filed c f A bs" "f a < c" "distinct chain" "set chain = set (bs ! f a) - {a}"
  shows "filed c f (A - {a}) (bs[f a := chain])"
  unfolding filed_def
proof (intro conjI allI impI)
  show "length (bs[f a := chain]) = c" using assms(1) by (simp add: filed_def)
  fix i assume "i < c"
  then show "distinct (bs[f a := chain] ! i)" "set (bs[f a := chain] ! i) = {x \<in> A - {a}. f x = i}"
    using assms by (cases "i = f a"; auto simp: filed_def)+
qed

lemma filed_cong: "filed c f A bs \<Longrightarrow> (\<And>a. a \<in> A \<Longrightarrow> g a = f a) \<Longrightarrow> filed c g A bs"
  by (auto simp: filed_def)

lemma distinct_concat_nth:
  "(\<And>i. i < length bs \<Longrightarrow> distinct (bs ! i)) \<Longrightarrow>
   (\<And>i j. i < length bs \<Longrightarrow> j < length bs \<Longrightarrow> i \<noteq> j \<Longrightarrow> set (bs ! i) \<inter> set (bs ! j) = {}) \<Longrightarrow> distinct (concat bs)"
proof (induction bs)
  case (Cons b bs)
  have "distinct (concat bs)"
  proof (rule Cons.IH)
    show "distinct (bs ! i)" if "i < length bs" for i using Cons.prems(1) [of "Suc i"] that by simp
    show "set (bs ! i) \<inter> set (bs ! j) = {}" if "i < length bs" "j < length bs" "i \<noteq> j" for i j
      using Cons.prems(2) [of "Suc i" "Suc j"] that by simp
  qed
  moreover have "set b \<inter> set x = {}" if "x \<in> set bs" for x
    using Cons.prems(2) [of 0 "Suc j" for j] that by (auto simp: in_set_conv_nth)
  ultimately show ?case using Cons.prems(1) [of 0] by auto
qed simp

lemma filed_concat:
  assumes "filed c f A bs" "\<And>a. a \<in> A \<Longrightarrow> f a < c"
  shows "set (concat bs) = A" "distinct (concat bs)"
proof -
  have "set bs = (\<lambda>i. bs ! i) ` {..<c}" using assms(1) by (auto simp: filed_def in_set_conv_nth)
  then have "set (concat bs) = (\<Union>i < c. set (bs ! i))" by simp
  also have "\<dots> = A" using assms by (auto simp: filed_def)
  finally show "set (concat bs) = A" .
  show "distinct (concat bs)"
    using assms(1) unfolding filed_def by (intro distinct_concat_nth) auto
qed

section \<open>The body and the index of a map\<close>

definition opt_list :: "'a option \<Rightarrow> 'a list" where
  "opt_list x = (case x of None \<Rightarrow> [] | Some b \<Rightarrow> [b])"

lemma opt_list_simps [simp]: "opt_list None = []" "opt_list (Some b) = [b]"
  by (simp_all add: opt_list_def)

definition node_blks :: "nodes \<Rightarrow> nat \<Rightarrow> nat list" where
  "node_blks nodes a =
     (case nodes a of None \<Rightarrow> [] | Some e \<Rightarrow> a # opt_list (ln_key_buf e) @ opt_list (ln_val_buf e))"

text \<open>The blocks of a map: its own, its bucket array's, and those of its nodes.\<close>

definition sc_blocks :: "sep_chain_map \<Rightarrow> nat list \<Rightarrow> nat list" where
  "sc_blocks m xs = hm_blk m # opt_list (sc_arr m) @ concat (map (node_blks (sc_nodes m)) xs)"

definition buf_ok :: "byte list \<Rightarrow> nat option \<Rightarrow> bool" where
  "buf_ok bs buf \<longleftrightarrow> (buf = None) = (length bs \<le> INLINE_STORAGE_THRESHOLD)"

definition node_key :: "nodes \<Rightarrow> nat \<Rightarrow> byte list" where
  "node_key nodes a = ln_key (the (nodes a))"

definition sc_same :: "sep_chain_map \<Rightarrow> byte list \<Rightarrow> byte list \<Rightarrow> bool" where
  "sc_same m = same_key (sc_custom_eq m) (sc_key_type m)"

definition sc_body :: "sep_chain_map \<Rightarrow> nat list \<Rightarrow> bool" where
  "sc_body m xs \<longleftrightarrow> key_procs_ok (sc_key_type m) (sc_custom m) (sc_custom_eq m)
     \<and> dll (sc_refs m) (sc_all_elems m) xs \<and> dom (sc_nodes m) = set xs
     \<and> sc_elem_count m = length xs \<and> length xs \<le> ccol_max_elem_count
     \<and> (\<forall>a e. sc_nodes m a = Some e \<longrightarrow> buf_ok (ln_key e) (ln_key_buf e) \<and> buf_ok (ln_val e) (ln_val_buf e))
     \<and> (\<forall>a \<in> set xs. \<forall>b \<in> set xs. sc_same m (node_key (sc_nodes m) a) (node_key (sc_nodes m) b) \<longrightarrow> a = b)
     \<and> distinct (sc_blocks m xs)"

definition sc_home :: "chmap_hash_secret \<Rightarrow> sep_chain_map \<Rightarrow> nodes \<Rightarrow> size_t \<Rightarrow> bool \<Rightarrow> nat \<Rightarrow> size_t" where
  "sc_home sec m nodes c keyed a = hash_index_for (sc_hash_of_node sec m (the (nodes a)) keyed) c"

definition arr_ok :: "size_t \<Rightarrow> bool" where
  "arr_ok c \<longleftrightarrow> pow2 c \<and> 4 \<le> c \<and> c \<le> SIZE_MAX div 8"

definition sc_index :: "chmap_hash_secret \<Rightarrow> sep_chain_map \<Rightarrow> nat list \<Rightarrow> bool" where
  "sc_index sec m xs \<longleftrightarrow> arr_ok (sc_bucket_arr_size m)
     \<and> (sc_arr m = None \<longleftrightarrow> sc_bucket_arr_size m = sc_inline_buckets m) \<and> sc_inline_buckets m \<le> 16
     \<and> filed (sc_bucket_arr_size m) (sc_home sec m (sc_nodes m) (sc_bucket_arr_size m) (sc_keyed m)) (set xs) (sc_buckets m)
     \<and> (\<forall>a e. sc_nodes m a = Some e \<longrightarrow> ln_hash_val e = sc_hash_of_node sec m e (sc_keyed m))
     \<and> sc_elem_count_to_scale_up m = sc_bucket_arr_size m + sc_bucket_arr_size m div 2 + 1
     \<and> sc_elem_count_to_scale_down m = (sc_bucket_arr_size m + 1) div 8"

lemma arr_okD: "arr_ok c \<Longrightarrow> pow2 c \<and> 2 \<le> c \<and> c \<le> 2 ^ 63 \<and> 0 < c \<and> even c \<and> c \<le> 2 ^ 61"
proof -
  assume c: "arr_ok c"
  then obtain k where k: "c = 2 ^ k" by (auto simp: arr_ok_def pow2_def)
  have "k \<noteq> 0" using c k by (cases k) (auto simp: arr_ok_def)
  then show ?thesis using c k by (auto simp: arr_ok_def SIZE_MAX_def)
qed

lemma sc_home_less: "arr_ok c \<Longrightarrow> sc_home sec m nodes c keyed a < c"
  using arr_okD by (simp add: sc_home_def hash_index_for_less)

section \<open>Rehashing\<close>

definition rehashed :: "nodes \<Rightarrow> nodes \<Rightarrow> bool" where
  "rehashed nodes nodes' \<longleftrightarrow>
     (\<forall>a. map_option (ln_hash_val_update (\<lambda>_. 0)) (nodes' a) = map_option (ln_hash_val_update (\<lambda>_. 0)) (nodes a))"

lemma rehashed_refl [simp]: "rehashed nodes nodes"
  by (simp add: rehashed_def)

lemma rehashed_trans: "rehashed n1 n2 \<Longrightarrow> rehashed n2 n3 \<Longrightarrow> rehashed n1 n3"
  by (simp add: rehashed_def)

lemma rehashed_upd: "nodes a = Some e \<Longrightarrow> rehashed nodes (nodes(a \<mapsto> e\<lparr>ln_hash_val := h\<rparr>))"
  by (simp add: rehashed_def)

lemma rehashed_node:
  assumes "rehashed nodes nodes'" "nodes' a = Some e'"
  shows "\<exists>e. nodes a = Some e \<and> ln_key e' = ln_key e \<and> ln_key_buf e' = ln_key_buf e \<and> ln_val e' = ln_val e \<and> ln_val_buf e' = ln_val_buf e"
proof -
  have "map_option (ln_hash_val_update (\<lambda>_. 0)) (nodes a) = Some (e'\<lparr>ln_hash_val := 0\<rparr>)"
    using assms unfolding rehashed_def by (metis option.simps(9))
  then obtain e where e: "nodes a = Some e" "e\<lparr>ln_hash_val := 0\<rparr> = e'\<lparr>ln_hash_val := 0\<rparr>" by auto
  then show ?thesis by (cases e; cases e') auto
qed

lemma rehashed_sym: "rehashed nodes nodes' \<Longrightarrow> rehashed nodes' nodes"
  by (simp add: rehashed_def)

lemma rehashed_None: "rehashed nodes nodes' \<Longrightarrow> nodes' a = None \<longleftrightarrow> nodes a = None"
  by (metis rehashed_def option.map_disc_iff)

lemma rehashed_dom: "rehashed nodes nodes' \<Longrightarrow> dom nodes' = dom nodes"
  unfolding dom_def by (simp only: rehashed_None)

lemma rehashed_blks: "rehashed nodes nodes' \<Longrightarrow> node_blks nodes' = node_blks nodes"
proof
  fix a assume r: "rehashed nodes nodes'"
  show "node_blks nodes' a = node_blks nodes a"
  proof (cases "nodes' a")
    case None
    then show ?thesis using rehashed_None [OF r, of a] by (simp add: node_blks_def)
  next
    case (Some e')
    then show ?thesis using rehashed_node [OF r Some] by (auto simp: node_blks_def)
  qed
qed

lemma rehashed_key: "rehashed nodes nodes' \<Longrightarrow> nodes a \<noteq> None \<Longrightarrow> node_key nodes' a = node_key nodes a"
  using rehashed_node [of nodes nodes' a] rehashed_None [of nodes nodes' a] by (auto simp: node_key_def)

lemma sc_hash_of_node_cong: "ln_key e' = ln_key e \<Longrightarrow> sc_hash_of_node sec m e' keyed = sc_hash_of_node sec m e keyed"
  by (simp add: sc_hash_of_node_def)

lemma rehashed_home:
  assumes "rehashed nodes nodes'" "nodes a \<noteq> None"
  shows "sc_home sec m nodes' c keyed a = sc_home sec m nodes c keyed a"
proof -
  have "ln_key (the (nodes' a)) = ln_key (the (nodes a))" using rehashed_key [OF assms] by (simp add: node_key_def)
  from sc_hash_of_node_cong [OF this, of sec m keyed] show ?thesis by (simp only: sc_home_def)
qed

lemma link_step:
  assumes "arr_ok c" "filed c (sc_home sec m nodes c keyed) A bs" "a \<notin> A" "nodes a = Some e"
  shows "filed c (sc_home sec m nodes c keyed) (insert a A) (sc_link c bs (sc_hash_of_node sec m e keyed) a)"
proof -
  have "sc_home sec m nodes c keyed a = hash_index_for (sc_hash_of_node sec m e keyed) c" using assms(4) by (simp add: sc_home_def)
  then show ?thesis using filed_link [OF assms(2,3) sc_home_less [OF assms(1)]] by (simp add: sc_link_def Let_def)
qed

lemma filed_rehashed:
  assumes "rehashed nodes nodes'" "A \<subseteq> dom nodes" "filed c (sc_home sec m nodes c keyed) A bs"
  shows "filed c (sc_home sec m nodes' c keyed) A bs"
  by (rule filed_cong [OF assms(3)], rule rehashed_home [OF assms(1)]) (use assms(2) in auto)

text \<open>The stored hash of a node is the hash of its key in the given mode.\<close>

definition hash_kept :: "chmap_hash_secret \<Rightarrow> sep_chain_map \<Rightarrow> nodes \<Rightarrow> bool \<Rightarrow> nat \<Rightarrow> bool" where
  "hash_kept sec m nodes keyed a \<longleftrightarrow> (\<forall>e. nodes a = Some e \<longrightarrow> ln_hash_val e = sc_hash_of_node sec m e keyed)"

lemma hash_kept_upd:
  "hash_kept sec m (nodes(a \<mapsto> e\<lparr>ln_hash_val := sc_hash_of_node sec m e keyed\<rparr>)) keyed a"
  by (simp add: hash_kept_def sc_hash_of_node_def)

lemma hash_kept_other: "b \<noteq> a \<Longrightarrow> hash_kept sec m (nodes(a := v)) keyed b = hash_kept sec m nodes keyed b"
  by (simp add: hash_kept_def)

lemma hash_kept_same: "nodes' a = nodes a \<Longrightarrow> hash_kept sec m nodes' keyed a = hash_kept sec m nodes keyed a"
  by (simp add: hash_kept_def)

lemma link_rehashed:
  assumes "arr_ok c" "filed c (sc_home sec m nodes c keyed) A bs" "a \<notin> A" "nodes a = Some e" "A \<subseteq> dom nodes"
  shows "filed c (sc_home sec m (nodes(a \<mapsto> e\<lparr>ln_hash_val := h\<rparr>)) c keyed) (insert a A) (sc_link c bs (sc_hash_of_node sec m e keyed) a)"
  by (rule filed_rehashed [OF rehashed_upd [of nodes a e, OF assms(4)] _ link_step [OF assms(1-4)]]) (use assms(4,5) in auto)

lemma sc_rehash_loop_ends:
  assumes c: "arr_ok c"
  shows "distinct as \<Longrightarrow> A \<union> set as \<subseteq> dom nodes \<Longrightarrow> A \<inter> set as = {} \<Longrightarrow> filed c (sc_home sec m nodes c True) A bs \<Longrightarrow>
     \<exists>nodes' bs'. sc_rehash_loop sec m c as nodes bs = Some (nodes', bs') \<and> rehashed nodes nodes'
       \<and> filed c (sc_home sec m nodes' c True) (A \<union> set as) bs' \<and> (\<forall>a \<in> set as. hash_kept sec m nodes' True a)
       \<and> (\<forall>a. a \<notin> set as \<longrightarrow> nodes' a = nodes a)"
proof (induction as arbitrary: A nodes bs)
  case Nil
  then show ?case by simp
next
  case (Cons a as)
  obtain e where e: "nodes a = Some e" using Cons.prems(2) by auto
  let ?n = "nodes(a \<mapsto> e\<lparr>ln_hash_val := sc_hash_of_node sec m e True\<rparr>)" and ?b = "sc_link c bs (sc_hash_of_node sec m e True) a"
  have f: "filed c (sc_home sec m ?n c True) (insert a A) ?b"
    by (rule link_rehashed [OF c Cons.prems(4) _ e]) (use Cons.prems in auto)
  have d: "distinct as" "insert a A \<union> set as \<subseteq> dom ?n" "insert a A \<inter> set as = {}" using Cons.prems by auto
  obtain nodes' bs' where r: "sc_rehash_loop sec m c as ?n ?b = Some (nodes', bs')" "rehashed ?n nodes'"
      "filed c (sc_home sec m nodes' c True) (insert a A \<union> set as) bs'" "\<forall>a \<in> set as. hash_kept sec m nodes' True a"
      "\<forall>x. x \<notin> set as \<longrightarrow> nodes' x = ?n x"
    using Cons.IH [OF d f] by blast
  have "hash_kept sec m nodes' True a"
    using hash_kept_upd [of sec m nodes a e True] hash_kept_same [of nodes' a ?n] r(5) Cons.prems(1) by simp
  then show ?case using r e rehashed_trans [OF rehashed_upd [of nodes a e, OF e] r(2)] by auto
qed

text \<open>Where a fast attempt stopped: the nodes after that one still have the hash they had.\<close>

lemma sc_attempt_loop_ends:
  assumes c: "arr_ok c"
  shows "distinct as \<Longrightarrow> A \<union> set as \<subseteq> dom nodes \<Longrightarrow> A \<inter> set as = {} \<Longrightarrow> filed c (sc_home sec m nodes c False) A bs \<Longrightarrow>
     \<exists>nodes' bs' stop. sc_attempt_loop sec m c as nodes bs walked = Some (nodes', bs', stop) \<and> rehashed nodes nodes'
       \<and> (case stop of
            None \<Rightarrow> filed c (sc_home sec m nodes' c False) (A \<union> set as) bs' \<and> (\<forall>a \<in> set as. hash_kept sec m nodes' False a)
              \<and> (\<forall>a. a \<notin> set as \<longrightarrow> nodes' a = nodes a)
          | Some s \<Rightarrow> \<exists>us vs. as = us @ s # vs \<and> (\<forall>a. a \<notin> set us \<longrightarrow> a \<noteq> s \<longrightarrow> nodes' a = nodes a))"
proof (induction as arbitrary: A nodes bs walked)
  case Nil
  then show ?case by simp
next
  case (Cons a as)
  obtain e where e: "nodes a = Some e" using Cons.prems(2) by auto
  let ?n = "nodes(a \<mapsto> e\<lparr>ln_hash_val := sc_hash_of_node sec m e False\<rparr>)" and ?b = "sc_link c bs (sc_hash_of_node sec m e False) a"
  let ?chain = "min (length (bs ! hash_index_for (sc_hash_of_node sec m e False) c)) (SC_CHAIN_CAP - 1)"
  have re: "rehashed nodes ?n" by (rule rehashed_upd [of nodes a e, OF e])
  have f: "filed c (sc_home sec m ?n c False) (insert a A) ?b"
    by (rule link_rehashed [OF c Cons.prems(4) _ e]) (use Cons.prems in auto)
  have d: "distinct as" "insert a A \<union> set as \<subseteq> dom ?n" "insert a A \<inter> set as = {}" using Cons.prems by auto
  obtain nodes' bs' stop where r: "sc_attempt_loop sec m c as ?n ?b (walked + ?chain) = Some (nodes', bs', stop)" "rehashed ?n nodes'"
      "case stop of
            None \<Rightarrow> filed c (sc_home sec m nodes' c False) (insert a A \<union> set as) bs' \<and> (\<forall>a \<in> set as. hash_kept sec m nodes' False a)
              \<and> (\<forall>a. a \<notin> set as \<longrightarrow> nodes' a = ?n a)
          | Some s \<Rightarrow> \<exists>us vs. as = us @ s # vs \<and> (\<forall>a. a \<notin> set us \<longrightarrow> a \<noteq> s \<longrightarrow> nodes' a = ?n a)"
    using Cons.IH [OF d f, of "walked + ?chain"] by blast
  have run: "sc_attempt_loop sec m c (a # as) nodes bs walked =
     (if ?chain = SC_CHAIN_CAP - 1 \<or> walked + ?chain > sc_elem_count m + SC_ATTEMPT_SLACK then Some (?n, bs, Some a)
      else sc_attempt_loop sec m c as ?n ?b (walked + ?chain))"
    using e by (simp add: Let_def)
  show ?case
  proof (cases "?chain = SC_CHAIN_CAP - 1 \<or> walked + ?chain > sc_elem_count m + SC_ATTEMPT_SLACK")
    case True
    have "\<exists>us vs. a # as = us @ a # vs \<and> (\<forall>x. x \<notin> set us \<longrightarrow> x \<noteq> a \<longrightarrow> ?n x = nodes x)"
      by (rule exI [of _ "[]"]) auto
    then show ?thesis unfolding run if_P [OF True] using re
      by (intro exI [of _ ?n] exI [of _ bs] exI [of _ "Some a"] conjI) (simp_all only: option.case)
  next
    case False
    note run = run [unfolded if_not_P [OF False]]
    have tr: "rehashed nodes nodes'" by (rule rehashed_trans [OF re r(2)])
    show ?thesis
    proof (cases stop)
      case None
      have "hash_kept sec m nodes' False a"
        using hash_kept_upd [of sec m nodes a e False] hash_kept_same [of nodes' a ?n] r(3) None Cons.prems(1) by simp
      then show ?thesis using run r(1,3) tr None by auto
    next
      case (Some s)
      then obtain us vs where "as = us @ s # vs" "\<forall>a. a \<notin> set us \<longrightarrow> a \<noteq> s \<longrightarrow> nodes' a = ?n a" using r(3) by auto
      then have "a # as = (a # us) @ s # vs \<and> (\<forall>x. x \<notin> set (a # us) \<longrightarrow> x \<noteq> s \<longrightarrow> nodes' x = nodes x)" by simp
      then have "\<exists>us vs. a # as = us @ s # vs \<and> (\<forall>x. x \<notin> set us \<longrightarrow> x \<noteq> s \<longrightarrow> nodes' x = nodes x)" by blast
      then show ?thesis unfolding run r(1) using tr Some
        by (intro exI [of _ nodes'] exI [of _ bs'] exI [of _ "Some s"] conjI) (simp_all only: option.case)
    qed
  qed
qed

lemma sc_restore_loop_ends:
  assumes c: "arr_ok c"
  shows "distinct as \<Longrightarrow> A \<union> set as \<subseteq> dom nodes \<Longrightarrow> A \<inter> set as = {} \<Longrightarrow> filed c (sc_home sec m nodes c True) A bs \<Longrightarrow>
     (\<And>a. a \<in> set as \<Longrightarrow> hash_kept sec m nodes True a \<or> holds \<and> (\<exists>us vs. as = us @ a # vs \<and> stop \<notin> set us)) \<Longrightarrow>
     \<exists>nodes' bs'. sc_restore_loop sec m c stop holds as nodes bs = Some (nodes', bs') \<and> rehashed nodes nodes'
       \<and> filed c (sc_home sec m nodes' c True) (A \<union> set as) bs' \<and> (\<forall>a \<in> set as. hash_kept sec m nodes' True a)
       \<and> (\<forall>a. a \<notin> set as \<longrightarrow> nodes' a = nodes a)"
proof (induction as arbitrary: A nodes bs holds)
  case Nil
  then show ?case by simp
next
  case (Cons a as)
  obtain e where e: "nodes a = Some e" using Cons.prems(2) by auto
  let ?e = "e\<lparr>ln_hash_val := sc_hash_of_node sec m e True\<rparr>"
  let ?n = "nodes(a \<mapsto> ?e)" and ?b = "sc_link c bs (sc_hash_of_node sec m e True) a"
  have kept: "(if holds then ?e else e) = ?e"
    using Cons.prems(5) [of a] e by (cases holds) (auto simp: hash_kept_def)
  have f: "filed c (sc_home sec m ?n c True) (insert a A) ?b"
    by (rule link_rehashed [OF c Cons.prems(4) _ e]) (use Cons.prems in auto)
  have d: "distinct as" "insert a A \<union> set as \<subseteq> dom ?n" "insert a A \<inter> set as = {}" using Cons.prems by auto
  have later: "hash_kept sec m ?n True x \<or> (holds \<and> a \<noteq> stop) \<and> (\<exists>us vs. as = us @ x # vs \<and> stop \<notin> set us)" if x: "x \<in> set as" for x
  proof (cases "hash_kept sec m nodes True x")
    case True
    moreover have "x \<noteq> a" using x Cons.prems(1) by auto
    ultimately show ?thesis by (simp add: hash_kept_other)
  next
    case False
    then obtain us vs where u: "holds" "a # as = us @ x # vs" "stop \<notin> set us" using Cons.prems(5) [of x] x by auto
    then show ?thesis using x Cons.prems(1) by (cases us) auto
  qed
  obtain nodes' bs' where r: "sc_restore_loop sec m c stop (holds \<and> a \<noteq> stop) as ?n ?b = Some (nodes', bs')" "rehashed ?n nodes'"
      "filed c (sc_home sec m nodes' c True) (insert a A \<union> set as) bs'" "\<forall>a \<in> set as. hash_kept sec m nodes' True a"
      "\<forall>x. x \<notin> set as \<longrightarrow> nodes' x = ?n x"
    using Cons.IH [OF d f later] by blast
  have "hash_kept sec m nodes' True a"
    using hash_kept_upd [of sec m nodes a e True] hash_kept_same [of nodes' a ?n] r(5) Cons.prems(1) by simp
  moreover have "sc_restore_loop sec m c stop holds (a # as) nodes bs = sc_restore_loop sec m c stop (holds \<and> a \<noteq> stop) as ?n ?b"
    using e kept by (simp add: Let_def)
  ultimately show ?case using r rehashed_trans [OF rehashed_upd [of nodes a e, OF e] r(2)] by auto
qed

lemma sc_relink_chain_ends:
  assumes c: "arr_ok c"
  shows "distinct chain \<Longrightarrow> set chain \<subseteq> dom nodes \<Longrightarrow> A \<inter> set chain = {} \<Longrightarrow> filed c (sc_home sec m nodes c keyed) A bs \<Longrightarrow>
     (\<And>a. a \<in> set chain \<Longrightarrow> hash_kept sec m nodes keyed a) \<Longrightarrow>
     \<exists>bs'. sc_relink_chain nodes c chain bs = Some bs' \<and> filed c (sc_home sec m nodes c keyed) (A \<union> set chain) bs'"
proof (induction chain arbitrary: A bs)
  case Nil
  then show ?case by simp
next
  case (Cons a chain)
  obtain e where e: "nodes a = Some e" using Cons.prems(2) by auto
  have h: "ln_hash_val e = sc_hash_of_node sec m e keyed" using Cons.prems(5) [of a] e by (simp add: hash_kept_def)
  have "filed c (sc_home sec m nodes c keyed) (insert a A) (sc_link c bs (ln_hash_val e) a)"
    unfolding h by (rule link_step [OF c Cons.prems(4) _ e]) (use Cons.prems in auto)
  then show ?case using Cons.IH [of "insert a A" "sc_link c bs (ln_hash_val e) a"] Cons.prems e by auto
qed

lemma sc_relink_loop_ends:
  assumes c: "arr_ok c"
  shows "distinct (concat old) \<Longrightarrow> set (concat old) \<subseteq> dom nodes \<Longrightarrow> A \<inter> set (concat old) = {} \<Longrightarrow>
     filed c (sc_home sec m nodes c keyed) A bs \<Longrightarrow> (\<And>a. a \<in> set (concat old) \<Longrightarrow> hash_kept sec m nodes keyed a) \<Longrightarrow>
     \<exists>bs' longest'. sc_relink_loop nodes c msk old i merged longest bs = Some (bs', longest')
       \<and> filed c (sc_home sec m nodes c keyed) (A \<union> set (concat old)) bs'"
proof (induction old arbitrary: A bs i merged longest)
  case Nil
  then show ?case by simp
next
  case (Cons chain old)
  have "\<exists>bs1. sc_relink_chain nodes c chain bs = Some bs1 \<and> filed c (sc_home sec m nodes c keyed) (A \<union> set chain) bs1"
    by (rule sc_relink_chain_ends [OF c]) (use Cons.prems in auto)
  then obtain bs1 where b: "sc_relink_chain nodes c chain bs = Some bs1" "filed c (sc_home sec m nodes c keyed) (A \<union> set chain) bs1" by blast
  have "(A \<union> set chain) \<inter> set (concat old) = {}" using Cons.prems(1,3) by auto
  then show ?case using Cons.IH [of "A \<union> set chain" bs1] Cons.prems b by (simp add: Let_def Un_assoc)
qed

end
