(* ===== verification/CCol_Hashmap_Sc_Refile.thy ===== *)
theory CCol_Hashmap_Sc_Refile
  imports CCol_Hashmap_Sc_Inv
begin

text \<open>
  The steps of the separate-chaining backend that change no entry: switching to the
  keyed hash, growing and shrinking the bucket array with the fast attempt of a keyed
  map, and the creation of a node, whatever the allocator refuses.
\<close>

section \<open>Refiling: what changes no entry\<close>

definition sc_rep :: "chmap_hash_secret \<Rightarrow> sep_chain_map \<Rightarrow> nat list \<Rightarrow> bool" where
  "sc_rep sec m xs \<longleftrightarrow> sc_body m xs \<and> sc_index sec m xs"

definition sc_same_kind :: "sep_chain_map \<Rightarrow> sep_chain_map \<Rightarrow> bool" where
  "sc_same_kind m m' \<longleftrightarrow> hm_blk m' = hm_blk m \<and> sc_custom m' = sc_custom m \<and> sc_custom_eq m' = sc_custom_eq m
     \<and> sc_key_type m' = sc_key_type m \<and> sc_val_type m' = sc_val_type m \<and> sc_m_procs m' = sc_m_procs m
     \<and> sc_inline_buckets m' = sc_inline_buckets m"

definition refiled :: "sep_chain_map \<Rightarrow> sep_chain_map \<Rightarrow> bool" where
  "refiled m m' \<longleftrightarrow> sc_same_kind m m' \<and> sc_refs m' = sc_refs m \<and> sc_all_elems m' = sc_all_elems m
     \<and> sc_elem_count m' = sc_elem_count m \<and> rehashed (sc_nodes m) (sc_nodes m')"

lemma sc_same_kind_refl [simp]: "sc_same_kind m m"
  by (simp add: sc_same_kind_def)

lemma sc_same_kind_trans: "sc_same_kind m m1 \<Longrightarrow> sc_same_kind m1 m2 \<Longrightarrow> sc_same_kind m m2"
  by (simp add: sc_same_kind_def)

lemma refiled_refl [simp]: "refiled m m"
  by (simp add: refiled_def)

lemma refiled_trans: "refiled m m1 \<Longrightarrow> refiled m1 m2 \<Longrightarrow> refiled m m2"
  using sc_same_kind_trans rehashed_trans by (auto simp: refiled_def)

lemma kind_hash: "sc_same_kind m m' \<Longrightarrow> sc_hash_of_node sec m' = sc_hash_of_node sec m"
  by (simp add: sc_same_kind_def sc_hash_of_node_def fun_eq_iff)

lemma kind_home: "sc_same_kind m m' \<Longrightarrow> sc_home sec m' = sc_home sec m"
  using kind_hash [of m m' sec] by (simp add: sc_home_def fun_eq_iff)

lemma sc_body_refiled:
  assumes body: "sc_body m xs" and re: "refiled m m'" and blk: "distinct (sc_blocks m' xs)"
  shows "sc_body m' xs"
proof -
  let ?n = "sc_nodes m" and ?n' = "sc_nodes m'"
  have r: "rehashed ?n ?n'" and k: "sc_same_kind m m'" using re by (auto simp: refiled_def)
  have bufs: "buf_ok (ln_key e) (ln_key_buf e) \<and> buf_ok (ln_val e) (ln_val_buf e)" if "?n' a = Some e" for a e
  proof -
    from rehashed_node [OF r that] obtain e0 where "?n a = Some e0" "ln_key e = ln_key e0" "ln_key_buf e = ln_key_buf e0" "ln_val e = ln_val e0" "ln_val_buf e = ln_val_buf e0"
      by blast
    then show ?thesis using body unfolding sc_body_def by simp
  qed
  have keys: "node_key ?n' a = node_key ?n a" if "a \<in> set xs" for a
    by (rule rehashed_key [OF r]) (use body that in \<open>auto simp: sc_body_def\<close>)
  have "a = b" if "a \<in> set xs" "b \<in> set xs" "sc_same m' (node_key ?n' a) (node_key ?n' b)" for a b
    using body that keys k unfolding sc_body_def sc_same_def sc_same_kind_def by simp
  then show ?thesis
    using body bufs blk re rehashed_dom [OF r] unfolding sc_body_def refiled_def sc_same_kind_def by simp
qed

lemma sc_blocks_refiled: "refiled m m' \<Longrightarrow> sc_arr m' = sc_arr m \<Longrightarrow> sc_blocks m' xs = sc_blocks m xs"
  using rehashed_blks [of "sc_nodes m" "sc_nodes m'"] by (simp add: sc_blocks_def refiled_def sc_same_kind_def)

text \<open>The fields of the insert window are outside the invariant.\<close>

lemma sc_window_fields:
  "sc_body (m\<lparr>insert_window := w\<rparr>) xs = sc_body m xs" "sc_index sec (m\<lparr>insert_window := w\<rparr>) xs = sc_index sec m xs"
  "refiled m (m\<lparr>insert_window := w\<rparr>)" "sc_blocks (m\<lparr>insert_window := w\<rparr>) xs = sc_blocks m xs"
  by (simp_all add: sc_body_def sc_index_def sc_blocks_def sc_same_def sc_keyed_def refiled_def sc_same_kind_def sc_home_def [abs_def] sc_hash_of_node_def)

lemma sc_restart_fields:
  "sc_body (sc_window_restart m) xs = sc_body m xs" "sc_index sec (sc_window_restart m) xs = sc_index sec m xs"
  "refiled m (sc_window_restart m)" "sc_blocks (sc_window_restart m) xs = sc_blocks m xs" "sc_arr (sc_window_restart m) = sc_arr m"
  "sc_bucket_arr_size (sc_window_restart m) = sc_bucket_arr_size m" "sc_keyed (sc_window_restart m) = sc_keyed m"
  "hash_mode (sc_window_restart m) = hash_mode m" "sc_elem_count_to_scale_up (sc_window_restart m) = sc_elem_count_to_scale_up m"
  by (simp_all add: sc_window_restart_def sc_body_def sc_index_def sc_blocks_def sc_same_def sc_keyed_def refiled_def sc_same_kind_def sc_home_def [abs_def] sc_hash_of_node_def)

lemma order_walk: "sc_body m xs \<Longrightarrow> dll_walk_prev (sc_refs m) (tail (sc_all_elems m)) = Some (rev xs)"
  using dll_walks by (simp add: sc_body_def)

section \<open>Switching to the keyed hash\<close>

lemma sc_switch_to_keyed_ends:
  assumes rep: "sc_rep sec m xs"
  shows "\<exists>m'. sc_switch_to_keyed sec m = Some m' \<and> sc_rep sec m' xs \<and> refiled m m' \<and> sc_arr m' = sc_arr m"
proof -
  let ?c = "sc_bucket_arr_size m" and ?m = "m\<lparr>hash_mode := CHMAP_HASH_KEYED\<rparr>"
  have body: "sc_body m xs" and c: "arr_ok ?c" using rep by (auto simp: sc_rep_def sc_index_def)
  have d: "distinct (rev xs)" "{} \<union> set (rev xs) \<subseteq> dom (sc_nodes m)" "{} \<inter> set (rev xs) = {}"
    using body by (auto simp: sc_body_def dll_def)
  obtain nodes bs where r: "sc_rehash_loop sec ?m ?c (rev xs) (sc_nodes m) (replicate ?c []) = Some (nodes, bs)"
      "rehashed (sc_nodes m) nodes" "filed ?c (sc_home sec ?m nodes ?c True) ({} \<union> set (rev xs)) bs"
      "\<forall>a \<in> set (rev xs). hash_kept sec ?m nodes True a" "\<forall>a. a \<notin> set (rev xs) \<longrightarrow> nodes a = sc_nodes m a"
    using sc_rehash_loop_ends [OF c d filed_empty, of sec ?m] by blast
  let ?m' = "?m\<lparr>sc_nodes := nodes, sc_buckets := bs\<rparr>"
  have run: "sc_switch_to_keyed sec m = Some (sc_window_restart ?m')"
    using order_walk [OF body] r(1) by (simp add: sc_switch_to_keyed_def Let_def)
  have re: "refiled m ?m'" using r(2) by (simp add: refiled_def sc_same_kind_def)
  have k: "sc_same_kind ?m ?m'" "sc_keyed ?m'" by (simp_all add: sc_same_kind_def sc_keyed_def)
  have "sc_blocks ?m' xs = sc_blocks m xs" by (rule sc_blocks_refiled [OF re]) simp
  then have b: "sc_body ?m' xs" using sc_body_refiled [OF body re] body by (simp add: sc_body_def)
  have "hash_kept sec ?m nodes True a" for a
  proof (cases "a \<in> set xs")
    case False
    then have "nodes a = None" using r(5) body by (auto simp: sc_body_def)
    then show ?thesis by (simp add: hash_kept_def)
  qed (use r(4) in simp)
  then have "\<forall>a e. nodes a = Some e \<longrightarrow> ln_hash_val e = sc_hash_of_node sec ?m' e True"
    unfolding kind_hash [OF k(1)] by (auto simp: hash_kept_def)
  moreover have "filed ?c (sc_home sec ?m' nodes ?c True) (set xs) bs" using r(3) kind_home [OF k(1), of sec] by simp
  ultimately have "sc_index sec ?m' xs" using rep k(2) by (simp add: sc_rep_def sc_index_def)
  then have "sc_rep sec (sc_window_restart ?m') xs" using b by (simp add: sc_rep_def sc_restart_fields)
  moreover have "refiled m (sc_window_restart ?m')" by (rule refiled_trans [OF re sc_restart_fields(3)])
  ultimately show ?thesis using run by (simp add: sc_restart_fields)
qed

section \<open>Resizing\<close>

text \<open>A map with a new bucket array.\<close>

definition sc_resized :: "sep_chain_map \<Rightarrow> nat list list \<Rightarrow> nat option \<Rightarrow> size_t \<Rightarrow> sep_chain_map" where
  "sc_resized m bs arr c = sc_window_restart (sc_set_scaling_limits (m\<lparr>sc_buckets := bs, sc_arr := arr, sc_bucket_arr_size := c\<rparr>))"

lemma sc_resized_fields:
  "refiled m (sc_resized m bs arr c)" "sc_arr (sc_resized m bs arr c) = arr" "sc_keyed (sc_resized m bs arr c) = sc_keyed m"
  "sc_nodes (sc_resized m bs arr c) = sc_nodes m" "hm_blk (sc_resized m bs arr c) = hm_blk m"
  by (simp_all add: sc_resized_def sc_window_restart_def sc_set_scaling_limits_def refiled_def sc_same_kind_def sc_keyed_def Let_def)

lemma sc_resized_index:
  assumes c: "arr_ok c" and arr: "arr = None \<longleftrightarrow> c = sc_inline_buckets m" "sc_inline_buckets m \<le> 16"
    and f: "filed c (sc_home sec m (sc_nodes m) c (sc_keyed m)) (set xs) bs"
    and h: "\<And>a. hash_kept sec m (sc_nodes m) (sc_keyed m) a"
  shows "sc_index sec (sc_resized m bs arr c) xs"
proof -
  have k: "sc_same_kind m (sc_resized m bs arr c)" using sc_resized_fields(1) [of m bs arr c] by (simp add: refiled_def)
  have le: "c + c div 2 + 1 \<le> SIZE_MAX" using arr_okD [OF c] by (auto simp: SIZE_MAX_def)
  have "sz_add c (c div 2) = c + c div 2" "sz_add (c + c div 2) 1 = c + c div 2 + 1" "sz_add c 1 = c + 1"
    by (rule sz_add_exact; use le in linarith)+
  moreover have "even c" using arr_okD [OF c] by simp
  ultimately have "sc_elem_count_to_scale_up (sc_resized m bs arr c) = c + c div 2 + 1"
      "sc_elem_count_to_scale_down (sc_resized m bs arr c) = (c + 1) div 8"
      "sc_bucket_arr_size (sc_resized m bs arr c) = c" "sc_buckets (sc_resized m bs arr c) = bs"
      "sc_inline_buckets (sc_resized m bs arr c) = sc_inline_buckets m"
    by (simp_all add: sc_resized_def sc_window_restart_def sc_set_scaling_limits_def Let_def)
  then show ?thesis
    using c arr f h by (simp add: sc_index_def sc_resized_fields kind_home [OF k] kind_hash [OF k] hash_kept_def)
qed

lemma sc_new_arr_cases:
  assumes "sc_new_arr m n h = (r, h')"
  shows "r = None \<and> blocks_kept h h' \<or> r = Some None \<and> n = sc_inline_buckets m \<and> h' = h
     \<or> (\<exists>b. r = Some (Some b) \<and> n \<noteq> sc_inline_buckets m \<and> n \<le> SIZE_MAX div 8 \<and> b = next_blk h
          \<and> live h' = insert b (live h) \<and> next_blk h' = Suc b)"
  using assms by (auto simp: sc_new_arr_def sc_alloc_arr_def blocks_kept_def dest!: mem_calloc_None mem_calloc_Some split: if_splits prod.splits option.splits)

text \<open>The blocks of a map whose bucket array is replaced.\<close>

lemma new_arr_blocks:
  assumes d: "distinct (sc_blocks m xs)" and h: "heap_ok h" "set (sc_blocks m xs) \<subseteq> live h"
    and r: "sc_new_arr m n h = (Some arr, h1)" and old: "sc_arr m = None \<longrightarrow> n \<noteq> sc_inline_buckets m"
    and m': "sc_arr m' = arr" "hm_blk m' = hm_blk m" "node_blks (sc_nodes m') = node_blks (sc_nodes m)" "sc_arr m1 = sc_arr m"
  shows "distinct (sc_blocks m' xs) \<and> blocks_moved (set (sc_blocks m xs)) (set (sc_blocks m' xs)) h (sc_free_arr m1 h1)"
proof -
  let ?rest = "concat (map (node_blks (sc_nodes m)) xs)"
  have bl: "sc_blocks m' xs = hm_blk m # opt_list arr @ ?rest" "sc_blocks m xs = hm_blk m # opt_list (sc_arr m) @ ?rest"
    using m' by (simp_all add: sc_blocks_def)
  from sc_new_arr_cases [OF r] consider "arr = None" "n = sc_inline_buckets m" "h1 = h"
    | b where "arr = Some b" "b = next_blk h" "live h1 = insert b (live h)" "next_blk h1 = Suc b" by auto
  then show ?thesis
  proof cases
    case 1
    then obtain b0 where b0: "sc_arr m = Some b0" using old by auto
    then show ?thesis using d h 1 m'(4) unfolding bl by (auto simp: blocks_moved_def sc_free_arr_def)
  next
    case 2
    have fresh: "b \<notin> live h" using heap_ok_fresh [OF h(1)] 2 by simp
    then have "distinct (sc_blocks m' xs)" using d h(2) 2(1) unfolding bl by (cases "sc_arr m") auto
    moreover have "live (sc_free_arr m1 h1) = insert b (live h) - set (opt_list (sc_arr m))" "next_blk (sc_free_arr m1 h1) = Suc (next_blk h)"
      using 2 m'(4) by (auto simp: sc_free_arr_def split: option.splits)
    moreover have "set (opt_list (sc_arr m)) \<inter> set (hm_blk m # ?rest) = {}" using d unfolding bl by (cases "sc_arr m") auto
    ultimately show ?thesis using h(2) fresh 2(1,2) unfolding bl by (cases "sc_arr m") (auto simp: blocks_moved_def)
  qed
qed

text \<open>The relink of a resize, by the fast attempt of a keyed map that grows or by the stored hashes.\<close>

lemma sc_relink_ends:
  assumes rep: "sc_rep sec m xs" and c: "arr_ok c"
  shows "\<exists>m1 bs longest. (if up \<and> sc_keyed m then do {
        (fast, nodes, new_arr) \<leftarrow> sc_relink_fast_attempt sec m c;
        Some (m\<lparr>sc_nodes := nodes, hash_mode := (if fast then CHMAP_HASH_FAST else hash_mode m)\<rparr>, new_arr, 0)
      }
      else do {
        (new_arr, longest) \<leftarrow> sc_relink_loop (sc_nodes m) c msk (sc_buckets m) 0 0 0 (replicate c []);
        Some (m, new_arr, longest)
      }) = Some (m1, bs, longest)
     \<and> refiled m m1 \<and> sc_arr m1 = sc_arr m \<and> filed c (sc_home sec m1 (sc_nodes m1) c (sc_keyed m1)) (set xs) bs
     \<and> (\<forall>a. hash_kept sec m1 (sc_nodes m1) (sc_keyed m1) a)"
proof (cases "up \<and> sc_keyed m")
  case False
  have body: "sc_body m xs" and hk: "hash_kept sec m (sc_nodes m) (sc_keyed m) a" for a
    using rep by (auto simp: sc_rep_def sc_index_def hash_kept_def)
  have f: "filed (sc_bucket_arr_size m) (sc_home sec m (sc_nodes m) (sc_bucket_arr_size m) (sc_keyed m)) (set xs) (sc_buckets m)"
    and c0: "arr_ok (sc_bucket_arr_size m)" using rep by (auto simp: sc_rep_def sc_index_def)
  note con = filed_concat [OF f sc_home_less [OF c0]]
  have sub: "set (concat (sc_buckets m)) \<subseteq> dom (sc_nodes m)" unfolding con(1) using body by (simp add: sc_body_def)
  from sc_relink_loop_ends [OF c con(2) sub _ filed_empty hk, of msk 0 0 0] obtain bs longest where
    "sc_relink_loop (sc_nodes m) c msk (sc_buckets m) 0 0 0 (replicate c []) = Some (bs, longest)"
    "filed c (sc_home sec m (sc_nodes m) c (sc_keyed m)) ({} \<union> set (concat (sc_buckets m))) bs" by auto
  then show ?thesis using con(1) hk unfolding if_not_P [OF False] by auto
next
  case True
  have body: "sc_body m xs" and hk: "hash_kept sec m (sc_nodes m) True a" for a
    using rep True by (auto simp: sc_rep_def sc_index_def hash_kept_def)
  have d: "distinct (rev xs)" "{} \<union> set (rev xs) \<subseteq> dom (sc_nodes m)" "{} \<inter> set (rev xs) = {}"
    using body by (auto simp: sc_body_def dll_def)
  have none: "nodes a = None" if "\<forall>a. a \<notin> set (rev xs) \<longrightarrow> nodes a = sc_nodes m a" "a \<notin> set xs" for nodes :: nodes and a
    using that body by (auto simp: sc_body_def)
  obtain nodes bs stop where r: "sc_attempt_loop sec m c (rev xs) (sc_nodes m) (replicate c []) 0 = Some (nodes, bs, stop)"
      "rehashed (sc_nodes m) nodes"
      "case stop of
         None \<Rightarrow> filed c (sc_home sec m nodes c False) ({} \<union> set (rev xs)) bs \<and> (\<forall>a \<in> set (rev xs). hash_kept sec m nodes False a)
           \<and> (\<forall>a. a \<notin> set (rev xs) \<longrightarrow> nodes a = sc_nodes m a)
       | Some s \<Rightarrow> \<exists>us vs. rev xs = us @ s # vs \<and> (\<forall>a. a \<notin> set us \<longrightarrow> a \<noteq> s \<longrightarrow> nodes a = sc_nodes m a)"
    using sc_attempt_loop_ends [OF c d filed_empty, of sec m 0] by blast
  note walk = order_walk [OF body]
  show ?thesis
  proof (cases stop)
    case None
    let ?m1 = "m\<lparr>sc_nodes := nodes, hash_mode := CHMAP_HASH_FAST\<rparr>"
    have k: "sc_same_kind m ?m1" "\<not> sc_keyed ?m1" by (simp_all add: sc_same_kind_def sc_keyed_def)
    have "hash_kept sec m nodes False a" for a
      using r(3) None none [of nodes a] by (cases "a \<in> set xs") (auto simp: hash_kept_def)
    then have "hash_kept sec ?m1 nodes False a" for a by (simp only: hash_kept_def kind_hash [OF k(1)])
    moreover have "filed c (sc_home sec ?m1 nodes c False) (set xs) bs" using r(3) None kind_home [OF k(1), of sec] by simp
    moreover have "refiled m ?m1" using k(1) r(2) by (simp add: refiled_def)
    ultimately show ?thesis unfolding if_P [OF True] using walk r(1) None k(2)
      by (intro exI [of _ ?m1] exI [of _ bs] exI [of _ 0]) (simp add: sc_relink_fast_attempt_def)
  next
    case (Some s)
    then obtain us vs where st: "rev xs = us @ s # vs" "\<forall>a. a \<notin> set us \<longrightarrow> a \<noteq> s \<longrightarrow> nodes a = sc_nodes m a" using r(3) by auto
    have later: "hash_kept sec m nodes True a \<or> True \<and> (\<exists>us vs. rev xs = us @ a # vs \<and> s \<notin> set us)" if a: "a \<in> set (rev xs)" for a
    proof (cases "a \<in> set us \<or> a = s")
      case False
      then have "nodes a = sc_nodes m a" using st(2) by blast
      then show ?thesis using hk [of a] by (simp add: hash_kept_def)
    next
      case True
      have "s \<notin> set us" using st(1) d(1) by simp
      moreover obtain u1 u2 where "us @ [s] = u1 @ a # u2" using True split_list [of a "us @ [s]"] by auto
      moreover from this have "set u1 \<subseteq> set us" by (cases u2 rule: rev_cases) auto
      ultimately have "rev xs = u1 @ a # (u2 @ vs) \<and> s \<notin> set u1" using st(1) by auto
      then show ?thesis by blast
    qed
    have d2: "{} \<union> set (rev xs) \<subseteq> dom nodes" using d(2) rehashed_dom [OF r(2)] by simp
    obtain nodes2 bs2 where r2: "sc_restore_loop sec m c s True (rev xs) nodes (replicate c []) = Some (nodes2, bs2)"
        "rehashed nodes nodes2" "filed c (sc_home sec m nodes2 c True) ({} \<union> set (rev xs)) bs2"
        "\<forall>a \<in> set (rev xs). hash_kept sec m nodes2 True a" "\<forall>a. a \<notin> set (rev xs) \<longrightarrow> nodes2 a = nodes a"
      using sc_restore_loop_ends [OF c d(1) d2 d(3) filed_empty later] by blast
    let ?m1 = "m\<lparr>sc_nodes := nodes2, hash_mode := hash_mode m\<rparr>"
    have k: "sc_same_kind m ?m1" "sc_keyed ?m1" using True by (simp_all add: sc_same_kind_def sc_keyed_def)
    have "nodes2 a = None" if "a \<notin> set xs" for a
      using r2(5) that body rehashed_None [OF r(2), of a] by (auto simp: sc_body_def)
    then have "hash_kept sec m nodes2 True a" for a using r2(4) by (cases "a \<in> set xs") (auto simp: hash_kept_def)
    then have "hash_kept sec ?m1 nodes2 True a" for a by (simp only: hash_kept_def kind_hash [OF k(1)])
    moreover have "filed c (sc_home sec ?m1 nodes2 c True) (set xs) bs2" using r2(3) kind_home [OF k(1), of sec] by simp
    moreover have "refiled m ?m1" using k(1) rehashed_trans [OF r(2) r2(2)] by (simp add: refiled_def)
    ultimately show ?thesis unfolding if_P [OF True] using walk r(1) r2(1) Some k(2)
      by (intro exI [of _ ?m1] exI [of _ bs2] exI [of _ 0]) (simp add: sc_relink_fast_attempt_def)
  qed
qed

lemma sc_scale_ends:
  assumes rep: "sc_rep sec m xs" and h: "heap_ok h" "set (sc_blocks m xs) \<subseteq> live h"
    and down: "\<not> up \<Longrightarrow> sc_bucket_arr_size m > 16"
  shows "\<exists>m' h'. sc_scale sec m up h = Some (m', h') \<and> sc_rep sec m' xs \<and> refiled m m'
     \<and> blocks_moved (set (sc_blocks m xs)) (set (sc_blocks m' xs)) h h'"
proof -
  let ?c = "sc_bucket_arr_size m"
  have body: "sc_body m xs" and c: "arr_ok ?c" and iff: "sc_arr m = None \<longleftrightarrow> ?c = sc_inline_buckets m" and inl: "sc_inline_buckets m \<le> 16"
    using rep by (auto simp: sc_rep_def sc_index_def)
  have keep: "sc_rep sec m xs \<and> refiled m m \<and> blocks_moved (set (sc_blocks m xs)) (set (sc_blocks m xs)) h h'" if "blocks_kept h h'" for h'
    using rep blocks_kept_moved [OF that h(2)] by simp
  define n where "n = (let n0 = (if up then sz_mul ?c scale_factor else ?c div scale_factor)
     in if \<not> up \<and> n0 < minimum_allowed_bucket_array_size then minimum_allowed_bucket_array_size else n0)"
  show ?thesis
  proof (cases "up \<and> ?c > ccol_max_power_of_two_size_t div scale_factor")
    case True
    then show ?thesis using keep [of h] by (simp add: sc_scale_def)
  next
    case False
    have n: "pow2 n \<and> 4 \<le> n \<and> n \<noteq> ?c"
    proof (cases up)
      case True
      then have "?c \<le> 2 ^ 61" using False by (simp add: ccol_max_power_of_two_size_t_def scale_factor_def)
      then have "n = 2 * (2 * ?c)" using True by (simp add: n_def sz_mul_exact scale_factor_def SIZE_MAX_def)
      then show ?thesis using c pow2_double [of ?c] pow2_double [of "2 * ?c"] by (auto simp: arr_ok_def)
    next
      case False
      then have g: "?c > 16" using down by simp
      obtain k where k: "?c = 2 ^ k" using c by (auto simp: arr_ok_def pow2_def)
      have "k \<ge> 2" using g k power_strict_increasing_iff [of "2 :: nat" 4 k] by simp
      then obtain j where "k = j + 2" using le_Suc_ex [of 2 k] by (auto simp: add.commute)
      then have "?c div 4 = 2 ^ j" using k by simp
      then have "pow2 (?c div 4)" "pow2 (16 :: nat)" using pow2I [of j] pow2I [of 4] by simp_all
      then show ?thesis using False g
        by (auto simp: n_def Let_def scale_factor_def minimum_allowed_bucket_array_size_def)
    qed
    obtain r h1 where new: "sc_new_arr m n h = (r, h1)" by (cases "sc_new_arr m n h")
    show ?thesis
    proof (cases r)
      case None
      then have "blocks_kept h h1" using sc_new_arr_cases [OF new] by auto
      moreover have "sc_scale sec m up h = Some (m, h1)"
        unfolding sc_scale_def if_not_P [OF False] Let_def [of "if up then _ else _"]
        unfolding n_def [unfolded Let_def, symmetric] using new None by (simp only: Let_def prod.case option.case)
      ultimately show ?thesis using keep by blast
    next
      case (Some arr)
      note newS = new [unfolded Some]
      have nc: "arr_ok n" and arr: "arr = None \<longleftrightarrow> n = sc_inline_buckets m"
        using sc_new_arr_cases [OF newS] n inl by (auto simp: arr_ok_def SIZE_MAX_def)
      from sc_relink_ends [OF rep nc, of up "if up then 0 else ?c div n - 1"] obtain m1 bs longest where
        run: "(if up \<and> sc_keyed m then do {
            (fast, nodes, new_arr) \<leftarrow> sc_relink_fast_attempt sec m n;
            Some (m\<lparr>sc_nodes := nodes, hash_mode := (if fast then CHMAP_HASH_FAST else hash_mode m)\<rparr>, new_arr, 0)
          }
          else do {
            (new_arr, longest) \<leftarrow> sc_relink_loop (sc_nodes m) n (if up then 0 else ?c div n - 1) (sc_buckets m) 0 0 0 (replicate n []);
            Some (m, new_arr, longest)
          }) = Some (m1, bs, longest)"
        and re: "refiled m m1" "sc_arr m1 = sc_arr m" and f: "filed n (sc_home sec m1 (sc_nodes m1) n (sc_keyed m1)) (set xs) bs"
        and hk: "\<And>a. hash_kept sec m1 (sc_nodes m1) (sc_keyed m1) a" by blast
      let ?m2 = "sc_resized m1 bs arr n" and ?h2 = "sc_free_arr m1 h1"
      have inl1: "sc_inline_buckets m1 = sc_inline_buckets m" "hm_blk m1 = hm_blk m" "rehashed (sc_nodes m) (sc_nodes m1)"
        using re(1) by (auto simp: refiled_def sc_same_kind_def)
      have re2: "refiled m ?m2" by (rule refiled_trans [OF re(1) sc_resized_fields(1)])
      have "distinct (sc_blocks m xs)" using body by (simp add: sc_body_def)
      from new_arr_blocks [OF this h newS _ sc_resized_fields(2) _ _ re(2), of m1 bs n] have
        bl: "distinct (sc_blocks ?m2 xs)" "blocks_moved (set (sc_blocks m xs)) (set (sc_blocks ?m2 xs)) h ?h2"
        using iff n inl1 rehashed_blks [OF inl1(3)] by (auto simp: sc_resized_fields)
      have "sc_index sec ?m2 xs" by (rule sc_resized_index [OF nc _ _ f hk]) (use arr inl inl1 in auto)
      then have rep2: "sc_rep sec ?m2 xs" using sc_body_refiled [OF body re2 bl(1)] by (simp add: sc_rep_def)
      have scale: "sc_scale sec m up h = (if \<not> up \<and> longest \<ge> SC_CHAIN_CAP \<and> \<not> sc_keyed ?m2
          then do { m \<leftarrow> sc_switch_to_keyed sec ?m2; Some (m, ?h2) } else Some (?m2, ?h2))"
        unfolding sc_scale_def if_not_P [OF False] Let_def [of "if up then _ else _"]
        unfolding n_def [unfolded Let_def, symmetric]
        by (simp only: newS run prod.case option.case Let_def bind.simps sc_resized_def)
      show ?thesis
      proof (cases "\<not> up \<and> longest \<ge> SC_CHAIN_CAP \<and> \<not> sc_keyed ?m2")
        case True
        from sc_switch_to_keyed_ends [OF rep2] obtain m3 where m3: "sc_switch_to_keyed sec ?m2 = Some m3" "sc_rep sec m3 xs"
            "refiled ?m2 m3" "sc_arr m3 = sc_arr ?m2" by blast
        then show ?thesis using scale True bl(2) sc_blocks_refiled [OF m3(3,4), of xs] refiled_trans [OF re2 m3(3)] by simp
      next
        case False
        from scale [unfolded if_not_P [OF False]] show ?thesis using rep2 re2 bl(2) by blast
      qed
    qed
  qed
qed

section \<open>New nodes\<close>

text \<open>The heap after allocations that handed out the blocks \<open>new\<close>.\<close>

definition grown :: "nat set \<Rightarrow> heap \<Rightarrow> heap \<Rightarrow> bool" where
  "grown new h h' \<longleftrightarrow> live h' = live h \<union> new \<and> next_blk h \<le> next_blk h' \<and> (\<forall>b \<in> new. next_blk h \<le> b \<and> b < next_blk h')"

lemma grown_trans: "grown N h h1 \<Longrightarrow> grown M h1 h2 \<Longrightarrow> grown (N \<union> M) h h2 \<and> N \<inter> M = {}"
  by (fastforce simp: grown_def)

lemma grown_fresh: "grown N h h' \<Longrightarrow> heap_ok h \<Longrightarrow> N \<inter> live h = {}"
  by (fastforce simp: grown_def heap_ok_def)

lemma grown_moved: "grown N h h' \<Longrightarrow> heap_ok h \<Longrightarrow> own \<subseteq> live h \<Longrightarrow> blocks_moved own (own \<union> N) h h'"
  using grown_fresh [of N h h'] by (auto simp: grown_def blocks_moved_def)

lemma sc_store_cases:
  assumes "sc_store h bs = (r, h')"
  shows "r = None \<and> blocks_kept h h' \<or> (\<exists>buf. r = Some buf \<and> buf_ok bs buf \<and> grown (set (opt_list buf)) h h')"
  using assms by (auto simp: sc_store_def buf_ok_def grown_def blocks_kept_def dest!: mem_alloc_None mem_alloc_Some split: if_splits prod.splits option.splits)

lemma sc_free_storage_live:
  "buf_ok (ln_key e) (ln_key_buf e) \<Longrightarrow> buf_ok (ln_val e) (ln_val_buf e) \<Longrightarrow>
     live (sc_free_storage e h) = live h - set (opt_list (ln_key_buf e) @ opt_list (ln_val_buf e)) \<and> next_blk (sc_free_storage e h) = next_blk h"
  by (auto simp: sc_free_storage_def buf_ok_def split: option.splits)

definition new_node :: "u64 \<Rightarrow> byte list \<Rightarrow> nat option \<Rightarrow> byte list \<Rightarrow> nat option \<Rightarrow> llist_node" where
  "new_node hv key kb val vb = \<lparr>ln_hash_val = hv, ln_key = key, ln_key_buf = kb, ln_val = val, ln_val_buf = vb\<rparr>"

lemma sc_create_llist_node_ends:
  assumes body: "sc_body m xs" and h: "heap_ok h" "set (sc_blocks m xs) \<subseteq> live h"
  shows "(\<exists>h'. sc_create_llist_node m hv key val h = Some (None, m, h') \<and> blocks_kept h h')
     \<or> (\<exists>a kb vb root refs h'. sc_create_llist_node m hv key val h =
           Some (Some a, m\<lparr>sc_all_elems := root, sc_refs := refs, sc_nodes := (sc_nodes m)(a \<mapsto> new_node hv key kb val vb)\<rparr>, h')
         \<and> dll refs root (a # xs) \<and> buf_ok key kb \<and> buf_ok val vb \<and> distinct (a # opt_list kb @ opt_list vb)
         \<and> grown (set (a # opt_list kb @ opt_list vb)) h h')"
proof (cases "mem_calloc h sizeof_llist_node")
  case (Pair r h1)
  show ?thesis
  proof (cases r)
    case None
    then have "blocks_kept h h1" using Pair mem_calloc_None by (auto simp: blocks_kept_def)
    then show ?thesis using Pair None by (simp add: sc_create_llist_node_def)
  next
    case (Some x)
    then obtain a z where x: "mem_calloc h sizeof_llist_node = (Some (a, z), h1)" using Pair by (cases x) auto
    have a: "a = next_blk h" "live h1 = insert a (live h)" "next_blk h1 = Suc a" using mem_calloc_Some [OF x] by auto
    have g1: "grown {a} h h1" using a by (simp add: grown_def)
    have fresh: "a \<notin> live h" using heap_ok_fresh [OF h(1)] a by simp
    let ?e0 = "\<lparr>ln_hash_val = hv, ln_key = [], ln_key_buf = None, ln_val = [], ln_val_buf = None\<rparr>"
    obtain rk h2 where k: "sc_store h1 key = (rk, h2)" by (cases "sc_store h1 key")
    from sc_store_cases [OF k] show ?thesis
    proof (elim disjE exE conjE)
      assume "rk = None" "blocks_kept h1 h2"
      moreover have "sc_free_storage ?e0 h2 = h2" by (simp add: sc_free_storage_def)
      ultimately show ?thesis using x k a fresh by (auto simp: sc_create_llist_node_def blocks_kept_def)
    next
      fix kb assume kb: "rk = Some kb" "buf_ok key kb" "grown (set (opt_list kb)) h1 h2"
      note g2 = grown_trans [OF g1 kb(3)]
      obtain rv h3 where v: "sc_store h2 val = (rv, h3)" by (cases "sc_store h2 val")
      from sc_store_cases [OF v] show ?thesis
      proof (elim disjE exE conjE)
        assume n: "rv = None" "blocks_kept h2 h3"
        let ?e = "?e0\<lparr>ln_key := key, ln_key_buf := kb\<rparr>"
        have "live (sc_free_storage ?e h3) = live h3 - set (opt_list kb) \<and> next_blk (sc_free_storage ?e h3) = next_blk h3"
          using sc_free_storage_live [of ?e h3] kb(2) by (simp add: buf_ok_def)
        moreover have "({a} \<union> set (opt_list kb)) \<inter> live h = {}" using grown_fresh g2 h(1) by blast
        ultimately have "blocks_kept h (mem_free (sc_free_storage ?e h3) a)" using n g2 by (auto simp: blocks_kept_def grown_def)
        then show ?thesis using x k kb n v by (auto simp: sc_create_llist_node_def)
      next
        fix vb assume vb: "rv = Some vb" "buf_ok val vb" "grown (set (opt_list vb)) h2 h3"
        have g3: "grown ({a} \<union> set (opt_list kb) \<union> set (opt_list vb)) h h3" "({a} \<union> set (opt_list kb)) \<inter> set (opt_list vb) = {}"
          using grown_trans [OF conjunct1 [OF g2] vb(3)] by auto
        have dist: "distinct (a # opt_list kb @ opt_list vb)" using g2 g3(2) by (cases kb; cases vb) auto
        have "set xs \<subseteq> set (sc_blocks m xs)"
        proof
          fix y assume "y \<in> set xs"
          moreover then obtain e where "sc_nodes m y = Some e" using body unfolding sc_body_def by blast
          ultimately show "y \<in> set (sc_blocks m xs)" by (force simp: sc_blocks_def node_blks_def)
        qed
        then have "a \<notin> set xs" using fresh h(2) by auto
        then obtain root refs where at: "attach_node_to_dllist (sc_all_elems m) (sc_refs m) a = Some (root, refs)" "dll refs root (a # xs)"
          using attach_dll [of "sc_refs m" "sc_all_elems m" xs a] body unfolding sc_body_def by blast
        have "sc_create_llist_node m hv key val h =
           Some (Some a, m\<lparr>sc_all_elems := root, sc_refs := refs, sc_nodes := (sc_nodes m)(a \<mapsto> new_node hv key kb val vb)\<rparr>, h3)"
          using x k kb(1) v vb(1) at(1) by (simp add: sc_create_llist_node_def new_node_def Let_def)
        then show ?thesis using at(2) kb(2) vb(2) dist g3(1) by (intro disjI2) (auto simp: Un_assoc)
      qed
    qed
  qed
qed

end
