(* ===== verification/CCol_Hashmap_Sc_Spec.thy ===== *)
theory CCol_Hashmap_Sc_Spec
  imports CCol_Hashmap_Sc_Refile
begin

text \<open>
  The operations of the separate-chaining backend keep its invariant and act on the
  entries, newest first, as on an association list: inserting with every cold path,
  updating from a value that may be the one being replaced, looking up, deleting,
  resetting and destroying, whatever the allocator refuses.
\<close>

section \<open>Association lists up to an equality of keys\<close>

fun al_get :: "('k \<Rightarrow> 'k \<Rightarrow> bool) \<Rightarrow> 'k \<Rightarrow> ('k \<times> 'v) list \<Rightarrow> 'v option" where
  "al_get same k [] = None"
| "al_get same k ((j, v) # es) = (if same j k then Some v else al_get same k es)"

definition al_put :: "('k \<Rightarrow> 'k \<Rightarrow> bool) \<Rightarrow> 'k \<Rightarrow> 'v \<Rightarrow> ('k \<times> 'v) list \<Rightarrow> ('k \<times> 'v) list" where
  "al_put same k v es =
     (if al_get same k es = None then (k, v) # es else map (\<lambda>(j, w). (j, if same j k then v else w)) es)"

definition al_del :: "('k \<Rightarrow> 'k \<Rightarrow> bool) \<Rightarrow> 'k \<Rightarrow> ('k \<times> 'v) list \<Rightarrow> ('k \<times> 'v) list" where
  "al_del same k es = filter (\<lambda>(j, _). \<not> same j k) es"

lemma al_get_None: "al_get same k es = None \<longleftrightarrow> (\<forall>(j, v) \<in> set es. \<not> same j k)"
proof (induction es)
  case (Cons e es)
  then show ?case by (cases e) auto
qed simp

section \<open>Entries\<close>

definition sc_entry :: "nodes \<Rightarrow> nat \<Rightarrow> byte list \<times> byte list" where
  "sc_entry nodes a = (ln_key (the (nodes a)), ln_val (the (nodes a)))"

definition sc_order :: "sep_chain_map \<Rightarrow> nat list" where
  "sc_order m = the (dll_walk_next (sc_refs m) (head (sc_all_elems m)))"

definition sc_inv :: "chmap_hash_secret \<Rightarrow> sep_chain_map \<Rightarrow> bool" where
  "sc_inv sec m \<longleftrightarrow> sc_rep sec m (sc_order m)"

text \<open>The entries of a map, newest first.\<close>

definition sc_entries :: "sep_chain_map \<Rightarrow> (byte list \<times> byte list) list" where
  "sc_entries m = map (sc_entry (sc_nodes m)) (sc_order m)"

definition sc_owned :: "sep_chain_map \<Rightarrow> nat set" where
  "sc_owned m = set (sc_blocks m (sc_order m))"

lemma sc_rep_order: "sc_rep sec m xs \<Longrightarrow> sc_order m = xs"
  using dll_walks(1) by (auto simp: sc_order_def sc_rep_def sc_body_def)

lemma sc_rep_inv: "sc_rep sec m xs \<Longrightarrow> sc_inv sec m"
  using sc_rep_order by (simp add: sc_inv_def)

lemma refiled_entries:
  assumes "refiled m m'" "sc_body m xs" "sc_body m' xs"
  shows "map (sc_entry (sc_nodes m')) xs = map (sc_entry (sc_nodes m)) xs"
proof (rule map_cong [OF refl])
  fix a assume "a \<in> set xs"
  then obtain e' where e': "sc_nodes m' a = Some e'" using assms(3) unfolding sc_body_def by blast
  then show "sc_entry (sc_nodes m') a = sc_entry (sc_nodes m) a"
    using rehashed_node [of "sc_nodes m" "sc_nodes m'" a e'] assms(1) by (auto simp: refiled_def sc_entry_def)
qed

section \<open>Searching a chain\<close>

definition node_matches :: "sep_chain_map \<Rightarrow> u64 \<Rightarrow> byte list \<Rightarrow> nat \<Rightarrow> bool" where
  "node_matches m hv key a \<longleftrightarrow> ln_hash_val (the (sc_nodes m a)) = hv \<and> sc_same m (node_key (sc_nodes m) a) key"

lemma sc_find_custom_eq:
  "set chain \<subseteq> dom nodes \<Longrightarrow> sc_find_in_llist_custom_eq nodes chain hv key eq =
     Some (find (\<lambda>a. ln_hash_val (the (nodes a)) = hv \<and> eq (node_key nodes a) key) chain)"
  by (induction chain) (auto simp: node_key_def)

lemma sc_find_loop_eq:
  "set chain \<subseteq> dom nodes \<Longrightarrow> sc_find_loop nodes chain hv key kt met =
     Some (case find (\<lambda>a. ln_hash_val (the (nodes a)) = hv \<and> same_key None kt (node_key nodes a) key) chain of
             Some a \<Rightarrow> (Some a, 0) | None \<Rightarrow> (None, met + length chain))"
  by (induction chain arbitrary: met) (auto simp: node_key_def sc_compare_keys_same split: option.splits)

lemma sc_find_eq:
  assumes "set chain \<subseteq> dom (sc_nodes m)"
  shows "sc_find_in_llist (sc_nodes m) chain hv key (sc_key_type m) (sc_custom_eq m) =
     Some (case find (node_matches m hv key) chain of Some a \<Rightarrow> (Some a, 0) | None \<Rightarrow> (None, length chain))"
proof (cases "sc_custom_eq m")
  case None
  then show ?thesis using sc_find_loop_eq [OF assms, of hv key "sc_key_type m" 0]
    by (simp add: sc_find_in_llist_def node_matches_def [abs_def] sc_same_def split: option.splits)
next
  case (Some eq)
  then have "node_matches m hv key = (\<lambda>a. ln_hash_val (the (sc_nodes m a)) = hv \<and> eq (node_key (sc_nodes m) a) key)"
    by (simp add: node_matches_def fun_eq_iff sc_same_def same_key_def)
  then show ?thesis using Some sc_find_custom_eq [OF assms, of hv key eq]
    by (simp add: sc_find_in_llist_def split: option.splits)
qed

lemma sc_unlink_eq:
  assumes "\<And>a e. nodes a = Some e \<Longrightarrow> matches e = P a"
  shows "set chain \<subseteq> dom nodes \<Longrightarrow> sc_unlink_loop nodes matches chain =
     Some (case find P chain of None \<Rightarrow> (None, chain) | Some a \<Rightarrow> (Some a, remove1 a chain))"
proof (induction chain)
  case (Cons a chain)
  then obtain e where e: "nodes a = Some e" by auto
  have P: "P x" if "find P chain = Some x" for x using that by (auto simp: find_Some_iff)
  show ?case
  proof (cases "find P chain")
    case None
    then show ?thesis using Cons e assms [OF e] by auto
  next
    case (Some x)
    then show ?thesis using Cons e assms [OF e] P [of x] by (cases "P a") auto
  qed
qed simp

text \<open>The node of a key: in the chain that the hash picks, if it is in the map at all.\<close>

lemma node_matches_iff:
  assumes rep: "sc_rep sec m xs" and a: "a \<in> set xs"
  shows "node_matches m (sc_hash sec m key) key a \<longleftrightarrow> sc_same m (node_key (sc_nodes m) a) key"
    "sc_same m (node_key (sc_nodes m) a) key \<Longrightarrow> a \<in> set (sc_buckets m ! hash_index_for (sc_hash sec m key) (sc_bucket_arr_size m))"
proof -
  let ?c = "sc_bucket_arr_size m"
  have body: "sc_body m xs" and ix: "sc_index sec m xs" using rep by (auto simp: sc_rep_def)
  obtain e where e: "sc_nodes m a = Some e" using body a unfolding sc_body_def by blast
  have hv: "ln_hash_val e = sc_hash_of_node sec m e (sc_keyed m)" using ix e by (simp add: sc_index_def)
  have same: "sc_hash_of_node sec m e (sc_keyed m) = sc_hash sec m key" if "sc_same m (ln_key e) key"
    using same_key_hash [of "sc_key_type m" "sc_custom m" "sc_custom_eq m" "ln_key e" key] that body
    unfolding sc_hash_of_node_def sc_hash_def sc_same_def sc_body_def by blast
  then show "node_matches m (sc_hash sec m key) key a \<longleftrightarrow> sc_same m (node_key (sc_nodes m) a) key"
    using e hv by (auto simp: node_matches_def node_key_def)
  assume "sc_same m (node_key (sc_nodes m) a) key"
  then have "sc_home sec m (sc_nodes m) ?c (sc_keyed m) a = hash_index_for (sc_hash sec m key) ?c"
    using same e by (simp add: node_key_def sc_home_def)
  moreover have "filed ?c (sc_home sec m (sc_nodes m) ?c (sc_keyed m)) (set xs) (sc_buckets m)" "arr_ok ?c" using ix by (auto simp: sc_index_def)
  ultimately show "a \<in> set (sc_buckets m ! hash_index_for (sc_hash sec m key) ?c)"
    using a sc_home_less [of ?c sec m "sc_nodes m" "sc_keyed m" a] by (auto simp: filed_def)
qed

lemma sc_chain_nodes:
  fixes key :: "byte list"
  assumes "sc_rep sec m xs"
  defines "chain \<equiv> sc_buckets m ! hash_index_for (sc_hash sec m key) (sc_bucket_arr_size m)"
  shows "set chain \<subseteq> set xs" "set chain \<subseteq> dom (sc_nodes m)" "distinct chain"
    "hash_index_for (sc_hash sec m key) (sc_bucket_arr_size m) < sc_bucket_arr_size m"
proof -
  have c: "arr_ok (sc_bucket_arr_size m)" using assms(1) by (auto simp: sc_rep_def sc_index_def)
  then show i: "hash_index_for (sc_hash sec m key) (sc_bucket_arr_size m) < sc_bucket_arr_size m"
    using arr_okD hash_index_for_less by blast
  then show sub: "set chain \<subseteq> set xs" and "distinct chain"
    using assms(1) unfolding chain_def sc_rep_def sc_index_def filed_def by auto
  then show "set chain \<subseteq> dom (sc_nodes m)" using assms(1) by (auto simp: sc_rep_def sc_body_def)
qed

lemma sc_find_ends:
  fixes key :: "byte list"
  assumes rep: "sc_rep sec m xs"
  defines "chain \<equiv> sc_buckets m ! hash_index_for (sc_hash sec m key) (sc_bucket_arr_size m)"
    and "found \<equiv> sc_find_in_llist (sc_nodes m) (sc_buckets m ! hash_index_for (sc_hash sec m key) (sc_bucket_arr_size m)) (sc_hash sec m key) key (sc_key_type m) (sc_custom_eq m)"
  shows "found = Some (None, length chain) \<and> find (node_matches m (sc_hash sec m key) key) chain = None
       \<and> (\<forall>a \<in> set xs. \<not> sc_same m (node_key (sc_nodes m) a) key)
     \<or> (\<exists>a. found = Some (Some a, 0) \<and> find (node_matches m (sc_hash sec m key) key) chain = Some a
          \<and> a \<in> set xs \<and> a \<in> set chain \<and> sc_same m (node_key (sc_nodes m) a) key)"
proof -
  note ch = sc_chain_nodes [OF rep, of key, folded chain_def]
  have eq: "found = Some (case find (node_matches m (sc_hash sec m key) key) chain of Some a \<Rightarrow> (Some a, 0) | None \<Rightarrow> (None, length chain))"
    unfolding found_def chain_def [symmetric] by (rule sc_find_eq [OF ch(2)])
  show ?thesis
  proof (cases "find (node_matches m (sc_hash sec m key) key) chain")
    case None
    have "\<not> sc_same m (node_key (sc_nodes m) a) key" if a: "a \<in> set xs" for a
    proof
      assume s: "sc_same m (node_key (sc_nodes m) a) key"
      then have "a \<in> set chain" "node_matches m (sc_hash sec m key) key a"
        using node_matches_iff [OF rep a, of key] unfolding chain_def by auto
      then show False using None by (auto simp: find_None_iff)
    qed
    then show ?thesis using eq None by simp
  next
    case (Some a)
    then obtain i where "i < length chain" "chain ! i = a" "node_matches m (sc_hash sec m key) key a" by (auto simp: find_Some_iff)
    then have "a \<in> set chain" "a \<in> set xs" "sc_same m (node_key (sc_nodes m) a) key"
      using ch(1) nth_mem node_matches_iff(1) [OF rep, of a key] by (auto dest: nth_mem)
    then show ?thesis using eq Some by simp
  qed
qed

section \<open>Updating a value\<close>

definition sc_arg_ok :: "nodes \<Rightarrow> chm_ptr \<Rightarrow> size_t \<Rightarrow> bool" where
  "sc_arg_ok nodes p n =
     (case p of NullPtr \<Rightarrow> False | Outside bs \<Rightarrow> n \<le> length bs
      | InMap a \<Rightarrow> (case nodes a of None \<Rightarrow> False | Some e \<Rightarrow> n \<le> length (ln_val e)))"

lemma sc_read_length: "sc_arg_ok nodes p n \<Longrightarrow> length (sc_read nodes p n) = n"
  by (auto simp: sc_arg_ok_def sc_read_def split: chm_ptr.splits option.splits)

text \<open>What replacing the storage of a value does to the heap.\<close>

definition restored :: "nat option \<Rightarrow> nat option \<Rightarrow> heap \<Rightarrow> heap \<Rightarrow> bool" where
  "restored old new h h' \<longleftrightarrow> new = old \<and> blocks_kept h h'
     \<or> new = None \<and> live h' = live h - set (opt_list old) \<and> next_blk h \<le> next_blk h'
     \<or> old = None \<and> grown (set (opt_list new)) h h'"

text \<open>The choice of the new storage, after the snapshot.\<close>

lemma sc_copy_after_eq:
  "src \<noteq> InMap a \<or> n = 0 \<Longrightarrow> sc_copy_after nodes a src n = Some (sc_read nodes src n)"
  by (auto simp: sc_copy_after_def)

lemma sc_reset_val_ends:
  assumes e: "nodes a = Some e" and v: "sc_arg_ok nodes p n" and bk: "buf_ok (ln_val e) (ln_val_buf e)"
    and h: "heap_ok h" "set (opt_list (ln_val_buf e)) \<subseteq> live h"
  defines "bytes \<equiv> sc_read nodes p n"
  shows "(\<exists>h'. sc_reset_val_of_llist_node nodes a p n h = Some (False, nodes, h') \<and> blocks_kept h h')
     \<or> (\<exists>buf h'. sc_reset_val_of_llist_node nodes a p n h = Some (True, nodes(a \<mapsto> e\<lparr>ln_val := bytes, ln_val_buf := buf\<rparr>), h')
          \<and> buf_ok bytes buf \<and> restored (ln_val_buf e) buf h h')"
proof -
  have len: "length bytes = n" unfolding bytes_def by (rule sc_read_length [OF v])
  let ?old = "length (ln_val e)"
  let ?store = "\<lambda>src h. (if n = ?old then do { bs \<leftarrow> sc_copy_after nodes a src n; Some (True, nodes(a \<mapsto> e\<lparr>ln_val := bs\<rparr>), h) }
     else if n \<le> INLINE_STORAGE_THRESHOLD then do {
       let h = (if ?old \<le> INLINE_STORAGE_THRESHOLD then h else case ln_val_buf e of Some b \<Rightarrow> mem_free h b | None \<Rightarrow> h);
       bs \<leftarrow> sc_copy_after nodes a src n;
       Some (True, nodes(a \<mapsto> e\<lparr>ln_val := bs, ln_val_buf := None\<rparr>), h) }
     else do {
       let (r, h) = (if ?old \<le> INLINE_STORAGE_THRESHOLD
          then case mem_alloc h n of (None, h) \<Rightarrow> (None, h) | (Some (b, _), h) \<Rightarrow> (Some (Some b), h)
          else case mem_realloc h (ln_val e) n of (None, h) \<Rightarrow> (None, h) | (Some _, h) \<Rightarrow> (Some (ln_val_buf e), h));
       (case r of None \<Rightarrow> Some (False, nodes, h)
        | Some buf \<Rightarrow> do { bs \<leftarrow> sc_copy_after nodes a src n; Some (True, nodes(a \<mapsto> e\<lparr>ln_val := bs, ln_val_buf := buf\<rparr>), h) }) })"
  have store: "(\<exists>h'. ?store src h0 = Some (False, nodes, h') \<and> blocks_kept h0 h')
     \<or> (\<exists>buf h'. ?store src h0 = Some (True, nodes(a \<mapsto> e\<lparr>ln_val := bytes, ln_val_buf := buf\<rparr>), h')
          \<and> buf_ok bytes buf \<and> restored (ln_val_buf e) buf h0 h')" if src: "sc_copy_after nodes a src n = Some bytes" for src h0
  proof (cases "n = ?old \<or> n \<le> INLINE_STORAGE_THRESHOLD")
    case True
    have same: "e\<lparr>ln_val := bytes, ln_val_buf := ln_val_buf e\<rparr> = e\<lparr>ln_val := bytes\<rparr>" by (cases e) simp
    show ?thesis
    proof (cases "n = ?old")
      case True
      then show ?thesis using bk len src
        by (intro disjI2 exI [of _ "ln_val_buf e"] exI [of _ h0]) (simp add: same buf_ok_def restored_def)
    next
      case False
      then show ?thesis using \<open>n = ?old \<or> n \<le> INLINE_STORAGE_THRESHOLD\<close> bk len src
        by (cases "ln_val_buf e") (auto simp: buf_ok_def restored_def)
    qed
  next
    case False
    then have g: "n \<noteq> ?old" "\<not> n \<le> INLINE_STORAGE_THRESHOLD" by auto
    show ?thesis
    proof (cases "?old \<le> INLINE_STORAGE_THRESHOLD")
      case True
      obtain r h1 where al: "mem_alloc h0 n = (r, h1)" by (cases "mem_alloc h0 n")
      have none: "ln_val_buf e = None" using True bk by (simp add: buf_ok_def)
      show ?thesis
      proof (cases r)
        case None
        then show ?thesis using al g True mem_alloc_None [of h0 n h1] by (simp add: blocks_kept_def)
      next
        case (Some x)
        then obtain b bs where x: "mem_alloc h0 n = (Some (b, bs), h1)" using al by (cases x) auto
        have "grown {b} h0 h1" using mem_alloc_Some [OF x] by (auto simp: grown_def)
        then show ?thesis using x g True src none len
          by (intro disjI2 exI [of _ "Some b"] exI [of _ h1]) (simp add: buf_ok_def restored_def)
      qed
    next
      case False
      obtain r h1 where al: "mem_realloc h0 (ln_val e) n = (r, h1)" by (cases "mem_realloc h0 (ln_val e) n")
      have kept: "blocks_kept h0 h1" by (rule mem_realloc_kept [OF al])
      have some: "ln_val_buf e \<noteq> None" using False bk by (simp add: buf_ok_def)
      show ?thesis
      proof (cases r)
        case None
        then show ?thesis using al g False kept by simp
      next
        case (Some x)
        then show ?thesis using al g False kept src some len
          by (intro disjI2 exI [of _ "ln_val_buf e"] exI [of _ h1]) (simp add: buf_ok_def restored_def)
      qed
    qed
  qed
  show ?thesis
  proof (cases "sc_val_overlaps a e p n")
    case False
    then have "p \<noteq> InMap a \<or> n = 0" using v e by (auto simp: sc_val_overlaps_def ranges_overlap_def sc_arg_ok_def split: if_splits)
    then have src: "sc_copy_after nodes a p n = Some bytes" unfolding bytes_def by (rule sc_copy_after_eq)
    have "sc_reset_val_of_llist_node nodes a p n h = do { (ok, nodes, h) \<leftarrow> ?store p h; Some (ok, nodes, h) }"
      using e False unfolding sc_reset_val_of_llist_node_def by (simp add: Let_def)
    then show ?thesis using store [OF src, of h] by auto
  next
    case True
    have src: "sc_copy_after nodes a (Outside bytes) n = Some bytes" using len by (simp add: sc_copy_after_def sc_read_def)
    show ?thesis
    proof (cases "n \<le> INLINE_STORAGE_THRESHOLD + 1")
      case small: True
      have "sc_reset_val_of_llist_node nodes a p n h = do { (ok, nodes, h) \<leftarrow> ?store (Outside bytes) h; Some (ok, nodes, h) }"
        using e True small unfolding sc_reset_val_of_llist_node_def bytes_def by (simp add: Let_def)
      then show ?thesis using store [OF src, of h] by auto
    next
      case big: False
      obtain r h1 where al: "mem_alloc h n = (r, h1)" by (cases "mem_alloc h n")
      show ?thesis
      proof (cases r)
        case None
        then have "sc_reset_val_of_llist_node nodes a p n h = Some (False, nodes, h1)"
          using e True big al unfolding sc_reset_val_of_llist_node_def by (simp add: Let_def)
        then show ?thesis using None al mem_alloc_None [of h n h1] by (simp add: blocks_kept_def)
      next
        case (Some x)
        then obtain b bs where x: "mem_alloc h n = (Some (b, bs), h1)" using al by (cases x) auto
        have run: "sc_reset_val_of_llist_node nodes a p n h = do { (ok, nodes, h) \<leftarrow> ?store (Outside bytes) h1; Some (ok, nodes, mem_free h b) }"
          using e True big x unfolding sc_reset_val_of_llist_node_def bytes_def by (simp add: Let_def)
        have g: "b = next_blk h" "live h1 = insert b (live h)" "next_blk h1 = Suc b" "b \<notin> live h"
          using mem_alloc_Some [OF x] heap_ok_fresh [OF h(1)] by auto
        have ret: "blocks_kept h (mem_free h' b)" if "blocks_kept h1 h'" for h' using that g by (auto simp: blocks_kept_def)
        have ret2: "restored (ln_val_buf e) buf h (mem_free h' b)" if "restored (ln_val_buf e) buf h1 h'" for buf h'
          using that unfolding restored_def
        proof (elim disjE conjE)
          assume "buf = None" "live h' = live h1 - set (opt_list (ln_val_buf e))" "next_blk h1 \<le> next_blk h'"
          then have "live (mem_free h' b) = live h - set (opt_list (ln_val_buf e))" "next_blk h \<le> next_blk (mem_free h' b)"
            using g h(2) by auto
          then show "buf = ln_val_buf e \<and> blocks_kept h (mem_free h' b)
              \<or> buf = None \<and> live (mem_free h' b) = live h - set (opt_list (ln_val_buf e)) \<and> next_blk h \<le> next_blk (mem_free h' b)
              \<or> ln_val_buf e = None \<and> grown (set (opt_list buf)) h (mem_free h' b)" using \<open>buf = None\<close> by blast
        next
          assume n: "ln_val_buf e = None" "grown (set (opt_list buf)) h1 h'"
          have "b \<notin> set (opt_list buf)" using n(2) g(3) by (auto simp: grown_def)
          then have "grown (set (opt_list buf)) h (mem_free h' b)" using n(2) g by (auto simp: grown_def)
          then show "buf = ln_val_buf e \<and> blocks_kept h (mem_free h' b)
              \<or> buf = None \<and> live (mem_free h' b) = live h - set (opt_list (ln_val_buf e)) \<and> next_blk h \<le> next_blk (mem_free h' b)
              \<or> ln_val_buf e = None \<and> grown (set (opt_list buf)) h (mem_free h' b)" using n(1) by blast
        qed (use ret in blast)
        from store [OF src, of h1] show ?thesis
        proof (elim disjE exE conjE)
          fix h' assume "?store (Outside bytes) h1 = Some (False, nodes, h')" "blocks_kept h1 h'"
          then show ?thesis unfolding run using ret [of h'] by auto
        next
          fix buf h' assume s: "?store (Outside bytes) h1 = Some (True, nodes(a \<mapsto> e\<lparr>ln_val := bytes, ln_val_buf := buf\<rparr>), h')"
            and r: "buf_ok bytes buf" "restored (ln_val_buf e) buf h1 h'"
          show ?thesis unfolding run s using r(1) ret2 [OF r(2)] by auto
        qed
      qed
    qed
  qed
qed

end
