(* ===== verification/CCol_Hashmap_Sc_Ops.thy ===== *)
theory CCol_Hashmap_Sc_Ops
  imports CCol_Hashmap_Sc_Spec
begin

text \<open>
  The operations of the separate-chaining backend: each returns, keeps the invariant
  and has the effect of the association-list operation of the same name on the entries.
\<close>

section \<open>Writing a value and linking a node\<close>

lemma restored_blocks:
  assumes d: "distinct (P @ opt_list old @ Q)" and h: "heap_ok h" "set (P @ opt_list old @ Q) \<subseteq> live h" and r: "restored old new h h'"
  shows "distinct (P @ opt_list new @ Q) \<and> blocks_moved (set (P @ opt_list old @ Q)) (set (P @ opt_list new @ Q)) h h'"
  using r unfolding restored_def
proof (elim disjE conjE)
  assume "new = old" "blocks_kept h h'"
  then show ?thesis using d blocks_kept_moved [OF _ h(2)] by simp
next
  assume n: "new = None" "live h' = live h - set (opt_list old)" "next_blk h \<le> next_blk h'"
  have "set (opt_list old) \<inter> set (P @ Q) = {}" using d by auto
  then show ?thesis using n d h(2) by (auto simp: blocks_moved_def)
next
  assume n: "old = None" "grown (set (opt_list new)) h h'"
  have "set (opt_list new) \<inter> set (P @ Q) = {}" using grown_fresh [OF n(2) h(1)] h(2) n(1) by auto
  then have "distinct (P @ opt_list new @ Q)" using d n(1) by (cases new) auto
  moreover have "set (P @ opt_list new @ Q) = set (P @ opt_list old @ Q) \<union> set (opt_list new)" using n(1) by auto
  ultimately show ?thesis using grown_moved [OF n(2) h] by simp
qed

lemma sc_index_cong:
  assumes "sc_index sec m xs" "sc_same_kind m m'" "hash_mode m' = hash_mode m" "sc_arr m' = sc_arr m"
    "sc_bucket_arr_size m' = sc_bucket_arr_size m" "sc_buckets m' = sc_buckets m"
    "sc_elem_count_to_scale_up m' = sc_elem_count_to_scale_up m" "sc_elem_count_to_scale_down m' = sc_elem_count_to_scale_down m"
    and nodes: "\<And>a e'. sc_nodes m' a = Some e' \<Longrightarrow> \<exists>e. sc_nodes m a = Some e \<and> ln_key e' = ln_key e \<and> ln_hash_val e' = ln_hash_val e"
    and xs: "set xs \<subseteq> dom (sc_nodes m')"
  shows "sc_index sec m' xs"
proof -
  have k: "sc_keyed m' = sc_keyed m" using assms(3) by (simp add: sc_keyed_def)
  have "ln_hash_val e' = sc_hash_of_node sec m' e' (sc_keyed m')" if "sc_nodes m' a = Some e'" for a e'
  proof -
    from nodes [OF that] obtain e where e: "sc_nodes m a = Some e" "ln_key e' = ln_key e" "ln_hash_val e' = ln_hash_val e" by blast
    then have "ln_hash_val e = sc_hash_of_node sec m e (sc_keyed m)" using assms(1) by (simp add: sc_index_def)
    then show ?thesis using e sc_hash_of_node_cong [OF e(2), of sec m "sc_keyed m"] by (simp add: kind_hash [OF assms(2)] k)
  qed
  moreover have "sc_home sec m' (sc_nodes m') c keyed a = sc_home sec m (sc_nodes m) c keyed a" if "a \<in> set xs" for a c keyed
  proof -
    obtain e' where e': "sc_nodes m' a = Some e'" using xs \<open>a \<in> set xs\<close> by auto
    from nodes [OF e'] obtain e where e: "sc_nodes m a = Some e" "ln_key e' = ln_key e" by blast
    then show ?thesis using e' sc_hash_of_node_cong [OF e(2), of sec m keyed] by (simp add: kind_home [OF assms(2)] sc_home_def)
  qed
  then have "filed c (sc_home sec m' (sc_nodes m') c keyed) (set xs) bs" if "filed c (sc_home sec m (sc_nodes m) c keyed) (set xs) bs" for c keyed bs
    by (intro filed_cong [OF that])
  ultimately show ?thesis using assms(1-8) k unfolding sc_index_def sc_same_kind_def by simp
qed

lemma sc_set_val_ends:
  assumes rep: "sc_rep sec m xs" and h: "heap_ok h" "set (sc_blocks m xs) \<subseteq> live h" and a: "a \<in> set xs" "sc_nodes m a = Some e"
    and buf: "buf_ok bytes buf" "restored (ln_val_buf e) buf h h'"
  defines "m' \<equiv> m\<lparr>sc_nodes := (sc_nodes m)(a \<mapsto> e\<lparr>ln_val := bytes, ln_val_buf := buf\<rparr>)\<rparr>"
  shows "sc_rep sec m' xs" "blocks_moved (set (sc_blocks m xs)) (set (sc_blocks m' xs)) h h'"
    "map (sc_entry (sc_nodes m')) xs = map (\<lambda>x. if x = a then (ln_key e, bytes) else sc_entry (sc_nodes m) x) xs"
proof -
  have body: "sc_body m xs" and ix: "sc_index sec m xs" using rep by (auto simp: sc_rep_def)
  have dist: "distinct xs" using body by (simp add: sc_body_def dll_def)
  obtain ys zs where xs: "xs = ys @ a # zs" using a(1) split_list by metis
  let ?P = "hm_blk m # opt_list (sc_arr m) @ concat (map (node_blks (sc_nodes m)) ys) @ a # opt_list (ln_key_buf e)"
  let ?Q = "concat (map (node_blks (sc_nodes m)) zs)"
  have old: "sc_blocks m xs = ?P @ opt_list (ln_val_buf e) @ ?Q" using a(2) xs by (simp add: sc_blocks_def node_blks_def)
  have nb: "node_blks (sc_nodes m') x = node_blks (sc_nodes m) x" if "x \<noteq> a" for x using that by (simp add: m'_def node_blks_def)
  have "map (node_blks (sc_nodes m')) ys = map (node_blks (sc_nodes m)) ys" "map (node_blks (sc_nodes m')) zs = map (node_blks (sc_nodes m)) zs"
    by (rule map_cong [OF refl], rule nb, use dist xs in fastforce)+
  moreover have "node_blks (sc_nodes m') a = a # opt_list (ln_key_buf e) @ opt_list buf" "hm_blk m' = hm_blk m" "sc_arr m' = sc_arr m"
    by (simp_all add: m'_def node_blks_def)
  ultimately have new: "sc_blocks m' xs = ?P @ opt_list buf @ ?Q"
    by (simp only: xs sc_blocks_def map_append list.map concat_append concat.simps append_assoc append_Cons)
  have d: "distinct (sc_blocks m xs)" using body by (simp add: sc_body_def)
  note bl = restored_blocks [OF d [unfolded old] h(1) h(2) [unfolded old] buf(2), folded new, folded old]
  then show "blocks_moved (set (sc_blocks m xs)) (set (sc_blocks m' xs)) h h'" by simp
  show "map (sc_entry (sc_nodes m')) xs = map (\<lambda>x. if x = a then (ln_key e, bytes) else sc_entry (sc_nodes m) x) xs"
    by (simp add: m'_def sc_entry_def)
  have nodes: "\<exists>e0. sc_nodes m x = Some e0 \<and> ln_key e' = ln_key e0 \<and> ln_hash_val e' = ln_hash_val e0" if "sc_nodes m' x = Some e'" for x e'
    using that a(2) by (auto simp: m'_def split: if_splits)
  have dom: "dom (sc_nodes m') = set xs" using body a by (auto simp: sc_body_def m'_def)
  have "sc_index sec m' xs" by (rule sc_index_cong [OF ix]) (use nodes dom in \<open>auto simp: m'_def sc_same_kind_def\<close>)
  moreover have "node_key (sc_nodes m') x = node_key (sc_nodes m) x" for x using a(2) by (simp add: m'_def node_key_def)
  then have "\<forall>x \<in> set xs. \<forall>y \<in> set xs. sc_same m' (node_key (sc_nodes m') x) (node_key (sc_nodes m') y) \<longrightarrow> x = y"
    using body unfolding sc_body_def sc_same_def by (simp add: m'_def)
  moreover have "buf_ok (ln_key e') (ln_key_buf e') \<and> buf_ok (ln_val e') (ln_val_buf e')" if "sc_nodes m' x = Some e'" for x e'
    using that body a(2) buf(1) unfolding sc_body_def m'_def by (cases "x = a") auto
  ultimately show "sc_rep sec m' xs"
    using body dom conjunct1 [OF bl] unfolding sc_rep_def sc_body_def by (simp add: m'_def)
qed

lemma sc_link_new_ends:
  assumes rep: "sc_rep sec m xs" and h: "heap_ok h" "set (sc_blocks m xs) \<subseteq> live h"
    and new: "\<forall>a \<in> set xs. \<not> sc_same m (node_key (sc_nodes m) a) key" "length xs < ccol_max_elem_count"
    and refs: "dll refs root (a # xs)" and buf: "buf_ok key kb" "buf_ok val vb" "distinct (a # opt_list kb @ opt_list vb)"
    and g: "grown (set (a # opt_list kb @ opt_list vb)) h h'"
  defines "i \<equiv> hash_index_for (sc_hash sec m key) (sc_bucket_arr_size m)"
    and "m' \<equiv> m\<lparr>sc_all_elems := root, sc_refs := refs, sc_nodes := (sc_nodes m)(a \<mapsto> new_node (sc_hash sec m key) key kb val vb),
      sc_buckets := (sc_buckets m)[hash_index_for (sc_hash sec m key) (sc_bucket_arr_size m) :=
        a # sc_buckets m ! hash_index_for (sc_hash sec m key) (sc_bucket_arr_size m)],
      sc_elem_count := sc_elem_count m + 1\<rparr>"
  shows "sc_rep sec m' (a # xs)" "blocks_moved (set (sc_blocks m xs)) (set (sc_blocks m' (a # xs))) h h'"
    "map (sc_entry (sc_nodes m')) (a # xs) = (key, val) # map (sc_entry (sc_nodes m)) xs"
proof -
  let ?e = "new_node (sc_hash sec m key) key kb val vb" and ?c = "sc_bucket_arr_size m"
  have body: "sc_body m xs" and ix: "sc_index sec m xs" using rep by (auto simp: sc_rep_def)
  have a: "a \<notin> set xs" using refs by (simp add: dll_def)
  have nodes: "sc_nodes m' = (sc_nodes m)(a \<mapsto> ?e)" by (simp add: m'_def)
  have other: "sc_nodes m' x = sc_nodes m x" if "x \<in> set xs" for x using that a nodes by auto
  have kind: "sc_same_kind m m'" and keyed: "sc_keyed m' = sc_keyed m" by (simp_all add: m'_def sc_same_kind_def sc_keyed_def)
  show ent: "map (sc_entry (sc_nodes m')) (a # xs) = (key, val) # map (sc_entry (sc_nodes m)) xs"
    using other by (auto simp: sc_entry_def nodes new_node_def)
  have "map (node_blks (sc_nodes m')) xs = map (node_blks (sc_nodes m)) xs" using other by (auto simp: node_blks_def)
  moreover have "hm_blk m' = hm_blk m" "sc_arr m' = sc_arr m" "node_blks (sc_nodes m') a = a # opt_list kb @ opt_list vb"
    by (simp_all add: m'_def node_blks_def new_node_def)
  ultimately have bl: "sc_blocks m' (a # xs) = hm_blk m # opt_list (sc_arr m) @ (a # opt_list kb @ opt_list vb) @ concat (map (node_blks (sc_nodes m)) xs)"
    by (simp only: sc_blocks_def list.map concat.simps append_assoc append_Cons)
  have old: "sc_blocks m xs = (hm_blk m # opt_list (sc_arr m)) @ concat (map (node_blks (sc_nodes m)) xs)" by (simp add: sc_blocks_def)
  have fresh: "set (a # opt_list kb @ opt_list vb) \<inter> set (sc_blocks m xs) = {}" using grown_fresh [OF g h(1)] h(2) by blast
  have "distinct (sc_blocks m xs)" using body by (simp add: sc_body_def)
  then have dist: "distinct (sc_blocks m' (a # xs))" using fresh buf(3) unfolding bl old by auto
  have "set (sc_blocks m' (a # xs)) = set (sc_blocks m xs) \<union> set (a # opt_list kb @ opt_list vb)" unfolding bl old by auto
  then show "blocks_moved (set (sc_blocks m xs)) (set (sc_blocks m' (a # xs))) h h'" using grown_moved [OF g h] by simp
  have ok: "key_procs_ok (sc_key_type m) (sc_custom m) (sc_custom_eq m)" using body by (simp add: sc_body_def)
  have key: "node_key (sc_nodes m') a = key" "node_key (sc_nodes m') x = node_key (sc_nodes m) x" if "x \<in> set xs" for x
    using other that by (auto simp: node_key_def nodes new_node_def)
  have diff: "\<not> sc_same m key (node_key (sc_nodes m) x)" if "x \<in> set xs" for x
    using new(1) that same_key_equiv(2) [OF ok] unfolding sc_same_def by blast
  have "sc_same m' = sc_same m" by (simp add: sc_same_def m'_def)
  then have uniq: "x = y" if "x \<in> set (a # xs)" "y \<in> set (a # xs)" "sc_same m' (node_key (sc_nodes m') x) (node_key (sc_nodes m') y)" for x y
    using that key new(1) diff body unfolding sc_body_def by (cases "x = a"; cases "y = a") auto
  have bufs: "buf_ok (ln_key e) (ln_key_buf e) \<and> buf_ok (ln_val e) (ln_val_buf e)" if "sc_nodes m' x = Some e" for x e
    using that body buf nodes unfolding sc_body_def by (cases "x = a") (auto simp: new_node_def)
  have b: "sc_body m' (a # xs)"
    using ok refs body bufs uniq dist new(2) unfolding sc_body_def by (auto simp: m'_def)
  have c: "arr_ok ?c" and f: "filed ?c (sc_home sec m (sc_nodes m) ?c (sc_keyed m)) (set xs) (sc_buckets m)" using ix by (auto simp: sc_index_def)
  have home: "sc_home sec m (sc_nodes m') ?c (sc_keyed m) a = i"
    by (simp add: sc_home_def nodes new_node_def sc_hash_of_node_def sc_hash_def i_def)
  have buckets: "sc_buckets m' = (sc_buckets m)[i := a # sc_buckets m ! i]" by (simp add: m'_def i_def)
  have "filed ?c (sc_home sec m (sc_nodes m') ?c (sc_keyed m)) (set xs) (sc_buckets m)"
    by (rule filed_cong [OF f]) (simp add: sc_home_def other)
  from filed_link [OF this a sc_home_less [OF c]] have
    "filed ?c (sc_home sec m' (sc_nodes m') ?c (sc_keyed m')) (set (a # xs)) (sc_buckets m')"
    unfolding home kind_home [OF kind] keyed using buckets by (simp only: list.set(2))
  moreover have "ln_hash_val e = sc_hash_of_node sec m' e (sc_keyed m')" if "sc_nodes m' x = Some e" for x e
  proof (cases "x = a")
    case True
    then show ?thesis using that unfolding kind_hash [OF kind] keyed by (auto simp: nodes new_node_def sc_hash_of_node_def sc_hash_def)
  next
    case False
    then show ?thesis using that ix unfolding kind_hash [OF kind] keyed sc_index_def by (simp add: nodes)
  qed
  ultimately have "sc_index sec m' (a # xs)" using ix unfolding sc_index_def by (simp add: m'_def)
  then show "sc_rep sec m' (a # xs)" using b by (simp add: sc_rep_def)
qed

section \<open>Insertion\<close>

lemma al_get_unique:
  "a \<in> set xs \<Longrightarrow> (\<And>x. x \<in> set xs \<Longrightarrow> same (fst (f x)) k \<longleftrightarrow> x = a) \<Longrightarrow> al_get same k (map f xs) = Some (snd (f a))"
proof (induction xs)
  case (Cons x ys)
  have ind: "al_get same k (map f (x # ys)) = (if same (fst (f x)) k then Some (snd (f x)) else al_get same k (map f ys))"
    by (cases "f x") simp
  show ?case
  proof (cases "x = a")
    case True
    then show ?thesis unfolding ind using Cons.prems(2) [of x] by simp
  next
    case False
    then show ?thesis unfolding ind using Cons.prems(2) [of x] Cons.IH Cons.prems by simp
  qed
qed simp

lemma sc_same_unique:
  assumes rep: "sc_rep sec m xs" and a: "a \<in> set xs" "sc_same m (node_key (sc_nodes m) a) key" and x: "x \<in> set xs"
  shows "sc_same m (node_key (sc_nodes m) x) key \<longleftrightarrow> x = a"
proof
  assume s: "sc_same m (node_key (sc_nodes m) x) key"
  have body: "sc_body m xs" using rep by (simp add: sc_rep_def)
  have ok: "key_procs_ok (sc_key_type m) (sc_custom m) (sc_custom_eq m)" using body by (simp add: sc_body_def)
  have "sc_same m (node_key (sc_nodes m) x) (node_key (sc_nodes m) a)"
    using same_key_equiv(2,3) [OF ok] a(2) s unfolding sc_same_def by blast
  then show "x = a" using body a(1) x unfolding sc_body_def by blast
qed (use a in simp)

lemma al_get_entries:
  assumes rep: "sc_rep sec m xs"
  shows "al_get (sc_same m) key (map (sc_entry (sc_nodes m)) xs) = None \<longleftrightarrow> (\<forall>a \<in> set xs. \<not> sc_same m (node_key (sc_nodes m) a) key)"
    "a \<in> set xs \<Longrightarrow> sc_same m (node_key (sc_nodes m) a) key \<Longrightarrow>
       al_get (sc_same m) key (map (sc_entry (sc_nodes m)) xs) = Some (ln_val (the (sc_nodes m a)))"
proof -
  show "al_get (sc_same m) key (map (sc_entry (sc_nodes m)) xs) = None \<longleftrightarrow> (\<forall>a \<in> set xs. \<not> sc_same m (node_key (sc_nodes m) a) key)"
    by (simp add: al_get_None sc_entry_def node_key_def)
  assume a: "a \<in> set xs" "sc_same m (node_key (sc_nodes m) a) key"
  have "fst (sc_entry (sc_nodes m) x) = node_key (sc_nodes m) x" for x by (simp add: sc_entry_def node_key_def)
  then have "al_get (sc_same m) key (map (sc_entry (sc_nodes m)) xs) = Some (snd (sc_entry (sc_nodes m) a))"
    by (intro al_get_unique [OF a(1)]) (simp only: sc_same_unique [OF rep a])
  then show "al_get (sc_same m) key (map (sc_entry (sc_nodes m)) xs) = Some (ln_val (the (sc_nodes m a)))"
    by (simp add: sc_entry_def)
qed

text \<open>A step that changes no entry, with its effect on the heap.\<close>

definition settled :: "chmap_hash_secret \<Rightarrow> sep_chain_map \<Rightarrow> heap \<Rightarrow> nat list \<Rightarrow> sep_chain_map \<Rightarrow> heap \<Rightarrow> bool" where
  "settled sec m h xs m' h' \<longleftrightarrow> sc_rep sec m' xs \<and> refiled m m' \<and> blocks_moved (set (sc_blocks m xs)) (set (sc_blocks m' xs)) h h'"

lemma settled_trans: "settled sec m h xs m1 h1 \<Longrightarrow> settled sec m1 h1 xs m2 h2 \<Longrightarrow> settled sec m h xs m2 h2"
  using refiled_trans blocks_moved_trans by (auto simp: settled_def)

lemma settled_heap:
  "settled sec m h xs m' h' \<Longrightarrow> heap_ok h \<Longrightarrow> heap_ok h' \<and> set (sc_blocks m' xs) \<subseteq> live h'"
  using blocks_moved_heap_ok by (auto simp: settled_def blocks_moved_def)

lemma settled_same:
  assumes "sc_rep sec m' xs" "refiled m m'" "sc_arr m' = sc_arr m" "set (sc_blocks m xs) \<subseteq> live h"
  shows "settled sec m h xs m' h"
  using assms sc_blocks_refiled [OF assms(2,3), of xs] blocks_kept_moved [OF blocks_kept_refl] by (simp add: settled_def)

lemma sc_after_link_ends:
  assumes rep: "sc_rep sec m xs" and h: "heap_ok h" "set (sc_blocks m xs) \<subseteq> live h"
  shows "\<exists>m' h'. do {
       m \<leftarrow> (if walk \<ge> SC_CHAIN_CAP then sc_note_long_chain sec m else Some m);
       let (ended, window) = chmap_window_add (insert_window m) walk;
       let m = m\<lparr>insert_window := window\<rparr>;
       m \<leftarrow> (if ended then sc_window_end sec m else Some m);
       (m, h) \<leftarrow> (if sc_elem_count m \<ge> sc_elem_count_to_scale_up m then sc_scale sec m True h else Some (m, h));
       Some (ccol_success, m, h, out)
     } = Some (ccol_success, m', h', out) \<and> settled sec m h xs m' h'"
proof -
  have "\<exists>m1. (if walk \<ge> SC_CHAIN_CAP then sc_note_long_chain sec m else Some m) = Some m1 \<and> settled sec m h xs m1 h"
    using sc_switch_to_keyed_ends [OF rep] settled_same rep h(2) by (auto simp: sc_note_long_chain_def)
  then obtain m1 where m1: "(if walk \<ge> SC_CHAIN_CAP then sc_note_long_chain sec m else Some m) = Some m1" "settled sec m h xs m1 h" by blast
  obtain ended w where w: "chmap_window_add (insert_window m1) walk = (ended, w)" by (cases "chmap_window_add (insert_window m1) walk")
  let ?m2 = "m1\<lparr>insert_window := w\<rparr>"
  have rep1: "sc_rep sec m1 xs" and sub1: "set (sc_blocks m1 xs) \<subseteq> live h" using m1(2) settled_heap [OF m1(2) h(1)] by (auto simp: settled_def)
  then have rep2: "sc_rep sec ?m2 xs" and re2: "refiled m1 ?m2" by (simp_all add: sc_rep_def sc_window_fields)
  have "settled sec m1 h xs ?m2 h" by (rule settled_same [OF rep2 re2 _ sub1]) simp
  note s2 = settled_trans [OF m1(2) this]
  have sub2: "set (sc_blocks ?m2 xs) \<subseteq> live h" using settled_heap [OF s2 h(1)] by simp
  have "\<exists>m3. (if ended then sc_window_end sec ?m2 else Some ?m2) = Some m3 \<and> settled sec ?m2 h xs m3 h"
  proof -
    let ?r = "sc_window_restart ?m2"
    have r: "sc_rep sec ?r xs" "refiled ?m2 ?r" "sc_arr ?r = sc_arr ?m2" using rep2 by (simp_all add: sc_rep_def sc_restart_fields)
    from sc_switch_to_keyed_ends [OF r(1)] obtain m3 where m3: "sc_switch_to_keyed sec ?r = Some m3" "sc_rep sec m3 xs" "refiled ?r m3" "sc_arr m3 = sc_arr ?r" by blast
    show ?thesis
      using settled_same [OF r sub2] settled_same [OF m3(2) refiled_trans [OF r(2) m3(3)] _ sub2] settled_same [OF rep2 _ _ sub2] m3 r(3)
      unfolding sc_window_end_def by (auto simp: Let_def)
  qed
  then obtain m3 where m3: "(if ended then sc_window_end sec ?m2 else Some ?m2) = Some m3" "settled sec ?m2 h xs m3 h" by blast
  note s3 = settled_trans [OF s2 m3(2)]
  have rep3: "sc_rep sec m3 xs" and sub3: "set (sc_blocks m3 xs) \<subseteq> live h" using m3(2) settled_heap [OF s3 h(1)] by (auto simp: settled_def)
  have "\<exists>m4 h4. (if sc_elem_count m3 \<ge> sc_elem_count_to_scale_up m3 then sc_scale sec m3 True h else Some (m3, h)) = Some (m4, h4)
      \<and> settled sec m3 h xs m4 h4"
    using sc_scale_ends [OF rep3 h(1) sub3, of True] settled_same [OF rep3 _ _ sub3] by (auto simp: settled_def)
  then obtain m4 h4 where m4: "(if sc_elem_count m3 \<ge> sc_elem_count_to_scale_up m3 then sc_scale sec m3 True h else Some (m3, h)) = Some (m4, h4)"
      "settled sec m3 h xs m4 h4" by blast
  show ?thesis using settled_trans [OF s3 m4(2)] by (simp only: m1(1) bind.simps w prod.case Let_def m3(1) m4(1)) blast
qed

end
