(* ===== verification/CCol_Hashmap_Sc_Map.thy ===== *)
theory CCol_Hashmap_Sc_Map
  imports CCol_Hashmap_Sc_Ops
begin

text \<open>
  The separate-chaining backend as an insertion-ordered association list: insertion,
  lookup, deletion, reset and destruction, each on every path.
\<close>

section \<open>Insertion\<close>

definition sc_inserted ::
  "chmap_hash_secret \<Rightarrow> sep_chain_map \<Rightarrow> heap \<Rightarrow> byte list \<Rightarrow> byte list \<Rightarrow> bool \<Rightarrow> sc_result \<Rightarrow> bool" where
  "sc_inserted sec m h key val slot_out r = (case r of (rv, m', h', out) \<Rightarrow>
     sc_inv sec m' \<and> sc_same_kind m m' \<and> blocks_moved (sc_owned m) (sc_owned m') h h'
     \<and> (if al_get (sc_same m) key (sc_entries m) \<noteq> None
        then (if slot_out then rv = ccol_key_already_present \<and> m' = m
              else rv = ccol_key_already_present \<and> sc_entries m' = al_put (sc_same m) key val (sc_entries m)
                \<or> rv = ccol_not_enough_memory \<and> m' = m)
        else rv = ccol_success \<and> sc_entries m' = al_put (sc_same m) key val (sc_entries m)
          \<or> rv = ccol_not_enough_memory \<and> m' = m
          \<or> rv = ccol_container_full \<and> m' = m \<and> length (sc_entries m) = ccol_max_elem_count)
     \<and> (if slot_out \<and> (rv = ccol_success \<or> rv = ccol_key_already_present)
        then \<exists>a \<in> set (sc_order m'). out = Some a \<and> sc_same m' (node_key (sc_nodes m') a) key
          \<and> al_get (sc_same m') key (sc_entries m') = Some (ln_val (the (sc_nodes m' a)))
        else out = None))"

lemma sc_entries_rep: "sc_rep sec m xs \<Longrightarrow> sc_entries m = map (sc_entry (sc_nodes m)) xs \<and> sc_owned m = set (sc_blocks m xs) \<and> sc_order m = xs"
  using sc_rep_order by (simp add: sc_entries_def sc_owned_def)

lemma sc_put_present:
  assumes rep: "sc_rep sec m xs" and a: "a \<in> set xs" "sc_nodes m a = Some e" "sc_same m (ln_key e) key"
  shows "al_put (sc_same m) key val (map (sc_entry (sc_nodes m)) xs) = map (\<lambda>x. if x = a then (ln_key e, val) else sc_entry (sc_nodes m) x) xs"
proof -
  have s: "sc_same m (node_key (sc_nodes m) a) key" using a by (simp add: node_key_def)
  have "(\<lambda>(j, w). (j, if sc_same m j key then val else w)) (sc_entry (sc_nodes m) x) = (if x = a then (ln_key e, val) else sc_entry (sc_nodes m) x)"
    if x: "x \<in> set xs" for x
    using sc_same_unique [OF rep a(1) s x] a(2) by (cases "x = a") (simp_all add: sc_entry_def node_key_def)
  moreover have "al_get (sc_same m) key (map (sc_entry (sc_nodes m)) xs) \<noteq> None" using al_get_entries(2) [OF rep a(1) s] by simp
  ultimately show ?thesis by (auto simp: al_put_def)
qed

lemma sc_insert_present:
  assumes rep: "sc_rep sec m xs" and h: "heap_ok h" "set (sc_blocks m xs) \<subseteq> live h" and a: "a \<in> set xs" "sc_same m (node_key (sc_nodes m) a) key"
    and v: "sc_arg_ok (sc_nodes m) vp n"
  shows "\<exists>ok nodes h'. sc_reset_val_of_llist_node (sc_nodes m) a vp n h = Some (ok, nodes, h')
     \<and> sc_inserted sec m h key (sc_read (sc_nodes m) vp n) False
         (if ok then ccol_key_already_present else ccol_not_enough_memory, m\<lparr>sc_nodes := nodes\<rparr>, h', None)"
proof -
  have body: "sc_body m xs" using rep by (simp add: sc_rep_def)
  obtain e where e: "sc_nodes m a = Some e" using body a(1) unfolding sc_body_def by blast
  note en = sc_entries_rep [OF rep]
  have present: "al_get (sc_same m) key (sc_entries m) \<noteq> None" using al_get_entries(2) [OF rep a] en by simp
  have buf: "buf_ok (ln_val e) (ln_val_buf e)" using body e by (simp add: sc_body_def)
  have "set (node_blks (sc_nodes m) a) \<subseteq> set (sc_blocks m xs)" using a(1) by (auto simp: sc_blocks_def)
  then have live: "set (opt_list (ln_val_buf e)) \<subseteq> live h" using e h(2) by (auto simp: node_blks_def)
  from sc_reset_val_ends [OF e v buf h(1) live] show ?thesis
  proof (elim disjE exE conjE)
    fix h' assume r: "sc_reset_val_of_llist_node (sc_nodes m) a vp n h = Some (False, sc_nodes m, h')" "blocks_kept h h'"
    then show ?thesis using present en sc_rep_inv [OF rep] blocks_kept_moved [OF r(2) h(2)]
      by (intro exI [of _ False] exI [of _ "sc_nodes m"] exI [of _ h']) (simp add: sc_inserted_def)
  next
    fix buf h' assume r: "sc_reset_val_of_llist_node (sc_nodes m) a vp n h =
        Some (True, (sc_nodes m)(a \<mapsto> e\<lparr>ln_val := sc_read (sc_nodes m) vp n, ln_val_buf := buf\<rparr>), h')"
      "buf_ok (sc_read (sc_nodes m) vp n) buf" "restored (ln_val_buf e) buf h h'"
    note s = sc_set_val_ends [OF rep h a(1) e r(2,3)]
    have same: "sc_same m (ln_key e) key" using a(2) e by (simp add: node_key_def)
    let ?m' = "m\<lparr>sc_nodes := (sc_nodes m)(a \<mapsto> e\<lparr>ln_val := sc_read (sc_nodes m) vp n, ln_val_buf := buf\<rparr>)\<rparr>"
    have ent: "sc_entries ?m' = al_put (sc_same m) key (sc_read (sc_nodes m) vp n) (sc_entries m)"
      using sc_entries_rep [OF s(1)] s(3) sc_put_present [OF rep a(1) e same] en by simp
    have bm: "blocks_moved (sc_owned m) (sc_owned ?m') h h'" using sc_entries_rep [OF s(1)] s(2) en by simp
    have "sc_same_kind m ?m'" by (simp add: sc_same_kind_def)
    then have "sc_inserted sec m h key (sc_read (sc_nodes m) vp n) False (ccol_key_already_present, ?m', h', None)"
      using present ent bm sc_rep_inv [OF s(1)] unfolding sc_inserted_def by simp
    then show ?thesis using r(1) by auto
  qed
qed

lemma sc_insert_absent:
  assumes rep: "sc_rep sec m xs" and h: "heap_ok h" "set (sc_blocks m xs) \<subseteq> live h"
    and new: "\<forall>a \<in> set xs. \<not> sc_same m (node_key (sc_nodes m) a) key" "sc_elem_count m \<noteq> ccol_max_elem_count"
  defines "i \<equiv> hash_index_for (sc_hash sec m key) (sc_bucket_arr_size m)"
  shows "\<exists>r. do {
       (new_node, m, h) \<leftarrow> sc_create_llist_node m (sc_hash sec m key) key val h;
       (case new_node of
          None \<Rightarrow> Some (ccol_not_enough_memory, m, h, None)
        | Some a \<Rightarrow> do {
            let m = m\<lparr>sc_buckets := (sc_buckets m)[i := a # sc_buckets m ! i], sc_elem_count := sc_elem_count m + 1\<rparr>;
            m \<leftarrow> (if walk \<ge> SC_CHAIN_CAP then sc_note_long_chain sec m else Some m);
            let (ended, window) = chmap_window_add (insert_window m) walk;
            let m = m\<lparr>insert_window := window\<rparr>;
            m \<leftarrow> (if ended then sc_window_end sec m else Some m);
            (m, h) \<leftarrow> (if sc_elem_count m \<ge> sc_elem_count_to_scale_up m then sc_scale sec m True h else Some (m, h));
            Some (ccol_success, m, h, if slot_out then Some a else None)
          })
     } = Some r \<and> sc_inserted sec m h key val slot_out r"
proof -
  have body: "sc_body m xs" using rep by (simp add: sc_rep_def)
  note en = sc_entries_rep [OF rep]
  have absent: "al_get (sc_same m) key (sc_entries m) = None" using al_get_entries(1) [OF rep, of key] new(1) en by simp
  have len: "length xs < ccol_max_elem_count" using body new(2) by (auto simp: sc_body_def)
  from sc_create_llist_node_ends [OF body h, of "sc_hash sec m key" key val] show ?thesis
  proof (elim disjE exE conjE)
    fix h' assume r: "sc_create_llist_node m (sc_hash sec m key) key val h = Some (None, m, h')" "blocks_kept h h'"
    then show ?thesis using absent en sc_rep_inv [OF rep] blocks_kept_moved [OF r(2) h(2)] by (simp add: sc_inserted_def)
  next
    fix a kb vb root refs h'
    assume r: "sc_create_llist_node m (sc_hash sec m key) key val h =
        Some (Some a, m\<lparr>sc_all_elems := root, sc_refs := refs, sc_nodes := (sc_nodes m)(a \<mapsto> new_node (sc_hash sec m key) key kb val vb)\<rparr>, h')"
      and d: "dll refs root (a # xs)" "buf_ok key kb" "buf_ok val vb" "distinct (a # opt_list kb @ opt_list vb)"
        "grown (set (a # opt_list kb @ opt_list vb)) h h'"
    let ?m0 = "m\<lparr>sc_all_elems := root, sc_refs := refs, sc_nodes := (sc_nodes m)(a \<mapsto> new_node (sc_hash sec m key) key kb val vb)\<rparr>"
    let ?m1 = "m\<lparr>sc_all_elems := root, sc_refs := refs, sc_nodes := (sc_nodes m)(a \<mapsto> new_node (sc_hash sec m key) key kb val vb),
      sc_buckets := (sc_buckets m)[i := a # sc_buckets m ! i], sc_elem_count := sc_elem_count m + 1\<rparr>"
    have m1: "?m0\<lparr>sc_buckets := (sc_buckets ?m0)[i := a # sc_buckets ?m0 ! i], sc_elem_count := sc_elem_count ?m0 + 1\<rparr> = ?m1" by simp
    note l = sc_link_new_ends [OF rep h new(1) len d, folded i_def]
    have h1: "heap_ok h'" "set (sc_blocks ?m1 (a # xs)) \<subseteq> live h'"
      using l(2) blocks_moved_heap_ok [OF l(2) h(1)] by (auto simp: blocks_moved_def)
    from sc_after_link_ends [OF l(1) h1, of walk "if slot_out then Some a else None"] obtain m2 h2 where
      run: "do {
         m \<leftarrow> (if walk \<ge> SC_CHAIN_CAP then sc_note_long_chain sec ?m1 else Some ?m1);
         let (ended, window) = chmap_window_add (insert_window m) walk;
         let m = m\<lparr>insert_window := window\<rparr>;
         m \<leftarrow> (if ended then sc_window_end sec m else Some m);
         (m, h) \<leftarrow> (if sc_elem_count m \<ge> sc_elem_count_to_scale_up m then sc_scale sec m True h' else Some (m, h'));
         Some (ccol_success, m, h, if slot_out then Some a else None)
       } = Some (ccol_success, m2, h2, if slot_out then Some a else None)" and s: "settled sec ?m1 h' (a # xs) m2 h2" by blast
    have rep2: "sc_rep sec m2 (a # xs)" and re: "refiled ?m1 m2" using s by (auto simp: settled_def)
    note en2 = sc_entries_rep [OF rep2]
    have ent: "sc_entries m2 = (key, val) # sc_entries m"
      using en2 refiled_entries [OF re, of "a # xs"] rep2 l(1,3) en unfolding sc_rep_def by simp
    have bm: "blocks_moved (sc_owned m) (sc_owned m2) h h2"
      using blocks_moved_trans [OF l(2)] s en en2 by (simp add: settled_def)
    have kind: "sc_same_kind m m2" using re by (simp add: refiled_def sc_same_kind_def)
    then have same: "sc_same m2 = sc_same m" by (simp add: sc_same_def sc_same_kind_def)
    have "fst (sc_entry (sc_nodes m2) a) = key" using ent en2 by simp
    then have key: "node_key (sc_nodes m2) a = key" by (simp add: sc_entry_def node_key_def)
    have "key_procs_ok (sc_key_type m) (sc_custom m) (sc_custom_eq m)" using body by (simp add: sc_body_def)
    then have refl: "sc_same m key key" using same_key_equiv(1) by (simp add: sc_same_def)
    have out: "al_get (sc_same m2) key (sc_entries m2) = Some (ln_val (the (sc_nodes m2 a)))"
      using al_get_entries(2) [OF rep2, of a key] key refl same en2 by simp
    have "sc_inserted sec m h key val slot_out (ccol_success, m2, h2, if slot_out then Some a else None)"
      using absent ent bm kind sc_rep_inv [OF rep2] en2 key refl same out unfolding sc_inserted_def by (simp add: al_put_def)
    moreover have "do {
       (new_node, m, h) \<leftarrow> sc_create_llist_node m (sc_hash sec m key) key val h;
       (case new_node of
          None \<Rightarrow> Some (ccol_not_enough_memory, m, h, None)
        | Some a \<Rightarrow> do {
            let m = m\<lparr>sc_buckets := (sc_buckets m)[i := a # sc_buckets m ! i], sc_elem_count := sc_elem_count m + 1\<rparr>;
            m \<leftarrow> (if walk \<ge> SC_CHAIN_CAP then sc_note_long_chain sec m else Some m);
            let (ended, window) = chmap_window_add (insert_window m) walk;
            let m = m\<lparr>insert_window := window\<rparr>;
            m \<leftarrow> (if ended then sc_window_end sec m else Some m);
            (m, h) \<leftarrow> (if sc_elem_count m \<ge> sc_elem_count_to_scale_up m then sc_scale sec m True h else Some (m, h));
            Some (ccol_success, m, h, if slot_out then Some a else None)
          })
     } = Some (ccol_success, m2, h2, if slot_out then Some a else None)"
      unfolding r bind.simps prod.case option.case Let_def [of "_ :: sep_chain_map"] m1 by (rule run [unfolded Let_def [of "_ :: sep_chain_map"]])
    ultimately show ?thesis by blast
  qed
qed

lemma sc_insert_impl_ends:
  assumes inv: "sc_inv sec m" and h: "heap_ok h" "sc_owned m \<subseteq> live h"
    and kp: "sc_arg_ok (sc_nodes m) kp kn" and vp: "sc_arg_ok (sc_nodes m) vp vn"
  shows "\<exists>r. sc_insert_impl sec m (kp, kn) (vp, vn) slot_out h = Some r
     \<and> sc_inserted sec m h (sc_read (sc_nodes m) kp kn) (sc_read (sc_nodes m) vp vn) slot_out r"
proof -
  have rep: "sc_rep sec m (sc_order m)" using inv by (simp add: sc_inv_def)
  note en = sc_entries_rep [OF rep]
  have sub: "set (sc_blocks m (sc_order m)) \<subseteq> live h" using h(2) en by simp
  define key where "key = sc_read (sc_nodes m) kp kn"
  define i where "i = hash_index_for (sc_hash sec m key) (sc_bucket_arr_size m)"
  note unf = sc_insert_impl_def [of sec m "(kp, kn)" "(vp, vn)" slot_out h, unfolded fst_conv snd_conv, folded key_def,
    unfolded Let_def [of key] Let_def [of "sc_hash _ _ _"] Let_def [of "hash_index_for _ _"], folded i_def]
  let ?goal = "\<exists>r. sc_insert_impl sec m (kp, kn) (vp, vn) slot_out h = Some r \<and> sc_inserted sec m h key (sc_read (sc_nodes m) vp vn) slot_out r"
  have ?goal
  proof -
  from sc_find_ends [OF rep, of key, folded i_def] show ?goal
  proof (elim disjE exE conjE)
    fix a assume f: "sc_find_in_llist (sc_nodes m) (sc_buckets m ! i) (sc_hash sec m key) key (sc_key_type m) (sc_custom_eq m) = Some (Some a, 0)"
      "a \<in> set (sc_order m)" "sc_same m (node_key (sc_nodes m) a) key"
    have present: "al_get (sc_same m) key (sc_entries m) = Some (ln_val (the (sc_nodes m a)))" using al_get_entries(2) [OF rep f(2,3)] en by simp
    show ?goal
    proof (cases slot_out)
      case True
      have run: "sc_insert_impl sec m (kp, kn) (vp, vn) slot_out h = Some (ccol_key_already_present, m, h, Some a)"
        unfolding unf f(1) using True by (simp only: bind.simps prod.case option.case if_True)
      have out: "\<exists>x \<in> set (sc_order m). Some a = Some x \<and> sc_same m (node_key (sc_nodes m) x) key
          \<and> al_get (sc_same m) key (sc_entries m) = Some (ln_val (the (sc_nodes m x)))"
        by (rule bexI [OF _ f(2)]) (use f(3) present in simp)
      have ins: "sc_inserted sec m h key (sc_read (sc_nodes m) vp vn) slot_out (ccol_key_already_present, m, h, Some a)"
        unfolding sc_inserted_def prod.case
      proof (intro conjI)
        show "sc_inv sec m" by (rule inv)
        show "blocks_moved (sc_owned m) (sc_owned m) h h" by (rule blocks_kept_moved [OF blocks_kept_refl h(2)])
      qed (use True out present in \<open>simp_all only: sc_same_kind_refl if_True simp_thms option.distinct\<close>)
      show ?goal by (rule exI, rule conjI [OF run ins])
    next
      case False
      have "sc_insert_impl sec m (kp, kn) (vp, vn) slot_out h = do {
          (ok, nodes, h) \<leftarrow> sc_reset_val_of_llist_node (sc_nodes m) a vp vn h;
          Some (if ok then ccol_key_already_present else ccol_not_enough_memory, m\<lparr>sc_nodes := nodes\<rparr>, h, None) }"
        unfolding unf f(1) using False by (simp only: bind.simps prod.case option.case if_False)
      then show ?goal using sc_insert_present [OF rep h(1) sub f(2,3) vp] False by auto
    qed
  next
    assume f: "sc_find_in_llist (sc_nodes m) (sc_buckets m ! i) (sc_hash sec m key) key (sc_key_type m) (sc_custom_eq m) = Some (None, length (sc_buckets m ! i))"
      "\<forall>a \<in> set (sc_order m). \<not> sc_same m (node_key (sc_nodes m) a) key"
    have absent: "al_get (sc_same m) key (sc_entries m) = None" using al_get_entries(1) [OF rep, of key] f(2) en by simp
    show ?goal
    proof (cases "sc_elem_count m = ccol_max_elem_count")
      case True
      have "length (sc_entries m) = sc_elem_count m" using rep en by (simp add: sc_rep_def sc_body_def)
      then have "sc_inserted sec m h key (sc_read (sc_nodes m) vp vn) slot_out (ccol_container_full, m, h, None)"
        using True inv absent blocks_kept_moved [OF blocks_kept_refl h(2)] by (simp add: sc_inserted_def)
      moreover have "sc_insert_impl sec m (kp, kn) (vp, vn) slot_out h = Some (ccol_container_full, m, h, None)"
        unfolding unf f(1) bind.simps prod.case option.case if_P [OF True] ..
      ultimately show ?goal by blast
    next
      case False
      note ab = sc_insert_absent [OF rep h(1) sub f(2) False, folded i_def, of "sc_read (sc_nodes m) vp vn" "length (sc_buckets m ! i)" slot_out]
      show ?goal
        unfolding unf f(1) bind.simps prod.case option.case if_not_P [OF False] by (rule ab)
    qed
  qed
  qed
  then show ?thesis unfolding key_def .
qed

section \<open>Lookup\<close>

lemma sc_find_accessor_ends:
  fixes kp :: chm_ptr and kn :: size_t
  assumes inv: "sc_inv sec m"
  defines "key \<equiv> sc_read (sc_nodes m) kp kn"
  shows "case al_get (sc_same m) key (sc_entries m) of
      None \<Rightarrow> sc_find_accessor sec m (kp, kn) = Some (ccol_key_not_found, None)
    | Some v \<Rightarrow> \<exists>a e. sc_find_accessor sec m (kp, kn) = Some (ccol_success, Some a) \<and> sc_nodes m a = Some e \<and> ln_val e = v
        \<and> a \<in> set (sc_order m) \<and> sc_same m (ln_key e) key"
proof -
  have rep: "sc_rep sec m (sc_order m)" using inv by (simp add: sc_inv_def)
  note en = sc_entries_rep [OF rep]
  define i where "i = hash_index_for (sc_hash sec m key) (sc_bucket_arr_size m)"
  note unf = sc_find_accessor_def [of sec m "(kp, kn)", unfolded fst_conv snd_conv, folded key_def,
    unfolded Let_def [of key] Let_def [of "sc_hash _ _ _"] Let_def [of "hash_index_for _ _"], folded i_def]
  from sc_find_ends [OF rep, of key, folded i_def] show ?thesis
  proof (elim disjE exE conjE)
    fix a assume f: "sc_find_in_llist (sc_nodes m) (sc_buckets m ! i) (sc_hash sec m key) key (sc_key_type m) (sc_custom_eq m) = Some (Some a, 0)"
      "a \<in> set (sc_order m)" "sc_same m (node_key (sc_nodes m) a) key"
    have "al_get (sc_same m) key (sc_entries m) = Some (ln_val (the (sc_nodes m a)))" using al_get_entries(2) [OF rep f(2,3)] en by simp
    moreover obtain e where "sc_nodes m a = Some e" using rep f(2) unfolding sc_rep_def sc_body_def by blast
    moreover have "sc_find_accessor sec m (kp, kn) = Some (ccol_success, Some a)" unfolding unf f(1) by simp
    ultimately show ?thesis using f(2,3) by (simp add: node_key_def)
  next
    assume f: "sc_find_in_llist (sc_nodes m) (sc_buckets m ! i) (sc_hash sec m key) key (sc_key_type m) (sc_custom_eq m) = Some (None, length (sc_buckets m ! i))"
      "\<forall>a \<in> set (sc_order m). \<not> sc_same m (node_key (sc_nodes m) a) key"
    have "al_get (sc_same m) key (sc_entries m) = None" using al_get_entries(1) [OF rep, of key] f(2) en by simp
    moreover have "sc_find_accessor sec m (kp, kn) = Some (ccol_key_not_found, None)" unfolding unf f(1) by simp
    ultimately show ?thesis by simp
  qed
qed

lemma sc_get_ends:
  fixes kp :: chm_ptr and kn :: size_t
  assumes inv: "sc_inv sec m"
  defines "key \<equiv> sc_read (sc_nodes m) kp kn"
  shows "case al_get (sc_same m) key (sc_entries m) of
      None \<Rightarrow> sc_get sec m (kp, kn) = Some (ccol_key_not_found, None)
    | Some v \<Rightarrow> \<exists>a e. sc_get sec m (kp, kn) = Some (ccol_success, Some a) \<and> sc_nodes m a = Some e \<and> ln_val e = v
        \<and> a \<in> set (sc_order m) \<and> sc_same m (ln_key e) key"
  using sc_find_accessor_ends [OF inv, of kp kn, folded key_def]
  by (cases "al_get (sc_same m) key (sc_entries m)") (auto simp: sc_get_def)

section \<open>Destroying nodes\<close>

text \<open>What the destruction of nodes needs and keeps, whatever the count and the buckets say.\<close>

definition sc_linked :: "sep_chain_map \<Rightarrow> nat list \<Rightarrow> bool" where
  "sc_linked m xs \<longleftrightarrow> dll (sc_refs m) (sc_all_elems m) xs \<and> dom (sc_nodes m) = set xs
     \<and> (\<forall>a e. sc_nodes m a = Some e \<longrightarrow> buf_ok (ln_key e) (ln_key_buf e) \<and> buf_ok (ln_val e) (ln_val_buf e))
     \<and> distinct (sc_blocks m xs)"

lemma sc_body_linked: "sc_body m xs \<Longrightarrow> sc_linked m xs"
  by (auto simp: sc_body_def sc_linked_def)

text \<open>A map that differs from another in the nodes alone, and has lost the nodes \<open>gone\<close>.\<close>

definition sc_lost :: "nat set \<Rightarrow> sep_chain_map \<Rightarrow> sep_chain_map \<Rightarrow> bool" where
  "sc_lost gone m m' \<longleftrightarrow> (\<exists>root refs. m' = m\<lparr>sc_all_elems := root, sc_refs := refs, sc_nodes := (sc_nodes m) |` (- gone)\<rparr>)"

lemma sc_destroy_llist_node_ends:
  assumes l: "sc_linked m (ys @ a # zs)"
  shows "\<exists>m' h'. sc_destroy_llist_node m a h = Some (m', h') \<and> sc_linked m' (ys @ zs) \<and> sc_lost {a} m m'
     \<and> live h' = live h - set (node_blks (sc_nodes m) a) \<and> next_blk h' = next_blk h"
proof -
  have d: "dll (sc_refs m) (sc_all_elems m) (ys @ a # zs)" and dist: "a \<notin> set ys" "a \<notin> set zs"
    using l by (auto simp: sc_linked_def dll_def)
  have "a \<in> dom (sc_nodes m)" using l by (simp add: sc_linked_def)
  then obtain e where e: "sc_nodes m a = Some e" by blast
  from detach_dll [OF d] obtain root refs where r: "detach_node_from_dllist (sc_all_elems m) (sc_refs m) a = Some (root, refs)"
    "dll refs root (ys @ zs)" by blast
  let ?m' = "m\<lparr>sc_all_elems := root, sc_refs := refs(a := None), sc_nodes := (sc_nodes m)(a := None)\<rparr>"
  have run: "sc_destroy_llist_node m a h = Some (?m', mem_free (sc_free_storage e h) a)"
    using e r(1) by (simp add: sc_destroy_llist_node_def)
  have "live (sc_free_storage e h) = live h - set (opt_list (ln_key_buf e) @ opt_list (ln_val_buf e)) \<and> next_blk (sc_free_storage e h) = next_blk h"
    by (rule sc_free_storage_live) (use l e in \<open>auto simp: sc_linked_def\<close>)
  then have live: "live (mem_free (sc_free_storage e h) a) = live h - set (node_blks (sc_nodes m) a)" "next_blk (mem_free (sc_free_storage e h) a) = next_blk h"
    using e by (auto simp: node_blks_def)
  have nb: "node_blks ((sc_nodes m)(a := None)) x = node_blks (sc_nodes m) x" if "x \<noteq> a" for x using that by (simp add: node_blks_def)
  have eq: "map (node_blks ((sc_nodes m)(a := None))) (ys @ zs) = map (node_blks (sc_nodes m)) (ys @ zs)"
    by (rule map_cong [OF refl], rule nb) (use dist in auto)
  have "sc_blocks ?m' (ys @ zs) = hm_blk m # opt_list (sc_arr m) @ concat (map (node_blks ((sc_nodes m)(a := None))) (ys @ zs))"
    by (simp add: sc_blocks_def)
  then have "sc_blocks ?m' (ys @ zs) = sc_blocks m (ys @ zs)" by (simp only: eq sc_blocks_def)
  moreover have "distinct (sc_blocks m (ys @ zs))" using l by (auto simp: sc_linked_def sc_blocks_def)
  ultimately have "sc_linked ?m' (ys @ zs)" using l r(2) dist unfolding sc_linked_def by (auto intro: dll_forget)
  moreover have "(sc_nodes m)(a := None) = (sc_nodes m) |` (- {a})" by (auto simp: restrict_map_def fun_eq_iff)
  then have "sc_lost {a} m ?m'" unfolding sc_lost_def by auto
  ultimately show ?thesis using run live by blast
qed

lemma sc_lost_trans: "sc_lost g m m1 \<Longrightarrow> sc_lost g' m1 m2 \<Longrightarrow> sc_lost (g \<union> g') m m2"
  unfolding sc_lost_def by (elim exE, hypsubst, intro exI) (simp add: Int_commute)

lemma sc_destroy_whole_ends:
  "sc_linked m xs \<Longrightarrow> distinct chain \<Longrightarrow> set chain \<subseteq> set xs \<Longrightarrow>
     \<exists>m' h'. sc_destroy_the_whole_llist chain m h = Some (m', h') \<and> sc_linked m' (filter (\<lambda>x. x \<notin> set chain) xs)
       \<and> sc_lost (set chain) m m' \<and> live h' = live h - (\<Union>a \<in> set chain. set (node_blks (sc_nodes m) a)) \<and> next_blk h' = next_blk h"
proof (induction chain arbitrary: m xs h)
  case Nil
  have "sc_lost {} m m" unfolding sc_lost_def by (rule exI [of _ "sc_all_elems m"], rule exI [of _ "sc_refs m"])
    (simp add: restrict_map_def)
  then show ?case using Nil by simp
next
  case (Cons a chain)
  obtain ys zs where xs: "xs = ys @ a # zs" using Cons.prems(3) split_list [of a xs] by auto
  from sc_destroy_llist_node_ends [OF Cons.prems(1) [unfolded xs], of h] obtain m1 h1 where
    r: "sc_destroy_llist_node m a h = Some (m1, h1)" "sc_linked m1 (ys @ zs)" "sc_lost {a} m m1"
      "live h1 = live h - set (node_blks (sc_nodes m) a)" "next_blk h1 = next_blk h" by blast
  have "distinct xs" using Cons.prems(1) by (simp add: sc_linked_def dll_def)
  then have a: "a \<notin> set ys" "a \<notin> set zs" using xs by auto
  have "set chain \<subseteq> set (ys @ zs)" using Cons.prems(2,3) xs by auto
  from Cons.IH [OF r(2) _ this, of h1] Cons.prems(2) obtain m2 h2 where
    r2: "sc_destroy_the_whole_llist chain m1 h1 = Some (m2, h2)" "sc_linked m2 (filter (\<lambda>x. x \<notin> set chain) (ys @ zs))"
      "sc_lost (set chain) m1 m2" "live h2 = live h1 - (\<Union>a \<in> set chain. set (node_blks (sc_nodes m1) a))" "next_blk h2 = next_blk h1" by auto
  have fl: "filter (\<lambda>x. x \<notin> set (a # chain)) xs = filter (\<lambda>x. x \<notin> set chain) (ys @ zs)"
  proof -
    have "filter (\<lambda>x. x \<notin> set (a # chain)) l = filter (\<lambda>x. x \<notin> set chain) l" if "a \<notin> set l" for l
      by (rule filter_cong [OF refl]) (use that in auto)
    from this [OF a(1)] this [OF a(2)] show ?thesis unfolding xs filter_append by simp
  qed
  have "node_blks (sc_nodes m1) x = node_blks (sc_nodes m) x" if "x \<in> set chain" for x
  proof -
    have "x \<noteq> a" using that Cons.prems(2) by auto
    then show ?thesis using r(3) by (auto simp: sc_lost_def node_blks_def)
  qed
  then have "live h2 = live h - (\<Union>a \<in> set (a # chain). set (node_blks (sc_nodes m) a))" using r2(4) r(4) by auto
  moreover have "sc_lost (set (a # chain)) m m2" using sc_lost_trans [OF r(3) r2(3)] by simp
  ultimately show ?case using r r2 fl by simp
qed

lemma sc_destroy_chains_concat: "sc_destroy_chains bs m h = sc_destroy_the_whole_llist (concat bs) m h"
proof (induction bs arbitrary: m h)
  case (Cons chain bs)
  have "sc_destroy_the_whole_llist (c @ d) m h = do { (m, h) \<leftarrow> sc_destroy_the_whole_llist c m h; sc_destroy_the_whole_llist d m h }" for c d m h
  proof (induction c arbitrary: m h)
    case (Cons a c)
    then show ?case by (cases "sc_destroy_llist_node m a h") auto
  qed simp
  then show ?case using Cons by (cases "sc_destroy_the_whole_llist chain m h") auto
qed simp

lemma sc_destroy_chains_ends:
  assumes rep: "sc_rep sec m xs"
  shows "\<exists>m' h'. sc_destroy_chains (sc_buckets m) m h = Some (m', h') \<and> sc_linked m' [] \<and> sc_lost (set xs) m m'
     \<and> live h' = live h - set (concat (map (node_blks (sc_nodes m)) xs)) \<and> next_blk h' = next_blk h"
proof -
  have body: "sc_body m xs" and c: "arr_ok (sc_bucket_arr_size m)"
    and f: "filed (sc_bucket_arr_size m) (sc_home sec m (sc_nodes m) (sc_bucket_arr_size m) (sc_keyed m)) (set xs) (sc_buckets m)"
    using rep by (auto simp: sc_rep_def sc_index_def)
  note con = filed_concat [OF f sc_home_less [OF c]]
  have "set (concat (sc_buckets m)) \<subseteq> set xs" using con(1) by simp
  from sc_destroy_whole_ends [OF sc_body_linked [OF body] con(2) this, of h] obtain m' h' where
    r: "sc_destroy_the_whole_llist (concat (sc_buckets m)) m h = Some (m', h')" "sc_linked m' (filter (\<lambda>x. x \<notin> set (concat (sc_buckets m))) xs)"
      "sc_lost (set (concat (sc_buckets m))) m m'" "live h' = live h - (\<Union>a \<in> set (concat (sc_buckets m)). set (node_blks (sc_nodes m) a))"
      "next_blk h' = next_blk h" by blast
  have "filter (\<lambda>x. x \<notin> set (concat (sc_buckets m))) xs = []" unfolding con(1) by simp
  then show ?thesis using r unfolding con(1) sc_destroy_chains_concat by simp
qed

end
