(* ===== verification/CCol_Hashmap_Sc_Life.thy ===== *)
theory CCol_Hashmap_Sc_Life
  imports CCol_Hashmap_Sc_Map
begin

text \<open>
  The separate-chaining backend continued: deletion with its shrink, creation, reset
  and destruction.
\<close>

section \<open>Deletion\<close>

lemma sc_lost_fields:
  assumes "sc_lost g m m'"
  shows "sc_same_kind m m'" "sc_buckets m' = sc_buckets m" "sc_arr m' = sc_arr m" "sc_bucket_arr_size m' = sc_bucket_arr_size m"
    "sc_elem_count m' = sc_elem_count m" "sc_nodes m' = sc_nodes m |` (- g)" "hash_mode m' = hash_mode m"
    "sc_elem_count_to_scale_up m' = sc_elem_count_to_scale_up m" "sc_elem_count_to_scale_down m' = sc_elem_count_to_scale_down m"
  using assms by (auto simp: sc_lost_def sc_same_kind_def)

lemma sc_unlinked_rep:
  assumes rep: "sc_rep sec m (ys @ a # zs)" and l: "sc_lost {a} m m1" "sc_linked m1 (ys @ zs)"
    and i: "i = sc_home sec m (sc_nodes m) (sc_bucket_arr_size m) (sc_keyed m) a"
    and chain: "distinct chain" "set chain = set (sc_buckets m ! i) - {a}"
  defines "m2 \<equiv> m1\<lparr>sc_buckets := (sc_buckets m1)[i := chain], sc_elem_count := sz_sub (sc_elem_count m1) 1\<rparr>"
  shows "sc_rep sec m2 (ys @ zs)" "map (sc_entry (sc_nodes m2)) (ys @ zs) = map (sc_entry (sc_nodes m)) (ys @ zs)"
    "sc_same_kind m m2" "sc_blocks m2 (ys @ zs) = sc_blocks m (ys @ zs)"
proof -
  let ?c = "sc_bucket_arr_size m"
  have body: "sc_body m (ys @ a # zs)" and ix: "sc_index sec m (ys @ a # zs)" using rep by (auto simp: sc_rep_def)
  note f = sc_lost_fields [OF l(1)]
  have a: "a \<notin> set ys" "a \<notin> set zs" using body by (auto simp: sc_body_def dll_def)
  have nodes: "sc_nodes m2 = sc_nodes m |` (- {a})" by (simp add: m2_def f)
  have other: "sc_nodes m2 x = sc_nodes m x" if "x \<in> set (ys @ zs)" for x using that a by (auto simp: nodes restrict_map_def)
  show kind: "sc_same_kind m m2" using f(1) by (simp add: m2_def sc_same_kind_def)
  have keyed: "sc_keyed m2 = sc_keyed m" using f(7) by (simp add: m2_def sc_keyed_def)
  show "map (sc_entry (sc_nodes m2)) (ys @ zs) = map (sc_entry (sc_nodes m)) (ys @ zs)"
    by (rule map_cong [OF refl]) (simp only: sc_entry_def other)
  have "map (node_blks (sc_nodes m2)) (ys @ zs) = map (node_blks (sc_nodes m)) (ys @ zs)"
    by (rule map_cong [OF refl]) (simp only: node_blks_def other)
  moreover have "hm_blk m2 = hm_blk m" "sc_arr m2 = sc_arr m" using f by (simp_all add: m2_def sc_same_kind_def)
  ultimately show bl: "sc_blocks m2 (ys @ zs) = sc_blocks m (ys @ zs)" by (simp only: sc_blocks_def)
  have key: "node_key (sc_nodes m2) x = node_key (sc_nodes m) x" if "x \<in> set (ys @ zs)" for x using other [OF that] by (simp only: node_key_def)
  have same: "sc_same m2 = sc_same m" using kind by (simp add: sc_same_def sc_same_kind_def)
  have uniq: "x = y" if "x \<in> set (ys @ zs)" "y \<in> set (ys @ zs)" "sc_same m2 (node_key (sc_nodes m2) x) (node_key (sc_nodes m2) y)" for x y
  proof -
    have "sc_same m (node_key (sc_nodes m) x) (node_key (sc_nodes m) y)" using that(3) key [OF that(1)] key [OF that(2)] same by simp
    then show ?thesis using body that(1,2) unfolding sc_body_def by auto
  qed
  have "sc_elem_count m = length (ys @ zs) + 1" "length (ys @ a # zs) \<le> ccol_max_elem_count" using body by (simp_all add: sc_body_def)
  then have count: "sc_elem_count m2 = length (ys @ zs)" "length (ys @ zs) \<le> ccol_max_elem_count"
    using sz_sub_exact [of 1 "sc_elem_count m"] by (auto simp: m2_def f size_defs)
  have f2: "sc_refs m2 = sc_refs m1" "sc_all_elems m2 = sc_all_elems m1" "sc_nodes m2 = sc_nodes m1" "sc_blocks m2 = sc_blocks m1"
    by (simp_all add: m2_def sc_blocks_def fun_eq_iff)
  have lk: "sc_linked m2 (ys @ zs)" using l(2) unfolding sc_linked_def f2 .
  have "key_procs_ok (sc_key_type m2) (sc_custom m2) (sc_custom_eq m2)" using body kind by (simp add: sc_body_def sc_same_kind_def)
  then have b: "sc_body m2 (ys @ zs)" using lk count uniq unfolding sc_body_def sc_linked_def by blast
  have fl: "filed ?c (sc_home sec m (sc_nodes m) ?c (sc_keyed m)) (set (ys @ a # zs)) (sc_buckets m)" and c: "arr_ok ?c" using ix by (auto simp: sc_index_def)
  from filed_unlink [OF fl sc_home_less [OF c] chain(1), of a] have
    "filed ?c (sc_home sec m (sc_nodes m) ?c (sc_keyed m)) (set (ys @ a # zs) - {a}) ((sc_buckets m)[i := chain])" using chain(2) i by simp
  moreover have "set (ys @ a # zs) - {a} = set (ys @ zs)" using a by auto
  ultimately have "filed ?c (sc_home sec m (sc_nodes m) ?c (sc_keyed m)) (set (ys @ zs)) ((sc_buckets m)[i := chain])" by simp
  then have "filed ?c (sc_home sec m (sc_nodes m2) ?c (sc_keyed m)) (set (ys @ zs)) ((sc_buckets m)[i := chain])"
    by (rule filed_cong) (simp only: sc_home_def other)
  then have "filed (sc_bucket_arr_size m2) (sc_home sec m2 (sc_nodes m2) (sc_bucket_arr_size m2) (sc_keyed m2)) (set (ys @ zs)) (sc_buckets m2)"
    unfolding kind_home [OF kind] keyed by (simp add: m2_def f)
  moreover have "ln_hash_val e = sc_hash_of_node sec m2 e (sc_keyed m2)" if "sc_nodes m2 x = Some e" for x e
    using ix that unfolding kind_hash [OF kind] keyed sc_index_def by (auto simp: nodes restrict_map_def split: if_splits)
  ultimately have "sc_index sec m2 (ys @ zs)" using ix kind unfolding sc_index_def by (simp add: m2_def f sc_same_kind_def)
  then show "sc_rep sec m2 (ys @ zs)" using b by (simp add: sc_rep_def)
qed

lemma al_del_absent: "\<forall>x \<in> set l. \<not> same (fst (f x)) k \<Longrightarrow> al_del same k (map f l) = map f l"
  by (induction l) (auto simp: al_del_def split: prod.splits)

lemma al_del_split:
  assumes u: "\<And>x. x \<in> set (ys @ a # zs) \<Longrightarrow> same (fst (f x)) k \<longleftrightarrow> x = a" and a: "a \<notin> set ys" "a \<notin> set zs"
  shows "al_del same k (map f (ys @ a # zs)) = map f (ys @ zs)"
proof -
  have "\<not> same (fst (f x)) k" if "x \<in> set ys \<union> set zs" for x using u [of x] a that by auto
  then have "al_del same k (map f ys) = map f ys" "al_del same k (map f zs) = map f zs" by (auto intro: al_del_absent)
  moreover have "al_del same k (map f (ys @ a # zs)) = al_del same k (map f ys) @ al_del same k (map f zs)"
    using u [of a] by (cases "f a") (simp add: al_del_def)
  ultimately show ?thesis by simp
qed

lemma freed_moved:
  assumes "live h' = live h - gone" "next_blk h' = next_blk h" "own \<subseteq> live h" "gone \<subseteq> own"
  shows "blocks_moved own (own - gone) h h'"
  using assms by (auto simp: blocks_moved_def)

lemma sc_delete_ends:
  fixes kp :: chm_ptr and kn :: size_t
  assumes inv: "sc_inv sec m" and h: "heap_ok h" "sc_owned m \<subseteq> live h"
  defines "key \<equiv> sc_read (sc_nodes m) kp kn"
  shows "\<exists>rv m' h'. sc_delete sec m (kp, kn) h = Some (rv, m', h') \<and> sc_inv sec m' \<and> sc_same_kind m m'
     \<and> blocks_moved (sc_owned m) (sc_owned m') h h'
     \<and> (if al_get (sc_same m) key (sc_entries m) = None then rv = ccol_key_not_found \<and> m' = m
        else rv = ccol_success \<and> sc_entries m' = al_del (sc_same m) key (sc_entries m))"
proof -
  define xs where "xs = sc_order m"
  have rep: "sc_rep sec m xs" using inv by (simp add: sc_inv_def xs_def)
  note en = sc_entries_rep [OF rep]
  define hv where "hv = sc_hash sec m key"
  define i where "i = hash_index_for hv (sc_bucket_arr_size m)"
  let ?chain = "sc_buckets m ! i"
  note ch = sc_chain_nodes [OF rep, of key, folded hv_def, folded i_def]
  let ?matches = "\<lambda>e. ln_hash_val e = hv \<and> (case sc_custom_eq m of Some eq \<Rightarrow> eq (ln_key e) key | None \<Rightarrow> sc_compare_keys e key (sc_key_type m))"
  have "?matches e = node_matches m hv key a" if "sc_nodes m a = Some e" for a e
    using that by (cases "sc_custom_eq m") (simp_all add: node_matches_def node_key_def sc_same_def sc_compare_keys_same same_key_def)
  note un = sc_unlink_eq [of "sc_nodes m" ?matches "node_matches m hv key", OF this ch(2)]
  note unf = sc_delete_def [of sec m "(kp, kn)" h, unfolded fst_conv snd_conv, folded key_def,
    unfolded Let_def [of key] Let_def [of "sc_hash _ _ _"] Let_def [of "hash_index_for _ _"], folded hv_def, folded i_def]
  note fnd = sc_find_ends [OF rep, of key, folded hv_def, folded i_def]
  show ?thesis
  proof (cases "find (node_matches m hv key) ?chain")
    case None
    then have "al_get (sc_same m) key (sc_entries m) = None" using fnd al_get_entries(1) [OF rep, of key] en by auto
    moreover have "sc_delete_from_llist m ?chain hv key h = Some (False, ?chain, m, h)"
      using None un by (simp add: sc_delete_from_llist_def)
    then have "sc_delete sec m (kp, kn) h = Some (ccol_key_not_found, m, h)" unfolding unf by simp
    ultimately show ?thesis using inv blocks_kept_moved [OF blocks_kept_refl h(2)] by simp
  next
    case (Some a)
    then have a: "a \<in> set xs" "sc_same m (node_key (sc_nodes m) a) key" "a \<in> set ?chain" using fnd by auto
    have present: "al_get (sc_same m) key (sc_entries m) \<noteq> None" using al_get_entries(2) [OF rep a(1,2)] en by simp
    obtain ys zs where xs: "xs = ys @ a # zs" using a(1) split_list by metis
    note rep' = rep [unfolded xs]
    have body: "sc_body m (ys @ a # zs)" using rep' by (simp add: sc_rep_def)
    then have dist: "a \<notin> set ys" "a \<notin> set zs" by (auto simp: sc_body_def dll_def)
    from sc_destroy_llist_node_ends [OF sc_body_linked [OF body], of h] obtain m1 h1 where
      d: "sc_destroy_llist_node m a h = Some (m1, h1)" "sc_linked m1 (ys @ zs)" "sc_lost {a} m m1"
        "live h1 = live h - set (node_blks (sc_nodes m) a)" "next_blk h1 = next_blk h" by blast
    let ?chain' = "remove1 a ?chain"
    have home: "i = sc_home sec m (sc_nodes m) (sc_bucket_arr_size m) (sc_keyed m) a"
      using a(3) ch(4) rep unfolding sc_rep_def sc_index_def filed_def by auto
    have c': "distinct ?chain'" "set ?chain' = set ?chain - {a}" using ch(3) by auto
    let ?m2 = "m1\<lparr>sc_buckets := (sc_buckets m1)[i := ?chain'], sc_elem_count := sz_sub (sc_elem_count m1) 1\<rparr>"
    note u = sc_unlinked_rep [OF rep' d(3,2) home c']
    have "sc_delete_from_llist m ?chain hv key h = Some (True, ?chain', m1, h1)"
      using Some un d(1) by (simp add: sc_delete_from_llist_def)
    then have run: "sc_delete sec m (kp, kn) h = do {
        (m, h) \<leftarrow> (if sc_elem_count ?m2 < sc_elem_count_to_scale_down ?m2 \<and> sc_bucket_arr_size ?m2 > minimum_allowed_bucket_array_size
           then sc_scale sec ?m2 False h1 else Some (?m2, h1));
        Some (ccol_success, m, h) }"
      unfolding unf by (simp add: Let_def)
    have own: "sc_owned m = set (sc_blocks m xs)" using en by simp
    have split: "sc_blocks m (ys @ a # zs) = (hm_blk m # opt_list (sc_arr m) @ concat (map (node_blks (sc_nodes m)) ys)) @ node_blks (sc_nodes m) a @ concat (map (node_blks (sc_nodes m)) zs)"
      "sc_blocks m (ys @ zs) = (hm_blk m # opt_list (sc_arr m) @ concat (map (node_blks (sc_nodes m)) ys)) @ concat (map (node_blks (sc_nodes m)) zs)"
      by (simp_all add: sc_blocks_def)
    have "distinct (sc_blocks m (ys @ a # zs))" using body by (simp add: sc_body_def)
    then have "set (sc_blocks m (ys @ zs)) = sc_owned m - set (node_blks (sc_nodes m) a)" "set (node_blks (sc_nodes m) a) \<subseteq> sc_owned m"
      unfolding own xs split by auto
    then have bm: "blocks_moved (sc_owned m) (set (sc_blocks ?m2 (ys @ zs))) h h1"
      using freed_moved [OF d(4,5) h(2)] u(4) by simp
    have h1: "heap_ok h1" "set (sc_blocks ?m2 (ys @ zs)) \<subseteq> live h1" using bm blocks_moved_heap_ok [OF bm h(1)] by (auto simp: blocks_moved_def)
    have "\<exists>m3 h3. (if sc_elem_count ?m2 < sc_elem_count_to_scale_down ?m2 \<and> sc_bucket_arr_size ?m2 > minimum_allowed_bucket_array_size
           then sc_scale sec ?m2 False h1 else Some (?m2, h1)) = Some (m3, h3) \<and> settled sec ?m2 h1 (ys @ zs) m3 h3"
    proof (cases "sc_elem_count ?m2 < sc_elem_count_to_scale_down ?m2 \<and> sc_bucket_arr_size ?m2 > minimum_allowed_bucket_array_size")
      case True
      then have "sc_bucket_arr_size ?m2 > 16" by (simp add: minimum_allowed_bucket_array_size_def)
      then show ?thesis unfolding if_P [OF True] using sc_scale_ends [OF u(1) h1, of False] by (auto simp: settled_def)
    next
      case False
      show ?thesis unfolding if_not_P [OF False] using settled_same [OF u(1) refiled_refl refl h1(2)] by blast
    qed
    then obtain m3 h3 where s: "(if sc_elem_count ?m2 < sc_elem_count_to_scale_down ?m2 \<and> sc_bucket_arr_size ?m2 > minimum_allowed_bucket_array_size
           then sc_scale sec ?m2 False h1 else Some (?m2, h1)) = Some (m3, h3)" "settled sec ?m2 h1 (ys @ zs) m3 h3" by blast
    have rep3: "sc_rep sec m3 (ys @ zs)" and re: "refiled ?m2 m3" using s(2) by (auto simp: settled_def)
    note en3 = sc_entries_rep [OF rep3]
    have b23: "sc_body ?m2 (ys @ zs)" "sc_body m3 (ys @ zs)" using u(1) rep3 by (auto simp: sc_rep_def)
    have "sc_entries m3 = map (sc_entry (sc_nodes m)) (ys @ zs)"
      using en3 refiled_entries [OF re b23] u(2) by simp
    also have "\<dots> = al_del (sc_same m) key (map (sc_entry (sc_nodes m)) (ys @ a # zs))"
    proof (rule al_del_split [symmetric, OF _ dist])
      fix x assume "x \<in> set (ys @ a # zs)"
      then show "sc_same m (fst (sc_entry (sc_nodes m) x)) key \<longleftrightarrow> x = a"
        using sc_same_unique [OF rep a(1,2), of x] xs by (simp only: sc_entry_def fst_conv node_key_def)
    qed
    finally have ent: "sc_entries m3 = al_del (sc_same m) key (sc_entries m)" using en xs by simp
    have "sc_same_kind m m3" using sc_same_kind_trans [OF u(3)] re by (simp add: refiled_def)
    moreover have "blocks_moved (sc_owned m) (sc_owned m3) h h3" using blocks_moved_trans [OF bm] s(2) en3 by (simp add: settled_def)
    moreover have "sc_delete sec m (kp, kn) h = Some (ccol_success, m3, h3)" unfolding run s(1) by simp
    ultimately show ?thesis using present ent sc_rep_inv [OF rep3] by auto
  qed
qed

section \<open>Destruction, reset and creation\<close>

lemma sc_chains_gone:
  assumes inv: "sc_inv sec m"
  shows "\<exists>m1 h1. sc_destroy_chains (sc_buckets m) m h = Some (m1, h1) \<and> sc_linked m1 [] \<and> sc_lost (set (sc_order m)) m m1
     \<and> live h1 = live h - (sc_owned m - set (hm_blk m # opt_list (sc_arr m))) \<and> next_blk h1 = next_blk h"
proof -
  have rep: "sc_rep sec m (sc_order m)" using inv by (simp add: sc_inv_def)
  have "distinct (sc_blocks m (sc_order m))" using rep by (simp add: sc_rep_def sc_body_def)
  then have "sc_owned m - set (hm_blk m # opt_list (sc_arr m)) = set (concat (map (node_blks (sc_nodes m)) (sc_order m)))"
    by (auto simp: sc_owned_def sc_blocks_def)
  then show ?thesis using sc_destroy_chains_ends [OF rep, of h] by simp
qed

lemma sc_destroy_ends:
  assumes inv: "sc_inv sec m"
  shows "\<exists>h'. sc_destroy m h = Some h' \<and> live h' = live h - (sc_owned m - {hm_blk m}) \<and> next_blk h' = next_blk h"
proof -
  have rep: "sc_rep sec m (sc_order m)" using inv by (simp add: sc_inv_def)
  from sc_chains_gone [OF inv, of h] obtain m1 h1 where
    r: "sc_destroy_chains (sc_buckets m) m h = Some (m1, h1)" "sc_lost (set (sc_order m)) m m1"
      "live h1 = live h - (sc_owned m - set (hm_blk m # opt_list (sc_arr m)))" "next_blk h1 = next_blk h" by blast
  have "hm_blk m \<notin> set (opt_list (sc_arr m))" "set (opt_list (sc_arr m)) \<subseteq> sc_owned m"
    using rep by (auto simp: sc_rep_def sc_body_def sc_blocks_def sc_owned_def)
  then show ?thesis using r sc_lost_fields(3) [OF r(2)]
    by (cases "sc_arr m") (auto simp: sc_destroy_def sc_free_arr_def)
qed

lemma sc_cleared_rep:
  assumes m: "sc_linked m []" "key_procs_ok (sc_key_type m) (sc_custom m) (sc_custom_eq m)" "sc_inline_buckets m \<le> 16"
    and c: "arr_ok c" and arr: "arr = None \<longleftrightarrow> c = sc_inline_buckets m" and d: "distinct (hm_blk m # opt_list arr)"
  defines "m' \<equiv> sc_cleared (m\<lparr>sc_arr := arr, sc_bucket_arr_size := c\<rparr>)"
  shows "sc_rep sec m' []" "sc_same_kind m m'" "sc_blocks m' [] = hm_blk m # opt_list arr"
proof -
  let ?m0 = "m\<lparr>sc_elem_count := 0\<rparr>"
  have eq: "m' = sc_resized ?m0 (replicate c []) arr c" by (cases m) (simp add: m'_def sc_cleared_def sc_resized_def)
  have nodes: "sc_nodes m = Map.empty" using m(1) by (simp add: sc_linked_def)
  have ix: "sc_index sec m' []"
    unfolding eq by (rule sc_resized_index [OF c]) (use arr m nodes filed_empty in \<open>auto simp: hash_kept_def\<close>)
  have k: "refiled ?m0 m'" unfolding eq by (rule sc_resized_fields(1))
  then show kind: "sc_same_kind m m'" by (simp add: refiled_def sc_same_kind_def)
  show bl: "sc_blocks m' [] = hm_blk m # opt_list arr" unfolding eq by (simp add: sc_blocks_def sc_resized_fields)
  have n': "sc_nodes m' = Map.empty" unfolding eq by (simp add: sc_resized_fields nodes)
  have "dll (sc_refs m') (sc_all_elems m') []" "sc_elem_count m' = 0" using k m(1) by (auto simp: refiled_def sc_linked_def)
  then have "sc_body m' []" using m(2) kind n' bl d by (simp add: sc_body_def sc_same_kind_def)
  then show "sc_rep sec m' []" using ix by (simp add: sc_rep_def)
qed

lemma sc_reset_ends:
  assumes inv: "sc_inv sec m" and h: "heap_ok h" "sc_owned m \<subseteq> live h" and c: "c = 0 \<or> pow2 c \<and> 16 \<le> c"
  shows "\<exists>rv m' h'. sc_reset m c h = Some (rv, m', h') \<and> sc_inv sec m' \<and> sc_same_kind m m' \<and> sc_entries m' = []
     \<and> blocks_moved (sc_owned m) (sc_owned m') h h' \<and> (rv = ccol_success \<or> rv = ccol_not_enough_memory)"
proof -
  let ?size = "sc_bucket_arr_size m"
  have rep: "sc_rep sec m (sc_order m)" using inv by (simp add: sc_inv_def)
  have ok: "key_procs_ok (sc_key_type m) (sc_custom m) (sc_custom_eq m)" and d0: "distinct (hm_blk m # opt_list (sc_arr m))"
    and size: "arr_ok ?size" "sc_arr m = None \<longleftrightarrow> ?size = sc_inline_buckets m" "sc_inline_buckets m \<le> 16"
    and own: "set (hm_blk m # opt_list (sc_arr m)) \<subseteq> sc_owned m"
    using rep by (auto simp: sc_rep_def sc_body_def sc_index_def sc_blocks_def sc_owned_def)
  from sc_chains_gone [OF inv, of h] obtain m1 h1 where
    r: "sc_destroy_chains (sc_buckets m) m h = Some (m1, h1)" "sc_linked m1 []" "sc_lost (set (sc_order m)) m m1"
      "live h1 = live h - (sc_owned m - set (hm_blk m # opt_list (sc_arr m)))" "next_blk h1 = next_blk h" by blast
  note f = sc_lost_fields [OF r(3)]
  have kind1: "sc_inline_buckets m1 = sc_inline_buckets m" "hm_blk m1 = hm_blk m"
    "key_procs_ok (sc_key_type m1) (sc_custom m1) (sc_custom_eq m1)" using f(1) ok by (auto simp: sc_same_kind_def)
  have inl1: "sc_inline_buckets m1 \<le> 16" using size(3) kind1(1) by simp
  let ?own1 = "set (hm_blk m # opt_list (sc_arr m))"
  have bm1: "blocks_moved (sc_owned m) ?own1 h h1"
  proof -
    have "sc_owned m - (sc_owned m - ?own1) = ?own1" using own by blast
    then show ?thesis using freed_moved [OF r(4,5) h(2)] by (metis Diff_subset)
  qed
  have h1: "heap_ok h1" "?own1 \<subseteq> live h1" using bm1 blocks_moved_heap_ok [OF bm1 h(1)] by (auto simp: blocks_moved_def)
  have main: "sc_inv sec m' \<and> sc_same_kind m m' \<and> sc_entries m' = [] \<and> blocks_moved (sc_owned m) (sc_owned m') h hb"
    if m': "m' = sc_cleared (m1\<lparr>sc_arr := arr, sc_bucket_arr_size := n\<rparr>)" and n: "arr_ok n" "arr = None \<longleftrightarrow> n = sc_inline_buckets m"
      and d: "distinct (hm_blk m # opt_list arr)" and b: "blocks_moved ?own1 (set (hm_blk m # opt_list arr)) h1 hb" for m' arr n hb
  proof -
    note cl = sc_cleared_rep [OF r(2) kind1(3) inl1 n(1), where arr = arr]
    have cl: "sc_rep sec m' []" "sc_same_kind m1 m'" "sc_blocks m' [] = hm_blk m # opt_list arr"
      unfolding m' using cl n(2) d kind1(1,2) by simp_all
    have "sc_owned m' = set (hm_blk m # opt_list arr)" "sc_entries m' = []" using sc_entries_rep [OF cl(1)] cl(3) by simp_all
    then show ?thesis using sc_rep_inv [OF cl(1)] sc_same_kind_trans [OF f(1) cl(2)] blocks_moved_trans [OF bm1 b] by simp
  qed
  have "m1\<lparr>sc_arr := sc_arr m, sc_bucket_arr_size := ?size\<rparr> = m1" using f(3,4) by simp
  then have keep: "sc_inv sec (sc_cleared m1) \<and> sc_same_kind m (sc_cleared m1) \<and> sc_entries (sc_cleared m1) = []
      \<and> blocks_moved (sc_owned m) (sc_owned (sc_cleared m1)) h h2" if "blocks_kept h1 h2" for h2
    using main [where m' = "sc_cleared m1" and arr = "sc_arr m" and n = ?size and hb = h2] size d0 blocks_kept_moved [OF that h1(2)] by simp
  let ?r = "(if c = sc_inline_buckets m1 then (Some None, sc_free_arr m1 h1)
     else case sc_arr m1 of
         None \<Rightarrow> (case mem_alloc h1 (c * 8) of (None, h) \<Rightarrow> (None, h) | (Some (b, _), h) \<Rightarrow> (Some (Some b), h))
       | Some b \<Rightarrow> (case mem_realloc h1 (replicate (sc_bucket_arr_size m1 * 8) 0) (c * 8) of
           (None, h) \<Rightarrow> (None, h) | (Some _, h) \<Rightarrow> (Some (Some b), h)))"
  note unf = sc_reset_def [of m c h, unfolded r(1) bind.simps prod.case]
  show ?thesis
  proof (cases "c > 0 \<and> c \<noteq> ?size")
    case False
    then show ?thesis using keep [of h1] unfolding unf f(4) if_not_P [OF False] by auto
  next
    case True
    then have c16: "pow2 c" "16 \<le> c" using c by auto
    show ?thesis
    proof (cases "c > SIZE_MAX div 8")
      case big: True
      then show ?thesis using keep [of h1] unfolding unf f(4) if_P [OF True] if_P [OF big] by auto
    next
      case False
      then have cok: "arr_ok c" using c16 by (simp add: arr_ok_def)
      have run: "sc_reset m c h = Some (case ?r of (rr, h) \<Rightarrow> (case rr of
           None \<Rightarrow> (ccol_not_enough_memory, sc_cleared m1, h)
         | Some arr \<Rightarrow> (ccol_success, sc_cleared (m1\<lparr>sc_arr := arr, sc_bucket_arr_size := c\<rparr>), h)))"
        unfolding unf f(4) if_P [OF True] if_not_P [OF False] Let_def [of ?r] using f(4) by simp
      have "(\<exists>h2. ?r = (None, h2) \<and> blocks_kept h1 h2) \<or> (\<exists>arr h2. ?r = (Some arr, h2) \<and> (arr = None \<longleftrightarrow> c = sc_inline_buckets m)
          \<and> distinct (hm_blk m # opt_list arr) \<and> blocks_moved ?own1 (set (hm_blk m # opt_list arr)) h1 h2)"
      proof (cases "c = sc_inline_buckets m")
        case inl: True
        then obtain b where b: "sc_arr m = Some b" using size(2) True by (cases "sc_arr m") auto
        have "?r = (Some None, mem_free h1 b)" using inl kind1(1) b f(3) by (simp add: sc_free_arr_def)
        moreover have "blocks_moved ?own1 {hm_blk m} h1 (mem_free h1 b)" using b d0 h1(2) by (auto simp: blocks_moved_def)
        ultimately show ?thesis using inl by simp
      next
        case ninl: False
        show ?thesis
        proof (cases "sc_arr m")
          case None
          obtain q h2 where al: "mem_alloc h1 (c * 8) = (q, h2)" by (cases "mem_alloc h1 (c * 8)")
          show ?thesis
          proof (cases q)
            case none: None
            then show ?thesis using ninl kind1(1) None f(3) al mem_alloc_None [of h1 "c * 8" h2] by (simp add: blocks_kept_def)
          next
            case (Some z)
            then obtain b bs where b: "mem_alloc h1 (c * 8) = (Some (b, bs), h2)" using al by (cases z) auto
            note ms = mem_alloc_Some [OF b]
            have fresh: "b \<notin> live h1" using ms heap_ok_fresh [OF h1(1)] by simp
            have "?r = (Some (Some b), h2)" using ninl kind1(1) None f(3) b by simp
            moreover have "blocks_moved ?own1 (set (hm_blk m # opt_list (Some b))) h1 h2"
              using ms fresh h1(2) None by (auto simp: blocks_moved_def)
            moreover have "distinct (hm_blk m # opt_list (Some b))" using fresh h1(2) by auto
            ultimately show ?thesis using ninl by simp
          qed
        next
          case (Some b)
          obtain q h2 where al: "mem_realloc h1 (replicate (sc_bucket_arr_size m1 * 8) 0) (c * 8) = (q, h2)"
            by (cases "mem_realloc h1 (replicate (sc_bucket_arr_size m1 * 8) 0) (c * 8)")
          have kept: "blocks_kept h1 h2" by (rule mem_realloc_kept [OF al])
          have "?r = (case q of None \<Rightarrow> None | Some _ \<Rightarrow> Some (Some b), h2)"
            using ninl kind1(1) Some f(3) al by (simp split: option.splits)
          then show ?thesis using kept d0 Some ninl blocks_kept_moved [OF kept h1(2)] by (cases q) simp_all
        qed
      qed
      then show ?thesis
      proof (elim disjE exE conjE)
        fix h2 assume "?r = (None, h2)" "blocks_kept h1 h2"
        then show ?thesis using keep [of h2] unfolding run by simp
      next
        fix arr h2 assume a: "?r = (Some arr, h2)" "arr = None \<longleftrightarrow> c = sc_inline_buckets m"
          "distinct (hm_blk m # opt_list arr)" "blocks_moved ?own1 (set (hm_blk m # opt_list arr)) h1 h2"
        then show ?thesis using main [OF refl cok a(2,3,4)] unfolding run by simp
      qed
    qed
  qed
qed

end
