(* ===== verification/CCol_Hashmap.thy ===== *)
theory CCol_Hashmap
  imports CCol_Hashmap_Oa_Spec CCol_Hashmap_Sc_Life
begin

text \<open>
  The unified interface of \<^verbatim>\<open>src/chashmap.c\<close>: creation picks a backend from the
  types, every operation checks its arguments, brings a floating-point key to its
  canonical form and dispatches.  A null map or a null pair is \<^term>\<open>None\<close> as an
  argument; a null pointer inside a pair is \<^term>\<open>NullPtr\<close>.  \<^term>\<open>None\<close> as a
  result is a failed assertion, an undefined access or a loop that does not end.
\<close>

section \<open>Structures and creation\<close>

datatype chashmap = IMPL_OPEN_ADDRESSING open_addr_map | IMPL_SEPARATE_CHAINING sep_chain_map

type_synonym cmap_pair = "chm_ptr \<times> size_t"

datatype chm_err = initial_bucket_array_size_is_zero | custom_key_equality_proc_needs_a_custom_hashing_proc
  | chm_null_memory_mgmt_proc | initial_bucket_array_size_is_too_big | failed_to_allocate_chashmap
  | failed_to_create_open_addressing_map | failed_to_create_separate_chaining_map

definition compact_bucket_array_size :: size_t where
  [size_defs]: "compact_bucket_array_size = 4"

definition sizeof_chashmap :: size_t where
  [size_defs]: "sizeof_chashmap = 104"

definition chmap_create_impl ::
  "size_t \<Rightarrow> ccol_data_type \<Rightarrow> ccol_data_type \<Rightarrow> mprocs \<Rightarrow> hashing_proc option \<Rightarrow> key_equality_proc option \<Rightarrow> size_t \<Rightarrow>
   heap \<Rightarrow> (chm_err + chashmap) \<times> heap" where
  "chmap_create_impl initial_bucket_array_size key_type val_type mp custom custom_eq sc_min_buckets h =
     (if initial_bucket_array_size = 0 then (Inl initial_bucket_array_size_is_zero, h)
      else if custom_eq \<noteq> None \<and> custom = None then (Inl custom_key_equality_proc_needs_a_custom_hashing_proc, h)
      else if \<not> ccol_verify_memmgmt_procs mp then (Inl chm_null_memory_mgmt_proc, h)
      else
        let open_addressing = (custom_eq = None \<and> should_use_open_addressing key_type val_type);
            floor = (if open_addressing then minimum_allowed_bucket_array_size else sc_min_buckets);
            size = (if initial_bucket_array_size \<le> floor then floor
                    else ccol_find_nearest_gte_power_of_two initial_bucket_array_size)
        in if initial_bucket_array_size > floor \<and> size > ccol_max_elem_count
           then (Inl initial_bucket_array_size_is_too_big, h)
           else
             let inline_buckets = (if \<not> open_addressing \<and> size \<le> minimum_allowed_bucket_array_size then size else 0);
                 copy_procs = (case mp of CallerProcs _ \<Rightarrow> True | _ \<Rightarrow> False);
                 block_bytes = sizeof_chashmap + inline_buckets * 8 + (if copy_procs then 32 else 0)
             in case mem_alloc h block_bytes of
                  (None, h) \<Rightarrow> (Inl failed_to_allocate_chashmap, h)
                | (Some (b, _), h) \<Rightarrow>
                    (let hdr = \<lparr>hm_blk = b, hash_mode = CHMAP_HASH_FAST, window_bound = 65535, insert_window = CHMAP_WINDOW_START\<rparr>
                     in if open_addressing then
                          (case oa_init hdr size key_type val_type (get_type_size key_type) (get_type_size val_type) mp custom h of
                             (None, h) \<Rightarrow> (Inl failed_to_create_open_addressing_map, mem_free h b)
                           | (Some m, h) \<Rightarrow> (Inr (IMPL_OPEN_ADDRESSING (oa_window_restart m)), h))
                        else
                          (case sc_init hdr inline_buckets size key_type val_type mp custom custom_eq h of
                             (None, h) \<Rightarrow> (Inl failed_to_create_separate_chaining_map, mem_free h b)
                           | (Some m, h) \<Rightarrow> (Inr (IMPL_SEPARATE_CHAINING m), h))))"

definition chashmap_create_full ::
  "size_t \<Rightarrow> ccol_data_type \<Rightarrow> ccol_data_type \<Rightarrow> mprocs \<Rightarrow> hashing_proc option \<Rightarrow> key_equality_proc option \<Rightarrow>
   heap \<Rightarrow> (chm_err + chashmap) \<times> heap" where
  "chashmap_create_full initial_bucket_array_size key_type val_type mp custom custom_eq h =
     chmap_create_impl initial_bucket_array_size key_type val_type mp custom custom_eq minimum_allowed_bucket_array_size h"

definition ccol_chmap_create_compact ::
  "ccol_data_type \<Rightarrow> ccol_data_type \<Rightarrow> mprocs \<Rightarrow> heap \<Rightarrow> (chm_err + chashmap) \<times> heap" where
  "ccol_chmap_create_compact key_type val_type mp h =
     chmap_create_impl compact_bucket_array_size key_type val_type mp None None compact_bucket_array_size h"

section \<open>Keys\<close>

fun chmap_key_type :: "chashmap \<Rightarrow> ccol_data_type" where
  "chmap_key_type (IMPL_OPEN_ADDRESSING m) = oa_key_type m"
| "chmap_key_type (IMPL_SEPARATE_CHAINING m) = sc_key_type m"

fun chmap_val_type :: "chashmap \<Rightarrow> ccol_data_type" where
  "chmap_val_type (IMPL_OPEN_ADDRESSING m) = oa_val_type m"
| "chmap_val_type (IMPL_SEPARATE_CHAINING m) = sc_val_type m"

fun chm_read :: "chashmap \<Rightarrow> chm_ptr \<Rightarrow> size_t \<Rightarrow> byte list" where
  "chm_read (IMPL_OPEN_ADDRESSING m) p n = oa_read (oa_slots m) p n"
| "chm_read (IMPL_SEPARATE_CHAINING m) p n = sc_read (sc_nodes m) p n"

text \<open>The canonical form of the bytes of a floating-point key: a negative zero becomes zero.\<close>

definition canonical_bytes :: "ccol_data_type \<Rightarrow> byte list \<Rightarrow> byte list" where
  "canonical_bytes key_type bytes =
     (let canon_buf = bytes @ replicate (8 - length bytes) 0
      in if key_type = ccol_float then
           if le_word (take 4 canon_buf) = 0x80000000 then replicate 4 0 @ drop 4 canon_buf else canon_buf
         else if le_word canon_buf = 0x8000000000000000 then replicate 8 0 else canon_buf)"

definition canonicalize_key_pair_if_needed :: "chashmap \<Rightarrow> cmap_pair \<Rightarrow> ccol_data_type \<Rightarrow> cmap_pair" where
  "canonicalize_key_pair_if_needed chm key_pair key_type =
     (case key_pair of (p, n) \<Rightarrow>
        if key_type \<noteq> ccol_float \<and> key_type \<noteq> ccol_double \<or> n > 8 then (p, n)
        else (Outside (canonical_bytes key_type (chm_read chm p n)), n))"

definition ccol_chmap_hash_key :: "chmap_hash_secret \<Rightarrow> byte list \<Rightarrow> ccol_data_type \<Rightarrow> u64" where
  "ccol_chmap_hash_key sec key key_type =
     (let n = length key;
          key = (if key_type \<noteq> ccol_float \<and> key_type \<noteq> ccol_double \<or> n > 8 then key else canonical_bytes key_type key)
      in hash_key_data sec key n key_type None True (int_seed sec))"

definition oa_val_size_matches :: "open_addr_map \<Rightarrow> size_t \<Rightarrow> bool" where
  "oa_val_size_matches m val_size \<longleftrightarrow> val_size = oa_val_size m"

definition key_size_matches_type_if_fixed_width :: "ccol_data_type \<Rightarrow> size_t \<Rightarrow> bool" where
  "key_size_matches_type_if_fixed_width key_type key_size =
     (let fixed_width = ccol_fixed_width_data_type_size key_type in fixed_width = 0 \<or> key_size = fixed_width)"

definition val_size_matches_type_if_fixed_width :: "ccol_data_type \<Rightarrow> size_t \<Rightarrow> bool" where
  "val_size_matches_type_if_fixed_width val_type val_size =
     (let fixed_width = ccol_fixed_width_data_type_size val_type in fixed_width = 0 \<or> val_size = fixed_width)"

section \<open>Insertion\<close>

text \<open>Which out parameters an insert has: none, the value slot, or both accessors of the entry.\<close>

datatype insert_out = No_out | Slot_out | Entry_out

text \<open>The location of a value that the map hands out, and its size.\<close>

fun chm_slot :: "chashmap \<Rightarrow> nat option \<Rightarrow> cmap_pair" where
  "chm_slot chm None = (NullPtr, 0)"
| "chm_slot (IMPL_OPEN_ADDRESSING m) (Some i) = (InMap i, oa_val_size m)"
| "chm_slot (IMPL_SEPARATE_CHAINING m) (Some a) = (InMap a, length (ln_val (the (sc_nodes m a))))"

type_synonym chm_result = "ccol_retval \<times> chashmap option \<times> heap \<times> nat option"

definition wrap_oa :: "bool \<Rightarrow> oa_result \<Rightarrow> chm_result" where
  "wrap_oa out r = (case r of (rv, m, h, i) \<Rightarrow> (rv, Some (IMPL_OPEN_ADDRESSING m), h, if out then i else None))"

definition wrap_sc :: "sc_result \<Rightarrow> chm_result" where
  "wrap_sc r = (case r of (rv, m, h, a) \<Rightarrow> (rv, Some (IMPL_SEPARATE_CHAINING m), h, a))"

definition chmap_insert_elem_impl ::
  "chmap_hash_secret \<Rightarrow> chashmap option \<Rightarrow> cmap_pair option \<Rightarrow> cmap_pair option \<Rightarrow> insert_out \<Rightarrow> heap \<Rightarrow> chm_result option" where
  "chmap_insert_elem_impl sec chm key_pair val_pair out h =
     (case (chm, key_pair, val_pair) of
        (Some m, Some (kp, kn), Some (vp, vn)) \<Rightarrow>
          if kp = NullPtr \<or> vp = NullPtr \<or> kn = 0 \<or> vn = 0 then Some (ccol_invalid_args, chm, h, None)
          else if \<not> key_size_matches_type_if_fixed_width (chmap_key_type m) kn then Some (ccol_invalid_args, chm, h, None)
          else if \<not> val_size_matches_type_if_fixed_width (chmap_val_type m) vn then Some (ccol_invalid_args, chm, h, None)
          else if (case m of IMPL_OPEN_ADDRESSING oa \<Rightarrow> \<not> oa_val_size_matches oa vn | _ \<Rightarrow> False) then Some (ccol_invalid_args, chm, h, None)
          else
            let key = canonicalize_key_pair_if_needed m (kp, kn) (chmap_key_type m)
            in (case (out, m) of
                  (Entry_out, IMPL_SEPARATE_CHAINING s) \<Rightarrow> map_option wrap_sc (sc_insert_or_get_entry sec s key (vp, vn) h)
                | (Entry_out, IMPL_OPEN_ADDRESSING oa) \<Rightarrow> None
                | (Slot_out, IMPL_OPEN_ADDRESSING oa) \<Rightarrow> map_option (wrap_oa True) (oa_insert_or_get sec oa key (vp, vn) h)
                | (Slot_out, IMPL_SEPARATE_CHAINING s) \<Rightarrow> map_option wrap_sc (sc_insert_or_get sec s key (vp, vn) h)
                | (No_out, IMPL_OPEN_ADDRESSING oa) \<Rightarrow> map_option (wrap_oa False) (oa_insert sec oa key (vp, vn) h)
                | (No_out, IMPL_SEPARATE_CHAINING s) \<Rightarrow> map_option wrap_sc (sc_insert sec s key (vp, vn) h))
      | _ \<Rightarrow> Some (ccol_invalid_args, chm, h, None))"

definition chashmap_insert_elem ::
  "chmap_hash_secret \<Rightarrow> chashmap option \<Rightarrow> cmap_pair option \<Rightarrow> cmap_pair option \<Rightarrow> heap \<Rightarrow> chm_result option" where
  "chashmap_insert_elem sec chm key_pair val_pair h = chmap_insert_elem_impl sec chm key_pair val_pair No_out h"

text \<open>The two inserts that hand back an entry; \<open>slot\<close> says whether the out parameters are given.\<close>

definition ccol_chmap_insert_or_get_elem ::
  "chmap_hash_secret \<Rightarrow> chashmap option \<Rightarrow> cmap_pair option \<Rightarrow> cmap_pair option \<Rightarrow> bool \<Rightarrow> heap \<Rightarrow> chm_result option" where
  "ccol_chmap_insert_or_get_elem sec chm key_pair val_pair slot h =
     (if \<not> slot then Some (ccol_invalid_args, chm, h, None)
      else chmap_insert_elem_impl sec chm key_pair val_pair Slot_out h)"

definition ccol_chmap_insert_or_get_entry ::
  "chmap_hash_secret \<Rightarrow> chashmap option \<Rightarrow> cmap_pair option \<Rightarrow> cmap_pair option \<Rightarrow> bool \<Rightarrow> heap \<Rightarrow> chm_result option" where
  "ccol_chmap_insert_or_get_entry sec chm key_pair val_pair slots h =
     (if \<not> slots then Some (ccol_invalid_args, chm, h, None)
      else (case chm of
          Some (IMPL_SEPARATE_CHAINING _) \<Rightarrow> chmap_insert_elem_impl sec chm key_pair val_pair Entry_out h
        | _ \<Rightarrow> Some (ccol_invalid_args, chm, h, None)))"

section \<open>Lookup and deletion\<close>

definition chashmap_get_elem_ref ::
  "chmap_hash_secret \<Rightarrow> chashmap option \<Rightarrow> cmap_pair option \<Rightarrow> bool \<Rightarrow> (ccol_retval \<times> cmap_pair) option" where
  "chashmap_get_elem_ref sec chm key_pair val_pair =
     (if \<not> val_pair then Some (ccol_invalid_args, NullPtr, 0)
      else (case (chm, key_pair) of
          (Some m, Some (kp, kn)) \<Rightarrow>
            if kp = NullPtr \<or> kn = 0 then Some (ccol_invalid_args, NullPtr, 0)
            else if \<not> key_size_matches_type_if_fixed_width (chmap_key_type m) kn then Some (ccol_invalid_args, NullPtr, 0)
            else
              let key = canonicalize_key_pair_if_needed m (kp, kn) (chmap_key_type m)
              in (case m of
                    IMPL_OPEN_ADDRESSING oa \<Rightarrow> (case oa_get sec oa key of (rv, i) \<Rightarrow> Some (rv, chm_slot m i))
                  | IMPL_SEPARATE_CHAINING s \<Rightarrow> do { (rv, a) \<leftarrow> sc_get sec s key; Some (rv, chm_slot m a) })
        | _ \<Rightarrow> Some (ccol_invalid_args, NullPtr, 0)))"

definition chashmap_get_val_accessor ::
  "chmap_hash_secret \<Rightarrow> chashmap option \<Rightarrow> cmap_pair option \<Rightarrow> bool \<Rightarrow> (ccol_retval \<times> nat option) option" where
  "chashmap_get_val_accessor sec chm key_pair val_accessor =
     (if \<not> val_accessor then Some (ccol_invalid_args, None)
      else (case (chm, key_pair) of
          (Some (IMPL_SEPARATE_CHAINING s), Some (kp, kn)) \<Rightarrow>
            if kp = NullPtr \<or> kn = 0 then Some (ccol_invalid_args, None)
            else if \<not> key_size_matches_type_if_fixed_width (sc_key_type s) kn then Some (ccol_invalid_args, None)
            else do {
              (rv, a) \<leftarrow> sc_find_accessor sec s
                (canonicalize_key_pair_if_needed (IMPL_SEPARATE_CHAINING s) (kp, kn) (sc_key_type s));
              Some (rv, if rv \<noteq> ccol_success then None else a)
            }
        | _ \<Rightarrow> Some (ccol_invalid_args, None)))"

text \<open>The copy of a value into a buffer; \<^term>\<open>Some None\<close> leaves the buffer as it was.\<close>

definition chashmap_get_elem_copy ::
  "chmap_hash_secret \<Rightarrow> chashmap option \<Rightarrow> cmap_pair option \<Rightarrow> bool \<Rightarrow> size_t \<Rightarrow> (ccol_retval \<times> byte list option) option" where
  "chashmap_get_elem_copy sec chm key_pair target_buf target_buf_size =
     (if \<not> target_buf \<or> target_buf_size = 0 then Some (ccol_invalid_args, None)
      else do {
        (rv, p, n) \<leftarrow> chashmap_get_elem_ref sec chm key_pair True;
        (case (rv = ccol_success, chm) of
           (True, Some m) \<Rightarrow>
             let copy_size = (if n < target_buf_size then n else target_buf_size)
             in Some (rv, Some (chm_read m p copy_size @ (if n < target_buf_size then replicate (target_buf_size - n) 0 else [])))
         | _ \<Rightarrow> Some (rv, None))
      })"

definition chashmap_delete_elem ::
  "chmap_hash_secret \<Rightarrow> chashmap option \<Rightarrow> cmap_pair option \<Rightarrow> heap \<Rightarrow> (ccol_retval \<times> chashmap option \<times> heap) option" where
  "chashmap_delete_elem sec chm key_pair h =
     (case (chm, key_pair) of
        (Some m, Some (kp, kn)) \<Rightarrow>
          if kp = NullPtr \<or> kn = 0 then Some (ccol_invalid_args, chm, h)
          else if \<not> key_size_matches_type_if_fixed_width (chmap_key_type m) kn then Some (ccol_invalid_args, chm, h)
          else
            let key = canonicalize_key_pair_if_needed m (kp, kn) (chmap_key_type m)
            in (case m of
                  IMPL_OPEN_ADDRESSING oa \<Rightarrow> do { (rv, oa, h) \<leftarrow> oa_delete sec oa key h; Some (rv, Some (IMPL_OPEN_ADDRESSING oa), h) }
                | IMPL_SEPARATE_CHAINING s \<Rightarrow> do { (rv, s, h) \<leftarrow> sc_delete sec s key h; Some (rv, Some (IMPL_SEPARATE_CHAINING s), h) })
      | _ \<Rightarrow> Some (ccol_invalid_args, chm, h))"

fun chashmap_elem_count :: "chashmap option \<Rightarrow> size_t option" where
  "chashmap_elem_count None = None"
| "chashmap_elem_count (Some (IMPL_OPEN_ADDRESSING m)) = Some (oa_count m)"
| "chashmap_elem_count (Some (IMPL_SEPARATE_CHAINING m)) = Some (sc_elem_count m)"

definition chashmap_reset :: "chashmap option \<Rightarrow> size_t \<Rightarrow> heap \<Rightarrow> (ccol_retval \<times> chashmap \<times> heap) option" where
  "chashmap_reset chm new_size h =
     (case chm of
        None \<Rightarrow> None
      | Some m \<Rightarrow>
          let (new_size, too_big) =
            (if new_size > 0 \<and> new_size < minimum_allowed_bucket_array_size then (minimum_allowed_bucket_array_size, False)
             else if new_size > 0 then
               let rounded = ccol_find_nearest_gte_power_of_two new_size
               in if rounded > ccol_max_elem_count then (0, True) else (rounded, False)
             else (new_size, False))
          in do {
            (r, m, h) \<leftarrow> (case m of
                IMPL_OPEN_ADDRESSING oa \<Rightarrow> (case oa_reset oa new_size h of (r, oa, h) \<Rightarrow> Some (r, IMPL_OPEN_ADDRESSING oa, h))
              | IMPL_SEPARATE_CHAINING s \<Rightarrow> do { (r, s, h) \<leftarrow> sc_reset s new_size h; Some (r, IMPL_SEPARATE_CHAINING s, h) });
            Some (if too_big then ccol_not_enough_memory else r, m, h)
          })"

fun chashmap_destroy :: "chashmap option \<Rightarrow> heap \<Rightarrow> heap option" where
  "chashmap_destroy None h = Some h"
| "chashmap_destroy (Some (IMPL_OPEN_ADDRESSING m)) h = Some (mem_free (oa_destroy m h) (hm_blk m))"
| "chashmap_destroy (Some (IMPL_SEPARATE_CHAINING m)) h = do { h \<leftarrow> sc_destroy m h; Some (mem_free h (hm_blk m)) }"

text \<open>The values that a destructor is called on, in order, before the map is destroyed.\<close>

fun chm_dtor_values :: "chashmap \<Rightarrow> byte list list" where
  "chm_dtor_values (IMPL_OPEN_ADDRESSING m) =
     map (\<lambda>i. oa_read (oa_slots m) (InMap i) (oa_val_size m)) (filter (occupied (oa_metadata m)) [0..<oa_capacity m])"
| "chm_dtor_values (IMPL_SEPARATE_CHAINING m) = map (\<lambda>a. ln_val (the (sc_nodes m a))) (concat (sc_buckets m))"

definition chashmap_destroy_with_dtor :: "chashmap option \<Rightarrow> bool \<Rightarrow> heap \<Rightarrow> (byte list list \<times> heap) option" where
  "chashmap_destroy_with_dtor chm val_dtor h =
     (case chm of
        None \<Rightarrow> Some ([], h)
      | Some m \<Rightarrow> do { h \<leftarrow> chashmap_destroy chm h; Some (if val_dtor then chm_dtor_values m else [], h) })"

section \<open>Walks and iterators\<close>

function oa_next_occupied :: "byte list \<Rightarrow> size_t \<Rightarrow> size_t \<Rightarrow> size_t" where
  "oa_next_occupied md capacity i =
     (if i < capacity \<and> \<not> occupied md i then oa_next_occupied md capacity (i + 1) else i)"
  by pat_completeness auto
termination oa_next_occupied
  by (relation "measure (\<lambda>(md, capacity, i). capacity - i)") auto

declare oa_next_occupied.simps [simp del]

definition ccol_chmap_oldest_entry :: "chashmap option \<Rightarrow> nat option" where
  "ccol_chmap_oldest_entry chm = (case chm of Some (IMPL_SEPARATE_CHAINING m) \<Rightarrow> tail (sc_all_elems m) | _ \<Rightarrow> None)"

text \<open>An entry read: the key and the value behind the accessors, and the next newer entry.\<close>

definition ccol_chmap_entry_read :: "sep_chain_map \<Rightarrow> nat \<Rightarrow> (byte list \<times> byte list \<times> nat option) option" where
  "ccol_chmap_entry_read m entry = do { e \<leftarrow> sc_nodes m entry; r \<leftarrow> sc_refs m entry; Some (ln_key e, ln_val e, prev r) }"

record ccol_chmap_walk =
  next_slot :: size_t
  next_entry :: "nat option"
  started :: bool

definition ccol_chmap_walk_next ::
  "chashmap option \<Rightarrow> ccol_chmap_walk \<Rightarrow> ((byte list \<times> byte list) option \<times> ccol_chmap_walk) option" where
  "ccol_chmap_walk_next chm walk =
     (case chm of
        None \<Rightarrow> Some (None, walk)
      | Some (IMPL_SEPARATE_CHAINING m) \<Rightarrow>
          let walk = (if started walk then walk else walk\<lparr>started := True, next_entry := ccol_chmap_oldest_entry chm\<rparr>)
          in (case next_entry walk of
                None \<Rightarrow> Some (None, walk)
              | Some a \<Rightarrow> do {
                  (key, val, newer) \<leftarrow> ccol_chmap_entry_read m a;
                  Some (Some (key, val), walk\<lparr>next_entry := newer\<rparr>)
                })
      | Some (IMPL_OPEN_ADDRESSING m) \<Rightarrow>
          let i = oa_next_occupied (oa_metadata m) (oa_capacity m) (next_slot walk)
          in if i \<ge> oa_capacity m then Some (None, walk\<lparr>next_slot := i\<rparr>)
             else Some (Some (word_bytes 8 (key_data (oa_slots m ! i)), word_bytes 8 (val_data (oa_slots m ! i))),
                        walk\<lparr>next_slot := i + 1\<rparr>))"

text \<open>An iterator: its block, and the node or the slot it stands at.\<close>

record chmap_cmap_iterator =
  it_blk :: nat
  it_at :: nat

definition sizeof_chmap_cmap_iterator :: size_t where
  [size_defs]: "sizeof_chmap_cmap_iterator = 96"

definition chashmap_begin_iter :: "chashmap option \<Rightarrow> heap \<Rightarrow> chmap_cmap_iterator option \<times> heap" where
  "chashmap_begin_iter chm h =
     (let at = (case chm of
            None \<Rightarrow> None
          | Some (IMPL_SEPARATE_CHAINING m) \<Rightarrow> head (sc_all_elems m)
          | Some (IMPL_OPEN_ADDRESSING m) \<Rightarrow>
              let i = oa_next_occupied (oa_metadata m) (oa_capacity m) 0 in if i \<ge> oa_capacity m then None else Some i)
      in case at of
           None \<Rightarrow> (None, h)
         | Some i \<Rightarrow> (case mem_calloc h sizeof_chmap_cmap_iterator of
               (None, h) \<Rightarrow> (None, h)
             | (Some (b, _), h) \<Rightarrow> (Some \<lparr>it_blk = b, it_at = i\<rparr>, h)))"

definition chashmap_iterator_destroy :: "chmap_cmap_iterator option \<Rightarrow> heap \<Rightarrow> heap" where
  "chashmap_iterator_destroy it h = (case it of None \<Rightarrow> h | Some it \<Rightarrow> mem_free h (it_blk it))"

definition chmap_iter_next :: "chashmap \<Rightarrow> chmap_cmap_iterator \<Rightarrow> heap \<Rightarrow> (chmap_cmap_iterator option \<times> heap) option" where
  "chmap_iter_next chm it h =
     (case chm of
        IMPL_SEPARATE_CHAINING m \<Rightarrow> do {
          r \<leftarrow> sc_refs m (it_at it);
          (case dl_next r of
             Some a \<Rightarrow> Some (Some (it\<lparr>it_at := a\<rparr>), h)
           | None \<Rightarrow> Some (None, chashmap_iterator_destroy (Some it) h))
        }
      | IMPL_OPEN_ADDRESSING m \<Rightarrow>
          let i = oa_next_occupied (oa_metadata m) (oa_capacity m) (it_at it + 1)
          in if i \<ge> oa_capacity m then Some (None, chashmap_iterator_destroy (Some it) h)
             else Some (Some (it\<lparr>it_at := i\<rparr>), h))"

text \<open>The key and the value that an iterator shows.\<close>

fun chm_iter_pair :: "chashmap \<Rightarrow> chmap_cmap_iterator \<Rightarrow> byte list \<times> byte list" where
  "chm_iter_pair (IMPL_SEPARATE_CHAINING m) it = sc_entry (sc_nodes m) (it_at it)"
| "chm_iter_pair (IMPL_OPEN_ADDRESSING m) it =
     (word_bytes (oa_key_size m) (key_data (oa_slots m ! it_at it)), word_bytes (oa_val_size m) (val_data (oa_slots m ! it_at it)))"

end
