(* ===== verification/CCol_Hashmap_Spec.thy ===== *)
theory CCol_Hashmap_Spec
  imports CCol_Hashmap CCol_Container
begin

text \<open>
  What the hash map of \<^verbatim>\<open>src/chashmap.c\<close> promises, whichever backend the types
  select: a map from keys to values under the equality the caller chose, from
  creation to destruction, whatever the allocator refuses.
\<close>

section \<open>Keys as the caller sees them\<close>

text \<open>The bytes a key is filed under, and the equality of keys.\<close>

definition canon_key :: "ccol_data_type \<Rightarrow> byte list \<Rightarrow> byte list" where
  "canon_key kt k = (if kt \<noteq> ccol_float \<and> kt \<noteq> ccol_double \<or> length k > 8 then k else take (length k) (canonical_bytes kt k))"

definition key_valid :: "ccol_data_type \<Rightarrow> byte list \<Rightarrow> bool" where
  "key_valid kt k \<longleftrightarrow> k \<noteq> [] \<and> key_size_matches_type_if_fixed_width kt (length k)"

definition user_same :: "key_equality_proc option \<Rightarrow> ccol_data_type \<Rightarrow> byte list \<Rightarrow> byte list \<Rightarrow> bool" where
  "user_same ceq kt j k \<longleftrightarrow> same_key ceq kt (canon_key kt j) (canon_key kt k)"

lemma canonical_bytes_length: "length k \<le> 8 \<Longrightarrow> length (canonical_bytes kt k) = 8"
  by (auto simp: canonical_bytes_def Let_def)

lemma canon_key_length [simp]: "length (canon_key kt k) = length k"
  by (auto simp: canon_key_def canonical_bytes_length)

lemma canonicalize_Outside:
  "\<exists>bs. canonicalize_key_pair_if_needed m (Outside k, length k) kt = (Outside bs, length k)
     \<and> take (length k) bs = canon_key kt k \<and> length k \<le> length bs"
proof -
  have "chm_read m (Outside k) (length k) = k" by (cases m) (simp_all add: oa_read_def sc_read_def)
  then show ?thesis
    by (simp add: canonicalize_key_pair_if_needed_def canon_key_def canonical_bytes_length)
qed

lemma integral_widths: "is_type_integral t \<Longrightarrow> ccol_fixed_width_data_type_size t = get_type_size t \<and> get_type_size t \<noteq> 0"
  by (cases t) (simp_all add: is_type_integral_def)

lemma key_valid_integral: "is_type_integral kt \<Longrightarrow> key_valid kt k \<longleftrightarrow> length k = get_type_size kt"
  using integral_widths [of kt] by (auto simp: key_valid_def key_size_matches_type_if_fixed_width_def)

section \<open>The contents of a map\<close>

text \<open>What a lookup reports for a key: the bytes behind the pointer it hands out.\<close>

definition chm_lookup :: "chmap_hash_secret \<Rightarrow> chashmap \<Rightarrow> byte list \<Rightarrow> byte list option" where
  "chm_lookup sec m k =
     (case chashmap_get_elem_ref sec (Some m) (Some (Outside k, length k)) True of
        Some (ccol_success, p, n) \<Rightarrow> Some (chm_read m p n)
      | _ \<Rightarrow> None)"

fun chm_view :: "chashmap \<Rightarrow> byte list \<Rightarrow> byte list option" where
  "chm_view (IMPL_OPEN_ADDRESSING m) k =
     (if key_valid (oa_key_type m) k then oa_view m (le_word (canon_key (oa_key_type m) k)) else None)"
| "chm_view (IMPL_SEPARATE_CHAINING m) k =
     (if key_valid (sc_key_type m) k then al_get (sc_same m) (canon_key (sc_key_type m) k) (sc_entries m) else None)"

text \<open>The key words of an open-addressing map are those of keys of its size.\<close>

definition keys_fit :: "open_addr_map \<Rightarrow> bool" where
  "keys_fit m \<longleftrightarrow> (\<forall>w \<in> dom (oa_view m). le_word (word_bytes (oa_key_size m) w) = w)"

lemma keys_fit_upd:
  assumes "keys_fit m" "oa_same_kind m m'" "length bs = oa_key_size m" "oa_key_size m \<le> 8" "dom (oa_view m') \<subseteq> insert (le_word bs) (dom (oa_view m))"
  shows "keys_fit m'"
proof -
  have "le_word (word_bytes (oa_key_size m) (le_word bs)) = le_word bs" using word_bytes_le_word [OF assms(3,4)] by simp
  then have "\<forall>w \<in> insert (le_word bs) (dom (oa_view m)). le_word (word_bytes (oa_key_size m) w) = w" using assms(1) by (simp add: keys_fit_def)
  then have "\<forall>w \<in> dom (oa_view m'). le_word (word_bytes (oa_key_size m) w) = w" using assms(5) by blast
  then show ?thesis using assms(2) by (simp add: keys_fit_def oa_same_kind_def)
qed

fun chm_inv :: "chmap_hash_secret \<Rightarrow> ccol_data_type \<Rightarrow> ccol_data_type \<Rightarrow> hashing_proc option \<Rightarrow> key_equality_proc option \<Rightarrow>
    chashmap \<Rightarrow> bool" where
  "chm_inv sec kt vt custom ceq (IMPL_OPEN_ADDRESSING m) \<longleftrightarrow>
     oa_inv sec m \<and> oa_key_type m = kt \<and> oa_val_type m = vt \<and> oa_custom m = custom \<and> ceq = None \<and> hm_blk m \<noteq> oa_table m
     \<and> keys_fit m"
| "chm_inv sec kt vt custom ceq (IMPL_SEPARATE_CHAINING m) \<longleftrightarrow>
     sc_inv sec m \<and> sc_key_type m = kt \<and> sc_val_type m = vt \<and> sc_custom m = custom \<and> sc_custom_eq m = ceq"

fun chm_owned :: "chashmap \<Rightarrow> nat set" where
  "chm_owned (IMPL_OPEN_ADDRESSING m) = {hm_blk m, oa_table m}"
| "chm_owned (IMPL_SEPARATE_CHAINING m) = sc_owned m"

lemma oa_inv_types:
  assumes "oa_inv sec m"
  shows "is_type_integral (oa_key_type m)" "is_type_integral (oa_val_type m)"
    "oa_key_size m = get_type_size (oa_key_type m)" "oa_val_size m = get_type_size (oa_val_type m)" "oa_key_size m \<le> 8" "oa_val_size m \<le> 8"
  using assms oa_sizes_le [OF assms] by (auto simp: oa_inv_def oa_types_def)

text \<open>A lookup, on both backends: the value of the view, behind a pointer that the map owns.\<close>

definition chm_arg_ok :: "chashmap \<Rightarrow> chm_ptr \<Rightarrow> size_t \<Rightarrow> bool" where
  "chm_arg_ok m p n = (case m of IMPL_OPEN_ADDRESSING o' \<Rightarrow> oa_arg_ok o' p n | IMPL_SEPARATE_CHAINING s \<Rightarrow> sc_arg_ok (sc_nodes s) p n)"

lemma chm_get_ends:
  assumes inv: "chm_inv sec kt vt custom ceq m"
  shows "case chm_view m k of
      None \<Rightarrow> chashmap_get_elem_ref sec (Some m) (Some (Outside k, length k)) True
                = Some (if key_valid kt k then ccol_key_not_found else ccol_invalid_args, NullPtr, 0)
    | Some v \<Rightarrow> \<exists>i. chashmap_get_elem_ref sec (Some m) (Some (Outside k, length k)) True = Some (ccol_success, InMap i, length v)
        \<and> chm_read m (InMap i) (length v) = v \<and> chm_arg_ok m (InMap i) (length v)"
proof (cases "key_valid kt k")
  case False
  have kt: "chmap_key_type m = kt" using inv by (cases m) auto
  have "chm_view m k = None" using False inv by (cases m) auto
  then show ?thesis using False kt by (auto simp: chashmap_get_elem_ref_def key_valid_def)
next
  case True
  then have k: "length k \<noteq> 0" "key_size_matches_type_if_fixed_width kt (length k)" by (auto simp: key_valid_def)
  obtain bs where bs: "canonicalize_key_pair_if_needed m (Outside k, length k) kt = (Outside bs, length k)"
    "take (length k) bs = canon_key kt k" "length k \<le> length bs" using canonicalize_Outside by blast
  show ?thesis
  proof (cases m)
    case (IMPL_OPEN_ADDRESSING om)
    with inv have i: "oa_inv sec om" "oa_key_type om = kt" by auto
    note ty = oa_inv_types [OF i(1)]
    have len: "length k = oa_key_size om" using True key_valid_integral ty i(2) by simp
    have arg: "oa_arg_ok om (Outside bs) (oa_key_size om)" using bs(3) len by (simp add: oa_arg_ok_def)
    have rd: "oa_read (oa_slots om) (Outside bs) (oa_key_size om) = canon_key kt k" using bs(2) len by (simp add: oa_read_def)
    note g = oa_get_ends [OF i(1) arg, unfolded rd]
    have ref: "chashmap_get_elem_ref sec (Some m) (Some (Outside k, length k)) True =
        (case oa_get sec om (Outside bs, oa_key_size om) of (rv, i) \<Rightarrow> Some (rv, chm_slot m i))"
      using k bs(1) i(2) len unfolding IMPL_OPEN_ADDRESSING by (simp add: chashmap_get_elem_ref_def)
    have view: "chm_view m k = oa_view om (le_word (canon_key kt k))" using True i(2) IMPL_OPEN_ADDRESSING by simp
    show ?thesis
    proof (cases "oa_view om (le_word (canon_key kt k))")
      case None
      then show ?thesis using g ref view True by simp
    next
      case (Some v)
      with g obtain j where j: "j < oa_capacity om" "oa_get sec om (Outside bs, oa_key_size om) = (ccol_success, Some j)"
        "v = take (oa_val_size om) (word_bytes 8 (val_data (oa_slots om ! j)))" "occupied (oa_metadata om) j" by auto
      have "length v = oa_val_size om" using j(3) ty(6) by simp
      then show ?thesis using Some ref view j ty(6) IMPL_OPEN_ADDRESSING
        by (auto simp: oa_read_def chm_arg_ok_def oa_arg_ok_def)
    qed
  next
    case (IMPL_SEPARATE_CHAINING s)
    with inv have i: "sc_inv sec s" "sc_key_type s = kt" by auto
    have rd: "sc_read (sc_nodes s) (Outside bs) (length k) = canon_key kt k" using bs(2) by (simp add: sc_read_def)
    note g = sc_get_ends [OF i(1), of "Outside bs" "length k", unfolded rd]
    have ref: "chashmap_get_elem_ref sec (Some m) (Some (Outside k, length k)) True =
        do { (rv, a) \<leftarrow> sc_get sec s (Outside bs, length k); Some (rv, chm_slot m a) }"
      using k bs(1) i(2) unfolding IMPL_SEPARATE_CHAINING by (simp add: chashmap_get_elem_ref_def)
    have view: "chm_view m k = al_get (sc_same s) (canon_key kt k) (sc_entries s)" using True i(2) IMPL_SEPARATE_CHAINING by simp
    show ?thesis
    proof (cases "al_get (sc_same s) (canon_key kt k) (sc_entries s)")
      case None
      then show ?thesis using g ref view True by simp
    next
      case (Some v)
      with g obtain a e where a: "sc_get sec s (Outside bs, length k) = Some (ccol_success, Some a)" "sc_nodes s a = Some e" "ln_val e = v"
        by auto
      then show ?thesis using Some ref view IMPL_SEPARATE_CHAINING by (auto simp: sc_read_def chm_arg_ok_def sc_arg_ok_def)
    qed
  qed
qed

lemma chm_lookup_view: "chm_inv sec kt vt custom ceq m \<Longrightarrow> chm_lookup sec m k = chm_view m k"
  using chm_get_ends [of sec kt vt custom ceq m k] by (cases "chm_view m k") (auto simp: chm_lookup_def)

section \<open>Insertion\<close>

text \<open>The entry of a key in the caller's map is replaced for every key that equals it.\<close>

definition map_put :: "key_equality_proc option \<Rightarrow> ccol_data_type \<Rightarrow> byte list \<Rightarrow> byte list option \<Rightarrow>
    (byte list \<Rightarrow> byte list option) \<Rightarrow> byte list \<Rightarrow> byte list option" where
  "map_put ceq kt k v a = (\<lambda>j. if key_valid kt j \<and> user_same ceq kt j k then v else a j)"

lemma al_get_same:
  assumes "\<And>i. same i j \<longleftrightarrow> same i k"
  shows "al_get same j es = al_get same k es"
proof (induction es)
  case (Cons e es)
  then show ?case using assms by (cases e) simp
qed simp

lemma al_get_put:
  assumes "equivp same"
  shows "al_get same j (al_put same k v es) = (if same j k then Some v else al_get same j es)"
proof -
  note eq = equivp_transp [OF assms] equivp_symp [OF assms] equivp_reflp [OF assms]
  let ?upd = "map (\<lambda>(i, w). (i, if same i k then v else w)) es"
  have hit: "al_get same k ?upd = (if al_get same k es = None then None else Some v)"
  proof (induction es)
    case (Cons e es)
    then show ?case by (cases e) simp
  qed simp
  have miss: "al_get same j ?upd = al_get same j es" if "\<not> same j k"
  proof (induction es)
    case (Cons e es)
    have "\<not> (same i j \<and> same i k)" for i using eq(1) [of j i k] eq(2) [of i j] that by blast
    then show ?case using Cons by (cases e) auto
  qed simp
  show ?thesis
  proof (cases "same j k")
    case True
    have "same i j \<longleftrightarrow> same i k" for i using True eq(1) [of i j k] eq(1) [of i k j] eq(2) [of j k] by blast
    from al_get_same [where same = same and j = j and k = k, OF this] have "al_get same j (al_put same k v es) = al_get same k (al_put same k v es)" .
    moreover have "al_get same k (al_put same k v es) = Some v" using hit eq(3) by (simp add: al_put_def)
    ultimately show ?thesis using True by simp
  next
    case False
    then show ?thesis using miss eq(2) [of k j] by (auto simp: al_put_def)
  qed
qed

lemma al_get_del:
  assumes "equivp same"
  shows "al_get same j (al_del same k es) = (if same j k then None else al_get same j es)"
proof (induction es)
  case (Cons e es)
  obtain i w where e: "e = (i, w)" by fastforce
  note eq = equivp_transp [OF assms] equivp_symp [OF assms]
  show ?case using Cons eq(1) [of i j k] eq(1) [of j i k] eq(1) [of i k j] eq(2) [of j k] eq(2) [of i j] by (auto simp: e al_del_def)
qed (simp add: al_del_def)

lemma sc_same_equiv:
  assumes "sc_inv sec m"
  shows "equivp (sc_same m)"
proof -
  have ok: "key_procs_ok (sc_key_type m) (sc_custom m) (sc_custom_eq m)"
    using assms by (simp add: sc_inv_def sc_rep_def sc_body_def)
  show ?thesis unfolding sc_same_def
    by (rule equivpI; intro reflpI sympI transpI) (use same_key_equiv [OF ok] in blast)+
qed

lemma sc_view_put:
  assumes "sc_inv sec m" "sc_same_kind m m'" "sc_entries m' = al_put (sc_same m) (canon_key (sc_key_type m) k) v (sc_entries m)"
  shows "chm_view (IMPL_SEPARATE_CHAINING m') = map_put (sc_custom_eq m) (sc_key_type m) k (Some v) (chm_view (IMPL_SEPARATE_CHAINING m))"
proof
  fix j
  have s: "sc_same m' = sc_same m" "sc_key_type m' = sc_key_type m" using assms(2) by (simp_all add: sc_same_kind_def sc_same_def)
  show "chm_view (IMPL_SEPARATE_CHAINING m') j = map_put (sc_custom_eq m) (sc_key_type m) k (Some v) (chm_view (IMPL_SEPARATE_CHAINING m)) j"
    using al_get_put [OF sc_same_equiv [OF assms(1)], where j = "canon_key (sc_key_type m) j" and k = "canon_key (sc_key_type m) k" and v = v]
    by (simp add: s(1,2) assms(3) map_put_def user_same_def flip: sc_same_def)
qed

lemma sc_view_del:
  assumes "sc_inv sec m" "sc_same_kind m m'" "sc_entries m' = al_del (sc_same m) (canon_key (sc_key_type m) k) (sc_entries m)"
  shows "chm_view (IMPL_SEPARATE_CHAINING m') = map_put (sc_custom_eq m) (sc_key_type m) k None (chm_view (IMPL_SEPARATE_CHAINING m))"
proof
  fix j
  have s: "sc_same m' = sc_same m" "sc_key_type m' = sc_key_type m" using assms(2) by (simp_all add: sc_same_kind_def sc_same_def)
  show "chm_view (IMPL_SEPARATE_CHAINING m') j = map_put (sc_custom_eq m) (sc_key_type m) k None (chm_view (IMPL_SEPARATE_CHAINING m)) j"
    using al_get_del [OF sc_same_equiv [OF assms(1)], where j = "canon_key (sc_key_type m) j" and k = "canon_key (sc_key_type m) k" and es = "sc_entries m"]
    by (simp add: s(1,2) assms(3) map_put_def user_same_def flip: sc_same_def)
qed

lemma oa_view_put:
  assumes inv: "oa_inv sec m" and kind: "oa_same_kind m m'" and k: "key_valid (oa_key_type m) k"
    and view: "oa_view m' = (oa_view m)(le_word (canon_key (oa_key_type m) k) := v)"
  shows "chm_view (IMPL_OPEN_ADDRESSING m') = map_put None (oa_key_type m) k v (chm_view (IMPL_OPEN_ADDRESSING m))"
proof
  fix j
  note ty = oa_inv_types [OF inv]
  have kt: "oa_key_type m' = oa_key_type m" using kind by (simp add: oa_same_kind_def)
  have nl: "oa_key_type m \<noteq> ccol_long_double" using ty(1) by (auto simp: is_type_integral_def)
  have "le_word (canon_key (oa_key_type m) j) = le_word (canon_key (oa_key_type m) k) \<longleftrightarrow> user_same None (oa_key_type m) j k"
    if "key_valid (oa_key_type m) j"
    using le_word_eq_iff [of "canon_key (oa_key_type m) j" "oa_key_size m" "canon_key (oa_key_type m) k"] ty(3,5) key_valid_integral [OF ty(1)] that k nl
    by (simp add: user_same_def same_key_def)
  then show "chm_view (IMPL_OPEN_ADDRESSING m') j = map_put None (oa_key_type m) k v (chm_view (IMPL_OPEN_ADDRESSING m)) j"
    by (simp add: kt view map_put_def)
qed

text \<open>The block of the map itself stays where it is.\<close>

lemma blocks_moved_frame:
  assumes "blocks_moved A B h h'" "x \<in> live h" "x \<notin> A"
  shows "blocks_moved (insert x A) (insert x B) h h'" "x \<notin> B"
  using assms by (auto simp: blocks_moved_def)

text \<open>An insert that is not refused for its arguments.\<close>

definition val_valid :: "ccol_data_type \<Rightarrow> size_t \<Rightarrow> bool" where
  "val_valid vt n \<longleftrightarrow> n \<noteq> 0 \<and> val_size_matches_type_if_fixed_width vt n"

text \<open>The outcomes of an insert: what the map holds afterwards, by the code it returns.\<close>

definition chm_inserted :: "chmap_hash_secret \<Rightarrow> ccol_data_type \<Rightarrow> ccol_data_type \<Rightarrow> hashing_proc option \<Rightarrow> key_equality_proc option \<Rightarrow>
    chashmap \<Rightarrow> heap \<Rightarrow> byte list \<Rightarrow> byte list \<Rightarrow> bool \<Rightarrow> ccol_retval \<Rightarrow> chashmap \<Rightarrow> heap \<Rightarrow> bool" where
  "chm_inserted sec kt vt custom ceq m h k v keep rv m' h' \<longleftrightarrow>
     chm_inv sec kt vt custom ceq m' \<and> blocks_moved (chm_owned m) (chm_owned m') h h'
     \<and> (rv = ccol_success \<and> chm_view m k = None \<and> chm_view m' = map_put ceq kt k (Some v) (chm_view m)
        \<or> rv = ccol_key_already_present \<and> chm_view m k \<noteq> None
            \<and> chm_view m' = (if keep then chm_view m else map_put ceq kt k (Some v) (chm_view m))
        \<or> (rv = ccol_not_enough_memory \<or> rv = ccol_container_full) \<and> chm_view m' = chm_view m)"

lemma oa_owned_moved:
  assumes "oa_same_kind m m'" "blocks_moved {oa_table m} {oa_table m'} h h'" "hm_blk m \<in> live h" "hm_blk m \<noteq> oa_table m"
  shows "blocks_moved (chm_owned (IMPL_OPEN_ADDRESSING m)) (chm_owned (IMPL_OPEN_ADDRESSING m')) h h'" "hm_blk m' \<noteq> oa_table m'"
  using blocks_moved_frame [OF assms(2,3)] assms(1,4) by (auto simp: oa_same_kind_def)

lemma chm_insert_oa:
  assumes inv: "chm_inv sec kt vt custom ceq (IMPL_OPEN_ADDRESSING m)" and h: "heap_ok h" "chm_owned (IMPL_OPEN_ADDRESSING m) \<subseteq> live h"
    and k: "key_valid kt k" "take (length k) bs = canon_key kt k" "length k \<le> length bs"
    and v: "val_valid vt vn" "oa_arg_ok m vp vn"
  shows "vn = oa_val_size m \<and> (\<exists>rv m' h' i. oa_insert_impl sec m (Outside bs, length k) (vp, vn) keep h = Some (rv, m', h', i)
     \<and> chm_inserted sec kt vt custom ceq (IMPL_OPEN_ADDRESSING m) h k (oa_read (oa_slots m) vp vn) keep rv (IMPL_OPEN_ADDRESSING m') h')"
proof -
  have i: "oa_inv sec m" "oa_key_type m = kt" "oa_val_type m = vt" "ceq = None" "hm_blk m \<noteq> oa_table m" using inv by auto
  note ty = oa_inv_types [OF i(1)]
  have len: "length k = oa_key_size m" using k(1) key_valid_integral ty i(2) by simp
  have vn: "vn = oa_val_size m" using v(1) integral_widths [OF ty(2)] ty(4) i(3)
    by (simp add: val_valid_def val_size_matches_type_if_fixed_width_def)
  have arg: "oa_arg_ok m (Outside bs) (oa_key_size m)" using k(3) len by (simp add: oa_arg_ok_def)
  have rd: "oa_read (oa_slots m) (Outside bs) (oa_key_size m) = canon_key kt k" using k(2) len by (simp add: oa_read_def)
  let ?w = "le_word (canon_key kt k)" and ?v = "oa_read (oa_slots m) vp (oa_val_size m)"
  from oa_insert_impl_ends [OF i(1) h(1) _ arg v(2) [unfolded vn], of keep, unfolded rd] obtain rv m' h' s where
    r: "oa_insert_impl sec m (Outside bs, oa_key_size m) (vp, oa_val_size m) keep h = Some (rv, m', h', s)"
      "oa_inserted sec m h ?w ?v keep (rv, m', h', s)" using h(2) by auto
  have f: "oa_inv sec m'" "oa_same_kind m m'" "blocks_moved {oa_table m} {oa_table m'} h h'"
    using r(2) by (auto simp: oa_inserted_def)
  have old: "chm_view (IMPL_OPEN_ADDRESSING m) k = oa_view m ?w" using k(1) i(2) by simp
  have new: "chm_view (IMPL_OPEN_ADDRESSING m') = map_put ceq kt k (Some ?v) (chm_view (IMPL_OPEN_ADDRESSING m))"
    if "oa_view m' = (oa_view m)(?w \<mapsto> ?v)" using oa_view_put [OF i(1) f(2), of k "Some ?v"] that k(1) i(2,4) by simp
  have kept: "chm_view (IMPL_OPEN_ADDRESSING m') = chm_view (IMPL_OPEN_ADDRESSING m)" if "oa_view m' = oa_view m"
    using that f(2) by (auto simp: oa_same_kind_def fun_eq_iff)
  have out: "rv = ccol_success \<and> oa_view m ?w = None \<and> oa_view m' = (oa_view m)(?w \<mapsto> ?v)
     \<or> rv = ccol_key_already_present \<and> oa_view m ?w \<noteq> None \<and> oa_view m' = (if keep then oa_view m else (oa_view m)(?w \<mapsto> ?v))
     \<or> rv = ccol_not_enough_memory \<and> oa_view m' = oa_view m"
    using r(2) by (auto simp: oa_inserted_def split: if_splits)
  have "dom (oa_view m') \<subseteq> insert ?w (dom (oa_view m))" using out by (cases keep) auto
  then have "keys_fit m'" using keys_fit_upd [of m m' "canon_key kt k"] inv f(2) len ty(5) by auto
  then have "chm_inv sec kt vt custom ceq (IMPL_OPEN_ADDRESSING m')"
    using f(1,2) oa_owned_moved(2) [OF f(2,3)] h(2) i inv by (auto simp: oa_same_kind_def)
  moreover have "blocks_moved (chm_owned (IMPL_OPEN_ADDRESSING m)) (chm_owned (IMPL_OPEN_ADDRESSING m')) h h'"
    using oa_owned_moved(1) [OF f(2,3)] h(2) i(5) by auto
  ultimately have "chm_inserted sec kt vt custom ceq (IMPL_OPEN_ADDRESSING m) h k ?v keep rv (IMPL_OPEN_ADDRESSING m') h'"
    using out old new kept unfolding chm_inserted_def by (cases keep) auto
  then show ?thesis using r(1) len vn by auto
qed

lemma chm_insert_sc:
  assumes inv: "chm_inv sec kt vt custom ceq (IMPL_SEPARATE_CHAINING m)" and h: "heap_ok h" "chm_owned (IMPL_SEPARATE_CHAINING m) \<subseteq> live h"
    and k: "key_valid kt k" "take (length k) bs = canon_key kt k" "length k \<le> length bs" and v: "sc_arg_ok (sc_nodes m) vp vn"
  shows "\<exists>rv m' h' i. sc_insert_impl sec m (Outside bs, length k) (vp, vn) keep h = Some (rv, m', h', i)
     \<and> chm_inserted sec kt vt custom ceq (IMPL_SEPARATE_CHAINING m) h k (sc_read (sc_nodes m) vp vn) keep rv (IMPL_SEPARATE_CHAINING m') h'"
proof -
  have i: "sc_inv sec m" "sc_key_type m = kt" "sc_custom_eq m = ceq" using inv by auto
  have arg: "sc_arg_ok (sc_nodes m) (Outside bs) (length k)" using k(3) by (simp add: sc_arg_ok_def)
  have rd: "sc_read (sc_nodes m) (Outside bs) (length k) = canon_key kt k" using k(2) by (simp add: sc_read_def)
  let ?v = "sc_read (sc_nodes m) vp vn" and ?c = "canon_key kt k"
  from sc_insert_impl_ends [OF i(1) h(1) _ arg v, of keep, unfolded rd] obtain rv m' h' s where
    r: "sc_insert_impl sec m (Outside bs, length k) (vp, vn) keep h = Some (rv, m', h', s)"
      "sc_inserted sec m h ?c ?v keep (rv, m', h', s)" using h(2) by auto
  have f: "sc_inv sec m'" "sc_same_kind m m'" "blocks_moved (sc_owned m) (sc_owned m') h h'"
    using r(2) by (auto simp: sc_inserted_def)
  have old: "chm_view (IMPL_SEPARATE_CHAINING m) k = al_get (sc_same m) ?c (sc_entries m)" using k(1) i(2) by simp
  have new: "chm_view (IMPL_SEPARATE_CHAINING m') = map_put ceq kt k (Some ?v) (chm_view (IMPL_SEPARATE_CHAINING m))"
    if "sc_entries m' = al_put (sc_same m) ?c ?v (sc_entries m)" using sc_view_put [OF i(1) f(2), of k ?v] that i(2,3) by simp
  have out: "rv = ccol_success \<and> al_get (sc_same m) ?c (sc_entries m) = None \<and> sc_entries m' = al_put (sc_same m) ?c ?v (sc_entries m)
     \<or> rv = ccol_key_already_present \<and> al_get (sc_same m) ?c (sc_entries m) \<noteq> None
        \<and> (if keep then m' = m else sc_entries m' = al_put (sc_same m) ?c ?v (sc_entries m))
     \<or> (rv = ccol_not_enough_memory \<or> rv = ccol_container_full) \<and> m' = m"
    using r(2) unfolding sc_inserted_def prod.case by (smt (verit))
  have "chm_inv sec kt vt custom ceq (IMPL_SEPARATE_CHAINING m')" using f(1,2) inv by (auto simp: sc_same_kind_def)
  then have "chm_inserted sec kt vt custom ceq (IMPL_SEPARATE_CHAINING m) h k ?v keep rv (IMPL_SEPARATE_CHAINING m') h'"
    using out old new f(3) unfolding chm_inserted_def by (cases keep) auto
  then show ?thesis using r(1) by blast
qed

text \<open>The insert of the interface: every check of the arguments, then the backend.\<close>

lemma chm_insert_ends:
  assumes inv: "chm_inv sec kt vt custom ceq m" and h: "heap_ok h" "chm_owned m \<subseteq> live h" and v: "chm_arg_ok m vp vn" and out: "out \<noteq> Entry_out"
  shows "\<exists>rv m' h' i. chmap_insert_elem_impl sec (Some m) (Some (Outside k, length k)) (Some (vp, vn)) out h = Some (rv, Some m', h', i)
     \<and> (if key_valid kt k \<and> val_valid vt vn then chm_inserted sec kt vt custom ceq m h k (chm_read m vp vn) (out = Slot_out) rv m' h'
        else rv = ccol_invalid_args \<and> m' = m \<and> h' = h)"
proof -
  have kt: "chmap_key_type m = kt" "chmap_val_type m = vt" using inv by (cases m; auto)+
  have nn: "vp \<noteq> NullPtr" using v by (cases m) (auto simp: chm_arg_ok_def oa_arg_ok_def sc_arg_ok_def)
  obtain bs where bs: "canonicalize_key_pair_if_needed m (Outside k, length k) kt = (Outside bs, length k)"
    "take (length k) bs = canon_key kt k" "length k \<le> length bs" using canonicalize_Outside by blast
  note unf = chmap_insert_elem_impl_def [of sec "Some m" "Some (Outside k, length k)" "Some (vp, vn)" out h, unfolded option.case prod.case kt bs(1) Let_def]
  show ?thesis
  proof (cases "key_valid kt k \<and> val_valid vt vn")
    case False
    then show ?thesis unfolding unf using nn by (auto simp: key_valid_def val_valid_def)
  next
    case True
    then have c: "k \<noteq> []" "vn \<noteq> 0" "key_size_matches_type_if_fixed_width kt (length k)" "val_size_matches_type_if_fixed_width vt vn"
      by (auto simp: key_valid_def val_valid_def)
    show ?thesis
    proof (cases m)
      case (IMPL_OPEN_ADDRESSING om)
      have va: "oa_arg_ok om vp vn" using v IMPL_OPEN_ADDRESSING by (simp add: chm_arg_ok_def)
      from chm_insert_oa [OF inv [unfolded IMPL_OPEN_ADDRESSING] h(1) h(2) [unfolded IMPL_OPEN_ADDRESSING] conjunct1 [OF True] bs(2,3) conjunct2 [OF True] va, where keep = "out = Slot_out"]
      obtain rv m' h' i where r: "vn = oa_val_size om" "oa_insert_impl sec om (Outside bs, length k) (vp, vn) (out = Slot_out) h = Some (rv, m', h', i)"
        "chm_inserted sec kt vt custom ceq (IMPL_OPEN_ADDRESSING om) h k (oa_read (oa_slots om) vp vn) (out = Slot_out) rv (IMPL_OPEN_ADDRESSING m') h'" by auto
      then show ?thesis using True c nn out unfolding unf unfolding IMPL_OPEN_ADDRESSING
        by (cases out) (auto simp: oa_val_size_matches_def oa_insert_or_get_def oa_insert_def wrap_oa_def)
    next
      case (IMPL_SEPARATE_CHAINING s)
      have va: "sc_arg_ok (sc_nodes s) vp vn" using v IMPL_SEPARATE_CHAINING by (simp add: chm_arg_ok_def)
      from chm_insert_sc [OF inv [unfolded IMPL_SEPARATE_CHAINING] h(1) h(2) [unfolded IMPL_SEPARATE_CHAINING] conjunct1 [OF True] bs(2,3) va, where keep = "out = Slot_out"]
      obtain rv m' h' i where r: "sc_insert_impl sec s (Outside bs, length k) (vp, vn) (out = Slot_out) h = Some (rv, m', h', i)"
        "chm_inserted sec kt vt custom ceq (IMPL_SEPARATE_CHAINING s) h k (sc_read (sc_nodes s) vp vn) (out = Slot_out) rv (IMPL_SEPARATE_CHAINING m') h'" by auto
      then show ?thesis using True c nn out unfolding unf unfolding IMPL_SEPARATE_CHAINING
        by (cases out) (auto simp: sc_insert_or_get_def sc_insert_def wrap_sc_def)
    qed
  qed
qed

section \<open>Deletion, reset and destruction\<close>

lemma chm_delete_ends:
  assumes inv: "chm_inv sec kt vt custom ceq m" and h: "heap_ok h" "chm_owned m \<subseteq> live h"
  shows "\<exists>rv m' h'. chashmap_delete_elem sec (Some m) (Some (Outside k, length k)) h = Some (rv, Some m', h')
     \<and> chm_inv sec kt vt custom ceq m' \<and> blocks_moved (chm_owned m) (chm_owned m') h h'
     \<and> (if \<not> key_valid kt k then rv = ccol_invalid_args \<and> m' = m
        else if chm_view m k = None then rv = ccol_key_not_found \<and> m' = m
        else rv = ccol_success \<and> chm_view m' = map_put ceq kt k None (chm_view m))"
proof -
  have kt: "chmap_key_type m = kt" using inv by (cases m; auto)
  obtain bs where bs: "canonicalize_key_pair_if_needed m (Outside k, length k) kt = (Outside bs, length k)"
    "take (length k) bs = canon_key kt k" "length k \<le> length bs" using canonicalize_Outside by blast
  note unf = chashmap_delete_elem_def [of sec "Some m" "Some (Outside k, length k)" h, unfolded option.case prod.case kt bs(1) Let_def]
  have self: "blocks_moved (chm_owned m) (chm_owned m) h h" by (rule blocks_kept_moved) (use h in auto)
  show ?thesis
  proof (cases "key_valid kt k")
    case False
    then show ?thesis unfolding unf using inv self by (auto simp: key_valid_def)
  next
    case True
    then have c: "k \<noteq> []" "key_size_matches_type_if_fixed_width kt (length k)" by (auto simp: key_valid_def)
    show ?thesis
    proof (cases m)
      case (IMPL_OPEN_ADDRESSING om)
      have i: "oa_inv sec om" "oa_key_type om = kt" "ceq = None" "hm_blk om \<noteq> oa_table om" "hm_blk om \<in> live h" "oa_table om \<in> live h"
        using inv h(2) IMPL_OPEN_ADDRESSING by auto
      note ty = oa_inv_types [OF i(1)]
      have len: "length k = oa_key_size om" using True key_valid_integral ty i(2) by simp
      have arg: "oa_arg_ok om (Outside bs) (oa_key_size om)" using bs(3) len by (simp add: oa_arg_ok_def)
      have rd: "oa_read (oa_slots om) (Outside bs) (oa_key_size om) = canon_key kt k" using bs(2) len by (simp add: oa_read_def)
      let ?w = "le_word (canon_key kt k)"
      from oa_delete_ends [OF i(1) h(1) i(6) arg, unfolded rd] obtain rv m' h' where
        r: "oa_delete sec om (Outside bs, oa_key_size om) h = Some (rv, m', h')" "oa_inv sec m'" "oa_same_kind om m'"
          "blocks_moved {oa_table om} {oa_table m'} h h'"
          "if oa_view om ?w = None then rv = ccol_key_not_found \<and> m' = om else rv = ccol_success \<and> oa_view m' = (oa_view om)(?w := None)" by blast
      have old: "chm_view m k = oa_view om ?w" using True i(2) IMPL_OPEN_ADDRESSING by simp
      note moved = oa_owned_moved [OF r(3,4) i(5,4)]
      have "dom (oa_view m') \<subseteq> insert ?w (dom (oa_view om))" using r(5) by (auto split: if_splits)
      then have "keys_fit m'" using keys_fit_upd [of om m' "canon_key kt k"] inv IMPL_OPEN_ADDRESSING r(3) len ty(5) by auto
      then have inv': "chm_inv sec kt vt custom ceq (IMPL_OPEN_ADDRESSING m')"
        using r(2,3) moved(2) inv IMPL_OPEN_ADDRESSING by (auto simp: oa_same_kind_def)
      have run: "chashmap_delete_elem sec (Some m) (Some (Outside k, length k)) h = Some (rv, Some (IMPL_OPEN_ADDRESSING m'), h')"
        unfolding unf using c r(1) len IMPL_OPEN_ADDRESSING by (auto simp flip: length_0_conv)
      have new: "chm_view (IMPL_OPEN_ADDRESSING m') = map_put ceq kt k None (chm_view m)" if "oa_view m' = (oa_view om)(?w := None)"
        using oa_view_put [OF i(1) r(3), of k None] that True i(2,3) IMPL_OPEN_ADDRESSING by simp
      show ?thesis unfolding run using inv' moved(1) r(5) old new True IMPL_OPEN_ADDRESSING by (cases "oa_view om ?w") auto
    next
      case (IMPL_SEPARATE_CHAINING s)
      have i: "sc_inv sec s" "sc_key_type s = kt" "sc_custom_eq s = ceq" "sc_owned s \<subseteq> live h" using inv h(2) IMPL_SEPARATE_CHAINING by auto
      have rd: "sc_read (sc_nodes s) (Outside bs) (length k) = canon_key kt k" using bs(2) by (simp add: sc_read_def)
      let ?c = "canon_key kt k"
      from sc_delete_ends [OF i(1) h(1) i(4), of "Outside bs" "length k", unfolded rd] obtain rv m' h' where
        r: "sc_delete sec s (Outside bs, length k) h = Some (rv, m', h')" "sc_inv sec m'" "sc_same_kind s m'"
          "blocks_moved (sc_owned s) (sc_owned m') h h'"
          "if al_get (sc_same s) ?c (sc_entries s) = None then rv = ccol_key_not_found \<and> m' = s
           else rv = ccol_success \<and> sc_entries m' = al_del (sc_same s) ?c (sc_entries s)" by blast
      have old: "chm_view m k = al_get (sc_same s) ?c (sc_entries s)" using True i(2) IMPL_SEPARATE_CHAINING by simp
      have inv': "chm_inv sec kt vt custom ceq (IMPL_SEPARATE_CHAINING m')" using r(2,3) inv IMPL_SEPARATE_CHAINING by (auto simp: sc_same_kind_def)
      have run: "chashmap_delete_elem sec (Some m) (Some (Outside k, length k)) h = Some (rv, Some (IMPL_SEPARATE_CHAINING m'), h')"
        unfolding unf using c r(1) IMPL_SEPARATE_CHAINING by simp
      have new: "chm_view (IMPL_SEPARATE_CHAINING m') = map_put ceq kt k None (chm_view m)"
        if "sc_entries m' = al_del (sc_same s) ?c (sc_entries s)"
        using sc_view_del [OF i(1) r(3), of k] that i(2,3) IMPL_SEPARATE_CHAINING by simp
      show ?thesis unfolding run using inv' r(4,5) old new True IMPL_SEPARATE_CHAINING
        by (cases "al_get (sc_same s) ?c (sc_entries s)") auto
    qed
  qed
qed

lemma chm_view_empty_oa: "oa_view m = Map.empty \<Longrightarrow> chm_view (IMPL_OPEN_ADDRESSING m) = Map.empty"
  by (simp add: fun_eq_iff)

lemma chm_view_empty_sc: "sc_entries m = [] \<Longrightarrow> chm_view (IMPL_SEPARATE_CHAINING m) = Map.empty"
  by (simp add: fun_eq_iff)

text \<open>Deleting a key that is not there.\<close>

lemma user_same_view:
  assumes inv: "chm_inv sec kt vt custom ceq m" and k: "key_valid kt k" "key_valid kt j" "user_same ceq kt j k"
  shows "chm_view m j = chm_view m k"
proof (cases m)
  case (IMPL_OPEN_ADDRESSING om)
  then have i: "oa_inv sec om" "oa_key_type om = kt" "ceq = None" using inv by auto
  have "kt \<noteq> ccol_long_double" using oa_inv_types(1) [OF i(1)] i(2) by (auto simp: is_type_integral_def)
  then have "canon_key kt j = canon_key kt k" using k(3) i(3) by (simp add: user_same_def same_key_def)
  then show ?thesis using k i(2) IMPL_OPEN_ADDRESSING by simp
next
  case (IMPL_SEPARATE_CHAINING s)
  then have i: "sc_inv sec s" "sc_key_type s = kt" "sc_custom_eq s = ceq" using inv by auto
  note eq = sc_same_equiv [OF i(1)]
  have "sc_same s (canon_key kt j) (canon_key kt k)" using k(3) i(2,3) by (simp add: user_same_def sc_same_def)
  then have "sc_same s x (canon_key kt j) \<longleftrightarrow> sc_same s x (canon_key kt k)" for x
    using equivp_transp [OF eq, of x] equivp_symp [OF eq] by blast
  from al_get_same [where same = "sc_same s" and j = "canon_key kt j" and k = "canon_key kt k", OF this]
  show ?thesis using k(1,2) i(2) IMPL_SEPARATE_CHAINING by simp
qed

lemma chm_view_absent:
  assumes inv: "chm_inv sec kt vt custom ceq m" and k: "key_valid kt k" "chm_view m k = None"
  shows "map_put ceq kt k None (chm_view m) = chm_view m"
  using user_same_view [OF inv k(1)] k(2) by (auto simp: map_put_def)

text \<open>The size a reset asks the backend for.\<close>

lemma reset_size:
  assumes "n \<le> SIZE_MAX"
  obtains c too_big where "(if n > 0 \<and> n < minimum_allowed_bucket_array_size then (minimum_allowed_bucket_array_size, False)
      else if n > 0 then let rounded = ccol_find_nearest_gte_power_of_two n in
          if rounded > ccol_max_elem_count then (0, True) else (rounded, False)
      else (n, False)) = (c, too_big)" "c = 0 \<or> pow2 c \<and> 16 \<le> c"
proof -
  have sixteen: "pow2 16" using pow2_def [of 16] by (auto intro: exI [of _ 4])
  consider "n = 0" | "0 < n" "n < 16" | "16 \<le> n" "n \<le> ccol_max_elem_count" | "ccol_max_elem_count < n" by linarith
  then show thesis
  proof cases
    case 3
    note p = nearest_pow2_ok [OF 3(2)]
    then show thesis using that [of "ccol_find_nearest_gte_power_of_two n" False] 3 by (simp add: minimum_allowed_bucket_array_size_def)
  next
    case 4
    then have "ccol_find_nearest_gte_power_of_two n > ccol_max_elem_count"
      using nearest_pow2_too_large [OF 4 assms] by (simp add: size_defs)
    then show thesis using that [of 0 True] 4 by (simp add: minimum_allowed_bucket_array_size_def size_defs)
  qed (use that sixteen in \<open>auto simp: minimum_allowed_bucket_array_size_def\<close>)
qed

lemma chm_reset_ends:
  assumes inv: "chm_inv sec kt vt custom ceq m" and h: "heap_ok h" "chm_owned m \<subseteq> live h" and n: "n \<le> SIZE_MAX"
  shows "\<exists>rv m' h'. chashmap_reset (Some m) n h = Some (rv, m', h') \<and> chm_inv sec kt vt custom ceq m'
     \<and> blocks_moved (chm_owned m) (chm_owned m') h h' \<and> chm_view m' = Map.empty \<and> (rv = ccol_success \<or> rv = ccol_not_enough_memory)"
proof -
  obtain c too_big where c: "(if n > 0 \<and> n < minimum_allowed_bucket_array_size then (minimum_allowed_bucket_array_size, False)
      else if n > 0 then let rounded = ccol_find_nearest_gte_power_of_two n in
          if rounded > ccol_max_elem_count then (0, True) else (rounded, False)
      else (n, False)) = (c, too_big)" "c = 0 \<or> pow2 c \<and> 16 \<le> c" using reset_size [OF n] by blast
  note unf = chashmap_reset_def [of "Some m" n h, unfolded option.case, unfolded c(1), unfolded Let_def prod.case]
  show ?thesis
  proof (cases m)
    case (IMPL_OPEN_ADDRESSING om)
    have i: "oa_inv sec om" "hm_blk om \<noteq> oa_table om" "hm_blk om \<in> live h" "oa_table om \<in> live h" using inv h(2) IMPL_OPEN_ADDRESSING by auto
    from oa_reset_ends [OF i(1) h(1) i(4) c(2)] obtain rv m' h' where
      r: "oa_reset om c h = (rv, m', h')" "oa_inv sec m'" "oa_same_kind om m'" "blocks_moved {oa_table om} {oa_table m'} h h'"
        "oa_view m' = Map.empty" "rv = ccol_success \<or> rv = ccol_not_enough_memory" by blast
    note moved = oa_owned_moved [OF r(3,4) i(3,2)]
    have "chm_inv sec kt vt custom ceq (IMPL_OPEN_ADDRESSING m')"
      using r(2,3,5) moved(2) inv IMPL_OPEN_ADDRESSING by (auto simp: oa_same_kind_def keys_fit_def)
    then show ?thesis unfolding unf using r(1,6) moved(1) chm_view_empty_oa [OF r(5)] IMPL_OPEN_ADDRESSING by auto
  next
    case (IMPL_SEPARATE_CHAINING s)
    have i: "sc_inv sec s" "sc_owned s \<subseteq> live h" using inv h(2) IMPL_SEPARATE_CHAINING by auto
    from sc_reset_ends [OF i(1) h(1) i(2) c(2)] obtain rv m' h' where
      r: "sc_reset s c h = Some (rv, m', h')" "sc_inv sec m'" "sc_same_kind s m'" "sc_entries m' = []"
        "blocks_moved (sc_owned s) (sc_owned m') h h'" "rv = ccol_success \<or> rv = ccol_not_enough_memory" by blast
    have "chm_inv sec kt vt custom ceq (IMPL_SEPARATE_CHAINING m')" using r(2,3) inv IMPL_SEPARATE_CHAINING by (auto simp: sc_same_kind_def)
    then show ?thesis unfolding unf using r(1,5,6) chm_view_empty_sc [OF r(4)] IMPL_SEPARATE_CHAINING by auto
  qed
qed

lemma chm_destroy_ends:
  assumes "chm_inv sec kt vt custom ceq m"
  shows "\<exists>h'. chashmap_destroy (Some m) h = Some h' \<and> live h' = live h - chm_owned m"
proof (cases m)
  case (IMPL_OPEN_ADDRESSING om)
  then show ?thesis by (auto simp: oa_destroy_def)
next
  case (IMPL_SEPARATE_CHAINING s)
  then have i: "sc_inv sec s" using assms by simp
  from sc_destroy_ends [OF i, of h] obtain h1 where r: "sc_destroy s h = Some h1" "live h1 = live h - (sc_owned s - {hm_blk s})" by blast
  have "hm_blk s \<in> sc_owned s" by (simp add: sc_owned_def sc_blocks_def)
  then show ?thesis using r IMPL_SEPARATE_CHAINING by auto
qed

section \<open>Creation\<close>

lemma sc_init_ends:
  assumes c: "pow2 c" "4 \<le> c" "c \<le> ccol_max_elem_count" and inl: "inl = (if c \<le> 16 then c else 0)" and ok: "key_procs_ok kt custom ceq"
    and hdr: "hm_blk hdr < next_blk h" "heap_ok h" and init: "sc_init hdr inl c kt vt mp custom ceq h = (r, h')"
  shows "case r of
      None \<Rightarrow> blocks_kept h h'
    | Some m \<Rightarrow> sc_inv sec m \<and> sc_entries m = [] \<and> sc_key_type m = kt \<and> sc_val_type m = vt \<and> sc_custom m = custom
        \<and> sc_custom_eq m = ceq \<and> hm_blk m = hm_blk hdr \<and> sc_owned m = insert (hm_blk hdr) (live h' - live h)
        \<and> live h \<subseteq> live h' \<and> next_blk h \<le> next_blk h' \<and> (\<forall>x \<in> live h'. x \<in> live h \<or> next_blk h \<le> x \<and> x < next_blk h')"
proof -
  define b0 where "b0 = \<lparr>hm_blk = hm_blk hdr, hash_mode = hash_mode hdr, window_bound = window_bound hdr,
     insert_window = insert_window hdr, sc_elem_count = 0, sc_bucket_arr_size = c,
     sc_elem_count_to_scale_up = 0, sc_elem_count_to_scale_down = 0,
     sc_buckets = replicate c [], sc_arr = None,
     sc_all_elems = \<lparr>head = None, tail = None\<rparr>, sc_refs = Map.empty, sc_nodes = Map.empty,
     sc_m_procs = mp, sc_custom = custom, sc_custom_eq = ceq, sc_key_type = kt,
     sc_val_type = vt, sc_inline_buckets = inl\<rparr>"
  have run: "sc_init hdr inl c kt vt mp custom ceq h =
      (case sc_new_arr b0 c h of (None, h) \<Rightarrow> (None, h)
       | (Some arr, h) \<Rightarrow> (Some (sc_cleared (b0\<lparr>sc_arr := arr, sc_bucket_arr_size := c\<rparr>)), h))"
    by (simp add: sc_init_def sc_new_arr_def b0_def sc_cleared_def split: prod.splits option.splits)
  have lk: "sc_linked b0 []" by (simp add: sc_linked_def b0_def dll_def sc_blocks_def)
  have f: "key_procs_ok (sc_key_type b0) (sc_custom b0) (sc_custom_eq b0)" "sc_inline_buckets b0 \<le> 16" "sc_inline_buckets b0 = inl" "hm_blk b0 = hm_blk hdr"
    using ok inl by (auto simp: b0_def)
  have made: "sc_inv sec m \<and> sc_entries m = [] \<and> sc_key_type m = kt \<and> sc_val_type m = vt \<and> sc_custom m = custom
        \<and> sc_custom_eq m = ceq \<and> hm_blk m = hm_blk hdr \<and> sc_owned m = set (hm_blk hdr # opt_list arr)"
    if m: "m = sc_cleared (b0\<lparr>sc_arr := arr, sc_bucket_arr_size := c\<rparr>)" and a: "arr_ok c" "arr = None \<longleftrightarrow> c = inl" "distinct (hm_blk hdr # opt_list arr)" for m arr
  proof -
    have "sc_rep sec m []" "sc_same_kind b0 m" "sc_blocks m [] = hm_blk b0 # opt_list arr"
      unfolding m using sc_cleared_rep [OF lk f(1,2) a(1), of arr] a(2,3) f(3,4) by simp_all
    then show ?thesis using sc_entries_rep [of sec m "[]"] sc_rep_inv [of sec m "[]"] by (simp add: sc_same_kind_def b0_def)
  qed
  obtain arr h1 where n: "sc_new_arr b0 c h = (arr, h1)" by fastforce
  from sc_new_arr_cases [OF n] show ?thesis
  proof (elim disjE exE)
    assume "arr = None \<and> blocks_kept h h1"
    then show ?thesis using init run n by auto
  next
    assume a: "arr = Some None \<and> c = sc_inline_buckets b0 \<and> h1 = h"
    then have "c \<le> 16" using inl c(2) f(3) by (auto split: if_splits)
    then have "arr_ok c" using c by (simp add: arr_ok_def SIZE_MAX_def)
    then show ?thesis using made [OF refl, of None] a init run n f(3) by auto
  next
    fix b assume a: "arr = Some (Some b) \<and> c \<noteq> sc_inline_buckets b0 \<and> c \<le> SIZE_MAX div 8 \<and> b = next_blk h
          \<and> live h1 = insert b (live h) \<and> next_blk h1 = Suc b"
    then have "arr_ok c" using c by (simp add: arr_ok_def)
    then show ?thesis using made [OF refl, of "Some b"] a init run n f(3) hdr(1) heap_ok_fresh [OF hdr(2)] by auto
  qed
qed

text \<open>A number of buckets that creation accepts.\<close>

lemma create_size:
  assumes "n \<le> SIZE_MAX" "pow2 lo" "4 \<le> lo" "lo \<le> 16"
    and "cnt = (if n \<le> lo then lo else ccol_find_nearest_gte_power_of_two n)" "\<not> (n > lo \<and> cnt > ccol_max_elem_count)"
  shows "pow2 cnt \<and> lo \<le> cnt \<and> cnt \<le> ccol_max_elem_count"
proof (cases "n \<le> lo")
  case True
  then show ?thesis using assms by (simp add: ccol_max_elem_count_def)
next
  case False
  then have "n \<le> ccol_max_elem_count" using assms nearest_pow2_too_large [of n] by (force simp: size_defs)
  then show ?thesis using nearest_pow2_ok [of n] False assms(5) by simp
qed

lemma oa_window_restart_inv: "oa_inv sec m \<Longrightarrow> oa_inv sec (oa_window_restart m) \<and> oa_view (oa_window_restart m) = oa_view m"
  using oa_window_restart_fields(3) [of m] by (simp add: oa_window_restart_fields oa_view_def fun_eq_iff oa_same_kind_def)

lemma chm_create_ends:
  assumes h: "heap_ok h" and ok: "key_procs_ok kt custom ceq" and n: "n \<le> SIZE_MAX" and lo: "lo = 4 \<or> lo = 16"
    and run: "chmap_create_impl n kt vt mp custom ceq lo h = (r, h')"
  shows "case r of
      Inl _ \<Rightarrow> blocks_kept h h'
    | Inr m \<Rightarrow> chm_inv sec kt vt custom ceq m \<and> chm_view m = Map.empty \<and> blocks_moved {} (chm_owned m) h h'"
proof -
  define oa where "oa = (ceq = None \<and> should_use_open_addressing kt vt)"
  define fl where "fl = (if oa then minimum_allowed_bucket_array_size else lo)"
  define cnt where "cnt = (if n \<le> fl then fl else ccol_find_nearest_gte_power_of_two n)"
  define inl where "inl = (if \<not> oa \<and> cnt \<le> minimum_allowed_bucket_array_size then cnt else 0)"
  define bytes where "bytes = sizeof_chashmap + inl * 8 + (if (case mp of CallerProcs _ \<Rightarrow> True | _ \<Rightarrow> False) then 32 else 0)"
  note unf = chmap_create_impl_def [of n kt vt mp custom ceq lo h, unfolded Let_def, folded oa_def, folded fl_def, folded cnt_def, folded inl_def, folded bytes_def]
  let ?guard = "n = 0 \<or> ceq \<noteq> None \<and> custom = None \<or> \<not> ccol_verify_memmgmt_procs mp \<or> (n > fl \<and> cnt > ccol_max_elem_count)"
  show ?thesis
  proof (cases ?guard)
    case True
    then have "h' = h \<and> (\<exists>e. r = Inl e)" using run unfolding unf by (auto split: if_splits)
    then show ?thesis by auto
  next
    case False
    have p: "pow2 (4::nat)" "pow2 (16::nat)" using pow2_def [of 4] pow2_def [of 16] by (auto intro: exI [of _ 2] exI [of _ 4])
    have fl: "pow2 fl" "4 \<le> fl" "fl \<le> 16" using lo p by (auto simp: fl_def minimum_allowed_bucket_array_size_def)
    have sz: "pow2 cnt \<and> fl \<le> cnt \<and> cnt \<le> ccol_max_elem_count" by (rule create_size [OF n fl cnt_def]) (use False in blast)
    obtain a h1 where al: "mem_alloc h bytes = (a, h1)" by fastforce
    show ?thesis
    proof (cases a)
      case None
      then show ?thesis using False run al mem_alloc_None [of h bytes h1] unfolding unf by (auto simp: blocks_kept_def)
    next
      case (Some x)
      obtain b bs where x: "x = (b, bs)" by fastforce
      note m1 = mem_alloc_Some [OF al [unfolded Some x]]
      have h1: "heap_ok h1" using h m1 by (auto simp: heap_ok_def)
      have bh: "b \<notin> live h" using heap_ok_fresh [OF h] m1 by simp
      let ?hdr = "\<lparr>hm_blk = b, hash_mode = CHMAP_HASH_FAST, window_bound = 65535, insert_window = CHMAP_WINDOW_START\<rparr>"
      show ?thesis
      proof (cases oa)
        case True
        then have ty: "is_type_integral kt" "is_type_integral vt" "ceq = None" by (auto simp: oa_def should_use_open_addressing_def)
        have s16: "16 \<le> cnt" using sz True by (simp add: fl_def minimum_allowed_bucket_array_size_def)
        obtain ro h2 where ini: "oa_init ?hdr cnt kt vt (get_type_size kt) (get_type_size vt) mp custom h1 = (ro, h2)" by fastforce
        note oi = oa_init_ends [OF conjunct1 [OF sz] s16 ty(1,2), where h = h1 and custom = custom and mp = mp and hdr = ?hdr and sec = sec, unfolded ini]
        have run': "(r, h') = (case ro of None \<Rightarrow> (Inl failed_to_create_open_addressing_map, mem_free h2 b)
            | Some m \<Rightarrow> (Inr (IMPL_OPEN_ADDRESSING (oa_window_restart m)), h2))"
          using False run al Some x True ini unfolding unf by (auto split: option.splits)
        show ?thesis
        proof (cases ro)
          case None
          then show ?thesis using oi run' m1 bh by (auto simp: blocks_kept_def)
        next
          case (Some m)
          have w: "oa_inv sec (oa_window_restart m)" "oa_view (oa_window_restart m) = Map.empty" "oa_same_kind m (oa_window_restart m)"
            "oa_table (oa_window_restart m) = oa_table m"
            using oi Some oa_window_restart_inv [of sec m] by (auto simp: oa_window_restart_fields)
          have f: "oa_key_type m = kt" "oa_val_type m = vt" "oa_custom m = custom"
            using ini Some by (auto simp: oa_init_def split: prod.splits option.splits)
          show ?thesis using oi Some run' w f ty(3) m1 bh h [unfolded heap_ok_def] chm_view_empty_oa [OF w(2)]
            by (auto simp: oa_same_kind_def blocks_moved_def keys_fit_def)
        qed
      next
        case sc: False
        have s4: "4 \<le> cnt" using sz fl(2) by linarith
        obtain ro h2 where ini: "sc_init ?hdr inl cnt kt vt mp custom ceq h1 = (ro, h2)" by fastforce
        have inl: "inl = (if cnt \<le> 16 then cnt else 0)" using sc by (simp add: inl_def minimum_allowed_bucket_array_size_def)
        have hb: "hm_blk ?hdr < next_blk h1" using m1 by simp
        note oi = sc_init_ends [OF conjunct1 [OF sz] s4 conjunct2 [OF conjunct2 [OF sz]] inl ok hb h1 ini, of sec]
        have run': "(r, h') = (case ro of None \<Rightarrow> (Inl failed_to_create_separate_chaining_map, mem_free h2 b)
            | Some m \<Rightarrow> (Inr (IMPL_SEPARATE_CHAINING m), h2))"
          using False run al Some x sc ini unfolding unf by (auto split: option.splits)
        show ?thesis
        proof (cases ro)
          case None
          then show ?thesis using oi run' m1 bh by (auto simp: blocks_kept_def)
        next
          case (Some m)
          then have i: "sc_inv sec m" "sc_entries m = []" "sc_key_type m = kt" "sc_val_type m = vt" "sc_custom m = custom"
            "sc_custom_eq m = ceq" "sc_owned m = insert b (live h2 - live h1)" "live h1 \<subseteq> live h2" "next_blk h1 \<le> next_blk h2"
            "\<forall>x \<in> live h2. x \<in> live h1 \<or> next_blk h1 \<le> x \<and> x < next_blk h2" using oi by auto
          have "blocks_moved {} (sc_owned m) h h2"
            unfolding blocks_moved_def i(7) using i(8-10) m1 bh by (auto; fastforce)
          then show ?thesis using Some run' i(1-6) chm_view_empty_sc [OF i(2)] by simp
        qed
      qed
    qed
  qed
qed

section \<open>Programs over a map\<close>

text \<open>
  \<open>HCopy k j\<close> stores under \<open>k\<close> the value the map holds for \<open>j\<close>, through the
  pointer that a lookup of \<open>j\<close> hands out: the source lies inside the map.
\<close>

datatype hash_op = HPut "byte list" "byte list" | HPutNew "byte list" "byte list" | HCopy "byte list" "byte list"
  | HDelete "byte list" | HReset size_t

definition put_done :: "chm_result \<Rightarrow> bool \<Rightarrow> chashmap \<Rightarrow> bool \<times> chashmap \<times> heap" where
  "put_done r keep m = (case r of (rv, m', h, _) \<Rightarrow>
     (rv = ccol_success \<or> rv = ccol_key_already_present \<and> \<not> keep, (case m' of Some m' \<Rightarrow> m' | None \<Rightarrow> m), h))"

fun chm_step :: "chmap_hash_secret \<Rightarrow> hash_op \<Rightarrow> chashmap \<Rightarrow> heap \<Rightarrow> (bool \<times> chashmap \<times> heap) option" where
  "chm_step sec (HPut k v) m h = do {
     r \<leftarrow> chashmap_insert_elem sec (Some m) (Some (Outside k, length k)) (Some (Outside v, length v)) h;
     Some (put_done r False m)
   }"
| "chm_step sec (HPutNew k v) m h = do {
     r \<leftarrow> ccol_chmap_insert_or_get_elem sec (Some m) (Some (Outside k, length k)) (Some (Outside v, length v)) True h;
     Some (put_done r True m)
   }"
| "chm_step sec (HCopy k j) m h = do {
     (rv, p, n) \<leftarrow> chashmap_get_elem_ref sec (Some m) (Some (Outside j, length j)) True;
     if rv \<noteq> ccol_success then Some (False, m, h)
     else do {
       r \<leftarrow> chashmap_insert_elem sec (Some m) (Some (Outside k, length k)) (Some (p, n)) h;
       Some (put_done r False m)
     }
   }"
| "chm_step sec (HDelete k) m h = do {
     (rv, m', h) \<leftarrow> chashmap_delete_elem sec (Some m) (Some (Outside k, length k)) h;
     Some (rv = ccol_success, case m' of Some m' \<Rightarrow> m' | None \<Rightarrow> m, h)
   }"
| "chm_step sec (HReset n) m h = do {
     (rv, m, h) \<leftarrow> chashmap_reset (Some m) n h;
     Some (True, m, h)
   }"

text \<open>The same program on a function from keys to values.\<close>

fun hash_spec :: "key_equality_proc option \<Rightarrow> ccol_data_type \<Rightarrow> hash_op \<Rightarrow> (byte list \<Rightarrow> byte list option) \<Rightarrow> byte list \<Rightarrow> byte list option" where
  "hash_spec ceq kt (HPut k v) a = map_put ceq kt k (Some v) a"
| "hash_spec ceq kt (HPutNew k v) a = map_put ceq kt k (Some v) a"
| "hash_spec ceq kt (HCopy k j) a = map_put ceq kt k (a j) a"
| "hash_spec ceq kt (HDelete k) a = map_put ceq kt k None a"
| "hash_spec ceq kt (HReset n) a = Map.empty"

fun hash_pre :: "hash_op \<Rightarrow> bool" where
  "hash_pre (HReset n) \<longleftrightarrow> n \<le> SIZE_MAX"
| "hash_pre _ \<longleftrightarrow> True"

definition chm_create :: "size_t \<Rightarrow> ccol_data_type \<Rightarrow> ccol_data_type \<Rightarrow> mprocs \<Rightarrow> hashing_proc option \<Rightarrow> key_equality_proc option \<Rightarrow>
    heap \<Rightarrow> chashmap option \<times> heap" where
  "chm_create n kt vt mp custom ceq h =
     (case chashmap_create_full n kt vt mp custom ceq h of (Inl _, h) \<Rightarrow> (None, h) | (Inr m, h) \<Rightarrow> (Some m, h))"

lemma chm_put_step:
  assumes inv: "chm_inv sec kt vt custom ceq m" and h: "heap_ok h" "chm_owned m \<subseteq> live h" and v: "chm_arg_ok m vp vn"
    and out: "out = (if keep then Slot_out else No_out)"
  shows "\<exists>r ok m' h'. chmap_insert_elem_impl sec (Some m) (Some (Outside k, length k)) (Some (vp, vn)) out h = Some r
     \<and> put_done r keep m = (ok, m', h') \<and> chm_inv sec kt vt custom ceq m' \<and> blocks_moved (chm_owned m) (chm_owned m') h h'
     \<and> chm_view m' = (if ok then map_put ceq kt k (Some (chm_read m vp vn)) (chm_view m) else chm_view m)"
proof -
  have "out \<noteq> Entry_out" using out by simp
  from chm_insert_ends [OF inv h v this, of k] obtain rv m' h' i where
    r: "chmap_insert_elem_impl sec (Some m) (Some (Outside k, length k)) (Some (vp, vn)) out h = Some (rv, Some m', h', i)"
      "if key_valid kt k \<and> val_valid vt vn then chm_inserted sec kt vt custom ceq m h k (chm_read m vp vn) (out = Slot_out) rv m' h'
        else rv = ccol_invalid_args \<and> m' = m \<and> h' = h" by blast
  have self: "blocks_moved (chm_owned m) (chm_owned m) h h" by (rule blocks_kept_moved) (use h in auto)
  show ?thesis using r(2) self inv out unfolding r(1)
    by (cases keep) (auto simp: put_done_def chm_inserted_def split: if_splits)
qed

lemma chm_step_sim:
  assumes inv: "chm_inv sec kt vt custom ceq m" and h: "heap_ok h" "chm_owned m \<subseteq> live h" and pre: "hash_pre op"
  shows "\<exists>ok m' h'. chm_step sec op m h = Some (ok, m', h') \<and> chm_inv sec kt vt custom ceq m'
     \<and> chm_view m' = (if ok then hash_spec ceq kt op (chm_view m) else chm_view m) \<and> blocks_moved (chm_owned m) (chm_owned m') h h'"
proof (cases op)
  case (HPut k v)
  have v: "chm_arg_ok m (Outside v) (length v)" "chm_read m (Outside v) (length v) = v"
    by (cases m; simp add: chm_arg_ok_def oa_arg_ok_def sc_arg_ok_def oa_read_def sc_read_def)+
  show ?thesis using chm_put_step [OF inv h v(1), of No_out False k] v(2) HPut by (auto simp: chashmap_insert_elem_def)
next
  case (HPutNew k v)
  have v: "chm_arg_ok m (Outside v) (length v)" "chm_read m (Outside v) (length v) = v"
    by (cases m; simp add: chm_arg_ok_def oa_arg_ok_def sc_arg_ok_def oa_read_def sc_read_def)+
  show ?thesis using chm_put_step [OF inv h v(1), of Slot_out True k] v(2) HPutNew by (auto simp: ccol_chmap_insert_or_get_elem_def)
next
  case (HCopy k j)
  have self: "blocks_moved (chm_owned m) (chm_owned m) h h" by (rule blocks_kept_moved) (use h in auto)
  show ?thesis
  proof (cases "chm_view m j")
    case None
    then show ?thesis using chm_get_ends [OF inv, of j] inv self HCopy by auto
  next
    case (Some v)
    with chm_get_ends [OF inv, of j] obtain i where i: "chashmap_get_elem_ref sec (Some m) (Some (Outside j, length j)) True = Some (ccol_success, InMap i, length v)"
      "chm_read m (InMap i) (length v) = v" "chm_arg_ok m (InMap i) (length v)" by auto
    show ?thesis using chm_put_step [OF inv h i(3), of No_out False k] i(1,2) Some HCopy by (auto simp: chashmap_insert_elem_def)
  qed
next
  case (HDelete k)
  from chm_delete_ends [OF inv h, of k] obtain rv m' h' where
    r: "chashmap_delete_elem sec (Some m) (Some (Outside k, length k)) h = Some (rv, Some m', h')" "chm_inv sec kt vt custom ceq m'"
      "blocks_moved (chm_owned m) (chm_owned m') h h'"
      "if \<not> key_valid kt k then rv = ccol_invalid_args \<and> m' = m
        else if chm_view m k = None then rv = ccol_key_not_found \<and> m' = m
        else rv = ccol_success \<and> chm_view m' = map_put ceq kt k None (chm_view m)" by blast
  then show ?thesis using HDelete by (auto split: if_splits)
next
  case (HReset n)
  then show ?thesis using chm_reset_ends [OF inv h, of n] pre by auto
qed

lemma chm_create_spec:
  assumes "heap_ok h" "key_procs_ok kt custom ceq" "n \<le> SIZE_MAX" "chm_create n kt vt mp custom ceq h = (r, h')"
  shows "case r of None \<Rightarrow> blocks_kept h h'
    | Some m \<Rightarrow> chm_inv sec kt vt custom ceq m \<and> chm_view m = Map.empty \<and> blocks_moved {} (chm_owned m) h h'"
proof -
  obtain r0 h0 where run: "chmap_create_impl n kt vt mp custom ceq 16 h = (r0, h0)" by fastforce
  have "(r, h') = (case r0 of Inl _ \<Rightarrow> None | Inr m \<Rightarrow> Some m, h0)"
    using assms(4) run by (auto simp: chm_create_def chashmap_create_full_def minimum_allowed_bucket_array_size_def split: sum.splits)
  then show ?thesis using chm_create_ends [OF assms(1-3) _ run, of sec] by (auto split: sum.splits)
qed

interpretation chm: container
  "\<lambda>h. if key_procs_ok kt custom ceq \<and> n \<le> SIZE_MAX then chm_create n kt vt mp custom ceq h else (None, h)"
  "chm_step sec" "\<lambda>m. chashmap_destroy (Some m)" "Map.empty" "hash_spec ceq kt" "\<lambda>op a. hash_pre op"
  "chm_lookup sec" "chm_inv sec kt vt custom ceq" chm_owned for n kt vt mp custom ceq sec
proof
  fix h h' assume "heap_ok h" "(if key_procs_ok kt custom ceq \<and> n \<le> SIZE_MAX then chm_create n kt vt mp custom ceq h else (None, h)) = (None, h')"
  then show "blocks_kept h h'"
    using chm_create_spec [of h kt custom ceq n vt mp None h'] by (auto split: if_splits)
next
  fix h c h' assume a: "heap_ok h" "(if key_procs_ok kt custom ceq \<and> n \<le> SIZE_MAX then chm_create n kt vt mp custom ceq h else (None, h)) = (Some c, h')"
  then have "chm_inv sec kt vt custom ceq c \<and> chm_view c = Map.empty \<and> blocks_moved {} (chm_owned c) h h'"
    using chm_create_spec [of h kt custom ceq n vt mp "Some c" h' sec] by (auto split: if_splits)
  then show "chm_inv sec kt vt custom ceq c \<and> chm_lookup sec c = Map.empty \<and> blocks_moved {} (chm_owned c) h h'"
    using chm_lookup_view [of sec kt vt custom ceq c] by auto
next
  fix c op and h :: heap
  assume a: "chm_inv sec kt vt custom ceq c" "heap_ok h" "chm_owned c \<subseteq> live h" "hash_pre op"
  have "chm_lookup sec c = chm_view c" using chm_lookup_view [OF a(1)] by blast
  moreover have "chm_lookup sec c' = chm_view c'" if "chm_inv sec kt vt custom ceq c'" for c' using chm_lookup_view [OF that] by blast
  ultimately show "\<exists>ok c' h'. chm_step sec op c h = Some (ok, c', h') \<and> chm_inv sec kt vt custom ceq c'
      \<and> chm_lookup sec c' = (if ok then hash_spec ceq kt op (chm_lookup sec c) else chm_lookup sec c)
      \<and> blocks_moved (chm_owned c) (chm_owned c') h h'"
    using chm_step_sim [OF a] by metis
next
  fix c and h :: heap
  assume "chm_inv sec kt vt custom ceq c"
  then show "\<exists>h'. chashmap_destroy (Some c) h = Some h' \<and> live h' = live h - chm_owned c" by (rule chm_destroy_ends)
qed

lemma pre_ops_static: "pre_ops (\<lambda>op a. P op) spec ops a \<longleftrightarrow> list_all P ops"
  by (induction ops arbitrary: a) auto

section \<open>The properties\<close>

text \<open>
  Claim C1.  The hash map refines a map from keys to values.  For every key and value
  type, so for both backends, every hash function and key equality that agree, every
  allocator and every program of insertions, insertions of new keys only, copies of one
  stored value under another key through the pointer a lookup gave, deletions and
  resets: the program runs to its end, so no assertion fails, no freed node is read and
  no probe or rebuild loops for ever; what a lookup then reports of every key, equal
  keys and the two zeros of a floating-point type being one key, is what the same
  program gives on a function; and destroying the map leaves exactly the blocks that
  were live before it was created.
\<close>

theorem chashmap_refines_map:
  assumes "heap_ok h" "key_procs_ok kt custom ceq" "n \<le> SIZE_MAX" "list_all hash_pre ops"
    "chashmap_create_full n kt vt mp custom ceq h = (Inr m, h1)"
  shows "\<exists>oks m' h2 h3. run_ops (chm_step sec) ops m h1 = Some (oks, m', h2) \<and> length oks = length ops
     \<and> chm_lookup sec m' = spec_ops (hash_spec ceq kt) ops oks Map.empty
     \<and> chashmap_destroy (Some m') h2 = Some h3 \<and> live h3 = live h"
proof -
  have c: "(if key_procs_ok kt custom ceq \<and> n \<le> SIZE_MAX then chm_create n kt vt mp custom ceq h else (None, h)) = (Some m, h1)"
    using assms by (simp add: chm_create_def)
  show ?thesis using chm.lifecycle [OF assms(1) c, of ops sec] assms(4) by (auto simp: pre_ops_static)
qed

text \<open>A map from \<^verbatim>\<open>double\<close> keys to strings, under the built-in hash and equality.\<close>

definition grants :: heap where
  "grants = \<lparr>answers = [Grant (\<lambda>_. 0), Grant (\<lambda>_. 0), Grant (\<lambda>_. 0), Refuse, Grant (\<lambda>_. 0)], next_blk = 0, live = {}\<rparr>"

definition small_secret :: chmap_hash_secret where
  "small_secret = \<lparr>sip_v = (1, 2, 3, 4), int_seed = 5, byte_seed = 6\<rparr>"

lemma key_procs_ok_default: "key_procs_ok kt None None"
  by (simp add: key_procs_ok_def)

theorem chashmap_refines_map_witness:
  "\<exists>m h1. chashmap_create_full 4 ccol_double ccol_string DefaultProcs None None grants = (Inr m, h1)
     \<and> (\<exists>oks m' h2 h3. run_ops (chm_step small_secret)
            [HPut (replicate 8 0) [7], HCopy [0, 0, 0, 0, 0, 0, 240, 63] (replicate 7 0 @ [128]), HDelete (replicate 8 0), HReset 100] m h1
          = Some (oks, m', h2) \<and> chashmap_destroy (Some m') h2 = Some h3 \<and> live h3 = {})"
proof -
  have h: "heap_ok grants" "live grants = {}" by (simp_all add: grants_def heap_ok_def)
  have "\<exists>m h1. chashmap_create_full 4 ccol_double ccol_string DefaultProcs None None grants = (Inr m, h1)"
    by (simp add: grants_def chashmap_create_full_def chmap_create_impl_def ccol_verify_memmgmt_procs_def should_use_open_addressing_def
        is_type_integral_def minimum_allowed_bucket_array_size_def sc_init_def mem_alloc_def)
  then obtain m h1 where c: "chashmap_create_full 4 ccol_double ccol_string DefaultProcs None None grants = (Inr m, h1)" by blast
  have n: "(4::nat) \<le> SIZE_MAX" by (simp add: SIZE_MAX_def)
  have pre: "list_all hash_pre [HPut (replicate 8 0) [7], HCopy [0, 0, 0, 0, 0, 0, 240, 63] (replicate 7 0 @ [128]), HDelete (replicate 8 0), HReset 100]"
    by (simp add: SIZE_MAX_def)
  show ?thesis using c chashmap_refines_map [OF h(1) key_procs_ok_default n pre c] h(2) by (metis (no_types, lifting))
qed

text \<open>
  Claim C10.  An insert of the hash map, plain or of the kind that keeps a present value,
  on any map that satisfies the invariant, for any key, and for any value bytes, also
  bytes that lie inside the map.  A key or value whose size the type forbids is refused
  with \<^verbatim>\<open>ccol_invalid_args\<close> and changes nothing.  Otherwise \<^verbatim>\<open>ccol_success\<close> means that
  the key was absent and now has the value, \<^verbatim>\<open>ccol_key_already_present\<close> that it was
  there and has the new value, or its own when it is kept, and any other code that
  nothing changed; every other key keeps its value, and the map owns its blocks.
\<close>

theorem chashmap_insert_correct:
  assumes "chm_inv sec kt vt custom ceq m" "heap_ok h" "chm_owned m \<subseteq> live h" "chm_arg_ok m vp vn" "out \<noteq> Entry_out"
  shows "\<exists>rv m' h' i. chmap_insert_elem_impl sec (Some m) (Some (Outside k, length k)) (Some (vp, vn)) out h = Some (rv, Some m', h', i)
     \<and> chm_inv sec kt vt custom ceq m' \<and> blocks_moved (chm_owned m) (chm_owned m') h h'
     \<and> (if \<not> (key_valid kt k \<and> val_valid vt vn) then rv = ccol_invalid_args \<and> chm_lookup sec m' = chm_lookup sec m
        else if rv = ccol_success then chm_lookup sec m k = None \<and> chm_lookup sec m' = map_put ceq kt k (Some (chm_read m vp vn)) (chm_lookup sec m)
        else if rv = ccol_key_already_present then chm_lookup sec m k \<noteq> None
          \<and> chm_lookup sec m' = (if out = Slot_out then chm_lookup sec m else map_put ceq kt k (Some (chm_read m vp vn)) (chm_lookup sec m))
        else (rv = ccol_not_enough_memory \<or> rv = ccol_container_full) \<and> chm_lookup sec m' = chm_lookup sec m)"
proof -
  have look: "chm_lookup sec m' = chm_view m'" if "chm_inv sec kt vt custom ceq m'" for m' using chm_lookup_view [OF that] by blast
  have self: "blocks_moved (chm_owned m) (chm_owned m) h h" by (rule blocks_kept_moved) (use assms in auto)
  from chm_insert_ends [OF assms, of k] obtain rv m' h' i where
    r: "chmap_insert_elem_impl sec (Some m) (Some (Outside k, length k)) (Some (vp, vn)) out h = Some (rv, Some m', h', i)"
      "if key_valid kt k \<and> val_valid vt vn then chm_inserted sec kt vt custom ceq m h k (chm_read m vp vn) (out = Slot_out) rv m' h'
        else rv = ccol_invalid_args \<and> m' = m \<and> h' = h" by blast
  show ?thesis
  proof (cases "key_valid kt k \<and> val_valid vt vn")
    case True
    then have ins: "chm_inserted sec kt vt custom ceq m h k (chm_read m vp vn) (out = Slot_out) rv m' h'" using r(2) by simp
    then have "chm_inv sec kt vt custom ceq m'" by (simp add: chm_inserted_def)
    then show ?thesis using r(1) ins True look [of m'] look [OF assms(1)] by (auto simp: chm_inserted_def)
  next
    case False
    then show ?thesis using r assms(1) self by auto
  qed
qed

text \<open>The map of \<^verbatim>\<open>int\<close> keys and values that an allocator that grants everything gives.\<close>

lemma int_map_ex: "\<exists>m h1. chm_create 1 ccol_int ccol_int DefaultProcs None None grants = (Some m, h1) \<and> chm_inv small_secret ccol_int ccol_int None None m
    \<and> heap_ok h1 \<and> chm_owned m \<subseteq> live h1 \<and> chm_lookup small_secret m = Map.empty"
proof -
  have h: "heap_ok grants" "(1::nat) \<le> SIZE_MAX" by (simp_all add: grants_def heap_ok_def SIZE_MAX_def)
  have "\<exists>m h1. chm_create 1 ccol_int ccol_int DefaultProcs None None grants = (Some m, h1)"
    by (simp add: grants_def chm_create_def chashmap_create_full_def chmap_create_impl_def ccol_verify_memmgmt_procs_def should_use_open_addressing_def
        is_type_integral_def minimum_allowed_bucket_array_size_def oa_init_def oa_alloc_block_def OA_BLOCK_BYTES_PER_SLOT_def SIZE_MAX_def mem_alloc_def mem_calloc_def)
  then obtain m h1 where c: "chm_create 1 ccol_int ccol_int DefaultProcs None None grants = (Some m, h1)" by blast
  have m: "chm_inv small_secret ccol_int ccol_int None None m" "blocks_moved {} (chm_owned m) grants h1" "chm_view m = Map.empty"
    using chm_create_spec [OF h(1) key_procs_ok_default h(2) c, of small_secret] by auto
  have "chm_lookup small_secret m = Map.empty" using chm_lookup_view [OF m(1)] m(3) by auto
  then show ?thesis using m c blocks_moved_heap_ok [OF m(2) h(1)] by (auto simp: blocks_moved_def)
qed

theorem chashmap_insert_correct_witness:
  "\<exists>m h1. chm_create 1 ccol_int ccol_int DefaultProcs None None grants = (Some m, h1)
     \<and> (\<exists>rv m' h' i. chmap_insert_elem_impl small_secret (Some m) (Some (Outside [1, 2, 3, 4], length [1::byte, 2, 3, 4])) (Some (Outside [5, 6, 7, 8], 4)) No_out h1
          = Some (rv, Some m', h', i)
          \<and> (rv = ccol_success \<and> chm_lookup small_secret m' [1, 2, 3, 4] = Some [5, 6, 7, 8]
              \<or> rv \<noteq> ccol_success \<and> chm_lookup small_secret m' [1, 2, 3, 4] = None))"
proof -
  obtain m h1 where m: "chm_create 1 ccol_int ccol_int DefaultProcs None None grants = (Some m, h1)"
    "chm_inv small_secret ccol_int ccol_int None None m" "heap_ok h1" "chm_owned m \<subseteq> live h1" "chm_lookup small_secret m = Map.empty" using int_map_ex by blast
  have v: "chm_arg_ok m (Outside [5, 6, 7, 8]) 4" "chm_read m (Outside [5, 6, 7, 8]) 4 = [5, 6, 7, 8]"
    by (cases m; simp add: chm_arg_ok_def oa_arg_ok_def sc_arg_ok_def oa_read_def sc_read_def)+
  have k: "key_valid ccol_int [1, 2, 3, 4]" "val_valid ccol_int 4" "user_same None ccol_int [1, 2, 3, 4] [1, 2, 3, 4]"
    by (simp_all add: key_valid_def key_size_matches_type_if_fixed_width_def val_valid_def val_size_matches_type_if_fixed_width_def user_same_def same_key_def)
  have o: "No_out \<noteq> Entry_out" by simp
  from chashmap_insert_correct [OF m(2-4) v(1) o, of "[1, 2, 3, 4]", unfolded m(5) v(2)] k obtain rv m' h' i where
    r: "chmap_insert_elem_impl small_secret (Some m) (Some (Outside [1, 2, 3, 4], length [1::byte, 2, 3, 4])) (Some (Outside [5, 6, 7, 8], 4)) No_out h1 = Some (rv, Some m', h', i)"
      "chm_lookup small_secret m' = (if rv = ccol_success then map_put None ccol_int [1, 2, 3, 4] (Some [5, 6, 7, 8]) Map.empty else Map.empty)"
    by (auto split: if_splits)
  have "rv = ccol_success \<and> chm_lookup small_secret m' [1, 2, 3, 4] = Some [5, 6, 7, 8] \<or> rv \<noteq> ccol_success \<and> chm_lookup small_secret m' [1, 2, 3, 4] = None"
    using k by (simp add: r(2) map_put_def)
  then show ?thesis using m(1) r(1) by blast
qed

text \<open>
  Claim C11.  A delete of the hash map removes the entry of the key and no other, with the
  backward shift of the open-addressing table, the unlinking of the chained one and
  whatever either shrinks to afterwards; it reports a key that is not there and a key
  whose size the type forbids, and changes nothing then.
\<close>

theorem chashmap_delete_correct:
  assumes "chm_inv sec kt vt custom ceq m" "heap_ok h" "chm_owned m \<subseteq> live h"
  shows "\<exists>rv m' h'. chashmap_delete_elem sec (Some m) (Some (Outside k, length k)) h = Some (rv, Some m', h')
     \<and> chm_inv sec kt vt custom ceq m' \<and> blocks_moved (chm_owned m) (chm_owned m') h h'
     \<and> chm_lookup sec m' = (if key_valid kt k then map_put ceq kt k None (chm_lookup sec m) else chm_lookup sec m)
     \<and> rv = (if \<not> key_valid kt k then ccol_invalid_args else if chm_lookup sec m k = None then ccol_key_not_found else ccol_success)"
proof -
  from chm_delete_ends [OF assms, of k] obtain rv m' h' where
    r: "chashmap_delete_elem sec (Some m) (Some (Outside k, length k)) h = Some (rv, Some m', h')" "chm_inv sec kt vt custom ceq m'"
      "blocks_moved (chm_owned m) (chm_owned m') h h'"
      "if \<not> key_valid kt k then rv = ccol_invalid_args \<and> m' = m
        else if chm_view m k = None then rv = ccol_key_not_found \<and> m' = m
        else rv = ccol_success \<and> chm_view m' = map_put ceq kt k None (chm_view m)" by blast
  have look: "chm_lookup sec m = chm_view m" "chm_lookup sec m' = chm_view m'"
    using chm_lookup_view [OF assms(1)] chm_lookup_view [OF r(2)] by blast+
  have "chm_view m' = (if key_valid kt k then map_put ceq kt k None (chm_view m) else chm_view m)"
    using r(4) chm_view_absent [OF assms(1), of k] by (auto split: if_splits)
  then show ?thesis using r look by (auto split: if_splits)
qed

theorem chashmap_delete_correct_witness:
  "\<exists>m h1. chm_create 1 ccol_int ccol_int DefaultProcs None None grants = (Some m, h1)
     \<and> (\<exists>m' h'. chashmap_delete_elem small_secret (Some m) (Some (Outside [1, 2, 3], length [1::byte, 2, 3])) h1 = Some (ccol_invalid_args, Some m', h')
          \<and> chm_lookup small_secret m' = chm_lookup small_secret m)"
proof -
  obtain m h1 where m: "chm_create 1 ccol_int ccol_int DefaultProcs None None grants = (Some m, h1)"
    "chm_inv small_secret ccol_int ccol_int None None m" "heap_ok h1" "chm_owned m \<subseteq> live h1" using int_map_ex by blast
  have k: "\<not> key_valid ccol_int [1, 2, 3]" by (simp add: key_valid_def key_size_matches_type_if_fixed_width_def)
  from chashmap_delete_correct [OF m(2-4), of "[1, 2, 3]"] k m(1) show ?thesis by auto
qed

end
