(* ===== verification/CCol_Hashmap_Iter.thy ===== *)
theory CCol_Hashmap_Iter
  imports CCol_Hashmap_Spec "HOL-Library.Multiset"
begin

text \<open>
  The iterator, the allocation-free walk and the destructor pass of
  \<^verbatim>\<open>src/chashmap.c\<close>: each visits every entry of either backend once, the chained
  backend in the order of insertion, and an iterator that ends frees its block.
\<close>

section \<open>Positions\<close>

text \<open>A list of positions that a successor function runs through from its first to its last.\<close>

fun follows :: "(nat \<Rightarrow> nat option option) \<Rightarrow> nat list \<Rightarrow> bool" where
  "follows succ [] \<longleftrightarrow> True"
| "follows succ [a] \<longleftrightarrow> succ a = Some None"
| "follows succ (a # b # xs) \<longleftrightarrow> succ a = Some (Some b) \<and> follows succ (b # xs)"

lemma follows_Cons: "follows succ (a # xs) \<longleftrightarrow> succ a = Some (first_or xs None) \<and> follows succ xs"
  by (cases xs) simp_all

fun chm_succ :: "chashmap \<Rightarrow> nat \<Rightarrow> nat option option" where
  "chm_succ (IMPL_SEPARATE_CHAINING m) a = map_option dl_next (sc_refs m a)"
| "chm_succ (IMPL_OPEN_ADDRESSING m) i =
     (let j = oa_next_occupied (oa_metadata m) (oa_capacity m) (i + 1) in Some (if j \<ge> oa_capacity m then None else Some j))"

fun chm_positions :: "chashmap \<Rightarrow> nat list" where
  "chm_positions (IMPL_SEPARATE_CHAINING m) = sc_order m"
| "chm_positions (IMPL_OPEN_ADDRESSING m) = filter (occupied (oa_metadata m)) [0..<oa_capacity m]"

lemma oa_next_occupied_filter:
  "filter (occupied md) [i..<c] =
     (let j = oa_next_occupied md c i in if j \<ge> c then [] else j # filter (occupied md) [j + 1..<c])"
proof (induction md c i rule: oa_next_occupied.induct)
  case (1 md c i)
  show ?case
  proof (cases "i < c \<and> \<not> occupied md i")
    case True
    then have "oa_next_occupied md c i = oa_next_occupied md c (i + 1)" by (subst oa_next_occupied.simps) simp
    then show ?thesis using 1 [OF True] True by (simp add: upt_conv_Cons)
  next
    case False
    then have "oa_next_occupied md c i = i" by (subst oa_next_occupied.simps) auto
    then show ?thesis using False by (cases "i < c") (simp_all add: upt_conv_Cons Let_def)
  qed
qed

lemma oa_next_occupied_ge: "i \<le> oa_next_occupied md c i"
  by (induction md c i rule: oa_next_occupied.induct) (subst oa_next_occupied.simps, force)

lemma oa_next_first: "first_or (filter (occupied md) [i..<c]) None =
    (let j = oa_next_occupied md c i in if j \<ge> c then None else Some j)"
  unfolding oa_next_occupied_filter [of md i c] by (simp add: Let_def)

lemma oa_follows: "follows (chm_succ (IMPL_OPEN_ADDRESSING m)) (filter (occupied (oa_metadata m)) [i..<oa_capacity m])"
proof (induction "oa_capacity m - i" arbitrary: i rule: less_induct)
  case less
  show ?case
  proof (cases "i < oa_capacity m")
    case True
    then have "follows (chm_succ (IMPL_OPEN_ADDRESSING m)) (filter (occupied (oa_metadata m)) [Suc i..<oa_capacity m])"
      using less [of "Suc i"] by simp
    moreover have "chm_succ (IMPL_OPEN_ADDRESSING m) i = Some (first_or (filter (occupied (oa_metadata m)) [Suc i..<oa_capacity m]) None)"
      unfolding oa_next_first by (simp add: Let_def)
    ultimately show ?thesis using True by (simp add: upt_conv_Cons follows_Cons)
  qed simp
qed

lemma links_follows: "links refs p xs None \<Longrightarrow> follows (\<lambda>a. map_option dl_next (refs a)) xs"
  by (induction xs arbitrary: p) (auto simp: follows_Cons)

lemma chm_follows:
  assumes "chm_inv sec kt vt custom ceq m"
  shows "follows (chm_succ m) (chm_positions m)"
proof (cases m)
  case (IMPL_SEPARATE_CHAINING s)
  then have "links (sc_refs s) None (sc_order s) None" using assms by (simp add: sc_inv_def sc_rep_def sc_body_def dll_def)
  moreover have "chm_succ m = (\<lambda>a. map_option dl_next (sc_refs s a))" using IMPL_SEPARATE_CHAINING by auto
  ultimately show ?thesis using links_follows [of "sc_refs s" None "sc_order s"] IMPL_SEPARATE_CHAINING by simp
qed (simp add: oa_follows)

section \<open>Iterating\<close>

text \<open>The loop of a client: the pair at the iterator, then its successor, until there is none.\<close>

partial_function (option) chm_iterate ::
  "chashmap \<Rightarrow> chmap_cmap_iterator option \<Rightarrow> heap \<Rightarrow> ((byte list \<times> byte list) list \<times> heap) option" where
  "chm_iterate m it h =
     (case it of
        None \<Rightarrow> Some ([], h)
      | Some i \<Rightarrow> do {
          (it', h) \<leftarrow> chmap_iter_next m i h;
          (ps, h) \<leftarrow> chm_iterate m it' h;
          Some (chm_iter_pair m i # ps, h)
        })"

definition chm_pair_at :: "chashmap \<Rightarrow> nat \<Rightarrow> byte list \<times> byte list" where
  "chm_pair_at m a = chm_iter_pair m \<lparr>it_blk = 0, it_at = a\<rparr>"

definition chm_entries :: "chashmap \<Rightarrow> (byte list \<times> byte list) list" where
  "chm_entries m = map (chm_pair_at m) (chm_positions m)"

lemma chm_iter_pair_at: "chm_iter_pair m it = chm_pair_at m (it_at it)"
  by (cases m) (simp_all add: chm_pair_at_def)

lemma chmap_iter_next_succ: "chmap_iter_next m it h = (case chm_succ m (it_at it) of
     None \<Rightarrow> None | Some None \<Rightarrow> Some (None, mem_free h (it_blk it)) | Some (Some a) \<Rightarrow> Some (Some (it\<lparr>it_at := a\<rparr>), h))"
proof (cases m)
  case (IMPL_SEPARATE_CHAINING s)
  then show ?thesis by (cases "sc_refs s (it_at it)") (auto simp: chmap_iter_next_def chashmap_iterator_destroy_def split: option.splits)
qed (simp add: chmap_iter_next_def chashmap_iterator_destroy_def Let_def)

lemma chm_iterate_follows:
  "follows (chm_succ m) (it_at it # xs) \<Longrightarrow> chm_iterate m (Some it) h = Some (map (chm_pair_at m) (it_at it # xs), mem_free h (it_blk it))"
proof (induction xs arbitrary: it)
  case Nil
  then show ?case by (subst chm_iterate.simps) (simp add: chmap_iter_next_succ chm_iter_pair_at chm_iterate.simps [of _ None])
next
  case (Cons b xs)
  then show ?case using Cons.IH [of "it\<lparr>it_at := b\<rparr>"]
    by (subst chm_iterate.simps) (simp add: chmap_iter_next_succ chm_iter_pair_at)
qed

lemma chm_begin_ends:
  assumes inv: "chm_inv sec kt vt custom ceq m" and run: "chashmap_begin_iter (Some m) h = (r, h')"
  shows "case r of
      None \<Rightarrow> live h' = live h
    | Some it \<Rightarrow> \<exists>xs. chm_positions m = it_at it # xs \<and> it_blk it = next_blk h \<and> live h' = insert (it_blk it) (live h)"
proof -
  let ?at = "first_or (chm_positions m) None"
  have at: "chashmap_begin_iter (Some m) h = (case ?at of
           None \<Rightarrow> (None, h)
         | Some i \<Rightarrow> (case mem_calloc h sizeof_chmap_cmap_iterator of
               (None, h) \<Rightarrow> (None, h)
             | (Some (b, _), h) \<Rightarrow> (Some \<lparr>it_blk = b, it_at = i\<rparr>, h)))"
  proof (cases m)
    case (IMPL_SEPARATE_CHAINING s)
    then have "head (sc_all_elems s) = first_or (sc_order s) None" using inv by (simp add: sc_inv_def sc_rep_def sc_body_def dll_def)
    then show ?thesis using IMPL_SEPARATE_CHAINING by (simp add: chashmap_begin_iter_def)
  next
    case (IMPL_OPEN_ADDRESSING om)
    then show ?thesis using oa_next_first [of "oa_metadata om" 0 "oa_capacity om"] by (simp add: chashmap_begin_iter_def)
  qed
  show ?thesis
  proof (cases "chm_positions m")
    case Nil
    then show ?thesis using at run by auto
  next
    case (Cons a xs)
    obtain c h1 where c: "mem_calloc h sizeof_chmap_cmap_iterator = (c, h1)" by fastforce
    show ?thesis
    proof (cases c)
      case None
      then show ?thesis using at run Cons c mem_calloc_None [of h sizeof_chmap_cmap_iterator h1] by auto
    next
      case (Some x)
      obtain b bs where x: "x = (b, bs)" by fastforce
      show ?thesis using at run Cons mem_calloc_Some [OF c [unfolded Some x]] by (auto simp: c Some x)
    qed
  qed
qed

section \<open>Entries and lookups\<close>

lemma sc_chm_entries: "chm_entries (IMPL_SEPARATE_CHAINING s) = sc_entries s"
  by (simp add: chm_entries_def chm_pair_at_def sc_entries_def)

lemma oa_entries_cells:
  "chm_entries (IMPL_OPEN_ADDRESSING m) =
     map (\<lambda>(k, v). (word_bytes (oa_key_size m) k, word_bytes (oa_val_size m) v)) (cell_list (oa_capacity m) (cells_of m))"
  by (auto simp: chm_entries_def chm_pair_at_def cell_list_def List.map_filter_def oa_cell_def)

lemma keys_fit_cells:
  assumes "oa_inv sec m" "keys_fit m" "(w, v) \<in> set (cell_list (oa_capacity m) (cells_of m))"
  shows "le_word (word_bytes (oa_key_size m) w) = w"
proof -
  have "keys_once (oa_capacity m) (cells_of m)" using assms(1) by (simp add: oa_inv_def good_table_def)
  from contents_iff [OF this, of w v] have "oa_words m w = Some v" using assms(3) by (simp add: cell_list_iff oa_words_def)
  then have "w \<in> dom (oa_view m)" by (simp add: oa_view_def dom_def)
  then show ?thesis using assms(2) by (simp add: keys_fit_def)
qed

lemma map_of_al_get:
  assumes "\<And>j v. (j, v) \<in> set xs \<Longrightarrow> same (f j) b \<longleftrightarrow> j = k"
  shows "al_get same b (map (\<lambda>(j, v). (f j, g v)) xs) = map_option g (map_of xs k)"
  using assms
proof (induction xs)
  case (Cons x xs)
  obtain j v where x: "x = (j, v)" by fastforce
  have "same (f j) b \<longleftrightarrow> j = k" using Cons.prems [of j v] x by simp
  moreover have "al_get same b (map (\<lambda>(j, v). (f j, g v)) xs) = map_option g (map_of xs k)" by (rule Cons.IH) (use Cons.prems in auto)
  ultimately show ?case by (auto simp: x)
qed simp

lemma oa_lookup_entries:
  assumes inv: "oa_inv sec m" "keys_fit m" and k: "key_valid (oa_key_type m) k"
  shows "chm_view (IMPL_OPEN_ADDRESSING m) k = al_get (same_key None (oa_key_type m)) (canon_key (oa_key_type m) k) (chm_entries (IMPL_OPEN_ADDRESSING m))"
proof -
  note ty = oa_inv_types [OF inv(1)]
  let ?b = "canon_key (oa_key_type m) k" and ?n = "oa_key_size m" and ?cells = "cell_list (oa_capacity m) (cells_of m)"
  have len: "length ?b = ?n" using k key_valid_integral [OF ty(1)] ty(3) by simp
  have nl: "oa_key_type m \<noteq> ccol_long_double" using ty(1) by (auto simp: is_type_integral_def)
  note fit = keys_fit_cells [OF inv]
  have "same_key None (oa_key_type m) (word_bytes ?n w) ?b \<longleftrightarrow> w = le_word ?b" if "(w, v) \<in> set ?cells" for w v
    using fit [OF that] word_bytes_le_word [OF len ty(5)] len nl by (auto simp: same_key_def)
  from map_of_al_get [where f = "word_bytes ?n" and same = "same_key None (oa_key_type m)" and b = ?b and k = "le_word ?b" and xs = ?cells and g = "word_bytes (oa_val_size m)", OF this]
  show ?thesis using k unfolding oa_entries_cells by (simp add: oa_view_def oa_words_def contents_def)
qed

lemma chm_lookup_entries:
  assumes "chm_inv sec kt vt custom ceq m"
  shows "chm_lookup sec m k = (if key_valid kt k then al_get (same_key ceq kt) (canon_key kt k) (chm_entries m) else None)"
proof (cases m)
  case (IMPL_SEPARATE_CHAINING s)
  then have "chm_entries m = sc_entries s" by (simp add: sc_chm_entries)
  then show ?thesis using assms chm_lookup_view [OF assms, of k] IMPL_SEPARATE_CHAINING by (simp add: sc_same_def)
next
  case (IMPL_OPEN_ADDRESSING om)
  then have i: "oa_inv sec om" "oa_key_type om = kt" "ceq = None" "keys_fit om" using assms by auto
  show ?thesis using chm_lookup_view [OF assms, of k] oa_lookup_entries [OF i(1,4), of k] i(2,3) IMPL_OPEN_ADDRESSING by auto
qed

lemma chm_entries_length: "chm_inv sec kt vt custom ceq m \<Longrightarrow> chashmap_elem_count (Some m) = Some (length (chm_entries m))"
proof (cases m)
  case (IMPL_SEPARATE_CHAINING s)
  then show "chm_inv sec kt vt custom ceq m \<Longrightarrow> ?thesis"
    by (simp add: chm_entries_def sc_inv_def sc_rep_def sc_body_def)
next
  case (IMPL_OPEN_ADDRESSING om)
  then show "chm_inv sec kt vt custom ceq m \<Longrightarrow> ?thesis" using oa_entries_cells [of om] by (simp add: oa_inv_def)
qed

text \<open>No two entries have the same key.\<close>

lemma chm_entries_distinct:
  assumes "chm_inv sec kt vt custom ceq m"
  shows "sorted_wrt (\<lambda>p q. \<not> same_key ceq kt (fst p) (fst q)) (chm_entries m)"
proof (cases m)
  case (IMPL_SEPARATE_CHAINING s)
  have s: "distinct (sc_order s)" "sc_same s = same_key ceq kt"
    "\<forall>a \<in> set (sc_order s). \<forall>b \<in> set (sc_order s). sc_same s (node_key (sc_nodes s) a) (node_key (sc_nodes s) b) \<longrightarrow> a = b"
    using assms IMPL_SEPARATE_CHAINING by (auto simp: sc_inv_def sc_rep_def sc_body_def dll_def sc_same_def)
  have "sorted_wrt (\<lambda>a b. \<not> sc_same s (node_key (sc_nodes s) a) (node_key (sc_nodes s) b)) (sc_order s)"
    using s(1,3) unfolding sorted_wrt_iff_nth_less distinct_conv_nth by (metis nat_neq_iff nth_mem order.strict_trans)
  then show ?thesis using IMPL_SEPARATE_CHAINING s(2)
    by (simp add: chm_entries_def chm_pair_at_def sorted_wrt_map sc_entry_def node_key_def)
next
  case (IMPL_OPEN_ADDRESSING om)
  then have i: "oa_inv sec om" "oa_key_type om = kt" "ceq = None" "keys_fit om" using assms by auto
  let ?cells = "cell_list (oa_capacity om) (cells_of om)" and ?n = "oa_key_size om"
  have nl: "kt \<noteq> ccol_long_double" using oa_inv_types(1) [OF i(1)] i(2) by (auto simp: is_type_integral_def)
  have once: "keys_once (oa_capacity om) (cells_of om)" using i(1) by (simp add: oa_inv_def good_table_def)
  have "sorted_wrt (\<lambda>v w. v \<noteq> w) (map fst ?cells)" using keys_once_distinct [OF once] by (simp add: distinct_conv_nth sorted_wrt_iff_nth_less)
  then have "sorted_wrt (\<lambda>p q. fst p \<noteq> fst q) ?cells" by (simp add: sorted_wrt_map)
  moreover have "word_bytes ?n (fst p) \<noteq> word_bytes ?n (fst q)" if "p \<in> set ?cells" "q \<in> set ?cells" "fst p \<noteq> fst q" for p q
    using keys_fit_cells [OF i(1,4)] that by (metis prod.collapse)
  ultimately have "sorted_wrt (\<lambda>p q. word_bytes ?n (fst p) \<noteq> word_bytes ?n (fst q)) ?cells"
    by (rule sorted_wrt_mono_rel [rotated])
  then show ?thesis using nl i(3) IMPL_OPEN_ADDRESSING unfolding oa_entries_cells
    by (simp add: sorted_wrt_map case_prod_beta same_key_def oa_entries_cells)
qed

section \<open>Walking\<close>

text \<open>The loop over \<^verbatim>\<open>ccol_chmap_walk_next\<close>, which allocates nothing.\<close>

partial_function (option) chm_walk_rest :: "chashmap \<Rightarrow> ccol_chmap_walk \<Rightarrow> (byte list \<times> byte list) list option" where
  "chm_walk_rest m w = do {
     (p, w) \<leftarrow> ccol_chmap_walk_next (Some m) w;
     (case p of None \<Rightarrow> Some [] | Some kv \<Rightarrow> do { rest \<leftarrow> chm_walk_rest m w; Some (kv # rest) })
   }"

definition walk_start :: ccol_chmap_walk where
  "walk_start = \<lparr>next_slot = 0, next_entry = None, started = False\<rparr>"

lemma sc_walk_rest:
  assumes "links (sc_refs s) None xs q" "set xs \<subseteq> dom (sc_nodes s)" "started w" "next_entry w = last_or None xs"
  shows "chm_walk_rest (IMPL_SEPARATE_CHAINING s) w = Some (rev (map (sc_entry (sc_nodes s)) xs))"
  using assms
proof (induction xs arbitrary: q w rule: rev_induct)
  case Nil
  then show ?case by (subst chm_walk_rest.simps) (simp add: ccol_chmap_walk_next_def)
next
  case (snoc x xs)
  obtain e where e: "sc_nodes s x = Some e" using snoc.prems(2) by auto
  have l: "links (sc_refs s) None xs (Some x)" "sc_refs s x = Some \<lparr>prev = last_or None xs, dl_next = q\<rparr>"
    using snoc.prems(1) by (auto simp: links_append)
  have "chm_walk_rest (IMPL_SEPARATE_CHAINING s) (w\<lparr>next_entry := last_or None xs\<rparr>) = Some (rev (map (sc_entry (sc_nodes s)) xs))"
    by (rule snoc.IH [OF l(1)]) (use snoc.prems in auto)
  then show ?case using e l(2) snoc.prems(3,4)
    by (subst chm_walk_rest.simps) (simp add: ccol_chmap_walk_next_def ccol_chmap_entry_read_def sc_entry_def)
qed

text \<open>In an open-addressing map the walk hands out the words of the slots.\<close>

definition oa_word_pair :: "open_addr_map \<Rightarrow> nat \<Rightarrow> byte list \<times> byte list" where
  "oa_word_pair m i = (word_bytes 8 (key_data (oa_slots m ! i)), word_bytes 8 (val_data (oa_slots m ! i)))"

lemma oa_walk_rest:
  "chm_walk_rest (IMPL_OPEN_ADDRESSING m) w = Some (map (oa_word_pair m) (filter (occupied (oa_metadata m)) [next_slot w..<oa_capacity m]))"
proof (induction "oa_capacity m - next_slot w" arbitrary: w rule: less_induct)
  case less
  let ?j = "oa_next_occupied (oa_metadata m) (oa_capacity m) (next_slot w)"
  note f = oa_next_occupied_filter [of "oa_metadata m" "next_slot w" "oa_capacity m", unfolded Let_def]
  show ?case
  proof (cases "oa_capacity m \<le> ?j")
    case True
    then show ?thesis unfolding f by (subst chm_walk_rest.simps) (simp add: ccol_chmap_walk_next_def)
  next
    case False
    have "next_slot w \<le> ?j" by (rule oa_next_occupied_ge)
    then have "chm_walk_rest (IMPL_OPEN_ADDRESSING m) (w\<lparr>next_slot := ?j + 1\<rparr>) =
        Some (map (oa_word_pair m) (filter (occupied (oa_metadata m)) [?j + 1..<oa_capacity m]))"
      using less [of "w\<lparr>next_slot := ?j + 1\<rparr>"] False by simp
    then show ?thesis using False unfolding f
      by (subst chm_walk_rest.simps) (simp add: ccol_chmap_walk_next_def Let_def oa_word_pair_def)
  qed
qed

section \<open>The destructor pass\<close>

lemma chm_dtor_entries:
  assumes "chm_inv sec kt vt custom ceq m"
  shows "mset (chm_dtor_values m) = mset (map snd (chm_entries m))"
proof (cases m)
  case (IMPL_SEPARATE_CHAINING s)
  have rep: "sc_rep sec s (sc_order s)" using assms IMPL_SEPARATE_CHAINING by (simp add: sc_inv_def)
  then have f: "filed (sc_bucket_arr_size s) (sc_home sec s (sc_nodes s) (sc_bucket_arr_size s) (sc_keyed s)) (set (sc_order s)) (sc_buckets s)"
    and d: "distinct (sc_order s)" and c: "arr_ok (sc_bucket_arr_size s)"
    by (auto simp: sc_rep_def sc_index_def sc_body_def dll_def)
  note con = filed_concat [OF f sc_home_less [OF c]]
  have "mset (concat (sc_buckets s)) = mset (sc_order s)" using con d set_eq_iff_mset_eq_distinct by blast
  then have "image_mset (\<lambda>a. ln_val (the (sc_nodes s a))) (mset (concat (sc_buckets s))) = image_mset (\<lambda>a. ln_val (the (sc_nodes s a))) (mset (sc_order s))"
    by (rule arg_cong)
  then show ?thesis using IMPL_SEPARATE_CHAINING
    by (simp add: chm_entries_def chm_pair_at_def sc_entry_def comp_def)
next
  case (IMPL_OPEN_ADDRESSING om)
  then have "oa_val_size om \<le> 8" using assms oa_inv_types(6) by auto
  then show ?thesis using IMPL_OPEN_ADDRESSING
    by (simp add: chm_entries_def chm_pair_at_def oa_read_def comp_def take_word_bytes)
qed

lemma al_put_split:
  assumes eq: "equivp same" and d: "sorted_wrt (\<lambda>p q. \<not> same (fst p) (fst q)) es" and k: "al_get same k es \<noteq> None"
  shows "\<exists>xs j old ys. es = xs @ (j, old) # ys \<and> same j k \<and> al_put same k v es = xs @ (j, v) # ys"
proof -
  from k obtain j old where "(j, old) \<in> set es" and j: "same j k" using al_get_None [of same k es] by auto
  then obtain xs ys where es: "es = xs @ (j, old) # ys" using split_list by metis
  have other: "\<not> same i k" if "(i, w) \<in> set (xs @ ys)" for i w
  proof
    assume "same i k"
    then have "same i j" "same j i" using j equivp_transp [OF eq, of i k j] equivp_symp [OF eq] by blast+
    then show False using d that by (auto simp: es sorted_wrt_append)
  qed
  have id: "map (\<lambda>(i, w). (i, if same i k then v else w)) zs = zs" if "set zs \<subseteq> set (xs @ ys)" for zs
  proof (rule map_idI)
    fix p assume p: "p \<in> set zs"
    obtain i w where iw: "p = (i, w)" by fastforce
    have "(i, w) \<in> set (xs @ ys)" using p that iw by blast
    from other [OF this] show "(\<lambda>(i, w). (i, if same i k then v else w)) p = p" by (simp add: iw)
  qed
  have "al_put same k v es = map (\<lambda>(i, w). (i, if same i k then v else w)) es" using k by (simp add: al_put_def)
  also have "\<dots> = xs @ (j, v) # ys" using id [of xs] id [of ys] j by (simp add: es)
  finally show ?thesis using es j by blast
qed

lemma int_map_empty: "\<exists>m h1. chm_create 1 ccol_int ccol_int DefaultProcs None None grants = (Some (IMPL_OPEN_ADDRESSING m), h1) \<and> oa_count m = 0 \<and> oa_capacity m = 16"
  by (simp add: grants_def chm_create_def chashmap_create_full_def chmap_create_impl_def ccol_verify_memmgmt_procs_def should_use_open_addressing_def
      is_type_integral_def minimum_allowed_bucket_array_size_def oa_init_def oa_alloc_block_def OA_BLOCK_BYTES_PER_SLOT_def SIZE_MAX_def mem_alloc_def oa_window_restart_def Let_def)

section \<open>The properties\<close>

text \<open>A chained map of string keys with one entry, under a hash function that is constant.\<close>

definition one_entry_chain :: sep_chain_map where
  "one_entry_chain = \<lparr>hm_blk = 0, hash_mode = CHMAP_HASH_FAST, window_bound = 65535, insert_window = CHMAP_WINDOW_START,
     sc_elem_count = 1, sc_bucket_arr_size = 16, sc_elem_count_to_scale_up = 25, sc_elem_count_to_scale_down = 2,
     sc_buckets = (replicate 16 [])[hash_index_for (hash_custom_fast 3) 16 := [1]], sc_arr = None, sc_all_elems = \<lparr>head = Some 1, tail = Some 1\<rparr>,
     sc_refs = [1 \<mapsto> \<lparr>prev = None, dl_next = None\<rparr>],
     sc_nodes = [1 \<mapsto> \<lparr>ln_hash_val = hash_custom_fast 3, ln_key = [107, 0], ln_key_buf = None, ln_val = [7], ln_val_buf = None\<rparr>],
     sc_m_procs = DefaultProcs, sc_custom = Some (\<lambda>_. 3), sc_custom_eq = None, sc_key_type = ccol_string,
     sc_val_type = ccol_char, sc_inline_buckets = 16\<rparr>"

lemma one_entry_chain_rep: "sc_rep sec one_entry_chain [1]"
proof -
  have "sc_body one_entry_chain [1]"
    by (simp add: sc_body_def one_entry_chain_def key_procs_ok_def dll_def ccol_max_elem_count_def buf_ok_def INLINE_STORAGE_THRESHOLD_def sc_blocks_def node_blks_def)
  moreover have "sc_index sec one_entry_chain [1]"
  proof -
    have p: "pow2 (16::nat)" using pow2_def [of 16] by (auto intro: exI [of _ 4])
    have "hash_index_for (hash_custom_fast 3) 16 < 16" by (rule hash_index_for_less) (use p in simp_all)
    then show ?thesis
      using p by (auto simp: sc_index_def one_entry_chain_def arr_ok_def SIZE_MAX_def filed_def sc_home_def sc_hash_of_node_def sc_keyed_def hash_key_data_def nth_list_update)
  qed
  ultimately show ?thesis by (simp add: sc_rep_def)
qed

lemma one_entry_chain_ok:
  "sc_inv sec one_entry_chain" "sc_entries one_entry_chain = [([107, 0], [7])]" "sc_owned one_entry_chain = {0, 1}" "sc_order one_entry_chain = [1]"
proof -
  note r = sc_entries_rep [OF one_entry_chain_rep]
  show "sc_inv sec one_entry_chain" by (rule sc_rep_inv [OF one_entry_chain_rep])
  show "sc_entries one_entry_chain = [([107, 0], [7])]" "sc_owned one_entry_chain = {0, 1}" "sc_order one_entry_chain = [1]"
    using r by (simp_all add: one_entry_chain_def sc_entry_def sc_blocks_def node_blks_def)
qed

text \<open>
  Claim C20.  Iterating a hash map, whichever its backend: the loop of
  \<^verbatim>\<open>chashmap_begin_iter\<close> and \<^verbatim>\<open>chmap_iter_next\<close> ends; it shows as many pairs as the
  map counts elements, no two of them with the same key, and looking any key up in the
  list of the pairs gives what the map reports for it; and when it has ended the
  iterator's block is freed and every other block is as it was.
\<close>

theorem chashmap_iteration_correct:
  assumes "chm_inv sec kt vt custom ceq m" "heap_ok h" "chashmap_begin_iter (Some m) h = (Some it, h1)"
  shows "\<exists>ps h2. chm_iterate m (Some it) h1 = Some (ps, h2) \<and> live h2 = live h
     \<and> chashmap_elem_count (Some m) = Some (length ps)
     \<and> sorted_wrt (\<lambda>p q. \<not> same_key ceq kt (fst p) (fst q)) ps
     \<and> chm_lookup sec m = (\<lambda>k. if key_valid kt k then al_get (same_key ceq kt) (canon_key kt k) ps else None)"
proof -
  from chm_begin_ends [OF assms(1,3)] obtain xs where xs: "chm_positions m = it_at it # xs" "it_blk it = next_blk h" "live h1 = insert (it_blk it) (live h)"
    by auto
  have run: "chm_iterate m (Some it) h1 = Some (chm_entries m, mem_free h1 (it_blk it))"
    using chm_iterate_follows [of m it xs h1] chm_follows [OF assms(1)] xs(1) by (simp add: chm_entries_def)
  have "live (mem_free h1 (it_blk it)) = live h" using xs(2,3) heap_ok_fresh [OF assms(2)] by auto
  moreover have "chm_lookup sec m = (\<lambda>k. if key_valid kt k then al_get (same_key ceq kt) (canon_key kt k) (chm_entries m) else None)"
    using chm_lookup_entries [OF assms(1)] by (rule ext)
  ultimately show ?thesis using run chm_entries_length [OF assms(1)] chm_entries_distinct [OF assms(1)] by blast
qed

lemma one_entry_begin: "chashmap_begin_iter (Some (IMPL_SEPARATE_CHAINING one_entry_chain)) grants =
    (Some \<lparr>it_blk = 0, it_at = 1\<rparr>, snd (mem_calloc grants sizeof_chmap_cmap_iterator))"
  by (simp add: chashmap_begin_iter_def one_entry_chain_def grants_def mem_calloc_def mem_alloc_def)

theorem chashmap_iteration_correct_witness:
  "let m = IMPL_SEPARATE_CHAINING one_entry_chain
   in \<exists>it h1 ps h2. chashmap_begin_iter (Some m) grants = (Some it, h1) \<and> chm_iterate m (Some it) h1 = Some (ps, h2) \<and> live h2 = {}
      \<and> length ps = 1 \<and> al_get (same_key None ccol_string) [107, 0] ps = chm_lookup small_secret m [107, 0]"
proof -
  let ?m = "IMPL_SEPARATE_CHAINING one_entry_chain"
  have i: "chm_inv small_secret ccol_string ccol_char (Some (\<lambda>_. 3)) None ?m"
    using one_entry_chain_ok(1) by (simp add: one_entry_chain_def)
  have h: "heap_ok grants" "live grants = {}" by (simp_all add: grants_def heap_ok_def)
  have k: "key_valid ccol_string [107, 0]" "canon_key ccol_string [107, 0] = [107, 0]"
    by (simp_all add: key_valid_def key_size_matches_type_if_fixed_width_def canon_key_def)
  from chashmap_iteration_correct [OF i h(1) one_entry_begin] show ?thesis
    unfolding Let_def one_entry_begin using h(2) k by (auto simp: one_entry_chain_def)
qed

text \<open>
  The chained map keeps the order of insertion: the iterator, if the allocator
  grants it, shows its entries from the newest to the oldest and the walk, which
  allocates nothing, from the oldest to the newest, each reading the links in its own
  direction, and both in full.
\<close>

theorem chained_walk_reverses_iteration:
  assumes "sc_inv sec s" "heap_ok h"
  shows "chm_walk_rest (IMPL_SEPARATE_CHAINING s) walk_start = Some (rev (sc_entries s))
     \<and> (case chashmap_begin_iter (Some (IMPL_SEPARATE_CHAINING s)) h of
          (None, h1) \<Rightarrow> live h1 = live h
        | (Some it, h1) \<Rightarrow> (\<exists>h2. chm_iterate (IMPL_SEPARATE_CHAINING s) (Some it) h1 = Some (sc_entries s, h2) \<and> live h2 = live h))"
proof -
  have b: "sc_body s (sc_order s)" using assms(1) by (simp add: sc_inv_def sc_rep_def)
  then have l: "links (sc_refs s) None (sc_order s) None" "tail (sc_all_elems s) = last_or None (sc_order s)" "set (sc_order s) \<subseteq> dom (sc_nodes s)"
    by (auto simp: sc_body_def dll_def)
  let ?w = "walk_start\<lparr>started := True, next_entry := last_or None (sc_order s)\<rparr>"
  have "ccol_chmap_walk_next (Some (IMPL_SEPARATE_CHAINING s)) walk_start = ccol_chmap_walk_next (Some (IMPL_SEPARATE_CHAINING s)) ?w"
    using l(2) by (simp add: ccol_chmap_walk_next_def walk_start_def ccol_chmap_oldest_entry_def)
  then have "chm_walk_rest (IMPL_SEPARATE_CHAINING s) walk_start = chm_walk_rest (IMPL_SEPARATE_CHAINING s) ?w"
    by (simp add: chm_walk_rest.simps [of _ walk_start] chm_walk_rest.simps [of _ ?w])
  then have walk: "chm_walk_rest (IMPL_SEPARATE_CHAINING s) walk_start = Some (rev (sc_entries s))"
    using sc_walk_rest [OF l(1,3), of ?w] by (simp add: sc_entries_def)
  have inv: "chm_inv sec (sc_key_type s) (sc_val_type s) (sc_custom s) (sc_custom_eq s) (IMPL_SEPARATE_CHAINING s)" using assms(1) by simp
  obtain r h1 where run: "chashmap_begin_iter (Some (IMPL_SEPARATE_CHAINING s)) h = (r, h1)" by fastforce
  have "case r of None \<Rightarrow> live h1 = live h
     | Some it \<Rightarrow> (\<exists>h2. chm_iterate (IMPL_SEPARATE_CHAINING s) (Some it) h1 = Some (sc_entries s, h2) \<and> live h2 = live h)"
  proof (cases r)
    case None
    then show ?thesis using chm_begin_ends [OF inv run] by simp
  next
    case (Some it)
    from chm_begin_ends [OF inv run] obtain xs where xs: "sc_order s = it_at it # xs" "it_blk it = next_blk h" "live h1 = insert (it_blk it) (live h)"
      using Some by auto
    have "chm_iterate (IMPL_SEPARATE_CHAINING s) (Some it) h1 = Some (sc_entries s, mem_free h1 (it_blk it))"
      using chm_iterate_follows [of "IMPL_SEPARATE_CHAINING s" it xs h1] chm_follows [OF inv] xs(1) sc_chm_entries [of s] by (simp add: chm_entries_def)
    moreover have "live (mem_free h1 (it_blk it)) = live h" using xs(2,3) heap_ok_fresh [OF assms(2)] by auto
    ultimately show ?thesis using Some by auto
  qed
  then show ?thesis using walk run by (cases r) auto
qed

theorem chained_walk_reverses_iteration_witness:
  "chm_walk_rest (IMPL_SEPARATE_CHAINING one_entry_chain) walk_start = Some [([107, 0], [7])]"
  using chained_walk_reverses_iteration [OF one_entry_chain_ok(1), of grants]
  by (simp add: one_entry_chain_ok(2) grants_def heap_ok_def)

text \<open>
  Claim C40.  Destroying a hash map with a destructor for its values calls the destructor
  once for every value that an iteration shows, before any node or table is freed, and
  then frees exactly the blocks of the map.
\<close>

theorem destroy_with_dtor_correct:
  assumes "chm_inv sec kt vt custom ceq m"
  shows "\<exists>vs h'. chashmap_destroy_with_dtor (Some m) True h = Some (vs, h')
     \<and> mset vs = mset (map snd (chm_entries m)) \<and> live h' = live h - chm_owned m"
  using chm_destroy_ends [OF assms, of h] chm_dtor_entries [OF assms] by (auto simp: chashmap_destroy_with_dtor_def)

theorem destroy_with_dtor_correct_witness:
  "\<exists>vs h'. chashmap_destroy_with_dtor (Some (IMPL_SEPARATE_CHAINING one_entry_chain)) True \<lparr>answers = [], next_blk = 3, live = {0, 1, 2}\<rparr> = Some (vs, h')
     \<and> mset vs = {#[7]#} \<and> live h' = {2}"
proof -
  have i: "chm_inv small_secret ccol_string ccol_char (Some (\<lambda>_. 3)) None (IMPL_SEPARATE_CHAINING one_entry_chain)"
    using one_entry_chain_ok(1) by (simp add: one_entry_chain_def)
  have e: "chm_entries (IMPL_SEPARATE_CHAINING one_entry_chain) = [([107, 0], [7])]"
    using one_entry_chain_ok(2) by (simp add: sc_chm_entries)
  from destroy_with_dtor_correct [OF i, of "\<lparr>answers = [], next_blk = 3, live = {0, 1, 2}\<rparr>"] show ?thesis
    unfolding e by (auto simp: one_entry_chain_ok(3))
qed

text \<open>
  Claim C18.  Inserting into the chained map, for every key and value bytes, also bytes
  inside the map: a new key becomes the newest entry, before all others; a present key
  keeps its place and its stored key bytes and gets the new value, and the other entries
  are as they were; a refused insert leaves all of them.  Scaling, and rehashing every
  key under the secret, change nothing of that order.
\<close>

theorem chained_insert_keeps_order:
  assumes "sc_inv sec m" "heap_ok h" "sc_owned m \<subseteq> live h" "sc_arg_ok (sc_nodes m) kp kn" "sc_arg_ok (sc_nodes m) vp vn"
  shows "\<exists>rv m' h' out. sc_insert sec m (kp, kn) (vp, vn) h = Some (rv, m', h', out) \<and> sc_inv sec m'
     \<and> blocks_moved (sc_owned m) (sc_owned m') h h'
     \<and> (rv = ccol_success \<and> al_get (sc_same m) (sc_read (sc_nodes m) kp kn) (sc_entries m) = None
            \<and> sc_entries m' = (sc_read (sc_nodes m) kp kn, sc_read (sc_nodes m) vp vn) # sc_entries m
        \<or> rv = ccol_key_already_present
            \<and> (\<exists>xs j old ys. sc_entries m = xs @ (j, old) # ys \<and> sc_same m j (sc_read (sc_nodes m) kp kn)
                 \<and> sc_entries m' = xs @ (j, sc_read (sc_nodes m) vp vn) # ys)
        \<or> (rv = ccol_not_enough_memory \<or> rv = ccol_container_full \<and> length (sc_entries m) = ccol_max_elem_count)
            \<and> sc_entries m' = sc_entries m)"
proof -
  let ?k = "sc_read (sc_nodes m) kp kn" and ?v = "sc_read (sc_nodes m) vp vn"
  from sc_insert_impl_ends [OF assms, of False] obtain rv m' h' out where
    r: "sc_insert_impl sec m (kp, kn) (vp, vn) False h = Some (rv, m', h', out)" "sc_inserted sec m h ?k ?v False (rv, m', h', out)" by auto
  have d: "sorted_wrt (\<lambda>p q. \<not> sc_same m (fst p) (fst q)) (sc_entries m)"
    using chm_entries_distinct [of sec "sc_key_type m" "sc_val_type m" "sc_custom m" "sc_custom_eq m" "IMPL_SEPARATE_CHAINING m"] assms(1)
    by (simp add: sc_chm_entries sc_same_def)
  have split: "\<exists>xs j old ys. sc_entries m = xs @ (j, old) # ys \<and> sc_same m j ?k \<and> al_put (sc_same m) ?k ?v (sc_entries m) = xs @ (j, ?v) # ys"
    if "al_get (sc_same m) ?k (sc_entries m) \<noteq> None"
    by (rule al_put_split [OF sc_same_equiv [OF assms(1)] d that])
  have out: "rv = ccol_success \<and> al_get (sc_same m) ?k (sc_entries m) = None \<and> sc_entries m' = al_put (sc_same m) ?k ?v (sc_entries m)
     \<or> rv = ccol_key_already_present \<and> al_get (sc_same m) ?k (sc_entries m) \<noteq> None \<and> sc_entries m' = al_put (sc_same m) ?k ?v (sc_entries m)
     \<or> (rv = ccol_not_enough_memory \<or> rv = ccol_container_full \<and> length (sc_entries m) = ccol_max_elem_count) \<and> m' = m"
    using r(2) unfolding sc_inserted_def prod.case by (smt (verit))
  have f: "sc_inv sec m'" "blocks_moved (sc_owned m) (sc_owned m') h h'" using r(2) by (auto simp: sc_inserted_def)
  have "sc_entries m' = (?k, ?v) # sc_entries m" if "al_get (sc_same m) ?k (sc_entries m) = None" "sc_entries m' = al_put (sc_same m) ?k ?v (sc_entries m)"
    using that by (simp add: al_put_def)
  then show ?thesis using r(1) f out split unfolding sc_insert_def by (smt (verit))
qed

theorem chained_insert_keeps_order_witness:
  "\<exists>rv m' h' out. sc_insert small_secret one_entry_chain (Outside [97, 0], 2) (InMap 1, 1) \<lparr>answers = [Grant (\<lambda>_. 0)], next_blk = 2, live = {0, 1}\<rparr> = Some (rv, m', h', out)
     \<and> (sc_entries m' = [([97, 0], [7]), ([107, 0], [7])] \<or> sc_entries m' = [([107, 0], [7])])"
proof -
  define h where "h = \<lparr>answers = [Grant (\<lambda>_. 0)], next_blk = 2, live = {0, 1::nat}\<rparr>"
  have h: "heap_ok h" "sc_owned one_entry_chain \<subseteq> live h" by (simp_all add: h_def heap_ok_def one_entry_chain_ok)
  have n: "sc_nodes one_entry_chain 1 = Some \<lparr>ln_hash_val = hash_custom_fast 3, ln_key = [107, 0], ln_key_buf = None, ln_val = [7], ln_val_buf = None\<rparr>"
    by (simp add: one_entry_chain_def)
  have a: "sc_arg_ok (sc_nodes one_entry_chain) (Outside [97, 0]) 2" "sc_arg_ok (sc_nodes one_entry_chain) (InMap 1) 1"
    using n by (simp_all add: sc_arg_ok_def)
  have rd: "sc_read (sc_nodes one_entry_chain) (Outside [97, 0]) 2 = [97, 0]" "sc_read (sc_nodes one_entry_chain) (InMap 1) 1 = [7]"
    using n by (simp_all add: sc_read_def)
  have s: "sc_same one_entry_chain = same_key None ccol_string" by (simp add: sc_same_def one_entry_chain_def)
  have e: "sc_entries one_entry_chain = xs @ (j, old) # ys \<Longrightarrow> sc_same one_entry_chain j [97, 0] = False" for xs j old ys
    unfolding s one_entry_chain_ok(2) by (cases xs) (auto simp: same_key_def)
  from chained_insert_keeps_order [OF one_entry_chain_ok(1) h a, of small_secret, unfolded rd] e show ?thesis
    unfolding h_def [symmetric] one_entry_chain_ok(2) by blast
qed

text \<open>
  Claim C19.  An insert into the open-addressing map never fails for want of memory while
  a slot is free: whatever the allocator refuses, the growth that the load asks for, the
  rebuild under the secret and the rebuild that a long probe asks for included, a new
  key is stored, found again, and every other key keeps its value.
\<close>

theorem oa_insert_needs_no_memory:
  assumes "oa_inv sec m" "heap_ok h" "oa_table m \<in> live h" "oa_arg_ok m kp (oa_key_size m)" "oa_arg_ok m vp (oa_val_size m)"
    "oa_view m (le_word (oa_read (oa_slots m) kp (oa_key_size m))) = None" "oa_count m < oa_capacity m"
  shows "\<exists>m' h' i. oa_insert sec m (kp, oa_key_size m) (vp, oa_val_size m) h = Some (ccol_success, m', h', i)
     \<and> oa_inv sec m' \<and> blocks_moved {oa_table m} {oa_table m'} h h'
     \<and> oa_view m' = (oa_view m)(le_word (oa_read (oa_slots m) kp (oa_key_size m)) \<mapsto> oa_read (oa_slots m) vp (oa_val_size m))"
proof -
  from oa_insert_impl_ends [OF assms(1-5), of False] obtain rv m' h' i where
    r: "oa_insert_impl sec m (kp, oa_key_size m) (vp, oa_val_size m) False h = Some (rv, m', h', i)"
      "oa_inserted sec m h (le_word (oa_read (oa_slots m) kp (oa_key_size m))) (oa_read (oa_slots m) vp (oa_val_size m)) False (rv, m', h', i)" by auto
  then show ?thesis using assms(6,7) by (auto simp: oa_inserted_def oa_insert_def)
qed

theorem oa_insert_needs_no_memory_witness:
  "\<exists>m h1. chm_create 1 ccol_int ccol_int DefaultProcs None None grants = (Some (IMPL_OPEN_ADDRESSING m), h1)
     \<and> (\<exists>m' h' i. oa_insert small_secret m (Outside [1, 2, 3, 4], oa_key_size m) (Outside [5, 6, 7, 8], oa_val_size m) (h1\<lparr>answers := [Refuse]\<rparr>)
          = Some (ccol_success, m', h', i) \<and> oa_inv small_secret m')"
proof -
  obtain m h1 where m: "chm_create 1 ccol_int ccol_int DefaultProcs None None grants = (Some (IMPL_OPEN_ADDRESSING m), h1)" "oa_count m = 0" "oa_capacity m = 16"
    using int_map_empty by blast
  obtain m0 h0 where "chm_create 1 ccol_int ccol_int DefaultProcs None None grants = (Some m0, h0)"
    "chm_inv small_secret ccol_int ccol_int None None m0" "heap_ok h0" "chm_owned m0 \<subseteq> live h0" using int_map_ex by blast
  then have i: "oa_inv small_secret m" "oa_key_type m = ccol_int" "oa_val_type m = ccol_int" "heap_ok h1" "oa_table m \<in> live h1" using m(1) by auto
  have sz: "oa_key_size m = 4" "oa_val_size m = 4" using oa_inv_types(3,4) [OF i(1)] i(2,3) by simp_all
  have h: "heap_ok (h1\<lparr>answers := [Refuse]\<rparr>)" "oa_table m \<in> live (h1\<lparr>answers := [Refuse]\<rparr>)" using i(4,5) by (simp_all add: heap_ok_def)
  have a: "oa_arg_ok m (Outside [1, 2, 3, 4]) (oa_key_size m)" "oa_arg_ok m (Outside [5, 6, 7, 8]) (oa_val_size m)" by (simp_all add: sz oa_arg_ok_def)
  have c: "oa_count m < oa_capacity m" using m(2,3) by simp
  have "oa_count m = length (cell_list (oa_capacity m) (cells_of m))" using i(1) by (simp add: oa_inv_def)
  then have e: "oa_view m w = None" for w using m(2) by (simp add: oa_view_def oa_words_def contents_def)
  from oa_insert_needs_no_memory [OF i(1) h a e c] m(1) show ?thesis by blast
qed

end
