(* ===== verification/CCol_Http.thy ===== *)
theory CCol_Http
  imports CCol_Prelude
begin

unbundle bit_operations_syntax

text \<open>
  Base64 and basic authentication of \<^verbatim>\<open>src/chttp.c\<close>.  A C string is its bytes without
  the terminator and \<^term>\<open>None\<close> is a null pointer.  An output buffer is the list of the
  bytes of its block, and a write beyond its end makes the result \<^term>\<open>None\<close>.
\<close>

section \<open>Tables\<close>

definition base64_alphabet :: "byte list" where
  "base64_alphabet = map of_char ''ABCDEFGHIJKLMNOPQRSTUVWXYZabcdefghijklmnopqrstuvwxyz0123456789+/''"

text \<open>The reverse table: \<open>- 1\<close> for every byte outside the alphabet.\<close>

definition base64_decode_table_init :: "int list" where
  "base64_decode_table_init =
     (let table = replicate 256 (- 1);
          table = fold (\<lambda>i t. t[65 + i := int i, 97 + i := 26 + int i]) [0..<26] table;
          table = fold (\<lambda>i t. t[48 + i := 52 + int i]) [0..<10] table
      in table[43 := 62, 47 := 63])"

definition buf_put :: "byte list \<Rightarrow> size_t \<Rightarrow> byte list \<Rightarrow> byte list option" where
  "buf_put out oi bs = (if oi + length bs \<le> length out then Some (take oi out @ bs @ drop (oi + length bs) out) else None)"

section \<open>Encoding\<close>

type_synonym u32 = "32 word"

definition sextet :: "u32 \<Rightarrow> nat \<Rightarrow> byte" where
  "sextet n k = base64_alphabet ! unat (drop_bit k n AND 0x3F)"

text \<open>The loop over full groups, from output position \<open>oi\<close>; it gives the remaining input too.\<close>

fun base64_encode_loop :: "byte list \<Rightarrow> size_t \<Rightarrow> byte list \<Rightarrow> (byte list \<times> size_t \<times> byte list) option" where
  "base64_encode_loop (a # b # c # p) oi out =
     (let n = push_bit 16 (ucast a) OR push_bit 8 (ucast b) OR ucast c
      in do {
        out \<leftarrow> buf_put out oi [sextet n 18, sextet n 12, sextet n 6, sextet n 0];
        base64_encode_loop p (oi + 4) out
      })"
| "base64_encode_loop p oi out = Some (p, oi, out)"

definition base64_encode_rest :: "byte list \<Rightarrow> size_t \<Rightarrow> byte list \<Rightarrow> (size_t \<times> byte list) option" where
  "base64_encode_rest p oi out =
     (case p of
        [a] \<Rightarrow>
          (let n = push_bit 16 (ucast a)
           in do { out \<leftarrow> buf_put out oi [sextet n 18, sextet n 12, 61, 61]; Some (oi + 4, out) })
      | [a, b] \<Rightarrow>
          (let n = push_bit 16 (ucast a) OR push_bit 8 (ucast b)
           in do { out \<leftarrow> buf_put out oi [sextet n 18, sextet n 12, sextet n 6, 61]; Some (oi + 4, out) })
      | _ \<Rightarrow> Some (oi, out))"

text \<open>The result: the block, its bytes with the terminator, and the length handed out.\<close>

type_synonym http_out = "(nat \<times> byte list \<times> size_t) option"

definition chttp_base64_encode_mp :: "byte list option \<Rightarrow> size_t \<Rightarrow> heap \<Rightarrow> (http_out \<times> heap) option" where
  "chttp_base64_encode_mp data len h =
     (if data = None \<and> len > 0 then Some (None, h)
      else if len > (SIZE_MAX div 4) * 3 - 4 then Some (None, h)
      else
        let p = (case data of None \<Rightarrow> [] | Some d \<Rightarrow> take len d);
            enc_len = ((len + 2) div 3) * 4
        in case mem_alloc h (enc_len + 1) of
             (None, h) \<Rightarrow> Some (None, h)
           | (Some (blk, out), h) \<Rightarrow> do {
               (rest, oi, out) \<leftarrow> base64_encode_loop p 0 out;
               (oi, out) \<leftarrow> base64_encode_rest rest oi out;
               out \<leftarrow> buf_put out oi [0];
               Some (Some (blk, out, enc_len), h)
             })"

section \<open>Decoding\<close>

text \<open>The values of the characters of a group from the \<open>k\<close>-th on, \<open>- 1\<close> for padding.\<close>

fun base64_group_vals :: "bool \<Rightarrow> nat \<Rightarrow> bool \<Rightarrow> byte list \<Rightarrow> int list option" where
  "base64_group_vals last_group k seen_pad [] = Some []"
| "base64_group_vals last_group k seen_pad (c # cs) =
     (if c = 61 then
        if \<not> last_group \<or> k < 2 then None
        else map_option ((#) (- 1)) (base64_group_vals last_group (k + 1) True cs)
      else if seen_pad then None
      else
        let v = base64_decode_table_init ! unat c
        in if v < 0 then None else map_option ((#) v) (base64_group_vals last_group (k + 1) seen_pad cs))"

definition base64_group_bytes :: "int list \<Rightarrow> byte list option" where
  "base64_group_bytes vals =
     (if vals ! 2 < 0 \<and> vals ! 1 AND 0x0F \<noteq> 0 \<or> vals ! 2 \<ge> 0 \<and> vals ! 3 < 0 \<and> vals ! 2 AND 0x03 \<noteq> 0 then None
      else
        let n = push_bit 18 (word_of_int (vals ! 0)) OR push_bit 12 (word_of_int (vals ! 1))
                OR push_bit 6 (word_of_int (if vals ! 2 < 0 then 0 else vals ! 2))
                OR (word_of_int (if vals ! 3 < 0 then 0 else vals ! 3) :: u32)
        in Some (ucast (drop_bit 16 n AND 0xFF)
             # (if vals ! 2 \<ge> 0 then [ucast (drop_bit 8 n AND 0xFF)] else [])
             @ (if vals ! 3 \<ge> 0 then [ucast (n AND 0xFF)] else [])))"

text \<open>\<^term>\<open>Some None\<close> is a refused input.\<close>

fun base64_decode_loop :: "byte list \<Rightarrow> size_t \<Rightarrow> byte list \<Rightarrow> (size_t \<times> byte list) option option" where
  "base64_decode_loop (a # b # c # d # s) oi out =
     (case base64_group_vals (s = []) 0 False [a, b, c, d] of
        None \<Rightarrow> Some None
      | Some vals \<Rightarrow>
          (case base64_group_bytes vals of
             None \<Rightarrow> Some None
           | Some bs \<Rightarrow> do {
               out \<leftarrow> buf_put out oi bs;
               base64_decode_loop s (oi + length bs) out
             }))"
| "base64_decode_loop s oi out = Some (Some (oi, out))"

definition chttp_base64_decode_mp :: "byte list option \<Rightarrow> heap \<Rightarrow> (http_out \<times> heap) option" where
  "chttp_base64_decode_mp b64_input h =
     (case b64_input of
        None \<Rightarrow> Some (None, h)
      | Some s \<Rightarrow>
          let in_len = length s
          in if in_len = 0 then
               (case mem_alloc h 1 of
                  (None, h) \<Rightarrow> Some (None, h)
                | (Some (blk, out), h) \<Rightarrow> do { out \<leftarrow> buf_put out 0 [0]; Some (Some (blk, out, 0), h) })
             else if in_len mod 4 \<noteq> 0 then Some (None, h)
             else
               let pad = (if s ! (in_len - 1) = 61 then if in_len \<ge> 2 \<and> s ! (in_len - 2) = 61 then 2 else 1 else 0);
                   groups = in_len div 4;
                   dec_len = groups * 3 - pad
               in case mem_alloc h (dec_len + 1) of
                    (None, h) \<Rightarrow> Some (None, h)
                  | (Some (blk, out), h) \<Rightarrow> do {
                      r \<leftarrow> base64_decode_loop s 0 out;
                      (case r of
                         None \<Rightarrow> Some (None, mem_free h blk)
                       | Some (oi, out) \<Rightarrow> do { out \<leftarrow> buf_put out oi [0]; Some (Some (blk, out, oi), h) })
                    })"

section \<open>Basic authentication\<close>

definition chttp_basic_auth_len :: "byte list \<Rightarrow> size_t \<Rightarrow> byte list \<Rightarrow> size_t \<Rightarrow> heap \<Rightarrow> ((nat \<times> byte list) option \<times> heap) option" where
  "chttp_basic_auth_len username user_len password pass_len h =
     (if pass_len > SIZE_MAX - user_len \<or> user_len + pass_len > SIZE_MAX - 2 then Some (None, h)
      else
        let combined_len = user_len + 1 + pass_len
        in case mem_alloc h (combined_len + 1) of
             (None, h) \<Rightarrow> Some (None, h)
           | (Some (cb, _), h) \<Rightarrow> do {
               (b64, h) \<leftarrow> chttp_base64_encode_mp (Some (take combined_len (username @ [58] @ password) @ [0])) combined_len h;
               let h = mem_free h cb;
               (case b64 of
                  None \<Rightarrow> Some (None, h)
                | Some (bb, b64, b64_len) \<Rightarrow>
                    let auth_len = 6 + b64_len
                    in case mem_alloc h (auth_len + 1) of
                         (None, h) \<Rightarrow> Some (None, mem_free h bb)
                       | (Some (ob, _), h) \<Rightarrow>
                           Some (Some (ob, take auth_len (map of_char ''Basic '' @ takeWhile (\<lambda>c. c \<noteq> 0) b64) @ [0]), mem_free h bb))
             })"

definition chttp_has_ctl :: "byte list \<Rightarrow> bool" where
  "chttp_has_ctl s \<longleftrightarrow> list_ex (\<lambda>c. c < 0x20 \<or> c = 0x7F) s"

definition chttp_basic_auth_mp :: "byte list option \<Rightarrow> byte list option \<Rightarrow> heap \<Rightarrow> ((nat \<times> byte list) option \<times> heap) option" where
  "chttp_basic_auth_mp username password h =
     (case (username, password) of
        (Some u, Some p) \<Rightarrow>
          if 58 \<in> set u then Some (None, h)
          else if chttp_has_ctl u \<or> chttp_has_ctl p then Some (None, h)
          else chttp_basic_auth_len u (length u) p (length p) h
      | _ \<Rightarrow> Some (None, h))"

section \<open>The alphabet\<close>

lemma base64_alphabet_eq:
  "base64_alphabet = map (\<lambda>i. word_of_nat (65 + i)) [0..<26] @ map (\<lambda>i. word_of_nat (97 + i)) [0..<26]
     @ map (\<lambda>i. word_of_nat (48 + i)) [0..<10] @ [43, 47]"
  by code_simp

lemma table_inverts: "map (\<lambda>c. base64_decode_table_init ! unat c) base64_alphabet = map int [0..<64]"
  by code_simp

lemma table_entries:
  "filter (\<lambda>(i, v). 0 \<le> v) (zip [0..<256] base64_decode_table_init) =
     [(43, 62), (47, 63)] @ map (\<lambda>i. (48 + i, 52 + int i)) [0..<10] @ map (\<lambda>i. (65 + i, int i)) [0..<26]
       @ map (\<lambda>i. (97 + i, 26 + int i)) [0..<26]"
  by code_simp

lemma table_length: "length base64_decode_table_init = 256" "length base64_alphabet = 64"
  by code_simp+

lemma alphabet_nth:
  "i < 26 \<Longrightarrow> base64_alphabet ! i = word_of_nat (65 + i)" "i < 26 \<Longrightarrow> base64_alphabet ! (26 + i) = word_of_nat (97 + i)"
  "i < 10 \<Longrightarrow> base64_alphabet ! (52 + i) = word_of_nat (48 + i)" "base64_alphabet ! 62 = 43" "base64_alphabet ! 63 = 47"
  unfolding base64_alphabet_eq by (simp_all add: nth_append)

lemma table_value:
  assumes "0 \<le> base64_decode_table_init ! unat c"
  shows "\<exists>i < 64. base64_decode_table_init ! unat c = int i \<and> base64_alphabet ! i = (c :: byte)"
proof -
  have w: "word_of_nat (unat c) = c" by simp
  have c: "unat c < 256" using unsigned_less [of c, where ?'a = nat] by simp
  have "(unat c, base64_decode_table_init ! unat c) \<in> set (zip [0..<256] base64_decode_table_init)"
    using c by (auto simp: set_zip table_length intro!: exI [of _ "unat c"])
  then have "(unat c, base64_decode_table_init ! unat c) \<in> set (filter (\<lambda>(i, v). 0 \<le> v) (zip [0..<256] base64_decode_table_init))"
    using assms by simp
  then consider "unat c = 43" "base64_decode_table_init ! unat c = 62" | "unat c = 47" "base64_decode_table_init ! unat c = 63"
    | i where "i < 10" "unat c = 48 + i" "base64_decode_table_init ! unat c = 52 + int i"
    | i where "i < 26" "unat c = 65 + i" "base64_decode_table_init ! unat c = int i"
    | i where "i < 26" "unat c = 97 + i" "base64_decode_table_init ! unat c = 26 + int i"
    unfolding table_entries by (auto simp del: upt_Suc)
  then show ?thesis
  proof cases
    case 1
    then have "c = 43" using w by (metis of_nat_numeral)
    then show ?thesis using 1 alphabet_nth(4) by (intro exI [of _ 62]) simp
  next
    case 2
    then have "c = 47" using w by (metis of_nat_numeral)
    then show ?thesis using 2 alphabet_nth(5) by (intro exI [of _ 63]) simp
  next
    case (3 i)
    then have "c = word_of_nat (48 + i)" using w by metis
    then show ?thesis using 3 alphabet_nth(3) by (intro exI [of _ "52 + i"]) simp
  next
    case (4 i)
    then have "c = word_of_nat (65 + i)" using w by metis
    then show ?thesis using 4 alphabet_nth(1) by (intro exI [of _ i]) simp
  next
    case (5 i)
    then have "c = word_of_nat (97 + i)" using w by metis
    then show ?thesis using 5 alphabet_nth(2) by (intro exI [of _ "26 + i"]) simp
  qed
qed

lemma table_alphabet:
  assumes "i < 64"
  shows "base64_decode_table_init ! unat (base64_alphabet ! i) = int i" "base64_alphabet ! i \<noteq> 61" "base64_alphabet ! i \<noteq> 0"
proof -
  show "base64_decode_table_init ! unat (base64_alphabet ! i) = int i"
    using arg_cong [OF table_inverts, of "\<lambda>l. l ! i"] assms by (simp add: table_length)
  have "list_all (\<lambda>c. c \<noteq> 61 \<and> c \<noteq> 0) base64_alphabet" by code_simp
  then show "base64_alphabet ! i \<noteq> 61" "base64_alphabet ! i \<noteq> 0" using assms by (auto simp: list_all_length table_length)
qed

section \<open>Groups\<close>

lemma small_bit:
  assumes "i < 64" "bit (word_of_nat i :: u32) j"
  shows "j < 6"
proof -
  have "take_bit 6 i = i" using assms(1) by (simp add: take_bit_eq_mod)
  then have "bit (take_bit 6 i) j" using assms(2) by (simp add: bit_simps)
  then show ?thesis by (simp add: bit_take_bit_iff)
qed

definition sext :: "nat \<Rightarrow> u32 \<Rightarrow> u32" where
  "sext k n = drop_bit k n AND 0x3F"

definition octet :: "nat \<Rightarrow> u32 \<Rightarrow> byte" where
  "octet k n = ucast (drop_bit k n AND 0xFF)"

lemma sext_bit: "bit (sext k n) j \<longleftrightarrow> j < 6 \<and> bit n (k + j)"
proof -
  have m: "(0x3F::u32) = mask 6" by (simp add: mask_eq_exp_minus_1)
  show ?thesis unfolding sext_def m by (auto simp: bit_simps)
qed

lemma octet_bit: "bit (octet k n) j \<longleftrightarrow> j < 8 \<and> bit n (k + j)"
proof -
  have m: "(0xFF::u32) = mask 8" by (simp add: mask_eq_exp_minus_1)
  show ?thesis unfolding octet_def m by (auto simp: bit_simps)
qed

definition below :: "nat \<Rightarrow> u32 \<Rightarrow> bool" where
  "below k w \<longleftrightarrow> (\<forall>j. bit w j \<longrightarrow> j < k)"

lemma below_sext: "below 6 (sext k n)"
  by (simp add: below_def sext_bit)

definition join6 :: "u32 \<Rightarrow> u32 \<Rightarrow> u32 \<Rightarrow> u32 \<Rightarrow> u32" where
  "join6 a b c d = push_bit 18 a OR push_bit 12 b OR push_bit 6 c OR d"

definition join8 :: "byte \<Rightarrow> byte \<Rightarrow> byte \<Rightarrow> u32" where
  "join8 a b c = push_bit 16 (ucast a) OR push_bit 8 (ucast b) OR ucast c"

lemma byte_bit: "bit (b::byte) j \<Longrightarrow> j < 8"
  using bit_imp_le_length [of b j] by simp

lemma join8_bit: "bit (join8 a b c) j \<longleftrightarrow> (if j < 8 then bit c j else if j < 16 then bit b (j - 8) else if j < 24 then bit a (j - 16) else False)"
  by (auto simp: join8_def bit_simps dest: byte_bit)

lemma join6_bit:
  assumes "below 6 a" "below 6 b" "below 6 c" "below 6 d"
  shows "bit (join6 a b c d) j \<longleftrightarrow> (if j < 6 then bit d j else if j < 12 then bit c (j - 6) else if j < 18 then bit b (j - 12)
     else if j < 24 then bit a (j - 18) else False)"
  using assms by (auto simp: join6_def bit_simps below_def)

text \<open>The six-bit parts of a group and its bytes determine each other.\<close>

lemma sext_join6:
  assumes "below 24 n"
  shows "join6 (sext 18 n) (sext 12 n) (sext 6 n) (sext 0 n) = n"
proof (rule bit_word_eqI)
  fix j
  have "j < 24" if "bit n j" using assms that by (simp add: below_def)
  then show "bit (join6 (sext 18 n) (sext 12 n) (sext 6 n) (sext 0 n)) j = bit n j"
    unfolding join6_bit [OF below_sext below_sext below_sext below_sext] sext_bit by auto
qed

lemma octet_join8: "octet 16 (join8 a b c) = a" "octet 8 (join8 a b c) = b" "octet 0 (join8 a b c) = c"
  by (rule bit_word_eqI, simp add: octet_bit join8_bit)+

lemma join8_octet:
  assumes "below 24 n"
  shows "join8 (octet 16 n) (octet 8 n) (octet 0 n) = n"
proof (rule bit_word_eqI)
  fix j
  have "j < 24" if "bit n j" using assms that by (simp add: below_def)
  then show "bit (join8 (octet 16 n) (octet 8 n) (octet 0 n)) j = bit n j" unfolding join8_bit octet_bit by auto
qed

lemma join8_below: "below 24 (join8 a b c)"
  by (simp add: below_def join8_bit)

lemma join6_parts:
  assumes "below 6 a" "below 6 b" "below 6 c" "below 6 d"
  shows "sext 18 (join6 a b c d) = a" "sext 12 (join6 a b c d) = b" "sext 6 (join6 a b c d) = c" "sext 0 (join6 a b c d) = d"
    "below 24 (join6 a b c d)"
proof -
  note jb = join6_bit [OF assms]
  show "sext 18 (join6 a b c d) = a" by (rule bit_word_eqI, unfold sext_bit jb, use assms(1) in \<open>auto simp: below_def\<close>)
  show "sext 12 (join6 a b c d) = b" by (rule bit_word_eqI, unfold sext_bit jb, use assms(2) in \<open>auto simp: below_def\<close>)
  show "sext 6 (join6 a b c d) = c" by (rule bit_word_eqI, unfold sext_bit jb, use assms(3) in \<open>auto simp: below_def\<close>)
  show "sext 0 (join6 a b c d) = d" by (rule bit_word_eqI, unfold sext_bit jb, use assms(4) in \<open>auto simp: below_def\<close>)
  show "below 24 (join6 a b c d)" unfolding below_def jb by (auto split: if_splits)
qed

lemma below_small: "i < 64 \<Longrightarrow> below 6 (word_of_nat i)"
  using small_bit by (simp add: below_def)

section \<open>The encoding as a function\<close>

definition b64 :: "u32 \<Rightarrow> byte" where
  "b64 w = base64_alphabet ! unat w"

fun base64 :: "byte list \<Rightarrow> byte list" where
  "base64 (a # b # c # p) =
     (let n = join8 a b c in [b64 (sext 18 n), b64 (sext 12 n), b64 (sext 6 n), b64 (sext 0 n)] @ base64 p)"
| "base64 [a, b] = (let n = join8 a b 0 in [b64 (sext 18 n), b64 (sext 12 n), b64 (sext 6 n), 61])"
| "base64 [a] = (let n = join8 a 0 0 in [b64 (sext 18 n), b64 (sext 12 n), 61, 61])"
| "base64 [] = []"

lemma sextet_b64: "sextet n k = b64 (sext k n)"
  by (simp add: sextet_def b64_def sext_def)

lemma base64_length: "length (base64 p) = ((length p + 2) div 3) * 4"
proof (induction p rule: base64.induct)
  case (1 a b c p)
  have "(length (a # b # c # p) + 2) div 3 = Suc ((length p + 2) div 3)" by simp
  then show ?case using 1 by (simp add: Let_def del: add_2_eq_Suc')
qed (simp_all add: Let_def)

text \<open>A write right after the bytes \<open>pre\<close> that have been written.\<close>

lemma buf_put_at: "length bs \<le> length rest \<Longrightarrow> buf_put (pre @ rest) (length pre) bs = Some (pre @ bs @ drop (length bs) rest)"
  by (simp add: buf_put_def)

lemma base64_encode_ends:
  assumes "length (base64 p) \<le> length rest"
  shows "do { (r, oi, out) \<leftarrow> base64_encode_loop p (length pre) (pre @ rest); base64_encode_rest r oi out } =
     Some (length pre + length (base64 p), pre @ base64 p @ drop (length (base64 p)) rest)"
  using assms
proof (induction p arbitrary: pre rest rule: base64.induct)
  case (1 a b c p)
  let ?n = "join8 a b c"
  let ?g = "[b64 (sext 18 ?n), b64 (sext 12 ?n), b64 (sext 6 ?n), b64 (sext 0 ?n)]"
  have le: "length ?g \<le> length rest" "length (base64 p) \<le> length (drop (length ?g) rest)" using 1(2) by (simp_all add: Let_def)
  have four: "length pre + 4 = Suc (Suc (Suc (Suc (length pre))))" by simp
  have step: "base64_encode_loop (a # b # c # p) (length pre) (pre @ rest) = base64_encode_loop p (length (pre @ ?g)) ((pre @ ?g) @ drop (length ?g) rest)"
    using buf_put_at [OF le(1), of pre] by (simp add: Let_def sextet_b64 join8_def [symmetric] four)
  show ?case unfolding step 1(1) [OF refl le(2), of "pre @ ?g"] by (simp add: Let_def add.commute)
next
  case (2 a b)
  have j: "push_bit 16 (ucast a) OR push_bit 8 (ucast b) = join8 a b 0" by (simp add: join8_def)
  show ?case using 2 buf_put_at [of "base64 [a, b]" rest pre] by (simp add: base64_encode_rest_def Let_def sextet_b64 j)
next
  case (3 a)
  have j: "push_bit 16 (ucast a) = join8 a 0 0" by (simp add: join8_def)
  show ?case using 3 buf_put_at [of "base64 [a]" rest pre] by (simp add: base64_encode_rest_def Let_def sextet_b64 j)
next
  case 4
  then show ?case by (simp add: base64_encode_rest_def)
qed

section \<open>Decoding as a function\<close>

fun unbase64 :: "byte list \<Rightarrow> byte list option" where
  "unbase64 (a # b # c # d # s) = do {
     vals \<leftarrow> base64_group_vals (s = []) 0 False [a, b, c, d];
     bs \<leftarrow> base64_group_bytes vals;
     rest \<leftarrow> unbase64 s;
     Some (bs @ rest)
   }"
| "unbase64 [] = Some []"
| "unbase64 _ = None"

text \<open>The values of an accepted group are positions in the alphabet.\<close>

lemma group_vals_cases:
  assumes "base64_group_vals lg 0 False [a, b, c, d] = Some vals"
  obtains i j k l where "vals = [int i, int j, int k, int l]" "i < 64" "j < 64" "k < 64" "l < 64"
      "a = base64_alphabet ! i" "b = base64_alphabet ! j" "c = base64_alphabet ! k" "d = base64_alphabet ! l"
  | i j k where "lg" "vals = [int i, int j, int k, - 1]" "i < 64" "j < 64" "k < 64"
      "a = base64_alphabet ! i" "b = base64_alphabet ! j" "c = base64_alphabet ! k" "d = 61"
  | i j where "lg" "vals = [int i, int j, - 1, - 1]" "i < 64" "j < 64" "a = base64_alphabet ! i" "b = base64_alphabet ! j" "c = 61" "d = 61"
proof -
  have val: "\<exists>i < 64. base64_decode_table_init ! unat x = int i \<and> x = base64_alphabet ! i" if "\<not> base64_decode_table_init ! unat x < 0" for x
    using table_value [of x] that by auto
  have ab: "\<not> base64_decode_table_init ! unat a < 0" "\<not> base64_decode_table_init ! unat b < 0"
    using assms by (auto simp: Let_def split: if_splits)
  obtain i j where ij: "i < 64" "base64_decode_table_init ! unat a = int i" "a = base64_alphabet ! i"
    "j < 64" "base64_decode_table_init ! unat b = int j" "b = base64_alphabet ! j" using val [OF ab(1)] val [OF ab(2)] by blast
  have ne: "a \<noteq> 61" "b \<noteq> 61" using table_alphabet(2) ij by auto
  show thesis
  proof (cases "c = 61")
    case True
    then have "d = 61" "lg" "vals = [int i, int j, - 1, - 1]" using assms ij ne by (auto simp: Let_def split: if_splits)
    then show thesis using that(3) ij True by blast
  next
    case False
    then have c: "\<not> base64_decode_table_init ! unat c < 0" using assms ne by (auto simp: Let_def split: if_splits)
    obtain k where k: "k < 64" "base64_decode_table_init ! unat c = int k" "c = base64_alphabet ! k" using val [OF c] by blast
    show thesis
    proof (cases "d = 61")
      case True
      then have "lg" "vals = [int i, int j, int k, - 1]" using assms ij ne k False by (auto simp: Let_def split: if_splits)
      then show thesis using that(2) ij k True by blast
    next
      case d: False
      then have "\<not> base64_decode_table_init ! unat d < 0" using assms ne False by (auto simp: Let_def split: if_splits)
      then obtain l where l: "l < 64" "base64_decode_table_init ! unat d = int l" "d = base64_alphabet ! l" using val by blast
      then have "vals = [int i, int j, int k, int l]" using assms ij ne k False d by (auto simp: Let_def split: if_splits)
      then show thesis using that(1) ij k l by blast
    qed
  qed
qed

lemma nat_bit_32: "i < 64 \<Longrightarrow> bit (word_of_nat i :: u32) j \<longleftrightarrow> bit i j"
proof -
  assume i: "i < 64"
  have "take_bit 6 i = i" using i by (simp add: take_bit_eq_mod)
  then have "bit i j \<Longrightarrow> j < 6" by (metis bit_take_bit_iff)
  then show ?thesis by (auto simp: bit_simps)
qed

lemma int_low_bits: "i < 64 \<Longrightarrow> int i AND mask k = 0 \<longleftrightarrow> (\<forall>j < k. \<not> bit (word_of_nat i :: u32) j)"
proof -
  assume i: "i < 64"
  have "int i AND mask k = 0 \<longleftrightarrow> (\<forall>j < k. \<not> bit i j)" by (auto simp: bit_eq_iff bit_simps)
  then show ?thesis using nat_bit_32 [OF i] by simp
qed

section \<open>Both directions\<close>

lemma b64_nth: "i < 64 \<Longrightarrow> b64 (word_of_nat i) = base64_alphabet ! i"
  by (simp add: b64_def unsigned_of_nat take_bit_eq_mod)

lemma sext_less: "unat (sext k n) < 64"
proof -
  have "sext k n \<le> 0x3F" by (simp add: sext_def word_and_le1)
  then show ?thesis by (simp add: word_le_nat_alt)
qed

text \<open>The bytes that an accepted group gives, and the group that encodes them.\<close>

lemma group_sound:
  assumes v: "base64_group_vals lg 0 False [a, b, c, d] = Some vals" and bs: "base64_group_bytes vals = Some bs"
  shows "base64 bs = [a, b, c, d] \<and> (length bs = 3 \<and> d \<noteq> 61 \<or> lg \<and> length bs = 2 \<and> c \<noteq> 61 \<and> d = 61 \<or> lg \<and> length bs = 1 \<and> c = 61 \<and> d = 61)"
  using v
proof (cases rule: group_vals_cases)
  case (1 i j k l)
  let ?n = "join6 (word_of_nat i) (word_of_nat j) (word_of_nat k) (word_of_nat l)"
  have n: "bs = [octet 16 ?n, octet 8 ?n, octet 0 ?n]" using bs 1(1) by (simp add: base64_group_bytes_def Let_def octet_def join6_def)
  note p = join6_parts [OF below_small [OF 1(2)] below_small [OF 1(3)] below_small [OF 1(4)] below_small [OF 1(5)]]
  show ?thesis using n p 1 table_alphabet(2) [OF 1(5)] by (simp add: join8_octet Let_def b64_nth)
next
  case (2 i j k)
  let ?n = "join6 (word_of_nat i) (word_of_nat j) (word_of_nat k) 0"
  have z: "below 6 0" by (simp add: below_def)
  note p = join6_parts [OF below_small [OF 2(3)] below_small [OF 2(4)] below_small [OF 2(5)] z]
  have m: "(3::int) = mask 2" by (simp add: mask_eq_exp_minus_1)
  have low: "\<not> bit (word_of_nat k :: u32) x" if "x < 2" for x
    using bs 2(2) int_low_bits [OF 2(5), of 2] that by (auto simp: base64_group_bytes_def m split: if_splits)
  have "octet 0 ?n = 0"
    by (rule bit_word_eqI) (use low in \<open>auto simp: octet_bit join6_bit [OF below_small [OF 2(3)] below_small [OF 2(4)] below_small [OF 2(5)] z]\<close>)
  then have j8: "join8 (octet 16 ?n) (octet 8 ?n) 0 = ?n" using join8_octet [OF p(5)] by simp
  have n: "bs = [octet 16 ?n, octet 8 ?n]" using bs 2(2) by (simp add: base64_group_bytes_def Let_def octet_def join6_def split: if_splits)
  show ?thesis using n p 2 j8 table_alphabet(2) [OF 2(5)] by (simp add: Let_def b64_nth)
next
  case (3 i j)
  let ?n = "join6 (word_of_nat i) (word_of_nat j) 0 0"
  have z: "below 6 0" by (simp add: below_def)
  note p = join6_parts [OF below_small [OF 3(3)] below_small [OF 3(4)] z z]
  have m: "(15::int) = mask 4" by (simp add: mask_eq_exp_minus_1)
  have low: "\<not> bit (word_of_nat j :: u32) x" if "x < 4" for x
    using bs 3(2) int_low_bits [OF 3(4), of 4] that by (auto simp: base64_group_bytes_def m split: if_splits)
  have "octet 0 ?n = 0" "octet 8 ?n = 0"
    by (rule bit_word_eqI, use low in \<open>auto simp: octet_bit join6_bit [OF below_small [OF 3(3)] below_small [OF 3(4)] z z]\<close>)+
  then have j8: "join8 (octet 16 ?n) 0 0 = ?n" using join8_octet [OF p(5)] by simp
  have n: "bs = [octet 16 ?n]" using bs 3(2) by (simp add: base64_group_bytes_def Let_def octet_def join6_def split: if_splits)
  show ?thesis using n p 3 j8 by (simp add: Let_def b64_nth)
qed

lemma b64_value: "base64_decode_table_init ! unat (b64 (sext k n)) = int (unat (sext k n))" "b64 (sext k n) \<noteq> 61" "b64 (sext k n) \<noteq> 0"
  using table_alphabet [OF sext_less [of k n]] by (auto simp: b64_def)

lemma sext_low:
  assumes "\<And>x. x < m \<Longrightarrow> \<not> bit n (k + x)" "m \<le> 6"
  shows "int (unat (sext k n)) AND mask m = 0"
proof -
  have "word_of_nat (unat (sext k n)) = sext k n" by simp
  then show ?thesis using int_low_bits [OF sext_less, of k n m] assms by (simp only: sext_bit) auto
qed

lemma group_complete:
  assumes "length bs = 3 \<or> lg \<and> (length bs = 1 \<or> length bs = 2)"
  shows "\<exists>vals. base64_group_vals lg 0 False (base64 bs) = Some vals \<and> base64_group_bytes vals = Some bs"
proof -
  have m: "(15::int) = mask 4" "(3::int) = mask 2" by (simp_all add: mask_eq_exp_minus_1)
  have o: "octet 0 n = ucast (n AND 0xFF)" "octet k n = ucast (drop_bit k n AND 0xFF)" for k n by (simp_all add: octet_def)
  consider a b c where "bs = [a, b, c]" | a b where lg "bs = [a, b]" | a where lg "bs = [a]"
    using assms by (auto simp: length_Suc_conv numeral_3_eq_3 numeral_2_eq_2)
  then show ?thesis
  proof cases
    case 1
    let ?n = "join8 a b c"
    note j = sext_join6 [OF join8_below [of a b c], unfolded join6_def]
    have "base64_group_bytes (map (\<lambda>k. int (unat (sext k ?n))) [18, 12, 6, 0]) = Some [octet 16 ?n, octet 8 ?n, octet 0 ?n]"
      by (simp add: base64_group_bytes_def Let_def j o)
    then show ?thesis using 1 by (simp add: Let_def b64_value octet_join8)
  next
    case 2
    let ?n = "join8 a b 0"
    have z: "sext 0 ?n = 0" by (rule bit_word_eqI) (simp add: sext_bit join8_bit)
    note j = sext_join6 [OF join8_below [of a b 0], unfolded join6_def z]
    have l: "int (unat (sext 6 ?n)) AND mask 2 = 0" by (rule sext_low) (simp_all add: join8_bit)
    have "base64_group_bytes (map (\<lambda>k. int (unat (sext k ?n))) [18, 12, 6] @ [- 1]) = Some [octet 16 ?n, octet 8 ?n]"
      using l j by (simp add: base64_group_bytes_def Let_def m o)
    then show ?thesis using 2 by (simp add: Let_def b64_value octet_join8)
  next
    case 3
    let ?n = "join8 a 0 0"
    have z: "sext 0 ?n = 0" "sext 6 ?n = 0" by (rule bit_word_eqI, simp add: sext_bit join8_bit)+
    note j = sext_join6 [OF join8_below [of a 0 0], unfolded join6_def z]
    have l: "int (unat (sext 12 ?n)) AND mask 4 = 0" by (rule sext_low) (simp_all add: join8_bit)
    have "base64_group_bytes (map (\<lambda>k. int (unat (sext k ?n))) [18, 12] @ [- 1, - 1]) = Some [octet 16 ?n]"
      using l j by (simp add: base64_group_bytes_def Let_def m o)
    then show ?thesis using 3 by (simp add: Let_def b64_value octet_join8)
  qed
qed

lemma unbase64_base64: "unbase64 (base64 p) = Some p"
proof (induction p rule: base64.induct)
  case (1 a b c p)
  let ?n = "join8 a b c"
  have g: "base64 [a, b, c] = [b64 (sext 18 ?n), b64 (sext 12 ?n), b64 (sext 6 ?n), b64 (sext 0 ?n)]" by (simp add: Let_def)
  obtain vals where v: "base64_group_vals (base64 p = []) 0 False (base64 [a, b, c]) = Some vals" "base64_group_bytes vals = Some [a, b, c]"
    using group_complete [of "[a, b, c]"] by auto
  then show ?case using 1 [OF refl] by (simp add: Let_def)
next
  case (2 a b)
  obtain vals where "base64_group_vals True 0 False (base64 [a, b]) = Some vals" "base64_group_bytes vals = Some [a, b]"
    using group_complete [of "[a, b]" True] by auto
  then show ?case by (simp add: Let_def)
next
  case (3 a)
  obtain vals where "base64_group_vals True 0 False (base64 [a]) = Some vals" "base64_group_bytes vals = Some [a]"
    using group_complete [of "[a]" True] by auto
  then show ?case by (simp add: Let_def)
qed simp

lemma unbase64_sound: "unbase64 s = Some p \<Longrightarrow> s = base64 p"
proof (induction s arbitrary: p rule: unbase64.induct)
  case (1 a b c d s)
  then obtain vals bs rest where r: "base64_group_vals (s = []) 0 False [a, b, c, d] = Some vals" "base64_group_bytes vals = Some bs"
    "unbase64 s = Some rest" "p = bs @ rest" by (auto split: bind_splits)
  note g = group_sound [OF r(1,2)]
  have s: "s = base64 rest" by (rule 1(1) [OF r(1,2,3)])
  show ?case
  proof (cases "s = []")
    case True
    then have "rest = []" using r(3) by simp
    then show ?thesis using g r(4) True by simp
  next
    case False
    then obtain x y z where "bs = [x, y, z]" using g by (auto simp: length_Suc_conv numeral_3_eq_3)
    then show ?thesis using g r(4) s by (simp add: Let_def)
  qed
qed simp_all

section \<open>The loops and the buffers\<close>

text \<open>How many of the last two characters are padding, as the pre-scan counts them.\<close>

definition pad_of :: "byte list \<Rightarrow> nat" where
  "pad_of s = (if s ! (length s - 1) = 61 then if length s \<ge> 2 \<and> s ! (length s - 2) = 61 then 2 else 1 else 0)"

lemma pad_of_tail: "4 \<le> length s \<Longrightarrow> pad_of (a # b # c # d # s) = pad_of s"
  by (auto simp: pad_of_def nth_Cons' numeral_eq_Suc Suc_diff_le)

lemma pad_of_4: "pad_of [a, b, c, d] = (if d = 61 then if c = 61 then 2 else 1 else 0)"
  by (simp add: pad_of_def numeral_eq_Suc)

lemma pad_of_base64: "p \<noteq> [] \<Longrightarrow> length p = 3 * (length (base64 p) div 4) - pad_of (base64 p)"
proof (induction p rule: base64.induct)
  case (1 a b c p)
  show ?case
  proof (cases "p = []")
    case True
    then show ?thesis by (simp add: Let_def pad_of_4 b64_value)
  next
    case False
    then have l: "4 \<le> length (base64 p)" by (cases p rule: base64.cases) (simp_all add: Let_def)
    have "pad_of (base64 p) \<le> 2" by (simp add: pad_of_def)
    moreover have "1 \<le> length (base64 p) div 4" using l by (simp add: Suc_le_eq div_greater_zero_iff)
    moreover have "(4 + length (base64 p)) div 4 = Suc (length (base64 p) div 4)" by simp
    ultimately show ?thesis using 1(1) [OF refl False] pad_of_tail [OF l] by (simp add: Let_def)
  qed
qed (simp_all add: Let_def pad_of_4 b64_value)

lemma unbase64_length: "unbase64 s = Some p \<Longrightarrow> s \<noteq> [] \<Longrightarrow> length p = 3 * (length s div 4) - pad_of s"
  using unbase64_sound [of s p] pad_of_base64 [of p] by (cases "p = []") auto

lemma base64_decode_ends:
  assumes "length s = 4 * g" "3 * g - pad_of s \<le> length rest"
  shows "base64_decode_loop s (length pre) (pre @ rest) =
     Some (case unbase64 s of None \<Rightarrow> None | Some p \<Rightarrow> Some (length pre + length p, pre @ p @ drop (length p) rest))"
  using assms
proof (induction s arbitrary: g pre rest rule: unbase64.induct)
  case (1 a b c d s)
  show ?case
  proof (cases "base64_group_vals (s = []) 0 False [a, b, c, d]")
    case None
    then show ?thesis by simp
  next
    case v: (Some vals)
    show ?thesis
    proof (cases "base64_group_bytes vals")
      case None
      then show ?thesis using v by simp
    next
      case (Some bs)
      note gs = group_sound [OF v Some]
      obtain g' where g: "g = Suc g'" "length s = 4 * g'" using 1(2) by (cases g) auto
      have le: "length bs \<le> length rest" and sub: "3 * g' - pad_of s \<le> length (drop (length bs) rest)"
      proof -
        have "length bs + (3 * g' - pad_of s) \<le> length rest"
        proof (cases "s = []")
          case True
          then have "g' = 0" using g by simp
          then show ?thesis using gs 1(3) g(1) True by (auto simp: pad_of_def numeral_eq_Suc)
        next
          case False
          then have "4 \<le> length s" "length bs = 3" using g(2) gs by (cases g'; auto)+
          moreover have "pad_of s \<le> 2" by (simp add: pad_of_def)
          ultimately show ?thesis using 1(3) g(1,2) pad_of_tail [of s a b c d] False by (cases g') auto
        qed
        then show "length bs \<le> length rest" "3 * g' - pad_of s \<le> length (drop (length bs) rest)" by auto
      qed
      have "base64_decode_loop (a # b # c # d # s) (length pre) (pre @ rest) =
          base64_decode_loop s (length (pre @ bs)) ((pre @ bs) @ drop (length bs) rest)"
        using v Some buf_put_at [OF le, of pre] by simp
      also note 1(1) [OF v Some g(2) sub, of "pre @ bs"]
      finally show ?thesis using v Some by (auto split: option.splits simp: add.commute)
    qed
  qed
next
  case 2
  then show ?case by simp
next
  case "3_2"
  from "3_2"(1) have "Suc (Suc 0) = 4 * g" by simp
  then have False by presburger
  then show ?case ..
next
  case "3_3"
  from "3_3"(1) have "Suc (Suc (Suc 0)) = 4 * g" by simp
  then have False by presburger
  then show ?case ..
qed auto

definition base64_max :: size_t where
  "base64_max = (SIZE_MAX div 4) * 3 - 4"

text \<open>What encoding gives: null for too long an input or a refusal, otherwise the encoding.\<close>

lemma encode_mp_eq:
  "chttp_base64_encode_mp (Some d) (length d) h =
     Some (if length d > base64_max then (None, h)
           else case mem_alloc h (length (base64 d) + 1) of
                  (None, h) \<Rightarrow> (None, h)
                | (Some (blk, _), h) \<Rightarrow> (Some (blk, base64 d @ [0], length (base64 d)), h))"
proof (cases "length d > base64_max")
  case True
  then show ?thesis by (simp add: chttp_base64_encode_mp_def base64_max_def)
next
  case False
  let ?e = "base64 d"
  obtain r h1 where al: "mem_alloc h (length ?e + 1) = (r, h1)" by fastforce
  show ?thesis
  proof (cases r)
    case None
    then show ?thesis using False al by (simp add: chttp_base64_encode_mp_def base64_max_def base64_length)
  next
    case (Some x)
    obtain blk out where x: "x = (blk, out)" by fastforce
    have out: "length out = length ?e + 1" using mem_alloc_Some [of h "length ?e + 1" blk out h1] al Some x by simp
    have "length ?e \<le> length out" using out by simp
    from base64_encode_ends [OF this, of "[]"] obtain r1 oi out1 where
      l: "base64_encode_loop d 0 out = Some (r1, oi, out1)" "base64_encode_rest r1 oi out1 = Some (length ?e, ?e @ drop (length ?e) out)"
      by (auto split: bind_splits)
    have "buf_put (?e @ drop (length ?e) out) (length ?e) [0] = Some (?e @ [0])"
      using buf_put_at [of "[0]" "drop (length ?e) out" ?e] out by simp
    then show ?thesis using False al Some x l by (simp add: chttp_base64_encode_mp_def base64_max_def base64_length)
  qed
qed

lemma encode_mp_ends: "\<exists>e h'. chttp_base64_encode_mp (Some d) (length d) h = Some (e, h')"
proof (cases "chttp_base64_encode_mp (Some d) (length d) h")
  case None
  then show ?thesis by (simp add: encode_mp_eq)
next
  case (Some y)
  then show ?thesis by (cases y) simp
qed

lemma decode_mp_eq:
  "chttp_base64_decode_mp (Some s) h =
     Some (if length s mod 4 \<noteq> 0 then (None, h)
           else case mem_alloc h (if s = [] then 1 else 3 * (length s div 4) - pad_of s + 1) of
                  (None, h) \<Rightarrow> (None, h)
                | (Some (blk, out), h) \<Rightarrow>
                    (case unbase64 s of
                       None \<Rightarrow> (None, mem_free h blk)
                     | Some p \<Rightarrow> (Some (blk, p @ 0 # drop (length p + 1) out, length p), h)))"
proof (cases "length s mod 4 = 0 \<and> s \<noteq> []")
  case False
  then show ?thesis using buf_put_at [of "[0]" _ "[]"]
    by (cases "s = []") (auto simp: chttp_base64_decode_mp_def dest!: mem_alloc_Some split: prod.splits option.splits)
next
  case True
  let ?n = "3 * (length s div 4) - pad_of s"
  have g: "length s = 4 * (length s div 4)" using True by auto
  obtain r h1 where al: "mem_alloc h (?n + 1) = (r, h1)" by fastforce
  show ?thesis
  proof (cases r)
    case None
    then show ?thesis using True al by (simp add: chttp_base64_decode_mp_def Let_def mult.commute pad_of_def)
  next
    case (Some x)
    obtain blk out where x: "x = (blk, out)" by fastforce
    have out: "length out = ?n + 1" using mem_alloc_Some [of h "?n + 1" blk out h1] al Some x by simp
    have "?n \<le> length out" using out by simp
    note l = base64_decode_ends [OF g this, of "[]", simplified]
    have len: "length p < length out" if "unbase64 s = Some p" for p
      using unbase64_length [OF that] True out by simp
    have put: "buf_put (p @ drop (length p) out) (length p) [0] = Some (p @ 0 # drop (length p + 1) out)" if "unbase64 s = Some p" for p
      using buf_put_at [of "[0]" "drop (length p) out" p] len [OF that] by simp
    have "chttp_base64_decode_mp (Some s) h = do {
        r \<leftarrow> base64_decode_loop s 0 out;
        (case r of None \<Rightarrow> Some (None, mem_free h1 blk)
         | Some (oi, out) \<Rightarrow> do { out \<leftarrow> buf_put out oi [0]; Some (Some (blk, out, oi), h1) }) }"
      using True al Some x by (simp add: chttp_base64_decode_mp_def Let_def mult.commute pad_of_def)
    then show ?thesis using True al Some x l put by (cases "unbase64 s") (simp_all add: mult.commute)
  qed
qed

lemma base64_no_zero: "0 \<notin> set (base64 p)"
  by (induction p rule: base64.induct) (auto simp: Let_def b64_value(3) [symmetric])

lemma base64_drop: "takeWhile (\<lambda>c. c \<noteq> 0) (base64 p @ [0]) = base64 p"
  using base64_no_zero [of p] by (simp add: takeWhile_append)

text \<open>The decoder asks for one byte more than the data that a canonical string encodes.\<close>

lemma decode_size: "(if base64 p = [] then 1 else 3 * (length (base64 p) div 4) - pad_of (base64 p) + 1) = length p + 1"
  using unbase64_length [OF unbase64_base64, of p] unbase64_base64 [of p] by auto

lemma decode_base64:
  "\<exists>r h'. chttp_base64_decode_mp (Some (base64 p)) h = Some (r, h')
     \<and> (if refused h then r = None \<and> live h' = live h
        else r = Some (next_blk h, p @ [0], length p) \<and> live h' = insert (next_blk h) (live h))"
proof -
  obtain r h1 where al: "mem_alloc h (length p + 1) = (r, h1)" by fastforce
  have four: "length (base64 p) mod 4 = 0" by (simp add: base64_length)
  show ?thesis
  proof (cases r)
    case None
    then show ?thesis using al four mem_alloc_None [of h "length p + 1" h1] mem_alloc_refused(1) [of h "length p + 1" h1]
      unfolding decode_mp_eq decode_size by simp
  next
    case (Some x)
    obtain blk out where x: "x = (blk, out)" by fastforce
    note m = mem_alloc_Some [OF al [unfolded Some x]]
    have "\<not> refused h" using mem_alloc_refused(2) al Some by blast
    moreover have "drop (length p + 1) out = []" using m by simp
    ultimately show ?thesis using al four m unfolding decode_mp_eq decode_size Some x by (simp add: unbase64_base64)
  qed
qed

lemma decode_other:
  assumes "heap_ok h" "\<nexists>p. s = base64 p"
  shows "\<exists>h'. chttp_base64_decode_mp (Some s) h = Some (None, h') \<and> live h' = live h"
proof -
  have "unbase64 s = None" using unbase64_sound [of s] assms(2) by (cases "unbase64 s") auto
  then show ?thesis unfolding decode_mp_eq using heap_ok_fresh [OF assms(1)]
    by (auto split: prod.splits option.splits dest!: mem_alloc_None mem_alloc_Some)
qed

section \<open>The properties\<close>

text \<open>
  Claim C36.  Base64 is a round trip, and neither direction writes outside its buffer.  For
  every input the encoder runs to its end.  It reports null, and leaves no block, exactly
  when the input is beyond the length limit or the allocator refuses; otherwise it returns
  one new block that holds the encoding and its terminator and no other byte, and no other
  zero byte, so it is a C string.  Decoding that string runs to its end as well: it
  reports null, and leaves no block, exactly when the allocator refuses, and otherwise
  gives the data back in one new block with its length and a terminator.
\<close>

theorem base64_decode_encode:
  "\<exists>e h1. chttp_base64_encode_mp (Some d) (length d) h = Some (e, h1)
     \<and> (if length d > base64_max \<or> refused h then e = None \<and> live h1 = live h
        else e = Some (next_blk h, base64 d @ [0], length (base64 d)) \<and> live h1 = insert (next_blk h) (live h) \<and> 0 \<notin> set (base64 d)
          \<and> (\<exists>r h2. chttp_base64_decode_mp (Some (base64 d)) h1 = Some (r, h2)
               \<and> (if refused h1 then r = None \<and> live h2 = live h1
                  else r = Some (next_blk h1, d @ [0], length d) \<and> live h2 = insert (next_blk h1) (live h1))))"
proof -
  obtain r h1 where al: "mem_alloc h (length (base64 d) + 1) = (r, h1)" by fastforce
  show ?thesis
  proof (cases "length d > base64_max \<or> r = None")
    case True
    then show ?thesis using al mem_alloc_None [of h "length (base64 d) + 1" h1] mem_alloc_refused(1) [of h "length (base64 d) + 1" h1]
      unfolding encode_mp_eq by auto
  next
    case False
    then obtain blk out where r: "r = Some (blk, out)" by (cases r) auto
    note m = mem_alloc_Some [OF al [unfolded r]] mem_alloc_refused(2) [OF al [unfolded r]]
    have "chttp_base64_encode_mp (Some d) (length d) h = Some (Some (next_blk h, base64 d @ [0], length (base64 d)), h1)"
      unfolding encode_mp_eq al r using False m by simp
    then show ?thesis using False m base64_no_zero [of d] decode_base64 [of d h1] by auto
  qed
qed

definition plain_heap :: heap where
  "plain_heap = \<lparr>answers = [Grant (\<lambda>_. 7), Grant (\<lambda>_. 9), Grant (\<lambda>_. 8)], next_blk = 0, live = {}\<rparr>"

lemma base64_example: "base64 [77, 97] = [84, 87, 69, 61]"
  by code_simp

theorem base64_decode_encode_witness:
  "\<exists>h1. chttp_base64_encode_mp (Some [77, 97]) 2 plain_heap = Some (Some (0, [84, 87, 69, 61, 0], 4), h1) \<and> live h1 = {0}
     \<and> (\<exists>r h2. chttp_base64_decode_mp (Some [84, 87, 69, 61]) h1 = Some (r, h2))"
proof -
  have "\<not> refused plain_heap" "next_blk plain_heap = 0" "live plain_heap = {}" "\<not> 2 > base64_max"
    by (simp_all add: plain_heap_def refused_def base64_max_def SIZE_MAX_def)
  then show ?thesis using base64_decode_encode [of "[77, 97]" plain_heap] unfolding base64_example by (auto simp: numeral_eq_Suc)
qed

text \<open>
  Claim C37.  The decoder accepts exactly the canonical Base64 strings and is safe on every
  input.  For every string it runs to its end, so it never writes beyond the block that it
  sized from the padding.  It returns a result exactly when the string is the encoding of
  some bytes and the allocator grants its one request; the result is then one new block
  with those bytes, their number and a terminator.  What it refuses, be it at the first
  group or at the last, leaves no block behind.
\<close>

theorem base64_decode_canonical:
  assumes "heap_ok h"
  shows "\<exists>r h'. chttp_base64_decode_mp (Some s) h = Some (r, h')
     \<and> (r \<noteq> None \<longleftrightarrow> (\<exists>p. s = base64 p) \<and> \<not> refused h)
     \<and> (case r of
          None \<Rightarrow> live h' = live h
        | Some (b, out, n) \<Rightarrow> b = next_blk h \<and> live h' = insert b (live h)
            \<and> (\<exists>p. s = base64 p \<and> out = p @ [0] \<and> n = length p))"
proof (cases "\<exists>p. s = base64 p")
  case True
  then obtain p where "s = base64 p" by blast
  then show ?thesis using decode_base64 [of p h] by (cases "refused h") auto
next
  case False
  then show ?thesis using decode_other [OF assms False] by auto
qed

theorem base64_decode_canonical_witness:
  "(\<exists>h'. chttp_base64_decode_mp (Some [84, 87, 69, 61]) plain_heap = Some (Some (0, [77, 97, 0], 2), h') \<and> live h' = {0})
     \<and> (\<exists>h'. chttp_base64_decode_mp (Some [81, 82, 61, 61]) plain_heap = Some (None, h') \<and> live h' = {})"
proof -
  have h: "heap_ok plain_heap" "live plain_heap = {}" "\<not> refused plain_heap" "next_blk plain_heap = 0"
    by (simp_all add: plain_heap_def heap_ok_def refused_def)
  have "unbase64 [81, 82, 61, 61] = None" by code_simp
  then have no: "\<nexists>p. [81, 82, 61, 61] = base64 p" by (metis unbase64_base64 option.distinct(1))
  have yes: "[84, 87, 69, 61] = base64 p \<longleftrightarrow> p = [77, 97]" for p
    by (metis base64_example unbase64_base64 option.inject)
  have "\<exists>h'. chttp_base64_decode_mp (Some [84, 87, 69, 61]) plain_heap = Some (Some (0, [77, 97, 0], 2), h') \<and> live h' = {0}"
    using base64_decode_canonical [OF h(1), of "[84, 87, 69, 61]"] h(2-4) unfolding yes by (auto split: option.splits)
  moreover have "\<exists>r h'. chttp_base64_decode_mp (Some [81, 82, 61, 61]) plain_heap = Some (r, h') \<and> r = None
      \<and> (case r of None \<Rightarrow> live h' = {} | Some _ \<Rightarrow> True)"
    using base64_decode_canonical [OF h(1), of "[81, 82, 61, 61]"] unfolding h(2) by (elim exE conjE, intro exI conjI) (assumption | use no in \<open>simp split: option.splits\<close>)+
  ultimately show ?thesis by auto
qed

text \<open>
  Basic authentication encodes the credentials it was asked for and no others.
  For every user name and password the call runs to its end and leaves no block but the
  one it returns; what it returns is \<^verbatim>\<open>Basic\<close>, a blank and the Base64 form of the pair,
  and a recipient that decodes it and cuts it at its first colon gets exactly the user
  name and the password; a user name with a colon and any control character are refused.
\<close>

theorem basic_auth_correct:
  assumes "heap_ok h"
  shows "\<exists>r h'. chttp_basic_auth_mp (Some u) (Some p) h = Some (r, h')
     \<and> (case r of
          None \<Rightarrow> live h' = live h
        | Some (b, out) \<Rightarrow> \<exists>c. out = map of_char ''Basic '' @ base64 c @ [0] \<and> takeWhile (\<lambda>x. x \<noteq> 58) c = u \<and> drop (length u + 1) c = p
            \<and> \<not> chttp_has_ctl u \<and> \<not> chttp_has_ctl p \<and> live h' = insert b (live h))"
proof (cases "58 \<in> set u \<or> chttp_has_ctl u \<or> chttp_has_ctl p \<or> length p > SIZE_MAX - length u \<or> length u + length p > SIZE_MAX - 2")
  case True
  then show ?thesis by (auto simp: chttp_basic_auth_mp_def chttp_basic_auth_len_def)
next
  case False
  let ?c = "u @ [58] @ p" and ?n = "length u + 1 + length p"
  have fresh: "next_blk h \<notin> live h" "Suc (next_blk h) \<notin> live h" "Suc (Suc (next_blk h)) \<notin> live h" using assms by (auto simp: heap_ok_def)
  obtain r h1 where al: "mem_alloc h (?n + 1) = (r, h1)" by fastforce
  note unf = chttp_basic_auth_mp_def [of "Some u" "Some p" h] chttp_basic_auth_len_def [of u "length u" p "length p" h]
  show ?thesis
  proof (cases r)
    case None
    then show ?thesis using False al mem_alloc_None [of h "?n + 1" h1] by (auto simp: unf)
  next
    case (Some x)
    obtain cb cj where x: "x = (cb, cj)" by fastforce
    note m1 = mem_alloc_Some [OF al [unfolded Some x]]
    have enc: "chttp_base64_encode_mp (Some (take ?n ?c @ [0])) ?n h1 = chttp_base64_encode_mp (Some ?c) (length ?c) h1"
      by (simp add: chttp_base64_encode_mp_def)
    obtain e h2 where e: "chttp_base64_encode_mp (Some ?c) (length ?c) h1 = Some (e, h2)"
      using encode_mp_ends [of ?c h1] by blast
    have run: "chttp_basic_auth_mp (Some u) (Some p) h = (case e of None \<Rightarrow> Some (None, mem_free h2 cb)
        | Some (bb, bs, bl) \<Rightarrow> (case mem_alloc (mem_free h2 cb) (6 + bl + 1) of
             (None, h) \<Rightarrow> Some (None, mem_free h bb)
           | (Some (ob, _), h) \<Rightarrow> Some (Some (ob, take (6 + bl) (map of_char ''Basic '' @ takeWhile (\<lambda>c. c \<noteq> 0) bs) @ [0]), mem_free h bb)))"
      using False al enc e by (cases e) (auto simp: unf Let_def Some x split: prod.splits)
    show ?thesis
    proof (cases e)
      case None
      then have "live h2 = live h1" using e unfolding encode_mp_eq by (auto split: if_splits prod.splits option.splits dest!: mem_alloc_None)
      then show ?thesis using None run m1 fresh by auto
    next
      case e2: (Some y)
      then have y: "y = (Suc (next_blk h), base64 ?c @ [0], length (base64 ?c))" "live h2 = insert (Suc (next_blk h)) (live h1)" "next_blk h2 = Suc (Suc (next_blk h))"
        using e m1 unfolding encode_mp_eq by (auto split: if_splits prod.splits option.splits dest!: mem_alloc_Some)
      let ?bl = "length (base64 ?c)"
      obtain o' h3 where o: "mem_alloc (mem_free h2 cb) (6 + ?bl + 1) = (o', h3)" by fastforce
      show ?thesis
      proof (cases o')
        case None
        have "live h3 = live h2 - {cb}" using mem_alloc_None [OF o [unfolded None]] by simp
        then show ?thesis unfolding run e2 y(1) using o None m1 y(2) fresh by auto
      next
        case (Some z)
        obtain ob oj where z: "z = (ob, oj)" by fastforce
        note m3 = mem_alloc_Some [OF o [unfolded Some z]]
        have out: "take (6 + ?bl) (map of_char ''Basic '' @ takeWhile (\<lambda>c. c \<noteq> 0) (base64 ?c @ [0])) = map of_char ''Basic '' @ base64 ?c"
          unfolding base64_drop by simp
        have cut: "takeWhile (\<lambda>x. x \<noteq> 58) ?c = u" "drop (length u + 1) ?c = p" using False by (auto simp: takeWhile_append)
        have "live (mem_free h3 (Suc (next_blk h))) = insert ob (live h)" using m3 m1 y fresh by auto
        moreover have "chttp_basic_auth_mp (Some u) (Some p) h = Some (Some (ob, map of_char ''Basic '' @ base64 ?c @ [0]), mem_free h3 (Suc (next_blk h)))"
          unfolding run e2 y(1) option.case prod.case o Some z out by simp
        ultimately show ?thesis using cut False by auto
      qed
    qed
  qed
qed

theorem basic_auth_correct_witness:
  "\<exists>r h'. chttp_basic_auth_mp (Some [65]) (Some [58, 66]) plain_heap = Some (r, h') \<and> (case r of None \<Rightarrow> live h' = {} | Some (b, _) \<Rightarrow> live h' = {b})"
proof -
  have "heap_ok plain_heap" "live plain_heap = {}" by (simp_all add: plain_heap_def heap_ok_def)
  then show ?thesis using basic_auth_correct [of plain_heap "[65]" "[58, 66]"] by (fastforce split: option.splits)
qed

end
