(* ===== verification/CCol_Http1_Lex.thy ===== *)
theory CCol_Http1_Lex
  imports CCol_Http CCol_Cstr
begin

text \<open>
  The grammar helpers of \<^verbatim>\<open>src/chttp1_parser.c\<close>: character classes, the two integer
  parsers, the checks of a host value and of chunk extensions, and the scans of the
  \<^verbatim>\<open>Transfer-Encoding\<close> and \<^verbatim>\<open>Connection\<close> lists.  A position of the code in a text of a
  known length is the rest of the text from that position on, and
  \<^verbatim>\<open>while (i < len && P (s[i])) i++\<close> is \<^term>\<open>dropWhile\<close>.  A read at a fixed position is
  \<open>rd\<close>, which is \<^term>\<open>None\<close> outside the text.
\<close>

section \<open>Characters\<close>

type_synonym uint64 = "64 word"

definition lit :: "string \<Rightarrow> byte list" where
  "lit s = map of_char s"

definition rd :: "byte list \<Rightarrow> size_t \<Rightarrow> byte option" where
  "rd s i = (if i < length s then Some (s ! i) else None)"

definition is_digit :: "byte \<Rightarrow> bool" where
  "is_digit c \<longleftrightarrow> c \<ge> 48 \<and> c \<le> 57"

definition is_ows :: "byte \<Rightarrow> bool" where
  "is_ows c \<longleftrightarrow> c = 32 \<or> c = 9"

definition chttp1_is_tchar :: "byte \<Rightarrow> bool" where
  "chttp1_is_tchar c \<longleftrightarrow>
     c \<ge> 97 \<and> c \<le> 122 \<or> c \<ge> 65 \<and> c \<le> 90 \<or> is_digit c
     \<or> c \<in> set [33, 35, 36, 37, 38, 39, 42, 43, 45, 46, 94, 95, 96, 124, 126]"

definition is_invalid_value_byte :: "byte \<Rightarrow> bool" where
  "is_invalid_value_byte c \<longleftrightarrow> c < 0x20 \<and> c \<noteq> 9 \<or> c = 0x7f"

definition is_invalid_target_byte :: "byte \<Rightarrow> bool" where
  "is_invalid_target_byte c \<longleftrightarrow> c \<le> 0x20 \<or> c = 0x7f"

definition is_hexdig :: "byte \<Rightarrow> bool" where
  "is_hexdig c \<longleftrightarrow> is_digit c \<or> c \<ge> 97 \<and> c \<le> 102 \<or> c \<ge> 65 \<and> c \<le> 70"

definition is_unreserved_or_sub_delim :: "byte \<Rightarrow> bool" where
  "is_unreserved_or_sub_delim c \<longleftrightarrow>
     c \<ge> 97 \<and> c \<le> 122 \<or> c \<ge> 65 \<and> c \<le> 90 \<or> is_digit c
     \<or> c \<in> set [45, 46, 95, 126, 33, 36, 38, 39, 40, 41, 42, 43, 44, 59, 61]"

section \<open>Overflow-checked integers\<close>

definition UINT64_MAX :: uint64 where
  "UINT64_MAX = 18446744073709551615"

fun decimal_loop :: "uint64 \<Rightarrow> byte list \<Rightarrow> uint64 option" where
  "decimal_loop v [] = Some v"
| "decimal_loop v (c # s) =
     (if \<not> is_digit c then None
      else
        let d = ucast (c - 48)
        in if v > UINT64_MAX div 10 then None
           else
             let v = v * 10
             in if v > UINT64_MAX - d then None else decimal_loop (v + d) s)"

definition parse_uint64_decimal :: "byte list \<Rightarrow> uint64 option" where
  "parse_uint64_decimal s = (if length s = 0 then None else decimal_loop 0 s)"

definition hex_value :: "byte \<Rightarrow> uint64 option" where
  "hex_value c =
     (if c \<ge> 48 \<and> c \<le> 57 then Some (ucast (c - 48))
      else if c \<ge> 97 \<and> c \<le> 102 then Some (ucast (c - 97 + 10))
      else if c \<ge> 65 \<and> c \<le> 70 then Some (ucast (c - 65 + 10))
      else None)"

fun hex_loop :: "uint64 \<Rightarrow> byte list \<Rightarrow> uint64 option" where
  "hex_loop v [] = Some v"
| "hex_loop v (c # s) =
     (case hex_value c of
        None \<Rightarrow> None
      | Some d \<Rightarrow>
          if v > UINT64_MAX div 16 then None
          else
            let v = v * 16
            in if v > UINT64_MAX - d then None else hex_loop (v + d) s)"

definition parse_uint64_hex :: "byte list \<Rightarrow> uint64 option" where
  "parse_uint64_hex s = (if length s = 0 then None else hex_loop 0 s)"

section \<open>Host values\<close>

text \<open>The walk over a registered name: the rest from the colon on, or a refusal.\<close>

fun host_reg_name :: "byte list \<Rightarrow> byte list option" where
  "host_reg_name [] = Some []"
| "host_reg_name (c # v) =
     (if c = 58 then Some (c # v)
      else if c = 37 then
        (case v of
           a # b # w \<Rightarrow> if is_hexdig a \<and> is_hexdig b then host_reg_name w else None
         | _ \<Rightarrow> None)
      else if \<not> is_unreserved_or_sub_delim c then None
      else host_reg_name v)"

definition host_literal_ok :: "byte list \<Rightarrow> bool" where
  "host_literal_ok l =
     (case l of
        [] \<Rightarrow> False
      | c # l' \<Rightarrow>
          if c = 118 \<or> c = 86 then
            let r = dropWhile is_hexdig l'
            in takeWhile is_hexdig l' \<noteq> []
               \<and> (case r of
                    [] \<Rightarrow> False
                  | d # r \<Rightarrow> d = 46 \<and> r \<noteq> [] \<and> list_all (\<lambda>c. is_unreserved_or_sub_delim c \<or> c = 58) r)
          else list_all (\<lambda>c. c = 58 \<or> is_hexdig c \<or> c = 46) l \<and> 58 \<in> set l)"

definition host_value_is_valid :: "byte list \<Rightarrow> bool" where
  "host_value_is_valid v =
     (let port = (\<lambda>r. case r of [] \<Rightarrow> True | c # r \<Rightarrow> c = 58 \<and> list_all is_digit r)
      in case v of
           [] \<Rightarrow> False
         | c # w \<Rightarrow>
             if c = 91 then
               (case dropWhile (\<lambda>c. c \<noteq> 93) w of
                  [] \<Rightarrow> False
                | _ # r \<Rightarrow> host_literal_ok (takeWhile (\<lambda>c. c \<noteq> 93) w) \<and> port r)
             else
               (case host_reg_name v of
                  None \<Rightarrow> False
                | Some r \<Rightarrow> length r < length v \<and> port r))"

section \<open>Names and lists\<close>

lemma dropWhile_less: "length s < n \<Longrightarrow> length (dropWhile P s) < n"
  using length_dropWhile_le [of P s] by simp

definition header_name_is :: "byte list \<Rightarrow> string \<Rightarrow> bool option" where
  "header_name_is name literal =
     (if length name = length literal
      then map_option (\<lambda>r. r = 0) (ccol_ascii_ncasecmp name (lit literal) (length literal))
      else Some False)"

definition trim_right :: "byte list \<Rightarrow> byte list" where
  "trim_right s = rev (dropWhile is_ows (rev s))"

text \<open>
  The answers of \<^verbatim>\<open>transfer_encoding_scan\<close>: how many codings are chunked, saturated at 2;
  whether a chunked one is not the last; whether the last one is; whether there is any;
  whether there is another one.
\<close>

record te_answer =
  te_count :: nat
  te_nonfinal :: bool
  te_last_chunked :: bool
  te_any :: bool
  te_other :: bool

definition te_token :: "byte list \<Rightarrow> te_answer \<Rightarrow> te_answer option" where
  "te_token tok t =
     (if tok = [] then Some t
      else do {
        is_chunked \<leftarrow> header_name_is tok ''chunked'';
        Some \<lparr>te_count = (if is_chunked \<and> te_count t < 2 then te_count t + 1 else te_count t),
              te_nonfinal = te_nonfinal t \<or> te_last_chunked t,
              te_last_chunked = is_chunked,
              te_any = True,
              te_other = te_other t \<or> \<not> is_chunked\<rparr>
      })"

function te_loop :: "byte list \<Rightarrow> te_answer \<Rightarrow> te_answer option" where
  "te_loop v t =
     (if v = [] then Some t
      else do {
        t \<leftarrow> te_token (dropWhile is_ows (trim_right (takeWhile (\<lambda>c. c \<noteq> 44) v))) t;
        te_loop (drop 1 (dropWhile (\<lambda>c. c \<noteq> 44) v)) t
      })"
  by pat_completeness auto
termination
proof (relation "measure (\<lambda>(v, _). length v)")
  fix v :: "byte list" and t t' :: te_answer
  assume "v \<noteq> []"
  then have "length v > 0" by simp
  moreover have "length (dropWhile (\<lambda>c. c \<noteq> 44) v) \<le> length v" by (rule length_dropWhile_le)
  ultimately show "((drop 1 (dropWhile (\<lambda>c. c \<noteq> 44) v), t'), v, t) \<in> measure (\<lambda>(v, _). length v)" by (simp only: in_measure prod.case length_drop)
qed simp

definition transfer_encoding_scan :: "byte list \<Rightarrow> te_answer option" where
  "transfer_encoding_scan v =
     te_loop v \<lparr>te_count = 0, te_nonfinal = False, te_last_chunked = False, te_any = False, te_other = False\<rparr>"

text \<open>The flags as the bits of a 16-bit word.\<close>

type_synonym flags = "16 word"

definition F_CHUNKED :: flags where "F_CHUNKED = 0x01"

definition F_CONTENT_LENGTH :: flags where "F_CONTENT_LENGTH = 0x02"

definition F_TRANSFER_ENCODING :: flags where "F_TRANSFER_ENCODING = 0x04"

definition F_CONNECTION_CLOSE :: flags where "F_CONNECTION_CLOSE = 0x08"

definition F_CONNECTION_KEEP_ALIVE :: flags where "F_CONNECTION_KEEP_ALIVE = 0x10"

definition F_EXPECT_100_CONTINUE :: flags where "F_EXPECT_100_CONTINUE = 0x20"

definition F_CHUNK_TOO_LARGE :: flags where "F_CHUNK_TOO_LARGE = 0x40"

definition F_CHUNKED_APPLIED :: flags where "F_CHUNKED_APPLIED = 0x80"

definition F_OTHER_CODING :: flags where "F_OTHER_CODING = 0x100"

definition F_HEADERS_DONE :: flags where "F_HEADERS_DONE = 0x200"

function connection_loop :: "byte list \<Rightarrow> flags \<Rightarrow> flags option" where
  "connection_loop v fl =
     (if v = [] then Some fl
      else
        let r = dropWhile (\<lambda>c. is_ows c \<or> c = 44) v;
            tok = trim_right (takeWhile (\<lambda>c. c \<noteq> 44) r)
        in do {
          close \<leftarrow> header_name_is tok ''close'';
          alive \<leftarrow> header_name_is tok ''keep-alive'';
          connection_loop (dropWhile (\<lambda>c. c \<noteq> 44) r)
            (if close then or fl F_CONNECTION_CLOSE
             else if alive then or fl F_CONNECTION_KEEP_ALIVE else fl)
        })"
  by pat_completeness auto
termination
proof (relation "measure (\<lambda>(v, _). length v)")
  fix v r tok :: "byte list" and fl fl' :: flags
  assume v: "v \<noteq> []" and r: "r = dropWhile (\<lambda>c. is_ows c \<or> c = 44) v"
  have le: "length (dropWhile (\<lambda>c. c \<noteq> 44) r) \<le> length r" "length r \<le> length v" unfolding r by (rule length_dropWhile_le)+
  have "length (dropWhile (\<lambda>c. c \<noteq> 44) r) < length v"
  proof (cases r)
    case Nil
    then show ?thesis using v by simp
  next
    case (Cons c r')
    then have "c \<noteq> 44" using hd_dropWhile [of "\<lambda>c. is_ows c \<or> c = 44" v] r by auto
    then have "length (dropWhile (\<lambda>c. c \<noteq> 44) r) < length r" using Cons by (simp add: dropWhile_less)
    then show ?thesis using le by simp
  qed
  then show "((dropWhile (\<lambda>c. c \<noteq> 44) r, fl'), v, fl) \<in> measure (\<lambda>(v, _). length v)" for fl' by simp
qed simp

section \<open>Chunk extensions\<close>

text \<open>A quoted string after its opening quote: the rest after the closing one.\<close>

fun quoted_string_rest :: "byte list \<Rightarrow> byte list option" where
  "quoted_string_rest [] = None"
| "quoted_string_rest (c # s) =
     (if c = 34 then Some s
      else if c = 92 then
        (case s of
           [] \<Rightarrow> None
         | e # s \<Rightarrow> if is_invalid_value_byte e then None else quoted_string_rest s)
      else if is_invalid_value_byte c then None
      else quoted_string_rest s)"

text \<open>
  One extension, from its blanks and semicolon on: the rest behind it, or a refusal.  The
  rest behind a name without a value is the one before the blanks that follow the name.
\<close>

definition chunk_ext_one :: "byte list \<Rightarrow> byte list option" where
  "chunk_ext_one s =
     (case dropWhile is_ows s of
        [] \<Rightarrow> None
      | c # s \<Rightarrow>
          if c \<noteq> 59 then None
          else
            let s = dropWhile is_ows s;
                after_name = dropWhile chttp1_is_tchar s
            in if takeWhile chttp1_is_tchar s = [] then None
               else
                 (case dropWhile is_ows after_name of
                    [] \<Rightarrow> Some after_name
                  | c # s \<Rightarrow>
                      if c \<noteq> 61 then Some after_name
                      else
                        (case dropWhile is_ows s of
                           [] \<Rightarrow> None
                         | c # s \<Rightarrow>
                             if c = 34 then quoted_string_rest s
                             else if takeWhile chttp1_is_tchar (c # s) = [] then None
                             else Some (dropWhile chttp1_is_tchar (c # s)))))"

lemma quoted_string_rest_shorter: "quoted_string_rest s = Some r \<Longrightarrow> length r < length s"
  by (induction s rule: quoted_string_rest.induct) (auto split: if_splits list.splits)

lemma dropWhile_lengthD: "dropWhile P s = r \<Longrightarrow> length r \<le> length s"
  using length_dropWhile_le by blast

lemma dropWhile_twice_le: "n \<le> length (dropWhile P (dropWhile Q s)) \<Longrightarrow> n \<le> length s"
  using length_dropWhile_le [of P "dropWhile Q s"] length_dropWhile_le [of Q s] by simp

lemma chunk_ext_one_shorter: "chunk_ext_one s = Some r \<Longrightarrow> length r < length s"
  unfolding chunk_ext_one_def Let_def
  by (auto split: list.splits if_splits dest!: dropWhile_lengthD quoted_string_rest_shorter dropWhile_twice_le intro!: dropWhile_less)

function chunk_ext_is_valid :: "byte list \<Rightarrow> bool" where
  "chunk_ext_is_valid s =
     (if s = [] then True
      else case chunk_ext_one s of None \<Rightarrow> False | Some r \<Rightarrow> chunk_ext_is_valid r)"
  by pat_completeness auto
termination by (relation "measure length") (auto dest: chunk_ext_one_shorter)

declare te_loop.simps [simp del] connection_loop.simps [simp del] chunk_ext_is_valid.simps [simp del]

end
