(* ===== verification/CCol_Http1.thy ===== *)
theory CCol_Http1
  imports CCol_Http1_Lex
begin

unbundle bit_operations_syntax

text \<open>
  The incremental parser of \<^verbatim>\<open>src/chttp1_parser.c\<close> and \<^verbatim>\<open>internal/chttp1_parser.h\<close>.  The
  parser is a record with the fields of its struct; the settings and the caller's context
  behind \<^verbatim>\<open>parser->data\<close> are arguments, because the parser never changes the first and only
  the callbacks touch the second.  A callback sees the parser and returns its \<^verbatim>\<open>int\<close> and
  the changed context.  The input that is left, \<^verbatim>\<open>p\<close> to \<^verbatim>\<open>end\<close> of the code, is a list.  A
  write outside the line buffer, or a read of a byte that the current line has not written,
  makes the result \<^term>\<open>None\<close>.
\<close>

section \<open>Data\<close>

datatype chttp1_errno = CHTTP1_OK | CHTTP1_PAUSED | CHTTP1_USER | CHTTP1_ERROR | CHTTP1_HEADERS_ONLY

datatype chttp1_parser_type = CHTTP1_PARSE_RESPONSE | CHTTP1_PARSE_REQUEST

datatype chttp1_state =
    CHTTP1_ST_FIRST_LINE
  | CHTTP1_ST_HEADERS
  | CHTTP1_ST_BODY_CONTENT_LENGTH
  | CHTTP1_ST_BODY_CHUNK_SIZE
  | CHTTP1_ST_BODY_CHUNK_DATA
  | CHTTP1_ST_BODY_CHUNK_CRLF
  | CHTTP1_ST_BODY_CHUNK_TRAILERS
  | CHTTP1_ST_BODY_EOF
  | CHTTP1_ST_MESSAGE_DONE
  | CHTTP1_ST_DEAD

datatype chttp1_finish_state = CHTTP1_FINISH_SAFE | CHTTP1_FINISH_SAFE_WITH_CB | CHTTP1_FINISH_UNSAFE

datatype line_result = LINE_NEED_MORE | LINE_READY | LINE_TOO_LONG | LINE_BAD_EOL

datatype ph_result = PH_OK | PH_ERROR | PH_USER

record chttp1_parser =
  p_status_code :: int
  p_type :: chttp1_parser_type
  p_reason :: "string option"
  p_state :: chttp1_state
  p_finish_state :: chttp1_finish_state
  p_http_major :: byte
  p_http_minor :: byte
  p_flags :: flags
  p_content_length :: uint64
  p_chunk_excess :: uint64
  p_header_count :: size_t
  p_total_header_bytes :: size_t
  p_leading_blank_lines :: size_t
  p_host_count :: byte
  p_line_spill_enabled :: bool
  p_max_header_count_override :: size_t
  p_max_total_header_bytes_override :: size_t
  p_max_chunk_size_override :: uint64
  p_line_len :: size_t
  p_line_spill :: "(nat \<times> byte list) option"
  p_consumed :: size_t
  p_line_buf :: "byte list"

record 'u chttp1_settings =
  on_header :: "(chttp1_parser \<Rightarrow> byte list \<Rightarrow> byte list \<Rightarrow> 'u \<Rightarrow> int \<times> 'u) option"
  on_trailer :: "(chttp1_parser \<Rightarrow> byte list \<Rightarrow> byte list \<Rightarrow> 'u \<Rightarrow> int \<times> 'u) option"
  on_request_line :: "(chttp1_parser \<Rightarrow> byte list \<Rightarrow> byte list \<Rightarrow> 'u \<Rightarrow> int \<times> 'u) option"
  on_headers_complete :: "(chttp1_parser \<Rightarrow> 'u \<Rightarrow> int \<times> 'u) option"
  on_body :: "(chttp1_parser \<Rightarrow> byte list \<Rightarrow> 'u \<Rightarrow> int \<times> 'u) option"
  on_message_complete :: "(chttp1_parser \<Rightarrow> 'u \<Rightarrow> int \<times> 'u) option"

text \<open>A callback through the settings pointer: without settings or without the callback it is skipped.\<close>

definition call_back :: "'s option \<Rightarrow> ('s \<Rightarrow> 'f option) \<Rightarrow> ('f \<Rightarrow> 'u \<Rightarrow> int \<times> 'u) \<Rightarrow> 'u \<Rightarrow> int \<times> 'u" where
  "call_back settings field app u =
     (case settings of
        None \<Rightarrow> (0, u)
      | Some st \<Rightarrow> (case field st of None \<Rightarrow> (0, u) | Some f \<Rightarrow> app f u))"

definition CHTTP1_MAX_LINE_LEN :: size_t where "CHTTP1_MAX_LINE_LEN = 8192"

definition CHTTP1_MAX_SPILL_LINE_LEN :: size_t where "CHTTP1_MAX_SPILL_LINE_LEN = 64 * 1024"

definition CHTTP1_MAX_HEADER_COUNT :: size_t where "CHTTP1_MAX_HEADER_COUNT = 100"

definition CHTTP1_MAX_TOTAL_HEADER_BYTES :: size_t where "CHTTP1_MAX_TOTAL_HEADER_BYTES = 64 * 1024"

definition CHTTP1_MAX_LEADING_BLANK_LINES :: size_t where "CHTTP1_MAX_LEADING_BLANK_LINES = 25"

definition CHTTP1_MAX_CHUNK_OVERHEAD_EXCESS :: uint64 where "CHTTP1_MAX_CHUNK_OVERHEAD_EXCESS = 16 * 1024"

definition CHTTP1_HEADERS_HAS_BODY :: int where "CHTTP1_HEADERS_HAS_BODY = 0"

definition CHTTP1_HEADERS_NO_BODY :: int where "CHTTP1_HEADERS_NO_BODY = 1"

definition CHTTP1_HEADERS_DIVERT_BODY :: int where "CHTTP1_HEADERS_DIVERT_BODY = 2"

definition has_flag :: "chttp1_parser \<Rightarrow> flags \<Rightarrow> bool" where
  "has_flag p f \<longleftrightarrow> p_flags p AND f \<noteq> 0"

definition set_flag :: "flags \<Rightarrow> chttp1_parser \<Rightarrow> chttp1_parser" where
  "set_flag f p = p\<lparr>p_flags := p_flags p OR f\<rparr>"

definition clear_flag :: "flags \<Rightarrow> chttp1_parser \<Rightarrow> chttp1_parser" where
  "clear_flag f p = p\<lparr>p_flags := p_flags p AND NOT f\<rparr>"

section \<open>Lines\<close>

definition line_ptr :: "chttp1_parser \<Rightarrow> byte list" where
  "line_ptr p = (case p_line_spill p of Some (_, s) \<Rightarrow> s | None \<Rightarrow> p_line_buf p)"

text \<open>\<^verbatim>\<open>buf[len] = c\<close> for the buffer of \<^verbatim>\<open>line_ptr\<close>.\<close>

definition line_store :: "chttp1_parser \<Rightarrow> size_t \<Rightarrow> byte \<Rightarrow> chttp1_parser option" where
  "line_store p len c =
     (case p_line_spill p of
        Some (b, s) \<Rightarrow> map_option (\<lambda>s. p\<lparr>p_line_spill := Some (b, s)\<rparr>) (buf_put s len [c])
      | None \<Rightarrow> map_option (\<lambda>s. p\<lparr>p_line_buf := s\<rparr>) (buf_put (p_line_buf p) len [c]))"

definition line_spill_grow :: "size_t \<Rightarrow> chttp1_parser \<Rightarrow> heap \<Rightarrow> (bool \<times> chttp1_parser \<times> heap) option" where
  "line_spill_grow header_budget_left p h =
     (if \<not> p_line_spill_enabled p \<or> p_line_spill p \<noteq> None then Some (False, p, h)
      else if header_budget_left \<le> CHTTP1_MAX_LINE_LEN then Some (False, p, h)
      else
        case mem_alloc h CHTTP1_MAX_SPILL_LINE_LEN of
          (None, h) \<Rightarrow> Some (False, p, h)
        | (Some (b, s), h) \<Rightarrow> do {
            s \<leftarrow> buf_put s 0 (take (p_line_len p) (p_line_buf p));
            Some (True, p\<lparr>p_line_spill := Some (b, s)\<rparr>, h)
          })"

definition spill_cap :: "size_t \<Rightarrow> size_t" where
  "spill_cap spill_budget =
     (if spill_budget \<noteq> 0 \<and> spill_budget < CHTTP1_MAX_SPILL_LINE_LEN then spill_budget
      else CHTTP1_MAX_SPILL_LINE_LEN)"

lemma line_spill_grow_True:
  "line_spill_grow b p h = Some (True, p', h') \<Longrightarrow> p_line_spill p = None \<and> p_line_spill p' \<noteq> None"
  by (cases "p_line_spill p") (auto simp: line_spill_grow_def split: if_splits prod.splits option.splits bind_splits)

function accumulate_loop ::
    "size_t \<Rightarrow> size_t \<Rightarrow> size_t \<Rightarrow> byte list \<Rightarrow> chttp1_parser \<Rightarrow> heap \<Rightarrow> (line_result \<times> byte list \<times> chttp1_parser \<times> heap) option" where
  "accumulate_loop spill_budget cap len [] p h = Some (LINE_NEED_MORE, [], p\<lparr>p_line_len := len\<rparr>, h)"
| "accumulate_loop spill_budget cap len (c # d) p h =
     (if len \<ge> cap then
        (case (if spill_budget \<noteq> 0 then line_spill_grow spill_budget (p\<lparr>p_line_len := len\<rparr>) h
               else Some (False, p\<lparr>p_line_len := len\<rparr>, h)) of
           None \<Rightarrow> None
         | Some (True, p, h) \<Rightarrow> accumulate_loop spill_budget (spill_cap spill_budget) len (c # d) p h
         | Some (False, p, h) \<Rightarrow> Some (LINE_TOO_LONG, [], p, h))
      else
        case line_store p len c of
          None \<Rightarrow> None
        | Some p \<Rightarrow>
            if c = 10 then
              if len + 1 < 2 then Some (LINE_BAD_EOL, d, p\<lparr>p_line_len := len + 1\<rparr>, h)
              else
                case rd (take (len + 1) (line_ptr p)) (len - 1) of
                  None \<Rightarrow> None
                | Some e \<Rightarrow>
                    if e \<noteq> 13 then Some (LINE_BAD_EOL, d, p\<lparr>p_line_len := len + 1\<rparr>, h)
                    else Some (LINE_READY, d, p\<lparr>p_line_len := len + 1 - 2\<rparr>, h)
            else accumulate_loop spill_budget cap (len + 1) d p h)"
  by pat_completeness auto
termination
  by (relation "measures [\<lambda>(_, _, _, d, _, _). length d, \<lambda>(_, _, _, _, p, _). if p_line_spill p = None then 1 else 0]")
     (auto split: if_splits dest: line_spill_grow_True)

definition accumulate_line :: "size_t \<Rightarrow> byte list \<Rightarrow> chttp1_parser \<Rightarrow> heap \<Rightarrow> (line_result \<times> byte list \<times> chttp1_parser \<times> heap) option" where
  "accumulate_line spill_budget d p h =
     accumulate_loop spill_budget
       (if p_line_spill p \<noteq> None then spill_cap spill_budget else CHTTP1_MAX_LINE_LEN) (p_line_len p) d p h"

text \<open>The bytes of the current line: what every reader of a line may look at.\<close>

definition line_text :: "chttp1_parser \<Rightarrow> byte list" where
  "line_text p = take (p_line_len p) (line_ptr p)"

definition set_reason :: "string \<Rightarrow> chttp1_parser \<Rightarrow> chttp1_parser" where
  "set_reason r p = p\<lparr>p_reason := Some r\<rparr>"

text \<open>
  The two digits of a version at position \<open>i\<close>, which the status line and the request line
  share; \<^term>\<open>False\<close> is a refusal.
\<close>

definition parse_version :: "byte list \<Rightarrow> size_t \<Rightarrow> chttp1_parser \<Rightarrow> (bool \<times> chttp1_parser) option" where
  "parse_version s i p = do {
     c \<leftarrow> rd s i;
     if \<not> is_digit c then Some (False, set_reason ''Invalid HTTP version'' p)
     else
       let p = p\<lparr>p_http_major := c - 48\<rparr>
       in do {
         c \<leftarrow> rd s (i + 1);
         if c \<noteq> 46 then Some (False, set_reason ''Invalid HTTP version'' p)
         else do {
           c \<leftarrow> rd s (i + 2);
           if \<not> is_digit c then Some (False, set_reason ''Invalid HTTP version'' p)
           else Some (True, p\<lparr>p_http_minor := c - 48\<rparr>)
         }
       }
   }"

definition parse_status_code :: "byte list \<Rightarrow> size_t \<Rightarrow> chttp1_parser \<Rightarrow> (bool \<times> chttp1_parser) option" where
  "parse_status_code s i p =
     (if i + 3 > length s then Some (False, set_reason ''Invalid status code'' p)
      else do {
        a \<leftarrow> rd s i;
        b \<leftarrow> rd s (i + 1);
        c \<leftarrow> rd s (i + 2);
        if \<not> is_digit a \<or> \<not> is_digit b \<or> \<not> is_digit c then Some (False, set_reason ''Invalid status code'' p)
        else Some (True, p\<lparr>p_status_code := (uint a - 48) * 100 + (uint b - 48) * 10 + (uint c - 48)\<rparr>)
      })"

definition parse_status_line :: "chttp1_parser \<Rightarrow> (bool \<times> chttp1_parser) option" where
  "parse_status_line p =
     (let s = line_text p
      in if length s < 8 \<or> take 5 s \<noteq> lit ''HTTP/'' then Some (False, set_reason ''Invalid HTTP version'' p)
         else do {
           (ok, p) \<leftarrow> parse_version s 5 p;
           if \<not> ok then Some (False, p)
           else if 8 \<ge> length s then Some (False, set_reason ''Invalid HTTP version'' p)
           else do {
             c \<leftarrow> rd s 8;
             if c \<noteq> 32 then Some (False, set_reason ''Invalid HTTP version'' p)
             else do {
               (ok, p) \<leftarrow> parse_status_code s 9 p;
               if \<not> ok then Some (False, p)
               else if 12 < length s then do {
                 c \<leftarrow> rd s 12;
                 if c \<noteq> 32 then Some (False, set_reason ''Invalid status line'' p)
                 else if list_ex is_invalid_value_byte (drop 13 s)
                 then Some (False, set_reason ''Invalid character in reason phrase'' p)
                 else Some (True, p)
               }
               else Some (True, p)
             }
           }
         })"

definition parse_request_line ::
    "'u chttp1_settings option \<Rightarrow> chttp1_parser \<Rightarrow> 'u \<Rightarrow> (ph_result \<times> chttp1_parser \<times> 'u) option" where
  "parse_request_line settings p u =
     (let s = take (p_line_len p) (p_line_buf p);
          method = takeWhile (\<lambda>c. c \<noteq> 32) s;
          r = dropWhile (\<lambda>c. c \<noteq> 32) s
      in if method = [] \<or> r = [] then Some (PH_ERROR, set_reason ''Invalid request line'' p, u)
         else if \<not> list_all chttp1_is_tchar method then Some (PH_ERROR, set_reason ''Invalid method'' p, u)
         else
           let r = drop 1 r;
               target = takeWhile (\<lambda>c. c \<noteq> 32) r;
               r = dropWhile (\<lambda>c. c \<noteq> 32) r
           in if target = [] \<or> r = [] then Some (PH_ERROR, set_reason ''Invalid request line'' p, u)
              else if list_ex is_invalid_target_byte target
              then Some (PH_ERROR, set_reason ''Invalid character in request target'' p, u)
              else
                let v = drop 1 r
                in if length v < 8 \<or> take 5 v \<noteq> lit ''HTTP/'' then Some (PH_ERROR, set_reason ''Invalid HTTP version'' p, u)
                   else do {
                     (ok, p) \<leftarrow> parse_version v 5 p;
                     if \<not> ok then Some (PH_ERROR, p, u)
                     else if 8 \<noteq> length v then Some (PH_ERROR, set_reason ''Invalid request line'' p, u)
                     else
                       let (err, u) = call_back settings on_request_line (\<lambda>f. f p method target) u
                       in Some (if err \<noteq> 0 then PH_USER else PH_OK, p, u)
                   })"

section \<open>Header and trailer lines\<close>

definition effective_max_total_header_bytes :: "chttp1_parser \<Rightarrow> size_t" where
  "effective_max_total_header_bytes p =
     (if p_max_total_header_bytes_override p \<noteq> 0 then p_max_total_header_bytes_override p
      else CHTTP1_MAX_TOTAL_HEADER_BYTES)"

definition effective_max_header_count :: "chttp1_parser \<Rightarrow> size_t" where
  "effective_max_header_count p =
     (if p_max_header_count_override p \<noteq> 0 then p_max_header_count_override p else CHTTP1_MAX_HEADER_COUNT)"

definition header_spill_budget :: "chttp1_parser \<Rightarrow> size_t" where
  "header_spill_budget p =
     (if \<not> p_line_spill_enabled p then 0
      else
        let max = effective_max_total_header_bytes p
        in if max > p_total_header_bytes p then max - p_total_header_bytes p else 0)"

definition parse_connection_tokens :: "byte list \<Rightarrow> chttp1_parser \<Rightarrow> chttp1_parser option" where
  "parse_connection_tokens v p = map_option (\<lambda>fl. p\<lparr>p_flags := fl\<rparr>) (connection_loop v (p_flags p))"

text \<open>The framing of one \<^verbatim>\<open>Transfer-Encoding\<close> line; \<^term>\<open>False\<close> is a refusal.\<close>

definition te_framing :: "byte list \<Rightarrow> chttp1_parser \<Rightarrow> (bool \<times> chttp1_parser) option" where
  "te_framing v p = do {
     let p = set_flag F_TRANSFER_ENCODING p;
     t \<leftarrow> transfer_encoding_scan v;
     let p = (if te_other t then set_flag F_OTHER_CODING p else p);
     if te_count t > 1 \<or> te_count t > 0 \<and> has_flag p F_CHUNKED_APPLIED
     then Some (False, set_reason ''chunked can't be applied more than once'' p)
     else
       let p = (if te_count t > 0 then set_flag F_CHUNKED_APPLIED p else p)
       in if p_type p = CHTTP1_PARSE_REQUEST \<and> te_nonfinal t
          then Some (False, set_reason ''chunked must be the last Transfer-Encoding token'' p)
          else Some (True,
            if te_last_chunked t then set_flag F_CHUNKED p
            else if te_any t then clear_flag F_CHUNKED p else p)
   }"

definition header_framing :: "byte list \<Rightarrow> byte list \<Rightarrow> chttp1_parser \<Rightarrow> (bool \<times> chttp1_parser) option" where
  "header_framing name v p = do {
     content_length \<leftarrow> header_name_is name ''content-length'';
     transfer_encoding \<leftarrow> header_name_is name ''transfer-encoding'';
     host \<leftarrow> header_name_is name ''host'';
     connection \<leftarrow> header_name_is name ''connection'';
     expect \<leftarrow> header_name_is name ''expect'';
     if content_length then
       if has_flag p F_CONTENT_LENGTH then Some (False, set_reason ''Duplicate Content-Length'' p)
       else
         (case parse_uint64_decimal v of
            None \<Rightarrow> Some (False, set_reason ''Invalid Content-Length'' p)
          | Some n \<Rightarrow> Some (True, (set_flag F_CONTENT_LENGTH p)\<lparr>p_content_length := n\<rparr>))
     else if transfer_encoding then te_framing v p
     else if p_type p = CHTTP1_PARSE_REQUEST \<and> host then
       let p = (if p_host_count p < 2 then p\<lparr>p_host_count := p_host_count p + 1\<rparr> else p)
       in if \<not> host_value_is_valid v then Some (False, set_reason ''Invalid Host header value'' p)
          else Some (True, p)
     else if connection then map_option (Pair True) (parse_connection_tokens v p)
     else if expect then do {
       is_continue \<leftarrow> header_name_is v ''100-continue'';
       Some (True, if is_continue then set_flag F_EXPECT_100_CONTINUE p else p)
     }
     else Some (True, p)
   }"

definition count_line :: "size_t \<Rightarrow> chttp1_parser \<Rightarrow> chttp1_parser" where
  "count_line contribution p =
     p\<lparr>p_header_count := sz_add (p_header_count p) 1,
       p_total_header_bytes := sz_add (p_total_header_bytes p) contribution\<rparr>"

definition process_header_line ::
    "'u chttp1_settings option \<Rightarrow> bool \<Rightarrow> chttp1_parser \<Rightarrow> 'u \<Rightarrow> (ph_result \<times> chttp1_parser \<times> 'u) option" where
  "process_header_line settings is_trailer p u =
     (let contribution = sz_add (p_line_len p) 2
      in if sz_add (p_header_count p) 1 > effective_max_header_count p
         then Some (PH_ERROR, set_reason ''Too many headers'' p, u)
         else if sz_add (p_total_header_bytes p) contribution > effective_max_total_header_bytes p
         then Some (PH_ERROR, set_reason ''Header block too large'' p, u)
         else
           let line = line_text p;
               name = takeWhile (\<lambda>c. c \<noteq> 58) line;
               r = dropWhile (\<lambda>c. c \<noteq> 58) line
           in if r = [] \<or> name = [] then Some (PH_ERROR, set_reason ''Invalid header field'' p, u)
              else if \<not> list_all chttp1_is_tchar name then Some (PH_ERROR, set_reason ''Invalid header field char'' p, u)
              else
                let v = trim_right (dropWhile is_ows (drop 1 r))
                in if list_ex is_invalid_value_byte v then Some (PH_ERROR, set_reason ''Invalid header value char'' p, u)
                   else if is_trailer then
                     let (err, u) = call_back settings on_trailer (\<lambda>f. f p name v) u
                     in if err \<noteq> 0 then Some (PH_USER, p, u) else Some (PH_OK, count_line contribution p, u)
                   else do {
                     (ok, p) \<leftarrow> header_framing name v p;
                     if \<not> ok then Some (PH_ERROR, p, u)
                     else if has_flag p F_CONTENT_LENGTH \<and> has_flag p F_CHUNKED
                     then Some (PH_ERROR, set_reason ''Content-Length can't be present with chunked Transfer-Encoding'' p, u)
                     else
                       let (err, u) = call_back settings on_header (\<lambda>f. f p name v) u
                       in if err \<noteq> 0 then Some (PH_USER, p, u) else Some (PH_OK, count_line contribution p, u)
                   })"

section \<open>Chunk sizes\<close>

definition parse_chunk_size_line :: "chttp1_parser \<Rightarrow> bool \<times> chttp1_parser" where
  "parse_chunk_size_line p =
     (let s = line_text p;
          hex = takeWhile (\<lambda>c. c \<noteq> 59 \<and> \<not> is_ows c) s;
          r = dropWhile (\<lambda>c. c \<noteq> 59 \<and> \<not> is_ows c) s
      in case parse_uint64_hex hex of
           None \<Rightarrow> (False, set_reason ''Invalid chunk size'' p)
         | Some v \<Rightarrow>
             let ext = (if p_type p = CHTTP1_PARSE_RESPONSE \<and> dropWhile is_ows r = [] then [] else r)
             in if \<not> chunk_ext_is_valid ext then (False, set_reason ''Invalid chunk extension'' p)
                else if p_max_chunk_size_override p \<noteq> 0 \<and> v > p_max_chunk_size_override p
                then (False, set_reason ''Chunk size exceeds configured maximum'' (set_flag F_CHUNK_TOO_LARGE p))
                else
                  let excess = p_chunk_excess p + of_nat (length s) + 4;
                      earned = (if v > (UINT64_MAX - 16) div 2 then UINT64_MAX else 16 + 2 * v);
                      excess = (if excess > earned then excess - earned else 0)
                  in if excess > CHTTP1_MAX_CHUNK_OVERHEAD_EXCESS
                     then (False, set_reason ''Chunk framing exceeds its data'' p)
                     else (True, p\<lparr>p_chunk_excess := excess, p_content_length := v\<rparr>))"

section \<open>Outcomes\<close>

definition fail :: "string \<Rightarrow> chttp1_parser \<Rightarrow> chttp1_errno \<times> chttp1_parser" where
  "fail r p = (CHTTP1_ERROR, (set_reason r p)\<lparr>p_state := CHTTP1_ST_DEAD\<rparr>)"

definition fail_already_set :: "chttp1_parser \<Rightarrow> chttp1_errno \<times> chttp1_parser" where
  "fail_already_set p = (CHTTP1_ERROR, p\<lparr>p_state := CHTTP1_ST_DEAD\<rparr>)"

definition user_error :: "chttp1_parser \<Rightarrow> chttp1_errno \<times> chttp1_parser" where
  "user_error p =
     (let p = p\<lparr>p_state := CHTTP1_ST_DEAD\<rparr>
      in (CHTTP1_USER, if p_reason p = None then set_reason ''Callback reported an error'' p else p))"

text \<open>\<open>at\<close> is the position in the buffer of the call, \<^verbatim>\<open>p - data\<close>.\<close>

definition complete_message ::
    "'u chttp1_settings option \<Rightarrow> size_t \<Rightarrow> chttp1_parser \<Rightarrow> 'u \<Rightarrow> (chttp1_errno \<times> chttp1_parser) \<times> 'u" where
  "complete_message settings at p u =
     (let (err, u) = call_back settings on_message_complete (\<lambda>f. f p) u
      in if err \<noteq> 0 then (user_error p, u)
         else ((CHTTP1_PAUSED, p\<lparr>p_consumed := at, p_state := CHTTP1_ST_MESSAGE_DONE\<rparr>), u))"

section \<open>Lifecycle\<close>

definition parser_init_common :: "chttp1_parser_type \<Rightarrow> chttp1_parser \<Rightarrow> chttp1_parser" where
  "parser_init_common t p =
     \<lparr>p_status_code = 0, p_type = t, p_reason = None, p_state = CHTTP1_ST_FIRST_LINE,
      p_finish_state = CHTTP1_FINISH_UNSAFE, p_http_major = 0, p_http_minor = 0, p_flags = 0,
      p_content_length = 0, p_chunk_excess = 0, p_header_count = 0, p_total_header_bytes = 0,
      p_leading_blank_lines = 0, p_host_count = 0, p_line_spill_enabled = False,
      p_max_header_count_override = 0, p_max_total_header_bytes_override = 0,
      p_max_chunk_size_override = 0, p_line_len = 0, p_line_spill = None, p_consumed = 0,
      p_line_buf = p_line_buf p\<rparr>"

definition chttp1_parser_init :: "chttp1_parser \<Rightarrow> chttp1_parser" where
  "chttp1_parser_init = parser_init_common CHTTP1_PARSE_RESPONSE"

definition chttp1_parser_init_request :: "chttp1_parser \<Rightarrow> chttp1_parser" where
  "chttp1_parser_init_request = parser_init_common CHTTP1_PARSE_REQUEST"

definition chttp1_parser_enable_line_spill :: "chttp1_parser option \<Rightarrow> bool \<times> chttp1_parser option" where
  "chttp1_parser_enable_line_spill parser =
     (case parser of
        None \<Rightarrow> (False, None)
      | Some p \<Rightarrow>
          if p_type p \<noteq> CHTTP1_PARSE_RESPONSE then (False, Some p)
          else (True, Some (p\<lparr>p_line_spill_enabled := True\<rparr>)))"

definition chttp1_parser_release :: "chttp1_parser option \<Rightarrow> heap \<Rightarrow> chttp1_parser option \<times> heap" where
  "chttp1_parser_release parser h =
     (case parser of
        None \<Rightarrow> (None, h)
      | Some p \<Rightarrow>
          (case p_line_spill p of
             None \<Rightarrow> (Some p, h)
           | Some (b, _) \<Rightarrow> (Some (p\<lparr>p_line_spill := None\<rparr>), mem_free h b)))"

section \<open>The execute loop\<close>

text \<open>
  One turn of the loop: \<^term>\<open>None\<close> as the code is a \<^verbatim>\<open>break\<close> out of the switch, \<^term>\<open>Some e\<close> a
  return; then the rest of the input, the parser, the context and the heap.  \<open>n\<close> is the
  length of the buffer of the call.
\<close>

type_synonym 'u turn = "(chttp1_errno option \<times> byte list \<times> chttp1_parser \<times> 'u \<times> heap) option"

definition return_with :: "chttp1_errno \<times> chttp1_parser \<Rightarrow> byte list \<Rightarrow> 'u \<Rightarrow> heap \<Rightarrow> 'u turn" where
  "return_with e d u h = Some (Some (fst e), d, snd e, u, h)"

definition return_complete :: "'u chttp1_settings option \<Rightarrow> size_t \<Rightarrow> byte list \<Rightarrow> chttp1_parser \<Rightarrow> 'u \<Rightarrow> heap \<Rightarrow> 'u turn" where
  "return_complete settings n d p u h =
     (let (e, u) = complete_message settings (n - length d) p u in return_with e d u h)"

definition is_1_1_or_later :: "chttp1_parser \<Rightarrow> bool" where
  "is_1_1_or_later p \<longleftrightarrow> p_http_major p > 1 \<or> p_http_major p = 1 \<and> p_http_minor p \<ge> 1"

definition first_line_ready :: "'u chttp1_settings option \<Rightarrow> byte list \<Rightarrow> chttp1_parser \<Rightarrow> 'u \<Rightarrow> heap \<Rightarrow> 'u turn" where
  "first_line_ready settings d p u h =
     (if p_type p = CHTTP1_PARSE_REQUEST \<and> p_line_len p = 0 then
        let p = p\<lparr>p_leading_blank_lines := p_leading_blank_lines p + 1\<rparr>
        in if p_leading_blank_lines p > CHTTP1_MAX_LEADING_BLANK_LINES
           then return_with (fail ''Too many leading blank lines'' p) d u h
           else Some (None, d, p\<lparr>p_line_len := 0\<rparr>, u, h)
      else
        let contribution = sz_add (p_line_len p) 2
        in if sz_add (p_total_header_bytes p) contribution > effective_max_total_header_bytes p
           then return_with (fail (if p_type p = CHTTP1_PARSE_REQUEST then ''Request line too large'' else ''Status line too large'') p) d u h
           else
             let p = p\<lparr>p_total_header_bytes := sz_add (p_total_header_bytes p) contribution\<rparr>;
                 next = (\<lambda>p u. Some (None, d, p\<lparr>p_line_len := 0, p_finish_state := CHTTP1_FINISH_UNSAFE, p_state := CHTTP1_ST_HEADERS\<rparr>, u, h))
             in if p_type p = CHTTP1_PARSE_REQUEST then do {
                  (plr, p, u) \<leftarrow> parse_request_line settings p u;
                  case plr of
                    PH_ERROR \<Rightarrow> return_with (fail_already_set p) d u h
                  | PH_USER \<Rightarrow> return_with (user_error p) d u h
                  | PH_OK \<Rightarrow> next p u
                }
                else do {
                  (ok, p) \<leftarrow> parse_status_line p;
                  if \<not> ok then return_with (fail_already_set p) d u h else next p u
                })"

definition request_headers_ok :: "chttp1_parser \<Rightarrow> string option" where
  "request_headers_ok p =
     (if p_type p \<noteq> CHTTP1_PARSE_REQUEST then None
      else if p_host_count p > 1 then Some ''Duplicate Host header''
      else if p_host_count p = 0 \<and> is_1_1_or_later p then Some ''Missing Host header''
      else if has_flag p F_TRANSFER_ENCODING \<and> \<not> is_1_1_or_later p then Some ''Transfer-Encoding in an HTTP/1.0 request''
      else if has_flag p F_TRANSFER_ENCODING \<and> \<not> has_flag p F_CHUNKED
      then Some ''Transfer-Encoding present but final encoding is not chunked''
      else None)"

text \<open>The choice of the body's framing, after the callback and the checks.\<close>

definition enter_body :: "'u chttp1_settings option \<Rightarrow> size_t \<Rightarrow> bool \<Rightarrow> bool \<Rightarrow> byte list \<Rightarrow> chttp1_parser \<Rightarrow> 'u \<Rightarrow> heap \<Rightarrow> 'u turn" where
  "enter_body settings n no_body want_divert d p u h =
     (let divert = (\<lambda>p. if want_divert then return_with (CHTTP1_HEADERS_ONLY, p\<lparr>p_consumed := n - length d\<rparr>) d u h
                       else Some (None, d, p, u, h))
      in if \<not> no_body \<and> has_flag p F_TRANSFER_ENCODING \<and> \<not> has_flag p F_CHUNKED \<and> has_flag p F_CONTENT_LENGTH
         then return_with (fail ''Content-Length can't be present with a non-chunked Transfer-Encoding'' p) d u h
         else if no_body then return_complete settings n d (p\<lparr>p_finish_state := CHTTP1_FINISH_SAFE\<rparr>) u h
         else if has_flag p F_CHUNKED then
           divert (p\<lparr>p_state := CHTTP1_ST_BODY_CHUNK_SIZE, p_finish_state := CHTTP1_FINISH_UNSAFE\<rparr>)
         else if has_flag p F_CONTENT_LENGTH then
           if p_content_length p = 0 then return_complete settings n d (p\<lparr>p_finish_state := CHTTP1_FINISH_SAFE\<rparr>) u h
           else divert (p\<lparr>p_state := CHTTP1_ST_BODY_CONTENT_LENGTH, p_finish_state := CHTTP1_FINISH_UNSAFE\<rparr>)
         else if p_type p = CHTTP1_PARSE_REQUEST then
           return_complete settings n d (p\<lparr>p_finish_state := CHTTP1_FINISH_SAFE\<rparr>) u h
         else Some (None, d, p\<lparr>p_state := CHTTP1_ST_BODY_EOF, p_finish_state := CHTTP1_FINISH_SAFE_WITH_CB\<rparr>, u, h))"

definition bodiless_status :: "int \<Rightarrow> bool" where
  "bodiless_status c \<longleftrightarrow> c \<ge> 100 \<and> c < 200 \<or> c = 204 \<or> c = 304"

definition headers_done :: "'u chttp1_settings option \<Rightarrow> size_t \<Rightarrow> byte list \<Rightarrow> chttp1_parser \<Rightarrow> 'u \<Rightarrow> heap \<Rightarrow> 'u turn" where
  "headers_done settings n d p u h =
     (case request_headers_ok p of
        Some r \<Rightarrow> return_with (fail r p) d u h
      | None \<Rightarrow>
          let p = set_flag F_HEADERS_DONE p;
              (hint, u) = call_back settings on_headers_complete (\<lambda>f. f p) u;
              want_divert = (hint = CHTTP1_HEADERS_DIVERT_BODY \<and> p_type p = CHTTP1_PARSE_REQUEST)
          in if hint \<noteq> CHTTP1_HEADERS_HAS_BODY \<and> hint \<noteq> CHTTP1_HEADERS_NO_BODY \<and> \<not> want_divert
             then return_with (user_error p) d u h
             else
               let no_body = (hint = CHTTP1_HEADERS_NO_BODY
                     \<or> p_type p = CHTTP1_PARSE_RESPONSE \<and> bodiless_status (p_status_code p))
               in enter_body settings n no_body want_divert d p u h)"

text \<open>A header or trailer line that is not blank.\<close>

definition field_line :: "'u chttp1_settings option \<Rightarrow> bool \<Rightarrow> byte list \<Rightarrow> chttp1_parser \<Rightarrow> 'u \<Rightarrow> heap \<Rightarrow> 'u turn" where
  "field_line settings is_trailer d p u h = do {
     (ph, p, u) \<leftarrow> process_header_line settings is_trailer p u;
     case ph of
       PH_ERROR \<Rightarrow> return_with (fail_already_set p) d u h
     | PH_USER \<Rightarrow> return_with (user_error p) d u h
     | PH_OK \<Rightarrow> Some (None, d, p\<lparr>p_line_len := 0\<rparr>, u, h)
   }"

definition chunk_size_ready :: "byte list \<Rightarrow> chttp1_parser \<Rightarrow> 'u \<Rightarrow> heap \<Rightarrow> 'u turn" where
  "chunk_size_ready d p u h =
     (let (ok, p) = parse_chunk_size_line p
      in if \<not> ok then return_with (fail_already_set p) d u h
         else
           Some (None, d, p\<lparr>p_line_len := 0,
             p_state := (if p_content_length p = 0 then CHTTP1_ST_BODY_CHUNK_TRAILERS else CHTTP1_ST_BODY_CHUNK_DATA)\<rparr>, u, h))"

text \<open>What a complete line means in each state that reads lines.\<close>

definition line_ready :: "'u chttp1_settings option \<Rightarrow> size_t \<Rightarrow> byte list \<Rightarrow> chttp1_parser \<Rightarrow> 'u \<Rightarrow> heap \<Rightarrow> 'u turn" where
  "line_ready settings n d p u h =
     (case p_state p of
        CHTTP1_ST_FIRST_LINE \<Rightarrow> first_line_ready settings d p u h
      | CHTTP1_ST_HEADERS \<Rightarrow>
          if p_line_len p = 0 then headers_done settings n d p u h else field_line settings False d p u h
      | CHTTP1_ST_BODY_CHUNK_SIZE \<Rightarrow> chunk_size_ready d p u h
      | CHTTP1_ST_BODY_CHUNK_CRLF \<Rightarrow>
          if p_line_len p \<noteq> 0 then return_with (fail ''Expected CRLF after chunk data'' p) d u h
          else Some (None, d, p\<lparr>p_state := CHTTP1_ST_BODY_CHUNK_SIZE\<rparr>, u, h)
      | _ \<Rightarrow>
          if p_line_len p = 0 then return_complete settings n d (p\<lparr>p_finish_state := CHTTP1_FINISH_SAFE\<rparr>) u h
          else field_line settings True d p u h)"

definition too_long_reason :: "chttp1_parser \<Rightarrow> string" where
  "too_long_reason p =
     (case p_state p of
        CHTTP1_ST_FIRST_LINE \<Rightarrow> if p_type p = CHTTP1_PARSE_REQUEST then ''Request line too long'' else ''Status line too long''
      | CHTTP1_ST_HEADERS \<Rightarrow> ''Header line too long''
      | CHTTP1_ST_BODY_CHUNK_SIZE \<Rightarrow> ''Chunk size line too long''
      | CHTTP1_ST_BODY_CHUNK_CRLF \<Rightarrow> ''Expected CRLF after chunk data''
      | _ \<Rightarrow> ''Trailer line too long'')"

definition bad_eol_reason :: "chttp1_parser \<Rightarrow> string" where
  "bad_eol_reason p =
     (if p_state p = CHTTP1_ST_BODY_CHUNK_CRLF then ''Expected CRLF after chunk data'' else ''Expected CRLF'')"

definition line_budget :: "chttp1_parser \<Rightarrow> size_t" where
  "line_budget p =
     (if p_state p = CHTTP1_ST_HEADERS \<or> p_state p = CHTTP1_ST_BODY_CHUNK_TRAILERS then header_spill_budget p else 0)"

definition line_turn :: "'u chttp1_settings option \<Rightarrow> size_t \<Rightarrow> byte list \<Rightarrow> chttp1_parser \<Rightarrow> 'u \<Rightarrow> heap \<Rightarrow> 'u turn" where
  "line_turn settings n d p u h = do {
     (lr, d, p, h) \<leftarrow> accumulate_line (line_budget p) d p h;
     case lr of
       LINE_NEED_MORE \<Rightarrow> Some (None, d, p, u, h)
     | LINE_TOO_LONG \<Rightarrow> return_with (fail (too_long_reason p) p) d u h
     | LINE_BAD_EOL \<Rightarrow> return_with (fail (bad_eol_reason p) p) d u h
     | LINE_READY \<Rightarrow> line_ready settings n d p u h
   }"

text \<open>
  A body that counts down \<^verbatim>\<open>content_length\<close>: the message ends with it, or the chunk does.
\<close>

definition counted_turn :: "'u chttp1_settings option \<Rightarrow> size_t \<Rightarrow> byte list \<Rightarrow> chttp1_parser \<Rightarrow> 'u \<Rightarrow> heap \<Rightarrow> 'u turn" where
  "counted_turn settings n d p u h =
     (let avail = length d;
          tk = (if avail < unat (p_content_length p) then avail else unat (p_content_length p));
          (err, u) = (if tk > 0 then call_back settings on_body (\<lambda>f. f p (take tk d)) u else (0, u))
      in if err \<noteq> 0 then return_with (user_error p) d u h
         else
           let d = drop tk d; p = p\<lparr>p_content_length := p_content_length p - of_nat tk\<rparr>
           in if p_content_length p \<noteq> 0 then Some (None, d, p, u, h)
              else if p_state p = CHTTP1_ST_BODY_CONTENT_LENGTH
              then return_complete settings n d (p\<lparr>p_finish_state := CHTTP1_FINISH_SAFE\<rparr>) u h
              else Some (None, d, p\<lparr>p_state := CHTTP1_ST_BODY_CHUNK_CRLF\<rparr>, u, h))"

definition eof_turn :: "'u chttp1_settings option \<Rightarrow> byte list \<Rightarrow> chttp1_parser \<Rightarrow> 'u \<Rightarrow> heap \<Rightarrow> 'u turn" where
  "eof_turn settings d p u h =
     (let (err, u) = call_back settings on_body (\<lambda>f. f p d) u
      in if err \<noteq> 0 then return_with (user_error p) d u h else Some (None, [], p, u, h))"

definition chttp1_turn :: "'u chttp1_settings option \<Rightarrow> size_t \<Rightarrow> byte list \<Rightarrow> chttp1_parser \<Rightarrow> 'u \<Rightarrow> heap \<Rightarrow> 'u turn" where
  "chttp1_turn settings n d p u h =
     (case p_state p of
        CHTTP1_ST_BODY_CONTENT_LENGTH \<Rightarrow> counted_turn settings n d p u h
      | CHTTP1_ST_BODY_CHUNK_DATA \<Rightarrow> counted_turn settings n d p u h
      | CHTTP1_ST_BODY_EOF \<Rightarrow> eof_turn settings d p u h
      | CHTTP1_ST_MESSAGE_DONE \<Rightarrow> return_with (CHTTP1_ERROR, p) d u h
      | CHTTP1_ST_DEAD \<Rightarrow> return_with (CHTTP1_ERROR, p) d u h
      | _ \<Rightarrow> line_turn settings n d p u h)"

lemma accumulate_loop_shorter:
  "accumulate_loop b cap len d p h = Some (r, d', p', h') \<Longrightarrow> d \<noteq> [] \<Longrightarrow> length d' < length d"
proof (induction b cap len d p h rule: accumulate_loop.induct)
  case (2 b cap len c d p h)
  show ?case
  proof (cases "len \<ge> cap")
    case True
    then show ?thesis using 2 by (auto split: option.splits bool.splits prod.splits if_splits)
  next
    case False
    then obtain q where q: "line_store p len c = Some q" using 2(3) by (auto split: option.splits)
    show ?thesis
    proof (cases "c = 10")
      case True
      then show ?thesis using 2(3) False q by (auto split: option.splits if_splits)
    next
      case c: False
      then have "accumulate_loop b cap (len + 1) d q h = Some (r, d', p', h')" using 2(3) False q by simp
      then show ?thesis using 2(2) [OF False q c] by (cases d) (auto simp: less_Suc_eq)
    qed
  qed
qed simp

lemma return_with_rest [simp]: "return_with e d u h = Some (r, d', p', u', h') \<longleftrightarrow> r = Some (fst e) \<and> d' = d \<and> p' = snd e \<and> u' = u \<and> h' = h"
  by (auto simp: return_with_def)

lemma return_complete_rest:
  "return_complete st n d p u h = Some (r, d', p', u', h') \<longleftrightarrow>
     d' = d \<and> h' = h \<and> (\<exists>e. complete_message st (n - length d) p u = (e, u') \<and> r = Some (fst e) \<and> p' = snd e)"
  by (auto simp: return_complete_def split: prod.splits)

lemma line_ready_rest: "line_ready st n d p u h = Some (r, d', p', u', h') \<Longrightarrow> d' = d"
  by (auto simp: line_ready_def first_line_ready_def headers_done_def enter_body_def field_line_def chunk_size_ready_def Let_def return_complete_rest
      split: chttp1_state.splits if_splits prod.splits option.splits ph_result.splits bind_splits)

lemma line_turn_shorter:
  assumes "line_turn st n d p u h = Some (r, d', p', u', h')" "d \<noteq> []"
  shows "length d' < length d"
proof -
  obtain lr d1 p1 h1 where a: "accumulate_line (line_budget p) d p h = Some (lr, d1, p1, h1)"
    using assms(1) by (auto simp: line_turn_def split: bind_splits)
  have "length d1 < length d" using accumulate_loop_shorter [OF a [unfolded accumulate_line_def] assms(2)] .
  moreover have "d' = d1" using assms(1) a by (cases lr) (auto simp: line_turn_def dest: line_ready_rest)
  ultimately show ?thesis by simp
qed

lemma chttp1_turn_progress:
  assumes "chttp1_turn st n d p u h = Some (None, d', p', u', h')" "d \<noteq> []"
  shows "length d' < length d \<or> length d' = length d \<and> p_state p = CHTTP1_ST_BODY_CHUNK_DATA \<and> p_state p' \<noteq> CHTTP1_ST_BODY_CHUNK_DATA"
proof (cases "p_state p = CHTTP1_ST_BODY_CONTENT_LENGTH \<or> p_state p = CHTTP1_ST_BODY_CHUNK_DATA")
  case True
  then have "counted_turn st n d p u h = Some (None, d', p', u', h')" using assms by (auto simp: chttp1_turn_def)
  then show ?thesis using True assms(2)
    by (cases "p_content_length p = 0") (auto simp: counted_turn_def Let_def return_complete_rest unat_eq_zero split: if_splits prod.splits)
next
  case False
  show ?thesis
  proof (cases "p_state p = CHTTP1_ST_BODY_EOF")
    case True
    then show ?thesis using assms by (auto simp: chttp1_turn_def eof_turn_def split: if_splits prod.splits)
  next
    case eof: False
    then have "line_turn st n d p u h = Some (None, d', p', u', h')"
      using False assms by (auto simp: chttp1_turn_def split: chttp1_state.splits)
    from line_turn_shorter [OF this assms(2)] show ?thesis by simp
  qed
qed

function chttp1_loop ::
    "'u chttp1_settings option \<Rightarrow> size_t \<Rightarrow> byte list \<Rightarrow> chttp1_parser \<Rightarrow> 'u \<Rightarrow> heap \<Rightarrow> (chttp1_errno \<times> chttp1_parser \<times> 'u \<times> heap) option" where
  "chttp1_loop settings n d p u h =
     (if d = [] then Some (CHTTP1_OK, p, u, h)
      else
        case chttp1_turn settings n d p u h of
          None \<Rightarrow> None
        | Some (Some e, _, p, u, h) \<Rightarrow> Some (e, p, u, h)
        | Some (None, d, p, u, h) \<Rightarrow> chttp1_loop settings n d p u h)"
  by pat_completeness auto
termination
  by (relation "measures [\<lambda>(_, _, d, _, _, _). length d, \<lambda>(_, _, _, p, _, _). if p_state p = CHTTP1_ST_BODY_CHUNK_DATA then 1 else 0]")
     (auto dest!: chttp1_turn_progress)

declare chttp1_loop.simps [simp del]

definition chttp1_parser_execute ::
    "'u chttp1_settings option \<Rightarrow> byte list \<Rightarrow> chttp1_parser \<Rightarrow> 'u \<Rightarrow> heap \<Rightarrow> (chttp1_errno \<times> chttp1_parser \<times> 'u \<times> heap) option" where
  "chttp1_parser_execute settings d p u h =
     (if p_state p = CHTTP1_ST_DEAD \<or> p_state p = CHTTP1_ST_MESSAGE_DONE then Some (CHTTP1_ERROR, p, u, h)
      else chttp1_loop settings (length d) d p u h)"

section \<open>The end of the connection and the accessors\<close>

definition chttp1_parser_finish :: "'u chttp1_settings option \<Rightarrow> chttp1_parser \<Rightarrow> 'u \<Rightarrow> chttp1_errno \<times> chttp1_parser \<times> 'u" where
  "chttp1_parser_finish settings p u =
     (if p_state p = CHTTP1_ST_DEAD then (CHTTP1_ERROR, p, u)
      else if p_state p = CHTTP1_ST_MESSAGE_DONE then (CHTTP1_OK, p, u)
      else
        case p_finish_state p of
          CHTTP1_FINISH_SAFE \<Rightarrow> (CHTTP1_OK, p, u)
        | CHTTP1_FINISH_SAFE_WITH_CB \<Rightarrow>
            (let (err, u) = call_back settings on_message_complete (\<lambda>f. f p) u
             in if err \<noteq> 0 then (fst (user_error p), snd (user_error p), u)
                else (CHTTP1_PAUSED, p\<lparr>p_state := CHTTP1_ST_MESSAGE_DONE\<rparr>, u))
        | CHTTP1_FINISH_UNSAFE \<Rightarrow> (fst (fail ''Invalid EOF state'' p), snd (fail ''Invalid EOF state'' p), u))"

definition chttp1_parser_consumed :: "chttp1_parser \<Rightarrow> size_t" where
  "chttp1_parser_consumed p = p_consumed p"

definition chttp1_parser_message_complete :: "chttp1_parser \<Rightarrow> bool" where
  "chttp1_parser_message_complete p \<longleftrightarrow> p_state p = CHTTP1_ST_MESSAGE_DONE"

definition chttp1_parser_force_close :: "chttp1_parser option \<Rightarrow> chttp1_parser option" where
  "chttp1_parser_force_close parser = map_option (set_flag F_CONNECTION_CLOSE) parser"

definition chttp1_should_keep_alive :: "chttp1_parser \<Rightarrow> bool" where
  "chttp1_should_keep_alive p =
     (if has_flag p F_CONNECTION_CLOSE then False
      else if \<not> is_1_1_or_later p \<and> \<not> has_flag p F_CONNECTION_KEEP_ALIVE then False
      else if \<not> is_1_1_or_later p \<and> has_flag p F_TRANSFER_ENCODING then False
      else p_finish_state p \<noteq> CHTTP1_FINISH_SAFE_WITH_CB)"

definition chttp1_expects_continue :: "chttp1_parser \<Rightarrow> bool" where
  "chttp1_expects_continue p \<longleftrightarrow> is_1_1_or_later p \<and> has_flag p F_EXPECT_100_CONTINUE"

definition chttp1_has_other_transfer_coding :: "chttp1_parser option \<Rightarrow> bool" where
  "chttp1_has_other_transfer_coding parser = (case parser of None \<Rightarrow> False | Some p \<Rightarrow> has_flag p F_OTHER_CODING)"

definition chttp1_has_content_length :: "chttp1_parser option \<Rightarrow> bool" where
  "chttp1_has_content_length parser = (case parser of None \<Rightarrow> False | Some p \<Rightarrow> has_flag p F_CONTENT_LENGTH)"

definition chttp1_declared_content_length :: "chttp1_parser option \<Rightarrow> uint64" where
  "chttp1_declared_content_length parser = (case parser of None \<Rightarrow> 0 | Some p \<Rightarrow> p_content_length p)"

definition chttp1_chunk_size_limit_exceeded :: "chttp1_parser option \<Rightarrow> bool" where
  "chttp1_chunk_size_limit_exceeded parser = (case parser of None \<Rightarrow> False | Some p \<Rightarrow> has_flag p F_CHUNK_TOO_LARGE)"

definition chttp1_request_bytes_may_remain :: "chttp1_parser option \<Rightarrow> bool" where
  "chttp1_request_bytes_may_remain parser =
     (case parser of
        None \<Rightarrow> False
      | Some p \<Rightarrow>
          if p_state p = CHTTP1_ST_MESSAGE_DONE then False
          else if \<not> has_flag p F_HEADERS_DONE then True
          else if has_flag p F_CHUNKED then True
          else has_flag p F_CONTENT_LENGTH \<and> p_content_length p > 0)"

definition chttp1_body_bytes_still_expected :: "chttp1_parser option \<Rightarrow> uint64" where
  "chttp1_body_bytes_still_expected parser =
     (case parser of
        None \<Rightarrow> 0
      | Some p \<Rightarrow>
          if p_state p = CHTTP1_ST_BODY_CONTENT_LENGTH \<or> p_state p = CHTTP1_ST_BODY_CHUNK_DATA
          then p_content_length p else 0)"

end
