(* ===== verification/CCol_Http1_Feed.thy ===== *)
theory CCol_Http1_Feed
  imports CCol_Http1
begin

text \<open>
  How the input is cut into buffers does not matter to the parser of \<^verbatim>\<open>chttp1_parser.c\<close>: a
  message that arrives byte by byte is parsed as one that arrives at once.
\<close>

section \<open>Lines\<close>

definition line_cap :: "size_t \<Rightarrow> chttp1_parser \<Rightarrow> size_t" where
  "line_cap b p = (if p_line_spill p \<noteq> None then spill_cap b else CHTTP1_MAX_LINE_LEN)"

text \<open>All of the parser but its line.\<close>

definition strip :: "chttp1_parser \<Rightarrow> chttp1_parser" where
  "strip p = p\<lparr>p_line_len := 0, p_line_spill := None, p_line_buf := []\<rparr>"

lemma strip_line [simp]:
  "strip (p\<lparr>p_line_len := n\<rparr>) = strip p" "strip (p\<lparr>p_line_spill := s\<rparr>) = strip p" "strip (p\<lparr>p_line_buf := b\<rparr>) = strip p"
  by (simp_all add: strip_def)

lemma strip_eqD:
  assumes "strip p = strip q"
  shows "p_state p = p_state q" "p_type p = p_type q" "p_flags p = p_flags q" "p_reason p = p_reason q" "p_line_spill_enabled p = p_line_spill_enabled q"
    "p_total_header_bytes p = p_total_header_bytes q" "p_max_total_header_bytes_override p = p_max_total_header_bytes_override q"
    "p_header_count p = p_header_count q" "p_max_header_count_override p = p_max_header_count_override q" "p_content_length p = p_content_length q"
    "p_chunk_excess p = p_chunk_excess q" "p_host_count p = p_host_count q" "p_http_major p = p_http_major q" "p_http_minor p = p_http_minor q"
    "p_finish_state p = p_finish_state q" "p_leading_blank_lines p = p_leading_blank_lines q" "p_status_code p = p_status_code q"
    "p_max_chunk_size_override p = p_max_chunk_size_override q" "p_consumed p = p_consumed q"
  using assms by (cases p; cases q; simp add: strip_def)+

lemma line_store_strip: "line_store p len c = Some q \<Longrightarrow> strip q = strip p"
  by (auto simp: line_store_def split: option.splits)

lemma line_store_spilled: "line_store p len c = Some q \<Longrightarrow> p_line_spill q = None \<longleftrightarrow> p_line_spill p = None"
  by (auto simp: line_store_def split: option.splits)

lemma line_spill_grow_strip: "line_spill_grow b p h = Some (g, q, h') \<Longrightarrow> strip q = strip p"
  by (auto simp: line_spill_grow_def split: if_splits prod.splits option.splits bind_splits)

lemma line_store_len: "line_store (p\<lparr>p_line_len := x\<rparr>) len c = map_option (\<lambda>p. p\<lparr>p_line_len := x\<rparr>) (line_store p len c)"
  by (auto simp: line_store_def buf_put_def split: option.splits)

lemma line_ptr_len [simp]: "line_ptr (p\<lparr>p_line_len := x\<rparr>) = line_ptr p"
  by (simp add: line_ptr_def split: option.splits)

text \<open>One byte more of a line, in the five ways it can go, and the induction over them.\<close>

lemma accumulate_grow:
  "len \<ge> cap \<Longrightarrow> b \<noteq> 0 \<Longrightarrow> line_spill_grow b (p\<lparr>p_line_len := len\<rparr>) h = Some (True, q, h1)
     \<Longrightarrow> accumulate_loop b cap len (c # d) p h = accumulate_loop b (spill_cap b) len (c # d) q h1"
  by (subst accumulate_loop.simps(2)) (simp del: accumulate_loop.simps)

lemma accumulate_full:
  "len \<ge> cap \<Longrightarrow> (if b = 0 then Some (False, p\<lparr>p_line_len := len\<rparr>, h) else line_spill_grow b (p\<lparr>p_line_len := len\<rparr>) h) = Some (False, q, h1)
     \<Longrightarrow> accumulate_loop b cap len (c # d) p h = Some (LINE_TOO_LONG, [], q, h1)"
  by (subst accumulate_loop.simps(2)) (simp del: accumulate_loop.simps split: if_splits)

lemma accumulate_bad:
  "len < cap \<Longrightarrow> line_store p len 10 = Some q \<Longrightarrow> len = 0 \<or> (\<exists>e. rd (take (len + 1) (line_ptr q)) (len - 1) = Some e \<and> e \<noteq> 13)
     \<Longrightarrow> accumulate_loop b cap len (10 # d) p h = Some (LINE_BAD_EOL, d, q\<lparr>p_line_len := len + 1\<rparr>, h)"
  by (subst accumulate_loop.simps(2)) (auto simp del: accumulate_loop.simps)

lemma accumulate_ready:
  "len < cap \<Longrightarrow> line_store p len 10 = Some q \<Longrightarrow> 0 < len \<Longrightarrow> rd (take (len + 1) (line_ptr q)) (len - 1) = Some 13
     \<Longrightarrow> accumulate_loop b cap len (10 # d) p h = Some (LINE_READY, d, q\<lparr>p_line_len := len - 1\<rparr>, h)"
  by (subst accumulate_loop.simps(2)) (simp del: accumulate_loop.simps)

lemma accumulate_char:
  "len < cap \<Longrightarrow> line_store p len c = Some q \<Longrightarrow> c \<noteq> 10
     \<Longrightarrow> accumulate_loop b cap len (c # d) p h = accumulate_loop b cap (len + 1) d q h"
  by (subst accumulate_loop.simps(2)) (simp del: accumulate_loop.simps)

lemma accumulate_induct [consumes 1, case_names Nil Grow Full Eol Char]:
  assumes "accumulate_loop b cap len d p h = Some (r, d', p', h')"
    and "\<And>cap len p h. P cap len [] p h LINE_NEED_MORE [] (p\<lparr>p_line_len := len\<rparr>) h"
    and "\<And>cap len c d p h q h1 r d' p' h'. len \<ge> cap \<Longrightarrow> b \<noteq> 0 \<Longrightarrow> line_spill_grow b (p\<lparr>p_line_len := len\<rparr>) h = Some (True, q, h1)
           \<Longrightarrow> P (spill_cap b) len (c # d) q h1 r d' p' h' \<Longrightarrow> P cap len (c # d) p h r d' p' h'"
    and "\<And>cap len c d p h q h1. len \<ge> cap
           \<Longrightarrow> (if b = 0 then Some (False, p\<lparr>p_line_len := len\<rparr>, h) else line_spill_grow b (p\<lparr>p_line_len := len\<rparr>) h) = Some (False, q, h1)
           \<Longrightarrow> P cap len (c # d) p h LINE_TOO_LONG [] q h1"
    and "\<And>cap len d p h q r k. len < cap \<Longrightarrow> line_store p len 10 = Some q
           \<Longrightarrow> r = LINE_BAD_EOL \<and> k = len + 1 \<or> r = LINE_READY \<and> len > 0 \<and> k = len - 1
           \<Longrightarrow> (\<And>d. accumulate_loop b cap len (10 # d) p h = Some (r, d, q\<lparr>p_line_len := k\<rparr>, h))
           \<Longrightarrow> P cap len (10 # d) p h r d (q\<lparr>p_line_len := k\<rparr>) h"
    and "\<And>cap len c d p h q r d' p' h'. len < cap \<Longrightarrow> line_store p len c = Some q \<Longrightarrow> c \<noteq> 10
           \<Longrightarrow> P cap (len + 1) d q h r d' p' h' \<Longrightarrow> P cap len (c # d) p h r d' p' h'"
  shows "P cap len d p h r d' p' h'"
  using assms(1)
proof (induction b0 \<equiv> b cap len d p h rule: accumulate_loop.induct)
  case (1 cap len p h)
  then show ?case using assms(2) by auto
next
  case (2 cap len c d p h)
  show ?case
  proof (cases "len \<ge> cap")
    case True
    show ?thesis
    proof (cases "\<exists>q h1. b \<noteq> 0 \<and> line_spill_grow b (p\<lparr>p_line_len := len\<rparr>) h = Some (True, q, h1)")
      case gr: True
      then obtain q h1 where g: "b \<noteq> 0" "line_spill_grow b (p\<lparr>p_line_len := len\<rparr>) h = Some (True, q, h1)" by auto
      have "accumulate_loop b (spill_cap b) len (c # d) q h1 = Some (r, d', p', h')" using 2(3) accumulate_grow [OF True g] by simp
      then have "P (spill_cap b) len (c # d) q h1 r d' p' h'"
        using 2(1) [OF True, of "(True, q, h1)" True "(q, h1)" q h1] g by (simp del: accumulate_loop.simps)
      then show ?thesis using assms(3) [OF True g] by simp
    next
      case False
      obtain q h1 where f: "(if b = 0 then Some (False, p\<lparr>p_line_len := len\<rparr>, h) else line_spill_grow b (p\<lparr>p_line_len := len\<rparr>) h) = Some (False, q, h1)"
        using False True 2(3) by (auto split: option.splits bool.splits if_splits)
      then show ?thesis using accumulate_full [OF True f, of c d] 2(3) assms(4) [OF True f] by simp
    qed
  next
    case False
    then obtain q where q: "line_store p len c = Some q" using 2(3) by (auto split: option.splits)
    show ?thesis
    proof (cases "c = 10")
      case True
      have lt: "len < cap" and q10: "line_store p len 10 = Some q" using False q True by simp_all
      consider (bad) "len = 0 \<or> (\<exists>e. rd (take (len + 1) (line_ptr q)) (len - 1) = Some e \<and> e \<noteq> 13)"
        | (ready) "0 < len" "rd (take (len + 1) (line_ptr q)) (len - 1) = Some 13"
        using 2(3) False q True by (auto split: option.splits if_splits)
      then show ?thesis
      proof cases
        case bad
        note run = accumulate_bad [OF lt q10 bad, of b _ h]
        have "r = LINE_BAD_EOL" "d' = d" "p' = q\<lparr>p_line_len := len + 1\<rparr>" "h' = h" using 2(3) unfolding True run by simp_all
        then show ?thesis using assms(5) [OF lt q10, of LINE_BAD_EOL "len + 1" h d] run True by simp
      next
        case ready
        note run = accumulate_ready [OF lt q10 ready, of b _ h]
        have "r = LINE_READY" "d' = d" "p' = q\<lparr>p_line_len := len - 1\<rparr>" "h' = h" using 2(3) unfolding True run by simp_all
        then show ?thesis using assms(5) [OF lt q10, of LINE_READY "len - 1" h d] run True ready by simp
      qed
    next
      case c: False
      have "accumulate_loop b cap (len + 1) d q h = Some (r, d', p', h')" using 2(3) accumulate_char [of len cap p c q b d h] False q c by simp
      then show ?thesis using 2(2) [OF False q c] assms(6) [of len cap p c q d h r d' p' h'] False q c by simp
    qed
  qed
qed

lemma accumulate_loop_len: "accumulate_loop b cap len d (p\<lparr>p_line_len := x\<rparr>) h = accumulate_loop b cap len d p h"
proof (induction b cap len d p h rule: accumulate_loop.induct)
  case (2 b cap len c d p h)
  show ?case
  proof (cases "len \<ge> cap")
    case False
    then show ?thesis using 2(2) by (auto simp: line_store_len split: option.splits)
  qed (auto split: option.splits)
qed simp

declare accumulate_loop.simps [simp del]

lemma accumulate_loop_strip: "accumulate_loop b cap len d p h = Some (r, d', p', h') \<Longrightarrow> strip p' = strip p"
proof (induction rule: accumulate_induct)
  case (Grow cap len c d p h q h1 r d' p' h')
  then show ?case using line_spill_grow_strip [OF Grow(3)] by simp
next
  case (Full cap len c d p h q h1)
  then show ?case by (auto dest: line_spill_grow_strip split: if_splits)
qed (auto dest: line_store_strip)

lemma accumulate_need_more: "accumulate_loop b cap len d p h = Some (r, d', p', h') \<Longrightarrow> r = LINE_NEED_MORE \<Longrightarrow> d' = []"
  by (induction rule: accumulate_induct) auto

text \<open>An input cut in two: the second part goes on with the line of the first.\<close>

lemma accumulate_loop_append:
  assumes "accumulate_loop b cap len a p h = Some (r, a', p', h')" "cap = line_cap b p"
  shows "accumulate_loop b cap len (a @ d) p h =
    (if r = LINE_NEED_MORE then accumulate_loop b (line_cap b p') (p_line_len p') d p' h'
     else Some (r, if r = LINE_TOO_LONG then [] else a' @ d, p', h'))"
  using assms
proof (induction rule: accumulate_induct)
  case (Nil cap len p h)
  then show ?case by (simp add: accumulate_loop_len line_cap_def)
next
  case (Grow cap len c a p h q h1 r a' p' h')
  have "line_cap b q = spill_cap b" using line_spill_grow_True [OF Grow(3)] by (simp add: line_cap_def)
  then show ?case using accumulate_grow [OF Grow(1-3), of c "a @ d"] Grow(4) by simp
next
  case (Full cap len c a p h q h1)
  then show ?case using accumulate_full [OF Full(1,2), of c "a @ d"] by simp
next
  case (Eol cap len a p h q r k)
  then show ?case by auto
next
  case (Char cap len c a p h q r a' p' h')
  have "cap = line_cap b q" using Char(5) line_store_spilled [OF Char(2)] by (simp add: line_cap_def)
  then show ?case using accumulate_char [OF Char(1-3), of b "a @ d" h] Char(4) by simp
qed

lemma accumulate_line_eq: "accumulate_line b d p h = accumulate_loop b (line_cap b p) (p_line_len p) d p h"
  by (simp add: accumulate_line_def line_cap_def)

lemma line_budget_strip: "strip p = strip q \<Longrightarrow> line_budget p = line_budget q"
  by (simp add: line_budget_def header_spill_budget_def effective_max_total_header_bytes_def Let_def strip_eqD [of p q])

lemma accumulate_line_append:
  assumes "accumulate_line (line_budget p) a p h = Some (r, a', p', h')"
  shows "accumulate_line (line_budget p) (a @ d) p h =
    (if r = LINE_NEED_MORE then accumulate_line (line_budget p') d p' h'
     else Some (r, if r = LINE_TOO_LONG then [] else a' @ d, p', h'))"
  using accumulate_loop_append [OF assms [unfolded accumulate_line_eq] refl, of d]
    line_budget_strip [OF accumulate_loop_strip [OF assms [unfolded accumulate_line_eq]]]
  by (simp add: accumulate_line_eq)

section \<open>Turns\<close>

text \<open>A turn that reads a line looks at the rest of the input only for the position it reports.\<close>

definition longer :: "byte list \<Rightarrow> 'u turn \<Rightarrow> 'u turn" where
  "longer d t = map_option (\<lambda>(r, a, s). (r, a @ d, s)) t"

lemma longer_simps [simp]:
  "longer d (Some (r, a, s)) = Some (r, a @ d, s)" "longer d None = None"
  by (simp_all add: longer_def)

lemma return_with_longer [simp]: "longer d (return_with e a u h) = return_with e (a @ d) u h"
  by (simp add: return_with_def)

lemma return_complete_longer [simp]: "longer d (return_complete st n a p u h) = return_complete st (n + length d) (a @ d) p u h"
  by (simp add: return_complete_def split: prod.split)

lemma enter_body_longer: "enter_body st (n + length d) nb w (a @ d) p u h = longer d (enter_body st n nb w a p u h)"
  by (simp add: enter_body_def Let_def)

lemma headers_done_longer: "headers_done st (n + length d) (a @ d) p u h = longer d (headers_done st n a p u h)"
  by (simp add: headers_done_def Let_def enter_body_longer split: option.split prod.split)

lemma field_line_longer: "field_line st t (a @ d) p u h = longer d (field_line st t a p u h)"
  by (cases "process_header_line st t p u") (auto simp: field_line_def split: ph_result.split)

lemma first_line_longer: "first_line_ready st (a @ d) p u h = longer d (first_line_ready st a p u h)"
  unfolding first_line_ready_def Let_def
  by (auto split: option.split ph_result.split bind_splits prod.splits)

lemma chunk_size_longer: "chunk_size_ready (a @ d) p u h = longer d (chunk_size_ready a p u h)"
  by (simp add: chunk_size_ready_def Let_def split: prod.split)

lemma line_ready_longer: "line_ready st (n + length d) (a @ d) p u h = longer d (line_ready st n a p u h)"
  by (simp add: line_ready_def headers_done_longer field_line_longer first_line_longer chunk_size_longer split: chttp1_state.split)

text \<open>
  What a caller sees of an outcome.  After a callback's error the parser is dead, and only
  how much of the body it still counts as missing depends on the buffers.
\<close>

definition seen_parser :: "chttp1_errno \<Rightarrow> chttp1_parser \<Rightarrow> chttp1_parser" where
  "seen_parser e p = (if e = CHTTP1_USER then p\<lparr>p_content_length := 0\<rparr> else p)"

definition seen_turn :: "'u turn \<Rightarrow> 'u turn" where
  "seen_turn t =
     map_option (\<lambda>(r, a, p, u, h). case r of None \<Rightarrow> (None, a, p, u, h) | Some e \<Rightarrow> (Some e, [], seen_parser e p, u, h)) t"

definition seen :: "(chttp1_errno \<times> chttp1_parser \<times> 'u \<times> heap) option \<Rightarrow> (chttp1_errno \<times> chttp1_parser \<times> 'u \<times> heap) option" where
  "seen t = map_option (\<lambda>(e, p, u, h). (e, seen_parser e p, u, h)) t"

lemma seen_simps [simp]:
  "seen (Some (e, p, u, h)) = Some (e, seen_parser e p, u, h)" "seen None = None"
  "seen_turn (Some (None, a, s)) = Some (None, a, s)" "seen_turn None = None"
  "seen_turn (return_with x a u h) = Some (Some (fst x), [], seen_parser (fst x) (snd x), u, h)"
  "seen_turn (Some (Some e, a, p, u, h)) = Some (Some e, [], seen_parser e p, u, h)"
  by (simp_all add: seen_def seen_turn_def return_with_def split: prod.split)

lemma seen_user_error [simp]:
  "seen_parser CHTTP1_USER (snd (user_error (p\<lparr>p_content_length := x\<rparr>))) = seen_parser CHTTP1_USER (snd (user_error p))" "fst (user_error p) = CHTTP1_USER"
  by (simp_all add: seen_parser_def user_error_def set_reason_def Let_def)

text \<open>
  A turn on the first part of the input decides the turn on the whole: a return is the same
  return, a turn with input left is the same turn, and one that has used its input up goes
  on with the second part.
\<close>

definition resumes :: "'u chttp1_settings option \<Rightarrow> size_t \<Rightarrow> byte list \<Rightarrow> 'u turn \<Rightarrow> chttp1_errno option \<times> byte list \<times> chttp1_parser \<times> 'u \<times> heap \<Rightarrow> bool" where
  "resumes st n d t r \<longleftrightarrow>
     seen_turn t = seen_turn (longer d (Some r))
     \<or> (\<exists>p u h. r = (None, [], p, u, h) \<and> seen_turn t = seen_turn (chttp1_turn st n d p u h))"

lemma resumes_longer: "t = Some r \<Longrightarrow> resumes st n d (longer d t) r"
  by (simp add: resumes_def)

definition stream_body :: "'u chttp1_settings option \<Rightarrow> bool" where
  "stream_body st \<longleftrightarrow>
     (\<forall>s f. st = Some s \<longrightarrow> on_body s = Some f \<longrightarrow>
        (\<forall>p q a b u. a \<noteq> [] \<longrightarrow> b \<noteq> [] \<longrightarrow>
           f p (a @ b) u = (let (e, u') = f p a u in if e \<noteq> 0 then (e, u') else f q b u')))"

lemma stream_bodyD:
  "stream_body st \<Longrightarrow> a \<noteq> [] \<Longrightarrow> b \<noteq> [] \<Longrightarrow>
     call_back st on_body (\<lambda>f. f p (a @ b)) u =
       (let (e, u') = call_back st on_body (\<lambda>f. f p a) u in if e \<noteq> 0 then (e, u') else call_back st on_body (\<lambda>f. f q b) u')"
proof (cases "\<exists>s f. st = Some s \<and> on_body s = Some f")
  case True
  then obtain s f where f: "st = Some s" "on_body s = Some f" by blast
  then have cb: "call_back st on_body app = app f" for app :: "_ \<Rightarrow> 'a \<Rightarrow> int \<times> 'a" by (simp add: call_back_def fun_eq_iff)
  assume "stream_body st" "a \<noteq> []" "b \<noteq> []"
  then show ?thesis using f unfolding cb stream_body_def by blast
qed (auto simp: call_back_def split: option.splits)

lemma line_turn_resumes:
  assumes "line_turn st n a p u h = Some r" "d \<noteq> []" "\<And>p'. p_state p' = p_state p \<Longrightarrow> chttp1_turn st (n + length d) d p' = line_turn st (n + length d) d p'"
  shows "resumes st (n + length d) d (line_turn st (n + length d) (a @ d) p u h) r"
proof -
  obtain lr a' p' h' where a: "accumulate_line (line_budget p) a p h = Some (lr, a', p', h')"
    using assms(1) by (auto simp: line_turn_def split: bind_splits)
  note app = accumulate_line_append [OF a, of d]
  have state: "p_state p' = p_state p" using accumulate_loop_strip [OF a [unfolded accumulate_line_eq]] strip_eqD(1) by blast
  show ?thesis
  proof (cases lr)
    case LINE_NEED_MORE
    have "a' = []" using accumulate_need_more [OF a [unfolded accumulate_line_eq]] LINE_NEED_MORE by simp
    then have "r = (None, [], p', u, h')" using assms(1) a LINE_NEED_MORE by (simp add: line_turn_def)
    moreover have "line_turn st (n + length d) (a @ d) p u h = line_turn st (n + length d) d p' u h'"
      using app LINE_NEED_MORE unfolding line_turn_def by simp
    ultimately show ?thesis using assms(2) assms(3) [OF state] by (simp add: resumes_def)
  next
    case LINE_READY
    have "line_turn st (n + length d) (a @ d) p u h = longer d (line_ready st n a' p' u h')"
      using app LINE_READY by (simp add: line_turn_def line_ready_longer)
    moreover have "line_ready st n a' p' u h' = Some r" using assms(1) a LINE_READY by (simp add: line_turn_def)
    ultimately show ?thesis by (simp add: resumes_longer)
  qed (use assms(1) a app in \<open>auto simp: line_turn_def resumes_def return_with_def\<close>)
qed

lemma counted_turn_resumes:
  assumes "counted_turn st n a p u h = Some r" "a \<noteq> []" "d \<noteq> []" "stream_body st"
    and state: "p_state p = CHTTP1_ST_BODY_CONTENT_LENGTH \<or> p_state p = CHTTP1_ST_BODY_CHUNK_DATA"
  shows "resumes st (n + length d) d (counted_turn st (n + length d) (a @ d) p u h) r"
proof (cases "length a < unat (p_content_length p)")
  case False
  let ?k = "unat (p_content_length p)"
  have "take ?k (a @ d) = take ?k a" "drop ?k (a @ d) = drop ?k a @ d" "\<not> length (a @ d) < ?k" using False by auto
  then have "counted_turn st (n + length d) (a @ d) p u h = longer d (counted_turn st n a p u h)"
    using False by (auto simp: counted_turn_def Let_def split: prod.split)
  then show ?thesis using assms(1) by (simp add: resumes_longer)
next
  case True
  let ?cl = "p_content_length p"
  let ?p = "p\<lparr>p_content_length := ?cl - of_nat (length a)\<rparr>"
  obtain e u1 where e: "call_back st on_body (\<lambda>f. f p a) u = (e, u1)" by fastforce
  have k: "unat (?cl - of_nat (length a)) = unat ?cl - length a"
    by (metis True le_unat_uoi nat_less_le unat_sub word_le_nat_alt)
  then have nz: "?cl - of_nat (length a) \<noteq> 0" using True by (metis unat_0 zero_less_diff less_irrefl)
  show ?thesis
  proof (cases "e = 0")
    case False
    have "r = (Some (fst (user_error p)), a, snd (user_error p), u1, h)"
      using assms(1,2) True e False by (simp add: counted_turn_def return_with_def)
    moreover have "call_back st on_body (\<lambda>f. f p (a @ x)) u = (e, u1)" for x
      using stream_bodyD [OF assms(4,2), of x p u p] e False by (cases "x = []") simp_all
    then have "call_back st on_body (\<lambda>f. f p (take m (a @ d))) u = (e, u1)" if "length a \<le> m" for m using that by simp
    ultimately show ?thesis using True False assms(2) by (auto simp: counted_turn_def Let_def resumes_def)
  next
    case ok: True
    have r: "r = (None, [], ?p, u1, h)" using assms(1,2) True e ok nz by (simp add: counted_turn_def Let_def)
    have cb: "call_back st on_body (\<lambda>f. f p (a @ take m d)) u = call_back st on_body (\<lambda>f. f ?p (take m d)) u1" if "m > 0" for m
      using stream_bodyD [OF assms(4,2), of "take m d" p u ?p] that assms(3) e ok by simp
    have "seen_turn (counted_turn st (n + length d) (a @ d) p u h) = seen_turn (counted_turn st (n + length d) d ?p u1 h)"
    proof (cases "length d < unat ?cl - length a")
      case short: True
      then have "length (a @ d) < unat ?cl" by simp
      then show ?thesis using short k assms(2,3) cb [of "length d"]
        by (simp add: counted_turn_def Let_def diff_diff_eq split: prod.split)
    next
      case long: False
      have t: "take (unat ?cl) (a @ d) = a @ take (unat ?cl - length a) d" "drop (unat ?cl) (a @ d) = drop (unat ?cl - length a) d" using True by auto
      have z: "?cl - of_nat (length a) - of_nat (unat ?cl - length a) = 0" unfolding k [symmetric] by simp
      have "\<not> length (a @ d) < unat ?cl" "unat ?cl - length a > 0" using long True by auto
      then show ?thesis using long k t z cb [of "unat ?cl - length a"]
        by (simp add: counted_turn_def Let_def split: prod.split)
    qed
    then show ?thesis using r state by (auto simp: resumes_def chttp1_turn_def)
  qed
qed

lemma eof_turn_resumes:
  assumes "eof_turn st a p u h = Some r" "a \<noteq> []" "d \<noteq> []" "stream_body st" "p_state p = CHTTP1_ST_BODY_EOF"
  shows "resumes st (n + length d) d (eof_turn st (a @ d) p u h) r"
proof -
  obtain e u1 where e: "call_back st on_body (\<lambda>f. f p a) u = (e, u1)" by fastforce
  show ?thesis using assms e stream_bodyD [OF assms(4,2,3), of p u p]
    by (cases "e = 0") (auto simp: eof_turn_def resumes_def chttp1_turn_def return_with_def split: prod.splits if_splits)
qed

lemma chttp1_turn_resumes:
  assumes "chttp1_turn st n a p u h = Some r" "a \<noteq> []" "d \<noteq> []" "stream_body st"
  shows "resumes st (n + length d) d (chttp1_turn st (n + length d) (a @ d) p u h) r"
proof (cases "p_state p")
  case CHTTP1_ST_BODY_CONTENT_LENGTH
  then show ?thesis using counted_turn_resumes [of st n a p u h r d] assms by (simp add: chttp1_turn_def)
next
  case CHTTP1_ST_BODY_CHUNK_DATA
  then show ?thesis using counted_turn_resumes [of st n a p u h r d] assms by (simp add: chttp1_turn_def)
next
  case CHTTP1_ST_BODY_EOF
  then show ?thesis using eof_turn_resumes [of st a p u h r d n] assms by (simp add: chttp1_turn_def)
next
  case CHTTP1_ST_MESSAGE_DONE
  then show ?thesis using assms by (auto simp: chttp1_turn_def resumes_def return_with_def)
next
  case CHTTP1_ST_DEAD
  then show ?thesis using assms by (auto simp: chttp1_turn_def resumes_def return_with_def)
qed (use line_turn_resumes [of st n a p u h r d] assms in \<open>simp_all add: chttp1_turn_def fun_eq_iff\<close>)

section \<open>Returns and positions\<close>

lemma fst_outcome [simp]: "fst (fail r p) = CHTTP1_ERROR" "fst (fail_already_set p) = CHTTP1_ERROR"
  by (simp_all add: fail_def fail_already_set_def)

lemma complete_message_cases:
  "complete_message st at p u = (x, u') \<Longrightarrow>
     x = user_error p \<or> x = (CHTTP1_PAUSED, p\<lparr>p_consumed := at, p_state := CHTTP1_ST_MESSAGE_DONE\<rparr>)"
  by (auto simp: complete_message_def Let_def split: prod.splits if_splits)

definition shifted :: "size_t \<Rightarrow> chttp1_errno \<Rightarrow> chttp1_parser \<Rightarrow> chttp1_parser" where
  "shifted k e p = (if e = CHTTP1_PAUSED \<or> e = CHTTP1_HEADERS_ONLY then p\<lparr>p_consumed := k + p_consumed p\<rparr> else p)"

definition shift_turn :: "size_t \<Rightarrow> 'u turn \<Rightarrow> 'u turn" where
  "shift_turn k t = map_option (\<lambda>(r, a, p, u, h). (r, a, case r of None \<Rightarrow> p | Some e \<Rightarrow> shifted k e p, u, h)) t"

lemma shift_turn_simps [simp]:
  "shift_turn k None = None" "shift_turn k (Some (None, s)) = Some (None, s)"
  "shift_turn k (return_with (fail r p) d u h) = return_with (fail r p) d u h"
  "shift_turn k (return_with (fail_already_set p) d u h) = return_with (fail_already_set p) d u h"
  "shift_turn k (return_with (user_error p) d u h) = return_with (user_error p) d u h"
  "shift_turn k (return_with (CHTTP1_ERROR, p) d u h) = return_with (CHTTP1_ERROR, p) d u h"
  by (simp_all add: shift_turn_def return_with_def shifted_def split: prod.split)

lemma return_complete_shift:
  assumes "length d \<le> n"
  shows "return_complete st (k + n) d p u h = shift_turn k (return_complete st n d p u h)"
proof -
  have "k + n - length d = k + (n - length d)" using assms by simp
  moreover obtain e u1 where "call_back st on_message_complete (\<lambda>f. f p) u = (e, u1)" by fastforce
  ultimately show ?thesis
    by (cases "e = 0") (simp_all add: return_complete_def complete_message_def, simp add: shift_turn_def return_with_def shifted_def)
qed

lemma enter_body_shift: "length d \<le> n \<Longrightarrow> enter_body st (k + n) nb w d p u h = shift_turn k (enter_body st n nb w d p u h)"
  by (simp add: enter_body_def Let_def return_complete_shift) (simp add: shift_turn_def return_with_def shifted_def)

lemma headers_done_shift: "length d \<le> n \<Longrightarrow> headers_done st (k + n) d p u h = shift_turn k (headers_done st n d p u h)"
  by (simp add: headers_done_def Let_def enter_body_shift split: option.split prod.split)

lemma field_line_shift [simp]: "shift_turn k (field_line st t d p u h) = field_line st t d p u h"
  by (cases "process_header_line st t p u") (auto simp: field_line_def split: ph_result.split)

lemma first_line_shift [simp]: "shift_turn k (first_line_ready st d p u h) = first_line_ready st d p u h"
  unfolding first_line_ready_def Let_def by (auto split: option.split ph_result.split bind_splits prod.splits)

lemma chunk_size_shift [simp]: "shift_turn k (chunk_size_ready d p u h) = chunk_size_ready d p u h"
  by (simp add: chunk_size_ready_def Let_def split: prod.split)

lemma line_ready_shift: "length d \<le> n \<Longrightarrow> line_ready st (k + n) d p u h = shift_turn k (line_ready st n d p u h)"
  by (simp add: line_ready_def headers_done_shift return_complete_shift split: chttp1_state.split)

lemma accumulate_loop_rest: "accumulate_loop b cap len d p h = Some (r, d', p', h') \<Longrightarrow> length d' \<le> length d"
  by (induction rule: accumulate_induct) auto

lemma line_turn_shift:
  assumes "length d \<le> n"
  shows "line_turn st (k + n) d p u h = shift_turn k (line_turn st n d p u h)"
proof (cases "accumulate_line (line_budget p) d p h")
  case (Some x)
  obtain r d' p' h' where x: "x = (r, d', p', h')" by (cases x)
  have "length d' \<le> n" using accumulate_loop_rest [OF Some [unfolded accumulate_line_eq x]] assms by simp
  then show ?thesis using Some x by (simp add: line_turn_def line_ready_shift split: line_result.split)
qed (simp add: line_turn_def)

lemma counted_turn_shift:
  assumes "length d \<le> n"
  shows "counted_turn st (k + n) d p u h = shift_turn k (counted_turn st n d p u h)"
proof -
  have "length (drop m d) \<le> n" for m using assms by simp
  note c = return_complete_shift [OF this]
  show ?thesis unfolding counted_turn_def Let_def c by (simp split: prod.split)
qed

lemma chttp1_turn_shift: "length d \<le> n \<Longrightarrow> chttp1_turn st (k + n) d p u h = shift_turn k (chttp1_turn st n d p u h)"
  by (simp add: chttp1_turn_def line_turn_shift counted_turn_shift eof_turn_def split: chttp1_state.split prod.split)

text \<open>What the interpretation of a header line leaves as it is.\<close>

definition settle :: "chttp1_parser \<Rightarrow> chttp1_parser" where
  "settle p = p\<lparr>p_flags := 0, p_content_length := 0, p_host_count := 0, p_reason := None\<rparr>"

lemma settle_simps [simp]:
  "settle (set_flag f p) = settle p" "settle (clear_flag f p) = settle p" "settle (set_reason r p) = settle p"
  "settle (p\<lparr>p_content_length := n\<rparr>) = settle p" "settle (p\<lparr>p_host_count := c\<rparr>) = settle p" "settle (p\<lparr>p_flags := fl\<rparr>) = settle p"
  by (simp_all add: settle_def set_flag_def clear_flag_def set_reason_def)

lemma settle_eqD:
  assumes "settle p = settle q"
  shows "p_state p = p_state q" "p_type p = p_type q" "p_line_spill_enabled p = p_line_spill_enabled q"
    "p_total_header_bytes p = p_total_header_bytes q" "p_max_total_header_bytes_override p = p_max_total_header_bytes_override q"
    "p_header_count p = p_header_count q" "p_max_header_count_override p = p_max_header_count_override q"
    "p_chunk_excess p = p_chunk_excess q" "p_http_major p = p_http_major q" "p_http_minor p = p_http_minor q"
    "p_finish_state p = p_finish_state q" "p_leading_blank_lines p = p_leading_blank_lines q" "p_status_code p = p_status_code q"
    "p_max_chunk_size_override p = p_max_chunk_size_override q" "p_consumed p = p_consumed q"
    "p_line_len p = p_line_len q" "p_line_spill p = p_line_spill q" "p_line_buf p = p_line_buf q"
  using assms by (cases p; cases q; simp add: settle_def)+

lemma te_framing_settle: "te_framing v p = Some (ok, p') \<Longrightarrow> settle p' = settle p"
  by (auto simp: te_framing_def Let_def split: bind_splits if_splits)

lemma header_framing_settle: "header_framing name v p = Some (ok, p') \<Longrightarrow> settle p' = settle p"
  by (auto simp: header_framing_def Let_def parse_connection_tokens_def dest: te_framing_settle split: bind_splits if_splits option.splits)

lemma count_line_simps [simp]: "p_state (count_line c p) = p_state p" "p_type (count_line c p) = p_type p" "p_flags (count_line c p) = p_flags p"
  by (simp_all add: count_line_def)

lemma process_header_line_state: "process_header_line st t p u = Some (r, p', u') \<Longrightarrow> p_state p' = p_state p"
  by (auto simp: process_header_line_def Let_def set_reason_def dest!: header_framing_settle settle_eqD(1) split: bind_splits if_splits prod.splits)

definition alive :: "chttp1_parser \<Rightarrow> bool" where
  "alive p \<longleftrightarrow> p_state p \<noteq> CHTTP1_ST_DEAD \<and> p_state p \<noteq> CHTTP1_ST_MESSAGE_DONE"

lemma return_complete_None [simp]: "return_complete st n d p u h \<noteq> Some (None, s)"
  by (cases s) (simp add: return_complete_rest)

lemma return_with_None [simp]: "return_with e d u h \<noteq> Some (None, s)"
  by (simp add: return_with_def)

lemma set_flag_state [simp]: "p_state (set_flag f p) = p_state p"
  by (simp add: set_flag_def)

lemma line_ready_alive: "line_ready st n d p u h = Some (None, d', p', u', h') \<Longrightarrow> alive p \<Longrightarrow> alive p'"
  by (auto simp: line_ready_def first_line_ready_def headers_done_def enter_body_def field_line_def chunk_size_ready_def Let_def alive_def
      dest!: process_header_line_state
      split: chttp1_state.splits if_splits prod.splits option.splits ph_result.splits bind_splits)

lemma chttp1_turn_alive:
  assumes "chttp1_turn st n d p u h = Some (None, d', p', u', h')"
  shows "alive p'"
proof -
  have al: "alive p" using assms by (auto simp: chttp1_turn_def alive_def)
  have line: "alive p'" if lt: "line_turn st n d p u h = Some (None, d', p', u', h')"
  proof -
    obtain lr d1 p1 h1 where a: "accumulate_line (line_budget p) d p h = Some (lr, d1, p1, h1)"
      using lt by (auto simp: line_turn_def split: bind_splits)
    have "alive p1" using strip_eqD(1) [OF accumulate_loop_strip [OF a [unfolded accumulate_line_eq]]] al by (simp add: alive_def)
    then show ?thesis using lt a by (cases lr) (auto simp: line_turn_def dest: line_ready_alive)
  qed
  have counted: "alive p'" if "counted_turn st n d p u h = Some (None, d', p', u', h')"
    using that al by (auto simp: counted_turn_def Let_def alive_def split: if_splits prod.splits)
  show ?thesis using assms line counted al
    by (auto simp: chttp1_turn_def eof_turn_def split: chttp1_state.splits if_splits prod.splits)
qed

lemma return_complete_code: "return_complete st n d p u h = Some (Some x, s) \<Longrightarrow> x = CHTTP1_USER \<or> x = CHTTP1_PAUSED"
  by (cases s) (auto simp: return_complete_rest user_error_def Let_def dest!: complete_message_cases)

lemma line_ready_code: "line_ready st n d p u h = Some (Some x, s) \<Longrightarrow> x \<noteq> CHTTP1_OK"
  by (cases s) (auto simp: line_ready_def first_line_ready_def headers_done_def enter_body_def field_line_def chunk_size_ready_def Let_def
      dest!: return_complete_code
      split: chttp1_state.splits if_splits prod.splits option.splits ph_result.splits bind_splits)

lemma chttp1_turn_code: "chttp1_turn st n d p u h = Some (Some x, s) \<Longrightarrow> x \<noteq> CHTTP1_OK"
  by (cases s) (auto simp: chttp1_turn_def line_turn_def counted_turn_def eof_turn_def Let_def dest!: return_complete_code dest: line_ready_code
      split: chttp1_state.splits if_splits prod.splits line_result.splits bind_splits)

section \<open>Buffers\<close>

lemma chttp1_loop_Nil [simp]: "chttp1_loop st n [] p u h = Some (CHTTP1_OK, p, u, h)"
  by (subst chttp1_loop.simps) simp

lemma seen_loop:
  "d \<noteq> [] \<Longrightarrow> seen (chttp1_loop st n d p u h) =
     (case seen_turn (chttp1_turn st n d p u h) of
        None \<Rightarrow> None
      | Some (Some e, _, p, u, h) \<Rightarrow> Some (e, p, u, h)
      | Some (None, d, p, u, h) \<Rightarrow> seen (chttp1_loop st n d p u h))"
  by (subst chttp1_loop.simps) (auto simp: seen_turn_def seen_def split: option.splits prod.splits)

lemma chttp1_loop_append:
  assumes "chttp1_loop st n a p u h = Some (e, p', u', h')" "stream_body st"
  shows "seen (chttp1_loop st (n + length d) (a @ d) p u h) =
    (if e = CHTTP1_OK then seen (chttp1_loop st (n + length d) d p' u' h') else Some (e, seen_parser e p', u', h'))"
  using assms
proof (induction st n a p u h rule: chttp1_loop.induct)
  case (1 st n a p u h)
  show ?case
  proof (cases "a = [] \<or> d = []")
    case True
    then show ?thesis using 1(2)
      by (cases "a = []") (auto simp: seen_parser_def)
  next
    case False
    obtain r a1 p1 u1 h1 where t: "chttp1_turn st n a p u h = Some (r, a1, p1, u1, h1)"
      using 1(2) False by (subst (asm) chttp1_loop.simps) (auto split: option.splits)
    have res: "resumes st (n + length d) d (chttp1_turn st (n + length d) (a @ d) p u h) (r, a1, p1, u1, h1)"
      using chttp1_turn_resumes [OF t _ _ 1(3)] False by simp
    show ?thesis
    proof (cases r)
      case (Some x)
      have "e = x" "p' = p1" "u' = u1" "h' = h1" using 1(2) False t Some by (subst (asm) chttp1_loop.simps, simp)+
      moreover have "x \<noteq> CHTTP1_OK" using chttp1_turn_code [OF t [unfolded Some]] .
      ultimately show ?thesis using res Some False by (simp add: seen_loop resumes_def)
    next
      case None
      have l: "chttp1_loop st n a1 p1 u1 h1 = Some (e, p', u', h')"
        using 1(2) False t None by (subst (asm) chttp1_loop.simps) simp
      have ih: "seen (chttp1_loop st (n + length d) (a1 @ d) p1 u1 h1) =
          (if e = CHTTP1_OK then seen (chttp1_loop st (n + length d) d p' u' h') else Some (e, seen_parser e p', u', h'))"
        using 1(1) [OF _ t] False None l 1(3) by simp
      have "seen (chttp1_loop st (n + length d) (a @ d) p u h) = seen (chttp1_loop st (n + length d) (a1 @ d) p1 u1 h1)"
        using res None False by (auto simp: seen_loop resumes_def)
      then show ?thesis using ih by simp
    qed
  qed
qed

lemma chttp1_loop_alive:
  assumes "chttp1_loop st n d p u h = Some (CHTTP1_OK, p', u', h')" "alive p"
  shows "alive p'"
  using assms
proof (induction st n d p u h rule: chttp1_loop.induct)
  case (1 st n d p u h)
  show ?case
  proof (cases "d = []")
    case False
    then obtain r d1 p1 u1 h1 where t: "chttp1_turn st n d p u h = Some (r, d1, p1, u1, h1)"
      using 1(2) by (subst (asm) chttp1_loop.simps) (auto split: option.splits)
    show ?thesis
    proof (cases r)
      case None
      then show ?thesis using 1(1) [OF False t] 1(2) False t chttp1_turn_alive [OF t [unfolded None]]
        by (subst (asm) (2) chttp1_loop.simps) simp
    next
      case (Some x)
      then show ?thesis using 1(2) False t chttp1_turn_code [OF t [unfolded Some]] by (subst (asm) chttp1_loop.simps) simp
    qed
  qed (use 1 in simp)
qed

definition shift_result :: "size_t \<Rightarrow> (chttp1_errno \<times> chttp1_parser \<times> 'u \<times> heap) option \<Rightarrow> (chttp1_errno \<times> chttp1_parser \<times> 'u \<times> heap) option" where
  "shift_result k t = (case t of None \<Rightarrow> None | Some (e, p, u, h) \<Rightarrow> Some (e, shifted k e p, u, h))"

lemma shift_result_simps [simp]:
  "shift_result k None = None" "shift_result k (Some (e, p, u, h)) = Some (e, shifted k e p, u, h)"
  by (simp_all add: shift_result_def)

lemma chttp1_loop_shift:
  assumes "length d \<le> n"
  shows "chttp1_loop st (k + n) d p u h = shift_result k (chttp1_loop st n d p u h)"
  using assms
proof (induction st n d p u h rule: chttp1_loop.induct)
  case (1 st n d p u h)
  show ?case
  proof (cases "d = []")
    case False
    note turn = chttp1_turn_shift [OF 1(2), of st k p u h]
    show ?thesis
    proof (cases "chttp1_turn st n d p u h")
      case None
      then show ?thesis using False turn by (subst (1 2) chttp1_loop.simps) simp
    next
      case t: (Some x)
      obtain r d1 p1 u1 h1 where x: "x = (r, d1, p1, u1, h1)" by (cases x)
      show ?thesis
      proof (cases r)
        case None
        have "length d1 \<le> n" using chttp1_turn_progress [OF t [unfolded x None] False] 1(2) by auto
        then show ?thesis using 1(1) [OF False t x [symmetric] None refl refl refl] None False turn t x
          by (subst (1 2) chttp1_loop.simps) (simp add: shift_turn_def)
      next
        case (Some e)
        then show ?thesis using False turn t x by (subst (1 2) chttp1_loop.simps) (simp add: shift_turn_def)
      qed
    qed
  qed (simp add: shifted_def)
qed

text \<open>
  Feeding buffers one after the other until a call reports something else than \<^verbatim>\<open>CHTTP1_OK\<close>,
  as the read loops of the client and the server do; positions count from the first buffer.
\<close>

fun feed :: "'u chttp1_settings option \<Rightarrow> byte list list \<Rightarrow> chttp1_parser \<Rightarrow> 'u \<Rightarrow> heap \<Rightarrow> (chttp1_errno \<times> chttp1_parser \<times> 'u \<times> heap) option" where
  "feed st [] p u h = Some (CHTTP1_OK, p, u, h)"
| "feed st (d # ds) p u h =
     (case chttp1_parser_execute st d p u h of
        None \<Rightarrow> None
      | Some (e, p, u, h) \<Rightarrow>
          if e \<noteq> CHTTP1_OK then Some (e, p, u, h)
          else shift_result (length d) (feed st ds p u h))"

lemma seen_shifted: "seen (shift_result k t) = shift_result k (seen t)"
  by (cases t) (auto simp: seen_parser_def shifted_def)

lemma execute_alive: "alive p \<Longrightarrow> chttp1_parser_execute st d p u h = chttp1_loop st (length d) d p u h"
  by (simp add: chttp1_parser_execute_def alive_def)

lemma feed_concat:
  assumes "alive p" "stream_body st" "feed st ds p u h = Some r"
  shows "seen (chttp1_parser_execute st (concat ds) p u h) = seen (Some r)"
  using assms(1,3)
proof (induction ds arbitrary: p u h r)
  case Nil
  then show ?case by (simp add: execute_alive)
next
  case (Cons d ds)
  obtain e p1 u1 h1 where e: "chttp1_loop st (length d) d p u h = Some (e, p1, u1, h1)"
    using Cons(2,3) by (auto simp: execute_alive split: option.splits)
  note app = chttp1_loop_append [OF e assms(2), of "concat ds"]
  show ?case
  proof (cases "e = CHTTP1_OK")
    case False
    then show ?thesis using app Cons(2,3) e by (auto simp: execute_alive)
  next
    case True
    have al: "alive p1" using chttp1_loop_alive [OF e [unfolded True] Cons(2)] .
    obtain r1 where r1: "feed st ds p1 u1 h1 = Some r1" "Some r = shift_result (length d) (Some r1)"
      using Cons(2,3) e True by (cases "feed st ds p1 u1 h1") (auto simp: execute_alive)
    have "seen (chttp1_parser_execute st (concat (d # ds)) p u h) = seen (chttp1_loop st (length d + length (concat ds)) (concat ds) p1 u1 h1)"
      using app True Cons(2) by (simp add: execute_alive del: length_concat)
    also have "\<dots> = shift_result (length d) (seen (chttp1_parser_execute st (concat ds) p1 u1 h1))"
      using al by (simp add: chttp1_loop_shift seen_shifted execute_alive del: length_concat)
    also have "\<dots> = seen (Some r)" using Cons(1) [OF al r1(1)] seen_shifted [of "length d" "Some r1"] r1(2) by simp
    finally show ?thesis .
  qed
qed

end
