(* ===== verification/CCol_Http1_Inv.thy ===== *)
theory CCol_Http1_Inv
  imports CCol_Http1_Feed
begin

unbundle bit_operations_syntax

text \<open>
  What the parser of \<^verbatim>\<open>chttp1_parser.c\<close> keeps true of itself: its line buffers, the blocks it
  owns, the caps on headers and chunk framing, and that the framing of a body is never
  ambiguous; and that no call reads or writes outside the line.
\<close>

section \<open>The helpers never leave their text\<close>

lemma ncasecmp_total: "length a \<ge> n \<Longrightarrow> length b \<ge> n \<Longrightarrow> ccol_ascii_ncasecmp a b n \<noteq> None"
  by (induction a b n rule: ccol_ascii_ncasecmp.induct) (auto simp: Let_def)

lemma lit_length [simp]: "length (lit s) = length s"
  by (simp add: lit_def)

lemma header_name_is_total [simp]: "header_name_is name l \<noteq> None"
  using ncasecmp_total [of "length l" name "lit l"] by (auto simp: header_name_is_def)

lemma header_name_is_Some: "\<exists>b. header_name_is name l = Some b"
  using header_name_is_total by blast

lemma te_token_total [simp]: "te_token tok t \<noteq> None"
  by (simp add: te_token_def split: bind_splits)

lemma te_loop_total [simp]: "te_loop v t \<noteq> None"
proof (induction v t rule: te_loop.induct)
  case (1 v t)
  show ?case
  proof (cases "v = []")
    case False
    obtain t' where "te_token (dropWhile is_ows (trim_right (takeWhile (\<lambda>c. c \<noteq> 44) v))) t = Some t'" using te_token_total by blast
    then show ?thesis using 1 [OF False, of t'] False by (subst te_loop.simps) simp
  qed (simp add: te_loop.simps)
qed

lemma connection_loop_total [simp]: "connection_loop v fl \<noteq> None"
proof (induction v fl rule: connection_loop.induct)
  case (1 v fl)
  let ?r = "dropWhile (\<lambda>c. is_ows c \<or> c = 44) v"
  let ?tok = "trim_right (takeWhile (\<lambda>c. c \<noteq> 44) ?r)"
  obtain a b where ab: "header_name_is ?tok ''close'' = Some a" "header_name_is ?tok ''keep-alive'' = Some b"
    using header_name_is_Some by blast
  show ?case using 1 [OF _ refl refl, of a b] ab by (subst connection_loop.simps) (auto simp: Let_def)
qed

lemma te_framing_total [simp]: "te_framing v p \<noteq> None"
proof -
  obtain t where "transfer_encoding_scan v = Some t" using te_loop_total unfolding transfer_encoding_scan_def by blast
  then show ?thesis by (auto simp: te_framing_def Let_def)
qed

lemma header_framing_total [simp]: "header_framing name v p \<noteq> None"
proof -
  obtain a b c d e f where n: "header_name_is name ''content-length'' = Some a" "header_name_is name ''transfer-encoding'' = Some b"
      "header_name_is name ''host'' = Some c" "header_name_is name ''connection'' = Some d" "header_name_is name ''expect'' = Some e"
      "header_name_is v ''100-continue'' = Some f"
    using header_name_is_Some by metis
  have "parse_connection_tokens v p \<noteq> None" by (simp add: parse_connection_tokens_def)
  then obtain q where q: "parse_connection_tokens v p = Some q" by blast
  obtain ok q' where t: "te_framing v p = Some (ok, q')" using te_framing_total by (metis not_None_eq surj_pair)
  show ?thesis unfolding header_framing_def n q t by (auto simp: Let_def split: option.split)
qed

lemma process_header_line_total: "\<exists>r q u'. process_header_line st t p u = Some (r, q, u')"
proof -
  let ?name = "takeWhile (\<lambda>c. c \<noteq> 58) (line_text p)"
  let ?v = "trim_right (dropWhile is_ows (drop 1 (dropWhile (\<lambda>c. c \<noteq> 58) (line_text p))))"
  obtain ok q where hf: "header_framing ?name ?v p = Some (ok, q)" using header_framing_total [of ?name ?v p] by (metis not_None_eq surj_pair)
  obtain e1 u1 where c1: "call_back st on_trailer (\<lambda>f. f p ?name ?v) u = (e1, u1)" by fastforce
  obtain e2 u2 where c2: "call_back st on_header (\<lambda>f. f q ?name ?v) u = (e2, u2)" by fastforce
  show ?thesis unfolding process_header_line_def Let_def c1 hf by (auto simp: c2 [unfolded One_nat_def])
qed

lemma rd_Some: "i < length s \<Longrightarrow> rd s i = Some (s ! i)"
  by (simp add: rd_def)

lemma parse_version_total: "i + 3 \<le> length s \<Longrightarrow> \<exists>ok q. parse_version s i p = Some (ok, q)"
  by (auto simp: parse_version_def rd_Some Let_def)

lemma parse_status_code_total: "\<exists>ok q. parse_status_code s i p = Some (ok, q)"
  by (auto simp: parse_status_code_def rd_Some)

lemma parse_status_line_total: "\<exists>ok q. parse_status_line p = Some (ok, q)"
proof (cases "length (line_text p) < 8 \<or> take 5 (line_text p) \<noteq> lit ''HTTP/''")
  case True
  then show ?thesis by (auto simp: parse_status_line_def Let_def)
next
  case False
  obtain ok q where v: "parse_version (line_text p) 5 p = Some (ok, q)" using parse_version_total [of 5 "line_text p" p] False by auto
  obtain ok2 q2 where c: "parse_status_code (line_text p) 9 q = Some (ok2, q2)" using parse_status_code_total by blast
  show ?thesis using False v c by (auto simp: parse_status_line_def Let_def rd_Some)
qed

lemma parse_request_line_total: "\<exists>r q u'. parse_request_line st p u = Some (r, q, u')"
proof -
  let ?v = "drop 1 (dropWhile (\<lambda>c. c \<noteq> 32) (drop 1 (dropWhile (\<lambda>c. c \<noteq> 32) (take (p_line_len p) (p_line_buf p)))))"
  show ?thesis
  proof (cases "length ?v < 8")
    case True
    then show ?thesis by (auto simp: parse_request_line_def Let_def)
  next
    case False
    then obtain ok q where v: "parse_version ?v 5 p = Some (ok, q)" using parse_version_total [of 5 ?v p] by auto
    then show ?thesis unfolding parse_request_line_def Let_def v by (auto split: prod.split)
  qed
qed

section \<open>Flags\<close>

lemmas F_defs = F_CHUNKED_def F_CONTENT_LENGTH_def F_TRANSFER_ENCODING_def F_CONNECTION_CLOSE_def
  F_CONNECTION_KEEP_ALIVE_def F_EXPECT_100_CONTINUE_def F_CHUNK_TOO_LARGE_def F_CHUNKED_APPLIED_def F_OTHER_CODING_def
  F_HEADERS_DONE_def

lemma has_flag_exp: "has_flag p (2 ^ n) \<longleftrightarrow> bit (p_flags p) n"
  by (simp add: has_flag_def and_exp_eq_0_iff_not_bit)

lemma has_flag_bit:
  "has_flag p F_CHUNKED \<longleftrightarrow> bit (p_flags p) 0" "has_flag p F_CONTENT_LENGTH \<longleftrightarrow> bit (p_flags p) 1"
  "has_flag p F_TRANSFER_ENCODING \<longleftrightarrow> bit (p_flags p) 2" "has_flag p F_CONNECTION_CLOSE \<longleftrightarrow> bit (p_flags p) 3"
  "has_flag p F_CONNECTION_KEEP_ALIVE \<longleftrightarrow> bit (p_flags p) 4" "has_flag p F_EXPECT_100_CONTINUE \<longleftrightarrow> bit (p_flags p) 5"
  "has_flag p F_CHUNK_TOO_LARGE \<longleftrightarrow> bit (p_flags p) 6" "has_flag p F_CHUNKED_APPLIED \<longleftrightarrow> bit (p_flags p) 7"
  "has_flag p F_OTHER_CODING \<longleftrightarrow> bit (p_flags p) 8" "has_flag p F_HEADERS_DONE \<longleftrightarrow> bit (p_flags p) 9"
  using has_flag_exp [of p 0] has_flag_exp [of p 1] has_flag_exp [of p 2] has_flag_exp [of p 3] has_flag_exp [of p 4]
    has_flag_exp [of p 5] has_flag_exp [of p 6] has_flag_exp [of p 7] has_flag_exp [of p 8] has_flag_exp [of p 9]
  by (simp_all add: F_defs)

lemma F_bits:
  "bit F_CHUNKED n \<longleftrightarrow> n = 0" "bit F_CONTENT_LENGTH n \<longleftrightarrow> n = 1" "bit F_TRANSFER_ENCODING n \<longleftrightarrow> n = 2"
  "bit F_CONNECTION_CLOSE n \<longleftrightarrow> n = 3" "bit F_CONNECTION_KEEP_ALIVE n \<longleftrightarrow> n = 4" "bit F_EXPECT_100_CONTINUE n \<longleftrightarrow> n = 5"
  "bit F_CHUNK_TOO_LARGE n \<longleftrightarrow> n = 6" "bit F_CHUNKED_APPLIED n \<longleftrightarrow> n = 7" "bit F_OTHER_CODING n \<longleftrightarrow> n = 8"
  "bit F_HEADERS_DONE n \<longleftrightarrow> n = 9"
proof -
  have "bit ((2 :: flags) ^ m) n \<longleftrightarrow> n = m" if "m < 16" for m using that by (auto simp: bit_exp_iff possible_bit_word)
  from this [of 0] this [of 1] this [of 2] this [of 3] this [of 4] this [of 5] this [of 6] this [of 7] this [of 8] this [of 9]
  show "bit F_CHUNKED n \<longleftrightarrow> n = 0" "bit F_CONTENT_LENGTH n \<longleftrightarrow> n = 1" "bit F_TRANSFER_ENCODING n \<longleftrightarrow> n = 2"
    "bit F_CONNECTION_CLOSE n \<longleftrightarrow> n = 3" "bit F_CONNECTION_KEEP_ALIVE n \<longleftrightarrow> n = 4" "bit F_EXPECT_100_CONTINUE n \<longleftrightarrow> n = 5"
    "bit F_CHUNK_TOO_LARGE n \<longleftrightarrow> n = 6" "bit F_CHUNKED_APPLIED n \<longleftrightarrow> n = 7" "bit F_OTHER_CODING n \<longleftrightarrow> n = 8"
    "bit F_HEADERS_DONE n \<longleftrightarrow> n = 9"
    by (simp_all add: F_defs)
qed

lemma flags_set [simp]: "p_flags (set_flag f p) = p_flags p OR f" "p_flags (clear_flag f p) = p_flags p AND NOT f"
  by (simp_all add: set_flag_def clear_flag_def)

lemma bit_clear_chunked: "bit (fl AND NOT F_CHUNKED) n \<longleftrightarrow> bit fl n \<and> n \<noteq> 0"
proof -
  have "bit fl n \<Longrightarrow> n < 16" using bit_imp_possible_bit [of fl n] by (simp add: possible_bit_word)
  then show ?thesis by (auto simp: bit_simps F_bits possible_bit_word)
qed

lemmas flag_simps = has_flag_bit flags_set bit_or_iff F_bits bit_clear_chunked

lemma connection_loop_bits: "connection_loop v fl = Some fl' \<Longrightarrow> n \<noteq> 3 \<Longrightarrow> n \<noteq> 4 \<Longrightarrow> bit fl' n = bit fl n"
proof (induction v fl arbitrary: fl' rule: connection_loop.induct)
  case (1 v fl)
  let ?r = "dropWhile (\<lambda>c. is_ows c \<or> c = 44) v"
  let ?tok = "trim_right (takeWhile (\<lambda>c. c \<noteq> 44) ?r)"
  obtain a b where ab: "header_name_is ?tok ''close'' = Some a" "header_name_is ?tok ''keep-alive'' = Some b"
    using header_name_is_Some by blast
  show ?case
  proof (cases "v = []")
    case True
    then show ?thesis using 1(2) by (simp add: connection_loop.simps)
  next
    case False
    have "connection_loop (dropWhile (\<lambda>c. c \<noteq> 44) ?r) (if a then fl OR F_CONNECTION_CLOSE else if b then fl OR F_CONNECTION_KEEP_ALIVE else fl) = Some fl'"
      using 1(2) False ab by (subst (asm) connection_loop.simps) (simp add: Let_def)
    from 1(1) [OF False refl refl ab this 1(3,4)] show ?thesis using 1(3,4) by (auto simp: bit_or_iff F_bits)
  qed
qed

section \<open>The framing is never ambiguous\<close>

text \<open>
  What holds of every parser that has not failed.  A body has one framing: a counted body
  comes without any \<^verbatim>\<open>Transfer-Encoding\<close>, a chunked one without a \<^verbatim>\<open>Content-Length\<close>, and
  only a response is read to the end of the connection.  A request past its headers has
  exactly one host line if its version is 1.1 or later and at most one otherwise, and any
  transfer coding of it ends in chunked under a version that knows it.
\<close>

definition chunk_state :: "chttp1_state \<Rightarrow> bool" where
  "chunk_state s \<longleftrightarrow> s \<in> set [CHTTP1_ST_BODY_CHUNK_SIZE, CHTTP1_ST_BODY_CHUNK_DATA, CHTTP1_ST_BODY_CHUNK_CRLF, CHTTP1_ST_BODY_CHUNK_TRAILERS]"

definition head_state :: "chttp1_state \<Rightarrow> bool" where
  "head_state s \<longleftrightarrow> s = CHTTP1_ST_FIRST_LINE \<or> s = CHTTP1_ST_HEADERS"

definition framing_ok :: "chttp1_parser \<Rightarrow> bool" where
  "framing_ok p \<longleftrightarrow>
     \<not> (has_flag p F_CONTENT_LENGTH \<and> has_flag p F_CHUNKED)
     \<and> (has_flag p F_CHUNKED \<longrightarrow> has_flag p F_TRANSFER_ENCODING)
     \<and> (head_state (p_state p) \<longrightarrow> \<not> has_flag p F_HEADERS_DONE \<and> p_finish_state p = CHTTP1_FINISH_UNSAFE)
     \<and> (chunk_state (p_state p) \<longrightarrow> has_flag p F_CHUNKED \<and> p_finish_state p = CHTTP1_FINISH_UNSAFE)
     \<and> (p_state p = CHTTP1_ST_BODY_CHUNK_DATA \<longrightarrow> p_content_length p \<noteq> 0)
     \<and> (p_state p = CHTTP1_ST_BODY_CONTENT_LENGTH \<longrightarrow>
          has_flag p F_CONTENT_LENGTH \<and> \<not> has_flag p F_TRANSFER_ENCODING \<and> p_content_length p \<noteq> 0 \<and> p_finish_state p = CHTTP1_FINISH_UNSAFE)
     \<and> (p_state p = CHTTP1_ST_BODY_EOF \<longrightarrow>
          p_type p = CHTTP1_PARSE_RESPONSE \<and> \<not> has_flag p F_CONTENT_LENGTH \<and> \<not> has_flag p F_CHUNKED \<and> p_finish_state p = CHTTP1_FINISH_SAFE_WITH_CB)
     \<and> (\<not> head_state (p_state p) \<longrightarrow> has_flag p F_HEADERS_DONE)
     \<and> (p_state p = CHTTP1_ST_MESSAGE_DONE \<longrightarrow> p_finish_state p \<noteq> CHTTP1_FINISH_UNSAFE)
     \<and> (p_type p = CHTTP1_PARSE_REQUEST \<and> has_flag p F_HEADERS_DONE \<longrightarrow>
          (if is_1_1_or_later p then p_host_count p = 1 else p_host_count p \<le> 1 \<and> \<not> has_flag p F_TRANSFER_ENCODING)
          \<and> (has_flag p F_TRANSFER_ENCODING \<longrightarrow> has_flag p F_CHUNKED) \<and> p_finish_state p \<noteq> CHTTP1_FINISH_SAFE_WITH_CB)"

text \<open>What a header line may do to the flags.\<close>

lemma te_framing_flags:
  assumes "te_framing v p = Some (True, p')"
  shows "has_flag p' F_TRANSFER_ENCODING" "has_flag p' F_CONTENT_LENGTH = has_flag p F_CONTENT_LENGTH" "has_flag p' F_HEADERS_DONE = has_flag p F_HEADERS_DONE"
  using assms by (auto simp: te_framing_def Let_def flag_simps split: bind_splits if_splits)

lemma header_framing_flags:
  assumes "header_framing name v p = Some (True, p')" "has_flag p F_CHUNKED \<longrightarrow> has_flag p F_TRANSFER_ENCODING"
  shows "has_flag p' F_CHUNKED \<longrightarrow> has_flag p' F_TRANSFER_ENCODING" "has_flag p' F_HEADERS_DONE = has_flag p F_HEADERS_DONE"
proof -
  have conn: "bit (p_flags q) n = bit (p_flags p) n" if "parse_connection_tokens v p = Some q" "n \<noteq> 3" "n \<noteq> 4" for q n
    using that connection_loop_bits [of v "p_flags p" _ n] by (auto simp: parse_connection_tokens_def)
  show "has_flag p' F_CHUNKED \<longrightarrow> has_flag p' F_TRANSFER_ENCODING" "has_flag p' F_HEADERS_DONE = has_flag p F_HEADERS_DONE"
    using assms te_framing_flags [of v p p'] conn [of p' 0] conn [of p' 2] conn [of p' 9]
    by (auto simp: header_framing_def Let_def flag_simps split: bind_splits if_splits option.splits)
qed

section \<open>Buffers, blocks and caps\<close>

definition buf_size :: "chttp1_parser \<Rightarrow> size_t" where
  "buf_size p = (if p_line_spill p = None then CHTTP1_MAX_LINE_LEN else CHTTP1_MAX_SPILL_LINE_LEN)"

definition spill_blks :: "chttp1_parser \<Rightarrow> nat set" where
  "spill_blks p = (case p_line_spill p of None \<Rightarrow> {} | Some (b, _) \<Rightarrow> {b})"

text \<open>\<open>L\<close> is the set of the live blocks that are not the parser's.\<close>

definition base_inv :: "nat set \<Rightarrow> chttp1_parser \<Rightarrow> heap \<Rightarrow> bool" where
  "base_inv L p h \<longleftrightarrow>
     length (p_line_buf p) = CHTTP1_MAX_LINE_LEN \<and> length (line_ptr p) = buf_size p \<and> p_line_len p \<le> buf_size p
     \<and> (p_line_spill_enabled p \<longrightarrow> p_type p = CHTTP1_PARSE_RESPONSE) \<and> (p_line_spill p \<noteq> None \<longrightarrow> p_line_spill_enabled p)
     \<and> heap_ok h \<and> live h = L \<union> spill_blks p \<and> L \<inter> spill_blks p = {}
     \<and> p_header_count p \<le> effective_max_header_count p
     \<and> p_total_header_bytes p \<le> effective_max_total_header_bytes p
     \<and> p_chunk_excess p \<le> CHTTP1_MAX_CHUNK_OVERHEAD_EXCESS
     \<and> p_leading_blank_lines p \<le> CHTTP1_MAX_LEADING_BLANK_LINES + 1"

lemmas base_defs = base_inv_def buf_size_def spill_blks_def line_ptr_def effective_max_header_count_def effective_max_total_header_bytes_def

lemma base_inv_cong:
  assumes "p_line_buf p = p_line_buf q" "p_line_spill p = p_line_spill q" "p_line_len p = p_line_len q" "p_type p = p_type q"
    "p_line_spill_enabled p = p_line_spill_enabled q" "p_header_count p = p_header_count q" "p_total_header_bytes p = p_total_header_bytes q"
    "p_max_header_count_override p = p_max_header_count_override q" "p_max_total_header_bytes_override p = p_max_total_header_bytes_override q"
    "p_chunk_excess p = p_chunk_excess q" "p_leading_blank_lines p = p_leading_blank_lines q"
  shows "base_inv L p h = base_inv L q h"
  by (simp only: base_defs assms)

lemma base_inv_update [simp]:
  "base_inv L (p\<lparr>p_status_code := c\<rparr>) h = base_inv L p h" "base_inv L (p\<lparr>p_reason := r\<rparr>) h = base_inv L p h"
  "base_inv L (p\<lparr>p_state := s\<rparr>) h = base_inv L p h" "base_inv L (p\<lparr>p_finish_state := f\<rparr>) h = base_inv L p h"
  "base_inv L (p\<lparr>p_http_major := m\<rparr>) h = base_inv L p h" "base_inv L (p\<lparr>p_http_minor := m\<rparr>) h = base_inv L p h"
  "base_inv L (p\<lparr>p_flags := fl\<rparr>) h = base_inv L p h" "base_inv L (p\<lparr>p_content_length := cl\<rparr>) h = base_inv L p h"
  "base_inv L (p\<lparr>p_host_count := hc\<rparr>) h = base_inv L p h" "base_inv L (p\<lparr>p_consumed := k\<rparr>) h = base_inv L p h"
  "base_inv L (set_reason x p) h = base_inv L p h" "base_inv L (set_flag fg p) h = base_inv L p h"
  by (rule base_inv_cong; simp add: set_reason_def set_flag_def)+

lemma view_update [simp]:
  "buf_size (p\<lparr>p_line_len := n\<rparr>) = buf_size p" "spill_blks (p\<lparr>p_line_len := n\<rparr>) = spill_blks p"
  "effective_max_header_count (p\<lparr>p_line_len := n\<rparr>) = effective_max_header_count p"
  "effective_max_total_header_bytes (p\<lparr>p_line_len := n\<rparr>) = effective_max_total_header_bytes p"
  "buf_size (p\<lparr>p_line_buf := b\<rparr>) = buf_size p" "spill_blks (p\<lparr>p_line_buf := b\<rparr>) = spill_blks p"
  "effective_max_header_count (p\<lparr>p_line_buf := b\<rparr>) = effective_max_header_count p"
  "effective_max_total_header_bytes (p\<lparr>p_line_buf := b\<rparr>) = effective_max_total_header_bytes p"
  "effective_max_header_count (p\<lparr>p_line_spill := x\<rparr>) = effective_max_header_count p"
  "effective_max_total_header_bytes (p\<lparr>p_line_spill := x\<rparr>) = effective_max_total_header_bytes p"
  by (simp_all add: buf_size_def spill_blks_def effective_max_header_count_def effective_max_total_header_bytes_def)

lemma base_inv_line_len: "base_inv L p h \<Longrightarrow> n \<le> buf_size p \<Longrightarrow> base_inv L (p\<lparr>p_line_len := n\<rparr>) h"
  by (simp add: base_inv_def)

lemmas line_defs = line_ptr_def buf_size_def spill_blks_def

lemma base_inv_line_0 [simp]: "base_inv L p h \<Longrightarrow> base_inv L (p\<lparr>p_line_len := 0\<rparr>) h"
  by (simp add: base_inv_line_len)

lemma base_inv_settle: "settle p = settle q \<Longrightarrow> base_inv L p h = base_inv L q h"
  by (rule base_inv_cong) (simp_all add: settle_eqD [of p q])

lemma buf_put_length: "buf_put s i bs = Some t \<Longrightarrow> length t = length s"
  by (auto simp: buf_put_def split: if_splits)

lemma line_store_base:
  assumes "base_inv L p h" "len < buf_size p"
  obtains q where "line_store p len c = Some q" "base_inv L q h" "buf_size q = buf_size p"
proof (cases "p_line_spill p")
  case None
  then obtain s where "buf_put (p_line_buf p) len [c] = Some s" using assms by (simp add: buf_put_def base_inv_def line_defs)
  then show ?thesis using that [of "p\<lparr>p_line_buf := s\<rparr>"] assms None buf_put_length by (simp add: line_store_def base_inv_def line_defs)
next
  case (Some x)
  obtain b t where x: "x = (b, t)" by (cases x)
  then obtain s where "buf_put t len [c] = Some s" using assms Some by (simp add: buf_put_def base_inv_def line_defs)
  then show ?thesis using that [of "p\<lparr>p_line_spill := Some (b, s)\<rparr>"] assms Some x buf_put_length [of t len "[c]" s] by (simp add: line_store_def base_inv_def line_defs)
qed

lemma line_spill_grow_base:
  assumes "base_inv L p h"
  obtains g q h' where "line_spill_grow b p h = Some (g, q, h')" "base_inv L q h'" "p_line_len q = p_line_len p" "g \<longrightarrow> p_line_spill q \<noteq> None" "\<not> g \<longrightarrow> q = p"
proof (cases "\<not> p_line_spill_enabled p \<or> p_line_spill p \<noteq> None \<or> b \<le> CHTTP1_MAX_LINE_LEN")
  case True
  then have "line_spill_grow b p h = Some (False, p, h)" by (auto simp: line_spill_grow_def)
  then show ?thesis using that assms by blast
next
  case False
  obtain r h1 where al: "mem_alloc h CHTTP1_MAX_SPILL_LINE_LEN = (r, h1)" by fastforce
  show ?thesis
  proof (cases r)
    case None
    then have "heap_ok h1" "live h1 = live h" using al mem_alloc_None [of h _ h1] assms by (auto simp: heap_ok_def base_inv_def)
    then have "base_inv L p h1" using assms by (simp add: base_inv_def)
    then show ?thesis using that [of False p h1] False al None by (auto simp: line_spill_grow_def)
  next
    case (Some x)
    obtain blk s where x: "x = (blk, s)" by (cases x)
    note m = mem_alloc_Some [OF al [unfolded Some x]]
    have le: "length (take (p_line_len p) (p_line_buf p)) \<le> length s"
      using assms m by (simp add: base_inv_def CHTTP1_MAX_LINE_LEN_def CHTTP1_MAX_SPILL_LINE_LEN_def)
    then obtain t where t: "buf_put s 0 (take (p_line_len p) (p_line_buf p)) = Some t" by (simp add: buf_put_def)
    have fresh: "blk \<notin> live h" "heap_ok h1" using m assms by (auto simp: base_inv_def heap_ok_def less_Suc_eq)
    have len: "length t = CHTTP1_MAX_SPILL_LINE_LEN" using buf_put_length [OF t] m by simp
    have none: "p_line_spill p = None" using False by blast
    then have "p_line_len p \<le> CHTTP1_MAX_SPILL_LINE_LEN" using assms by (simp add: base_inv_def line_defs CHTTP1_MAX_LINE_LEN_def CHTTP1_MAX_SPILL_LINE_LEN_def)
    then have base: "base_inv L (p\<lparr>p_line_spill := Some (blk, t)\<rparr>) h1" using assms False none m fresh len by (auto simp: base_inv_def line_defs)
    have "line_spill_grow b p h = Some (True, p\<lparr>p_line_spill := Some (blk, t)\<rparr>, h1)"
      using False none al Some x t by (simp add: line_spill_grow_def)
    moreover have "p_line_len (p\<lparr>p_line_spill := Some (blk, t)\<rparr>) = p_line_len p" by simp
    moreover have "True \<longrightarrow> p_line_spill (p\<lparr>p_line_spill := Some (blk, t)\<rparr>) \<noteq> None" by simp
    ultimately show ?thesis using that [of True] base by blast
  qed
qed

lemma spill_cap_le: "spill_cap b \<le> CHTTP1_MAX_SPILL_LINE_LEN"
  by (simp add: spill_cap_def)

lemma accumulate_loop_base:
  assumes "base_inv L (p\<lparr>p_line_len := len\<rparr>) h" "cap \<le> buf_size p"
  shows "\<exists>r d' p' h'. accumulate_loop b cap len d p h = Some (r, d', p', h') \<and> base_inv L p' h'"
  using assms
proof (induction b cap len d p h rule: accumulate_loop.induct)
  case (1 b cap len p h)
  then show ?case by (simp add: accumulate_loop.simps)
next
  case (2 b cap len c d p h)
  let ?p = "p\<lparr>p_line_len := len\<rparr>"
  show ?case
  proof (cases "len \<ge> cap")
    case True
    show ?thesis
    proof (cases "b = 0")
      case bz: True
      then show ?thesis using accumulate_full [OF True, of b p h ?p h c d] 2(3) by simp
    next
      case bz: False
      obtain g q h1 where g: "line_spill_grow b ?p h = Some (g, q, h1)" "base_inv L q h1" "p_line_len q = p_line_len ?p" "g \<longrightarrow> p_line_spill q \<noteq> None"
        using line_spill_grow_base [OF 2(3)] by metis
      show ?thesis
      proof (cases g)
        case gr: True
        have "base_inv L (q\<lparr>p_line_len := len\<rparr>) h1" using base_inv_line_len [OF g(2), of len] g(2,3) by (simp add: base_inv_def)
        moreover have "spill_cap b \<le> buf_size q" using g(4) gr spill_cap_le by (auto simp: buf_size_def)
        ultimately show ?thesis using 2(1) [OF True, of "(True, q, h1)" True "(q, h1)" q h1] g gr bz accumulate_grow [OF True bz, of p h q h1 c d] by simp
      next
        case gr: False
        then show ?thesis using accumulate_full [OF True, of b p h q h1 c d] g bz by simp
      qed
    qed
  next
    case False
    have b0: "base_inv L ?p h" and lt: "len < buf_size p" using 2(3,4) False by simp_all
    have "p\<lparr>p_line_len := 0\<rparr> = ?p\<lparr>p_line_len := 0\<rparr>" by simp
    obtain q where q: "line_store ?p len c = Some q" "base_inv L q h" "buf_size q = buf_size ?p"
      using line_store_base [OF b0, of len c] lt by (auto simp: buf_size_def)
    obtain q0 where q0: "line_store p len c = Some q0" "q = q0\<lparr>p_line_len := len\<rparr>" using q(1) by (auto simp: line_store_len)
    have sz: "buf_size q0 = buf_size p" using q(3) q0(2) by (simp add: buf_size_def)
    have base: "base_inv L (q0\<lparr>p_line_len := n\<rparr>) h" if "n \<le> buf_size p" for n
      using base_inv_line_len [OF q(2), of n] that q0(2) sz by (simp add: buf_size_def)
    show ?thesis
    proof (cases "c = 10")
      case True
      have "length (line_ptr q0) = buf_size p" using q(2) q0(2) sz by (simp add: base_inv_def buf_size_def)
      then have rd: "rd (take (len + 1) (line_ptr q0)) (len - 1) \<noteq> None" using lt by (auto simp: rd_def)
      have q10: "line_store p len 10 = Some q0" using q0(1) True by simp
      consider (bad) "len = 0 \<or> (\<exists>e. rd (take (len + 1) (line_ptr q0)) (len - 1) = Some e \<and> e \<noteq> 13)"
        | (ready) "0 < len" "rd (take (len + 1) (line_ptr q0)) (len - 1) = Some 13" using rd by force
      then show ?thesis
      proof cases
        case bad
        then show ?thesis using accumulate_bad [OF _ q10 bad, of cap b d h] False True base [of "len + 1"] lt by auto
      next
        case ready
        then show ?thesis using accumulate_ready [OF _ q10 ready, of cap b d h] False True base [of "len - 1"] lt by auto
      qed
    next
      case c: False
      have "base_inv L (q0\<lparr>p_line_len := len + 1\<rparr>) h" using base lt by simp
      then show ?thesis using 2(2) [OF False q0(1) c] accumulate_char [OF _ q0(1) c, of cap b d h] False sz 2(4) by simp
    qed
  qed
qed

lemma accumulate_line_base:
  assumes "base_inv L p h"
  shows "\<exists>r d' p' h'. accumulate_line b d p h = Some (r, d', p', h') \<and> base_inv L p' h'"
proof -
  have "line_cap b p \<le> buf_size p" using spill_cap_le by (simp add: line_cap_def buf_size_def)
  moreover have "p\<lparr>p_line_len := p_line_len p\<rparr> = p" by simp
  ultimately show ?thesis using accumulate_loop_base [where p = p and len = "p_line_len p" and cap = "line_cap b p" and b = b and d = d and L = L and h = h] assms by (simp add: accumulate_line_eq)
qed

end
