(* ===== verification/CCol_Http1_Spec.thy ===== *)
theory CCol_Http1_Spec
  imports CCol_Http1_Inv
begin

text \<open>
  The properties of the parser of \<^verbatim>\<open>chttp1_parser.c\<close>: every call ends, touches no memory
  outside its line and keeps the invariant of the theory before; cutting the input into
  buffers changes nothing; and what the parser reports of a body is what the framing says.
\<close>

section \<open>A turn keeps the invariant\<close>

lemma set_reason_fields [simp]: "p_state (set_reason r p) = p_state p" "p_type (set_reason r p) = p_type p"
  by (simp_all add: set_reason_def)

lemma base_invI:
  assumes "base_inv L p h" "p_line_buf q = p_line_buf p" "p_line_spill q = p_line_spill p" "p_line_len q = p_line_len p" "p_type q = p_type p"
    "p_line_spill_enabled q = p_line_spill_enabled p" "p_max_header_count_override q = p_max_header_count_override p"
    "p_max_total_header_bytes_override q = p_max_total_header_bytes_override p"
    "p_header_count q \<le> effective_max_header_count p" "p_total_header_bytes q \<le> effective_max_total_header_bytes p"
    "p_chunk_excess q \<le> CHTTP1_MAX_CHUNK_OVERHEAD_EXCESS" "p_leading_blank_lines q \<le> CHTTP1_MAX_LEADING_BLANK_LINES + 1"
  shows "base_inv L q h"
proof -
  have "line_ptr q = line_ptr p" "buf_size q = buf_size p" "spill_blks q = spill_blks p"
    "effective_max_header_count q = effective_max_header_count p" "effective_max_total_header_bytes q = effective_max_total_header_bytes p"
    by (simp_all only: base_defs assms(2-8))
  then show ?thesis using assms by (simp add: base_inv_def)
qed

lemma base_invD:
  assumes "base_inv L p h"
  shows "p_header_count p \<le> effective_max_header_count p" "p_total_header_bytes p \<le> effective_max_total_header_bytes p"
    "p_chunk_excess p \<le> CHTTP1_MAX_CHUNK_OVERHEAD_EXCESS" "p_leading_blank_lines p \<le> Suc CHTTP1_MAX_LEADING_BLANK_LINES"
  using assms by (simp_all add: base_inv_def)

lemma flags_update [simp]:
  "has_flag (p\<lparr>p_state := s\<rparr>) f = has_flag p f" "has_flag (p\<lparr>p_finish_state := fs\<rparr>) f = has_flag p f"
  "has_flag (p\<lparr>p_content_length := n\<rparr>) f = has_flag p f" "is_1_1_or_later (p\<lparr>p_state := s\<rparr>) = is_1_1_or_later p"
  "is_1_1_or_later (p\<lparr>p_finish_state := fs\<rparr>) = is_1_1_or_later p" "is_1_1_or_later (p\<lparr>p_content_length := n\<rparr>) = is_1_1_or_later p"
  by (simp_all add: has_flag_def is_1_1_or_later_def)

lemma state_kinds [simp]:
  "head_state CHTTP1_ST_FIRST_LINE" "head_state CHTTP1_ST_HEADERS" "\<not> head_state CHTTP1_ST_BODY_CONTENT_LENGTH" "\<not> head_state CHTTP1_ST_BODY_CHUNK_SIZE"
  "\<not> head_state CHTTP1_ST_BODY_CHUNK_DATA" "\<not> head_state CHTTP1_ST_BODY_CHUNK_CRLF" "\<not> head_state CHTTP1_ST_BODY_CHUNK_TRAILERS"
  "\<not> head_state CHTTP1_ST_BODY_EOF" "\<not> head_state CHTTP1_ST_MESSAGE_DONE"
  "\<not> chunk_state CHTTP1_ST_FIRST_LINE" "\<not> chunk_state CHTTP1_ST_HEADERS" "\<not> chunk_state CHTTP1_ST_BODY_CONTENT_LENGTH" "chunk_state CHTTP1_ST_BODY_CHUNK_SIZE"
  "chunk_state CHTTP1_ST_BODY_CHUNK_DATA" "chunk_state CHTTP1_ST_BODY_CHUNK_CRLF" "chunk_state CHTTP1_ST_BODY_CHUNK_TRAILERS"
  "\<not> chunk_state CHTTP1_ST_BODY_EOF" "\<not> chunk_state CHTTP1_ST_MESSAGE_DONE" "\<not> head_state CHTTP1_ST_DEAD" "\<not> chunk_state CHTTP1_ST_DEAD"
  by (simp_all add: head_state_def chunk_state_def)

definition live_ok :: "chttp1_parser \<Rightarrow> bool" where
  "live_ok p \<longleftrightarrow> framing_ok p \<and> p_leading_blank_lines p \<le> CHTTP1_MAX_LEADING_BLANK_LINES"

definition http1_inv :: "nat set \<Rightarrow> chttp1_parser \<Rightarrow> heap \<Rightarrow> bool" where
  "http1_inv L p h \<longleftrightarrow> base_inv L p h \<and> (p_state p \<noteq> CHTTP1_ST_DEAD \<longrightarrow> live_ok p)"

definition turn_ok :: "nat set \<Rightarrow> size_t \<Rightarrow> 'u turn \<Rightarrow> bool" where
  "turn_ok L n t \<longleftrightarrow>
     (\<exists>r d p u h. t = Some (r, d, p, u, h) \<and> http1_inv L p h
        \<and> (r = Some CHTTP1_PAUSED \<longrightarrow> p_state p = CHTTP1_ST_MESSAGE_DONE)
        \<and> (r = Some CHTTP1_PAUSED \<or> r = Some CHTTP1_HEADERS_ONLY \<longrightarrow> p_consumed p = n - length d)
        \<and> (r = Some CHTTP1_ERROR \<or> r = Some CHTTP1_USER \<longrightarrow> p_state p = CHTTP1_ST_DEAD))"

lemma turn_ok_fail [simp]:
  "turn_ok L n (return_with (fail r p) d u h) = base_inv L p h" "turn_ok L n (return_with (fail_already_set p) d u h) = base_inv L p h"
  "turn_ok L n (return_with (user_error p) d u h) = base_inv L p h" "turn_ok L n (Some (None, d, p, u, h)) = http1_inv L p h"
  by (auto simp: turn_ok_def return_with_def fail_def fail_already_set_def user_error_def http1_inv_def Let_def)

lemma framing_ok_cong:
  assumes "p_flags p = p_flags q" "p_state p = p_state q" "p_finish_state p = p_finish_state q" "p_content_length p = p_content_length q"
    "p_type p = p_type q" "p_host_count p = p_host_count q" "p_http_major p = p_http_major q" "p_http_minor p = p_http_minor q"
  shows "framing_ok p = framing_ok q"
  by (simp only: framing_ok_def has_flag_def is_1_1_or_later_def assms)

lemma framing_ok_update [simp]:
  "framing_ok (p\<lparr>p_line_len := n\<rparr>) = framing_ok p" "framing_ok (p\<lparr>p_consumed := k\<rparr>) = framing_ok p"
  "framing_ok (count_line c p) = framing_ok p" "framing_ok (p\<lparr>p_leading_blank_lines := b\<rparr>) = framing_ok p"
  "framing_ok (p\<lparr>p_chunk_excess := x\<rparr>) = framing_ok p"
  by (rule framing_ok_cong; simp add: count_line_def)+

lemma return_complete_ok:
  assumes "base_inv L p h" "live_ok (p\<lparr>p_state := CHTTP1_ST_MESSAGE_DONE\<rparr>)"
  shows "turn_ok L n (return_complete st n d p u h)"
proof -
  obtain e u1 where e: "call_back st on_message_complete (\<lambda>f. f p) u = (e, u1)" by fastforce
  have "framing_ok (p\<lparr>p_consumed := n - length d, p_state := CHTTP1_ST_MESSAGE_DONE\<rparr>) = framing_ok (p\<lparr>p_state := CHTTP1_ST_MESSAGE_DONE\<rparr>)"
    by (rule framing_ok_cong) simp_all
  then show ?thesis using e assms
    by (cases "e = 0") (auto simp: return_complete_def complete_message_def return_with_def turn_ok_def http1_inv_def live_ok_def user_error_def Let_def)
qed

text \<open>The first line sets the version, or the status, and nothing else.\<close>

definition plain :: "chttp1_parser \<Rightarrow> chttp1_parser" where
  "plain p = p\<lparr>p_http_major := 0, p_http_minor := 0, p_status_code := 0, p_reason := None\<rparr>"

lemma plain_simps [simp]:
  "plain (set_reason r p) = plain p" "plain (p\<lparr>p_http_major := m\<rparr>) = plain p" "plain (p\<lparr>p_http_minor := m\<rparr>) = plain p"
  "plain (p\<lparr>p_status_code := c\<rparr>) = plain p"
  by (simp_all add: plain_def set_reason_def)

lemma plain_eqD:
  assumes "plain p = plain q"
  shows "p_flags p = p_flags q" "p_state p = p_state q" "p_finish_state p = p_finish_state q" "p_content_length p = p_content_length q"
    "p_type p = p_type q" "p_host_count p = p_host_count q" "p_line_buf p = p_line_buf q" "p_line_spill p = p_line_spill q" "p_line_len p = p_line_len q"
    "p_line_spill_enabled p = p_line_spill_enabled q" "p_header_count p = p_header_count q" "p_total_header_bytes p = p_total_header_bytes q"
    "p_max_header_count_override p = p_max_header_count_override q" "p_max_total_header_bytes_override p = p_max_total_header_bytes_override q"
    "p_chunk_excess p = p_chunk_excess q" "p_leading_blank_lines p = p_leading_blank_lines q"
  using assms by (cases p; cases q; simp add: plain_def)+

lemma base_inv_plain: "plain p = plain q \<Longrightarrow> base_inv L p h = base_inv L q h"
  by (rule base_inv_cong) (simp_all add: plain_eqD [of p q])

lemma parse_version_plain: "parse_version s i p = Some (ok, q) \<Longrightarrow> plain q = plain p"
  by (auto simp: parse_version_def Let_def split: bind_splits if_splits)

lemma parse_status_line_plain: "parse_status_line p = Some (ok, q) \<Longrightarrow> plain q = plain p"
  by (auto simp: parse_status_line_def parse_status_code_def Let_def dest!: parse_version_plain split: bind_splits if_splits)

lemma parse_request_line_plain:
  assumes "parse_request_line st p u = Some (r, q, u')"
  shows "plain q = plain p"
proof -
  let ?v = "drop 1 (dropWhile (\<lambda>c. c \<noteq> 32) (drop 1 (dropWhile (\<lambda>c. c \<noteq> 32) (take (p_line_len p) (p_line_buf p)))))"
  show ?thesis
  proof (cases "parse_version ?v 5 p")
    case None
    then show ?thesis using assms unfolding parse_request_line_def Let_def None by (simp split: if_splits) (auto simp only: plain_simps)
  next
    case (Some x)
    obtain ok q1 where x: "x = (ok, q1)" by (cases x)
    have "plain q1 = plain p" using parse_version_plain Some x by blast
    then show ?thesis using assms unfolding parse_request_line_def Let_def Some x
      by (simp split: if_splits prod.splits) (auto simp only: plain_simps)
  qed
qed

lemma framing_ok_first_line:
  assumes "framing_ok p" "p_state p = CHTTP1_ST_FIRST_LINE" "plain q = plain p"
  shows "framing_ok (q\<lparr>p_line_len := 0, p_finish_state := CHTTP1_FINISH_UNSAFE, p_state := CHTTP1_ST_HEADERS\<rparr>)"
  using assms(1,2) plain_eqD [OF assms(3)] by (simp add: framing_ok_def has_flag_def head_state_def chunk_state_def)

lemma first_line_ok:
  assumes "http1_inv L p h" "p_state p = CHTTP1_ST_FIRST_LINE"
  shows "turn_ok L n (first_line_ready st d p u h)"
proof -
  have base: "base_inv L p h" and fr: "framing_ok p" and le: "p_leading_blank_lines p \<le> CHTTP1_MAX_LEADING_BLANK_LINES"
    using assms by (simp_all add: http1_inv_def live_ok_def)
  let ?c = "sz_add (p_line_len p) 2"
  let ?p = "p\<lparr>p_total_header_bytes := sz_add (p_total_header_bytes p) ?c\<rparr>"
  consider (blank) "p_type p = CHTTP1_PARSE_REQUEST \<and> p_line_len p = 0"
    | (large) "\<not> (p_type p = CHTTP1_PARSE_REQUEST \<and> p_line_len p = 0)" "sz_add (p_total_header_bytes p) ?c > effective_max_total_header_bytes p"
    | (line) "\<not> (p_type p = CHTTP1_PARSE_REQUEST \<and> p_line_len p = 0)" "sz_add (p_total_header_bytes p) ?c \<le> effective_max_total_header_bytes p"
    by linarith
  then show ?thesis
  proof cases
    case blank
    let ?q = "p\<lparr>p_leading_blank_lines := p_leading_blank_lines p + 1\<rparr>"
    have q: "base_inv L ?q h" if "p_leading_blank_lines p \<le> CHTTP1_MAX_LEADING_BLANK_LINES"
      by (rule base_invI [OF base]) (simp_all add: base_invD [OF base] that)
    show ?thesis using q [OF le] fr blank by (simp add: first_line_ready_def Let_def http1_inv_def live_ok_def)
  next
    case large
    then show ?thesis using base by (auto simp: first_line_ready_def Let_def)
  next
    case line
    have b: "base_inv L ?p h" by (rule base_invI [OF base]) (simp_all add: base_invD [OF base] line(2))
    have nxt: "http1_inv L (q\<lparr>p_line_len := 0, p_finish_state := CHTTP1_FINISH_UNSAFE, p_state := CHTTP1_ST_HEADERS\<rparr>) h" if "plain q = plain ?p" for q
    proof -
      have "framing_ok ?p" using fr framing_ok_cong [of ?p p] by simp
      then show ?thesis using that b base_inv_plain [OF that] framing_ok_first_line [OF _ _ that] assms(2) plain_eqD(16) [OF that] le
        by (simp add: http1_inv_def live_ok_def)
    qed
    show ?thesis
    proof (cases "p_type p = CHTTP1_PARSE_REQUEST")
      case True
      obtain r q u' where q: "parse_request_line st ?p u = Some (r, q, u')" using parse_request_line_total [of st ?p u] by blast
      have pl: "plain q = plain ?p" using parse_request_line_plain [OF q] .
      show ?thesis using line True q nxt [OF pl] b base_inv_plain [OF pl]
        by (cases r) (simp_all add: first_line_ready_def Let_def)
    next
      case False
      obtain ok q where q: "parse_status_line ?p = Some (ok, q)" using parse_status_line_total by blast
      have pl: "plain q = plain ?p" using parse_status_line_plain [OF q] .
      show ?thesis using line False q nxt [OF pl] b base_inv_plain [OF pl]
        by (cases ok) (simp_all add: first_line_ready_def Let_def)
    qed
  qed
qed

text \<open>A field line that is accepted is charged to the caps; a header line may set flags.\<close>

lemma process_header_line_OK:
  assumes "process_header_line st t p u = Some (PH_OK, p', u')"
  shows "\<exists>q. p' = count_line (sz_add (p_line_len p) 2) q \<and> settle q = settle p
    \<and> sz_add (p_header_count p) 1 \<le> effective_max_header_count p
    \<and> sz_add (p_total_header_bytes p) (sz_add (p_line_len p) 2) \<le> effective_max_total_header_bytes p
    \<and> (if t then q = p else (\<exists>name v. header_framing name v p = Some (True, q)) \<and> \<not> (has_flag q F_CONTENT_LENGTH \<and> has_flag q F_CHUNKED))"
  using assms unfolding process_header_line_def Let_def
  by (cases t) (auto dest: header_framing_settle split: bind_splits if_splits prod.splits)

lemma process_header_line_bad:
  assumes "process_header_line st t p u = Some (r, p', u')" "r \<noteq> PH_OK"
  shows "settle p' = settle p"
  using assms unfolding process_header_line_def Let_def
  by (cases t) (auto dest: header_framing_settle split: bind_splits if_splits prod.splits)

lemma framing_ok_header:
  assumes "framing_ok p" "p_state p = CHTTP1_ST_HEADERS" "header_framing name v p = Some (True, q)" "\<not> (has_flag q F_CONTENT_LENGTH \<and> has_flag q F_CHUNKED)"
  shows "framing_ok q"
proof -
  note s = settle_eqD [OF header_framing_settle [OF assms(3)]]
  have "has_flag p F_CHUNKED \<longrightarrow> has_flag p F_TRANSFER_ENCODING" using assms(1) by (simp add: framing_ok_def)
  note f = header_framing_flags [OF assms(3) this]
  show ?thesis using assms(1,2,4) f s unfolding framing_ok_def head_state_def chunk_state_def by simp
qed

lemma field_line_ok:
  assumes "http1_inv L p h" "p_state p = (if t then CHTTP1_ST_BODY_CHUNK_TRAILERS else CHTTP1_ST_HEADERS)"
  shows "turn_ok L n (field_line st t d p u h)"
proof -
  have base: "base_inv L p h" and fr: "framing_ok p" and le: "p_leading_blank_lines p \<le> CHTTP1_MAX_LEADING_BLANK_LINES"
    using assms by (auto simp: http1_inv_def live_ok_def split: if_splits)
  obtain r p' u' where pr: "process_header_line st t p u = Some (r, p', u')" using process_header_line_total [of st t p u] by blast
  show ?thesis
  proof (cases "r = PH_OK")
    case False
    have "base_inv L p' h" using base base_inv_settle [OF process_header_line_bad [OF pr False]] by simp
    then show ?thesis using pr False by (cases r) (simp_all add: field_line_def)
  next
    case True
    obtain q where q: "p' = count_line (sz_add (p_line_len p) 2) q" "settle q = settle p"
        "sz_add (p_header_count p) 1 \<le> effective_max_header_count p" "sz_add (p_total_header_bytes p) (sz_add (p_line_len p) 2) \<le> effective_max_total_header_bytes p"
        "if t then q = p else (\<exists>name v. header_framing name v p = Some (True, q)) \<and> \<not> (has_flag q F_CONTENT_LENGTH \<and> has_flag q F_CHUNKED)"
      using process_header_line_OK [OF pr [unfolded True]] by blast
    note s = settle_eqD [OF q(2)]
    have fq: "framing_ok q" using q(5) fr framing_ok_header assms(2) by (cases t) auto
    have "base_inv L p' h" unfolding q(1) by (rule base_invI [OF base]) (use q(3,4) base_invD [OF base] in \<open>simp_all add: count_line_def s\<close>)
    then have "base_inv L (p'\<lparr>p_line_len := 0\<rparr>) h" by simp
    moreover have "p_leading_blank_lines p' = p_leading_blank_lines p" using q(1) s by (simp add: count_line_def)
    ultimately show ?thesis using pr True fq le q(1) by (simp add: field_line_def http1_inv_def live_ok_def)
  qed
qed

lemma chunk_size_shape:
  "(case x of None \<Rightarrow> (False, set_reason r1 p)
     | Some v \<Rightarrow> if c1 v then (False, set_reason r2 p) else if c2 v then (False, set_reason r3 (set_flag F_CHUNK_TOO_LARGE p))
         else if g v > m then (False, set_reason r4 p) else (True, p\<lparr>p_chunk_excess := g v, p_content_length := v\<rparr>)) = (ok, q)
   \<Longrightarrow> if ok then \<exists>y v. q = p\<lparr>p_chunk_excess := y, p_content_length := v\<rparr> \<and> y \<le> m
       else \<exists>r. q = set_reason r p \<or> q = set_reason r (set_flag F_CHUNK_TOO_LARGE p)"
  by (cases x) (auto simp: not_less split: if_splits)

lemma parse_chunk_size_line_cases:
  assumes "parse_chunk_size_line p = (ok, q)"
  shows "if ok then \<exists>y v. q = p\<lparr>p_chunk_excess := y, p_content_length := v\<rparr> \<and> y \<le> CHTTP1_MAX_CHUNK_OVERHEAD_EXCESS
    else \<exists>r. q = set_reason r p \<or> q = set_reason r (set_flag F_CHUNK_TOO_LARGE p)"
  by (rule chunk_size_shape [OF assms [unfolded parse_chunk_size_line_def Let_def]])

lemma framing_ok_chunk:
  assumes "framing_ok p" "p_state p = CHTTP1_ST_BODY_CHUNK_SIZE"
  shows "framing_ok (p\<lparr>p_content_length := v, p_state := (if v = 0 then CHTTP1_ST_BODY_CHUNK_TRAILERS else CHTTP1_ST_BODY_CHUNK_DATA)\<rparr>)"
  using assms by (cases "v = 0") (auto simp: framing_ok_def split: if_splits)

lemma chunk_size_ok:
  assumes "http1_inv L p h" "p_state p = CHTTP1_ST_BODY_CHUNK_SIZE"
  shows "turn_ok L n (chunk_size_ready d p u h)"
proof -
  have base: "base_inv L p h" and fr: "framing_ok p" and le: "p_leading_blank_lines p \<le> CHTTP1_MAX_LEADING_BLANK_LINES"
    using assms by (simp_all add: http1_inv_def live_ok_def)
  obtain ok q where q: "parse_chunk_size_line p = (ok, q)" by fastforce
  show ?thesis
  proof (cases ok)
    case False
    then have "base_inv L q h" using parse_chunk_size_line_cases [OF q] base by auto
    then show ?thesis using q False by (simp add: chunk_size_ready_def)
  next
    case True
    then obtain x v where x: "q = p\<lparr>p_chunk_excess := x, p_content_length := v\<rparr>" "x \<le> CHTTP1_MAX_CHUNK_OVERHEAD_EXCESS"
      using parse_chunk_size_line_cases [OF q] by auto
    have "base_inv L q h" unfolding x(1) by (rule base_invI [OF base]) (simp_all add: base_invD [OF base] x(2))
    moreover have "framing_ok (q\<lparr>p_line_len := 0, p_state := (if v = 0 then CHTTP1_ST_BODY_CHUNK_TRAILERS else CHTTP1_ST_BODY_CHUNK_DATA)\<rparr>)"
      unfolding x(1) by (rule iffD1 [OF framing_ok_cong framing_ok_chunk [OF fr assms(2), of v]]) simp_all
    ultimately show ?thesis using q True x(1) le by (simp add: chunk_size_ready_def http1_inv_def live_ok_def)
  qed
qed

lemma byte_le_1: "(x :: byte) \<le> 1 \<Longrightarrow> x \<noteq> 0 \<Longrightarrow> x = 1"
  by (simp add: word_le_nat_alt) (metis One_nat_def le_SucE le_zero_eq unat_1 unat_eq_zero word_unat_eq_iff)

text \<open>After the checks at the blank line the framing facts of the message hold.\<close>

definition headed :: "chttp1_parser \<Rightarrow> bool" where
  "headed p \<longleftrightarrow> \<not> (has_flag p F_CONTENT_LENGTH \<and> has_flag p F_CHUNKED) \<and> (has_flag p F_CHUNKED \<longrightarrow> has_flag p F_TRANSFER_ENCODING)
     \<and> has_flag p F_HEADERS_DONE
     \<and> (p_type p = CHTTP1_PARSE_REQUEST \<longrightarrow>
          (if is_1_1_or_later p then p_host_count p = 1 else p_host_count p \<le> 1 \<and> \<not> has_flag p F_TRANSFER_ENCODING)
          \<and> (has_flag p F_TRANSFER_ENCODING \<longrightarrow> has_flag p F_CHUNKED))"

lemma set_flag_fields [simp]:
  "p_type (set_flag f p) = p_type p" "p_host_count (set_flag f p) = p_host_count p" "p_http_major (set_flag f p) = p_http_major p"
  "p_http_minor (set_flag f p) = p_http_minor p" "p_leading_blank_lines (set_flag f p) = p_leading_blank_lines p"
  by (simp_all add: set_flag_def)

lemma headed_done:
  assumes "framing_ok p" "request_headers_ok p = None"
  shows "headed (set_flag F_HEADERS_DONE p)"
proof -
  have fl: "has_flag (set_flag F_HEADERS_DONE p) F_CONTENT_LENGTH = has_flag p F_CONTENT_LENGTH"
    "has_flag (set_flag F_HEADERS_DONE p) F_CHUNKED = has_flag p F_CHUNKED"
    "has_flag (set_flag F_HEADERS_DONE p) F_TRANSFER_ENCODING = has_flag p F_TRANSFER_ENCODING" "has_flag (set_flag F_HEADERS_DONE p) F_HEADERS_DONE"
    by (simp_all add: flag_simps)
  have v: "is_1_1_or_later (set_flag F_HEADERS_DONE p) = is_1_1_or_later p" by (simp add: is_1_1_or_later_def)
  have r: "p_host_count p \<le> 1 \<and> (is_1_1_or_later p \<longrightarrow> p_host_count p \<noteq> 0) \<and> (has_flag p F_TRANSFER_ENCODING \<longrightarrow> is_1_1_or_later p \<and> has_flag p F_CHUNKED)"
    if "p_type p = CHTTP1_PARSE_REQUEST"
    using assms(2) that by (auto simp: request_headers_ok_def not_less split: if_splits)
  have "\<not> (has_flag p F_CONTENT_LENGTH \<and> has_flag p F_CHUNKED) \<and> (has_flag p F_CHUNKED \<longrightarrow> has_flag p F_TRANSFER_ENCODING)"
    using assms(1) unfolding framing_ok_def by blast
  then show ?thesis unfolding headed_def fl v set_flag_fields using fl(4) r byte_le_1 [of "p_host_count p"] by auto
qed

lemma headed_framing:
  assumes "headed p"
  shows "framing_ok (p\<lparr>p_finish_state := CHTTP1_FINISH_SAFE, p_state := CHTTP1_ST_MESSAGE_DONE\<rparr>)"
    "has_flag p F_CHUNKED \<Longrightarrow> framing_ok (p\<lparr>p_state := CHTTP1_ST_BODY_CHUNK_SIZE, p_finish_state := CHTTP1_FINISH_UNSAFE\<rparr>)"
    "has_flag p F_CONTENT_LENGTH \<Longrightarrow> \<not> has_flag p F_CHUNKED \<Longrightarrow> \<not> has_flag p F_TRANSFER_ENCODING \<Longrightarrow> p_content_length p \<noteq> 0
       \<Longrightarrow> framing_ok (p\<lparr>p_state := CHTTP1_ST_BODY_CONTENT_LENGTH, p_finish_state := CHTTP1_FINISH_UNSAFE\<rparr>)"
    "\<not> has_flag p F_CONTENT_LENGTH \<Longrightarrow> \<not> has_flag p F_CHUNKED \<Longrightarrow> p_type p = CHTTP1_PARSE_RESPONSE
       \<Longrightarrow> framing_ok (p\<lparr>p_state := CHTTP1_ST_BODY_EOF, p_finish_state := CHTTP1_FINISH_SAFE_WITH_CB\<rparr>)"
  using assms by (auto simp: headed_def framing_ok_def split: if_splits)

lemma enter_body_ok:
  assumes "base_inv L p h" "headed p" "p_leading_blank_lines p \<le> CHTTP1_MAX_LEADING_BLANK_LINES"
  shows "turn_ok L n (enter_body st n nb w d p u h)"
proof -
  note f = headed_framing [OF assms(2)]
  have fin: "turn_ok L n (return_complete st n d (p\<lparr>p_finish_state := CHTTP1_FINISH_SAFE\<rparr>) u h)"
    by (rule return_complete_ok) (use assms(1,3) f(1) in \<open>simp_all add: live_ok_def\<close>)
  have div: "turn_ok L n (if w then return_with (CHTTP1_HEADERS_ONLY, q\<lparr>p_consumed := n - length d\<rparr>) d u h else Some (None, d, q, u, h))"
    if "base_inv L q h" "framing_ok q" "p_leading_blank_lines q \<le> CHTTP1_MAX_LEADING_BLANK_LINES" for q
    using that by (simp add: http1_inv_def live_ok_def) (simp add: turn_ok_def return_with_def http1_inv_def live_ok_def)
  show ?thesis
  proof (cases "nb \<or> \<not> has_flag p F_TRANSFER_ENCODING \<or> has_flag p F_CHUNKED \<or> \<not> has_flag p F_CONTENT_LENGTH")
    case False
    then show ?thesis using assms(1) by (simp add: enter_body_def)
  next
    case True
    consider (none) "nb" | (chunked) "\<not> nb" "has_flag p F_CHUNKED" | (zero) "\<not> nb" "\<not> has_flag p F_CHUNKED" "has_flag p F_CONTENT_LENGTH" "p_content_length p = 0" "\<not> has_flag p F_TRANSFER_ENCODING"
      | (counted) "\<not> nb" "\<not> has_flag p F_CHUNKED" "has_flag p F_CONTENT_LENGTH" "p_content_length p \<noteq> 0" "\<not> has_flag p F_TRANSFER_ENCODING"
      | (request) "\<not> nb" "\<not> has_flag p F_CHUNKED" "\<not> has_flag p F_CONTENT_LENGTH" "p_type p = CHTTP1_PARSE_REQUEST"
      | (eof) "\<not> nb" "\<not> has_flag p F_CHUNKED" "\<not> has_flag p F_CONTENT_LENGTH" "p_type p = CHTTP1_PARSE_RESPONSE"
      using True by (cases "p_type p") auto
    then show ?thesis
    proof cases
      case chunked
      then show ?thesis using div [of "p\<lparr>p_state := CHTTP1_ST_BODY_CHUNK_SIZE, p_finish_state := CHTTP1_FINISH_UNSAFE\<rparr>"] assms(1,3) f(2)
        by (simp add: enter_body_def Let_def)
    next
      case counted
      then show ?thesis using div [of "p\<lparr>p_state := CHTTP1_ST_BODY_CONTENT_LENGTH, p_finish_state := CHTTP1_FINISH_UNSAFE\<rparr>"] assms(1,3) f(3)
        by (simp add: enter_body_def Let_def)
    next
      case eof
      then show ?thesis using assms(1,3) f(4) by (simp add: enter_body_def Let_def http1_inv_def live_ok_def)
    qed (use fin in \<open>simp_all add: enter_body_def Let_def\<close>)
  qed
qed

lemma headers_done_ok:
  assumes "http1_inv L p h" "p_state p = CHTTP1_ST_HEADERS"
  shows "turn_ok L n (headers_done st n d p u h)"
proof (cases "request_headers_ok p")
  case (Some r)
  then show ?thesis using assms(1) by (simp add: headers_done_def http1_inv_def)
next
  case None
  let ?p = "set_flag F_HEADERS_DONE p"
  obtain e u1 where e: "call_back st on_headers_complete (\<lambda>f. f ?p) u = (e, u1)" by fastforce
  have "headed ?p" "base_inv L ?p h" "p_leading_blank_lines ?p \<le> CHTTP1_MAX_LEADING_BLANK_LINES"
    using headed_done [OF _ None] assms by (simp_all add: http1_inv_def live_ok_def)
  then show ?thesis using None e enter_body_ok [of L ?p h n st _ _ d u1] by (simp add: headers_done_def Let_def)
qed

lemma framing_ok_done:
  assumes "framing_ok p" "\<not> head_state (p_state p)"
  shows "framing_ok (p\<lparr>p_finish_state := CHTTP1_FINISH_SAFE, p_state := CHTTP1_ST_MESSAGE_DONE\<rparr>)"
  using assms by (auto simp: framing_ok_def split: if_splits)

lemma framing_ok_next_chunk:
  assumes "framing_ok p" "p_state p = CHTTP1_ST_BODY_CHUNK_CRLF"
  shows "framing_ok (p\<lparr>p_state := CHTTP1_ST_BODY_CHUNK_SIZE\<rparr>)"
  using assms by (auto simp: framing_ok_def split: if_splits)

definition line_state :: "chttp1_state \<Rightarrow> bool" where
  "line_state s \<longleftrightarrow> head_state s \<or> s \<in> set [CHTTP1_ST_BODY_CHUNK_SIZE, CHTTP1_ST_BODY_CHUNK_CRLF, CHTTP1_ST_BODY_CHUNK_TRAILERS]"

lemma line_ready_ok:
  assumes "http1_inv L p h" "line_state (p_state p)"
  shows "turn_ok L n (line_ready st n d p u h)"
proof (cases "p_state p")
  case CHTTP1_ST_FIRST_LINE
  then show ?thesis using first_line_ok [OF assms(1), of n st d u] by (simp add: line_ready_def)
next
  case CHTTP1_ST_HEADERS
  then show ?thesis using headers_done_ok [OF assms(1), of n st d u] field_line_ok [OF assms(1), of False n st d u] by (simp add: line_ready_def)
next
  case CHTTP1_ST_BODY_CHUNK_SIZE
  then show ?thesis using chunk_size_ok [OF assms(1), of n d u] by (simp add: line_ready_def)
next
  case CHTTP1_ST_BODY_CHUNK_CRLF
  then show ?thesis using assms(1) framing_ok_next_chunk [of p] by (simp add: line_ready_def http1_inv_def live_ok_def)
next
  case CHTTP1_ST_BODY_CHUNK_TRAILERS
  have "turn_ok L n (return_complete st n d (p\<lparr>p_finish_state := CHTTP1_FINISH_SAFE\<rparr>) u h)"
    by (rule return_complete_ok) (use assms(1) framing_ok_done [of p] CHTTP1_ST_BODY_CHUNK_TRAILERS in \<open>simp_all add: http1_inv_def live_ok_def\<close>)
  then show ?thesis using field_line_ok [OF assms(1), of True n st d u] CHTTP1_ST_BODY_CHUNK_TRAILERS by (simp add: line_ready_def)
qed (use assms(2) in \<open>simp_all add: line_state_def\<close>)

lemma http1_inv_strip:
  assumes "strip q = strip p" "live_ok p"
  shows "live_ok q"
  using assms(2) framing_ok_cong [of q p] strip_eqD [OF assms(1)] by (simp add: live_ok_def)

lemma line_turn_ok:
  assumes "http1_inv L p h" "line_state (p_state p)"
  shows "turn_ok L n (line_turn st n d p u h)"
proof -
  have base: "base_inv L p h" and lv: "live_ok p" using assms by (auto simp: http1_inv_def line_state_def)
  obtain r d' q h' where a: "accumulate_line (line_budget p) d p h = Some (r, d', q, h')" "base_inv L q h'"
    using accumulate_line_base [OF base] by blast
  have s: "strip q = strip p" using accumulate_loop_strip [OF a(1) [unfolded accumulate_line_eq]] .
  have i: "http1_inv L q h'" using a(2) http1_inv_strip [OF s lv] by (simp add: http1_inv_def)
  have l: "line_state (p_state q)" using assms(2) strip_eqD(1) [OF s] by simp
  show ?thesis using a i line_ready_ok [OF i l, of n st d' u] by (cases r) (simp_all add: line_turn_def)
qed

lemma counted_turn_ok:
  assumes "http1_inv L p h" "p_state p = CHTTP1_ST_BODY_CONTENT_LENGTH \<or> p_state p = CHTTP1_ST_BODY_CHUNK_DATA"
  shows "turn_ok L n (counted_turn st n d p u h)"
proof -
  have base: "base_inv L p h" and fr: "framing_ok p" and le: "p_leading_blank_lines p \<le> CHTTP1_MAX_LEADING_BLANK_LINES"
    using assms by (auto simp: http1_inv_def live_ok_def)
  define tk where "tk = (if length d < unat (p_content_length p) then length d else unat (p_content_length p))"
  obtain e u1 where e: "(if tk > 0 then call_back st on_body (\<lambda>f. f p (take tk d)) u else (0, u)) = (e, u1)" by fastforce
  let ?p = "p\<lparr>p_content_length := p_content_length p - of_nat tk\<rparr>"
  have eq: "counted_turn st n d p u h =
     (if e \<noteq> 0 then return_with (user_error p) d u1 h
      else if p_content_length ?p \<noteq> 0 then Some (None, drop tk d, ?p, u1, h)
      else if p_state p = CHTTP1_ST_BODY_CONTENT_LENGTH then return_complete st n (drop tk d) (?p\<lparr>p_finish_state := CHTTP1_FINISH_SAFE\<rparr>) u1 h
      else Some (None, drop tk d, ?p\<lparr>p_state := CHTTP1_ST_BODY_CHUNK_CRLF\<rparr>, u1, h))"
    unfolding counted_turn_def Let_def tk_def [symmetric] e by simp
  have b: "base_inv L ?p h" using base by simp
  have more: "framing_ok ?p" if "p_content_length ?p \<noteq> 0"
    using fr assms(2) that by (auto simp: framing_ok_def split: if_splits)
  have fin: "framing_ok (?p\<lparr>p_finish_state := CHTTP1_FINISH_SAFE, p_state := CHTTP1_ST_MESSAGE_DONE\<rparr>)"
    using fr assms(2) by (auto simp: framing_ok_def split: if_splits)
  have crlf: "framing_ok (?p\<lparr>p_state := CHTTP1_ST_BODY_CHUNK_CRLF\<rparr>)" if "p_state p = CHTTP1_ST_BODY_CHUNK_DATA"
    using fr that by (auto simp: framing_ok_def split: if_splits)
  have "turn_ok L n (return_complete st n (drop tk d) (?p\<lparr>p_finish_state := CHTTP1_FINISH_SAFE\<rparr>) u1 h)"
    by (rule return_complete_ok) (use b fin le in \<open>simp_all add: live_ok_def\<close>)
  then show ?thesis unfolding eq using base b more crlf le assms(2) by (auto simp: http1_inv_def live_ok_def)
qed

lemma chttp1_turn_ok:
  assumes "http1_inv L p h" "alive p"
  shows "turn_ok L n (chttp1_turn st n d p u h)"
proof (cases "p_state p = CHTTP1_ST_BODY_CONTENT_LENGTH \<or> p_state p = CHTTP1_ST_BODY_CHUNK_DATA")
  case True
  then show ?thesis using counted_turn_ok [OF assms(1) True, of n st d u] by (auto simp: chttp1_turn_def)
next
  case False
  show ?thesis
  proof (cases "p_state p = CHTTP1_ST_BODY_EOF")
    case True
    obtain e u1 where "call_back st on_body (\<lambda>f. f p d) u = (e, u1)" by fastforce
    then show ?thesis using True assms(1) by (simp add: chttp1_turn_def eof_turn_def http1_inv_def)
  next
    case eof: False
    have "line_state (p_state p)" using False eof assms(2) by (cases "p_state p") (auto simp: line_state_def alive_def)
    then show ?thesis using line_turn_ok [OF assms(1), of n st d u] by (cases "p_state p") (simp_all add: chttp1_turn_def line_state_def)
  qed
qed

section \<open>Calls keep the invariant\<close>

text \<open>What a call promises of its outcome, and what a caller that stops may rely on.\<close>

definition outcome_ok :: "nat set \<Rightarrow> size_t \<Rightarrow> chttp1_errno \<Rightarrow> chttp1_parser \<Rightarrow> heap \<Rightarrow> bool" where
  "outcome_ok L n e p h \<longleftrightarrow> http1_inv L p h
     \<and> (e = CHTTP1_OK \<longrightarrow> alive p) \<and> (e = CHTTP1_PAUSED \<longrightarrow> p_state p = CHTTP1_ST_MESSAGE_DONE)
     \<and> (e = CHTTP1_PAUSED \<or> e = CHTTP1_HEADERS_ONLY \<longrightarrow> p_consumed p \<le> n)
     \<and> (e = CHTTP1_ERROR \<or> e = CHTTP1_USER \<longrightarrow> p_state p = CHTTP1_ST_DEAD)"

lemma chttp1_loop_ok:
  assumes "http1_inv L p h" "alive p"
  shows "\<exists>e p' u' h'. chttp1_loop st n d p u h = Some (e, p', u', h') \<and> outcome_ok L n e p' h'"
  using assms
proof (induction st n d p u h rule: chttp1_loop.induct)
  case (1 st n d p u h)
  show ?case
  proof (cases "d = []")
    case False
    obtain r d1 p1 u1 h1 where t: "chttp1_turn st n d p u h = Some (r, d1, p1, u1, h1)" "http1_inv L p1 h1"
        "r = Some CHTTP1_PAUSED \<longrightarrow> p_state p1 = CHTTP1_ST_MESSAGE_DONE" "r = Some CHTTP1_PAUSED \<or> r = Some CHTTP1_HEADERS_ONLY \<longrightarrow> p_consumed p1 = n - length d1"
        "r = Some CHTTP1_ERROR \<or> r = Some CHTTP1_USER \<longrightarrow> p_state p1 = CHTTP1_ST_DEAD"
      using chttp1_turn_ok [OF 1(2,3), of n st d u] unfolding turn_ok_def by blast
    show ?thesis
    proof (cases r)
      case None
      have al: "alive p1" using chttp1_turn_alive [OF t(1) [unfolded None]] .
      show ?thesis using 1(1) [OF False t(1) refl None refl refl refl t(2) al] False t(1) None
        by (subst chttp1_loop.simps) simp
    next
      case (Some e)
      have "e \<noteq> CHTTP1_OK" using chttp1_turn_code [OF t(1) [unfolded Some]] .
      then show ?thesis using False t Some by (subst chttp1_loop.simps) (auto simp: outcome_ok_def)
    qed
  qed (use 1 in \<open>simp add: outcome_ok_def\<close>)
qed

lemma feed_ok:
  assumes "http1_inv L p h" "alive p"
  shows "\<exists>e p' u' h'. feed st ds p u h = Some (e, p', u', h') \<and> outcome_ok L (length (concat ds)) e p' h'"
  using assms
proof (induction ds arbitrary: p u h)
  case Nil
  then show ?case by (simp add: outcome_ok_def)
next
  case (Cons d ds)
  obtain e p1 u1 h1 where e: "chttp1_loop st (length d) d p u h = Some (e, p1, u1, h1)" "outcome_ok L (length d) e p1 h1"
    using chttp1_loop_ok [OF Cons(2,3), of st "length d" d u] by blast
  show ?case
  proof (cases "e = CHTTP1_OK")
    case False
    then show ?thesis using e Cons(3) by (auto simp: execute_alive outcome_ok_def)
  next
    case True
    obtain e2 p2 u2 h2 where f: "feed st ds p1 u1 h1 = Some (e2, p2, u2, h2)" "outcome_ok L (length (concat ds)) e2 p2 h2"
      using Cons(1) [of p1 h1 u1] e True by (auto simp: outcome_ok_def)
    have "http1_inv L (shifted (length d) e2 p2) h2" "p_state (shifted (length d) e2 p2) = p_state p2"
      using f(2) framing_ok_cong [of "shifted (length d) e2 p2" p2] by (auto simp: outcome_ok_def shifted_def http1_inv_def live_ok_def)
    then show ?thesis using e True Cons(3) f by (auto simp: execute_alive outcome_ok_def shifted_def alive_def)
  qed
qed

section \<open>Properties\<close>

text \<open>
  A parser as its caller sets it up: the initialisation for its kind over a struct whose
  line buffer may hold anything, the optional permission to spill, and the three optional
  limits.
\<close>

definition fresh_parser :: "chttp1_parser_type \<Rightarrow> bool \<Rightarrow> size_t \<Rightarrow> size_t \<Rightarrow> uint64 \<Rightarrow> chttp1_parser \<Rightarrow> chttp1_parser" where
  "fresh_parser t spill max_count max_bytes max_chunk p =
     (let p = (case t of CHTTP1_PARSE_REQUEST \<Rightarrow> chttp1_parser_init_request p | CHTTP1_PARSE_RESPONSE \<Rightarrow> chttp1_parser_init p);
          p = (if spill then the (snd (chttp1_parser_enable_line_spill (Some p))) else p)
      in p\<lparr>p_max_header_count_override := max_count, p_max_total_header_bytes_override := max_bytes, p_max_chunk_size_override := max_chunk\<rparr>)"

lemma fresh_parser_inv:
  assumes "length (p_line_buf p) = CHTTP1_MAX_LINE_LEN" "heap_ok h"
  shows "http1_inv (live h) (fresh_parser t spill c b k p) h" "alive (fresh_parser t spill c b k p)"
  using assms
  by (cases t; simp add: fresh_parser_def chttp1_parser_init_request_def chttp1_parser_init_def parser_init_common_def chttp1_parser_enable_line_spill_def
      http1_inv_def base_defs live_ok_def framing_ok_def has_flag_def alive_def Let_def)+

text \<open>A struct of zero bytes, and callbacks that only collect the body, for the witnesses.\<close>

definition blank_parser :: chttp1_parser where
  "blank_parser =
     \<lparr>p_status_code = 0, p_type = CHTTP1_PARSE_REQUEST, p_reason = None, p_state = CHTTP1_ST_FIRST_LINE,
      p_finish_state = CHTTP1_FINISH_SAFE, p_http_major = 0, p_http_minor = 0, p_flags = 0,
      p_content_length = 0, p_chunk_excess = 0, p_header_count = 0, p_total_header_bytes = 0,
      p_leading_blank_lines = 0, p_host_count = 0, p_line_spill_enabled = False,
      p_max_header_count_override = 0, p_max_total_header_bytes_override = 0,
      p_max_chunk_size_override = 0, p_line_len = 0, p_line_spill = None, p_consumed = 0,
      p_line_buf = replicate 8192 0\<rparr>"

definition body_settings :: "byte list chttp1_settings" where
  "body_settings =
     \<lparr>on_header = None, on_trailer = None, on_request_line = None, on_headers_complete = None,
      on_body = Some (\<lambda>_ c u. (0, u @ c)), on_message_complete = None\<rparr>"

lemma blank_parser_buf: "length (p_line_buf blank_parser) = CHTTP1_MAX_LINE_LEN"
  by (simp add: blank_parser_def CHTTP1_MAX_LINE_LEN_def)

lemma plain_heap_ok: "heap_ok plain_heap" "live plain_heap = {}"
  by (simp_all add: plain_heap_def heap_ok_def)

lemma body_settings_stream: "stream_body (Some body_settings)"
  by (auto simp: stream_body_def body_settings_def)

text \<open>
  Claim C5.  The parser is safe on every input.  Whatever bytes arrive, in whatever
  buffers, and whatever the callbacks answer, a parser that has been set up runs to an
  outcome: no byte is written outside the line buffers and none is read that the current
  line has not written, although the buffer is never cleared.  The header caps hold in
  every outcome, a completed message reports a position inside the input, a failed parser
  is dead, and releasing the parser leaves exactly the blocks that were live before it,
  also when the line had spilled or the allocator had refused the spill.
\<close>

theorem http1_parser_safe:
  assumes "length (p_line_buf p) = CHTTP1_MAX_LINE_LEN" "heap_ok h"
  shows "\<exists>e p' u' h'. feed st ds (fresh_parser t spill c b k p) u h = Some (e, p', u', h')
    \<and> (e = CHTTP1_OK \<longrightarrow> p_state p' \<noteq> CHTTP1_ST_DEAD \<and> p_state p' \<noteq> CHTTP1_ST_MESSAGE_DONE)
    \<and> (e = CHTTP1_PAUSED \<longrightarrow> chttp1_parser_message_complete p')
    \<and> (e = CHTTP1_PAUSED \<or> e = CHTTP1_HEADERS_ONLY \<longrightarrow> chttp1_parser_consumed p' \<le> length (concat ds))
    \<and> (e = CHTTP1_ERROR \<or> e = CHTTP1_USER \<longrightarrow> p_state p' = CHTTP1_ST_DEAD)
    \<and> p_header_count p' \<le> effective_max_header_count p' \<and> p_total_header_bytes p' \<le> effective_max_total_header_bytes p'
    \<and> live (snd (chttp1_parser_release (Some p') h')) = live h"
proof -
  obtain e p' u' h' where f: "feed st ds (fresh_parser t spill c b k p) u h = Some (e, p', u', h')" "outcome_ok (live h) (length (concat ds)) e p' h'"
    using feed_ok [OF fresh_parser_inv [OF assms], of st ds t spill c b k u] by blast
  have b: "base_inv (live h) p' h'" using f(2) by (simp add: outcome_ok_def http1_inv_def)
  have "live (snd (chttp1_parser_release (Some p') h')) = live h"
    using b by (cases "p_line_spill p'") (auto simp: chttp1_parser_release_def base_inv_def spill_blks_def mem_free_def)
  then show ?thesis using f b
    by (auto simp: outcome_ok_def alive_def base_inv_def chttp1_parser_message_complete_def chttp1_parser_consumed_def simp del: length_concat)
qed

theorem http1_parser_safe_witness:
  "\<exists>e p' u' h'. feed (Some body_settings) [lit ''PUT / HT'', lit ''TP/9''] (fresh_parser CHTTP1_PARSE_RESPONSE True 3 200 0 blank_parser) [] plain_heap = Some (e, p', u', h')
     \<and> p_header_count p' \<le> effective_max_header_count p' \<and> live (snd (chttp1_parser_release (Some p') h')) = {}"
  using http1_parser_safe [OF blank_parser_buf plain_heap_ok(1), of "Some body_settings" "[lit ''PUT / HT'', lit ''TP/9'']" CHTTP1_PARSE_RESPONSE True 3 200 0 "[]"] plain_heap_ok(2)
  by auto

text \<open>
  Claim C7.  Buffers do not matter.  However a caller cuts the bytes of a connection into
  calls, the parser ends with the same code, the same callbacks in the same order with the
  same arguments, the same parser, the same heap and the same position as if it had been
  given all the bytes in one call; only a body may be handed over in other pieces, which a
  body callback that treats its input as a stream cannot tell.
\<close>

theorem http1_feed_equiv:
  assumes "length (p_line_buf p) = CHTTP1_MAX_LINE_LEN" "heap_ok h" "stream_body st"
  shows "\<exists>r. feed st ds (fresh_parser t spill c b k p) u h = Some r
    \<and> seen (chttp1_parser_execute st (concat ds) (fresh_parser t spill c b k p) u h) = seen (Some r)"
proof -
  note i = fresh_parser_inv [OF assms(1,2), of t spill c b k]
  obtain r where "feed st ds (fresh_parser t spill c b k p) u h = Some r" using feed_ok [OF i, of st ds u] by blast
  then show ?thesis using feed_concat [OF i(2) assms(3)] by blast
qed

theorem http1_feed_equiv_witness:
  "\<exists>r. feed (Some body_settings) [lit ''PUT / HT'', [], lit ''TP/1.1''] (fresh_parser CHTTP1_PARSE_REQUEST False 0 0 0 blank_parser) [] plain_heap = Some r
     \<and> seen (chttp1_parser_execute (Some body_settings) (lit ''PUT / HTTP/1.1'') (fresh_parser CHTTP1_PARSE_REQUEST False 0 0 0 blank_parser) [] plain_heap) = seen (Some r)"
proof -
  have "concat [lit ''PUT / HT'', [], lit ''TP/1.1''] = lit ''PUT / HTTP/1.1''" by (simp add: lit_def)
  then show ?thesis
    using http1_feed_equiv [OF blank_parser_buf plain_heap_ok(1) body_settings_stream, of "[lit ''PUT / HT'', [], lit ''TP/1.1'']" CHTTP1_PARSE_REQUEST False 0 0 0 "[]"]
    by (simp only:)
qed

end
