(* ===== verification/CCol_Http1_Body.thy ===== *)
theory CCol_Http1_Body
  imports CCol_Http1_Spec
begin

text \<open>
  What the parser of \<^verbatim>\<open>chttp1_parser.c\<close> makes of the bytes of a body: the lengths that its
  integer parsers accept, and chunked bodies from their encoding back to their data.
\<close>

section \<open>Integers\<close>

lemma unat_MAX: "unat UINT64_MAX = 2 ^ 64 - 1"
  by (simp add: UINT64_MAX_def)

lemma u64_less: "unat (v :: uint64) < 2 ^ 64"
  using unsigned_less [of v, where ?'a = nat] by simp

lemma unat_byte_cast: "unat (ucast (c :: byte) :: uint64) = unat c"
  using unsigned_less [of c, where ?'a = nat] by (simp add: unsigned_ucast_eq take_bit_nat_eq_self)

text \<open>The two overflow checks of a step are exactly the check of its result.\<close>

lemma radix_step:
  fixes v d w :: uint64
  assumes "w \<noteq> 0"
  shows "(v \<le> UINT64_MAX div w \<and> v * w \<le> UINT64_MAX - d) \<longleftrightarrow> unat v * unat w + unat d < 2 ^ 64"
    and "unat v * unat w + unat d < 2 ^ 64 \<Longrightarrow> unat (v * w + d) = unat v * unat w + unat d"
proof -
  have w: "unat w > 0" using assms by (simp add: unat_gt_0)
  have dm: "unat (UINT64_MAX div w) = (2 ^ 64 - 1) div unat w" by (simp only: unat_div_distrib unat_MAX)
  have le1: "v \<le> UINT64_MAX div w \<longleftrightarrow> unat v * unat w \<le> 2 ^ 64 - 1"
    unfolding word_le_nat_alt dm using less_eq_div_iff_mult_less_eq [OF w] by simp
  have "d \<le> UINT64_MAX" using u64_less [of d] by (simp add: word_le_nat_alt unat_MAX)
  then have sub: "unat (UINT64_MAX - d) = 2 ^ 64 - 1 - unat d" by (simp add: unat_sub unat_MAX)
  have mul: "unat (v * w) = unat v * unat w" if "unat v * unat w \<le> 2 ^ 64 - 1"
    using that by (simp add: unat_mult_lem [THEN iffD1])
  show "(v \<le> UINT64_MAX div w \<and> v * w \<le> UINT64_MAX - d) \<longleftrightarrow> unat v * unat w + unat d < 2 ^ 64"
  proof (cases "unat v * unat w \<le> 2 ^ 64 - 1")
    case True
    then show ?thesis using le1 mul [OF True] sub u64_less [of d] by (auto simp: word_le_nat_alt)
  next
    case False
    then show ?thesis using le1 by auto
  qed
  show "unat (v * w + d) = unat v * unat w + unat d" if "unat v * unat w + unat d < 2 ^ 64"
    using that mul by (simp add: unat_word_ariths)
qed

fun dec_from :: "nat \<Rightarrow> byte list \<Rightarrow> nat" where
  "dec_from a [] = a"
| "dec_from a (c # s) = dec_from (a * 10 + (unat c - 48)) s"

definition dec_value :: "byte list \<Rightarrow> nat" where
  "dec_value s = dec_from 0 s"

lemma dec_from_ge: "a \<le> dec_from a s"
proof (induction s arbitrary: a)
  case (Cons c s)
  have "a \<le> a * 10 + (unat c - 48)" by simp
  also have "\<dots> \<le> dec_from (a * 10 + (unat c - 48)) s" by (rule Cons)
  finally show ?case by simp
qed simp

lemma digit_value: "is_digit c \<Longrightarrow> unat (ucast (c - 48) :: uint64) = unat c - 48"
  by (simp only: unat_byte_cast) (simp add: is_digit_def unat_sub)

lemma decimal_loop_correct:
  "decimal_loop v s =
     (if list_all is_digit s \<and> dec_from (unat v) s < 2 ^ 64 then Some (of_nat (dec_from (unat v) s)) else None)"
proof (induction s arbitrary: v)
  case Nil
  then show ?case using u64_less [of v] by simp
next
  case (Cons c s)
  show ?case
  proof (cases "is_digit c")
    case True
    let ?d = "ucast (c - 48) :: uint64" and ?n = "unat v * 10 + (unat c - 48)"
    have ten: "(10 :: uint64) \<noteq> 0" "unat (10 :: uint64) = 10" by simp_all
    note step = radix_step [OF ten(1), of v ?d, unfolded ten(2) digit_value [OF True]]
    show ?thesis
    proof (cases "?n < 2 ^ 64")
      case fits: True
      then have "\<not> UINT64_MAX div 10 < v" "\<not> UINT64_MAX - ?d < v * 10" using step(1) by (simp_all add: not_less)
      then have "decimal_loop v (c # s) = decimal_loop (v * 10 + ?d) s" using True by (simp add: Let_def)
      then show ?thesis using Cons [of "v * 10 + ?d"] True step(2) [OF fits] by simp
    next
      case False
      have "\<not> dec_from ?n s < 2 ^ 64" using dec_from_ge [of ?n s] False by linarith
      moreover have "UINT64_MAX div 10 < v \<or> UINT64_MAX - ?d < v * 10" using step(1) False by (simp add: not_le [symmetric])
      then have "decimal_loop v (c # s) = None" using True by (auto simp: Let_def)
      ultimately show ?thesis by simp
    qed
  qed simp
qed

text \<open>
  Claim C30.  Content lengths are read exactly.  The decimal parser accepts a non-empty run
  of digits whose value fits 64 bits, and gives that value; an empty text, any other byte
  and every value from \<open>2\<^sup>6\<^sup>4\<close> on are refused, so no length ever wraps around.
\<close>

theorem parse_decimal_exact:
  "parse_uint64_decimal s =
     (if s \<noteq> [] \<and> list_all is_digit s \<and> dec_value s < 2 ^ 64 then Some (of_nat (dec_value s)) else None)"
  by (simp add: parse_uint64_decimal_def decimal_loop_correct dec_value_def)

section \<open>Hexadecimal sizes\<close>

definition hex_digit :: "nat \<Rightarrow> byte" where
  "hex_digit n = of_nat (if n < 10 then 48 + n else 87 + n)"

fun to_hex :: "nat \<Rightarrow> byte list" where
  "to_hex n = (if n < 16 then [hex_digit n] else to_hex (n div 16) @ [hex_digit (n mod 16)])"

declare to_hex.simps [simp del]

lemma hex_digits: "\<forall>n \<in> set [0..<16]. hex_value (hex_digit n) = Some (of_nat n) \<and> hex_digit n \<noteq> 59 \<and> \<not> is_ows (hex_digit n) \<and> hex_digit n \<noteq> 10 \<and> hex_digit n \<noteq> 13"
  by code_simp

lemma hex_digit_facts:
  assumes "n < 16"
  shows "hex_value (hex_digit n) = Some (of_nat n)" "hex_digit n \<noteq> 59" "\<not> is_ows (hex_digit n)" "hex_digit n \<noteq> 10" "hex_digit n \<noteq> 13"
proof -
  have "n \<in> set [0..<16]" using assms by simp
  from hex_digits [rule_format, OF this] show "hex_value (hex_digit n) = Some (of_nat n)" "hex_digit n \<noteq> 59" "\<not> is_ows (hex_digit n)" "hex_digit n \<noteq> 10" "hex_digit n \<noteq> 13"
    by blast+
qed

lemma to_hex_nonempty: "to_hex n \<noteq> []"
  by (subst to_hex.simps) simp

lemma to_hex_set: "c \<in> set (to_hex n) \<Longrightarrow> c \<noteq> 59 \<and> \<not> is_ows c \<and> c \<noteq> 10 \<and> c \<noteq> 13"
proof (induction n rule: to_hex.induct)
  case (1 n)
  show ?case
  proof (cases "n < 16")
    case True
    then show ?thesis using 1(2) hex_digit_facts [OF True] by (simp add: to_hex.simps)
  next
    case False
    have "n mod 16 < 16" by simp
    note d = hex_digit_facts [OF this]
    show ?thesis using 1 False d by (subst (asm) (2) to_hex.simps) auto
  qed
qed

lemma hex_loop_append: "hex_loop v (s @ t) = Option.bind (hex_loop v s) (\<lambda>v. hex_loop v t)"
  by (induction v s rule: hex_loop.induct) (auto simp: Let_def split: option.splits)

lemma hex_loop_to_hex: "n < 2 ^ 64 \<Longrightarrow> hex_loop 0 (to_hex n) = Some (of_nat n)"
proof (induction n rule: to_hex.induct)
  case (1 n)
  have one: "hex_loop v [hex_digit m] = Some (v * 16 + of_nat m)" if m: "m < 16" "unat v * 16 + m < 2 ^ 64" for v m
  proof -
    have s: "(16 :: uint64) \<noteq> 0" "unat (16 :: uint64) = 16" by simp_all
    have um: "unat (of_nat m :: uint64) = m" using m(1) by (simp add: unat_of_nat)
    have "v \<le> UINT64_MAX div 16 \<and> v * 16 \<le> UINT64_MAX - of_nat m" using radix_step(1) [OF s(1), of v "of_nat m"] m(2) s(2) um by simp
    then show ?thesis using hex_digit_facts(1) [OF m(1)] by (simp add: not_less Let_def)
  qed
  show ?case
  proof (cases "n < 16")
    case True
    then show ?thesis using one [of n 0] by (simp add: to_hex.simps)
  next
    case False
    have lt: "n div 16 < 2 ^ 64" using 1(2) by simp
    have u: "unat (of_nat (n div 16) :: uint64) = n div 16" using lt by (simp add: unat_of_nat)
    have "(of_nat (n div 16) :: uint64) * 16 + of_nat (n mod 16) = of_nat n"
      by (metis div_mult_mod_eq of_nat_add of_nat_mult of_nat_numeral)
    moreover have "unat (of_nat (n div 16) :: uint64) * 16 + n mod 16 < 2 ^ 64" using u 1(2) by simp
    ultimately show ?thesis using 1(1) [OF False lt] one [of "n mod 16" "of_nat (n div 16)"] False
      by (subst to_hex.simps) (simp add: hex_loop_append)
  qed
qed

lemma parse_hex_to_hex: "n < 2 ^ 64 \<Longrightarrow> parse_uint64_hex (to_hex n) = Some (of_nat n)"
  by (simp add: parse_uint64_hex_def to_hex_nonempty hex_loop_to_hex)

lemma to_hex_length: "length (to_hex n) \<le> n + 1"
proof (induction n rule: to_hex.induct)
  case (1 n)
  show ?case
  proof (cases "n < 16")
    case False
    then show ?thesis using 1 by (subst to_hex.simps) simp
  qed (simp add: to_hex.simps)
qed

lemma to_hex_length_16: "n < 16 ^ k \<Longrightarrow> k > 0 \<Longrightarrow> length (to_hex n) \<le> k"
proof (induction k arbitrary: n)
  case (Suc k)
  show ?case
  proof (cases "n < 16")
    case False
    then have "k > 0" using Suc(2) by (cases k) auto
    moreover have "n div 16 < 16 ^ k" using Suc(2) by (simp add: less_mult_imp_div_less mult.commute)
    ultimately show ?thesis using Suc(1) [of "n div 16"] False by (subst to_hex.simps) simp
  qed (simp add: to_hex.simps)
qed simp

section \<open>Reading one line\<close>

lemma line_store_ptr:
  assumes "len < length (line_ptr p)"
  obtains q where "line_store p len c = Some q" "line_ptr q = take len (line_ptr p) @ c # drop (Suc len) (line_ptr p)"
proof (cases "p_line_spill p")
  case None
  let ?q = "p\<lparr>p_line_buf := take len (p_line_buf p) @ c # drop (Suc len) (p_line_buf p)\<rparr>"
  have "line_store p len c = Some ?q" using None assms by (simp add: line_store_def line_ptr_def buf_put_def)
  moreover have "line_ptr ?q = take len (line_ptr p) @ c # drop (Suc len) (line_ptr p)" using None by (simp add: line_ptr_def)
  ultimately show ?thesis by (rule that)
next
  case (Some x)
  obtain b t where x: "x = (b, t)" by (cases x)
  let ?q = "p\<lparr>p_line_spill := Some (b, take len t @ c # drop (Suc len) t)\<rparr>"
  have "line_store p len c = Some ?q" using Some x assms by (simp add: line_store_def line_ptr_def buf_put_def)
  moreover have "line_ptr ?q = take len (line_ptr p) @ c # drop (Suc len) (line_ptr p)" using Some x by (simp add: line_ptr_def)
  ultimately show ?thesis by (rule that)
qed

text \<open>A text without a line feed, a carriage return and a line feed: the line is the text.\<close>

lemma accumulate_loop_text:
  assumes "10 \<notin> set s" "len + length s + 2 \<le> cap" "cap \<le> length (line_ptr p)"
  shows "\<exists>q. accumulate_loop b cap len (s @ 13 # 10 # d) p h = Some (LINE_READY, d, q, h)
    \<and> line_text q = take len (line_ptr p) @ s \<and> (p_line_spill q = None \<longleftrightarrow> p_line_spill p = None)"
  using assms
proof (induction s arbitrary: len p)
  case Nil
  obtain q where q: "line_store p len 13 = Some q" "line_ptr q = take len (line_ptr p) @ 13 # drop (Suc len) (line_ptr p)"
    using line_store_ptr [of len p 13] Nil by auto
  have lq: "length (line_ptr q) = length (line_ptr p)" using q(2) Nil by simp
  obtain r where r: "line_store q (len + 1) 10 = Some r" "line_ptr r = take (len + 1) (line_ptr q) @ 10 # drop (Suc (len + 1)) (line_ptr q)"
    using line_store_ptr [of "len + 1" q 10] Nil lq by auto
  have "take (len + 1) (line_ptr q) = take len (line_ptr p) @ [13]" using q(2) Nil by simp
  then have rp: "line_ptr r = take len (line_ptr p) @ [13, 10] @ drop (Suc (len + 1)) (line_ptr q)" using r(2) by simp
  have rd: "rd (take (len + 1 + 1) (line_ptr r)) (len + 1 - 1) = Some 13" using rp Nil by (simp add: rd_def nth_append)
  have "accumulate_loop b cap len (13 # 10 # d) p h = accumulate_loop b cap (len + 1) (10 # d) q h"
    using accumulate_char [OF _ q(1), of cap b "10 # d" h] Nil by simp
  also have "\<dots> = Some (LINE_READY, d, r\<lparr>p_line_len := len\<rparr>, h)"
    using accumulate_ready [OF _ r(1) _ rd, of cap b d h] Nil by simp
  finally show ?case using rp Nil line_store_spilled [OF q(1)] line_store_spilled [OF r(1)] by (simp add: line_text_def)
next
  case (Cons c s)
  obtain q where q: "line_store p len c = Some q" "line_ptr q = take len (line_ptr p) @ c # drop (Suc len) (line_ptr p)"
    using line_store_ptr [of len p c] Cons(3,4) by auto
  have "length (line_ptr q) = length (line_ptr p)" using q(2) Cons(3,4) by simp
  then obtain r where r: "accumulate_loop b cap (len + 1) (s @ 13 # 10 # d) q h = Some (LINE_READY, d, r, h)" "line_text r = take (len + 1) (line_ptr q) @ s" "p_line_spill r = None \<longleftrightarrow> p_line_spill q = None"
    using Cons(1) [of "len + 1" q] Cons(2,3,4) by auto
  have "take (len + 1) (line_ptr q) = take len (line_ptr p) @ [c]" using q(2) Cons(3,4) by simp
  moreover have "accumulate_loop b cap len ((c # s) @ 13 # 10 # d) p h = accumulate_loop b cap (len + 1) (s @ 13 # 10 # d) q h"
    using accumulate_char [OF _ q(1), of cap b "s @ 13 # 10 # d" h] Cons(2,3) by simp
  ultimately show ?case using r line_store_spilled [OF q(1)] by simp
qed

text \<open>A parser between two lines that has not spilled.\<close>

definition between_lines :: "nat set \<Rightarrow> chttp1_parser \<Rightarrow> heap \<Rightarrow> bool" where
  "between_lines L p h \<longleftrightarrow> base_inv L p h \<and> p_line_len p = 0 \<and> p_line_spill p = None \<and> p_max_chunk_size_override p = 0"

lemma accumulate_line_text:
  assumes "between_lines L p h" "10 \<notin> set s" "length s + 2 \<le> CHTTP1_MAX_LINE_LEN"
  obtains q where "accumulate_line b (s @ 13 # 10 # d) p h = Some (LINE_READY, d, q, h)" "line_text q = s" "p_line_len q = length s"
    "between_lines L (q\<lparr>p_line_len := 0\<rparr>) h" "strip q = strip p" "base_inv L q h"
proof -
  have "line_cap b p = CHTTP1_MAX_LINE_LEN" "length (line_ptr p) = CHTTP1_MAX_LINE_LEN" "p_line_len p = 0"
    using assms(1) by (auto simp: between_lines_def line_cap_def base_inv_def line_ptr_def)
  then obtain q where q: "accumulate_line b (s @ 13 # 10 # d) p h = Some (LINE_READY, d, q, h)" "line_text q = s" "p_line_spill q = None"
    using accumulate_loop_text [of s 0 "line_cap b p" p b d h] assms by (auto simp: accumulate_line_eq between_lines_def)
  have b: "base_inv L q h" using accumulate_line_base [of L p h b "s @ 13 # 10 # d"] assms(1) q(1) by (auto simp: between_lines_def)
  have l: "p_line_len q = length s" using q(2) [symmetric] b by (auto simp: line_text_def base_inv_def)
  have st: "strip q = strip p" using accumulate_loop_strip [OF q(1) [unfolded accumulate_line_eq]] .
  have "base_inv L (q\<lparr>p_line_len := 0\<rparr>) h" using b by simp
  then have "between_lines L (q\<lparr>p_line_len := 0\<rparr>) h" using q(3) assms(1) strip_eqD(18) [OF st] by (simp add: between_lines_def)
  then show ?thesis using q(1,2) l st b by (intro that)
qed

section \<open>A chunked body\<close>

lemma parse_chunk_size_to_hex:
  assumes "line_text p = to_hex v" "v < 2 ^ 64" "p_max_chunk_size_override p = 0" "p_chunk_excess p \<le> CHTTP1_MAX_CHUNK_OVERHEAD_EXCESS"
  shows "\<exists>y. parse_chunk_size_line p = (True, p\<lparr>p_chunk_excess := y, p_content_length := of_nat v\<rparr>) \<and> y \<le> CHTTP1_MAX_CHUNK_OVERHEAD_EXCESS"
proof -
  let ?P = "\<lambda>c. c \<noteq> 59 \<and> \<not> is_ows c"
  have all: "takeWhile ?P (to_hex v) = to_hex v" "dropWhile ?P (to_hex v) = []"
    using to_hex_set [of _ v] by (auto simp: takeWhile_eq_all_conv dropWhile_eq_Nil_conv)
  have ext: "chunk_ext_is_valid []" by (simp add: chunk_ext_is_valid.simps)
  let ?x = "p_chunk_excess p + of_nat (length (to_hex v)) + 4"
  let ?e = "if of_nat v > (UINT64_MAX - 16) div 2 then UINT64_MAX else 16 + 2 * of_nat v :: uint64"
  define y where "y = (if ?x > ?e then ?x - ?e else 0)"
  have y: "y \<le> CHTTP1_MAX_CHUNK_OVERHEAD_EXCESS"
  proof -
    have l16: "length (to_hex v) \<le> 16" using to_hex_length_16 [of v 16] assms(2) by simp
    have "unat (p_chunk_excess p) \<le> 16384" using assms(4) by (simp add: CHTTP1_MAX_CHUNK_OVERHEAD_EXCESS_def word_le_nat_alt)
    then have ux: "unat ?x = unat (p_chunk_excess p) + length (to_hex v) + 4" using l16 by (simp add: unat_word_ariths unat_of_nat)
    have uv: "unat (of_nat v :: uint64) = v" using assms(2) by (simp add: unat_of_nat)
    have uh: "unat ((UINT64_MAX - 16) div 2) = 9223372036854775799" "unat UINT64_MAX = 18446744073709551615" by (simp_all add: UINT64_MAX_def)
    have ue: "unat ?e \<ge> length (to_hex v) + 4"
    proof (cases "of_nat v > (UINT64_MAX - 16) div 2")
      case True
      then show ?thesis using l16 uh by simp
    next
      case False
      then have "v \<le> 9223372036854775799" using uh uv by (simp add: word_less_nat_alt)
      then have "unat (16 + 2 * of_nat v :: uint64) = 16 + 2 * v" using uv by (simp add: unat_word_ariths)
      then show ?thesis using False to_hex_length [of v] by simp
    qed
    show ?thesis using ux ue assms(4) unfolding y_def by (auto simp: word_le_nat_alt word_less_nat_alt unat_sub)
  qed
  have "parse_chunk_size_line p = (True, p\<lparr>p_chunk_excess := y, p_content_length := of_nat v\<rparr>)"
    unfolding parse_chunk_size_line_def Let_def assms(1) all parse_hex_to_hex [OF assms(2)] option.case y_def [symmetric]
    using y ext assms(3) by simp
  then show ?thesis using y by blast
qed

lemma between_lines_update [simp]:
  "between_lines L (p\<lparr>p_state := s\<rparr>) h = between_lines L p h" "between_lines L (p\<lparr>p_content_length := v\<rparr>) h = between_lines L p h"
  "between_lines L (p\<lparr>p_finish_state := f\<rparr>) h = between_lines L p h"
  by (simp_all add: between_lines_def)

lemma chunk_size_turn:
  assumes "between_lines L p h" "p_state p = CHTTP1_ST_BODY_CHUNK_SIZE" "v < 2 ^ 64"
  obtains p' where "chttp1_turn st n (to_hex v @ 13 # 10 # d) p u h = Some (None, d, p', u, h)" "between_lines L p' h" "p_content_length p' = of_nat v"
    "p_state p' = (if v = 0 then CHTTP1_ST_BODY_CHUNK_TRAILERS else CHTTP1_ST_BODY_CHUNK_DATA)"
proof -
  have t: "10 \<notin> set (to_hex v)" "length (to_hex v) + 2 \<le> CHTTP1_MAX_LINE_LEN"
    using to_hex_set [of 10 v] to_hex_length_16 [of v 16] assms(3) by (auto simp: CHTTP1_MAX_LINE_LEN_def)
  obtain q where q: "accumulate_line (line_budget p) (to_hex v @ 13 # 10 # d) p h = Some (LINE_READY, d, q, h)" "line_text q = to_hex v"
      "between_lines L (q\<lparr>p_line_len := 0\<rparr>) h" "strip q = strip p" "base_inv L q h"
    using accumulate_line_text [OF assms(1) t, of "line_budget p" d] by metis
  note s = strip_eqD [OF q(4)]
  obtain y where y: "parse_chunk_size_line q = (True, q\<lparr>p_chunk_excess := y, p_content_length := of_nat v\<rparr>)" "y \<le> CHTTP1_MAX_CHUNK_OVERHEAD_EXCESS"
    using parse_chunk_size_to_hex [OF q(2) assms(3)] assms(1) base_invD(3) [OF q(5)] s(18) by (auto simp: between_lines_def)
  let ?p = "q\<lparr>p_chunk_excess := y, p_content_length := of_nat v, p_line_len := 0,
    p_state := (if v = 0 then CHTTP1_ST_BODY_CHUNK_TRAILERS else CHTTP1_ST_BODY_CHUNK_DATA)\<rparr>"
  have v0: "(of_nat v :: uint64) = 0 \<longleftrightarrow> v = 0" using assms(3) unat_of_nat [where ?'a = 64, of v] by (auto simp: unat_eq_zero)
  have run: "chttp1_turn st n (to_hex v @ 13 # 10 # d) p u h = Some (None, d, ?p, u, h)"
    using q(1) y(1) s(1) assms(2) v0 by (simp add: chttp1_turn_def line_turn_def line_ready_def chunk_size_ready_def)
  have "base_inv L ?p h" by (rule base_invI [of L "q\<lparr>p_line_len := 0\<rparr>"]) (use q(3,5) y(2) base_invD [OF q(5)] in \<open>simp_all add: between_lines_def\<close>)
  then have "between_lines L ?p h" using q(3) by (simp add: between_lines_def)
  with run show ?thesis by (rule that) simp_all
qed

lemma blank_line_turn:
  assumes "between_lines L p h"
  obtains q where "accumulate_line (line_budget p) (13 # 10 # d) p h = Some (LINE_READY, d, q, h)" "between_lines L q h" "strip q = strip p" "p_line_len q = 0"
proof -
  obtain q where q: "accumulate_line (line_budget p) ([] @ 13 # 10 # d) p h = Some (LINE_READY, d, q, h)" "p_line_len q = length ([] :: byte list)"
      "between_lines L (q\<lparr>p_line_len := 0\<rparr>) h" "strip q = strip p" "base_inv L q h"
    using accumulate_line_text [OF assms, of "[]" "line_budget p" d] by (auto simp: CHTTP1_MAX_LINE_LEN_def)
  then show ?thesis by (intro that) (auto simp: between_lines_def)
qed

lemma chunk_crlf_turn:
  assumes "between_lines L p h" "p_state p = CHTTP1_ST_BODY_CHUNK_CRLF"
  obtains p' where "chttp1_turn st n (13 # 10 # d) p u h = Some (None, d, p', u, h)" "between_lines L p' h" "p_state p' = CHTTP1_ST_BODY_CHUNK_SIZE"
proof -
  obtain q where q: "accumulate_line (line_budget p) (13 # 10 # d) p h = Some (LINE_READY, d, q, h)" "between_lines L q h" "strip q = strip p" "p_line_len q = 0"
    using blank_line_turn [OF assms(1)] by blast
  have "chttp1_turn st n (13 # 10 # d) p u h = Some (None, d, q\<lparr>p_state := CHTTP1_ST_BODY_CHUNK_SIZE\<rparr>, u, h)"
    using q(1,4) assms(2) strip_eqD(1) [OF q(3)] by (simp add: chttp1_turn_def line_turn_def line_ready_def)
  moreover have "between_lines L (q\<lparr>p_state := CHTTP1_ST_BODY_CHUNK_SIZE\<rparr>) h" using q(2) by simp
  ultimately show ?thesis by (rule that) simp
qed

text \<open>Callbacks that take every piece of the body and let the message complete.\<close>

definition takes_body :: "'u chttp1_settings option \<Rightarrow> (byte list \<Rightarrow> 'u \<Rightarrow> 'u) \<Rightarrow> bool" where
  "takes_body st g \<longleftrightarrow> (\<forall>p c u. call_back st on_body (\<lambda>f. f p c) u = (0, g c u)) \<and> (\<forall>p u. call_back st on_message_complete (\<lambda>f. f p) u = (0, u))"

lemma chunk_data_turn:
  assumes "between_lines L p h" "p_state p = CHTTP1_ST_BODY_CHUNK_DATA" "p_content_length p = of_nat (length c)" "c \<noteq> []" "length c < 2 ^ 64" "takes_body st g"
  obtains p' where "chttp1_turn st n (c @ d) p u h = Some (None, d, p', g c u, h)" "between_lines L p' h" "p_state p' = CHTTP1_ST_BODY_CHUNK_CRLF"
proof -
  let ?p = "p\<lparr>p_content_length := 0, p_state := CHTTP1_ST_BODY_CHUNK_CRLF\<rparr>"
  have v: "unat (p_content_length p) = length c" using assms(3,5) by (simp add: unat_of_nat)
  have "counted_turn st n (c @ d) p u h = Some (None, d, ?p, g c u, h)"
    using assms(2,3,4,6) v by (simp add: counted_turn_def takes_body_def)
  then have "chttp1_turn st n (c @ d) p u h = Some (None, d, ?p, g c u, h)" using assms(2) by (simp add: chttp1_turn_def)
  moreover have "between_lines L ?p h" using assms(1) by simp
  ultimately show ?thesis by (rule that) simp
qed

lemma last_chunk_turn:
  assumes "between_lines L p h" "p_state p = CHTTP1_ST_BODY_CHUNK_TRAILERS" "takes_body st g"
  obtains p' where "chttp1_turn st n (13 # 10 # d) p u h = Some (Some CHTTP1_PAUSED, d, p', u, h)" "p_state p' = CHTTP1_ST_MESSAGE_DONE" "p_consumed p' = n - length d"
proof -
  obtain q where q: "accumulate_line (line_budget p) (13 # 10 # d) p h = Some (LINE_READY, d, q, h)" "between_lines L q h" "strip q = strip p" "p_line_len q = 0"
    using blank_line_turn [OF assms(1)] by blast
  have "chttp1_turn st n (13 # 10 # d) p u h =
     Some (Some CHTTP1_PAUSED, d, q\<lparr>p_finish_state := CHTTP1_FINISH_SAFE, p_consumed := n - length d, p_state := CHTTP1_ST_MESSAGE_DONE\<rparr>, u, h)"
    using q(1,4) assms(2,3) strip_eqD(1) [OF q(3)]
    by (simp add: chttp1_turn_def line_turn_def line_ready_def return_complete_def complete_message_def takes_body_def)
  then show ?thesis by (rule that) simp_all
qed

text \<open>The encoding of RFC 9112, section 7.1, without extensions and trailers.\<close>

definition chunk_encode :: "byte list list \<Rightarrow> byte list" where
  "chunk_encode cs = concat (map (\<lambda>c. to_hex (length c) @ 13 # 10 # c @ [13, 10]) cs) @ to_hex 0 @ [13, 10, 13, 10]"

lemma chttp1_loop_turn: "d \<noteq> [] \<Longrightarrow> chttp1_turn st n d p u h = Some (None, d', p', u', h') \<Longrightarrow> chttp1_loop st n d p u h = chttp1_loop st n d' p' u' h'"
  by (subst chttp1_loop.simps) simp

lemma chunk_encode_loop:
  assumes "between_lines L p h" "p_state p = CHTTP1_ST_BODY_CHUNK_SIZE" "\<And>c. c \<in> set cs \<Longrightarrow> c \<noteq> [] \<and> length c < 2 ^ 64" "takes_body st g"
  shows "\<exists>p'. chttp1_loop st n (chunk_encode cs @ d) p u h = Some (CHTTP1_PAUSED, p', fold g cs u, h) \<and> p_state p' = CHTTP1_ST_MESSAGE_DONE \<and> p_consumed p' = n - length d"
  using assms(1,2,3)
proof (induction cs arbitrary: p u)
  case Nil
  let ?z = "13 # 10 # d"
  obtain p1 where p1: "chttp1_turn st n (to_hex 0 @ 13 # 10 # ?z) p u h = Some (None, ?z, p1, u, h)" "between_lines L p1 h" "p_state p1 = CHTTP1_ST_BODY_CHUNK_TRAILERS"
    using chunk_size_turn [OF Nil(1,2), of 0 st n ?z u] by auto
  obtain p2 where p2: "chttp1_turn st n ?z p1 u h = Some (Some CHTTP1_PAUSED, d, p2, u, h)" "p_state p2 = CHTTP1_ST_MESSAGE_DONE" "p_consumed p2 = n - length d"
    using last_chunk_turn [OF p1(2,3) assms(4), of n d u] by blast
  have "chttp1_loop st n (to_hex 0 @ 13 # 10 # ?z) p u h = chttp1_loop st n ?z p1 u h" by (rule chttp1_loop_turn [OF _ p1(1)]) simp
  moreover have "chttp1_loop st n ?z p1 u h = Some (CHTTP1_PAUSED, p2, u, h)" using p2(1) by (subst chttp1_loop.simps) simp
  ultimately show ?case using p2 by (simp add: chunk_encode_def)
next
  case (Cons c cs)
  let ?z = "chunk_encode cs @ d"
  have c: "c \<noteq> []" "length c < 2 ^ 64" using Cons(4) by simp_all
  obtain p1 where p1: "chttp1_turn st n (to_hex (length c) @ 13 # 10 # c @ 13 # 10 # ?z) p u h = Some (None, c @ 13 # 10 # ?z, p1, u, h)" "between_lines L p1 h"
      "p_content_length p1 = of_nat (length c)" "p_state p1 = CHTTP1_ST_BODY_CHUNK_DATA"
    using chunk_size_turn [OF Cons(2,3) c(2), of st n "c @ 13 # 10 # ?z" u] c(1) by auto
  obtain p2 where p2: "chttp1_turn st n (c @ 13 # 10 # ?z) p1 u h = Some (None, 13 # 10 # ?z, p2, g c u, h)" "between_lines L p2 h" "p_state p2 = CHTTP1_ST_BODY_CHUNK_CRLF"
    using chunk_data_turn [OF p1(2,4,3) c assms(4), of n "13 # 10 # ?z" u] by blast
  obtain p3 where p3: "chttp1_turn st n (13 # 10 # ?z) p2 (g c u) h = Some (None, ?z, p3, g c u, h)" "between_lines L p3 h" "p_state p3 = CHTTP1_ST_BODY_CHUNK_SIZE"
    using chunk_crlf_turn [OF p2(2,3), of st n ?z "g c u"] by blast
  have "chttp1_loop st n (to_hex (length c) @ 13 # 10 # c @ 13 # 10 # ?z) p u h = chttp1_loop st n ?z p3 (g c u) h"
    using chttp1_loop_turn [OF _ p1(1)] chttp1_loop_turn [OF _ p2(1)] chttp1_loop_turn [OF _ p3(1)] by simp
  moreover have "chunk_encode (c # cs) @ d = to_hex (length c) @ 13 # 10 # c @ 13 # 10 # ?z" by (simp add: chunk_encode_def)
  ultimately show ?case using Cons(1) [OF p3(2,3), of "g c u"] Cons(4) by simp
qed

end
