(* ===== verification/CCol_Http1_Msg.thy ===== *)
theory CCol_Http1_Msg
  imports CCol_Http1_Body
begin

text \<open>
  A whole request through the parser of \<^verbatim>\<open>chttp1_parser.c\<close>: the request line, the header
  lines and the chunked body that a client writes are the ones the callbacks get.
\<close>

section \<open>Visible characters\<close>

definition visible :: "byte \<Rightarrow> bool" where
  "visible c \<longleftrightarrow> 32 < c \<and> c \<noteq> 127"

lemma visible_bytes:
  assumes "visible c"
  shows "c \<noteq> 32" "c \<noteq> 10" "c \<noteq> 13" "\<not> is_ows c" "\<not> is_invalid_value_byte c" "\<not> is_invalid_target_byte c"
  using assms by (auto simp: visible_def is_ows_def is_invalid_value_byte_def is_invalid_target_byte_def word_less_nat_alt word_le_nat_alt)

lemma visible_classes:
  "is_digit c \<Longrightarrow> visible c" "is_hexdig c \<Longrightarrow> visible c" "is_unreserved_or_sub_delim c \<Longrightarrow> visible c" "chttp1_is_tchar c \<Longrightarrow> visible c"
  "c \<in> {37, 46, 58, 86, 91, 93, 118} \<Longrightarrow> visible c"
  by (auto simp: visible_def is_digit_def is_hexdig_def is_unreserved_or_sub_delim_def chttp1_is_tchar_def word_less_nat_alt word_le_nat_alt)

lemma host_reg_name_visible: "host_reg_name v = Some r \<Longrightarrow> c \<in> set v \<Longrightarrow> c \<notin> set r \<Longrightarrow> visible c"
  by (induction v rule: host_reg_name.induct) (auto split: if_splits list.splits intro: visible_classes)

lemma host_literal_visible:
  assumes "host_literal_ok l" "c \<in> set l"
  shows "visible c"
proof (cases l)
  case (Cons d l')
  show ?thesis
  proof (cases "d = 118 \<or> d = 86")
    case False
    then show ?thesis using assms Cons by (auto simp: host_literal_ok_def list_all_iff intro: visible_classes)
  next
    case True
    obtain e r where r: "dropWhile is_hexdig l' = e # r" "e = 46" "list_all (\<lambda>c. is_unreserved_or_sub_delim c \<or> c = 58) r"
      using assms(1) Cons True by (auto simp: host_literal_ok_def Let_def split: list.splits)
    have l: "l' = takeWhile is_hexdig l' @ 46 # r" using takeWhile_dropWhile_id [of is_hexdig l'] r by simp
    have "c \<in> {118, 86} \<or> c \<in> set l'" using assms(2) Cons True by auto
    then have "c \<in> {118, 86, 46} \<or> c \<in> set (takeWhile is_hexdig l') \<or> c \<in> set r" by (subst (asm) l) auto
    then show ?thesis using r(3) set_takeWhileD [of c is_hexdig l'] by (auto simp: list_all_iff intro: visible_classes)
  qed
qed (use assms in simp)

lemma host_visible:
  assumes "host_value_is_valid v" "c \<in> set v"
  shows "visible c"
proof -
  have port: "visible c" if "case r of [] \<Rightarrow> True | c # r \<Rightarrow> c = 58 \<and> list_all is_digit r" "c \<in> set r" for r
    using that by (cases r) (auto simp: list_all_iff intro: visible_classes)
  obtain d w where v: "v = d # w" using assms(2) by (cases v) auto
  show ?thesis
  proof (cases "d = 91")
    case True
    obtain e r where r: "dropWhile (\<lambda>c. c \<noteq> 93) w = e # r" "host_literal_ok (takeWhile (\<lambda>c. c \<noteq> 93) w)" "case r of [] \<Rightarrow> True | c # r \<Rightarrow> c = 58 \<and> list_all is_digit r"
      using assms(1) v True by (auto simp: host_value_is_valid_def split: list.splits)
    have e: "e = 93" using r(1) hd_dropWhile [of "\<lambda>c. c \<noteq> 93" w] by auto
    have "w = takeWhile (\<lambda>c. c \<noteq> 93) w @ e # r" using takeWhile_dropWhile_id [of "\<lambda>c. c \<noteq> 93" w] r(1) by simp
    then have "c \<in> {91, 93} \<or> c \<in> set (takeWhile (\<lambda>c. c \<noteq> 93) w) \<or> c \<in> set r" using assms(2) v True e by (metis Un_iff insertE insertI1 insertI2 list.set(2) set_append)
    then show ?thesis using port [OF r(3)] host_literal_visible [OF r(2)] by (auto intro: visible_classes)
  next
    case False
    obtain r where r: "host_reg_name v = Some r" "case r of [] \<Rightarrow> True | c # r \<Rightarrow> c = 58 \<and> list_all is_digit r"
      using assms(1) False v by (auto simp: host_value_is_valid_def split: option.splits)
    then show ?thesis using host_reg_name_visible [OF r(1) assms(2)] port [OF r(2)] by blast
  qed
qed

section \<open>The request line\<close>

lemma takeWhile_until [simp]:
  "x \<notin> set a \<Longrightarrow> takeWhile (\<lambda>c. c \<noteq> x) (a @ x # b) = a" "x \<notin> set a \<Longrightarrow> dropWhile (\<lambda>c. c \<noteq> x) (a @ x # b) = x # b"
  by (induction a) auto

lemma effective_line_len [simp]:
  "effective_max_total_header_bytes (p\<lparr>p_line_len := n\<rparr>) = effective_max_total_header_bytes p"
  "effective_max_header_count (p\<lparr>p_line_len := n\<rparr>) = effective_max_header_count p"
  by (simp_all add: effective_max_total_header_bytes_def effective_max_header_count_def)

definition request_line :: "byte list \<Rightarrow> byte list \<Rightarrow> byte list" where
  "request_line m t = m @ 32 # t @ 32 # lit ''HTTP/1.1''"

lemma lit_version: "lit ''HTTP/1.1'' = [72, 84, 84, 80, 47, 49, 46, 49]" "lit ''HTTP/'' = [72, 84, 84, 80, 47]"
  by code_simp+

lemma parse_version_1_1: "parse_version (lit ''HTTP/1.1'') 5 p = Some (True, p\<lparr>p_http_major := 1, p_http_minor := 1\<rparr>)"
  by (simp add: parse_version_def lit_version rd_def is_digit_def)

definition token_ok :: "byte list \<Rightarrow> bool" where
  "token_ok m \<longleftrightarrow> m \<noteq> [] \<and> list_all chttp1_is_tchar m"

definition target_ok :: "byte list \<Rightarrow> bool" where
  "target_ok t \<longleftrightarrow> t \<noteq> [] \<and> \<not> list_ex is_invalid_target_byte t"

lemma token_visible: "token_ok m \<Longrightarrow> c \<in> set m \<Longrightarrow> visible c"
  by (auto simp: token_ok_def list_all_iff intro: visible_classes)

lemma target_visible: "target_ok t \<Longrightarrow> c \<in> set t \<Longrightarrow> visible c"
  by (auto simp: target_ok_def list_ex_iff is_invalid_target_byte_def visible_def not_le)

lemma parse_request_line_request:
  assumes "take (p_line_len p) (p_line_buf p) = request_line m t" "token_ok m" "target_ok t"
    and "\<And>p. call_back st on_request_line (\<lambda>f. f p m t) u = (0, u')"
  shows "parse_request_line st p u = Some (PH_OK, p\<lparr>p_http_major := 1, p_http_minor := 1\<rparr>, u')"
proof -
  have m: "32 \<notin> set m" "m \<noteq> []" "list_all chttp1_is_tchar m" using token_visible [OF assms(2)] visible_bytes(1) assms(2) by (auto simp: token_ok_def)
  have t: "32 \<notin> set t" "t \<noteq> []" "\<not> list_ex is_invalid_target_byte t" using target_visible [OF assms(3)] visible_bytes(1) assms(3) by (auto simp: target_ok_def)
  have v: "length (lit ''HTTP/1.1'') = 8" "take 5 (lit ''HTTP/1.1'') = lit ''HTTP/''" by (simp_all add: lit_version)
  show ?thesis unfolding parse_request_line_def Let_def assms(1) request_line_def using m t v assms(4)
    by (simp add: parse_version_1_1)
qed

lemma request_line_turn:
  assumes "between_lines L p h" "p_state p = CHTTP1_ST_FIRST_LINE" "p_type p = CHTTP1_PARSE_REQUEST" "token_ok m" "target_ok t"
    and "\<And>p. call_back st on_request_line (\<lambda>f. f p m t) u = (0, u')"
    and "length (request_line m t) + 2 \<le> CHTTP1_MAX_LINE_LEN" "p_total_header_bytes p = 0" "p_max_total_header_bytes_override p = 0"
  obtains p' where "chttp1_turn st n (request_line m t @ 13 # 10 # d) p u h = Some (None, d, p', u', h)" "between_lines L p' h"
    "strip p' = strip (p\<lparr>p_total_header_bytes := length (request_line m t) + 2, p_http_major := 1, p_http_minor := 1,
      p_finish_state := CHTTP1_FINISH_UNSAFE, p_state := CHTTP1_ST_HEADERS\<rparr>)"
proof -
  let ?l = "request_line m t"
  have nl: "10 \<notin> set ?l"
    using token_visible [OF assms(4)] target_visible [OF assms(5)] visible_bytes(2) by (auto simp: request_line_def lit_version)
  obtain q where q: "accumulate_line (line_budget p) (?l @ 13 # 10 # d) p h = Some (LINE_READY, d, q, h)" "line_text q = ?l" "p_line_len q = length ?l"
      "between_lines L (q\<lparr>p_line_len := 0\<rparr>) h" "strip q = strip p" "base_inv L q h"
    using accumulate_line_text [OF assms(1) nl assms(7), of "line_budget p" d] by metis
  note s = strip_eqD [OF q(5)]
  let ?q = "q\<lparr>p_total_header_bytes := length ?l + 2\<rparr>"
  have buf: "take (p_line_len ?q) (p_line_buf ?q) = ?l" using q(2,3,4) by (simp add: line_text_def line_ptr_def between_lines_def)
  have sum2: "sz_add (length ?l) 2 = length ?l + 2" "sz_add 0 (length ?l + 2) = length ?l + 2" "length ?l + 2 \<le> effective_max_total_header_bytes q"
    using assms(7,9) s(7) by (simp_all add: CHTTP1_MAX_LINE_LEN_def sz_add_exact SIZE_MAX_def effective_max_total_header_bytes_def CHTTP1_MAX_TOTAL_HEADER_BYTES_def)
  have ne: "p_line_len q \<noteq> 0" using q(3) by (simp add: request_line_def)
  let ?p = "?q\<lparr>p_http_major := 1, p_http_minor := 1, p_line_len := 0, p_finish_state := CHTTP1_FINISH_UNSAFE, p_state := CHTTP1_ST_HEADERS\<rparr>"
  have "first_line_ready st d q u h = Some (None, d, ?p, u', h)"
    using ne sum2 s(2,6) assms(3,8) q(3) parse_request_line_request [OF buf assms(4-6)] by (simp add: first_line_ready_def Let_def)
  then have run: "chttp1_turn st n (?l @ 13 # 10 # d) p u h = Some (None, d, ?p, u', h)"
    using q(1) s(1) assms(2) by (simp add: chttp1_turn_def line_turn_def line_ready_def)
  have "base_inv L ?p h"
    by (rule base_invI [of L "q\<lparr>p_line_len := 0\<rparr>"]) (use q(4,6) base_invD [OF q(6)] sum2(3) in \<open>simp_all add: between_lines_def\<close>)
  then have "between_lines L ?p h" using q(4) by (simp add: between_lines_def)
  moreover have "strip ?p = strip (p\<lparr>p_total_header_bytes := length ?l + 2, p_http_major := 1, p_http_minor := 1,
      p_finish_state := CHTTP1_FINISH_UNSAFE, p_state := CHTTP1_ST_HEADERS\<rparr>)"
    using q(5) by (cases p; cases q) (simp add: strip_def)
  ultimately show ?thesis using run by (intro that)
qed

section \<open>Header lines\<close>

definition header_text :: "byte list \<Rightarrow> byte list \<Rightarrow> byte list" where
  "header_text name v = name @ [58, 32] @ v"

text \<open>A value as the parser hands it over: no control characters, no blanks around it.\<close>

definition value_ok :: "byte list \<Rightarrow> bool" where
  "value_ok v \<longleftrightarrow> \<not> list_ex is_invalid_value_byte v \<and> trim_right (dropWhile is_ows v) = v"

lemma value_ok_visible:
  assumes "\<And>c. c \<in> set v \<Longrightarrow> visible c"
  shows "value_ok v"
proof -
  have d: "dropWhile is_ows w = w" if "\<And>c. c \<in> set w \<Longrightarrow> visible c" for w
    using that visible_bytes(4) by (cases w) auto
  show ?thesis using d [of v] d [of "rev v"] assms visible_bytes(5) by (auto simp: value_ok_def trim_right_def list_ex_iff)
qed

lemma value_ok_newline: "value_ok v \<Longrightarrow> 10 \<notin> set v"
  by (auto simp: value_ok_def list_ex_iff is_invalid_value_byte_def)

lemma header_line_turn:
  assumes "between_lines L p h" "p_state p = CHTTP1_ST_HEADERS" "token_ok name" "value_ok v"
    and "\<And>q. strip q = strip p \<Longrightarrow> header_framing name v q = Some (True, F q) \<and> \<not> (has_flag (F q) F_CONTENT_LENGTH \<and> has_flag (F q) F_CHUNKED)"
    and "\<And>p. call_back st on_header (\<lambda>f. f p name v) u = (0, u')"
    and "length (header_text name v) + 2 \<le> CHTTP1_MAX_LINE_LEN" "p_total_header_bytes p + length (header_text name v) + 2 \<le> CHTTP1_MAX_TOTAL_HEADER_BYTES"
    and "p_header_count p < CHTTP1_MAX_HEADER_COUNT" "p_max_total_header_bytes_override p = 0" "p_max_header_count_override p = 0"
  obtains p' q where "chttp1_turn st n (header_text name v @ 13 # 10 # d) p u h = Some (None, d, p', u', h)" "between_lines L p' h" "strip q = strip p"
    "p' = (F q)\<lparr>p_header_count := p_header_count p + 1, p_total_header_bytes := p_total_header_bytes p + (length (header_text name v) + 2), p_line_len := 0\<rparr>"
proof -
  let ?l = "header_text name v"
  have nm: "58 \<notin> set name" "name \<noteq> []" "list_all chttp1_is_tchar name" using assms(3) by (auto simp: token_ok_def list_all_iff chttp1_is_tchar_def is_digit_def)
  have nl: "10 \<notin> set ?l"
    using token_visible [OF assms(3)] value_ok_newline [OF assms(4)] visible_bytes(2) by (auto simp: header_text_def)
  obtain q where q: "accumulate_line (line_budget p) (?l @ 13 # 10 # d) p h = Some (LINE_READY, d, q, h)" "line_text q = ?l" "p_line_len q = length ?l"
      "between_lines L (q\<lparr>p_line_len := 0\<rparr>) h" "strip q = strip p" "base_inv L q h"
    using accumulate_line_text [OF assms(1) nl assms(7), of "line_budget p" d] by metis
  note s = strip_eqD [OF q(5)]
  have caps: "sz_add (length ?l) 2 = length ?l + 2" "sz_add (p_total_header_bytes p) (length ?l + 2) = p_total_header_bytes p + (length ?l + 2)"
      "sz_add (p_header_count p) 1 = p_header_count p + 1"
    using assms(7,8,9) by (simp_all add: CHTTP1_MAX_LINE_LEN_def CHTTP1_MAX_TOTAL_HEADER_BYTES_def CHTTP1_MAX_HEADER_COUNT_def sz_add_exact SIZE_MAX_def)
  have eff: "effective_max_header_count q = CHTTP1_MAX_HEADER_COUNT" "effective_max_total_header_bytes q = CHTTP1_MAX_TOTAL_HEADER_BYTES"
    using assms(10,11) s(7,9) by (simp_all add: effective_max_header_count_def effective_max_total_header_bytes_def)
  have hf: "header_framing name v q = Some (True, F q)" "\<not> (has_flag (F q) F_CONTENT_LENGTH \<and> has_flag (F q) F_CHUNKED)" using assms(5) [OF q(5)] by blast+
  note st = settle_eqD [OF header_framing_settle [OF hf(1)]]
  have parts: "takeWhile (\<lambda>c. c \<noteq> 58) ?l = name" "dropWhile (\<lambda>c. c \<noteq> 58) ?l = 58 # 32 # v" using nm by (simp_all add: header_text_def)
  have val: "\<not> list_ex is_invalid_value_byte v" "trim_right (dropWhile is_ows (32 # v)) = v" using assms(4) by (simp_all add: value_ok_def is_ows_def)
  let ?f = "(F q)\<lparr>p_header_count := p_header_count p + 1, p_total_header_bytes := p_total_header_bytes p + (length ?l + 2)\<rparr>"
  have "process_header_line st False q u = Some (PH_OK, ?f, u')"
    unfolding process_header_line_def Let_def q(2) parts
    using hf val nm assms(6,8,9) caps eff q(3) s(6,8) st by (simp add: count_line_def)
  then have run: "chttp1_turn st n (?l @ 13 # 10 # d) p u h = Some (None, d, ?f\<lparr>p_line_len := 0\<rparr>, u', h)"
    using q(1,3) s(1) assms(2) by (simp add: chttp1_turn_def line_turn_def line_ready_def field_line_def header_text_def)
  have "base_inv L (?f\<lparr>p_line_len := 0\<rparr>) h"
    by (rule base_invI [of L "q\<lparr>p_line_len := 0\<rparr>"])
       (use q(4,6) base_invD [OF q(6)] assms(8,9) eff st in \<open>simp_all add: between_lines_def\<close>)
  then have "between_lines L (?f\<lparr>p_line_len := 0\<rparr>) h" using q(4) st by (simp add: between_lines_def)
  with run show ?thesis using q(5) by (rule that) simp
qed

lemma host_framing:
  assumes "p_type q = CHTTP1_PARSE_REQUEST" "p_host_count q = 0" "host_value_is_valid v"
  shows "header_framing (lit ''Host'') v q = Some (True, q\<lparr>p_host_count := 1\<rparr>)"
proof -
  have "header_name_is (lit ''Host'') ''content-length'' = Some False" "header_name_is (lit ''Host'') ''transfer-encoding'' = Some False"
    "header_name_is (lit ''Host'') ''host'' = Some True" "header_name_is (lit ''Host'') ''connection'' = Some False" "header_name_is (lit ''Host'') ''expect'' = Some False"
    by code_simp+
  then show ?thesis using assms by (simp add: header_framing_def)
qed

lemma chunked_framing:
  assumes "p_type q = CHTTP1_PARSE_REQUEST" "p_flags q = 0"
  shows "header_framing (lit ''Transfer-Encoding'') (lit ''chunked'') q = Some (True, q\<lparr>p_flags := 0x85\<rparr>)"
proof -
  have "header_name_is (lit ''Transfer-Encoding'') ''content-length'' = Some False" "header_name_is (lit ''Transfer-Encoding'') ''transfer-encoding'' = Some True"
    "header_name_is (lit ''Transfer-Encoding'') ''host'' = Some False" "header_name_is (lit ''Transfer-Encoding'') ''connection'' = Some False"
    "header_name_is (lit ''Transfer-Encoding'') ''expect'' = Some False"
    by code_simp+
  moreover have "transfer_encoding_scan (lit ''chunked'') = Some \<lparr>te_count = 1, te_nonfinal = False, te_last_chunked = True, te_any = True, te_other = False\<rparr>" by code_simp
  ultimately show ?thesis using assms
    by (simp add: header_framing_def te_framing_def set_flag_def has_flag_def F_CHUNKED_def F_CHUNKED_APPLIED_def F_TRANSFER_ENCODING_def)
qed

text \<open>A field the framing does not look at.\<close>

definition plain_field :: "byte list \<times> byte list \<Rightarrow> bool" where
  "plain_field f \<longleftrightarrow> token_ok (fst f) \<and> value_ok (snd f)
     \<and> list_all (\<lambda>s. header_name_is (fst f) s = Some False) [''content-length'', ''transfer-encoding'', ''host'', ''connection'', ''expect'']"

lemma plain_framing: "plain_field (name, v) \<Longrightarrow> header_framing name v q = Some (True, q)"
  by (simp add: plain_field_def header_framing_def)

text \<open>A request parser between two header lines, under the default caps.\<close>

definition headers_at :: "nat set \<Rightarrow> heap \<Rightarrow> byte \<Rightarrow> flags \<Rightarrow> size_t \<Rightarrow> size_t \<Rightarrow> chttp1_parser \<Rightarrow> bool" where
  "headers_at L h hosts fl cnt bytes p \<longleftrightarrow>
     between_lines L p h \<and> p_state p = CHTTP1_ST_HEADERS \<and> p_type p = CHTTP1_PARSE_REQUEST \<and> p_http_major p = 1 \<and> p_http_minor p = 1
     \<and> p_host_count p = hosts \<and> p_flags p = fl \<and> p_header_count p = cnt \<and> p_total_header_bytes p = bytes
     \<and> p_max_header_count_override p = 0 \<and> p_max_total_header_bytes_override p = 0"

definition field_bytes :: "byte list \<times> byte list \<Rightarrow> byte list" where
  "field_bytes f = header_text (fst f) (snd f) @ [13, 10]"

lemma header_step:
  assumes "headers_at L h hosts fl cnt bytes p" "token_ok (fst f)" "value_ok (snd f)"
    and "\<And>q. p_type q = CHTTP1_PARSE_REQUEST \<Longrightarrow> p_host_count q = hosts \<Longrightarrow> p_flags q = fl
          \<Longrightarrow> header_framing (fst f) (snd f) q = Some (True, q\<lparr>p_host_count := hosts', p_flags := fl'\<rparr>)"
    and "fl' AND F_CONTENT_LENGTH = 0" "\<And>p. call_back st on_header (\<lambda>g. g p (fst f) (snd f)) u = (0, u')"
    and "length (field_bytes f) \<le> CHTTP1_MAX_LINE_LEN" "bytes + length (field_bytes f) \<le> CHTTP1_MAX_TOTAL_HEADER_BYTES" "cnt < CHTTP1_MAX_HEADER_COUNT"
  obtains p' where "chttp1_loop st n (field_bytes f @ d) p u h = chttp1_loop st n d p' u' h" "headers_at L h hosts' fl' (cnt + 1) (bytes + length (field_bytes f)) p'"
proof -
  let ?F = "\<lambda>q. q\<lparr>p_host_count := hosts', p_flags := fl'\<rparr>"
  have a: "between_lines L p h" "p_state p = CHTTP1_ST_HEADERS" "p_max_total_header_bytes_override p = 0" "p_max_header_count_override p = 0"
    using assms(1) by (simp_all add: headers_at_def)
  have fr: "header_framing (fst f) (snd f) q = Some (True, ?F q) \<and> \<not> (has_flag (?F q) F_CONTENT_LENGTH \<and> has_flag (?F q) F_CHUNKED)" if "strip q = strip p" for q
    using strip_eqD(2,3,12) [OF that] assms(1,4,5) by (simp add: headers_at_def has_flag_def)
  have sz: "length (header_text (fst f) (snd f)) + 2 \<le> CHTTP1_MAX_LINE_LEN"
      "p_total_header_bytes p + length (header_text (fst f) (snd f)) + 2 \<le> CHTTP1_MAX_TOTAL_HEADER_BYTES" "p_header_count p < CHTTP1_MAX_HEADER_COUNT"
    using assms(1,7-9) by (simp_all add: headers_at_def field_bytes_def)
  obtain p' q where t: "chttp1_turn st n (header_text (fst f) (snd f) @ 13 # 10 # d) p u h = Some (None, d, p', u', h)" "between_lines L p' h" "strip q = strip p"
      "p' = (?F q)\<lparr>p_header_count := p_header_count p + 1, p_total_header_bytes := p_total_header_bytes p + (length (header_text (fst f) (snd f)) + 2), p_line_len := 0\<rparr>"
    using header_line_turn [OF a(1,2) assms(2,3) fr assms(6) sz a(3,4), of n d] by blast
  have "chttp1_loop st n (field_bytes f @ d) p u h = chttp1_loop st n d p' u' h"
    using chttp1_loop_turn [OF _ t(1)] by (simp add: field_bytes_def header_text_def)
  moreover have "headers_at L h hosts' fl' (cnt + 1) (bytes + length (field_bytes f)) p'"
    using t(2,4) strip_eqD [OF t(3)] assms(1) by (simp add: headers_at_def field_bytes_def)
  ultimately show ?thesis by (rule that)
qed

lemma plain_fields_loop:
  assumes "headers_at L h hosts fl cnt bytes p" "list_all plain_field fs" "fl AND F_CONTENT_LENGTH = 0"
    and "\<And>p n v u. call_back st on_header (\<lambda>g. g p n v) u = (0, hf n v u)" "\<And>f. f \<in> set fs \<Longrightarrow> length (field_bytes f) \<le> CHTTP1_MAX_LINE_LEN"
    and "bytes + length (concat (map field_bytes fs)) \<le> CHTTP1_MAX_TOTAL_HEADER_BYTES" "cnt + length fs \<le> CHTTP1_MAX_HEADER_COUNT"
  shows "\<exists>p'. chttp1_loop st n (concat (map field_bytes fs) @ d) p u h = chttp1_loop st n d p' (fold (\<lambda>(n, v). hf n v) fs u) h
    \<and> headers_at L h hosts fl (cnt + length fs) (bytes + length (concat (map field_bytes fs))) p'"
  using assms(1,2,5,6,7)
proof (induction fs arbitrary: p u cnt bytes)
  case (Cons f fs)
  have pf: "plain_field f" using Cons(3) by simp
  have fr: "header_framing (fst f) (snd f) q = Some (True, q\<lparr>p_host_count := hosts, p_flags := fl\<rparr>)"
    if "p_host_count q = hosts" "p_flags q = fl" for q
  proof -
    have "q\<lparr>p_host_count := hosts, p_flags := fl\<rparr> = q" using that by (cases q) simp
    then show ?thesis using plain_framing [of "fst f" "snd f" q] pf by simp
  qed
  obtain p1 where p1: "chttp1_loop st n (field_bytes f @ concat (map field_bytes fs) @ d) p u h = chttp1_loop st n (concat (map field_bytes fs) @ d) p1 (hf (fst f) (snd f) u) h"
      "headers_at L h hosts fl (cnt + 1) (bytes + length (field_bytes f)) p1"
    using header_step [OF Cons(2) _ _ fr assms(3) assms(4), of n "concat (map field_bytes fs) @ d" u] pf Cons(4,5,6) by (auto simp: plain_field_def)
  show ?case using Cons(1) [OF p1(2), of "hf (fst f) (snd f) u"] Cons(3-6) p1(1) by (simp add: case_prod_unfold add.assoc)
qed auto

section \<open>The request\<close>

text \<open>Callbacks that accept everything and fold what they get into their context.\<close>

definition accepts ::
    "'u chttp1_settings option \<Rightarrow> (byte list \<Rightarrow> byte list \<Rightarrow> 'u \<Rightarrow> 'u) \<Rightarrow> (byte list \<times> byte list \<Rightarrow> 'u \<Rightarrow> 'u) \<Rightarrow> (byte list \<Rightarrow> 'u \<Rightarrow> 'u) \<Rightarrow> bool" where
  "accepts st rl hf g \<longleftrightarrow> takes_body st g
     \<and> (\<forall>p m t u. call_back st on_request_line (\<lambda>f. f p m t) u = (0, rl m t u))
     \<and> (\<forall>p n v u. call_back st on_header (\<lambda>f. f p n v) u = (0, hf (n, v) u))
     \<and> (\<forall>p u. call_back st on_headers_complete (\<lambda>f. f p) u = (CHTTP1_HEADERS_HAS_BODY, u))"

definition request_fields :: "byte list \<Rightarrow> (byte list \<times> byte list) list \<Rightarrow> (byte list \<times> byte list) list" where
  "request_fields host fs = (lit ''Host'', host) # fs @ [(lit ''Transfer-Encoding'', lit ''chunked'')]"

definition request_head :: "byte list \<Rightarrow> byte list \<Rightarrow> byte list \<Rightarrow> (byte list \<times> byte list) list \<Rightarrow> byte list list" where
  "request_head m t host fs = (request_line m t @ [13, 10]) # map field_bytes (request_fields host fs)"

definition request_encode :: "byte list \<Rightarrow> byte list \<Rightarrow> byte list \<Rightarrow> (byte list \<times> byte list) list \<Rightarrow> byte list list \<Rightarrow> byte list" where
  "request_encode m t host fs cs = concat (request_head m t host fs) @ [13, 10] @ chunk_encode cs"

definition head_fits :: "byte list list \<Rightarrow> bool" where
  "head_fits ls \<longleftrightarrow> list_all (\<lambda>l. length l \<le> CHTTP1_MAX_LINE_LEN) ls \<and> length (concat ls) \<le> CHTTP1_MAX_TOTAL_HEADER_BYTES
     \<and> length ls \<le> CHTTP1_MAX_HEADER_COUNT + 1"

lemma headers_done_turn:
  assumes "headers_at L h 1 0x85 cnt bytes p" "accepts st rl hf g"
  obtains p' where "chttp1_turn st n (13 # 10 # d) p u h = Some (None, d, p', u, h)" "between_lines L p' h" "p_state p' = CHTTP1_ST_BODY_CHUNK_SIZE"
proof -
  obtain q where q: "accumulate_line (line_budget p) (13 # 10 # d) p h = Some (LINE_READY, d, q, h)" "between_lines L q h" "strip q = strip p" "p_line_len q = 0"
    using blank_line_turn [of L p h d] assms(1) unfolding headers_at_def by blast
  have f: "p_state q = CHTTP1_ST_HEADERS" "p_type q = CHTTP1_PARSE_REQUEST" "p_http_major q = 1" "p_http_minor q = 1" "p_host_count q = 1" "p_flags q = 0x85"
    using strip_eqD [OF q(3)] assms(1) by (simp_all add: headers_at_def)
  let ?p = "q\<lparr>p_flags := 0x285, p_state := CHTTP1_ST_BODY_CHUNK_SIZE, p_finish_state := CHTTP1_FINISH_UNSAFE\<rparr>"
  have "headers_done st n d q u h = Some (None, d, ?p, u, h)"
    using f assms(2)
    by (simp add: headers_done_def enter_body_def request_headers_ok_def is_1_1_or_later_def accepts_def has_flag_def set_flag_def
        CHTTP1_HEADERS_HAS_BODY_def CHTTP1_HEADERS_NO_BODY_def CHTTP1_HEADERS_DIVERT_BODY_def
        F_CHUNKED_def F_CONTENT_LENGTH_def F_TRANSFER_ENCODING_def F_HEADERS_DONE_def)
  then have "chttp1_turn st n (13 # 10 # d) p u h = Some (None, d, ?p, u, h)"
    using q(1,4) f(1) assms(1) by (simp add: headers_at_def chttp1_turn_def line_turn_def line_ready_def)
  moreover have "between_lines L ?p h" using q(2) by (simp add: between_lines_def)
  ultimately show ?thesis by (rule that) simp
qed

lemma request_head_loop:
  assumes "between_lines L p h" "p_state p = CHTTP1_ST_FIRST_LINE" "p_type p = CHTTP1_PARSE_REQUEST" "accepts st rl hf g" "token_ok m" "target_ok t"
    and "head_fits (request_head m t host fs)" "p_total_header_bytes p = 0" "p_header_count p = 0" "p_host_count p = 0" "p_flags p = 0"
    and "p_max_total_header_bytes_override p = 0" "p_max_header_count_override p = 0"
  obtains p' where "chttp1_loop st n (request_line m t @ 13 # 10 # d) p u h = chttp1_loop st n d p' (rl m t u) h" "headers_at L h 0 0 0 (length (request_line m t) + 2) p'"
proof -
  have l: "length (request_line m t) + 2 \<le> CHTTP1_MAX_LINE_LEN" using assms(7) by (simp add: head_fits_def request_head_def)
  have c: "call_back st on_request_line (\<lambda>f. f p m t) u = (0, rl m t u)" for p using assms(4) by (simp add: accepts_def)
  obtain p' where p': "chttp1_turn st n (request_line m t @ 13 # 10 # d) p u h = Some (None, d, p', rl m t u, h)" "between_lines L p' h"
      "strip p' = strip (p\<lparr>p_total_header_bytes := length (request_line m t) + 2, p_http_major := 1, p_http_minor := 1,
         p_finish_state := CHTTP1_FINISH_UNSAFE, p_state := CHTTP1_ST_HEADERS\<rparr>)"
    using request_line_turn [OF assms(1-3,5,6) c l assms(8,12)] by metis
  have "chttp1_loop st n (request_line m t @ 13 # 10 # d) p u h = chttp1_loop st n d p' (rl m t u) h"
    using chttp1_loop_turn [OF _ p'(1)] by (simp add: request_line_def)
  moreover have "headers_at L h 0 0 0 (length (request_line m t) + 2) p'"
    using p'(2) strip_eqD [OF p'(3)] assms(3,9-13) by (simp add: headers_at_def)
  ultimately show ?thesis by (rule that)
qed

lemma request_fields_loop:
  assumes "headers_at L h 0 0 0 bytes p" "accepts st rl hf g" "host_value_is_valid host" "list_all plain_field fs"
    and "list_all (\<lambda>f. length (field_bytes f) \<le> CHTTP1_MAX_LINE_LEN) (request_fields host fs)" "length (request_fields host fs) \<le> CHTTP1_MAX_HEADER_COUNT"
    and "bytes + length (concat (map field_bytes (request_fields host fs))) \<le> CHTTP1_MAX_TOTAL_HEADER_BYTES"
  shows "\<exists>p' cnt b. chttp1_loop st n (concat (map field_bytes (request_fields host fs)) @ d) p u h = chttp1_loop st n d p' (fold hf (request_fields host fs) u) h
    \<and> headers_at L h 1 0x85 cnt b p'"
proof -
  let ?H = "(lit ''Host'', host)" and ?T = "(lit ''Transfer-Encoding'', lit ''chunked'')"
  let ?fb = "concat (map field_bytes fs)"
  have tok: "token_ok (lit ''Host'')" "token_ok (lit ''Transfer-Encoding'')" "value_ok (lit ''chunked'')" "(0x85 :: flags) AND F_CONTENT_LENGTH = 0" "(0 :: flags) AND F_CONTENT_LENGTH = 0"
    by code_simp+
  have hv: "value_ok host" using value_ok_visible host_visible [OF assms(3)] by blast
  have cb: "call_back st on_header (\<lambda>f. f p n v) u = (0, hf (n, v) u)" for p n v u using assms(2) by (simp add: accepts_def)
  have sz: "length (field_bytes ?H) \<le> CHTTP1_MAX_LINE_LEN" "length (field_bytes ?T) \<le> CHTTP1_MAX_LINE_LEN" "\<And>f. f \<in> set fs \<Longrightarrow> length (field_bytes f) \<le> CHTTP1_MAX_LINE_LEN"
      "Suc (length fs) < CHTTP1_MAX_HEADER_COUNT" "0 < CHTTP1_MAX_HEADER_COUNT" "bytes + length (field_bytes ?H) + length ?fb + length (field_bytes ?T) \<le> CHTTP1_MAX_TOTAL_HEADER_BYTES"
    using assms(5,6,7) by (simp_all add: request_fields_def list_all_iff)
  have fh: "header_framing (fst ?H) (snd ?H) q = Some (True, q\<lparr>p_host_count := 1, p_flags := 0\<rparr>)" if "p_type q = CHTTP1_PARSE_REQUEST" "p_host_count q = 0" "p_flags q = 0" for q
    using host_framing [OF that(1,2) assms(3)] that(3) by (cases q) simp
  have ft: "header_framing (fst ?T) (snd ?T) q = Some (True, q\<lparr>p_host_count := 1, p_flags := 0x85\<rparr>)" if "p_type q = CHTTP1_PARSE_REQUEST" "p_host_count q = 1" "p_flags q = 0" for q
    using chunked_framing [OF that(1,3)] that(2) by (cases q) simp
  have ok: "token_ok (fst ?H)" "value_ok (snd ?H)" "token_ok (fst ?T)" "value_ok (snd ?T)" using tok(1-3) hv by simp_all
  have le: "bytes + length (field_bytes ?H) \<le> CHTTP1_MAX_TOTAL_HEADER_BYTES" "bytes + length (field_bytes ?H) + length ?fb \<le> CHTTP1_MAX_TOTAL_HEADER_BYTES"
      "0 + 1 + length fs \<le> CHTTP1_MAX_HEADER_COUNT" "0 + 1 + length fs < CHTTP1_MAX_HEADER_COUNT"
    using sz(4,6) by simp_all
  have cH: "call_back st on_header (\<lambda>g. g p (fst f) (snd f)) u = (0, hf f u)" for p f u using cb [of p "fst f" "snd f" u] by simp
  obtain p1 where p1: "chttp1_loop st n (field_bytes ?H @ ?fb @ field_bytes ?T @ d) p u h = chttp1_loop st n (?fb @ field_bytes ?T @ d) p1 (hf ?H u) h"
      "headers_at L h 1 0 (0 + 1) (bytes + length (field_bytes ?H)) p1"
    by (rule header_step [OF assms(1) ok(1,2) fh tok(5) cH sz(1) le(1) sz(5)])
  obtain p2 where p2: "chttp1_loop st n (?fb @ field_bytes ?T @ d) p1 (hf ?H u) h = chttp1_loop st n (field_bytes ?T @ d) p2 (fold hf fs (hf ?H u)) h"
      "headers_at L h 1 0 (0 + 1 + length fs) (bytes + length (field_bytes ?H) + length ?fb) p2"
    using plain_fields_loop [OF p1(2) assms(4) tok(5) cb sz(3) le(2,3), of n "field_bytes ?T @ d" "hf ?H u"] unfolding case_prod_eta by blast
  obtain p3 where p3: "chttp1_loop st n (field_bytes ?T @ d) p2 (fold hf fs (hf ?H u)) h = chttp1_loop st n d p3 (hf ?T (fold hf fs (hf ?H u))) h"
      "headers_at L h 1 0x85 (0 + 1 + length fs + 1) (bytes + length (field_bytes ?H) + length ?fb + length (field_bytes ?T)) p3"
    by (rule header_step [OF p2(2) ok(3,4) ft tok(4) cH sz(2,6) le(4)])
  have "chttp1_loop st n (concat (map field_bytes (request_fields host fs)) @ d) p u h = chttp1_loop st n d p3 (fold hf (request_fields host fs) u) h"
    using p1(1) p2(1) p3(1) by (simp add: request_fields_def del: chttp1_loop.simps)
  then show ?thesis using p3(2) by blast
qed

lemma fresh_request:
  assumes "length (p_line_buf p) = CHTTP1_MAX_LINE_LEN" "heap_ok h"
  shows "between_lines (live h) (fresh_parser CHTTP1_PARSE_REQUEST False 0 0 0 p) h"
    "alive (fresh_parser CHTTP1_PARSE_REQUEST False 0 0 0 p)"
  using fresh_parser_inv [OF assms, of CHTTP1_PARSE_REQUEST False 0 0 0]
  by (simp_all add: between_lines_def http1_inv_def)
     (simp_all add: fresh_parser_def chttp1_parser_init_request_def parser_init_common_def)

lemma request_run:
  assumes "length (p_line_buf p) = CHTTP1_MAX_LINE_LEN" "heap_ok h" "accepts st rl hf g" "token_ok m" "target_ok t" "host_value_is_valid host"
    and "list_all plain_field fs" "head_fits (request_head m t host fs)" "list_all (\<lambda>c. c \<noteq> [] \<and> length c < 2 ^ 64) cs"
  shows "\<exists>p'. chttp1_parser_execute st (request_encode m t host fs cs @ rest) (fresh_parser CHTTP1_PARSE_REQUEST False 0 0 0 p) u h
      = Some (CHTTP1_PAUSED, p', fold g cs (fold hf (request_fields host fs) (rl m t u)), h)
    \<and> p_state p' = CHTTP1_ST_MESSAGE_DONE \<and> p_consumed p' = length (request_encode m t host fs cs)"
proof -
  let ?p = "fresh_parser CHTTP1_PARSE_REQUEST False 0 0 0 p"
  let ?L = "live h" and ?n = "length (request_encode m t host fs cs @ rest)"
  let ?b = "13 # 10 # chunk_encode cs @ rest" and ?f = "concat (map field_bytes (request_fields host fs))"
  note fr = fresh_request [OF assms(1,2)]
  have i: "p_state ?p = CHTTP1_ST_FIRST_LINE" "p_type ?p = CHTTP1_PARSE_REQUEST" "p_total_header_bytes ?p = 0" "p_header_count ?p = 0" "p_host_count ?p = 0" "p_flags ?p = 0"
      "p_max_total_header_bytes_override ?p = 0" "p_max_header_count_override ?p = 0"
    by (simp_all add: fresh_parser_def chttp1_parser_init_request_def parser_init_common_def)
  have split: "request_encode m t host fs cs @ rest = request_line m t @ 13 # 10 # ?f @ ?b" by (simp add: request_encode_def request_head_def)
  have fits: "list_all (\<lambda>f. length (field_bytes f) \<le> CHTTP1_MAX_LINE_LEN) (request_fields host fs)" "length (request_fields host fs) \<le> CHTTP1_MAX_HEADER_COUNT"
      "length (request_line m t) + 2 + length ?f \<le> CHTTP1_MAX_TOTAL_HEADER_BYTES"
    using assms(8) by (simp_all add: head_fits_def request_head_def list_all_iff del: length_concat)
  obtain p1 where p1: "chttp1_loop st ?n (request_line m t @ 13 # 10 # ?f @ ?b) ?p u h = chttp1_loop st ?n (?f @ ?b) p1 (rl m t u) h"
      "headers_at ?L h 0 0 0 (length (request_line m t) + 2) p1"
    by (rule request_head_loop [OF fr(1) i(1,2) assms(3-5,8) i(3-8)])
  obtain p2 cnt b where p2: "chttp1_loop st ?n (?f @ ?b) p1 (rl m t u) h = chttp1_loop st ?n ?b p2 (fold hf (request_fields host fs) (rl m t u)) h" "headers_at ?L h 1 0x85 cnt b p2"
    using request_fields_loop [OF p1(2) assms(3,6,7) fits, of ?n ?b "rl m t u"] by blast
  let ?u = "fold hf (request_fields host fs) (rl m t u)"
  obtain p3 where p3: "chttp1_turn st ?n ?b p2 ?u h = Some (None, chunk_encode cs @ rest, p3, ?u, h)" "between_lines ?L p3 h" "p_state p3 = CHTTP1_ST_BODY_CHUNK_SIZE"
    by (rule headers_done_turn [OF p2(2) assms(3)])
  obtain p4 where p4: "chttp1_loop st ?n (chunk_encode cs @ rest) p3 ?u h = Some (CHTTP1_PAUSED, p4, fold g cs ?u, h)" "p_state p4 = CHTTP1_ST_MESSAGE_DONE" "p_consumed p4 = ?n - length rest"
    using chunk_encode_loop [OF p3(2,3) _, of cs st g ?n rest ?u] assms(3,9) unfolding accepts_def list_all_iff by blast
  have "chttp1_parser_execute st (request_encode m t host fs cs @ rest) ?p u h = chttp1_loop st ?n (request_line m t @ 13 # 10 # ?f @ ?b) ?p u h"
    using execute_alive [OF fr(2), of st "request_encode m t host fs cs @ rest" u h] split by (simp only:)
  also have "\<dots> = Some (CHTTP1_PAUSED, p4, fold g cs ?u, h)"
    using p1(1) p2(1) chttp1_loop_turn [OF _ p3(1)] p4(1) by (simp only: list.distinct simp_thms)
  finally show ?thesis using p4(2,3) by simp
qed

section \<open>Properties\<close>

text \<open>
  Claim C6.  A request survives the wire.  Take any method, any target, any host, any list
  of header fields that carry no framing and any list of chunks, write them down as an
  HTTP/1.1 request with a chunked body, and append whatever comes next on the connection:
  the parser completes the message at exactly its last byte, and the callbacks were given
  exactly that method and target, those fields in their order and those chunks in theirs.
\<close>

theorem http1_request_roundtrip:
  assumes "length (p_line_buf p) = CHTTP1_MAX_LINE_LEN" "heap_ok h" "accepts st rl hf g" "token_ok m" "target_ok t" "host_value_is_valid host"
    and "list_all plain_field fs" "head_fits (request_head m t host fs)" "list_all (\<lambda>c. c \<noteq> [] \<and> length c < 2 ^ 64) cs"
  shows "\<exists>p'. chttp1_parser_execute st (request_encode m t host fs cs @ rest) (fresh_parser CHTTP1_PARSE_REQUEST False 0 0 0 p) u h
      = Some (CHTTP1_PAUSED, p', fold g cs (fold hf (request_fields host fs) (rl m t u)), h)
    \<and> chttp1_parser_message_complete p' \<and> chttp1_parser_consumed p' = length (request_encode m t host fs cs)"
  using request_run [OF assms, of rest u] by (simp add: chttp1_parser_message_complete_def chttp1_parser_consumed_def)

text \<open>Callbacks that log what they get, and a request.\<close>

definition log_settings :: "byte list list chttp1_settings" where
  "log_settings =
     \<lparr>on_header = Some (\<lambda>_ n v u. (0, u @ [n, v])), on_trailer = None, on_request_line = Some (\<lambda>_ m t u. (0, u @ [m, t])), on_headers_complete = None,
      on_body = Some (\<lambda>_ c u. (0, u @ [c])), on_message_complete = None\<rparr>"

lemma log_settings_accepts: "accepts (Some log_settings) (\<lambda>m t u. u @ [m, t]) (\<lambda>(n, v) u. u @ [n, v]) (\<lambda>c u. u @ [c])"
  by (simp add: accepts_def takes_body_def call_back_def log_settings_def CHTTP1_HEADERS_HAS_BODY_def)

lemma log_request:
  "token_ok (lit ''PUT'')" "target_ok (lit ''/a'')" "host_value_is_valid (lit ''h:8'')" "list_all plain_field [(lit ''X'', lit ''y z'')]"
  by code_simp+

lemma log_request_fits:
  "head_fits (request_head (lit ''PUT'') (lit ''/a'') (lit ''h:8'') [(lit ''X'', lit ''y z'')])"
  "list_all (\<lambda>c. c \<noteq> [] \<and> length c < 2 ^ 64) [lit ''hello'', lit ''!'']"
  by (simp_all add: head_fits_def request_head_def request_fields_def request_line_def field_bytes_def header_text_def lit_def
      CHTTP1_MAX_LINE_LEN_def CHTTP1_MAX_TOTAL_HEADER_BYTES_def CHTTP1_MAX_HEADER_COUNT_def)

theorem http1_request_roundtrip_witness:
  "\<exists>p'. chttp1_parser_execute (Some log_settings)
        (request_encode (lit ''PUT'') (lit ''/a'') (lit ''h:8'') [(lit ''X'', lit ''y z'')] [lit ''hello'', lit ''!''] @ lit ''GET'')
        (fresh_parser CHTTP1_PARSE_REQUEST False 0 0 0 blank_parser) [] plain_heap
      = Some (CHTTP1_PAUSED, p', [lit ''PUT'', lit ''/a'', lit ''Host'', lit ''h:8'', lit ''X'', lit ''y z'',
          lit ''Transfer-Encoding'', lit ''chunked'', lit ''hello'', lit ''!''], plain_heap)
    \<and> chttp1_parser_message_complete p'"
  using http1_request_roundtrip [OF blank_parser_buf plain_heap_ok(1) log_settings_accepts log_request log_request_fits, of "lit ''GET''" "[]"]
  by (simp add: request_fields_def) blast

text \<open>
  Claim C8.  No message has two framings.  After any input, a parser that has not failed
  satisfies \<^term>\<open>framing_ok\<close>: it never holds both a content length and a chunked coding; a
  counted body comes without any transfer coding; only a response is read to the end of the
  connection; and a request that is past its headers names its host exactly once under
  HTTP/1.1 and its transfer coding, if any, ends in chunked.
\<close>

theorem http1_framing_unambiguous:
  assumes "length (p_line_buf p) = CHTTP1_MAX_LINE_LEN" "heap_ok h"
    and "feed st ds (fresh_parser t spill c b k p) u h = Some (e, p', u', h')" "p_state p' \<noteq> CHTTP1_ST_DEAD"
  shows "framing_ok p'"
proof -
  have "http1_inv (live h) p' h'" using feed_ok [OF fresh_parser_inv [OF assms(1,2)], of st ds t spill c b k u] assms(3) by (auto simp: outcome_ok_def)
  then show ?thesis using assms(4) by (simp add: http1_inv_def live_ok_def)
qed

theorem http1_framing_unambiguous_witness:
  "\<exists>e p' u' h'. feed (Some log_settings) [request_encode (lit ''PUT'') (lit ''/a'') (lit ''h:8'') [(lit ''X'', lit ''y z'')] [lit ''hello'', lit ''!'']]
        (fresh_parser CHTTP1_PARSE_REQUEST False 0 0 0 blank_parser) [] plain_heap = Some (e, p', u', h')
     \<and> p_state p' = CHTTP1_ST_MESSAGE_DONE \<and> framing_ok p'"
proof -
  let ?r = "request_encode (lit ''PUT'') (lit ''/a'') (lit ''h:8'') [(lit ''X'', lit ''y z'')] [lit ''hello'', lit ''!'']"
  let ?p = "fresh_parser CHTTP1_PARSE_REQUEST False 0 0 0 blank_parser"
  obtain p' u' where e: "chttp1_parser_execute (Some log_settings) ?r ?p [] plain_heap = Some (CHTTP1_PAUSED, p', u', plain_heap)" "p_state p' = CHTTP1_ST_MESSAGE_DONE"
    using request_run [OF blank_parser_buf plain_heap_ok(1) log_settings_accepts log_request log_request_fits, of "[]" "[]"] unfolding append_Nil2 by blast
  have f: "feed (Some log_settings) [?r] ?p [] plain_heap = Some (CHTTP1_PAUSED, p', u', plain_heap)" using e(1) by simp
  have "framing_ok p'" using http1_framing_unambiguous [OF blank_parser_buf plain_heap_ok(1) f] e(2) by simp
  then show ?thesis using f e(2) by blast
qed

text \<open>
  Claim C24.  A truncated message is never taken for a whole one.  When the connection ends
  while a message is being read, \<^verbatim>\<open>chttp1_parser_finish\<close> reports an error and kills the
  parser, except for a response whose body is framed by the end of the connection: that one
  completes, unless its callback objects, the connection is not offered for another
  message, and a second call reports the boundary without completing it again.
\<close>

theorem http1_truncation_detected:
  assumes "length (p_line_buf p) = CHTTP1_MAX_LINE_LEN" "heap_ok h"
    and "feed st ds (fresh_parser t spill c b k p) u h = Some (CHTTP1_OK, p', u', h')" "chttp1_parser_finish st p' u' = (e, q, v)"
  shows "if p_state p' = CHTTP1_ST_BODY_EOF
    then p_type p' = CHTTP1_PARSE_RESPONSE \<and> \<not> chttp1_should_keep_alive q
      \<and> (e = CHTTP1_USER \<and> p_state q = CHTTP1_ST_DEAD
         \<or> e = CHTTP1_PAUSED \<and> chttp1_parser_message_complete q \<and> chttp1_parser_finish st q v = (CHTTP1_OK, q, v))
    else e = CHTTP1_ERROR \<and> p_state q = CHTTP1_ST_DEAD \<and> v = u'"
proof -
  have o: "outcome_ok (live h) (length (concat ds)) CHTTP1_OK p' h'"
    using feed_ok [OF fresh_parser_inv [OF assms(1,2)], of st ds t spill c b k u] assms(3) by auto
  then have al: "alive p'" and fr: "framing_ok p'" by (auto simp: outcome_ok_def http1_inv_def live_ok_def alive_def)
  have st: "p_finish_state p' = (if p_state p' = CHTTP1_ST_BODY_EOF then CHTTP1_FINISH_SAFE_WITH_CB else CHTTP1_FINISH_UNSAFE)"
    using fr al by (cases "p_state p'") (simp_all add: framing_ok_def alive_def)
  show ?thesis
  proof (cases "p_state p' = CHTTP1_ST_BODY_EOF")
    case True
    have r: "p_type p' = CHTTP1_PARSE_RESPONSE" using fr True by (simp add: framing_ok_def)
    obtain x u1 where x: "call_back st on_message_complete (\<lambda>f. f p') u' = (x, u1)" by fastforce
    have f: "p_finish_state p' = CHTTP1_FINISH_SAFE_WITH_CB" using st True by simp
    have kill: "\<not> chttp1_should_keep_alive z" if "p_finish_state z = CHTTP1_FINISH_SAFE_WITH_CB" for z
      using that by (simp add: chttp1_should_keep_alive_def)
    show ?thesis
    proof (cases "x = 0")
      case False
      then have "e = CHTTP1_USER" "q = snd (user_error p')" using assms(4) True f x by (simp_all add: chttp1_parser_finish_def user_error_def Let_def)
      then show ?thesis using True r f kill by (simp add: user_error_def set_reason_def Let_def)
    next
      case ok: True
      then have "e = CHTTP1_PAUSED" "q = p'\<lparr>p_state := CHTTP1_ST_MESSAGE_DONE\<rparr>" using assms(4) True f x by (simp_all add: chttp1_parser_finish_def)
      then show ?thesis using True r f kill [of q] by (simp add: chttp1_parser_message_complete_def chttp1_parser_finish_def)
    qed
  next
    case False
    then show ?thesis using assms(4) st al by (auto simp: chttp1_parser_finish_def fail_def alive_def)
  qed
qed

theorem http1_truncation_detected_witness:
  "\<exists>p' u' q v. feed (Some log_settings) [request_line (lit ''PUT'') (lit ''/a'') @ [13, 10]] (fresh_parser CHTTP1_PARSE_REQUEST False 0 0 0 blank_parser) [] plain_heap
        = Some (CHTTP1_OK, p', u', plain_heap)
     \<and> chttp1_parser_finish (Some log_settings) p' u' = (CHTTP1_ERROR, q, v) \<and> p_state q = CHTTP1_ST_DEAD"
proof -
  let ?l = "request_line (lit ''PUT'') (lit ''/a'') @ [13, 10]" and ?p = "fresh_parser CHTTP1_PARSE_REQUEST False 0 0 0 blank_parser"
  note fr = fresh_request [OF blank_parser_buf plain_heap_ok(1)]
  have i: "p_state ?p = CHTTP1_ST_FIRST_LINE" "p_type ?p = CHTTP1_PARSE_REQUEST" "p_total_header_bytes ?p = 0" "p_header_count ?p = 0" "p_host_count ?p = 0" "p_flags ?p = 0"
      "p_max_total_header_bytes_override ?p = 0" "p_max_header_count_override ?p = 0"
    by (simp_all add: fresh_parser_def chttp1_parser_init_request_def parser_init_common_def)
  obtain p' u' where p': "chttp1_loop (Some log_settings) (length ?l) ?l ?p [] plain_heap = chttp1_loop (Some log_settings) (length ?l) [] p' u' plain_heap"
      "headers_at (live plain_heap) plain_heap 0 0 0 (length (request_line (lit ''PUT'') (lit ''/a'')) + 2) p'"
    by (rule request_head_loop [OF fr(1) i(1,2) log_settings_accepts log_request(1,2) log_request_fits(1) i(3-8)])
  have f: "feed (Some log_settings) [?l] ?p [] plain_heap = Some (CHTTP1_OK, p', u', plain_heap)"
    using p'(1) execute_alive [OF fr(2), of "Some log_settings" ?l "[]" plain_heap] by (simp add: shifted_def)
  obtain e q v where e: "chttp1_parser_finish (Some log_settings) p' u' = (e, q, v)" by (metis prod_cases3)
  have "e = CHTTP1_ERROR \<and> p_state q = CHTTP1_ST_DEAD"
    using http1_truncation_detected [OF blank_parser_buf plain_heap_ok(1) f e] p'(2) by (simp add: headers_at_def)
  then show ?thesis using f e by blast
qed

section \<open>The last byte of the header budget\<close>

text \<open>
  A response parser whose line has spilled, with one byte of the header budget left, refuses
  the blank line that ends the headers: the capacity of the line is then that one byte,
  although the blank line is not charged to the budget.  With no byte left the capacity is
  the whole buffer again, and the blank line is read.
\<close>

lemma spilled_capacity:
  assumes "p_line_spill p \<noteq> None" "p_state p = CHTTP1_ST_HEADERS"
  shows "header_spill_budget p = 1 \<Longrightarrow> line_cap (line_budget p) p = 1" "header_spill_budget p = 0 \<Longrightarrow> line_cap (line_budget p) p = CHTTP1_MAX_SPILL_LINE_LEN"
  using assms by (simp_all add: line_cap_def spill_cap_def line_budget_def CHTTP1_MAX_SPILL_LINE_LEN_def)

theorem spilled_blank_line_refused:
  assumes "base_inv L p h" "p_line_spill p \<noteq> None" "p_state p = CHTTP1_ST_HEADERS" "p_line_len p = 0" "header_spill_budget p = 1"
  shows "\<exists>p'. chttp1_parser_execute st [13, 10] p u h = Some (CHTTP1_ERROR, p', u, h) \<and> p_reason p' = Some ''Header line too long''"
proof -
  have al: "alive p" using assms(3) by (simp add: alive_def)
  have len: "0 < length (line_ptr p)" using assms(1,2) by (auto simp: base_inv_def buf_size_def CHTTP1_MAX_SPILL_LINE_LEN_def)
  obtain q where q: "line_store p 0 13 = Some q" using line_store_ptr [OF len] by metis
  have sq: "p_line_spill q \<noteq> None" "p_state q = p_state p" using line_store_spilled [OF q] assms(2) strip_eqD(1) [OF line_store_strip [OF q]] by auto
  have lb: "line_budget p = 1" using assms(3,5) by (simp add: line_budget_def)
  have "accumulate_line 1 [13, 10] p h = accumulate_loop 1 1 1 [10] q h"
    using spilled_capacity(1) [OF assms(2,3,5)] lb assms(4) accumulate_char [OF _ q, of 1 1 "[10]" h] by (simp add: accumulate_line_eq)
  also have "\<dots> = Some (LINE_TOO_LONG, [], q\<lparr>p_line_len := 1\<rparr>, h)"
    using sq(1) by (subst accumulate_loop.simps(2)) (simp add: line_spill_grow_def)
  finally have "chttp1_turn st 2 [13, 10] p u h = return_with (fail ''Header line too long'' (q\<lparr>p_line_len := 1\<rparr>)) [] u h"
    using assms(3) lb sq(2) by (simp add: chttp1_turn_def line_turn_def too_long_reason_def)
  then have "chttp1_loop st 2 [13, 10] p u h = Some (CHTTP1_ERROR, (q\<lparr>p_line_len := 1, p_reason := Some ''Header line too long'', p_state := CHTTP1_ST_DEAD\<rparr>), u, h)"
    by (subst chttp1_loop.simps) (simp add: return_with_def fail_def set_reason_def)
  then show ?thesis using execute_alive [OF al, of st "[13, 10]" u h] by (simp add: numeral_2_eq_2)
qed

end
