(* ===== verification/CCol_Utf8.thy ===== *)
theory CCol_Utf8
  imports CCol_Http1_Lex
begin

text \<open>
  \<^verbatim>\<open>include/internal/cutf8.h\<close>: the check of UTF-8 that the JSON and the YAML modules share,
  and the encoder \<^verbatim>\<open>encode_utf8\<close> of \<^verbatim>\<open>src/cjson.c\<close>.  The check accepts exactly the
  encodings of sequences of Unicode scalar values.
\<close>

unbundle bit_operations_syntax

section \<open>The check\<close>

text \<open>The table of lead bytes: how many bytes follow, and the range of the first of them.\<close>

definition utf8_lead :: "byte \<Rightarrow> (size_t \<times> byte \<times> byte) option" where
  "utf8_lead b0 =
     (if b0 \<ge> 0xC2 \<and> b0 \<le> 0xDF then Some (1, 0x80, 0xBF)
      else if b0 = 0xE0 then Some (2, 0xA0, 0xBF)
      else if b0 = 0xED then Some (2, 0x80, 0x9F)
      else if b0 \<ge> 0xE1 \<and> b0 \<le> 0xEF then Some (2, 0x80, 0xBF)
      else if b0 = 0xF0 then Some (3, 0x90, 0xBF)
      else if b0 = 0xF4 then Some (3, 0x80, 0x8F)
      else if b0 \<ge> 0xF1 \<and> b0 \<le> 0xF3 then Some (3, 0x80, 0xBF)
      else None)"

definition is_trail :: "byte \<Rightarrow> bool" where
  "is_trail b \<longleftrightarrow> \<not> (b < 0x80 \<or> b > 0xBF)"

text \<open>The loop over the further bytes, from position \<open>i\<close> on.\<close>

function utf8_trail :: "size_t \<Rightarrow> byte list \<Rightarrow> size_t \<Rightarrow> (bool \<times> size_t) option" where
  "utf8_trail trail s i =
     (if i \<le> trail then
        if length s \<le> i then Some (False, i)
        else do {
          b \<leftarrow> rd s i;
          if \<not> is_trail b then Some (False, i) else utf8_trail trail s (i + 1)
        }
      else Some (True, trail + 1))"
  by pat_completeness auto
termination by (relation "measure (\<lambda>(trail, _, i). trail + 1 - i)") auto

definition ccol_utf8_step :: "byte list \<Rightarrow> (bool \<times> size_t) option" where
  "ccol_utf8_step s = do {
     b0 \<leftarrow> rd s 0;
     if b0 < 0x80 then Some (True, 1)
     else
       case utf8_lead b0 of
         None \<Rightarrow> Some (False, 1)
       | Some (trail, lo, hi) \<Rightarrow>
           if length s < 2 then Some (False, 1)
           else do {
             b1 \<leftarrow> rd s 1;
             if b1 < lo \<or> b1 > hi then Some (False, 1) else utf8_trail trail s 2
           }
   }"

declare utf8_trail.simps [simp del]

lemma utf8_trail_pos: "utf8_trail trail s i = Some (ok, k) \<Longrightarrow> i > 0 \<Longrightarrow> k > 0"
  by (induction trail s i rule: utf8_trail.induct) (subst (asm) (2) utf8_trail.simps, auto split: if_splits bind_splits)

lemma ccol_utf8_step_pos: "ccol_utf8_step s = Some (ok, k) \<Longrightarrow> k > 0"
  by (auto simp: ccol_utf8_step_def split: if_splits bind_splits option.splits dest!: utf8_trail_pos [where i = 2, simplified])

text \<open>
  The walk that \<^verbatim>\<open>ccol_utf8_is_valid\<close> and \<^verbatim>\<open>ccol_utf8_first_ill_formed\<close> share: how many
  bytes it steps over before the first ill-formed sequence.
\<close>

function utf8_walk :: "byte list \<Rightarrow> size_t option" where
  "utf8_walk s =
     (case s of
        [] \<Rightarrow> Some 0
      | b # r \<Rightarrow>
          if b < 0x80 then map_option (\<lambda>n. n + 1) (utf8_walk r)
          else
            case ccol_utf8_step s of
              None \<Rightarrow> None
            | Some (ok, k) \<Rightarrow> if \<not> ok then Some 0 else map_option (\<lambda>n. n + k) (utf8_walk (drop k s)))"
  by pat_completeness auto
termination by (relation "measure length") (auto dest: ccol_utf8_step_pos)

declare utf8_walk.simps [simp del]

definition ccol_utf8_first_ill_formed :: "byte list \<Rightarrow> size_t option" where
  "ccol_utf8_first_ill_formed s = utf8_walk s"

definition ccol_utf8_is_valid :: "byte list \<Rightarrow> bool option" where
  "ccol_utf8_is_valid s = map_option (\<lambda>n. n = length s) (utf8_walk s)"

text \<open>
  A text that \<^verbatim>\<open>snprintf\<close> or \<^verbatim>\<open>vsnprintf\<close> formats: the format and its arguments, numbers and
  further texts.
\<close>

datatype fmt = Fmt string "fmt_arg list"
  and fmt_arg = Num nat | Sub fmt

definition ccol_utf8_describe_ill_formed :: "byte list \<Rightarrow> size_t \<Rightarrow> (string \<times> fmt) option" where
  "ccol_utf8_describe_ill_formed p at = do {
     c \<leftarrow> rd p at;
     let c1 = (if at + 1 < length p then p ! (at + 1) else 0);
     (ok, step) \<leftarrow> ccol_utf8_step (drop at p);
     if c \<le> 0xBF then Some (''continuation byte with no lead byte'', Fmt ''0x%02x'' [Num (unat c)])
     else if c \<le> 0xC1 then Some (''overlong encoding'', Fmt ''lead byte 0x%02x'' [Num (unat c)])
     else if c \<ge> 0xF5 then Some (''byte that never appears in UTF-8'', Fmt ''0x%02x'' [Num (unat c)])
     else if at + step \<ge> length p
     then Some (''sequence truncated by the end of the input'', Fmt ''lead byte 0x%02x'' [Num (unat c)])
     else if step = 1 \<and> c1 \<ge> 0x80 \<and> c1 \<le> 0xBF
     then Some (if c = 0xED then ''encoded surrogate code point'' else if c = 0xF4 then ''code point above U+10FFFF'' else ''overlong encoding'',
                Fmt ''bytes 0x%02x 0x%02x'' [Num (unat c), Num (unat c1)])
     else do {
       e \<leftarrow> rd p (at + step);
       Some (''truncated sequence'', Fmt ''lead byte 0x%02x, then 0x%02x where a continuation byte is expected'' [Num (unat c), Num (unat e)])
     }
   }"

section \<open>The encoder\<close>

definition utf8_bytes :: "32 word \<Rightarrow> byte list" where
  "utf8_bytes cp =
     (if cp \<le> 0x7F then [ucast cp]
      else if cp \<le> 0x7FF then [ucast (0xC0 OR drop_bit 6 cp), ucast (0x80 OR (cp AND 0x3F))]
      else if cp \<le> 0xFFFF then
        [ucast (0xE0 OR drop_bit 12 cp), ucast (0x80 OR (drop_bit 6 cp AND 0x3F)), ucast (0x80 OR (cp AND 0x3F))]
      else
        [ucast (0xF0 OR drop_bit 18 cp), ucast (0x80 OR (drop_bit 12 cp AND 0x3F)),
         ucast (0x80 OR (drop_bit 6 cp AND 0x3F)), ucast (0x80 OR (cp AND 0x3F))])"

definition scalar_value :: "32 word \<Rightarrow> bool" where
  "scalar_value cp \<longleftrightarrow> cp < 0xD800 \<or> 0xDFFF < cp \<and> cp \<le> 0x10FFFF"

section \<open>Code points in arithmetic\<close>

definition enc :: "nat \<Rightarrow> nat list" where
  "enc n =
     (if n \<le> 0x7F then [n]
      else if n \<le> 0x7FF then [0xC0 + n div 64, 0x80 + n mod 64]
      else if n \<le> 0xFFFF then [0xE0 + n div 4096, 0x80 + n div 64 mod 64, 0x80 + n mod 64]
      else [0xF0 + n div 262144, 0x80 + n div 4096 mod 64, 0x80 + n div 64 mod 64, 0x80 + n mod 64])"

lemma or_leads:
  "\<forall>x \<in> set [0..<64]. ucast (0x80 OR (of_nat x :: 32 word)) = (of_nat (0x80 + x) :: byte)"
  "\<forall>x \<in> set [0..<32]. ucast (0xC0 OR (of_nat x :: 32 word)) = (of_nat (0xC0 + x) :: byte)"
  "\<forall>x \<in> set [0..<16]. ucast (0xE0 OR (of_nat x :: 32 word)) = (of_nat (0xE0 + x) :: byte)"
  "\<forall>x \<in> set [0..<8]. ucast (0xF0 OR (of_nat x :: 32 word)) = (of_nat (0xF0 + x) :: byte)"
  by code_simp+

lemma or_lead:
  "x < 64 \<Longrightarrow> ucast (0x80 OR (of_nat x :: 32 word)) = (of_nat (0x80 + x) :: byte)"
  "x < 32 \<Longrightarrow> ucast (0xC0 OR (of_nat x :: 32 word)) = (of_nat (0xC0 + x) :: byte)"
  "x < 16 \<Longrightarrow> ucast (0xE0 OR (of_nat x :: 32 word)) = (of_nat (0xE0 + x) :: byte)"
  "x < 8 \<Longrightarrow> ucast (0xF0 OR (of_nat x :: 32 word)) = (of_nat (0xF0 + x) :: byte)"
  using or_leads by (auto simp only: set_upt atLeastLessThan_iff zero_le)

lemma drop_bit_of_nat_word:
  assumes "n < 2 ^ 32"
  shows "drop_bit k (of_nat n :: 32 word) = of_nat (n div 2 ^ k)"
proof -
  have "n div 2 ^ k < 2 ^ 32" using assms by (rule le_less_trans [OF div_le_dividend])
  moreover have "unat (drop_bit k (of_nat n :: 32 word)) = n div 2 ^ k"
    using assms unfolding unat_drop_bit_eq by (simp add: unat_of_nat drop_bit_eq_div)
  ultimately show ?thesis unfolding word_unat_eq_iff by (simp add: unat_of_nat)
qed

lemma and_63_of_nat:
  assumes "n < 2 ^ 32"
  shows "(of_nat n :: 32 word) AND 0x3F = of_nat (n mod 64)"
proof -
  have m: "(0x3F :: 32 word) = mask 6" by (simp add: mask_eq_exp_minus_1)
  have "n mod 64 < 2 ^ 32" by (rule less_trans [OF mod_less_divisor]) simp_all
  moreover have "unat (take_bit 6 (of_nat n :: 32 word)) = n mod 64"
    using assms unfolding unsigned_take_bit_eq by (simp add: unat_of_nat take_bit_eq_mod)
  ultimately have "take_bit 6 (of_nat n :: 32 word) = of_nat (n mod 64)"
    unfolding word_unat_eq_iff by (simp add: unat_of_nat)
  then show ?thesis unfolding m by (simp add: take_bit_eq_mask)
qed

lemma ucast_of_nat_small: "n \<le> 0x7F \<Longrightarrow> ucast (of_nat n :: 32 word) = (of_nat n :: byte)"
  by (simp add: word_unat_eq_iff unsigned_ucast_eq unat_of_nat take_bit_eq_mod)

lemma utf8_bytes_enc: "n < 0x110000 \<Longrightarrow> utf8_bytes (of_nat n) = map of_nat (enc n)"
proof -
  assume n: "n < 0x110000"
  have u: "unat (of_nat n :: 32 word) = n" using n by (simp add: unat_of_nat)
  have small: "n div 64 < 2 ^ 32" "n div 4096 < 2 ^ 32" using n by auto
  have cmp: "(of_nat n :: 32 word) \<le> 0x7F \<longleftrightarrow> n \<le> 0x7F" "(of_nat n :: 32 word) \<le> 0x7FF \<longleftrightarrow> n \<le> 0x7FF" "(of_nat n :: 32 word) \<le> 0xFFFF \<longleftrightarrow> n \<le> 0xFFFF"
    using u by (simp_all add: word_le_nat_alt)
  have bits: "drop_bit 6 (of_nat n :: 32 word) = of_nat (n div 64)" "drop_bit 12 (of_nat n :: 32 word) = of_nat (n div 4096)" "drop_bit 18 (of_nat n :: 32 word) = of_nat (n div 262144)"
      "(of_nat n :: 32 word) AND 0x3F = of_nat (n mod 64)" "(of_nat (n div 64) :: 32 word) AND 0x3F = of_nat (n div 64 mod 64)"
      "(of_nat (n div 4096) :: 32 word) AND 0x3F = of_nat (n div 4096 mod 64)"
    using n small by (simp_all add: drop_bit_of_nat_word and_63_of_nat)
  have top: "n \<le> 0x7FF \<Longrightarrow> n div 64 < 32" "n \<le> 0xFFFF \<Longrightarrow> n div 4096 < 16" "n div 262144 < 8" using n by auto
  show ?thesis
    unfolding utf8_bytes_def enc_def cmp bits using top or_lead ucast_of_nat_small [of n] by simp
qed

definition scalar :: "nat \<Rightarrow> bool" where
  "scalar n \<longleftrightarrow> n < 0xD800 \<or> 0xDFFF < n \<and> n \<le> 0x10FFFF"

lemmas byte_nat = word_le_nat_alt word_less_nat_alt word_unat_eq_iff unat_of_nat

lemma digits_64:
  fixes n :: nat
  shows "n = 64 * (n div 64) + n mod 64" "n div 64 = 64 * (n div 4096) + n div 64 mod 64" "n div 4096 = 64 * (n div 262144) + n div 4096 mod 64"
proof -
  have "n div 4096 = n div 64 div 64" "n div 262144 = n div 4096 div 64" by (simp_all add: div_mult2_eq [symmetric])
  then show "n = 64 * (n div 64) + n mod 64" "n div 64 = 64 * (n div 4096) + n div 64 mod 64" "n div 4096 = 64 * (n div 262144) + n div 4096 mod 64"
    by simp_all
qed

lemma enc_cases [case_names one two three four]:
  obtains (one) "n \<le> 0x7F" "enc n = [n]"
  | (two) q r where "n = 64 * q + r" "r < 64" "2 \<le> q" "q < 32" "enc n = [0xC0 + q, 0x80 + r]"
  | (three) q m r where "n = 4096 * q + 64 * m + r" "r < 64" "m < 64" "q < 16" "q = 0 \<longrightarrow> 32 \<le> m" "enc n = [0xE0 + q, 0x80 + m, 0x80 + r]"
  | (four) q m l r where "n = 262144 * q + 4096 * m + 64 * l + r" "r < 64" "l < 64" "m < 64" "q = 0 \<longrightarrow> 16 \<le> m"
      "enc n = [0xF0 + q, 0x80 + m, 0x80 + l, 0x80 + r]"
proof (cases "n \<le> 0x7F")
  case True
  then show ?thesis using one by (simp add: enc_def)
next
  case F1: False
  have lt: "n mod 64 < 64" "n div 64 mod 64 < 64" "n div 4096 mod 64 < 64" by simp_all
  show ?thesis
  proof (cases "n \<le> 0x7FF")
    case True
    show ?thesis by (rule two [of "n div 64" "n mod 64"]) (use F1 True in \<open>auto simp: enc_def\<close>)
  next
    case F2: False
    show ?thesis
    proof (cases "n \<le> 0xFFFF")
      case True
      have "n = 4096 * (n div 4096) + 64 * (n div 64 mod 64) + n mod 64" "n div 4096 = 0 \<longrightarrow> 32 \<le> n div 64 mod 64"
        using F2 lt digits_64 [of n] by linarith+
      moreover have "enc n = [0xE0 + n div 4096, 0x80 + n div 64 mod 64, 0x80 + n mod 64]" "n div 4096 < 16" using F1 F2 True by (simp_all add: enc_def)
      ultimately show ?thesis using lt by (intro three [of "n div 4096" "n div 64 mod 64" "n mod 64"])
    next
      case False
      have "n = 262144 * (n div 262144) + 4096 * (n div 4096 mod 64) + 64 * (n div 64 mod 64) + n mod 64" "n div 262144 = 0 \<longrightarrow> 16 \<le> n div 4096 mod 64"
        using False lt digits_64 [of n] by linarith+
      moreover have "enc n = [0xF0 + n div 262144, 0x80 + n div 4096 mod 64, 0x80 + n div 64 mod 64, 0x80 + n mod 64]" using F1 F2 False by (simp add: enc_def)
      ultimately show ?thesis using lt by (intro four [of "n div 262144" "n div 4096 mod 64" "n div 64 mod 64" "n mod 64"])
    qed
  qed
qed

section \<open>Accepted sequences\<close>

text \<open>The shapes of an accepted sequence.\<close>

inductive utf8_seq :: "byte list \<Rightarrow> bool" where
  one: "b0 < 0x80 \<Longrightarrow> utf8_seq [b0]"
| two: "\<not> b0 < 0x80 \<Longrightarrow> utf8_lead b0 = Some (1, lo, hi) \<Longrightarrow> lo \<le> b1 \<Longrightarrow> b1 \<le> hi \<Longrightarrow> utf8_seq [b0, b1]"
| three: "\<not> b0 < 0x80 \<Longrightarrow> utf8_lead b0 = Some (2, lo, hi) \<Longrightarrow> lo \<le> b1 \<Longrightarrow> b1 \<le> hi \<Longrightarrow> is_trail b2 \<Longrightarrow> utf8_seq [b0, b1, b2]"
| four: "\<not> b0 < 0x80 \<Longrightarrow> utf8_lead b0 = Some (3, lo, hi) \<Longrightarrow> lo \<le> b1 \<Longrightarrow> b1 \<le> hi \<Longrightarrow> is_trail b2 \<Longrightarrow> is_trail b3 \<Longrightarrow> utf8_seq [b0, b1, b2, b3]"

lemma utf8_seq_step: "utf8_seq w \<Longrightarrow> ccol_utf8_step (w @ t) = Some (True, length w)"
  by (induction rule: utf8_seq.induct) (simp_all add: ccol_utf8_step_def rd_def utf8_trail.simps not_less not_le)

lemma utf8_lead_trail: "utf8_lead b = Some (trail, lo, hi) \<Longrightarrow> trail = 1 \<or> trail = 2 \<or> trail = 3"
  by (auto simp: utf8_lead_def split: if_splits)

lemma step_utf8_seq:
  assumes "ccol_utf8_step s = Some (True, k)"
  shows "\<exists>w t. s = w @ t \<and> k = length w \<and> utf8_seq w"
proof -
  obtain b0 s1 where s: "s = b0 # s1" using assms by (cases s) (auto simp: ccol_utf8_step_def rd_def)
  show ?thesis
  proof (cases "b0 < 0x80")
    case True
    then have "s = [b0] @ s1" "k = length [b0]" "utf8_seq [b0]" using assms s by (auto simp: ccol_utf8_step_def rd_def intro: utf8_seq.one)
    then show ?thesis by blast
  next
    case F: False
    obtain trail lo hi b1 s2 where l: "utf8_lead b0 = Some (trail, lo, hi)" "s1 = b1 # s2" "lo \<le> b1" "b1 \<le> hi" "utf8_trail trail s 2 = Some (True, k)"
      using assms s F by (cases s1) (auto simp: ccol_utf8_step_def rd_def not_less split: option.splits if_splits)
    consider "trail = 1" | "trail = 2" | "trail = 3" using utf8_lead_trail [OF l(1)] by blast
    then show ?thesis
    proof cases
      case 1
      then have "s = [b0, b1] @ s2" "k = length [b0, b1]" "utf8_seq [b0, b1]" using s F l by (auto simp: utf8_trail.simps intro: utf8_seq.two)
      then show ?thesis by blast
    next
      case 2
      then obtain b2 s3 where "s2 = b2 # s3" "is_trail b2" "k = 3" using s l by (cases s2) (auto simp: utf8_trail.simps rd_def split: if_splits)
      then have "s = [b0, b1, b2] @ s3" "k = length [b0, b1, b2]" "utf8_seq [b0, b1, b2]" using s F l 2 by (auto intro: utf8_seq.three)
      then show ?thesis by blast
    next
      case 3
      then obtain b2 b3 s4 where "s2 = b2 # b3 # s4" "is_trail b2" "is_trail b3" "k = 4" using s l
        by (cases s2; cases "tl s2") (auto simp: utf8_trail.simps rd_def split: if_splits)
      then have "s = [b0, b1, b2, b3] @ s4" "k = length [b0, b1, b2, b3]" "utf8_seq [b0, b1, b2, b3]" using s F l 3 by (auto intro: utf8_seq.four)
      then show ?thesis by blast
    qed
  qed
qed

lemma utf8_lead_nat:
  "utf8_lead b =
     (let x = unat b
      in if x \<ge> 194 \<and> x \<le> 223 then Some (1, 128, 191) else if x = 224 then Some (2, 160, 191) else if x = 237 then Some (2, 128, 159)
         else if x \<ge> 225 \<and> x \<le> 239 then Some (2, 128, 191) else if x = 240 then Some (3, 144, 191) else if x = 244 then Some (3, 128, 143)
         else if x \<ge> 241 \<and> x \<le> 243 then Some (3, 128, 191) else None)"
  by (simp add: utf8_lead_def Let_def word_le_nat_alt word_unat_eq_iff)

lemma unat_byte: "x < 256 \<Longrightarrow> unat (of_nat x :: byte) = x"
  by (simp add: unat_of_nat)

lemma scalar_utf8_seq:
  assumes "scalar n"
  shows "utf8_seq (map of_nat (enc n))"
proof (cases n rule: enc_cases)
  case one
  have "(of_nat n :: byte) < 0x80" using unat_byte [of n] one(1) by (simp add: word_less_nat_alt)
  then show ?thesis using one by (simp add: utf8_seq.one)
next
  case (two q r)
  let ?a = "of_nat (0xC0 + q) :: byte" and ?b = "of_nat (0x80 + r) :: byte"
  have u: "unat ?a = 0xC0 + q" "unat ?b = 0x80 + r" using two by (intro unat_byte; simp)+
  have "utf8_lead ?a = Some (1, 0x80, 0xBF)" "\<not> ?a < 0x80" "0x80 \<le> ?b" "?b \<le> 0xBF"
    unfolding utf8_lead_nat Let_def word_le_nat_alt word_less_nat_alt u using two by simp_all
  then have "utf8_seq [?a, ?b]" by (intro utf8_seq.two)
  then show ?thesis using two by simp
next
  case (three q m r)
  let ?a = "of_nat (0xE0 + q) :: byte" and ?b = "of_nat (0x80 + m) :: byte" and ?c = "of_nat (0x80 + r) :: byte"
  have u: "unat ?a = 0xE0 + q" "unat ?b = 0x80 + m" "unat ?c = 0x80 + r" using three by (intro unat_byte; simp)+
  have lim: "q = 13 \<longrightarrow> m < 32" using three assms by (auto simp: scalar_def)
  have "\<exists>lo hi. utf8_lead ?a = Some (2, lo, hi) \<and> lo \<le> ?b \<and> ?b \<le> hi"
    unfolding utf8_lead_nat Let_def u using three lim u(2) by (auto simp: word_le_nat_alt)
  moreover have "\<not> ?a < 0x80" "is_trail ?c" unfolding is_trail_def word_less_nat_alt u using three by simp_all
  ultimately have "utf8_seq [?a, ?b, ?c]" using utf8_seq.three by blast
  then show ?thesis using three by simp
next
  case (four q m l r)
  let ?a = "of_nat (0xF0 + q) :: byte" and ?b = "of_nat (0x80 + m) :: byte" and ?c = "of_nat (0x80 + l) :: byte" and ?d = "of_nat (0x80 + r) :: byte"
  have lim: "q < 4 \<or> q = 4 \<and> m < 16" using four assms by (auto simp: scalar_def)
  have u: "unat ?a = 0xF0 + q" "unat ?b = 0x80 + m" "unat ?c = 0x80 + l" "unat ?d = 0x80 + r" using four lim by (intro unat_byte; auto)+
  have "\<exists>lo hi. utf8_lead ?a = Some (3, lo, hi) \<and> lo \<le> ?b \<and> ?b \<le> hi"
    unfolding utf8_lead_nat Let_def u using four lim u(2) by (auto simp: word_le_nat_alt)
  moreover have "\<not> ?a < 0x80" "is_trail ?c" "is_trail ?d" unfolding is_trail_def word_less_nat_alt u using four by simp_all
  ultimately have "utf8_seq [?a, ?b, ?c, ?d]" using utf8_seq.four by blast
  then show ?thesis using four by simp
qed

lemma div_mod_64: "r < 64 \<Longrightarrow> n = 64 * a + r \<Longrightarrow> n div 64 = a \<and> n mod 64 = (r :: nat)"
  by simp

lemma enc_value:
  "r < 64 \<Longrightarrow> 2 \<le> q \<Longrightarrow> q < 32 \<Longrightarrow> enc (64 * q + r) = [0xC0 + q, 0x80 + r]"
  "r < 64 \<Longrightarrow> m < 64 \<Longrightarrow> q < 16 \<Longrightarrow> q = 0 \<longrightarrow> 32 \<le> m \<Longrightarrow> enc (4096 * q + 64 * m + r) = [0xE0 + q, 0x80 + m, 0x80 + r]"
  "r < 64 \<Longrightarrow> l < 64 \<Longrightarrow> m < 64 \<Longrightarrow> q = 0 \<longrightarrow> 16 \<le> m \<Longrightarrow> enc (262144 * q + 4096 * m + 64 * l + r) = [0xF0 + q, 0x80 + m, 0x80 + l, 0x80 + r]"
proof -
  assume "r < 64" "2 \<le> q" "q < 32"
  then show "enc (64 * q + r) = [0xC0 + q, 0x80 + r]" by (simp add: enc_def)
next
  assume a: "r < 64" "m < 64" "q < 16" "q = 0 \<longrightarrow> 32 \<le> m"
  let ?n = "4096 * q + 64 * m + r"
  have "?n = 64 * (64 * q + m) + r" by simp
  then have "?n div 64 = 64 * q + m" "?n mod 64 = r" using div_mod_64 [OF a(1)] by blast+
  moreover have "?n div 4096 = q" using a by simp
  moreover have "\<not> ?n \<le> 0x7FF" "?n \<le> 0xFFFF" using a by auto
  ultimately show "enc ?n = [0xE0 + q, 0x80 + m, 0x80 + r]" using a by (simp add: enc_def)
next
  assume a: "r < 64" "l < 64" "m < 64" "q = 0 \<longrightarrow> 16 \<le> m"
  let ?n = "262144 * q + 4096 * m + 64 * l + r"
  have "?n = 64 * (4096 * q + 64 * m + l) + r" by simp
  then have "?n div 64 = 4096 * q + 64 * m + l" "?n mod 64 = r" using div_mod_64 [OF a(1)] by blast+
  moreover have "(4096 * q + 64 * m + l) mod 64 = l" using div_mod_64 [OF a(2), of _ "64 * q + m"] by simp
  moreover have "?n div 4096 = 64 * q + m" "?n div 262144 = q" using a by simp_all
  moreover have "\<not> ?n \<le> 0xFFFF" using a by auto
  ultimately show "enc ?n = [0xF0 + q, 0x80 + m, 0x80 + l, 0x80 + r]" using a by (simp add: enc_def)
qed

lemma utf8_seq_scalar:
  assumes "utf8_seq w"
  shows "\<exists>n. scalar n \<and> w = map of_nat (enc n)"
  using assms
proof cases
  case (one b0)
  then have "unat b0 \<le> 0x7F" by (simp add: word_less_nat_alt)
  then have "scalar (unat b0)" "w = map of_nat (enc (unat b0))" using one by (simp_all add: scalar_def enc_def)
  then show ?thesis by blast
next
  case (two b0 lo hi b1)
  have x: "194 \<le> unat b0" "unat b0 \<le> 223" "128 \<le> unat b1" "unat b1 \<le> 191"
    using two by (auto simp: utf8_lead_nat Let_def word_le_nat_alt split: if_splits)
  let ?q = "unat b0 - 192" and ?r = "unat b1 - 128"
  have "enc (64 * ?q + ?r) = [unat b0, unat b1]" using enc_value(1) [of ?r ?q] x by simp
  moreover have "scalar (64 * ?q + ?r)" using x by (auto simp: scalar_def)
  ultimately show ?thesis using two(1) by (intro exI [of _ "64 * ?q + ?r"]) simp
next
  case (three b0 lo hi b1 b2)
  have x: "224 \<le> unat b0" "unat b0 \<le> 239" "128 \<le> unat b1" "unat b1 \<le> 191" "unat b0 = 224 \<longrightarrow> 160 \<le> unat b1" "unat b0 = 237 \<longrightarrow> unat b1 \<le> 159"
    using three by (auto simp: utf8_lead_nat Let_def word_le_nat_alt split: if_splits)
  have y: "128 \<le> unat b2" "unat b2 \<le> 191" using three by (auto simp: is_trail_def word_less_nat_alt)
  let ?q = "unat b0 - 224" and ?m = "unat b1 - 128" and ?r = "unat b2 - 128"
  let ?n = "4096 * ?q + 64 * ?m + ?r"
  have c: "?r < 64" "?m < 64" "?q < 16" "?q = 0 \<longrightarrow> 32 \<le> ?m" using x y by auto
  have "enc ?n = [unat b0, unat b1, unat b2]" using enc_value(2) [OF c] x y by simp
  moreover have "scalar ?n"
  proof (cases "unat b0 = 237")
    case True
    then have "?q = 13" "?m < 32" "?r < 64" using x y by auto
    then show ?thesis unfolding scalar_def by linarith
  next
    case False
    then have "?q < 13 \<or> 13 < ?q" "?m < 64" "?r < 64" "?q < 16" using x y by auto
    then show ?thesis unfolding scalar_def by linarith
  qed
  ultimately show ?thesis using three(1) by (intro exI [of _ ?n]) simp
next
  case (four b0 lo hi b1 b2 b3)
  have x: "240 \<le> unat b0" "unat b0 \<le> 244" "128 \<le> unat b1" "unat b1 \<le> 191" "unat b0 = 240 \<longrightarrow> 144 \<le> unat b1" "unat b0 = 244 \<longrightarrow> unat b1 \<le> 143"
    using four by (auto simp: utf8_lead_nat Let_def word_le_nat_alt split: if_splits)
  have y: "128 \<le> unat b2" "unat b2 \<le> 191" "128 \<le> unat b3" "unat b3 \<le> 191" using four by (auto simp: is_trail_def word_less_nat_alt)
  let ?q = "unat b0 - 240" and ?m = "unat b1 - 128" and ?l = "unat b2 - 128" and ?r = "unat b3 - 128"
  let ?n = "262144 * ?q + 4096 * ?m + 64 * ?l + ?r"
  have c: "?r < 64" "?l < 64" "?m < 64" "?q = 0 \<longrightarrow> 16 \<le> ?m" using x y by auto
  have "enc ?n = [unat b0, unat b1, unat b2, unat b3]" using enc_value(3) [OF c] x y by simp
  moreover have "scalar ?n"
  proof -
    have "?q < 4 \<and> ?m < 64 \<or> ?q = 4 \<and> ?m < 16" "?l < 64" "?r < 64" "1 \<le> ?q \<or> 16 \<le> ?m" using x y by auto
    then show ?thesis unfolding scalar_def by linarith
  qed
  ultimately show ?thesis using four(1) by (intro exI [of _ ?n]) simp
qed

section \<open>Accepted texts\<close>

lemma utf8_walk_seq: "utf8_seq w \<Longrightarrow> utf8_walk (w @ t) = map_option (\<lambda>n. n + length w) (utf8_walk t)"
proof -
  assume w: "utf8_seq w"
  note st = utf8_seq_step [OF w, of t]
  from w show ?thesis
  proof cases
    case (one b0)
    then show ?thesis by (subst utf8_walk.simps) simp
  qed (subst utf8_walk.simps; use st in simp)+
qed

lemma utf8_trail_total: "\<exists>r. utf8_trail trail s i = Some r"
  by (induction trail s i rule: utf8_trail.induct) (subst utf8_trail.simps, auto simp: rd_def)

lemma ccol_utf8_step_total: "s \<noteq> [] \<Longrightarrow> \<exists>r. ccol_utf8_step s = Some r"
  using utf8_trail_total by (auto simp: ccol_utf8_step_def rd_def split: option.splits)

text \<open>The walk stops behind a run of accepted sequences, at an ill-formed one or at the end.\<close>

lemma utf8_walk_spec:
  "\<exists>ws t. utf8_walk s = Some (length (concat ws)) \<and> s = concat ws @ t \<and> list_all utf8_seq ws
     \<and> (t \<noteq> [] \<longrightarrow> (\<exists>k. ccol_utf8_step t = Some (False, k)))"
proof (induction "length s" arbitrary: s rule: less_induct)
  case less
  show ?case
  proof (cases "s = []")
    case True
    then show ?thesis by (intro exI [of _ "[]"]) (simp add: utf8_walk.simps)
  next
    case False
    then obtain ok k where st: "ccol_utf8_step s = Some (ok, k)" using ccol_utf8_step_total by fastforce
    show ?thesis
    proof (cases ok)
      case True
      obtain w t where w: "s = w @ t" "utf8_seq w" using step_utf8_seq [of s k] st True by auto
      have "length t < length s" using w by (auto elim: utf8_seq.cases)
      from less [OF this] obtain ws r where r: "utf8_walk t = Some (length (concat ws))" "t = concat ws @ r" "list_all utf8_seq ws"
        "r \<noteq> [] \<longrightarrow> (\<exists>k. ccol_utf8_step r = Some (False, k))" by blast
      have "utf8_walk s = Some (length (concat (w # ws)))" using utf8_walk_seq [OF w(2), of t] w(1) r(1) by simp
      moreover have "s = concat (w # ws) @ r" "list_all utf8_seq (w # ws)" using w r by simp_all
      ultimately show ?thesis using r(4) by blast
    next
      case bad: False
      obtain b r where s: "s = b # r" using False by (cases s) auto
      have "\<not> b < 0x80" using st bad s by (auto simp: ccol_utf8_step_def rd_def)
      then have "utf8_walk s = Some 0" using st bad s by (subst utf8_walk.simps) simp
      then show ?thesis using st bad by (intro exI [of _ "[]"] exI [of _ s]) simp
    qed
  qed
qed

definition utf8_text :: "byte list \<Rightarrow> bool" where
  "utf8_text s \<longleftrightarrow> (\<exists>ws. s = concat ws \<and> list_all utf8_seq ws)"

lemma utf8_walk_text: "utf8_walk (concat ws @ t) = map_option (\<lambda>n. n + length (concat ws)) (utf8_walk t)" if "list_all utf8_seq ws"
  using that
proof (induction ws)
  case (Cons w ws)
  then show ?case using utf8_walk_seq [of w "concat ws @ t"] by (simp add: option.map_comp comp_def add.commute add.left_commute)
qed (simp add: option.map_ident)

lemma utf8_valid_text: "ccol_utf8_is_valid s = Some (utf8_text s)"
proof -
  obtain ws t where w: "utf8_walk s = Some (length (concat ws))" "s = concat ws @ t" "list_all utf8_seq ws" using utf8_walk_spec by blast
  have "length (concat ws) = length s \<longleftrightarrow> utf8_text s"
  proof
    assume "length (concat ws) = length s"
    then have "t = []" using w(2) by simp
    then show "utf8_text s" using w by (auto simp: utf8_text_def)
  next
    assume "utf8_text s"
    then obtain vs where "s = concat vs" "list_all utf8_seq vs" by (auto simp: utf8_text_def)
    then have "utf8_walk s = Some (length s)" using utf8_walk_text [of vs "[]"] by (simp add: utf8_walk.simps)
    then show "length (concat ws) = length s" using w(1) by simp
  qed
  then show ?thesis using w(1) by (simp add: ccol_utf8_is_valid_def)
qed

lemma utf8_text_Nil [simp]: "utf8_text []"
  unfolding utf8_text_def by (rule exI [of _ "[]"]) simp

lemma utf8_text_append: "utf8_text a \<Longrightarrow> utf8_text b \<Longrightarrow> utf8_text (a @ b)"
  unfolding utf8_text_def by (metis concat_append list_all_append)

lemma utf8_text_seq: "utf8_seq w \<Longrightarrow> utf8_text w"
  unfolding utf8_text_def by (intro exI [of _ "[w]"]) simp

lemma utf8_text_ascii: "(\<And>c. c \<in> set s \<Longrightarrow> c < 0x80) \<Longrightarrow> utf8_text s"
  unfolding utf8_text_def by (intro exI [of _ "map (\<lambda>c. [c]) s"]) (auto simp: list_all_iff intro: utf8_seq.one)

lemma utf8_seq_multi:
  assumes "utf8_seq w" "c \<in> set w" "c < 0x80"
  shows "w = [c]"
  using assms(1)
proof cases
  case (two b0 lo hi b1)
  have "0x80 \<le> b1" using two by (auto simp: utf8_lead_nat Let_def word_le_nat_alt split: if_splits)
  then show ?thesis using two assms(2,3) by auto
next
  case (three b0 lo hi b1 b2)
  have "0x80 \<le> b1" using three by (auto simp: utf8_lead_nat Let_def word_le_nat_alt split: if_splits)
  then show ?thesis using three assms(2,3) by (auto simp: is_trail_def)
next
  case (four b0 lo hi b1 b2 b3)
  have "0x80 \<le> b1" using four by (auto simp: utf8_lead_nat Let_def word_le_nat_alt split: if_splits)
  then show ?thesis using four assms(2,3) by (auto simp: is_trail_def)
qed (use assms(2) in auto)

text \<open>An ASCII byte is a border.\<close>

lemma utf8_text_split:
  assumes "utf8_text (a @ c # b)" "c < 0x80"
  shows "utf8_text a \<and> utf8_text b"
proof -
  obtain ws where ws: "a @ c # b = concat ws" "list_all utf8_seq ws" using assms(1) by (auto simp: utf8_text_def)
  from this show ?thesis
  proof (induction ws arbitrary: a)
    case (Cons w ws)
    have eq: "a @ c # b = w @ concat ws" using Cons(2) by simp
    then consider u where "a = w @ u" "u @ c # b = concat ws" | u where "w = a @ u" "c # b = u @ concat ws" "u \<noteq> []"
      unfolding append_eq_append_conv2 by (metis append_Nil append_Nil2)
    then show ?case
    proof cases
      case (1 u)
      then show ?thesis using Cons(1) [of u] Cons(3) utf8_text_append [OF utf8_text_seq] by simp
    next
      case (2 u)
      then obtain v where "u = c # v" "b = v @ concat ws" by (cases u) auto
      moreover from this have "w = [c]" using utf8_seq_multi [of w c] Cons(3) 2(1) assms(2) by simp
      ultimately have "a = []" "b = concat ws" using 2(1) by (auto simp: append_eq_Cons_conv)
      moreover have "utf8_text (concat ws)" using Cons(3) unfolding utf8_text_def by auto
      ultimately show ?thesis by simp
    qed
  qed simp
qed

lemma utf8_walk_valid: "utf8_text s \<Longrightarrow> utf8_walk s = Some (length s)"
  using utf8_valid_text [of s] by (auto simp: ccol_utf8_is_valid_def)

lemma utf8_walk_bad:
  assumes "\<not> utf8_text s"
  obtains n k where "utf8_walk s = Some n" "n < length s" "ccol_utf8_step (drop n s) = Some (False, k)"
proof -
  obtain ws t where w: "utf8_walk s = Some (length (concat ws))" "s = concat ws @ t" "list_all utf8_seq ws"
      "t \<noteq> [] \<longrightarrow> (\<exists>k. ccol_utf8_step t = Some (False, k))" using utf8_walk_spec by blast
  have "t \<noteq> []" using assms w(2,3) by (auto simp: utf8_text_def)
  then show ?thesis using w that [of "length (concat ws)"] by auto
qed

lemma scalar_value_nat: "scalar_value cp \<longleftrightarrow> scalar (unat cp)"
  by (simp add: scalar_value_def scalar_def word_less_nat_alt word_le_nat_alt)

lemma utf8_bytes_unat: "scalar_value cp \<Longrightarrow> utf8_bytes cp = map of_nat (enc (unat cp))"
  using utf8_bytes_enc [of "unat cp"] by (auto simp: scalar_value_nat scalar_def)

lemma utf8_seq_bytes: "utf8_seq w \<longleftrightarrow> (\<exists>cp. scalar_value cp \<and> w = utf8_bytes cp)"
proof
  assume "utf8_seq w"
  then obtain n where n: "scalar n" "w = map of_nat (enc n)" using utf8_seq_scalar by blast
  have "unat (of_nat n :: 32 word) = n" using n(1) by (auto simp: scalar_def unat_of_nat)
  then have "scalar_value (of_nat n)" "w = utf8_bytes (of_nat n)" using n utf8_bytes_unat [of "of_nat n"] by (auto simp: scalar_value_nat)
  then show "\<exists>cp. scalar_value cp \<and> w = utf8_bytes cp" by blast
next
  assume "\<exists>cp. scalar_value cp \<and> w = utf8_bytes cp"
  then show "utf8_seq w" using utf8_bytes_unat scalar_utf8_seq by (auto simp: scalar_value_nat)
qed

section \<open>Properties\<close>

text \<open>
  Claim C29.  The check of UTF-8 is exact.  It returns for every text, and it accepts exactly
  the texts that the encoder writes for sequences of Unicode scalar values: no overlong
  form, no surrogate, nothing above U+10FFFF, nothing truncated, and nothing else refused.
\<close>

theorem utf8_valid_iff_encoding:
  "ccol_utf8_is_valid s = Some (\<exists>cps. list_all scalar_value cps \<and> s = concat (map utf8_bytes cps))"
proof -
  have "utf8_text s \<longleftrightarrow> (\<exists>cps. list_all scalar_value cps \<and> s = concat (map utf8_bytes cps))"
  proof
    assume "utf8_text s"
    then obtain ws where ws: "s = concat ws" "list_all utf8_seq ws" by (auto simp: utf8_text_def)
    then have "\<exists>cps. list_all scalar_value cps \<and> ws = map utf8_bytes cps"
    proof (induction ws arbitrary: s)
      case (Cons w ws)
      obtain cps where "list_all scalar_value cps" "ws = map utf8_bytes cps" using Cons by auto
      moreover obtain cp where "scalar_value cp" "w = utf8_bytes cp" using Cons(3) utf8_seq_bytes by auto
      ultimately show ?case by (intro exI [of _ "cp # cps"]) simp
    qed simp
    then show "\<exists>cps. list_all scalar_value cps \<and> s = concat (map utf8_bytes cps)" using ws(1) by blast
  next
    assume "\<exists>cps. list_all scalar_value cps \<and> s = concat (map utf8_bytes cps)"
    then show "utf8_text s" using utf8_seq_bytes by (force simp: utf8_text_def list_all_iff)
  qed
  then show ?thesis by (simp add: utf8_valid_text)
qed

end
