(* ===== verification/CCol_Json_Str.thy ===== *)
theory CCol_Json_Str
  imports CCol_Utf8 CCol_Http1_Body CCol_Common
begin

text \<open>
  The strings and integers of \<^verbatim>\<open>src/cjson.c\<close>: how the parser reads a string literal, with its
  escapes, into a heap block, and how the serialiser writes one into the growable buffer.
  Positions are offsets into the source text, which is an object in memory, so their sums
  do not wrap.  An error message is its format and its arguments.
\<close>

unbundle bit_operations_syntax

section \<open>The parse context\<close>

record parse_ctx =
  pc_src :: "byte list"
  pc_pos :: size_t
  pc_error :: fmt
  pc_mp :: mprocs

definition parse_err :: "parse_ctx \<Rightarrow> string \<Rightarrow> fmt_arg list \<Rightarrow> parse_ctx" where
  "parse_err ctx f args = ctx\<lparr>pc_error := Fmt f args\<rparr>"

definition parse_err_byte_is_printable :: "byte \<Rightarrow> bool" where
  "parse_err_byte_is_printable b \<longleftrightarrow> b \<ge> 0x20 \<and> b \<le> 0x7E"

section \<open>Reading a string\<close>

definition json_hex_value :: "byte \<Rightarrow> 32 word option" where
  "json_hex_value c =
     (if c \<ge> 48 \<and> c \<le> 57 then Some (ucast (c - 48))
      else if c \<ge> 97 \<and> c \<le> 102 then Some (ucast (c - 97 + 10))
      else if c \<ge> 65 \<and> c \<le> 70 then Some (ucast (c - 65 + 10))
      else None)"

function hex4_loop :: "parse_ctx \<Rightarrow> nat \<Rightarrow> 32 word \<Rightarrow> (32 word option \<times> parse_ctx) option" where
  "hex4_loop ctx i v =
     (if i < 4 then do {
        c \<leftarrow> rd (pc_src ctx) (pc_pos ctx + i);
        case json_hex_value c of
          None \<Rightarrow> Some (None,
            if parse_err_byte_is_printable c
            then parse_err ctx (''invalid hex digit '%c' in '' @ [CHR 0x5C] @ ''uXXXX at position %zu'') [Num (unat c), Num (pc_pos ctx + i)]
            else parse_err ctx (''invalid hex digit byte 0x%02X in '' @ [CHR 0x5C] @ ''uXXXX at position %zu'') [Num (unat c), Num (pc_pos ctx + i)])
        | Some d \<Rightarrow> hex4_loop ctx (i + 1) (push_bit 4 v OR d)
      }
      else Some (Some v, ctx\<lparr>pc_pos := pc_pos ctx + 4\<rparr>))"
  by pat_completeness auto
termination by (relation "measure (\<lambda>(_, i, _). 4 - i)") auto

definition parse_hex4 :: "parse_ctx \<Rightarrow> (32 word option \<times> parse_ctx) option" where
  "parse_hex4 ctx =
     (if pc_pos ctx + 4 > length (pc_src ctx)
      then Some (None, parse_err ctx (''incomplete '' @ [CHR 0x5C] @ ''uXXXX escape at position %zu'') [Num (pc_pos ctx)])
      else hex4_loop ctx 0 0)"

definition string_bytes_are_utf8 :: "parse_ctx \<Rightarrow> size_t \<Rightarrow> size_t \<Rightarrow> (bool \<times> parse_ctx) option" where
  "string_bytes_are_utf8 ctx start fin = do {
     n \<leftarrow> ccol_utf8_first_ill_formed (take (fin - start) (drop start (pc_src ctx)));
     let bad = start + n;
     if bad = fin then Some (True, ctx)
     else do {
       (what, detail) \<leftarrow> ccol_utf8_describe_ill_formed (pc_src ctx) bad;
       Some (False, parse_err ctx ''invalid UTF-8 in string at position %zu: %s (%s)'' [Num bad, Sub (Fmt what []), Sub detail])
     }
   }"

text \<open>The first pass: where the literal ends, and whether it needs the second one.\<close>

function scan_loop :: "byte list \<Rightarrow> size_t \<Rightarrow> bool \<Rightarrow> bool \<Rightarrow> size_t \<times> bool \<times> bool" where
  "scan_loop src scan need_slow has_non_ascii =
     (if scan < length src then
        let sc = src ! scan
        in if sc = 34 then (scan, need_slow, has_non_ascii)
           else if sc = 92 then scan_loop src (scan + 2) True has_non_ascii
           else scan_loop src (scan + 1) (need_slow \<or> sc < 0x20) (has_non_ascii \<or> \<not> sc < 0x20 \<and> sc \<ge> 0x80)
      else (scan, need_slow, has_non_ascii))"
  by pat_completeness auto
termination by (relation "measure (\<lambda>(src, scan, _, _). length src - scan)") auto

declare scan_loop.simps [simp del] hex4_loop.simps [simp del]

definition parse_string_scan :: "parse_ctx \<Rightarrow> (size_t \<times> bool \<times> bool) option \<times> parse_ctx" where
  "parse_string_scan ctx =
     (if pc_pos ctx \<ge> length (pc_src ctx) \<or> pc_src ctx ! pc_pos ctx \<noteq> 34
      then (None, parse_err ctx (''expected '' @ [CHR 0x27, CHR 0x22, CHR 0x27] @ '' at position %zu'') [Num (pc_pos ctx)])
      else
        let ctx = ctx\<lparr>pc_pos := pc_pos ctx + 1\<rparr>;
            (scan, need_slow, has_non_ascii) = scan_loop (pc_src ctx) (pc_pos ctx) False False
        in if scan \<ge> length (pc_src ctx)
           then (None, parse_err ctx ''unterminated string starting before position %zu'' [Num (pc_pos ctx - 1)])
           else (Some (scan, need_slow, has_non_ascii), ctx))"

definition is_plain :: "byte \<Rightarrow> bool" where
  "is_plain c \<longleftrightarrow> \<not> (c = 34 \<or> c = 92 \<or> c < 0x20)"

text \<open>The one-letter escapes.\<close>

definition simple_escape :: "byte \<Rightarrow> byte option" where
  "simple_escape esc =
     (if esc = 34 then Some 34 else if esc = 92 then Some 92 else if esc = 47 then Some 47
      else if esc = 98 then Some 8 else if esc = 102 then Some 12 else if esc = 110 then Some 10
      else if esc = 114 then Some 13 else if esc = 116 then Some 9 else None)"

text \<open>
  The code point that an escape names, from the value of its digits on: a high surrogate
  needs a low one behind it.  \<^term>\<open>None\<close> in the result is a refusal.
\<close>

definition surrogate_escape :: "parse_ctx \<Rightarrow> 32 word \<Rightarrow> size_t \<Rightarrow> (32 word option \<times> parse_ctx) option" where
  "surrogate_escape ctx cp esc_pos =
     (if cp \<ge> 0xD800 \<and> cp \<le> 0xDBFF then do {
        (low, ctx) \<leftarrow>
          (if pc_pos ctx + 1 < length (pc_src ctx) \<and> pc_src ctx ! pc_pos ctx = 92 \<and> pc_src ctx ! (pc_pos ctx + 1) = 117
           then parse_hex4 (ctx\<lparr>pc_pos := pc_pos ctx + 2\<rparr>)
           else Some (Some 0, ctx));
        case low of
          None \<Rightarrow> Some (None, ctx)
        | Some low \<Rightarrow>
            if low < 0xDC00 \<or> low > 0xDFFF
            then Some (None, parse_err ctx (''high surrogate escape '' @ [CHR 0x5C] @ ''u%04X at position %zu is not followed by a low surrogate escape'')
              [Num (unat cp), Num esc_pos])
            else Some (Some (0x10000 + push_bit 10 (cp - 0xD800) + (low - 0xDC00)), ctx)
      }
      else if cp \<ge> 0xDC00 \<and> cp \<le> 0xDFFF
      then Some (None, parse_err ctx (''low surrogate escape '' @ [CHR 0x5C] @ ''u%04X at position %zu does not follow a high surrogate escape'')
        [Num (unat cp), Num esc_pos])
      else Some (Some cp, ctx))"

text \<open>The escape of a code point, behind its \<^verbatim>\<open>\u\<close>.\<close>

definition unicode_escape :: "parse_ctx \<Rightarrow> (32 word option \<times> parse_ctx) option" where
  "unicode_escape ctx = do {
     (r, ctx) \<leftarrow> parse_hex4 ctx;
     case r of
       None \<Rightarrow> Some (None, ctx)
     | Some cp \<Rightarrow>
         let esc_pos = pc_pos ctx - 6
         in do {
           (r, ctx) \<leftarrow> surrogate_escape ctx cp esc_pos;
           case r of
             None \<Rightarrow> Some (None, ctx)
           | Some cp \<Rightarrow>
               if cp = 0 then Some (None, parse_err ctx ([CHR 0x5C] @ ''u0000 not supported at position %zu'') [Num esc_pos])
               else Some (Some cp, ctx)
         }
   }"

definition encode_utf8 :: "growbuf \<Rightarrow> 32 word \<Rightarrow> heap \<Rightarrow> (growbuf \<times> heap) option" where
  "encode_utf8 sb cp h = ccol_growbuf_append sb (utf8_bytes cp) (length (utf8_bytes cp)) h"

text \<open>An escape from its letter on: whether it was accepted, and the state behind it.\<close>

definition slow_escape :: "parse_ctx \<Rightarrow> growbuf \<Rightarrow> heap \<Rightarrow> (bool \<times> parse_ctx \<times> growbuf \<times> heap) option" where
  "slow_escape ctx sb h =
     (let esc = pc_src ctx ! pc_pos ctx;
          ctx = ctx\<lparr>pc_pos := pc_pos ctx + 1\<rparr>
      in case simple_escape esc of
           Some c \<Rightarrow> do { (sb, h) \<leftarrow> ccol_growbuf_append_c sb c h; Some (True, ctx, sb, h) }
         | None \<Rightarrow>
             if esc = 117 then do {
               (r, ctx) \<leftarrow> unicode_escape ctx;
               case r of
                 None \<Rightarrow> Some (False, ctx, sb, h)
               | Some cp \<Rightarrow> do { (sb, h) \<leftarrow> encode_utf8 sb cp h; Some (True, ctx, sb, h) }
             }
             else Some (False,
               if parse_err_byte_is_printable esc
               then parse_err ctx (''unknown escape '' @ [CHR 0x27, CHR 0x5C] @ ''%c' at position %zu'') [Num (unat esc), Num (pc_pos ctx - 1)]
               else parse_err ctx (''unknown escape: '' @ [CHR 0x27, CHR 0x5C, CHR 0x27] @ '' followed by byte 0x%02X at position %zu'') [Num (unat esc), Num (pc_pos ctx - 1)],
               sb, h))"

text \<open>A run of plain characters, checked and copied.\<close>

definition slow_run :: "parse_ctx \<Rightarrow> bool \<Rightarrow> growbuf \<Rightarrow> heap \<Rightarrow> (bool \<times> parse_ctx \<times> growbuf \<times> heap) option" where
  "slow_run ctx has_non_ascii sb h =
     (let chunk_start = pc_pos ctx;
          ctx = ctx\<lparr>pc_pos := chunk_start + length (takeWhile is_plain (drop chunk_start (pc_src ctx)))\<rparr>
      in if pc_pos ctx > chunk_start then do {
           (ok, ctx) \<leftarrow> (if has_non_ascii then string_bytes_are_utf8 ctx chunk_start (pc_pos ctx) else Some (True, ctx));
           if \<not> ok then Some (False, ctx, sb, h)
           else do {
             (sb, h) \<leftarrow> ccol_growbuf_append sb (drop chunk_start (pc_src ctx)) (pc_pos ctx - chunk_start) h;
             Some (True, ctx, sb, h)
           }
         }
         else Some (True, ctx, sb, h))"

definition sb_free :: "growbuf \<Rightarrow> heap \<Rightarrow> heap" where
  "sb_free sb h = (case gb_buf sb of None \<Rightarrow> h | Some (k, _) \<Rightarrow> mem_free h k)"

type_synonym cstr_out = "(nat \<times> byte list) option"

text \<open>
  The loop of the second pass.  The result is the buffer and its length, or a refusal.
\<close>

partial_function (option) slow_loop ::
    "parse_ctx \<Rightarrow> bool \<Rightarrow> growbuf \<Rightarrow> heap \<Rightarrow> ((cstr_out \<times> size_t) option \<times> parse_ctx \<times> heap) option" where
  "slow_loop ctx has_non_ascii sb h =
     (if pc_pos ctx < length (pc_src ctx) then do {
        (ok, ctx, sb, h) \<leftarrow> slow_run ctx has_non_ascii sb h;
        if \<not> ok then Some (None, ctx, sb_free sb h)
        else if pc_pos ctx \<ge> length (pc_src ctx)
        then Some (None, parse_err ctx ''unterminated string starting before position %zu'' [Num (pc_pos ctx)], sb_free sb h)
        else
          let c = pc_src ctx ! pc_pos ctx
          in if c = 34 then
               let ctx = ctx\<lparr>pc_pos := pc_pos ctx + 1\<rparr>
               in if gb_oom sb then Some (None, ctx, sb_free sb h)
                  else Some (Some (gb_buf sb, gb_len sb), ctx, h)
             else if c = 92 then
               let ctx = ctx\<lparr>pc_pos := pc_pos ctx + 1\<rparr>
               in if pc_pos ctx \<ge> length (pc_src ctx)
                  then Some (None, parse_err ctx ''unterminated string starting before position %zu'' [Num (pc_pos ctx)], sb_free sb h)
                  else do {
                    (ok, ctx, sb, h) \<leftarrow> slow_escape ctx sb h;
                    if \<not> ok then Some (None, ctx, sb_free sb h) else slow_loop ctx has_non_ascii sb h
                  }
             else Some (None, parse_err ctx ''unescaped control character 0x%02x in string at position %zu'' [Num (unat c), Num (pc_pos ctx)], sb_free sb h)
      }
      else Some (None, parse_err ctx ''unterminated string starting before position %zu'' [Num (pc_pos ctx)], sb_free sb h))"

definition parse_string_slow ::
    "parse_ctx \<Rightarrow> size_t \<Rightarrow> bool \<Rightarrow> heap \<Rightarrow> ((cstr_out \<times> size_t) option \<times> parse_ctx \<times> heap) option" where
  "parse_string_slow ctx scan has_non_ascii h =
     (let (sb, h) = ccol_growbuf_init_hint (pc_mp ctx) (scan - pc_pos ctx) h
      in slow_loop ctx has_non_ascii sb h)"

text \<open>The whole literal; the result is the block that holds the C string.\<close>

definition parse_string_raw :: "parse_ctx \<Rightarrow> heap \<Rightarrow> (cstr_out option \<times> parse_ctx \<times> heap) option" where
  "parse_string_raw ctx h =
     (case parse_string_scan ctx of
        (None, ctx) \<Rightarrow> Some (None, ctx, h)
      | (Some (scan, need_slow, has_non_ascii), ctx) \<Rightarrow>
          if \<not> need_slow then
            let slen = scan - pc_pos ctx
            in do {
              (ok, ctx) \<leftarrow> (if has_non_ascii then string_bytes_are_utf8 ctx (pc_pos ctx) scan else Some (True, ctx));
              if \<not> ok then Some (None, ctx, h)
              else
                case mem_alloc h (sz_add slen 1) of
                  (None, h) \<Rightarrow> Some (None, ctx, h)
                | (Some (b, s), h) \<Rightarrow> do {
                    s \<leftarrow> buf_put s 0 (take slen (drop (pc_pos ctx) (pc_src ctx)));
                    s \<leftarrow> buf_put s slen [0];
                    Some (Some (Some (b, s)), ctx\<lparr>pc_pos := scan + 1\<rparr>, h)
                  }
            }
          else do {
            (r, ctx, h) \<leftarrow> parse_string_slow ctx scan has_non_ascii h;
            Some (map_option fst r, ctx, h)
          })"

section \<open>Writing a string\<close>

text \<open>
  The escape of a character; the default case is the text of \<^verbatim>\<open>snprintf\<close> with the format
  \<^verbatim>\<open>\u%04x\<close>.
\<close>

definition escape_bytes :: "byte \<Rightarrow> byte list" where
  "escape_bytes c =
     (if c = 34 then [92, 34] else if c = 92 then [92, 92] else if c = 8 then [92, 98] else if c = 12 then [92, 102]
      else if c = 10 then [92, 110] else if c = 13 then [92, 114] else if c = 9 then [92, 116]
      else [92, 117, 48, 48, hex_digit (unat c div 16), hex_digit (unat c mod 16)])"

text \<open>The loop over a C string, which ends at a NUL byte or at the end of the list.\<close>

definition run_char :: "byte \<Rightarrow> bool" where
  "run_char c \<longleftrightarrow> c \<noteq> 0 \<and> is_plain c"

lemma dropWhile_Cons_shorter: "c # r = dropWhile P p \<Longrightarrow> length r < length p"
  using length_dropWhile_le [of P p] by (metis length_Cons Suc_le_lessD)

function json_str_loop :: "growbuf \<Rightarrow> byte list \<Rightarrow> heap \<Rightarrow> (growbuf \<times> heap) option" where
  "json_str_loop sb p h =
     (if p = [] \<or> hd p = 0 then Some (sb, h)
      else
        let run = takeWhile run_char p;
            rest = dropWhile run_char p
        in do {
          (sb, h) \<leftarrow> (if run \<noteq> [] then ccol_growbuf_append sb run (length run) h else Some (sb, h));
          case rest of
            [] \<Rightarrow> Some (sb, h)
          | c # r \<Rightarrow>
              if c = 0 then Some (sb, h)
              else do {
                (sb, h) \<leftarrow> ccol_growbuf_append sb (escape_bytes c) (length (escape_bytes c)) h;
                json_str_loop sb r h
              }
        })"
  by pat_completeness auto
termination by (relation "measure (\<lambda>(_, p, _). length p)") (auto dest: dropWhile_Cons_shorter)

definition sb_append_json_str :: "growbuf \<Rightarrow> byte list option \<Rightarrow> heap \<Rightarrow> (growbuf \<times> heap) option" where
  "sb_append_json_str sb s h = do {
     (sb, h) \<leftarrow> ccol_growbuf_append_c sb 34 h;
     case s of
       None \<Rightarrow> ccol_growbuf_append_c sb 34 h
     | Some p \<Rightarrow> do {
         (sb, h) \<leftarrow> json_str_loop sb p h;
         ccol_growbuf_append_c sb 34 h
       }
   }"

declare json_str_loop.simps [simp del]

section \<open>What the growable buffer does to the heap\<close>

definition sb_blocks :: "growbuf \<Rightarrow> nat set" where
  "sb_blocks sb = (case gb_buf sb of None \<Rightarrow> {} | Some (k, _) \<Rightarrow> {k})"

lemma growbuf_write_blocks [simp]: "sb_blocks (growbuf_write sb d n) = sb_blocks sb"
  by (auto simp: sb_blocks_def growbuf_write_def split: option.splits)

lemma growbuf_grow_blocks:
  assumes "growbuf_grow b n h = Some (b', h')" "gb_inv b" "\<not> gb_oom b"
  shows "live h' = live h \<and> next_blk h' = next_blk h \<and> sb_blocks b' = sb_blocks b"
proof -
  obtain k bs where "gb_buf b = Some (k, bs)" using assms(2,3) by (auto simp: gb_inv_def split: option.splits)
  then show ?thesis using assms(1,3)
    by (auto simp: growbuf_grow_def growbuf_realloc_def Let_def sb_blocks_def dest: mem_realloc_live split: option.splits prod.splits if_splits)
qed

lemma growbuf_append_blocks:
  assumes "ccol_growbuf_append b d n h = Some (b', h')" "gb_inv b"
  shows "live h' = live h \<and> next_blk h' = next_blk h \<and> sb_blocks b' = sb_blocks b"
proof -
  have e: "ccol_growbuf_append_slow b d n h = Some (b', h')" using assms growbuf_append_eq_slow by simp
  show ?thesis
  proof (cases "gb_oom b \<or> n > sz_sub (sz_sub SIZE_MAX 1) (gb_len b)")
    case True
    then show ?thesis using e by (auto simp: ccol_growbuf_append_slow_def sb_blocks_def split: if_splits)
  next
    case False
    then show ?thesis using e assms(2)
      by (auto simp: ccol_growbuf_append_slow_def Let_def dest!: growbuf_grow_blocks split: if_splits bind_splits)
  qed
qed

text \<open>One append: it returns, keeps the blocks, and without a refusal it appends.\<close>

lemma sb_append:
  assumes "gb_inv b" "n \<le> length d"
  obtains b' h' where "ccol_growbuf_append b d n h = Some (b', h')" "gb_inv b'" "gb_oom b \<Longrightarrow> gb_oom b'"
    "\<not> gb_oom b' \<Longrightarrow> gb_content b' = gb_content b @ take n d" "live h' = live h" "next_blk h' = next_blk h" "sb_blocks b' = sb_blocks b"
proof -
  obtain b' h' where a: "ccol_growbuf_append b d n h = Some (b', h')" "gb_inv b'" "gb_oom b \<Longrightarrow> b' = b" "\<not> gb_oom b' \<Longrightarrow> gb_content b' = gb_content b @ take n d"
    using growbuf_append_spec [OF assms] by metis
  show ?thesis by (rule that [OF a(1,2) _ a(4)]) (use a(3) growbuf_append_blocks [OF a(1) assms(1)] in auto)
qed

lemma sb_append_n:
  assumes "gb_inv b" "n \<le> length d"
  shows "\<exists>b' h'. ccol_growbuf_append b d n h = Some (b', h') \<and> gb_inv b' \<and> (gb_oom b \<longrightarrow> gb_oom b')
    \<and> (\<not> gb_oom b' \<longrightarrow> gb_content b' = gb_content b @ take n d) \<and> live h' = live h \<and> next_blk h' = next_blk h \<and> sb_blocks b' = sb_blocks b"
  by (rule sb_append [OF assms, of h]) auto

lemma sb_append_all:
  assumes "gb_inv b"
  shows "\<exists>b' h'. ccol_growbuf_append b d (length d) h = Some (b', h') \<and> gb_inv b' \<and> (gb_oom b \<longrightarrow> gb_oom b')
    \<and> (\<not> gb_oom b' \<longrightarrow> gb_content b' = gb_content b @ d) \<and> live h' = live h \<and> next_blk h' = next_blk h \<and> sb_blocks b' = sb_blocks b"
  by (rule sb_append [OF assms order_refl, of d h]) auto

lemma sb_append_char:
  assumes "gb_inv b"
  shows "\<exists>b' h'. ccol_growbuf_append_c b c h = Some (b', h') \<and> gb_inv b' \<and> (gb_oom b \<longrightarrow> gb_oom b')
    \<and> (\<not> gb_oom b' \<longrightarrow> gb_content b' = gb_content b @ [c]) \<and> live h' = live h \<and> next_blk h' = next_blk h \<and> sb_blocks b' = sb_blocks b"
  using sb_append_all [OF assms, of "[c]" h] by (simp add: ccol_growbuf_append_c_def)

section \<open>The text of a string\<close>

definition esc :: "byte \<Rightarrow> byte list" where
  "esc c = (if is_plain c then [c] else escape_bytes c)"

definition json_text :: "byte list \<Rightarrow> byte list" where
  "json_text s = 34 # concat (map esc s) @ [34]"

lemma esc_run: "list_all is_plain r \<Longrightarrow> concat (map esc r) = r"
  by (induction r) (auto simp: esc_def)

lemma json_str_loop_spec:
  assumes "gb_inv sb" "0 \<notin> set p"
  shows "\<exists>sb' h'. json_str_loop sb p h = Some (sb', h') \<and> gb_inv sb' \<and> (gb_oom sb \<longrightarrow> gb_oom sb')
    \<and> (\<not> gb_oom sb' \<longrightarrow> gb_content sb' = gb_content sb @ concat (map esc p))"
  using assms
proof (induction "length p" arbitrary: sb p h rule: less_induct)
  case less
  show ?case
  proof (cases "p = []")
    case True
    then show ?thesis using less by (simp add: json_str_loop.simps)
  next
    case False
    have hd: "hd p \<noteq> 0" using False less(3) by (metis hd_in_set)
    let ?run = "takeWhile run_char p" and ?rest = "dropWhile run_char p"
    have runs: "concat (map esc ?run) = ?run" by (rule esc_run) (auto simp: list_all_iff run_char_def dest: set_takeWhileD)
    obtain sb1 h1 where a: "(if ?run \<noteq> [] then ccol_growbuf_append sb ?run (length ?run) h else Some (sb, h)) = Some (sb1, h1)" "gb_inv sb1" "gb_oom sb \<longrightarrow> gb_oom sb1"
        "\<not> gb_oom sb1 \<longrightarrow> gb_content sb1 = gb_content sb @ ?run"
    proof (cases "?run = []")
      case True
      then show ?thesis using that [of sb h] less(2) by simp
    next
      case F: False
      show ?thesis by (rule sb_append [OF less(2), of "length ?run" ?run h]) (use F that in auto)
    qed
    show ?thesis
    proof (cases ?rest)
      case Nil
      have "json_str_loop sb p h = Some (sb1, h1)" using False hd a(1) by (subst json_str_loop.simps) (simp add: Let_def Nil del: dropWhile_eq_Nil_conv)
      moreover have rp: "?run = p" using takeWhile_dropWhile_id [of run_char p] Nil by (metis append_Nil2)
      have "concat (map esc p) = ?run" using runs rp by metis
      ultimately show ?thesis using a(2-4) by auto
    next
      case (Cons c r)
      have p: "p = ?run @ c # r" using takeWhile_dropWhile_id [of run_char p] Cons by simp
      have c: "c \<noteq> 0" "0 \<notin> set r" using less(3) p by (metis Un_iff list.set_intros set_append)+
      have np: "\<not> is_plain c" using hd_dropWhile [of run_char p] Cons c(1) by (auto simp: run_char_def)
      obtain sb2 h2 where b: "ccol_growbuf_append sb1 (escape_bytes c) (length (escape_bytes c)) h1 = Some (sb2, h2)" "gb_inv sb2" "gb_oom sb1 \<longrightarrow> gb_oom sb2"
          "\<not> gb_oom sb2 \<longrightarrow> gb_content sb2 = gb_content sb1 @ escape_bytes c"
        using sb_append_all [OF a(2), of "escape_bytes c" h1] by blast
      have "length r < length p" using dropWhile_Cons_shorter [of c r run_char p] Cons by simp
      from less(1) [OF this b(2) c(2), of h2] obtain sb3 h3 where d: "json_str_loop sb2 r h2 = Some (sb3, h3)" "gb_inv sb3" "gb_oom sb2 \<longrightarrow> gb_oom sb3"
          "\<not> gb_oom sb3 \<longrightarrow> gb_content sb3 = gb_content sb2 @ concat (map esc r)" by blast
      have "json_str_loop sb p h = Some (sb3, h3)" using False hd a(1) b(1) d(1) c(1) Cons by (subst json_str_loop.simps) (simp add: Let_def)
      moreover have "concat (map esc p) = ?run @ escape_bytes c @ concat (map esc r)" using runs np by (subst p) (simp add: esc_def)
      ultimately show ?thesis using a b d by auto
    qed
  qed
qed

lemma sb_append_json_str_spec:
  assumes "gb_inv sb" "0 \<notin> set s"
  shows "\<exists>sb' h'. sb_append_json_str sb (Some s) h = Some (sb', h') \<and> gb_inv sb' \<and> (\<not> gb_oom sb' \<longrightarrow> gb_content sb' = gb_content sb @ json_text s)"
proof -
  obtain sb1 h1 where a: "ccol_growbuf_append_c sb 34 h = Some (sb1, h1)" "gb_inv sb1" "\<not> gb_oom sb1 \<longrightarrow> gb_content sb1 = gb_content sb @ [34]"
    using sb_append_char [OF assms(1)] by blast
  obtain sb2 h2 where b: "json_str_loop sb1 s h1 = Some (sb2, h2)" "gb_inv sb2" "gb_oom sb1 \<longrightarrow> gb_oom sb2"
      "\<not> gb_oom sb2 \<longrightarrow> gb_content sb2 = gb_content sb1 @ concat (map esc s)" using json_str_loop_spec [OF a(2) assms(2), of h1] by blast
  obtain sb3 h3 where c: "ccol_growbuf_append_c sb2 34 h2 = Some (sb3, h3)" "gb_inv sb3" "gb_oom sb2 \<longrightarrow> gb_oom sb3" "\<not> gb_oom sb3 \<longrightarrow> gb_content sb3 = gb_content sb2 @ [34]"
    using sb_append_char [OF b(2)] by blast
  have "sb_append_json_str sb (Some s) h = Some (sb3, h3)" using a(1) b(1) c(1) by (simp add: sb_append_json_str_def)
  then show ?thesis using a b c by (auto simp: json_text_def)
qed

end
