(* ===== verification/CCol_Json_Read.thy ===== *)
theory CCol_Json_Read
  imports CCol_Json_Str
begin

text \<open>
  Properties of the string literals of \<^verbatim>\<open>src/cjson.c\<close>: what the parser returns is UTF-8, and
  what the serialiser writes is read back.
\<close>

unbundle bit_operations_syntax

section \<open>The first pass\<close>

definition scan_end :: "byte list \<Rightarrow> size_t \<Rightarrow> size_t" where
  "scan_end src p = fst (scan_loop src p False False)"

definition scan_slow :: "byte list \<Rightarrow> size_t \<Rightarrow> bool" where
  "scan_slow src p = fst (snd (scan_loop src p False False))"

definition scan_non :: "byte list \<Rightarrow> size_t \<Rightarrow> bool" where
  "scan_non src p = snd (snd (scan_loop src p False False))"

lemma scan_loop_flags: "scan_loop src p nd na = (scan_end src p, nd \<or> scan_slow src p, na \<or> scan_non src p)"
proof (induction "length src - p" arbitrary: p nd na rule: less_induct)
  case less
  consider (out) "\<not> p < length src" | (quote) "p < length src" "src ! p = 34" | (bs) "p < length src" "src ! p = 92" | (char) "p < length src" "src ! p \<noteq> 34" "src ! p \<noteq> 92" by blast
  then show ?case
  proof cases
    case bs
    then have lt: "length src - (p + 2) < length src - p" by simp
    have eq: "scan_loop src p x y = scan_loop src (p + 2) True y" for x y using bs by (subst scan_loop.simps) simp
    show ?thesis unfolding scan_end_def scan_slow_def scan_non_def eq unfolding less [OF lt] by simp
  next
    case char
    then have lt: "length src - (p + 1) < length src - p" by simp
    have eq: "scan_loop src p x y = scan_loop src (p + 1) (x \<or> src ! p < 0x20) (y \<or> \<not> src ! p < 0x20 \<and> src ! p \<ge> 0x80)" for x y
      using char by (subst scan_loop.simps) (simp add: Let_def)
    show ?thesis unfolding scan_end_def scan_slow_def scan_non_def eq unfolding less [OF lt] by auto
  qed (simp_all add: scan_end_def scan_slow_def scan_non_def scan_loop.simps)
qed

lemma scan_quote:
  assumes "p < length src" "src ! p = 34"
  shows "scan_end src p = p" "\<not> scan_slow src p" "\<not> scan_non src p"
  using assms by (simp_all add: scan_end_def scan_slow_def scan_non_def scan_loop.simps)

lemma scan_backslash:
  assumes "p < length src" "src ! p = 92"
  shows "scan_end src p = scan_end src (p + 2)" "scan_slow src p" "scan_non src p = scan_non src (p + 2)"
proof -
  have "scan_loop src p False False = scan_loop src (p + 2) True False" using assms by (subst scan_loop.simps) simp
  then show "scan_end src p = scan_end src (p + 2)" "scan_slow src p" "scan_non src p = scan_non src (p + 2)"
    using scan_loop_flags [of src "p + 2" True False] by (simp_all add: scan_end_def [of src p] scan_slow_def [of src p] scan_non_def [of src p])
qed

lemma byte_big: "(0x80 :: byte) \<le> c \<Longrightarrow> \<not> c < 0x20"
  by (simp add: word_le_nat_alt word_less_nat_alt)

lemma scan_char:
  assumes "p < length src" "src ! p \<noteq> 34" "src ! p \<noteq> 92"
  shows "scan_end src p = scan_end src (p + 1)" "scan_slow src p \<longleftrightarrow> src ! p < 0x20 \<or> scan_slow src (p + 1)"
    "scan_non src p \<longleftrightarrow> src ! p \<ge> 0x80 \<or> scan_non src (p + 1)"
proof -
  have "scan_loop src p False False = scan_loop src (p + 1) (src ! p < 0x20) (src ! p \<ge> 0x80)"
  proof -
    have "(\<not> src ! p < 0x20 \<and> src ! p \<ge> 0x80) = (src ! p \<ge> 0x80)" using byte_big by blast
    then show ?thesis using assms by (subst scan_loop.simps) (simp add: Let_def)
  qed
  then show "scan_end src p = scan_end src (p + 1)" "scan_slow src p \<longleftrightarrow> src ! p < 0x20 \<or> scan_slow src (p + 1)"
      "scan_non src p \<longleftrightarrow> src ! p \<ge> 0x80 \<or> scan_non src (p + 1)"
    using scan_loop_flags [of src "p + 1" "src ! p < 0x20" "src ! p \<ge> 0x80"]
    by (simp_all add: scan_end_def [of src p] scan_slow_def [of src p] scan_non_def [of src p])
qed

lemma scan_run:
  assumes "drop p src = r @ t" "list_all is_plain r"
  shows "scan_end src p = scan_end src (p + length r)" "scan_slow src p = scan_slow src (p + length r)"
    "scan_non src p \<longleftrightarrow> (\<exists>c \<in> set r. c \<ge> 0x80) \<or> scan_non src (p + length r)"
proof -
  have "scan_end src p = scan_end src (p + length r) \<and> scan_slow src p = scan_slow src (p + length r)
    \<and> (scan_non src p \<longleftrightarrow> (\<exists>c \<in> set r. c \<ge> 0x80) \<or> scan_non src (p + length r))"
    using assms
  proof (induction r arbitrary: p)
    case (Cons c r)
    have lt: "p < length src" using Cons(2) by (metis append_Cons drop_all list.distinct(1) not_le)
    have c: "src ! p = c" "drop (p + 1) src = r @ t" using Cons(2) lt by (metis append_Cons hd_drop_conv_nth list.sel(1), metis append_Cons drop_Suc list.sel(3) tl_drop Suc_eq_plus1)
    have "c \<noteq> 34" "c \<noteq> 92" "\<not> c < 0x20" using Cons(3) by (auto simp: is_plain_def)
    then show ?case using Cons(1) [OF c(2)] Cons(3) scan_char [OF lt] c(1) by auto
  qed simp
  then show "scan_end src p = scan_end src (p + length r)" "scan_slow src p = scan_slow src (p + length r)"
    "scan_non src p \<longleftrightarrow> (\<exists>c \<in> set r. c \<ge> 0x80) \<or> scan_non src (p + length r)" by blast+
qed

section \<open>Escapes\<close>

lemma push_or:
  fixes v d :: "32 word"
  assumes "v < 2 ^ 28" "d < 16"
  shows "push_bit 4 v OR d = v * 16 + d" "unat (v * 16 + d) = unat v * 16 + unat d"
proof -
  have "take_bit 4 d = d" unfolding word_unat_eq_iff unsigned_take_bit_eq using assms(2) by (simp add: take_bit_nat_eq_self_iff word_less_nat_alt)
  then have "\<not> bit (push_bit 4 v) n \<or> \<not> bit d n" for n
    by (metis bit_push_bit_iff bit_take_bit_iff not_le)
  then have "push_bit 4 v AND d = 0" by (intro bit_eqI) (auto simp: bit_and_iff)
  then have "push_bit 4 v OR d = push_bit 4 v + d" by (simp add: disjunctive_add_eq_or)
  then show "push_bit 4 v OR d = v * 16 + d" by (simp add: push_bit_eq_mult)
  show "unat (v * 16 + d) = unat v * 16 + unat d" using assms by (simp add: unat_word_ariths word_less_nat_alt)
qed

lemma json_hex_values:
  "\<forall>x \<in> set ([48..<58] @ [65..<71] @ [97..<103]). case json_hex_value (of_nat x) of None \<Rightarrow> True | Some d \<Rightarrow> d < 16 \<and> is_plain (of_nat x) \<and> (of_nat x :: byte) < 0x80"
  "\<forall>n \<in> set [0..<16]. json_hex_value (hex_digit n) = Some (of_nat n)"
  by code_simp+

lemma json_hex_value_range:
  assumes "json_hex_value c = Some d"
  shows "d < 16" "is_plain c" "c < 0x80"
proof -
  have "unat c \<in> set ([48..<58] @ [65..<71] @ [97..<103])" using assms unfolding set_append set_upt by (auto simp: json_hex_value_def word_le_nat_alt split: if_splits)
  from json_hex_values(1) [rule_format, OF this] show "d < 16" "is_plain c" "c < 0x80" using assms by simp_all
qed

lemma json_hex_value_digit: "n < 16 \<Longrightarrow> json_hex_value (hex_digit n) = Some (of_nat n)"
  using json_hex_values(2) by (simp only: set_upt atLeastLessThan_iff zero_le simp_thms Ball_def)

text \<open>What four hexadecimal digits give.\<close>

lemma hex4_loop_spec:
  assumes "pc_pos ctx + 4 \<le> length (pc_src ctx)" "i \<le> 4" "unat v < 16 ^ i"
  shows "\<exists>r ctx'. hex4_loop ctx i v = Some (r, ctx') \<and> pc_src ctx' = pc_src ctx \<and> pc_mp ctx' = pc_mp ctx
    \<and> (\<forall>w. r = Some w \<longrightarrow> unat w < 65536 \<and> ctx' = ctx\<lparr>pc_pos := pc_pos ctx + 4\<rparr>
         \<and> (\<forall>j. i \<le> j \<and> j < 4 \<longrightarrow> json_hex_value (pc_src ctx ! (pc_pos ctx + j)) \<noteq> None))"
  using assms
proof (induction ctx i v rule: hex4_loop.induct)
  case (1 ctx i v)
  show ?case
  proof (cases "i < 4")
    case False
    then have "i = 4" using 1 by simp
    then show ?thesis using 1 by (subst hex4_loop.simps) auto
  next
    case True
    let ?c = "pc_src ctx ! (pc_pos ctx + i)"
    have rd: "rd (pc_src ctx) (pc_pos ctx + i) = Some ?c" using True 1 by (simp add: rd_def)
    show ?thesis
    proof (cases "json_hex_value ?c")
      case None
      then show ?thesis using True rd by (subst hex4_loop.simps) (simp add: parse_err_def)
    next
      case (Some d)
      have d: "d < 16" using json_hex_value_range(1) [OF Some] .
      have "unat v < 16 ^ 3" using 1(4) power_increasing [of i 3 "16 :: nat"] True by simp
      then have v: "v < 2 ^ 28" by (simp add: word_less_nat_alt)
      have "unat (push_bit 4 v OR d) < 16 ^ (i + 1)" using push_or [OF v d] 1(4) d by (simp add: word_less_nat_alt)
      from 1(1) [OF True rd Some 1(2) _ this] True obtain r ctx' where
        r: "hex4_loop ctx (i + 1) (push_bit 4 v OR d) = Some (r, ctx')" "pc_src ctx' = pc_src ctx" "pc_mp ctx' = pc_mp ctx"
          "\<forall>w. r = Some w \<longrightarrow> unat w < 65536 \<and> ctx' = ctx\<lparr>pc_pos := pc_pos ctx + 4\<rparr>
             \<and> (\<forall>j. i + 1 \<le> j \<and> j < 4 \<longrightarrow> json_hex_value (pc_src ctx ! (pc_pos ctx + j)) \<noteq> None)" by auto
      have e: "hex4_loop ctx i v = Some (r, ctx')" using True rd Some r(1) by (subst hex4_loop.simps) simp
      show ?thesis
      proof (cases r)
        case (Some w)
        have "json_hex_value (pc_src ctx ! (pc_pos ctx + j)) \<noteq> None" if "i \<le> j" "j < 4" for j
          using that r(4) Some \<open>json_hex_value ?c = Some d\<close> by (cases "j = i") auto
        then show ?thesis using e r Some by simp
      qed (use e r in simp)
    qed
  qed
qed

lemma is_plain_border: "is_plain c \<Longrightarrow> c \<noteq> 34 \<and> c \<noteq> 92 \<and> \<not> c < 0x20"
  by (simp add: is_plain_def)

lemma parse_hex4_spec:
  "\<exists>r ctx'. parse_hex4 ctx = Some (r, ctx') \<and> pc_src ctx' = pc_src ctx \<and> pc_mp ctx' = pc_mp ctx
    \<and> (\<forall>w. r = Some w \<longrightarrow> unat w < 65536 \<and> ctx' = ctx\<lparr>pc_pos := pc_pos ctx + 4\<rparr> \<and> pc_pos ctx + 4 \<le> length (pc_src ctx)
         \<and> scan_non (pc_src ctx) (pc_pos ctx) = scan_non (pc_src ctx) (pc_pos ctx + 4))"
proof (cases "pc_pos ctx + 4 \<le> length (pc_src ctx)")
  case False
  then show ?thesis by (simp add: parse_hex4_def parse_err_def)
next
  case True
  obtain r ctx' where r: "hex4_loop ctx 0 0 = Some (r, ctx')" "pc_src ctx' = pc_src ctx" "pc_mp ctx' = pc_mp ctx"
      "\<forall>w. r = Some w \<longrightarrow> unat w < 65536 \<and> ctx' = ctx\<lparr>pc_pos := pc_pos ctx + 4\<rparr>
         \<and> (\<forall>j. 0 \<le> j \<and> j < 4 \<longrightarrow> json_hex_value (pc_src ctx ! (pc_pos ctx + j)) \<noteq> None)"
    using hex4_loop_spec [OF True, of 0 0] by auto
  have e: "parse_hex4 ctx = Some (r, ctx')" using r(1) True by (simp add: parse_hex4_def)
  show ?thesis
  proof (cases r)
    case (Some w)
    let ?x = "take 4 (drop (pc_pos ctx) (pc_src ctx))"
    have l: "length ?x = 4" using True by simp
    have n: "?x ! j = pc_src ctx ! (pc_pos ctx + j)" if "j < 4" for j using that True by simp
    have x: "is_plain c \<and> c < 0x80" if cx: "c \<in> set ?x" for c
    proof -
      obtain j where j: "j < 4" "c = ?x ! j" using cx unfolding in_set_conv_nth l by blast
      then obtain d where "json_hex_value c = Some d" using r(4) Some n [OF j(1)] by auto
      then show ?thesis using json_hex_value_range by blast
    qed
    have "drop (pc_pos ctx) (pc_src ctx) = ?x @ drop 4 (drop (pc_pos ctx) (pc_src ctx))" by (rule append_take_drop_id [symmetric])
    moreover have "list_all is_plain ?x" using x unfolding list_all_iff by blast
    ultimately have "scan_non (pc_src ctx) (pc_pos ctx) \<longleftrightarrow> (\<exists>c \<in> set ?x. c \<ge> 0x80) \<or> scan_non (pc_src ctx) (pc_pos ctx + length ?x)" by (rule scan_run(3))
    moreover have "\<not> c \<ge> 0x80" if "c \<in> set ?x" for c using x [OF that] by (simp add: not_le)
    ultimately have "scan_non (pc_src ctx) (pc_pos ctx) = scan_non (pc_src ctx) (pc_pos ctx + 4)" unfolding l by blast
    then show ?thesis using e r Some True by simp
  qed (use e r in simp)
qed

lemma scalar_pair:
  assumes "0xD800 \<le> (cp :: 32 word)" "cp \<le> 0xDBFF" "0xDC00 \<le> low" "low \<le> 0xDFFF"
  shows "scalar_value (0x10000 + push_bit 10 (cp - 0xD800) + (low - 0xDC00))" "0x10000 + push_bit 10 (cp - 0xD800) + (low - 0xDC00) \<noteq> 0"
proof -
  have b: "55296 \<le> unat cp" "unat cp \<le> 56319" "56320 \<le> unat low" "unat low \<le> 57343" using assms by (simp_all add: word_le_nat_alt)
  have d: "unat (cp - 0xD800) = unat cp - 55296" "unat (low - 0xDC00) = unat low - 56320" using assms by (simp_all add: unat_sub)
  have "unat (push_bit 10 z) = unat z * 1024" if "unat z < 1024" for z :: "32 word" using that by (simp add: push_bit_eq_mult unat_word_ariths)
  then have "unat (push_bit 10 (cp - 0xD800)) = (unat cp - 55296) * 1024" using b d by simp
  then have u: "unat (0x10000 + push_bit 10 (cp - 0xD800) + (low - 0xDC00)) = 65536 + (unat cp - 55296) * 1024 + (unat low - 56320)"
    using d b by (simp add: unat_word_ariths)
  have "(unat cp - 55296) * 1024 + (unat low - 56320) \<le> 1048575" using b by linarith
  then show "scalar_value (0x10000 + push_bit 10 (cp - 0xD800) + (low - 0xDC00))" using u by (simp add: scalar_value_nat scalar_def)
  show "0x10000 + push_bit 10 (cp - 0xD800) + (low - 0xDC00) \<noteq> 0" using u by (metis add_eq_0_iff_both_eq_0 unat_0 zero_neq_numeral)
qed

lemma surrogate_escape_spec:
  assumes "unat cp < 65536" "pc_pos ctx \<le> length (pc_src ctx)"
  shows "\<exists>r ctx'. surrogate_escape ctx cp e = Some (r, ctx') \<and> pc_src ctx' = pc_src ctx \<and> pc_mp ctx' = pc_mp ctx
    \<and> (\<forall>cp. r = Some cp \<longrightarrow> scalar_value cp \<and> pc_pos ctx \<le> pc_pos ctx' \<and> pc_pos ctx' \<le> length (pc_src ctx)
         \<and> scan_non (pc_src ctx) (pc_pos ctx) = scan_non (pc_src ctx) (pc_pos ctx'))"
proof (cases "0xD800 \<le> cp \<and> cp \<le> 0xDBFF")
  case False
  have "scalar_value cp" if "\<not> (0xDC00 \<le> cp \<and> cp \<le> 0xDFFF)" using that False assms(1) by (auto simp: scalar_value_nat scalar_def word_le_nat_alt)
  then show ?thesis using assms(2) unfolding surrogate_escape_def if_not_P [OF False] by (simp add: parse_err_def)
next
  case high: True
  let ?two = "pc_pos ctx + 1 < length (pc_src ctx) \<and> pc_src ctx ! pc_pos ctx = 92 \<and> pc_src ctx ! (pc_pos ctx + 1) = 117"
  let ?c = "ctx\<lparr>pc_pos := pc_pos ctx + 2\<rparr>"
  show ?thesis
  proof (cases ?two)
    case False
    have "surrogate_escape ctx cp e = Some (None, parse_err ctx (''high surrogate escape '' @ [CHR 0x5C] @ ''u%04X at position %zu is not followed by a low surrogate escape'')
              [Num (unat cp), Num e])"
      unfolding surrogate_escape_def if_P [OF high] if_not_P [OF False] by simp
    then show ?thesis by (simp add: parse_err_def)
  next
    case True
    have c: "pc_src ?c = pc_src ctx" "pc_mp ?c = pc_mp ctx" by simp_all
    obtain lo c2 where l: "parse_hex4 ?c = Some (lo, c2)" "pc_src c2 = pc_src ctx" "pc_mp c2 = pc_mp ctx"
        "\<forall>w. lo = Some w \<longrightarrow> unat w < 65536 \<and> c2 = ?c\<lparr>pc_pos := pc_pos ?c + 4\<rparr> \<and> pc_pos ?c + 4 \<le> length (pc_src ctx)
           \<and> scan_non (pc_src ctx) (pc_pos ?c) = scan_non (pc_src ctx) (pc_pos ?c + 4)"
      using parse_hex4_spec [of ?c] unfolding c by blast
    have run: "surrogate_escape ctx cp e =
       (case lo of
          None \<Rightarrow> Some (None, c2)
        | Some low \<Rightarrow>
            if low < 0xDC00 \<or> low > 0xDFFF
            then Some (None, parse_err c2 (''high surrogate escape '' @ [CHR 0x5C] @ ''u%04X at position %zu is not followed by a low surrogate escape'')
              [Num (unat cp), Num e])
            else Some (Some (0x10000 + push_bit 10 (cp - 0xD800) + (low - 0xDC00)), c2))"
      unfolding surrogate_escape_def if_P [OF high] if_P [OF True] l(1) by simp
    have sc: "scan_non (pc_src ctx) (pc_pos ctx) = scan_non (pc_src ctx) (pc_pos ctx + 2)" using scan_backslash(3) [of "pc_pos ctx" "pc_src ctx"] True by simp
    show ?thesis
    proof (cases lo)
      case None
      then show ?thesis using run l by simp
    next
      case (Some w)
      show ?thesis
      proof (cases "w < 0xDC00 \<or> w > 0xDFFF")
        case True
        then show ?thesis unfolding run Some using l by (auto simp: parse_err_def)
      next
        case False
        then have "0xDC00 \<le> w" "w \<le> 0xDFFF" by auto
        note w = scalar_pair(1) [OF _ _ this, of cp]
        show ?thesis unfolding run Some using w high False l Some sc by simp
      qed
    qed
  qed
qed

lemma unicode_escape_spec:
  "\<exists>r ctx'. unicode_escape ctx = Some (r, ctx') \<and> pc_src ctx' = pc_src ctx \<and> pc_mp ctx' = pc_mp ctx
    \<and> (\<forall>cp. r = Some cp \<longrightarrow> scalar_value cp \<and> cp \<noteq> 0 \<and> pc_pos ctx < pc_pos ctx' \<and> pc_pos ctx' \<le> length (pc_src ctx)
         \<and> scan_non (pc_src ctx) (pc_pos ctx) = scan_non (pc_src ctx) (pc_pos ctx'))"
proof -
  obtain r c1 where h: "parse_hex4 ctx = Some (r, c1)" "pc_src c1 = pc_src ctx" "pc_mp c1 = pc_mp ctx"
      "\<forall>w. r = Some w \<longrightarrow> unat w < 65536 \<and> c1 = ctx\<lparr>pc_pos := pc_pos ctx + 4\<rparr> \<and> pc_pos ctx + 4 \<le> length (pc_src ctx)
         \<and> scan_non (pc_src ctx) (pc_pos ctx) = scan_non (pc_src ctx) (pc_pos ctx + 4)"
    using parse_hex4_spec [of ctx] by blast
  show ?thesis
  proof (cases r)
    case None
    then show ?thesis using h by (simp add: unicode_escape_def)
  next
    case (Some cp)
    have p1: "pc_pos c1 = pc_pos ctx + 4" "pc_pos c1 \<le> length (pc_src c1)" "scan_non (pc_src ctx) (pc_pos ctx) = scan_non (pc_src ctx) (pc_pos c1)" "unat cp < 65536"
      using h(4) Some by simp_all
    obtain r2 c2 where g: "surrogate_escape c1 cp (pc_pos c1 - 6) = Some (r2, c2)" "pc_src c2 = pc_src ctx" "pc_mp c2 = pc_mp ctx"
        "\<forall>cp. r2 = Some cp \<longrightarrow> scalar_value cp \<and> pc_pos c1 \<le> pc_pos c2 \<and> pc_pos c2 \<le> length (pc_src ctx)
           \<and> scan_non (pc_src ctx) (pc_pos c1) = scan_non (pc_src ctx) (pc_pos c2)"
      using surrogate_escape_spec [OF p1(4,2), of "pc_pos c1 - 6"] unfolding h(2,3) by blast
    have run: "unicode_escape ctx = (case r2 of None \<Rightarrow> Some (None, c2) | Some cp \<Rightarrow>
        if cp = 0 then Some (None, parse_err c2 ([CHR 0x5C] @ ''u0000 not supported at position %zu'') [Num (pc_pos c1 - 6)]) else Some (Some cp, c2))"
      using h(1) g(1) Some by (simp add: unicode_escape_def Let_def)
    show ?thesis
    proof (cases r2)
      case (Some w)
      then show ?thesis unfolding run Some using g p1 Some by (cases "w = 0") (simp_all add: parse_err_def)
    qed (use run g in simp)
  qed
qed

section \<open>The second pass\<close>

text \<open>The buffer of the second pass: its block is the only one the parser holds.\<close>

definition slow_ok :: "nat set \<Rightarrow> growbuf \<Rightarrow> heap \<Rightarrow> bool" where
  "slow_ok L sb h \<longleftrightarrow> gb_inv sb \<and> heap_ok h \<and> live h = L \<union> sb_blocks sb \<and> L \<inter> sb_blocks sb = {}"

lemma slow_ok_keep:
  assumes "slow_ok L sb h" "gb_inv sb'" "live h' = live h" "next_blk h' = next_blk h" "sb_blocks sb' = sb_blocks sb"
  shows "slow_ok L sb' h'"
  using assms by (simp add: slow_ok_def heap_ok_def)

lemma sb_free_live:
  assumes "slow_ok L sb h"
  shows "live (sb_free sb h) = L" "heap_ok (sb_free sb h)"
  using assms by (auto simp: slow_ok_def sb_free_def sb_blocks_def heap_ok_def split: option.splits)

text \<open>The text so far: UTF-8 without a NUL, unless the buffer has run out of memory.\<close>

definition text_ok :: "growbuf \<Rightarrow> bool" where
  "text_ok sb \<longleftrightarrow> (\<not> gb_oom sb \<longrightarrow> utf8_text (gb_content sb) \<and> 0 \<notin> set (gb_content sb))"

lemma text_ok_append:
  assumes "text_ok sb" "gb_oom sb \<longrightarrow> gb_oom sb'" "\<not> gb_oom sb' \<longrightarrow> gb_content sb' = gb_content sb @ d" "utf8_text d" "0 \<notin> set d"
  shows "text_ok sb'"
  using assms by (auto simp: text_ok_def intro: utf8_text_append)

lemma utf8_bytes_nonzero:
  assumes "scalar_value cp" "cp \<noteq> 0"
  shows "0 \<notin> set (utf8_bytes cp)"
proof -
  have "utf8_seq (utf8_bytes cp)" using assms(1) utf8_seq_bytes by blast
  then have "utf8_bytes cp = [0]" if "0 \<in> set (utf8_bytes cp)" using utf8_seq_multi [OF _ that] by simp
  moreover have "utf8_bytes cp \<noteq> [0]"
  proof
    assume "utf8_bytes cp = [0]"
    then have e: "map (of_nat :: nat \<Rightarrow> byte) (enc (unat cp)) = [0]" using utf8_bytes_unat [OF assms(1)] by simp
    have "length (map (of_nat :: nat \<Rightarrow> byte) (enc (unat cp))) = 1" unfolding e by simp
    then have "length (enc (unat cp)) = 1" by simp
    then have "unat cp \<le> 0x7F" by (auto simp: enc_def split: if_splits)
    then have "of_nat (unat cp) = (0 :: byte)" "unat cp < 256" using e by (simp_all add: enc_def)
    then have "unat cp = 0" using unat_byte [of "unat cp"] by simp
    then show False using assms(2) by (simp add: unat_eq_zero)
  qed
  ultimately show ?thesis by blast
qed

lemma string_bytes_spec:
  assumes "drop start (pc_src ctx) = r @ t" "fin = start + length r"
  shows "\<exists>ok ctx'. string_bytes_are_utf8 ctx start fin = Some (ok, ctx') \<and> pc_src ctx' = pc_src ctx \<and> pc_mp ctx' = pc_mp ctx \<and> pc_pos ctx' = pc_pos ctx
    \<and> ok = utf8_text r \<and> (ok \<longrightarrow> ctx' = ctx)"
proof -
  have r: "take (fin - start) (drop start (pc_src ctx)) = r" using assms by simp
  show ?thesis
  proof (cases "utf8_text r")
    case True
    then have "string_bytes_are_utf8 ctx start fin = Some (True, ctx)"
      using assms(2) utf8_walk_valid [OF True] r by (simp add: string_bytes_are_utf8_def ccol_utf8_first_ill_formed_def)
    then show ?thesis using True by blast
  next
    case False
    obtain n k where n: "utf8_walk r = Some n" "n < length r" "ccol_utf8_step (drop n r) = Some (False, k)" by (rule utf8_walk_bad [OF False])
    have lt: "start + n < length (pc_src ctx)"
    proof -
      have "length (drop start (pc_src ctx)) > n" unfolding assms(1) using n(2) by simp
      then show ?thesis by simp
    qed
    have "\<exists>d. ccol_utf8_describe_ill_formed (pc_src ctx) (start + n) = Some d"
      using lt ccol_utf8_step_total [of "drop (start + n) (pc_src ctx)"]
      by (fastforce simp: ccol_utf8_describe_ill_formed_def rd_def Let_def)
    then show ?thesis using False n assms(2) r by (auto simp: string_bytes_are_utf8_def ccol_utf8_first_ill_formed_def Let_def parse_err_def split: bind_splits)
  qed
qed

lemma slow_run_spec:
  assumes "slow_ok L sb h" "text_ok sb" "non \<or> \<not> scan_non (pc_src ctx) (pc_pos ctx)"
  shows "\<exists>ok ctx' sb' h'. slow_run ctx non sb h = Some (ok, ctx', sb', h') \<and> pc_src ctx' = pc_src ctx \<and> pc_mp ctx' = pc_mp ctx \<and> slow_ok L sb' h'
    \<and> pc_pos ctx' = pc_pos ctx + length (takeWhile is_plain (drop (pc_pos ctx) (pc_src ctx)))
    \<and> (ok \<longrightarrow> text_ok sb' \<and> (non \<or> \<not> scan_non (pc_src ctx) (pc_pos ctx')) \<and> pc_error ctx' = pc_error ctx)
    \<and> (utf8_text (takeWhile is_plain (drop (pc_pos ctx) (pc_src ctx))) \<longrightarrow> ok \<and> (gb_oom sb \<longrightarrow> gb_oom sb')
         \<and> (\<not> gb_oom sb' \<longrightarrow> gb_content sb' = gb_content sb @ takeWhile is_plain (drop (pc_pos ctx) (pc_src ctx))))"
proof -
  define r where "r = takeWhile is_plain (drop (pc_pos ctx) (pc_src ctx))"
  let ?c = "ctx\<lparr>pc_pos := pc_pos ctx + length r\<rparr>"
  obtain t where d: "drop (pc_pos ctx) (pc_src ctx) = r @ t" unfolding r_def using takeWhile_dropWhile_id by metis
  have pl: "list_all is_plain r" unfolding r_def by (auto simp: list_all_iff dest: set_takeWhileD)
  note sc = scan_run [OF d pl]
  have asc: "utf8_text r" if "\<not> non"
    using that assms(3) sc(3) by (intro utf8_text_ascii) (metis not_le)
  have nz: "0 \<notin> set r" using pl by (auto simp: list_all_iff is_plain_def)
  show ?thesis
  proof (cases "r = []")
    case True
    then have "slow_run ctx non sb h = Some (True, ctx, sb, h)" using r_def by (simp add: slow_run_def Let_def)
    then show ?thesis using True assms unfolding r_def [symmetric] by auto
  next
    case False
    obtain ok c1 where u: "(if non then string_bytes_are_utf8 ?c (pc_pos ctx) (pc_pos ?c) else Some (True, ?c)) = Some (ok, c1)"
        "pc_src c1 = pc_src ctx" "pc_mp c1 = pc_mp ctx" "pc_pos c1 = pc_pos ctx + length r" "ok = (utf8_text r)" "ok \<longrightarrow> c1 = ?c"
    proof (cases non)
      case True
      have "drop (pc_pos ctx) (pc_src ?c) = r @ t" "pc_pos ?c = pc_pos ctx + length r" using d by simp_all
      from string_bytes_spec [OF this] show ?thesis using True that by auto
    next
      case F: False
      then show ?thesis using that [of True ?c] asc by simp
    qed
    show ?thesis
    proof (cases ok)
      case bad: False
      have "slow_run ctx non sb h = Some (False, c1, sb, h)" unfolding slow_run_def Let_def r_def [symmetric] using u(1) bad False by simp
      then show ?thesis using u bad assms unfolding r_def [symmetric] by auto
    next
      case ok: True
      have len: "length r \<le> length (drop (pc_pos ctx) (pc_src ctx))" using d by simp
      obtain b' h' where b: "ccol_growbuf_append sb (drop (pc_pos ctx) (pc_src ctx)) (length r) h = Some (b', h')" "gb_inv b'" "gb_oom sb \<longrightarrow> gb_oom b'"
          "\<not> gb_oom b' \<longrightarrow> gb_content b' = gb_content sb @ r" "live h' = live h" "next_blk h' = next_blk h" "sb_blocks b' = sb_blocks sb"
      proof -
        have i: "gb_inv sb" using assms(1) by (simp add: slow_ok_def)
        have "take (length r) (drop (pc_pos ctx) (pc_src ctx)) = r" using d by simp
        then show ?thesis using sb_append_n [OF i len, of h] that by metis
      qed
      have "slow_run ctx non sb h = Some (True, ?c, b', h')" unfolding slow_run_def Let_def r_def [symmetric] using u ok b(1) False by simp
      moreover have "slow_ok L b' h'" using slow_ok_keep [OF assms(1) b(2,5-7)] .
      moreover have "text_ok b'" using text_ok_append [OF assms(2) b(3,4)] u(5) ok nz by simp
      ultimately show ?thesis unfolding r_def [symmetric] using b assms(3) sc(3) u(5) ok by auto
    qed
  qed
qed

lemma slow_escape_spec:
  assumes "slow_ok L sb h" "text_ok sb" "pc_pos ctx < length (pc_src ctx)" "non \<or> \<not> scan_non (pc_src ctx) (pc_pos ctx + 1)"
  shows "\<exists>ok ctx' sb' h'. slow_escape ctx sb h = Some (ok, ctx', sb', h') \<and> pc_src ctx' = pc_src ctx \<and> pc_mp ctx' = pc_mp ctx \<and> slow_ok L sb' h'
    \<and> (ok \<longrightarrow> pc_pos ctx < pc_pos ctx' \<and> pc_pos ctx' \<le> length (pc_src ctx) \<and> text_ok sb' \<and> (non \<or> \<not> scan_non (pc_src ctx) (pc_pos ctx')))"
proof -
  let ?e = "pc_src ctx ! pc_pos ctx" and ?c = "ctx\<lparr>pc_pos := pc_pos ctx + 1\<rparr>"
  have i: "gb_inv sb" using assms(1) by (simp add: slow_ok_def)
  show ?thesis
  proof (cases "simple_escape ?e")
    case (Some c)
    obtain b' h' where b: "ccol_growbuf_append_c sb c h = Some (b', h')" "gb_inv b'" "gb_oom sb \<longrightarrow> gb_oom b'" "\<not> gb_oom b' \<longrightarrow> gb_content b' = gb_content sb @ [c]"
        "live h' = live h" "next_blk h' = next_blk h" "sb_blocks b' = sb_blocks sb" using sb_append_char [OF i, of c h] by blast
    have c: "c < 0x80" "c \<noteq> 0" using Some by (auto simp: simple_escape_def split: if_splits)
    have "text_ok b'" by (rule text_ok_append [OF assms(2) b(3,4)]) (use c utf8_text_ascii [of "[c]"] in auto)
    moreover have "slow_escape ctx sb h = Some (True, ?c, b', h')" using Some b(1) by (simp add: slow_escape_def Let_def)
    moreover have "slow_ok L b' h'" using slow_ok_keep [OF assms(1) b(2,5-7)] .
    ultimately show ?thesis using assms(3,4) by auto
  next
    case None
    show ?thesis
    proof (cases "?e = 117")
      case False
      then show ?thesis using None assms(1) by (auto simp: slow_escape_def Let_def parse_err_def)
    next
      case True
      have cs: "pc_src ?c = pc_src ctx" "pc_mp ?c = pc_mp ctx" "pc_pos ?c = pc_pos ctx + 1" by simp_all
      obtain r c1 where u: "unicode_escape ?c = Some (r, c1)" "pc_src c1 = pc_src ctx" "pc_mp c1 = pc_mp ctx"
          "\<forall>cp. r = Some cp \<longrightarrow> scalar_value cp \<and> cp \<noteq> 0 \<and> pc_pos ctx + 1 < pc_pos c1 \<and> pc_pos c1 \<le> length (pc_src ctx)
             \<and> scan_non (pc_src ctx) (pc_pos ctx + 1) = scan_non (pc_src ctx) (pc_pos c1)"
        using unicode_escape_spec [of ?c] unfolding cs by blast
      show ?thesis
      proof (cases r)
        case N: None
        then show ?thesis using None True u assms(1) by (auto simp: slow_escape_def Let_def)
      next
        case (Some cp)
        have cp: "scalar_value cp" "cp \<noteq> 0" using u(4) Some by simp_all
        obtain b' h' where b: "encode_utf8 sb cp h = Some (b', h')" "gb_inv b'" "gb_oom sb \<longrightarrow> gb_oom b'" "\<not> gb_oom b' \<longrightarrow> gb_content b' = gb_content sb @ utf8_bytes cp"
            "live h' = live h" "next_blk h' = next_blk h" "sb_blocks b' = sb_blocks sb" using sb_append_all [OF i, of "utf8_bytes cp" h] unfolding encode_utf8_def by blast
        have "text_ok b'" by (rule text_ok_append [OF assms(2) b(3,4)]) (use cp utf8_bytes_nonzero utf8_seq_bytes utf8_text_seq in auto)
        moreover have "slow_escape ctx sb h = Some (True, c1, b', h')" using None True u(1) b(1) Some by (simp add: slow_escape_def Let_def)
        moreover have "slow_ok L b' h'" using slow_ok_keep [OF assms(1) b(2,5-7)] .
        ultimately show ?thesis using u(2-4) Some assms(4) by auto
      qed
    qed
  qed
qed

text \<open>What a reader of a string literal promises of its outcome.\<close>

definition string_out :: "nat set \<Rightarrow> parse_ctx \<Rightarrow> cstr_out \<Rightarrow> size_t \<Rightarrow> parse_ctx \<Rightarrow> heap \<Rightarrow> bool" where
  "string_out L ctx out n ctx' h' \<longleftrightarrow>
     (\<exists>k bs. out = Some (k, bs) \<and> k \<notin> L \<and> live h' = insert k L \<and> n < length bs \<and> bs ! n = 0
        \<and> utf8_text (take n bs) \<and> 0 \<notin> set (take n bs)
        \<and> pc_pos ctx < pc_pos ctx' \<and> pc_pos ctx' \<le> length (pc_src ctx) \<and> pc_src ctx ! (pc_pos ctx' - 1) = 34)"

lemma slow_loop_spec:
  assumes "slow_ok L sb h" "text_ok sb" "non \<or> \<not> scan_non (pc_src ctx) (pc_pos ctx)"
  shows "\<exists>r ctx' h'. slow_loop ctx non sb h = Some (r, ctx', h') \<and> pc_src ctx' = pc_src ctx \<and> heap_ok h'
    \<and> (r = None \<longrightarrow> live h' = L) \<and> (\<forall>out n. r = Some (out, n) \<longrightarrow> string_out L ctx out n ctx' h')"
  using assms
proof (induction "length (pc_src ctx) - pc_pos ctx" arbitrary: ctx sb h rule: less_induct)
  case less
  let ?unterm = "\<lambda>c. parse_err c ''unterminated string starting before position %zu'' [Num (pc_pos c)]"
  have err: "pc_src (parse_err c f a) = pc_src c" for c f a by (simp add: parse_err_def)
  show ?case
  proof (cases "pc_pos ctx < length (pc_src ctx)")
    case False
    then have "slow_loop ctx non sb h = Some (None, ?unterm ctx, sb_free sb h)" by (subst slow_loop.simps) simp
    then show ?thesis using sb_free_live [OF less(2)] err by simp
  next
    case lt: True
    obtain ok c1 sb1 h1 where r: "slow_run ctx non sb h = Some (ok, c1, sb1, h1)" "pc_src c1 = pc_src ctx" "slow_ok L sb1 h1"
        "pc_pos c1 = pc_pos ctx + length (takeWhile is_plain (drop (pc_pos ctx) (pc_src ctx)))"
        "ok \<longrightarrow> text_ok sb1 \<and> (non \<or> \<not> scan_non (pc_src ctx) (pc_pos c1))"
      using slow_run_spec [OF less(2-4)] by blast
    note unfold = slow_loop.simps [of ctx non sb h, unfolded if_P [OF lt] r(1)]
    show ?thesis
    proof (cases ok)
      case False
      then have "slow_loop ctx non sb h = Some (None, c1, sb_free sb1 h1)" using unfold by simp
      then show ?thesis using sb_free_live [OF r(3)] r(2) by simp
    next
      case ok: True
      show ?thesis
      proof (cases "pc_pos c1 \<ge> length (pc_src c1)")
        case True
        then have "slow_loop ctx non sb h = Some (None, ?unterm c1, sb_free sb1 h1)" using unfold ok by simp
        then show ?thesis using sb_free_live [OF r(3)] r(2) err by simp
      next
        case in1: False
        let ?x = "pc_src c1 ! pc_pos c1" and ?c = "c1\<lparr>pc_pos := pc_pos c1 + 1\<rparr>"
        consider (quote) "?x = 34" | (bs) "?x \<noteq> 34" "?x = 92" | (ctl) "?x \<noteq> 34" "?x \<noteq> 92" by blast
        then show ?thesis
        proof cases
          case ctl
          then show ?thesis using unfold ok in1 sb_free_live [OF r(3)] r(2) err by (simp add: Let_def)
        next
          case quote
          show ?thesis
          proof (cases "gb_oom sb1")
            case True
            then show ?thesis using unfold ok in1 quote sb_free_live [OF r(3)] r(2) by simp
          next
            case False
            have t: "utf8_text (gb_content sb1)" "0 \<notin> set (gb_content sb1)" using r(5) ok False by (simp_all add: text_ok_def)
            have "slow_loop ctx non sb h = Some (Some (gb_buf sb1, gb_len sb1), ?c, h1)" using unfold ok in1 quote False by simp
            moreover have "string_out L ctx (gb_buf sb1) (gb_len sb1) ?c h1"
              using r(3) t False r(2,4) in1 quote by (auto simp: string_out_def slow_ok_def gb_inv_def sb_blocks_def gb_content_def split: option.splits)
            ultimately show ?thesis using r(2,3) by (simp add: slow_ok_def)
          qed
        next
          case bs
          show ?thesis
          proof (cases "pc_pos ?c \<ge> length (pc_src ?c)")
            case True
            then have "slow_loop ctx non sb h = Some (None, ?unterm ?c, sb_free sb1 h1)" using unfold ok in1 bs by simp
            then show ?thesis using sb_free_live [OF r(3)] r(2) err by simp
          next
            case in2: False
            have sc: "non \<or> \<not> scan_non (pc_src ?c) (pc_pos ?c + 1)" using r(2,5) ok scan_backslash(3) [of "pc_pos c1" "pc_src c1"] bs in1 by auto
            have in3: "pc_pos ?c < length (pc_src ?c)" using in2 by simp
            have t1: "text_ok sb1" using r(5) ok by blast
            obtain ok2 c2 sb2 h2 where e: "slow_escape ?c sb1 h1 = Some (ok2, c2, sb2, h2)" "pc_src c2 = pc_src ?c" "slow_ok L sb2 h2"
                "ok2 \<longrightarrow> pc_pos ?c < pc_pos c2 \<and> pc_pos c2 \<le> length (pc_src ?c) \<and> text_ok sb2 \<and> (non \<or> \<not> scan_non (pc_src ?c) (pc_pos c2))"
              using slow_escape_spec [OF r(3) t1 in3 sc] by blast
            have run: "slow_loop ctx non sb h = (if \<not> ok2 then Some (None, c2, sb_free sb2 h2) else slow_loop c2 non sb2 h2)"
              using unfold ok in1 bs in2 e(1) by simp
            show ?thesis
            proof (cases ok2)
              case False
              then show ?thesis using run sb_free_live [OF e(3)] e(2) r(2) by simp
            next
              case True
              have src: "pc_src c2 = pc_src ctx" using e(2) r(2) by simp
              have lt2: "length (pc_src c2) - pc_pos c2 < length (pc_src ctx) - pc_pos ctx" using e(4) True r(2,4) lt src by auto
              have "text_ok sb2" "non \<or> \<not> scan_non (pc_src c2) (pc_pos c2)" using e(2,4) True by simp_all
              from less(1) [OF lt2 e(3) this] obtain r' c' h' where
                f: "slow_loop c2 non sb2 h2 = Some (r', c', h')" "pc_src c' = pc_src c2" "heap_ok h'" "r' = None \<longrightarrow> live h' = L"
                   "\<forall>out n. r' = Some (out, n) \<longrightarrow> string_out L c2 out n c' h'" by blast
              have "pc_pos ctx < pc_pos c2" using e(4) True r(4) by auto
              then have "string_out L ctx out n c' h'" if "string_out L c2 out n c' h'" for out n using that src by (auto simp: string_out_def)
              then show ?thesis using run True f src by auto
            qed
          qed
        qed
      qed
    qed
  qed
qed

section \<open>The whole literal\<close>

lemma init_hint_slow_ok:
  assumes "ccol_growbuf_init_hint mp n h = (sb, h')" "heap_ok h" "n \<le> SIZE_MAX"
  shows "slow_ok (live h) sb h'" "text_ok sb" "\<not> gb_oom sb \<longrightarrow> gb_content sb = []"
proof -
  have i: "gb_inv sb" "\<not> gb_oom sb \<longrightarrow> gb_content sb = []" using growbuf_init_hint_inv [OF assms(1,3)] by auto
  have "heap_ok h' \<and> live h' = live h \<union> sb_blocks sb \<and> live h \<inter> sb_blocks sb = {}"
    using assms(1,2) heap_ok_fresh [OF assms(2)]
    by (auto simp: ccol_growbuf_init_hint_def Let_def sb_blocks_def heap_ok_def dest!: mem_alloc_Some mem_alloc_None split: if_splits prod.splits option.splits) (meson less_SucI)+
  then show "slow_ok (live h) sb h'" using i(1) by (simp add: slow_ok_def)
  show "text_ok sb" using i by (simp add: text_ok_def)
  show "\<not> gb_oom sb \<longrightarrow> gb_content sb = []" using i(2) .
qed

lemma parse_string_slow_spec:
  assumes "heap_ok h" "length (pc_src ctx) < SIZE_MAX" "scan \<le> length (pc_src ctx)" "non \<or> \<not> scan_non (pc_src ctx) (pc_pos ctx)"
  shows "\<exists>r ctx' h'. parse_string_slow ctx scan non h = Some (r, ctx', h') \<and> pc_src ctx' = pc_src ctx \<and> heap_ok h'
    \<and> (r = None \<longrightarrow> live h' = live h) \<and> (\<forall>out n. r = Some (out, n) \<longrightarrow> string_out (live h) ctx out n ctx' h')"
proof -
  obtain sb h1 where i: "ccol_growbuf_init_hint (pc_mp ctx) (scan - pc_pos ctx) h = (sb, h1)" by fastforce
  have "scan - pc_pos ctx \<le> SIZE_MAX" using assms(2,3) by simp
  note s = init_hint_slow_ok [OF i assms(1) this]
  show ?thesis using slow_loop_spec [OF s(1,2) assms(4)] i by (simp add: parse_string_slow_def)
qed

lemma buf_put_cstr:
  assumes "length s = n + 1" "length raw = n"
  shows "buf_put s 0 raw = Some (raw @ drop n s)" "buf_put (raw @ drop n s) n [0] = Some (raw @ [0])"
  using assms by (simp_all add: buf_put_def)

text \<open>The two ways through a literal, from the state behind the first pass on.\<close>

lemma parse_string_raw_fast:
  assumes "parse_string_scan ctx = (Some (scan, False, non), c1)" "pc_pos c1 \<le> scan" "scan \<le> length (pc_src c1)" "length (pc_src c1) < SIZE_MAX"
    and "raw = take (scan - pc_pos c1) (drop (pc_pos c1) (pc_src c1))" "heap_ok h"
    and "(if non then string_bytes_are_utf8 c1 (pc_pos c1) scan else Some (True, c1)) = Some (ok, c2)" "ok \<longrightarrow> c2 = c1"
  shows "\<exists>r ctx' h'. parse_string_raw ctx h = Some (r, ctx', h') \<and> heap_ok h' \<and> (r = None \<longrightarrow> live h' = live h \<and> ctx' = c2)
    \<and> (\<forall>out. r = Some out \<longrightarrow> ok \<and> ctx' = c1\<lparr>pc_pos := scan + 1\<rparr> \<and> (\<exists>k. out = Some (k, raw @ [0]) \<and> k \<notin> live h \<and> live h' = insert k (live h)))"
proof (cases ok)
  case False
  then show ?thesis using assms(1,6,7) by (simp add: parse_string_raw_def)
next
  case True
  let ?n = "scan - pc_pos c1"
  have c2: "c2 = c1" using assms(8) True by simp
  have sz: "sz_add ?n 1 = ?n + 1" using assms(2-4) by (intro sz_add_exact) simp
  have l: "length raw = ?n" using assms(2,3,5) by simp
  show ?thesis
  proof (cases "mem_alloc h (?n + 1)")
    case (Pair a h1)
    show ?thesis
    proof (cases a)
      case None
      have "parse_string_raw ctx h = Some (None, c1, h1)" using assms(1,7) True c2 sz Pair None by (simp add: parse_string_raw_def)
      then show ?thesis using mem_alloc_None [of h "?n + 1" h1] Pair None assms(6) c2 by (simp add: heap_ok_def)
    next
      case (Some x)
      obtain k s where x: "x = (k, s)" by (cases x)
      have m: "k = next_blk h" "length s = ?n + 1" "live h1 = insert k (live h)" "next_blk h1 = Suc k" using mem_alloc_Some [of h "?n + 1" k s h1] Pair Some x by auto
      have "parse_string_raw ctx h = Some (Some (Some (k, raw @ [0])), c1\<lparr>pc_pos := scan + 1\<rparr>, h1)"
        using assms(1,5,7) True c2 sz Pair Some x buf_put_cstr [OF m(2) l] by (simp add: parse_string_raw_def)
      moreover have "k \<notin> live h" "heap_ok h1" using m assms(6) heap_ok_fresh by (auto simp: heap_ok_def less_Suc_eq)
      ultimately show ?thesis using m(3) True by simp
    qed
  qed
qed

lemma parse_string_scan_spec:
  assumes "parse_string_scan ctx = (r, c1)"
  shows "pc_src c1 = pc_src ctx" "pc_mp c1 = pc_mp ctx"
    "r = Some (scan, slow, non) \<Longrightarrow> c1 = ctx\<lparr>pc_pos := pc_pos ctx + 1\<rparr> \<and> pc_pos ctx < length (pc_src ctx) \<and> scan = scan_end (pc_src ctx) (pc_pos c1)
       \<and> scan < length (pc_src ctx) \<and> slow = scan_slow (pc_src ctx) (pc_pos c1) \<and> non = scan_non (pc_src ctx) (pc_pos c1)"
  using assms by (auto simp: parse_string_scan_def Let_def scan_loop_flags parse_err_def split: if_splits)

text \<open>Where a literal without escapes and control characters ends.\<close>

lemma scan_fast:
  assumes "\<not> scan_slow src p" "scan_end src p < length src"
  shows "p \<le> scan_end src p \<and> src ! scan_end src p = 34 \<and> list_all is_plain (take (scan_end src p - p) (drop p src))
    \<and> (scan_non src p \<longleftrightarrow> (\<exists>c \<in> set (take (scan_end src p - p) (drop p src)). c \<ge> 0x80))"
  using assms
proof (induction "length src - p" arbitrary: p rule: less_induct)
  case less
  show ?case
  proof (cases "p < length src")
    case False
    then have "scan_end src p = p" by (simp add: scan_end_def scan_loop.simps)
    then show ?thesis using less(3) False by simp
  next
    case lt: True
    show ?thesis
    proof (cases "src ! p = 34")
      case True
      then show ?thesis using scan_quote [OF lt True] by simp
    next
      case nq: False
      have nb: "src ! p \<noteq> 92" using scan_backslash(2) [OF lt] less(2) by blast
      note c = scan_char [OF lt nq nb]
      have "length src - (p + 1) < length src - p" "\<not> scan_slow src (p + 1)" "scan_end src (p + 1) < length src" using lt c less(2,3) by auto
      from less(1) [OF this] have i: "p + 1 \<le> scan_end src (p + 1)" "src ! scan_end src (p + 1) = 34"
          "list_all is_plain (take (scan_end src (p + 1) - (p + 1)) (drop (p + 1) src))"
          "scan_non src (p + 1) \<longleftrightarrow> (\<exists>c \<in> set (take (scan_end src (p + 1) - (p + 1)) (drop (p + 1) src)). c \<ge> 0x80)" by blast+
      have "drop p src = src ! p # drop (p + 1) src" using lt by (simp add: Cons_nth_drop_Suc)
      moreover have "scan_end src p - p = Suc (scan_end src (p + 1) - (p + 1))" using i(1) c(1) by simp
      ultimately have t: "take (scan_end src p - p) (drop p src) = src ! p # take (scan_end src (p + 1) - (p + 1)) (drop (p + 1) src)" by simp
      have "is_plain (src ! p)" using nq nb c(2) less(2) by (auto simp: is_plain_def)
      then show ?thesis using i c t by auto
    qed
  qed
qed

lemma cstr_take: "n < length bs \<Longrightarrow> bs ! n = 0 \<Longrightarrow> 0 \<notin> set (take n bs) \<Longrightarrow> takeWhile (\<lambda>c. c \<noteq> 0) bs = take n (bs :: byte list)"
  by (metis (mono_tags, lifting) takeWhile_eq_take_P_nth in_set_takeD nth_mem length_take min.absorb2 less_imp_le_nat nth_take)

section \<open>Properties\<close>

text \<open>
  Claim C28.  Whatever bytes a document holds, reading a string literal returns, and what it
  returns is a string of the documented type: a fresh block with a terminated C string that
  is well-formed UTF-8, no byte of which was cut off by a NUL, with the position just behind
  the closing quote.  A refusal of the text or of the allocator, on any path, leaves no
  block behind.
\<close>

theorem json_string_sound:
  assumes "heap_ok h" "length (pc_src ctx) < SIZE_MAX"
  shows "\<exists>r ctx' h'. parse_string_raw ctx h = Some (r, ctx', h')
    \<and> (r = None \<longrightarrow> live h' = live h)
    \<and> (\<forall>out. r = Some out \<longrightarrow> (\<exists>k bs. out = Some (k, bs) \<and> k \<notin> live h \<and> live h' = insert k (live h)
          \<and> 0 \<in> set bs \<and> ccol_utf8_is_valid (takeWhile (\<lambda>c. c \<noteq> 0) bs) = Some True
          \<and> pc_pos ctx < pc_pos ctx' \<and> pc_pos ctx' \<le> length (pc_src ctx) \<and> pc_src ctx ! (pc_pos ctx' - 1) = 34))"
proof -
  obtain r c1 where sc: "parse_string_scan ctx = (r, c1)" by fastforce
  show ?thesis
  proof (cases r)
    case None
    then show ?thesis using sc by (simp add: parse_string_raw_def)
  next
    case (Some x)
    obtain scan slow non where x: "x = (scan, slow, non)" by (cases x)
    have p: "c1 = ctx\<lparr>pc_pos := pc_pos ctx + 1\<rparr>" "pc_pos ctx < length (pc_src ctx)" "scan = scan_end (pc_src ctx) (pc_pos c1)" "scan < length (pc_src ctx)"
        "slow = scan_slow (pc_src ctx) (pc_pos c1)" "non = scan_non (pc_src ctx) (pc_pos c1)"
      using parse_string_scan_spec(3) [OF sc, of scan slow non] Some x by blast+
    have src: "pc_src c1 = pc_src ctx" using p(1) by simp
    show ?thesis
    proof (cases slow)
      case True
      obtain r2 c2 h2 where s: "parse_string_slow c1 scan non h = Some (r2, c2, h2)" "r2 = None \<longrightarrow> live h2 = live h"
          "\<forall>out n. r2 = Some (out, n) \<longrightarrow> string_out (live h) c1 out n c2 h2"
        using parse_string_slow_spec [OF assms(1), of c1 scan non] assms(2) src p(4,6) by auto
      have run: "parse_string_raw ctx h = Some (map_option fst r2, c2, h2)" using sc Some x True s(1) by (simp add: parse_string_raw_def)
      show ?thesis
      proof (cases r2)
        case N: None
        then show ?thesis using run s(2) by simp
      next
        case S: (Some y)
        obtain out n where y: "y = (out, n)" by (cases y)
        have "string_out (live h) c1 out n c2 h2" using s(3) S y by blast
        then obtain k bs where b: "out = Some (k, bs)" "k \<notin> live h" "live h2 = insert k (live h)" "n < length bs" "bs ! n = 0" "utf8_text (take n bs)" "0 \<notin> set (take n bs)"
            "pc_pos c1 < pc_pos c2" "pc_pos c2 \<le> length (pc_src ctx)" "pc_src ctx ! (pc_pos c2 - 1) = 34" unfolding string_out_def src by blast
        have "ccol_utf8_is_valid (takeWhile (\<lambda>c. c \<noteq> 0) bs) = Some True" using b cstr_take utf8_valid_text by simp
        moreover have "0 \<in> set bs" using b(4,5) nth_mem by metis
        ultimately show ?thesis using run S y b p(1) by auto
      qed
    next
      case False
      note f = scan_fast [of "pc_src ctx" "pc_pos c1", folded p(3,5,6), OF False p(4)]
      define raw where "raw = take (scan - pc_pos c1) (drop (pc_pos c1) (pc_src c1))"
      have d: "drop (pc_pos c1) (pc_src c1) = raw @ drop (scan - pc_pos c1) (drop (pc_pos c1) (pc_src c1))" unfolding raw_def by (rule append_take_drop_id [symmetric])
      have l: "scan = pc_pos c1 + length raw" using f p(4) src by (simp add: raw_def)
      obtain ok c2 where u: "(if non then string_bytes_are_utf8 c1 (pc_pos c1) scan else Some (True, c1)) = Some (ok, c2)" "ok \<longrightarrow> c2 = c1" "ok \<longrightarrow> utf8_text raw"
      proof (cases non)
        case True
        then show ?thesis using string_bytes_spec [OF d l] that by auto
      next
        case n: False
        have "utf8_text raw" using f n src unfolding raw_def by (intro utf8_text_ascii) (auto simp: not_le)
        then show ?thesis using that n by simp
      qed
      have bounds: "pc_pos c1 \<le> scan" "scan \<le> length (pc_src c1)" "length (pc_src c1) < SIZE_MAX" using l p(4) src assms(2) by simp_all
      have sc0: "parse_string_scan ctx = (Some (scan, False, non), c1)" using sc Some x False by simp
      obtain r2 c3 h2 where s: "parse_string_raw ctx h = Some (r2, c3, h2)" "r2 = None \<longrightarrow> live h2 = live h"
          "\<forall>out. r2 = Some out \<longrightarrow> ok \<and> c3 = c1\<lparr>pc_pos := scan + 1\<rparr> \<and> (\<exists>k. out = Some (k, raw @ [0]) \<and> k \<notin> live h \<and> live h2 = insert k (live h))"
        using parse_string_raw_fast [OF sc0 bounds raw_def assms(1) u(1,2)] by blast
      have nz: "0 \<notin> set raw" using f src unfolding raw_def by (auto simp: list_all_iff is_plain_def)
      have "takeWhile (\<lambda>c. c \<noteq> 0) (raw @ [0]) = raw" using nz cstr_take [of "length raw" "raw @ [0]"] by simp
      then have "ccol_utf8_is_valid (takeWhile (\<lambda>c. c \<noteq> 0) (raw @ [0])) = Some True" if ok using u(3) that utf8_valid_text by simp
      then show ?thesis using s f p(1,2,4) by auto
    qed
  qed
qed

theorem json_string_sound_witness:
  "\<exists>r ctx' h'. parse_string_raw \<lparr>pc_src = [34, 104, 195, 169, 34], pc_pos = 0, pc_error = Fmt [] [], pc_mp = DefaultProcs\<rparr> plain_heap = Some (r, ctx', h')
     \<and> (live h' = {} \<or> (\<exists>k. live h' = {k}))"
proof -
  let ?c = "\<lparr>pc_src = [34, 104, 195, 169, 34], pc_pos = 0, pc_error = Fmt [] [], pc_mp = DefaultProcs\<rparr>"
  have "heap_ok plain_heap" "live plain_heap = {}" by (simp_all add: plain_heap_def heap_ok_def)
  moreover have "length (pc_src ?c) < SIZE_MAX" by (simp add: SIZE_MAX_def)
  ultimately show ?thesis using json_string_sound [of plain_heap ?c] by fastforce
qed

end
