(* ===== verification/CCol_Json_Text.thy ===== *)
theory CCol_Json_Text
  imports CCol_Json_Read
begin

text \<open>
  The two directions of the string literals of \<^verbatim>\<open>src/cjson.c\<close> together: the parser reads back
  what the serialiser writes.  The capacity hint of the parser is the length of the text of
  the literal, which is never shorter than the string it stands for, so its buffer never
  grows: the whole string costs one request to the allocator.
\<close>

unbundle bit_operations_syntax

section \<open>A buffer with room\<close>

definition room :: "growbuf \<Rightarrow> size_t \<Rightarrow> bool" where
  "room sb m \<longleftrightarrow> gb_inv sb \<and> \<not> gb_oom sb \<and> gb_len sb + m < gb_cap sb"

lemma growbuf_write_shape: "gb_cap (growbuf_write b d n) = gb_cap b" "gb_buf b \<noteq> None \<Longrightarrow> gb_len (growbuf_write b d n) = gb_len b + n"
  by (auto simp: growbuf_write_def split: option.splits)

lemma append_room:
  assumes "room sb (n + m)" "n \<le> length d"
  shows "\<exists>sb'. ccol_growbuf_append sb d n h = Some (sb', h) \<and> room sb' m \<and> gb_content sb' = gb_content sb @ take n d \<and> sb_blocks sb' = sb_blocks sb"
proof -
  have b: "gb_inv sb" "\<not> gb_oom sb" "gb_len sb + n < gb_cap sb" "gb_len sb + n + m < gb_cap sb" using assms(1) by (auto simp: room_def)
  have cap: "gb_cap sb \<le> SIZE_MAX" "gb_buf sb \<noteq> None" using b(1,2) by (auto simp: gb_inv_def split: option.splits)
  have sub: "sz_sub (sz_sub SIZE_MAX 1) (gb_len sb) = SIZE_MAX - 1 - gb_len sb"
  proof -
    have "sz_sub SIZE_MAX 1 = SIZE_MAX - 1" by (rule sz_sub_exact) (simp_all add: SIZE_MAX_def)
    moreover have "sz_sub (SIZE_MAX - 1) (gb_len sb) = SIZE_MAX - 1 - gb_len sb" using cap(1) b(3) by (intro sz_sub_exact) simp_all
    ultimately show ?thesis by simp
  qed
  have slow: "ccol_growbuf_append sb d n h = Some (if n = 0 then sb else growbuf_write sb d n, h)"
    unfolding growbuf_append_eq_slow [OF b(1)] ccol_growbuf_append_slow_def sub using b cap(1) by (simp add: Let_def)
  have len: "gb_len (growbuf_write sb d n) = gb_len sb + n" by (rule growbuf_write_shape(2) [OF cap(2)])
  show ?thesis unfolding slow using growbuf_write_spec [OF b(1,2) assms(2) b(3)] len b by (auto simp: room_def growbuf_write_shape(1))
qed

lemma append_c_room:
  assumes "room sb (1 + m)"
  shows "\<exists>sb'. ccol_growbuf_append_c sb c h = Some (sb', h) \<and> room sb' m \<and> gb_content sb' = gb_content sb @ [c] \<and> sb_blocks sb' = sb_blocks sb"
  using append_room [OF assms, of "[c]" h] by (simp add: ccol_growbuf_append_c_def)

lemma room_less: "room sb n \<Longrightarrow> m \<le> n \<Longrightarrow> room sb m"
  by (simp add: room_def)

section \<open>An escape is read back\<close>

text \<open>The characters that the serialiser escapes.\<close>

lemma escaped_cases:
  assumes "\<not> is_plain c" "c \<noteq> 0"
  shows "c = 34 \<or> c = 92 \<or> unat c < 32 \<and> unat c \<noteq> 0"
  using assms by (auto simp: is_plain_def word_less_nat_alt unat_eq_zero)

text \<open>What follows the backslash: a letter, or the digits of the code.\<close>

lemma escape_bytes_shape:
  assumes "\<not> is_plain c" "c \<noteq> 0"
  obtains x where "escape_bytes c = [92, x]" "simple_escape x = Some c"
  | "escape_bytes c = [92, 117, 48, 48, hex_digit (unat c div 16), hex_digit (unat c mod 16)]" "unat c < 32" "c < 0x80"
proof (cases "c \<in> {34, 92, 8, 12, 10, 13, 9}")
  case True
  then show ?thesis using that(1) by (auto simp: escape_bytes_def simple_escape_def)
next
  case False
  have "unat c < 32" using escaped_cases [OF assms] False by auto
  moreover from this have "c < 0x80" by (simp add: word_less_nat_alt)
  ultimately show ?thesis using that(2) False by (auto simp: escape_bytes_def)
qed

lemma nth_of_drop: "drop p xs = ys @ t \<Longrightarrow> i < length ys \<Longrightarrow> xs ! (p + i) = ys ! i \<and> p + i < length xs"
proof -
  assume a: "drop p xs = ys @ t" "i < length ys"
  have "length (drop p xs) > i" unfolding a(1) using a(2) by simp
  then have "p + i < length xs" by simp
  moreover have "xs ! (p + i) = drop p xs ! i" using calculation by simp
  ultimately show "xs ! (p + i) = ys ! i \<and> p + i < length xs" using a by (simp add: nth_append)
qed

lemma hex4_step:
  assumes "i < 4" "rd (pc_src ctx) (pc_pos ctx + i) = Some c" "json_hex_value c = Some d"
  shows "hex4_loop ctx i v = hex4_loop ctx (Suc i) (push_bit 4 v OR d)"
  using assms by (subst hex4_loop.simps) simp

lemma parse_hex4_small:
  assumes "drop (pc_pos ctx) (pc_src ctx) = 48 # 48 # hex_digit a # hex_digit b # t" "a < 16" "b < 16"
  shows "parse_hex4 ctx = Some (Some (of_nat (a * 16 + b)), ctx\<lparr>pc_pos := pc_pos ctx + 4\<rparr>)"
proof -
  let ?d = "[48, 48, hex_digit a, hex_digit b]"
  have d: "drop (pc_pos ctx) (pc_src ctx) = ?d @ t" using assms(1) by simp
  have rd: "rd (pc_src ctx) (pc_pos ctx + i) = Some (?d ! i)" if "i < 4" for i using nth_of_drop [OF d, of i] that by (simp add: rd_def)
  have r: "rd (pc_src ctx) (pc_pos ctx) = Some 48" "rd (pc_src ctx) (Suc (pc_pos ctx)) = Some 48"
      "rd (pc_src ctx) (pc_pos ctx + 2) = Some (hex_digit a)" "rd (pc_src ctx) (pc_pos ctx + 3) = Some (hex_digit b)"
    using rd [of 0] rd [of 1] rd [of 2] rd [of 3] by (simp_all add: eval_nat_numeral)
  have v: "json_hex_value 48 = Some 0" by (simp add: json_hex_value_def)
  note h = json_hex_value_digit [OF assms(2)] json_hex_value_digit [OF assms(3)]
  have l: "pc_pos ctx + 4 \<le> length (pc_src ctx)" using nth_of_drop [OF d, of 3] by simp
  have ab: "of_nat a < (2 ^ 28 :: 32 word)" "of_nat b < (16 :: 32 word)" using assms(2,3) by (simp_all add: word_less_nat_alt unat_of_nat take_bit_nat_eq_self_iff)
  have "push_bit 4 (of_nat a :: 32 word) OR of_nat b = of_nat (a * 16 + b)" using push_or(1) [OF ab] by simp
  then have "hex4_loop ctx 0 0 = hex4_loop ctx 4 (of_nat (a * 16 + b))"
    using hex4_step [of 0 ctx 48 0 0] hex4_step [of 1 ctx 48 0 0] hex4_step [of 2 ctx "hex_digit a" "of_nat a" 0] hex4_step [of 3 ctx "hex_digit b" "of_nat b" "of_nat a"] r v h
    by (simp add: eval_nat_numeral)
  then show ?thesis using l by (simp add: parse_hex4_def hex4_loop.simps [of ctx 4])
qed

lemma byte_as_code [simp]: "unat (ucast (c :: byte) :: 32 word) = unat c" "ucast (ucast c :: 32 word) = c"
proof -
  have "unat c < 2 ^ 8" using unsigned_less [of c] by simp
  then show u: "unat (ucast c :: 32 word) = unat c" by (simp add: unsigned_ucast_eq take_bit_nat_eq_self_iff)
  show "ucast (ucast c :: 32 word) = c" using \<open>unat c < 2 ^ 8\<close> u by (simp add: word_unat_eq_iff [of "ucast (ucast c :: 32 word)"] unsigned_ucast_eq [of "ucast c :: 32 word"] take_bit_nat_eq_self_iff)
qed

lemma utf8_bytes_ascii: "c < 0x80 \<Longrightarrow> utf8_bytes (ucast (c :: byte)) = [c]"
  by (simp add: utf8_bytes_def word_le_nat_alt word_less_nat_alt)

lemma unicode_escape_small:
  assumes "drop (pc_pos ctx) (pc_src ctx) = 48 # 48 # hex_digit (unat c div 16) # hex_digit (unat c mod 16) # t" "unat (c :: byte) < 32" "c \<noteq> 0"
  shows "unicode_escape ctx = Some (Some (ucast c), ctx\<lparr>pc_pos := pc_pos ctx + 4\<rparr>)"
proof -
  have "unat c div 16 < 16" "unat c mod 16 < 16" using assms(2) by simp_all
  note p = parse_hex4_small [OF assms(1) this]
  have w: "of_nat (unat c div 16 * 16 + unat c mod 16) = (ucast c :: 32 word)" by (simp add: word_unat_eq_iff unat_of_nat take_bit_nat_eq_self_iff)
  have "\<not> 0xD800 \<le> (ucast c :: 32 word)" "\<not> 0xDC00 \<le> (ucast c :: 32 word)" using assms(2) by (simp_all add: word_le_nat_alt)
  moreover have "(ucast c :: 32 word) \<noteq> 0" using assms(3) by (simp add: word_unat_eq_iff)
  ultimately show ?thesis unfolding unicode_escape_def p w by (simp add: surrogate_escape_def)
qed

lemma slow_escape_read:
  assumes "drop (pc_pos ctx) (pc_src ctx) = e @ t" "escape_bytes c = 92 # e" "\<not> is_plain c" "c \<noteq> 0" "room sb (1 + m)"
  shows "\<exists>sb'. slow_escape ctx sb h = Some (True, ctx\<lparr>pc_pos := pc_pos ctx + length e\<rparr>, sb', h) \<and> room sb' m
    \<and> gb_content sb' = gb_content sb @ [c] \<and> sb_blocks sb' = sb_blocks sb"
  using assms(3,4)
proof (cases rule: escape_bytes_shape)
  case (1 x)
  then have e: "e = [x]" using assms(2) by simp
  have x: "pc_src ctx ! pc_pos ctx = x" using nth_of_drop [OF assms(1), of 0] e by simp
  show ?thesis using append_c_room [OF assms(5), of c h] 1(2) e x by (auto simp: slow_escape_def Let_def)
next
  case 2
  let ?d = "[48, 48, hex_digit (unat c div 16), hex_digit (unat c mod 16)]" and ?c = "ctx\<lparr>pc_pos := pc_pos ctx + 1\<rparr>"
  have e: "e = 117 # ?d" using assms(2) 2(1) by simp
  have u: "pc_src ctx ! pc_pos ctx = 117" using nth_of_drop [OF assms(1), of 0] e by simp
  have "drop (pc_pos ?c) (pc_src ?c) = tl (drop (pc_pos ctx) (pc_src ctx))" by (simp add: drop_Suc tl_drop)
  then have "drop (pc_pos ?c) (pc_src ?c) = 48 # 48 # hex_digit (unat c div 16) # hex_digit (unat c mod 16) # t" unfolding assms(1) e by simp
  note r = unicode_escape_small [OF this 2(2) assms(4)]
  obtain sb' where b: "encode_utf8 sb (ucast c) h = Some (sb', h)" "room sb' m" "gb_content sb' = gb_content sb @ [c]" "sb_blocks sb' = sb_blocks sb"
    using append_room [of sb 1 m "[c]" h] assms(5) unfolding encode_utf8_def utf8_bytes_ascii [OF 2(3)] by auto
  have "slow_escape ctx sb h = Some (True, ctx\<lparr>pc_pos := pc_pos ctx + length e\<rparr>, sb', h)"
    using u r b(1) e by (simp add: slow_escape_def Let_def simple_escape_def)
  then show ?thesis using b by blast
qed

section \<open>A literal is read back\<close>

lemma slow_run_read:
  assumes "drop (pc_pos ctx) (pc_src ctx) = r @ x # t" "list_all is_plain r" "\<not> is_plain x" "utf8_text r" "room sb (length r + m)"
  shows "\<exists>sb'. slow_run ctx non sb h = Some (True, ctx\<lparr>pc_pos := pc_pos ctx + length r\<rparr>, sb', h) \<and> room sb' m
    \<and> gb_content sb' = gb_content sb @ r \<and> sb_blocks sb' = sb_blocks sb"
proof -
  let ?c = "ctx\<lparr>pc_pos := pc_pos ctx + length r\<rparr>"
  have tw: "takeWhile is_plain (drop (pc_pos ctx) (pc_src ctx)) = r" unfolding assms(1) using assms(2,3) by (simp add: list_all_iff takeWhile_append2)
  have u: "(if non then string_bytes_are_utf8 ?c (pc_pos ctx) (pc_pos ctx + length r) else Some (True, ?c)) = Some (True, ?c)"
    using string_bytes_spec [of "pc_pos ctx" ?c r "x # t" "pc_pos ctx + length r"] assms(1,4) by auto
  have "length r \<le> length (drop (pc_pos ctx) (pc_src ctx))" "take (length r) (drop (pc_pos ctx) (pc_src ctx)) = r" using assms(1) by simp_all
  then obtain sb' where b: "ccol_growbuf_append sb (drop (pc_pos ctx) (pc_src ctx)) (length r) h = Some (sb', h)" "room sb' m"
      "gb_content sb' = gb_content sb @ r" "sb_blocks sb' = sb_blocks sb" using append_room [OF assms(5), of "drop (pc_pos ctx) (pc_src ctx)" h] by auto
  show ?thesis
  proof (cases "r = []")
    case True
    then show ?thesis using assms(5) tw by (simp add: slow_run_def Let_def)
  next
    case False
    have "slow_run ctx non sb h = Some (True, ?c, sb', h)" unfolding slow_run_def Let_def tw using u b(1) False by (cases non) simp_all
    then show ?thesis using b by blast
  qed
qed

lemma esc_nonempty: "esc c \<noteq> []"
  by (simp add: esc_def escape_bytes_def)

lemma escape_bytes_hd: "hd (escape_bytes c) = 92" "escape_bytes c = 92 # tl (escape_bytes c)"
  by (auto simp: escape_bytes_def)

lemma escape_low:
  assumes "\<not> is_plain c"
  shows "c < 0x80"
  using assms by (auto simp: is_plain_def word_less_nat_alt)

lemma slow_loop_read:
  assumes "drop (pc_pos ctx) (pc_src ctx) = concat (map esc s) @ 34 # t" "utf8_text s" "0 \<notin> set s" "room sb (length (concat (map esc s)) + m)"
  shows "\<exists>sb'. slow_loop ctx non sb h = Some (Some (gb_buf sb', gb_len sb'), ctx\<lparr>pc_pos := pc_pos ctx + length (concat (map esc s)) + 1\<rparr>, h)
    \<and> room sb' m \<and> gb_content sb' = gb_content sb @ s \<and> sb_blocks sb' = sb_blocks sb"
  using assms
proof (induction "length s" arbitrary: s sb ctx rule: less_induct)
  case less
  let ?r = "takeWhile is_plain s" and ?rest = "dropWhile is_plain s"
  have s: "s = ?r @ ?rest" by simp
  have pl: "list_all is_plain ?r" by (auto simp: list_all_iff dest: set_takeWhileD)
  note er = esc_run [OF pl]
  have lt: "pc_pos ctx < length (pc_src ctx)"
  proof -
    have "drop (pc_pos ctx) (pc_src ctx) \<noteq> []" unfolding less(2) by simp
    then show ?thesis by (simp add: not_le)
  qed
  show ?case
  proof (cases ?rest)
    case Nil
    then have sr: "?r = s" using s by (metis append_Nil2)
    have cs: "concat (map esc s) = s" using er sr by metis
    have d: "drop (pc_pos ctx) (pc_src ctx) = s @ 34 # t" using less(2) cs by simp
    have "list_all is_plain s" using pl sr by metis
    moreover have "\<not> is_plain 34" by (simp add: is_plain_def)
    moreover have "room sb (length s + m)" using less(5) cs by simp
    ultimately obtain sb' where b: "slow_run ctx non sb h = Some (True, ctx\<lparr>pc_pos := pc_pos ctx + length s\<rparr>, sb', h)" "room sb' m"
        "gb_content sb' = gb_content sb @ s" "sb_blocks sb' = sb_blocks sb" using slow_run_read [OF d _ _ less(3)] by blast
    have q: "pc_src ctx ! (pc_pos ctx + length s) = 34 \<and> pc_pos ctx + length s < length (pc_src ctx)"
      using nth_of_drop [of "pc_pos ctx" "pc_src ctx" "s @ [34]" t "length s"] d by simp
    have "\<not> gb_oom sb'" using b(2) by (simp add: room_def)
    then have "slow_loop ctx non sb h = Some (Some (gb_buf sb', gb_len sb'), ctx\<lparr>pc_pos := pc_pos ctx + length s + 1\<rparr>, h)"
      using lt b(1) q by (subst slow_loop.simps) (simp add: not_le)
    then show ?thesis using b cs by auto
  next
    case (Cons c s')
    define e where "e = tl (escape_bytes c)"
    have s2: "s = ?r @ c # s'" using s Cons by simp
    have np: "\<not> is_plain c" using hd_dropWhile [of is_plain s] Cons by simp
    have c0: "c \<noteq> 0" "0 \<notin> set s'" using less(4) s2 by (metis Un_iff list.set_intros set_append)+
    have eb: "escape_bytes c = 92 # e" using escape_bytes_hd(2) e_def by simp
    have u: "utf8_text ?r" "utf8_text s'" using utf8_text_split [of ?r c s'] less(3) s2 escape_low [OF np] by simp_all
    have cs: "concat (map esc s) = ?r @ 92 # e @ concat (map esc s')" using er eb np by (subst s2) (simp add: esc_def)
    have d: "drop (pc_pos ctx) (pc_src ctx) = ?r @ 92 # e @ concat (map esc s') @ 34 # t" using less(2) cs by simp
    have "\<not> is_plain 92" by (simp add: is_plain_def)
    moreover have "room sb (length ?r + (1 + (length (concat (map esc s')) + m)))" using less(5) cs by (auto intro: room_less)
    ultimately obtain sb1 where b: "slow_run ctx non sb h = Some (True, ctx\<lparr>pc_pos := pc_pos ctx + length ?r\<rparr>, sb1, h)" "room sb1 (1 + (length (concat (map esc s')) + m))"
        "gb_content sb1 = gb_content sb @ ?r" "sb_blocks sb1 = sb_blocks sb" using slow_run_read [OF d pl _ u(1)] by blast
    let ?c1 = "ctx\<lparr>pc_pos := pc_pos ctx + length ?r + 1\<rparr>"
    have q: "pc_src ctx ! (pc_pos ctx + length ?r) = 92 \<and> pc_pos ctx + length ?r < length (pc_src ctx)"
      using nth_of_drop [of "pc_pos ctx" "pc_src ctx" "?r @ [92]" "e @ concat (map esc s') @ 34 # t" "length ?r"] d by simp
    have d1: "drop (pc_pos ?c1) (pc_src ?c1) = e @ (concat (map esc s') @ 34 # t)"
    proof -
      have "drop (pc_pos ?c1) (pc_src ?c1) = drop (length ?r + 1) (drop (pc_pos ctx) (pc_src ctx))" by (simp add: add.commute)
      then show ?thesis unfolding d by simp
    qed
    then have in1: "pc_pos ctx + length ?r + 1 < length (pc_src ctx)" using nth_of_drop [of "pc_pos ?c1" "pc_src ?c1" "e @ concat (map esc s') @ [34]" t 0] by simp
    obtain sb2 where g: "slow_escape ?c1 sb1 h = Some (True, ?c1\<lparr>pc_pos := pc_pos ?c1 + length e\<rparr>, sb2, h)" "room sb2 (length (concat (map esc s')) + m)"
        "gb_content sb2 = gb_content sb1 @ [c]" "sb_blocks sb2 = sb_blocks sb1" using slow_escape_read [OF d1 eb np c0(1) b(2)] by blast
    let ?c2 = "ctx\<lparr>pc_pos := pc_pos ctx + length ?r + 1 + length e\<rparr>"
    have step: "slow_loop ctx non sb h = slow_loop ?c2 non sb2 h" using lt b(1) q in1 g(1) by (subst slow_loop.simps) (simp add: not_le)
    have d2: "drop (pc_pos ?c2) (pc_src ?c2) = concat (map esc s') @ 34 # t"
    proof -
      have "drop (pc_pos ?c2) (pc_src ?c2) = drop (length e) (drop (pc_pos ?c1) (pc_src ?c1))" by (simp add: add.commute)
      then show ?thesis unfolding d1 by simp
    qed
    have "length s' < length s" by (subst s2) simp
    from less(1) [OF this d2 u(2) c0(2) g(2)] obtain sb3 where
      i: "slow_loop ?c2 non sb2 h = Some (Some (gb_buf sb3, gb_len sb3), ?c2\<lparr>pc_pos := pc_pos ?c2 + length (concat (map esc s')) + 1\<rparr>, h)"
         "room sb3 m" "gb_content sb3 = gb_content sb2 @ s'" "sb_blocks sb3 = sb_blocks sb2" by blast
    have pos: "?c2\<lparr>pc_pos := pc_pos ?c2 + length (concat (map esc s')) + 1\<rparr> = ctx\<lparr>pc_pos := pc_pos ctx + length (concat (map esc s)) + 1\<rparr>" using cs by simp
    have "gb_content sb3 = gb_content sb @ s" using i(3) g(3) b(3) by (subst s2) simp
    then show ?thesis using step i(1,2,4) g(4) b(4) pos by auto
  qed
qed

text \<open>The first pass over the text of a literal.\<close>

lemma scan_text:
  assumes "drop p src = concat (map esc s) @ 34 # t" "0 \<notin> set s"
  shows "scan_end src p = p + length (concat (map esc s)) \<and> scan_slow src p = (\<not> list_all is_plain s)"
  using assms
proof (induction s arbitrary: p)
  case Nil
  then have "src ! p = 34 \<and> p < length src" using nth_of_drop [of p src "[34]" t 0] by simp
  then show ?case using scan_quote [of p src] by simp
next
  case (Cons c s)
  let ?e = "esc c"
  have d: "drop p src = ?e @ concat (map esc s) @ 34 # t" using Cons(2) by simp
  have "drop (p + length ?e) src = drop (length ?e) (drop p src)" by (simp add: add.commute)
  then have d2: "drop (p + length ?e) src = concat (map esc s) @ 34 # t" unfolding d by simp
  have i: "scan_end src (p + length ?e) = p + length ?e + length (concat (map esc s))" "scan_slow src (p + length ?e) = (\<not> list_all is_plain s)"
    using Cons(1) [OF d2] Cons(3) by simp_all
  show ?case
  proof (cases "is_plain c")
    case True
    then have e: "?e = [c]" by (simp add: esc_def)
    then show ?thesis using scan_run(1,2) [OF d] True i by simp
  next
    case False
    have e: "?e = escape_bytes c" using False by (simp add: esc_def)
    have "src ! p = 92 \<and> p < length src" using nth_of_drop [of p src "[92]" "tl (escape_bytes c) @ concat (map esc s) @ 34 # t" 0] d e escape_bytes_hd(2) [of c] by simp
    note b = scan_backslash [of p src, OF this [THEN conjunct2] this [THEN conjunct1]]
    have "scan_end src (p + 2) = scan_end src (p + length ?e)"
    proof (rule escape_bytes_shape [OF False, of "scan_end src (p + 2) = scan_end src (p + length ?e)"])
      show "c \<noteq> 0" using Cons(3) by auto
    next
      fix x assume "escape_bytes c = [92, x]"
      then show ?thesis using e by (simp add: eval_nat_numeral)
    next
      let ?d = "[48, 48, hex_digit (unat c div 16), hex_digit (unat c mod 16)]"
      assume a: "escape_bytes c = [92, 117, 48, 48, hex_digit (unat c div 16), hex_digit (unat c mod 16)]" "unat c < 32"
      have "is_plain (hex_digit n)" if "n < 16" for n using json_hex_value_range(2) [OF json_hex_value_digit [OF that]] .
      then have pl: "list_all is_plain ?d" using a(2) by (simp add: is_plain_def)
      have "drop (p + 2) src = drop 2 (drop p src)" by (simp add: add.commute)
      then have "drop (p + 2) src = ?d @ concat (map esc s) @ 34 # t" unfolding d e a(1) by simp
      from scan_run(1) [OF this pl] show ?thesis using a(1) e by (simp add: add.assoc)
    qed
    then show ?thesis using b i False by simp
  qed
qed

lemma gb_content_length: "gb_inv sb \<Longrightarrow> length (gb_content sb) = gb_len sb"
  by (auto simp: gb_inv_def gb_content_def split: option.splits)

lemma mem_alloc_granted:
  assumes "answers h = Grant f # as"
  shows "\<exists>bs h'. mem_alloc h n = (Some (next_blk h, bs), h') \<and> length bs = n \<and> live h' = insert (next_blk h) (live h)"
  using assms by (simp add: mem_alloc_def)

lemma init_hint_room:
  assumes "answers h = Grant f # as" "n < SIZE_MAX"
  shows "\<exists>sb h'. ccol_growbuf_init_hint mp n h = (sb, h') \<and> room sb n \<and> gb_content sb = [] \<and> sb_blocks sb = {next_blk h} \<and> live h' = insert (next_blk h) (live h)"
proof -
  obtain sb h' where i: "ccol_growbuf_init_hint mp n h = (sb, h')" by fastforce
  have sz: "sz_add n 1 = n + 1" using assms(2) by (intro sz_add_exact) simp
  obtain bs h2 where m: "mem_alloc h (if sz_add n 1 > 64 then sz_add n 1 else 64) = (Some (next_blk h, bs), h2)" "live h2 = insert (next_blk h) (live h)"
    using mem_alloc_granted [OF assms(1)] by blast
  have e: "sb = \<lparr>gb_buf = Some (next_blk h, bs[0 := 0]), gb_len = 0, gb_cap = (if sz_add n 1 > 64 then sz_add n 1 else 64), gb_oom = False, gb_procs = mp\<rparr>" "h' = h2"
    using i m(1) assms(2) by (simp_all add: ccol_growbuf_init_hint_def Let_def)
  have "gb_inv sb \<and> (\<not> gb_oom sb \<longrightarrow> gb_content sb = [] \<and> n < gb_cap sb)" using growbuf_init_hint_inv [OF i] assms(2) by simp
  then show ?thesis using i m(2) e by (auto simp: room_def sb_blocks_def)
qed

lemma json_text_read:
  assumes "pc_src ctx = pre @ json_text s @ post" "pc_pos ctx = length pre" "utf8_text s" "0 \<notin> set s" "length (pc_src ctx) < SIZE_MAX" "answers h = Grant f # as"
  shows "\<exists>bs h'. parse_string_raw ctx h = Some (Some (Some (next_blk h, bs)), ctx\<lparr>pc_pos := length (pre @ json_text s)\<rparr>, h')
    \<and> takeWhile (\<lambda>c. c \<noteq> 0) bs = s \<and> 0 \<in> set bs \<and> live h' = insert (next_blk h) (live h)"
proof -
  let ?t = "concat (map esc s)" and ?c = "ctx\<lparr>pc_pos := pc_pos ctx + 1\<rparr>"
  have d: "drop (pc_pos ctx + 1) (pc_src ctx) = ?t @ 34 # post" using assms(1,2) by (simp add: json_text_def)
  note sc = scan_text [OF d assms(4)]
  have q: "pc_pos ctx < length (pc_src ctx)" "pc_src ctx ! pc_pos ctx = 34" "pc_pos ctx + 1 + length ?t < length (pc_src ctx)"
    using assms(1,2) by (simp_all add: json_text_def)
  obtain non where scan: "parse_string_scan ctx = (Some (pc_pos ctx + 1 + length ?t, \<not> list_all is_plain s, non), ?c)"
    using q sc by (simp add: parse_string_scan_def Let_def scan_loop_flags)
  have fin: "length (pre @ json_text s) = pc_pos ctx + 1 + length ?t + 1" using assms(2) by (simp add: json_text_def)
  have cstr: "takeWhile (\<lambda>c. c \<noteq> 0) (s @ 0 # x) = s" for x using assms(4) by (induction s) auto
  show ?thesis
  proof (cases "list_all is_plain s")
    case True
    have ts: "?t = s" using esc_run [OF True] .
    have u: "(if non then string_bytes_are_utf8 ?c (pc_pos ?c) (pc_pos ctx + 1 + length s) else Some (True, ?c)) = Some (True, ?c)"
      using string_bytes_spec [of "pc_pos ?c" ?c s "34 # post" "pc_pos ctx + 1 + length s"] d ts assms(3) by auto
    have sz: "sz_add (length s) 1 = length s + 1" using q(3) ts assms(5) by (intro sz_add_exact) simp
    have tk: "take (length s) (drop (Suc (pc_pos ctx)) (pc_src ctx)) = s" using d ts by simp
    obtain bs h' where m: "mem_alloc h (length s + 1) = (Some (next_blk h, bs), h')" "length bs = length s + 1" "live h' = insert (next_blk h) (live h)"
      using mem_alloc_granted [OF assms(6)] by blast
    have "parse_string_raw ctx h = Some (Some (Some (next_blk h, s @ [0])), ctx\<lparr>pc_pos := length (pre @ json_text s)\<rparr>, h')"
      unfolding fin using scan True u sz tk m buf_put_cstr [OF m(2) refl] by (cases non) (simp_all add: parse_string_raw_def ts)
    then show ?thesis using m(3) cstr by auto
  next
    case False
    obtain sb h1 where i: "ccol_growbuf_init_hint (pc_mp ctx) (length ?t) h = (sb, h1)" "room sb (length ?t)" "gb_content sb = []" "sb_blocks sb = {next_blk h}"
        "live h1 = insert (next_blk h) (live h)" using init_hint_room [OF assms(6), of "length ?t"] q(3) assms(5) by fastforce
    obtain sb' where l: "slow_loop ?c non sb h1 = Some (Some (gb_buf sb', gb_len sb'), ctx\<lparr>pc_pos := length (pre @ json_text s)\<rparr>, h1)"
        "room sb' 0" "gb_content sb' = s" "sb_blocks sb' = {next_blk h}"
      using slow_loop_read [of ?c s post sb 0 non h1] d assms(3,4) i fin by auto
    have run: "parse_string_raw ctx h = Some (Some (gb_buf sb'), ctx\<lparr>pc_pos := length (pre @ json_text s)\<rparr>, h1)"
      using scan False i(1) l(1) by (simp add: parse_string_raw_def parse_string_slow_def)
    obtain bs where b: "gb_buf sb' = Some (next_blk h, bs)" using l(4) by (auto simp: sb_blocks_def split: option.splits)
    have n: "gb_len sb' < length bs" "bs ! gb_len sb' = 0" "take (gb_len sb') bs = s" using l(2,3) b by (auto simp: room_def gb_inv_def gb_content_def)
    have "takeWhile (\<lambda>c. c \<noteq> 0) bs = s" using cstr_take [OF n(1,2)] n(3) assms(4) by simp
    moreover have "0 \<in> set bs" using n(1,2) nth_mem by metis
    ultimately show ?thesis using run b i(5) by auto
  qed
qed

section \<open>Properties\<close>

text \<open>
  Claim C25.  The round trip of strings: of any NUL-free UTF-8 string, with control
  characters, quotes, backslashes and characters of any length, the serialiser writes a
  literal that the parser, at the place where it was written and whatever follows it, reads
  back as exactly that string, with the position behind the literal, no error, and one block
  taken from the allocator by one request.
\<close>

theorem json_string_roundtrip:
  assumes "ccol_utf8_is_valid s = Some True" "0 \<notin> set s"
    and "gb_inv sb0" "sb_append_json_str sb0 (Some s) h0 = Some (sb, h1)" "\<not> gb_oom sb"
    and "pc_src ctx = gb_content sb @ post" "pc_pos ctx = gb_len sb0" "length (pc_src ctx) < SIZE_MAX" "answers h = Grant f # as"
  shows "\<exists>bs h'. parse_string_raw ctx h = Some (Some (Some (next_blk h, bs)), ctx\<lparr>pc_pos := gb_len sb\<rparr>, h')
    \<and> takeWhile (\<lambda>c. c \<noteq> 0) bs = s \<and> 0 \<in> set bs \<and> live h' = insert (next_blk h) (live h)"
proof -
  have w: "gb_inv sb" "gb_content sb = gb_content sb0 @ json_text s" using sb_append_json_str_spec [OF assms(3,2), of h0] assms(4,5) by auto
  have "utf8_text s" using assms(1) utf8_valid_text by simp
  moreover have "pc_pos ctx = length (gb_content sb0)" "length (gb_content sb0 @ json_text s) = gb_len sb"
    using assms(7) gb_content_length [OF assms(3)] gb_content_length [OF w(1)] w(2) by simp_all
  ultimately show ?thesis using json_text_read [of ctx "gb_content sb0" s post h f as] assms(2,6,8,9) w(2) by simp
qed

definition blank_buf :: growbuf where
  "blank_buf = \<lparr>gb_buf = Some (0, replicate 16 0), gb_len = 0, gb_cap = 16, gb_oom = False, gb_procs = DefaultProcs\<rparr>"

text \<open>A new line, an e with an acute accent and a quote.\<close>

theorem json_string_roundtrip_witness:
  "\<exists>sb bs h'. sb_append_json_str blank_buf (Some [10, 195, 169, 34]) plain_heap = Some (sb, plain_heap)
     \<and> parse_string_raw \<lparr>pc_src = gb_content sb @ [44], pc_pos = 0, pc_error = Fmt [] [], pc_mp = DefaultProcs\<rparr> plain_heap
         = Some (Some (Some (0, bs)), \<lparr>pc_src = gb_content sb @ [44], pc_pos = gb_len sb, pc_error = Fmt [] [], pc_mp = DefaultProcs\<rparr>, h')
     \<and> takeWhile (\<lambda>c. c \<noteq> 0) bs = [10, 195, 169, 34]"
proof -
  have v: "ccol_utf8_is_valid [10, 195, 169, 34] = Some True" "0 \<notin> set [10 :: byte, 195, 169, 34]" by code_simp+
  have i: "gb_inv blank_buf" "gb_len blank_buf = 0" "gb_content blank_buf = []" "room blank_buf 15" by (simp_all add: blank_buf_def gb_inv_def SIZE_MAX_def gb_content_def room_def)
  obtain sb1 where s1: "ccol_growbuf_append_c blank_buf 34 plain_heap = Some (sb1, plain_heap)" "room sb1 (2 + 12)" "gb_content sb1 = [34]" using append_c_room [of blank_buf 14 34 plain_heap] i by auto
  obtain sb2 where s2: "ccol_growbuf_append sb1 [92, 110] 2 plain_heap = Some (sb2, plain_heap)" "room sb2 (2 + 10)" "gb_content sb2 = [34, 92, 110]" using append_room [OF s1(2), of "[92, 110]" plain_heap] s1(3) by auto
  obtain sb3 where s3: "ccol_growbuf_append sb2 [195, 169] 2 plain_heap = Some (sb3, plain_heap)" "room sb3 (2 + 8)" "gb_content sb3 = [34, 92, 110, 195, 169]" using append_room [OF s2(2), of "[195, 169]" plain_heap] s2(3) by auto
  obtain sb4 where s4: "ccol_growbuf_append sb3 [92, 34] 2 plain_heap = Some (sb4, plain_heap)" "room sb4 (1 + 7)" "gb_content sb4 = [34, 92, 110, 195, 169, 92, 34]" using append_room [OF s3(2), of "[92, 34]" plain_heap] s3(3) by auto
  obtain sb where s5: "ccol_growbuf_append_c sb4 34 plain_heap = Some (sb, plain_heap)" "room sb 7" "gb_content sb = [34, 92, 110, 195, 169, 92, 34, 34]" using append_c_room [OF s4(2), of 34 plain_heap] s4(3) by auto
  note loop = run_char_def is_plain_def escape_bytes_def
  have "json_str_loop sb4 [] plain_heap = Some (sb4, plain_heap)" by (simp add: json_str_loop.simps)
  then have "json_str_loop sb2 [195, 169, 34] plain_heap = Some (sb4, plain_heap)" using s3(1) [unfolded numeral_2_eq_2] s4(1) [unfolded numeral_2_eq_2] by (subst json_str_loop.simps) (simp add: loop)
  then have "json_str_loop sb1 [10, 195, 169, 34] plain_heap = Some (sb4, plain_heap)" using s2(1) [unfolded numeral_2_eq_2] by (subst json_str_loop.simps) (simp add: loop)
  then have w: "sb_append_json_str blank_buf (Some [10, 195, 169, 34]) plain_heap = Some (sb, plain_heap)" "\<not> gb_oom sb" "length (gb_content sb) = 8"
    using s1(1) s5 by (simp_all add: sb_append_json_str_def room_def)
  let ?c = "\<lparr>pc_src = gb_content sb @ [44], pc_pos = 0, pc_error = Fmt [] [], pc_mp = DefaultProcs\<rparr>"
  have a: "answers plain_heap = Grant (\<lambda>_. 7) # [Grant (\<lambda>_. 9), Grant (\<lambda>_. 8)]" "next_blk plain_heap = 0" by (simp_all add: plain_heap_def)
  have "length (pc_src ?c) < SIZE_MAX" using w(3) by (simp add: SIZE_MAX_def)
  then show ?thesis using json_string_roundtrip [OF v i(1) w(1,2), of ?c "[44]"] a i(2) w(1) by fastforce
qed

end
