(* ===== verification/CCol_Pintable.thy ===== *)
theory CCol_Pintable
  imports CCol_Prelude
begin

text \<open>
  The lock-free index of handles in \<^verbatim>\<open>src/cpintable.c\<close>.  A call of one of its functions is a
  sequence of atomic steps over the shared table, one per atomic access of the source, and
  the steps of all threads interleave freely.  The four accesses on which the safety of a
  pin rests (the increment of the counter and the second load of the state in
  \<^verbatim>\<open>ccol_pintable_pin\<close>, the store in \<^verbatim>\<open>ccol_pintable_retire\<close> and the loads in
  \<^verbatim>\<open>ccol_pintable_pins\<close>) are sequentially consistent in the source, and the others are release
  stores with acquire loads or are made under the lock of the owner, so the interleaving of
  these steps is what the orderings give.  Chunks and stripe blocks are never freed while
  the table is in use, so a pointer to a slot is its number.
\<close>

unbundle bit_operations_syntax

section \<open>The table\<close>

definition CCOL_PIN_CHUNK_SLOTS :: nat where
  "CCOL_PIN_CHUNK_SLOTS = 64"

definition CCOL_PIN_MAX_CHUNKS :: nat where
  "CCOL_PIN_MAX_CHUNKS = 1024"

definition CCOL_PIN_STRIPES :: nat where
  "CCOL_PIN_STRIPES = 8"

definition CCOL_PIN_LINE :: nat where
  "CCOL_PIN_LINE = 64"

lemmas pin_sizes = CCOL_PIN_CHUNK_SLOTS_def CCOL_PIN_MAX_CHUNKS_def CCOL_PIN_STRIPES_def

text \<open>
  A slot has the generation and the liveness in one word, the pointer, and the block of its
  counters.  The counters are signed and wrap, so they are words.
\<close>

record pin_slot =
  sl_state :: "64 word"
  sl_ptr :: nat
  sl_stripes :: "(nat \<times> 64 word list) option"

type_synonym pin_chunk = "nat \<times> pin_slot list"

record pintable =
  pt_chunks :: "pin_chunk option list"

definition empty_slot :: pin_slot where
  "empty_slot = \<lparr>sl_state = 0, sl_ptr = 0, sl_stripes = None\<rparr>"

definition empty_pintable :: pintable where
  "empty_pintable = \<lparr>pt_chunks = replicate CCOL_PIN_MAX_CHUNKS None\<rparr>"

text \<open>The slot with a number, and an update of it.\<close>

definition slot_at :: "pintable \<Rightarrow> nat \<Rightarrow> pin_slot option" where
  "slot_at T a =
     (if a div CCOL_PIN_CHUNK_SLOTS < length (pt_chunks T) then
        case pt_chunks T ! (a div CCOL_PIN_CHUNK_SLOTS) of
          None \<Rightarrow> None
        | Some (_, slots) \<Rightarrow> Some (slots ! (a mod CCOL_PIN_CHUNK_SLOTS))
      else None)"

definition upd_slot :: "(pin_slot \<Rightarrow> pin_slot) \<Rightarrow> nat \<Rightarrow> pintable \<Rightarrow> pintable" where
  "upd_slot f a T =
     (case pt_chunks T ! (a div CCOL_PIN_CHUNK_SLOTS) of
        None \<Rightarrow> T
      | Some (b, slots) \<Rightarrow>
          let i = a mod CCOL_PIN_CHUNK_SLOTS
          in T\<lparr>pt_chunks := (pt_chunks T)[a div CCOL_PIN_CHUNK_SLOTS := Some (b, slots[i := f (slots ! i)])]\<rparr>)"

definition pin_state :: "32 word \<Rightarrow> bool \<Rightarrow> 64 word" where
  "pin_state gen alive = push_bit 1 (ucast gen) OR (if alive then 1 else 0)"

definition handle_idx :: "64 word \<Rightarrow> 32 word" where
  "handle_idx h = ucast (drop_bit 32 h)"

definition handle_gen :: "64 word \<Rightarrow> 32 word" where
  "handle_gen h = ucast (h AND 0xFFFFFFFF)"

definition pin_slot_lookup :: "pintable \<Rightarrow> 32 word \<Rightarrow> nat option" where
  "pin_slot_lookup T idx =
     (let chunk_idx = unat idx div CCOL_PIN_CHUNK_SLOTS
      in if chunk_idx \<ge> CCOL_PIN_MAX_CHUNKS then None
         else case pt_chunks T ! chunk_idx of None \<Rightarrow> None | Some _ \<Rightarrow> Some (unat idx))"

text \<open>
  The stripe of a thread from its thread-local id.  The first call claims an id from the
  global counter.
\<close>

definition pin_stripe_claim :: "32 word \<Rightarrow> 32 word \<times> 32 word" where
  "pin_stripe_claim counter = (let tid = counter in (if tid = 0 then 1 else tid, counter + 1))"

definition pin_stripe_self :: "32 word \<Rightarrow> 32 word \<Rightarrow> 32 word \<times> 32 word" where
  "pin_stripe_self tid counter = (if tid = 0 then pin_stripe_claim counter else (tid, counter))"

definition stripe_of :: "32 word \<Rightarrow> nat" where
  "stripe_of tid = unat (tid - 1) mod CCOL_PIN_STRIPES"

section \<open>The steps of a call\<close>

record pin_mem =
  pm_table :: pintable
  pm_next :: "32 word"
  pm_heap :: heap

text \<open>
  Where a call stands, named after the access it makes next.  The arguments are those of
  the call, the number of the slot once it is looked up, and the locals of the function.
\<close>

datatype pin_pc =
    Idle
  | Pin_Enter "64 word"
  | Pin_State "64 word" nat
  | Pin_Stripes "64 word" nat
  | Pin_Self "64 word" nat
  | Pin_Add "64 word" nat
  | Pin_Check "64 word" nat
  | Pin_Undo "64 word" nat
  | Pin_Ptr "64 word" nat
  | Pin_Ret "64 word" nat
  | Unpin_Enter "64 word"
  | Unpin_Stripes "64 word" nat
  | Unpin_Self "64 word" nat
  | Unpin_Sub "64 word" nat
  | Unpin_Ret "64 word"
  | Pins_Enter "32 word"
  | Pins_Stripes "32 word" nat
  | Pins_Read "32 word" nat nat "64 word"
  | Pins_Ret "32 word" nat
  | Publish_Enter "32 word" "32 word" nat
  | Publish_Chunk "32 word" "32 word" nat nat
  | Publish_Stripes "32 word" "32 word" nat
  | Publish_Block "32 word" "32 word" nat nat
  | Publish_Ptr "32 word" "32 word" nat
  | Publish_State "32 word" "32 word" nat
  | Publish_Ret "32 word" "32 word" nat bool
  | Retire_Enter "32 word"
  | Retire_Load "32 word" nat
  | Retire_Store "32 word" nat "64 word"
  | Retire_Ret "32 word"

definition load_state :: "pin_mem \<Rightarrow> nat \<Rightarrow> 64 word" where
  "load_state M a = (case slot_at (pm_table M) a of None \<Rightarrow> 0 | Some sl \<Rightarrow> sl_state sl)"

definition load_ptr :: "pin_mem \<Rightarrow> nat \<Rightarrow> nat" where
  "load_ptr M a = (case slot_at (pm_table M) a of None \<Rightarrow> 0 | Some sl \<Rightarrow> sl_ptr sl)"

definition load_stripes :: "pin_mem \<Rightarrow> nat \<Rightarrow> (nat \<times> 64 word list) option" where
  "load_stripes M a = (case slot_at (pm_table M) a of None \<Rightarrow> None | Some sl \<Rightarrow> sl_stripes sl)"

definition load_count :: "pin_mem \<Rightarrow> nat \<Rightarrow> nat \<Rightarrow> 64 word" where
  "load_count M a i = (case load_stripes M a of None \<Rightarrow> 0 | Some (_, cs) \<Rightarrow> cs ! i)"

definition store_slot :: "(pin_slot \<Rightarrow> pin_slot) \<Rightarrow> nat \<Rightarrow> pin_mem \<Rightarrow> pin_mem" where
  "store_slot f a M = M\<lparr>pm_table := upd_slot f a (pm_table M)\<rparr>"

definition add_count :: "64 word \<Rightarrow> nat \<Rightarrow> nat \<Rightarrow> pin_mem \<Rightarrow> pin_mem" where
  "add_count d i a =
     store_slot (\<lambda>sl. sl\<lparr>sl_stripes := map_option (\<lambda>(b, cs). (b, cs[i := cs ! i + d])) (sl_stripes sl)\<rparr>) a"

definition pins_total :: "64 word \<Rightarrow> nat" where
  "pins_total accumulated = (if sint accumulated > 0 then unat accumulated else 0)"

text \<open>The blocks come zeroed, from \<^verbatim>\<open>calloc\<close>.\<close>

definition fresh_block :: "heap \<Rightarrow> size_t \<Rightarrow> nat option \<times> heap" where
  "fresh_block h n = (case mem_calloc h n of (r, h) \<Rightarrow> (map_option fst r, h))"

definition put_chunk :: "nat \<Rightarrow> nat \<Rightarrow> pin_mem \<Rightarrow> pin_mem" where
  "put_chunk b c M =
     M\<lparr>pm_table := (pm_table M)\<lparr>pt_chunks := (pt_chunks (pm_table M))[c := Some (b, replicate CCOL_PIN_CHUNK_SLOTS empty_slot)]\<rparr>\<rparr>"

text \<open>Resolving a handle and pinning the object.\<close>

definition ccol_pintable_pin :: "32 word \<Rightarrow> pin_mem \<Rightarrow> pin_pc \<Rightarrow> (pin_mem \<times> 32 word \<times> pin_pc) option" where
  "ccol_pintable_pin tid M pc =
     (case pc of
        Pin_Enter h \<Rightarrow>
          Some (M, tid,
            if h = 0 then Pin_Ret h 0
            else case pin_slot_lookup (pm_table M) (handle_idx h) of None \<Rightarrow> Pin_Ret h 0 | Some a \<Rightarrow> Pin_State h a)
      | Pin_State h a \<Rightarrow> Some (M, tid, if load_state M a \<noteq> pin_state (handle_gen h) True then Pin_Ret h 0 else Pin_Stripes h a)
      | Pin_Stripes h a \<Rightarrow> Some (M, tid, if load_stripes M a = None then Pin_Ret h 0 else Pin_Self h a)
      | Pin_Self h a \<Rightarrow> (case pin_stripe_self tid (pm_next M) of (tid, n) \<Rightarrow> Some (M\<lparr>pm_next := n\<rparr>, tid, Pin_Add h a))
      | Pin_Add h a \<Rightarrow> Some (add_count 1 (stripe_of tid) a M, tid, Pin_Check h a)
      | Pin_Check h a \<Rightarrow> Some (M, tid, if load_state M a \<noteq> pin_state (handle_gen h) True then Pin_Undo h a else Pin_Ptr h a)
      | Pin_Undo h a \<Rightarrow> Some (add_count (- 1) (stripe_of tid) a M, tid, Pin_Ret h 0)
      | Pin_Ptr h a \<Rightarrow> Some (M, tid, Pin_Ret h (load_ptr M a))
      | _ \<Rightarrow> None)"

definition ccol_pintable_unpin :: "32 word \<Rightarrow> pin_mem \<Rightarrow> pin_pc \<Rightarrow> (pin_mem \<times> 32 word \<times> pin_pc) option" where
  "ccol_pintable_unpin tid M pc =
     (case pc of
        Unpin_Enter h \<Rightarrow>
          Some (M, tid,
            if h = 0 then Unpin_Ret h
            else case pin_slot_lookup (pm_table M) (handle_idx h) of None \<Rightarrow> Unpin_Ret h | Some a \<Rightarrow> Unpin_Stripes h a)
      | Unpin_Stripes h a \<Rightarrow> Some (M, tid, if load_stripes M a = None then Unpin_Ret h else Unpin_Self h a)
      | Unpin_Self h a \<Rightarrow> (case pin_stripe_self tid (pm_next M) of (tid, n) \<Rightarrow> Some (M\<lparr>pm_next := n\<rparr>, tid, Unpin_Sub h a))
      | Unpin_Sub h a \<Rightarrow> Some (add_count (- 1) (stripe_of tid) a M, tid, Unpin_Ret h)
      | _ \<Rightarrow> None)"

definition ccol_pintable_pins :: "pin_mem \<Rightarrow> pin_pc \<Rightarrow> pin_pc option" where
  "ccol_pintable_pins M pc =
     (case pc of
        Pins_Enter idx \<Rightarrow> Some (case pin_slot_lookup (pm_table M) idx of None \<Rightarrow> Pins_Ret idx 0 | Some a \<Rightarrow> Pins_Stripes idx a)
      | Pins_Stripes idx a \<Rightarrow> Some (if load_stripes M a = None then Pins_Ret idx 0 else Pins_Read idx a 0 0)
      | Pins_Read idx a i acc \<Rightarrow>
          Some (if i < CCOL_PIN_STRIPES then Pins_Read idx a (i + 1) (acc + load_count M a i) else Pins_Ret idx (pins_total acc))
      | _ \<Rightarrow> None)"

definition ccol_pintable_publish :: "pin_mem \<Rightarrow> pin_pc \<Rightarrow> (pin_mem \<times> pin_pc) option" where
  "ccol_pintable_publish M pc =
     (case pc of
        Publish_Enter idx gen ptr \<Rightarrow>
          Some (if gen = 0 then (M, Publish_Ret idx gen ptr False)
            else if unat idx div CCOL_PIN_CHUNK_SLOTS \<ge> CCOL_PIN_MAX_CHUNKS then (M, Publish_Ret idx gen ptr False)
            else case pt_chunks (pm_table M) ! (unat idx div CCOL_PIN_CHUNK_SLOTS) of
              Some _ \<Rightarrow> (M, Publish_Stripes idx gen ptr)
            | None \<Rightarrow>
                (case fresh_block (pm_heap M) (CCOL_PIN_CHUNK_SLOTS * 24) of
                   (None, h) \<Rightarrow> (M\<lparr>pm_heap := h\<rparr>, Publish_Ret idx gen ptr False)
                 | (Some b, h) \<Rightarrow> (M\<lparr>pm_heap := h\<rparr>, Publish_Chunk idx gen ptr b)))
      | Publish_Chunk idx gen ptr b \<Rightarrow> Some (put_chunk b (unat idx div CCOL_PIN_CHUNK_SLOTS) M, Publish_Stripes idx gen ptr)
      | Publish_Stripes idx gen ptr \<Rightarrow>
          Some (if load_stripes M (unat idx) \<noteq> None then (M, Publish_Ptr idx gen ptr)
            else case fresh_block (pm_heap M) (CCOL_PIN_STRIPES * CCOL_PIN_LINE) of
              (None, h) \<Rightarrow> (M\<lparr>pm_heap := h\<rparr>, Publish_Ret idx gen ptr False)
            | (Some b, h) \<Rightarrow> (M\<lparr>pm_heap := h\<rparr>, Publish_Block idx gen ptr b))
      | Publish_Block idx gen ptr b \<Rightarrow>
          Some (store_slot (\<lambda>sl. sl\<lparr>sl_stripes := Some (b, replicate CCOL_PIN_STRIPES 0)\<rparr>) (unat idx) M, Publish_Ptr idx gen ptr)
      | Publish_Ptr idx gen ptr \<Rightarrow> Some (store_slot (\<lambda>sl. sl\<lparr>sl_ptr := ptr\<rparr>) (unat idx) M, Publish_State idx gen ptr)
      | Publish_State idx gen ptr \<Rightarrow>
          Some (store_slot (\<lambda>sl. sl\<lparr>sl_state := pin_state gen True\<rparr>) (unat idx) M, Publish_Ret idx gen ptr True)
      | _ \<Rightarrow> None)"

definition ccol_pintable_retire :: "pin_mem \<Rightarrow> pin_pc \<Rightarrow> (pin_mem \<times> pin_pc) option" where
  "ccol_pintable_retire M pc =
     (case pc of
        Retire_Enter idx \<Rightarrow> Some (M, case pin_slot_lookup (pm_table M) idx of None \<Rightarrow> Retire_Ret idx | Some a \<Rightarrow> Retire_Load idx a)
      | Retire_Load idx a \<Rightarrow> Some (M, Retire_Store idx a (load_state M a))
      | Retire_Store idx a st \<Rightarrow> Some (store_slot (\<lambda>sl. sl\<lparr>sl_state := st AND NOT 1\<rparr>) a M, Retire_Ret idx)
      | _ \<Rightarrow> None)"

text \<open>One step of the call that a thread is in; \<^term>\<open>None\<close> when it has returned.\<close>

definition pin_step :: "32 word \<Rightarrow> pin_mem \<Rightarrow> pin_pc \<Rightarrow> (pin_mem \<times> 32 word \<times> pin_pc) option" where
  "pin_step tid M pc =
     (case ccol_pintable_pin tid M pc of
        Some r \<Rightarrow> Some r
      | None \<Rightarrow>
         (case ccol_pintable_unpin tid M pc of
            Some r \<Rightarrow> Some r
          | None \<Rightarrow>
             (case ccol_pintable_pins M pc of
                Some pc' \<Rightarrow> Some (M, tid, pc')
              | None \<Rightarrow>
                 (case ccol_pintable_publish M pc of
                    Some (M', pc') \<Rightarrow> Some (M', tid, pc')
                  | None \<Rightarrow> map_option (\<lambda>(M', pc'). (M', tid, pc')) (ccol_pintable_retire M pc)))))"

text \<open>The calls with a handle in place of an index.\<close>

definition ccol_pintable_pins_for :: "64 word \<Rightarrow> pin_pc" where
  "ccol_pintable_pins_for h = (if h = 0 then Pins_Ret (handle_idx h) 0 else Pins_Enter (handle_idx h))"

section \<open>The calls that no other call may run beside\<close>

text \<open>The release of the table at the end of the process.\<close>

definition free_opt :: "nat option \<Rightarrow> heap \<Rightarrow> heap" where
  "free_opt b h = (case b of None \<Rightarrow> h | Some b \<Rightarrow> mem_free h b)"

definition dispose_chunk :: "nat \<Rightarrow> pintable \<times> heap \<Rightarrow> pintable \<times> heap" where
  "dispose_chunk c TH =
     (case TH of (T, h) \<Rightarrow>
        case pt_chunks T ! c of
          None \<Rightarrow> (T, h)
        | Some (b, slots) \<Rightarrow>
            (T\<lparr>pt_chunks := (pt_chunks T)[c := None]\<rparr>,
             mem_free (fold (\<lambda>sl. free_opt (map_option fst (sl_stripes sl))) slots h) b))"

definition ccol_pintable_dispose :: "pintable \<Rightarrow> heap \<Rightarrow> pintable \<times> heap" where
  "ccol_pintable_dispose T h = fold dispose_chunk [0..<CCOL_PIN_MAX_CHUNKS] (T, h)"

text \<open>The reset of the counters in the child of a fork.\<close>

definition ccol_pintable_reset :: "pin_mem \<Rightarrow> 32 word \<Rightarrow> pin_mem" where
  "ccol_pintable_reset M idx =
     (case pin_slot_lookup (pm_table M) idx of
        None \<Rightarrow> M
      | Some a \<Rightarrow>
          (case load_stripes M a of
             None \<Rightarrow> M
           | Some (b, cs) \<Rightarrow>
               store_slot (\<lambda>sl. sl\<lparr>sl_stripes := Some (b, fold (\<lambda>i cs. cs[i := 0]) [0..<CCOL_PIN_STRIPES] cs)\<rparr>) a M))"

definition ccol_pintable_reset_for :: "pin_mem \<Rightarrow> 64 word \<Rightarrow> pin_mem" where
  "ccol_pintable_reset_for M h = (if h = 0 then M else ccol_pintable_reset M (handle_idx h))"

section \<open>The threads and the owner of the table\<close>

text \<open>
  What the owner knows of a slot: free, holding an object of a generation, or holding an
  object that is being destroyed and is not freed yet.
\<close>

datatype phase = Vacant | Live "32 word" nat | Dying "32 word" nat

record pin_sys =
  ps_mem :: pin_mem
  ps_id :: "nat \<Rightarrow> 32 word"
  ps_pc :: "nat \<Rightarrow> pin_pc"
  ps_held :: "nat \<Rightarrow> (64 word \<times> nat) list"
  ps_phase :: "nat \<Rightarrow> phase"
  ps_lock :: "nat option"

text \<open>
  The system: \<open>N\<close> threads, each of which holds at most \<open>D\<close> pins.  A thread pins any handle it
  likes, and releases what it has pinned.  The owner publishes and retires with its lock
  held, publishes only into a free slot, and destroys an object by retiring its slot and
  then polling the pins until they are zero; only then is the object freed and the slot free
  again.
\<close>

inductive pin_sys_step :: "nat \<Rightarrow> nat \<Rightarrow> pin_sys \<Rightarrow> pin_sys \<Rightarrow> bool" for N D :: nat where
  work: "pin_step (ps_id s t) (ps_mem s) (ps_pc s t) = Some (M, tid, pc) \<Longrightarrow>
     pin_sys_step N D s (s\<lparr>ps_mem := M, ps_id := (ps_id s)(t := tid), ps_pc := (ps_pc s)(t := pc)\<rparr>)"
| pin: "t < N \<Longrightarrow> ps_pc s t = Idle \<Longrightarrow> length (ps_held s t) < D \<Longrightarrow>
     pin_sys_step N D s (s\<lparr>ps_pc := (ps_pc s)(t := Pin_Enter h)\<rparr>)"
| pinned: "ps_pc s t = Pin_Ret h p \<Longrightarrow> p \<noteq> 0 \<Longrightarrow>
     pin_sys_step N D s (s\<lparr>ps_pc := (ps_pc s)(t := Idle), ps_held := (ps_held s)(t := (h, p) # ps_held s t)\<rparr>)"
| not_pinned: "ps_pc s t = Pin_Ret h 0 \<Longrightarrow> pin_sys_step N D s (s\<lparr>ps_pc := (ps_pc s)(t := Idle)\<rparr>)"
| unpin: "ps_pc s t = Idle \<Longrightarrow> (h, p) \<in> set (ps_held s t) \<Longrightarrow>
     pin_sys_step N D s (s\<lparr>ps_pc := (ps_pc s)(t := Unpin_Enter h), ps_held := (ps_held s)(t := remove1 (h, p) (ps_held s t))\<rparr>)"
| unpinned: "ps_pc s t = Unpin_Ret h \<Longrightarrow> pin_sys_step N D s (s\<lparr>ps_pc := (ps_pc s)(t := Idle)\<rparr>)"
| publish: "t < N \<Longrightarrow> ps_pc s t = Idle \<Longrightarrow> ps_lock s = None \<Longrightarrow> ps_phase s (unat idx) = Vacant \<Longrightarrow> p \<noteq> 0 \<Longrightarrow>
     pin_sys_step N D s (s\<lparr>ps_pc := (ps_pc s)(t := Publish_Enter idx g p), ps_lock := Some t, ps_phase := (ps_phase s)(unat idx := Live g p)\<rparr>)"
| published: "ps_pc s t = Publish_Ret idx g p ok \<Longrightarrow>
     pin_sys_step N D s (s\<lparr>ps_pc := (ps_pc s)(t := Idle), ps_lock := None,
       ps_phase := (if ok then ps_phase s else (ps_phase s)(unat idx := Vacant))\<rparr>)"
| destroy: "t < N \<Longrightarrow> ps_pc s t = Idle \<Longrightarrow> ps_lock s = None \<Longrightarrow> ps_phase s (unat idx) = Live g p \<Longrightarrow>
     pin_sys_step N D s (s\<lparr>ps_pc := (ps_pc s)(t := Retire_Enter idx), ps_lock := Some t, ps_phase := (ps_phase s)(unat idx := Dying g p)\<rparr>)"
| retired: "ps_pc s t = Retire_Ret idx \<Longrightarrow> pin_sys_step N D s (s\<lparr>ps_pc := (ps_pc s)(t := Pins_Enter idx), ps_lock := None\<rparr>)"
| poll_again: "ps_pc s t = Pins_Ret idx n \<Longrightarrow> n \<noteq> 0 \<Longrightarrow> pin_sys_step N D s (s\<lparr>ps_pc := (ps_pc s)(t := Pins_Enter idx)\<rparr>)"
| freed: "ps_pc s t = Pins_Ret idx 0 \<Longrightarrow>
     pin_sys_step N D s (s\<lparr>ps_pc := (ps_pc s)(t := Idle), ps_phase := (ps_phase s)(unat idx := Vacant)\<rparr>)"

definition pin_start :: "heap \<Rightarrow> pin_sys" where
  "pin_start h =
     \<lparr>ps_mem = \<lparr>pm_table = empty_pintable, pm_next = 1, pm_heap = h\<rparr>, ps_id = (\<lambda>t. 0), ps_pc = (\<lambda>t. Idle), ps_held = (\<lambda>t. []),
      ps_phase = (\<lambda>a. Vacant), ps_lock = None\<rparr>"

inductive pin_reachable :: "nat \<Rightarrow> nat \<Rightarrow> pin_sys \<Rightarrow> bool" for N D :: nat where
  start: "pin_reachable N D (pin_start h)"
| step: "pin_reachable N D s \<Longrightarrow> pin_sys_step N D s s' \<Longrightarrow> pin_reachable N D s'"

inductive_cases pin_stepE: "pin_sys_step N D s s'"

end
