(* ===== verification/CCol_Pintable_Inv.thy ===== *)
theory CCol_Pintable_Inv
  imports CCol_Pintable
begin

text \<open>
  The invariant of the pin table under its owner's protocol: every counter is the number of
  pins of the threads of its stripe, the state of a slot follows the phase the owner has it
  in, and a thread that has been granted a pin has it on an object that is not freed.
\<close>

unbundle bit_operations_syntax

section \<open>Accesses to the table\<close>

definition table_wf :: "pintable \<Rightarrow> bool" where
  "table_wf T \<longleftrightarrow> length (pt_chunks T) = CCOL_PIN_MAX_CHUNKS
     \<and> (\<forall>c < CCOL_PIN_MAX_CHUNKS. \<forall>b slots. pt_chunks T ! c = Some (b, slots) \<longrightarrow> length slots = CCOL_PIN_CHUNK_SLOTS)"

definition has_slot :: "pin_mem \<Rightarrow> nat \<Rightarrow> bool" where
  "has_slot M a \<longleftrightarrow> slot_at (pm_table M) a \<noteq> None"

lemma slot_number: "(a :: nat) = b \<longleftrightarrow> a div CCOL_PIN_CHUNK_SLOTS = b div CCOL_PIN_CHUNK_SLOTS \<and> a mod CCOL_PIN_CHUNK_SLOTS = b mod CCOL_PIN_CHUNK_SLOTS"
  by (metis div_mult_mod_eq)

lemma slot_at_upd:
  assumes "table_wf T" "slot_at T a \<noteq> None"
  shows "slot_at (upd_slot f a T) b = (if b = a then map_option f (slot_at T a) else slot_at T b)"
proof -
  let ?c = "a div CCOL_PIN_CHUNK_SLOTS" and ?i = "a mod CCOL_PIN_CHUNK_SLOTS"
  obtain k ss where c: "?c < length (pt_chunks T)" "pt_chunks T ! ?c = Some (k, ss)" using assms(2) by (auto simp: slot_at_def split: if_splits option.splits)
  have l: "length ss = CCOL_PIN_CHUNK_SLOTS" using assms(1) c by (auto simp: table_wf_def)
  have i: "?i < length ss" unfolding l by (simp add: pin_sizes)
  show ?thesis
  proof (cases "b div CCOL_PIN_CHUNK_SLOTS = ?c")
    case True
    then have "b = a \<longleftrightarrow> b mod CCOL_PIN_CHUNK_SLOTS = ?i" using slot_number [of b a] by simp
    then show ?thesis using c i True by (auto simp: slot_at_def upd_slot_def Let_def nth_list_update)
  next
    case False
    then show ?thesis using c by (auto simp: slot_at_def upd_slot_def Let_def nth_list_update)
  qed
qed

lemma table_wf_upd [simp]: "table_wf T \<Longrightarrow> table_wf (upd_slot f a T)"
  unfolding table_wf_def by (cases "a div CCOL_PIN_CHUNK_SLOTS < length (pt_chunks T)") (auto simp: upd_slot_def Let_def nth_list_update split: option.splits)

lemma lookup_eq:
  assumes "table_wf T"
  shows "pin_slot_lookup T idx = (if slot_at T (unat idx) = None then None else Some (unat idx))"
  using assms by (auto simp: pin_slot_lookup_def slot_at_def table_wf_def Let_def split: option.splits)

text \<open>What the loads see after a store.\<close>

lemma store_slot_loads:
  assumes "table_wf (pm_table M)" "has_slot M a"
  shows "has_slot (store_slot f a M) b = has_slot M b"
    "slot_at (pm_table (store_slot f a M)) b = (if b = a then map_option f (slot_at (pm_table M) a) else slot_at (pm_table M) b)"
    "table_wf (pm_table (store_slot f a M))" "pm_next (store_slot f a M) = pm_next M" "pm_heap (store_slot f a M) = pm_heap M"
  using assms slot_at_upd [OF assms(1), of a f] by (auto simp: store_slot_def has_slot_def)

lemma stripes_has_slot: "load_stripes M a \<noteq> None \<Longrightarrow> has_slot M a"
  by (auto simp: load_stripes_def has_slot_def split: option.splits)

lemma add_count_loads:
  assumes "table_wf (pm_table M)" "load_stripes M a = Some (k, cs)"
  shows "has_slot (add_count d i a M) b = has_slot M b" "load_state (add_count d i a M) b = load_state M b" "load_ptr (add_count d i a M) b = load_ptr M b"
    "load_stripes (add_count d i a M) b = (if b = a then Some (k, cs[i := cs ! i + d]) else load_stripes M b)" "table_wf (pm_table (add_count d i a M))"
proof -
  have h: "has_slot M a" using assms(2) stripes_has_slot by simp
  show "has_slot (add_count d i a M) b = has_slot M b" "load_state (add_count d i a M) b = load_state M b" "load_ptr (add_count d i a M) b = load_ptr M b"
    "load_stripes (add_count d i a M) b = (if b = a then Some (k, cs[i := cs ! i + d]) else load_stripes M b)" "table_wf (pm_table (add_count d i a M))"
    unfolding add_count_def using store_slot_loads [OF assms(1) h] assms(2) h
    by (auto simp: load_state_def load_ptr_def load_stripes_def has_slot_def split: option.splits)
qed

lemma store_state_loads:
  assumes "table_wf (pm_table M)" "has_slot M a"
  shows "load_state (store_slot (\<lambda>sl. sl\<lparr>sl_state := v\<rparr>) a M) b = (if b = a then v else load_state M b)"
    "load_ptr (store_slot (\<lambda>sl. sl\<lparr>sl_state := v\<rparr>) a M) b = load_ptr M b" "load_stripes (store_slot (\<lambda>sl. sl\<lparr>sl_state := v\<rparr>) a M) b = load_stripes M b"
  using store_slot_loads(2) [OF assms] assms(2) by (auto simp: load_state_def load_ptr_def load_stripes_def has_slot_def split: option.splits)

lemma store_ptr_loads:
  assumes "table_wf (pm_table M)" "has_slot M a"
  shows "load_ptr (store_slot (\<lambda>sl. sl\<lparr>sl_ptr := v\<rparr>) a M) b = (if b = a then v else load_ptr M b)"
    "load_state (store_slot (\<lambda>sl. sl\<lparr>sl_ptr := v\<rparr>) a M) b = load_state M b" "load_stripes (store_slot (\<lambda>sl. sl\<lparr>sl_ptr := v\<rparr>) a M) b = load_stripes M b"
  using store_slot_loads(2) [OF assms] assms(2) by (auto simp: load_state_def load_ptr_def load_stripes_def has_slot_def split: option.splits)

lemma store_stripes_loads:
  assumes "table_wf (pm_table M)" "has_slot M a"
  shows "load_stripes (store_slot (\<lambda>sl. sl\<lparr>sl_stripes := v\<rparr>) a M) b = (if b = a then v else load_stripes M b)"
    "load_state (store_slot (\<lambda>sl. sl\<lparr>sl_stripes := v\<rparr>) a M) b = load_state M b" "load_ptr (store_slot (\<lambda>sl. sl\<lparr>sl_stripes := v\<rparr>) a M) b = load_ptr M b"
  using store_slot_loads(2) [OF assms] assms(2) by (auto simp: load_state_def load_ptr_def load_stripes_def has_slot_def split: option.splits)

lemma put_chunk_loads:
  assumes "table_wf (pm_table M)" "c < CCOL_PIN_MAX_CHUNKS" "pt_chunks (pm_table M) ! c = None"
  shows "table_wf (pm_table (put_chunk k c M))" "load_state (put_chunk k c M) b = load_state M b" "load_ptr (put_chunk k c M) b = load_ptr M b"
    "load_stripes (put_chunk k c M) b = load_stripes M b" "has_slot M b \<Longrightarrow> has_slot (put_chunk k c M) b"
    "b div CCOL_PIN_CHUNK_SLOTS = c \<Longrightarrow> has_slot (put_chunk k c M) b"
proof -
  have l: "length (pt_chunks (pm_table M)) = CCOL_PIN_MAX_CHUNKS" using assms(1) by (simp add: table_wf_def)
  have m: "b mod CCOL_PIN_CHUNK_SLOTS < CCOL_PIN_CHUNK_SLOTS" by (simp add: pin_sizes)
  have e: "slot_at (pm_table (put_chunk k c M)) b = (if b div CCOL_PIN_CHUNK_SLOTS = c then Some empty_slot else slot_at (pm_table M) b)"
    using assms(2) l m by (auto simp: put_chunk_def slot_at_def nth_list_update)
  have n: "b div CCOL_PIN_CHUNK_SLOTS = c \<Longrightarrow> slot_at (pm_table M) b = None" using assms(3) by (simp add: slot_at_def)
  show "table_wf (pm_table (put_chunk k c M))" using assms by (auto simp: table_wf_def put_chunk_def nth_list_update)
  show "load_state (put_chunk k c M) b = load_state M b" "load_ptr (put_chunk k c M) b = load_ptr M b" "load_stripes (put_chunk k c M) b = load_stripes M b"
    "has_slot M b \<Longrightarrow> has_slot (put_chunk k c M) b" "b div CCOL_PIN_CHUNK_SLOTS = c \<Longrightarrow> has_slot (put_chunk k c M) b"
    using e n by (auto simp: load_state_def load_ptr_def load_stripes_def has_slot_def empty_slot_def split: if_splits)
qed

section \<open>The state word\<close>

lemma pin_state_bits: "bit (pin_state g l) n \<longleftrightarrow> (if n = 0 then l else bit (ucast g :: 64 word) (n - 1) \<and> n < 64)"
  unfolding pin_state_def bit_or_iff bit_push_bit_iff by (auto simp: bit_1_iff possible_bit_word)

lemma pin_state_alive: "bit (pin_state g l) 0 = l"
  by (simp add: pin_state_bits)

lemma pin_state_inj:
  assumes "pin_state g l = pin_state g' l'"
  shows "g = g' \<and> l = l'"
proof -
  have "bit g n = bit g' n" if "n < 32" for n
  proof -
    have "bit (pin_state g l) (Suc n) = bit (pin_state g' l') (Suc n)" using assms by simp
    then show ?thesis using that by (simp add: pin_state_bits bit_ucast_iff possible_bit_word)
  qed
  then have "g = g'" by (intro bit_word_eqI) simp
  moreover have "l = l'" using assms pin_state_alive by metis
  ultimately show ?thesis by simp
qed

lemma pin_state_retire: "pin_state g l AND NOT 1 = pin_state g False"
  by (rule bit_word_eqI) (auto simp: pin_state_bits bit_and_iff bit_not_iff bit_1_iff possible_bit_word split: if_splits)

section \<open>The invariant\<close>

definition hidx :: "64 word \<Rightarrow> nat" where
  "hidx h = unat (handle_idx h)"

text \<open>The slot that a thread is publishing into, up to the store that makes it live.\<close>

fun pub :: "pin_pc \<Rightarrow> (nat \<times> 32 word \<times> nat) option" where
  "pub (Publish_Enter idx g p) = Some (unat idx, g, p)"
| "pub (Publish_Chunk idx g p b) = Some (unat idx, g, p)"
| "pub (Publish_Stripes idx g p) = Some (unat idx, g, p)"
| "pub (Publish_Block idx g p b) = Some (unat idx, g, p)"
| "pub (Publish_Ptr idx g p) = Some (unat idx, g, p)"
| "pub (Publish_State idx g p) = Some (unat idx, g, p)"
| "pub (Publish_Ret idx g p ok) = (if ok then None else Some (unat idx, g, p))"
| "pub _ = None"

text \<open>The slot that a thread is destroying, and whether its retire is still to come.\<close>

fun des :: "pin_pc \<Rightarrow> nat option" where
  "des (Retire_Enter idx) = Some (unat idx)"
| "des (Retire_Load idx a) = Some (unat idx)"
| "des (Retire_Store idx a st) = Some (unat idx)"
| "des (Retire_Ret idx) = Some (unat idx)"
| "des (Pins_Enter idx) = Some (unat idx)"
| "des (Pins_Stripes idx a) = Some (unat idx)"
| "des (Pins_Read idx a i acc) = Some (unat idx)"
| "des (Pins_Ret idx n) = Some (unat idx)"
| "des _ = None"

fun pre :: "pin_pc \<Rightarrow> bool" where
  "pre (Retire_Enter idx) = True"
| "pre (Retire_Load idx a) = True"
| "pre (Retire_Store idx a st) = True"
| "pre _ = False"

fun writer :: "pin_pc \<Rightarrow> bool" where
  "writer (Retire_Enter idx) = True"
| "writer (Retire_Load idx a) = True"
| "writer (Retire_Store idx a st) = True"
| "writer (Retire_Ret idx) = True"
| "writer (Publish_Ret idx g p ok) = True"
| "writer pc = (pub pc \<noteq> None)"

text \<open>What a call counts for at a slot, whether it has been granted its pin, and whether it needs room.\<close>

fun cntp :: "pin_pc \<Rightarrow> nat \<Rightarrow> nat" where
  "cntp (Pin_Check h b) a = of_bool (b = a)"
| "cntp (Pin_Undo h b) a = of_bool (b = a)"
| "cntp (Pin_Ptr h b) a = of_bool (b = a)"
| "cntp (Pin_Ret h p) a = of_bool (p \<noteq> 0 \<and> hidx h = a)"
| "cntp (Unpin_Enter h) a = of_bool (hidx h = a)"
| "cntp (Unpin_Stripes h b) a = of_bool (b = a)"
| "cntp (Unpin_Self h b) a = of_bool (b = a)"
| "cntp (Unpin_Sub h b) a = of_bool (b = a)"
| "cntp _ a = 0"

fun gpc :: "pin_pc \<Rightarrow> nat \<Rightarrow> bool" where
  "gpc (Pin_Ptr h b) a = (b = a)"
| "gpc (Pin_Ret h p) a = (p \<noteq> 0 \<and> hidx h = a)"
| "gpc _ a = False"

fun flight :: "pin_pc \<Rightarrow> nat" where
  "flight (Pin_Enter h) = 1"
| "flight (Pin_State h a) = 1"
| "flight (Pin_Stripes h a) = 1"
| "flight (Pin_Self h a) = 1"
| "flight (Pin_Add h a) = 1"
| "flight (Pin_Check h a) = 1"
| "flight (Pin_Undo h a) = 1"
| "flight (Pin_Ptr h a) = 1"
| "flight (Pin_Ret h p) = 1"
| "flight (Unpin_Enter h) = 1"
| "flight (Unpin_Stripes h a) = 1"
| "flight (Unpin_Self h a) = 1"
| "flight (Unpin_Sub h a) = 1"
| "flight _ = 0"

definition cnt :: "pin_sys \<Rightarrow> nat \<Rightarrow> nat \<Rightarrow> nat" where
  "cnt s t a = length (filter (\<lambda>(h, p). hidx h = a) (ps_held s t)) + cntp (ps_pc s t) a"

definition granted :: "pin_sys \<Rightarrow> nat \<Rightarrow> nat \<Rightarrow> bool" where
  "granted s t a \<longleftrightarrow> (\<exists>h p. (h, p) \<in> set (ps_held s t) \<and> hidx h = a) \<or> gpc (ps_pc s t) a"

definition contrib :: "pin_sys \<Rightarrow> nat \<Rightarrow> nat \<Rightarrow> nat \<Rightarrow> nat" where
  "contrib s a i t = (if ps_id s t \<noteq> 0 \<and> stripe_of (ps_id s t) = i then cnt s t a else 0)"

definition pin_sum :: "nat \<Rightarrow> pin_sys \<Rightarrow> nat \<Rightarrow> nat \<Rightarrow> nat" where
  "pin_sum N s a i = (\<Sum>t < N. contrib s a i t)"

abbreviation ld_state :: "pin_sys \<Rightarrow> nat \<Rightarrow> 64 word" where
  "ld_state s \<equiv> load_state (ps_mem s)"

abbreviation ld_ptr :: "pin_sys \<Rightarrow> nat \<Rightarrow> nat" where
  "ld_ptr s \<equiv> load_ptr (ps_mem s)"

abbreviation ld_stripes :: "pin_sys \<Rightarrow> nat \<Rightarrow> (nat \<times> 64 word list) option" where
  "ld_stripes s \<equiv> load_stripes (ps_mem s)"

definition alive :: "pin_sys \<Rightarrow> nat \<Rightarrow> bool" where
  "alive s a \<longleftrightarrow> bit (ld_state s a) 0"

definition count_ok :: "nat \<Rightarrow> pin_sys \<Rightarrow> bool" where
  "count_ok N s \<longleftrightarrow> (\<forall>a. (ld_stripes s a = None \<longrightarrow> (\<forall>t. cnt s t a = 0))
     \<and> (\<forall>b cs. ld_stripes s a = Some (b, cs) \<longrightarrow> length cs = CCOL_PIN_STRIPES \<and> (\<forall>i < CCOL_PIN_STRIPES. cs ! i = of_nat (pin_sum N s a i))))"

text \<open>The object behind a handle is the one published with it, and it is not freed.\<close>

definition owned :: "pin_sys \<Rightarrow> 64 word \<Rightarrow> nat \<Rightarrow> bool" where
  "owned s h p \<longleftrightarrow> ps_phase s (hidx h) = Live (handle_gen h) p \<or> ps_phase s (hidx h) = Dying (handle_gen h) p"

definition full :: "pin_sys \<Rightarrow> nat \<Rightarrow> 32 word \<Rightarrow> nat \<Rightarrow> bool \<Rightarrow> bool" where
  "full s a g p l \<longleftrightarrow> ld_state s a = pin_state g l \<and> ld_ptr s a = p \<and> ld_stripes s a \<noteq> None"

definition no_pub :: "pin_sys \<Rightarrow> nat \<Rightarrow> bool" where
  "no_pub s a \<longleftrightarrow> (\<forall>t g p. pub (ps_pc s t) \<noteq> Some (a, g, p))"

definition slot_ok :: "pin_sys \<Rightarrow> nat \<Rightarrow> bool" where
  "slot_ok s a =
     (case ps_phase s a of
        Vacant \<Rightarrow> \<not> alive s a \<and> no_pub s a \<and> (\<forall>t. \<not> granted s t a \<and> des (ps_pc s t) \<noteq> Some a)
      | Live g p \<Rightarrow> p \<noteq> 0 \<and> (\<forall>t. des (ps_pc s t) \<noteq> Some a)
          \<and> ((\<exists>t. pub (ps_pc s t) = Some (a, g, p)) \<and> \<not> alive s a \<and> (\<forall>t. \<not> granted s t a)
             \<or> no_pub s a \<and> full s a g p True)
      | Dying g p \<Rightarrow> p \<noteq> 0 \<and> no_pub s a
          \<and> (\<exists>t. des (ps_pc s t) = Some a \<and> full s a g p (pre (ps_pc s t)) \<and> (\<forall>u. des (ps_pc s u) = Some a \<longrightarrow> u = t)))"

text \<open>What is known where a call stands.\<close>

definition pc_ok :: "nat \<Rightarrow> pin_sys \<Rightarrow> nat \<Rightarrow> bool" where
  "pc_ok B s t =
     (case ps_pc s t of
        Pin_State h a \<Rightarrow> h \<noteq> 0 \<and> a = hidx h
      | Pin_Stripes h a \<Rightarrow> h \<noteq> 0 \<and> a = hidx h
      | Pin_Self h a \<Rightarrow> h \<noteq> 0 \<and> a = hidx h \<and> ld_stripes s a \<noteq> None
      | Pin_Add h a \<Rightarrow> h \<noteq> 0 \<and> a = hidx h \<and> ld_stripes s a \<noteq> None \<and> ps_id s t \<noteq> 0
      | Pin_Check h a \<Rightarrow> h \<noteq> 0 \<and> a = hidx h \<and> ld_stripes s a \<noteq> None \<and> ps_id s t \<noteq> 0
      | Pin_Undo h a \<Rightarrow> h \<noteq> 0 \<and> a = hidx h \<and> ld_stripes s a \<noteq> None \<and> ps_id s t \<noteq> 0
      | Pin_Ptr h a \<Rightarrow> h \<noteq> 0 \<and> a = hidx h \<and> ld_stripes s a \<noteq> None \<and> ps_id s t \<noteq> 0 \<and> (\<exists>p. owned s h p)
      | Pin_Ret h p \<Rightarrow> p \<noteq> 0 \<longrightarrow> h \<noteq> 0 \<and> ps_id s t \<noteq> 0 \<and> ld_stripes s (hidx h) \<noteq> None \<and> owned s h p
      | Unpin_Enter h \<Rightarrow> h \<noteq> 0 \<and> ps_id s t \<noteq> 0 \<and> ld_stripes s (hidx h) \<noteq> None
      | Unpin_Stripes h a \<Rightarrow> a = hidx h \<and> ps_id s t \<noteq> 0 \<and> ld_stripes s a \<noteq> None
      | Unpin_Self h a \<Rightarrow> a = hidx h \<and> ps_id s t \<noteq> 0 \<and> ld_stripes s a \<noteq> None
      | Unpin_Sub h a \<Rightarrow> a = hidx h \<and> ps_id s t \<noteq> 0 \<and> ld_stripes s a \<noteq> None
      | Publish_Chunk idx g p b \<Rightarrow> unat idx div CCOL_PIN_CHUNK_SLOTS < CCOL_PIN_MAX_CHUNKS \<and> \<not> has_slot (ps_mem s) (unat idx)
      | Publish_Stripes idx g p \<Rightarrow> has_slot (ps_mem s) (unat idx)
      | Publish_Block idx g p b \<Rightarrow> has_slot (ps_mem s) (unat idx) \<and> ld_stripes s (unat idx) = None
      | Publish_Ptr idx g p \<Rightarrow> ld_stripes s (unat idx) \<noteq> None
      | Publish_State idx g p \<Rightarrow> ld_stripes s (unat idx) \<noteq> None \<and> ld_ptr s (unat idx) = p
      | Retire_Load idx a \<Rightarrow> a = unat idx
      | Retire_Store idx a st \<Rightarrow> a = unat idx \<and> st = ld_state s a
      | Pins_Stripes idx a \<Rightarrow> a = unat idx
      | Pins_Read idx a k acc \<Rightarrow> a = unat idx \<and> k \<le> CCOL_PIN_STRIPES \<and> unat acc \<le> k * B
          \<and> (acc = 0 \<longrightarrow> (\<forall>u. ps_id s u \<noteq> 0 \<and> stripe_of (ps_id s u) < k \<longrightarrow> \<not> granted s u a))
      | Pins_Ret idx n \<Rightarrow> n = 0 \<longrightarrow> (\<forall>u. \<not> granted s u (unat idx))
      | _ \<Rightarrow> True)"

definition held_ok :: "pin_sys \<Rightarrow> nat \<Rightarrow> bool" where
  "held_ok s t \<longleftrightarrow> (\<forall>h p. (h, p) \<in> set (ps_held s t) \<longrightarrow> p \<noteq> 0 \<and> h \<noteq> 0 \<and> ps_id s t \<noteq> 0 \<and> ld_stripes s (hidx h) \<noteq> None \<and> owned s h p)"

definition thread_ok :: "nat \<Rightarrow> nat \<Rightarrow> pin_sys \<Rightarrow> nat \<Rightarrow> bool" where
  "thread_ok N D s t \<longleftrightarrow> pc_ok (N * D) s t \<and> held_ok s t \<and> (writer (ps_pc s t) \<longrightarrow> ps_lock s = Some t)
     \<and> length (ps_held s t) + flight (ps_pc s t) \<le> D \<and> (t \<ge> N \<longrightarrow> ps_pc s t = Idle \<and> ps_held s t = [])"

definition pin_inv :: "nat \<Rightarrow> nat \<Rightarrow> pin_sys \<Rightarrow> bool" where
  "pin_inv N D s \<longleftrightarrow> table_wf (pm_table (ps_mem s)) \<and> count_ok N s \<and> (\<forall>a. slot_ok s a) \<and> (\<forall>t. thread_ok N D s t)"

end
