(* ===== verification/CCol_Pintable_Spec.thy ===== *)
theory CCol_Pintable_Spec
  imports CCol_Pintable_Inv
begin

text \<open>
  The steps of the pin table keep its invariant; hence no thread ever holds a pin on an
  object that has been freed, and every call ends after a bounded number of its own steps.
\<close>

unbundle bit_operations_syntax

section \<open>Counting\<close>

lemma pin_sum_upd:
  assumes "t < N" "\<And>u. u \<noteq> t \<Longrightarrow> contrib s' a i u = contrib s a i u"
  shows "pin_sum N s' a i + contrib s a i t = pin_sum N s a i + contrib s' a i t"
proof -
  have "(\<Sum>u \<in> {..<N} - {t}. contrib s' a i u) = (\<Sum>u \<in> {..<N} - {t}. contrib s a i u)" by (rule sum.cong) (use assms(2) in auto)
  then show ?thesis using sum.remove [of "{..<N}" t "contrib s' a i"] sum.remove [of "{..<N}" t "contrib s a i"] assms(1) by (simp add: pin_sum_def)
qed

lemma cntp_flight: "cntp pc a \<le> flight pc"
  by (cases pc) auto

lemma cnt_le:
  assumes "thread_ok N D s t"
  shows "cnt s t a \<le> D"
proof -
  have "cnt s t a \<le> length (ps_held s t) + flight (ps_pc s t)" unfolding cnt_def by (intro add_mono cntp_flight) simp
  then show ?thesis using assms by (simp add: thread_ok_def)
qed

lemma pin_sum_le:
  assumes "\<And>t. thread_ok N D s t"
  shows "pin_sum N s a i \<le> N * D"
proof -
  have "pin_sum N s a i \<le> (\<Sum>t < N. D)" unfolding pin_sum_def by (rule sum_mono) (use cnt_le [OF assms] in \<open>auto simp: contrib_def\<close>)
  then show ?thesis by simp
qed

lemma id_zero:
  assumes "thread_ok N D s t" "ps_id s t = 0"
  shows "cnt s t a = 0" "\<not> granted s t a"
proof -
  have h: "ps_held s t = []" using assms by (cases "ps_held s t") (auto simp: thread_ok_def held_ok_def)
  have "pc_ok (N * D) s t" using assms(1) by (simp add: thread_ok_def)
  then have "cntp (ps_pc s t) a = 0 \<and> \<not> gpc (ps_pc s t) a" using assms(2) by (cases "ps_pc s t") (auto simp: pc_ok_def)
  then show "cnt s t a = 0" "\<not> granted s t a" using h by (simp_all add: cnt_def granted_def)
qed

lemma granted_cnt: "granted s t a \<Longrightarrow> cnt s t a > 0"
proof -
  assume "granted s t a"
  then consider h p where "(h, p) \<in> set (ps_held s t)" "hidx h = a" | "gpc (ps_pc s t) a" by (auto simp: granted_def)
  then show ?thesis
  proof cases
    case 1
    then have "filter (\<lambda>(h, p). hidx h = a) (ps_held s t) \<noteq> []" by (force simp: filter_empty_conv)
    then show ?thesis by (simp add: cnt_def)
  next
    case 2
    then show ?thesis by (cases "ps_pc s t") (auto simp: cnt_def)
  qed
qed

section \<open>What a step of one thread leaves to the others\<close>

lemma slot_ok_phase:
  "ps_phase s a = Vacant \<Longrightarrow> slot_ok s a = (\<not> alive s a \<and> no_pub s a \<and> (\<forall>t. \<not> granted s t a \<and> des (ps_pc s t) \<noteq> Some a))"
  "ps_phase s a = Live g p \<Longrightarrow> slot_ok s a = (p \<noteq> 0 \<and> (\<forall>t. des (ps_pc s t) \<noteq> Some a)
     \<and> ((\<exists>t. pub (ps_pc s t) = Some (a, g, p)) \<and> \<not> alive s a \<and> (\<forall>t. \<not> granted s t a) \<or> no_pub s a \<and> full s a g p True))"
  "ps_phase s a = Dying g p \<Longrightarrow> slot_ok s a = (p \<noteq> 0 \<and> no_pub s a
     \<and> (\<exists>t. des (ps_pc s t) = Some a \<and> full s a g p (pre (ps_pc s t)) \<and> (\<forall>u. des (ps_pc s u) = Some a \<longrightarrow> u = t)))"
  by (simp_all only: slot_ok_def phase.case)

lemma dying_slot:
  assumes "slot_ok s a" "ps_phase s a = Dying g p"
  obtains t where "p \<noteq> 0" "no_pub s a" "des (ps_pc s t) = Some a" "full s a g p (pre (ps_pc s t))" "\<forall>u. des (ps_pc s u) = Some a \<longrightarrow> u = t"
  using assms(1) unfolding slot_ok_phase(3) [OF assms(2)] by blast

lemma dying_full:
  assumes "slot_ok s a" "ps_phase s a = Dying g p"
  shows "\<exists>l. full s a g p l" "p \<noteq> 0"
  using assms(1) unfolding slot_ok_phase(3) [OF assms(2)] by blast+

lemma pins_not_alive:
  assumes "slot_ok s a" "des (ps_pc s t) = Some a" "\<not> pre (ps_pc s t)"
  shows "\<not> alive s a"
proof (cases "ps_phase s a")
  case (Dying g p)
  obtain u where u: "full s a g p (pre (ps_pc s u))" "\<forall>w. des (ps_pc s w) = Some a \<longrightarrow> w = u" using dying_slot [OF assms(1) Dying] by metis
  then have "u = t" using assms(2) by blast
  then show ?thesis using u(1) assms(3) by (simp add: full_def alive_def pin_state_alive)
qed (use assms in \<open>auto simp: slot_ok_def\<close>)

lemma thread_frame:
  assumes inv: "pin_inv N D s"
    and same: "ps_pc s' u = ps_pc s u" "ps_held s' u = ps_held s u" "ps_id s' u = ps_id s u"
    and slots: "\<And>a. has_slot (ps_mem s) a \<Longrightarrow> has_slot (ps_mem s') a"
    and str: "\<And>a. ld_stripes s a \<noteq> None \<Longrightarrow> ld_stripes s' a \<noteq> None"
    and lk: "ps_lock s = Some u \<Longrightarrow> ps_lock s' = Some u
       \<and> (\<forall>a. ld_state s' a = ld_state s a \<and> ld_ptr s' a = ld_ptr s a \<and> (ld_stripes s a = None \<longrightarrow> ld_stripes s' a = None) \<and> (has_slot (ps_mem s') a \<longrightarrow> has_slot (ps_mem s) a))"
    and own: "\<And>h p. owned s h p \<Longrightarrow> granted s u (hidx h) \<Longrightarrow> owned s' h p"
    and gr: "\<And>w a. \<not> alive s a \<Longrightarrow> granted s' w a \<Longrightarrow> granted s w a"
    and ids: "\<And>w. ps_id s w \<noteq> 0 \<Longrightarrow> ps_id s' w = ps_id s w"
  shows "thread_ok N D s' u"
proof -
  have ok: "thread_ok N D s u" "pc_ok (N * D) s u" "held_ok s u" "writer (ps_pc s u) \<Longrightarrow> ps_lock s = Some u" using inv by (auto simp: pin_inv_def thread_ok_def)
  have held: "held_ok s' u" using ok(3) str own unfolding held_ok_def same by (fastforce simp: granted_def)
  have quiet: "\<not> granted s' w a" if "des (ps_pc s u) = Some a" "\<not> pre (ps_pc s u)" "ps_id s' w \<noteq> 0" "ps_id s w \<noteq> 0 \<Longrightarrow> \<not> granted s w a" for w a
  proof -
    have "\<not> alive s a" using pins_not_alive [of s a u] inv that by (auto simp: pin_inv_def)
    then show ?thesis using gr that(4) id_zero(2) [of N D s w a] inv by (auto simp: pin_inv_def)
  qed
  have quiet0: "\<not> granted s' w a" if "des (ps_pc s u) = Some a" "\<not> pre (ps_pc s u)" "\<not> granted s w a" for w a
    using pins_not_alive [of s a u] inv that gr by (auto simp: pin_inv_def)
  have "pc_ok (N * D) s' u"
  proof (cases "ps_pc s u")
    case (Pins_Read idx a k acc)
    then show ?thesis using ok(2) quiet [of a] ids unfolding pc_ok_def same by auto metis
  next
    case (Pins_Ret idx n)
    then show ?thesis using ok(2) quiet0 unfolding pc_ok_def same by auto
  next
    case (Pin_Ptr h a)
    then have "granted s u a" by (simp add: granted_def)
    then show ?thesis using Pin_Ptr ok(2) str own unfolding pc_ok_def same by fastforce
  next
    case (Pin_Ret h p)
    then have "p \<noteq> 0 \<Longrightarrow> granted s u (hidx h)" by (simp add: granted_def)
    then show ?thesis using Pin_Ret ok(2) str own unfolding pc_ok_def same by auto
  qed (use ok(2,4) lk slots str same in \<open>auto simp: pc_ok_def\<close>)
  then show ?thesis using ok held lk unfolding thread_ok_def same by auto
qed

lemma inv_step:
  assumes inv: "pin_inv N D s"
    and same: "\<And>u. u \<noteq> t \<Longrightarrow> ps_pc s' u = ps_pc s u \<and> ps_held s' u = ps_held s u \<and> ps_id s' u = ps_id s u"
    and wf: "table_wf (pm_table (ps_mem s'))"
    and slots: "\<And>a. has_slot (ps_mem s) a \<Longrightarrow> has_slot (ps_mem s') a"
    and str: "\<And>a. ld_stripes s a \<noteq> None \<Longrightarrow> ld_stripes s' a \<noteq> None"
    and lk: "\<And>u. u \<noteq> t \<Longrightarrow> ps_lock s = Some u \<Longrightarrow> ps_lock s' = Some u
       \<and> (\<forall>a. ld_state s' a = ld_state s a \<and> ld_ptr s' a = ld_ptr s a \<and> (ld_stripes s a = None \<longrightarrow> ld_stripes s' a = None) \<and> (has_slot (ps_mem s') a \<longrightarrow> has_slot (ps_mem s) a))"
    and own: "\<And>u h p. u \<noteq> t \<Longrightarrow> owned s h p \<Longrightarrow> granted s u (hidx h) \<Longrightarrow> owned s' h p"
    and gr: "\<And>a. \<not> alive s a \<Longrightarrow> granted s' t a \<Longrightarrow> granted s t a"
    and idt: "ps_id s t \<noteq> 0 \<Longrightarrow> ps_id s' t = ps_id s t"
    and cnt: "count_ok N s'" and slot: "\<And>a. slot_ok s' a" and me: "thread_ok N D s' t"
  shows "pin_inv N D s'"
proof -
  have gr2: "granted s w a" if "\<not> alive s a" "granted s' w a" for w a using gr [OF that(1)] that(2) same [of w] by (cases "w = t") (auto simp: granted_def)
  have ids: "ps_id s' w = ps_id s w" if "ps_id s w \<noteq> 0" for w using idt that same [of w] by (cases "w = t") auto
  have "thread_ok N D s' u" for u
  proof (cases "u = t")
    case False
    show ?thesis by (rule thread_frame [OF inv _ _ _ slots str lk [OF False] own [OF False] gr2 ids]) (use same [OF False] in auto)
  qed (use me in simp)
  then show ?thesis using wf cnt slot by (simp add: pin_inv_def)
qed

text \<open>A step that only moves on in a call keeps what is known of the slots and of the counts.\<close>

lemma slot_frame:
  assumes "slot_ok s a" "ld_state s' a = ld_state s a" "ld_ptr s' a = ld_ptr s a" "ld_stripes s a \<noteq> None \<Longrightarrow> ld_stripes s' a \<noteq> None"
    and "\<And>u. pub (ps_pc s' u) = pub (ps_pc s u)" "\<And>u. des (ps_pc s' u) = des (ps_pc s u)" "\<And>u. des (ps_pc s u) = Some a \<Longrightarrow> pre (ps_pc s' u) = pre (ps_pc s u)"
    and "ps_phase s' a = ps_phase s a" "\<And>u. \<not> alive s a \<Longrightarrow> granted s' u a \<Longrightarrow> granted s u a"
  shows "slot_ok s' a"
proof -
  have al: "alive s' a = alive s a" using assms(2) by (simp add: alive_def)
  have np: "no_pub s' a = no_pub s a" using assms(5) by (simp add: no_pub_def)
  have fu: "full s a g p l \<Longrightarrow> full s' a g p l" for g p l using assms(2-4) by (simp add: full_def)
  show ?thesis
  proof (cases "ps_phase s a")
    case Vacant
    then show ?thesis using assms(1,6,9) unfolding slot_ok_def assms(8) al np by auto
  next
    case (Live g p)
    then show ?thesis using assms(1,5,6,9) fu unfolding slot_ok_def assms(8) al np by auto
  next
    case (Dying g p)
    obtain t where t: "p \<noteq> 0" "no_pub s a" "des (ps_pc s t) = Some a" "full s a g p (pre (ps_pc s t))" "\<forall>u. des (ps_pc s u) = Some a \<longrightarrow> u = t"
      using dying_slot [OF assms(1) Dying] by metis
    have "full s' a g p (pre (ps_pc s' t))" unfolding assms(7) [OF t(3)] by (rule fu [OF t(4)])
    moreover have "des (ps_pc s' t) = Some a" "\<forall>u. des (ps_pc s' u) = Some a \<longrightarrow> u = t" unfolding assms(6) using t(3,5) by blast+
    ultimately show ?thesis using t(1,2) np unfolding slot_ok_phase(3) [OF Dying [folded assms(8)]] by blast
  qed
qed

lemma count_frame:
  assumes "count_ok N s" "\<And>a. ld_stripes s' a = ld_stripes s a" "\<And>u a. cnt s' u a = cnt s u a"
    and "\<And>u. ps_id s u \<noteq> 0 \<Longrightarrow> ps_id s' u = ps_id s u" "\<And>u a. ps_id s u = 0 \<Longrightarrow> cnt s u a = 0"
  shows "count_ok N s'"
proof -
  have "contrib s' a i u = contrib s a i u" for a i u using assms(3-5) by (cases "ps_id s u = 0") (auto simp: contrib_def)
  then have "pin_sum N s' a i = pin_sum N s a i" for a i by (simp add: pin_sum_def)
  then show ?thesis using assms(1-3) by (simp add: count_ok_def)
qed

lemma quiet_step:
  assumes inv: "pin_inv N D s"
    and same: "\<And>u. u \<noteq> t \<Longrightarrow> ps_pc s' u = ps_pc s u \<and> ps_held s' u = ps_held s u \<and> ps_id s' u = ps_id s u"
    and wf: "table_wf (pm_table (ps_mem s'))"
    and mem: "\<And>a. ld_state s' a = ld_state s a" "\<And>a. ld_ptr s' a = ld_ptr s a" "\<And>a. ld_stripes s' a = ld_stripes s a"
    and slots: "\<And>a. has_slot (ps_mem s) a \<Longrightarrow> has_slot (ps_mem s') a"
    and lk: "\<And>u. u \<noteq> t \<Longrightarrow> ps_lock s = Some u \<Longrightarrow> ps_lock s' = Some u \<and> (\<forall>a. has_slot (ps_mem s') a \<longrightarrow> has_slot (ps_mem s) a)"
    and ph: "ps_phase s' = ps_phase s"
    and pcs: "pub (ps_pc s' t) = pub (ps_pc s t)" "des (ps_pc s' t) = des (ps_pc s t)" "pre (ps_pc s' t) = pre (ps_pc s t)"
    and gr: "\<And>a. \<not> alive s a \<Longrightarrow> granted s' t a \<Longrightarrow> granted s t a"
    and idt: "ps_id s t \<noteq> 0 \<Longrightarrow> ps_id s' t = ps_id s t"
    and cnt: "\<And>a. cnt s' t a = cnt s t a" and me: "thread_ok N D s' t"
  shows "pin_inv N D s'"
proof (rule inv_step [OF inv same wf slots _ _ _ gr idt])
  have gr2: "granted s w a" if "\<not> alive s a" "granted s' w a" for w a using gr [OF that(1)] that(2) same [of w] by (cases "w = t") (auto simp: granted_def)
  have pcs2: "pub (ps_pc s' u) = pub (ps_pc s u)" "des (ps_pc s' u) = des (ps_pc s u)" "pre (ps_pc s' u) = pre (ps_pc s u)" for u using pcs same [of u] by (cases "u = t"; auto)+
  show "slot_ok s' a" for a by (rule slot_frame [of s a]) (use inv mem pcs2 ph gr2 in \<open>auto simp: pin_inv_def\<close>)
  show "count_ok N s'"
  proof (rule count_frame [of N s])
    show "count_ok N s" using inv by (simp add: pin_inv_def)
    show "cnt s' u a = cnt s u a" for u a using cnt same [of u] by (cases "u = t") (auto simp: cnt_def)
    show "ps_id s u \<noteq> 0 \<Longrightarrow> ps_id s' u = ps_id s u" for u using idt same [of u] by (cases "u = t") auto
    show "ps_id s u = 0 \<Longrightarrow> cnt s u a = 0" for u a using id_zero(1) [of N D s u a] inv by (auto simp: pin_inv_def)
  qed (use mem in auto)
  show "thread_ok N D s' t" by (rule me)
qed (use lk mem ph in \<open>auto simp: owned_def\<close>)

section \<open>The steps of a call\<close>

definition moved :: "pin_sys \<Rightarrow> nat \<Rightarrow> pin_mem \<Rightarrow> 32 word \<Rightarrow> pin_pc \<Rightarrow> pin_sys" where
  "moved s t M i pc = s\<lparr>ps_mem := M, ps_id := (ps_id s)(t := i), ps_pc := (ps_pc s)(t := pc)\<rparr>"

lemma moved_fields [simp]:
  "ps_mem (moved s t M i pc) = M" "ps_id (moved s t M i pc) = (ps_id s)(t := i)" "ps_pc (moved s t M i pc) = (ps_pc s)(t := pc)"
  "ps_held (moved s t M i pc) = ps_held s" "ps_phase (moved s t M i pc) = ps_phase s" "ps_lock (moved s t M i pc) = ps_lock s"
  by (simp_all add: moved_def)

lemma moved_owned [simp]: "owned (moved s t M i pc) = owned s"
  by (intro ext) (simp add: owned_def)

lemma moved_granted: "granted (moved s t M i pc) u a \<longleftrightarrow> (\<exists>h p. (h, p) \<in> set (ps_held s u) \<and> hidx h = a) \<or> gpc (if u = t then pc else ps_pc s u) a"
  by (simp add: granted_def)

lemma moved_granted_eq: "gpc pc = gpc (ps_pc s t) \<Longrightarrow> granted (moved s t M i pc) u a = granted s u a"
  by (simp add: granted_def)

lemma inv_parts:
  assumes "pin_inv N D s"
  shows "table_wf (pm_table (ps_mem s))" "count_ok N s" "slot_ok s a" "thread_ok N D s t" "pc_ok (N * D) s t" "held_ok s t"
    "length (ps_held s t) + flight (ps_pc s t) \<le> D" "ps_pc s t \<noteq> Idle \<Longrightarrow> t < N" "writer (ps_pc s t) \<Longrightarrow> ps_lock s = Some t"
  using assms by (auto simp: pin_inv_def thread_ok_def) (meson not_le)

lemma moved_thread:
  assumes inv: "pin_inv N D s" and "ps_pc s t \<noteq> Idle" "ps_id s t \<noteq> 0 \<Longrightarrow> i = ps_id s t"
    and "\<And>a. ld_stripes s a \<noteq> None \<Longrightarrow> load_stripes M a \<noteq> None"
    and "writer pc \<Longrightarrow> writer (ps_pc s t)" "flight pc \<le> flight (ps_pc s t)" "pc_ok (N * D) (moved s t M i pc) t"
  shows "thread_ok N D (moved s t M i pc) t"
  using assms(2-) inv_parts(6-9) [OF inv, of t] by (auto simp: thread_ok_def held_ok_def)

lemma work_quiet:
  assumes inv: "pin_inv N D s" and pc: "ps_pc s t \<noteq> Idle"
    and i: "ps_id s t \<noteq> 0 \<Longrightarrow> i = ps_id s t"
    and wf: "table_wf (pm_table M)"
    and mem: "\<And>a. load_state M a = ld_state s a" "\<And>a. load_ptr M a = ld_ptr s a" "\<And>a. load_stripes M a = ld_stripes s a"
    and slots: "\<And>a. has_slot (ps_mem s) a \<Longrightarrow> has_slot M a"
    and wr: "\<And>a. \<not> writer (ps_pc s t) \<Longrightarrow> has_slot M a \<Longrightarrow> has_slot (ps_mem s) a"
    and pcs: "pub pc = pub (ps_pc s t)" "des pc = des (ps_pc s t)" "pre pc = pre (ps_pc s t)"
    and gr: "\<And>a. \<not> alive s a \<Longrightarrow> gpc pc a \<Longrightarrow> gpc (ps_pc s t) a"
    and cnt: "\<And>a. cntp pc a = cntp (ps_pc s t) a"
    and w: "writer pc \<Longrightarrow> writer (ps_pc s t)" and f: "flight pc \<le> flight (ps_pc s t)" and ok: "pc_ok (N * D) (moved s t M i pc) t"
  shows "pin_inv N D (moved s t M i pc)"
proof (rule quiet_step [OF inv, of t])
  have str: "\<And>a. ld_stripes s a \<noteq> None \<Longrightarrow> load_stripes M a \<noteq> None" unfolding mem(3) .
  show "thread_ok N D (moved s t M i pc) t" by (rule moved_thread [OF inv pc i str w f ok])
  show "ps_lock (moved s t M i pc) = Some u \<and> (\<forall>a. has_slot (ps_mem (moved s t M i pc)) a \<longrightarrow> has_slot (ps_mem s) a)" if "u \<noteq> t" "ps_lock s = Some u" for u
    using that wr inv_parts(9) [OF inv, of t] by auto
qed (use wf mem slots pcs i gr cnt in \<open>auto simp: granted_def cnt_def\<close>)

lemmas pin_step_defs = pin_step_def ccol_pintable_pin_def ccol_pintable_unpin_def ccol_pintable_pins_def ccol_pintable_publish_def ccol_pintable_retire_def

lemma next_loads [simp]:
  "load_state (M\<lparr>pm_next := n\<rparr>) a = load_state M a" "load_ptr (M\<lparr>pm_next := n\<rparr>) a = load_ptr M a" "load_stripes (M\<lparr>pm_next := n\<rparr>) a = load_stripes M a"
  "has_slot (M\<lparr>pm_next := n\<rparr>) a = has_slot M a"
  "load_state (M\<lparr>pm_heap := h\<rparr>) a = load_state M a" "load_ptr (M\<lparr>pm_heap := h\<rparr>) a = load_ptr M a" "load_stripes (M\<lparr>pm_heap := h\<rparr>) a = load_stripes M a"
  "has_slot (M\<lparr>pm_heap := h\<rparr>) a = has_slot M a"
  by (simp_all add: load_state_def load_ptr_def load_stripes_def has_slot_def)

lemma moved_ld: "ld_stripes (moved s t M i pc) a = load_stripes M a"
  by simp

lemma stripe_self_nonzero: "pin_stripe_self i n = (j, m) \<Longrightarrow> j \<noteq> 0 \<and> (i \<noteq> 0 \<longrightarrow> j = i)"
  by (auto simp: pin_stripe_self_def pin_stripe_claim_def Let_def split: if_splits)

text \<open>A granted pin is on a full slot.\<close>

lemma granted_full:
  assumes inv: "pin_inv N D s" and "granted s t (hidx h)" "owned s h p"
  shows "ld_ptr s (hidx h) = p" "p \<noteq> 0"
proof -
  have ok: "slot_ok s (hidx h)" using inv by (simp add: pin_inv_def)
  consider (live) "ps_phase s (hidx h) = Live (handle_gen h) p" | (dying) "ps_phase s (hidx h) = Dying (handle_gen h) p" using assms(3) by (auto simp: owned_def)
  then have "ld_ptr s (hidx h) = p \<and> p \<noteq> 0"
  proof cases
    case live
    then show ?thesis using ok assms(2) unfolding slot_ok_phase(2) [OF live] by (auto simp: full_def)
  next
    case dying
    show ?thesis using dying_full [OF ok dying] by (auto simp: full_def)
  qed
  then show "ld_ptr s (hidx h) = p" "p \<noteq> 0" by auto
qed

text \<open>A live state word is the one of a published object.\<close>

lemma alive_phase:
  assumes inv: "pin_inv N D s" and "ld_state s (hidx h) = pin_state (handle_gen h) True"
  shows "\<exists>p. owned s h p"
proof (cases "ps_phase s (hidx h)")
  case Vacant
  have "slot_ok s (hidx h)" using inv by (simp add: pin_inv_def)
  then show ?thesis using assms(2) unfolding slot_ok_phase(1) [OF Vacant] by (simp add: alive_def pin_state_alive)
next
  case (Live g p)
  have "slot_ok s (hidx h)" using inv by (simp add: pin_inv_def)
  then have "full s (hidx h) g p True" using assms(2) unfolding slot_ok_phase(2) [OF Live] by (auto simp: alive_def pin_state_alive)
  then have "pin_state g True = pin_state (handle_gen h) True" using assms(2) by (metis full_def)
  then have "g = handle_gen h" using pin_state_inj by blast
  then show ?thesis using Live by (auto simp: owned_def)
next
  case (Dying g p)
  have "slot_ok s (hidx h)" using inv by (simp add: pin_inv_def)
  then obtain l where "full s (hidx h) g p l" using dying_full(1) [OF _ Dying] by blast
  then have "pin_state g l = pin_state (handle_gen h) True" using assms(2) by (metis full_def)
  then have "g = handle_gen h" using pin_state_inj by blast
  then show ?thesis using Dying by (auto simp: owned_def)
qed

lemma pin_call_inv:
  assumes inv: "pin_inv N D s" and st: "ccol_pintable_pin (ps_id s t) (ps_mem s) (ps_pc s t) = Some (M, i, pc)"
    and "\<nexists>h a. ps_pc s t = Pin_Add h a" "\<nexists>h a. ps_pc s t = Pin_Undo h a"
  shows "pin_inv N D (moved s t M i pc)"
proof -
  note parts = inv_parts(1) [OF inv] inv_parts(5) [OF inv, of t]
  note quiet = work_quiet [OF inv, of t]
  show ?thesis
  proof (cases "ps_pc s t")
    case (Pin_Enter h)
    then show ?thesis using st parts(1) by (intro quiet) (auto simp: ccol_pintable_pin_def pc_ok_def lookup_eq hidx_def split: if_splits)
  next
    case (Pin_State h a)
    then show ?thesis using st parts by (intro quiet) (auto simp: ccol_pintable_pin_def pc_ok_def split: if_splits)
  next
    case (Pin_Stripes h a)
    then show ?thesis using st parts by (intro quiet) (auto simp: ccol_pintable_pin_def pc_ok_def split: if_splits)
  next
    case (Pin_Self h a)
    then show ?thesis using st parts by (intro quiet) (auto simp: ccol_pintable_pin_def pc_ok_def dest!: stripe_self_nonzero split: if_splits prod.splits)
  next
    case (Pin_Check h a)
    have "\<exists>p. owned s h p" if "ld_state s a = pin_state (handle_gen h) True" using alive_phase [OF inv, of h] that Pin_Check parts(2) by (simp add: pc_ok_def)
    then show ?thesis using st parts Pin_Check by (intro quiet) (auto simp: ccol_pintable_pin_def pc_ok_def alive_def pin_state_alive split: if_splits)
  next
    case (Pin_Ptr h a)
    then have "granted s t (hidx h)" "\<exists>p. owned s h p" using parts(2) by (auto simp: granted_def pc_ok_def)
    then obtain p where p: "owned s h p" "ld_ptr s (hidx h) = p" "p \<noteq> 0" using granted_full [OF inv] by blast
    then show ?thesis using st parts Pin_Ptr by (intro quiet) (auto simp: ccol_pintable_pin_def pc_ok_def split: if_splits)
  qed (use st assms(3,4) in \<open>auto simp: ccol_pintable_pin_def\<close>)
qed

lemma stripe_of_less: "stripe_of i < CCOL_PIN_STRIPES"
  by (simp add: stripe_of_def pin_sizes)

lemma count_add:
  assumes inv: "pin_inv N D s" and pc: "ps_pc s t \<noteq> Idle" "ps_id s t \<noteq> 0" and a: "ld_stripes s a = Some (k, cs)"
    and s': "s' = moved s t (add_count d (stripe_of (ps_id s t)) a (ps_mem s)) (ps_id s t) pc"
    and cnt: "\<And>b. (of_nat (cntp pc b) :: 64 word) = of_nat (cntp (ps_pc s t) b) + (if b = a then d else 0)"
  shows "count_ok N s'"
proof -
  let ?i = "stripe_of (ps_id s t)"
  have t: "t < N" using inv_parts(8) [OF inv pc(1)] .
  have id: "ps_id s' = ps_id s" using s' by simp
  have cnt_t: "(of_nat (cnt s' t b) :: 64 word) = of_nat (cnt s t b) + (if b = a then d else 0)" for b
    using cnt [of b] s' by (simp add: cnt_def)
  have others: "cnt s' u b = cnt s u b" if "u \<noteq> t" for u b using that s' by (simp add: cnt_def)
  have tot: "(of_nat (pin_sum N s' b i) :: 64 word) = of_nat (pin_sum N s b i) + (if b = a \<and> i = ?i then d else 0)" for b i
  proof -
    have "contrib s' b i u = contrib s b i u" if "u \<noteq> t" for u using others [OF that] id by (simp add: contrib_def)
    from pin_sum_upd [OF t this] have "(of_nat (pin_sum N s' b i + contrib s b i t) :: 64 word) = of_nat (pin_sum N s b i + contrib s' b i t)" by metis
    moreover have "(of_nat (contrib s' b i t) :: 64 word) = of_nat (contrib s b i t) + (if b = a \<and> i = ?i then d else 0)"
      using cnt_t [of b] id pc(2) by (auto simp: contrib_def)
    ultimately show ?thesis by (simp add: algebra_simps)
  qed
  have ld: "ld_stripes s' b = (if b = a then Some (k, cs[?i := cs ! ?i + d]) else ld_stripes s b)" for b
    using add_count_loads(4) [OF inv_parts(1) [OF inv] a] s' by simp
  have ok: "count_ok N s" using inv_parts(2) [OF inv] .
  have old: "length cs = CCOL_PIN_STRIPES" "\<forall>i < CCOL_PIN_STRIPES. cs ! i = of_nat (pin_sum N s a i)" using ok a by (auto simp: count_ok_def)
  show ?thesis unfolding count_ok_def
  proof (intro allI conjI impI)
    fix b u assume "ld_stripes s' b = None"
    then have "b \<noteq> a" "ld_stripes s b = None" using ld [of b] by (auto split: if_splits)
    then have z: "\<forall>u. cnt s u b = 0" using ok by (simp add: count_ok_def)
    show "cnt s' u b = 0"
    proof (cases "u = t")
      case True
      have "(of_nat (cntp pc b) :: 64 word) = 0" using cnt [of b] z \<open>b \<noteq> a\<close> by (simp add: cnt_def)
      then have "cntp pc b = 0" by (cases pc) auto
      then show ?thesis using True z s' by (simp add: cnt_def)
    qed (use others z in simp)
  next
    fix b k' cs' i assume b: "ld_stripes s' b = Some (k', cs')"
    show "length cs' = CCOL_PIN_STRIPES" using b ld [of b] old(1) ok by (auto simp: count_ok_def split: if_splits)
    assume i: "i < CCOL_PIN_STRIPES"
    show "cs' ! i = of_nat (pin_sum N s' b i)"
      using b ld [of b] old i ok tot [of b i] stripe_of_less [of "ps_id s t"] by (auto simp: count_ok_def nth_list_update split: if_splits)
  qed
qed

lemma work_count:
  assumes inv: "pin_inv N D s" and pc: "ps_pc s t \<noteq> Idle" "ps_id s t \<noteq> 0" and a: "ld_stripes s a \<noteq> None"
    and M: "M = add_count d (stripe_of (ps_id s t)) a (ps_mem s)"
    and cnt: "\<And>b. (of_nat (cntp pc b) :: 64 word) = of_nat (cntp (ps_pc s t) b) + (if b = a then d else 0)"
    and pcs: "pub pc = None" "pub (ps_pc s t) = None" "des pc = None" "des (ps_pc s t) = None" "\<not> writer pc"
    and gr: "\<And>a. \<not> gpc pc a" and f: "flight pc \<le> flight (ps_pc s t)"
    and ok: "pc_ok (N * D) (moved s t M (ps_id s t) pc) t"
  shows "pin_inv N D (moved s t M (ps_id s t) pc)"
proof -
  let ?s = "moved s t M (ps_id s t) pc"
  obtain k cs where st: "ld_stripes s a = Some (k, cs)" using a by auto
  note ld = add_count_loads [OF inv_parts(1) [OF inv] st, of d "stripe_of (ps_id s t)", folded M]
  have str: "\<And>b. ld_stripes s b \<noteq> None \<Longrightarrow> load_stripes M b \<noteq> None" unfolding ld(4) by simp
  have gr2: "\<And>u b. granted ?s u b \<Longrightarrow> granted s u b" using gr by (auto simp: granted_def split: if_splits)
  show ?thesis
  proof (rule inv_step [OF inv, of t])
    show "count_ok N ?s" by (rule count_add [OF inv pc st _ cnt]) (simp add: M)
    show "slot_ok ?s b" for b by (rule slot_frame [OF inv_parts(3) [OF inv]]) (use ld str pcs gr2 in auto)
    show "thread_ok N D ?s t" by (rule moved_thread [OF inv pc(1) _ str _ f ok]) (use pcs in auto)
  qed (use ld str gr2 st in auto)
qed

lemma pin_call_count_inv:
  assumes inv: "pin_inv N D s" and st: "ccol_pintable_pin (ps_id s t) (ps_mem s) (ps_pc s t) = Some (M, i, pc)"
    and "(\<exists>h a. ps_pc s t = Pin_Add h a) \<or> (\<exists>h a. ps_pc s t = Pin_Undo h a)"
  shows "pin_inv N D (moved s t M i pc)"
proof -
  note ok = inv_parts(5) [OF inv, of t]
  have str: "load_stripes (add_count d j b (ps_mem s)) b \<noteq> None" if "ld_stripes s b \<noteq> None" for d j b
    using that add_count_loads(4) [OF inv_parts(1) [OF inv]] by auto
  consider (add) h a where "ps_pc s t = Pin_Add h a" | (undo) h a where "ps_pc s t = Pin_Undo h a" using assms(3) by blast
  then show ?thesis
  proof cases
    case add
    have i: "i = ps_id s t" "M = add_count 1 (stripe_of (ps_id s t)) a (ps_mem s)" "pc = Pin_Check h a" using st add by (auto simp: ccol_pintable_pin_def)
    show ?thesis unfolding i(1) by (rule work_count [OF inv _ _ _ i(2)]) (use add ok str i in \<open>auto simp: pc_ok_def\<close>)
  next
    case undo
    have i: "i = ps_id s t" "M = add_count (- 1) (stripe_of (ps_id s t)) a (ps_mem s)" "pc = Pin_Ret h 0" using st undo by (auto simp: ccol_pintable_pin_def)
    show ?thesis unfolding i(1) by (rule work_count [OF inv _ _ _ i(2)]) (use undo ok str i in \<open>auto simp: pc_ok_def\<close>)
  qed
qed

lemma unpin_call_inv:
  assumes inv: "pin_inv N D s" and st: "ccol_pintable_unpin (ps_id s t) (ps_mem s) (ps_pc s t) = Some (M, i, pc)"
  shows "pin_inv N D (moved s t M i pc)"
proof -
  note parts = inv_parts(1) [OF inv] inv_parts(5) [OF inv, of t]
  note quiet = work_quiet [OF inv, of t]
  show ?thesis
  proof (cases "ps_pc s t")
    case (Unpin_Enter h)
    then have "slot_at (pm_table (ps_mem s)) (unat (handle_idx h)) \<noteq> None" using parts(2) stripes_has_slot by (fastforce simp: pc_ok_def hidx_def has_slot_def)
    then show ?thesis using st parts Unpin_Enter by (intro quiet) (auto simp: ccol_pintable_unpin_def pc_ok_def lookup_eq hidx_def split: if_splits)
  next
    case (Unpin_Stripes h a)
    then show ?thesis using st parts by (intro quiet) (auto simp: ccol_pintable_unpin_def pc_ok_def split: if_splits)
  next
    case (Unpin_Self h a)
    then show ?thesis using st parts by (intro quiet) (auto simp: ccol_pintable_unpin_def pc_ok_def dest!: stripe_self_nonzero split: if_splits prod.splits)
  next
    case (Unpin_Sub h a)
    have i: "i = ps_id s t" "M = add_count (- 1) (stripe_of (ps_id s t)) a (ps_mem s)" "pc = Unpin_Ret h" using st Unpin_Sub by (auto simp: ccol_pintable_unpin_def)
    show ?thesis unfolding i(1) by (rule work_count [OF inv _ _ _ i(2)]) (use Unpin_Sub parts i in \<open>auto simp: pc_ok_def\<close>)
  qed (use st in \<open>auto simp: ccol_pintable_unpin_def\<close>)
qed

text \<open>Reading the counters of a slot that is being destroyed.\<close>

lemma pins_read_step:
  assumes inv: "pin_inv N D s" and small: "8 * (N * D) < 2 ^ 63" and pc: "ps_pc s t = Pins_Read idx a k acc" and k: "k < CCOL_PIN_STRIPES" and st: "ld_stripes s a \<noteq> None"
  shows "unat (acc + load_count (ps_mem s) a k) \<le> (k + 1) * (N * D)"
    "acc + load_count (ps_mem s) a k = 0 \<Longrightarrow> ps_id s u \<noteq> 0 \<Longrightarrow> stripe_of (ps_id s u) < k + 1 \<Longrightarrow> \<not> granted s u a"
proof -
  let ?n = "pin_sum N s a k" and ?B = "N * D"
  have ok: "unat acc \<le> k * ?B" "acc = 0 \<Longrightarrow> ps_id s u \<noteq> 0 \<Longrightarrow> stripe_of (ps_id s u) < k \<Longrightarrow> \<not> granted s u a" for u
    using inv_parts(5) [OF inv, of t] pc by (auto simp: pc_ok_def)
  have c: "load_count (ps_mem s) a k = of_nat ?n" using inv_parts(2) [OF inv] st k by (auto simp: count_ok_def load_count_def)
  have n: "?n \<le> ?B" by (rule pin_sum_le) (use inv_parts(4) [OF inv] in blast)
  have kb: "(k + 1) * ?B \<le> 8 * ?B" using k by (intro mult_le_mono1) (simp add: pin_sizes)
  then have "k * ?B + ?n \<le> 8 * ?B" using n by (simp only: add_mult_distrib mult_1)
  then have "unat acc + ?n \<le> 8 * ?B" using ok(1) by linarith
  then have "unat acc + ?n < 2 ^ 63" using small by (rule le_less_trans)
  then have lt: "unat acc + ?n < 2 ^ 64" by simp
  then have u: "unat (acc + of_nat ?n) = unat acc + ?n" by (simp add: unat_word_ariths unat_of_nat take_bit_nat_eq_self_iff)
  show "unat (acc + load_count (ps_mem s) a k) \<le> (k + 1) * ?B" unfolding c u using ok(1) n by simp
  assume z: "acc + load_count (ps_mem s) a k = 0" and w: "ps_id s u \<noteq> 0" "stripe_of (ps_id s u) < k + 1"
  have "unat acc + ?n = 0" using u z c by simp
  then have zero: "acc = 0" "?n = 0" by (simp_all add: unat_eq_zero)
  show "\<not> granted s u a"
  proof (cases "stripe_of (ps_id s u) = k")
    case True
    show ?thesis
    proof (cases "u < N")
      case un: True
      then have "contrib s a k u = 0" using zero(2) by (simp add: pin_sum_def)
      then show ?thesis using True w(1) granted_cnt [of s u a] by (auto simp: contrib_def)
    next
      case False
      then show ?thesis using inv_parts(4) [OF inv, of u] by (simp add: thread_ok_def granted_def)
    qed
  next
    case False
    then show ?thesis using ok(2) [OF zero(1) w(1)] w(2) by simp
  qed
qed

lemma pins_total_zero: "unat acc < 2 ^ 63 \<Longrightarrow> pins_total acc = 0 \<Longrightarrow> acc = 0"
proof -
  assume a: "unat acc < 2 ^ 63" "pins_total acc = 0"
  have u: "uint acc = int (unat acc)" by simp
  have "sint acc = signed_take_bit 63 (uint acc)" by (simp add: sint_uint)
  also have "\<dots> = int (unat acc)" using a(1) unfolding u by (intro signed_take_bit_int_eq_self) (simp_all del: of_nat_unat)
  finally have "sint acc = int (unat acc)" .
  then show "acc = 0" using a(2) by (cases "unat acc = 0") (simp_all add: pins_total_def unat_eq_zero del: of_nat_unat split: if_splits)
qed

lemma dying_stripes:
  assumes inv: "pin_inv N D s" and "des (ps_pc s t) = Some a"
  shows "ld_stripes s a \<noteq> None" "slot_at (pm_table (ps_mem s)) a \<noteq> None"
proof -
  have ok: "slot_ok s a" using inv by (simp add: pin_inv_def)
  show "ld_stripes s a \<noteq> None"
  proof (cases "ps_phase s a")
    case Vacant
    then show ?thesis using ok assms(2) slot_ok_phase(1) by blast
  next
    case (Live g p)
    then show ?thesis using ok assms(2) slot_ok_phase(2) by blast
  next
    case (Dying g p)
    show ?thesis using dying_full(1) [OF ok Dying] by (auto simp: full_def)
  qed
  from stripes_has_slot [OF this] show "slot_at (pm_table (ps_mem s)) a \<noteq> None" by (simp add: has_slot_def)
qed

lemma pins_call_inv:
  assumes inv: "pin_inv N D s" and small: "8 * (N * D) < 2 ^ 63" and st: "ccol_pintable_pins (ps_mem s) (ps_pc s t) = Some pc"
  shows "pin_inv N D (moved s t (ps_mem s) (ps_id s t) pc)"
proof -
  note parts = inv_parts(1) [OF inv] inv_parts(5) [OF inv, of t]
  note quiet = work_quiet [OF inv, of t]
  show ?thesis
  proof (cases "ps_pc s t")
    case (Pins_Enter idx)
    then have "slot_at (pm_table (ps_mem s)) (unat idx) \<noteq> None" using dying_stripes(2) [OF inv, of t] by simp
    then show ?thesis using st parts Pins_Enter by (intro quiet) (auto simp: ccol_pintable_pins_def pc_ok_def lookup_eq split: if_splits)
  next
    case (Pins_Stripes idx a)
    then have "ld_stripes s (unat idx) \<noteq> None" using dying_stripes(1) [OF inv, of t] by simp
    then show ?thesis using st parts Pins_Stripes by (intro quiet) (auto simp: ccol_pintable_pins_def pc_ok_def pin_sizes split: if_splits)
  next
    case (Pins_Read idx a k acc)
    have ok: "a = unat idx" "k \<le> CCOL_PIN_STRIPES" "unat acc \<le> k * (N * D)" "acc = 0 \<Longrightarrow> ps_id s u \<noteq> 0 \<Longrightarrow> stripe_of (ps_id s u) < k \<Longrightarrow> \<not> granted s u a" for u
      using parts(2) Pins_Read by (auto simp: pc_ok_def)
    have str: "ld_stripes s a \<noteq> None" using dying_stripes(1) [OF inv, of t] Pins_Read ok(1) by simp
    have gr: "granted (moved s t (ps_mem s) (ps_id s t) pc) u b = granted s u b" for u b
      using st Pins_Read by (intro moved_granted_eq ext) (auto simp: ccol_pintable_pins_def split: if_splits)
    have "pc_ok (N * D) (moved s t (ps_mem s) (ps_id s t) pc) t"
    proof (cases "k < CCOL_PIN_STRIPES")
      case True
      then have pc: "pc = Pins_Read idx a (k + 1) (acc + load_count (ps_mem s) a k)" using st Pins_Read by (simp add: ccol_pintable_pins_def)
      show ?thesis using pins_read_step [OF inv small Pins_Read True str] ok(1) True gr unfolding pc_ok_def pc by simp
    next
      case False
      then have pc: "pc = Pins_Ret idx (pins_total acc)" and k: "k = CCOL_PIN_STRIPES" using st Pins_Read ok(2) by (simp_all add: ccol_pintable_pins_def)
      have "unat acc \<le> 8 * (N * D)" using ok(3) k by (simp add: pin_sizes)
      then have "unat acc < 2 ^ 63" using small by (rule le_less_trans)
      then have "\<not> granted s u (unat idx)" if "pins_total acc = 0" for u
        using pins_total_zero that ok(1,4) k stripe_of_less [of "ps_id s u"] id_zero(2) [OF inv_parts(4) [OF inv], of u] by (cases "ps_id s u = 0") auto
      then show ?thesis using gr unfolding pc_ok_def pc by simp
    qed
    then show ?thesis using st Pins_Read parts(1) by (intro quiet) (auto simp: ccol_pintable_pins_def split: if_splits)
  qed (use st in \<open>auto simp: ccol_pintable_pins_def\<close>)
qed

text \<open>The slot that is being published is in the hands of one thread.\<close>

lemma pub_writer: "pub pc \<noteq> None \<Longrightarrow> writer pc"
  by (cases pc) auto

lemma pub_slot:
  assumes inv: "pin_inv N D s" and pub: "pub (ps_pc s t) = Some (a, g, p)"
  shows "ps_phase s a = Live g p" "p \<noteq> 0" "\<not> alive s a" "\<not> granted s u a" "des (ps_pc s u) \<noteq> Some a"
proof -
  have ok: "slot_ok s a" using inv by (simp add: pin_inv_def)
  have n: "\<not> no_pub s a" using pub by (auto simp: no_pub_def)
  show ph: "ps_phase s a = Live g p"
  proof (cases "ps_phase s a")
    case Vacant
    then show ?thesis using ok n slot_ok_phase(1) by blast
  next
    case (Dying g' p')
    then show ?thesis using ok n slot_ok_phase(3) by blast
  next
    case (Live g' p')
    then obtain u where u: "pub (ps_pc s u) = Some (a, g', p')" using ok n slot_ok_phase(2) by blast
    then have "u = t" using pub pub_writer inv_parts(9) [OF inv] by (metis option.distinct(1) option.inject)
    then show ?thesis using u pub Live by simp
  qed
  show "p \<noteq> 0" "\<not> alive s a" "\<not> granted s u a" "des (ps_pc s u) \<noteq> Some a" using ok n slot_ok_phase(2) [OF ph] by blast+
qed

lemma pub_unique:
  assumes inv: "pin_inv N D s" and "pub (ps_pc s t) = Some x" "pub (ps_pc s u) = Some y"
  shows "u = t"
  using assms(2,3) pub_writer inv_parts(9) [OF inv] by (metis option.distinct(1) option.inject)

text \<open>A slot that a step has nothing to do with.\<close>

lemma slot_other:
  assumes ok: "slot_ok s b" and ld: "ld_state s' b = ld_state s b" "ld_ptr s' b = ld_ptr s b" "ld_stripes s b \<noteq> None \<Longrightarrow> ld_stripes s' b \<noteq> None"
    and ph: "ps_phase s' b = ps_phase s b" and pcs: "\<And>u. u \<noteq> t \<Longrightarrow> ps_pc s' u = ps_pc s u"
    and pub: "\<And>g p. pub (ps_pc s' t) \<noteq> Some (b, g, p)" "\<And>g p. pub (ps_pc s t) \<noteq> Some (b, g, p)"
    and des: "des (ps_pc s' t) \<noteq> Some b" "des (ps_pc s t) \<noteq> Some b" and gr: "\<And>u. granted s' u b = granted s u b"
  shows "slot_ok s' b"
proof -
  have p: "pub (ps_pc s' u) = Some (b, g, p) \<longleftrightarrow> pub (ps_pc s u) = Some (b, g, p)" "des (ps_pc s' u) = Some b \<longleftrightarrow> des (ps_pc s u) = Some b" for u g p
    using pub des pcs [of u] by (cases "u = t"; simp)+
  have al: "alive s' b = alive s b" using ld by (simp add: alive_def)
  have np: "no_pub s' b = no_pub s b" using p(1) by (simp add: no_pub_def)
  have fu: "full s b g p l \<Longrightarrow> full s' b g p l" for g p l using ld by (auto simp: full_def)
  show ?thesis
  proof (cases "ps_phase s b")
    case Vacant
    show ?thesis using ok p(2) gr al np unfolding slot_ok_phase(1) [OF Vacant] slot_ok_phase(1) [OF Vacant [folded ph]] by simp
  next
    case (Live g q)
    show ?thesis using ok p gr al np fu unfolding slot_ok_phase(2) [OF Live] slot_ok_phase(2) [OF Live [folded ph]] by simp blast
  next
    case (Dying g q)
    obtain u where u: "q \<noteq> 0" "no_pub s b" "des (ps_pc s u) = Some b" "full s b g q (pre (ps_pc s u))" "\<forall>w. des (ps_pc s w) = Some b \<longrightarrow> w = u"
      using ok unfolding slot_ok_phase(3) [OF Dying] by blast
    have ut: "u \<noteq> t" using des(2) u(3) by metis
    have "w = u" if "des (ps_pc s' w) = Some b" for w using that p(2) [of w] u(5) by simp
    moreover have "des (ps_pc s' u) = Some b" "full s' b g q (pre (ps_pc s' u))" using fu [OF u(4)] u(3) pcs [OF ut] by simp_all
    ultimately show ?thesis using u(1,2) np unfolding slot_ok_phase(3) [OF Dying [folded ph]] by blast
  qed
qed

text \<open>A store of the thread that holds the lock.\<close>

lemma work_store:
  assumes inv: "pin_inv N D s" and w: "writer (ps_pc s t)"
    and wf: "table_wf (pm_table M)" and slots: "\<And>a. has_slot (ps_mem s) a \<Longrightarrow> has_slot M a"
    and str: "\<And>a. ld_stripes s a \<noteq> None \<Longrightarrow> load_stripes M a \<noteq> None"
    and pcs: "\<And>b. \<not> gpc pc b" "\<And>b. \<not> gpc (ps_pc s t) b" "flight pc \<le> flight (ps_pc s t)"
    and cnt: "count_ok N (moved s t M (ps_id s t) pc)" and slot: "slot_ok (moved s t M (ps_id s t) pc) a"
    and other: "\<And>b. b \<noteq> a \<Longrightarrow> load_state M b = ld_state s b \<and> load_ptr M b = ld_ptr s b
       \<and> (\<forall>g p. pub pc \<noteq> Some (b, g, p) \<and> pub (ps_pc s t) \<noteq> Some (b, g, p)) \<and> (des pc \<noteq> Some b \<and> des (ps_pc s t) \<noteq> Some b)"
    and ok: "pc_ok (N * D) (moved s t M (ps_id s t) pc) t"
  shows "pin_inv N D (moved s t M (ps_id s t) pc)"
proof (rule inv_step [OF inv, of t])
  let ?s = "moved s t M (ps_id s t) pc"
  have idle: "ps_pc s t \<noteq> Idle" using w by auto
  have lock: "ps_lock s = Some t" using inv_parts(9) [OF inv w] .
  have gr: "granted ?s u b = granted s u b" for u b using pcs(1,2) by (simp add: granted_def)
  show "thread_ok N D ?s t" by (rule moved_thread [OF inv idle _ str _ pcs(3) ok]) (use w in auto)
  show "slot_ok ?s b" for b
  proof (cases "b = a")
    case False
    show ?thesis by (rule slot_other [OF inv_parts(3) [OF inv], where t = t]) (use other [OF False] str gr in auto)
  qed (use slot in simp)
  show "ps_lock ?s = Some u \<and> (\<forall>a. ld_state ?s a = ld_state s a \<and> ld_ptr ?s a = ld_ptr s a \<and> (ld_stripes s a = None \<longrightarrow> ld_stripes ?s a = None) \<and> (has_slot (ps_mem ?s) a \<longrightarrow> has_slot (ps_mem s) a))"
    if "u \<noteq> t" "ps_lock s = Some u" for u using that lock by simp
  show "granted s t b" if "granted ?s t b" for b using that gr by simp
qed (use wf slots str cnt in auto)

lemma count_same:
  assumes inv: "pin_inv N D s" and "\<And>a. load_stripes M a = ld_stripes s a" "\<And>a. cntp pc a = cntp (ps_pc s t) a"
  shows "count_ok N (moved s t M (ps_id s t) pc)"
proof (rule count_frame [OF inv_parts(2) [OF inv]])
  show "cnt (moved s t M (ps_id s t) pc) u a = cnt s u a" for u a using assms(3) by (simp add: cnt_def)
  show "ps_id s u = 0 \<Longrightarrow> cnt s u a = 0" for u a using id_zero(1) [OF inv_parts(4) [OF inv]] by blast
qed (use assms(2) in auto)

lemma publish_quiet_inv:
  assumes inv: "pin_inv N D s" and st: "ccol_pintable_publish (ps_mem s) (ps_pc s t) = Some (M, pc)"
    and "(\<exists>idx g p. ps_pc s t = Publish_Enter idx g p) \<or> (\<exists>idx g p b. ps_pc s t = Publish_Chunk idx g p b) \<or> (\<exists>idx g p. ps_pc s t = Publish_Stripes idx g p)"
  shows "pin_inv N D (moved s t M (ps_id s t) pc)"
proof -
  note parts = inv_parts(1) [OF inv] inv_parts(5) [OF inv, of t]
  have len: "length (pt_chunks (pm_table (ps_mem s))) = CCOL_PIN_MAX_CHUNKS" using parts(1) by (simp add: table_wf_def)
  note quiet = work_quiet [OF inv, of t]
  show ?thesis
  proof (cases "ps_pc s t")
    case (Publish_Enter idx g p)
    have "pc_ok (N * D) (moved s t M (ps_id s t) pc) t" using st Publish_Enter len
      by (auto simp: ccol_pintable_publish_def pc_ok_def has_slot_def slot_at_def split: if_splits option.splits prod.splits)
    then show ?thesis using st parts(1) Publish_Enter
      by (intro quiet) (auto simp: ccol_pintable_publish_def split: if_splits option.splits prod.splits)
  next
    case (Publish_Chunk idx g p b)
    let ?c = "unat idx div CCOL_PIN_CHUNK_SLOTS"
    have c: "?c < CCOL_PIN_MAX_CHUNKS" "pt_chunks (pm_table (ps_mem s)) ! ?c = None"
      using parts(2) Publish_Chunk len by (auto simp: pc_ok_def has_slot_def slot_at_def split: option.splits)
    have e: "M = put_chunk b ?c (ps_mem s)" "pc = Publish_Stripes idx g p" using st Publish_Chunk by (auto simp: ccol_pintable_publish_def)
    show ?thesis using put_chunk_loads [OF parts(1) c, where k = b] Publish_Chunk unfolding e by (intro quiet) (auto simp: pc_ok_def)
  next
    case (Publish_Stripes idx g p)
    have "pc_ok (N * D) (moved s t M (ps_id s t) pc) t" using st Publish_Stripes parts
      by (cases "ld_stripes s (unat idx)") (auto simp: ccol_pintable_publish_def pc_ok_def split: if_splits option.splits prod.splits)
    then show ?thesis using st parts(1) Publish_Stripes
      by (intro quiet) (auto simp: ccol_pintable_publish_def split: if_splits option.splits prod.splits)
  qed (use assms(3) in auto)
qed

lemma publish_block_inv:
  assumes inv: "pin_inv N D s" and pc: "ps_pc s t = Publish_Block idx g p b"
    and M: "M = store_slot (\<lambda>sl. sl\<lparr>sl_stripes := Some (b, replicate CCOL_PIN_STRIPES 0)\<rparr>) (unat idx) (ps_mem s)"
  shows "pin_inv N D (moved s t M (ps_id s t) (Publish_Ptr idx g p))"
proof -
  let ?a = "unat idx" and ?s = "moved s t M (ps_id s t) (Publish_Ptr idx g p)"
  have ok: "has_slot (ps_mem s) ?a" "ld_stripes s ?a = None" using inv_parts(5) [OF inv, of t] pc by (auto simp: pc_ok_def)
  note ld = store_stripes_loads [OF inv_parts(1) [OF inv] ok(1), of "Some (b, replicate CCOL_PIN_STRIPES 0)", folded M]
  note sl = store_slot_loads [OF inv_parts(1) [OF inv] ok(1), of "\<lambda>sl. sl\<lparr>sl_stripes := Some (b, replicate CCOL_PIN_STRIPES 0)\<rparr>", folded M]
  have cs: "cnt ?s u c = cnt s u c" for u c using pc by (simp add: cnt_def)
  have co: "contrib ?s c i u = contrib s c i u" for c i u using cs by (simp add: contrib_def)
  have zero: "cnt s u ?a = 0" for u using inv_parts(2) [OF inv] ok(2) by (simp add: count_ok_def)
  have z: "pin_sum N ?s ?a i = 0" "pin_sum N ?s c i = pin_sum N s c i" for i c using zero co by (simp_all add: pin_sum_def contrib_def [of s ?a])
  have cnt: "count_ok N ?s" using inv_parts(2) [OF inv] z zero cs unfolding count_ok_def by (auto simp: ld split: if_splits)
  note pub = pub_slot [OF inv, of t ?a g p]
  have slot: "slot_ok ?s ?a" by (rule slot_frame [OF inv_parts(3) [OF inv]]) (use ld pc in \<open>auto simp: granted_def split: if_splits\<close>)
  show ?thesis by (rule work_store [OF inv _ sl(3) _ _ _ _ _ cnt slot]) (use pc ld sl(1) in \<open>auto simp: pc_ok_def\<close>)
qed

lemma publish_ptr_inv:
  assumes inv: "pin_inv N D s" and pc: "ps_pc s t = Publish_Ptr idx g p"
    and M: "M = store_slot (\<lambda>sl. sl\<lparr>sl_ptr := p\<rparr>) (unat idx) (ps_mem s)"
  shows "pin_inv N D (moved s t M (ps_id s t) (Publish_State idx g p))"
proof -
  let ?a = "unat idx" and ?s = "moved s t M (ps_id s t) (Publish_State idx g p)"
  have str: "ld_stripes s ?a \<noteq> None" using inv_parts(5) [OF inv, of t] pc by (auto simp: pc_ok_def)
  note ld = store_ptr_loads [OF inv_parts(1) [OF inv] stripes_has_slot [OF str], of p, folded M]
  note sl = store_slot_loads [OF inv_parts(1) [OF inv] stripes_has_slot [OF str], of "\<lambda>sl. sl\<lparr>sl_ptr := p\<rparr>", folded M]
  have pub: "pub (ps_pc s t) = Some (?a, g, p)" using pc by simp
  note ps = pub_slot [OF inv pub]
  have cnt: "count_ok N ?s" by (rule count_same [OF inv]) (use ld pc in auto)
  have ph: "ps_phase ?s ?a = Live g p" using ps(1) by simp
  have "pub (ps_pc ?s t) = Some (?a, g, p)" "\<not> alive ?s ?a" "\<not> granted ?s u ?a" "des (ps_pc ?s u) \<noteq> Some ?a" for u
    using ps(3-5) ld pc by (auto simp: alive_def granted_def)
  then have slot: "slot_ok ?s ?a" using ps(2) unfolding slot_ok_phase(2) [OF ph] by blast
  show ?thesis by (rule work_store [OF inv _ sl(3) _ _ _ _ _ cnt slot]) (use pc ld sl(1) str in \<open>auto simp: pc_ok_def\<close>)
qed

lemma publish_state_inv:
  assumes inv: "pin_inv N D s" and pc: "ps_pc s t = Publish_State idx g p"
    and M: "M = store_slot (\<lambda>sl. sl\<lparr>sl_state := pin_state g True\<rparr>) (unat idx) (ps_mem s)"
  shows "pin_inv N D (moved s t M (ps_id s t) (Publish_Ret idx g p True))"
proof -
  let ?a = "unat idx" and ?s = "moved s t M (ps_id s t) (Publish_Ret idx g p True)"
  have str: "ld_stripes s ?a \<noteq> None" "ld_ptr s ?a = p" using inv_parts(5) [OF inv, of t] pc by (auto simp: pc_ok_def)
  note ld = store_state_loads [OF inv_parts(1) [OF inv] stripes_has_slot [OF str(1)], of "pin_state g True", folded M]
  note sl = store_slot_loads [OF inv_parts(1) [OF inv] stripes_has_slot [OF str(1)], of "\<lambda>sl. sl\<lparr>sl_state := pin_state g True\<rparr>", folded M]
  have pub: "pub (ps_pc s t) = Some (?a, g, p)" using pc by simp
  note ps = pub_slot [OF inv pub]
  have cnt: "count_ok N ?s" by (rule count_same [OF inv]) (use ld pc in auto)
  have ph: "ps_phase ?s ?a = Live g p" using ps(1) by simp
  have "full ?s ?a g p True" using ld str by (simp add: full_def)
  moreover have "no_pub ?s ?a" using pub_unique [OF inv pub] by (auto simp: no_pub_def)
  moreover have "des (ps_pc ?s u) \<noteq> Some ?a" for u using ps(5) by simp
  ultimately have slot: "slot_ok ?s ?a" using ps(2) unfolding slot_ok_phase(2) [OF ph] by blast
  show ?thesis by (rule work_store [OF inv _ sl(3) _ _ _ _ _ cnt slot]) (use pc ld sl(1) str in \<open>auto simp: pc_ok_def\<close>)
qed

lemma publish_call_inv:
  assumes inv: "pin_inv N D s" and st: "ccol_pintable_publish (ps_mem s) (ps_pc s t) = Some (M, pc)"
  shows "pin_inv N D (moved s t M (ps_id s t) pc)"
proof (cases "ps_pc s t")
  case (Publish_Block idx g p b)
  then show ?thesis using publish_block_inv [OF inv Publish_Block] st by (auto simp: ccol_pintable_publish_def)
next
  case (Publish_Ptr idx g p)
  then show ?thesis using publish_ptr_inv [OF inv Publish_Ptr] st by (auto simp: ccol_pintable_publish_def)
next
  case (Publish_State idx g p)
  then show ?thesis using publish_state_inv [OF inv Publish_State] st by (auto simp: ccol_pintable_publish_def)
qed (use publish_quiet_inv [OF inv st] st in \<open>auto simp: ccol_pintable_publish_def\<close>)

lemma retire_call_inv:
  assumes inv: "pin_inv N D s" and st: "ccol_pintable_retire (ps_mem s) (ps_pc s t) = Some (M, pc)"
  shows "pin_inv N D (moved s t M (ps_id s t) pc)"
proof -
  note parts = inv_parts(1) [OF inv] inv_parts(5) [OF inv, of t]
  note quiet = work_quiet [OF inv, of t]
  show ?thesis
  proof (cases "ps_pc s t")
    case (Retire_Enter idx)
    then have "slot_at (pm_table (ps_mem s)) (unat idx) \<noteq> None" using dying_stripes(2) [OF inv, of t] by simp
    then show ?thesis using st parts Retire_Enter by (intro quiet) (auto simp: ccol_pintable_retire_def pc_ok_def lookup_eq split: if_splits)
  next
    case (Retire_Load idx a)
    then show ?thesis using st parts by (intro quiet) (auto simp: ccol_pintable_retire_def pc_ok_def split: if_splits)
  next
    case (Retire_Store idx a v)
    let ?s = "moved s t M (ps_id s t) pc"
    have a: "a = unat idx" "v = ld_state s a" using parts(2) Retire_Store by (auto simp: pc_ok_def)
    have e: "M = store_slot (\<lambda>sl. sl\<lparr>sl_state := v AND NOT 1\<rparr>) a (ps_mem s)" "pc = Retire_Ret idx" using st Retire_Store by (auto simp: ccol_pintable_retire_def)
    have des: "des (ps_pc s t) = Some a" using Retire_Store a(1) by simp
    have str: "ld_stripes s a \<noteq> None" using dying_stripes(1) [OF inv des] .
    note ld = store_state_loads [OF parts(1) stripes_has_slot [OF str], of "v AND NOT 1", folded e(1)]
    note sl = store_slot_loads [OF parts(1) stripes_has_slot [OF str], of "\<lambda>sl. sl\<lparr>sl_state := v AND NOT 1\<rparr>", folded e(1)]
    have cnt: "count_ok N ?s" by (rule count_same [OF inv]) (use ld e Retire_Store in auto)
    have ok: "slot_ok s a" using inv by (simp add: pin_inv_def)
    obtain g p where ph: "ps_phase s a = Dying g p" using ok des slot_ok_phase(1,2) by (metis phase.exhaust)
    obtain u where u: "p \<noteq> 0" "no_pub s a" "des (ps_pc s u) = Some a" "full s a g p (pre (ps_pc s u))" "\<forall>w. des (ps_pc s w) = Some a \<longrightarrow> w = u"
      using ok unfolding slot_ok_phase(3) [OF ph] by blast
    have ut: "u = t" using u(5) des by blast
    have "full ?s a g p (pre (ps_pc ?s t))" using u(4) ld e(2) a(2) pin_state_retire by (simp add: full_def)
    moreover have "w = t" if "des (ps_pc ?s w) = Some a" for w using that u(5) ut by (cases "w = t") auto
    moreover have "no_pub ?s a" using u(2) e(2) by (auto simp: no_pub_def)
    moreover have "ps_phase ?s a = Dying g p" "des (ps_pc ?s t) = Some a" using ph e(2) a(1) by simp_all
    ultimately have slot: "slot_ok ?s a" using u(1) slot_ok_phase(3) [of ?s a g p] by blast
    show ?thesis by (rule work_store [OF inv _ sl(3) _ _ _ _ _ cnt slot]) (use Retire_Store ld sl(1) e(2) a(1) in \<open>auto simp: pc_ok_def\<close>)
  qed (use st in \<open>auto simp: ccol_pintable_retire_def\<close>)
qed

lemma work_inv:
  assumes inv: "pin_inv N D s" and small: "8 * (N * D) < 2 ^ 63" and st: "pin_step (ps_id s t) (ps_mem s) (ps_pc s t) = Some (M, i, pc)"
  shows "pin_inv N D (moved s t M i pc)"
proof -
  consider (pin) "ccol_pintable_pin (ps_id s t) (ps_mem s) (ps_pc s t) = Some (M, i, pc)" | (unpin) "ccol_pintable_unpin (ps_id s t) (ps_mem s) (ps_pc s t) = Some (M, i, pc)"
    | (pins) "ccol_pintable_pins (ps_mem s) (ps_pc s t) = Some pc" "M = ps_mem s" "i = ps_id s t"
    | (publish) "ccol_pintable_publish (ps_mem s) (ps_pc s t) = Some (M, pc)" "i = ps_id s t" | (retire) "ccol_pintable_retire (ps_mem s) (ps_pc s t) = Some (M, pc)" "i = ps_id s t"
    using st by (auto simp: pin_step_def split: option.splits)
  then show ?thesis
  proof cases
    case pin
    then show ?thesis using pin_call_inv [OF inv pin] pin_call_count_inv [OF inv pin] by blast
  next
    case pins
    then show ?thesis using pins_call_inv [OF inv small pins(1)] by simp
  qed (use unpin_call_inv [OF inv] publish_call_inv [OF inv] retire_call_inv [OF inv] in auto)
qed

section \<open>The calls and returns\<close>

text \<open>A rule that only starts or ends a call, or moves a pin between the call and the list of its thread.\<close>

lemma client_quiet:
  assumes inv: "pin_inv N D s"
    and s': "s' = s\<lparr>ps_pc := (ps_pc s)(t := pc), ps_held := (ps_held s)(t := hs), ps_lock := l\<rparr>"
    and lk: "\<And>u. u \<noteq> t \<Longrightarrow> ps_lock s = Some u \<Longrightarrow> l = Some u" "writer pc \<Longrightarrow> l = Some t"
    and pcs: "pub pc = pub (ps_pc s t)" "des pc = des (ps_pc s t)" "pre pc = pre (ps_pc s t)"
    and gr: "\<And>a. granted s' t a \<Longrightarrow> granted s t a" and cnt: "\<And>a. cnt s' t a = cnt s t a"
    and ok: "pc_ok (N * D) s' t" "held_ok s' t" "length hs + flight pc \<le> D" "N \<le> t \<Longrightarrow> pc = Idle \<and> hs = []"
  shows "pin_inv N D s'"
  by (rule quiet_step [OF inv, of t]) (use s' lk pcs gr cnt ok inv_parts(1) [OF inv] in \<open>auto simp: thread_ok_def\<close>)

lemma client_phase:
  assumes inv: "pin_inv N D s" and s': "s' = s\<lparr>ps_pc := (ps_pc s)(t := pc), ps_lock := l, ps_phase := (ps_phase s)(a := ph)\<rparr>"
    and lk: "\<And>u. u \<noteq> t \<Longrightarrow> ps_lock s = Some u \<Longrightarrow> l = Some u" "writer pc \<Longrightarrow> l = Some t"
    and pcs: "\<And>b. \<not> gpc pc b" "\<And>b. \<not> gpc (ps_pc s t) b" "\<And>b. cntp pc b = 0" "\<And>b. cntp (ps_pc s t) b = 0" "flight pc \<le> flight (ps_pc s t)" "t < N"
    and other: "\<And>b. b \<noteq> a \<Longrightarrow> (\<forall>g p. pub pc \<noteq> Some (b, g, p) \<and> pub (ps_pc s t) \<noteq> Some (b, g, p)) \<and> des pc \<noteq> Some b \<and> des (ps_pc s t) \<noteq> Some b"
    and own: "\<And>u h p. owned s h p \<Longrightarrow> granted s u (hidx h) \<Longrightarrow> owned s' h p"
    and slot: "slot_ok s' a" and ok: "pc_ok (N * D) s' t"
  shows "pin_inv N D s'"
proof (rule inv_step [OF inv, of t])
  have gr: "granted s' u b = granted s u b" for u b using pcs(1,2) s' by (simp add: granted_def)
  show "slot_ok s' b" for b
  proof (cases "b = a")
    case False
    show ?thesis by (rule slot_other [OF inv_parts(3) [OF inv], where t = t]) (use other [OF False] gr s' False in auto)
  qed (use slot in simp)
  show "count_ok N s'"
  proof (rule count_frame [OF inv_parts(2) [OF inv]])
    show "cnt s' u b = cnt s u b" for u b using pcs(3,4) s' by (simp add: cnt_def)
    show "ps_id s u = 0 \<Longrightarrow> cnt s u b = 0" for u b using id_zero(1) [OF inv_parts(4) [OF inv]] by blast
  qed (use s' in auto)
  have "held_ok s' t" using inv_parts(6) [OF inv, of t] own [of _ _ t] s' by (auto simp: held_ok_def granted_def) blast+
  then show "thread_ok N D s' t" using ok lk(2) pcs(5,6) inv_parts(7) [OF inv, of t] s' by (simp add: thread_ok_def)
  show "granted s t b" if "granted s' t b" for b using that gr by simp
qed (use own s' lk inv_parts(1) [OF inv] in auto)

lemma publish_rule_inv:
  assumes inv: "pin_inv N D s" and t: "t < N" "ps_pc s t = Idle" "ps_lock s = None" "ps_phase s (unat idx) = Vacant" "p \<noteq> 0"
  shows "pin_inv N D (s\<lparr>ps_pc := (ps_pc s)(t := Publish_Enter idx g p), ps_lock := Some t, ps_phase := (ps_phase s)(unat idx := Live g p)\<rparr>)" (is "pin_inv N D ?s")
proof -
  let ?a = "unat idx"
  have old: "\<not> alive s ?a" "\<forall>u. \<not> granted s u ?a \<and> des (ps_pc s u) \<noteq> Some ?a" using inv_parts(3) [OF inv, of ?a] slot_ok_phase(1) [OF t(4)] by blast+
  have ph: "ps_phase ?s ?a = Live g p" by simp
  have "\<not> alive ?s ?a" "pub (ps_pc ?s t) = Some (?a, g, p)" using old(1) by (simp_all add: alive_def)
  moreover have "\<not> granted ?s u ?a" "des (ps_pc ?s u) \<noteq> Some ?a" for u using old(2) by (auto simp: granted_def)
  ultimately have slot: "slot_ok ?s ?a" using t(5) unfolding slot_ok_phase(2) [OF ph] by blast
  have own: "owned ?s h q" if "owned s h q" "granted s u (hidx h)" for u h q using that old(2) by (auto simp: owned_def)
  show ?thesis by (rule client_phase [OF inv refl _ _ _ _ _ _ _ _ _ own slot]) (use t in \<open>auto simp: pc_ok_def\<close>)
qed

lemma publish_failed_inv:
  assumes inv: "pin_inv N D s" and pc: "ps_pc s t = Publish_Ret idx g p False"
  shows "pin_inv N D (s\<lparr>ps_pc := (ps_pc s)(t := Idle), ps_lock := None, ps_phase := (ps_phase s)(unat idx := Vacant)\<rparr>)" (is "pin_inv N D ?s")
proof -
  let ?a = "unat idx"
  have pub: "pub (ps_pc s t) = Some (?a, g, p)" and t: "t < N" "ps_lock s = Some t" using pc inv_parts(8,9) [OF inv, of t] by simp_all
  note old = pub_slot [OF inv pub]
  have ph: "ps_phase ?s ?a = Vacant" by simp
  have "\<not> alive ?s ?a" using old(3) by (simp add: alive_def)
  moreover have "\<not> granted ?s u ?a \<and> des (ps_pc ?s u) \<noteq> Some ?a" for u using old(4,5) [of u] by (auto simp: granted_def)
  moreover have "no_pub ?s ?a" using pub_unique [OF inv pub] by (auto simp: no_pub_def)
  ultimately have slot: "slot_ok ?s ?a" unfolding slot_ok_phase(1) [OF ph] by blast
  have own: "owned ?s h q" if "owned s h q" "granted s u (hidx h)" for u h q using that old(4) by (auto simp: owned_def)
  show ?thesis by (rule client_phase [OF inv refl _ _ _ _ _ _ _ _ _ own slot]) (use t pc in \<open>auto simp: pc_ok_def\<close>)
qed

lemma destroy_rule_inv:
  assumes inv: "pin_inv N D s" and t: "t < N" "ps_pc s t = Idle" "ps_lock s = None" "ps_phase s (unat idx) = Live g p"
  shows "pin_inv N D (s\<lparr>ps_pc := (ps_pc s)(t := Retire_Enter idx), ps_lock := Some t, ps_phase := (ps_phase s)(unat idx := Dying g p)\<rparr>)" (is "pin_inv N D ?s")
proof -
  let ?a = "unat idx"
  have np: "pub (ps_pc s u) = None" for u using inv_parts(9) [OF inv, of u] pub_writer [of "ps_pc s u"] t(3) by (cases "pub (ps_pc s u)") auto
  then have nb: "no_pub s ?a" "no_pub ?s ?a" by (auto simp: no_pub_def)
  have old: "p \<noteq> 0" "\<forall>u. des (ps_pc s u) \<noteq> Some ?a" "full s ?a g p True" using inv_parts(3) [OF inv, of ?a] np unfolding slot_ok_phase(2) [OF t(4)] by auto
  have ph: "ps_phase ?s ?a = Dying g p" by simp
  have "des (ps_pc ?s t) = Some ?a" "full ?s ?a g p (pre (ps_pc ?s t))" using old(3) by (simp_all add: full_def)
  moreover have "\<forall>u. des (ps_pc ?s u) = Some ?a \<longrightarrow> u = t" using old(2) by auto
  ultimately have slot: "slot_ok ?s ?a" using old(1) nb(2) unfolding slot_ok_phase(3) [OF ph] by blast
  have own: "owned ?s h q" if "owned s h q" "granted s u (hidx h)" for u h q using that t(4) by (auto simp: owned_def)
  show ?thesis by (rule client_phase [OF inv refl _ _ _ _ _ _ _ _ _ own slot]) (use t in \<open>auto simp: pc_ok_def\<close>)
qed

lemma freed_rule_inv:
  assumes inv: "pin_inv N D s" and pc: "ps_pc s t = Pins_Ret idx 0"
  shows "pin_inv N D (s\<lparr>ps_pc := (ps_pc s)(t := Idle), ps_phase := (ps_phase s)(unat idx := Vacant)\<rparr>)"
proof -
  let ?a = "unat idx" and ?s = "s\<lparr>ps_pc := (ps_pc s)(t := Idle), ps_lock := ps_lock s, ps_phase := (ps_phase s)(unat idx := Vacant)\<rparr>"
  have t: "t < N" "des (ps_pc s t) = Some ?a" using pc inv_parts(8) [OF inv, of t] by simp_all
  have gr: "\<not> granted s u ?a" for u using inv_parts(5) [OF inv, of t] pc by (simp add: pc_ok_def)
  have ok: "slot_ok s ?a" using inv_parts(3) [OF inv] .
  have al: "\<not> alive s ?a" using pins_not_alive [OF ok t(2)] pc by simp
  obtain g p where ph: "ps_phase s ?a = Dying g p" using ok t(2) slot_ok_phase(1,2) by (metis phase.exhaust)
  have old: "no_pub s ?a" "\<exists>w. \<forall>u. des (ps_pc s u) = Some ?a \<longrightarrow> u = w" using ok unfolding slot_ok_phase(3) [OF ph] by blast+
  then have uniq: "\<forall>u. des (ps_pc s u) = Some ?a \<longrightarrow> u = t" using t(2) by metis
  have ph': "ps_phase ?s ?a = Vacant" by simp
  have "\<not> alive ?s ?a" using al by (simp add: alive_def)
  moreover have "\<not> granted ?s u ?a \<and> des (ps_pc ?s u) \<noteq> Some ?a" for u using gr [of u] uniq pc by (auto simp: granted_def)
  moreover have "no_pub ?s ?a" using old(1) by (auto simp: no_pub_def)
  ultimately have slot: "slot_ok ?s ?a" unfolding slot_ok_phase(1) [OF ph'] by blast
  have own: "owned ?s h q" if "owned s h q" "granted s u (hidx h)" for u h q using that gr by (auto simp: owned_def)
  have "pin_inv N D ?s" by (rule client_phase [OF inv refl _ _ _ _ _ _ _ _ _ own slot]) (use t pc in \<open>auto simp: pc_ok_def\<close>)
  then show ?thesis by simp
qed

lemma pin_step_inv:
  assumes "pin_inv N D s" "8 * (N * D) < 2 ^ 63" "pin_sys_step N D s s'"
  shows "pin_inv N D s'"
  using assms(3)
proof cases
  case (work t M i pc)
  then show ?thesis using work_inv [OF assms(1,2) work(2)] by (simp add: moved_def)
next
  case (pin t h)
  show ?thesis
    by (rule client_quiet [OF assms(1), where t = t and pc = "Pin_Enter h" and hs = "ps_held s t" and l = "ps_lock s"])
      (use pin inv_parts(6) [OF assms(1), of t] in \<open>auto simp: granted_def cnt_def pc_ok_def held_ok_def owned_def\<close>)
next
  case (pinned t h p)
  have ok: "pc_ok (N * D) s t" "held_ok s t" "length (ps_held s t) + flight (ps_pc s t) \<le> D" using inv_parts(5-7) [OF assms(1)] by blast+
  have "t < N" using inv_parts(8) [OF assms(1), of t] pinned by simp
  then show ?thesis
    by (intro client_quiet [OF assms(1), where t = t and pc = Idle and hs = "(h, p) # ps_held s t" and l = "ps_lock s"])
      (use pinned ok in \<open>auto simp: granted_def cnt_def pc_ok_def held_ok_def owned_def\<close>)
next
  case (not_pinned t h)
  show ?thesis
    by (rule client_quiet [OF assms(1), where t = t and pc = Idle and hs = "ps_held s t" and l = "ps_lock s"])
      (use not_pinned inv_parts(4,6,7) [OF assms(1), of t] in \<open>auto simp: granted_def cnt_def pc_ok_def held_ok_def owned_def thread_ok_def\<close>)
next
  case (unpinned t h)
  show ?thesis
    by (rule client_quiet [OF assms(1), where t = t and pc = Idle and hs = "ps_held s t" and l = "ps_lock s"])
      (use unpinned inv_parts(4,6,7) [OF assms(1), of t] in \<open>auto simp: granted_def cnt_def pc_ok_def held_ok_def owned_def thread_ok_def\<close>)
next
  case (unpin t h p)
  have ok: "held_ok s t" "length (ps_held s t) + flight (ps_pc s t) \<le> D" "ps_held s t \<noteq> []" using inv_parts(6,7) [OF assms(1), of t] unpin by auto
  have tn: "t < N" using inv_parts(4) [OF assms(1), of t] ok(3) by (auto simp: thread_ok_def not_le [symmetric])
  have len: "length (remove1 (h, p) (ps_held s t)) + 1 \<le> D" using ok(2,3) unpin by (simp add: length_remove1)
  have sub: "x \<in> set (remove1 (h, p) (ps_held s t)) \<Longrightarrow> x \<in> set (ps_held s t)" for x using set_remove1_subset by fastforce
  have ho: "held_ok s' t" unfolding held_ok_def using ok(1) [unfolded held_ok_def] sub unpin(1) by (simp add: owned_def) blast
  have po: "pc_ok (N * D) s' t" using ok(1) unpin by (auto simp: pc_ok_def held_ok_def)
  have gr: "granted s' t a \<Longrightarrow> granted s t a" for a using unpin(1) sub by (simp add: granted_def) blast
  have f: "length (filter (\<lambda>(h, p). hidx h = a) (remove1 (h, p) (ps_held s t))) + of_bool (hidx h = a) = length (filter (\<lambda>(h, p). hidx h = a) (ps_held s t))" for a
  proof -
    have "filter (\<lambda>(h, p). hidx h = a) (remove1 (h, p) (ps_held s t)) = remove1 (h, p) (filter (\<lambda>(h, p). hidx h = a) (ps_held s t))"
      by (rule filter_remove1)
    moreover have "length (filter (\<lambda>(h, p). hidx h = a) (ps_held s t)) > 0" if "hidx h = a" using unpin(3) that by (auto simp: filter_empty_conv)
    ultimately show ?thesis using unpin(3) by (auto simp: length_remove1)
  qed
  show ?thesis
    by (rule client_quiet [OF assms(1), where t = t and pc = "Unpin_Enter h" and hs = "remove1 (h, p) (ps_held s t)" and l = "ps_lock s"])
      (use unpin tn len f gr ho po in \<open>auto simp: cnt_def\<close>)
next
  case (retired t idx)
  have "ps_lock s = Some t" using inv_parts(9) [OF assms(1), of t] retired by simp
  then show ?thesis
    by (intro client_quiet [OF assms(1), where t = t and pc = "Pins_Enter idx" and hs = "ps_held s t" and l = None])
      (use retired inv_parts(4,6,7) [OF assms(1), of t] in \<open>auto simp: granted_def cnt_def pc_ok_def held_ok_def owned_def thread_ok_def\<close>)
next
  case (poll_again t idx n)
  show ?thesis
    by (rule client_quiet [OF assms(1), where t = t and pc = "Pins_Enter idx" and hs = "ps_held s t" and l = "ps_lock s"])
      (use poll_again inv_parts(4,6,7) [OF assms(1), of t] in \<open>auto simp: granted_def cnt_def pc_ok_def held_ok_def owned_def thread_ok_def\<close>)
next
  case (publish t idx p g)
  then show ?thesis using publish_rule_inv [OF assms(1)] by simp
next
  case (published t idx g p ok)
  show ?thesis
  proof (cases ok)
    case True
    have "t < N" "ps_lock s = Some t" using inv_parts(8,9) [OF assms(1), of t] published by simp_all
    then show ?thesis
      by (intro client_quiet [OF assms(1), where t = t and pc = Idle and hs = "ps_held s t" and l = None])
        (use published True inv_parts(6,7) [OF assms(1), of t] in \<open>auto simp: granted_def cnt_def pc_ok_def held_ok_def owned_def\<close>)
  next
    case False
    then show ?thesis using publish_failed_inv [OF assms(1), of t idx g p] published by simp
  qed
next
  case (destroy t idx g p)
  then show ?thesis using destroy_rule_inv [OF assms(1)] by simp
next
  case (freed t idx)
  then show ?thesis using freed_rule_inv [OF assms(1)] by simp
qed

lemma pin_start_inv: "pin_inv N D (pin_start h)"
proof -
  have e: "slot_at empty_pintable a = None" for a by (simp add: slot_at_def empty_pintable_def)
  then have z: "load_state (ps_mem (pin_start h)) a = 0" "load_stripes (ps_mem (pin_start h)) a = None" for a
    by (simp_all add: pin_start_def load_state_def load_stripes_def)
  show ?thesis using z
    by (auto simp: pin_inv_def pin_start_def table_wf_def empty_pintable_def count_ok_def cnt_def slot_ok_def alive_def no_pub_def granted_def
        thread_ok_def pc_ok_def held_ok_def)
qed

lemma pin_reachable_inv: "pin_reachable N D s \<Longrightarrow> 8 * (N * D) < 2 ^ 63 \<Longrightarrow> pin_inv N D s"
  by (induction rule: pin_reachable.induct) (auto intro: pin_start_inv pin_step_inv)

end
