(* ===== verification/CCol_Pintable_Props.thy ===== *)
theory CCol_Pintable_Props
  imports CCol_Pintable_Spec
begin

text \<open>
  What the pin table promises its owner: a held pin keeps its object, a destroy ends once the
  pins are released, no call waits for another, and the table gives back its memory.
\<close>

unbundle bit_operations_syntax

section \<open>The steps a call has left\<close>

fun call_left :: "pin_pc \<Rightarrow> nat" where
  "call_left (Pin_Enter h) = 7"
| "call_left (Pin_State h a) = 6"
| "call_left (Pin_Stripes h a) = 5"
| "call_left (Pin_Self h a) = 4"
| "call_left (Pin_Add h a) = 3"
| "call_left (Pin_Check h a) = 2"
| "call_left (Pin_Undo h a) = 1"
| "call_left (Pin_Ptr h a) = 1"
| "call_left (Unpin_Enter h) = 4"
| "call_left (Unpin_Stripes h a) = 3"
| "call_left (Unpin_Self h a) = 2"
| "call_left (Unpin_Sub h a) = 1"
| "call_left (Pins_Enter idx) = 11"
| "call_left (Pins_Stripes idx a) = 10"
| "call_left (Pins_Read idx a k acc) = 1 + (8 - k)"
| "call_left (Publish_Enter idx g p) = 6"
| "call_left (Publish_Chunk idx g p b) = 5"
| "call_left (Publish_Stripes idx g p) = 4"
| "call_left (Publish_Block idx g p b) = 3"
| "call_left (Publish_Ptr idx g p) = 2"
| "call_left (Publish_State idx g p) = 1"
| "call_left (Retire_Enter idx) = 3"
| "call_left (Retire_Load idx a) = 2"
| "call_left (Retire_Store idx a st) = 1"
| "call_left _ = 0"

lemma call_left_le: "call_left pc \<le> 11"
  by (cases pc) auto

lemma call_left_step:
  assumes "pin_step i M pc = Some (M', i', pc')"
  shows "call_left pc' < call_left pc"
  using assms
  by (cases pc) (auto simp: pin_step_def ccol_pintable_pin_def ccol_pintable_unpin_def ccol_pintable_pins_def ccol_pintable_publish_def ccol_pintable_retire_def
      CCOL_PIN_STRIPES_def split: if_splits option.splits prod.splits)

section \<open>The poll of a destroy\<close>

text \<open>
  A call that counts at a slot or still may: a pin that has found the slot live, up to its
  end, and a release.  A slot is quiet when no thread holds a pin on it and none is in
  such a call; pins that have not yet looked at its state may be under way.
\<close>

fun touches :: "pin_pc \<Rightarrow> nat \<Rightarrow> bool" where
  "touches (Pin_Stripes h b) a \<longleftrightarrow> b = a"
| "touches (Pin_Self h b) a \<longleftrightarrow> b = a"
| "touches (Pin_Add h b) a \<longleftrightarrow> b = a"
| "touches (Pin_Check h b) a \<longleftrightarrow> b = a"
| "touches (Pin_Undo h b) a \<longleftrightarrow> b = a"
| "touches (Pin_Ptr h b) a \<longleftrightarrow> b = a"
| "touches (Pin_Ret h p) a \<longleftrightarrow> p \<noteq> 0 \<and> hidx h = a"
| "touches (Unpin_Enter h) a \<longleftrightarrow> hidx h = a"
| "touches (Unpin_Stripes h b) a \<longleftrightarrow> b = a"
| "touches (Unpin_Self h b) a \<longleftrightarrow> b = a"
| "touches (Unpin_Sub h b) a \<longleftrightarrow> b = a"
| "touches _ a \<longleftrightarrow> False"

definition slot_quiet :: "pin_sys \<Rightarrow> nat \<Rightarrow> bool" where
  "slot_quiet s a \<longleftrightarrow> (\<forall>u. \<not> touches (ps_pc s u) a) \<and> (\<forall>u h p. (h, p) \<in> set (ps_held s u) \<longrightarrow> hidx h \<noteq> a)"

text \<open>A poll of a slot that has read nothing but zeros.\<close>

fun poll_zero :: "32 word \<Rightarrow> pin_pc \<Rightarrow> bool" where
  "poll_zero idx (Pins_Enter i) \<longleftrightarrow> i = idx"
| "poll_zero idx (Pins_Stripes i a) \<longleftrightarrow> i = idx"
| "poll_zero idx (Pins_Read i a k acc) \<longleftrightarrow> i = idx \<and> acc = 0"
| "poll_zero idx (Pins_Ret i n) \<longleftrightarrow> i = idx \<and> n = 0"
| "poll_zero idx _ \<longleftrightarrow> False"

lemma poll_zero_des: "poll_zero idx pc \<Longrightarrow> des pc = Some (unat idx) \<and> \<not> pre pc"
  by (cases pc) auto

text \<open>A step of one call does not come to touch a slot that is no longer live.\<close>

lemma work_touches:
  assumes inv: "pin_inv N D s" and "\<not> alive s a" "\<not> touches (ps_pc s u) a"
    and st: "pin_step (ps_id s u) (ps_mem s) (ps_pc s u) = Some (M, i, pc)"
  shows "\<not> touches pc a"
proof -
  note ok = inv_parts(5) [OF inv, of u] lookup_eq [OF inv_parts(1) [OF inv]]
  have live: "ld_state s a \<noteq> pin_state g True" for g using assms(2) by (auto simp: alive_def pin_state_alive)
  show ?thesis using assms(3) st ok live
    by (cases "ps_pc s u") (auto simp: pin_step_defs pc_ok_def hidx_def split: if_splits option.splits prod.splits)
qed

lemma quiet_kept:
  assumes inv: "pin_inv N D s" and na: "\<not> alive s a" and q: "slot_quiet s a" and st: "pin_sys_step N D s s'"
  shows "slot_quiet s' a"
  using st
proof cases
  case (work u M i pc)
  have "\<not> touches (ps_pc s u) a" using q by (simp add: slot_quiet_def)
  from work_touches [OF inv na this work(2)] show ?thesis using q work(1) by (simp add: slot_quiet_def)
next
  case (unpin u h p)
  have sub: "set (remove1 (h, p) (ps_held s u)) \<subseteq> set (ps_held s u)" by (rule set_remove1_subset)
  have held: "hidx g \<noteq> a" if "(g, r) \<in> set (ps_held s w)" for g r w using q that by (auto simp: slot_quiet_def)
  have "\<not> touches (ps_pc s' w) a" for w using q held [OF unpin(3)] unpin(1) by (simp add: slot_quiet_def)
  moreover have "hidx g \<noteq> a" if "(g, r) \<in> set (ps_held s' w)" for g r w
    using that held sub unpin(1) by (cases "w = u") auto
  ultimately show ?thesis unfolding slot_quiet_def by blast
next
  case (pinned u h p)
  have "\<not> touches (ps_pc s u) a" using q by (simp add: slot_quiet_def)
  then show ?thesis using q pinned unfolding slot_quiet_def by (auto split: if_splits)
qed (use q in \<open>auto simp: slot_quiet_def split: if_splits\<close>)

lemma touches_cntp: "\<not> touches pc a \<Longrightarrow> cntp pc a = 0"
  by (cases pc) auto

lemma quiet_counts:
  assumes inv: "pin_inv N D s" and q: "slot_quiet s a" and "k < CCOL_PIN_STRIPES"
  shows "load_count (ps_mem s) a k = 0"
proof -
  have "cnt s u a = 0" for u
  proof -
    have "filter (\<lambda>(h, p). hidx h = a) (ps_held s u) = []" using q by (auto simp: slot_quiet_def filter_empty_conv)
    moreover have "\<not> touches (ps_pc s u) a" using q by (simp add: slot_quiet_def)
    ultimately show ?thesis by (simp add: cnt_def touches_cntp)
  qed
  then have "pin_sum N s a k = 0" by (simp add: pin_sum_def contrib_def)
  then show ?thesis using inv_parts(2) [OF inv] assms(3) by (auto simp: count_ok_def load_count_def split: option.splits)
qed

lemma poll_work:
  assumes inv: "pin_inv N D s" and q: "slot_quiet s (unat idx)" and z: "poll_zero idx (ps_pc s t)"
    and st: "pin_step (ps_id s t) (ps_mem s) (ps_pc s t) = Some (M, i, pc)"
  shows "poll_zero idx pc"
  using z st inv_parts(5) [OF inv, of t] quiet_counts [OF inv q]
  by (cases "ps_pc s t") (auto simp: pin_step_defs pc_ok_def pins_total_def split: if_splits option.splits)

lemma poll_kept:
  assumes inv: "pin_inv N D s" and q: "slot_quiet s (unat idx)" and z: "poll_zero idx (ps_pc s t)"
    and st: "pin_sys_step N D s s'" and ph: "ps_phase s' (unat idx) \<noteq> Vacant"
  shows "poll_zero idx (ps_pc s' t)"
  using st
proof cases
  case (work u M i pc)
  then show ?thesis using z poll_work [OF inv q z] by (cases "u = t") auto
qed (use z ph in auto)

text \<open>A step of the call that thread \<open>t\<close> is in.\<close>

definition own_step :: "nat \<Rightarrow> pin_sys \<Rightarrow> pin_sys \<Rightarrow> bool" where
  "own_step t s s' \<longleftrightarrow> (\<exists>M i pc. pin_step (ps_id s t) (ps_mem s) (ps_pc s t) = Some (M, i, pc) \<and> s' = moved s t M i pc)"

lemma own_step_sys: "own_step t s s' \<Longrightarrow> pin_sys_step N D s s'"
  by (auto simp: own_step_def moved_def intro: pin_sys_step.work)

lemma poll_alone:
  assumes small: "8 * (N * D) < 2 ^ 63"
  shows "pin_inv N D s \<Longrightarrow> slot_quiet s (unat idx) \<Longrightarrow> poll_zero idx (ps_pc s t) \<Longrightarrow>
     \<exists>k \<le> call_left (ps_pc s t). \<exists>s'. (own_step t ^^ k) s s' \<and> ps_pc s' t = Pins_Ret idx 0"
proof (induction "call_left (ps_pc s t)" arbitrary: s rule: less_induct)
  case less
  note inv = less.prems(1) and q = less.prems(2) and z = less.prems(3)
  show ?case
  proof (cases "ps_pc s t = Pins_Ret idx 0")
    case True
    then show ?thesis by (intro exI [of _ 0]) auto
  next
    case False
    then obtain M i pc where st: "pin_step (ps_id s t) (ps_mem s) (ps_pc s t) = Some (M, i, pc)"
      using z by (cases "ps_pc s t") (auto simp: pin_step_defs)
    let ?s = "moved s t M i pc"
    have own: "own_step t s ?s" using st by (auto simp: own_step_def)
    have na: "\<not> alive s (unat idx)" using pins_not_alive [OF inv_parts(3) [OF inv]] poll_zero_des [OF z] by blast
    have "call_left (ps_pc ?s t) < call_left (ps_pc s t)" using call_left_step [OF st] by simp
    moreover have "pin_inv N D ?s" by (rule work_inv [OF inv small st])
    moreover have "slot_quiet ?s (unat idx)" by (rule quiet_kept [OF inv na q own_step_sys [OF own]])
    moreover have "poll_zero idx (ps_pc ?s t)" using poll_work [OF inv q z st] by simp
    ultimately obtain k s' where k: "k \<le> call_left (ps_pc ?s t)" "(own_step t ^^ k) ?s s'" "ps_pc s' t = Pins_Ret idx 0"
      using less.hyps by blast
    have "(own_step t ^^ Suc k) s s'" using own k(2) relpowp_Suc_I2 by metis
    then show ?thesis using k(1,3) \<open>call_left (ps_pc ?s t) < call_left (ps_pc s t)\<close> by (intro exI [of _ "Suc k"]) auto
  qed
qed

text \<open>Any run up to the release of the slot keeps the poll at zero.\<close>

lemma poll_run:
  assumes small: "8 * (N * D) < 2 ^ 63" and "(\<lambda>x y. pin_sys_step N D x y \<and> ps_phase y (unat idx) \<noteq> Vacant)\<^sup>*\<^sup>* s s'"
    and "pin_inv N D s" "slot_quiet s (unat idx)" "poll_zero idx (ps_pc s t)"
  shows "pin_inv N D s' \<and> slot_quiet s' (unat idx) \<and> poll_zero idx (ps_pc s' t)"
  using assms(2)
proof (induction rule: rtranclp_induct)
  case (step x y)
  then have x: "pin_inv N D x" "slot_quiet x (unat idx)" "poll_zero idx (ps_pc x t)"
    and st: "pin_sys_step N D x y" "ps_phase y (unat idx) \<noteq> Vacant" by blast+
  have "\<not> alive x (unat idx)" using pins_not_alive [OF inv_parts(3) [OF x(1)]] poll_zero_des [OF x(3)] by blast
  then show ?case using pin_step_inv [OF x(1) small st(1)] quiet_kept [OF x(1) _ x(2) st(1)] poll_kept [OF x st] by blast
qed (use assms(3-5) in blast)

section \<open>The release of the table\<close>

definition slot_blocks :: "pin_slot list \<Rightarrow> nat set" where
  "slot_blocks slots = {b. \<exists>sl \<in> set slots. \<exists>cs. sl_stripes sl = Some (b, cs)}"

definition chunk_blocks :: "pin_chunk option \<Rightarrow> nat set" where
  "chunk_blocks c = (case c of None \<Rightarrow> {} | Some (b, slots) \<Rightarrow> insert b (slot_blocks slots))"

definition table_blocks :: "pintable \<Rightarrow> nat set" where
  "table_blocks T = (\<Union>c \<in> set (pt_chunks T). chunk_blocks c)"

lemma free_slots_live: "live (fold (\<lambda>sl. free_opt (map_option fst (sl_stripes sl))) slots h) = live h - slot_blocks slots"
  by (induction slots arbitrary: h) (auto simp: slot_blocks_def free_opt_def mem_free_def split: option.splits)

lemma dispose_fold:
  assumes "length (pt_chunks T) = CCOL_PIN_MAX_CHUNKS" "n \<le> CCOL_PIN_MAX_CHUNKS" "fold dispose_chunk [0..<n] (T, h) = (T', h')"
  shows "pt_chunks T' = replicate n None @ drop n (pt_chunks T) \<and> live h' = live h - (\<Union>c \<in> set (take n (pt_chunks T)). chunk_blocks c)"
  using assms(2,3)
proof (induction n arbitrary: T' h')
  case 0
  then show ?case by simp
next
  case (Suc n)
  obtain T1 h1 where f: "fold dispose_chunk [0..<n] (T, h) = (T1, h1)" by fastforce
  have i: "pt_chunks T1 = replicate n None @ drop n (pt_chunks T)" "live h1 = live h - (\<Union>c \<in> set (take n (pt_chunks T)). chunk_blocks c)"
    using Suc(1) [OF _ f] Suc(2) by simp_all
  have lt: "n < length (pt_chunks T)" using Suc(2) assms(1) by simp
  have nth: "pt_chunks T1 ! n = pt_chunks T ! n" using i(1) lt by (simp add: nth_append)
  have d: "drop n (pt_chunks T) = pt_chunks T ! n # drop (Suc n) (pt_chunks T)" using lt by (simp add: Cons_nth_drop_Suc)
  have st: "dispose_chunk n (T1, h1) = (T', h')" using Suc(3) f by simp
  have ch: "pt_chunks T' = replicate n None @ None # drop (Suc n) (pt_chunks T) \<and> live h' = live h1 - chunk_blocks (pt_chunks T ! n)"
    using st i(1) d nth free_slots_live
    by (auto simp: dispose_chunk_def chunk_blocks_def list_update_append mem_free_def split: option.splits)
  have t: "set (take (Suc n) (pt_chunks T)) = insert (pt_chunks T ! n) (set (take n (pt_chunks T)))" using lt by (simp add: take_Suc_conv_app_nth)
  show ?case using ch i(2) t by (auto simp: replicate_app_Cons_same)
qed

section \<open>Properties\<close>

text \<open>
  Claim C9.  No use after free.  Any number of threads pin and release handles, stale ones
  too, while the owner publishes, retires and frees objects, in every interleaving of the
  single atomic accesses.  A pin that a thread holds is on the object that was published
  with the handle's own generation, and that object is not freed: it is live, or retired
  with its destroyer still waiting.
\<close>

theorem pintable_no_use_after_free:
  assumes "pin_reachable N D s" "8 * (N * D) < 2 ^ 63" "(h, p) \<in> set (ps_held s t)"
  shows "p \<noteq> 0 \<and> load_ptr (ps_mem s) (unat (handle_idx h)) = p
    \<and> (ps_phase s (unat (handle_idx h)) = Live (handle_gen h) p \<or> ps_phase s (unat (handle_idx h)) = Dying (handle_gen h) p)"
proof -
  have inv: "pin_inv N D s" by (rule pin_reachable_inv [OF assms(1,2)])
  have o: "owned s h p" using inv_parts(6) [OF inv, of t] assms(3) by (simp add: held_ok_def)
  have "granted s t (hidx h)" using assms(3) by (auto simp: granted_def)
  from granted_full [OF inv this o] o show ?thesis by (simp add: owned_def hidx_def)
qed

text \<open>A run: a thread publishes an object at index 0 and pins it.\<close>

lemma reach_work:
  "pin_reachable N D s \<Longrightarrow> pin_step (ps_id s t) (ps_mem s) (ps_pc s t) = Some (M, i, pc) \<Longrightarrow> pin_reachable N D (moved s t M i pc)"
  unfolding moved_def by (rule pin_reachable.step [OF _ pin_sys_step.work])

lemma moved_twice [simp]: "moved (moved s t M i pc) t M' i' pc' = moved s t M' i' pc'"
  by (simp add: moved_def)

definition wit_heap :: heap where
  "wit_heap = \<lparr>answers = [Grant (\<lambda>_. 7), Grant (\<lambda>_. 9)], next_blk = 0, live = {}\<rparr>"

definition wit_opened :: pin_sys where
  "wit_opened = (pin_start wit_heap)\<lparr>ps_pc := (ps_pc (pin_start wit_heap))(0 := Publish_Enter 0 1 5), ps_lock := Some 0,
     ps_phase := (ps_phase (pin_start wit_heap))(unat (0 :: 32 word) := Live 1 5)\<rparr>"

lemma wit_opened_reachable: "pin_reachable 1 1 wit_opened"
proof -
  have "pin_sys_step 1 1 (pin_start wit_heap) wit_opened" unfolding wit_opened_def by (rule pin_sys_step.publish) (simp_all add: pin_start_def)
  then show ?thesis by (rule pin_reachable.step [OF pin_reachable.start])
qed

lemma wit_published:
  "\<exists>M. pin_reachable 1 1 (moved wit_opened 0 M 0 (Publish_Ret 0 1 5 True)) \<and> table_wf (pm_table M) \<and> pm_next M = 1
    \<and> load_state M 0 = pin_state 1 True \<and> load_ptr M 0 = 5 \<and> load_stripes M 0 \<noteq> None"
proof -
  let ?at = "moved wit_opened 0"
  define M0 where "M0 = ps_mem wit_opened"
  have m0: "M0 = \<lparr>pm_table = empty_pintable, pm_next = 1, pm_heap = wit_heap\<rparr>" by (simp add: M0_def wit_opened_def pin_start_def)
  have wf0: "table_wf (pm_table M0)" by (simp add: m0 table_wf_def empty_pintable_def)
  have ch0: "pt_chunks (pm_table M0) ! 0 = None" by (simp add: m0 empty_pintable_def CCOL_PIN_MAX_CHUNKS_def)
  have st: "load_stripes M0 0 = None" using ch0 by (simp add: load_stripes_def slot_at_def)
  obtain h1 where h1: "fresh_block wit_heap (CCOL_PIN_CHUNK_SLOTS * 24) = (Some 0, h1)" "answers h1 = [Grant (\<lambda>_. 9)]" "next_blk h1 = 1"
    by (simp add: fresh_block_def mem_calloc_def mem_alloc_def wit_heap_def)
  obtain h2 where h2: "fresh_block h1 (CCOL_PIN_STRIPES * CCOL_PIN_LINE) = (Some 1, h2)" using h1(2,3) by (simp add: fresh_block_def mem_calloc_def mem_alloc_def)
  define M1 where "M1 = put_chunk 0 0 (M0\<lparr>pm_heap := h1\<rparr>)"
  have wf1: "table_wf (pm_table (M0\<lparr>pm_heap := h1\<rparr>))" and ch1: "pt_chunks (pm_table (M0\<lparr>pm_heap := h1\<rparr>)) ! 0 = None" using wf0 ch0 by simp_all
  have mx: "0 < CCOL_PIN_MAX_CHUNKS" by (simp add: pin_sizes)
  note p1 = put_chunk_loads [OF wf1 mx ch1, where k = 0, folded M1_def]
  have n1: "pm_next M1 = 1" "pm_heap M1 = h1" by (simp_all add: M1_def put_chunk_def m0)
  have s1: "load_stripes M1 0 = None" "has_slot M1 0" using p1(4) [of 0] p1(6) [of 0] st by simp_all
  define M2 where "M2 = store_slot (\<lambda>sl. sl\<lparr>sl_stripes := Some (1, replicate CCOL_PIN_STRIPES 0)\<rparr>) 0 (M1\<lparr>pm_heap := h2\<rparr>)"
  have wf2: "table_wf (pm_table (M1\<lparr>pm_heap := h2\<rparr>))" "has_slot (M1\<lparr>pm_heap := h2\<rparr>) 0" using p1(1) s1(2) by simp_all
  note p2 = store_slot_loads [OF wf2, of "\<lambda>sl. sl\<lparr>sl_stripes := Some (1, replicate CCOL_PIN_STRIPES 0)\<rparr>", folded M2_def] store_stripes_loads [OF wf2, of "Some (1, replicate CCOL_PIN_STRIPES 0)", folded M2_def]
  have s2: "has_slot M2 0" using p2(1) wf2(2) by simp
  define M3 where "M3 = store_slot (\<lambda>sl. sl\<lparr>sl_ptr := 5\<rparr>) 0 M2"
  note p3 = store_slot_loads [OF p2(3) s2, of "\<lambda>sl. sl\<lparr>sl_ptr := 5\<rparr>", folded M3_def] store_ptr_loads [OF p2(3) s2, of 5, folded M3_def]
  have s3: "has_slot M3 0" using p3(1) s2 by simp
  define M4 where "M4 = store_slot (\<lambda>sl. sl\<lparr>sl_state := pin_state 1 True\<rparr>) 0 M3"
  note p4 = store_slot_loads [OF p3(3) s3, of "\<lambda>sl. sl\<lparr>sl_state := pin_state 1 True\<rparr>", folded M4_def] store_state_loads [OF p3(3) s3, of "pin_state 1 True", folded M4_def]
  have pc0: "ps_pc wit_opened 0 = Publish_Enter 0 1 5" "ps_id wit_opened 0 = 0" by (simp_all add: wit_opened_def pin_start_def)
  have "pin_reachable 1 1 (?at (M0\<lparr>pm_heap := h1\<rparr>) 0 (Publish_Chunk 0 1 5 0))"
    by (rule reach_work [OF wit_opened_reachable]) (use pc0 ch0 h1(1) mx in \<open>simp add: pin_step_defs M0_def [symmetric] m0\<close>)
  from reach_work [OF this, of 0 M1 0 "Publish_Stripes 0 1 5"] have "pin_reachable 1 1 (?at M1 0 (Publish_Stripes 0 1 5))" by (simp add: pin_step_defs M1_def)
  from reach_work [OF this, of 0 "M1\<lparr>pm_heap := h2\<rparr>" 0 "Publish_Block 0 1 5 1"] have "pin_reachable 1 1 (?at (M1\<lparr>pm_heap := h2\<rparr>) 0 (Publish_Block 0 1 5 1))"
    using s1(1) n1(2) h2 by (simp add: pin_step_defs)
  from reach_work [OF this, of 0 M2 0 "Publish_Ptr 0 1 5"] have "pin_reachable 1 1 (?at M2 0 (Publish_Ptr 0 1 5))" by (simp add: pin_step_defs M2_def)
  from reach_work [OF this, of 0 M3 0 "Publish_State 0 1 5"] have "pin_reachable 1 1 (?at M3 0 (Publish_State 0 1 5))" by (simp add: pin_step_defs M3_def)
  from reach_work [OF this, of 0 M4 0 "Publish_Ret 0 1 5 True"] have "pin_reachable 1 1 (?at M4 0 (Publish_Ret 0 1 5 True))" by (simp add: pin_step_defs M4_def)
  moreover have "pm_next M4 = 1" using p4(4) p3(4) p2(4) n1(1) by simp
  moreover have "load_state M4 0 = pin_state 1 True" "load_ptr M4 0 = 5" "load_stripes M4 0 \<noteq> None" using p4(6-8) [of 0] p3(6-8) [of 0] p2(6) [of 0] by simp_all
  ultimately show ?thesis using p4(3) by blast
qed

definition wit_idle :: "pin_mem \<Rightarrow> pin_sys" where
  "wit_idle M = wit_opened\<lparr>ps_mem := M, ps_pc := (\<lambda>t. Idle), ps_lock := None\<rparr>"

lemma wit_idle_fields [simp]:
  "ps_mem (wit_idle M) = M" "ps_pc (wit_idle M) t = Idle" "ps_lock (wit_idle M) = None" "ps_held (wit_idle M) t = []" "ps_id (wit_idle M) t = 0"
  "ps_phase (wit_idle M) 0 = Live 1 5"
  by (simp_all add: wit_idle_def wit_opened_def pin_start_def)

lemma wit_idle_reachable:
  obtains M where "pin_reachable 1 1 (wit_idle M)" "table_wf (pm_table M)" "pm_next M = 1" "load_state M 0 = pin_state 1 True" "load_ptr M 0 = 5" "load_stripes M 0 \<noteq> None"
proof -
  obtain M where M: "pin_reachable 1 1 (moved wit_opened 0 M 0 (Publish_Ret 0 1 5 True))" "table_wf (pm_table M)" "pm_next M = 1"
      "load_state M 0 = pin_state 1 True" "load_ptr M 0 = 5" "load_stripes M 0 \<noteq> None" using wit_published by blast
  let ?s = "moved wit_opened 0 M 0 (Publish_Ret 0 1 5 True)"
  have e: "?s\<lparr>ps_pc := (ps_pc ?s)(0 := Idle), ps_lock := None, ps_phase := (if True then ps_phase ?s else (ps_phase ?s)(unat (0 :: 32 word) := Vacant))\<rparr> = wit_idle M"
    by (simp add: moved_def wit_idle_def wit_opened_def pin_start_def fun_eq_iff)
  have "ps_pc ?s 0 = Publish_Ret 0 1 5 True" by simp
  from pin_reachable.step [OF M(1) pin_sys_step.published [OF this]] have "pin_reachable 1 1 (wit_idle M)" unfolding e .
  then show ?thesis using that M(2-6) by blast
qed

lemma wit_handle: "handle_idx 1 = 0" "handle_gen 1 = 1"
  by (simp_all add: handle_idx_def handle_gen_def)

lemma wit_pinned: "\<exists>s. pin_reachable 1 1 s \<and> (1, 5) \<in> set (ps_held s 0)"
proof -
  obtain M where M: "pin_reachable 1 1 (wit_idle M)" "table_wf (pm_table M)" "pm_next M = 1" "load_state M 0 = pin_state 1 True" "load_ptr M 0 = 5" "load_stripes M 0 \<noteq> None"
    by (rule wit_idle_reachable)
  let ?s = "(wit_idle M)\<lparr>ps_pc := (ps_pc (wit_idle M))(0 := Pin_Enter 1)\<rparr>"
  let ?at = "moved ?s 0"
  have hs: "slot_at (pm_table M) 0 \<noteq> None" using stripes_has_slot [OF M(6)] by (simp add: has_slot_def)
  have "pin_sys_step 1 1 (wit_idle M) ?s" by (rule pin_sys_step.pin) simp_all
  with M(1) have "pin_reachable 1 1 ?s" by (rule pin_reachable.step)
  from reach_work [OF this, of 0 M 0 "Pin_State 1 0"] have "pin_reachable 1 1 (?at M 0 (Pin_State 1 0))" using lookup_eq [OF M(2)] hs by (simp add: pin_step_defs wit_handle)
  from reach_work [OF this, of 0 M 0 "Pin_Stripes 1 0"] have "pin_reachable 1 1 (?at M 0 (Pin_Stripes 1 0))" using M(4) by (simp add: pin_step_defs wit_handle)
  from reach_work [OF this, of 0 M 0 "Pin_Self 1 0"] have "pin_reachable 1 1 (?at M 0 (Pin_Self 1 0))" using M(6) by (simp add: pin_step_defs)
  from reach_work [OF this, of 0 "M\<lparr>pm_next := 2\<rparr>" 1 "Pin_Add 1 0"] have r: "pin_reachable 1 1 (?at (M\<lparr>pm_next := 2\<rparr>) 1 (Pin_Add 1 0))"
    using M(3) by (simp add: pin_step_defs pin_stripe_self_def pin_stripe_claim_def)
  define M1 where "M1 = add_count 1 (stripe_of 1) 0 (M\<lparr>pm_next := 2\<rparr>)"
  obtain k cs where kc: "load_stripes (M\<lparr>pm_next := 2\<rparr>) 0 = Some (k, cs)" using M(6) by auto
  have "table_wf (pm_table (M\<lparr>pm_next := 2\<rparr>))" using M(2) by simp
  note ld = add_count_loads(2,3) [OF this kc, of 1 "stripe_of 1" 0, folded M1_def]
  from reach_work [OF r, of 0 M1 1 "Pin_Check 1 0"] have "pin_reachable 1 1 (?at M1 1 (Pin_Check 1 0))" by (simp add: pin_step_defs M1_def)
  from reach_work [OF this, of 0 M1 1 "Pin_Ptr 1 0"] have "pin_reachable 1 1 (?at M1 1 (Pin_Ptr 1 0))" using ld(1) M(4) by (simp add: pin_step_defs wit_handle)
  from reach_work [OF this, of 0 M1 1 "Pin_Ret 1 5"] have r: "pin_reachable 1 1 (?at M1 1 (Pin_Ret 1 5))" using ld(2) M(5) by (simp add: pin_step_defs)
  have "ps_pc (?at M1 1 (Pin_Ret 1 5)) 0 = Pin_Ret 1 5" by simp
  from pin_reachable.step [OF r pin_sys_step.pinned [OF this]] show ?thesis by (intro exI conjI) (assumption | simp)+
qed

theorem pintable_no_use_after_free_witness:
  "\<exists>s. pin_reachable 1 1 s \<and> (1, 5) \<in> set (ps_held s 0) \<and> load_ptr (ps_mem s) 0 = 5"
proof -
  obtain s where "pin_reachable 1 1 s" "(1, 5) \<in> set (ps_held s 0)" using wit_pinned by blast
  then show ?thesis using pintable_no_use_after_free [of 1 1 s 1 5 0] by (auto simp: wit_handle)
qed

text \<open>
  Claim C26.  A destroy ends.  Let the destroyer start a poll when no thread holds a pin on
  the retired slot and none is inside a release of one or inside a pin call that had found
  the slot live; pin calls that have not yet read the slot's state, and all calls on other
  slots, may be under way, and more may start.  Then in every interleaving up to the free
  this poll returns zero if it returns, so the destroyer does not poll again; and from every state of such
  a run at most eleven steps of the destroyer alone end the poll, and its next step frees
  the object.
\<close>

theorem pintable_destroy_ends:
  assumes "pin_reachable N D s" "8 * (N * D) < 2 ^ 63" "ps_pc s t = Pins_Enter idx" "slot_quiet s (unat idx)"
    and "(\<lambda>x y. pin_sys_step N D x y \<and> ps_phase y (unat idx) \<noteq> Vacant)\<^sup>*\<^sup>* s s'"
  shows "(\<forall>i n. ps_pc s' t = Pins_Ret i n \<longrightarrow> i = idx \<and> n = 0)
    \<and> (\<exists>k \<le> 11. \<exists>s1 s2. (own_step t ^^ k) s' s1 \<and> ps_pc s1 t = Pins_Ret idx 0
         \<and> pin_sys_step N D s1 s2 \<and> ps_phase s2 (unat idx) = Vacant \<and> ps_pc s2 t = Idle)"
proof -
  have inv: "pin_inv N D s" by (rule pin_reachable_inv [OF assms(1,2)])
  have "poll_zero idx (ps_pc s t)" using assms(3) by simp
  from poll_run [OF assms(2,5) inv assms(4) this]
  have r: "pin_inv N D s'" "slot_quiet s' (unat idx)" "poll_zero idx (ps_pc s' t)" by blast+
  obtain k s1 where k: "k \<le> call_left (ps_pc s' t)" "(own_step t ^^ k) s' s1" "ps_pc s1 t = Pins_Ret idx 0"
    using poll_alone [OF assms(2) r] by blast
  have le: "k \<le> 11" using k(1) call_left_le [of "ps_pc s' t"] by linarith
  let ?s2 = "s1\<lparr>ps_pc := (ps_pc s1)(t := Idle), ps_phase := (ps_phase s1)(unat idx := Vacant)\<rparr>"
  have "pin_sys_step N D s1 ?s2" by (rule pin_sys_step.freed [OF k(3)])
  moreover have "ps_phase ?s2 (unat idx) = Vacant" "ps_pc ?s2 t = Idle" by simp_all
  ultimately have "\<exists>k \<le> 11. \<exists>s1 s2. (own_step t ^^ k) s' s1 \<and> ps_pc s1 t = Pins_Ret idx 0
      \<and> pin_sys_step N D s1 s2 \<and> ps_phase s2 (unat idx) = Vacant \<and> ps_pc s2 t = Idle" using le k(2,3) by blast
  moreover have "\<forall>i n. ps_pc s' t = Pins_Ret i n \<longrightarrow> i = idx \<and> n = 0" using r(3) by auto
  ultimately show ?thesis by blast
qed

text \<open>The object of the run above is retired, without a pin on it.\<close>

theorem pintable_destroy_ends_witness:
  "\<exists>s k s1 s2. pin_reachable 1 1 s \<and> ps_phase s 0 = Dying 1 5 \<and> ps_pc s 0 = Pins_Enter 0 \<and> k \<le> 11 \<and> (own_step 0 ^^ k) s s1
     \<and> ps_pc s1 0 = Pins_Ret 0 0 \<and> pin_sys_step 1 1 s1 s2 \<and> ps_phase s2 0 = Vacant"
proof -
  obtain M where M: "pin_reachable 1 1 (wit_idle M)" "table_wf (pm_table M)" "pm_next M = 1" "load_state M 0 = pin_state 1 True" "load_ptr M 0 = 5" "load_stripes M 0 \<noteq> None"
    by (rule wit_idle_reachable)
  let ?s = "(wit_idle M)\<lparr>ps_pc := (ps_pc (wit_idle M))(0 := Retire_Enter 0), ps_lock := Some 0, ps_phase := (ps_phase (wit_idle M))(unat (0 :: 32 word) := Dying 1 5)\<rparr>"
  let ?at = "moved ?s 0" and ?v = "load_state M 0"
  have hs: "slot_at (pm_table M) 0 \<noteq> None" using stripes_has_slot [OF M(6)] by (simp add: has_slot_def)
  have "pin_sys_step 1 1 (wit_idle M) ?s" by (rule pin_sys_step.destroy) simp_all
  with M(1) have "pin_reachable 1 1 ?s" by (rule pin_reachable.step)
  from reach_work [OF this, of 0 M 0 "Retire_Load 0 0"] have "pin_reachable 1 1 (?at M 0 (Retire_Load 0 0))" using lookup_eq [OF M(2)] hs by (simp add: pin_step_defs)
  from reach_work [OF this, of 0 M 0 "Retire_Store 0 0 ?v"] have r: "pin_reachable 1 1 (?at M 0 (Retire_Store 0 0 ?v))" by (simp add: pin_step_defs)
  define M1 where "M1 = store_slot (\<lambda>sl. sl\<lparr>sl_state := ?v AND NOT 1\<rparr>) 0 M"
  from reach_work [OF r, of 0 M1 0 "Retire_Ret 0"] have r: "pin_reachable 1 1 (?at M1 0 (Retire_Ret 0))" by (simp add: pin_step_defs M1_def)
  let ?r = "(?at M1 0 (Retire_Ret 0))\<lparr>ps_pc := (ps_pc (?at M1 0 (Retire_Ret 0)))(0 := Pins_Enter 0), ps_lock := None\<rparr>"
  have "ps_pc (?at M1 0 (Retire_Ret 0)) 0 = Retire_Ret 0" by simp
  from pin_reachable.step [OF r pin_sys_step.retired [OF this]] have rr: "pin_reachable 1 1 ?r" .
  have pc: "ps_pc ?r 0 = Pins_Enter 0" "slot_quiet ?r (unat (0 :: 32 word))" "ps_phase ?r 0 = Dying 1 5" by (simp_all add: slot_quiet_def)
  from pintable_destroy_ends [OF rr _ pc(1,2) rtranclp.rtrancl_refl] obtain k s1 s2 where
    "k \<le> 11" "(own_step 0 ^^ k) ?r s1" "ps_pc s1 0 = Pins_Ret 0 0" "pin_sys_step 1 1 s1 s2" "ps_phase s2 0 = Vacant" by auto
  with rr pc(1,3) show ?thesis by blast
qed

text \<open>
  Claim C27.  No call waits.  Whatever the other threads do to the memory between its steps,
  no call of the pin table makes more than eleven atomic steps.
\<close>

theorem pintable_calls_wait_free:
  assumes "\<forall>k < n. \<exists>i M M' i'. pin_step i M (f k) = Some (M', i', f (Suc k))"
  shows "n \<le> 11"
proof -
  have "k + call_left (f k) \<le> call_left (f 0)" if "k \<le> n" for k using that
  proof (induction k)
    case (Suc k)
    then obtain i M M' i' where "pin_step i M (f k) = Some (M', i', f (Suc k))" using assms by (metis Suc_le_lessD)
    from call_left_step [OF this] Suc show ?case by simp
  qed simp
  from this [of n] call_left_le [of "f 0"] show ?thesis by linarith
qed

theorem pintable_calls_wait_free_witness:
  "pin_step 0 (ps_mem (pin_start wit_heap)) (Pin_Enter 0) = Some (ps_mem (pin_start wit_heap), 0, Pin_Ret 0 0) \<and> (1 :: nat) \<le> 11"
  using pintable_calls_wait_free [of 1 "\<lambda>k. if k = 0 then Pin_Enter 0 else Pin_Ret 0 0"] by (auto simp: pin_step_defs)

text \<open>
  The release of a table frees each of its chunks and counter blocks and nothing
  else, and afterwards no handle resolves.
\<close>

theorem pintable_dispose_complete:
  assumes "length (pt_chunks T) = CCOL_PIN_MAX_CHUNKS" "ccol_pintable_dispose T h = (T', h')"
  shows "live h' = live h - table_blocks T \<and> pin_slot_lookup T' idx = None"
proof -
  have "pt_chunks T' = replicate CCOL_PIN_MAX_CHUNKS None" "live h' = live h - table_blocks T"
    using dispose_fold [OF assms(1) order_refl, of h T' h'] assms by (simp_all add: ccol_pintable_dispose_def table_blocks_def)
  then show ?thesis by (simp add: pin_slot_lookup_def Let_def)
qed

definition wit_table :: pintable where
  "wit_table = \<lparr>pt_chunks = (replicate CCOL_PIN_MAX_CHUNKS None)[0 := Some (3, replicate CCOL_PIN_CHUNK_SLOTS empty_slot)]\<rparr>"

theorem pintable_dispose_complete_witness:
  "pin_slot_lookup (fst (ccol_pintable_dispose wit_table (wit_heap\<lparr>live := {3}\<rparr>))) 0 = None
     \<and> live (snd (ccol_pintable_dispose wit_table (wit_heap\<lparr>live := {3}\<rparr>))) = {}"
proof -
  let ?d = "ccol_pintable_dispose wit_table (wit_heap\<lparr>live := {3}\<rparr>)"
  have "Some (3, replicate CCOL_PIN_CHUNK_SLOTS empty_slot) \<in> set (pt_chunks wit_table)" by (simp add: wit_table_def set_update_memI pin_sizes)
  then have "3 \<in> table_blocks wit_table" unfolding table_blocks_def by (rule UN_I) (simp add: chunk_blocks_def)
  moreover have "length (pt_chunks wit_table) = CCOL_PIN_MAX_CHUNKS" by (simp add: wit_table_def)
  ultimately show ?thesis using pintable_dispose_complete [of wit_table "wit_heap\<lparr>live := {3}\<rparr>" "fst ?d" "snd ?d" 0] by simp
qed

end
