(* ===== verification/Spec2Isabelle.thy ===== *)
theory Spec2Isabelle
  imports CCol_Vector CCol_Bstmap_Spec CCol_String_Split CCol_Procs CCol_Hashmap_Iter CCol_Http1_Msg CCol_Json_Text CCol_Pintable_Props
begin

text \<open>
  \<^bold>\<open>ccollections: a verification development of the container library.\<close>

  \<^bold>\<open>The program.\<close>  ccollections is a C library of owning containers and of services built
  over them.  \<^verbatim>\<open>src/common.c\<close> and \<^verbatim>\<open>include/common.h\<close> hold the return codes, the size
  limits, the allocator procs (\<^verbatim>\<open>ccol_memmgmt_procs_t\<close>: a container gets its allocator at
  creation and uses no other), the table that interns those procs, and the growable
  buffer.  \<^verbatim>\<open>csort.c\<close> is the stable merge sort that \<^verbatim>\<open>cvector.c\<close>, the growable array, calls.
  \<^verbatim>\<open>cbstmap.c\<close> is an AVL tree map, \<^verbatim>\<open>chashmap.c\<close> a hash map with two backends,
  \<^verbatim>\<open>cstring.c\<close> a growable string whose splitting fills a vector of strings.  The services
  (JSON, YAML, HTTP, logger, caches, pools and threads) are clients of these.

  \<^bold>\<open>The model.\<close>  It is a shallow embedding with explicit state.  A container is a record
  with the fields of its C struct.  Memory is a \<^typ>\<open>heap\<close>: the set of live blocks and the
  list of answers the allocator will give, so that every theorem holds for every pattern
  of refused requests and every content of fresh memory, and a leak shows in the set of
  live blocks.  Freeing a block that is not live changes nothing there, so a double free is
  not an error of the model by itself, and the order of a destructor call and a free is not
  observable.  A function that can abort on an assertion, copy
  between overlapping regions, read a freed node or loop returns an option, and
  \<^term>\<open>None\<close> is that outcome; theorems state that the result is \<^term>\<open>Some\<close>.  \<^verbatim>\<open>size_t\<close> is
  a natural number with the wrap-around written out (\<^term>\<open>sz_add\<close>, \<^term>\<open>sz_sub\<close>,
  \<^term>\<open>sz_mul\<close>) where the code computes with it, hashes are \<^typ>\<open>64 word\<close>, and bytes are
  \<^typ>\<open>8 word\<close>.  A pointer argument says where it points: nowhere, outside the container,
  or to an offset of the container's own storage, so that aliasing calls are modelled.
  Loops are recursive functions with a termination proof, or \<^verbatim>\<open>partial_function\<close> where
  termination depends on an invariant; no fuel is used, and every such loop is proved to
  end.  The target is LP64 x86-64: little-endian, 64-bit \<^verbatim>\<open>size_t\<close>, an 80-bit
  \<^verbatim>\<open>long double\<close> in 16 bytes, signed \<^verbatim>\<open>char\<close>.

  \<^bold>\<open>The theories\<close>, bottom up:

  \<^item> \<^verbatim>\<open>CCol_Prelude\<close>: return codes, limits, the heap and its allocation macros
    (\<^verbatim>\<open>_ccol_mem_alloc\<close> and its kin of \<^verbatim>\<open>common.h\<close>), pointers, the facts about live
    blocks (\<^term>\<open>blocks_moved\<close>: what an operation takes and gives back) and shared lemmas.
  \<^item> \<^verbatim>\<open>CCol_Container\<close>: the locale \<^verbatim>\<open>container\<close>, the contract of every owning container:
    creation, operations that take effect or leave the contents, and destruction that
    frees what is owned.  Its lemma \<^verbatim>\<open>lifecycle\<close> lifts the contract to every program of
    operations; it is interpreted for the vector, the string and the hash map, and for the
    tree map under every comparator that meets the contract \<^verbatim>\<open>key_comparator\<close>.
  \<^item> \<^verbatim>\<open>CCol_Common\<close>: power-of-two rounding and the growable buffer of \<^verbatim>\<open>common.c\<close> and
    \<^verbatim>\<open>cgrowbuf.h\<close> with its latched out-of-memory flag.
  \<^item> \<^verbatim>\<open>CCol_Sort\<close>: \<^verbatim>\<open>csort.c\<close>, both drivers, both merges and the default comparators.
  \<^item> \<^verbatim>\<open>CCol_Vector\<close>: \<^verbatim>\<open>cvector.c\<close>, every operation over the bytes of the buffer.
  \<^item> \<^verbatim>\<open>CCol_Values\<close>, \<^verbatim>\<open>CCol_Keys\<close>: typed values in bytes, and the key comparison of
    \<^verbatim>\<open>cbstmap.c\<close> with its typed descents, NaNs and mixed lengths included.
  \<^item> \<^verbatim>\<open>CCol_Bstmap\<close>, \<^verbatim>\<open>CCol_Bstmap_Avl\<close>, \<^verbatim>\<open>CCol_Bstmap_Map\<close>, \<^verbatim>\<open>CCol_Bstmap_Spec\<close>:
    \<^verbatim>\<open>cbstmap.c\<close>: operations with the code's path arrays of 128 entries, AVL balance,
    the refinement to a sorted association list, the iterative clearing and the iterator.
  \<^item> \<^verbatim>\<open>CCol_Cstr\<close>, \<^verbatim>\<open>CCol_String\<close>, \<^verbatim>\<open>CCol_String_Edit\<close>, \<^verbatim>\<open>CCol_String_Replace\<close>,
    \<^verbatim>\<open>CCol_String_Search\<close>, \<^verbatim>\<open>CCol_String_Spec\<close>, \<^verbatim>\<open>CCol_String_Split\<close>: \<^verbatim>\<open>cstring.c\<close> and
    \<^verbatim>\<open>cascii.h\<close>: editing with arguments inside the string, the searches with the budget
    after which \<^verbatim>\<open>cstring_rfind\<close> turns to the linear algorithm, replacing, splitting.
  \<^item> \<^verbatim>\<open>CCol_Procs\<close>: the lock-free intern table of \<^verbatim>\<open>common.c\<close> (64 slots) as a step
    relation over any number of threads; an atomic access of C11 is one step.
  \<^item> \<^verbatim>\<open>CCol_Hash\<close>: the hash functions of \<^verbatim>\<open>chashmap.c\<close> in both modes; the process secret is
    an argument.  \<^verbatim>\<open>CCol_Probing\<close>: the locale \<^verbatim>\<open>linear_probing\<close> of tables with wrap-around,
    its insertion and its backward shift, interpreted on the open-addressing table.
  \<^item> \<^verbatim>\<open>CCol_Hashmap_Oa\<close>, \<^verbatim>\<open>_Oa_Inv\<close>, \<^verbatim>\<open>_Oa_Spec\<close>: the open-addressing backend: probe span,
    rebuilds in either hash mode, the bounded fast attempt, deletion.
  \<^item> \<^verbatim>\<open>CCol_Dllist\<close>: the insertion-order list over its pointers.  \<^verbatim>\<open>CCol_Hashmap_Sc\<close>,
    \<^verbatim>\<open>_Sc_Inv\<close>, \<^verbatim>\<open>_Sc_Refile\<close>, \<^verbatim>\<open>_Sc_Spec\<close>, \<^verbatim>\<open>_Sc_Ops\<close>, \<^verbatim>\<open>_Sc_Map\<close>, \<^verbatim>\<open>_Sc_Life\<close>: the chained
    backend: nodes in an explicit store, scaling, rehashing, values that alias their node.
  \<^item> \<^verbatim>\<open>CCol_Hashmap\<close>, \<^verbatim>\<open>CCol_Hashmap_Spec\<close>, \<^verbatim>\<open>CCol_Hashmap_Iter\<close>: the interface over both
    backends, its refinement to a map under the caller's key equality, iterators, walks
    and the destructor pass.
  \<^item> \<^verbatim>\<open>CCol_Http\<close>: \<^verbatim>\<open>chttp.c\<close>: Base64 over its output buffers and basic authentication.
  \<^item> \<^verbatim>\<open>CCol_Http1_Lex\<close>, \<^verbatim>\<open>CCol_Http1\<close>: \<^verbatim>\<open>chttp1_parser.c\<close>: the character classes, integers,
    host values, transfer codings and chunk extensions; then the parser record, the line
    buffer with its spill to the heap, the request, status, header and chunk lines and the
    loop of \<^verbatim>\<open>chttp1_parser_execute\<close>, one definition per case of its switch.  The
    callbacks are functions that pass on a context of the caller.  \<^verbatim>\<open>CCol_Http1_Feed\<close>: what a
    cut of the input changes.  \<^verbatim>\<open>CCol_Http1_Inv\<close>, \<^verbatim>\<open>CCol_Http1_Spec\<close>: totality of the readers,
    the invariant of the buffers and the caps, the one of the framing (\<^term>\<open>framing_ok\<close>), and
    that every turn of the loop keeps them.  \<^verbatim>\<open>CCol_Http1_Body\<close>, \<^verbatim>\<open>CCol_Http1_Msg\<close>: exact
    integers, chunked bodies and whole requests.
  \<^item> \<^verbatim>\<open>CCol_Utf8\<close>: \<^verbatim>\<open>include/internal/cutf8.h\<close>: the UTF-8 check that steps over sequences by the
    table of their lead bytes, and its diagnostics.
  \<^item> \<^verbatim>\<open>CCol_Json_Str\<close>: the string literals of \<^verbatim>\<open>cjson.c\<close>: the first pass that finds the end of
    a literal, the second one that decodes escapes into the growable buffer, every error
    message, and the serialiser.  \<^verbatim>\<open>CCol_Json_Read\<close>: what the parser accepts and what it
    holds at each exit.  \<^verbatim>\<open>CCol_Json_Text\<close>: the serialised text is read back.
  \<^item> \<^verbatim>\<open>CCol_Pintable\<close>: \<^verbatim>\<open>cpintable.c\<close>: the table of handles as chunks of slots with striped
    counters, each call as its atomic accesses, and the threads and the owner that make
    the calls, as the header asks them to.  \<^verbatim>\<open>CCol_Pintable_Inv\<close>: what the loads see after a
    store, and the invariant: a counter is the sum of the pins of its threads, the state
    word of a slot follows its owner.  \<^verbatim>\<open>CCol_Pintable_Spec\<close>: every step keeps it, with one
    lemma for what a step leaves to the other threads.  \<^verbatim>\<open>CCol_Pintable_Props\<close>: the contract.

  \<^bold>\<open>What is proved.\<close>  For each container: programs of operations refine an abstract
  container, end without a failed assertion or an undefined copy, and leak nothing,
  whatever the allocator refuses; the operations one by one, with the return code of every
  branch and arguments that point into the container; iterators visit every element once
  and free themselves.  For the algorithms: sorting is a stable permutation and both sorts
  agree; the tree stays balanced, so the arrays of 128 entries and the one-byte heights
  hold for counts up to \<open>2\<^sup>6\<^sup>3\<close>; every search path finds the same occurrence; splitting
  joins back; the open-addressing table stays reachable within its probe span and never
  needs memory while a slot is free; the chained map keeps insertion order.  For the
  intern table: one slot per content under every interleaving, no race, no false full,
  no deadlock.  For Base64: the round trip, a decoder that accepts exactly the
  canonical spelling, and credentials that decode to what was asked for.  For the HTTP/1 parser: on every
  input, in any buffers and with any callbacks it returns and touches only the bytes of its
  line; the cut into buffers does not show; no message has two framings; a request that is
  written down is read back, to its last byte; a truncated message is an error.  For text:
  the UTF-8 check accepts exactly the encodings of scalar values; a JSON string literal
  that is accepted is UTF-8 in one fresh block, a refused one leaves no block; every string
  survives serialisation and parsing.  For the pin table: in every interleaving a held pin
  keeps its object from being freed, a handle resolves only to an object of its generation, a
  destroyer's poll of a quiet slot reads zero and is its last, and no call makes more than eleven steps.

  \<^bold>\<open>Hypotheses.\<close>  Programs are quantified over every allocator.  Custom comparators have to
  be total orders (\<^verbatim>\<open>order_ok\<close>), and custom hash and equality procs have to agree
  (\<^term>\<open>key_procs_ok\<close>), as the headers demand; a witness shows each can hold.  The pin table
  is bounded by \<open>N\<close> threads with at most \<open>D\<close> pins each and \<open>8 * N * D\<close> below \<open>2\<^sup>6\<^sup>3\<close>, so that its
  counters do not wrap.

  \<^bold>\<open>Limits.\<close>  Reads of \<^verbatim>\<open>cstring_rfind\<close>'s block filter outside its text would be unspecified
  bytes, not an error; the scans of \<^verbatim>\<open>CCol_Http1_Lex\<close> are in bounds by construction; a chain of
  a bucket is a list and cannot be cyclic; a pointer into a hash map addresses the start of a
  stored value; encodings of \<^verbatim>\<open>long double\<close> that the hardware never writes are ordered by their
  fields; a callback of the parser cannot change the parser.

  \<^bold>\<open>Not modelled.\<close>  The typed macros of the headers (they expand to the calls modelled
  here); locks, clocks, random seeds and files of the operating system; sockets, TLS, the
  event loops of the HTTP client and server, the logger's output and the thread pool,
  which are interaction with the operating system more than computation; the counters and
  accessors of the unit-test build; the stream functions of \<^verbatim>\<open>chttp1_parser.c\<close>, which wait
  for, read and write sockets.  The tree, the numbers and the paths of JSON, YAML, the
  LRU cache and the memory pools are computation and are left for later work.
\<close>

end
